(* ===== verification/Prelude.thy ===== *)
theory Prelude
  imports "HOL-Library.Word" "HOL-Library.Sublist"
begin

text \<open>
  The library shared by the components: the machine types of the C code on the
  64-bit targets of the app, byte strings read as big-endian and little-endian
  numbers, the shift-and-or loops by which the code assembles them, the result
  type of a reader (the value, or nothing, with the input that is left), and the
  lemma collections.
\<close>

unbundle bit_operations_syntax

type_synonym byte = "8 word"
type_synonym u16 = "16 word"
type_synonym u32 = "32 word"
type_synonym u64 = "64 word"
type_synonym bytes = "byte list"

named_theorems reader_simps \<open>evaluation of the byte string readers\<close>
named_theorems suffix_intros \<open>a reader leaves a suffix of its input\<close>
named_theorems writer_simps \<open>effect of the byte string writers\<close>

section \<open>Big-endian and little-endian numbers\<close>

definition be_val :: "bytes \<Rightarrow> nat" where
  "be_val bs = foldl (\<lambda>a b. a * 256 + unat b) 0 bs"

fun be_bytes :: "nat \<Rightarrow> nat \<Rightarrow> bytes" where
  "be_bytes 0 v = []"
| "be_bytes (Suc n) v = be_bytes n (v div 256) @ [of_nat v]"

definition le_val :: "bytes \<Rightarrow> nat" where
  "le_val bs = be_val (rev bs)"

definition le_bytes :: "nat \<Rightarrow> nat \<Rightarrow> bytes" where
  "le_bytes n v = rev (be_bytes n v)"

lemma be_val_Nil [simp]: "be_val [] = 0"
  by (simp add: be_val_def)

lemma be_val_snoc [simp]: "be_val (bs @ [b]) = be_val bs * 256 + unat b"
  by (simp add: be_val_def)

lemma be_val_single [simp]: "be_val [b] = unat b"
  by (simp add: be_val_def)

lemma unat_byte_less [simp]: "unat (b :: byte) < 256"
  using unsigned_less [of b] by simp

lemma unat_byte_of_nat [simp]: "unat (of_nat v :: byte) = v mod 256"
  by (simp add: unat_of_nat)

lemma be_val_append: "be_val (xs @ ys) = be_val xs * 256 ^ length ys + be_val ys"
proof (induction ys rule: rev_induct)
  case (snoc y ys)
  then show ?case
    by (simp flip: append_assoc add: algebra_simps)
qed simp

lemma be_val_Cons: "be_val (x # xs) = unat x * 256 ^ length xs + be_val xs"
  using be_val_append [of "[x]" xs] by simp

lemma be_val_less: "be_val bs < 256 ^ length bs"
proof (induction bs rule: rev_induct)
  case (snoc b bs)
  have "be_val bs * 256 + unat b < Suc (be_val bs) * 256" by simp
  also have "\<dots> \<le> 256 ^ length bs * 256"
    using snoc by (intro mult_le_mono1) simp
  finally show ?case by (simp add: mult.commute)
qed simp

lemma length_be_bytes [simp]: "length (be_bytes n v) = n"
  by (induction n arbitrary: v) simp_all

lemma be_val_be_bytes: "be_val (be_bytes n v) = v mod 256 ^ n"
proof (induction n arbitrary: v)
  case (Suc n)
  have "v mod 256 ^ Suc n = v div 256 mod 256 ^ n * 256 + v mod 256"
    by (simp add: mod_mult2_eq mult.commute)
  with Suc show ?case by simp
qed simp

lemma be_val_be_bytes_id [simp]: "v < 256 ^ n \<Longrightarrow> be_val (be_bytes n v) = v"
  by (simp add: be_val_be_bytes)

lemma be_bytes_be_val [simp]: "be_bytes (length bs) (be_val bs) = bs"
proof (induction bs rule: rev_induct)
  case (snoc b bs)
  have "(be_val bs * 256 + unat b) div 256 = be_val bs"
    by (simp add: div_add1_eq)
  moreover have "(of_nat (be_val bs * 256 + unat b) :: byte) = b"
    by (simp only: word_unat_eq_iff unat_byte_of_nat) simp
  ultimately show ?case using snoc by simp
qed simp

lemma be_bytes_eqI: "length bs = n \<Longrightarrow> be_val bs = v \<Longrightarrow> be_bytes n v = bs"
  by auto

lemma be_bytes_0 [simp]: "be_bytes n 0 = replicate n 0"
  by (induction n) (simp_all add: replicate_append_same)

lemma le_val_Nil [simp]: "le_val [] = 0"
  by (simp add: le_val_def)

lemma le_val_Cons [simp]: "le_val (b # bs) = unat b + 256 * le_val bs"
  by (simp add: le_val_def)

lemma length_le_bytes [simp]: "length (le_bytes n v) = n"
  by (simp add: le_bytes_def)

lemma le_val_le_bytes: "v < 256 ^ n \<Longrightarrow> le_val (le_bytes n v) = v"
  by (simp add: le_val_def le_bytes_def)

lemma le_bytes_le_val: "le_bytes (length bs) (le_val bs) = bs"
  using be_bytes_be_val [of "rev bs"] by (simp add: le_bytes_def le_val_def)

lemma le_val_less: "le_val bs < 256 ^ length bs"
  using be_val_less [of "rev bs"] by (simp add: le_val_def)

section \<open>Words: disjoint shifts and masks\<close>

lemma unat_mask_eq: "unat (w AND mask n) = unat w mod 2 ^ n" for w :: "'a :: len word"
  unfolding take_bit_eq_mask [symmetric] unsigned_take_bit_eq by (simp add: take_bit_eq_mod)

lemma unat_drop_bit_div: "unat (drop_bit n w) = unat w div 2 ^ n" for w :: "'a :: len word"
  unfolding unat_drop_bit_eq by (simp add: drop_bit_eq_div)

lemma unat_less_pow:
  "unat (v :: u16) < 65536" "unat (w :: u32) < 4294967296" "unat (x :: u64) < 18446744073709551616"
  using unsigned_less [of v] unsigned_less [of w] unsigned_less [of x] by simp_all

lemma bit_63_iff: "bit v 63 \<longleftrightarrow> 2 ^ 63 \<le> unat v" for v :: u64
proof -
  have "bit v 63 \<longleftrightarrow> odd (unat v div 2 ^ 63)"
    using bit_iff_odd [of "unat v" 63] by (simp add: bit_unsigned_iff)
  also have "\<dots> \<longleftrightarrow> 2 ^ 63 \<le> unat v"
  proof -
    have "unat v div 2 ^ 63 < 2" using unat_less_pow(3) [of v] by simp
    then show ?thesis by (cases "unat v div 2 ^ 63") (auto simp: div_eq_0_iff less_2_cases_iff)
  qed
  finally show ?thesis .
qed

lemma sint_neg_iff: "sint v < 0 \<longleftrightarrow> 2 ^ 63 \<le> unat v" for v :: u64
  using bit_last_iff [of v] by (simp add: bit_63_iff)

lemma bits_of_less:
  fixes a :: "'a :: len word"
  assumes "unat a < 2 ^ n" "bit a k"
  shows "k < n"
proof (rule ccontr)
  assume k: "\<not> k < n"
  have "bit (unat a) k" using assms(2) by (simp add: bit_unsigned_iff)
  then have "odd (unat a div 2 ^ k)" by (simp add: bit_iff_odd)
  moreover have "unat a < 2 ^ k"
    using assms(1) k by (meson linorder_not_less order_less_le_trans power_increasing_iff
        one_less_numeral_iff semiring_norm(76))
  ultimately show False by simp
qed

lemma push_or_eq_plus:
  fixes r a :: "'a :: len word"
  assumes "unat a < 2 ^ n"
  shows "push_bit n r OR a = push_bit n r + a"
proof -
  have "push_bit n r AND a = 0"
    using bits_of_less [OF assms]
    by (intro bit_word_eqI) (auto simp: bit_simps not_le [symmetric])
  then show ?thesis by (simp add: disjunctive_add_eq_or)
qed

lemma unat_push_or:
  fixes r a :: "'a :: len word"
  assumes "unat a < 2 ^ n"
  shows "unat (push_bit n r OR a) = (unat r * 2 ^ n + unat a) mod 2 ^ LENGTH('a)"
  unfolding push_or_eq_plus [OF assms] unat_word_ariths unsigned_push_bit_eq
  by (simp add: push_bit_eq_mult take_bit_eq_mod mod_add_left_eq)

lemma unat_ucast_byte [simp]:
  "unat (ucast (b :: byte) :: u64) = unat b"
  "unat (ucast (b :: byte) :: u32) = unat b"
  "unat (ucast (b :: byte) :: u16) = unat b"
  using unat_byte_less [of b]
  by (simp_all add: unsigned_ucast_eq take_bit_eq_mod del: unat_byte_less)

lemma byte_eq_iff_bits:
  "x = y \<longleftrightarrow> bit x 0 = bit y 0 \<and> bit x 1 = bit y 1 \<and> bit x 2 = bit y 2 \<and> bit x 3 = bit y 3 \<and>
     bit x 4 = bit y 4 \<and> bit x 5 = bit y 5 \<and> bit x 6 = bit y 6 \<and> bit x 7 = bit y 7"
  for x y :: byte
proof
  assume *: "bit x 0 = bit y 0 \<and> bit x 1 = bit y 1 \<and> bit x 2 = bit y 2 \<and> bit x 3 = bit y 3 \<and>
     bit x 4 = bit y 4 \<and> bit x 5 = bit y 5 \<and> bit x 6 = bit y 6 \<and> bit x 7 = bit y 7"
  show "x = y"
  proof (rule bit_word_eqI)
    fix n :: nat
    assume "n < LENGTH(8)"
    then have "n = 0 \<or> n = 1 \<or> n = 2 \<or> n = 3 \<or> n = 4 \<or> n = 5 \<or> n = 6 \<or> n = 7"
      by simp arith
    with * show "bit x n = bit y n" by metis
  qed
qed simp

lemma byte_split_7:
  fixes b :: byte
  shows "unat (b AND 0x7f) = unat b mod 128"
    and "b AND 0x80 \<noteq> 0 \<longleftrightarrow> 128 \<le> unat b"
proof -
  have "0x7f = (mask 7 :: byte)" by (simp add: mask_eq_exp_minus_1)
  then show "unat (b AND 0x7f) = unat b mod 128" by (simp only: unat_mask_eq) simp
  have "b AND 0x80 = push_bit 7 (drop_bit 7 b)"
    by (simp add: byte_eq_iff_bits bit_simps)
  then have "b AND 0x80 = 0 \<longleftrightarrow> drop_bit 7 b = 0"
    by (auto simp: byte_eq_iff_bits bit_simps dest: bit_imp_le_length)
  also have "\<dots> \<longleftrightarrow> unat b div 128 = 0"
    by (simp add: word_unat_eq_iff unat_drop_bit_div)
  finally show "b AND 0x80 \<noteq> 0 \<longleftrightarrow> 128 \<le> unat b" by auto
qed

lemma low_seven: "(ucast v :: byte) AND 0x7f = of_nat (unat v mod 128)" for v :: u64
proof -
  have "unat (ucast v :: byte) mod 128 = unat v mod 128"
    by (simp add: unsigned_ucast_eq take_bit_eq_mod mod_mod_cancel)
  then show ?thesis
    by (simp add: word_unat_eq_iff byte_split_7)
qed

lemma low_seven_high: "((ucast v :: byte) AND 0x7f) OR 0x80 = of_nat (128 + unat v mod 128)" for v :: u64
proof -
  have "0x80 = push_bit 7 (1 :: byte)" by (simp add: push_bit_eq_mult)
  moreover have "unat ((ucast v :: byte) AND 0x7f) < 2 ^ 7" by (simp add: byte_split_7)
  ultimately have "0x80 OR ((ucast v :: byte) AND 0x7f) = 0x80 + (ucast v AND 0x7f)"
    using push_or_eq_plus by metis
  then show ?thesis by (simp add: low_seven or.commute)
qed

lemma be_bytes_numeral [simp]:
  "be_bytes (numeral k) v = be_bytes (pred_numeral k) (v div 256) @ [of_nat v]"
  by (simp only: numeral_eq_Suc be_bytes.simps)

lemma be_bytes_Suc_0 [simp]: "be_bytes (Suc 0) v = [of_nat v]"
  by simp

lemma be_bytes_word:
  "be_bytes 2 (unat (w :: u16)) = [ucast (drop_bit 8 w), ucast w]"
  "be_bytes 4 (unat (x :: u32)) =
     [ucast (drop_bit 24 x), ucast (drop_bit 16 x), ucast (drop_bit 8 x), ucast x]"
  "be_bytes 8 (unat (y :: u64)) =
     [ucast (drop_bit 56 y), ucast (drop_bit 48 y), ucast (drop_bit 40 y), ucast (drop_bit 32 y),
      ucast (drop_bit 24 y), ucast (drop_bit 16 y), ucast (drop_bit 8 y), ucast y]"
  by (simp_all add: word_unat_eq_iff unsigned_ucast_eq take_bit_eq_mod unat_drop_bit_div
      flip: div_mult2_eq)

section \<open>The assembling loop\<close>

text \<open>One turn of \<open>result <<= 8; result |= data[i]\<close> on a 64-bit accumulator.\<close>

definition shift_in :: "u64 \<Rightarrow> byte \<Rightarrow> u64" where
  "shift_in r b = push_bit 8 r OR ucast b"

lemma unat_shift_in: "unat (shift_in r b) = (unat r * 256 + unat b) mod 2 ^ 64"
  unfolding shift_in_def by (subst unat_push_or) simp_all

lemma unat_foldl_shift_in:
  "unat (foldl shift_in 0 bs) = be_val bs mod 2 ^ 64"
proof (induction bs rule: rev_induct)
  case (snoc b bs)
  have "unat (foldl shift_in 0 (bs @ [b])) = (be_val bs mod 2 ^ 64 * 256 + unat b) mod 2 ^ 64"
    using snoc by (simp add: unat_shift_in)
  also have "\<dots> = be_val (bs @ [b]) mod 2 ^ 64"
    by (simp only: be_val_snoc) (metis mod_add_left_eq mod_mult_left_eq)
  finally show ?case .
qed simp

lemma unat_foldl_shift_in_small:
  assumes "length bs \<le> 8"
  shows "unat (foldl shift_in 0 bs) = be_val bs"
proof -
  have "be_val bs < 256 ^ length bs" by (rule be_val_less)
  also have "(256 :: nat) ^ length bs \<le> 256 ^ 8"
    using assms by (intro power_increasing) simp_all
  finally have "be_val bs < 2 ^ 64" by simp
  then show ?thesis by (simp add: unat_foldl_shift_in)
qed

section \<open>Readers\<close>

text \<open>
  A function of the code that reads from an input, stores a value through a pointer
  and returns 1, or returns 0: the value or nothing, and the input as the call
  leaves it, also where it fails.
\<close>

type_synonym 'a reader = "bytes \<Rightarrow> 'a option \<times> bytes"

definition and_then ::
  "'a option \<times> 's \<Rightarrow> ('a \<Rightarrow> 's \<Rightarrow> 'b option \<times> 's) \<Rightarrow> 'b option \<times> 's" where
  "and_then r k = (case r of (None, s) \<Rightarrow> (None, s) | (Some a, s) \<Rightarrow> k a s)"

lemma and_then_simps [simp, reader_simps]:
  "and_then (None, s) k = (None, s)"
  "and_then (Some a, s) k = k a s"
  by (simp_all add: and_then_def)

lemma and_then_eq_Some:
  "and_then r k = (Some b, s) \<longleftrightarrow> (\<exists>a t. r = (Some a, t) \<and> k a t = (Some b, s))"
  by (cases r; cases "fst r") auto

lemma case_reader_eq_Some:
  "(case x of (None, s) \<Rightarrow> (None, f s) | (Some a, s) \<Rightarrow> k a s) = (Some b, r) \<longleftrightarrow>
     (\<exists>a s. x = (Some a, s) \<and> k a s = (Some b, r))"
  by (cases x; cases "fst x") auto

lemma and_then_suffix [suffix_intros]:
  assumes "suffix (snd r) c" and "\<And>a s. r = (Some a, s) \<Longrightarrow> suffix (snd (k a s)) s"
  shows "suffix (snd (and_then r k)) c"
proof (cases r)
  case (Pair o' s)
  show ?thesis
  proof (cases o')
    case None
    with Pair assms(1) show ?thesis by simp
  next
    case (Some a)
    with Pair assms(2) have "suffix (snd (k a s)) s" by simp
    with Pair Some assms(1) show ?thesis by (auto intro: suffix_order.trans)
  qed
qed

section \<open>Writers\<close>

text \<open>
  A function of the code that changes a state and returns 1 or 0; \<open>and_also\<close> is the
  chain \<open>f(s) && g(s)\<close>, or the early return when \<open>f\<close> fails.
\<close>

definition and_also :: "bool \<times> 's \<Rightarrow> ('s \<Rightarrow> bool \<times> 's) \<Rightarrow> bool \<times> 's" where
  "and_also r k = (case r of (success, s) \<Rightarrow> if success then k s else (False, s))"

lemma and_also_simps [simp]:
  "and_also (True, s) k = k s"
  "and_also (False, s) k = (False, s)"
  by (simp_all add: and_also_def)

lemma and_also_eq_True:
  "and_also r k = (True, s) \<longleftrightarrow> (\<exists>t. r = (True, t) \<and> k t = (True, s))"
  by (cases r) (auto simp: and_also_def)

text \<open>Overwriting the bytes of an object from an offset on, as \<open>memcpy\<close> does.\<close>

definition poke :: "bytes \<Rightarrow> nat \<Rightarrow> bytes \<Rightarrow> bytes" where
  "poke b off xs = take off b @ xs @ drop (off + length xs) b"

lemma length_poke [simp]: "off + length xs \<le> length b \<Longrightarrow> length (poke b off xs) = length b"
  by (simp add: poke_def)

lemma poke_Nil [simp]: "poke b off [] = b"
  by (simp add: poke_def)

lemma poke_at: "length a = off \<Longrightarrow> length x = length xs \<Longrightarrow> poke (a @ x @ r) off xs = a @ xs @ r"
  by (simp add: poke_def)

lemma take_poke_before: "n \<le> off \<Longrightarrow> off \<le> length b \<Longrightarrow> take n (poke b off xs) = take n b"
  by (simp add: poke_def min_def)

lemma take_poke_end:
  "off + length xs \<le> length b \<Longrightarrow> take (off + length xs) (poke b off xs) = take off b @ xs"
  by (simp add: poke_def)

end
