(* ===== verification/Codec.thy ===== *)
theory Codec
  imports Prelude
begin

text \<open>
  The interface between the code that writes an encoding and the code that reads
  it back. A codec is an encoder into bytes and a reader; the law of the weaker
  locale says that the reader takes exactly the encoding off the front of its
  input, the law of the stronger one that it accepts nothing else. The clients
  (prefix freeness, injectivity, unique decoding of sequences, canonicity) are
  proved once, and every encoding of the components is an interpretation.
\<close>

text \<open>Reading a fixed number of values, one after the other, as a caller's loop does.\<close>

fun read_n :: "'a reader \<Rightarrow> nat \<Rightarrow> 'a list reader" where
  "read_n dec 0 c = (Some [], c)"
| "read_n dec (Suc n) c =
     and_then (dec c) (\<lambda>x c1. and_then (read_n dec n c1) (\<lambda>xs c2. (Some (x # xs), c2)))"

locale codec =
  fixes enc :: "'a \<Rightarrow> bytes" and dec :: "'a reader" and ok :: "'a \<Rightarrow> bool"
  assumes dec_enc: "ok x \<Longrightarrow> dec (enc x @ r) = (Some x, r)"
begin

lemma prefix_free:
  assumes "ok x" "ok y" "enc x @ r = enc y @ s"
  shows "x = y \<and> r = s"
  by (metis assms dec_enc option.inject prod.inject)

lemma enc_inj: "inj_on enc {x. ok x}"
  using prefix_free [where r = "[]" and s = "[]"] by (auto intro: inj_onI)

lemma read_n_concat:
  "\<forall>x \<in> set xs. ok x \<Longrightarrow> read_n dec (length xs) (concat (map enc xs) @ r) = (Some xs, r)"
  by (induction xs) (simp_all add: dec_enc)

lemma concat_inj:
  assumes "length xs = length ys" "\<forall>x \<in> set xs. ok x" "\<forall>y \<in> set ys. ok y"
    and "concat (map enc xs) @ r = concat (map enc ys) @ s"
  shows "xs = ys \<and> r = s"
  by (metis assms read_n_concat option.inject prod.inject)

end

locale strict_codec = codec +
  assumes dec_ok: "dec c = (Some x, r) \<Longrightarrow> ok x"
    and dec_sound: "dec c = (Some x, r) \<Longrightarrow> c = enc x @ r"
begin

lemma dec_iff: "dec c = (Some x, r) \<longleftrightarrow> ok x \<and> c = enc x @ r"
  using dec_enc dec_ok dec_sound by blast

lemma canonical:
  assumes "dec (e @ r) = (Some x, r)"
  shows "e = enc x"
  using dec_sound [OF assms] by simp

lemma read_n_iff:
  "read_n dec n c = (Some xs, r) \<longleftrightarrow>
     length xs = n \<and> (\<forall>x \<in> set xs. ok x) \<and> c = concat (map enc xs) @ r"
proof (induction n arbitrary: c xs)
  case (Suc n)
  show ?case
  proof
    assume "read_n dec (Suc n) c = (Some xs, r)"
    then obtain x ys c1 where "dec c = (Some x, c1)" "read_n dec n c1 = (Some ys, r)" "xs = x # ys"
      by (auto simp: and_then_eq_Some)
    with Suc show "length xs = Suc n \<and> (\<forall>x \<in> set xs. ok x) \<and> c = concat (map enc xs) @ r"
      using dec_iff by auto
  next
    assume "length xs = Suc n \<and> (\<forall>x \<in> set xs. ok x) \<and> c = concat (map enc xs) @ r"
    then show "read_n dec (Suc n) c = (Some xs, r)"
      using read_n_concat [of xs r] by simp
  qed
qed auto

end


end
