(* ===== verification/Mem.thy ===== *)
theory Mem
  imports Codec
begin

text \<open>
  The memory and byte order helpers: \<open>crypto/mem.c\<close> (constant-time comparison,
  string length, copy, concatenation and case-insensitive comparison, the FNV-1a
  hash, duplication) and the byte swaps of \<open>crypto/internal.h\<close>. A C string is the
  list of the bytes of its object; the characters before the first NUL are the
  string proper. \<open>malloc\<close> may fail: the functions that allocate take whether it
  succeeds as their first argument.
\<close>

section \<open>Comparison and hashing\<close>

definition CRYPTO_memcmp :: "bytes \<Rightarrow> bytes \<Rightarrow> nat \<Rightarrow> byte" where
  "CRYPTO_memcmp a b len = foldl (\<lambda>x i. x OR (a ! i XOR b ! i)) 0 [0..<len]"

text \<open>\<open>memcmp\<close> compares by the first byte that differs.\<close>

fun memcmp_sign :: "bytes \<Rightarrow> bytes \<Rightarrow> int" where
  "memcmp_sign (a # as) (b # bs) = (if a = b then memcmp_sign as bs else uint a - uint b)"
| "memcmp_sign _ _ = 0"

definition OPENSSL_memcmp :: "bytes \<Rightarrow> bytes \<Rightarrow> nat \<Rightarrow> int" where
  "OPENSSL_memcmp s1 s2 n = (if n = 0 then 0 else memcmp_sign (take n s1) (take n s2))"

definition OPENSSL_hash32 :: "bytes \<Rightarrow> u32" where
  "OPENSSL_hash32 data = foldl (\<lambda>h b. (h XOR ucast b) * 16777619) 2166136261 data"

lemma or_eq_0_iff_word: "x OR y = 0 \<longleftrightarrow> x = 0 \<and> y = 0" for x y :: "'a :: len word"
  by (auto simp: bit_eq_iff bit_simps)

lemma foldl_or_eq_0:
  "foldl (\<lambda>x i. x OR f i) z xs = 0 \<longleftrightarrow> z = 0 \<and> (\<forall>i \<in> set xs. f i = 0)"
  for z :: "'a :: len word"
  by (induction xs arbitrary: z) (auto simp: or_eq_0_iff_word)

lemma CRYPTO_memcmp_eq_0:
  assumes "n \<le> length a" "n \<le> length b"
  shows "CRYPTO_memcmp a b n = 0 \<longleftrightarrow> take n a = take n b"
proof -
  have "x XOR y = 0 \<longleftrightarrow> x = y" for x y :: byte
    by (auto simp: bit_eq_iff bit_simps)
  then have "CRYPTO_memcmp a b n = 0 \<longleftrightarrow> (\<forall>i < n. a ! i = b ! i)"
    by (auto simp: CRYPTO_memcmp_def foldl_or_eq_0)
  also have "\<dots> \<longleftrightarrow> take n a = take n b"
    using assms by (auto simp: list_eq_iff_nth_eq)
  finally show ?thesis .
qed

section \<open>Strings\<close>

fun OPENSSL_strnlen :: "bytes \<Rightarrow> nat \<Rightarrow> nat" where
  "OPENSSL_strnlen s 0 = 0"
| "OPENSSL_strnlen [] (Suc n) = 0"
| "OPENSSL_strnlen (b # s) (Suc n) = (if b = 0 then 0 else Suc (OPENSSL_strnlen s n))"

definition c_string :: "bytes \<Rightarrow> bytes" where
  "c_string s = takeWhile (\<lambda>b. b \<noteq> 0) s"

definition OPENSSL_strhash :: "bytes \<Rightarrow> u32" where
  "OPENSSL_strhash s = OPENSSL_hash32 (c_string s)"

text \<open>\<open>strcmp\<close> compares the strings with their terminating NUL.\<close>

definition strcmp :: "bytes \<Rightarrow> bytes \<Rightarrow> int" where
  "strcmp s t = memcmp_sign (c_string s @ [0]) (c_string t @ [0])"

definition OPENSSL_strndup :: "bool \<Rightarrow> bytes \<Rightarrow> nat \<Rightarrow> bytes option" where
  "OPENSSL_strndup malloc_ok str sz =
     (let sz' = OPENSSL_strnlen str sz; alloc_size = (of_nat sz' + 1 :: u64)
      in if alloc_size < of_nat sz' then None
         else if \<not> malloc_ok then None
         else Some (take sz' str @ [0]))"

definition OPENSSL_strdup :: "bool \<Rightarrow> bytes option \<Rightarrow> bytes option" where
  "OPENSSL_strdup malloc_ok s =
     (case s of None \<Rightarrow> None
      | Some s \<Rightarrow> if \<not> malloc_ok then None else Some (take (length (c_string s) + 1) s))"

definition OPENSSL_memdup :: "bool \<Rightarrow> bytes \<Rightarrow> bytes option" where
  "OPENSSL_memdup malloc_ok data =
     (if data = [] then None else if \<not> malloc_ok then None else Some data)"

definition OPENSSL_tolower :: "byte \<Rightarrow> byte" where
  "OPENSSL_tolower c = (if c \<ge> 65 \<and> c \<le> 90 then c + (97 - 65) else c)"

text \<open>The case-insensitive comparisons, on strings whose terminating NUL is in the list.\<close>

fun OPENSSL_strcasecmp :: "bytes \<Rightarrow> bytes \<Rightarrow> int" where
  "OPENSSL_strcasecmp (a # as) (b # bs) =
     (let aa = OPENSSL_tolower a; bb = OPENSSL_tolower b
      in if aa < bb then -1 else if aa > bb then 1 else if aa = 0 then 0
         else OPENSSL_strcasecmp as bs)"
| "OPENSSL_strcasecmp _ _ = 0"

fun OPENSSL_strncasecmp :: "bytes \<Rightarrow> bytes \<Rightarrow> nat \<Rightarrow> int" where
  "OPENSSL_strncasecmp (a # as) (b # bs) (Suc n) =
     (let aa = OPENSSL_tolower a; bb = OPENSSL_tolower b
      in if aa < bb then -1 else if aa > bb then 1 else if aa = 0 then 0
         else OPENSSL_strncasecmp as bs n)"
| "OPENSSL_strncasecmp _ _ _ = 0"

lemma OPENSSL_strnlen_eq: "n \<le> length s \<Longrightarrow> OPENSSL_strnlen s n = length (c_string (take n s))"
  by (induction s n rule: OPENSSL_strnlen.induct) (auto simp: c_string_def)

text \<open>
  The destination of \<open>OPENSSL_strlcpy\<close> is an object of which \<open>dst_size\<close> bytes may be
  written; the result is the destination after the call and the length the whole
  source has, which a caller compares with \<open>dst_size\<close> to detect truncation.
\<close>

fun strlcpy_loop :: "bytes \<Rightarrow> bytes \<Rightarrow> nat \<Rightarrow> bytes \<times> bytes \<times> nat \<times> nat" where
  "strlcpy_loop (d # dst) (b # src) dst_size =
     (if dst_size > 1 \<and> b \<noteq> 0
      then (case strlcpy_loop dst src (dst_size - 1) of (dst', src', k, l) \<Rightarrow> (b # dst', src', k, l + 1))
      else ((if dst_size > 0 then 0 else d) # dst, b # src, dst_size, 0))"
| "strlcpy_loop dst src dst_size = (dst, src, dst_size, 0)"

definition OPENSSL_strlcpy :: "bytes \<Rightarrow> bytes \<Rightarrow> nat \<Rightarrow> bytes \<times> nat" where
  "OPENSSL_strlcpy dst src dst_size =
     (case strlcpy_loop dst src dst_size of
        (dst', src', _, l) \<Rightarrow> (dst', l + length (c_string src')))"

lemma strlcpy_loop_spec:
  assumes "0 \<in> set src" "n \<le> length dst" "0 < n"
  defines "k \<equiv> min (n - 1) (length (c_string src))"
  shows "\<exists>m. strlcpy_loop dst src n =
    (take k (c_string src) @ [0] @ drop (k + 1) dst, drop k src, m, k)"
  using assms(1-3) unfolding k_def
proof (induction dst src n rule: strlcpy_loop.induct)
  case (1 d dst b src n)
  show ?case
  proof (cases "n > 1 \<and> b \<noteq> 0")
    case True
    then have src: "0 \<in> set src" using 1(2) by auto
    have len: "n - 1 \<le> length dst" using 1(3) by simp
    obtain m where m: "strlcpy_loop dst src (n - 1) =
      (take (min (n - 1 - 1) (length (c_string src))) (c_string src) @ [0] @
         drop (min (n - 1 - 1) (length (c_string src)) + 1) dst,
       drop (min (n - 1 - 1) (length (c_string src))) src, m,
       min (n - 1 - 1) (length (c_string src)))"
      using 1(1) [OF True src] len True by auto
    have k: "min (n - 1) (length (c_string (b # src))) =
      Suc (min (n - 1 - 1) (length (c_string src)))"
      using True by (simp add: c_string_def) linarith
    show ?thesis
      unfolding k using True m by (simp add: c_string_def)
  next
    case False
    then have "min (n - 1) (length (c_string (b # src))) = 0"
      by (auto simp: c_string_def)
    with False 1(4) show ?thesis by auto
  qed
qed auto

lemma length_c_string_drop:
  "k \<le> length (c_string s) \<Longrightarrow> length (c_string (drop k s)) = length (c_string s) - k"
proof (induction s arbitrary: k)
  case (Cons b s)
  then show ?case by (cases k) (auto simp: c_string_def split: if_splits)
qed (simp add: c_string_def)

text \<open>Where the destination ends and how many characters it has, within \<open>dst_size\<close>.\<close>

fun strlcat_skip :: "bytes \<Rightarrow> nat \<Rightarrow> nat" where
  "strlcat_skip (d # dst) (Suc n) = (if d = 0 then 0 else Suc (strlcat_skip dst n))"
| "strlcat_skip _ _ = 0"

definition OPENSSL_strlcat :: "bytes \<Rightarrow> bytes \<Rightarrow> nat \<Rightarrow> bytes \<times> nat" where
  "OPENSSL_strlcat dst src dst_size =
     (let l = strlcat_skip dst dst_size
      in case OPENSSL_strlcpy (drop l dst) src (dst_size - l) of
           (dst', n) \<Rightarrow> (take l dst @ dst', l + n))"

lemma OPENSSL_strlcpy_spec:
  assumes "0 \<in> set src" "n \<le> length dst" "0 < n"
  shows "OPENSSL_strlcpy dst src n =
    (let k = min (n - 1) (length (c_string src))
     in (take k (c_string src) @ [0] @ drop (k + 1) dst, length (c_string src)))"
proof -
  let ?k = "min (n - 1) (length (c_string src))"
  obtain m where "strlcpy_loop dst src n =
      (take ?k (c_string src) @ [0] @ drop (?k + 1) dst, drop ?k src, m, ?k)"
    using strlcpy_loop_spec [OF assms] by blast
  moreover have "?k + length (c_string (drop ?k src)) = length (c_string src)"
    by (simp add: length_c_string_drop)
  ultimately show ?thesis by (simp add: OPENSSL_strlcpy_def Let_def)
qed

section \<open>Byte order\<close>

definition CRYPTO_bswap2 :: "u16 \<Rightarrow> u16" where
  "CRYPTO_bswap2 x = drop_bit 8 x OR push_bit 8 x"

definition CRYPTO_bswap4 :: "u32 \<Rightarrow> u32" where
  "CRYPTO_bswap4 x =
     (let x = drop_bit 16 x OR push_bit 16 x
      in drop_bit 8 (x AND 0xff00ff00) OR push_bit 8 (x AND 0x00ff00ff))"

definition CRYPTO_bswap8 :: "u64 \<Rightarrow> u64" where
  "CRYPTO_bswap8 x =
     ucast (CRYPTO_bswap4 (ucast (drop_bit 32 x))) OR
     push_bit 32 (ucast (CRYPTO_bswap4 (ucast x)))"

text \<open>The swaps exchange the big-endian and the little-endian bytes of a word.\<close>

lemma bswap2_bytes: "be_bytes 2 (unat (CRYPTO_bswap2 x)) = rev (be_bytes 2 (unat x))"
  unfolding be_bytes_word CRYPTO_bswap2_def
  by (simp add: byte_eq_iff_bits bit_simps)

lemma bswap4_bytes: "be_bytes 4 (unat (CRYPTO_bswap4 x)) = rev (be_bytes 4 (unat x))"
  unfolding be_bytes_word CRYPTO_bswap4_def Let_def
  by (auto simp: byte_eq_iff_bits bit_simps dest: bit_imp_le_length)

lemma be_bytes_8_split:
  "be_bytes 8 (unat y) = be_bytes 4 (unat (ucast (drop_bit 32 y) :: u32)) @ be_bytes 4 (unat (ucast y :: u32))"
  for y :: u64
  unfolding be_bytes_word by (simp add: byte_eq_iff_bits bit_simps)

lemma bswap8_bytes: "be_bytes 8 (unat (CRYPTO_bswap8 x)) = rev (be_bytes 8 (unat x))"
proof -
  let ?hi = "CRYPTO_bswap4 (ucast (drop_bit 32 x))" and ?lo = "CRYPTO_bswap4 (ucast x)"
  have "ucast (CRYPTO_bswap8 x) = ?hi" "ucast (drop_bit 32 (CRYPTO_bswap8 x)) = ?lo"
    unfolding CRYPTO_bswap8_def
    by (rule bit_word_eqI, auto simp: bit_simps dest: bit_imp_le_length)+
  then show ?thesis
    unfolding be_bytes_8_split by (simp only: bswap4_bytes rev_append)
qed

end
