(* ===== verification/Cbs.thy ===== *)
theory Cbs
  imports Mem
begin

text \<open>
  The byte string reader \<open>CBS\<close> of BoringSSL (\<open>crypto/bytestring/cbs.c\<close>). A \<open>CBS\<close> is
  a pointer and a length; the model is the list of the bytes it spans, so moving
  the pointer drops bytes from the front. Every getter returns the value (or
  nothing, for a zero return) and the \<open>CBS\<close> as the call leaves it: a call that
  fails half way has consumed what it read. Values that the C code combines as
  \<open>size_t\<close> or \<open>uint64_t\<close> with a possible overflow are 64-bit words; plain lengths
  of buffers are naturals.
\<close>

section \<open>Reading bytes and fixed-width integers\<close>

definition cbs_get :: "nat \<Rightarrow> bytes reader" where
  "cbs_get n c = (if length c < n then (None, c) else (Some (take n c), drop n c))"

definition CBS_skip :: "nat \<Rightarrow> unit reader" where
  "CBS_skip len c = and_then (cbs_get len c) (\<lambda>_ c. (Some (), c))"

definition CBS_stow :: "bool \<Rightarrow> bytes \<Rightarrow> bool \<times> bytes option \<times> nat" where
  "CBS_stow malloc_ok c =
     (if length c = 0 then (True, None, 0)
      else case OPENSSL_memdup malloc_ok c of
             None \<Rightarrow> (False, None, 0)
           | Some p \<Rightarrow> (True, Some p, length c))"

definition CBS_strdup :: "bool \<Rightarrow> bytes \<Rightarrow> bytes option" where
  "CBS_strdup malloc_ok c = OPENSSL_strndup malloc_ok c (length c)"

definition CBS_contains_zero_byte :: "bytes \<Rightarrow> bool" where
  "CBS_contains_zero_byte c = (0 \<in> set c)"

definition CBS_mem_equal :: "bytes \<Rightarrow> bytes \<Rightarrow> bool" where
  "CBS_mem_equal c data =
     (if length data \<noteq> length c then False else CRYPTO_memcmp c data (length data) = 0)"

definition cbs_get_u :: "nat \<Rightarrow> u64 reader" where
  "cbs_get_u len c = and_then (cbs_get len c) (\<lambda>data c. (Some (foldl shift_in 0 data), c))"

definition CBS_get_u8 :: "byte reader" where
  "CBS_get_u8 c = and_then (cbs_get 1 c) (\<lambda>v c. (Some (v ! 0), c))"

definition CBS_get_u16 :: "u16 reader" where
  "CBS_get_u16 c = and_then (cbs_get_u 2 c) (\<lambda>v c. (Some (ucast v), c))"

definition CBS_get_u16le :: "u16 reader" where
  "CBS_get_u16le c = and_then (CBS_get_u16 c) (\<lambda>v c. (Some (CRYPTO_bswap2 v), c))"

definition CBS_get_u24 :: "u32 reader" where
  "CBS_get_u24 c = and_then (cbs_get_u 3 c) (\<lambda>v c. (Some (ucast v), c))"

definition CBS_get_u32 :: "u32 reader" where
  "CBS_get_u32 c = and_then (cbs_get_u 4 c) (\<lambda>v c. (Some (ucast v), c))"

definition CBS_get_u32le :: "u32 reader" where
  "CBS_get_u32le c = and_then (CBS_get_u32 c) (\<lambda>v c. (Some (CRYPTO_bswap4 v), c))"

definition CBS_get_u64 :: "u64 reader" where
  "CBS_get_u64 c = cbs_get_u 8 c"

definition CBS_get_u64le :: "u64 reader" where
  "CBS_get_u64le c = and_then (cbs_get_u 8 c) (\<lambda>v c. (Some (CRYPTO_bswap8 v), c))"

definition CBS_get_last_u8 :: "byte reader" where
  "CBS_get_last_u8 c =
     (if length c = 0 then (None, c) else (Some (c ! (length c - 1)), take (length c - 1) c))"

definition CBS_get_bytes :: "nat \<Rightarrow> bytes reader" where
  "CBS_get_bytes len c = cbs_get len c"

definition CBS_copy_bytes :: "nat \<Rightarrow> bytes reader" where
  "CBS_copy_bytes len c = and_then (cbs_get len c) (\<lambda>v c. (Some (take len v), c))"

definition cbs_get_length_prefixed :: "nat \<Rightarrow> bytes reader" where
  \<comment> \<open>the code calls it with widths up to 3\<close>
  "cbs_get_length_prefixed len_len c =
     and_then (cbs_get_u len_len c) (\<lambda>len c. CBS_get_bytes (unat len) c)"

definition CBS_get_u8_length_prefixed :: "bytes reader" where
  "CBS_get_u8_length_prefixed c = cbs_get_length_prefixed 1 c"

definition CBS_get_u16_length_prefixed :: "bytes reader" where
  "CBS_get_u16_length_prefixed c = cbs_get_length_prefixed 2 c"

definition CBS_get_u24_length_prefixed :: "bytes reader" where
  "CBS_get_u24_length_prefixed c = cbs_get_length_prefixed 3 c"

definition OPENSSL_memchr :: "bytes \<Rightarrow> byte \<Rightarrow> nat option" where
  "OPENSSL_memchr s b =
     (let i = length (takeWhile (\<lambda>x. x \<noteq> b) s) in if i < length s then Some i else None)"

definition CBS_get_until_first :: "byte \<Rightarrow> bytes reader" where
  "CBS_get_until_first b c =
     (case OPENSSL_memchr c b of None \<Rightarrow> (None, c) | Some split \<Rightarrow> CBS_get_bytes split c)"

section \<open>Tags and elements\<close>

definition CBS_ASN1_TAG_NUMBER_MASK :: u32 where "CBS_ASN1_TAG_NUMBER_MASK = push_bit 29 1 - 1"
definition CBS_ASN1_CONSTRUCTED :: u32 where "CBS_ASN1_CONSTRUCTED = push_bit 24 0x20"
definition CBS_ASN1_BOOLEAN :: u32 where "CBS_ASN1_BOOLEAN = 0x1"
definition CBS_ASN1_INTEGER :: u32 where "CBS_ASN1_INTEGER = 0x2"
definition CBS_ASN1_BITSTRING :: u32 where "CBS_ASN1_BITSTRING = 0x3"
definition CBS_ASN1_OCTETSTRING :: u32 where "CBS_ASN1_OCTETSTRING = 0x4"

fun parse_base128_loop :: "u64 \<Rightarrow> u64 reader" where
  "parse_base128_loop v [] = (None, [])"
| "parse_base128_loop v (b # c) =
     (if drop_bit (64 - 7) v \<noteq> 0 then (None, c)
      else if v = 0 \<and> b = 0x80 then (None, c)
      else let v' = push_bit 7 v OR ucast (b AND 0x7f)
           in if b AND 0x80 \<noteq> 0 then parse_base128_loop v' c else (Some v', c))"

definition parse_base128_integer :: "u64 reader" where
  "parse_base128_integer c = parse_base128_loop 0 c"

definition parse_asn1_tag :: "u32 reader" where
  "parse_asn1_tag c =
     and_then (CBS_get_u8 c) (\<lambda>tag_byte c.
       let tag = push_bit 24 (ucast tag_byte AND 0xe0 :: u32);
           tag_number = ucast (tag_byte AND 0x1f) :: u32
       in if tag_number = 0x1f
          then and_then (parse_base128_integer c) (\<lambda>v c.
                 if v > ucast CBS_ASN1_TAG_NUMBER_MASK \<or> v < 0x1f then (None, c)
                 else (Some (tag OR ucast v), c))
          else (Some (tag OR tag_number), c))"

text \<open>
  An element as \<open>cbs_get_any_asn1_element\<close> returns it through its out
  parameters: the bytes with the header, the tag, the length of the header and
  whether an encoding was seen that BER allows and DER does not. A caller that
  passes \<open>NULL\<close> ignores the field.
\<close>

record element =
  el_out :: bytes
  el_tag :: u32
  el_header_len :: u64
  el_ber_found :: bool

definition element_body :: "u64 \<Rightarrow> u32 \<Rightarrow> u64 \<Rightarrow> bool \<Rightarrow> element reader" where
  "element_body len tag header_len ber_found c =
     and_then (CBS_get_bytes (unat len) c) (\<lambda>out c.
       (Some \<lparr>el_out = out, el_tag = tag, el_header_len = header_len, el_ber_found = ber_found\<rparr>, c))"

definition long_form_length :: "bool \<Rightarrow> nat \<Rightarrow> u32 \<Rightarrow> u64 \<Rightarrow> bytes \<Rightarrow> element reader" where
  "long_form_length ber_ok num_bytes tag header_len header c =
     (if num_bytes = 0 \<or> num_bytes > 4 then (None, c)
      else case cbs_get_u num_bytes header of
        (None, _) \<Rightarrow> (None, c)
      | (Some len64, _) \<Rightarrow>
          let not_der = (len64 < 128 \<or> drop_bit ((num_bytes - 1) * 8) len64 = 0)
          in if not_der \<and> \<not> ber_ok then (None, c)
             else if len64 + header_len + of_nat num_bytes < len64 then (None, c)
             else element_body (len64 + (header_len + of_nat num_bytes)) tag
                    (header_len + of_nat num_bytes) not_der c)"

definition cbs_get_any_asn1_element :: "bool \<Rightarrow> element reader" where
  "cbs_get_any_asn1_element ber_ok c =
     (case parse_asn1_tag c of
        (None, _) \<Rightarrow> (None, c)
      | (Some tag, header) \<Rightarrow>
          (case CBS_get_u8 header of
             (None, _) \<Rightarrow> (None, c)
           | (Some length_byte, header) \<Rightarrow>
               let header_len = of_nat (length c) - of_nat (length header) :: u64
               in if length_byte AND 0x80 = 0
                  then element_body (ucast length_byte + header_len) tag header_len False c
                  else let num_bytes = unat (length_byte AND 0x7f)
                       in if ber_ok \<and> tag AND CBS_ASN1_CONSTRUCTED \<noteq> 0 \<and> num_bytes = 0
                          then element_body header_len tag header_len True c
                          else long_form_length ber_ok num_bytes tag header_len header c))"

definition CBS_get_any_asn1_element :: "element reader" where
  "CBS_get_any_asn1_element c = cbs_get_any_asn1_element False c"

definition CBS_get_any_ber_asn1_element :: "element reader" where
  "CBS_get_any_ber_asn1_element c = cbs_get_any_asn1_element True c"

definition CBS_get_any_asn1 :: "(bytes \<times> u32) reader" where
  "CBS_get_any_asn1 c =
     and_then (CBS_get_any_asn1_element c) (\<lambda>e c.
       case CBS_skip (unat (el_header_len e)) (el_out e) of
         (None, _) \<Rightarrow> (None, c)
       | (Some _, out) \<Rightarrow> (Some (out, el_tag e), c))"

definition cbs_get_asn1 :: "u32 \<Rightarrow> bool \<Rightarrow> bytes reader" where
  "cbs_get_asn1 tag_value skip_header c =
     and_then (CBS_get_any_asn1_element c) (\<lambda>e c.
       if el_tag e \<noteq> tag_value then (None, c)
       else if skip_header
       then (case CBS_skip (unat (el_header_len e)) (el_out e) of
               (None, _) \<Rightarrow> (None, c) | (Some _, out) \<Rightarrow> (Some out, c))
       else (Some (el_out e), c))"

definition CBS_get_asn1 :: "u32 \<Rightarrow> bytes reader" where
  "CBS_get_asn1 tag_value c = cbs_get_asn1 tag_value True c"

definition CBS_get_asn1_element :: "u32 \<Rightarrow> bytes reader" where
  "CBS_get_asn1_element tag_value c = cbs_get_asn1 tag_value False c"

definition CBS_peek_asn1_tag :: "bytes \<Rightarrow> u32 \<Rightarrow> bool" where
  "CBS_peek_asn1_tag c tag_value =
     (if length c < 1 then False else fst (parse_asn1_tag c) = Some tag_value)"

section \<open>ASN.1 values\<close>

definition CBS_is_valid_asn1_integer :: "bytes \<Rightarrow> bool \<times> bool" where
  \<comment> \<open>validity, and the sign it stores\<close>
  "CBS_is_valid_asn1_integer c =
     (case CBS_get_u8 c of
        (None, _) \<Rightarrow> (False, False)
      | (Some first_byte, copy) \<Rightarrow>
          let is_negative = (first_byte AND 0x80 \<noteq> 0)
          in (case CBS_get_u8 copy of
                (None, _) \<Rightarrow> (True, is_negative)
              | (Some second_byte, _) \<Rightarrow>
                  (if (first_byte = 0x00 \<and> second_byte AND 0x80 = 0) \<or>
                      (first_byte = 0xff \<and> second_byte AND 0x80 \<noteq> 0)
                   then (False, is_negative) else (True, is_negative))))"

definition CBS_is_unsigned_asn1_integer :: "bytes \<Rightarrow> bool" where
  "CBS_is_unsigned_asn1_integer c =
     (case CBS_is_valid_asn1_integer c of (valid, is_negative) \<Rightarrow> valid \<and> \<not> is_negative)"

fun uint64_loop :: "u64 \<Rightarrow> bytes \<Rightarrow> u64 option" where
  "uint64_loop out [] = Some out"
| "uint64_loop out (b # data) =
     (if drop_bit 56 out \<noteq> 0 then None else uint64_loop (push_bit 8 out OR ucast b) data)"

definition CBS_get_asn1_uint64 :: "u64 reader" where
  "CBS_get_asn1_uint64 c =
     and_then (CBS_get_asn1 CBS_ASN1_INTEGER c) (\<lambda>data c.
       if \<not> CBS_is_unsigned_asn1_integer data then (None, c)
       else (uint64_loop 0 data, c))"

text \<open>
  The union of an \<open>int64_t\<close> and its bytes, on a little-endian machine: byte \<open>i\<close>
  has weight \<open>256 ^ i\<close>. An \<open>int64_t\<close> is the 64-bit word whose \<open>sint\<close> is its value.
\<close>

fun store_reversed :: "bytes \<Rightarrow> bytes \<Rightarrow> nat \<Rightarrow> nat \<Rightarrow> bytes" where
  "store_reversed u data len 0 = u"
| "store_reversed u data len (Suc n) =
     (store_reversed u data len n)[n := data ! (len - n - 1)]"

definition CBS_get_asn1_int64 :: "u64 reader" where
  "CBS_get_asn1_int64 c =
     and_then (CBS_get_asn1 CBS_ASN1_INTEGER c) (\<lambda>data c.
       case CBS_is_valid_asn1_integer data of (valid, is_negative) \<Rightarrow>
         if \<not> valid then (None, c)
         else let len = length data
              in if len > 8 then (None, c)
                 else let u = replicate 8 (if is_negative then 0xff else 0)
                      in (Some (of_nat (le_val (store_reversed u data len len))), c))"

definition CBS_get_asn1_bool :: "bool reader" where
  "CBS_get_asn1_bool c =
     and_then (CBS_get_asn1 CBS_ASN1_BOOLEAN c) (\<lambda>data c.
       if length data \<noteq> 1 then (None, c)
       else let val = data ! 0
            in if val \<noteq> 0 \<and> val \<noteq> 0xff then (None, c) else (Some (val \<noteq> 0), c))"

definition CBS_get_optional_asn1 :: "u32 \<Rightarrow> bytes option reader" where
  "CBS_get_optional_asn1 tag c =
     (if CBS_peek_asn1_tag c tag
      then and_then (CBS_get_asn1 tag c) (\<lambda>out c. (Some (Some out), c))
      else (Some None, c))"

definition CBS_get_optional_asn1_octet_string :: "u32 \<Rightarrow> (bytes \<times> bool) reader" where
  "CBS_get_optional_asn1_octet_string tag c =
     and_then (CBS_get_optional_asn1 tag c) (\<lambda>child c.
       case child of
         None \<Rightarrow> (Some ([], False), c)
       | Some child \<Rightarrow>
           (case CBS_get_asn1 CBS_ASN1_OCTETSTRING child of
              (Some out, child) \<Rightarrow> if length child \<noteq> 0 then (None, c) else (Some (out, True), c)
            | (None, _) \<Rightarrow> (None, c)))"

definition CBS_get_optional_asn1_uint64 :: "u32 \<Rightarrow> u64 \<Rightarrow> u64 reader" where
  "CBS_get_optional_asn1_uint64 tag default_value c =
     and_then (CBS_get_optional_asn1 tag c) (\<lambda>child c.
       case child of
         None \<Rightarrow> (Some default_value, c)
       | Some child \<Rightarrow>
           (case CBS_get_asn1_uint64 child of
              (Some out, child) \<Rightarrow> if length child \<noteq> 0 then (None, c) else (Some out, c)
            | (None, _) \<Rightarrow> (None, c)))"

definition CBS_get_optional_asn1_bool :: "u32 \<Rightarrow> bool \<Rightarrow> bool reader" where
  "CBS_get_optional_asn1_bool tag default_value c =
     and_then (CBS_get_optional_asn1 tag c) (\<lambda>child c.
       case child of
         None \<Rightarrow> (Some default_value, c)
       | Some child \<Rightarrow>
           (case CBS_get_asn1 CBS_ASN1_BOOLEAN child of
              (Some child2, child) \<Rightarrow>
                if length child2 \<noteq> 1 \<or> length child \<noteq> 0 then (None, c)
                else let boolean = child2 ! 0
                     in if boolean = 0 then (Some False, c)
                        else if boolean = 0xff then (Some True, c) else (None, c)
            | (None, _) \<Rightarrow> (None, c)))"

definition CBS_is_valid_asn1_bitstring :: "bytes \<Rightarrow> bool" where
  "CBS_is_valid_asn1_bitstring c =
     (case CBS_get_u8 c of
        (None, _) \<Rightarrow> False
      | (Some num_unused_bits, rest) \<Rightarrow>
          if num_unused_bits > 7 then False
          else if num_unused_bits = 0 then True
          else (case CBS_get_last_u8 rest of
                  (None, _) \<Rightarrow> False
                | (Some last_byte, _) \<Rightarrow>
                    last_byte AND (push_bit (unat num_unused_bits) 1 - 1) = 0))"

definition CBS_asn1_bitstring_has_bit :: "bytes \<Rightarrow> u32 \<Rightarrow> bool" where
  "CBS_asn1_bitstring_has_bit c b =
     (if \<not> CBS_is_valid_asn1_bitstring c then False
      else let byte_num = drop_bit 3 b + 1; bit_num = 7 - (b AND 7)
           in unat byte_num < length c \<and>
              c ! unat byte_num AND push_bit (unat bit_num) 1 \<noteq> 0)"

section \<open>What the readers do\<close>

lemma cbs_get_append [simp]: "length d = n \<Longrightarrow> cbs_get n (d @ r) = (Some d, r)"
  by (simp add: cbs_get_def)

lemma cbs_get_iff: "cbs_get n c = (Some d, r) \<longleftrightarrow> length d = n \<and> c = d @ r"
  by (auto simp: cbs_get_def)

lemma CBS_get_bytes_iff: "CBS_get_bytes n c = (Some d, r) \<longleftrightarrow> length d = n \<and> c = d @ r"
  by (simp add: CBS_get_bytes_def cbs_get_iff)

lemma CBS_skip_iff: "CBS_skip n c = (Some u, r) \<longleftrightarrow> (\<exists>d. length d = n \<and> c = d @ r)"
  by (auto simp: CBS_skip_def and_then_eq_Some cbs_get_iff)

lemma CBS_get_u8_simps [simp]:
  "CBS_get_u8 [] = (None, [])"
  "CBS_get_u8 (b # c) = (Some b, c)"
  by (simp_all add: CBS_get_u8_def cbs_get_def)

lemma cbs_get_u_iff:
  assumes "n \<le> 8"
  shows "cbs_get_u n c = (Some v, r) \<longleftrightarrow> unat v < 256 ^ n \<and> c = be_bytes n (unat v) @ r"
proof
  assume "cbs_get_u n c = (Some v, r)"
  then obtain d where d: "length d = n" "c = d @ r" "v = foldl shift_in 0 d"
    by (auto simp: cbs_get_u_def and_then_eq_Some cbs_get_iff)
  with assms have "unat v = be_val d" by (simp add: unat_foldl_shift_in_small)
  with d be_val_less [of d] show "unat v < 256 ^ n \<and> c = be_bytes n (unat v) @ r" by auto
next
  assume *: "unat v < 256 ^ n \<and> c = be_bytes n (unat v) @ r"
  then have "foldl shift_in 0 (be_bytes n (unat v)) = v"
    using assms by (simp add: word_unat_eq_iff unat_foldl_shift_in_small)
  with * show "cbs_get_u n c = (Some v, r)" by (simp add: cbs_get_u_def)
qed

lemma cbs_get_u_append:
  "n \<le> 8 \<Longrightarrow> v < 256 ^ n \<Longrightarrow> v < 2 ^ 64 \<Longrightarrow> cbs_get_u n (be_bytes n v @ r) = (Some (of_nat v), r)"
  by (simp add: cbs_get_u_iff unat_of_nat)

text \<open>The fixed-width readers are canonical codecs for big-endian and little-endian numbers.\<close>

interpretation u8: strict_codec "\<lambda>b. [b]" CBS_get_u8 "\<lambda>_. True"
proof unfold_locales
  fix c x r
  show "CBS_get_u8 c = (Some x, r) \<Longrightarrow> c = [x] @ r" by (cases c) auto
qed auto

lemma unat_ucast_small:
  "unat v < 2 ^ LENGTH('b) \<Longrightarrow> unat (ucast v :: 'b :: len word) = unat v"
  by (simp add: unsigned_ucast_eq take_bit_eq_mod)

lemma narrow_iff:
  fixes w :: "'b :: len word"
  assumes "n \<le> 8" and "256 ^ n \<le> (2 :: nat) ^ LENGTH('b)"
  shows "and_then (cbs_get_u n c) (\<lambda>v c. (Some (ucast v), c)) = (Some w, r) \<longleftrightarrow>
    unat w < 256 ^ n \<and> c = be_bytes n (unat w) @ r" (is "?L \<longleftrightarrow> ?R")
proof
  assume ?L
  then obtain v :: u64 where v: "unat v < 256 ^ n" "c = be_bytes n (unat v) @ r" "w = ucast v"
    by (auto simp: and_then_eq_Some cbs_get_u_iff [OF assms(1)])
  then have "unat w = unat v" using assms(2) by (simp add: unat_ucast_small)
  with v show ?R by simp
next
  assume R: ?R
  moreover have "(256 :: nat) ^ n \<le> 256 ^ 8" using assms(1) by (intro power_increasing) simp_all
  ultimately have w: "unat (ucast w :: u64) = unat w" by (intro unat_ucast_small) simp
  with R have "cbs_get_u n c = (Some (ucast w), r)"
    by (simp add: cbs_get_u_iff [OF assms(1)])
  moreover have "ucast (ucast w :: u64) = w"
    using w by (simp add: word_unat_eq_iff unat_ucast_small)
  ultimately show ?L by simp
qed

lemma CBS_get_u16_iff: "CBS_get_u16 c = (Some w, r) \<longleftrightarrow> c = be_bytes 2 (unat w) @ r"
  unfolding CBS_get_u16_def by (subst narrow_iff) (simp_all add: unat_less_pow del: be_bytes_numeral)

lemma CBS_get_u24_iff:
  "CBS_get_u24 c = (Some w, r) \<longleftrightarrow> unat w < 2 ^ 24 \<and> c = be_bytes 3 (unat w) @ r"
  unfolding CBS_get_u24_def by (subst narrow_iff) (simp_all del: be_bytes_numeral)

lemma CBS_get_u32_iff: "CBS_get_u32 c = (Some w, r) \<longleftrightarrow> c = be_bytes 4 (unat w) @ r"
  unfolding CBS_get_u32_def by (subst narrow_iff) (simp_all add: unat_less_pow del: be_bytes_numeral)

lemma CBS_get_u64_iff: "CBS_get_u64 c = (Some w, r) \<longleftrightarrow> c = be_bytes 8 (unat w) @ r"
  unfolding CBS_get_u64_def
  by (subst cbs_get_u_iff) (simp_all add: unat_less_pow del: be_bytes_numeral)

lemma be_bytes_unat_inj:
  "be_bytes 2 (unat a) = be_bytes 2 (unat a') \<longleftrightarrow> a = a'"
  "be_bytes 4 (unat b) = be_bytes 4 (unat b') \<longleftrightarrow> b = b'"
  "be_bytes 8 (unat d) = be_bytes 8 (unat d') \<longleftrightarrow> d = d'"
  for a a' :: u16 and b b' :: u32 and d d' :: u64
proof -
  have "be_bytes n x = be_bytes n y \<longleftrightarrow> x = y" if "x < 256 ^ n" "y < 256 ^ n" for n x y
    using that by (metis be_val_be_bytes_id)
  note inj = this
  show "be_bytes 2 (unat a) = be_bytes 2 (unat a') \<longleftrightarrow> a = a'"
    "be_bytes 4 (unat b) = be_bytes 4 (unat b') \<longleftrightarrow> b = b'"
    "be_bytes 8 (unat d) = be_bytes 8 (unat d') \<longleftrightarrow> d = d'"
    by (subst inj; simp add: unat_less_pow word_unat_eq_iff del: be_bytes_numeral)+
qed

lemma bswap_bswap [simp]:
  "CRYPTO_bswap2 (CRYPTO_bswap2 a) = a" "CRYPTO_bswap4 (CRYPTO_bswap4 b) = b"
  "CRYPTO_bswap8 (CRYPTO_bswap8 d) = d"
  by (simp_all only: bswap2_bytes bswap4_bytes bswap8_bytes rev_rev_ident
      flip: be_bytes_unat_inj)

lemma bswap_le_bytes:
  "be_bytes 2 (unat (CRYPTO_bswap2 a)) = le_bytes 2 (unat a)"
  "be_bytes 4 (unat (CRYPTO_bswap4 b)) = le_bytes 4 (unat b)"
  "be_bytes 8 (unat (CRYPTO_bswap8 d)) = le_bytes 8 (unat d)"
  by (simp_all only: le_bytes_def bswap2_bytes bswap4_bytes bswap8_bytes)

lemma swapped_reader:
  assumes "\<And>c w r. get c = (Some w, r) \<longleftrightarrow> c = e w @ r" and "\<And>w. f (f w) = w"
  shows "and_then (get c) (\<lambda>v c. (Some (f v), c)) = (Some w, r) \<longleftrightarrow> c = e (f w) @ r"
  by (auto simp: and_then_eq_Some assms)

lemma CBS_get_u16le_iff: "CBS_get_u16le c = (Some w, r) \<longleftrightarrow> c = le_bytes 2 (unat w) @ r"
  unfolding CBS_get_u16le_def
  by (subst swapped_reader [OF CBS_get_u16_iff]) (simp_all only: bswap_bswap bswap_le_bytes)

lemma CBS_get_u32le_iff: "CBS_get_u32le c = (Some w, r) \<longleftrightarrow> c = le_bytes 4 (unat w) @ r"
  unfolding CBS_get_u32le_def
  by (subst swapped_reader [OF CBS_get_u32_iff]) (simp_all only: bswap_bswap bswap_le_bytes)

lemma CBS_get_u64le_iff: "CBS_get_u64le c = (Some w, r) \<longleftrightarrow> c = le_bytes 8 (unat w) @ r"
  unfolding CBS_get_u64le_def CBS_get_u64_def [symmetric]
  by (subst swapped_reader [OF CBS_get_u64_iff]) (simp_all only: bswap_bswap bswap_le_bytes)

lemmas fixed_width_iffs = CBS_get_u16_iff CBS_get_u24_iff CBS_get_u32_iff CBS_get_u64_iff
  CBS_get_u16le_iff CBS_get_u32le_iff CBS_get_u64le_iff

interpretation u16: strict_codec "\<lambda>v. be_bytes 2 (unat v)" CBS_get_u16 "\<lambda>_. True"
  by unfold_locales (simp_all only: fixed_width_iffs)

interpretation u24: strict_codec "\<lambda>v. be_bytes 3 (unat v)" CBS_get_u24 "\<lambda>v. unat v < 2 ^ 24"
  by unfold_locales (simp_all only: fixed_width_iffs)

interpretation u32: strict_codec "\<lambda>v. be_bytes 4 (unat v)" CBS_get_u32 "\<lambda>_. True"
  by unfold_locales (simp_all only: fixed_width_iffs)

interpretation u64: strict_codec "\<lambda>v. be_bytes 8 (unat v)" CBS_get_u64 "\<lambda>_. True"
  by unfold_locales (simp_all only: fixed_width_iffs)

interpretation u16le: strict_codec "\<lambda>v. le_bytes 2 (unat v)" CBS_get_u16le "\<lambda>_. True"
  by unfold_locales (simp_all only: fixed_width_iffs)

interpretation u32le: strict_codec "\<lambda>v. le_bytes 4 (unat v)" CBS_get_u32le "\<lambda>_. True"
  by unfold_locales (simp_all only: fixed_width_iffs)

interpretation u64le: strict_codec "\<lambda>v. le_bytes 8 (unat v)" CBS_get_u64le "\<lambda>_. True"
  by unfold_locales (simp_all only: fixed_width_iffs)

text \<open>A length-prefixed string: the length in \<open>n\<close> bytes, then the string.\<close>

definition prefixed :: "nat \<Rightarrow> bytes \<Rightarrow> bytes" where
  "prefixed n d = be_bytes n (length d) @ d"

lemma cbs_get_length_prefixed_iff:
  assumes "n \<le> 7"
  shows "cbs_get_length_prefixed n c = (Some d, r) \<longleftrightarrow> length d < 256 ^ n \<and> c = prefixed n d @ r"
proof
  assume "cbs_get_length_prefixed n c = (Some d, r)"
  then obtain len :: u64 and t where "unat len < 256 ^ n" "c = be_bytes n (unat len) @ t" "length d = unat len" "t = d @ r"
    using assms by (auto simp: cbs_get_length_prefixed_def and_then_eq_Some cbs_get_u_iff CBS_get_bytes_iff)
  then show "length d < 256 ^ n \<and> c = prefixed n d @ r" by (simp add: prefixed_def)
next
  assume *: "length d < 256 ^ n \<and> c = prefixed n d @ r"
  have "(256 :: nat) ^ n \<le> 256 ^ 7" using assms by (intro power_increasing) simp_all
  with * have "length d < 2 ^ 64" by simp
  with * assms show "cbs_get_length_prefixed n c = (Some d, r)"
    by (simp add: cbs_get_length_prefixed_def prefixed_def cbs_get_u_append CBS_get_bytes_iff unat_of_nat)
qed

interpretation u8_prefixed:
  strict_codec "prefixed 1" CBS_get_u8_length_prefixed "\<lambda>d. length d < 256"
  by unfold_locales (simp_all add: CBS_get_u8_length_prefixed_def cbs_get_length_prefixed_iff)

interpretation u16_prefixed:
  strict_codec "prefixed 2" CBS_get_u16_length_prefixed "\<lambda>d. length d < 65536"
  by unfold_locales (simp_all add: CBS_get_u16_length_prefixed_def cbs_get_length_prefixed_iff)

interpretation u24_prefixed:
  strict_codec "prefixed 3" CBS_get_u24_length_prefixed "\<lambda>d. length d < 16777216"
  by unfold_locales (simp_all add: CBS_get_u24_length_prefixed_def cbs_get_length_prefixed_iff)

end
