(* ===== verification/Der.thy ===== *)
theory Der
  imports Cbs
begin

text \<open>
  The distinguished encoding as a specification, and the proofs that the readers of
  \<open>Cbs\<close> accept exactly it: base-128 integers, identifier octets, lengths, whole
  elements and the values of INTEGER and BOOLEAN elements. Each pair of an encoder
  here and a reader there is an interpretation of \<open>strict_codec\<close>.
\<close>

section \<open>Base-128 integers\<close>

fun b128_high :: "nat \<Rightarrow> bytes" where
  "b128_high v = (if v = 0 then [] else b128_high (v div 128) @ [of_nat (128 + v mod 128)])"

declare b128_high.simps [simp del]

definition base128 :: "nat \<Rightarrow> bytes" where
  "base128 v = b128_high (v div 128) @ [of_nat (v mod 128)]"

lemma b128_high_0 [simp]: "b128_high 0 = []"
  by (simp add: b128_high.simps)

lemma b128_high_step:
  "d < 128 \<Longrightarrow> v \<noteq> 0 \<or> d \<noteq> 0 \<Longrightarrow> b128_high (v * 128 + d) = b128_high v @ [of_nat (128 + d)]"
  by (subst b128_high.simps) auto

lemma base128_step: "d < 128 \<Longrightarrow> base128 (v * 128 + d) = b128_high v @ [of_nat d]"
  by (simp add: base128_def)

lemma base128_Nil [simp]: "base128 v \<noteq> []"
  by (simp add: base128_def)

lemma unat_base128_step:
  assumes "unat v < 2 ^ 57"
  shows "unat (push_bit 7 v OR ucast (b AND 0x7f :: byte) :: u64) = unat v * 128 + unat b mod 128"
proof -
  have "unat (ucast (b AND 0x7f) :: u64) < 2 ^ 7"
    by (simp add: byte_split_7)
  then show ?thesis
    using assms by (subst unat_push_or) (simp_all add: byte_split_7)
qed

lemma drop_bit_eq_0_iff_less: "drop_bit n w = 0 \<longleftrightarrow> unat w < 2 ^ n" for w :: "'a :: len word"
  by (simp add: word_unat_eq_iff unat_drop_bit_div div_eq_0_iff)

lemma parse_base128_loop_sound:
  "parse_base128_loop v c = (Some w, r) \<Longrightarrow> b128_high (unat v) @ c = base128 (unat w) @ r"
proof (induction v c rule: parse_base128_loop.induct)
  case (2 v b c)
  let ?v' = "push_bit 7 v OR ucast (b AND 0x7f) :: u64"
  from 2(2) have ok: "drop_bit (64 - 7) v = 0" "\<not> (v = 0 \<and> b = 0x80)"
    by (auto split: if_splits)
  then have small: "unat v < 2 ^ 57" by (simp add: drop_bit_eq_0_iff_less)
  note v' = unat_base128_step [OF small, of b]
  show ?case
  proof (cases "b AND 0x80 \<noteq> 0")
    case True
    then have b: "128 \<le> unat b" by (simp add: byte_split_7)
    have "unat b mod 128 = unat b - 128"
      using b unat_byte_less [of b] by (simp add: mod_if del: unat_byte_less)
    moreover have "unat v \<noteq> 0 \<or> unat b \<noteq> 128"
      using ok(2) by (auto simp: word_unat_eq_iff)
    ultimately have "b128_high (unat ?v') = b128_high (unat v) @ [b]"
      using b v' by (subst v', subst b128_high_step) auto
    moreover have "parse_base128_loop ?v' c = (Some w, r)"
      using 2(2) ok True by (auto simp: Let_def split: if_splits)
    ultimately show ?thesis using 2(1) [OF _ _ refl True] ok by simp
  next
    case False
    then have b: "unat b < 128" by (simp add: byte_split_7)
    with 2(2) ok False have "w = ?v'" "c = r" by (auto simp: Let_def)
    moreover have "base128 (unat ?v') = b128_high (unat v) @ [b]"
      using b by (simp add: v' base128_step)
    ultimately show ?thesis by simp
  qed
qed simp

lemma parse_base128_high:
  "x < 2 ^ 57 \<Longrightarrow> parse_base128_loop 0 (b128_high x @ s) = parse_base128_loop (of_nat x) s"
proof (induction x arbitrary: s rule: b128_high.induct)
  case (1 x)
  show ?case
  proof (cases "x = 0")
    case False
    let ?y = "x div 128" and ?b = "of_nat (128 + x mod 128) :: byte"
    have y: "unat (of_nat ?y :: u64) = ?y" "?y < 2 ^ 57" using 1(2) by (simp_all add: unat_of_nat)
    have b: "unat ?b = 128 + x mod 128" by (simp add: unat_of_nat del: of_nat_add)
    have "parse_base128_loop 0 (b128_high x @ s) = parse_base128_loop (of_nat ?y) (?b # s)"
      using 1 False by (subst b128_high.simps) simp
    also have "\<dots> = parse_base128_loop (push_bit 7 (of_nat ?y) OR ucast (?b AND 0x7f)) s"
    proof -
      have "drop_bit (64 - 7) (of_nat ?y :: u64) = 0"
        using y by (simp add: drop_bit_eq_0_iff_less)
      moreover have "\<not> ((of_nat ?y :: u64) = 0 \<and> ?b = 0x80)"
        using y(1) b False by (auto simp: word_unat_eq_iff)
      moreover have "?b AND 0x80 \<noteq> 0" using b by (simp add: byte_split_7)
      ultimately show ?thesis by (auto simp del: of_nat_add)
    qed
    also have "push_bit 7 (of_nat ?y) OR ucast (?b AND 0x7f) = (of_nat x :: u64)"
      using y b 1(2) unat_base128_step [of "of_nat ?y" ?b] by (simp add: word_unat_eq_iff unat_of_nat)
    finally show ?thesis .
  qed simp
qed

lemma parse_base128_complete:
  assumes "x < 2 ^ 64"
  shows "parse_base128_integer (base128 x @ r) = (Some (of_nat x), r)"
proof -
  let ?y = "x div 128" and ?b = "of_nat (x mod 128) :: byte"
  have y: "unat (of_nat ?y :: u64) = ?y" "?y < 2 ^ 57" using assms by (simp_all add: unat_of_nat)
  have b: "unat ?b = x mod 128" by (simp add: unat_of_nat)
  have "parse_base128_integer (base128 x @ r) = parse_base128_loop (of_nat ?y) (?b # r)"
    using y by (simp add: parse_base128_integer_def base128_def parse_base128_high)
  moreover have "drop_bit (64 - 7) (of_nat ?y :: u64) = 0"
    using y by (simp add: drop_bit_eq_0_iff_less)
  moreover have "?b \<noteq> 0x80" using b by (auto simp: word_unat_eq_iff)
  moreover have "?b AND 0x80 = 0" using b byte_split_7(2) [of ?b] by auto
  moreover have "push_bit 7 (of_nat ?y) OR ucast (?b AND 0x7f) = (of_nat x :: u64)"
    using y b assms unat_base128_step [of "of_nat ?y" ?b] by (simp add: word_unat_eq_iff unat_of_nat)
  ultimately show ?thesis by simp
qed

lemma parse_base128_iff:
  "parse_base128_integer c = (Some w, r) \<longleftrightarrow> c = base128 (unat w) @ r"
  using parse_base128_loop_sound [of 0 c w r] parse_base128_complete [of "unat w" r] unat_less_pow(3) [of w]
  by (auto simp: parse_base128_integer_def)

interpretation b128: strict_codec "\<lambda>w. base128 (unat w)" parse_base128_integer "\<lambda>_. True"
  by unfold_locales (simp_all add: parse_base128_iff)

section \<open>Identifier octets\<close>

text \<open>
  A tag of the code holds the class and the constructed bit in bits 29 to 31 and the
  number in the rest, so every 32-bit word is a tag.
\<close>

definition tag_class :: "u32 \<Rightarrow> byte" where
  "tag_class t = ucast (drop_bit 24 t) AND 0xe0"

definition tag_number :: "u32 \<Rightarrow> u32" where
  "tag_number t = t AND CBS_ASN1_TAG_NUMBER_MASK"

definition der_tag :: "u32 \<Rightarrow> bytes" where
  "der_tag t =
     (if tag_number t \<ge> 0x1f then (tag_class t OR 0x1f) # base128 (unat (tag_number t))
      else [tag_class t OR ucast (tag_number t)])"

definition join_tag :: "byte \<Rightarrow> u32 \<Rightarrow> u32" where
  "join_tag b n = push_bit 24 (ucast b AND 0xe0) OR n"

lemma class_mask_bits: "(0xe0 :: 'a :: len word) = push_bit 5 (mask 3)"
  by (simp add: mask_eq_exp_minus_1 push_bit_eq_mult)

lemma tag_mask_bits: "CBS_ASN1_TAG_NUMBER_MASK = mask 29"
  by (simp add: CBS_ASN1_TAG_NUMBER_MASK_def mask_eq_exp_minus_1)

lemma tag_join [simp]:
  assumes "unat n < 2 ^ 29"
  shows "tag_class (join_tag b n) = b AND 0xe0" "tag_number (join_tag b n) = n"
proof -
  note n = bits_of_less [OF assms]
  show "tag_class (join_tag b n) = b AND 0xe0"
    unfolding tag_class_def join_tag_def class_mask_bits
    by (rule bit_word_eqI) (auto simp: bit_simps dest: n)
  show "tag_number (join_tag b n) = n"
    unfolding tag_number_def join_tag_def class_mask_bits tag_mask_bits
    by (rule bit_word_eqI) (auto simp: bit_simps dest: n)
qed

lemma join_tag_split [simp]: "join_tag (tag_class t) (tag_number t) = t"
  unfolding tag_number_def join_tag_def tag_class_def class_mask_bits tag_mask_bits
  by (rule bit_word_eqI) (auto simp: bit_simps)

lemma join_tag_mask [simp]: "join_tag (b AND 0xe0) n = join_tag b n"
  unfolding join_tag_def class_mask_bits
  by (rule bit_word_eqI) (auto simp: bit_simps)

lemma tag_number_less [simp]: "unat (tag_number t) < 536870912"
  by (simp add: tag_number_def tag_mask_bits unat_mask_eq)

lemma tag_class_mask [simp]: "tag_class t AND 0xe0 = tag_class t" "tag_class t AND 0x1f = 0"
  unfolding tag_class_def
  by (auto simp: byte_eq_iff_bits bit_simps)

lemma low_tag_bits:
  fixes n :: u32
  assumes "unat n < 32"
  shows "(c AND 0xe0 OR ucast n) AND 0xe0 = c AND (0xe0 :: byte)"
    and "(c AND 0xe0 OR ucast n) AND 0x1f = (ucast n :: byte)"
proof -
  have "unat n < 2 ^ 5" using assms by simp
  then have n: "bit n i \<Longrightarrow> i < 5" for i by (rule bits_of_less)
  show "(c AND 0xe0 OR ucast n) AND 0xe0 = c AND (0xe0 :: byte)"
    and "(c AND 0xe0 OR ucast n) AND 0x1f = (ucast n :: byte)"
    using n [of 5] n [of 6] n [of 7] by (auto simp: byte_eq_iff_bits bit_simps)
qed

lemma byte_class_number: "b AND 0xe0 OR (b AND 0x1f) = b" for b :: byte
  by (auto simp: byte_eq_iff_bits bit_simps)

lemma unat_low_tag: "unat (b AND 0x1f) = unat b mod 32" for b :: byte
proof -
  have "0x1f = (mask 5 :: byte)" by (simp add: mask_eq_exp_minus_1)
  then show ?thesis by (simp only: unat_mask_eq) simp
qed

lemma parse_asn1_tag_unfold:
  "parse_asn1_tag c =
     (case c of [] \<Rightarrow> (None, [])
      | b # c \<Rightarrow>
          if b AND 0x1f = 0x1f
          then and_then (parse_base128_integer c) (\<lambda>v c.
                 if unat v \<ge> 2 ^ 29 \<or> unat v < 31 then (None, c)
                 else (Some (join_tag b (ucast v)), c))
          else (Some (join_tag b (ucast (b AND 0x1f))), c))"
proof -
  have "v > ucast CBS_ASN1_TAG_NUMBER_MASK \<longleftrightarrow> 2 ^ 29 \<le> unat v" for v :: u64
    by (simp add: word_less_nat_alt CBS_ASN1_TAG_NUMBER_MASK_def) linarith
  moreover have "v < 0x1f \<longleftrightarrow> unat v < 31" for v :: u64
    by (simp add: word_less_nat_alt)
  moreover have "(ucast (b AND 0x1f) :: u32) = 0x1f \<longleftrightarrow> b AND 0x1f = 0x1f" for b :: byte
    by (simp add: word_unat_eq_iff)
  ultimately show ?thesis
    unfolding parse_asn1_tag_def Let_def join_tag_def [symmetric] by (cases c) simp_all
qed

lemma parse_asn1_tag_iff: "parse_asn1_tag c = (Some t, r) \<longleftrightarrow> c = der_tag t @ r"
proof
  assume "parse_asn1_tag c = (Some t, r)"
  then consider
    (high) b d v where "c = b # d" "b AND 0x1f = 0x1f" "d = base128 (unat v) @ r"
      "unat v < 2 ^ 29" "31 \<le> unat (v :: u64)" "t = join_tag b (ucast v)"
  | (low) b where "c = b # r" "b AND 0x1f \<noteq> 0x1f" "t = join_tag b (ucast (b AND 0x1f))"
    by (auto simp: parse_asn1_tag_unfold and_then_eq_Some parse_base128_iff
        split: list.splits if_splits)
  then show "c = der_tag t @ r"
  proof cases
    case high
    have n: "unat (ucast v :: u32) = unat v" using high(4) by (intro unat_ucast_small) simp
    then have "tag_number t = ucast v" "tag_class t = b AND 0xe0" using high by simp_all
    moreover have "b AND 0xe0 OR 0x1f = b" using byte_class_number [of b] high(2) by simp
    ultimately show ?thesis using high n by (simp add: der_tag_def word_le_nat_alt)
  next
    case low
    have n: "unat (ucast (b AND 0x1f) :: u32) < 31"
      using low(2) by (simp add: unat_low_tag word_unat_eq_iff)
    then have "tag_number t = ucast (b AND 0x1f)" "tag_class t = b AND 0xe0" using low by simp_all
    moreover have "ucast (ucast (b AND 0x1f) :: u32) = (b AND 0x1f :: byte)"
      by (simp add: word_unat_eq_iff unat_ucast_small)
    ultimately show ?thesis
      using low n byte_class_number [of b] by (simp add: der_tag_def word_le_nat_alt)
  qed
next
  assume c: "c = der_tag t @ r"
  have rejoin: "join_tag (tag_class t OR x) (tag_number t) = t" if "x AND 0xe0 = 0" for x
  proof -
    have "(tag_class t OR x) AND 0xe0 = tag_class t"
      using that by (auto simp: tag_class_def byte_eq_iff_bits bit_simps)
    then show ?thesis by (metis join_tag_mask join_tag_split)
  qed
  show "parse_asn1_tag c = (Some t, r)"
  proof (cases "tag_number t \<ge> 0x1f")
    case True
    let ?v = "ucast (tag_number t) :: u64"
    have v: "unat ?v = unat (tag_number t)"
      using tag_number_less [of t] by (intro unat_ucast_small) (simp del: tag_number_less)
    have "parse_base128_integer (base128 (unat ?v) @ r) = (Some ?v, r)"
      by (simp add: parse_base128_iff)
    moreover have "(tag_class t OR 0x1f) AND 0x1f = 0x1f"
      by (simp add: byte_eq_iff_bits bit_simps)
    moreover have "(ucast ?v :: u32) = tag_number t"
      using v by (simp add: word_unat_eq_iff unat_ucast_small unat_less_pow)
    ultimately show ?thesis
      using True c v rejoin [of "0x1f"]
      by (simp add: parse_asn1_tag_unfold der_tag_def word_le_nat_alt not_le)
  next
    case False
    then have n: "unat (tag_number t) < 31" by (simp add: word_le_nat_alt)
    have "tag_class t = tag_class t AND 0xe0" by simp
    then have b: "(tag_class t OR ucast (tag_number t)) AND 0x1f = (ucast (tag_number t) :: byte)"
      using low_tag_bits(2) [of "tag_number t" "tag_class t"] n by simp
    have u: "unat (ucast (tag_number t) :: byte) = unat (tag_number t)"
      using n by (intro unat_ucast_small) simp
    then have "(ucast (tag_number t) :: byte) \<noteq> 0x1f" "ucast (ucast (tag_number t) :: byte) = tag_number t"
      using n by (auto simp: word_unat_eq_iff)
    moreover have "ucast (tag_number t) AND (0xe0 :: byte) = 0"
      using low_tag_bits(1) [of "tag_number t" 0] n by simp
    ultimately show ?thesis
      using False c b rejoin [of "ucast (tag_number t)"] by (simp add: parse_asn1_tag_unfold der_tag_def)
  qed
qed

interpretation tag: strict_codec der_tag parse_asn1_tag "\<lambda>_. True"
  by unfold_locales (simp_all add: parse_asn1_tag_iff)

section \<open>Lengths and elements\<close>

definition der_len_bytes :: "nat \<Rightarrow> nat" where
  "der_len_bytes n = (if n > 0xffffff then 4 else if n > 0xffff then 3 else if n > 0xff then 2 else 1)"

definition der_length :: "nat \<Rightarrow> bytes" where
  "der_length n =
     (if n < 128 then [of_nat n]
      else (0x80 OR of_nat (der_len_bytes n)) # be_bytes (der_len_bytes n) n)"

definition der_header :: "u32 \<Rightarrow> bytes \<Rightarrow> bytes" where
  "der_header t d = der_tag t @ der_length (length d)"

definition der_element :: "u32 \<Rightarrow> bytes \<Rightarrow> bytes" where
  "der_element t d = der_header t d @ d"

lemma length_base128: "x < 2 ^ 29 \<Longrightarrow> length (base128 x) \<le> 5"
  unfolding base128_def
  by (subst b128_high.simps, subst b128_high.simps, subst b128_high.simps, subst b128_high.simps,
      subst b128_high.simps) (simp flip: div_mult2_eq)

lemma length_der_tag: "1 \<le> length (der_tag t)" "length (der_tag t) \<le> 6"
  using length_base128 [of "unat (tag_number t)"] by (simp_all add: der_tag_def)

lemma der_len_bytes_range: "1 \<le> der_len_bytes n" "der_len_bytes n \<le> 4"
  by (simp_all add: der_len_bytes_def)

lemma der_len_bytes_iff:
  "128 \<le> n \<Longrightarrow> n < 256 ^ k \<Longrightarrow> 1 \<le> k \<Longrightarrow> k \<le> 4 \<Longrightarrow> 256 ^ (k - 1) \<le> n \<Longrightarrow> der_len_bytes n = k"
proof -
  assume *: "128 \<le> n" "n < 256 ^ k" "1 \<le> k" "k \<le> 4" "256 ^ (k - 1) \<le> n"
  then have "k = 1 \<or> k = 2 \<or> k = 3 \<or> k = 4" by arith
  with * show ?thesis by (auto simp: der_len_bytes_def)
qed

lemma der_len_bytes_bounds:
  "n < 2 ^ 32 \<Longrightarrow> n < 256 ^ der_len_bytes n"
  "128 \<le> n \<Longrightarrow> 256 ^ (der_len_bytes n - 1) \<le> n"
  by (simp_all add: der_len_bytes_def)

lemma length_der_length: "1 \<le> length (der_length n)" "length (der_length n) \<le> 5"
  using der_len_bytes_range [of n] by (simp_all add: der_length_def)

lemma length_der_header: "length (der_header t d) \<le> 11"
  using length_der_tag(2) [of t] length_der_length(2) [of "length d"]
  by (simp add: der_header_def)

lemma element_body_iff:
  "element_body len t h b c = (Some e, r) \<longleftrightarrow>
     (\<exists>d. length d = unat len \<and> c = d @ r \<and>
        e = \<lparr>el_out = d, el_tag = t, el_header_len = h, el_ber_found = b\<rparr>)"
  by (auto simp: element_body_def and_then_eq_Some CBS_get_bytes_iff)

lemma of_nat_minus_suffix:
  "(of_nat (length (a @ r)) - of_nat (length r) :: u64) = of_nat (length a)"
  by simp

lemma append_eq_length:
  "a @ s = d @ r \<Longrightarrow> length a \<le> length d \<Longrightarrow> \<exists>x. d = a @ x \<and> s = x @ r"
  by (metis append_eq_append_conv_if append_take_drop_id append_assoc)

text \<open>The long form, read after the identifier octets and the initial length octet.\<close>

lemma long_form_iff:
  fixes hdr header :: bytes
  assumes k: "1 \<le> k" "k \<le> 4" and h: "length hdr < 2 ^ 32"
  shows "long_form_length False k t (of_nat (length hdr)) header (hdr @ header) = (Some e, r) \<longleftrightarrow>
    (\<exists>d. 128 \<le> length d \<and> der_len_bytes (length d) = k \<and> length d < 2 ^ 32 \<and>
       header = be_bytes k (length d) @ d @ r \<and>
       e = \<lparr>el_out = hdr @ be_bytes k (length d) @ d, el_tag = t,
            el_header_len = of_nat (length hdr + k), el_ber_found = False\<rparr>)"
  (is "?L \<longleftrightarrow> ?R")
proof -
  have pow: "(256 :: nat) ^ k \<le> 256 ^ 4" using k by (intro power_increasing) simp_all
  have total: "unat (len64 + (of_nat (length hdr) + of_nat k) :: u64) = unat len64 + length hdr + k"
    and no_wrap: "\<not> len64 + of_nat (length hdr) + of_nat k < len64"
    if "unat len64 < 256 ^ k" for len64 :: u64
  proof -
    have "unat len64 + length hdr + k < 2 ^ 64" using that pow h k by simp
    then show t: "unat (len64 + (of_nat (length hdr) + of_nat k) :: u64) = unat len64 + length hdr + k"
      by (simp add: unat_word_ariths unat_of_nat mod_add_right_eq mod_add_left_eq)
    then show "\<not> len64 + of_nat (length hdr) + of_nat k < len64"
      by (simp add: word_less_nat_alt add.assoc)
  qed
  have min: "drop_bit ((k - 1) * 8) len64 \<noteq> 0 \<longleftrightarrow> 256 ^ (k - 1) \<le> unat len64" for len64 :: u64
  proof -
    have "(2 :: nat) ^ ((k - 1) * 8) = (2 ^ 8) ^ (k - 1)"
      by (simp only: mult.commute flip: power_mult)
    then show ?thesis by (simp add: drop_bit_eq_0_iff_less not_less)
  qed
  show ?thesis
  proof
    assume ?L
    then obtain len64 x where v: "cbs_get_u k header = (Some len64, x)" "\<not> len64 < 128"
        "drop_bit ((k - 1) * 8) len64 \<noteq> 0"
        "element_body (len64 + (of_nat (length hdr) + of_nat k)) t
           (of_nat (length hdr) + of_nat k) False (hdr @ header) = (Some e, r)"
      using k by (auto simp: long_form_length_def Let_def split: prod.splits option.splits if_splits)
    then have h': "unat len64 < 256 ^ k" "header = be_bytes k (unat len64) @ x"
      using k by (simp_all add: cbs_get_u_iff)
    obtain out where out: "length out = unat len64 + length hdr + k" "hdr @ header = out @ r"
        "e = \<lparr>el_out = out, el_tag = t, el_header_len = of_nat (length hdr) + of_nat k, el_ber_found = False\<rparr>"
      using v(4) by (auto simp: element_body_iff total [OF h'(1)])
    have "(hdr @ be_bytes k (unat len64)) @ x = out @ r" using out(2) h'(2) by simp
    then obtain d where d: "out = (hdr @ be_bytes k (unat len64)) @ d" "x = d @ r"
      using append_eq_length [of "hdr @ be_bytes k (unat len64)" x out r] out(1) by auto
    then have len: "length d = unat len64" using out(1) by simp
    moreover have "128 \<le> unat len64" using v(2) by (simp add: word_less_nat_alt)
    ultimately show ?R
      using der_len_bytes_iff [of "length d" k] h' v(3) k d out(3) pow min
      by (intro exI [of _ d]) simp
  next
    assume ?R
    then obtain d where d: "128 \<le> length d" "der_len_bytes (length d) = k" "length d < 2 ^ 32"
      "header = be_bytes k (length d) @ d @ r"
      "e = \<lparr>el_out = hdr @ be_bytes k (length d) @ d, el_tag = t,
            el_header_len = of_nat (length hdr + k), el_ber_found = False\<rparr>" by blast
    let ?n = "of_nat (length d) :: u64"
    have n: "unat ?n = length d" using d(3) by (simp add: unat_of_nat)
    have b: "length d < 256 ^ k" "256 ^ (k - 1) \<le> length d"
      using der_len_bytes_bounds [of "length d"] d by auto
    have "cbs_get_u k header = (Some ?n, d @ r)"
      using k d b by (simp add: cbs_get_u_iff n)
    moreover have "\<not> ?n < 128" using d(1) n by (simp add: word_less_nat_alt)
    moreover have "drop_bit ((k - 1) * 8) ?n \<noteq> 0" using b n by (simp only: min)
    moreover have "element_body (?n + (of_nat (length hdr) + of_nat k)) t
        (of_nat (length hdr) + of_nat k) False (hdr @ header) = (Some e, r)"
      using d total [of ?n] n b by (simp add: element_body_iff)
    ultimately show ?L
      using k no_wrap [of ?n] n b by (simp add: long_form_length_def)
  qed
qed

lemma initial_length_octet:
  assumes "1 \<le> k" "k \<le> 4"
  shows "(0x80 OR of_nat k :: byte) AND 0x80 \<noteq> 0" "unat ((0x80 OR of_nat k :: byte) AND 0x7f) = k"
proof -
  have "k = 1 \<or> k = 2 \<or> k = 3 \<or> k = 4" using assms by arith
  then show "(0x80 OR of_nat k :: byte) AND 0x80 \<noteq> 0" "unat ((0x80 OR of_nat k :: byte) AND 0x7f) = k"
    by auto
qed

lemma long_octet: "b AND 0x80 \<noteq> 0 \<Longrightarrow> b = 0x80 OR of_nat (unat (b AND 0x7f))" for b :: byte
  by (auto simp: byte_eq_iff_bits bit_simps)

lemma any_element_unfold:
  "cbs_get_any_asn1_element ber_ok (der_tag t @ b # header) =
     (let hdr = der_tag t @ [b]; c = hdr @ header; num_bytes = unat (b AND 0x7f)
      in if b AND 0x80 = 0
         then element_body (ucast b + of_nat (length hdr)) t (of_nat (length hdr)) False c
         else if ber_ok \<and> t AND CBS_ASN1_CONSTRUCTED \<noteq> 0 \<and> num_bytes = 0
         then element_body (of_nat (length hdr)) t (of_nat (length hdr)) True c
         else long_form_length ber_ok num_bytes t (of_nat (length hdr)) header c)"
  by (simp add: cbs_get_any_asn1_element_def tag.dec_enc Let_def)

lemma any_element_fails:
  "fst (parse_asn1_tag c) = None \<or> (\<exists>t. parse_asn1_tag c = (Some t, [])) \<Longrightarrow>
   cbs_get_any_asn1_element ber_ok c = (None, c)"
  by (auto simp: cbs_get_any_asn1_element_def split: prod.splits option.splits)

text \<open>A successful read took an identifier and at least one length octet.\<close>

lemma any_element_shape:
  assumes "cbs_get_any_asn1_element ber_ok c = (Some e, r)"
  obtains t b header where "c = der_tag t @ b # header"
proof -
  have "fst (parse_asn1_tag c) \<noteq> None" "\<nexists>t. parse_asn1_tag c = (Some t, [])"
    using assms by (metis any_element_fails option.distinct(1) prod.inject)+
  then obtain t b header where "parse_asn1_tag c = (Some t, b # header)"
    by (cases "parse_asn1_tag c"; cases "fst (parse_asn1_tag c)"; cases "snd (parse_asn1_tag c)") auto
  then show thesis using that by (simp add: parse_asn1_tag_iff)
qed

definition der_result :: "u32 \<Rightarrow> bytes \<Rightarrow> element" where
  "der_result t d =
     \<lparr>el_out = der_element t d, el_tag = t,
      el_header_len = of_nat (length (der_header t d)), el_ber_found = False\<rparr>"

lemma short_form_iff:
  assumes "unat b < 128"
  shows "element_body (ucast b + of_nat (length (der_tag t @ [b]))) t (of_nat (length (der_tag t @ [b])))
      False ((der_tag t @ [b]) @ header) = (Some e, r) \<longleftrightarrow>
    (\<exists>d. length d = unat b \<and> header = d @ r \<and> e = der_result t d)"
  (is "element_body ?len t ?hl False (?hdr @ header) = _ \<longleftrightarrow> _")
proof -
  have len: "unat ?len = unat b + length ?hdr"
    using length_der_tag(2) [of t] assms by (simp add: unat_word_ariths unat_of_nat)
  have b: "der_length (unat b) = [b]" using assms by (simp add: der_length_def)
  show ?thesis
  proof
    assume "element_body ?len t ?hl False (?hdr @ header) = (Some e, r)"
    then obtain out where out: "length out = unat b + length ?hdr" "?hdr @ header = out @ r"
      "e = \<lparr>el_out = out, el_tag = t, el_header_len = ?hl, el_ber_found = False\<rparr>"
      by (auto simp only: element_body_iff len)
    then obtain d where "out = ?hdr @ d" "header = d @ r"
      using append_eq_length [OF out(2)] by auto
    with out b show "\<exists>d. length d = unat b \<and> header = d @ r \<and> e = der_result t d"
      by (intro exI [of _ d]) (simp add: der_result_def der_element_def der_header_def)
  next
    assume "\<exists>d. length d = unat b \<and> header = d @ r \<and> e = der_result t d"
    with b show "element_body ?len t ?hl False (?hdr @ header) = (Some e, r)"
      unfolding element_body_iff len
      by (auto simp: der_result_def der_element_def der_header_def)
  qed
qed

lemma any_asn1_element_iff:
  "CBS_get_any_asn1_element c = (Some e, r) \<longleftrightarrow>
     (\<exists>t d. length d < 2 ^ 32 \<and> c = der_element t d @ r \<and> e = der_result t d)"
proof
  assume *: "CBS_get_any_asn1_element c = (Some e, r)"
  then obtain t b header where c: "c = der_tag t @ b # header"
    unfolding CBS_get_any_asn1_element_def by (rule any_element_shape)
  show "\<exists>t d. length d < 2 ^ 32 \<and> c = der_element t d @ r \<and> e = der_result t d"
  proof (cases "b AND 0x80 = 0")
    case True
    then have b: "unat b < 128" using byte_split_7(2) [of b] by simp
    have "\<exists>d. length d = unat b \<and> header = d @ r \<and> e = der_result t d"
      using * unfolding CBS_get_any_asn1_element_def c any_element_unfold Let_def
        short_form_iff [OF b, symmetric] by (simp only: True if_True simp_thms)
    then obtain d where d: "length d = unat b" "header = d @ r" "e = der_result t d" by blast
    with b c show ?thesis
      by (intro exI [of _ t] exI [of _ d]) (simp add: der_element_def der_header_def der_length_def)
  next
    case False
    let ?k = "unat (b AND 0x7f)"
    have lf: "long_form_length False ?k t (of_nat (length (der_tag t @ [b]))) header
        ((der_tag t @ [b]) @ header) = (Some e, r)"
      using * unfolding CBS_get_any_asn1_element_def c any_element_unfold Let_def
      by (simp only: False if_False simp_thms)
    then have k: "1 \<le> ?k" "?k \<le> 4"
      by (auto simp: long_form_length_def split: if_splits)
    have "length (der_tag t @ [b]) < 2 ^ 32" using length_der_tag(2) [of t] by simp
    with lf k obtain d where d: "128 \<le> length d" "der_len_bytes (length d) = ?k" "length d < 2 ^ 32"
        "header = be_bytes ?k (length d) @ d @ r"
        "e = \<lparr>el_out = (der_tag t @ [b]) @ be_bytes ?k (length d) @ d, el_tag = t,
            el_header_len = of_nat (length (der_tag t @ [b]) + ?k), el_ber_found = False\<rparr>"
      by (auto simp only: long_form_iff)
    have "der_length (length d) = b # be_bytes ?k (length d)"
      using d(1,2) long_octet [OF False] by (simp add: der_length_def)
    with d c show ?thesis
      by (intro exI [of _ t] exI [of _ d]) (simp add: der_element_def der_header_def der_result_def)
  qed
next
  assume "\<exists>t d. length d < 2 ^ 32 \<and> c = der_element t d @ r \<and> e = der_result t d"
  then obtain t d where d: "length d < 2 ^ 32" "c = der_element t d @ r" "e = der_result t d" by blast
  show "CBS_get_any_asn1_element c = (Some e, r)"
  proof (cases "length d < 128")
    case True
    let ?b = "of_nat (length d) :: byte"
    have b: "unat ?b = length d" using True by simp
    then have "?b AND 0x80 = 0" using True byte_split_7(2) [of ?b] by auto
    moreover have c: "c = der_tag t @ ?b # d @ r"
      using True d by (simp add: der_element_def der_header_def der_length_def)
    moreover have "unat ?b < 128" using b True by simp
    ultimately show ?thesis
      unfolding CBS_get_any_asn1_element_def c any_element_unfold Let_def
      using short_form_iff [of ?b t "d @ r" e r] b d by (simp only: if_True refl) blast
  next
    case False
    let ?k = "der_len_bytes (length d)" and ?b = "0x80 OR of_nat (der_len_bytes (length d)) :: byte"
    note k = der_len_bytes_range [of "length d"]
    note b = initial_length_octet [OF k]
    have c: "c = der_tag t @ ?b # be_bytes ?k (length d) @ d @ r"
      using False d by (simp add: der_element_def der_header_def der_length_def)
    have e: "e = \<lparr>el_out = (der_tag t @ [?b]) @ be_bytes ?k (length d) @ d, el_tag = t,
            el_header_len = of_nat (length (der_tag t @ [?b]) + ?k), el_ber_found = False\<rparr>"
      using False d by (simp add: der_result_def der_element_def der_header_def der_length_def)
    have "length (der_tag t @ [?b]) < 2 ^ 32" using length_der_tag(2) [of t] by simp
    then have "long_form_length False ?k t (of_nat (length (der_tag t @ [?b])))
        (be_bytes ?k (length d) @ d @ r)
        ((der_tag t @ [?b]) @ be_bytes ?k (length d) @ d @ r) = (Some e, r)"
      using False d k e by (subst long_form_iff) auto
    then show ?thesis
      using b unfolding CBS_get_any_asn1_element_def c any_element_unfold Let_def by simp
  qed
qed

lemma der_result_fields [simp]:
  "el_out (der_result t d) = der_element t d" "el_tag (der_result t d) = t"
  "el_header_len (der_result t d) = of_nat (length (der_header t d))"
  "el_ber_found (der_result t d) = False"
  by (simp_all add: der_result_def)

lemma unat_header_len [simp]:
  "unat (of_nat (length (der_header t d)) :: u64) = length (der_header t d)"
  using length_der_header [of t d] by (simp add: unat_of_nat)

lemma skip_header [simp]:
  "CBS_skip (length (der_header t d)) (der_element t d) = (Some (), d)"
  by (simp add: CBS_skip_def der_element_def)

lemma ex_element:
  "(\<exists>e. CBS_get_any_asn1_element c = (Some e, r) \<and> P e) \<longleftrightarrow>
     (\<exists>t d. length d < 2 ^ 32 \<and> c = der_element t d @ r \<and> P (der_result t d))"
  unfolding any_asn1_element_iff by blast

lemma CBS_get_any_asn1_iff:
  "CBS_get_any_asn1 c = (Some (d, t), r) \<longleftrightarrow> length d < 2 ^ 32 \<and> c = der_element t d @ r"
proof -
  have "CBS_get_any_asn1 c = (Some (d, t), r) \<longleftrightarrow>
    (\<exists>e. CBS_get_any_asn1_element c = (Some e, r) \<and>
       CBS_skip (unat (el_header_len e)) (el_out e) = (Some (), d) \<and> el_tag e = t)"
    by (auto simp: CBS_get_any_asn1_def and_then_eq_Some case_reader_eq_Some)
  also have "\<dots> \<longleftrightarrow> length d < 2 ^ 32 \<and> c = der_element t d @ r"
    unfolding ex_element by auto
  finally show ?thesis .
qed

interpretation der_any:
  strict_codec "\<lambda>(d, t). der_element t d" CBS_get_any_asn1 "\<lambda>(d, t). length d < 2 ^ 32"
  by unfold_locales (auto simp: CBS_get_any_asn1_iff)

lemma CBS_get_asn1_iff:
  "CBS_get_asn1 t c = (Some d, r) \<longleftrightarrow> length d < 2 ^ 32 \<and> c = der_element t d @ r"
proof -
  have "CBS_get_asn1 t c = (Some d, r) \<longleftrightarrow>
    (\<exists>e. CBS_get_any_asn1_element c = (Some e, r) \<and> el_tag e = t \<and>
       CBS_skip (unat (el_header_len e)) (el_out e) = (Some (), d))"
    by (auto simp: CBS_get_asn1_def cbs_get_asn1_def and_then_eq_Some case_reader_eq_Some
        split: if_splits)
  also have "\<dots> \<longleftrightarrow> length d < 2 ^ 32 \<and> c = der_element t d @ r"
    unfolding ex_element by auto
  finally show ?thesis .
qed

interpretation der: strict_codec "der_element t" "CBS_get_asn1 t" "\<lambda>d. length d < 2 ^ 32"
  for t by unfold_locales (auto simp: CBS_get_asn1_iff)

lemma CBS_get_asn1_element_iff:
  "CBS_get_asn1_element t c = (Some x, r) \<longleftrightarrow>
     (\<exists>d. length d < 2 ^ 32 \<and> x = der_element t d \<and> c = x @ r)"
proof -
  have "CBS_get_asn1_element t c = (Some x, r) \<longleftrightarrow>
    (\<exists>e. CBS_get_any_asn1_element c = (Some e, r) \<and> el_tag e = t \<and> el_out e = x)"
    by (auto simp: CBS_get_asn1_element_def cbs_get_asn1_def and_then_eq_Some split: if_splits)
  then show ?thesis unfolding ex_element by auto
qed

lemma CBS_peek_asn1_tag_iff: "CBS_peek_asn1_tag c t \<longleftrightarrow> (\<exists>r. c = der_tag t @ r)"
proof -
  have "c \<noteq> [] \<Longrightarrow> fst (parse_asn1_tag c) = Some t \<longleftrightarrow> (\<exists>r. parse_asn1_tag c = (Some t, r))"
    by (cases "parse_asn1_tag c") auto
  then show ?thesis
    using length_der_tag(1) [of t] by (auto simp: CBS_peek_asn1_tag_def parse_asn1_tag_iff)
qed

section \<open>INTEGER and BOOLEAN values\<close>

text \<open>The least number of big-endian bytes, and the contents of a non-negative INTEGER.\<close>

fun min_be :: "nat \<Rightarrow> bytes" where
  "min_be v = (if v = 0 then [] else min_be (v div 256) @ [of_nat v])"

declare min_be.simps [simp del]

definition uint_content :: "nat \<Rightarrow> bytes" where
  "uint_content v = (case min_be v of [] \<Rightarrow> [0] | b # bs \<Rightarrow> if 128 \<le> unat b then 0 # b # bs else b # bs)"

lemma min_be_0 [simp]: "min_be 0 = []"
  by (simp add: min_be.simps)

lemma min_be_step: "v \<noteq> 0 \<or> b \<noteq> 0 \<Longrightarrow> min_be (v * 256 + unat b) = min_be v @ [b]" for b :: byte
proof -
  assume "v \<noteq> 0 \<or> b \<noteq> 0"
  then have "v * 256 + unat b \<noteq> 0" by (auto simp: word_unat_eq_iff)
  moreover have "(of_nat (v * 256 + unat b) :: byte) = b"
    by (simp only: word_unat_eq_iff unat_byte_of_nat) simp
  ultimately show ?thesis by (subst min_be.simps) (simp add: div_add1_eq)
qed

lemma min_be_be_val: "min_be (be_val bs) = dropWhile (\<lambda>b. b = 0) bs"
proof (induction bs rule: rev_induct)
  case (snoc b bs)
  show ?case
  proof (cases "be_val bs = 0 \<and> b = 0")
    case True
    with snoc have "\<forall>x \<in> set bs. x = 0" by (metis (full_types) dropWhile_eq_Nil_conv min_be_0)
    with True show ?thesis by (simp add: dropWhile_append)
  next
    case False
    then have "min_be (be_val (bs @ [b])) = min_be (be_val bs) @ [b]" by (simp add: min_be_step)
    moreover have "dropWhile (\<lambda>b. b = 0) (bs @ [b]) = dropWhile (\<lambda>b. b = 0) bs @ [b]"
    proof (cases "\<forall>x \<in> set bs. x = 0")
      case all: True
      then have "dropWhile (\<lambda>b. b = 0) bs = []" by simp
      then have "be_val bs = 0"
        using snoc by (metis append_is_Nil_conv min_be.simps not_Cons_self2)
      with False all show ?thesis by (simp add: dropWhile_append)
    qed (auto simp: dropWhile_append)
    ultimately show ?thesis using snoc by simp
  qed
qed simp

lemma length_min_be: "v < 256 ^ k \<Longrightarrow> length (min_be v) \<le> k"
proof (induction k arbitrary: v)
  case (Suc k)
  then have "v div 256 < 256 ^ k" by (simp add: less_mult_imp_div_less mult.commute)
  with Suc.IH show ?case by (subst min_be.simps) simp
qed simp

lemma be_val_min_be [simp]: "be_val (min_be v) = v"
  by (induction v rule: min_be.induct) (subst min_be.simps, simp)

lemma be_val_0_Cons [simp]: "be_val (0 # bs) = be_val bs"
  by (simp add: be_val_Cons)

lemma be_val_uint_content [simp]: "be_val (uint_content v) = v"
proof (cases "min_be v")
  case (Cons b bs)
  then have "be_val (b # bs) = v" by (metis be_val_min_be)
  with Cons show ?thesis by (simp add: uint_content_def)
next
  case Nil
  then have "v = 0" by (metis be_val_Nil be_val_min_be)
  with Nil show ?thesis by (simp add: uint_content_def)
qed

lemma is_valid_asn1_integer_simps [simp]:
  "CBS_is_valid_asn1_integer [] = (False, False)"
  "CBS_is_valid_asn1_integer [b] = (True, b AND 0x80 \<noteq> 0)"
  "CBS_is_valid_asn1_integer (b # b' # bs) =
     (\<not> (b = 0 \<and> b' AND 0x80 = 0 \<or> b = 0xff \<and> b' AND 0x80 \<noteq> 0), b AND 0x80 \<noteq> 0)"
  by (simp_all add: CBS_is_valid_asn1_integer_def Let_def)

lemma min_be_hd:
  assumes "min_be v = b # bs"
  shows "b \<noteq> 0"
proof
  assume "b = 0"
  have "min_be v = dropWhile (\<lambda>b. b = 0) (min_be v)"
    using min_be_be_val [of "min_be v"] by simp
  with assms \<open>b = 0\<close> have "0 # bs = dropWhile (\<lambda>b. b = 0) bs" by simp
  then show False
    using length_dropWhile_le [of "\<lambda>b. b = 0" bs] by (metis impossible_Cons)
qed

lemma is_unsigned_asn1_integer_iff:
  "CBS_is_unsigned_asn1_integer d \<longleftrightarrow> d = uint_content (be_val d)"
proof
  assume *: "CBS_is_unsigned_asn1_integer d"
  consider (one) b where "d = [b]" | (more) b b' bs where "d = b # b' # bs"
    using * by (cases d rule: remdups_adj.cases) (auto simp: CBS_is_unsigned_asn1_integer_def)
  then show "d = uint_content (be_val d)"
  proof cases
    case one
    with * show ?thesis
      using min_be_be_val [of d] byte_split_7(2) [of b]
      by (auto simp: CBS_is_unsigned_asn1_integer_def uint_content_def)
  next
    case more
    with * have "b AND 0x80 = 0" "b = 0 \<longrightarrow> b' AND 0x80 \<noteq> 0"
      by (auto simp: CBS_is_unsigned_asn1_integer_def)
    with more show ?thesis
      using min_be_be_val [of d] byte_split_7(2) [of b] byte_split_7(2) [of b']
      by (auto simp: uint_content_def)
  qed
next
  assume d: "d = uint_content (be_val d)"
  show "CBS_is_unsigned_asn1_integer d"
  proof (cases "min_be (be_val d)")
    case Nil
    with d show ?thesis by (subst d) (simp add: uint_content_def CBS_is_unsigned_asn1_integer_def)
  next
    case (Cons b bs)
    with d min_be_hd [OF Cons] show ?thesis
      using byte_split_7(2) [of b]
      by (subst d, cases bs) (auto simp: uint_content_def CBS_is_unsigned_asn1_integer_def)
  qed
qed

lemma uint64_loop_iff:
  "uint64_loop v d = Some w \<longleftrightarrow>
     unat v * 256 ^ length d + be_val d < 2 ^ 64 \<and> unat w = unat v * 256 ^ length d + be_val d"
proof (induction v d rule: uint64_loop.induct)
  case (1 v)
  then show ?case using unat_less_pow(3) [of v] by (auto simp: word_unat_eq_iff)
next
  case (2 v b d)
  show ?case
  proof (cases "unat v < 2 ^ 56")
    case True
    then have "unat (push_bit 8 v OR ucast b) = unat v * 256 + unat b"
      using True unat_byte_less [of b] by (subst unat_push_or) (simp_all del: unat_byte_less)
    with True 2 show ?thesis
      by (simp add: drop_bit_eq_0_iff_less be_val_Cons algebra_simps)
  next
    case False
    then have "2 ^ 56 * 256 \<le> unat v * 256 * 256 ^ length d"
      using mult_le_mono [of "2 ^ 56 * 256" "unat v * 256" 1 "256 ^ length d"] by simp
    with False show ?thesis by (simp add: drop_bit_eq_0_iff_less algebra_simps)
  qed
qed

lemma CBS_get_asn1_uint64_iff:
  "CBS_get_asn1_uint64 c = (Some v, r) \<longleftrightarrow>
     c = der_element CBS_ASN1_INTEGER (uint_content (unat v)) @ r"
proof
  assume "CBS_get_asn1_uint64 c = (Some v, r)"
  then obtain d where "c = der_element CBS_ASN1_INTEGER d @ r" "d = uint_content (be_val d)"
      "uint64_loop 0 d = Some v"
    by (auto simp: CBS_get_asn1_uint64_def and_then_eq_Some CBS_get_asn1_iff
        simp flip: is_unsigned_asn1_integer_iff split: if_splits)
  then show "c = der_element CBS_ASN1_INTEGER (uint_content (unat v)) @ r"
    by (simp add: uint64_loop_iff)
next
  assume c: "c = der_element CBS_ASN1_INTEGER (uint_content (unat v)) @ r"
  let ?d = "uint_content (unat v)"
  have "length ?d < 2 ^ 32"
    using length_min_be [of "unat v" 8] unat_less_pow(3) [of v]
    by (auto simp: uint_content_def split: list.splits)
  moreover have "CBS_is_unsigned_asn1_integer ?d"
    by (simp add: is_unsigned_asn1_integer_iff)
  moreover have "uint64_loop 0 ?d = Some v"
    using unat_less_pow(3) [of v] by (simp add: uint64_loop_iff)
  ultimately show "CBS_get_asn1_uint64 c = (Some v, r)"
    using c by (simp add: CBS_get_asn1_uint64_def der.dec_enc)
qed

interpretation der_uint64:
  strict_codec "\<lambda>v. der_element CBS_ASN1_INTEGER (uint_content (unat v))" CBS_get_asn1_uint64 "\<lambda>_. True"
  by unfold_locales (simp_all add: CBS_get_asn1_uint64_iff)

lemma CBS_get_asn1_bool_iff:
  "CBS_get_asn1_bool c = (Some v, r) \<longleftrightarrow>
     c = der_element CBS_ASN1_BOOLEAN [if v then 0xff else 0] @ r"
proof
  assume "CBS_get_asn1_bool c = (Some v, r)"
  then obtain d where "c = der_element CBS_ASN1_BOOLEAN d @ r" "length d = 1"
    "d ! 0 = 0 \<or> d ! 0 = 0xff" "v = (d ! 0 \<noteq> 0)"
    by (auto simp: CBS_get_asn1_bool_def and_then_eq_Some CBS_get_asn1_iff Let_def split: if_splits)
  then show "c = der_element CBS_ASN1_BOOLEAN [if v then 0xff else 0] @ r"
    by (cases d) auto
qed (simp add: CBS_get_asn1_bool_def der.dec_enc Let_def)

interpretation der_bool:
  strict_codec "\<lambda>v. der_element CBS_ASN1_BOOLEAN [if v then 0xff else 0]" CBS_get_asn1_bool "\<lambda>_. True"
  by unfold_locales (simp_all add: CBS_get_asn1_bool_iff)

end
