(* ===== verification/Cbb.thy ===== *)
theory Cbb
  imports Der
begin

text \<open>
  The byte string builder \<open>CBB\<close> of BoringSSL (\<open>crypto/bytestring/cbb.c\<close>). All the
  builders of one output share a buffer; a builder has at most one open child, whose
  length prefix is written when the parent is next used. The model of a builder is
  what an operation on it can reach: the shared buffer, its own prefix position, and
  the chain of open children below it (its child, that child's child, and so on).
  \<open>on_child\<close> runs an operation on the open child. A child that was closed has a null
  \<open>base\<close> in the code; here it is no longer in the chain, and operating on it fails. A
  top-level builder that was finished or cleaned up has a null \<open>base\<close> too: \<open>cbb_null\<close>
  says so, and \<open>cbb_base\<close> then means nothing.

  \<open>realloc\<close> may fail and hands out memory with arbitrary contents: both are fields of
  the buffer that no operation changes.
\<close>

section \<open>The buffer\<close>

record cbb_buffer =
  b_buf :: bytes
  b_len :: u64
  b_cap :: u64
  b_can_resize :: bool
  b_error :: bool
  b_grants :: "u64 \<Rightarrow> bool"
  b_fresh :: "nat \<Rightarrow> byte"

record cbb_child =
  c_offset :: u64
  c_pending_len_len :: byte
  c_pending_is_asn1 :: bool

record cbb =
  cbb_base :: cbb_buffer
  cbb_offset :: u64
  cbb_pending_len_len :: byte
  cbb_below :: "cbb_child list"
  cbb_null :: bool

definition cbb_init :: "bytes \<Rightarrow> u64 \<Rightarrow> (u64 \<Rightarrow> bool) \<Rightarrow> (nat \<Rightarrow> byte) \<Rightarrow> cbb option" where
  \<comment> \<open>32 is the size of the buffer structure\<close>
  "cbb_init buf cap grants fresh =
     (if \<not> grants 32 then None
      else Some \<lparr>cbb_base = \<lparr>b_buf = buf, b_len = 0, b_cap = cap, b_can_resize = True,
                               b_error = False, b_grants = grants, b_fresh = fresh\<rparr>,
                 cbb_offset = 0, cbb_pending_len_len = 0, cbb_below = [], cbb_null = False\<rparr>)"

definition CBB_init :: "u64 \<Rightarrow> (u64 \<Rightarrow> bool) \<Rightarrow> (nat \<Rightarrow> byte) \<Rightarrow> cbb option" where
  "CBB_init initial_capacity grants fresh =
     (if initial_capacity > 0 \<and> \<not> grants initial_capacity then None
      else cbb_init (map fresh [0..<unat initial_capacity]) initial_capacity grants fresh)"

definition CBB_init_fixed :: "bytes \<Rightarrow> (u64 \<Rightarrow> bool) \<Rightarrow> (nat \<Rightarrow> byte) \<Rightarrow> cbb option" where
  "CBB_init_fixed buf grants fresh =
     map_option (\<lambda>c. c\<lparr>cbb_base := (cbb_base c)\<lparr>b_can_resize := False\<rparr>\<rparr>)
       (cbb_init buf (of_nat (length buf)) grants fresh)"

definition cbb_buffer_reserve :: "cbb_buffer \<Rightarrow> u64 \<Rightarrow> bool \<times> cbb_buffer" where
  "cbb_buffer_reserve b len =
     (let newlen = b_len b + len
      in if newlen < b_len b then (False, b\<lparr>b_error := True\<rparr>)
         else if newlen > b_cap b
         then let newcap = b_cap b * 2
              in if \<not> b_can_resize b then (False, b\<lparr>b_error := True\<rparr>)
                 else let newcap = (if newcap < b_cap b \<or> newcap < newlen then newlen else newcap)
                      in if \<not> b_grants b newcap then (False, b\<lparr>b_error := True\<rparr>)
                         else (True, b\<lparr>b_buf := b_buf b @ map (b_fresh b) [unat (b_cap b)..<unat newcap],
                                       b_cap := newcap\<rparr>)
         else (True, b))"

text \<open>The region added starts at the old length, where the code returns a pointer.\<close>

definition cbb_buffer_add :: "cbb_buffer \<Rightarrow> u64 \<Rightarrow> bool \<times> cbb_buffer" where
  "cbb_buffer_add b len =
     and_also (cbb_buffer_reserve b len) (\<lambda>b. (True, b\<lparr>b_len := b_len b + len\<rparr>))"

fun store_be :: "nat \<Rightarrow> u64 \<Rightarrow> bytes \<times> u64" where
  \<comment> \<open>the loop that stores \<open>v\<close> from the last byte on, and what is left of \<open>v\<close>\<close>
  "store_be 0 v = ([], v)"
| "store_be (Suc n) v = (case store_be n (drop_bit 8 v) of (bs, v') \<Rightarrow> (bs @ [ucast v], v'))"

definition cbb_buffer_add_u :: "cbb_buffer \<Rightarrow> u64 \<Rightarrow> nat \<Rightarrow> bool \<times> cbb_buffer" where
  "cbb_buffer_add_u b v len_len =
     (if len_len = 0 then (True, b)
      else let off = unat (b_len b)
           in and_also (cbb_buffer_add b (of_nat len_len)) (\<lambda>b.
                case store_be len_len v of (bs, v) \<Rightarrow>
                  let b = b\<lparr>b_buf := poke (b_buf b) off bs\<rparr>
                  in if v \<noteq> 0 then (False, b\<lparr>b_error := True\<rparr>) else (True, b)))"

definition on_base :: "(cbb_buffer \<Rightarrow> bool \<times> cbb_buffer) \<Rightarrow> cbb \<Rightarrow> bool \<times> cbb" where
  "on_base f c = (case f (cbb_base c) of (success, b) \<Rightarrow> (success, c\<lparr>cbb_base := b\<rparr>))"

section \<open>Closing the open children\<close>

definition asn1_len_len :: "u64 \<Rightarrow> (byte \<times> byte \<times> u64) option" where
  \<comment> \<open>\<open>len_len\<close>, \<open>initial_length_byte\<close> and what remains of \<open>len\<close> to store\<close>
  "asn1_len_len len =
     (if len > 0xfffffffe then None
      else if len > 0xffffff then Some (5, 0x80 OR 4, len)
      else if len > 0xffff then Some (4, 0x80 OR 3, len)
      else if len > 0xff then Some (3, 0x80 OR 2, len)
      else if len > 0x7f then Some (2, 0x80 OR 1, len)
      else Some (1, ucast len, 0))"

definition write_prefix :: "cbb_buffer \<Rightarrow> u64 \<Rightarrow> nat \<Rightarrow> u64 \<Rightarrow> bool \<times> cbb_buffer" where
  "write_prefix b offset len_len len =
     (case store_be len_len len of (bs, rest) \<Rightarrow>
        let b = b\<lparr>b_buf := poke (b_buf b) (unat offset) bs\<rparr>
        in if rest \<noteq> 0 then (False, b) else (True, b))"

definition close_child :: "cbb_buffer \<Rightarrow> cbb_child \<Rightarrow> u64 \<Rightarrow> bool \<times> cbb_buffer" where
  "close_child b c child_start =
     (let len = b_len b - child_start
      in if c_pending_is_asn1 c
         then (case asn1_len_len len of
                 None \<Rightarrow> (False, b)
               | Some (len_len, initial_length_byte, rest) \<Rightarrow>
                   let extra_bytes = ucast (len_len - 1) :: u64
                   in and_also
                        (if len_len \<noteq> 1
                         then and_also (cbb_buffer_add b extra_bytes) (\<lambda>b.
                                (True, b\<lparr>b_buf := poke (b_buf b) (unat (child_start + extra_bytes))
                                   (take (unat len) (drop (unat child_start) (b_buf b)))\<rparr>))
                         else (True, b))
                        (\<lambda>b. write_prefix (b\<lparr>b_buf := poke (b_buf b) (unat (c_offset c)) [initial_length_byte]\<rparr>)
                               (c_offset c + 1) (unat (len_len - 1)) rest))
         else write_prefix b (c_offset c) (unat (c_pending_len_len c)) len)"

fun flush_chain :: "cbb_buffer \<Rightarrow> cbb_child list \<Rightarrow> bool \<times> cbb_buffer \<times> cbb_child list" where
  "flush_chain b [] = (if b_error b then (False, b, []) else (True, b, []))"
| "flush_chain b (c # cs) =
     (if b_error b then (False, b, c # cs)
      else if c_pending_len_len c = 0 then (True, b, c # cs)
      else let child_start = c_offset c + ucast (c_pending_len_len c)
           in case flush_chain b cs of (flushed, b, cs) \<Rightarrow>
                if \<not> flushed \<or> child_start < c_offset c \<or> b_len b < child_start
                then (False, b\<lparr>b_error := True\<rparr>, c # cs)
                else (case close_child b c child_start of
                        (True, b) \<Rightarrow> (True, b, [])
                      | (False, b) \<Rightarrow> (False, b\<lparr>b_error := True\<rparr>, c # cs)))"

definition CBB_flush :: "cbb \<Rightarrow> bool \<times> cbb" where
  "CBB_flush c =
     (if cbb_null c then (False, c)
      else case flush_chain (cbb_base c) (cbb_below c) of
             (flushed, b, cs) \<Rightarrow> (flushed, c\<lparr>cbb_base := b, cbb_below := cs\<rparr>))"

definition on_child :: "(cbb \<Rightarrow> bool \<times> cbb) \<Rightarrow> cbb \<Rightarrow> bool \<times> cbb" where
  "on_child f c =
     (case cbb_below c of
        [] \<Rightarrow> (False, c)
      | k # ks \<Rightarrow>
          (case f \<lparr>cbb_base = cbb_base c, cbb_offset = c_offset k,
                   cbb_pending_len_len = c_pending_len_len k, cbb_below = ks, cbb_null = cbb_null c\<rparr> of
             (success, c') \<Rightarrow> (success, c\<lparr>cbb_base := cbb_base c', cbb_below := k # cbb_below c'\<rparr>)))"

definition CBB_cleanup :: "cbb \<Rightarrow> cbb" where
  \<comment> \<open>on a top-level builder\<close>
  "CBB_cleanup c = c\<lparr>cbb_null := True\<rparr>"

definition CBB_finish :: "cbb \<Rightarrow> bytes option \<times> cbb" where
  \<comment> \<open>on a top-level builder, with both out parameters given; the caller owns the buffer from here on\<close>
  "CBB_finish c =
     (case CBB_flush c of
        (True, c) \<Rightarrow>
          (Some (take (unat (b_len (cbb_base c))) (b_buf (cbb_base c))),
           CBB_cleanup (c\<lparr>cbb_base := (cbb_base c)\<lparr>b_buf := []\<rparr>\<rparr>))
      | (False, c) \<Rightarrow> (None, c))"

definition cbb_start :: "cbb \<Rightarrow> u64" where
  "cbb_start c = cbb_offset c + ucast (cbb_pending_len_len c)"

definition CBB_data :: "cbb \<Rightarrow> bytes" where
  "CBB_data c = drop (unat (cbb_start c)) (b_buf (cbb_base c))"

definition CBB_len :: "cbb \<Rightarrow> u64" where
  "CBB_len c = b_len (cbb_base c) - cbb_offset c - ucast (cbb_pending_len_len c)"

section \<open>Writing bytes and integers\<close>

definition CBB_add_space :: "u64 \<Rightarrow> cbb \<Rightarrow> bool \<times> cbb" where
  "CBB_add_space len c = and_also (CBB_flush c) (on_base (\<lambda>b. cbb_buffer_add b len))"

definition CBB_add_bytes :: "bytes \<Rightarrow> cbb \<Rightarrow> bool \<times> cbb" where
  "CBB_add_bytes data c =
     and_also (CBB_flush c) (on_base (\<lambda>b.
       and_also (cbb_buffer_add b (of_nat (length data))) (\<lambda>b'.
         (True, b'\<lparr>b_buf := poke (b_buf b') (unat (b_len b)) data\<rparr>))))"

definition CBB_add_zeros :: "u64 \<Rightarrow> cbb \<Rightarrow> bool \<times> cbb" where
  "CBB_add_zeros len c =
     (case CBB_add_space len c of
        (False, c) \<Rightarrow> (False, c)
      | (True, c) \<Rightarrow>
          on_base (\<lambda>b. (True, b\<lparr>b_buf := poke (b_buf b) (unat (b_len b) - unat len)
                                  (replicate (unat len) 0)\<rparr>)) c)"

definition CBB_reserve :: "u64 \<Rightarrow> cbb \<Rightarrow> bool \<times> cbb" where
  "CBB_reserve len c = and_also (CBB_flush c) (on_base (\<lambda>b. cbb_buffer_reserve b len))"

definition CBB_did_write :: "u64 \<Rightarrow> cbb \<Rightarrow> bool \<times> cbb" where
  "CBB_did_write len c =
     (let b = cbb_base c; newlen = b_len b + len
      in if cbb_below c \<noteq> [] \<or> newlen < b_len b \<or> newlen > b_cap b then (False, c)
         else (True, c\<lparr>cbb_base := b\<lparr>b_len := newlen\<rparr>\<rparr>))"

definition CBB_add_u8 :: "byte \<Rightarrow> cbb \<Rightarrow> bool \<times> cbb" where
  "CBB_add_u8 v c = and_also (CBB_flush c) (on_base (\<lambda>b. cbb_buffer_add_u b (ucast v) 1))"

definition CBB_add_u16 :: "u16 \<Rightarrow> cbb \<Rightarrow> bool \<times> cbb" where
  "CBB_add_u16 v c = and_also (CBB_flush c) (on_base (\<lambda>b. cbb_buffer_add_u b (ucast v) 2))"

definition CBB_add_u16le :: "u16 \<Rightarrow> cbb \<Rightarrow> bool \<times> cbb" where
  "CBB_add_u16le v c = CBB_add_u16 (CRYPTO_bswap2 v) c"

definition CBB_add_u24 :: "u32 \<Rightarrow> cbb \<Rightarrow> bool \<times> cbb" where
  "CBB_add_u24 v c = and_also (CBB_flush c) (on_base (\<lambda>b. cbb_buffer_add_u b (ucast v) 3))"

definition CBB_add_u32 :: "u32 \<Rightarrow> cbb \<Rightarrow> bool \<times> cbb" where
  "CBB_add_u32 v c = and_also (CBB_flush c) (on_base (\<lambda>b. cbb_buffer_add_u b (ucast v) 4))"

definition CBB_add_u32le :: "u32 \<Rightarrow> cbb \<Rightarrow> bool \<times> cbb" where
  "CBB_add_u32le v c = CBB_add_u32 (CRYPTO_bswap4 v) c"

definition CBB_add_u64 :: "u64 \<Rightarrow> cbb \<Rightarrow> bool \<times> cbb" where
  "CBB_add_u64 v c = and_also (CBB_flush c) (on_base (\<lambda>b. cbb_buffer_add_u b v 8))"

definition CBB_add_u64le :: "u64 \<Rightarrow> cbb \<Rightarrow> bool \<times> cbb" where
  "CBB_add_u64le v c = CBB_add_u64 (CRYPTO_bswap8 v) c"

section \<open>Opening children\<close>

definition cbb_add_length_prefixed :: "byte \<Rightarrow> cbb \<Rightarrow> bool \<times> cbb" where
  "cbb_add_length_prefixed len_len c =
     and_also (CBB_flush c) (\<lambda>c.
       let offset = b_len (cbb_base c)
       in and_also (on_base (\<lambda>b. cbb_buffer_add b (ucast len_len)) c) (\<lambda>c.
            let b = cbb_base c
            in (True, c\<lparr>cbb_base := b\<lparr>b_buf := poke (b_buf b) (unat offset) (replicate (unat len_len) 0)\<rparr>,
                        cbb_below := [\<lparr>c_offset = offset, c_pending_len_len = len_len,
                                       c_pending_is_asn1 = False\<rparr>]\<rparr>)))"

definition CBB_add_u8_length_prefixed :: "cbb \<Rightarrow> bool \<times> cbb" where
  "CBB_add_u8_length_prefixed c = cbb_add_length_prefixed 1 c"

definition CBB_add_u16_length_prefixed :: "cbb \<Rightarrow> bool \<times> cbb" where
  "CBB_add_u16_length_prefixed c = cbb_add_length_prefixed 2 c"

definition CBB_add_u24_length_prefixed :: "cbb \<Rightarrow> bool \<times> cbb" where
  "CBB_add_u24_length_prefixed c = cbb_add_length_prefixed 3 c"

function base128_len :: "u64 \<Rightarrow> nat" where
  "base128_len copy = (if copy > 0 then Suc (base128_len (drop_bit 7 copy)) else 0)"
  by pat_completeness auto
termination
  by (relation "measure unat") (auto simp: unat_drop_bit_div word_less_nat_alt)

declare base128_len.simps [simp del]

fun add_base128_loop :: "u64 \<Rightarrow> nat \<Rightarrow> cbb \<Rightarrow> bool \<times> cbb" where
  "add_base128_loop v 0 c = (True, c)"
| "add_base128_loop v (Suc i) c =
     (let b = ucast (drop_bit (7 * i) v) AND 0x7f :: byte;
          b = (if i \<noteq> 0 then b OR 0x80 else b)
      in and_also (CBB_add_u8 b c) (add_base128_loop v i))"

definition add_base128_integer :: "u64 \<Rightarrow> cbb \<Rightarrow> bool \<times> cbb" where
  "add_base128_integer v c =
     (let len_len = base128_len v; len_len = (if len_len = 0 then 1 else len_len)
      in add_base128_loop v len_len c)"

definition CBB_add_asn1 :: "u32 \<Rightarrow> cbb \<Rightarrow> bool \<times> cbb" where
  "CBB_add_asn1 tag c =
     and_also (CBB_flush c) (\<lambda>c.
       let tag_bits = ucast (drop_bit 24 tag AND 0xe0) :: byte;
           tag_number = tag AND CBS_ASN1_TAG_NUMBER_MASK
       in and_also
            (if tag_number \<ge> 0x1f
             then and_also (CBB_add_u8 (tag_bits OR 0x1f) c) (add_base128_integer (ucast tag_number))
             else CBB_add_u8 (ucast (ucast tag_bits OR tag_number)) c)
            (\<lambda>c. let offset = b_len (cbb_base c)
                 in and_also (CBB_add_u8 0 c) (\<lambda>c.
                      (True, c\<lparr>cbb_below := [\<lparr>c_offset = offset, c_pending_len_len = 1,
                                               c_pending_is_asn1 = True\<rparr>]\<rparr>))))"

definition CBB_discard_child :: "cbb \<Rightarrow> cbb" where
  "CBB_discard_child c =
     (case cbb_below c of
        [] \<Rightarrow> c
      | k # _ \<Rightarrow> c\<lparr>cbb_base := (cbb_base c)\<lparr>b_len := c_offset k\<rparr>, cbb_below := []\<rparr>)"

section \<open>ASN.1 values\<close>

fun add_uint64_loop :: "bytes \<Rightarrow> bool \<Rightarrow> cbb \<Rightarrow> bool \<times> bool \<times> cbb" where
  \<comment> \<open>success, whether a byte was written, and the builder\<close>
  "add_uint64_loop [] started c = (True, started, c)"
| "add_uint64_loop (b # bs) started c =
     (if \<not> started \<and> b = 0 then add_uint64_loop bs started c
      else case (if \<not> started \<and> b AND 0x80 \<noteq> 0 then on_child (CBB_add_u8 0) c else (True, c)) of
             (False, c) \<Rightarrow> (False, started, c)
           | (True, c) \<Rightarrow>
               (case on_child (CBB_add_u8 b) c of
                  (False, c) \<Rightarrow> (False, True, c)
                | (True, c) \<Rightarrow> add_uint64_loop bs True c))"

definition CBB_add_asn1_uint64 :: "u64 \<Rightarrow> cbb \<Rightarrow> bool \<times> cbb" where
  "CBB_add_asn1_uint64 v c =
     and_also (CBB_add_asn1 CBS_ASN1_INTEGER c) (\<lambda>c.
       case add_uint64_loop (map (\<lambda>i. ucast (drop_bit (8 * (7 - i)) v AND 0xff)) [0..<8]) False c of
         (False, _, c) \<Rightarrow> (False, c)
       | (True, started, c) \<Rightarrow>
           and_also (if \<not> started then on_child (CBB_add_u8 0) c else (True, c)) CBB_flush)"

fun int64_start :: "bytes \<Rightarrow> nat \<Rightarrow> nat" where
  "int64_start u 0 = 0"
| "int64_start u (Suc n) =
     (if u ! Suc n = 0xff \<and> u ! n AND 0x80 \<noteq> 0 then int64_start u n else Suc n)"

fun add_bytes_down :: "bytes \<Rightarrow> nat \<Rightarrow> cbb \<Rightarrow> bool \<times> cbb" where
  "add_bytes_down u 0 c = on_child (CBB_add_u8 (u ! 0)) c"
| "add_bytes_down u (Suc n) c =
     and_also (on_child (CBB_add_u8 (u ! Suc n)) c) (add_bytes_down u n)"

definition CBB_add_asn1_int64 :: "u64 \<Rightarrow> cbb \<Rightarrow> bool \<times> cbb" where
  "CBB_add_asn1_int64 v c =
     (if sint v \<ge> 0 then CBB_add_asn1_uint64 v c
      else let u = le_bytes 8 (unat v); start = int64_start u 7
           in and_also (CBB_add_asn1 CBS_ASN1_INTEGER c) (\<lambda>c.
                and_also (add_bytes_down u start c) CBB_flush))"

definition CBB_add_asn1_octet_string :: "bytes \<Rightarrow> cbb \<Rightarrow> bool \<times> cbb" where
  "CBB_add_asn1_octet_string data c =
     and_also (CBB_add_asn1 CBS_ASN1_OCTETSTRING c) (\<lambda>c.
       and_also (on_child (CBB_add_bytes data) c) CBB_flush)"

definition CBB_add_asn1_bool :: "bool \<Rightarrow> cbb \<Rightarrow> bool \<times> cbb" where
  "CBB_add_asn1_bool v c =
     and_also (CBB_add_asn1 CBS_ASN1_BOOLEAN c) (\<lambda>c.
       and_also (on_child (CBB_add_u8 (if v then 0xff else 0)) c) CBB_flush)"

end
