(* ===== verification/Cbb_Append.thy ===== *)
theory Cbb_Append
  imports Cbb
begin

text \<open>
  What the builder's operations do. The contract of an operation on a builder
  without open children is \<open>does f d\<close>: where the buffer has room for \<open>d\<close>, the
  operation succeeds, appends exactly \<open>d\<close> and leaves the rest alone. Contracts compose
  in sequence and under a length prefix or an ASN.1 header, and each encoding that
  the code writes is an interpretation of the locale \<open>appender\<close>; with the reader's
  codec it is one of \<open>writer_reader\<close>.
\<close>

section \<open>The buffer\<close>

definition buffer_ok :: "cbb_buffer \<Rightarrow> bool" where
  "buffer_ok b \<longleftrightarrow> length (b_buf b) = unat (b_cap b) \<and> unat (b_len b) \<le> unat (b_cap b)"

definition written :: "cbb_buffer \<Rightarrow> bytes" where
  "written b = take (unat (b_len b)) (b_buf b)"

text \<open>The number of bytes the buffer can hold when the allocator does not refuse.\<close>

definition limit :: "cbb_buffer \<Rightarrow> nat" where
  "limit b = (if b_can_resize b \<and> (\<forall>n. b_grants b n) then 2 ^ 64 - 1 else unat (b_cap b))"

definition room :: "cbb_buffer \<Rightarrow> nat \<Rightarrow> bool" where
  "room b n \<longleftrightarrow> unat (b_len b) + n \<le> limit b"

definition extends :: "cbb_buffer \<Rightarrow> bytes \<Rightarrow> cbb_buffer \<Rightarrow> bool" where
  "extends b d b' \<longleftrightarrow>
     buffer_ok b' \<and> \<not> b_error b' \<and> written b' = written b @ d \<and> limit b' = limit b"

lemma length_written: "buffer_ok b \<Longrightarrow> length (written b) = unat (b_len b)"
  by (simp add: buffer_ok_def written_def)

lemma extends_len: "buffer_ok b \<Longrightarrow> extends b d b' \<Longrightarrow> unat (b_len b') = unat (b_len b) + length d"
  by (metis extends_def length_append length_written)

lemma extends_trans:
  "extends b d b' \<Longrightarrow> extends b' e b'' \<Longrightarrow> extends b (d @ e) b''"
  by (simp add: extends_def)

lemma extends_room:
  "buffer_ok b \<Longrightarrow> extends b d b' \<Longrightarrow> room b (length d + n) \<Longrightarrow> room b' n"
  using extends_len [of b d b'] by (simp add: room_def extends_def)

lemma cbb_buffer_reserve_cases:
  assumes "buffer_ok b"
  obtains (fail) "cbb_buffer_reserve b n = (False, b\<lparr>b_error := True\<rparr>)"
  | (keep) "cbb_buffer_reserve b n = (True, b)" "unat (b_len b) + unat n \<le> unat (b_cap b)"
  | (grow) newcap where
      "cbb_buffer_reserve b n =
         (True, b\<lparr>b_buf := b_buf b @ map (b_fresh b) [unat (b_cap b)..<unat newcap], b_cap := newcap\<rparr>)"
      "b_can_resize b" "b_grants b newcap"
      "unat (b_len b) + unat n \<le> unat newcap" "unat (b_cap b) < unat (b_len b) + unat n"
proof -
  let ?newlen = "b_len b + n"
  let ?newcap = "if b_cap b * 2 < b_cap b \<or> b_cap b * 2 < ?newlen then ?newlen else b_cap b * 2"
  show thesis
  proof (cases "?newlen < b_len b")
    case True
    then show ?thesis using fail by (simp add: cbb_buffer_reserve_def)
  next
    case False
    then have sum: "unat ?newlen = unat (b_len b) + unat n"
      using unat_less_pow(3) [of n]
      by (simp add: word_less_nat_alt unat_plus_if' split: if_splits)
    show ?thesis
    proof (cases "?newlen > b_cap b")
      case True
      have cap: "unat (b_cap b) < unat ?newlen" "unat ?newlen \<le> unat ?newcap"
        using True by (auto simp: word_less_nat_alt)
      show ?thesis
      proof (cases "b_can_resize b \<and> b_grants b ?newcap")
        case res: True
        with False True show ?thesis
          using cap sum by (intro grow [of ?newcap]) (simp_all add: cbb_buffer_reserve_def Let_def)
      next
        case res: False
        with False True show ?thesis
          by (intro fail) (auto simp: cbb_buffer_reserve_def Let_def)
      qed
    next
      case small: False
      with False sum show ?thesis
        by (intro keep) (auto simp: cbb_buffer_reserve_def word_less_nat_alt not_less)
    qed
  qed
qed

lemma limit_update [simp]:
  "limit (b\<lparr>b_error := e\<rparr>) = limit b" "limit (b\<lparr>b_len := l\<rparr>) = limit b"
  "limit (b\<lparr>b_buf := x\<rparr>) = limit b"
  by (simp_all add: limit_def)

lemma reserve_room:
  assumes ok: "buffer_ok b" "\<not> b_error b" and room: "room b (unat n)"
  obtains b' where "cbb_buffer_reserve b n = (True, b')" "buffer_ok b'" "\<not> b_error b'"
    "b_len b' = b_len b" "written b' = written b" "limit b' = limit b"
    "unat (b_len b) + unat n \<le> unat (b_cap b')"
proof (rule cbb_buffer_reserve_cases [OF ok(1), of n])
  assume fail: "cbb_buffer_reserve b n = (False, b\<lparr>b_error := True\<rparr>)"
  have lim: "limit b \<le> 2 ^ 64 - 1"
    using unat_less_pow(3) [of "b_cap b"] by (simp add: limit_def)
  then have "unat (b_len b + n) = unat (b_len b) + unat n"
    using room by (simp add: room_def unat_plus_if')
  then have "\<not> b_len b + n < b_len b" by (simp add: word_less_nat_alt)
  with fail have "b_len b + n > b_cap b" "\<not> (b_can_resize b \<and> (\<forall>n. b_grants b n))"
    by (auto simp: cbb_buffer_reserve_def Let_def split: if_splits)
  moreover from this(2) have "limit b = unat (b_cap b)" by (auto simp: limit_def)
  ultimately have False
    using room \<open>unat (b_len b + n) = _\<close> by (simp add: room_def word_less_nat_alt)
  then show thesis ..
next
  assume "cbb_buffer_reserve b n = (True, b)" "unat (b_len b) + unat n \<le> unat (b_cap b)"
  with ok show thesis by (intro that) auto
next
  fix newcap
  assume *: "cbb_buffer_reserve b n =
         (True, b\<lparr>b_buf := b_buf b @ map (b_fresh b) [unat (b_cap b)..<unat newcap], b_cap := newcap\<rparr>)"
      "b_can_resize b" "b_grants b newcap"
      "unat (b_len b) + unat n \<le> unat newcap" "unat (b_cap b) < unat (b_len b) + unat n"
  show thesis
  proof (rule that [OF *(1)])
    show "limit (b\<lparr>b_buf := b_buf b @ map (b_fresh b) [unat (b_cap b)..<unat newcap], b_cap := newcap\<rparr>)
      = limit b"
      using room *(5) by (auto simp: room_def limit_def split: if_splits)
  qed (use ok * in \<open>auto simp: buffer_ok_def written_def\<close>)
qed

lemma add_room:
  assumes "buffer_ok b" "\<not> b_error b" "room b (unat n)"
  obtains b' where "cbb_buffer_add b n = (True, b')" "buffer_ok b'" "\<not> b_error b'"
    "unat (b_len b') = unat (b_len b) + unat n" "limit b' = limit b"
    "take (unat (b_len b)) (b_buf b') = written b"
proof -
  obtain b1 where b1: "cbb_buffer_reserve b n = (True, b1)" "buffer_ok b1" "\<not> b_error b1"
    "b_len b1 = b_len b" "written b1 = written b" "limit b1 = limit b"
    "unat (b_len b) + unat n \<le> unat (b_cap b1)"
    using reserve_room [OF assms] .
  then have len: "unat (b_len b1 + n) = unat (b_len b) + unat n"
    using unat_less_pow(3) [of "b_cap b1"] by (simp add: unat_plus_if')
  show thesis
  proof (rule that)
    show "cbb_buffer_add b n = (True, b1\<lparr>b_len := b_len b1 + n\<rparr>)"
      using b1 by (simp add: cbb_buffer_add_def)
  qed (use b1 len in \<open>auto simp: buffer_ok_def written_def\<close>)
qed

text \<open>Filling the region that was added appends to what is written.\<close>

lemma poke_added:
  assumes "buffer_ok b" "buffer_ok b'" "\<not> b_error b'" "limit b' = limit b"
    and "unat (b_len b') = unat (b_len b) + length d"
    and "take (unat (b_len b)) (b_buf b') = written b"
  shows "extends b d (b'\<lparr>b_buf := poke (b_buf b') (unat (b_len b)) d\<rparr>)"
proof -
  have "unat (b_len b) + length d \<le> length (b_buf b')"
    using assms by (simp add: buffer_ok_def)
  then show ?thesis
    using assms take_poke_end [of "unat (b_len b)" d "b_buf b'"]
    by (simp add: extends_def buffer_ok_def written_def)
qed

lemma store_be_eq: "store_be n v = (be_bytes n (unat v), drop_bit (8 * n) v)"
proof (induction n arbitrary: v)
  case (Suc n)
  have "(of_nat (unat v) :: byte) = ucast v"
    by (simp add: word_unat_eq_iff unsigned_ucast_eq take_bit_eq_mod)
  then show ?case using Suc [of "drop_bit 8 v"] by (simp add: unat_drop_bit_div add.commute)
qed simp

lemma add_u_room:
  assumes "buffer_ok b" "\<not> b_error b" "room b n" "unat v < 256 ^ n" "n \<le> 8"
  obtains b' where "cbb_buffer_add_u b v n = (True, b')" "extends b (be_bytes n (unat v)) b'"
proof (cases "n = 0")
  case True
  with assms show thesis by (intro that [of b]) (auto simp: cbb_buffer_add_u_def extends_def)
next
  case False
  have n: "unat (of_nat n :: u64) = n" using assms(5) by (simp add: unat_of_nat)
  obtain b1 where b1: "cbb_buffer_add b (of_nat n) = (True, b1)" "buffer_ok b1" "\<not> b_error b1"
    "unat (b_len b1) = unat (b_len b) + n" "limit b1 = limit b"
    "take (unat (b_len b)) (b_buf b1) = written b"
    using add_room [of b "of_nat n"] assms n by auto
  have rest: "drop_bit (8 * n) v = 0"
    using assms(4) by (simp add: drop_bit_eq_0_iff_less power_mult)
  show thesis
  proof (rule that)
    show "cbb_buffer_add_u b v n =
        (True, b1\<lparr>b_buf := poke (b_buf b1) (unat (b_len b)) (be_bytes n (unat v))\<rparr>)"
      using False b1 rest by (simp add: cbb_buffer_add_u_def store_be_eq Let_def)
    show "extends b (be_bytes n (unat v))
        (b1\<lparr>b_buf := poke (b_buf b1) (unat (b_len b)) (be_bytes n (unat v))\<rparr>)"
      using assms b1 by (intro poke_added) simp_all
  qed
qed

section \<open>The contract of an operation\<close>

definition quiet :: "cbb \<Rightarrow> bool" where
  "quiet c \<longleftrightarrow> buffer_ok (cbb_base c) \<and> \<not> b_error (cbb_base c) \<and> cbb_below c = [] \<and> \<not> cbb_null c"

definition appends :: "cbb \<Rightarrow> bytes \<Rightarrow> cbb \<Rightarrow> bool" where
  "appends c d c' \<longleftrightarrow>
     extends (cbb_base c) d (cbb_base c') \<and> c' = c\<lparr>cbb_base := cbb_base c'\<rparr>"

definition does :: "(cbb \<Rightarrow> bool \<times> cbb) \<Rightarrow> bytes \<Rightarrow> bool" where
  "does f d \<longleftrightarrow>
     (\<forall>c. quiet c \<longrightarrow> room (cbb_base c) (length d) \<longrightarrow> (\<exists>c'. f c = (True, c') \<and> appends c d c'))"

named_theorems does_intros \<open>contracts of the builder's operations\<close>

lemma doesI:
  "(\<And>c. quiet c \<Longrightarrow> room (cbb_base c) (length d) \<Longrightarrow> \<exists>c'. f c = (True, c') \<and> appends c d c') \<Longrightarrow> does f d"
  by (simp add: does_def)

lemma doesE:
  assumes "does f d" "quiet c" "room (cbb_base c) (length d)"
  obtains c' where "f c = (True, c')" "appends c d c'" "quiet c'"
proof -
  obtain c' where c': "f c = (True, c')" "appends c d c'"
    using assms unfolding does_def by blast
  moreover from c'(2) have "cbb_below c' = cbb_below c" "cbb_null c' = cbb_null c"
    unfolding appends_def by (metis cbb.select_convs(4,5) cbb.surjective cbb.update_convs(1))+
  ultimately have "quiet c'"
    using assms(2) by (auto simp: quiet_def appends_def extends_def)
  with c' show thesis by (rule that)
qed

lemma appends_room:
  "quiet c \<Longrightarrow> appends c d c' \<Longrightarrow> room (cbb_base c) (length d + n) \<Longrightarrow> room (cbb_base c') n"
  by (auto simp: quiet_def appends_def intro: extends_room)

lemma appends_trans: "appends c d c' \<Longrightarrow> appends c' e c'' \<Longrightarrow> appends c (d @ e) c''"
proof -
  assume a: "appends c d c'" "appends c' e c''"
  then have "c'' = c\<lparr>cbb_base := cbb_base c''\<rparr>"
    unfolding appends_def by (metis cbb.update_convs(1) cbb.cases cbb.select_convs(1))
  with a show "appends c (d @ e) c''" by (auto simp: appends_def intro: extends_trans)
qed

lemma does_seq [does_intros]:
  assumes "does f d" "does g e"
  shows "does (\<lambda>c. and_also (f c) g) (d @ e)"
proof (rule doesI)
  fix c
  assume c: "quiet c" "room (cbb_base c) (length (d @ e))"
  then have "room (cbb_base c) (length d)" by (simp add: room_def)
  with assms(1) c obtain c1 where c1: "f c = (True, c1)" "appends c d c1" "quiet c1"
    by (meson doesE)
  with c have "room (cbb_base c1) (length e)" using appends_room by simp
  with assms(2) c1 obtain c2 where "g c1 = (True, c2)" "appends c1 e c2"
    by (meson doesE)
  with c1 show "\<exists>c'. and_also (f c) g = (True, c') \<and> appends c (d @ e) c'"
    by (auto intro: appends_trans)
qed

lemma quiet_flush [simp]: "quiet c \<Longrightarrow> CBB_flush c = (True, c)"
  by (cases c) (simp add: quiet_def CBB_flush_def)

lemma does_on_base:
  assumes "\<And>b. buffer_ok b \<Longrightarrow> \<not> b_error b \<Longrightarrow> room b (length d) \<Longrightarrow> \<exists>b'. f b = (True, b') \<and> extends b d b'"
  shows "does (\<lambda>c. and_also (CBB_flush c) (on_base f)) d"
proof (rule doesI)
  fix c
  assume c: "quiet c" "room (cbb_base c) (length d)"
  with assms obtain b' where "f (cbb_base c) = (True, b')" "extends (cbb_base c) d b'"
    unfolding quiet_def by blast
  with c show "\<exists>c'. and_also (CBB_flush c) (on_base f) = (True, c') \<and> appends c d c'"
    by (simp add: on_base_def appends_def)
qed

lemma does_add_u:
  assumes "unat v < 256 ^ n" "n \<le> 8"
  shows "does (\<lambda>c. and_also (CBB_flush c) (on_base (\<lambda>b. cbb_buffer_add_u b v n))) (be_bytes n (unat v))"
  using assms by (intro does_on_base) (metis add_u_room length_be_bytes)

lemma does_add_bytes [does_intros]: "does (CBB_add_bytes d) d"
  unfolding CBB_add_bytes_def
proof (rule does_on_base)
  fix b
  assume b: "buffer_ok b" "\<not> b_error b" "room b (length d)"
  have "limit b < 2 ^ 64" using unat_less_pow(3) [of "b_cap b"] by (simp add: limit_def)
  with b have n: "unat (of_nat (length d) :: u64) = length d"
    by (simp add: room_def unat_of_nat)
  obtain b1 where b1: "cbb_buffer_add b (of_nat (length d)) = (True, b1)" "buffer_ok b1" "\<not> b_error b1"
    "unat (b_len b1) = unat (b_len b) + length d" "limit b1 = limit b"
    "take (unat (b_len b)) (b_buf b1) = written b"
    using add_room [of b "of_nat (length d)"] b n by auto
  then show "\<exists>b'. and_also (cbb_buffer_add b (of_nat (length d)))
       (\<lambda>b'. (True, b'\<lparr>b_buf := poke (b_buf b') (unat (b_len b)) d\<rparr>)) = (True, b') \<and> extends b d b'"
    using poke_added [of b b1 d] b by simp
qed

lemma be_bytes_1: "be_bytes 1 (unat v) = [v]" for v :: byte
  by (simp add: word_unat_eq_iff)

lemma does_add_u8 [does_intros]: "does (CBB_add_u8 v) [v]"
  using does_add_u [of "ucast v" 1] unfolding CBB_add_u8_def unat_ucast_byte be_bytes_1 by simp

lemma unat_ucast_up [simp]:
  "unat (ucast (v :: u16) :: u64) = unat v" "unat (ucast (w :: u32) :: u64) = unat w"
  using unat_less_pow(1) [of v] unat_less_pow(2) [of w] by (auto intro: unat_ucast_small)

lemma does_add_fixed [does_intros]:
  "does (CBB_add_u16 a) (be_bytes 2 (unat a))"
  "unat b < 2 ^ 24 \<Longrightarrow> does (CBB_add_u24 b) (be_bytes 3 (unat b))"
  "does (CBB_add_u32 b) (be_bytes 4 (unat b))"
  "does (CBB_add_u64 d) (be_bytes 8 (unat d))"
  using does_add_u [of "ucast a" 2] does_add_u [of "ucast b" 3] does_add_u [of "ucast b" 4]
    does_add_u [of d 8] unat_less_pow
  unfolding CBB_add_u16_def CBB_add_u24_def CBB_add_u32_def CBB_add_u64_def
  by (simp_all only: unat_ucast_up) simp_all

lemma does_add_fixed_le [does_intros]:
  "does (CBB_add_u16le a) (le_bytes 2 (unat a))"
  "does (CBB_add_u32le b) (le_bytes 4 (unat b))"
  "does (CBB_add_u64le d) (le_bytes 8 (unat d))"
  unfolding CBB_add_u16le_def CBB_add_u32le_def CBB_add_u64le_def
  by (metis bswap_le_bytes does_add_fixed)+

section \<open>Length prefixes\<close>

text \<open>The pattern of the callers: open a child, fill it, close it.\<close>

definition in_child :: "(cbb \<Rightarrow> bool \<times> cbb) \<Rightarrow> (cbb \<Rightarrow> bool \<times> cbb) \<Rightarrow> cbb \<Rightarrow> bool \<times> cbb" where
  "in_child op f c = and_also (op c) (\<lambda>c. and_also (on_child f c) CBB_flush)"

lemma poke_written:
  assumes "buffer_ok b" "written b = w @ x @ d" "length y = length x"
  shows "buffer_ok (b\<lparr>b_buf := poke (b_buf b) (length w) y\<rparr>)"
    and "written (b\<lparr>b_buf := poke (b_buf b) (length w) y\<rparr>) = w @ y @ d"
proof -
  obtain r where buf: "b_buf b = w @ x @ d @ r"
    using assms(2) unfolding written_def by (metis append_assoc append_take_drop_id)
  have len: "unat (b_len b) = length w + length x + length d"
    using length_written [OF assms(1)] assms(2) by simp
  have poke: "poke (b_buf b) (length w) y = w @ y @ d @ r"
    unfolding buf by (rule poke_at) (simp_all add: assms)
  show "buffer_ok (b\<lparr>b_buf := poke (b_buf b) (length w) y\<rparr>)"
    using assms(1,3) unfolding buffer_ok_def buf by (simp add: poke [unfolded buf])
  show "written (b\<lparr>b_buf := poke (b_buf b) (length w) y\<rparr>) = w @ y @ d"
    unfolding written_def by (simp add: poke len assms(3))
qed

lemma write_prefix_eq:
  assumes "unat len < 256 ^ n"
  shows "write_prefix b off n len =
    (True, b\<lparr>b_buf := poke (b_buf b) (unat off) (be_bytes n (unat len))\<rparr>)"
proof -
  have "drop_bit (8 * n) len = 0" using assms by (simp add: drop_bit_eq_0_iff_less power_mult)
  then show ?thesis by (simp add: write_prefix_def store_be_eq Let_def)
qed

lemma flush_open_child:
  assumes "\<not> b_error b" "c_pending_len_len k \<noteq> 0"
    and start: "unat (c_offset k) + unat (c_pending_len_len k) \<le> unat (b_len b)"
  shows "flush_chain b [k] =
    (case close_child b k (c_offset k + ucast (c_pending_len_len k)) of
       (True, b) \<Rightarrow> (True, b, [])
     | (False, b) \<Rightarrow> (False, b\<lparr>b_error := True\<rparr>, [k]))"
    and "unat (c_offset k + ucast (c_pending_len_len k)) = unat (c_offset k) + unat (c_pending_len_len k)"
proof -
  show s: "unat (c_offset k + ucast (c_pending_len_len k)) = unat (c_offset k) + unat (c_pending_len_len k)"
    using start unat_less_pow(3) [of "b_len b"] by (simp add: unat_plus_if')
  then show "flush_chain b [k] =
    (case close_child b k (c_offset k + ucast (c_pending_len_len k)) of
       (True, b) \<Rightarrow> (True, b, [])
     | (False, b) \<Rightarrow> (False, b\<lparr>b_error := True\<rparr>, [k]))"
    using assms by (simp add: Let_def word_less_nat_alt)
qed

text \<open>Running a child between its opening and its closing.\<close>

lemma in_child_appends:
  assumes f: "does f d"
    and op: "op c = (True, c\<lparr>cbb_base := b1, cbb_below := [k]\<rparr>)" "extends (cbb_base c) h b1"
    and room: "room b1 (length d)"
    and close: "\<And>b2. extends b1 d b2 \<Longrightarrow>
      \<exists>b3. flush_chain b2 [k] = (True, b3, []) \<and> extends (cbb_base c) e b3"
    and c: "quiet c"
  shows "\<exists>c'. in_child op f c = (True, c') \<and> appends c e c'"
proof -
  let ?kid = "\<lparr>cbb_base = b1, cbb_offset = c_offset k,
    cbb_pending_len_len = c_pending_len_len k, cbb_below = [], cbb_null = False\<rparr>"
  have n: "\<not> cbb_null c" using c by (simp add: quiet_def)
  have "quiet ?kid" using op(2) by (simp add: quiet_def extends_def)
  with f room obtain k' where k': "f ?kid = (True, k')" "appends ?kid d k'" "quiet k'"
    by (metis doesE cbb.select_convs(1))
  then have "extends b1 d (cbb_base k')" by (simp add: appends_def)
  then obtain b3 where b3: "flush_chain (cbb_base k') [k] = (True, b3, [])" "extends (cbb_base c) e b3"
    using close by blast
  have "cbb_below k' = []" using k'(3) by (simp add: quiet_def)
  then have "on_child f (c\<lparr>cbb_base := b1, cbb_below := [k]\<rparr>) =
      (True, c\<lparr>cbb_base := cbb_base k', cbb_below := [k]\<rparr>)"
    using k'(1) n by (simp add: on_child_def)
  then have "in_child op f c = (True, c\<lparr>cbb_base := b3, cbb_below := []\<rparr>)"
    using op(1) b3(1) n by (simp add: in_child_def CBB_flush_def)
  moreover have "c\<lparr>cbb_base := b3, cbb_below := []\<rparr> = c\<lparr>cbb_base := b3\<rparr>"
    using c by (cases c) (simp add: quiet_def)
  ultimately show ?thesis using b3(2) by (simp add: appends_def)
qed

lemma unat_len_diff:
  "unat (l :: u64) = unat s + n \<Longrightarrow> unat (l - s) = n"
  by (simp add: unat_sub_if_size word_size)

lemma does_length_prefixed:
  assumes f: "does f d" and n: "0 < unat n" "unat n \<le> 8" and d: "length d < 256 ^ unat n"
  shows "does (in_child (cbb_add_length_prefixed n) f) (prefixed (unat n) d)"
proof (rule doesI)
  fix c
  assume c: "quiet c" "room (cbb_base c) (length (prefixed (unat n) d))"
  let ?b = "cbb_base c" and ?n = "unat n"
  let ?k = "\<lparr>c_offset = b_len ?b, c_pending_len_len = n, c_pending_is_asn1 = False\<rparr>"
  have b: "buffer_ok ?b" "\<not> b_error ?b" "cbb_below c = []" using c(1) by (simp_all add: quiet_def)
  have r: "room ?b ?n" "room ?b (?n + length d)" using c(2) by (simp_all add: room_def prefixed_def)
  obtain b0 where b0: "cbb_buffer_add ?b (ucast n) = (True, b0)" "buffer_ok b0" "\<not> b_error b0"
    "unat (b_len b0) = unat (b_len ?b) + ?n" "limit b0 = limit ?b"
    "take (unat (b_len ?b)) (b_buf b0) = written ?b"
    using add_room [OF b(1,2), of "ucast n"] r(1) by auto
  let ?b1 = "b0\<lparr>b_buf := poke (b_buf b0) (unat (b_len ?b)) (replicate ?n 0)\<rparr>"
  have ext: "extends ?b (replicate ?n 0) ?b1" using b b0 by (intro poke_added) simp_all
  show "\<exists>c'. in_child (cbb_add_length_prefixed n) f c = (True, c') \<and> appends c (prefixed ?n d) c'"
  proof (rule in_child_appends [OF f _ ext])
    show "cbb_add_length_prefixed n c = (True, c\<lparr>cbb_base := ?b1, cbb_below := [?k]\<rparr>)"
      using b0(1) c(1) by (simp add: cbb_add_length_prefixed_def on_base_def Let_def)
    show "room ?b1 (length d)" using extends_room [OF b(1) ext] r(2) by simp
    show "quiet c" by fact
    fix b2
    assume e2: "extends ?b1 d b2"
    have ok1: "buffer_ok ?b1" using ext by (simp add: extends_def)
    have len2: "unat (b_len b2) = unat (b_len ?b) + ?n + length d"
      using extends_len [OF ok1 e2] b0(4) by simp
    have w2: "written b2 = written ?b @ replicate ?n 0 @ d" "buffer_ok b2" "\<not> b_error b2"
      using e2 ext by (simp_all add: extends_def)
    let ?start = "b_len ?b + ucast n"
    have start: "unat ?start = unat (b_len ?b) + ?n"
      and flush: "flush_chain b2 [?k] = (case close_child b2 ?k ?start of
          (True, b) \<Rightarrow> (True, b, []) | (False, b) \<Rightarrow> (False, b\<lparr>b_error := True\<rparr>, [?k]))"
      using flush_open_child [of b2 ?k] w2(3) n(1) len2 by (auto simp: unat_gt_0)
    have len: "unat (b_len b2 - ?start) = length d"
      using start len2 by (intro unat_len_diff) simp
    let ?b3 = "b2\<lparr>b_buf := poke (b_buf b2) (unat (b_len ?b)) (be_bytes ?n (length d))\<rparr>"
    have "close_child b2 ?k ?start = (True, ?b3)"
      using d len by (simp add: close_child_def write_prefix_eq)
    moreover have "extends ?b (prefixed ?n d) ?b3"
      using poke_written [OF w2(2,1), of "be_bytes ?n (length d)"] length_written [OF b(1)] w2(3) e2 ext
      by (simp add: extends_def prefixed_def)
    ultimately show "\<exists>b3. flush_chain b2 [?k] = (True, b3, []) \<and> extends ?b (prefixed ?n d) b3"
      using flush by auto
  qed
qed

end
