(* ===== verification/Der_Int.thy ===== *)
theory Der_Int
  imports Der
begin

text \<open>
  Signed INTEGER elements: \<open>CBS_get_asn1_int64\<close> accepts exactly the minimal two's
  complement encoding, for every \<open>int64_t\<close>, the most negative one included.
\<close>

fun trim_ones :: "bytes \<Rightarrow> bytes" where
  "trim_ones (b # b' # bs) = (if b = 0xff \<and> 128 \<le> unat b' then trim_ones (b' # bs) else b # b' # bs)"
| "trim_ones bs = bs"

definition int_content :: "u64 \<Rightarrow> bytes" where
  "int_content v = (if sint v \<ge> 0 then uint_content (unat v) else trim_ones (be_bytes 8 (unat v)))"

definition top_bit :: "bytes \<Rightarrow> bool" where
  "top_bit d \<longleftrightarrow> d \<noteq> [] \<and> 128 \<le> unat (hd d)"

lemma trim_ones_Cons: "top_bit d \<Longrightarrow> trim_ones (0xff # d) = trim_ones d"
  by (cases d) (simp_all add: top_bit_def)

lemma trim_ones_replicate: "top_bit d \<Longrightarrow> trim_ones (replicate n 0xff @ d) = trim_ones d"
proof (induction n)
  case (Suc n)
  then have "top_bit (replicate n 0xff @ d)" by (cases n) (simp_all add: top_bit_def)
  with Suc show ?case by (simp add: trim_ones_Cons)
qed simp

lemma trim_ones_decomp: "\<exists>n. bs = replicate n 0xff @ trim_ones bs"
proof (induction bs rule: trim_ones.induct)
  case (1 b b' bs)
  show ?case
  proof (cases "b = 0xff \<and> 128 \<le> unat b'")
    case True
    with 1 obtain n where "b' # bs = replicate n 0xff @ trim_ones (b' # bs)" by blast
    with True show ?thesis by (intro exI [of _ "Suc n"]) simp
  qed (auto intro: exI [of _ 0])
qed simp_all

lemma top_bit_trim_ones: "top_bit (trim_ones bs) \<longleftrightarrow> top_bit bs"
  by (induction bs rule: trim_ones.induct) (auto simp: top_bit_def)

lemma trim_ones_idem [simp]: "trim_ones (trim_ones bs) = trim_ones bs"
  by (induction bs rule: trim_ones.induct) auto

lemma valid_negative_iff:
  "CBS_is_valid_asn1_integer d = (True, True) \<longleftrightarrow> top_bit d \<and> trim_ones d = d"
proof (cases d rule: trim_ones.cases)
  case (1 b b' bs)
  have "trim_ones (b' # bs) \<noteq> b # b' # bs"
    using trim_ones_decomp [of "b' # bs"] by (metis append_eq_Cons_conv impossible_Cons length_append le_add2 linorder_not_le order_refl)
  then show ?thesis
    using 1 byte_split_7(2) [of b] byte_split_7(2) [of b'] by (auto simp: top_bit_def)
qed (auto simp: top_bit_def byte_split_7(2))

lemma valid_nonneg_iff:
  "CBS_is_valid_asn1_integer d = (True, False) \<longleftrightarrow> d = uint_content (be_val d)"
  by (auto simp: is_unsigned_asn1_integer_iff [symmetric] CBS_is_unsigned_asn1_integer_def)

lemma store_reversed_eq:
  "n \<le> length data \<Longrightarrow> length data \<le> length u \<Longrightarrow>
   store_reversed u data (length data) n = take n (rev data) @ drop n u"
proof (induction n)
  case (Suc n)
  then have "take (Suc n) (rev data) = take n (rev data) @ [data ! (length data - n - 1)]"
    by (simp add: take_Suc_conv_app_nth rev_nth)
  moreover have "drop n u = u ! n # drop (Suc n) u"
    using Suc.prems by (simp add: Cons_nth_drop_Suc)
  ultimately show ?case using Suc by (simp add: list_update_append)
qed simp

lemma int64_value:
  assumes "length d \<le> 8"
  shows "of_nat (le_val (store_reversed (replicate 8 p) d (length d) (length d))) =
    (of_nat (be_val (replicate (8 - length d) p @ d)) :: u64)"
  using assms by (simp add: store_reversed_eq le_val_def)

lemma top_bit_be_val:
  assumes "length bs = 8"
  shows "top_bit bs \<longleftrightarrow> 2 ^ 63 \<le> be_val bs"
proof -
  obtain b cs where bs: "bs = b # cs" "length cs = 7" using assms by (cases bs) auto
  have "be_val cs < 256 ^ 7" using be_val_less [of cs] bs(2) by simp
  then show ?thesis using bs by (auto simp: top_bit_def be_val_Cons)
qed

lemma int64_negative:
  assumes "top_bit d" "trim_ones d = d" "length d \<le> 8"
    and v: "v = (of_nat (be_val (replicate (8 - length d) 0xff @ d)) :: u64)"
  shows "d = int_content v"
proof -
  let ?bs = "replicate (8 - length d) 0xff @ d"
  have len: "length ?bs = 8" using assms(3) by simp
  then have uv: "unat v = be_val ?bs"
    using be_val_less [of ?bs] v by (simp add: unat_of_nat)
  have "top_bit ?bs" using assms(1) by (cases "8 - length d") (simp_all add: top_bit_def)
  then have "sint v < 0" using top_bit_be_val [OF len] uv sint_neg_iff by simp
  moreover have "be_bytes 8 (unat v) = ?bs" unfolding uv using be_bytes_be_val [of ?bs] len by simp
  ultimately show ?thesis
    using trim_ones_replicate [OF assms(1)] assms(2) by (simp add: int_content_def del: be_bytes_numeral)
qed

lemma int64_negative_content:
  assumes "sint v < 0"
  defines "d \<equiv> int_content v"
  shows "top_bit d" "trim_ones d = d" "length d \<le> 8"
    and "(of_nat (be_val (replicate (8 - length d) 0xff @ d)) :: u64) = v"
proof -
  have d: "d = trim_ones (be_bytes 8 (unat v))" using assms by (simp add: int_content_def)
  have v: "be_val (be_bytes 8 (unat v)) = unat v"
    using unat_less_pow(3) [of v] by (intro be_val_be_bytes_id) simp
  have "top_bit (be_bytes 8 (unat v))"
    using assms(1) by (simp add: top_bit_be_val v sint_neg_iff del: be_bytes_numeral)
  then show "top_bit d" by (simp add: d top_bit_trim_ones del: be_bytes_numeral)
  show "trim_ones d = d" by (simp add: d del: be_bytes_numeral)
  obtain n where n: "be_bytes 8 (unat v) = replicate n 0xff @ d"
    using trim_ones_decomp d by metis
  then have len: "8 = n + length d" by (metis length_append length_be_bytes length_replicate)
  then show "length d \<le> 8" by simp
  from len have "8 - length d = n" by simp
  then show "(of_nat (be_val (replicate (8 - length d) 0xff @ d)) :: u64) = v"
    by (simp add: n [symmetric] v del: be_bytes_numeral)
qed

lemma uint_content_63:
  assumes "length (uint_content m) \<le> 8"
  shows "m < 2 ^ 63"
proof (cases "min_be m")
  case Nil
  then have "m = 0" by (metis be_val_Nil be_val_min_be)
  then show ?thesis by simp
next
  case (Cons b bs)
  have m: "m = be_val (b # bs)" using Cons be_val_min_be by metis
  show ?thesis
  proof (cases "128 \<le> unat b")
    case True
    with Cons assms have "length (b # bs) \<le> 7" by (simp add: uint_content_def)
    then have "(256 :: nat) ^ length (b # bs) \<le> 256 ^ 7" by (intro power_increasing) simp_all
    then show ?thesis using m be_val_less [of "b # bs"] by simp
  next
    case False
    with Cons assms have len: "length bs \<le> 7" by (simp add: uint_content_def)
    have "m < (unat b + 1) * 256 ^ length bs" using m be_val_less [of bs] by (simp add: be_val_Cons)
    also have "\<dots> \<le> 128 * 256 ^ 7"
      using False len by (intro mult_le_mono power_increasing) simp_all
    finally show ?thesis by simp
  qed
qed

lemma uint_content_63_length: "m < 2 ^ 63 \<Longrightarrow> length (uint_content m) \<le> 8"
proof -
  assume m: "m < 2 ^ 63"
  show ?thesis
  proof (cases "min_be m")
    case (Cons b bs)
    have len: "length (min_be m) \<le> 8" using m by (intro length_min_be) simp
    show ?thesis
    proof (cases "length bs = 7")
      case True
      then have "\<not> 128 \<le> unat b"
        using top_bit_be_val [of "b # bs"] m be_val_min_be [of m] Cons by (simp add: top_bit_def)
      with True Cons show ?thesis by (simp add: uint_content_def)
    next
      case False
      with len Cons show ?thesis by (simp add: uint_content_def)
    qed
  qed (simp add: uint_content_def)
qed

lemma be_val_replicate_0 [simp]: "be_val (replicate n 0 @ d) = be_val d"
  by (induction n) simp_all

lemma guards_eq_Some:
  "(if \<not> a then (None, s) else if b then (None, s) else (Some x, s)) = (Some v, r) \<longleftrightarrow>
     a \<and> \<not> b \<and> v = x \<and> s = r"
  by auto

lemma ex_sign_iff:
  "(\<exists>d t. g d t \<and> fst (f d) \<and> P d (snd (f d)) \<and> t = r) \<longleftrightarrow> (\<exists>d s. g d r \<and> f d = (True, s) \<and> P d s)"
proof -
  have "fst (f d) \<and> P d (snd (f d)) \<longleftrightarrow> (\<exists>s. f d = (True, s) \<and> P d s)" for d
    by (cases "f d") auto
  then show ?thesis by blast
qed

lemma CBS_get_asn1_int64_iff:
  "CBS_get_asn1_int64 c = (Some v, r) \<longleftrightarrow> c = der_element CBS_ASN1_INTEGER (int_content v) @ r"
proof -
  define val where
    "val d p = (of_nat (le_val (store_reversed (replicate 8 p) d (length d) (length d))) :: u64)" for d p
  have val: "val d p = of_nat (be_val (replicate (8 - length d) p @ d))" if "length d \<le> 8" for d p
    using int64_value [OF that] by (simp only: val_def)
  have "CBS_get_asn1_int64 c = (Some v, r) \<longleftrightarrow>
    (\<exists>d t. CBS_get_asn1 CBS_ASN1_INTEGER c = (Some d, t) \<and> fst (CBS_is_valid_asn1_integer d) \<and>
      length d \<le> 8 \<and> v = val d (if snd (CBS_is_valid_asn1_integer d) then 0xff else 0) \<and> t = r)"
    by (simp only: CBS_get_asn1_int64_def and_then_eq_Some Let_def case_prod_beta guards_eq_Some
        not_less val_def)
  also have "\<dots> \<longleftrightarrow>
    (\<exists>d neg. CBS_get_asn1 CBS_ASN1_INTEGER c = (Some d, r) \<and> CBS_is_valid_asn1_integer d = (True, neg) \<and>
      length d \<le> 8 \<and> v = val d (if neg then 0xff else 0))"
    using ex_sign_iff [of "\<lambda>d t. CBS_get_asn1 CBS_ASN1_INTEGER c = (Some d, t)" CBS_is_valid_asn1_integer
        "\<lambda>d s. length d \<le> 8 \<and> v = val d (if s then 0xff else 0)" r]
    by (simp only: conj_assoc)
  also have "\<dots> \<longleftrightarrow>
    (\<exists>d neg. CBS_get_asn1 CBS_ASN1_INTEGER c = (Some d, r) \<and> CBS_is_valid_asn1_integer d = (True, neg) \<and>
      length d \<le> 8 \<and> v = of_nat (be_val (replicate (8 - length d) (if neg then 0xff else 0) @ d)))"
    by (simp only: val cong: conj_cong)
  also have "\<dots> \<longleftrightarrow> CBS_get_asn1 CBS_ASN1_INTEGER c = (Some (int_content v), r)"
  proof
    assume "\<exists>d neg. CBS_get_asn1 CBS_ASN1_INTEGER c = (Some d, r) \<and> CBS_is_valid_asn1_integer d = (True, neg) \<and>
      length d \<le> 8 \<and> v = of_nat (be_val (replicate (8 - length d) (if neg then 0xff else 0) @ d))"
    then obtain d neg where d: "CBS_get_asn1 CBS_ASN1_INTEGER c = (Some d, r)"
      "CBS_is_valid_asn1_integer d = (True, neg)" "length d \<le> 8"
      "v = of_nat (be_val (replicate (8 - length d) (if neg then 0xff else 0) @ d))" by blast
    show "CBS_get_asn1 CBS_ASN1_INTEGER c = (Some (int_content v), r)"
    proof (cases neg)
      case True
      with d int64_negative [of d v] show ?thesis by (simp add: valid_negative_iff)
    next
      case False
      with d(2) have eq: "d = uint_content (be_val d)" by (simp add: valid_nonneg_iff)
      with d(3) have small: "be_val d < 2 ^ 63" using uint_content_63 [of "be_val d"] by simp
      then have "unat v = be_val d" using d(4) False by (simp add: unat_of_nat)
      with small eq have "d = int_content v" using sint_neg_iff [of v] by (simp add: int_content_def)
      with d(1) show ?thesis by simp
    qed
  next
    assume g: "CBS_get_asn1 CBS_ASN1_INTEGER c = (Some (int_content v), r)"
    show "\<exists>d neg. CBS_get_asn1 CBS_ASN1_INTEGER c = (Some d, r) \<and> CBS_is_valid_asn1_integer d = (True, neg) \<and>
      length d \<le> 8 \<and> v = of_nat (be_val (replicate (8 - length d) (if neg then 0xff else 0) @ d))"
    proof (cases "sint v < 0")
      case True
      with g int64_negative_content [OF True] show ?thesis
        by (intro exI [of _ "int_content v"] exI [of _ True]) (simp add: valid_negative_iff)
    next
      case False
      then have c: "int_content v = uint_content (unat v)" "unat v < 2 ^ 63"
        using sint_neg_iff [of v] by (simp_all add: int_content_def)
      with g uint_content_63_length [of "unat v"] show ?thesis
        by (intro exI [of _ "int_content v"] exI [of _ False]) (simp add: valid_nonneg_iff)
    qed
  qed
  also have "\<dots> \<longleftrightarrow> c = der_element CBS_ASN1_INTEGER (int_content v) @ r"
  proof -
    have "length (int_content v) \<le> 9"
    proof (cases "sint v < 0")
      case True
      from int64_negative_content(3) [OF this] show ?thesis by simp
    next
      case False
      then show ?thesis
        using uint_content_63_length [of "unat v"] sint_neg_iff [of v] by (simp add: int_content_def)
    qed
    then show ?thesis by (simp add: CBS_get_asn1_iff)
  qed
  finally show ?thesis .
qed

interpretation der_int64:
  strict_codec "\<lambda>v. der_element CBS_ASN1_INTEGER (int_content v)" CBS_get_asn1_int64 "\<lambda>_. True"
  by unfold_locales (simp_all add: CBS_get_asn1_int64_iff)

end
