(* ===== verification/Cbb_Der.thy ===== *)
theory Cbb_Der
  imports Cbb_Append Der_Int
begin

text \<open>
  The builder writes DER: the contracts of the base-128 writer, of the identifier
  octets, of an ASN.1 child, whose length octets are inserted when the child is
  closed and may move the contents, and of the INTEGER, OCTET STRING and BOOLEAN
  writers.
\<close>

section \<open>Base-128 integers\<close>

definition high_digits :: "u64 \<Rightarrow> nat \<Rightarrow> bytes" where
  "high_digits v n = map (\<lambda>i. (ucast (drop_bit (7 * i) v) AND 0x7f) OR 0x80) (rev [0..<n])"

lemma rev_upt_Suc: "rev [0..<Suc n] = map Suc (rev [0..<n]) @ [0]"
proof -
  have "[0..<Suc n] = 0 # map Suc [0..<n]" by (simp add: map_Suc_upt upt_conv_Cons del: upt_Suc)
  then show ?thesis by (simp add: rev_map del: upt_Suc)
qed

lemma high_digits_Suc:
  "high_digits v (Suc n) = high_digits (drop_bit 7 v) n @ [(ucast v AND 0x7f) OR 0x80]"
  by (simp add: high_digits_def rev_upt_Suc del: upt_Suc) (simp add: ac_simps)

lemma high_digits_eq: "high_digits v (base128_len v) = b128_high (unat v)"
proof (induction v rule: base128_len.induct)
  case (1 v)
  show ?case
  proof (cases "v > 0")
    case True
    with 1 have "high_digits v (base128_len v) =
        b128_high (unat v div 128) @ [of_nat (128 + unat v mod 128)]"
      by (subst base128_len.simps) (simp add: high_digits_Suc low_seven_high unat_drop_bit_div)
    also have "\<dots> = b128_high (unat v)"
      using True by (subst (2) b128_high.simps) (auto simp: word_less_nat_alt)
    finally show ?thesis .
  next
    case False
    then have "v = 0" by (simp add: word_neq_0_conv [symmetric])
    then show ?thesis by (subst base128_len.simps) (simp add: high_digits_def)
  qed
qed

lemma does_True [does_intros]: "does (\<lambda>c. (True, c)) []"
  by (intro doesI) (auto simp: quiet_def appends_def extends_def)

lemma does_append: "does f d \<Longrightarrow> does g e \<Longrightarrow> x = d @ e \<Longrightarrow> does (\<lambda>c. and_also (f c) g) x"
  by (simp add: does_seq)

lemma loop_0: "add_base128_loop v 0 = (\<lambda>c. (True, c))"
  by (rule ext) simp

lemma does_base128_loop:
  "does (add_base128_loop v (Suc n)) (high_digits (drop_bit 7 v) n @ [of_nat (unat v mod 128)])"
proof -
  have all: "does (add_base128_loop v (Suc n))
    (map (\<lambda>i. let b = ucast (drop_bit (7 * i) v) AND 0x7f in if i \<noteq> 0 then b OR 0x80 else b)
       (rev [0..<Suc n]))" for n
  proof (induction n)
    case 0
    show ?case
      using does_append [OF does_add_u8 does_True] by (simp add: Let_def loop_0 del: add_base128_loop.simps(1))
  next
    case (Suc n)
    have "add_base128_loop v (Suc (Suc n)) = (\<lambda>c. and_also
        (CBB_add_u8 (ucast (drop_bit (7 * Suc n) v) AND 0x7f OR 0x80) c) (add_base128_loop v (Suc n)))"
      by (rule ext) (subst add_base128_loop.simps, simp add: Let_def del: add_base128_loop.simps)
    moreover note does_append [OF does_add_u8 [of "ucast (drop_bit (7 * Suc n) v) AND 0x7f OR 0x80"] Suc refl]
    ultimately show ?case by (simp add: Let_def del: add_base128_loop.simps)
  qed
  have eq: "map (\<lambda>i. let b = ucast (drop_bit (7 * i) v) AND 0x7f :: byte in if i \<noteq> 0 then b OR 0x80 else b)
       (rev [0..<Suc n]) = high_digits (drop_bit 7 v) n @ [of_nat (unat v mod 128)]"
    by (simp add: rev_upt_Suc high_digits_def low_seven del: upt_Suc) (simp add: ac_simps)
  show ?thesis using all [of n] unfolding eq .
qed

lemma does_base128 [does_intros]: "does (add_base128_integer v) (base128 (unat v))"
proof -
  have "b128_high (unat v div 128) = high_digits (drop_bit 7 v) (base128_len v - 1)"
  proof (cases "v = 0")
    case False
    then have "base128_len v = Suc (base128_len (drop_bit 7 v))"
      by (subst base128_len.simps) (simp add: word_neq_0_conv)
    then show ?thesis by (simp add: high_digits_eq unat_drop_bit_div)
  qed (simp add: high_digits_def base128_len.simps)
  then have "base128 (unat v) = high_digits (drop_bit 7 v) (base128_len v - 1) @ [of_nat (unat v mod 128)]"
    by (simp add: base128_def)
  moreover have "add_base128_integer v = add_base128_loop v (Suc (base128_len v - 1))"
    by (intro ext) (simp add: add_base128_integer_def Let_def del: add_base128_loop.simps)
  ultimately show ?thesis using does_base128_loop by metis
qed

section \<open>Identifier octets and ASN.1 children\<close>

lemma does_tag:
  "does (\<lambda>c. if t AND CBS_ASN1_TAG_NUMBER_MASK \<ge> 0x1f
      then and_also (CBB_add_u8 ((ucast (drop_bit 24 t AND 0xe0)) OR 0x1f) c)
        (add_base128_integer (ucast (t AND CBS_ASN1_TAG_NUMBER_MASK)))
      else CBB_add_u8 (ucast ((ucast (ucast (drop_bit 24 t AND 0xe0) :: byte) :: u32)
        OR (t AND CBS_ASN1_TAG_NUMBER_MASK))) c) (der_tag t)"
proof -
  have cls: "(ucast (drop_bit 24 t AND 0xe0) :: byte) = tag_class t"
    by (simp add: tag_class_def byte_eq_iff_bits class_mask_bits bit_simps)
  have low: "(ucast (ucast (tag_class t) OR tag_number t :: u32) :: byte) = tag_class t OR ucast (tag_number t)"
    by (simp add: byte_eq_iff_bits bit_simps)
  have "unat (ucast (tag_number t) :: u64) = unat (tag_number t)" by simp
  then show ?thesis
    unfolding cls tag_number_def [symmetric] low der_tag_def
    by (cases "0x1f \<le> tag_number t") (simp_all add: does_add_u8 does_append [OF does_add_u8 does_base128])
qed

lemma CBB_add_asn1_opens:
  assumes c: "quiet c" "room (cbb_base c) (length (der_tag t) + 1)"
  obtains b1 off where
    "CBB_add_asn1 t c = (True, c\<lparr>cbb_base := b1, cbb_below :=
       [\<lparr>c_offset = off, c_pending_len_len = 1, c_pending_is_asn1 = True\<rparr>]\<rparr>)"
    "extends (cbb_base c) (der_tag t @ [0]) b1"
    "unat off = length (written (cbb_base c)) + length (der_tag t)"
proof -
  obtain c1 where c1: "(if t AND CBS_ASN1_TAG_NUMBER_MASK \<ge> 0x1f
      then and_also (CBB_add_u8 ((ucast (drop_bit 24 t AND 0xe0)) OR 0x1f) c)
        (add_base128_integer (ucast (t AND CBS_ASN1_TAG_NUMBER_MASK)))
      else CBB_add_u8 (ucast ((ucast (ucast (drop_bit 24 t AND 0xe0) :: byte) :: u32)
        OR (t AND CBS_ASN1_TAG_NUMBER_MASK))) c) = (True, c1)"
    "appends c (der_tag t) c1" "quiet c1"
    using doesE [OF does_tag [of t] c(1)] c(2) by (auto simp: room_def)
  have "room (cbb_base c1) 1" using appends_room [OF c(1) c1(2)] c(2) by simp
  then obtain c2 where c2: "CBB_add_u8 0 c1 = (True, c2)" "appends c1 [0] c2" "quiet c2"
    using doesE [OF does_add_u8 c1(3)] by auto
  have app: "appends c (der_tag t @ [0]) c2" using c1(2) c2(2) by (rule appends_trans)
  have ok: "buffer_ok (cbb_base c)" "buffer_ok (cbb_base c1)"
    using c(1) c1(3) by (simp_all add: quiet_def)
  show thesis
  proof (rule that)
    show "CBB_add_asn1 t c = (True, c\<lparr>cbb_base := cbb_base c2, cbb_below :=
       [\<lparr>c_offset = b_len (cbb_base c1), c_pending_len_len = 1, c_pending_is_asn1 = True\<rparr>]\<rparr>)"
      using c(1) c1(1) c2(1) app by (simp add: CBB_add_asn1_def Let_def) (metis (lifting) appends_def cbb.update_convs(4))
    show "extends (cbb_base c) (der_tag t @ [0]) (cbb_base c2)" using app by (simp add: appends_def)
    show "unat (b_len (cbb_base c1)) = length (written (cbb_base c)) + length (der_tag t)"
      using extends_len [OF ok(1), of "der_tag t" "cbb_base c1"] c1(2) ok
      by (simp add: appends_def length_written)
  qed
qed

text \<open>Closing an ASN.1 child: the length octets, and the contents moved behind them.\<close>

lemma asn1_len_len_short:
  "unat len < 128 \<Longrightarrow> asn1_len_len len = Some (1, of_nat (unat len), 0)"
  by (simp add: asn1_len_len_def word_less_nat_alt)

lemma asn1_len_len_long:
  assumes "128 \<le> unat len" "unat len \<le> 0xfffffffe"
  shows "\<exists>l. asn1_len_len len = Some (l, 0x80 OR of_nat (der_len_bytes (unat len)), len) \<and>
    unat l = Suc (der_len_bytes (unat len))"
  using assms by (auto simp: asn1_len_len_def der_len_bytes_def word_less_nat_alt)

lemma asn1_len_len_too_long: "unat len > 0xfffffffe \<Longrightarrow> asn1_len_len len = None"
  by (simp add: asn1_len_len_def word_less_nat_alt)

lemma poke_shift:
  assumes ok: "buffer_ok b" and front: "take (length p + length d) (b_buf b) = p @ d"
    and len: "unat (b_len b) = length p + length d + e"
  obtains x where "length x = e"
    "buffer_ok (b\<lparr>b_buf := poke (b_buf b) (length p + e) d\<rparr>)"
    "written (b\<lparr>b_buf := poke (b_buf b) (length p + e) d\<rparr>) = p @ x @ d"
proof -
  have fits: "length p + e + length d \<le> length (b_buf b)"
    using ok len by (simp add: buffer_ok_def)
  have "take (length p) (b_buf b) = p"
    using arg_cong [OF front, of "take (length p)"] by simp
  then have "take (length p + e) (b_buf b) = p @ take e (drop (length p) (b_buf b))"
    by (simp add: take_add)
  then have "written (b\<lparr>b_buf := poke (b_buf b) (length p + e) d\<rparr>) = p @ take e (drop (length p) (b_buf b)) @ d"
    using take_poke_end [OF fits] len by (simp add: written_def ac_simps)
  then show thesis
    using fits ok by (intro that) (auto simp: buffer_ok_def)
qed

lemma close_asn1_short:
  assumes b: "buffer_ok b" "\<not> b_error b" and w: "written b = p @ [0] @ d" and d: "length d < 128"
    and off: "unat (c_offset k) = length p" and start: "unat start = length p + 1"
    and k: "c_pending_is_asn1 k"
  shows "\<exists>b'. close_child b k start = (True, b') \<and> buffer_ok b' \<and> \<not> b_error b' \<and>
    written b' = p @ der_length (length d) @ d \<and> limit b' = limit b"
proof -
  have "unat (b_len b) = length p + 1 + length d"
    using length_written [OF b(1)] w by simp
  then have len: "unat (b_len b - start) = length d"
    using start by (intro unat_len_diff) simp
  let ?b = "b\<lparr>b_buf := poke (b_buf b) (length p) [of_nat (length d)]\<rparr>"
  have "buffer_ok ?b" "written ?b = p @ [of_nat (length d)] @ d"
    using poke_written [OF b(1) w] by simp_all
  moreover have "close_child b k start = (True, ?b)"
    using asn1_len_len_short [of "b_len b - start"] len d k off
    by (simp add: close_child_def write_prefix_def)
  ultimately show ?thesis using b d by (simp add: der_length_def)
qed

lemma close_asn1_long:
  assumes b: "buffer_ok b" "\<not> b_error b" and w: "written b = p @ [0] @ d"
    and d: "128 \<le> length d" "length d \<le> 0xfffffffe"
    and off: "unat (c_offset k) = length p" and start: "unat start = length p + 1"
    and k: "c_pending_is_asn1 k" and room: "room b (der_len_bytes (length d))"
  shows "\<exists>b'. close_child b k start = (True, b') \<and> buffer_ok b' \<and> \<not> b_error b' \<and>
    written b' = p @ der_length (length d) @ d \<and> limit b' = limit b"
proof -
  let ?e = "der_len_bytes (length d)" and ?init = "0x80 OR of_nat (der_len_bytes (length d)) :: byte"
  have blen: "unat (b_len b) = length p + 1 + length d"
    using length_written [OF b(1)] w by simp
  then have len: "unat (b_len b - start) = length d"
    using start by (intro unat_len_diff) simp
  obtain l where l: "asn1_len_len (b_len b - start) = Some (l, ?init, b_len b - start)" "unat l = Suc ?e"
    using asn1_len_len_long [of "b_len b - start"] len d by auto
  have e: "1 \<le> ?e" "?e \<le> 4" by (rule der_len_bytes_range)+
  have l1: "l \<noteq> 1" "unat (l - 1) = ?e" using l(2) e(1) by (auto simp: unat_sub_if_size word_size)
  define extra where "extra = (ucast (l - 1) :: u64)"
  have extra: "unat extra = ?e" using l1(2) by (simp add: extra_def)
  obtain b1 where b1: "cbb_buffer_add b extra = (True, b1)" "buffer_ok b1" "\<not> b_error b1"
    "unat (b_len b1) = unat (b_len b) + ?e" "limit b1 = limit b"
    "take (unat (b_len b)) (b_buf b1) = written b"
    using add_room [OF b, of extra] room extra by auto
  have front: "take (length (p @ [0]) + length d) (b_buf b1) = (p @ [0]) @ d"
    using b1(6) w blen by simp
  then have src: "take (length d) (drop (Suc (length p)) (b_buf b1)) = d"
    by (metis (no_types) append_eq_conv_conj drop_take length_append_singleton add_diff_cancel_left')
  let ?b2 = "b1\<lparr>b_buf := poke (b_buf b1) (length (p @ [0]) + ?e) d\<rparr>"
  obtain x where x: "length x = ?e" "buffer_ok ?b2" "written ?b2 = (p @ [0]) @ x @ d"
    using poke_shift [OF b1(2) front, of ?e] b1(4) blen by auto
  let ?b3 = "?b2\<lparr>b_buf := poke (b_buf ?b2) (length p) [?init]\<rparr>"
  have b3: "buffer_ok ?b3" "written ?b3 = p @ [?init] @ x @ d"
    using poke_written [OF x(2), of p "[0]" "x @ d" "[?init]"] x(3) by simp_all
  let ?b4 = "?b3\<lparr>b_buf := poke (b_buf ?b3) (length (p @ [?init])) (be_bytes ?e (length d))\<rparr>"
  have b4: "buffer_ok ?b4" "written ?b4 = (p @ [?init]) @ be_bytes ?e (length d) @ d"
    using poke_written [OF b3(1), of "p @ [?init]" x d "be_bytes ?e (length d)"] b3(2) x(1) by simp_all
  have fit: "length d < 256 ^ ?e" using der_len_bytes_bounds d by simp
  have small: "length p + 5 < 2 ^ 64"
    using blen d(1) unat_less_pow(3) [of "b_len b"] by simp
  have off1: "unat (c_offset k + 1) = Suc (length p)"
    using off small by (simp add: unat_plus_if')
  have starte: "unat (start + extra) = length (p @ [0]) + ?e"
    using start extra small e(2) by (simp add: unat_plus_if')
  have "close_child b k start = (True, ?b4)"
    using k l1 b1(1) len src start starte off off1 fit
    by (simp add: close_child_def l(1) Let_def extra_def [symmetric] write_prefix_eq)
  then show ?thesis using b4 b1(3,5) d by (simp add: der_length_def)
qed


lemma close_asn1:
  assumes "buffer_ok b" "\<not> b_error b" "written b = p @ [0] @ d" "length d \<le> 0xfffffffe"
    and "unat (c_offset k) = length p" "unat start = length p + 1" "c_pending_is_asn1 k"
    and room: "room b (length (der_length (length d)) - 1)"
  shows "\<exists>b'. close_child b k start = (True, b') \<and> buffer_ok b' \<and> \<not> b_error b' \<and>
    written b' = p @ der_length (length d) @ d \<and> limit b' = limit b"
proof (cases "length d < 128")
  case True
  with assms show ?thesis by (intro close_asn1_short) simp_all
next
  case False
  with room have "room b (der_len_bytes (length d))" by (simp add: der_length_def)
  with False assms show ?thesis by (intro close_asn1_long) simp_all
qed

lemma does_asn1:
  assumes f: "does f d" and d: "length d \<le> 0xfffffffe"
  shows "does (in_child (CBB_add_asn1 t) f) (der_element t d)"
proof (rule doesI)
  fix c
  assume c: "quiet c" "room (cbb_base c) (length (der_element t d))"
  let ?b = "cbb_base c" and ?hdr = "der_tag t @ [0]"
  have b: "buffer_ok ?b" using c(1) by (simp add: quiet_def)
  have ll: "1 \<le> length (der_length (length d))" by (rule length_der_length)
  have r: "room ?b (length (der_tag t) + 1)" "room ?b (length ?hdr + (length d + (length (der_length (length d)) - 1)))"
    using c(2) ll by (simp_all add: room_def der_element_def der_header_def)
  obtain b1 off where op: "CBB_add_asn1 t c = (True, c\<lparr>cbb_base := b1, cbb_below :=
       [\<lparr>c_offset = off, c_pending_len_len = 1, c_pending_is_asn1 = True\<rparr>]\<rparr>)"
    and ext: "extends ?b ?hdr b1" and off: "unat off = length (written ?b) + length (der_tag t)"
    using CBB_add_asn1_opens [OF c(1) r(1)] .
  have room1: "room b1 (length d + (length (der_length (length d)) - 1))"
    using extends_room [OF b ext] r(2) by simp
  show "\<exists>c'. in_child (CBB_add_asn1 t) f c = (True, c') \<and> appends c (der_element t d) c'"
  proof (rule in_child_appends [OF f _ ext])
    show "CBB_add_asn1 t c = (True, c\<lparr>cbb_base := b1, cbb_below :=
       [\<lparr>c_offset = off, c_pending_len_len = 1, c_pending_is_asn1 = True\<rparr>]\<rparr>)" by (rule op)
    show "room b1 (length d)" using room1 by (simp add: room_def)
    show "quiet c" by fact
    fix b2
    let ?k = "\<lparr>c_offset = off, c_pending_len_len = 1, c_pending_is_asn1 = True\<rparr>"
    assume e2: "extends b1 d b2"
    have b1: "buffer_ok b1" using ext by (simp add: extends_def)
    have w2: "written b2 = (written ?b @ der_tag t) @ [0] @ d" "buffer_ok b2" "\<not> b_error b2"
      using e2 ext by (simp_all add: extends_def)
    have len2: "unat (b_len b2) = unat off + 1 + length d"
      using length_written [OF w2(2)] w2(1) off by simp
    let ?start = "off + ucast (1 :: byte)"
    have start: "unat ?start = unat off + 1"
      and flush: "flush_chain b2 [?k] = (case close_child b2 ?k ?start of
          (True, b) \<Rightarrow> (True, b, []) | (False, b) \<Rightarrow> (False, b\<lparr>b_error := True\<rparr>, [?k]))"
      using flush_open_child [of b2 ?k] w2(3) len2 by simp_all
    have "room b2 (length (der_length (length d)) - 1)"
      using extends_room [OF b1 e2] room1 by simp
    then obtain b3 where "close_child b2 ?k ?start = (True, b3)" "buffer_ok b3" "\<not> b_error b3"
      "written b3 = (written ?b @ der_tag t) @ der_length (length d) @ d" "limit b3 = limit b2"
      using close_asn1 [OF w2(2,3,1) d, of ?k ?start] start off by auto
    then show "\<exists>b3. flush_chain b2 [?k] = (True, b3, []) \<and> extends ?b (der_element t d) b3"
      using flush e2 ext by (simp add: extends_def der_element_def der_header_def)
  qed
qed


section \<open>Values\<close>

lemma does_asn1_octet_string:
  "length d \<le> 0xfffffffe \<Longrightarrow> does (CBB_add_asn1_octet_string d) (der_element CBS_ASN1_OCTETSTRING d)"
  using does_asn1 [OF does_add_bytes] by (simp add: in_child_def [abs_def] CBB_add_asn1_octet_string_def [abs_def])

lemma does_asn1_bool:
  "does (CBB_add_asn1_bool v) (der_element CBS_ASN1_BOOLEAN [if v then 0xff else 0])"
  using does_asn1 [OF does_add_u8, of "if v then 0xff else 0" CBS_ASN1_BOOLEAN]
  by (simp add: in_child_def [abs_def] CBB_add_asn1_bool_def [abs_def])

text \<open>The byte loops write through the child; as one operation of the child they are \<open>add_u8s\<close>.\<close>

fun add_u8s :: "bytes \<Rightarrow> cbb \<Rightarrow> bool \<times> cbb" where
  "add_u8s [] c = (True, c)"
| "add_u8s (b # bs) c = and_also (CBB_add_u8 b c) (add_u8s bs)"

lemma add_u8s_Cons: "add_u8s (b # bs) = (\<lambda>c. and_also (CBB_add_u8 b c) (add_u8s bs))"
  by (rule ext) simp

declare add_u8s.simps [simp del]

lemma does_add_u8s [does_intros]: "does (add_u8s bs) bs"
proof (induction bs)
  case Nil
  then show ?case using does_True by (simp add: does_def add_u8s.simps)
next
  case (Cons b bs)
  then show ?case using does_append [OF does_add_u8 Cons] by (simp add: add_u8s_Cons)
qed

lemma on_child_seq:
  assumes "\<And>c. cbb_offset (snd (f c)) = cbb_offset c \<and> cbb_pending_len_len (snd (f c)) = cbb_pending_len_len c \<and>
    cbb_null (snd (f c)) = cbb_null c"
  shows "and_also (on_child f c) (on_child g) = on_child (\<lambda>c. and_also (f c) g) c"
proof (cases "cbb_below c")
  case (Cons k ks)
  define d where "d = \<lparr>cbb_base = cbb_base c, cbb_offset = c_offset k,
    cbb_pending_len_len = c_pending_len_len k, cbb_below = ks, cbb_null = cbb_null c\<rparr>"
  obtain success d' where f: "f d = (success, d')" by fastforce
  then have d': "d' = \<lparr>cbb_base = cbb_base d', cbb_offset = c_offset k,
      cbb_pending_len_len = c_pending_len_len k, cbb_below = cbb_below d', cbb_null = cbb_null c\<rparr>"
    using assms [of d] by (cases d') (simp add: d_def)
  show ?thesis
    using Cons f by (cases success; cases "g d'")
      (simp_all add: on_child_def d_def [symmetric] d' [symmetric])
qed (simp add: on_child_def)

lemma CBB_add_u8_keeps:
  "cbb_offset (snd (CBB_add_u8 b c)) = cbb_offset c \<and>
   cbb_pending_len_len (snd (CBB_add_u8 b c)) = cbb_pending_len_len c \<and> cbb_null (snd (CBB_add_u8 b c)) = cbb_null c"
  by (auto simp: CBB_add_u8_def CBB_flush_def on_base_def and_also_def split: prod.splits)

lemma on_child_add_u8s:
  "on_child (add_u8s (b # bs)) c = and_also (on_child (CBB_add_u8 b) c) (on_child (add_u8s bs))"
  unfolding add_u8s_Cons on_child_seq [OF CBB_add_u8_keeps] ..

lemma on_child_add_u8s_Nil: "cbb_below c \<noteq> [] \<Longrightarrow> on_child (add_u8s []) c = (True, c)"
  by (cases c) (auto simp: on_child_def add_u8s.simps split: list.splits)

lemma on_child_below: "on_child f c = (True, c') \<Longrightarrow> cbb_below c' \<noteq> []"
  by (auto simp: on_child_def split: list.splits prod.splits)

lemma uint64_loop_started:
  "cbb_below c \<noteq> [] \<Longrightarrow> add_uint64_loop bs True c =
     (fst (on_child (add_u8s bs) c), True, snd (on_child (add_u8s bs) c))"
proof (induction bs arbitrary: c)
  case (Cons b bs)
  show ?case
  proof (cases "on_child (CBB_add_u8 b) c")
    case (Pair success c')
    then show ?thesis
      using Cons.IH [of c'] on_child_below [of "CBB_add_u8 b" c c']
      by (cases success) (simp_all add: on_child_add_u8s)
  qed
qed (simp add: on_child_add_u8s_Nil)

lemma uint64_loop_fresh:
  "cbb_below c \<noteq> [] \<Longrightarrow>
   (case add_uint64_loop bs False c of
      (False, _, c) \<Rightarrow> (False, c)
    | (True, started, c) \<Rightarrow> and_also (if \<not> started then on_child (CBB_add_u8 0) c else (True, c)) CBB_flush) =
   and_also (on_child (add_u8s (uint_content (be_val bs))) c) CBB_flush"
proof (induction bs arbitrary: c)
  case Nil
  have "uint_content 0 = [0]" by (simp add: uint_content_def)
  with Nil on_child_below show ?case
    by (cases "on_child (CBB_add_u8 0) c")
      (auto simp: on_child_add_u8s on_child_add_u8s_Nil and_also_def split: if_splits)
next
  case (Cons b bs)
  show ?case
  proof (cases "b = 0")
    case True
    with Cons show ?thesis by simp
  next
    case False
    then have "min_be (be_val (b # bs)) = b # bs" by (simp add: min_be_be_val)
    then have content: "uint_content (be_val (b # bs)) = (if b AND 0x80 \<noteq> 0 then 0 # b # bs else b # bs)"
      by (simp add: uint_content_def byte_split_7(2))
    have rest: "(case (case on_child (CBB_add_u8 b) c of (False, c) \<Rightarrow> (False, True, c)
           | (True, c) \<Rightarrow> add_uint64_loop bs True c) of
      (False, _, c) \<Rightarrow> (False, c)
    | (True, started, c) \<Rightarrow> and_also (if \<not> started then on_child (CBB_add_u8 0) c else (True, c)) CBB_flush) =
      and_also (on_child (add_u8s (b # bs)) c) CBB_flush" for c
    proof (cases "on_child (CBB_add_u8 b) c")
      case (Pair success c')
      then show ?thesis
        using uint64_loop_started [of c' bs] on_child_below [of "CBB_add_u8 b" c c']
        by (cases success; cases "on_child (add_u8s bs) c'"; cases "fst (on_child (add_u8s bs) c')")
          (auto simp: on_child_add_u8s)
    qed
    show ?thesis
    proof (cases "b AND 0x80 \<noteq> 0")
      case True
      with False rest content show ?thesis
        by (cases "on_child (CBB_add_u8 0) c"; cases "fst (on_child (CBB_add_u8 0) c)")
          (simp_all add: on_child_add_u8s [of 0])
    next
      case small: False
      with False rest content show ?thesis by simp
    qed
  qed
qed

lemma uint64_bytes:
  "map (\<lambda>i. ucast (drop_bit (8 * (7 - i)) v AND 0xff)) [0..<8] = be_bytes 8 (unat v)" for v :: u64
proof -
  have *: "(ucast (w AND 0xff) :: byte) = of_nat (unat w)" for w :: u64
  proof -
    have "unat (w AND 0xff) = unat w mod 256"
      using unat_mask_eq [of w 8] by (simp add: mask_eq_exp_minus_1)
    then show ?thesis
      by (simp add: word_unat_eq_iff unsigned_ucast_eq take_bit_eq_mod)
  qed
  show ?thesis
    by (simp add: * unat_drop_bit_div upt_rec div_mult2_eq [symmetric] numeral_2_eq_2 [symmetric])
qed

lemma CBB_add_asn1_below: "CBB_add_asn1 t c = (True, c') \<Longrightarrow> cbb_below c' \<noteq> []"
  by (auto simp: CBB_add_asn1_def and_also_eq_True Let_def)

lemma CBB_add_asn1_uint64_eq:
  "CBB_add_asn1_uint64 v = in_child (CBB_add_asn1 CBS_ASN1_INTEGER) (add_u8s (uint_content (unat v)))"
proof (rule ext)
  fix c
  have v: "be_val (be_bytes 8 (unat v)) = unat v"
    using unat_less_pow(3) [of v] by (intro be_val_be_bytes_id) simp
  show "CBB_add_asn1_uint64 v c = in_child (CBB_add_asn1 CBS_ASN1_INTEGER) (add_u8s (uint_content (unat v))) c"
  proof (cases "CBB_add_asn1 CBS_ASN1_INTEGER c")
    case (Pair success c')
    then show ?thesis
      using uint64_loop_fresh [of c' "be_bytes 8 (unat v)"] CBB_add_asn1_below [of CBS_ASN1_INTEGER c c']
      unfolding CBB_add_asn1_uint64_def in_child_def uint64_bytes v
      by (cases success) (simp_all del: be_bytes_numeral)
  qed
qed

lemma length_uint_content: "unat v < 256 ^ n \<Longrightarrow> length (uint_content (unat v)) \<le> Suc n" for v :: u64
  using length_min_be [of "unat v" n] by (auto simp: uint_content_def split: list.splits)

lemma does_asn1_uint64:
  "does (CBB_add_asn1_uint64 v) (der_element CBS_ASN1_INTEGER (uint_content (unat v)))"
proof -
  have "length (uint_content (unat v)) \<le> 9"
    using length_uint_content [of v 8] unat_less_pow(3) [of v] by simp
  then show ?thesis
    unfolding CBB_add_asn1_uint64_eq by (intro does_asn1 does_add_u8s) simp
qed

text \<open>A negative \<open>int64_t\<close>: the redundant leading bytes are skipped, the rest is written downwards.\<close>

lemma add_bytes_down_eq:
  "n < length u \<Longrightarrow> cbb_below c \<noteq> [] \<Longrightarrow>
   add_bytes_down u n c = on_child (add_u8s (rev (take (Suc n) u))) c"
proof (induction n arbitrary: c)
  case 0
  then have "take (Suc 0) u = [u ! 0]" by (cases u) simp_all
  with 0 on_child_below show ?case
    by (cases "on_child (CBB_add_u8 (u ! 0)) c"; cases "fst (on_child (CBB_add_u8 (u ! 0)) c)")
      (auto simp: on_child_add_u8s on_child_add_u8s_Nil)
next
  case (Suc n)
  let ?r = "on_child (CBB_add_u8 (u ! Suc n)) c"
  have "rev (take (Suc (Suc n)) u) = u ! Suc n # rev (take (Suc n) u)"
    using Suc.prems(1) by (subst take_Suc_conv_app_nth) simp_all
  then show ?case
    using Suc on_child_below [of "CBB_add_u8 (u ! Suc n)" c]
    by (cases ?r; cases "fst ?r") (simp_all add: on_child_add_u8s)
qed

lemma int64_start_trim:
  "n < length u \<Longrightarrow> rev (take (Suc (int64_start u n)) u) = trim_ones (rev (take (Suc n) u))"
proof (induction n)
  case 0
  then show ?case by (cases u) simp_all
next
  case (Suc n)
  have "rev (take (Suc (Suc n)) u) = u ! Suc n # u ! n # rev (take n u)"
    "rev (take (Suc n) u) = u ! n # rev (take n u)"
    using Suc.prems by (simp_all add: take_Suc_conv_app_nth)
  then show ?case using Suc by (simp add: byte_split_7(2) del: take_Suc)
qed

lemma int64_start_le: "int64_start u n \<le> n"
  by (induction n) simp_all

lemma CBB_add_asn1_int64_eq:
  "CBB_add_asn1_int64 v = in_child (CBB_add_asn1 CBS_ASN1_INTEGER) (add_u8s (int_content v))"
proof (rule ext)
  fix c
  let ?u = "le_bytes 8 (unat v)"
  show "CBB_add_asn1_int64 v c = in_child (CBB_add_asn1 CBS_ASN1_INTEGER) (add_u8s (int_content v)) c"
  proof (cases "sint v \<ge> 0")
    case False
    have "rev (take (Suc (int64_start ?u 7)) ?u) = trim_ones (be_bytes 8 (unat v))"
      by (subst int64_start_trim) (simp_all add: le_bytes_def del: be_bytes_numeral)
    moreover have "int64_start ?u 7 < length ?u" using int64_start_le [of ?u 7] by simp
    ultimately have "add_bytes_down ?u (int64_start ?u 7) c' = on_child (add_u8s (int_content v)) c'"
      if "cbb_below c' \<noteq> []" for c'
      using add_bytes_down_eq [OF _ that] False by (simp add: int_content_def del: be_bytes_numeral)
    with False show ?thesis
      using CBB_add_asn1_below [of CBS_ASN1_INTEGER c]
      by (cases "CBB_add_asn1 CBS_ASN1_INTEGER c"; cases "fst (CBB_add_asn1 CBS_ASN1_INTEGER c)")
        (simp_all add: CBB_add_asn1_int64_def in_child_def)
  qed (simp add: CBB_add_asn1_int64_def int_content_def CBB_add_asn1_uint64_eq)
qed

lemma length_int_content: "length (int_content v) \<le> 8"
proof (cases "sint v < 0")
  case False
  then show ?thesis
    using uint_content_63_length [of "unat v"] sint_neg_iff [of v] by (simp add: int_content_def)
qed (rule int64_negative_content(3))

lemma does_asn1_int64:
  "does (CBB_add_asn1_int64 v) (der_element CBS_ASN1_INTEGER (int_content v))"
  unfolding CBB_add_asn1_int64_eq
  using length_int_content [of v] by (intro does_asn1 does_add_u8s) simp

end
