(* ===== verification/Cbb_Cbs.thy ===== *)
theory Cbb_Cbs
  imports Cbb_Der
begin

text \<open>
  The interface between the builder and the reader: an encoding together with the
  operation of \<open>cbb.c\<close> that appends it and the one of \<open>cbs.c\<close> that reads it. The
  clients are proved once: a list of values written in sequence, into a sequence or
  into a child, and the bytes of a finished builder read back as the values.
\<close>

text \<open>A builder that was finished refuses every operation, as all of them flush first.\<close>

lemma finish_written:
  assumes "quiet c"
  obtains f where "CBB_finish c = (Some (written (cbb_base c)), f)" "CBB_flush f = (False, f)"
proof -
  let ?f = "CBB_cleanup (c\<lparr>cbb_base := (cbb_base c)\<lparr>b_buf := []\<rparr>\<rparr>)"
  have "CBB_finish c = (Some (written (cbb_base c)), ?f)" using assms by (simp add: CBB_finish_def written_def)
  moreover have "CBB_flush ?f = (False, ?f)" by (simp add: CBB_cleanup_def CBB_flush_def)
  ultimately show ?thesis by (rule that)
qed

fun write_all :: "('a \<Rightarrow> cbb \<Rightarrow> bool \<times> cbb) \<Rightarrow> 'a list \<Rightarrow> cbb \<Rightarrow> bool \<times> cbb" where
  "write_all f [] c = (True, c)"
| "write_all f (x # xs) c = and_also (f x c) (write_all f xs)"

lemma does_write_all:
  "\<forall>x \<in> set xs. does (f x) (enc x) \<Longrightarrow> does (write_all f xs) (concat (map enc xs))"
proof (induction xs)
  case Nil
  then show ?case using does_True by (simp add: does_def)
next
  case (Cons x xs)
  have "write_all f (x # xs) = (\<lambda>c. and_also (f x c) (write_all f xs))" by (rule ext) simp
  then show ?case using Cons does_append [of "f x" "enc x"] by simp
qed

text \<open>A builder fresh from \<open>CBB_init\<close> or \<open>CBB_init_fixed\<close>.\<close>

lemma CBB_init_quiet:
  assumes "CBB_init n grants fresh = Some c"
  shows "quiet c" "written (cbb_base c) = []" "(\<forall>m. grants m) \<Longrightarrow> limit (cbb_base c) = 2 ^ 64 - 1"
  using assms by (auto simp: CBB_init_def cbb_init_def quiet_def buffer_ok_def written_def limit_def
      split: if_splits)

lemma CBB_init_fixed_quiet:
  assumes "CBB_init_fixed buf grants fresh = Some c" "length buf < 2 ^ 64"
  shows "quiet c" "written (cbb_base c) = []" "limit (cbb_base c) = length buf"
  using assms by (auto simp: CBB_init_fixed_def cbb_init_def quiet_def buffer_ok_def written_def limit_def
      unat_of_nat split: if_splits)

lemma does_finish:
  assumes "does f d" "quiet c" "written (cbb_base c) = []" "length d \<le> limit (cbb_base c)"
  shows "\<exists>c' k. f c = (True, c') \<and> CBB_finish c' = (Some d, k) \<and> CBB_flush k = (False, k)"
proof -
  have "room (cbb_base c) (length d)"
    using assms length_written [of "cbb_base c"] by (simp add: room_def quiet_def)
  then obtain c' where "f c = (True, c')" "appends c d c'" "quiet c'"
    using doesE [OF assms(1,2)] by blast
  moreover from this(3) obtain k where "CBB_finish c' = (Some (written (cbb_base c')), k)" "CBB_flush k = (False, k)"
    by (rule finish_written)
  ultimately show ?thesis using assms(3) by (auto simp: appends_def extends_def)
qed

locale writer_reader = codec enc dec ok
  for enc :: "'a \<Rightarrow> bytes" and dec ok +
  fixes wr :: "'a \<Rightarrow> cbb \<Rightarrow> bool \<times> cbb"
  assumes writes: "ok x \<Longrightarrow> does (wr x) (enc x)"
begin

lemma writes_all:
  "\<forall>x \<in> set xs. ok x \<Longrightarrow> does (write_all wr xs) (concat (map enc xs))"
  by (intro does_write_all) (auto intro: writes)

lemma finish_read:
  assumes "\<forall>x \<in> set xs. ok x" "quiet c" "written (cbb_base c) = []"
    and "length (concat (map enc xs)) \<le> limit (cbb_base c)"
  shows "\<exists>c' k out. write_all wr xs c = (True, c') \<and> CBB_finish c' = (Some out, k) \<and> CBB_flush k = (False, k) \<and>
    out = concat (map enc xs) \<and> read_n dec (length xs) out = (Some xs, [])"
  using does_finish [OF writes_all [OF assms(1)] assms(2-4)] read_n_concat [OF assms(1), of "[]"]
  by auto

lemma init_read:
  assumes "\<forall>x \<in> set xs. ok x" "CBB_init n grants fresh = Some c" "\<forall>m. grants m"
    and "length (concat (map enc xs)) < 2 ^ 64"
  shows "\<exists>c' k out. write_all wr xs c = (True, c') \<and> CBB_finish c' = (Some out, k) \<and> CBB_flush k = (False, k) \<and>
    out = concat (map enc xs) \<and> read_n dec (length xs) out = (Some xs, [])"
  using assms CBB_init_quiet [OF assms(2)] by (intro finish_read) simp_all

text \<open>Distinct lists of values are written as distinct bytes.\<close>

lemma same_output:
  assumes "\<forall>x \<in> set xs. ok x" "\<forall>y \<in> set ys. ok y" "length xs = length ys"
    and c: "quiet c" "written (cbb_base c) = []"
    and l: "length (concat (map enc xs)) \<le> limit (cbb_base c)" "length (concat (map enc ys)) \<le> limit (cbb_base c)"
    and out: "fst (CBB_finish (snd (write_all wr xs c))) = fst (CBB_finish (snd (write_all wr ys c)))"
  shows "xs = ys"
proof -
  have "concat (map enc xs) = concat (map enc ys)"
    using does_finish [OF writes_all [OF assms(1)] c l(1)] does_finish [OF writes_all [OF assms(2)] c l(2)] out
    by auto
  then show ?thesis using concat_inj [OF assms(3,1,2), of "[]" "[]"] by simp
qed

end

section \<open>The operations of the code\<close>

interpretation rw_u8: writer_reader "\<lambda>v. [v]" CBS_get_u8 "\<lambda>_. True" CBB_add_u8
  by unfold_locales (intro does_intros)

interpretation rw_u16: writer_reader "\<lambda>v. be_bytes 2 (unat v)" CBS_get_u16 "\<lambda>_. True" CBB_add_u16
  by unfold_locales (intro does_intros)

interpretation rw_u24:
  writer_reader "\<lambda>v. be_bytes 3 (unat v)" CBS_get_u24 "\<lambda>v. unat v < 2 ^ 24" CBB_add_u24
  by unfold_locales (intro does_intros)

interpretation rw_u32: writer_reader "\<lambda>v. be_bytes 4 (unat v)" CBS_get_u32 "\<lambda>_. True" CBB_add_u32
  by unfold_locales (intro does_intros)

interpretation rw_u64: writer_reader "\<lambda>v. be_bytes 8 (unat v)" CBS_get_u64 "\<lambda>_. True" CBB_add_u64
  by unfold_locales (intro does_intros)

interpretation rw_u16le: writer_reader "\<lambda>v. le_bytes 2 (unat v)" CBS_get_u16le "\<lambda>_. True" CBB_add_u16le
  by unfold_locales (intro does_intros)

interpretation rw_u32le: writer_reader "\<lambda>v. le_bytes 4 (unat v)" CBS_get_u32le "\<lambda>_. True" CBB_add_u32le
  by unfold_locales (intro does_intros)

interpretation rw_u64le: writer_reader "\<lambda>v. le_bytes 8 (unat v)" CBS_get_u64le "\<lambda>_. True" CBB_add_u64le
  by unfold_locales (intro does_intros)

text \<open>A string under a length prefix, as a caller writes it: open, add the bytes, flush.\<close>

lemma does_prefixed:
  "length d < 256 \<Longrightarrow> does (in_child CBB_add_u8_length_prefixed (CBB_add_bytes d)) (prefixed 1 d)"
  "length d < 65536 \<Longrightarrow> does (in_child CBB_add_u16_length_prefixed (CBB_add_bytes d)) (prefixed 2 d)"
  "length d < 16777216 \<Longrightarrow> does (in_child CBB_add_u24_length_prefixed (CBB_add_bytes d)) (prefixed 3 d)"
  using does_length_prefixed [OF does_add_bytes, of 1 d] does_length_prefixed [OF does_add_bytes, of 2 d]
    does_length_prefixed [OF does_add_bytes, of 3 d]
  by (simp_all add: CBB_add_u8_length_prefixed_def [abs_def] CBB_add_u16_length_prefixed_def [abs_def]
      CBB_add_u24_length_prefixed_def [abs_def])

interpretation rw_u8_prefixed:
  writer_reader "prefixed 1" CBS_get_u8_length_prefixed "\<lambda>d. length d < 256"
    "\<lambda>d. in_child CBB_add_u8_length_prefixed (CBB_add_bytes d)"
  by unfold_locales (rule does_prefixed)

interpretation rw_u16_prefixed:
  writer_reader "prefixed 2" CBS_get_u16_length_prefixed "\<lambda>d. length d < 65536"
    "\<lambda>d. in_child CBB_add_u16_length_prefixed (CBB_add_bytes d)"
  by unfold_locales (rule does_prefixed)

interpretation rw_u24_prefixed:
  writer_reader "prefixed 3" CBS_get_u24_length_prefixed "\<lambda>d. length d < 16777216"
    "\<lambda>d. in_child CBB_add_u24_length_prefixed (CBB_add_bytes d)"
  by unfold_locales (rule does_prefixed)

text \<open>
  An ASN.1 element of any tag. The reader takes contents of one byte more than the
  writer allows, so the domain is the writer's.
\<close>

interpretation rw_element:
  writer_reader "der_element t" "CBS_get_asn1 t" "\<lambda>d. length d \<le> 0xfffffffe"
    "\<lambda>d. in_child (CBB_add_asn1 t) (CBB_add_bytes d)" for t
proof unfold_locales
  fix d :: bytes and r
  assume "length d \<le> 0xfffffffe"
  then show "CBS_get_asn1 t (der_element t d @ r) = (Some d, r)" by (intro der.dec_enc) simp
qed (rule does_asn1 [OF does_add_bytes])

interpretation rw_uint64:
  writer_reader "\<lambda>v. der_element CBS_ASN1_INTEGER (uint_content (unat v))" CBS_get_asn1_uint64
    "\<lambda>_. True" CBB_add_asn1_uint64
  by unfold_locales (rule does_asn1_uint64)

interpretation rw_int64:
  writer_reader "\<lambda>v. der_element CBS_ASN1_INTEGER (int_content v)" CBS_get_asn1_int64
    "\<lambda>_. True" CBB_add_asn1_int64
  by unfold_locales (rule does_asn1_int64)

interpretation rw_bool:
  writer_reader "\<lambda>v. der_element CBS_ASN1_BOOLEAN [if v then 0xff else 0]" CBS_get_asn1_bool
    "\<lambda>_. True" CBB_add_asn1_bool
  by unfold_locales (rule does_asn1_bool)

end
