(* ===== verification/Comparison.thy ===== *)
theory Comparison
  imports Prelude "HOL-Library.Multiset"
begin

text \<open>
  The contract between the code that sorts or searches and the comparison functions
  it is given: the sign of the result is a total preorder. What C's \<open>qsort\<close> promises
  of its output is \<open>qsorted\<close>; it leaves the order of elements that compare equal open,
  so a client may rely on the result only where equal means identical.
\<close>

fun find_from :: "('e \<Rightarrow> bool) \<Rightarrow> 'e list \<Rightarrow> nat \<Rightarrow> nat \<Rightarrow> nat option" where
  \<comment> \<open>a linear search: the first of the \<open>n\<close> slots from \<open>i\<close> on that satisfies the test\<close>
  "find_from P d i 0 = None"
| "find_from P d i (Suc n) = (if P (d ! i) then Some i else find_from P d (Suc i) n)"

function bsearch_first :: "('e \<Rightarrow> int) \<Rightarrow> 'e list \<Rightarrow> nat \<Rightarrow> nat \<Rightarrow> nat option" where
  \<comment> \<open>a binary search for the earliest match, biased towards \<open>lo\<close>; the first argument
    compares the key with an element\<close>
  "bsearch_first cmp d lo hi =
     (if lo < hi
      then let mid = lo + (hi - lo - 1) div 2; r = cmp (d ! mid)
           in if r > 0 then bsearch_first cmp d (mid + 1) hi
              else if r < 0 then bsearch_first cmp d lo mid
              else if hi - lo = 1 then Some mid
              else bsearch_first cmp d lo (mid + 1)
      else None)"
  by pat_completeness auto
termination
proof (relation "measure (\<lambda>(_, _, lo, hi). hi - lo)")
  fix cmp :: "'e \<Rightarrow> int" and d :: "'e list" and lo hi mid :: nat and r :: int
  assume lo: "lo < hi" and mid: "mid = lo + (hi - lo - 1) div 2"
  from lo mid show "((cmp, d, mid + 1, hi), cmp, d, lo, hi) \<in> measure (\<lambda>(_, _, lo, hi). hi - lo)"
    by auto
  from lo mid show "((cmp, d, lo, mid), cmp, d, lo, hi) \<in> measure (\<lambda>(_, _, lo, hi). hi - lo)"
    by auto
  assume "hi - lo \<noteq> 1"
  with lo mid show "((cmp, d, lo, mid + 1), cmp, d, lo, hi) \<in> measure (\<lambda>(_, _, lo, hi). hi - lo)"
    by auto
qed simp

declare bsearch_first.simps [simp del]

lemma find_from_split:
  "find_from P d i (m + n) =
     (case find_from P d i m of Some k \<Rightarrow> Some k | None \<Rightarrow> find_from P d (i + m) n)"
  by (induction m arbitrary: i) (simp_all split: option.splits)

lemma le_split: "i \<le> j \<longleftrightarrow> j = i \<or> Suc i \<le> j" for i j :: nat
  by auto

lemma find_from_None: "find_from P d i n = None \<longleftrightarrow> (\<forall>j. i \<le> j \<and> j < i + n \<longrightarrow> \<not> P (d ! j))"
proof (induction n arbitrary: i)
  case (Suc n)
  have "(\<forall>j. i \<le> j \<and> j < i + Suc n \<longrightarrow> \<not> P (d ! j)) \<longleftrightarrow>
      \<not> P (d ! i) \<and> (\<forall>j. Suc i \<le> j \<and> j < Suc i + n \<longrightarrow> \<not> P (d ! j))"
    unfolding le_split [of i] by auto
  with Suc [of "Suc i"] show ?case by simp
qed auto

lemma find_from_Some:
  "find_from P d i n = Some k \<longleftrightarrow>
     i \<le> k \<and> k < i + n \<and> P (d ! k) \<and> (\<forall>j. i \<le> j \<and> j < k \<longrightarrow> \<not> P (d ! j))"
proof (induction n arbitrary: i)
  case (Suc n)
  show ?case
  proof (cases "P (d ! i)")
    case True
    then show ?thesis by (auto simp: le_less)
  next
    case False
    then have "(\<forall>j. i \<le> j \<and> j < k \<longrightarrow> \<not> P (d ! j)) \<longleftrightarrow> (\<forall>j. Suc i \<le> j \<and> j < k \<longrightarrow> \<not> P (d ! j))"
      unfolding le_split [of i] by auto
    moreover have "i \<le> k \<and> P (d ! k) \<longleftrightarrow> Suc i \<le> k \<and> P (d ! k)"
      using False unfolding le_split [of i] by auto
    ultimately show ?thesis using False Suc [of "Suc i"] by auto
  qed
qed simp

lemma find_from_cong:
  "(\<And>j. i \<le> j \<Longrightarrow> j < i + n \<Longrightarrow> d ! j = e ! j) \<Longrightarrow> find_from P d i n = find_from P e i n"
  by (induction n arbitrary: i) simp_all

text \<open>Where the sign of the comparison falls along the range, the two searches agree.\<close>

lemma bsearch_first_eq:
  assumes "\<And>i j. lo \<le> i \<Longrightarrow> i < j \<Longrightarrow> j < hi \<Longrightarrow> cmp (d ! i) \<le> 0 \<Longrightarrow> cmp (d ! j) \<le> 0"
    and "\<And>i j. lo \<le> i \<Longrightarrow> i < j \<Longrightarrow> j < hi \<Longrightarrow> cmp (d ! i) < 0 \<Longrightarrow> cmp (d ! j) < 0"
  shows "bsearch_first cmp d lo hi = find_from (\<lambda>x. cmp x = 0) d lo (hi - lo)"
  using assms
proof (induction cmp d lo hi rule: bsearch_first.induct)
  case (1 cmp d lo hi)
  let ?P = "\<lambda>x. cmp x = 0"
  show ?case
  proof (cases "lo < hi")
    case False
    then show ?thesis by (simp add: bsearch_first.simps)
  next
    case True
    define mid where "mid = lo + (hi - lo - 1) div 2"
    have mid: "lo \<le> mid" "mid < hi" using True by (auto simp: mid_def)
    have step: "bsearch_first cmp d lo hi =
        (if cmp (d ! mid) > 0 then bsearch_first cmp d (mid + 1) hi
         else if cmp (d ! mid) < 0 then bsearch_first cmp d lo mid
         else if hi - lo = 1 then Some mid
         else bsearch_first cmp d lo (mid + 1))"
      using True by (subst bsearch_first.simps) (simp add: mid_def Let_def)
    have up: "cmp (d ! i) \<le> 0 \<Longrightarrow> cmp (d ! j) \<le> 0" "cmp (d ! i) < 0 \<Longrightarrow> cmp (d ! j) < 0"
      if "mid + 1 \<le> i" "i < j" "j < hi" for i j
      using 1(4) [of i j] 1(5) [of i j] mid that by simp_all
    have down: "cmp (d ! i) \<le> 0 \<Longrightarrow> cmp (d ! j) \<le> 0" "cmp (d ! i) < 0 \<Longrightarrow> cmp (d ! j) < 0"
      if "lo \<le> i" "i < j" "j < mid + 1" for i j
      using 1(4) [of i j] 1(5) [of i j] mid that by simp_all
    note IH = 1(1-3) [OF True mid_def refl]
    consider (gt) "cmp (d ! mid) > 0" | (less) "cmp (d ! mid) < 0" | (eq) "cmp (d ! mid) = 0" by linarith
    then show ?thesis
    proof cases
      case gt
      have "?P (d ! j) \<Longrightarrow> \<not> (lo \<le> j \<and> j < lo + (mid + 1 - lo))" for j
        using gt mid 1(4) [of j mid] by (cases "j = mid") auto
      then have "find_from ?P d lo (mid + 1 - lo) = None" unfolding find_from_None by blast
      moreover have "hi - lo = (mid + 1 - lo) + (hi - (mid + 1))" using mid by simp
      moreover have "lo + (mid + 1 - lo) = mid + 1" using mid by simp
      ultimately have "find_from ?P d lo (hi - lo) = find_from ?P d (mid + 1) (hi - (mid + 1))"
        by (simp only: find_from_split) simp
      moreover have "bsearch_first cmp d (mid + 1) hi = find_from ?P d (mid + 1) (hi - (mid + 1))"
        using gt by (intro IH(1)) (simp, (rule up; assumption)+)
      ultimately show ?thesis using gt step by simp
    next
      case less
      have "?P (d ! j) \<Longrightarrow> \<not> (mid \<le> j \<and> j < mid + (hi - mid))" for j
        using less mid 1(5) [of mid j] by (cases "j = mid") auto
      then have "find_from ?P d mid (hi - mid) = None" unfolding find_from_None by blast
      moreover have "hi - lo = (mid - lo) + (hi - mid)" "lo + (mid - lo) = mid" using mid by simp_all
      ultimately have "find_from ?P d lo (hi - lo) = find_from ?P d lo (mid - lo)"
        by (simp only: find_from_split) (simp split: option.splits)
      moreover have "bsearch_first cmp d lo mid = find_from ?P d lo (mid - lo)"
        using less by (intro IH(2)) (simp, simp, (rule down; simp)+)
      ultimately show ?thesis using less step by simp
    next
      case eq
      have ne: "find_from ?P d lo (mid + 1 - lo) \<noteq> None"
        unfolding find_from_None using eq mid by auto
      have h: "hi - lo = (mid + 1 - lo) + (hi - (mid + 1))" using mid by simp
      have whole: "find_from ?P d lo (hi - lo) = find_from ?P d lo (mid + 1 - lo)"
        unfolding h find_from_split using ne by (auto split: option.splits)
      show ?thesis
      proof (cases "hi - lo = 1")
        case one: True
        then have "mid = lo" by (simp add: mid_def)
        with one eq step show ?thesis by simp
      next
        case False
        have "bsearch_first cmp d lo (mid + 1) = find_from ?P d lo (mid + 1 - lo)"
          using eq False by (intro IH(3)) (simp, simp, simp, (rule down; assumption)+)
        with eq False step whole show ?thesis by simp
      qed
    qed
  qed
qed

locale comparison =
  fixes cmp :: "'e \<Rightarrow> 'e \<Rightarrow> int"
  assumes swap: "cmp x y < 0 \<longleftrightarrow> cmp y x > 0"
    and trans: "cmp x y \<le> 0 \<Longrightarrow> cmp y z \<le> 0 \<Longrightarrow> cmp x z \<le> 0"
begin

definition ordered :: "'e list \<Rightarrow> bool" where
  "ordered = sorted_wrt (\<lambda>x y. cmp x y \<le> 0)"

lemma swap_le: "cmp x y \<ge> 0 \<longleftrightarrow> cmp y x \<le> 0"
  using swap [of x y] by linarith

lemma cmp_refl: "cmp x x = 0"
  using swap [of x x] by linarith

text \<open>An element may be replaced by one that fits between its neighbours, and by no other.\<close>

lemma ordered_update:
  assumes "ordered xs" "i < length xs"
  shows "ordered (xs[i := v]) \<longleftrightarrow>
    (0 < i \<longrightarrow> cmp (xs ! (i - 1)) v \<le> 0) \<and> (i + 1 < length xs \<longrightarrow> cmp v (xs ! (i + 1)) \<le> 0)"
proof
  assume "ordered (xs[i := v])"
  then have le: "cmp (xs[i := v] ! a) (xs[i := v] ! b) \<le> 0" if "a < b" "b < length xs" for a b
    using that by (simp add: ordered_def sorted_wrt_iff_nth_less)
  show "(0 < i \<longrightarrow> cmp (xs ! (i - 1)) v \<le> 0) \<and> (i + 1 < length xs \<longrightarrow> cmp v (xs ! (i + 1)) \<le> 0)"
    using le [of "i - 1" i] le [of i "i + 1"] assms(2) by simp
next
  assume fits: "(0 < i \<longrightarrow> cmp (xs ! (i - 1)) v \<le> 0) \<and> (i + 1 < length xs \<longrightarrow> cmp v (xs ! (i + 1)) \<le> 0)"
  have le: "cmp (xs ! a) (xs ! b) \<le> 0" if "a \<le> b" "b < length xs" for a b
    using assms(1) that cmp_refl by (cases "a = b") (simp_all add: ordered_def sorted_wrt_iff_nth_less)
  have "cmp (xs[i := v] ! a) (xs[i := v] ! b) \<le> 0" if "a < b" "b < length xs" for a b
  proof -
    have "cmp (xs ! a) v \<le> 0" if "b = i" using fits le [of a "i - 1"] trans [of "xs ! a" "xs ! (i - 1)" v] \<open>a < b\<close> assms(2) that by simp
    moreover have "cmp v (xs ! b) \<le> 0" if "a = i"
      using fits le [of "i + 1" b] trans [of v "xs ! (i + 1)" "xs ! b"] \<open>a < b\<close> \<open>b < length xs\<close> that by simp
    ultimately show ?thesis using le [of a b] that assms(2) by (auto simp: nth_list_update)
  qed
  then show "ordered (xs[i := v])" by (simp add: ordered_def sorted_wrt_iff_nth_less)
qed

text \<open>Only the sign matters, and elements may be compared by a part of them.\<close>

lemma sign_image:
  assumes "\<And>x y. sgn (cmp' x y) = sgn (cmp (f x) (f y))"
  shows "comparison cmp'"
proof -
  have rel: "cmp' x y < 0 \<longleftrightarrow> cmp (f x) (f y) < 0" "cmp' x y > 0 \<longleftrightarrow> cmp (f x) (f y) > 0"
    "cmp' x y \<le> 0 \<longleftrightarrow> cmp (f x) (f y) \<le> 0" for x y
    using assms [of x y] by (auto simp: sgn_if split: if_splits)
  show ?thesis
  proof
    show "cmp' x y < 0 \<longleftrightarrow> cmp' y x > 0" for x y
      unfolding rel by (rule swap)
    show "cmp' x z \<le> 0" if "cmp' x y \<le> 0" "cmp' y z \<le> 0" for x y z
      using that unfolding rel by (rule trans)
  qed
qed

lemma falls:
  assumes "ordered xs" "i < j" "j < length xs"
  shows "cmp p (xs ! i) \<le> 0 \<Longrightarrow> cmp p (xs ! j) \<le> 0" "cmp p (xs ! i) < 0 \<Longrightarrow> cmp p (xs ! j) < 0"
proof -
  have le: "cmp (xs ! i) (xs ! j) \<le> 0"
    using assms by (simp add: ordered_def sorted_wrt_iff_nth_less)
  then show "cmp p (xs ! i) \<le> 0 \<Longrightarrow> cmp p (xs ! j) \<le> 0" using trans by blast
  show "cmp p (xs ! j) < 0" if "cmp p (xs ! i) < 0"
  proof (rule ccontr)
    assume "\<not> cmp p (xs ! j) < 0"
    then have "cmp (xs ! j) p \<le> 0" using swap_le [of p "xs ! j"] by linarith
    with le have "cmp (xs ! i) p \<le> 0" using trans by blast
    with that swap show False by force
  qed
qed

text \<open>On a sorted range the binary search is the linear one.\<close>

lemma bsearch_ordered:
  assumes "ordered (take n d)" "n \<le> length d"
  shows "bsearch_first (cmp p) d 0 n = find_from (\<lambda>x. cmp p x = 0) d 0 n"
  using assms falls [OF assms(1), where p = p] by (subst bsearch_first_eq) simp_all

end

text \<open>Comparisons where equal means identical have one sorted arrangement of each multiset.\<close>

locale strict_comparison = comparison +
  assumes eq: "cmp x y = 0 \<Longrightarrow> x = y"
begin

lemma ordered_unique: "mset xs = mset ys \<Longrightarrow> ordered xs \<Longrightarrow> ordered ys \<Longrightarrow> xs = ys"
proof (induction xs arbitrary: ys)
  case (Cons x xs)
  then obtain y ys' where ys: "ys = y # ys'" by (cases ys) auto
  have "x \<in> set ys" "y \<in> set (x # xs)"
    using Cons.prems(1) ys by (metis list.set_intros(1) mset_eq_setD)+
  then have "x = y \<or> cmp x y \<le> 0 \<and> cmp y x \<le> 0"
    using Cons.prems(2,3) ys by (auto simp: ordered_def)
  then have "x = y" using swap_le [of x y] eq [of x y] by auto
  with Cons ys show ?case by (simp add: ordered_def)
qed simp

end

definition qsorted :: "('e \<Rightarrow> 'e \<Rightarrow> int) \<Rightarrow> ('e list \<Rightarrow> 'e list) \<Rightarrow> bool" where
  "qsorted cmp qs \<longleftrightarrow> (\<forall>xs. mset (qs xs) = mset xs \<and> sorted_wrt (\<lambda>x y. cmp x y \<le> 0) (qs xs))"

text \<open>Insertion sort keeps the promise, for every comparison.\<close>

fun insert_by :: "('e \<Rightarrow> 'e \<Rightarrow> int) \<Rightarrow> 'e \<Rightarrow> 'e list \<Rightarrow> 'e list" where
  "insert_by cmp x [] = [x]"
| "insert_by cmp x (y # ys) = (if cmp x y \<le> 0 then x # y # ys else y # insert_by cmp x ys)"

definition isort :: "('e \<Rightarrow> 'e \<Rightarrow> int) \<Rightarrow> 'e list \<Rightarrow> 'e list" where
  "isort cmp xs = foldr (insert_by cmp) xs []"

lemma mset_insert_by [simp]: "mset (insert_by cmp x ys) = add_mset x (mset ys)"
  by (induction ys) auto

lemma mset_isort: "mset (isort cmp xs) = mset xs"
  by (induction xs) (simp_all add: isort_def)

lemma set_insert_by [simp]: "set (insert_by cmp x ys) = insert x (set ys)"
  by (induction ys) auto

context comparison
begin

lemma ordered_insert_by: "ordered ys \<Longrightarrow> ordered (insert_by cmp x ys)"
proof (induction ys)
  case (Cons y ys)
  have "cmp y x \<le> 0" if "\<not> cmp x y \<le> 0" using swap [of y x] that by simp
  with Cons trans [of x y] show ?case by (auto simp: ordered_def)
qed (simp add: ordered_def)

lemma isort_qsorted: "qsorted cmp (isort cmp)"
proof -
  have "ordered (isort cmp xs)" for xs
    by (induction xs) (auto simp: isort_def ordered_insert_by, simp add: ordered_def)
  then show ?thesis by (simp add: qsorted_def mset_isort ordered_def)
qed

end

end
