(* ===== verification/Set_Of.thy ===== *)
theory Set_Of
  imports Cbb_Cbs Comparison
begin

text \<open>
  The sorting of a SET OF (\<open>CBB_flush_asn1_set_of\<close> of \<open>cbb.c\<close>). \<open>memcmp\<close> compares by
  the first byte that differs; \<open>qsort\<close> and the success of the two allocations are
  parameters. The order of the code is an interpretation of \<open>strict_comparison\<close>, so
  the result does not depend on how \<open>qsort\<close> treats equal elements.
\<close>

definition compare_set_of_element :: "bytes \<Rightarrow> bytes \<Rightarrow> int" where
  "compare_set_of_element a b =
     (let a_len = length a; b_len = length b;
          min_len = (if a_len < b_len then a_len else b_len);
          ret = OPENSSL_memcmp a b min_len
      in if ret \<noteq> 0 then ret
         else if a_len = b_len then 0
         else if a_len < b_len then -1 else 1)"

lemma der_element_Nil [simp]: "der_element t d \<noteq> []"
  using length_der_tag(1) [of t] by (auto simp: der_element_def der_header_def)

lemma any_element_length:
  "CBS_get_any_asn1_element c = (Some e, r) \<Longrightarrow> length r < length c"
  by (auto simp: any_asn1_element_iff)

function set_of_children :: "bytes \<Rightarrow> bytes list option" where
  \<comment> \<open>the two loops over the contents: the children, or nothing where one does not parse\<close>
  "set_of_children cbs =
     (if length cbs \<noteq> 0
      then (case CBS_get_any_asn1_element cbs of
              (None, _) \<Rightarrow> None
            | (Some e, cbs') \<Rightarrow> map_option (\<lambda>es. el_out e # es) (set_of_children cbs'))
      else Some [])"
  by pat_completeness auto
termination
  by (relation "measure length") (auto dest: any_element_length [OF sym])

declare set_of_children.simps [simp del]

definition CBB_flush_asn1_set_of ::
  "bool \<Rightarrow> bool \<Rightarrow> (bytes list \<Rightarrow> bytes list) \<Rightarrow> cbb \<Rightarrow> bool \<times> cbb" where
  "CBB_flush_asn1_set_of memdup_ok malloc_ok qsort cbb =
     and_also (CBB_flush cbb) (\<lambda>cbb.
       let contents = take (unat (CBB_len cbb)) (CBB_data cbb)
       in case set_of_children contents of
            None \<Rightarrow> (False, cbb)
          | Some children \<Rightarrow>
              let num_children = length children
              in if num_children < 2 then (True, cbb)
                 else if num_children > (2 ^ 64 - 1) div 16 then (False, cbb)
                 else if \<not> memdup_ok \<or> \<not> malloc_ok then (False, cbb)
                 else write_all CBB_add_bytes (qsort children)
                        (cbb\<lparr>cbb_base := (cbb_base cbb)\<lparr>b_len := cbb_start cbb\<rparr>\<rparr>))"

section \<open>The order\<close>

fun lex_cmp :: "bytes \<Rightarrow> bytes \<Rightarrow> int" where
  "lex_cmp [] [] = 0"
| "lex_cmp [] (b # bs) = -1"
| "lex_cmp (a # as) [] = 1"
| "lex_cmp (a # as) (b # bs) = (if a = b then lex_cmp as bs else uint a - uint b)"

lemma compare_set_of_element_eq: "compare_set_of_element a b = lex_cmp a b"
proof (induction a b rule: lex_cmp.induct)
  case (4 a as b bs)
  have ne: "a \<noteq> b \<Longrightarrow> uint a - uint b \<noteq> 0" by (simp add: word_uint_eq_iff)
  show ?case
  proof (cases "a = b")
    case True
    have "compare_set_of_element (b # as) (b # bs) = compare_set_of_element as bs"
      by (auto simp: compare_set_of_element_def OPENSSL_memcmp_def Let_def)
    with True 4 show ?thesis by simp
  next
    case False
    then show ?thesis
      using ne by (auto simp: compare_set_of_element_def OPENSSL_memcmp_def Let_def)
  qed
qed (simp_all add: compare_set_of_element_def OPENSSL_memcmp_def Let_def)

lemma lex_cmp_swap: "lex_cmp a b < 0 \<longleftrightarrow> lex_cmp b a > 0"
  by (induction a b rule: lex_cmp.induct) auto

lemma lex_cmp_eq: "lex_cmp a b = 0 \<Longrightarrow> a = b"
  by (induction a b rule: lex_cmp.induct) (auto simp: word_uint_eq_iff split: if_splits)

lemma lex_cmp_trans: "lex_cmp a b \<le> 0 \<Longrightarrow> lex_cmp b c \<le> 0 \<Longrightarrow> lex_cmp a c \<le> 0"
proof (induction a c arbitrary: b rule: lex_cmp.induct)
  case (4 a as c cs)
  obtain b bs where b: "b = (b :: byte)" "lex_cmp (a # as) (b # bs) \<le> 0" "lex_cmp (b # bs) (c # cs) \<le> 0"
    using 4(2,3) by (cases b) auto
  show ?case
  proof (cases "a = b \<and> b = c")
    case True
    with b 4(1) [of bs] show ?thesis by simp
  next
    case False
    then have "uint a < uint c"
      using b(2,3) by (auto simp: word_uint_eq_iff split: if_splits)
    then show ?thesis by auto
  qed
next
  case (3 a as)
  then show ?case by (cases b) auto
qed simp_all

interpretation set_of: strict_comparison compare_set_of_element
  by unfold_locales (simp_all add: compare_set_of_element_eq lex_cmp_swap lex_cmp_trans lex_cmp_eq)

text \<open>No DER encoding is a proper prefix of another, as the comment in the code says.\<close>

lemma element_not_prefix:
  assumes "length d < 2 ^ 32" "length e < 2 ^ 32" "prefix (der_element t d) (der_element u e)"
  shows "der_element t d = der_element u e"
proof -
  obtain r where "der_element u e = der_element t d @ r" using assms(3) by (auto simp: prefix_def)
  then have "(\<lambda>(d, t). der_element t d) (e, u) @ [] = (\<lambda>(d, t). der_element t d) (d, t) @ r" by simp
  then show ?thesis using der_any.prefix_free [of "(e, u)" "(d, t)" "[]" r] assms by auto
qed

section \<open>The contents\<close>

definition der_elements :: "bytes list \<Rightarrow> bool" where
  "der_elements es \<longleftrightarrow> (\<forall>e \<in> set es. \<exists>t d. length d < 2 ^ 32 \<and> e = der_element t d)"

lemma set_of_children_iff: "set_of_children c = Some es \<longleftrightarrow> der_elements es \<and> c = concat es"
proof (induction c arbitrary: es rule: set_of_children.induct)
  case (1 c)
  show ?case
  proof (cases "c = []")
    case True
    have "\<not> (der_elements es \<and> c = concat es)" if "es = e # fs" for e fs
    proof
      assume "der_elements es \<and> c = concat es"
      then have d: "der_elements (e # fs)" and e: "[] = concat (e # fs)" unfolding that True by blast+
      from d obtain t x where "e = der_element t x"
        unfolding der_elements_def by (meson list.set_intros(1))
      moreover have "e = []" using e by simp
      ultimately show False using der_element_Nil by metis
    qed
    then have "der_elements es \<and> c = concat es \<longleftrightarrow> es = []"
      using True by (cases es) (auto simp: der_elements_def)
    with True show ?thesis by (subst set_of_children.simps) auto
  next
    case False
    have IH: "set_of_children r = Some fs \<longleftrightarrow> der_elements fs \<and> r = concat fs"
      if "CBS_get_any_asn1_element c = (Some e, r)" for e r fs
      by (rule 1 [OF _ that [symmetric] refl]) (use False in simp)
    have "set_of_children c = Some es \<longleftrightarrow>
        (\<exists>e r fs. CBS_get_any_asn1_element c = (Some e, r) \<and> set_of_children r = Some fs \<and> es = el_out e # fs)"
      using False by (subst set_of_children.simps) (auto split: prod.splits option.splits)
    also have "\<dots> \<longleftrightarrow> (\<exists>r fs. (\<exists>e. CBS_get_any_asn1_element c = (Some e, r) \<and> es = el_out e # fs) \<and>
        der_elements fs \<and> r = concat fs)"
      using IH by blast
    also have "\<dots> \<longleftrightarrow> (\<exists>t d fs. length d < 2 ^ 32 \<and> c = der_element t d @ concat fs \<and> der_elements fs \<and>
        es = der_element t d # fs)"
      unfolding ex_element by auto
    also have "\<dots> \<longleftrightarrow> der_elements es \<and> c = concat es"
      using False by (cases es) (auto simp: der_elements_def)
    finally show ?thesis .
  qed
qed

text \<open>What the builder has written since its own prefix.\<close>

definition contents :: "cbb \<Rightarrow> bytes" where
  "contents c = drop (unat (cbb_start c)) (written (cbb_base c))"

definition started :: "cbb \<Rightarrow> bool" where
  "started c \<longleftrightarrow> unat (cbb_offset c) + unat (cbb_pending_len_len c) \<le> unat (b_len (cbb_base c))"

lemma started_len:
  assumes "started c"
  shows "unat (cbb_start c) = unat (cbb_offset c) + unat (cbb_pending_len_len c)"
    and "unat (CBB_len c) = unat (b_len (cbb_base c)) - unat (cbb_start c)"
    and "unat (cbb_start c) \<le> unat (b_len (cbb_base c))"
proof -
  show s: "unat (cbb_start c) = unat (cbb_offset c) + unat (cbb_pending_len_len c)"
    using assms unat_less_pow(3) [of "b_len (cbb_base c)"]
    by (simp add: started_def cbb_start_def unat_plus_if')
  then show le: "unat (cbb_start c) \<le> unat (b_len (cbb_base c))" using assms by (simp add: started_def)
  have "CBB_len c = b_len (cbb_base c) - cbb_start c" by (simp add: CBB_len_def cbb_start_def)
  then show "unat (CBB_len c) = unat (b_len (cbb_base c)) - unat (cbb_start c)"
    using le by (simp add: unat_sub_if_size)
qed

lemma contents_data:
  "started c \<Longrightarrow> take (unat (CBB_len c)) (CBB_data c) = contents c"
  by (simp add: started_len(2) CBB_data_def contents_def written_def drop_take)

lemma mset_length_concat: "mset xs = mset ys \<Longrightarrow> length (concat xs) = length (concat ys)"
  by (metis length_concat mset_map sum_mset_sum_list)

lemma flush_set_of:
  assumes c: "quiet c" "started c" and es: "contents c = concat es" "der_elements es"
    and len: "length es \<le> (2 ^ 64 - 1) div 16" and qs: "qsorted compare_set_of_element qs"
  shows "\<exists>c'. CBB_flush_asn1_set_of True True qs c = (True, c') \<and>
    appends (c\<lparr>cbb_base := (cbb_base c)\<lparr>b_len := cbb_start c\<rparr>\<rparr>) (concat (qs es)) c'"
proof -
  have ch: "set_of_children (take (unat (CBB_len c)) (CBB_data c)) = Some es"
    unfolding contents_data [OF c(2)] using es by (simp add: set_of_children_iff)
  have perm: "mset (qs es) = mset es" "set_of.ordered (qs es)"
    using qs by (simp_all add: qsorted_def set_of.ordered_def)
  let ?b = "cbb_base c" and ?c = "c\<lparr>cbb_base := (cbb_base c)\<lparr>b_len := cbb_start c\<rparr>\<rparr>"
  note st = started_len [OF c(2)]
  have ok: "buffer_ok ?b" "\<not> b_error ?b" "cbb_below c = []" "\<not> cbb_null c" using c(1) by (simp_all add: quiet_def)
  have q: "quiet ?c" using ok st(3) by (simp add: quiet_def buffer_ok_def)
  have clen: "length (concat (qs es)) = unat (b_len ?b) - unat (cbb_start c)"
  proof -
    have "length (concat (qs es)) = length (concat es)"
      using perm(1) by (rule mset_length_concat)
    also have "\<dots> = unat (b_len ?b) - unat (cbb_start c)"
      unfolding es(1) [symmetric] contents_def length_drop length_written [OF ok(1)] ..
    finally show ?thesis .
  qed
  have room: "room (cbb_base ?c) (length (concat (qs es)))"
  proof -
    have "unat (b_len ?b) \<le> limit ?b"
      using ok(1) unat_less_pow(3) [of "b_len ?b"] by (auto simp: limit_def buffer_ok_def)
    then show ?thesis using clen st(3) by (simp add: room_def)
  qed
  show ?thesis
  proof (cases "length es < 2")
    case True
    then have "es = [] \<or> (\<exists>x. es = [x])" by (cases es) auto
    then have "qs es = es" using perm(1) by (elim disjE exE) (simp_all add: mset_single_iff)
    then have w: "written ?b = take (unat (cbb_start c)) (written ?b) @ concat (qs es)"
      using es(1) by (metis append_take_drop_id contents_def)
    have "written (cbb_base ?c) = take (unat (cbb_start c)) (written ?b)"
      using st(3) by (simp add: written_def min_def)
    then have "appends ?c (concat (qs es)) c"
      using w ok by (simp add: appends_def extends_def)
    moreover have "CBB_flush_asn1_set_of True True qs c = (True, c)"
      using True c(1) ch by (simp add: CBB_flush_asn1_set_of_def Let_def)
    ultimately show ?thesis by blast
  next
    case False
    have "does (write_all CBB_add_bytes (qs es)) (concat (qs es))"
      using does_write_all [of "qs es" CBB_add_bytes "\<lambda>x. x"] by (simp add: does_add_bytes)
    then obtain c' where "write_all CBB_add_bytes (qs es) ?c = (True, c')" "appends ?c (concat (qs es)) c'"
      using doesE [OF _ q room] by blast
    moreover have "CBB_flush_asn1_set_of True True qs c = write_all CBB_add_bytes (qs es) ?c"
      using False c(1) ch len by (simp add: CBB_flush_asn1_set_of_def Let_def)
    ultimately show ?thesis by simp
  qed
qed

end
