(* ===== verification/Unicode.thy ===== *)
theory Unicode
  imports Cbb_Cbs
begin

text \<open>
  Reading and writing code points (\<open>crypto/bytestring/unicode.c\<close>): UTF-8, Latin-1,
  UCS-2 and UTF-32. The specification of UTF-8 is RFC 3629's table on numbers; the
  reader accepts exactly the shortest form of the valid code points, and each pair of
  a reader and a writer is an interpretation of \<open>writer_reader\<close>.
\<close>

definition is_valid_code_point :: "u32 \<Rightarrow> bool" where
  "is_valid_code_point v =
     (if v > 0x10ffff \<or> v AND 0xfffe = 0xfffe \<or> (v \<ge> 0xfdd0 \<and> v \<le> 0xfdef) \<or>
         (v \<ge> 0xd800 \<and> v \<le> 0xdfff)
      then False else True)"

definition BOTTOM_BITS :: "nat \<Rightarrow> byte" where
  "BOTTOM_BITS n = ucast (push_bit n 1 - 1 :: u32)"

definition TOP_BITS :: "nat \<Rightarrow> byte" where
  "TOP_BITS n = NOT (BOTTOM_BITS (8 - n))"

fun utf8_continue :: "nat \<Rightarrow> u32 \<Rightarrow> u32 reader" where
  \<comment> \<open>the loop over the continuation bytes\<close>
  "utf8_continue 0 v cbs = (Some v, cbs)"
| "utf8_continue (Suc n) v cbs =
     and_then (CBS_get_u8 cbs) (\<lambda>c cbs.
       if c AND TOP_BITS 2 \<noteq> TOP_BITS 1 then (None, cbs)
       else utf8_continue n (push_bit 6 v OR ucast (c AND BOTTOM_BITS 6)) cbs)"

definition utf8_finish :: "nat \<Rightarrow> u32 \<Rightarrow> u32 \<Rightarrow> u32 reader" where
  \<comment> \<open>the loop and the checks after it\<close>
  "utf8_finish len v lower_bound cbs =
     and_then (utf8_continue len v cbs) (\<lambda>v cbs.
       if \<not> is_valid_code_point v \<or> v < lower_bound then (None, cbs) else (Some v, cbs))"

definition cbs_get_utf8 :: "u32 reader" where
  "cbs_get_utf8 cbs =
     and_then (CBS_get_u8 cbs) (\<lambda>c cbs.
       if c \<le> 0x7f then (Some (ucast c), cbs)
       else if c AND TOP_BITS 3 = TOP_BITS 2 then utf8_finish 1 (ucast (c AND BOTTOM_BITS 5)) 0x80 cbs
       else if c AND TOP_BITS 4 = TOP_BITS 3 then utf8_finish 2 (ucast (c AND BOTTOM_BITS 4)) 0x800 cbs
       else if c AND TOP_BITS 5 = TOP_BITS 4 then utf8_finish 3 (ucast (c AND BOTTOM_BITS 3)) 0x10000 cbs
       else (None, cbs))"

definition cbs_get_latin1 :: "u32 reader" where
  "cbs_get_latin1 cbs = and_then (CBS_get_u8 cbs) (\<lambda>c cbs. (Some (ucast c), cbs))"

definition cbs_get_ucs2_be :: "u32 reader" where
  "cbs_get_ucs2_be cbs =
     and_then (CBS_get_u16 cbs) (\<lambda>c cbs.
       if \<not> is_valid_code_point (ucast c) then (None, cbs) else (Some (ucast c), cbs))"

definition cbs_get_utf32_be :: "u32 reader" where
  "cbs_get_utf32_be cbs =
     and_then (CBS_get_u32 cbs) (\<lambda>v cbs. if is_valid_code_point v then (Some v, cbs) else (None, cbs))"

definition cbb_get_utf8_len :: "u32 \<Rightarrow> nat" where
  "cbb_get_utf8_len u = (if u \<le> 0x7f then 1 else if u \<le> 0x7ff then 2 else if u \<le> 0xffff then 3 else 4)"

definition cbb_add_utf8 :: "u32 \<Rightarrow> cbb \<Rightarrow> bool \<times> cbb" where
  "cbb_add_utf8 u cbb =
     (if \<not> is_valid_code_point u then (False, cbb)
      else if u \<le> 0x7f then CBB_add_u8 (ucast u) cbb
      else if u \<le> 0x7ff
      then and_also (CBB_add_u8 (ucast (ucast (TOP_BITS 2) OR drop_bit 6 u)) cbb)
             (CBB_add_u8 (ucast (ucast (TOP_BITS 1) OR (u AND ucast (BOTTOM_BITS 6)))))
      else if u \<le> 0xffff
      then and_also (CBB_add_u8 (ucast (ucast (TOP_BITS 3) OR drop_bit 12 u)) cbb) (\<lambda>cbb.
             and_also (CBB_add_u8 (ucast (ucast (TOP_BITS 1) OR (drop_bit 6 u AND ucast (BOTTOM_BITS 6)))) cbb)
               (CBB_add_u8 (ucast (ucast (TOP_BITS 1) OR (u AND ucast (BOTTOM_BITS 6))))))
      else if u \<le> 0x10ffff
      then and_also (CBB_add_u8 (ucast (ucast (TOP_BITS 4) OR drop_bit 18 u)) cbb) (\<lambda>cbb.
             and_also (CBB_add_u8 (ucast (ucast (TOP_BITS 1) OR (drop_bit 12 u AND ucast (BOTTOM_BITS 6)))) cbb) (\<lambda>cbb.
               and_also (CBB_add_u8 (ucast (ucast (TOP_BITS 1) OR (drop_bit 6 u AND ucast (BOTTOM_BITS 6)))) cbb)
                 (CBB_add_u8 (ucast (ucast (TOP_BITS 1) OR (u AND ucast (BOTTOM_BITS 6)))))))
      else (False, cbb))"

definition cbb_add_latin1 :: "u32 \<Rightarrow> cbb \<Rightarrow> bool \<times> cbb" where
  "cbb_add_latin1 u cbb = (if u \<le> 0xff then CBB_add_u8 (ucast u) cbb else (False, cbb))"

definition cbb_add_ucs2_be :: "u32 \<Rightarrow> cbb \<Rightarrow> bool \<times> cbb" where
  "cbb_add_ucs2_be u cbb =
     (if u \<le> 0xffff \<and> is_valid_code_point u then CBB_add_u16 (ucast u) cbb else (False, cbb))"

definition cbb_add_utf32_be :: "u32 \<Rightarrow> cbb \<Rightarrow> bool \<times> cbb" where
  "cbb_add_utf32_be u cbb = (if is_valid_code_point u then CBB_add_u32 u cbb else (False, cbb))"

section \<open>UTF-8\<close>

fun continuation :: "nat \<Rightarrow> nat \<Rightarrow> bytes" where
  "continuation 0 m = []"
| "continuation (Suc n) m = of_nat (128 + m div 64 ^ n) # continuation n (m mod 64 ^ n)"

definition utf8 :: "nat \<Rightarrow> bytes" where
  "utf8 n =
     (if n < 0x80 then [of_nat n]
      else if n < 0x800 then of_nat (192 + n div 64) # continuation 1 (n mod 64)
      else if n < 0x10000 then of_nat (224 + n div 4096) # continuation 2 (n mod 4096)
      else of_nat (240 + n div 262144) # continuation 3 (n mod 262144))"

lemma BOTTOM_BITS_eq: "n \<le> 8 \<Longrightarrow> BOTTOM_BITS n = mask n"
  by (simp add: BOTTOM_BITS_def mask_eq_exp_minus_1 [symmetric] ucast_mask_eq min_def push_bit_eq_mult)

lemma unat_bottom: "n \<le> 8 \<Longrightarrow> unat (c AND BOTTOM_BITS n) = unat c mod 2 ^ n"
  by (simp add: BOTTOM_BITS_eq unat_mask_eq)

lemma unat_top: "n \<le> 8 \<Longrightarrow> unat (c AND TOP_BITS n) = unat c div 2 ^ (8 - n) * 2 ^ (8 - n)"
proof -
  assume "n \<le> 8"
  have "c AND NOT (mask k) = push_bit k (drop_bit k c)" for k
    by (intro bit_word_eqI) (auto simp: bit_simps)
  moreover have "unat (push_bit k (drop_bit k c)) = unat c div 2 ^ k * 2 ^ k" for k
  proof -
    have "unat c div 2 ^ k * 2 ^ k \<le> unat c" by (simp add: div_times_less_eq_dividend)
    then have "unat c div 2 ^ k * 2 ^ k < 256" using unat_byte_less [of c] by linarith
    then show ?thesis
      unfolding unsigned_push_bit_eq unat_drop_bit_div by (simp add: push_bit_eq_mult take_bit_eq_mod)
  qed
  ultimately show ?thesis by (simp add: TOP_BITS_def BOTTOM_BITS_eq)
qed

lemma unat_TOP: "n \<le> 8 \<Longrightarrow> unat (TOP_BITS n) = 256 - 2 ^ (8 - n)"
proof -
  assume n: "n \<le> 8"
  have "TOP_BITS n = - 1 AND TOP_BITS n" by simp
  then have "unat (TOP_BITS n) = 255 div 2 ^ (8 - n) * 2 ^ (8 - n)"
    using unat_top [OF n, of "- 1"] by (simp add: unsigned_minus_1_eq_mask mask_eq_exp_minus_1)
  moreover have "n = 0 \<or> n = 1 \<or> n = 2 \<or> n = 3 \<or> n = 4 \<or> n = 5 \<or> n = 6 \<or> n = 7 \<or> n = 8"
    using n by linarith
  ultimately show ?thesis by auto
qed

lemma lead_tests:
  "c AND TOP_BITS 2 = TOP_BITS 1 \<longleftrightarrow> 128 \<le> unat c \<and> unat c < 192"
  "c AND TOP_BITS 3 = TOP_BITS 2 \<longleftrightarrow> 192 \<le> unat c \<and> unat c < 224"
  "c AND TOP_BITS 4 = TOP_BITS 3 \<longleftrightarrow> 224 \<le> unat c \<and> unat c < 240"
  "c AND TOP_BITS 5 = TOP_BITS 4 \<longleftrightarrow> 240 \<le> unat c \<and> unat c < 248"
  by (simp_all add: word_unat_eq_iff unat_top unat_TOP) linarith+

lemma unat_utf8_step:
  assumes "unat v < 2 ^ 26"
  shows "unat (push_bit 6 v OR ucast (c AND BOTTOM_BITS 6) :: u32) = unat v * 64 + unat c mod 64"
  using assms by (subst unat_push_or) (simp_all add: unat_bottom)

lemma utf8_continue_Cons:
  "utf8_continue (Suc n) v [] = (None, [])"
  "utf8_continue (Suc n) v (b # d) =
     (if 128 \<le> unat b \<and> unat b < 192
      then utf8_continue n (push_bit 6 v OR ucast (b AND BOTTOM_BITS 6)) d else (None, d))"
  by (simp_all only: utf8_continue.simps lead_tests CBS_get_u8_simps and_then_simps) simp_all

lemma mod_window: "k dvd a \<Longrightarrow> a \<le> x \<Longrightarrow> x < a + k \<Longrightarrow> x mod k = x - a" for x :: nat
proof -
  assume *: "k dvd a" "a \<le> x" "x < a + k"
  then obtain q where "a = k * q" by blast
  with * have "x = k * q + (x - a)" "x - a < k" by auto
  then show ?thesis by (metis mod_less mod_mult_self4)
qed

declare utf8_continue.simps(2) [simp del] utf8_continue_Cons [simp]

lemma utf8_continue_iff:
  assumes "unat v < 2 ^ (32 - 6 * n)" "n \<le> 3"
  shows "utf8_continue n v c = (Some w, r) \<longleftrightarrow>
    (\<exists>m < 64 ^ n. unat w = unat v * 64 ^ n + m \<and> c = continuation n m @ r)"
  using assms
proof (induction n arbitrary: v c)
  case 0
  then show ?case by (auto simp: word_unat_eq_iff)
next
  case (Suc n)
  have v: "unat v < 2 ^ 26"
  proof -
    have "(2 :: nat) ^ (32 - 6 * Suc n) \<le> 2 ^ 26" by (intro power_increasing) simp_all
    with Suc.prems(1) show ?thesis by (rule less_le_trans)
  qed
  let ?v = "\<lambda>b. push_bit 6 v OR ucast (b AND BOTTOM_BITS 6) :: u32"
  have step: "unat (?v b) = unat v * 64 + unat b mod 64" for b by (rule unat_utf8_step [OF v])
  have bound: "unat (?v b) < 2 ^ (32 - 6 * n)" for b
  proof -
    have "unat v * 64 + unat b mod 64 < (unat v + 1) * 64" by simp
    also have "\<dots> \<le> 2 ^ (32 - 6 * Suc n) * 64" using Suc.prems(1) by (intro mult_le_mono1) simp
    also have "\<dots> = 2 ^ (32 - 6 * n)"
    proof -
      define k where "k = 32 - 6 * Suc n"
      have "32 - 6 * n = k + 6" using Suc.prems(2) by (simp add: k_def)
      then show ?thesis unfolding k_def [symmetric] by (simp only: power_add) simp
    qed
    finally show ?thesis unfolding step .
  qed
  have n: "n \<le> 3" using Suc.prems(2) by simp
  have IH: "utf8_continue n (?v b) d = (Some w, r) \<longleftrightarrow>
      (\<exists>m < 64 ^ n. unat w = (unat v * 64 + unat b mod 64) * 64 ^ n + m \<and> d = continuation n m @ r)" for b d
    using Suc.IH [OF bound n] unfolding step .
  show ?case
  proof
    assume "utf8_continue (Suc n) v c = (Some w, r)"
    then obtain b d where b: "c = b # d" "128 \<le> unat b" "unat b < 192" "utf8_continue n (?v b) d = (Some w, r)"
      by (cases c) (simp_all split: if_splits)
    then obtain m where m: "m < 64 ^ n" "unat w = (unat v * 64 + unat b mod 64) * 64 ^ n + m"
      "d = continuation n m @ r" unfolding IH by blast
    have bb: "unat b mod 64 = unat b - 128"
      using b(2,3) by (intro mod_window) simp_all
    let ?m = "(unat b - 128) * 64 ^ n + m"
    have "?m < (unat b - 128 + 1) * 64 ^ n" using m(1) by simp
    also have "\<dots> \<le> 64 * 64 ^ n" using b(2,3) by (intro mult_le_mono1) simp
    finally have "?m < 64 ^ Suc n" by simp
    moreover have "c = continuation (Suc n) ?m @ r"
      using b(1,2) m(1,3) by simp
    moreover have "unat w = unat v * 64 ^ Suc n + ?m"
      using m(2) bb by (simp add: algebra_simps)
    ultimately show "\<exists>m < 64 ^ Suc n. unat w = unat v * 64 ^ Suc n + m \<and> c = continuation (Suc n) m @ r"
      by blast
  next
    assume "\<exists>m < 64 ^ Suc n. unat w = unat v * 64 ^ Suc n + m \<and> c = continuation (Suc n) m @ r"
    then obtain m where m: "m < 64 ^ Suc n" "unat w = unat v * 64 ^ Suc n + m"
      "c = continuation (Suc n) m @ r" by blast
    let ?q = "m div 64 ^ n"
    have q: "?q < 64" using m(1) by (simp add: less_mult_imp_div_less)
    let ?b = "of_nat (128 + ?q) :: byte"
    have ub: "unat ?b = 128 + ?q" using q by (simp only: unat_byte_of_nat) simp
    have bm: "unat ?b mod 64 = ?q" unfolding ub using mod_window [of 64 128 "128 + ?q"] q by simp
    have "unat w = (unat v * 64 + unat ?b mod 64) * 64 ^ n + m mod 64 ^ n"
      unfolding bm m(2) using div_mult_mod_eq [of m "64 ^ n"] by (simp add: algebra_simps)
    then have "utf8_continue n (?v ?b) (continuation n (m mod 64 ^ n) @ r) = (Some w, r)"
      unfolding IH by (intro exI [of _ "m mod 64 ^ n"]) simp
    moreover have "c = ?b # continuation n (m mod 64 ^ n) @ r" using m(3) by simp
    ultimately show "utf8_continue (Suc n) v c = (Some w, r)"
      using ub q by (simp del: of_nat_add)
  qed
qed

text \<open>A lead byte of each length with its continuation is the specification's encoding.\<close>

lemma utf8_split:
  "a < 32 \<Longrightarrow> m < 64 \<Longrightarrow> 128 \<le> a * 64 + m \<Longrightarrow> utf8 (a * 64 + m) = of_nat (192 + a) # continuation 1 m"
  "a < 16 \<Longrightarrow> m < 4096 \<Longrightarrow> 2048 \<le> a * 4096 + m \<Longrightarrow>
     utf8 (a * 4096 + m) = of_nat (224 + a) # continuation 2 m"
  "m < 262144 \<Longrightarrow> 65536 \<le> a * 262144 + m \<Longrightarrow>
     utf8 (a * 262144 + m) = of_nat (240 + a) # continuation 3 m"
  by (auto simp: utf8_def simp del: continuation.simps)

lemma utf8_finish_iff:
  assumes "unat v < 2 ^ (32 - 6 * n)" "n \<le> 3"
  shows "utf8_finish n v lower c = (Some w, r) \<longleftrightarrow>
    is_valid_code_point w \<and> lower \<le> w \<and> (\<exists>m < 64 ^ n. unat w = unat v * 64 ^ n + m \<and> c = continuation n m @ r)"
  by (auto simp: utf8_finish_def and_then_eq_Some utf8_continue_iff [OF assms] not_less split: if_splits)

lemma cbs_get_utf8_Cons:
  "cbs_get_utf8 [] = (None, [])"
  "cbs_get_utf8 (b # d) =
     (if unat b < 128 then (Some (ucast b), d)
      else if 192 \<le> unat b \<and> unat b < 224 then utf8_finish 1 (ucast (b AND BOTTOM_BITS 5)) 0x80 d
      else if 224 \<le> unat b \<and> unat b < 240 then utf8_finish 2 (ucast (b AND BOTTOM_BITS 4)) 0x800 d
      else if 240 \<le> unat b \<and> unat b < 248 then utf8_finish 3 (ucast (b AND BOTTOM_BITS 3)) 0x10000 d
      else (None, d))"
  by (simp_all add: cbs_get_utf8_def lead_tests word_le_nat_alt less_Suc_eq_le [of _ 127, simplified])

lemma lead_value:
  "192 \<le> unat b \<Longrightarrow> unat b < 224 \<Longrightarrow> unat (b AND BOTTOM_BITS 5) = unat b - 192"
  "224 \<le> unat b \<Longrightarrow> unat b < 240 \<Longrightarrow> unat (b AND BOTTOM_BITS 4) = unat b - 224"
  "240 \<le> unat b \<Longrightarrow> unat b < 248 \<Longrightarrow> unat (b AND BOTTOM_BITS 3) = unat b - 240"
  using mod_window [of 32 192 "unat b"] mod_window [of 16 224 "unat b"] mod_window [of 8 240 "unat b"]
  by (simp_all add: unat_bottom)

lemma valid_small: "unat w < 128 \<Longrightarrow> is_valid_code_point w"
proof -
  assume w: "unat w < 128"
  have "w AND 0xfffe \<noteq> 0xfffe"
  proof
    assume *: "w AND 0xfffe = 0xfffe"
    have "bit (0xfffe :: u32) 8" by (simp add: bit_simps)
    then have "bit w 8" using * by (metis bit_and_iff)
    then show False using bits_of_less [of w 7 8] w by simp
  qed
  with w show ?thesis by (simp add: is_valid_code_point_def word_less_nat_alt word_le_nat_alt)
qed

lemma valid_bound: "is_valid_code_point w \<Longrightarrow> unat w \<le> 0x10ffff"
  by (simp add: is_valid_code_point_def word_less_nat_alt not_less split: if_splits)

lemma ucast_byte_back: "(ucast (ucast b :: u32) :: byte) = b" for b :: byte
  by (simp add: byte_eq_iff_bits bit_simps)

lemma mod_div_window: "0 < b \<Longrightarrow> n mod (b * c) div b = n div b mod c" for n :: nat
  by (simp add: mod_mult2_eq)

lemma utf8_inv:
  "unat w < 128 \<Longrightarrow> utf8 (unat w) = [ucast w]"
  "128 \<le> n \<Longrightarrow> n < 2048 \<Longrightarrow> utf8 n = of_nat (192 + n div 64) # continuation 1 (n mod 64)"
  "2048 \<le> n \<Longrightarrow> n < 65536 \<Longrightarrow> utf8 n = of_nat (224 + n div 4096) # continuation 2 (n mod 4096)"
  "65536 \<le> n \<Longrightarrow> utf8 n = of_nat (240 + n div 262144) # continuation 3 (n mod 262144)"
  for w :: u32
proof -
  show "utf8 (unat w) = [ucast w]" if "unat w < 128"
    using that by (simp add: utf8_def)
qed (simp_all add: utf8_def del: continuation.simps)

text \<open>A multi-byte form: the reader on a lead byte, and the encoding it is.\<close>

lemma utf8_multi:
  assumes fin: "\<And>b. base \<le> unat b \<Longrightarrow> unat b < base + lim \<Longrightarrow>
      cbs_get_utf8 (b # d) = utf8_finish k (f b) lower d \<and> unat (f b) = unat b - base"
    and enc: "\<And>a m. a < lim \<Longrightarrow> m < 64 ^ k \<Longrightarrow> unat lower \<le> a * 64 ^ k + m \<Longrightarrow>
      a * 64 ^ k + m \<le> 0x10ffff \<Longrightarrow> utf8 (a * 64 ^ k + m) = of_nat (base + a) # continuation k m"
    and k: "k \<le> 3" "lim \<le> 2 ^ (32 - 6 * k)" and b: "base \<le> unat b" "unat b < base + lim"
  shows "cbs_get_utf8 (b # d) = (Some w, r) \<longleftrightarrow>
    is_valid_code_point w \<and> lower \<le> w \<and> unat w div 64 ^ k = unat b - base \<and> b # d = utf8 (unat w) @ r"
proof -
  let ?a = "unat b - base"
  have a: "?a < lim" using b by simp
  have "unat (f b) < 2 ^ (32 - 6 * k)" using fin [OF b] a k(2) by simp
  then have "cbs_get_utf8 (b # d) = (Some w, r) \<longleftrightarrow>
    is_valid_code_point w \<and> lower \<le> w \<and> (\<exists>m < 64 ^ k. unat w = ?a * 64 ^ k + m \<and> d = continuation k m @ r)"
    using fin [OF b] k(1) by (simp add: utf8_finish_iff)
  also have "\<dots> \<longleftrightarrow> is_valid_code_point w \<and> lower \<le> w \<and> unat w div 64 ^ k = ?a \<and> b # d = utf8 (unat w) @ r"
  proof -
    have bb: "of_nat (base + ?a) = b" using b by simp
    have "(\<exists>m < 64 ^ k. unat w = ?a * 64 ^ k + m \<and> d = continuation k m @ r) \<longleftrightarrow>
        unat w div 64 ^ k = ?a \<and> b # d = utf8 (unat w) @ r"
      if w: "is_valid_code_point w" "lower \<le> w"
    proof
      assume "\<exists>m < 64 ^ k. unat w = ?a * 64 ^ k + m \<and> d = continuation k m @ r"
      then obtain m where m: "m < 64 ^ k" "unat w = ?a * 64 ^ k + m" "d = continuation k m @ r" by blast
      then have "utf8 (unat w) = b # continuation k m"
        using enc [OF a m(1)] w valid_bound [OF w(1)] bb by (simp add: word_le_nat_alt)
      moreover have "unat w div 64 ^ k = ?a" using m(1,2) by simp
      ultimately show "unat w div 64 ^ k = ?a \<and> b # d = utf8 (unat w) @ r" using m(3) by simp
    next
      assume r: "unat w div 64 ^ k = ?a \<and> b # d = utf8 (unat w) @ r"
      let ?m = "unat w mod 64 ^ k"
      have m: "?m < 64 ^ k" "unat w = ?a * 64 ^ k + ?m"
        using r div_mult_mod_eq [of "unat w" "64 ^ k"] by simp_all
      then have "utf8 (unat w) = b # continuation k ?m"
        using enc [OF a m(1)] w valid_bound [OF w(1)] bb by (simp add: word_le_nat_alt)
      then have "d = continuation k ?m @ r" using r by simp
      with m show "\<exists>m < 64 ^ k. unat w = ?a * 64 ^ k + m \<and> d = continuation k m @ r" by blast
    qed
    then show ?thesis by blast
  qed
  finally show ?thesis .
qed

lemma utf8_lead:
  assumes "n \<le> 0x10ffff" "b # d = utf8 n @ r"
  shows "unat b = (if n < 128 then n else if n < 2048 then 192 + n div 64
    else if n < 65536 then 224 + n div 4096 else 240 + n div 262144)"
proof -
  consider "n < 128" | "128 \<le> n" "n < 2048" | "2048 \<le> n" "n < 65536" | "65536 \<le> n" by linarith
  then show ?thesis
  proof cases
    case 1
    with assms show ?thesis by (simp add: utf8_def)
  next
    case 2
    then have "b = of_nat (192 + n div 64)" using assms(2) utf8_inv(2) by simp
    moreover have "192 + n div 64 < 256" using 2 by simp
    ultimately show ?thesis using 2 by (simp only: unat_byte_of_nat) simp
  next
    case 3
    then have "b = of_nat (224 + n div 4096)" using assms(2) utf8_inv(3) by simp
    moreover have "224 + n div 4096 < 256" using 3 by simp
    ultimately show ?thesis using 3 by (simp only: unat_byte_of_nat) simp
  next
    case 4
    then have "b = of_nat (240 + n div 262144)" using assms(2) utf8_inv(4) by simp
    moreover have "240 + n div 262144 < 256" using assms(1) by simp
    ultimately show ?thesis using 4 by (simp only: unat_byte_of_nat) simp
  qed
qed

lemma cbs_get_utf8_iff:
  "cbs_get_utf8 c = (Some w, r) \<longleftrightarrow> is_valid_code_point w \<and> c = utf8 (unat w) @ r"
proof (cases c)
  case Nil
  have "utf8 (unat w) \<noteq> []" by (simp add: utf8_def del: continuation.simps)
  with Nil show ?thesis by (simp add: cbs_get_utf8_Cons)
next
  case (Cons b d)
  have lead: "unat b = (if unat w < 128 then unat w else if unat w < 2048 then 192 + unat w div 64
    else if unat w < 65536 then 224 + unat w div 4096 else 240 + unat w div 262144)"
    if "is_valid_code_point w" "b # d = utf8 (unat w) @ r"
    using utf8_lead [OF valid_bound [OF that(1)] that(2)] .
  note less = unat_byte_less [of b]
  consider (1) "unat b < 128" | (cont) "128 \<le> unat b" "unat b < 192"
    | (2) "192 \<le> unat b" "unat b < 224" | (3) "224 \<le> unat b" "unat b < 240"
    | (4) "240 \<le> unat b" "unat b < 248" | (bad) "248 \<le> unat b" by linarith
  then show ?thesis
  proof cases
    case 1
    have "is_valid_code_point w \<and> b # d = utf8 (unat w) @ r \<longleftrightarrow> w = ucast b \<and> d = r"
    proof
      assume *: "is_valid_code_point w \<and> b # d = utf8 (unat w) @ r"
      then have "unat w = unat b" using lead 1 by (auto split: if_splits)
      then have "w = ucast b" "unat w < 128" using 1 by (simp_all add: word_unat_eq_iff)
      with * show "w = ucast b \<and> d = r" by (simp only: utf8_inv(1)) simp
    next
      assume *: "w = ucast b \<and> d = r"
      then have "unat w < 128" using 1 by simp
      with * show "is_valid_code_point w \<and> b # d = utf8 (unat w) @ r"
        using utf8_inv(1) [of w] ucast_byte_back [of b] by (simp add: valid_small)
    qed
    with 1 Cons show ?thesis by (auto simp: cbs_get_utf8_Cons)
  next
    case cont
    then have "\<not> (is_valid_code_point w \<and> b # d = utf8 (unat w) @ r)" using lead by (auto split: if_splits)
    with cont Cons show ?thesis by (simp add: cbs_get_utf8_Cons)
  next
    case 2
    have "cbs_get_utf8 (b # d) = (Some w, r) \<longleftrightarrow> is_valid_code_point w \<and> 0x80 \<le> w \<and>
        unat w div 64 ^ 1 = unat b - 192 \<and> b # d = utf8 (unat w) @ r"
      using utf8_split(1) 2
      by (intro utf8_multi [where f = "\<lambda>b. ucast (b AND BOTTOM_BITS 5)" and lim = 32])
        (simp_all add: cbs_get_utf8_Cons lead_value del: continuation.simps)
    moreover have "is_valid_code_point w \<and> b # d = utf8 (unat w) @ r \<longrightarrow>
        0x80 \<le> w \<and> unat w div 64 = unat b - 192"
      using lead 2 valid_bound [of w] by (auto simp: word_le_nat_alt split: if_splits)
    ultimately show ?thesis using Cons by auto
  next
    case 3
    have "cbs_get_utf8 (b # d) = (Some w, r) \<longleftrightarrow> is_valid_code_point w \<and> 0x800 \<le> w \<and>
        unat w div 64 ^ 2 = unat b - 224 \<and> b # d = utf8 (unat w) @ r"
      using utf8_split(2) 3
      by (intro utf8_multi [where f = "\<lambda>b. ucast (b AND BOTTOM_BITS 4)" and lim = 16])
        (simp_all add: cbs_get_utf8_Cons lead_value del: continuation.simps)
    moreover have "is_valid_code_point w \<and> b # d = utf8 (unat w) @ r \<longrightarrow>
        0x800 \<le> w \<and> unat w div 4096 = unat b - 224"
      using lead 3 valid_bound [of w] by (auto simp: word_le_nat_alt split: if_splits)
    ultimately show ?thesis using Cons by auto
  next
    case 4
    have "cbs_get_utf8 (b # d) = (Some w, r) \<longleftrightarrow> is_valid_code_point w \<and> 0x10000 \<le> w \<and>
        unat w div 64 ^ 3 = unat b - 240 \<and> b # d = utf8 (unat w) @ r"
      using utf8_split(3) 4
      by (intro utf8_multi [where f = "\<lambda>b. ucast (b AND BOTTOM_BITS 3)" and lim = 8])
        (simp_all add: cbs_get_utf8_Cons lead_value del: continuation.simps)
    moreover have "is_valid_code_point w \<and> b # d = utf8 (unat w) @ r \<longrightarrow>
        0x10000 \<le> w \<and> unat w div 262144 = unat b - 240"
      using lead 4 valid_bound [of w] by (auto simp: word_le_nat_alt split: if_splits)
    ultimately show ?thesis using Cons by auto
  next
    case bad
    have "\<not> (is_valid_code_point w \<and> b # d = utf8 (unat w) @ r)"
    proof
      assume *: "is_valid_code_point w \<and> b # d = utf8 (unat w) @ r"
      then have "unat w \<le> 0x10ffff" using valid_bound by blast
      with * lead bad show False by (auto split: if_splits)
    qed
    with bad Cons show ?thesis by (simp add: cbs_get_utf8_Cons)
  qed
qed

interpretation utf8: strict_codec "\<lambda>w. utf8 (unat w)" cbs_get_utf8 is_valid_code_point
  by unfold_locales (simp_all add: cbs_get_utf8_iff)

section \<open>Writing code points\<close>

lemma lead_byte:
  fixes x :: u32
  assumes "1 \<le> n" "n \<le> 8" "unat x < 2 ^ (8 - n)"
  shows "(ucast (ucast (TOP_BITS n) OR x) :: byte) = of_nat (256 - 2 ^ (8 - n) + unat x)"
proof -
  let ?k = "8 - n"
  have T: "TOP_BITS n = push_bit ?k (drop_bit ?k (TOP_BITS n))"
    using assms(2) by (intro bit_word_eqI) (auto simp: TOP_BITS_def BOTTOM_BITS_eq bit_simps)
  have x: "unat (ucast x :: byte) = unat x"
  proof -
    have "(2 :: nat) ^ ?k \<le> 2 ^ 7" using assms(1) by (intro power_increasing) simp_all
    then have "unat x < 256" using assms(3) by simp
    then show ?thesis by (simp add: unsigned_ucast_eq take_bit_eq_mod)
  qed
  have "(ucast (ucast (TOP_BITS n) OR x) :: byte) = TOP_BITS n OR ucast x"
    by (simp add: byte_eq_iff_bits bit_simps)
  also have "\<dots> = TOP_BITS n + ucast x"
    using assms(3) x by (subst (1 2) T) (simp only: push_or_eq_plus)
  also have "\<dots> = of_nat (256 - 2 ^ ?k + unat x)"
    using x unat_TOP [OF assms(2)] by (metis of_nat_add of_nat_unat ucast_id)
  finally show ?thesis .
qed

lemma tail_byte:
  "(ucast (ucast (TOP_BITS 1) OR (x AND ucast (BOTTOM_BITS 6))) :: byte) = of_nat (128 + unat x mod 64)"
  for x :: u32
proof -
  have "ucast (BOTTOM_BITS 6) = (mask 6 :: u32)"
    by (simp add: BOTTOM_BITS_eq) (simp add: mask_eq_exp_minus_1)
  then have "unat (x AND ucast (BOTTOM_BITS 6)) = unat x mod 64" by (simp only: unat_mask_eq) simp
  then show ?thesis using lead_byte [of 1 "x AND ucast (BOTTOM_BITS 6)"] by simp
qed

lemma does_utf8:
  assumes "is_valid_code_point u"
  shows "does (cbb_add_utf8 u) (utf8 (unat u))"
proof -
  let ?t = "\<lambda>x. CBB_add_u8 (ucast (ucast (TOP_BITS 1) OR (x AND ucast (BOTTOM_BITS 6))))"
  have tail: "does (?t x) [of_nat (128 + unat x mod 64)]" for x :: u32
    unfolding tail_byte by (rule does_add_u8)
  note valid = valid_bound [OF assms]
  consider "unat u < 128" | "128 \<le> unat u" "unat u < 2048" | "2048 \<le> unat u" "unat u < 65536"
    | "65536 \<le> unat u" by linarith
  then show ?thesis
  proof cases
    case 1
    then have "cbb_add_utf8 u = CBB_add_u8 (ucast u)"
      using assms by (intro ext) (simp add: cbb_add_utf8_def word_le_nat_alt)
    with 1 show ?thesis by (simp add: utf8_inv(1) does_add_u8)
  next
    case 2
    then have eq: "cbb_add_utf8 u = (\<lambda>c. and_also (CBB_add_u8 (ucast (ucast (TOP_BITS 2) OR drop_bit 6 u)) c) (?t u))"
      using assms by (intro ext) (simp add: cbb_add_utf8_def word_le_nat_alt)
    have "(ucast (ucast (TOP_BITS 2) OR drop_bit 6 u) :: byte) = of_nat (192 + unat u div 64)"
      using 2 lead_byte [of 2 "drop_bit 6 u"] by (simp add: unat_drop_bit_div)
    then show ?thesis
      unfolding eq utf8_inv(2) [OF 2]
      using does_append [OF does_add_u8 tail] by simp
  next
    case 3
    then have eq: "cbb_add_utf8 u = (\<lambda>c. and_also (CBB_add_u8 (ucast (ucast (TOP_BITS 3) OR drop_bit 12 u)) c)
        (\<lambda>c. and_also (?t (drop_bit 6 u) c) (?t u)))"
      using assms by (intro ext) (simp add: cbb_add_utf8_def word_le_nat_alt)
    have l: "(ucast (ucast (TOP_BITS 3) OR drop_bit 12 u) :: byte) = of_nat (224 + unat u div 4096)"
      using 3 lead_byte [of 3 "drop_bit 12 u"] by (simp add: unat_drop_bit_div)
    have m: "unat (drop_bit 6 u) mod 64 = unat u mod 4096 div 64"
      using mod_div_window [of 64 "unat u" 64] by (simp add: unat_drop_bit_div)
    show ?thesis
      unfolding eq l utf8_inv(3) [OF 3]
      by (rule does_append [OF does_add_u8 does_append [OF tail tail refl]])
        (simp add: m numeral_2_eq_2 mod_mod_cancel)
  next
    case 4
    then have eq: "cbb_add_utf8 u = (\<lambda>c. and_also (CBB_add_u8 (ucast (ucast (TOP_BITS 4) OR drop_bit 18 u)) c)
        (\<lambda>c. and_also (?t (drop_bit 12 u) c) (\<lambda>c. and_also (?t (drop_bit 6 u) c) (?t u))))"
      using assms valid by (intro ext) (simp add: cbb_add_utf8_def word_le_nat_alt)
    have l: "(ucast (ucast (TOP_BITS 4) OR drop_bit 18 u) :: byte) = of_nat (240 + unat u div 262144)"
      using valid lead_byte [of 4 "drop_bit 18 u"] by (simp add: unat_drop_bit_div)
    have m: "unat (drop_bit 12 u) mod 64 = unat u mod 262144 div 4096"
      "unat (drop_bit 6 u) mod 64 = unat u mod 262144 mod 4096 div 64"
      using mod_div_window [of 4096 "unat u" 64] mod_div_window [of 64 "unat u" 64]
      by (simp_all add: unat_drop_bit_div mod_mod_cancel)
    show ?thesis
      unfolding eq l utf8_inv(4) [OF 4]
      by (rule does_append [OF does_add_u8 does_append [OF tail does_append [OF tail tail refl] refl]])
        (simp add: m numeral_3_eq_3 mod_mod_cancel)
  qed
qed

lemma length_continuation [simp]: "length (continuation n m) = n"
  by (induction n arbitrary: m) simp_all

lemma cbb_get_utf8_len_eq: "cbb_get_utf8_len u = length (utf8 (unat u))"
proof -
  have le: "u \<le> 0x7f \<longleftrightarrow> unat u < 128" "u \<le> 0x7ff \<longleftrightarrow> unat u < 2048" "u \<le> 0xffff \<longleftrightarrow> unat u < 65536"
    by (auto simp: word_le_nat_alt)
  show ?thesis unfolding cbb_get_utf8_len_def utf8_def le by (simp del: continuation.simps)
qed

interpretation rw_utf8: writer_reader "\<lambda>w. utf8 (unat w)" cbs_get_utf8 is_valid_code_point cbb_add_utf8
  by unfold_locales (rule does_utf8)

section \<open>The fixed-width encodings\<close>

lemma rw_latin1_laws:
  "unat u < 256 \<Longrightarrow> cbs_get_latin1 ([ucast u] @ r) = (Some u, r)"
  "unat u < 256 \<Longrightarrow> does (cbb_add_latin1 u) [ucast u]" for u :: u32
proof -
  assume u: "unat u < 256"
  then have "unat (ucast (ucast u :: byte) :: u32) = unat u"
    by (simp only: unat_ucast_byte) (simp add: unsigned_ucast_eq take_bit_eq_mod)
  then have "(ucast (ucast u :: byte) :: u32) = u" by (simp only: word_unat_eq_iff)
  then show "cbs_get_latin1 ([ucast u] @ r) = (Some u, r)" by (simp add: cbs_get_latin1_def)
  have "cbb_add_latin1 u = CBB_add_u8 (ucast u)"
    using u by (intro ext) (simp add: cbb_add_latin1_def word_le_nat_alt)
  then show "does (cbb_add_latin1 u) [ucast u]" using does_add_u8 by simp
qed

interpretation rw_latin1:
  writer_reader "\<lambda>u. [ucast u]" cbs_get_latin1 "\<lambda>u. unat u < 256" cbb_add_latin1
  by unfold_locales (rule rw_latin1_laws, assumption)+

lemma unat_ucast_u16: "unat u < 65536 \<Longrightarrow> unat (ucast u :: u16) = unat u" for u :: u32
  by (simp add: unsigned_ucast_eq take_bit_eq_mod)

lemma ucast_u16_back: "unat u < 65536 \<Longrightarrow> (ucast (ucast u :: u16) :: u32) = u" for u :: u32
proof -
  assume u: "unat u < 65536"
  have "unat (ucast w :: u32) = unat w" for w :: u16
    using unat_less_pow(1) [of w] by (simp add: unsigned_ucast_eq take_bit_eq_mod)
  then show ?thesis using unat_ucast_u16 [OF u] by (simp only: word_unat_eq_iff)
qed

lemma rw_ucs2_laws:
  assumes "is_valid_code_point u \<and> unat u < 65536"
  shows "cbs_get_ucs2_be (be_bytes 2 (unat u) @ r) = (Some u, r)" "does (cbb_add_ucs2_be u) (be_bytes 2 (unat u))"
proof -
  show "cbs_get_ucs2_be (be_bytes 2 (unat u) @ r) = (Some u, r)"
    using assms u16.dec_enc [of "ucast u" r]
    by (simp add: cbs_get_ucs2_be_def unat_ucast_u16 ucast_u16_back del: be_bytes_numeral)
  have "cbb_add_ucs2_be u = CBB_add_u16 (ucast u)"
    using assms by (intro ext) (simp add: cbb_add_ucs2_be_def word_le_nat_alt)
  then show "does (cbb_add_ucs2_be u) (be_bytes 2 (unat u))"
    using assms does_add_fixed(1) [of "ucast u"] by (simp add: unat_ucast_u16 del: be_bytes_numeral)
qed

interpretation rw_ucs2:
  writer_reader "\<lambda>u. be_bytes 2 (unat u)" cbs_get_ucs2_be
    "\<lambda>u. is_valid_code_point u \<and> unat u < 65536" cbb_add_ucs2_be
  by unfold_locales (rule rw_ucs2_laws, assumption)+

interpretation rw_utf32:
  writer_reader "\<lambda>u. be_bytes 4 (unat u)" cbs_get_utf32_be is_valid_code_point cbb_add_utf32_be
proof unfold_locales
  fix u r
  assume u: "is_valid_code_point u"
  then show "cbs_get_utf32_be (be_bytes 4 (unat u) @ r) = (Some u, r)"
    using u32.dec_enc [of u r] by (simp add: cbs_get_utf32_be_def del: be_bytes_numeral)
  have "cbb_add_utf32_be u = CBB_add_u32 u"
    using u by (intro ext) (simp add: cbb_add_utf32_be_def)
  then show "does (cbb_add_utf32_be u) (be_bytes 4 (unat u))" using does_add_fixed(3) by simp
qed

end
