(* ===== verification/Oid.thy ===== *)
theory Oid
  imports Cbb_Cbs Comparison
begin

text \<open>
  Object identifiers as text (the ends of \<open>cbs.c\<close> and \<open>cbb.c\<close>) and the sorting of a
  SET OF (\<open>CBB_flush_asn1_set_of\<close>). \<open>snprintf\<close> with \<open>%u\<close> is the decimal notation,
  \<open>memcmp\<close> compares by the first byte that differs, and \<open>qsort\<close> is a parameter.
\<close>

section \<open>Object identifiers\<close>

fun dotted_loop :: "bool \<Rightarrow> u64 \<Rightarrow> u64 reader" where
  \<comment> \<open>the loop of \<open>parse_dotted_decimal\<close>: \<open>seen_digit\<close>, \<open>*out\<close> and the input\<close>
  "dotted_loop seen_digit out [] = (if seen_digit then Some out else None, [])"
| "dotted_loop seen_digit out (u # cbs) =
     (if u = 46 \<and> length cbs > 0 then (if seen_digit then Some out else None, cbs)
      else if u < 48 \<or> u > 57 \<or> (seen_digit \<and> out = 0) \<or> out > 0xffffffffffffffff div 10 \<or>
              out * 10 > 0xffffffffffffffff - ucast (u - 48)
      then (None, cbs)
      else dotted_loop True (out * 10 + ucast (u - 48)) cbs)"

definition parse_dotted_decimal :: "u64 reader" where
  "parse_dotted_decimal cbs = dotted_loop False 0 cbs"

lemma length_dotted_loop: "length (snd (dotted_loop s v cbs)) \<le> length cbs"
  by (induction s v cbs rule: dotted_loop.induct) auto

lemma length_parse_dotted:
  "cbs \<noteq> [] \<Longrightarrow> parse_dotted_decimal cbs = (r, cbs') \<Longrightarrow> length cbs' < length cbs"
proof (cases cbs)
  case (Cons u d)
  assume p: "parse_dotted_decimal cbs = (r, cbs')"
  have "length (snd (dotted_loop s v d)) \<le> length d" for s v by (rule length_dotted_loop)
  with p Cons show ?thesis
    by (auto simp: parse_dotted_decimal_def less_Suc_eq_le split: if_splits) (metis snd_conv)
qed simp

function oid_components :: "bytes \<Rightarrow> cbb \<Rightarrow> bool \<times> cbb" where
  \<comment> \<open>the loop over the remaining components\<close>
  "oid_components cbs cbb =
     (if length cbs > 0
      then (case parse_dotted_decimal cbs of
              (None, _) \<Rightarrow> (False, cbb)
            | (Some a, cbs') \<Rightarrow>
                (case add_base128_integer a cbb of
                   (False, cbb) \<Rightarrow> (False, cbb)
                 | (True, cbb) \<Rightarrow> oid_components cbs' cbb))
      else (True, cbb))"
  by pat_completeness auto
termination
  by (relation "measure (\<lambda>(cbs, _). length cbs)") (auto dest: length_parse_dotted [OF _ sym])

declare oid_components.simps [simp del]

definition CBB_add_asn1_oid_from_text :: "bytes \<Rightarrow> cbb \<Rightarrow> bool \<times> cbb" where
  "CBB_add_asn1_oid_from_text text cbb =
     and_also (CBB_flush cbb) (\<lambda>cbb.
       case parse_dotted_decimal text of
         (None, _) \<Rightarrow> (False, cbb)
       | (Some a, cbs) \<Rightarrow>
           (case parse_dotted_decimal cbs of
              (None, _) \<Rightarrow> (False, cbb)
            | (Some b, cbs) \<Rightarrow>
                if a > 2 \<or> (a < 2 \<and> b > 39) \<or> b > 0xffffffffffffffff - 80 then (False, cbb)
                else and_also (add_base128_integer (40 * a + b) cbb) (oid_components cbs)))"

fun decimal :: "nat \<Rightarrow> bytes" where
  \<comment> \<open>what \<open>snprintf\<close> writes for an unsigned number\<close>
  "decimal v = (if v < 10 then [of_nat (48 + v)] else decimal (v div 10) @ [of_nat (48 + v mod 10)])"

declare decimal.simps [simp del]

definition add_decimal :: "u64 \<Rightarrow> cbb \<Rightarrow> bool \<times> cbb" where
  "add_decimal v out = CBB_add_bytes (decimal (unat v)) out"

lemma length_parse_base128:
  "parse_base128_integer c = (Some v, r) \<Longrightarrow> length r < length c"
  by (auto simp: parse_base128_iff)

function oid_text_rest :: "bytes \<Rightarrow> cbb \<Rightarrow> bool \<times> cbb" where
  "oid_text_rest cbs cbb =
     (if length cbs > 0
      then (case parse_base128_integer cbs of
              (None, _) \<Rightarrow> (False, cbb)
            | (Some v, cbs') \<Rightarrow>
                (case and_also (CBB_add_u8 46 cbb) (add_decimal v) of
                   (False, cbb) \<Rightarrow> (False, cbb)
                 | (True, cbb) \<Rightarrow> oid_text_rest cbs' cbb))
      else (True, cbb))"
  by pat_completeness auto
termination
  by (relation "measure (\<lambda>(cbs, _). length cbs)") (auto dest: length_parse_base128 [OF sym])

declare oid_text_rest.simps [simp del]

definition CBS_asn1_oid_to_text :: "(u64 \<Rightarrow> bool) \<Rightarrow> (nat \<Rightarrow> byte) \<Rightarrow> bytes \<Rightarrow> bytes option" where
  "CBS_asn1_oid_to_text grants fresh cbs =
     (case CBB_init 32 grants fresh of
        None \<Rightarrow> None
      | Some cbb \<Rightarrow>
          (case parse_base128_integer cbs of
             (None, _) \<Rightarrow> None
           | (Some v, copy') \<Rightarrow>
               (case (if v \<ge> 80 then and_also (CBB_add_bytes [50, 46] cbb) (add_decimal (v - 80))
                      else and_also (add_decimal (v div 40) cbb) (\<lambda>cbb.
                             and_also (CBB_add_u8 46 cbb) (add_decimal (v mod 40)))) of
                  (False, _) \<Rightarrow> None
                | (True, cbb) \<Rightarrow>
                    (case oid_text_rest copy' cbb of
                       (False, _) \<Rightarrow> None
                     | (True, cbb) \<Rightarrow>
                         (case CBB_add_u8 0 cbb of
                            (False, _) \<Rightarrow> None
                          | (True, cbb) \<Rightarrow> fst (CBB_finish cbb))))))"

section \<open>Text, components and contents\<close>

text \<open>
  An identifier is its list of components. Its text is the decimals joined by dots
  and its contents octets are base-128 numbers, the first two components packed.
\<close>

definition oid_ok :: "u64 list \<Rightarrow> bool" where
  "oid_ok vs \<longleftrightarrow>
     (case vs of a # b # _ \<Rightarrow> unat a \<le> 2 \<and> (unat a < 2 \<longrightarrow> unat b \<le> 39) \<and> unat b + 80 < 2 ^ 64 | _ \<Rightarrow> False)"

fun oid_text :: "u64 list \<Rightarrow> bytes" where
  "oid_text [] = []"
| "oid_text [v] = decimal (unat v)"
| "oid_text (v # vs) = decimal (unat v) @ 46 # oid_text vs"

definition oid_contents :: "u64 list \<Rightarrow> bytes" where
  "oid_contents vs =
     (case vs of a # b # rest \<Rightarrow> base128 (unat (40 * a + b)) @ concat (map (\<lambda>v. base128 (unat v)) rest) | _ \<Rightarrow> [])"

lemma decimal_Nil [simp]: "decimal v \<noteq> []"
  by (subst decimal.simps) simp

lemma dotted_digit:
  assumes "v * 10 + d < 2 ^ 64" "d < 10" "s \<longrightarrow> v \<noteq> 0"
  shows "dotted_loop s (of_nat v) (of_nat (48 + d) # r) = dotted_loop True (of_nat (v * 10 + d)) r"
proof -
  have v: "unat (of_nat v :: u64) = v" using assms(1) by (simp add: unat_of_nat)
  have u: "unat (of_nat (48 + d) :: byte) = 48 + d"
    using assms(2) by (simp only: unat_byte_of_nat) simp
  have d: "(of_nat (48 + d) :: byte) - 48 = of_nat d" by simp
  have ud: "unat (ucast (of_nat d :: byte) :: u64) = d"
    using assms(2) by (simp only: unat_ucast_byte unat_byte_of_nat) simp
  then have dd: "ucast (of_nat d :: byte) = (of_nat d :: u64)"
    using assms(2) by (simp only: word_unat_eq_iff unat_of_nat) simp
  have "\<not> (of_nat v :: u64) > 0xffffffffffffffff div 10"
    using assms(1) v by (simp add: word_less_nat_alt unat_div not_less)
  moreover have "\<not> (of_nat v :: u64) * 10 > 0xffffffffffffffff - of_nat d"
  proof -
    have "unat ((of_nat v :: u64) * 10) = v * 10"
      using assms(1) v by (simp add: unat_word_ariths)
    moreover have "unat (0xffffffffffffffff - of_nat d :: u64) = 0xffffffffffffffff - d"
      using assms(2) by (simp add: unat_sub_if_size word_size unat_of_nat)
    ultimately show ?thesis using assms(1) by (simp add: word_less_nat_alt not_less)
  qed
  moreover have "\<not> (s \<and> (of_nat v :: u64) = 0)"
    using assms(3) v by (metis unat_0)
  moreover have "(of_nat (48 + d) :: byte) \<noteq> 46" "\<not> (of_nat (48 + d) :: byte) < 48" "\<not> (of_nat (48 + d) :: byte) > 57"
    using assms(2) by (simp_all only: word_unat_eq_iff word_less_nat_alt u) simp_all
  ultimately show ?thesis
    by (simp only: dotted_loop.simps d dd simp_thms if_False) simp
qed

lemma dotted_decimal:
  "v < 2 ^ 64 \<Longrightarrow> dotted_loop False 0 (decimal v @ r) = dotted_loop True (of_nat v) r"
proof (induction v arbitrary: r rule: decimal.induct)
  case (1 v)
  show ?case
  proof (cases "v < 10")
    case True
    then show ?thesis using dotted_digit [of 0 v False r] by (subst decimal.simps) simp
  next
    case False
    have "decimal v @ r = decimal (v div 10) @ of_nat (48 + v mod 10) # r"
      using False by (subst decimal.simps) simp
    moreover have "v div 10 < 2 ^ 64" using 1(2) by (meson div_le_dividend le_less_trans)
    moreover have "v div 10 * 10 + v mod 10 = v" by simp
    ultimately show ?thesis
      using 1(1) [OF False] dotted_digit [of "v div 10" "v mod 10" True r] False 1(2) by simp
  qed
qed

lemma parse_dotted_end: "parse_dotted_decimal (decimal (unat v)) = (Some v, [])"
  and parse_dotted_dot: "r \<noteq> [] \<Longrightarrow> parse_dotted_decimal (decimal (unat v) @ 46 # r) = (Some v, r)" for v :: u64
  using dotted_decimal [of "unat v" "[]"] dotted_decimal [of "unat v" "46 # r"] unat_less_pow(3) [of v]
  by (simp_all add: parse_dotted_decimal_def)

lemma parse_oid_text: "parse_dotted_decimal (oid_text (v # vs)) = (Some v, oid_text vs)"
proof (cases vs)
  case (Cons w ws)
  have "oid_text (w # ws) \<noteq> []" by (cases ws) simp_all
  with Cons show ?thesis by (simp add: parse_dotted_dot)
qed (simp add: parse_dotted_end)

lemma oid_text_Nil [simp]: "oid_text vs = [] \<longleftrightarrow> vs = []"
  by (cases vs rule: oid_text.cases) simp_all

lemma oid_text_eq: "oid_text (v # vs) = decimal (unat v) @ concat (map (\<lambda>v. 46 # decimal (unat v)) vs)"
  by (induction vs arbitrary: v) simp_all

lemma does_oid_components:
  "does (oid_components (oid_text vs)) (concat (map (\<lambda>v. base128 (unat v)) vs))"
proof (induction vs)
  case Nil
  have "oid_components [] = (\<lambda>c. (True, c))" by (rule ext) (simp add: oid_components.simps)
  then show ?case using does_True by simp
next
  case (Cons v vs)
  have "oid_components (oid_text (v # vs)) = (\<lambda>c. and_also (add_base128_integer v c) (oid_components (oid_text vs)))"
    by (rule ext, subst oid_components.simps)
      (simp add: parse_oid_text and_also_def split: prod.splits bool.splits del: oid_text.simps)
  then show ?case using does_append [OF does_base128 Cons] by simp
qed

lemma oid_first:
  assumes "oid_ok (a # b # rest)"
  shows "unat (40 * a + b) = 40 * unat a + unat b"
    and "\<not> (a > 2 \<or> (a < 2 \<and> b > 39) \<or> b > 0xffffffffffffffff - 80)"
proof -
  have ab: "unat a \<le> 2" "unat a < 2 \<longrightarrow> unat b \<le> 39" "unat b + 80 < 2 ^ 64"
    using assms by (auto simp: oid_ok_def)
  have m: "unat (40 * a) = 40 * unat a" using ab(1) by (simp add: unat_word_ariths)
  then show "unat (40 * a + b) = 40 * unat a + unat b"
    using ab by (simp add: unat_plus_if')
  show "\<not> (a > 2 \<or> (a < 2 \<and> b > 39) \<or> b > 0xffffffffffffffff - 80)"
    using ab by (auto simp: word_less_nat_alt)
qed

lemma does_oid_from_text:
  assumes "oid_ok vs"
  shows "does (CBB_add_asn1_oid_from_text (oid_text vs)) (oid_contents vs)"
proof -
  obtain a b rest where vs: "vs = a # b # rest"
    using assms by (auto simp: oid_ok_def split: list.splits)
  have step: "CBB_add_asn1_oid_from_text (oid_text vs) = (\<lambda>c. and_also (CBB_flush c)
      (\<lambda>c. and_also (add_base128_integer (40 * a + b) c) (oid_components (oid_text rest))))"
    using oid_first(2) [OF assms [unfolded vs]]
    by (intro ext) (auto simp: CBB_add_asn1_oid_from_text_def vs parse_oid_text simp del: oid_text.simps)
  have "does (\<lambda>c. and_also (add_base128_integer (40 * a + b) c) (oid_components (oid_text rest)))
      (oid_contents vs)"
    unfolding vs oid_contents_def list.case by (rule does_append [OF does_base128 does_oid_components refl])
  then show ?thesis unfolding step by (simp add: does_def)
qed

lemma does_oid_text_rest:
  "does (oid_text_rest (concat (map (\<lambda>v. base128 (unat v)) vs))) (concat (map (\<lambda>v. 46 # decimal (unat v)) vs))"
  for vs :: "u64 list"
proof (induction vs)
  case Nil
  have "oid_text_rest [] = (\<lambda>c. (True, c))" by (rule ext) (simp add: oid_text_rest.simps)
  then show ?case using does_True by simp
next
  case (Cons v vs)
  let ?r = "concat (map (\<lambda>v. base128 (unat v)) vs)"
  have "oid_text_rest (concat (map (\<lambda>v. base128 (unat v)) (v # vs))) =
      (\<lambda>c. and_also (and_also (CBB_add_u8 46 c) (add_decimal v)) (oid_text_rest ?r))"
    by (rule ext, subst oid_text_rest.simps)
      (simp add: b128.dec_enc and_also_def split: prod.splits bool.splits)
  moreover have "does (add_decimal v) (decimal (unat v))"
    unfolding add_decimal_def [abs_def] by (rule does_add_bytes)
  ultimately show ?case
    using does_append [OF does_append [OF does_add_u8 _ refl] Cons] by simp
qed

lemma decimal_2: "decimal 2 = [50]"
  by (subst decimal.simps) simp

lemma oid_to_text:
  assumes ok: "oid_ok vs" and grants: "\<forall>n. grants n" and len: "length (oid_text vs) + 1 < 2 ^ 64"
  shows "CBS_asn1_oid_to_text grants fresh (oid_contents vs) = Some (oid_text vs @ [0])"
proof -
  obtain a b rest where vs: "vs = a # b # rest"
    using ok by (auto simp: oid_ok_def split: list.splits)
  let ?v = "40 * a + b" and ?r = "concat (map (\<lambda>v. base128 (unat v)) rest)"
  let ?first = "\<lambda>c. if ?v \<ge> 80 then and_also (CBB_add_bytes [50, 46] c) (add_decimal (?v - 80))
    else and_also (add_decimal (?v div 40) c) (\<lambda>c. and_also (CBB_add_u8 46 c) (add_decimal (?v mod 40)))"
  have v: "unat ?v = 40 * unat a + unat b" using oid_first(1) ok vs by simp
  have ab: "unat a \<le> 2" "unat a < 2 \<longrightarrow> unat b \<le> 39" using ok by (auto simp: oid_ok_def vs)
  have dec: "does (add_decimal w) (decimal (unat w))" for w
    unfolding add_decimal_def [abs_def] by (rule does_add_bytes)
  have first: "does ?first (decimal (unat a) @ 46 # decimal (unat b))"
  proof (cases "?v \<ge> 80")
    case True
    then have "40 * unat a + unat b \<ge> 80" using v by (simp add: word_le_nat_alt)
    then have a: "unat a = 2" using ab by linarith
    have "unat (?v - 80) = unat b" using True v a by (simp add: unat_sub_if_size word_le_nat_alt)
    then show ?thesis
      using True does_append [OF does_add_bytes [of "[50, 46]"] dec [of "?v - 80"] refl] a decimal_2 by simp
  next
    case False
    then have "40 * unat a + unat b < 80" using v by (simp add: word_le_nat_alt not_le)
    then have a: "unat b < 40" using ab by (cases "unat a < 2") auto
    have "unat (?v div 40) = unat a" "unat (?v mod 40) = unat b"
      using a by (simp_all add: unat_div unat_mod v)
    then show ?thesis
      using False does_append [OF dec [of "?v div 40"] does_append [OF does_add_u8 [of 46] dec [of "?v mod 40"] refl] refl]
      by simp
  qed
  have all: "does (\<lambda>c. and_also (?first c) (\<lambda>c. and_also (oid_text_rest ?r c) (CBB_add_u8 0)))
      (oid_text vs @ [0])"
    by (rule does_append [OF first does_append [OF does_oid_text_rest does_add_u8 refl]])
      (simp add: vs oid_text_eq del: oid_text.simps)
  obtain c where c: "CBB_init 32 grants fresh = Some c"
    using grants by (simp add: CBB_init_def cbb_init_def)
  note init = CBB_init_quiet [OF c]
  obtain c' k where c': "and_also (?first c) (\<lambda>c. and_also (oid_text_rest ?r c) (CBB_add_u8 0)) = (True, c')"
    "CBB_finish c' = (Some (oid_text vs @ [0]), k)"
    using does_finish [OF all init(1,2)] init(3) grants len by auto
  have "parse_base128_integer (oid_contents vs) = (Some ?v, ?r)"
    by (simp add: vs oid_contents_def b128.dec_enc)
  with c c' show ?thesis
    unfolding CBS_asn1_oid_to_text_def
    by (simp add: and_also_eq_True del: if_split) (auto simp: and_also_def split: prod.splits if_splits)
qed

end
