(* ===== verification/Constant_Time.thy ===== *)
theory Constant_Time
  imports Mem
begin

text \<open>
  The constant-time selections of \<open>crypto/internal.h\<close> on a 64-bit \<open>crypto_word_t\<close>:
  masks in place of booleans, computed without branches. \<open>value_barrier_w\<close> is the
  identity on values. The lemmas say that each mask is all ones exactly when the
  comparison it stands for holds, so that code written with them equals code written
  with conditionals.
\<close>

definition constant_time_msb_w :: "u64 \<Rightarrow> u64" where
  "constant_time_msb_w a = 0 - drop_bit 63 a"

definition constant_time_lt_w :: "u64 \<Rightarrow> u64 \<Rightarrow> u64" where
  "constant_time_lt_w a b = constant_time_msb_w (a XOR ((a XOR b) OR ((a - b) XOR a)))"

definition constant_time_lt_8 :: "u64 \<Rightarrow> u64 \<Rightarrow> byte" where
  "constant_time_lt_8 a b = ucast (constant_time_lt_w a b)"

definition constant_time_ge_w :: "u64 \<Rightarrow> u64 \<Rightarrow> u64" where
  "constant_time_ge_w a b = NOT (constant_time_lt_w a b)"

definition constant_time_ge_8 :: "u64 \<Rightarrow> u64 \<Rightarrow> byte" where
  "constant_time_ge_8 a b = ucast (constant_time_ge_w a b)"

definition constant_time_is_zero_w :: "u64 \<Rightarrow> u64" where
  "constant_time_is_zero_w a = constant_time_msb_w (NOT a AND (a - 1))"

definition constant_time_is_zero_8 :: "u64 \<Rightarrow> byte" where
  "constant_time_is_zero_8 a = ucast (constant_time_is_zero_w a)"

definition constant_time_eq_w :: "u64 \<Rightarrow> u64 \<Rightarrow> u64" where
  "constant_time_eq_w a b = constant_time_is_zero_w (a XOR b)"

definition constant_time_eq_8 :: "u64 \<Rightarrow> u64 \<Rightarrow> byte" where
  "constant_time_eq_8 a b = ucast (constant_time_eq_w a b)"

text \<open>An \<open>int\<close> is the 32-bit word of its two's complement; the cast sign-extends.\<close>

definition constant_time_eq_int :: "u32 \<Rightarrow> u32 \<Rightarrow> u64" where
  "constant_time_eq_int a b = constant_time_eq_w (scast a) (scast b)"

definition constant_time_eq_int_8 :: "u32 \<Rightarrow> u32 \<Rightarrow> byte" where
  "constant_time_eq_int_8 a b = constant_time_eq_8 (scast a) (scast b)"

definition constant_time_select_w :: "u64 \<Rightarrow> u64 \<Rightarrow> u64 \<Rightarrow> u64" where
  "constant_time_select_w m a b = (m AND a) OR (NOT m AND b)"

definition constant_time_select_8 :: "byte \<Rightarrow> byte \<Rightarrow> byte \<Rightarrow> byte" where
  "constant_time_select_8 m a b = ucast (constant_time_select_w (ucast m) (ucast a) (ucast b))"

definition constant_time_select_int :: "u64 \<Rightarrow> u32 \<Rightarrow> u32 \<Rightarrow> u32" where
  "constant_time_select_int m a b = ucast (constant_time_select_w m (scast a) (scast b))"

section \<open>The masks are the comparisons\<close>

named_theorems constant_time \<open>masks and selections as conditionals\<close>

lemma constant_time_msb_w_eq: "constant_time_msb_w a = (if bit a 63 then - 1 else 0)"
proof -
  have "unat (drop_bit 63 a) = (if bit a 63 then 1 else 0)"
    using unat_less_pow(3) [of a] by (auto simp: unat_drop_bit_div bit_63_iff not_le intro!: div_nat_eqI)
  then have "drop_bit 63 a = (if bit a 63 then 1 else 0)"
    by (simp add: word_unat_eq_iff)
  then show ?thesis by (simp add: constant_time_msb_w_def)
qed

lemma bit_63_diff:
  fixes a b :: u64
  assumes "bit a 63 = bit b 63"
  shows "bit (a - b) 63 \<longleftrightarrow> a < b"
proof (cases "a < b")
  case True
  then have "unat (a - b) = unat a + 2 ^ 64 - unat b"
    by (simp add: unat_sub_if_size word_size word_less_nat_alt word_le_nat_alt)
  with True assms show ?thesis
    using unat_less_pow(3) [of a] unat_less_pow(3) [of b]
    by (auto simp: bit_63_iff word_less_nat_alt)
next
  case False
  then have "unat (a - b) = unat a - unat b"
    by (simp add: unat_sub_if_size word_size word_less_nat_alt word_le_nat_alt)
  with False assms show ?thesis
    using unat_less_pow(3) [of a] unat_less_pow(3) [of b]
    by (auto simp: bit_63_iff word_less_nat_alt)
qed

lemma constant_time_lt_w_eq [constant_time]: "constant_time_lt_w a b = (if a < b then - 1 else 0)"
proof -
  have "bit (a XOR ((a XOR b) OR ((a - b) XOR a))) 63 \<longleftrightarrow> a < b"
  proof (cases "bit a 63 = bit b 63")
    case True
    then show ?thesis using bit_63_diff [OF True] by (auto simp: bit_simps)
  next
    case False
    then have "a < b \<longleftrightarrow> bit b 63" by (auto simp: bit_63_iff word_less_nat_alt)
    with False show ?thesis by (auto simp: bit_simps)
  qed
  then show ?thesis by (simp add: constant_time_lt_w_def constant_time_msb_w_eq)
qed

lemma constant_time_is_zero_w_eq [constant_time]: "constant_time_is_zero_w a = (if a = 0 then - 1 else 0)"
proof (cases "a = 0")
  case False
  then have "unat (a - 1) = unat a - 1" by (rule unat_minus_one)
  then have "\<not> (\<not> bit a 63 \<and> bit (a - 1) 63)" by (auto simp: bit_63_iff)
  with False show ?thesis
    by (simp add: constant_time_is_zero_w_def constant_time_msb_w_eq bit_simps)
qed (simp add: constant_time_is_zero_w_def constant_time_msb_w_eq bit_simps)

lemma constant_time_eq_w_eq [constant_time]: "constant_time_eq_w a b = (if a = b then - 1 else 0)"
proof -
  have "a XOR b = 0 \<longleftrightarrow> a = b" by (auto simp: bit_eq_iff bit_simps)
  then show ?thesis by (simp add: constant_time_eq_w_def constant_time_is_zero_w_eq)
qed

lemma ucast_minus_1 [simp]: "(ucast (- 1 :: u64) :: byte) = 0xff"
  by (simp add: byte_eq_iff_bits bit_simps)

lemma constant_time_masks [constant_time]:
  "constant_time_ge_w a b = (if a \<ge> b then - 1 else 0)"
  "constant_time_lt_8 a b = (if a < b then 0xff else 0)"
  "constant_time_ge_8 a b = (if a \<ge> b then 0xff else 0)"
  "constant_time_is_zero_8 a = (if a = 0 then 0xff else 0)"
  "constant_time_eq_8 a b = (if a = b then 0xff else 0)"
  by (auto simp: constant_time_ge_w_def constant_time_lt_8_def constant_time_ge_8_def
      constant_time_is_zero_8_def constant_time_eq_8_def constant_time_lt_w_eq
      constant_time_is_zero_w_eq constant_time_eq_w_eq)

lemma constant_time_eq_int_eq [constant_time]:
  "constant_time_eq_int x y = (if x = y then - 1 else 0)"
  "constant_time_eq_int_8 x y = (if x = y then 0xff else 0)"
proof -
  have "(scast x :: u64) = scast y \<longleftrightarrow> x = y"
  proof
    assume "(scast x :: u64) = scast y"
    then have "(ucast (scast x :: u64) :: u32) = ucast (scast y :: u64)" by simp
    then show "x = y" by (simp add: bit_eq_iff bit_simps)
  qed simp
  then show "constant_time_eq_int x y = (if x = y then - 1 else 0)"
    "constant_time_eq_int_8 x y = (if x = y then 0xff else 0)"
    by (simp_all add: constant_time_eq_int_def constant_time_eq_int_8_def constant_time_eq_w_eq
        constant_time_masks)
qed

lemma constant_time_select_eq [constant_time]:
  "constant_time_select_w (if c then - 1 else 0) a b = (if c then a else b)"
  "constant_time_select_8 (if c then 0xff else 0) d e = (if c then d else e)"
  by (auto simp: constant_time_select_w_def constant_time_select_8_def byte_eq_iff_bits bit_simps)

lemma constant_time_select_int_eq [constant_time]:
  "constant_time_select_int (if c then - 1 else 0) x y = (if c then x else y)"
  by (auto simp: constant_time_select_int_def constant_time_select_w_def bit_eq_iff bit_simps)

end
