(* ===== verification/Incremental.thy ===== *)
theory Incremental
  imports Prelude
begin

text \<open>
  The contract of the code that takes its input in pieces (initialise, update any
  number of times, finish): a relation says that a state stands for the input fed so
  far. Whatever the pieces, the result is the function of their concatenation. The
  bound is the length up to which the counters of the code are exact.
\<close>

locale incremental =
  fixes init :: 's and step :: "'s \<Rightarrow> bytes \<Rightarrow> 's" and final :: "'s \<Rightarrow> 'r"
    and fed :: "'s \<Rightarrow> bytes \<Rightarrow> bool" and spec :: "bytes \<Rightarrow> 'r" and bound :: nat
  assumes fed_init: "fed init []"
    and fed_step: "fed s m \<Longrightarrow> length (m @ x) < bound \<Longrightarrow> fed (step s x) (m @ x)"
    and fed_final: "fed s m \<Longrightarrow> length m < bound \<Longrightarrow> final s = spec m"
begin

lemma fed_foldl:
  "fed s m \<Longrightarrow> length (m @ concat xs) < bound \<Longrightarrow> fed (foldl step s xs) (m @ concat xs)"
proof (induction xs arbitrary: s m)
  case (Cons x xs)
  then have "fed (step s x) (m @ x)" by (intro fed_step) simp_all
  with Cons show ?case by (metis append_assoc concat.simps(2) foldl_Cons)
qed simp

lemma final_foldl:
  "length (concat xs) < bound \<Longrightarrow> final (foldl step init xs) = spec (concat xs)"
  using fed_foldl [OF fed_init, of xs] fed_final by simp

lemma same_pieces:
  "concat xs = concat ys \<Longrightarrow> length (concat xs) < bound \<Longrightarrow>
   final (foldl step init xs) = final (foldl step init ys)"
  by (metis final_foldl)

end

end
