(* ===== verification/Base64.thy ===== *)
theory Base64
  imports Constant_Time Incremental
begin

text \<open>
  Base64 (\<open>crypto/base64/base64.c\<close>). Characters are bytes. A function that writes to
  \<open>out\<close> returns the bytes it writes there. \<open>EVP_ENCODE_CTX\<close> is the record of its
  fields; \<open>data\<close> is an array of 48 bytes of which \<open>data_used\<close> are in use. The
  specification is RFC 4648's table and grouping.
\<close>

section \<open>Characters\<close>

definition constant_time_lt_args_8 :: "byte \<Rightarrow> byte \<Rightarrow> byte" where
  "constant_time_lt_args_8 a b = ucast (constant_time_msb_w (ucast a - ucast b))"

definition constant_time_in_range_8 :: "byte \<Rightarrow> byte \<Rightarrow> byte \<Rightarrow> byte" where
  "constant_time_in_range_8 a lo hi = (let a = a - lo in constant_time_lt_args_8 a (hi - lo + 1))"

definition conv_bin2ascii :: "byte \<Rightarrow> byte" where
  "conv_bin2ascii a =
     (let a = a AND 0x3f;
          ret = constant_time_select_8 (constant_time_eq_8 (ucast a) 62) 43 47;
          ret = constant_time_select_8 (constant_time_lt_args_8 a 62) (a - 52 + 48) ret;
          ret = constant_time_select_8 (constant_time_lt_args_8 a 52) (a - 26 + 97) ret;
          ret = constant_time_select_8 (constant_time_lt_args_8 a 26) (a + 65) ret
      in ret)"

definition base64_ascii_to_bin :: "byte \<Rightarrow> byte" where
  "base64_ascii_to_bin a =
     (let is_upper = constant_time_in_range_8 a 65 90;
          is_lower = constant_time_in_range_8 a 97 122;
          is_digit = constant_time_in_range_8 a 48 57;
          is_plus = constant_time_eq_8 (ucast a) 43;
          is_slash = constant_time_eq_8 (ucast a) 47;
          is_equals = constant_time_eq_8 (ucast a) 61;
          ret = 0;
          ret = ret OR (is_upper AND (a - 65));
          ret = ret OR (is_lower AND (a - 97 + 26));
          ret = ret OR (is_digit AND (a - 48 + 52));
          ret = ret OR (is_plus AND 62);
          ret = ret OR (is_slash AND 63);
          is_valid = is_upper OR is_lower OR is_digit OR is_plus OR is_slash OR is_equals
      in ret OR NOT is_valid)"

section \<open>Encoding\<close>

definition EVP_EncodedLength :: "u64 \<Rightarrow> u64 option" where
  "EVP_EncodedLength len =
     (if len + 2 < len then None
      else let len = (len + 2) div 3
           in if drop_bit 2 (push_bit 2 len) \<noteq> len then None
              else let len = push_bit 2 len
                   in if len + 1 < len then None else Some (len + 1))"

fun encode_groups :: "bytes \<Rightarrow> bytes" where
  \<comment> \<open>the loop of \<open>EVP_EncodeBlock\<close>\<close>
  "encode_groups [] = []"
| "encode_groups [x] =
     (let l = push_bit 16 (ucast x) :: u32
      in [conv_bin2ascii (ucast (drop_bit 18 l)), conv_bin2ascii (ucast (drop_bit 12 l)), 61, 61])"
| "encode_groups [x, y] =
     (let l = push_bit 16 (ucast x) OR push_bit 8 (ucast y) :: u32
      in [conv_bin2ascii (ucast (drop_bit 18 l)), conv_bin2ascii (ucast (drop_bit 12 l)),
          conv_bin2ascii (ucast (drop_bit 6 l)), 61])"
| "encode_groups (x # y # z # src) =
     (let l = push_bit 16 (ucast x) OR push_bit 8 (ucast y) OR ucast z :: u32
      in [conv_bin2ascii (ucast (drop_bit 18 l)), conv_bin2ascii (ucast (drop_bit 12 l)),
          conv_bin2ascii (ucast (drop_bit 6 l)), conv_bin2ascii (ucast l)]
         @ encode_groups src)"

definition EVP_EncodeBlock :: "bytes \<Rightarrow> bytes \<times> nat" where
  \<comment> \<open>what it writes, the final NUL included, and the length it returns\<close>
  "EVP_EncodeBlock src = (let dst = encode_groups src in (dst @ [0], length dst))"

record evp_encode_ctx =
  data_used :: nat
  data :: bytes
  eof_seen :: bool
  error_encountered :: bool

definition EVP_EncodeInit :: evp_encode_ctx where
  "EVP_EncodeInit =
     \<lparr>data_used = 0, data = replicate 48 0, eof_seen = False, error_encountered = False\<rparr>"

definition INT_MAX :: nat where
  "INT_MAX = 2147483647"

text \<open>
  The loop over whole 48-byte blocks: the bytes written so far (without the NUL that
  the next line overwrites), the input left \<open>total\<close>, and whether it did not overflow.
\<close>

function encode_lines :: "bytes \<Rightarrow> bytes \<Rightarrow> u64 \<Rightarrow> bool \<times> bytes \<times> bytes \<times> u64" where
  "encode_lines out src tot =
     (if length src \<ge> 48 then
        let encoded = snd (EVP_EncodeBlock (take 48 src));
            out = out @ take encoded (fst (EVP_EncodeBlock (take 48 src))) @ [10]
        in if tot + of_nat encoded + 1 < tot then (False, out, src, tot)
           else encode_lines out (drop 48 src) (tot + (of_nat encoded + 1))
      else (True, out, src, tot))"
  by pat_completeness auto
termination
  by (relation "measure (\<lambda>(_, src, _). length src)") auto

declare encode_lines.simps [simp del]

definition EVP_EncodeUpdate :: "evp_encode_ctx \<Rightarrow> bytes \<Rightarrow> evp_encode_ctx \<times> bytes \<times> nat" where
  \<comment> \<open>the context, the bytes written to \<open>out\<close> without the NUL, and \<open>*out_len\<close>\<close>
  "EVP_EncodeUpdate ctx src =
     (if length src = 0 then (ctx, [], 0)
      else if 48 - data_used ctx > length src
      then (ctx\<lparr>data := poke (data ctx) (data_used ctx) src,
                data_used := data_used ctx + length src\<rparr>, [], 0)
      else
        let (ctx, out, src, tot) =
          (if data_used ctx \<noteq> 0
           then let todo = 48 - data_used ctx;
                    ctx = ctx\<lparr>data := poke (data ctx) (data_used ctx) (take todo src)\<rparr>;
                    encoded = snd (EVP_EncodeBlock (data ctx))
                in (ctx\<lparr>data_used := 0\<rparr>, take encoded (fst (EVP_EncodeBlock (data ctx))) @ [10],
                    drop todo src, of_nat encoded + 1)
           else (ctx, [], src, 0 :: u64))
        in case encode_lines out src tot of
             (False, out, src, tot) \<Rightarrow> (ctx, out, 0)
           | (True, out, src, tot) \<Rightarrow>
               (ctx\<lparr>data := poke (data ctx) 0 src, data_used := length src\<rparr>, out,
                if unat tot > INT_MAX then 0 else unat tot))"

definition EVP_EncodeFinal :: "evp_encode_ctx \<Rightarrow> evp_encode_ctx \<times> bytes \<times> nat" where
  "EVP_EncodeFinal ctx =
     (if data_used ctx = 0 then (ctx, [], 0)
      else let encoded = snd (EVP_EncodeBlock (take (data_used ctx) (data ctx)));
               out = take encoded (fst (EVP_EncodeBlock (take (data_used ctx) (data ctx)))) @ [10]
           in (ctx\<lparr>data_used := 0\<rparr>, out, encoded + 1))"

section \<open>Decoding\<close>

definition EVP_DecodedLength :: "nat \<Rightarrow> nat option" where
  "EVP_DecodedLength len = (if len mod 4 \<noteq> 0 then None else Some (len div 4 * 3))"

definition EVP_DecodeInit :: evp_encode_ctx where
  "EVP_DecodeInit =
     \<lparr>data_used = 0, data = replicate 48 0, eof_seen = False, error_encountered = False\<rparr>"

definition base64_decode_quad :: "bytes \<Rightarrow> bytes option" where
  \<comment> \<open>the bytes written; their number is \<open>*out_num_bytes\<close>\<close>
  "base64_decode_quad src =
     (let a = base64_ascii_to_bin (src ! 0); b = base64_ascii_to_bin (src ! 1);
          c = base64_ascii_to_bin (src ! 2); d = base64_ascii_to_bin (src ! 3)
      in if a = 0xff \<or> b = 0xff \<or> c = 0xff \<or> d = 0xff then None
         else let v = push_bit 18 (ucast a) OR push_bit 12 (ucast b) OR push_bit 6 (ucast c) OR ucast d :: u32;
                  padding_pattern = push_bit 3 (of_bool (src ! 0 = 61)) OR push_bit 2 (of_bool (src ! 1 = 61))
                    OR push_bit 1 (of_bool (src ! 2 = 61)) OR of_bool (src ! 3 = 61) :: u32
              in if padding_pattern = 0
                 then Some [ucast (drop_bit 16 v), ucast (drop_bit 8 v), ucast v]
                 else if padding_pattern = 1 then Some [ucast (drop_bit 16 v), ucast (drop_bit 8 v)]
                 else if padding_pattern = 3 then Some [ucast (drop_bit 16 v)]
                 else None)"

definition base64_space :: "byte \<Rightarrow> bool" where
  \<comment> \<open>space, tab, carriage return and newline\<close>
  "base64_space c \<longleftrightarrow> c = 32 \<or> c = 9 \<or> c = 13 \<or> c = 10"

fun decode_loop :: "evp_encode_ctx \<Rightarrow> bytes \<Rightarrow> bytes \<Rightarrow> evp_encode_ctx \<times> bytes" where
  "decode_loop ctx out [] = (ctx, out)"
| "decode_loop ctx out (c # src) =
     (if base64_space c then decode_loop ctx out src
      else if eof_seen ctx then (ctx\<lparr>error_encountered := True\<rparr>, out)
      else let ctx = ctx\<lparr>data := poke (data ctx) (data_used ctx) [c], data_used := data_used ctx + 1\<rparr>
           in if data_used ctx = 4
              then (case base64_decode_quad (data ctx) of
                      None \<Rightarrow> (ctx\<lparr>error_encountered := True\<rparr>, out)
                    | Some bs \<Rightarrow>
                        let ctx = ctx\<lparr>data_used := 0\<rparr>;
                            ctx = (if length bs < 3 then ctx\<lparr>eof_seen := True\<rparr> else ctx)
                        in decode_loop ctx (out @ bs) src)
              else decode_loop ctx out src)"

definition EVP_DecodeUpdate :: "evp_encode_ctx \<Rightarrow> bytes \<Rightarrow> int \<times> evp_encode_ctx \<times> bytes \<times> nat" where
  \<comment> \<open>the return value, the context, the bytes written and \<open>*out_len\<close>\<close>
  "EVP_DecodeUpdate ctx src =
     (if error_encountered ctx then (-1, ctx, [], 0)
      else case decode_loop ctx [] src of (ctx, out) \<Rightarrow>
        if error_encountered ctx then (-1, ctx, out, 0)
        else if length out > INT_MAX then (-1, ctx\<lparr>error_encountered := True\<rparr>, out, 0)
        else (if eof_seen ctx then 0 else 1, ctx, out, length out))"

definition EVP_DecodeFinal :: "evp_encode_ctx \<Rightarrow> int" where
  "EVP_DecodeFinal ctx = (if error_encountered ctx \<or> data_used ctx \<noteq> 0 then -1 else 1)"

fun decode_quads :: "bytes \<Rightarrow> bytes option" where
  \<comment> \<open>the loop of \<open>EVP_DecodeBase64\<close>\<close>
  "decode_quads [] = Some []"
| "decode_quads (a # b # c # d # src) =
     (case base64_decode_quad [a, b, c, d] of
        None \<Rightarrow> None
      | Some bs \<Rightarrow>
          if length bs \<noteq> 3 \<and> src \<noteq> [] then None
          else map_option (\<lambda>out. bs @ out) (decode_quads src))"
| "decode_quads _ = None"

definition EVP_DecodeBase64 :: "nat \<Rightarrow> bytes \<Rightarrow> bytes option" where
  "EVP_DecodeBase64 max_out src =
     (if length src mod 4 \<noteq> 0 then None
      else case EVP_DecodedLength (length src) of
             None \<Rightarrow> None
           | Some max_len \<Rightarrow> if max_out < max_len then None else decode_quads src)"

definition EVP_DecodeBlock :: "bytes \<Rightarrow> bytes option" where
  \<comment> \<open>the bytes written, whose number is returned, or nothing for -1\<close>
  "EVP_DecodeBlock src =
     (let src = dropWhile (\<lambda>c. c = 32 \<or> c = 9) src;
          src = rev (dropWhile base64_space (rev src))
      in case EVP_DecodedLength (length src) of
           None \<Rightarrow> None
         | Some dst_len \<Rightarrow>
             if dst_len > INT_MAX then None
             else case EVP_DecodeBase64 dst_len src of
                    None \<Rightarrow> None
                  | Some dst \<Rightarrow> Some (dst @ replicate ((3 - length dst mod 3) mod 3) 0))"

section \<open>The character table\<close>

definition alphabet :: bytes where
  "alphabet = map of_nat ([65..<91] @ [97..<123] @ [48..<58] @ [43, 47])"

lemma alphabet_nth:
  "i < 64 \<Longrightarrow> alphabet ! i =
     (if i < 26 then of_nat (i + 65) else if i < 52 then of_nat (i + 71)
      else if i < 62 then of_nat (i - 4) else if i = 62 then 43 else 47)"
  by (auto simp: alphabet_def nth_append nth_Cons' simp del: upt_rec_numeral)

lemma lt_args_8_eq: "constant_time_lt_args_8 a b = (if a < b then 0xff else 0)"
proof -
  have "\<not> bit (ucast a :: u64) 63" "\<not> bit (ucast b :: u64) 63"
    using unat_byte_less [of a] unat_byte_less [of b] by (simp_all add: bit_63_iff del: unat_byte_less)
  then have "bit (ucast a - ucast b :: u64) 63 \<longleftrightarrow> a < b"
    by (subst bit_63_diff) (simp_all add: word_less_nat_alt)
  then show ?thesis by (simp add: constant_time_lt_args_8_def constant_time_msb_w_eq)
qed

lemma in_range_8_eq:
  assumes "unat lo \<le> unat hi" "unat hi < 255"
  shows "constant_time_in_range_8 a lo hi = (if lo \<le> a \<and> a \<le> hi then 0xff else 0)"
proof -
  have "unat (hi - lo + 1) = unat hi - unat lo + 1"
    using assms by (simp add: unat_plus_if' unat_sub_if_size word_size)
  moreover have "unat (a - lo) = (if lo \<le> a then unat a - unat lo else unat a + 256 - unat lo)"
    by (simp add: unat_sub_if_size word_size word_le_nat_alt)
  ultimately have "a - lo < hi - lo + 1 \<longleftrightarrow> lo \<le> a \<and> a \<le> hi"
    using assms by (auto simp: word_less_nat_alt word_le_nat_alt)
  then show ?thesis by (simp add: constant_time_in_range_8_def lt_args_8_eq)
qed

lemma eq_8_byte: "constant_time_eq_8 (ucast (a :: byte)) w = (if unat a = unat w then 0xff else 0)"
  by (simp add: constant_time_masks word_unat_eq_iff)

lemma conv_bin2ascii_eq: "conv_bin2ascii a = alphabet ! (unat a mod 64)"
proof -
  have "0x3f = (mask 6 :: byte)" by (simp add: mask_eq_exp_minus_1)
  then have "unat (a AND 0x3f) = unat a mod 64" by (simp only: unat_mask_eq) simp
  then have "a AND 0x3f = of_nat (unat a mod 64)" by (simp add: word_unat_eq_iff)
  moreover define i where "i = unat a mod 64"
  ultimately have i: "i < 64" "unat a mod 64 = i" "a AND 0x3f = of_nat i" by simp_all
  then have u: "unat (of_nat i :: byte) = i" by simp
  have "conv_bin2ascii a = (if i < 26 then of_nat i + 65 else if i < 52 then of_nat i - 26 + 97
      else if i < 62 then of_nat i - 52 + 48 else if i = 62 then 43 else 47)"
    using u by (simp add: conv_bin2ascii_def i(3) eq_8_byte lt_args_8_eq constant_time_select_eq
        word_less_nat_alt Let_def)
  also have "\<dots> = alphabet ! i"
    using i(1) by (auto simp: alphabet_nth of_nat_diff)
  finally show ?thesis using i by simp
qed

lemma base64_ascii_to_bin_eq:
  "base64_ascii_to_bin a =
     (if 65 \<le> a \<and> a \<le> 90 then a - 65 else if 97 \<le> a \<and> a \<le> 122 then a - 71
      else if 48 \<le> a \<and> a \<le> 57 then a + 4 else if a = 43 then 62 else if a = 47 then 63
      else if a = 61 then 0 else 0xff)"
proof -
  have [simp]: "(- 256 :: byte) = 0" by simp
  have [simp]: "0xff AND x = x" for x :: byte by (simp add: byte_eq_iff_bits bit_simps)
  have a: "unat a = n \<longleftrightarrow> a = of_nat n" if "n < 256" for n
    using that by (auto simp: word_unat_eq_iff)
  show ?thesis
    unfolding base64_ascii_to_bin_def Let_def
    by (simp add: in_range_8_eq eq_8_byte a) (auto simp: word_le_nat_alt)
qed

text \<open>The two tables are inverse, and the padding character is in neither.\<close>

lemma unat_alphabet:
  assumes "i < 64"
  shows "unat (alphabet ! i) =
     (if i < 26 then i + 65 else if i < 52 then i + 71
      else if i < 62 then i - 4 else if i = 62 then 43 else 47)" (is "_ = ?v")
proof -
  have "alphabet ! i = of_nat ?v" using assms by (auto simp: alphabet_nth of_nat_diff)
  then show ?thesis using assms by (simp only: unat_byte_of_nat) auto
qed

lemma alphabet_char:
  assumes "i < 64"
  shows "base64_ascii_to_bin (alphabet ! i) = of_nat i" "alphabet ! i \<noteq> 61"
    "\<not> base64_space (alphabet ! i)"
proof -
  show "base64_ascii_to_bin (alphabet ! i) = of_nat i"
    unfolding base64_ascii_to_bin_eq word_le_nat_alt word_unat_eq_iff
    using assms by (auto simp: unat_alphabet unat_sub_if_size word_size unat_word_ariths)
  show "alphabet ! i \<noteq> 61" "\<not> base64_space (alphabet ! i)"
    unfolding base64_space_def word_unat_eq_iff using assms by (auto simp: unat_alphabet)
qed

section \<open>Groups\<close>

text \<open>The 24 bits of a group, and the character at each six of them.\<close>

definition group_val :: "byte \<Rightarrow> byte \<Rightarrow> byte \<Rightarrow> nat" where
  "group_val x y z = unat x * 65536 + unat y * 256 + unat z"

definition digit :: "nat \<Rightarrow> nat \<Rightarrow> byte" where
  "digit n k = alphabet ! (n div 64 ^ k mod 64)"

lemma group_val_less: "group_val x y z < 2 ^ 24"
  using unat_byte_less [of x] unat_byte_less [of y] unat_byte_less [of z]
  by (simp add: group_val_def del: unat_byte_less)

lemma unat_group_word:
  "unat (push_bit 16 (ucast x) OR push_bit 8 (ucast y) OR ucast z :: u32) = group_val x y z"
proof -
  note less = unat_byte_less [of x] unat_byte_less [of y] unat_byte_less [of z]
  have yz: "unat (push_bit 8 (ucast y) OR ucast z :: u32) = unat y * 256 + unat z"
    using less by (subst unat_push_or) (simp_all del: unat_byte_less)
  have "unat (push_bit 16 (ucast x) OR (push_bit 8 (ucast y) OR ucast z) :: u32) =
      (unat x * 2 ^ 16 + (unat y * 256 + unat z)) mod 2 ^ 32"
    using less by (subst unat_push_or) (simp_all add: yz del: unat_byte_less)
  then show ?thesis
    using less by (simp add: group_val_def or.assoc del: unat_byte_less)
qed

lemma conv_shift:
  "conv_bin2ascii (ucast (drop_bit (6 * k) l)) = digit (unat l) k" for l :: u32
proof -
  have "unat (ucast (drop_bit (6 * k) l) :: byte) mod 64 = unat l div 64 ^ k mod 64"
    by (simp add: unsigned_ucast_eq take_bit_eq_mod unat_drop_bit_div mod_mod_cancel power_mult)
  then show ?thesis by (simp add: conv_bin2ascii_eq digit_def)
qed

lemma encode_group:
  "encode_groups (x # y # z # src) =
     [digit (group_val x y z) 3, digit (group_val x y z) 2, digit (group_val x y z) 1,
      digit (group_val x y z) 0] @ encode_groups src"
  "encode_groups [x, y] =
     [digit (group_val x y 0) 3, digit (group_val x y 0) 2, digit (group_val x y 0) 1, 61]"
  "encode_groups [x] = [digit (group_val x 0 0) 3, digit (group_val x 0 0) 2, 61, 61]"
  using unat_group_word [of x y z] unat_group_word [of x y 0] unat_group_word [of x 0 0]
    conv_shift [of 0] conv_shift [of 1] conv_shift [of 2] conv_shift [of 3]
  by (simp_all add: Let_def)

lemma quad_value:
  assumes "a < 64" "b < 64" "c < 64" "d < 64"
  shows "unat (push_bit 18 (ucast (of_nat a :: byte)) OR push_bit 12 (ucast (of_nat b :: byte)) OR
      push_bit 6 (ucast (of_nat c :: byte)) OR ucast (of_nat d :: byte) :: u32) =
    a * 2 ^ 18 + b * 2 ^ 12 + c * 2 ^ 6 + d"
proof -
  have u: "unat (ucast (of_nat i :: byte) :: u32) = i" if "i < 64" for i
    using that by (simp only: unat_ucast_byte unat_byte_of_nat) simp
  have cd: "unat (push_bit 6 (ucast (of_nat c :: byte)) OR ucast (of_nat d :: byte) :: u32) = c * 2 ^ 6 + d"
    using assms by (subst unat_push_or) (simp_all add: u del: unat_ucast_byte)
  have bcd: "unat (push_bit 12 (ucast (of_nat b :: byte)) OR (push_bit 6 (ucast (of_nat c :: byte))
      OR ucast (of_nat d :: byte)) :: u32) = b * 2 ^ 12 + (c * 2 ^ 6 + d)"
    using assms by (subst unat_push_or) (simp_all add: u cd del: unat_ucast_byte)
  show ?thesis
    unfolding or.assoc
    using assms by (subst unat_push_or) (simp_all add: u bcd del: unat_ucast_byte)
qed

lemma digits_value:
  "n < 2 ^ 24 \<Longrightarrow> n div 64 ^ 3 mod 64 * 2 ^ 18 + n div 64 ^ 2 mod 64 * 2 ^ 12 +
     n div 64 ^ 1 mod 64 * 2 ^ 6 + n div 64 ^ 0 mod 64 = n" for n :: nat
proof -
  assume "n < 2 ^ 24"
  then have "n div 262144 < 64" by simp
  then have "n div 262144 mod 64 = n div 262144" by simp
  moreover have "n div 4096 = n div 262144 * 64 + n div 4096 mod 64"
    using div_mult_mod_eq [of "n div 4096" 64] by (simp flip: div_mult2_eq)
  moreover have "n div 64 = n div 4096 * 64 + n div 64 mod 64"
    using div_mult_mod_eq [of "n div 64" 64] by (simp flip: div_mult2_eq)
  moreover have "n = n div 64 * 64 + n mod 64" by simp
  ultimately have "n div 262144 mod 64 * 262144 + n div 4096 mod 64 * 4096 + n div 64 mod 64 * 64 +
      n mod 64 = n"
    by linarith
  moreover have "(64 :: nat) ^ 3 = 262144" "(64 :: nat) ^ 2 = 4096" "(2 :: nat) ^ 18 = 262144"
    "(2 :: nat) ^ 12 = 4096" "(2 :: nat) ^ 6 = 64" by simp_all
  ultimately show ?thesis by (simp only: power_one_right power_0 div_by_1)
qed

lemma digit_char:
  "base64_ascii_to_bin (digit n k) = of_nat (n div 64 ^ k mod 64)" "digit n k \<noteq> 61"
  "\<not> base64_space (digit n k)"
  using alphabet_char [of "n div 64 ^ k mod 64"] by (simp_all add: digit_def)

lemma pad_char: "base64_ascii_to_bin 61 = 0" "\<not> base64_space 61"
  by (simp_all add: base64_ascii_to_bin_eq base64_space_def)

lemma small_not_ff: "i < 64 \<Longrightarrow> (of_nat i :: byte) \<noteq> 0xff"
  by (simp add: word_unat_eq_iff)

lemma group_bytes:
  "of_nat (group_val x y z div 65536) = x" "of_nat (group_val x y z div 256) = y"
  "of_nat (group_val x y z) = z"
proof -
  note less = unat_byte_less [of x] unat_byte_less [of y] unat_byte_less [of z]
  have "group_val x y z div 65536 = unat x" "group_val x y z div 256 = unat x * 256 + unat y"
    using less by (simp_all add: group_val_def div_nat_eqI del: unat_byte_less)
  then show "of_nat (group_val x y z div 65536) = x" "of_nat (group_val x y z div 256) = y"
    by (simp, simp only: word_unat_eq_iff unat_byte_of_nat, simp)
  have "group_val x y z mod 256 = ((unat x * 256 + unat y) * 256 + unat z) mod 256"
    by (simp add: group_val_def algebra_simps)
  also have "\<dots> = unat z" unfolding mod_mult_self3 by simp
  finally show "of_nat (group_val x y z) = z"
    by (simp only: word_unat_eq_iff unat_byte_of_nat)
qed

lemma quad_word:
  fixes v :: u32
  assumes "unat v = group_val x y z"
  shows "ucast (drop_bit 16 v) = x" "ucast (drop_bit 8 v) = y" "ucast v = z"
proof -
  have u: "(ucast w :: byte) = of_nat (unat w)" for w :: u32
    by (simp add: word_unat_eq_iff unsigned_ucast_eq take_bit_eq_mod)
  show "ucast (drop_bit 16 v) = x" "ucast (drop_bit 8 v) = y" "ucast v = z"
    using group_bytes [of x y z] by (simp_all only: u unat_drop_bit_div assms) simp_all
qed

lemma decode_quad_group:
  assumes "n = group_val x y z"
  shows "base64_decode_quad [digit n 3, digit n 2, digit n 1, digit n 0] = Some [x, y, z]"
    and "z = 0 \<Longrightarrow> base64_decode_quad [digit n 3, digit n 2, digit n 1, 61] = Some [x, y]"
    and "y = 0 \<Longrightarrow> z = 0 \<Longrightarrow> base64_decode_quad [digit n 3, digit n 2, 61, 61] = Some [x]"
proof -
  let ?q = "\<lambda>k. of_nat (n div 64 ^ k mod 64) :: byte"
  let ?v = "push_bit 18 (ucast (?q 3)) OR push_bit 12 (ucast (?q 2)) OR push_bit 6 (ucast (?q 1))
    OR ucast (?q 0) :: u32"
  have n: "n < 2 ^ 24" using assms group_val_less by simp
  have m: "i mod 64 < 64" for i :: nat by simp
  have v: "unat ?v = n"
    using quad_value [OF m m m m, of "n div 64 ^ 3" "n div 64 ^ 2" "n div 64 ^ 1" "n div 64 ^ 0"]
    unfolding digits_value [OF n] .
  have w: "ucast (drop_bit 16 ?v) = x" "ucast (drop_bit 8 ?v) = y" "ucast ?v = z"
    by (rule quad_word [OF trans [OF v assms]])+
  have ff: "(of_nat (m mod 64) :: byte) \<noteq> 0xff" for m by (intro small_not_ff) simp
  have z0: "z = 0 \<Longrightarrow> ?q 0 = 0" "y = 0 \<Longrightarrow> z = 0 \<Longrightarrow> ?q 1 = 0"
  proof -
    show "?q 0 = 0" if "z = 0"
    proof -
      have "n = (unat x * 1024 + unat y * 4) * 64" using assms that by (simp add: group_val_def)
      then have "n mod 64 = 0" by (simp only: mod_mult_self2_is_0)
      then show ?thesis by simp
    qed
    show "?q 1 = 0" if "y = 0" "z = 0"
    proof -
      have "n = (unat x * 16 * 64) * 64" using assms that by (simp add: group_val_def)
      then have "n div 64 = unat x * 16 * 64" by (simp only: div_mult_self_is_m)
      then have "n div 64 mod 64 = 0" by (simp only: mod_mult_self2_is_0)
      then show ?thesis by simp
    qed
  qed
  show "base64_decode_quad [digit n 3, digit n 2, digit n 1, digit n 0] = Some [x, y, z]"
    unfolding base64_decode_quad_def Let_def
    by (simp only: nth_Cons_0 nth_Cons_Suc numeral_2_eq_2 numeral_3_eq_3 One_nat_def digit_char ff)
      (use w ff digit_char(2) in simp)
  show "base64_decode_quad [digit n 3, digit n 2, digit n 1, 61] = Some [x, y]" if "z = 0"
    using w ff digit_char z0(1) [OF that] by (simp add: base64_decode_quad_def Let_def pad_char numeral_3_eq_3)
  show "base64_decode_quad [digit n 3, digit n 2, 61, 61] = Some [x]" if "y = 0" "z = 0"
    using w ff digit_char z0(1) [OF that(2)] z0(2) [OF that]
    by (simp add: base64_decode_quad_def Let_def pad_char numeral_3_eq_3)
qed

section \<open>Round trip\<close>

lemma length_encode_groups: "length (encode_groups d) = 4 * ((length d + 2) div 3)"
proof (induction d rule: encode_groups.induct)
  case (4 x y z src)
  have "(length (x # y # z # src) + 2) div 3 = Suc ((length src + 2) div 3)" by simp
  with 4 show ?case by (simp only: encode_group) simp
qed (simp_all add: Let_def)

lemma encode_groups_Nil [simp]: "encode_groups d = [] \<longleftrightarrow> d = []"
  by (cases d rule: encode_groups.cases) (simp_all add: Let_def)

lemma decode_encode_groups: "decode_quads (encode_groups d) = Some d"
proof (induction d rule: encode_groups.induct)
  case (2 x)
  show ?case using decode_quad_group(3) [OF refl, of 0 0 x] by (simp only: encode_group) simp
next
  case (3 x y)
  show ?case using decode_quad_group(2) [OF refl, of 0 x y] by (simp only: encode_group) simp
next
  case (4 x y z src)
  then show ?case using decode_quad_group(1) [OF refl, of x y z] by (simp only: encode_group) simp
qed simp

text \<open>Every string the decoder accepts has a whole number of quads and at most three bytes for each.\<close>

lemma length_decode_quad: "base64_decode_quad q = Some bs \<Longrightarrow> 1 \<le> length bs \<and> length bs \<le> 3"
  by (auto simp: base64_decode_quad_def Let_def split: if_splits)

lemma length_decode_quads: "decode_quads src = Some out \<Longrightarrow> length out \<le> length src div 4 * 3"
proof (induction src arbitrary: out rule: decode_quads.induct)
  case (2 a b c d src)
  then obtain bs rest where "base64_decode_quad [a, b, c, d] = Some bs" "decode_quads src = Some rest"
    "out = bs @ rest" "length bs \<noteq> 3 \<longrightarrow> src = []"
    by (auto split: option.splits if_splits)
  moreover from this have "length rest \<le> length src div 4 * 3" using 2 by blast
  moreover have "length (a # b # c # d # src) div 4 = Suc (length src div 4)" by simp
  ultimately show ?case using length_decode_quad [of "[a, b, c, d]" bs] by (simp only: length_append) simp
qed auto

lemma decode_base64_encode:
  "(length d + 2) div 3 * 3 \<le> max_out \<Longrightarrow>
   EVP_DecodeBase64 max_out (take (snd (EVP_EncodeBlock d)) (fst (EVP_EncodeBlock d))) = Some d"
  by (simp add: EVP_DecodeBase64_def EVP_DecodedLength_def EVP_EncodeBlock_def Let_def
      length_encode_groups decode_encode_groups)

text \<open>The length a caller allocates is that of the encoding with its NUL.\<close>

lemma encoded_length:
  assumes "4 * ((length d + 2) div 3) + 1 < 2 ^ 64" "length d + 2 < 2 ^ 64"
  shows "EVP_EncodedLength (of_nat (length d)) = Some (of_nat (length (fst (EVP_EncodeBlock d))))"
proof -
  let ?n = "length d"
  have n: "unat (of_nat ?n + 2 :: u64) = ?n + 2"
    using assms(2) by (simp add: unat_plus_if' unat_of_nat)
  let ?q = "(of_nat ?n + 2) div 3 :: u64"
  have q: "unat ?q = (?n + 2) div 3" by (simp only: unat_div n) simp
  have q4: "unat (push_bit 2 ?q) = 4 * ((?n + 2) div 3)"
  proof -
    have "unat (push_bit 2 w) = (unat w * 4) mod 2 ^ 64" for w :: u64
      unfolding unsigned_push_bit_eq by (simp add: push_bit_eq_mult take_bit_eq_mod)
    then have "unat (push_bit 2 ?q) = (unat ?q * 4) mod 2 ^ 64" .
    then show ?thesis using assms(1) unfolding q by simp
  qed
  have "\<not> (of_nat ?n + 2 :: u64) < of_nat ?n"
    using assms(2) n by (simp add: word_less_nat_alt unat_of_nat)
  moreover have "drop_bit 2 (push_bit 2 ?q) = ?q"
    using q by (simp only: word_unat_eq_iff unat_drop_bit_div q4) simp
  moreover have q5: "unat (push_bit 2 ?q + 1) = 4 * ((?n + 2) div 3) + 1"
    using assms(1) q4 by (simp add: unat_plus_if')
  then have "\<not> push_bit 2 ?q + 1 < push_bit 2 ?q"
    using q4 by (simp add: word_less_nat_alt)
  moreover have "push_bit 2 ?q + 1 = of_nat (length (fst (EVP_EncodeBlock d)))"
  proof -
    have u: "unat (of_nat m :: u64) = m" if "m < 2 ^ 64" for m using that by (simp add: unat_of_nat)
    have "length (fst (EVP_EncodeBlock d)) = 4 * ((?n + 2) div 3) + 1"
      by (simp add: EVP_EncodeBlock_def Let_def length_encode_groups)
    then show ?thesis using u [OF assms(1)] q5 by (simp only: word_unat_eq_iff)
  qed
  ultimately show ?thesis by (simp only: EVP_EncodedLength_def Let_def if_False not_not) simp
qed

end
