(* ===== verification/Base64_Stream.thy ===== *)
theory Base64_Stream
  imports Base64
begin

text \<open>
  The incremental encoder and decoder of \<open>base64.c\<close>: whatever pieces the input comes
  in, the encoder writes the lines of 48 input bytes each that the whole input has,
  the decoder yields what the whole text decodes to, and the decoder undoes the
  encoder. Both are interpretations of \<open>incremental\<close>.
\<close>

section \<open>Encoding\<close>

function b64_lines :: "bytes \<Rightarrow> bytes" where
  "b64_lines m = (if length m \<ge> 48 then encode_groups (take 48 m) @ [10] @ b64_lines (drop 48 m) else [])"
  by pat_completeness auto
termination by (relation "measure length") auto

function b64_rest :: "bytes \<Rightarrow> bytes" where
  "b64_rest m = (if length m \<ge> 48 then b64_rest (drop 48 m) else m)"
  by pat_completeness auto
termination by (relation "measure length") auto

declare b64_lines.simps [simp del] b64_rest.simps [simp del]

definition b64_text :: "bytes \<Rightarrow> bytes" where
  "b64_text m = b64_lines m @ (if b64_rest m = [] then [] else encode_groups (b64_rest m) @ [10])"

lemma b64_short: "length m < 48 \<Longrightarrow> b64_lines m = []" "length m < 48 \<Longrightarrow> b64_rest m = m"
  by (subst b64_lines.simps, simp) (subst b64_rest.simps, simp)

lemma b64_block:
  assumes "length b = 48"
  shows "b64_lines (b @ m) = encode_groups b @ [10] @ b64_lines m" "b64_rest (b @ m) = b64_rest m"
  using assms by (subst b64_lines.simps, simp) (subst b64_rest.simps, use assms in simp)

lemma b64_append:
  "b64_lines (m @ x) = b64_lines m @ b64_lines (b64_rest m @ x)"
  "b64_rest (m @ x) = b64_rest (b64_rest m @ x)"
proof (induction m rule: b64_lines.induct)
  case (1 m)
  show "b64_lines (m @ x) = b64_lines m @ b64_lines (b64_rest m @ x)"
    "b64_rest (m @ x) = b64_rest (b64_rest m @ x)"
  proof -
    show "b64_lines (m @ x) = b64_lines m @ b64_lines (b64_rest m @ x)"
    proof (cases "48 \<le> length m")
      case True
      then have "m = take 48 m @ drop 48 m" "length (take 48 m) = 48" by simp_all
      with 1(1) [OF True] show ?thesis by (metis append_assoc b64_block)
    qed (simp add: b64_short)
    show "b64_rest (m @ x) = b64_rest (b64_rest m @ x)"
    proof (cases "48 \<le> length m")
      case True
      then have "m = take 48 m @ drop 48 m" "length (take 48 m) = 48" by simp_all
      with 1(2) [OF True] show ?thesis by (metis append_assoc b64_block(2))
    qed (simp add: b64_short)
  qed
qed

lemma length_b64_rest: "length (b64_rest m) < 48"
  by (induction m rule: b64_rest.induct) (subst b64_rest.simps, simp)

lemma length_b64_lines: "length (b64_lines m) = 65 * (length m div 48)"
proof (induction m rule: b64_lines.induct)
  case (1 m)
  show ?case
  proof (cases "48 \<le> length m")
    case True
    then have "length m div 48 = Suc ((length m - 48) div 48)" by (simp add: le_div_geq)
    with 1 True show ?thesis by (subst b64_lines.simps) (simp add: length_encode_groups)
  qed (simp add: b64_short)
qed

lemma EVP_EncodeBlock_eq: "EVP_EncodeBlock d = (encode_groups d @ [0], length (encode_groups d))"
  by (simp add: EVP_EncodeBlock_def Let_def)

lemma encode_lines_eq:
  "unat tot + length (b64_lines src) < 2 ^ 64 \<Longrightarrow>
   encode_lines out src tot =
     (True, out @ b64_lines src, b64_rest src, tot + of_nat (length (b64_lines src)))"
proof (induction out src tot rule: encode_lines.induct)
  case (1 out src tot)
  show ?case
  proof (cases "48 \<le> length src")
    case True
    let ?b = "take 48 src"
    have lines: "b64_lines src = encode_groups ?b @ [10] @ b64_lines (drop 48 src)"
      "b64_rest src = b64_rest (drop 48 src)"
      using True b64_block [of ?b "drop 48 src"] by simp_all
    have e: "length (encode_groups ?b) = 64" using True by (simp add: length_encode_groups)
    have t: "unat (tot + 65) = unat tot + 65"
      using 1(2) lines(1) e by (simp add: unat_plus_if')
    then have no: "\<not> tot + 65 < tot" "\<not> 65 + tot < tot"
      by (simp_all add: word_less_nat_alt add.commute)
    have "encode_lines (out @ encode_groups ?b @ [10]) (drop 48 src) (tot + 65) =
        (True, (out @ encode_groups ?b @ [10]) @ b64_lines (drop 48 src), b64_rest (drop 48 src),
         tot + 65 + of_nat (length (b64_lines (drop 48 src))))"
      using 1(1) [OF True refl refl] 1(2) no t lines(1) e
      by (simp add: EVP_EncodeBlock_eq)
    moreover have "encode_lines out src tot = encode_lines (out @ encode_groups ?b @ [10]) (drop 48 src) (tot + 65)"
      using True no e by (subst encode_lines.simps)
        (simp add: EVP_EncodeBlock_eq Let_def)
    ultimately show ?thesis using lines e by simp
  qed (simp add: b64_short encode_lines.simps)
qed

definition encode_step :: "evp_encode_ctx \<times> bytes \<Rightarrow> bytes \<Rightarrow> evp_encode_ctx \<times> bytes" where
  \<comment> \<open>a caller keeps the first \<open>*out_len\<close> bytes of each call\<close>
  "encode_step s x =
     (case EVP_EncodeUpdate (fst s) x of (ctx, out, n) \<Rightarrow> (ctx, snd s @ take n out))"

definition encode_final :: "evp_encode_ctx \<times> bytes \<Rightarrow> bytes" where
  "encode_final s = (case EVP_EncodeFinal (fst s) of (ctx, out, n) \<Rightarrow> snd s @ take n out)"

definition encode_fed :: "evp_encode_ctx \<times> bytes \<Rightarrow> bytes \<Rightarrow> bool" where
  "encode_fed s m \<longleftrightarrow>
     length (data (fst s)) = 48 \<and> data_used (fst s) = length (b64_rest m) \<and>
     take (data_used (fst s)) (data (fst s)) = b64_rest m \<and> snd s = b64_lines m"

lemma encode_fed_step:
  assumes fed: "encode_fed s m" and len: "length (m @ x) < 2 ^ 30"
  shows "encode_fed (encode_step s x) (m @ x)"
proof -
  obtain ctx out where s: "s = (ctx, out)" by fastforce
  let ?p = "b64_rest m"
  have ctx: "length (data ctx) = 48" "data_used ctx = length ?p" "take (length ?p) (data ctx) = ?p"
    "out = b64_lines m"
    using fed by (auto simp: encode_fed_def s)
  have p: "length ?p < 48" by (rule length_b64_rest)
  consider "x = []" | "x \<noteq> []" "length ?p + length x < 48" | "48 \<le> length ?p + length x" by linarith
  then show ?thesis
  proof cases
    case 1
    with fed show ?thesis by (simp add: encode_step_def EVP_EncodeUpdate_def s)
  next
    case 2
    then have "b64_lines (m @ x) = b64_lines m" "b64_rest (m @ x) = ?p @ x"
      by (simp_all add: b64_append [of m x] b64_short)
    moreover have "take (length ?p + length x) (poke (data ctx) (length ?p) x) = ?p @ x"
      using 2(2) ctx by (simp add: take_poke_end)
    ultimately show ?thesis
      using 2 ctx p by (auto simp: encode_step_def EVP_EncodeUpdate_def s encode_fed_def)
  next
    case 3
    let ?todo = "48 - length ?p"
    let ?blk = "?p @ take ?todo x" and ?y = "if ?p = [] then x else drop ?todo x"
    define o0 where "o0 = (if ?p = [] then [] else encode_groups ?blk @ [10])"
    define dat where "dat = (if ?p = [] then data ctx else poke (data ctx) (length ?p) (take ?todo x))"
    have blk: "length ?blk = 48" using p 3 by simp
    have lines: "b64_lines (m @ x) = b64_lines m @ o0 @ b64_lines ?y" "b64_rest (m @ x) = b64_rest ?y"
    proof -
      have "b64_lines (m @ x) = b64_lines m @ o0 @ b64_lines ?y \<and> b64_rest (m @ x) = b64_rest ?y"
      proof (cases "?p = []")
        case True
        then show ?thesis by (simp add: b64_append [of m x] o0_def)
      next
        case False
        have "?p @ x = ?blk @ drop ?todo x" by simp
        with False show ?thesis
          unfolding b64_append [of m x] o0_def by (simp only: b64_block [OF blk]) simp
      qed
      then show "b64_lines (m @ x) = b64_lines m @ o0 @ b64_lines ?y" "b64_rest (m @ x) = b64_rest ?y"
        by blast+
    qed
    have full: "poke (data ctx) (length ?p) (take ?todo x) = ?blk"
      using take_poke_end [of "length ?p" "take ?todo x" "data ctx"] ctx blk by simp
    have o0: "length o0 = (if ?p = [] then 0 else 65)"
      unfolding o0_def using blk by (simp add: length_encode_groups)
    have datl: "length dat = 48" using ctx(1) full blk by (simp add: dat_def)
    have small: "length (o0 @ b64_lines ?y) \<le> INT_MAX"
    proof -
      have "length (b64_lines (m @ x)) \<le> INT_MAX"
        using len by (simp add: length_b64_lines INT_MAX_def)
      then show ?thesis by (simp add: lines)
    qed
    have t: "unat (of_nat (length o0) + of_nat (length (b64_lines ?y)) :: u64) = length (o0 @ b64_lines ?y)"
      using small by (simp add: INT_MAX_def unat_of_nat flip: of_nat_add)
    have enc: "encode_lines o0 ?y (of_nat (length o0)) = (True, o0 @ b64_lines ?y, b64_rest ?y,
        of_nat (length o0) + of_nat (length (b64_lines ?y)))"
      using small by (intro encode_lines_eq) (simp add: INT_MAX_def unat_of_nat)
    have "EVP_EncodeUpdate ctx x =
        (ctx\<lparr>data := poke dat 0 (b64_rest ?y), data_used := length (b64_rest ?y)\<rparr>,
         o0 @ b64_lines ?y, length (o0 @ b64_lines ?y))"
    proof (cases "?p = []")
      case True
      with enc t small 3 ctx show ?thesis
        by (simp add: EVP_EncodeUpdate_def Let_def o0_def dat_def) auto
    next
      case False
      then have "length o0 = 65" "o0 = encode_groups ?blk @ [10]" by (simp_all add: o0, simp add: o0_def)
      moreover from this have "length (encode_groups ?blk) = 64" by simp
      ultimately show ?thesis
        using False enc t small 3 ctx p
        by (simp add: EVP_EncodeUpdate_def Let_def dat_def full EVP_EncodeBlock_eq) auto
    qed
    then show ?thesis
      using lines datl length_b64_rest [of ?y] ctx(4)
      by (simp add: encode_step_def s encode_fed_def poke_def)
  qed
qed

interpretation encoder: incremental "(EVP_EncodeInit, [])" encode_step encode_final encode_fed b64_text "2 ^ 30"
proof unfold_locales
  show "encode_fed (EVP_EncodeInit, []) []"
    by (simp add: encode_fed_def EVP_EncodeInit_def b64_short)
  show "encode_fed s m \<Longrightarrow> length (m @ x) < 2 ^ 30 \<Longrightarrow> encode_fed (encode_step s x) (m @ x)" for s m x
    by (rule encode_fed_step)
  show "encode_fed s m \<Longrightarrow> length m < 2 ^ 30 \<Longrightarrow> encode_final s = b64_text m" for s m
    by (auto simp: encode_fed_def encode_final_def EVP_EncodeFinal_def b64_text_def
        EVP_EncodeBlock_eq Let_def)
qed

section \<open>Decoding\<close>

lemma decode_loop_prepend:
  "decode_loop ctx (p @ out) src = map_prod id (\<lambda>o'. p @ o') (decode_loop ctx out src)"
proof (induction src arbitrary: ctx out)
  case (Cons c src)
  have "decode_loop ctx (p @ out @ bs) src = map_prod id (\<lambda>o'. p @ o') (decode_loop ctx (out @ bs) src)" for ctx bs
    using Cons [of ctx "out @ bs"] by (simp only: append_assoc)
  with Cons show ?case by (simp add: Let_def split: option.splits)
qed simp

lemma decode_loop_out:
  "decode_loop ctx out src = (fst (decode_loop ctx [] src), out @ snd (decode_loop ctx [] src))"
  using decode_loop_prepend [of ctx out "[]" src] by (cases "decode_loop ctx [] src") simp

lemma decode_loop_append:
  "\<not> error_encountered ctx \<Longrightarrow>
   decode_loop ctx out (x @ y) =
     (if error_encountered (fst (decode_loop ctx out x)) then decode_loop ctx out x
      else decode_loop (fst (decode_loop ctx out x)) (snd (decode_loop ctx out x)) y)"
proof (induction x arbitrary: ctx out)
  case (Cons c x)
  show ?case by (auto simp: Let_def Cons split: option.splits)
qed simp

lemma length_decode_loop: "length (snd (decode_loop ctx out src)) \<le> length out + 3 * length src"
proof (induction src arbitrary: ctx out)
  case (Cons c src)
  show ?case
  proof (cases "decode_loop ctx out (c # src) = decode_loop ctx out src")
    case True
    with Cons [of ctx out] show ?thesis by simp
  next
    case False
    have step: "length (snd (decode_loop ctx' (out @ bs) src)) \<le> length out + 3 * Suc (length src)"
      if "length bs \<le> 3" for ctx' bs
      using that Cons [of ctx' "out @ bs"] by simp
    show ?thesis
      using step length_decode_quad step [of "[]"] by (auto simp: Let_def split: option.splits)
  qed
qed simp

definition decode_step :: "evp_encode_ctx \<times> bytes \<Rightarrow> bytes \<Rightarrow> evp_encode_ctx \<times> bytes" where
  "decode_step s x =
     (case EVP_DecodeUpdate (fst s) x of (r, ctx, out, n) \<Rightarrow> (ctx, snd s @ take n out))"

definition decode_final :: "evp_encode_ctx \<times> bytes \<Rightarrow> bytes option" where
  "decode_final s = (if EVP_DecodeFinal (fst s) = 1 then Some (snd s) else None)"

definition decode_text :: "bytes \<Rightarrow> bytes option" where
  "decode_text m = decode_final (decode_loop EVP_DecodeInit [] m)"

definition decode_fed :: "evp_encode_ctx \<times> bytes \<Rightarrow> bytes \<Rightarrow> bool" where
  "decode_fed s m \<longleftrightarrow>
     (if error_encountered (fst (decode_loop EVP_DecodeInit [] m)) then error_encountered (fst s)
      else s = decode_loop EVP_DecodeInit [] m)"

lemma EVP_DecodeInit_ok [simp]: "\<not> error_encountered EVP_DecodeInit"
  by (simp add: EVP_DecodeInit_def)

lemma decode_fed_step:
  assumes fed: "decode_fed s m" and len: "length (m @ x) < 2 ^ 29"
  shows "decode_fed (decode_step s x) (m @ x)"
proof (cases "error_encountered (fst (decode_loop EVP_DecodeInit [] m))")
  case True
  with fed have "error_encountered (fst s)" by (simp add: decode_fed_def)
  then show ?thesis
    using True by (simp add: decode_fed_def decode_loop_append decode_step_def EVP_DecodeUpdate_def)
next
  case False
  obtain ctx out where s: "s = (ctx, out)" by fastforce
  with fed False have d: "decode_loop EVP_DecodeInit [] m = (ctx, out)" by (simp add: decode_fed_def)
  obtain ctx' o' where d': "decode_loop ctx [] x = (ctx', o')" by fastforce
  have whole: "decode_loop EVP_DecodeInit [] (m @ x) = (ctx', out @ o')"
    using False d d' decode_loop_out [of ctx out x] by (simp add: decode_loop_append)
  have "length o' \<le> INT_MAX"
    using length_decode_loop [of ctx "[]" x] d' len by (simp add: INT_MAX_def)
  then show ?thesis
    using False d d' by (auto simp: decode_fed_def whole decode_step_def EVP_DecodeUpdate_def s Let_def)
qed

interpretation decoder: incremental "(EVP_DecodeInit, [])" decode_step decode_final decode_fed decode_text "2 ^ 29"
proof unfold_locales
  show "decode_fed (EVP_DecodeInit, []) []" by (simp add: decode_fed_def)
  show "decode_fed s m \<Longrightarrow> length (m @ x) < 2 ^ 29 \<Longrightarrow> decode_fed (decode_step s x) (m @ x)" for s m x
    by (rule decode_fed_step)
  show "decode_fed s m \<Longrightarrow> length m < 2 ^ 29 \<Longrightarrow> decode_final s = decode_text m" for s m
    by (auto simp: decode_fed_def decode_text_def decode_final_def EVP_DecodeFinal_def split: if_splits)
qed

section \<open>The decoder undoes the encoder\<close>

lemma decode_loop_newline [simp]: "decode_loop ctx out (10 # src) = decode_loop ctx out src"
  by (simp add: base64_space_def)

declare decode_loop.simps(2) [simp del] encode_groups.simps(2-4) [simp del]

definition idle :: "bool \<Rightarrow> evp_encode_ctx \<Rightarrow> bool" where
  "idle eof ctx \<longleftrightarrow> length (data ctx) = 48 \<and> data_used ctx = 0 \<and> eof_seen ctx = eof \<and> \<not> error_encountered ctx"

lemma decode_quad_four: "base64_decode_quad (a # b # c # d # rest) = base64_decode_quad [a, b, c, d]"
  by (simp add: base64_decode_quad_def numeral_2_eq_2 numeral_3_eq_3)

lemma poke_Cons:
  "poke (x # xs) 0 [c] = c # xs" "poke (x # xs) (Suc n) cs = x # poke xs n cs"
  by (simp_all add: poke_def)

lemma decode_loop_quad:
  assumes ctx: "idle False ctx"
    and sp: "\<not> base64_space a" "\<not> base64_space b" "\<not> base64_space c" "\<not> base64_space d"
    and quad: "base64_decode_quad [a, b, c, d] = Some bs"
  obtains ctx' where "idle (length bs < 3) ctx'"
    "decode_loop ctx out (a # b # c # d # src) = decode_loop ctx' (out @ bs) src"
proof -
  obtain w x y z rest where dat: "data ctx = w # x # y # z # rest" "length rest = 44"
  proof -
    have "\<exists>w x y z rest. data ctx = w # x # y # z # rest \<and> length rest = 44"
      using ctx by (auto simp: idle_def length_Suc_conv numeral_eq_Suc)
    with that show thesis by blast
  qed
  let ?ctx = "ctx\<lparr>data := a # b # c # d # rest, data_used := 0\<rparr>"
  let ?ctx' = "if length bs < 3 then ?ctx\<lparr>eof_seen := True\<rparr> else ?ctx"
  show thesis
  proof (rule that)
    show "idle (length bs < 3) ?ctx'" using ctx dat by (simp add: idle_def)
    have q: "base64_decode_quad (a # b # c # d # rest) = Some bs" using quad by (subst decode_quad_four)
    show "decode_loop ctx out (a # b # c # d # src) = decode_loop ?ctx' (out @ bs) src"
      using ctx sp q dat by (simp add: decode_loop.simps idle_def Let_def poke_Cons numeral_2_eq_2 numeral_3_eq_3)
  qed
qed

lemma decode_loop_groups:
  assumes "idle False ctx"
  shows "\<exists>ctx'. idle (length d mod 3 \<noteq> 0) ctx' \<and>
    decode_loop ctx out (encode_groups d @ src) = decode_loop ctx' (out @ d) src"
  using assms
proof (induction d arbitrary: ctx out rule: encode_groups.induct)
  case (2 x)
  obtain ctx' where "idle (length [x] < 3) ctx'"
    "decode_loop ctx out (digit (group_val x 0 0) 3 # digit (group_val x 0 0) 2 # 61 # 61 # src) =
       decode_loop ctx' (out @ [x]) src"
    by (rule decode_loop_quad [OF 2 digit_char(3) digit_char(3) pad_char(2) pad_char(2)
          decode_quad_group(3) [OF refl, of 0 0 x]]) simp_all
  then show ?case by (intro exI [of _ ctx']) (simp add: encode_group)
next
  case (3 x y)
  obtain ctx' where "idle (length [x, y] < 3) ctx'"
    "decode_loop ctx out (digit (group_val x y 0) 3 # digit (group_val x y 0) 2 #
       digit (group_val x y 0) 1 # 61 # src) = decode_loop ctx' (out @ [x, y]) src"
    by (rule decode_loop_quad [OF 3 digit_char(3) digit_char(3) digit_char(3) pad_char(2)
          decode_quad_group(2) [OF refl, of 0 x y]]) simp_all
  then show ?case by (intro exI [of _ ctx']) (simp add: encode_group)
next
  case (4 x y z d)
  obtain ctx1 where "idle (length [x, y, z] < 3) ctx1"
    "decode_loop ctx out (digit (group_val x y z) 3 # digit (group_val x y z) 2 #
       digit (group_val x y z) 1 # digit (group_val x y z) 0 # (encode_groups d @ src)) =
       decode_loop ctx1 (out @ [x, y, z]) (encode_groups d @ src)"
    by (rule decode_loop_quad [OF 4(2) digit_char(3) digit_char(3) digit_char(3) digit_char(3)
          decode_quad_group(1) [OF refl, of x y z]])
  then have c1: "idle False ctx1"
    "decode_loop ctx out (encode_groups (x # y # z # d) @ src) =
       decode_loop ctx1 (out @ [x, y, z]) (encode_groups d @ src)"
    by (simp_all add: encode_group)
  moreover obtain ctx2 where "idle (length d mod 3 \<noteq> 0) ctx2"
    "decode_loop ctx1 (out @ [x, y, z]) (encode_groups d @ src) = decode_loop ctx2 ((out @ [x, y, z]) @ d) src"
    using 4(1) [OF refl c1(1), of "out @ [x, y, z]"] by blast
  ultimately show ?case by (intro exI [of _ ctx2]) simp
qed auto


lemma decode_loop_lines:
  assumes "idle False ctx"
  shows "\<exists>ctx' p. idle False ctx' \<and> m = p @ b64_rest m \<and>
    decode_loop ctx out (b64_lines m @ src) = decode_loop ctx' (out @ p) src"
  using assms
proof (induction m arbitrary: ctx out rule: b64_lines.induct)
  case (1 m)
  show ?case
  proof (cases "48 \<le> length m")
    case True
    let ?b = "take 48 m"
    obtain ctx1 where c1: "idle (length ?b mod 3 \<noteq> 0) ctx1"
      "decode_loop ctx out (encode_groups ?b @ [10] @ b64_lines (drop 48 m) @ src) =
        decode_loop ctx1 (out @ ?b) ([10] @ b64_lines (drop 48 m) @ src)"
      using decode_loop_groups [OF 1(2)] by blast
    then have i1: "idle False ctx1" using True by simp
    obtain ctx2 p where c2: "idle False ctx2" "drop 48 m = p @ b64_rest (drop 48 m)"
      "decode_loop ctx1 (out @ ?b) (b64_lines (drop 48 m) @ src) = decode_loop ctx2 ((out @ ?b) @ p) src"
      using 1(1) [OF True i1] by blast
    have "b64_lines m = encode_groups ?b @ [10] @ b64_lines (drop 48 m)" "b64_rest m = b64_rest (drop 48 m)"
      using b64_block [of ?b "drop 48 m"] True by simp_all
    moreover have "m = (?b @ p) @ b64_rest (drop 48 m)"
      using c2(2) by (metis append_assoc append_take_drop_id)
    ultimately show ?thesis
      using c1(2) c2(1,3) by (intro exI [of _ ctx2] exI [of _ "?b @ p"]) simp
  next
    case False
    then show ?thesis using 1(2) by (intro exI [of _ ctx] exI [of _ "[]"]) (simp add: b64_short)
  qed
qed

lemma decode_b64_text: "decode_text (b64_text m) = Some m"
proof -
  have "idle False EVP_DecodeInit" by (simp add: idle_def EVP_DecodeInit_def)
  then obtain ctx p where c: "idle False ctx" "m = p @ b64_rest m"
    "decode_loop EVP_DecodeInit [] (b64_text m) =
       decode_loop ctx p (if b64_rest m = [] then [] else encode_groups (b64_rest m) @ [10])"
    using decode_loop_lines [of EVP_DecodeInit m "[]"
        "if b64_rest m = [] then [] else encode_groups (b64_rest m) @ [10]"]
    unfolding b64_text_def append_Nil by blast
  obtain ctx' where "idle (length (b64_rest m) mod 3 \<noteq> 0) ctx'"
    "decode_loop ctx p (encode_groups (b64_rest m) @ [10]) = (ctx', p @ b64_rest m)"
    using decode_loop_groups [OF c(1), of "b64_rest m" p "[10]"] by auto
  with c show ?thesis
    by (auto simp: decode_text_def decode_final_def EVP_DecodeFinal_def idle_def)
qed

end
