(* ===== verification/Stack.thy ===== *)
theory Stack
  imports Comparison
begin

text \<open>
  The pointer stack of \<open>crypto/stack/stack.c\<close>. A pointer is an \<open>'a option\<close> (\<open>None\<close> is
  \<open>NULL\<close>), a comparison function is named by a value of \<open>'c\<close>, as the code passes
  function pointers, and is called through \<open>call_cmp\<close>. \<open>data\<close> has \<open>num_alloc\<close> slots, of
  which the first \<open>num\<close> are in use. The allocator may refuse (\<open>grants\<close>) and returns
  memory with arbitrary contents (\<open>fresh\<close>); \<open>qsort\<close> is a parameter, since C leaves
  the order of equal elements open.
\<close>

record ('a, 'c) stack =
  st_num :: nat
  st_data :: "'a option list"
  st_sorted :: bool
  st_num_alloc :: u64
  st_comp :: "'c option"

section \<open>Operations\<close>

definition sk_new :: "bool \<Rightarrow> bool \<Rightarrow> 'c option \<Rightarrow> ('a, 'c) stack option" where
  \<comment> \<open>the first two arguments say whether the two allocations succeed\<close>
  "sk_new malloc1 malloc2 cf =
     (if \<not> malloc1 then None else if \<not> malloc2 then None
      else Some \<lparr>st_num = 0, st_data = replicate 4 None, st_sorted = False, st_num_alloc = 4,
                 st_comp = cf\<rparr>)"

definition sk_new_null :: "bool \<Rightarrow> bool \<Rightarrow> ('a, 'c) stack option" where
  "sk_new_null malloc1 malloc2 = sk_new malloc1 malloc2 None"

definition sk_num :: "('a, 'c) stack option \<Rightarrow> nat" where
  "sk_num sk = (case sk of None \<Rightarrow> 0 | Some s \<Rightarrow> st_num s)"

definition sk_zero :: "('a, 'c) stack option \<Rightarrow> ('a, 'c) stack option" where
  "sk_zero sk =
     (case sk of None \<Rightarrow> None
      | Some s \<Rightarrow>
          if st_num s = 0 then Some s
          else Some (s\<lparr>st_data := replicate (st_num s) None @ drop (st_num s) (st_data s),
                       st_num := 0, st_sorted := False\<rparr>))"

definition sk_value :: "('a, 'c) stack option \<Rightarrow> nat \<Rightarrow> 'a option" where
  "sk_value sk i =
     (case sk of None \<Rightarrow> None | Some s \<Rightarrow> if i \<ge> st_num s then None else st_data s ! i)"

definition sk_set :: "('a, 'c) stack option \<Rightarrow> nat \<Rightarrow> 'a option \<Rightarrow> 'a option \<times> ('a, 'c) stack option" where
  "sk_set sk i v =
     (case sk of None \<Rightarrow> (None, None)
      | Some s \<Rightarrow>
          if i \<ge> st_num s then (None, Some s)
          else (v, Some (s\<lparr>st_data := (st_data s)[i := v]\<rparr>)))"

text \<open>The calls of the free function, in order; the stack itself is then freed.\<close>

definition sk_pop_free_ex :: "('a, 'c) stack option \<Rightarrow> 'a list" where
  "sk_pop_free_ex sk =
     (case sk of None \<Rightarrow> []
      | Some s \<Rightarrow> concat (map (\<lambda>i. case st_data s ! i of None \<Rightarrow> [] | Some p \<Rightarrow> [p]) [0..<st_num s]))"

definition insert_grow :: "(u64 \<Rightarrow> bool) \<Rightarrow> (nat \<Rightarrow> 'a option) \<Rightarrow> ('a, 'c) stack \<Rightarrow> ('a, 'c) stack option" where
  \<comment> \<open>the growth of the array in \<open>sk_insert\<close>; nothing where it returns 0\<close>
  "insert_grow grants fresh s =
     (if unat (st_num_alloc s) \<le> st_num s + 1
      then let new_alloc = push_bit 1 (st_num_alloc s);
               alloc_size = new_alloc * 8;
               (new_alloc, alloc_size) =
                 (if new_alloc < st_num_alloc s \<or> alloc_size div 8 \<noteq> new_alloc
                  then (st_num_alloc s + 1, (st_num_alloc s + 1) * 8) else (new_alloc, alloc_size))
           in if new_alloc < st_num_alloc s \<or> alloc_size div 8 \<noteq> new_alloc then None
              else if \<not> grants alloc_size then None
              else Some (s\<lparr>st_data := st_data s @ map fresh [unat (st_num_alloc s)..<unat new_alloc],
                           st_num_alloc := new_alloc\<rparr>)
      else Some s)"

definition sk_insert ::
  "(u64 \<Rightarrow> bool) \<Rightarrow> (nat \<Rightarrow> 'a option) \<Rightarrow> ('a, 'c) stack option \<Rightarrow> 'a option \<Rightarrow> nat \<Rightarrow>
   nat \<times> ('a, 'c) stack option" where
  "sk_insert grants fresh sk p idx =
     (case sk of None \<Rightarrow> (0, None)
      | Some s \<Rightarrow>
          (case insert_grow grants fresh s of None \<Rightarrow> (0, Some s)
           | Some s \<Rightarrow>
               let n = st_num s; d = st_data s;
                   d = (if idx \<ge> n then d[n := p]
                        else (take (idx + 1) d @ take (n - idx) (drop idx d) @ drop (n + 1) d)[idx := p])
               in (n + 1, Some (s\<lparr>st_data := d, st_num := n + 1, st_sorted := False\<rparr>))))"

definition sk_delete :: "('a, 'c) stack option \<Rightarrow> nat \<Rightarrow> 'a option \<times> ('a, 'c) stack option" where
  "sk_delete sk idx =
     (case sk of None \<Rightarrow> (None, None)
      | Some s \<Rightarrow>
          let n = st_num s; d = st_data s
          in if idx \<ge> n then (None, Some s)
             else let ret = d ! idx;
                      d = (if idx \<noteq> n - 1
                           then take idx d @ take (n - idx - 1) (drop (idx + 1) d) @ drop (n - 1) d else d)
                  in (ret, Some (s\<lparr>st_data := d, st_num := n - 1\<rparr>)))"

definition sk_delete_ptr :: "('a, 'c) stack option \<Rightarrow> 'a option \<Rightarrow> 'a option \<times> ('a, 'c) stack option" where
  "sk_delete_ptr sk p =
     (case sk of None \<Rightarrow> (None, None)
      | Some s \<Rightarrow>
          (case find_from (\<lambda>x. x = p) (st_data s) 0 (st_num s) of
             None \<Rightarrow> (None, sk)
           | Some i \<Rightarrow> sk_delete sk i))"

definition sk_is_sorted :: "('a, 'c) stack option \<Rightarrow> bool" where
  "sk_is_sorted sk = (case sk of None \<Rightarrow> True | Some s \<Rightarrow> st_sorted s)"

definition sk_find ::
  "('c \<Rightarrow> 'a option \<Rightarrow> 'a option \<Rightarrow> int) \<Rightarrow> ('a, 'c) stack option \<Rightarrow> 'a option \<Rightarrow> nat option" where
  \<comment> \<open>the index stored when it returns 1\<close>
  "sk_find call_cmp sk p =
     (case sk of None \<Rightarrow> None
      | Some s \<Rightarrow>
          (case st_comp s of
             None \<Rightarrow> find_from (\<lambda>x. x = p) (st_data s) 0 (st_num s)
           | Some c \<Rightarrow>
               if p = None then None
               else if \<not> sk_is_sorted sk
               then find_from (\<lambda>x. call_cmp c p x = 0) (st_data s) 0 (st_num s)
               else bsearch_first (\<lambda>x. call_cmp c p x) (st_data s) 0 (st_num s)))"

definition sk_shift :: "('a, 'c) stack option \<Rightarrow> 'a option \<times> ('a, 'c) stack option" where
  "sk_shift sk =
     (case sk of None \<Rightarrow> (None, None)
      | Some s \<Rightarrow> if st_num s = 0 then (None, sk) else sk_delete sk 0)"

definition sk_push ::
  "(u64 \<Rightarrow> bool) \<Rightarrow> (nat \<Rightarrow> 'a option) \<Rightarrow> ('a, 'c) stack option \<Rightarrow> 'a option \<Rightarrow>
   nat \<times> ('a, 'c) stack option" where
  "sk_push grants fresh sk p = sk_insert grants fresh sk p (sk_num sk)"

definition sk_pop :: "('a, 'c) stack option \<Rightarrow> 'a option \<times> ('a, 'c) stack option" where
  "sk_pop sk =
     (case sk of None \<Rightarrow> (None, None)
      | Some s \<Rightarrow> if st_num s = 0 then (None, sk) else sk_delete sk (st_num s - 1))"

definition sk_dup ::
  "bool \<Rightarrow> bool \<Rightarrow> (nat \<Rightarrow> 'a option) \<Rightarrow> ('a, 'c) stack option \<Rightarrow> ('a, 'c) stack option" where
  "sk_dup malloc1 malloc2 fresh sk =
     (case sk of None \<Rightarrow> None
      | Some s \<Rightarrow>
          if \<not> malloc1 then None else if \<not> malloc2 then None
          else Some \<lparr>st_num = st_num s,
                     st_data = take (st_num s) (st_data s) @ map fresh [st_num s..<unat (st_num_alloc s)],
                     st_sorted = st_sorted s, st_num_alloc = st_num_alloc s, st_comp = st_comp s\<rparr>)"

definition sk_sort ::
  "('c \<Rightarrow> 'a option list \<Rightarrow> 'a option list) \<Rightarrow> ('a, 'c) stack option \<Rightarrow> ('a, 'c) stack option" where
  "sk_sort qsort sk =
     (case sk of None \<Rightarrow> None
      | Some s \<Rightarrow>
          (case st_comp s of None \<Rightarrow> sk
           | Some c \<Rightarrow>
               if st_sorted s then sk
               else let s = (if st_num s \<ge> 2
                             then s\<lparr>st_data := qsort c (take (st_num s) (st_data s)) @ drop (st_num s) (st_data s)\<rparr>
                             else s)
                    in Some (s\<lparr>st_sorted := True\<rparr>)))"

definition sk_set_cmp_func :: "('a, 'c) stack \<Rightarrow> 'c option \<Rightarrow> 'c option \<times> ('a, 'c) stack" where
  "sk_set_cmp_func s cf =
     (let old = st_comp s;
          s = (if st_comp s \<noteq> cf then s\<lparr>st_sorted := False\<rparr> else s)
      in (old, s\<lparr>st_comp := cf\<rparr>))"

definition the_list :: "'a option list \<Rightarrow> 'a list" where
  "the_list xs = concat (map (\<lambda>x. case x of None \<Rightarrow> [] | Some p \<Rightarrow> [p]) xs)"

fun deep_copy_loop ::
  "('a \<Rightarrow> 'a option) \<Rightarrow> 'a option list \<Rightarrow> nat \<Rightarrow> nat \<Rightarrow> 'a option list option \<times> 'a list" where
  \<comment> \<open>the data, or nothing and the copies it freed\<close>
  "deep_copy_loop copy d i 0 = (Some d, [])"
| "deep_copy_loop copy d i (Suc n) =
     (case d ! i of
        None \<Rightarrow> deep_copy_loop copy d (Suc i) n
      | Some p \<Rightarrow>
          (case copy p of
             None \<Rightarrow> (None, the_list (take i d))
           | Some q \<Rightarrow> deep_copy_loop copy (d[i := Some q]) (Suc i) n))"

definition sk_deep_copy ::
  "bool \<Rightarrow> bool \<Rightarrow> (nat \<Rightarrow> 'a option) \<Rightarrow> ('a \<Rightarrow> 'a option) \<Rightarrow> ('a, 'c) stack option \<Rightarrow>
   ('a, 'c) stack option \<times> 'a list" where
  "sk_deep_copy malloc1 malloc2 fresh copy sk =
     (case sk_dup malloc1 malloc2 fresh sk of
        None \<Rightarrow> (None, [])
      | Some ret \<Rightarrow>
          (case deep_copy_loop copy (st_data ret) 0 (st_num ret) of
             (None, freed) \<Rightarrow> (None, freed)
           | (Some d, freed) \<Rightarrow> (Some (ret\<lparr>st_data := d\<rparr>), freed)))"

section \<open>The abstract stack: a list of pointers\<close>

definition stack_ok :: "('a, 'c) stack \<Rightarrow> bool" where
  "stack_ok s \<longleftrightarrow> length (st_data s) = unat (st_num_alloc s) \<and> st_num s < unat (st_num_alloc s)"

definition items :: "('a, 'c) stack \<Rightarrow> 'a option list" where
  "items s = take (st_num s) (st_data s)"

lemma length_items: "stack_ok s \<Longrightarrow> length (items s) = st_num s"
  by (simp add: stack_ok_def items_def)

lemma nth_items: "i < st_num s \<Longrightarrow> items s ! i = st_data s ! i"
  by (simp add: items_def)

lemma insert_grow_spec:
  assumes "stack_ok s" "insert_grow grants fresh s = Some s'"
  shows "stack_ok s'" "items s' = items s" "st_num s' = st_num s" "st_num s' + 1 < unat (st_num_alloc s')"
    "st_comp s' = st_comp s" "st_sorted s' = st_sorted s"
proof -
  have "\<exists>new_alloc. st_num_alloc s < new_alloc \<and> unat (st_num_alloc s) \<le> st_num s + 1 \<and>
      s' = s\<lparr>st_data := st_data s @ map fresh [unat (st_num_alloc s)..<unat new_alloc],
             st_num_alloc := new_alloc\<rparr> \<or> s' = s \<and> st_num s + 1 < unat (st_num_alloc s)"
  proof (cases "unat (st_num_alloc s) \<le> st_num s + 1")
    case True
    let ?n = "st_num_alloc s" and ?d = "push_bit 1 (st_num_alloc s)"
    have pos: "0 < unat ?n" using assms(1) by (simp add: stack_ok_def)
    have dbl: "?n < ?d" if "\<not> ?d < ?n"
    proof -
      have d: "?d = ?n + ?n" by (simp add: push_bit_eq_mult)
      have "unat (?n + ?n) = (if unat ?n + unat ?n < 2 ^ 64 then unat ?n + unat ?n
          else unat ?n + unat ?n - 2 ^ 64)"
        unfolding unat_plus_if' [of ?n ?n] by simp
      then show ?thesis
        using pos that unat_less_pow(3) [of ?n] unfolding d word_less_nat_alt by (auto split: if_splits)
    qed
    have inc: "?n < ?n + 1" if "\<not> ?n + 1 < ?n"
      using that by (auto simp: word_less_nat_alt unat_plus_if' split: if_splits)
    from True assms(2) dbl inc show ?thesis
      unfolding insert_grow_def Let_def by (auto split: if_splits)
  next
    case False
    with assms(2) show ?thesis by (auto simp: insert_grow_def)
  qed
  then show "stack_ok s'" "items s' = items s" "st_num s' = st_num s" "st_num s' + 1 < unat (st_num_alloc s')"
    "st_comp s' = st_comp s" "st_sorted s' = st_sorted s"
    using assms(1) by (auto simp: stack_ok_def items_def word_less_nat_alt)
qed

text \<open>Insertion, deletion and the operations built on them, on the abstract list.\<close>

lemma sk_insert_spec:
  assumes ok: "stack_ok s" and grow: "insert_grow grants fresh s \<noteq> None"
  obtains s' where "sk_insert grants fresh (Some s) p idx = (length (items s) + 1, Some s')"
    "stack_ok s'" "items s' = take idx (items s) @ p # drop idx (items s)"
    "st_comp s' = st_comp s" "\<not> st_sorted s'"
proof -
  obtain s1 where s1: "insert_grow grants fresh s = Some s1" using grow by auto
  note g = insert_grow_spec [OF ok s1]
  let ?n = "st_num s1" and ?d = "st_data s1"
  let ?e = "if idx \<ge> ?n then ?d[?n := p]
            else (take (idx + 1) ?d @ take (?n - idx) (drop idx ?d) @ drop (?n + 1) ?d)[idx := p]"
  have len: "?n + 1 < length ?d" using g by (simp add: stack_ok_def)
  have e: "take (?n + 1) ?e = take idx (take ?n ?d) @ p # drop idx (take ?n ?d)" "length ?e = length ?d"
  proof -
    show "take (?n + 1) ?e = take idx (take ?n ?d) @ p # drop idx (take ?n ?d)"
    proof (cases "idx \<ge> ?n")
      case True
      with len show ?thesis by (simp add: take_Suc_conv_app_nth)
    next
      case False
      have "(take (idx + 1) ?d @ rest)[idx := p] = take idx ?d @ p # rest" for rest
        using False len by (simp add: take_Suc_conv_app_nth list_update_append)
      with False len show ?thesis
        by (simp add: drop_take take_Cons')
    qed
    show "length ?e = length ?d" using len by auto
  qed
  show thesis
  proof (rule that)
    show "sk_insert grants fresh (Some s) p idx = (length (items s) + 1,
      Some (s1\<lparr>st_data := ?e, st_num := ?n + 1, st_sorted := False\<rparr>))"
      using s1 g(3) length_items [OF ok] by (simp add: sk_insert_def Let_def)
    have "take ?n ?d = items s" using g(2) by (simp only: items_def)
    moreover have "items (s1\<lparr>st_data := ?e, st_num := ?n + 1, st_sorted := False\<rparr>) = take (?n + 1) ?e"
      by (simp add: items_def)
    ultimately show "items (s1\<lparr>st_data := ?e, st_num := ?n + 1, st_sorted := False\<rparr>) =
        take idx (items s) @ p # drop idx (items s)"
      using e(1) by (simp only:)
  qed (use g e(2) in \<open>simp_all add: stack_ok_def\<close>)
qed

lemma sk_delete_spec:
  assumes ok: "stack_ok s" and idx: "idx < st_num s"
  obtains s' where "sk_delete (Some s) idx = (items s ! idx, Some s')" "stack_ok s'"
    "items s' = take idx (items s) @ drop (idx + 1) (items s)"
    "st_comp s' = st_comp s" "st_sorted s' = st_sorted s"
proof -
  let ?n = "st_num s" and ?d = "st_data s"
  let ?e = "if idx \<noteq> ?n - 1
            then take idx ?d @ take (?n - idx - 1) (drop (idx + 1) ?d) @ drop (?n - 1) ?d else ?d"
  have len: "?n < length ?d" using ok by (simp add: stack_ok_def)
  have e: "length ?e = length ?d" using idx len by auto
  have t: "take (?n - 1) ?e = take idx (take ?n ?d) @ drop (idx + 1) (take ?n ?d)"
  proof (cases "idx = ?n - 1")
    case True
    then have "drop (idx + 1) (take ?n ?d) = []" using idx by simp
    with True show ?thesis by (simp add: min_def)
  next
    case False
    with idx have i: "idx < ?n - 1" by simp
    have "drop (idx + 1) (take ?n ?d) = take (?n - idx - 1) (drop (idx + 1) ?d)"
      by (simp add: drop_take)
    moreover have "length (take idx ?d @ take (?n - idx - 1) (drop (idx + 1) ?d)) = ?n - 1"
      using i len by simp
    ultimately show ?thesis using False i len by (simp add: min_def)
  qed
  show thesis
  proof (rule that)
    show "sk_delete (Some s) idx = (items s ! idx, Some (s\<lparr>st_data := ?e, st_num := ?n - 1\<rparr>))"
      using idx by (simp add: sk_delete_def Let_def nth_items)
    show "items (s\<lparr>st_data := ?e, st_num := ?n - 1\<rparr>) = take idx (items s) @ drop (idx + 1) (items s)"
      using t by (simp add: items_def)
    show "stack_ok (s\<lparr>st_data := ?e, st_num := ?n - 1\<rparr>)"
      using ok idx e by (simp add: stack_ok_def less_imp_diff_less)
  qed simp_all
qed

lemma sk_new_spec: "sk_new True True cf = Some s \<Longrightarrow> stack_ok s \<and> items s = []"
  by (auto simp: sk_new_def stack_ok_def items_def)

lemma sk_zero_spec: "stack_ok s \<Longrightarrow> \<exists>s'. sk_zero (Some s) = Some s' \<and> stack_ok s' \<and> items s' = []"
  by (simp add: sk_zero_def stack_ok_def items_def)

lemma sk_value_spec: "sk_value (Some s) i = (if i < st_num s then items s ! i else None)"
  by (simp add: sk_value_def nth_items)

lemma sk_set_spec:
  assumes "stack_ok s" "i < st_num s"
  obtains s' where "sk_set (Some s) i v = (v, Some s')" "stack_ok s'" "items s' = (items s)[i := v]"
    "st_sorted s' = st_sorted s"
  using assms by (auto simp: sk_set_def stack_ok_def items_def take_update_swap)

lemma sk_push_spec:
  assumes "stack_ok s" "insert_grow grants fresh s \<noteq> None"
  obtains s' where "sk_push grants fresh (Some s) p = (length (items s) + 1, Some s')"
    "stack_ok s'" "items s' = items s @ [p]"
proof -
  obtain s' where "sk_insert grants fresh (Some s) p (st_num s) = (length (items s) + 1, Some s')"
    "stack_ok s'" "items s' = take (st_num s) (items s) @ p # drop (st_num s) (items s)"
    using sk_insert_spec [OF assms, of p "st_num s"] by metis
  with length_items [OF assms(1)] show thesis
    by (intro that [of s']) (simp_all add: sk_push_def sk_num_def)
qed

lemma sk_pop_spec:
  assumes "stack_ok s" "items s \<noteq> []"
  obtains s' where "sk_pop (Some s) = (last (items s), Some s')" "stack_ok s'" "items s' = butlast (items s)"
proof -
  have n: "0 < st_num s" using assms by (auto simp: items_def)
  then obtain s' where s': "sk_delete (Some s) (st_num s - 1) = (items s ! (st_num s - 1), Some s')" "stack_ok s'"
    "items s' = take (st_num s - 1) (items s) @ drop (st_num s - 1 + 1) (items s)"
    using sk_delete_spec [OF assms(1), of "st_num s - 1"] by (metis diff_less zero_less_one)
  have l: "length (items s) = st_num s" using assms(1) by (rule length_items)
  show thesis
  proof (rule that)
    show "sk_pop (Some s) = (last (items s), Some s')"
      using s'(1) n assms(2) l by (simp add: sk_pop_def last_conv_nth)
    show "items s' = butlast (items s)" using s'(3) n l by (simp add: butlast_conv_take)
  qed (fact s'(2))
qed

lemma sk_shift_spec:
  assumes "stack_ok s" "items s \<noteq> []"
  obtains s' where "sk_shift (Some s) = (hd (items s), Some s')" "stack_ok s'" "items s' = tl (items s)"
proof -
  have n: "0 < st_num s" using assms by (auto simp: items_def)
  then obtain s' where s': "sk_delete (Some s) 0 = (items s ! 0, Some s')" "stack_ok s'"
    "items s' = take 0 (items s) @ drop (0 + 1) (items s)"
    using sk_delete_spec [OF assms(1), of 0] by metis
  with n assms(2) show thesis
    by (intro that [of s']) (simp_all add: sk_shift_def hd_conv_nth drop_Suc)
qed

lemma sk_dup_spec:
  assumes "stack_ok s" "sk_dup True True fresh (Some s) = Some s'"
  shows "stack_ok s'" "items s' = items s" "st_comp s' = st_comp s" "st_sorted s' = st_sorted s"
  using assms by (auto simp: sk_dup_def stack_ok_def items_def)

lemma sk_pop_free_ex_eq: "sk_pop_free_ex (Some s) = the_list (map ((!) (st_data s)) [0..<st_num s])"
  by (simp add: sk_pop_free_ex_def the_list_def comp_def)

section \<open>Searching and the sorted flag\<close>

definition flag_ok :: "('c \<Rightarrow> 'a option \<Rightarrow> 'a option \<Rightarrow> int) \<Rightarrow> ('a, 'c) stack \<Rightarrow> bool" where
  "flag_ok call_cmp s \<longleftrightarrow>
     (case st_comp s of None \<Rightarrow> True
      | Some c \<Rightarrow> st_sorted s \<longrightarrow> sorted_wrt (\<lambda>x y. call_cmp c x y \<le> 0) (items s))"

lemma find_items:
  assumes "stack_ok s"
  shows "find_from P (st_data s) 0 (st_num s) = find_from P (items s) 0 (length (items s))"
  unfolding length_items [OF assms] by (rule find_from_cong) (simp add: nth_items)

text \<open>All three searches of \<open>sk_find\<close> return the first match.\<close>

lemma sk_find_spec:
  assumes ok: "stack_ok s" "flag_ok call_cmp s" and c: "st_comp s = Some c" "comparison (call_cmp c)"
    and p: "p \<noteq> None"
  shows "sk_find call_cmp (Some s) p =
    find_from (\<lambda>x. call_cmp c p x = 0) (items s) 0 (length (items s))"
proof (cases "st_sorted s")
  case False
  moreover obtain q where "p = Some q" using p by blast
  ultimately show ?thesis using c(1) by (simp add: sk_find_def sk_is_sorted_def find_items [OF ok(1)])
next
  case True
  then have "comparison.ordered (call_cmp c) (take (st_num s) (st_data s))"
    using ok(2) c by (simp add: flag_ok_def comparison.ordered_def items_def)
  then have "bsearch_first (call_cmp c p) (st_data s) 0 (st_num s) =
      find_from (\<lambda>x. call_cmp c p x = 0) (st_data s) 0 (st_num s)"
    using ok(1) by (intro comparison.bsearch_ordered [OF c(2)]) (simp_all add: stack_ok_def)
  moreover obtain q where "p = Some q" using p by blast
  ultimately show ?thesis
    using True c(1) by (simp add: sk_find_def sk_is_sorted_def find_items [OF ok(1)])
qed

lemma sk_find_pointer:
  "stack_ok s \<Longrightarrow> st_comp s = None \<Longrightarrow>
   sk_find call_cmp (Some s) p = find_from (\<lambda>x. x = p) (items s) 0 (length (items s))"
  by (simp add: sk_find_def find_items)

lemma sk_delete_ptr_spec:
  assumes "stack_ok s"
  shows "fst (sk_delete_ptr (Some s) p) = (if p \<in> set (items s) then p else None)"
    "\<exists>s'. snd (sk_delete_ptr (Some s) p) = Some s' \<and> stack_ok s' \<and> items s' = remove1 p (items s)"
proof -
  let ?f = "find_from (\<lambda>x. x = p) (items s) 0 (length (items s))"
  have f: "find_from (\<lambda>x. x = p) (st_data s) 0 (st_num s) = ?f" by (rule find_items [OF assms])
  have "fst (sk_delete_ptr (Some s) p) = (if p \<in> set (items s) then p else None) \<and>
    (\<exists>s'. snd (sk_delete_ptr (Some s) p) = Some s' \<and> stack_ok s' \<and> items s' = remove1 p (items s))"
  proof (cases ?f)
    case None
    then have "p \<notin> set (items s)" by (auto simp: find_from_None in_set_conv_nth)
    with None f assms show ?thesis by (simp add: sk_delete_ptr_def remove1_idem)
  next
    case (Some i)
    then have i: "i < length (items s)" "items s ! i = p" "\<forall>j < i. items s ! j \<noteq> p"
      by (auto simp: find_from_Some)
    then have "p \<notin> set (take i (items s))" by (auto simp: in_set_conv_nth)
    moreover have "items s = take i (items s) @ p # drop (Suc i) (items s)"
      using i(1,2) by (metis id_take_nth_drop)
    ultimately have r: "remove1 p (items s) = take i (items s) @ drop (Suc i) (items s)"
      by (metis remove1.simps(2) remove1_append)
    obtain s' where "sk_delete (Some s) i = (items s ! i, Some s')" "stack_ok s'"
      "items s' = take i (items s) @ drop (i + 1) (items s)"
      using sk_delete_spec [OF assms, of i] i(1) length_items [OF assms] by metis
    with Some f i r show ?thesis
      using nth_mem [OF i(1)] by (simp add: sk_delete_ptr_def)
  qed
  then show "fst (sk_delete_ptr (Some s) p) = (if p \<in> set (items s) then p else None)"
    "\<exists>s'. snd (sk_delete_ptr (Some s) p) = Some s' \<and> stack_ok s' \<and> items s' = remove1 p (items s)"
    by blast+
qed

text \<open>The flag is right after sorting and stays right under every operation but \<open>sk_set\<close>.\<close>

lemma sk_sort_spec:
  assumes "stack_ok s" "flag_ok call_cmp s" "st_comp s = Some c" "qsorted (call_cmp c) (qs c)"
  obtains s' where "sk_sort qs (Some s) = Some s'" "stack_ok s'" "st_sorted s'" "flag_ok call_cmp s'"
    "mset (items s') = mset (items s)" "sorted_wrt (\<lambda>x y. call_cmp c x y \<le> 0) (items s')"
proof (cases "st_sorted s")
  case True
  with assms show thesis by (intro that [of s]) (simp_all add: sk_sort_def flag_ok_def)
next
  case False
  let ?xs = "if st_num s \<ge> 2 then qs c (items s) else items s"
  let ?d = "if st_num s \<ge> 2 then qs c (items s) @ drop (st_num s) (st_data s) else st_data s"
  let ?s = "s\<lparr>st_data := ?d, st_sorted := True\<rparr>"
  have q: "mset (qs c (items s)) = mset (items s)" "sorted_wrt (\<lambda>x y. call_cmp c x y \<le> 0) (qs c (items s))"
    using assms(4) by (simp_all add: qsorted_def)
  then have l: "length (qs c (items s)) = st_num s"
    using length_items [OF assms(1)] by (metis mset_eq_length)
  have items: "items ?s = ?xs" using l by (simp add: items_def)
  have "sorted_wrt (\<lambda>x y. call_cmp c x y \<le> 0) ?xs"
  proof (cases "st_num s \<ge> 2")
    case False
    then have "length (items s) \<le> 1" using length_items [OF assms(1)] by simp
    with False show ?thesis by (cases "items s") auto
  qed (simp add: q)
  then have sorted: "sorted_wrt (\<lambda>x y. call_cmp c x y \<le> 0) (items ?s)" using items by simp
  show thesis
  proof (rule that)
    show "sk_sort qs (Some s) = Some ?s"
      using False assms(3) by (auto simp: sk_sort_def Let_def items_def)
    show "stack_ok ?s" using assms(1) l by (auto simp: stack_ok_def)
    show "flag_ok call_cmp ?s" using sorted assms(3) by (simp add: flag_ok_def del: if_split)
    show "mset (items ?s) = mset (items s)" using items q(1) by simp
  qed (use sorted in simp_all)
qed

lemma flag_insert:
  assumes "stack_ok s" "sk_insert grants fresh (Some s) p idx = (n, Some s')" "n \<noteq> 0"
  shows "flag_ok call_cmp s'"
proof -
  from assms(2,3) have "insert_grow grants fresh s \<noteq> None"
    by (auto simp: sk_insert_def split: option.splits)
  from sk_insert_spec [OF assms(1) this, of p idx] assms(2) show ?thesis
    by (metis (no_types, lifting) flag_ok_def option.case_eq_if option.inject prod.inject)
qed

lemma sorted_wrt_delete: "sorted_wrt P xs \<Longrightarrow> sorted_wrt P (take idx xs @ drop (Suc idx) xs)"
proof -
  assume xs: "sorted_wrt P xs"
  then have "sorted_wrt P (take idx xs @ drop idx xs)" "sorted_wrt P (drop (Suc idx) xs)"
    by (simp_all add: sorted_wrt_drop)
  moreover have "set (drop (Suc idx) xs) \<subseteq> set (drop idx xs)"
    by (rule set_drop_subset_set_drop) simp
  ultimately show ?thesis unfolding sorted_wrt_append by blast
qed

lemma flag_delete:
  assumes "stack_ok s" "flag_ok call_cmp s" "idx < st_num s" "sk_delete (Some s) idx = (x, Some s')"
  shows "flag_ok call_cmp s'"
proof -
  obtain t where t: "sk_delete (Some s) idx = (items s ! idx, Some t)"
    "items t = take idx (items s) @ drop (idx + 1) (items s)" "st_comp t = st_comp s" "st_sorted t = st_sorted s"
    using sk_delete_spec [OF assms(1,3)] by metis
  have "s' = t" using t(1) assms(4) by simp
  with t(2-4) assms(2) show ?thesis
    using sorted_wrt_delete by (auto simp: flag_ok_def split: option.splits)
qed

lemma flag_set:
  assumes "stack_ok s" "flag_ok call_cmp s" "st_sorted s" "st_comp s = Some c" "comparison (call_cmp c)" "i < st_num s"
  obtains s' where "sk_set (Some s) i v = (v, Some s')" "stack_ok s'" "items s' = (items s)[i := v]" "st_sorted s'"
    "flag_ok call_cmp s' \<longleftrightarrow> (0 < i \<longrightarrow> call_cmp c (items s ! (i - 1)) v \<le> 0) \<and>
       (i + 1 < length (items s) \<longrightarrow> call_cmp c v (items s ! (i + 1)) \<le> 0)"
proof -
  let ?s = "s\<lparr>st_data := (st_data s)[i := v]\<rparr>"
  have s: "sk_set (Some s) i v = (v, Some ?s)" "stack_ok ?s" "items ?s = (items s)[i := v]"
    using assms(1,6) by (simp_all add: sk_set_def stack_ok_def items_def take_update_swap)
  have "comparison.ordered (call_cmp c) (items s)"
    using assms(2-5) by (simp add: flag_ok_def comparison.ordered_def)
  moreover have "flag_ok call_cmp ?s \<longleftrightarrow> comparison.ordered (call_cmp c) (items ?s)"
    using assms(3-5) by (simp add: flag_ok_def comparison.ordered_def)
  ultimately show thesis
    using that [OF s] comparison.ordered_update [OF assms(5)] s(3) assms(3,6) length_items [OF assms(1)] by simp
qed

lemma flag_set_cmp: "flag_ok call_cmp s \<Longrightarrow> flag_ok call_cmp (snd (sk_set_cmp_func s cf))"
  by (auto simp: sk_set_cmp_func_def flag_ok_def items_def Let_def split: option.splits)

section \<open>Copying\<close>

lemma the_list_append [simp]: "the_list (xs @ ys) = the_list xs @ the_list ys"
  by (simp add: the_list_def)

lemma deep_copy_loop_spec:
  fixes copy :: "'a \<Rightarrow> 'a option"
  assumes "i + n \<le> length d"
  defines "xs \<equiv> take n (drop i d)"
  defines "good \<equiv> takeWhile (\<lambda>x. x = None \<or> Option.bind x copy \<noteq> None) xs"
  shows "deep_copy_loop copy d i n =
    (if good = xs then (Some (take i d @ map (\<lambda>x. Option.bind x copy) xs @ drop (i + n) d), [])
     else (None, the_list (take i d @ map (\<lambda>x. Option.bind x copy) good)))"
  using assms(1) unfolding assms(2,3)
proof (induction n arbitrary: i d)
  case (Suc n)
  have i: "i < length d" using Suc.prems by simp
  have xs: "take (Suc n) (drop i d) = d ! i # take n (drop (Suc i) d)"
    using i by (simp add: Cons_nth_drop_Suc [symmetric])
  have tk: "take (Suc i) e = take i d @ [v]" "drop (Suc i + m) e = drop (Suc i + m) d"
    "drop (Suc i) e = drop (Suc i) d" if "e = d[i := v]" for e v m
    using i that by (simp_all add: take_Suc_conv_app_nth)
  show ?case
  proof (cases "d ! i")
    case None
    have "take (Suc i) d = take i d @ [None]" using i None by (simp add: take_Suc_conv_app_nth)
    with None Suc.IH [of "Suc i" d] Suc.prems xs show ?thesis by simp
  next
    case (Some p)
    show ?thesis
    proof (cases "copy p")
      case None
      with Some xs show ?thesis by simp
    next
      case (Some q)
      with \<open>d ! i = Some p\<close> Suc.IH [of "Suc i" "d[i := Some q]"] Suc.prems xs tk [OF refl]
      show ?thesis by simp
    qed
  qed
qed simp

lemma sk_deep_copy_spec:
  fixes copy :: "'a \<Rightarrow> 'a option"
  assumes "stack_ok s"
  defines "good \<equiv> takeWhile (\<lambda>x. x = None \<or> Option.bind x copy \<noteq> None) (items s)"
  obtains "good = items s" "\<exists>r. sk_deep_copy True True fresh copy (Some s) = (Some r, []) \<and>
      stack_ok r \<and> items r = map (\<lambda>x. Option.bind x copy) (items s)"
  | "good \<noteq> items s" "sk_deep_copy True True fresh copy (Some s) =
      (None, the_list (map (\<lambda>x. Option.bind x copy) good))"
proof -
  obtain r where r: "sk_dup True True fresh (Some s) = Some r" by (simp add: sk_dup_def)
  note dup = sk_dup_spec [OF assms(1) r]
  have n: "0 + st_num r \<le> length (st_data r)" using dup(1) by (simp add: stack_ok_def)
  have items: "take (st_num r) (drop 0 (st_data r)) = items s" using dup(2) by (simp add: items_def)
  note loop = deep_copy_loop_spec [OF n, of copy, unfolded items, folded good_def]
  show thesis
  proof (cases "good = items s")
    case True
    let ?d = "map (\<lambda>x. Option.bind x copy) (items s) @ drop (st_num r) (st_data r)"
    have l: "length (items s) = st_num r" using length_items [OF dup(1)] dup(2) by simp
    have "sk_deep_copy True True fresh copy (Some s) = (Some (r\<lparr>st_data := ?d\<rparr>), [])"
      using True r loop by (simp add: sk_deep_copy_def)
    moreover have "stack_ok (r\<lparr>st_data := ?d\<rparr>)" using dup(1) l by (simp add: stack_ok_def)
    moreover have "items (r\<lparr>st_data := ?d\<rparr>) = map (\<lambda>x. Option.bind x copy) (items s)"
      using l by (simp add: items_def)
    ultimately show thesis using that(1) True by blast
  next
    case False
    then show thesis using r loop by (intro that(2)) (simp_all add: sk_deep_copy_def)
  qed
qed

end
