(* ===== verification/Lhash.thy ===== *)
theory Lhash
  imports Mem "HOL-Library.Multiset"
begin

text \<open>
  The chained hash table of \<open>crypto/lhash/lhash.c\<close>. A bucket is the list of the items
  of its chain; an \<open>LHASH_ITEM **\<close> is the number of the bucket and the position in the
  chain, past the end where the code returns a pointer to the final null. The
  allocator may refuse, and the array of buckets grows and shrinks with the number of
  items except below a running \<open>OPENSSL_lh_doall_arg\<close>.

  The interface to the clients is the locale \<open>hash_key\<close>: comparing equal is an
  equivalence that the hash function respects. The tables of \<open>crypto/obj/obj.c\<close> and
  of \<open>crypto/conf/conf.c\<close> are its interpretations.
\<close>

section \<open>The table\<close>

record 'a lh_item =
  it_data :: 'a
  it_hash :: u32

record 'a lhash =
  lh_num_items :: nat
  lh_buckets :: "'a lh_item list list"
  lh_num_buckets :: u64
  lh_callback_depth :: u32
  lh_comp :: "'a \<Rightarrow> 'a \<Rightarrow> int"
  lh_hash :: "'a \<Rightarrow> u32"

definition kMinNumBuckets :: u64 where "kMinNumBuckets = 16"
definition kMaxAverageChainLength :: nat where "kMaxAverageChainLength = 2"
definition kMinAverageChainLength :: nat where "kMinAverageChainLength = 1"

definition OPENSSL_lh_new ::
  "bool \<Rightarrow> bool \<Rightarrow> ('a \<Rightarrow> u32) \<Rightarrow> ('a \<Rightarrow> 'a \<Rightarrow> int) \<Rightarrow> 'a lhash option" where
  \<comment> \<open>the first two arguments say whether the two allocations succeed\<close>
  "OPENSSL_lh_new malloc1 malloc2 hash cmp =
     (if \<not> malloc1 then None else if \<not> malloc2 then None
      else Some \<lparr>lh_num_items = 0, lh_buckets = replicate (unat kMinNumBuckets) [],
                 lh_num_buckets = kMinNumBuckets, lh_callback_depth = 0,
                 lh_comp = cmp, lh_hash = hash\<rparr>)"

definition OPENSSL_lh_num_items :: "'a lhash \<Rightarrow> nat" where
  "OPENSSL_lh_num_items lh = lh_num_items lh"

fun chain_pos :: "('a \<Rightarrow> bool) \<Rightarrow> 'a lh_item list \<Rightarrow> nat" where
  "chain_pos eq [] = 0"
| "chain_pos eq (cur # chain) = (if eq (it_data cur) then 0 else Suc (chain_pos eq chain))"

definition bucket_of :: "u32 \<Rightarrow> u64 \<Rightarrow> nat" where
  "bucket_of hash num_buckets = unat (ucast hash mod num_buckets)"

definition get_next_ptr_and_hash :: "'a lhash \<Rightarrow> 'a \<Rightarrow> u32 \<times> nat \<times> nat" where
  "get_next_ptr_and_hash lh data =
     (let hash = lh_hash lh data; b = bucket_of hash (lh_num_buckets lh)
      in (hash, b, chain_pos (\<lambda>cur. lh_comp lh cur data = 0) (lh_buckets lh ! b)))"

definition get_next_ptr_by_key :: "'a lhash \<Rightarrow> 'k \<Rightarrow> u32 \<Rightarrow> ('k \<Rightarrow> 'a \<Rightarrow> int) \<Rightarrow> nat \<times> nat" where
  "get_next_ptr_by_key lh key key_hash cmp_key =
     (let b = bucket_of key_hash (lh_num_buckets lh)
      in (b, chain_pos (\<lambda>cur. cmp_key key cur = 0) (lh_buckets lh ! b)))"

definition at_ptr :: "'a lhash \<Rightarrow> nat \<times> nat \<Rightarrow> 'a lh_item option" where
  "at_ptr lh p =
     (case p of (b, i) \<Rightarrow> if i < length (lh_buckets lh ! b) then Some (lh_buckets lh ! b ! i) else None)"

definition OPENSSL_lh_retrieve :: "'a lhash \<Rightarrow> 'a \<Rightarrow> 'a option" where
  "OPENSSL_lh_retrieve lh data = map_option it_data (at_ptr lh (snd (get_next_ptr_and_hash lh data)))"

definition OPENSSL_lh_retrieve_key :: "'a lhash \<Rightarrow> 'k \<Rightarrow> u32 \<Rightarrow> ('k \<Rightarrow> 'a \<Rightarrow> int) \<Rightarrow> 'a option" where
  "OPENSSL_lh_retrieve_key lh key key_hash cmp_key =
     map_option it_data (at_ptr lh (get_next_ptr_by_key lh key key_hash cmp_key))"

definition push_item :: "u64 \<Rightarrow> 'a lh_item list list \<Rightarrow> 'a lh_item \<Rightarrow> 'a lh_item list list" where
  "push_item new_num_buckets new_buckets cur =
     (let new_bucket = bucket_of (it_hash cur) new_num_buckets
      in new_buckets[new_bucket := cur # new_buckets ! new_bucket])"

definition lh_rebucket :: "(u64 \<Rightarrow> bool) \<Rightarrow> 'a lhash \<Rightarrow> u64 \<Rightarrow> 'a lhash" where
  \<comment> \<open>a pointer has 8 bytes\<close>
  "lh_rebucket grants lh new_num_buckets =
     (let alloc_size = 8 * new_num_buckets
      in if alloc_size div 8 \<noteq> new_num_buckets then lh
         else if \<not> grants alloc_size then lh
         else lh\<lparr>lh_num_buckets := new_num_buckets,
                 lh_buckets := foldl (push_item new_num_buckets)
                   (replicate (unat new_num_buckets) []) (concat (lh_buckets lh))\<rparr>)"

definition lh_maybe_resize :: "(u64 \<Rightarrow> bool) \<Rightarrow> 'a lhash \<Rightarrow> 'a lhash" where
  "lh_maybe_resize grants lh =
     (if lh_callback_depth lh > 0 then lh
      else let avg_chain_length = lh_num_items lh div unat (lh_num_buckets lh)
           in if avg_chain_length > kMaxAverageChainLength
              then let new_num_buckets = lh_num_buckets lh * 2
                   in if new_num_buckets > lh_num_buckets lh then lh_rebucket grants lh new_num_buckets else lh
              else if avg_chain_length < kMinAverageChainLength \<and> lh_num_buckets lh > kMinNumBuckets
              then let new_num_buckets = lh_num_buckets lh div 2;
                       new_num_buckets = (if new_num_buckets < kMinNumBuckets then kMinNumBuckets else new_num_buckets)
                   in lh_rebucket grants lh new_num_buckets
              else lh)"

definition OPENSSL_lh_insert ::
  "bool \<Rightarrow> (u64 \<Rightarrow> bool) \<Rightarrow> 'a lhash \<Rightarrow> 'a \<Rightarrow> bool \<times> 'a option \<times> 'a lhash" where
  \<comment> \<open>success, \<open>*old_data\<close> and the table; the first argument says whether the item can be allocated\<close>
  "OPENSSL_lh_insert malloc_ok grants lh data =
     (case get_next_ptr_and_hash lh data of (hash, b, i) \<Rightarrow>
        (case at_ptr lh (b, i) of
           Some item \<Rightarrow>
             (True, Some (it_data item),
              lh\<lparr>lh_buckets := (lh_buckets lh)[b := (lh_buckets lh ! b)[i := item\<lparr>it_data := data\<rparr>]]\<rparr>)
         | None \<Rightarrow>
             if \<not> malloc_ok then (False, None, lh)
             else (True, None,
                   lh_maybe_resize grants
                     (lh\<lparr>lh_buckets := (lh_buckets lh)[b := lh_buckets lh ! b @ [\<lparr>it_data = data, it_hash = hash\<rparr>]],
                         lh_num_items := lh_num_items lh + 1\<rparr>))))"

definition OPENSSL_lh_delete :: "(u64 \<Rightarrow> bool) \<Rightarrow> 'a lhash \<Rightarrow> 'a \<Rightarrow> 'a option \<times> 'a lhash" where
  "OPENSSL_lh_delete grants lh data =
     (case get_next_ptr_and_hash lh data of (hash, b, i) \<Rightarrow>
        (case at_ptr lh (b, i) of
           None \<Rightarrow> (None, lh)
         | Some item \<Rightarrow>
             (Some (it_data item),
              lh_maybe_resize grants
                (lh\<lparr>lh_buckets := (lh_buckets lh)[b := take i (lh_buckets lh ! b) @ drop (i + 1) (lh_buckets lh ! b)],
                    lh_num_items := lh_num_items lh - 1\<rparr>))))"

text \<open>A callback that leaves the table alone: it sees every element and threads its argument.\<close>

definition OPENSSL_lh_doall_arg :: "(u64 \<Rightarrow> bool) \<Rightarrow> 'a lhash \<Rightarrow> ('a \<Rightarrow> 's \<Rightarrow> 's) \<Rightarrow> 's \<Rightarrow> 's \<times> 'a lhash" where
  "OPENSSL_lh_doall_arg grants lh func arg =
     (let lh = (if lh_callback_depth lh < 0xffffffff
                then lh\<lparr>lh_callback_depth := lh_callback_depth lh + 1\<rparr> else lh);
          arg = foldl (\<lambda>arg cur. func (it_data cur) arg) arg (concat (lh_buckets lh));
          lh = (if lh_callback_depth lh < 0xffffffff
                then lh\<lparr>lh_callback_depth := lh_callback_depth lh - 1\<rparr> else lh)
      in (arg, lh_maybe_resize grants lh))"

section \<open>The contents and the invariant\<close>

definition elements :: "'a lhash \<Rightarrow> 'a multiset" where
  "elements lh = mset (map it_data (concat (lh_buckets lh)))"

definition item_at :: "('a \<Rightarrow> u32) \<Rightarrow> u64 \<Rightarrow> nat \<Rightarrow> 'a lh_item \<Rightarrow> bool" where
  "item_at hash n b it \<longleftrightarrow> it_hash it = hash (it_data it) \<and> bucket_of (it_hash it) n = b"

definition placed :: "('a \<Rightarrow> u32) \<Rightarrow> u64 \<Rightarrow> 'a lh_item list list \<Rightarrow> bool" where
  "placed hash n bs \<longleftrightarrow>
     length bs = unat n \<and> 0 < n \<and>
     (\<forall>b < length bs. \<forall>it \<in> set (bs ! b). item_at hash n b it)"

text \<open>No two elements compare equal; the count of the items is right.\<close>

definition keys_differ :: "('a \<Rightarrow> 'a \<Rightarrow> int) \<Rightarrow> 'a multiset \<Rightarrow> bool" where
  "keys_differ cmp M \<longleftrightarrow> (\<forall>x. size {#y \<in># M. cmp y x = 0#} \<le> 1)"

definition lh_ok :: "'a lhash \<Rightarrow> bool" where
  "lh_ok lh \<longleftrightarrow>
     placed (lh_hash lh) (lh_num_buckets lh) (lh_buckets lh) \<and> kMinNumBuckets \<le> lh_num_buckets lh \<and>
     lh_num_items lh = size (elements lh) \<and>
     keys_differ (lh_comp lh) (elements lh)"

lemma filter_mset_none: "{#y \<in># M. P y#} = {#} \<longleftrightarrow> (\<forall>y \<in># M. \<not> P y)"
  by (induction M) auto

lemma filter_mset_all: "\<forall>y \<in># M. P y \<Longrightarrow> {#y \<in># M. P y#} = M"
  by (simp add: filter_mset_eq_conv)

lemma mset_map_cong: "mset xs = mset ys \<Longrightarrow> mset (map f xs) = mset (map f ys)"
  by simp

lemma elements_cong:
  "mset (concat (lh_buckets a)) = mset (concat (lh_buckets b)) \<Longrightarrow> elements a = elements b"
  unfolding elements_def by (rule mset_map_cong)

lemma option_eqI: "(\<And>y. a = Some y \<longleftrightarrow> b = Some y) \<Longrightarrow> a = b"
  by (cases a; cases b) auto

lemma bucket_of_less: "0 < n \<Longrightarrow> bucket_of h n < unat n"
  by (simp add: bucket_of_def unat_mod word_less_nat_alt)

lemma chain_pos_cases:
  obtains (found) pre it post where "chain = pre @ it # post" "chain_pos eq chain = length pre"
    "eq (it_data it)" "\<forall>x \<in> set pre. \<not> eq (it_data x)"
  | (missing) "chain_pos eq chain = length chain" "\<forall>x \<in> set chain. \<not> eq (it_data x)"
proof -
  have "(\<exists>pre it post. chain = pre @ it # post \<and> chain_pos eq chain = length pre \<and>
      eq (it_data it) \<and> (\<forall>x \<in> set pre. \<not> eq (it_data x))) \<or>
    chain_pos eq chain = length chain \<and> (\<forall>x \<in> set chain. \<not> eq (it_data x))"
  proof (induction chain)
    case (Cons c chain)
    then consider "eq (it_data c)" | pre it post where "\<not> eq (it_data c)" "chain = pre @ it # post"
        "chain_pos eq chain = length pre" "eq (it_data it)" "\<forall>x \<in> set pre. \<not> eq (it_data x)"
      | "\<not> eq (it_data c)" "chain_pos eq chain = length chain" "\<forall>x \<in> set chain. \<not> eq (it_data x)"
      by blast
    then show ?case
    proof cases
      case 1
      then have "c # chain = [] @ c # chain \<and> chain_pos eq (c # chain) = length ([] :: 'a lh_item list) \<and>
        eq (it_data c) \<and> (\<forall>x \<in> set []. \<not> eq (it_data x))" by simp
      then show ?thesis by blast
    next
      case 2
      then have "c # chain = (c # pre) @ it # post \<and> chain_pos eq (c # chain) = length (c # pre) \<and>
        eq (it_data it) \<and> (\<forall>x \<in> set (c # pre). \<not> eq (it_data x))" by simp
      then show ?thesis by blast
    qed simp
  qed simp
  then show thesis using found missing by blast
qed

lemma concat_bucket:
  "b < length bs \<Longrightarrow> concat bs = concat (take b bs) @ bs ! b @ concat (drop (Suc b) bs)"
  by (metis append_assoc concat.simps(2) concat_append id_take_nth_drop)

lemma concat_update:
  "b < length bs \<Longrightarrow> concat (bs[b := c]) = concat (take b bs) @ c @ concat (drop (Suc b) bs)"
  by (simp add: upd_conv_take_nth_drop)

lemma placed_update:
  assumes "placed hash n bs" "\<forall>it \<in> set c. item_at hash n b it"
  shows "placed hash n (bs[b := c])"
proof -
  have "bs[b := c] ! i = (if i = b then c else bs ! i)" if "i < length bs" for i
    using that by simp
  then show ?thesis using assms by (simp add: placed_def)
qed

lemma placedD: "placed hash n bs \<Longrightarrow> b < length bs \<Longrightarrow> it \<in> set (bs ! b) \<Longrightarrow> item_at hash n b it"
  by (simp add: placed_def)

lemma placed_less: "placed hash n bs \<Longrightarrow> bucket_of h n < length bs"
  by (simp add: placed_def bucket_of_less)

text \<open>Rebucketing moves every item to the bucket of its hash.\<close>

lemma push_items:
  assumes "placed hash n bs" "\<forall>it \<in> set items. it_hash it = hash (it_data it)"
  shows "placed hash n (foldl (push_item n) bs items) \<and>
    mset (concat (foldl (push_item n) bs items)) = mset (concat bs) + mset items"
  using assms
proof (induction items arbitrary: bs)
  case (Cons it items)
  let ?b = "bucket_of (it_hash it) n"
  have b: "?b < length bs" using Cons.prems(1) by (rule placed_less)
  have "placed hash n (push_item n bs it)"
    unfolding push_item_def Let_def
    using Cons.prems placedD [OF Cons.prems(1) b]
    by (intro placed_update ballI) (auto simp: item_at_def)
  moreover have "mset (concat (push_item n bs it)) = add_mset it (mset (concat bs))"
    unfolding push_item_def Let_def concat_update [OF b] concat_bucket [OF b] by simp
  ultimately show ?case using Cons by simp
qed simp

lemma placed_empty: "0 < n \<Longrightarrow> placed hash n (replicate (unat n) [])"
  by (simp add: placed_def)

lemma placed_hash: "placed hash n bs \<Longrightarrow> it \<in> set (concat bs) \<Longrightarrow> it_hash it = hash (it_data it)"
proof -
  assume "placed hash n bs" "it \<in> set (concat bs)"
  then obtain b where "b < length bs" "it \<in> set (bs ! b)" by (auto simp: in_set_conv_nth [of _ bs])
  with \<open>placed hash n bs\<close> show ?thesis using placedD by (fastforce simp: item_at_def)
qed

lemma rebucket_spec:
  assumes "lh_ok lh" "kMinNumBuckets \<le> n"
  shows "lh_ok (lh_rebucket grants lh n) \<and> elements (lh_rebucket grants lh n) = elements lh \<and>
    lh_comp (lh_rebucket grants lh n) = lh_comp lh \<and> lh_hash (lh_rebucket grants lh n) = lh_hash lh"
proof (cases "8 * n div 8 \<noteq> n \<or> \<not> grants (8 * n)")
  case True
  then show ?thesis using assms(1) by (auto simp: lh_rebucket_def Let_def)
next
  case False
  have n: "0 < n" using assms(2) by (simp add: kMinNumBuckets_def word_le_nat_alt word_less_nat_alt)
  let ?bs = "foldl (push_item n) (replicate (unat n) []) (concat (lh_buckets lh))"
  have "placed (lh_hash lh) (lh_num_buckets lh) (lh_buckets lh)" using assms(1) by (simp add: lh_ok_def)
  then have "\<forall>it \<in> set (concat (lh_buckets lh)). it_hash it = lh_hash lh (it_data it)"
    by (blast intro: placed_hash)
  then have bs: "placed (lh_hash lh) n ?bs" "mset (concat ?bs) = mset (concat (lh_buckets lh))"
    using push_items [OF placed_empty [OF n], of "concat (lh_buckets lh)" "lh_hash lh"]
    by (simp_all add: concat_replicate_trivial del: mset_concat set_concat)
  from False have r: "lh_rebucket grants lh n = lh\<lparr>lh_num_buckets := n, lh_buckets := ?bs\<rparr>"
    by (simp add: lh_rebucket_def Let_def)
  have "elements (lh\<lparr>lh_num_buckets := n, lh_buckets := ?bs\<rparr>) = elements lh"
    by (rule elements_cong) (use bs(2) in simp)
  then show ?thesis unfolding r using assms bs(1) by (simp add: lh_ok_def)
qed

lemma resize_spec:
  assumes "lh_ok lh"
  shows "lh_ok (lh_maybe_resize grants lh)" "elements (lh_maybe_resize grants lh) = elements lh"
    "lh_comp (lh_maybe_resize grants lh) = lh_comp lh" "lh_hash (lh_maybe_resize grants lh) = lh_hash lh"
proof -
  have up: "kMinNumBuckets \<le> lh_num_buckets lh * 2" if "lh_num_buckets lh * 2 > lh_num_buckets lh"
    using assms that unfolding lh_ok_def by (meson order.strict_implies_order order_trans)
  have down: "kMinNumBuckets \<le> (if x < kMinNumBuckets then kMinNumBuckets else x)" for x :: u64
    by (simp add: not_less)
  note s = rebucket_spec [OF assms up] rebucket_spec [OF assms down]
  show "lh_ok (lh_maybe_resize grants lh)" "elements (lh_maybe_resize grants lh) = elements lh"
    "lh_comp (lh_maybe_resize grants lh) = lh_comp lh" "lh_hash (lh_maybe_resize grants lh) = lh_hash lh"
    using assms by (simp_all add: lh_maybe_resize_def Let_def s)
qed

lemma new_spec:
  "OPENSSL_lh_new True True hash cmp = Some lh \<Longrightarrow>
   lh_ok lh \<and> elements lh = {#} \<and> lh_comp lh = cmp \<and> lh_hash lh = hash"
  using placed_empty [of kMinNumBuckets hash]
  by (auto simp: OPENSSL_lh_new_def lh_ok_def elements_def keys_differ_def concat_replicate_trivial kMinNumBuckets_def)

section \<open>The clients' contract\<close>

locale hash_key =
  fixes cmp :: "'a \<Rightarrow> 'a \<Rightarrow> int" and hash :: "'a \<Rightarrow> u32"
  assumes refl: "cmp x x = 0"
    and sym: "cmp x y = 0 \<Longrightarrow> cmp y x = 0"
    and trans: "cmp x y = 0 \<Longrightarrow> cmp y z = 0 \<Longrightarrow> cmp x z = 0"
    and hash_eq: "cmp x y = 0 \<Longrightarrow> hash x = hash y"
begin

definition table :: "'a lhash \<Rightarrow> bool" where
  "table lh \<longleftrightarrow> lh_ok lh \<and> lh_comp lh = cmp \<and> lh_hash lh = hash"

lemma find_item:
  fixes lh :: "'a lhash" and x :: 'a
  assumes t: "table lh"
  defines "b \<equiv> bucket_of (hash x) (lh_num_buckets lh)"
  defines "bs \<equiv> lh_buckets lh"
  obtains (found) i A it B where
      "get_next_ptr_and_hash lh x = (hash x, b, i)" "at_ptr lh (b, i) = Some it"
      "concat bs = A @ it # B" "cmp (it_data it) x = 0" "item_at hash (lh_num_buckets lh) b it"
      "\<forall>y \<in> set A \<union> set B. cmp (it_data y) x \<noteq> 0"
      "\<forall>it'. concat (bs[b := (bs ! b)[i := it']]) = A @ it' # B"
      "concat (bs[b := take i (bs ! b) @ drop (i + 1) (bs ! b)]) = A @ B"
  | (missing) i where
      "get_next_ptr_and_hash lh x = (hash x, b, i)" "at_ptr lh (b, i) = None"
      "\<forall>y \<in> set (concat bs). cmp (it_data y) x \<noteq> 0"
proof -
  have ok: "placed hash (lh_num_buckets lh) bs" "keys_differ cmp (elements lh)"
    and c: "lh_comp lh = cmp" "lh_hash lh = hash"
    using t by (auto simp: table_def lh_ok_def bs_def)
  have b: "b < length bs" unfolding b_def by (rule placed_less [OF ok(1)])
  let ?i = "chain_pos (\<lambda>cur. cmp cur x = 0) (bs ! b)"
  have g: "get_next_ptr_and_hash lh x = (hash x, b, ?i)"
    by (simp add: get_next_ptr_and_hash_def Let_def c b_def bs_def)
  show thesis
  proof (cases "bs ! b" "\<lambda>cur. cmp cur x = 0" rule: chain_pos_cases)
    case (found pre it post)
    let ?A = "concat (take b bs) @ pre" and ?B = "post @ concat (drop (Suc b) bs)"
    have AB: "concat bs = ?A @ it # ?B" using concat_bucket [OF b] found(1) by simp
    have "size {#y \<in># elements lh. cmp y x = 0#} \<le> 1" using ok(2) by (simp add: keys_differ_def)
    moreover have "elements lh = mset (map it_data (?A @ it # ?B))"
      unfolding elements_def AB [unfolded bs_def] bs_def by simp
    ultimately have "size {#y \<in># mset (map it_data ?A) + mset (map it_data ?B). cmp y x = 0#} = 0"
      using found(3) by (simp del: size_eq_0_iff_empty)
    then have "\<forall>y \<in># mset (map it_data ?A) + mset (map it_data ?B). cmp y x \<noteq> 0"
      by (simp only: size_eq_0_iff_empty filter_mset_none)
    then have none: "\<forall>y \<in> set ?A \<union> set ?B. cmp (it_data y) x \<noteq> 0"
      by (simp only: set_mset_union set_mset_mset set_map) blast
    show ?thesis
    proof (rule that(1) [OF g _ AB found(3) _ none])
      show "at_ptr lh (b, ?i) = Some it" using found by (simp add: at_ptr_def flip: bs_def)
      show "item_at hash (lh_num_buckets lh) b it" using placedD [OF ok(1) b] found(1) by simp
      show "\<forall>it'. concat (bs[b := (bs ! b)[?i := it']]) = ?A @ it' # ?B"
        using found(1,2) by (simp add: concat_update [OF b])
      show "concat (bs[b := take ?i (bs ! b) @ drop (?i + 1) (bs ! b)]) = ?A @ ?B"
        using found(1,2) by (simp add: concat_update [OF b])
    qed
  next
    case missing
    have "cmp (it_data y) x \<noteq> 0" if y: "y \<in> set (concat bs)" for y
    proof
      assume eq: "cmp (it_data y) x = 0"
      from y obtain k where k: "k < length bs" "y \<in> set (bs ! k)" by (auto simp: in_set_conv_nth [of _ bs])
      then have "k = b" using placedD [OF ok(1) k] hash_eq [OF eq] by (auto simp: item_at_def b_def)
      with missing(2) k(2) eq show False by simp
    qed
    moreover have "at_ptr lh (b, ?i) = None" using missing(1) by (simp add: at_ptr_def flip: bs_def)
    ultimately show ?thesis using that(2) [OF g] by blast
  qed
qed

lemma retrieve_iff:
  assumes "table lh"
  shows "OPENSSL_lh_retrieve lh x = Some y \<longleftrightarrow> y \<in># elements lh \<and> cmp y x = 0"
  by (rule find_item [OF assms, of x])
    (auto simp: OPENSSL_lh_retrieve_def elements_def)

lemma retrieve_None:
  assumes "table lh"
  shows "OPENSSL_lh_retrieve lh x = None \<longleftrightarrow> (\<forall>y \<in># elements lh. cmp y x \<noteq> 0)"
  using retrieve_iff [OF assms, of x] by (metis not_None_eq)

text \<open>Replacing, adding and removing an element keep the invariant.\<close>

lemma keys_differ_remove:
  assumes "keys_differ cmp M"
  shows "keys_differ cmp {#y \<in># M. cmp y x \<noteq> 0#}"
  unfolding keys_differ_def
proof
  fix z
  have "{#y \<in># {#y \<in># M. cmp y x \<noteq> 0#}. cmp y z = 0#} \<subseteq># {#y \<in># M. cmp y z = 0#}"
    by (intro multiset_filter_mono multiset_filter_subset)
  then have "size {#y \<in># {#y \<in># M. cmp y x \<noteq> 0#}. cmp y z = 0#} \<le> size {#y \<in># M. cmp y z = 0#}"
    by (rule size_mset_mono)
  also have "\<dots> \<le> 1" using assms by (simp add: keys_differ_def)
  finally show "size {#y \<in># {#y \<in># M. cmp y x \<noteq> 0#}. cmp y z = 0#} \<le> 1" .
qed

lemma keys_differ_replace:
  assumes "keys_differ cmp M"
  shows "keys_differ cmp (add_mset x {#y \<in># M. cmp y x \<noteq> 0#})"
  unfolding keys_differ_def
proof
  fix z
  show "size {#y \<in># add_mset x {#y \<in># M. cmp y x \<noteq> 0#}. cmp y z = 0#} \<le> 1"
  proof (cases "cmp x z = 0")
    case True
    then have "cmp y z \<noteq> 0" if "cmp y x \<noteq> 0" for y using trans [of y z x] sym [of x z] that by blast
    then have "{#y \<in># {#y \<in># M. cmp y x \<noteq> 0#}. cmp y z = 0#} = {#}" by (simp add: filter_mset_none)
    with True show ?thesis by simp
  next
    case False
    then show ?thesis using keys_differ_remove [OF assms, of x] by (simp add: keys_differ_def)
  qed
qed

lemma filter_around:
  assumes "\<forall>y \<in> set A \<union> set B. cmp (it_data y) x \<noteq> 0" "cmp (it_data it) x = 0"
  shows "{#y \<in># mset (map it_data (A @ it # B)). cmp y x \<noteq> 0#} = mset (map it_data (A @ B))"
proof -
  have "{#y \<in># mset (map it_data A). cmp y x \<noteq> 0#} = mset (map it_data A)"
    "{#y \<in># mset (map it_data B). cmp y x \<noteq> 0#} = mset (map it_data B)"
    using assms(1) by (intro filter_mset_all; simp)+
  with assms(2) show ?thesis by simp
qed

lemma insert_spec:
  assumes t: "table lh"
  shows "fst (OPENSSL_lh_insert malloc_ok grants lh x) \<longleftrightarrow> malloc_ok \<or> OPENSSL_lh_retrieve lh x \<noteq> None" (is ?ret)
    and "fst (snd (OPENSSL_lh_insert malloc_ok grants lh x)) = OPENSSL_lh_retrieve lh x" (is ?old)
    and "table (snd (snd (OPENSSL_lh_insert malloc_ok grants lh x)))" (is ?tab)
    and "elements (snd (snd (OPENSSL_lh_insert malloc_ok grants lh x))) =
      (if fst (OPENSSL_lh_insert malloc_ok grants lh x)
       then add_mset x {#y \<in># elements lh. cmp y x \<noteq> 0#} else elements lh)" (is ?el)
proof -
  let ?b = "bucket_of (hash x) (lh_num_buckets lh)" and ?bs = "lh_buckets lh"
  have ok: "lh_ok lh" and c: "lh_comp lh = cmp" "lh_hash lh = hash" using t by (auto simp: table_def)
  have p: "placed hash (lh_num_buckets lh) ?bs" and uniq: "keys_differ cmp (elements lh)"
    using ok c by (simp_all add: lh_ok_def)
  have "?ret \<and> ?old \<and> ?tab \<and> ?el"
  proof (cases rule: find_item [OF t, of x])
    case (1 i A it B)
    let ?it = "it\<lparr>it_data := x\<rparr>"
    let ?lh = "lh\<lparr>lh_buckets := ?bs[?b := (?bs ! ?b)[i := ?it]]\<rparr>"
    have r: "OPENSSL_lh_insert malloc_ok grants lh x = (True, Some (it_data it), ?lh)"
      using 1 by (simp add: OPENSSL_lh_insert_def)
    have el: "elements ?lh = add_mset x {#y \<in># elements lh. cmp y x \<noteq> 0#}"
      using filter_around [OF 1(6,4)] 1(3,7) by (simp add: elements_def)
    have "it_hash it = hash x" "bucket_of (it_hash it) (lh_num_buckets lh) = ?b"
      using 1(5) hash_eq [OF 1(4)] by (simp_all add: item_at_def)
    then have "item_at hash (lh_num_buckets lh) ?b ?it" by (simp add: item_at_def)
    then have "placed hash (lh_num_buckets lh) (?bs[?b := (?bs ! ?b)[i := ?it]])"
      using placedD [OF p placed_less [OF p]] set_update_subset_insert [of "?bs ! ?b" i ?it]
      by (intro placed_update [OF p]) blast
    moreover have "size (elements ?lh) = size (elements lh)"
      using 1(3,7) by (simp add: elements_def)
    ultimately have "table ?lh"
      using ok c keys_differ_replace [OF uniq] by (simp add: table_def lh_ok_def el)
    moreover have "OPENSSL_lh_retrieve lh x = Some (it_data it)" using 1(1,2) by (simp add: OPENSSL_lh_retrieve_def)
    ultimately show ?thesis using r el by simp
  next
    case (2 i)
    have old: "OPENSSL_lh_retrieve lh x = None" using 2(1,2) by (simp add: OPENSSL_lh_retrieve_def)
    show ?thesis
    proof (cases malloc_ok)
      case False
      then show ?thesis using 2 old t by (simp add: OPENSSL_lh_insert_def)
    next
      case True
      let ?it = "\<lparr>it_data = x, it_hash = hash x\<rparr>"
      let ?lh = "lh\<lparr>lh_buckets := ?bs[?b := ?bs ! ?b @ [?it]], lh_num_items := lh_num_items lh + 1\<rparr>"
      have r: "OPENSSL_lh_insert malloc_ok grants lh x = (True, None, lh_maybe_resize grants ?lh)"
        using 2 True by (simp add: OPENSSL_lh_insert_def)
      have "{#y \<in># elements lh. cmp y x \<noteq> 0#} = elements lh"
        using 2(3) by (auto simp: elements_def filter_mset_eq_conv)
      moreover have "elements ?lh = add_mset x (elements lh)"
        unfolding elements_def by (simp add: concat_update [OF placed_less [OF p]])
          (subst concat_bucket [OF placed_less [OF p, of "hash x"]], simp)
      ultimately have el: "elements ?lh = add_mset x {#y \<in># elements lh. cmp y x \<noteq> 0#}"
        and n: "size (elements ?lh) = lh_num_items ?lh" using ok by (simp_all add: lh_ok_def)
      have "item_at hash (lh_num_buckets lh) ?b ?it" by (simp add: item_at_def)
      then have "placed hash (lh_num_buckets lh) (?bs[?b := ?bs ! ?b @ [?it]])"
        using placedD [OF p placed_less [OF p]] by (intro placed_update [OF p]) auto
      then have "lh_ok ?lh"
        using ok c n keys_differ_replace [OF uniq] unfolding lh_ok_def el by simp
      then show ?thesis using True r old resize_spec [of ?lh grants] el c by (simp add: table_def)
    qed
  qed
  then show ?ret ?old ?tab ?el by simp_all
qed

lemma delete_spec:
  assumes t: "table lh"
  shows "fst (OPENSSL_lh_delete grants lh x) = OPENSSL_lh_retrieve lh x" (is ?old)
    and "table (snd (OPENSSL_lh_delete grants lh x))" (is ?tab)
    and "elements (snd (OPENSSL_lh_delete grants lh x)) = {#y \<in># elements lh. cmp y x \<noteq> 0#}" (is ?el)
proof -
  let ?b = "bucket_of (hash x) (lh_num_buckets lh)" and ?bs = "lh_buckets lh"
  have ok: "lh_ok lh" and c: "lh_comp lh = cmp" "lh_hash lh = hash" using t by (auto simp: table_def)
  have p: "placed hash (lh_num_buckets lh) ?bs" and uniq: "keys_differ cmp (elements lh)"
    using ok c by (simp_all add: lh_ok_def)
  have "?old \<and> ?tab \<and> ?el"
  proof (cases rule: find_item [OF t, of x])
    case (1 i A it B)
    let ?c = "take i (?bs ! ?b) @ drop (i + 1) (?bs ! ?b)"
    let ?lh = "lh\<lparr>lh_buckets := ?bs[?b := ?c], lh_num_items := lh_num_items lh - 1\<rparr>"
    have r: "OPENSSL_lh_delete grants lh x = (Some (it_data it), lh_maybe_resize grants ?lh)"
      using 1 by (simp add: OPENSSL_lh_delete_def)
    have el: "elements ?lh = {#y \<in># elements lh. cmp y x \<noteq> 0#}"
      using filter_around [OF 1(6,4)] 1(3,8) by (simp add: elements_def)
    have n: "size (elements ?lh) = lh_num_items ?lh"
      using 1(3,8) ok by (simp add: elements_def lh_ok_def)
    have "placed hash (lh_num_buckets lh) (?bs[?b := ?c])"
      using placedD [OF p placed_less [OF p]]
      by (intro placed_update [OF p]) (auto dest: in_set_takeD in_set_dropD)
    then have "lh_ok ?lh" using ok c n keys_differ_remove [OF uniq] unfolding lh_ok_def el by simp
    moreover have "OPENSSL_lh_retrieve lh x = Some (it_data it)" using 1(1,2) by (simp add: OPENSSL_lh_retrieve_def)
    ultimately show ?thesis using r resize_spec [of ?lh grants] el c by (simp add: table_def)
  next
    case (2 i)
    have "{#y \<in># elements lh. cmp y x \<noteq> 0#} = elements lh"
      using 2(3) by (auto simp: elements_def filter_mset_eq_conv)
    then show ?thesis using 2(1,2) t by (simp add: OPENSSL_lh_delete_def OPENSSL_lh_retrieve_def)
  qed
  then show ?old ?tab ?el by simp_all
qed

text \<open>The map laws.\<close>

lemma agree: "cmp y z = 0 \<Longrightarrow> cmp x z = 0 \<longleftrightarrow> cmp y x = 0"
  using sym trans by blast

lemma retrieve_insert:
  assumes "table lh" "fst (OPENSSL_lh_insert malloc_ok grants lh x)"
  shows "OPENSSL_lh_retrieve (snd (snd (OPENSSL_lh_insert malloc_ok grants lh x))) z =
    (if cmp x z = 0 then Some x else OPENSSL_lh_retrieve lh z)"
proof -
  let ?lh = "snd (snd (OPENSSL_lh_insert malloc_ok grants lh x))"
  have "OPENSSL_lh_retrieve ?lh z = Some y \<longleftrightarrow> (if cmp x z = 0 then y = x else OPENSSL_lh_retrieve lh z = Some y)" for y
    unfolding retrieve_iff [OF insert_spec(3) [OF assms(1)]] retrieve_iff [OF assms(1)]
      insert_spec(4) [OF assms(1)]
    using assms(2) agree [of y z x] by (cases "cmp x z = 0") auto
  then show ?thesis by (intro option_eqI) auto
qed

lemma retrieve_delete:
  assumes "table lh"
  shows "OPENSSL_lh_retrieve (snd (OPENSSL_lh_delete grants lh x)) z =
    (if cmp x z = 0 then None else OPENSSL_lh_retrieve lh z)"
proof -
  let ?lh = "snd (OPENSSL_lh_delete grants lh x)"
  have "OPENSSL_lh_retrieve ?lh z = Some y \<longleftrightarrow> (\<not> cmp x z = 0 \<and> OPENSSL_lh_retrieve lh z = Some y)" for y
    unfolding retrieve_iff [OF delete_spec(2) [OF assms(1)]] retrieve_iff [OF assms(1)]
      delete_spec(3) [OF assms(1)]
    using agree [of y z x] by (cases "cmp x z = 0") auto
  then show ?thesis by (intro option_eqI) simp
qed

text \<open>Looking up by a key of another type that stands for the element \<open>x\<close>.\<close>

lemma retrieve_key:
  assumes "table lh" "key_hash = hash x" "\<And>y. cmp_key key y = 0 \<longleftrightarrow> cmp y x = 0"
  shows "OPENSSL_lh_retrieve_key lh key key_hash cmp_key = OPENSSL_lh_retrieve lh x"
  using assms by (simp add: OPENSSL_lh_retrieve_key_def OPENSSL_lh_retrieve_def table_def
      get_next_ptr_by_key_def get_next_ptr_and_hash_def Let_def)

text \<open>A traversal sees every element once, in some order, and leaves the contents.\<close>

lemma doall_spec:
  assumes t: "table lh"
  obtains xs where "mset xs = elements lh"
    "fst (OPENSSL_lh_doall_arg grants lh func arg) = foldl (\<lambda>arg x. func x arg) arg xs"
    "table (snd (OPENSSL_lh_doall_arg grants lh func arg))"
    "elements (snd (OPENSSL_lh_doall_arg grants lh func arg)) = elements lh"
proof -
  let ?up = "\<lambda>lh. if lh_callback_depth lh < 0xffffffff then lh\<lparr>lh_callback_depth := lh_callback_depth lh + 1\<rparr> else lh"
  let ?down = "\<lambda>lh. if lh_callback_depth lh < 0xffffffff then lh\<lparr>lh_callback_depth := lh_callback_depth lh - 1\<rparr> else lh"
  have d: "OPENSSL_lh_doall_arg grants lh func arg =
    (foldl (\<lambda>arg cur. func (it_data cur) arg) arg (concat (lh_buckets lh)), lh_maybe_resize grants (?down (?up lh)))"
    by (simp add: OPENSSL_lh_doall_arg_def Let_def)
  have e: "elements (?down (?up lh)) = elements lh" by (rule elements_cong) simp
  have "lh_ok (?down (?up lh))" "lh_comp (?down (?up lh)) = cmp" "lh_hash (?down (?up lh)) = hash"
    using t e unfolding table_def lh_ok_def by (simp_all split del: if_split, simp_all)
  then have "table (lh_maybe_resize grants (?down (?up lh)))" "elements (lh_maybe_resize grants (?down (?up lh))) = elements lh"
    using resize_spec [of "?down (?up lh)" grants] e by (simp_all only: table_def)
  then show thesis
    using that [of "map it_data (concat (lh_buckets lh))"] by (simp add: d elements_def foldl_map comp_def)
qed

end

text \<open>The usual client: elements are equal when a part of them, the key, is.\<close>

lemma hash_key_by:
  assumes "\<And>x y. cmp x y = 0 \<longleftrightarrow> key x = key y" "\<And>x. hash x = h (key x)"
  shows "hash_key cmp hash"
  using assms by unfold_locales auto

end
