(* ===== verification/Obj.thy ===== *)
theory Obj
  imports Oid Lhash Set_Of
begin

text \<open>
  The registry of ASN.1 objects (\<open>crypto/obj/obj.c\<close>, with the constructors of
  \<open>crypto/asn1/a_object.c\<close>). The tables of built-in objects are generated
  (\<open>obj_dat.h\<close>): they are the parameter \<open>T\<close>, and \<open>tables_ok\<close> is the order that the
  generator gives the three indices. Objects added at run time are in four hash
  tables. \<open>bsearch\<close> may return any matching entry; the model returns the first, and
  the lemmas only say which object an entry is for. The locks are left out: an
  operation is one step.

  A string or the contents of an object is \<open>None\<close> where the code has \<open>NULL\<close>. An
  \<open>int\<close> nid is a 32-bit word read with \<open>sint\<close>.
\<close>

section \<open>Objects\<close>

record asn1_object =
  ao_sn :: "bytes option"
  ao_ln :: "bytes option"
  ao_nid :: u32
  ao_length :: int
  ao_data :: "bytes option"
  ao_flags :: u32

definition ASN1_OBJECT_FLAG_DYNAMIC :: u32 where "ASN1_OBJECT_FLAG_DYNAMIC = 0x01"
definition ASN1_OBJECT_FLAG_DYNAMIC_STRINGS :: u32 where "ASN1_OBJECT_FLAG_DYNAMIC_STRINGS = 0x04"
definition ASN1_OBJECT_FLAG_DYNAMIC_DATA :: u32 where "ASN1_OBJECT_FLAG_DYNAMIC_DATA = 0x08"
definition CBS_ASN1_OBJECT :: u32 where "CBS_ASN1_OBJECT = 0x6"

definition dynamic_flags :: u32 where
  "dynamic_flags = ASN1_OBJECT_FLAG_DYNAMIC OR ASN1_OBJECT_FLAG_DYNAMIC_STRINGS OR ASN1_OBJECT_FLAG_DYNAMIC_DATA"

definition the_bytes :: "bytes option \<Rightarrow> bytes" where
  \<comment> \<open>what a pointer that is not null points to\<close>
  "the_bytes p = (case p of None \<Rightarrow> [] | Some d \<Rightarrow> d)"

text \<open>
  The \<open>length\<close> bytes at \<open>data\<close>. A valid object has that many; reading past them is
  undefined in C and gives zeros here.
\<close>

definition obj_bytes :: "asn1_object \<Rightarrow> bytes" where
  "obj_bytes a = (let n = nat (ao_length a) in take n (the_bytes (ao_data a) @ replicate n 0))"

definition ASN1_OBJECT_new :: "bool \<Rightarrow> asn1_object option" where
  "ASN1_OBJECT_new malloc_ok =
     (if \<not> malloc_ok then None
      else Some \<lparr>ao_sn = None, ao_ln = None, ao_nid = 0, ao_length = 0, ao_data = None,
                 ao_flags = ASN1_OBJECT_FLAG_DYNAMIC\<rparr>)"

text \<open>\<open>m\<close> says which of the four allocations succeed, \<open>fresh\<close> what new memory holds.\<close>

definition OBJ_dup :: "(nat \<Rightarrow> bool) \<Rightarrow> (nat \<Rightarrow> byte) \<Rightarrow> asn1_object option \<Rightarrow> asn1_object option" where
  "OBJ_dup m fresh a =
     (case a of None \<Rightarrow> None
      | Some a \<Rightarrow>
          if ao_flags a AND ASN1_OBJECT_FLAG_DYNAMIC = 0 then Some a
          else (case ASN1_OBJECT_new (m 0) of None \<Rightarrow> None
                | Some r \<Rightarrow>
                    if \<not> m 1 then None
                    else
                      let n = nat (ao_length a);
                          data = (case ao_data a of Some d \<Rightarrow> take n d | None \<Rightarrow> map fresh [0..<n]);
                          r = r\<lparr>ao_data := Some data, ao_length := ao_length a, ao_nid := ao_nid a\<rparr>;
                          ln = OPENSSL_strdup (m 2) (ao_ln a)
                      in if ao_ln a \<noteq> None \<and> ln = None then None
                         else let sn = OPENSSL_strdup (m 3) (ao_sn a)
                              in if ao_sn a \<noteq> None \<and> sn = None then None
                                 else Some (r\<lparr>ao_sn := sn, ao_ln := ln, ao_flags := ao_flags a OR dynamic_flags\<rparr>)))"

definition ASN1_OBJECT_create ::
  "(nat \<Rightarrow> bool) \<Rightarrow> (nat \<Rightarrow> byte) \<Rightarrow> u32 \<Rightarrow> bytes option \<Rightarrow> int \<Rightarrow> bytes option \<Rightarrow> bytes option \<Rightarrow> asn1_object option" where
  "ASN1_OBJECT_create m fresh nid data len sn ln =
     OBJ_dup m fresh (Some \<lparr>ao_sn = sn, ao_ln = ln, ao_nid = nid, ao_length = len, ao_data = data,
                            ao_flags = dynamic_flags\<rparr>)"

definition OBJ_cmp :: "asn1_object \<Rightarrow> asn1_object \<Rightarrow> int" where
  "OBJ_cmp a b =
     (let ret = ao_length a - ao_length b
      in if ret \<noteq> 0 then ret
         else OPENSSL_memcmp (obj_bytes a) (obj_bytes b) (nat (ao_length a)))"

definition OBJ_get0_data :: "asn1_object option \<Rightarrow> bytes option" where
  "OBJ_get0_data obj = (case obj of None \<Rightarrow> None | Some a \<Rightarrow> ao_data a)"

definition OBJ_length :: "asn1_object option \<Rightarrow> nat" where
  "OBJ_length obj = (case obj of None \<Rightarrow> 0 | Some a \<Rightarrow> if ao_length a < 0 then 0 else nat (ao_length a))"

section \<open>The tables\<close>

record obj_tables =
  kObjects :: "asn1_object list"
  kNIDsInShortNameOrder :: "nat list"
  kNIDsInLongNameOrder :: "nat list"
  kNIDsInOIDOrder :: "nat list"

record obj_state =
  added_by_data :: "asn1_object lhash option"
  added_by_nid :: "asn1_object lhash option"
  added_by_short_name :: "asn1_object lhash option"
  added_by_long_name :: "asn1_object lhash option"
  next_nid :: u32

definition hash_nid :: "asn1_object \<Rightarrow> u32" where "hash_nid obj = ao_nid obj"

definition cmp_nid :: "asn1_object \<Rightarrow> asn1_object \<Rightarrow> int" where
  "cmp_nid a b = sint (ao_nid a - ao_nid b)"

definition hash_data :: "asn1_object \<Rightarrow> u32" where
  "hash_data obj = OPENSSL_hash32 (obj_bytes obj)"

definition cmp_data :: "asn1_object \<Rightarrow> asn1_object \<Rightarrow> int" where
  "cmp_data a b =
     (let i = ao_length a - ao_length b
      in if i \<noteq> 0 then i
         else OPENSSL_memcmp (obj_bytes a) (obj_bytes b) (nat (ao_length a)))"

definition hash_short_name :: "asn1_object \<Rightarrow> u32" where
  "hash_short_name obj = OPENSSL_strhash (the_bytes (ao_sn obj))"

definition cmp_short_name :: "asn1_object \<Rightarrow> asn1_object \<Rightarrow> int" where
  "cmp_short_name a b = strcmp (the_bytes (ao_sn a)) (the_bytes (ao_sn b))"

definition hash_long_name :: "asn1_object \<Rightarrow> u32" where
  "hash_long_name obj = OPENSSL_strhash (the_bytes (ao_ln obj))"

definition cmp_long_name :: "asn1_object \<Rightarrow> asn1_object \<Rightarrow> int" where
  "cmp_long_name a b = strcmp (the_bytes (ao_ln a)) (the_bytes (ao_ln b))"

text \<open>The template on the stack of a lookup: only the field set is read.\<close>

definition blank :: asn1_object where
  "blank = \<lparr>ao_sn = None, ao_ln = None, ao_nid = 0, ao_length = 0, ao_data = None, ao_flags = 0\<rparr>"

definition retrieve_added :: "'a lhash option \<Rightarrow> 'a \<Rightarrow> 'a option" where
  "retrieve_added lh key = (case lh of None \<Rightarrow> None | Some lh \<Rightarrow> OPENSSL_lh_retrieve lh key)"

definition obj_cmp :: "obj_tables \<Rightarrow> asn1_object \<Rightarrow> nat \<Rightarrow> int" where
  "obj_cmp T a nid =
     (let b = kObjects T ! nid
      in if ao_length a < ao_length b then -1
         else if ao_length a > ao_length b then 1
         else OPENSSL_memcmp (obj_bytes a) (obj_bytes b) (nat (ao_length a)))"

definition short_name_cmp :: "obj_tables \<Rightarrow> bytes \<Rightarrow> nat \<Rightarrow> int" where
  "short_name_cmp T name nid = strcmp name (the_bytes (ao_sn (kObjects T ! nid)))"

definition long_name_cmp :: "obj_tables \<Rightarrow> bytes \<Rightarrow> nat \<Rightarrow> int" where
  "long_name_cmp T name nid = strcmp name (the_bytes (ao_ln (kObjects T ! nid)))"

definition bsearch_nid :: "obj_tables \<Rightarrow> (nat \<Rightarrow> int) \<Rightarrow> nat list \<Rightarrow> u32" where
  \<comment> \<open>\<open>bsearch\<close> and the nid of the object found, or \<open>NID_undef\<close>\<close>
  "bsearch_nid T cmp index =
     (case bsearch_first cmp index 0 (length index) of
        None \<Rightarrow> 0 | Some i \<Rightarrow> ao_nid (kObjects T ! (index ! i)))"

definition OBJ_obj2nid :: "obj_tables \<Rightarrow> obj_state \<Rightarrow> asn1_object option \<Rightarrow> u32" where
  "OBJ_obj2nid T st obj =
     (case obj of None \<Rightarrow> 0
      | Some obj \<Rightarrow>
          if ao_nid obj \<noteq> 0 then ao_nid obj
          else (case retrieve_added (added_by_data st) obj of
                  Some match \<Rightarrow> ao_nid match
                | None \<Rightarrow> bsearch_nid T (obj_cmp T obj) (kNIDsInOIDOrder T)))"

definition OBJ_cbs2nid :: "obj_tables \<Rightarrow> obj_state \<Rightarrow> bytes \<Rightarrow> u32" where
  \<comment> \<open>the bound is \<open>INT_MAX\<close>\<close>
  "OBJ_cbs2nid T st cbs =
     (if length cbs > 2147483647 then 0
      else OBJ_obj2nid T st (Some (blank\<lparr>ao_data := Some cbs, ao_length := int (length cbs)\<rparr>)))"

definition OBJ_sn2nid :: "obj_tables \<Rightarrow> obj_state \<Rightarrow> bytes \<Rightarrow> u32" where
  "OBJ_sn2nid T st short_name =
     (case retrieve_added (added_by_short_name st) (blank\<lparr>ao_sn := Some short_name\<rparr>) of
        Some match \<Rightarrow> ao_nid match
      | None \<Rightarrow> bsearch_nid T (short_name_cmp T short_name) (kNIDsInShortNameOrder T))"

definition OBJ_ln2nid :: "obj_tables \<Rightarrow> obj_state \<Rightarrow> bytes \<Rightarrow> u32" where
  "OBJ_ln2nid T st long_name =
     (case retrieve_added (added_by_long_name st) (blank\<lparr>ao_ln := Some long_name\<rparr>) of
        Some match \<Rightarrow> ao_nid match
      | None \<Rightarrow> bsearch_nid T (long_name_cmp T long_name) (kNIDsInLongNameOrder T))"

definition OBJ_nid2obj :: "obj_tables \<Rightarrow> obj_state \<Rightarrow> u32 \<Rightarrow> asn1_object option" where
  "OBJ_nid2obj T st nid =
     (if sint nid \<ge> 0 \<and> sint nid < int (length (kObjects T))
      then if nid \<noteq> 0 \<and> ao_nid (kObjects T ! unat nid) = 0 then None
           else Some (kObjects T ! unat nid)
      else retrieve_added (added_by_nid st) (blank\<lparr>ao_nid := nid\<rparr>))"

definition OBJ_nid2sn :: "obj_tables \<Rightarrow> obj_state \<Rightarrow> u32 \<Rightarrow> bytes option" where
  "OBJ_nid2sn T st nid = (case OBJ_nid2obj T st nid of None \<Rightarrow> None | Some obj \<Rightarrow> ao_sn obj)"

definition OBJ_nid2ln :: "obj_tables \<Rightarrow> obj_state \<Rightarrow> u32 \<Rightarrow> bytes option" where
  "OBJ_nid2ln T st nid = (case OBJ_nid2obj T st nid of None \<Rightarrow> None | Some obj \<Rightarrow> ao_ln obj)"

definition OBJ_nid2cbb :: "obj_tables \<Rightarrow> obj_state \<Rightarrow> u32 \<Rightarrow> cbb \<Rightarrow> bool \<times> cbb" where
  "OBJ_nid2cbb T st nid out =
     (case OBJ_nid2obj T st nid of
        None \<Rightarrow> (False, out)
      | Some obj \<Rightarrow>
          and_also (CBB_add_asn1 CBS_ASN1_OBJECT out) (\<lambda>out.
            and_also (on_child (CBB_add_bytes (obj_bytes obj)) out) CBB_flush))"

section \<open>Text\<close>

text \<open>What the allocator does in a call: the buffer of the builder and the object.\<close>

record alloc =
  al_grants :: "u64 \<Rightarrow> bool"
  al_fresh :: "nat \<Rightarrow> byte"
  al_object :: "nat \<Rightarrow> bool"

definition obj_next_nid :: "obj_state \<Rightarrow> u32 \<times> obj_state" where
  "obj_next_nid st = (next_nid st, st\<lparr>next_nid := next_nid st + 1\<rparr>)"

definition no_nid :: "obj_state \<Rightarrow> u32 \<times> obj_state" where
  \<comment> \<open>the null \<open>get_nid\<close>\<close>
  "no_nid st = (0, st)"

definition create_object_with_text_oid ::
  "alloc \<Rightarrow> (obj_state \<Rightarrow> u32 \<times> obj_state) \<Rightarrow> bytes \<Rightarrow> bytes option \<Rightarrow> bytes option \<Rightarrow> obj_state \<Rightarrow>
   asn1_object option \<times> obj_state" where
  "create_object_with_text_oid al get_nid oid short_name long_name st =
     (case CBB_init 32 (al_grants al) (al_fresh al) of
        None \<Rightarrow> (None, st)
      | Some cbb \<Rightarrow>
          (case CBB_add_asn1_oid_from_text (c_string oid) cbb of
             (False, _) \<Rightarrow> (None, st)
           | (True, cbb) \<Rightarrow>
               (case CBB_finish cbb of
                  (None, _) \<Rightarrow> (None, st)
                | (Some buf, _) \<Rightarrow>
                    (case get_nid st of (nid, st) \<Rightarrow>
                       (ASN1_OBJECT_create (al_object al) (al_fresh al) nid (Some buf)
                          (sint (of_nat (length buf) :: u32)) short_name long_name, st)))))"

definition OBJ_txt2obj :: "obj_tables \<Rightarrow> alloc \<Rightarrow> bytes \<Rightarrow> bool \<Rightarrow> obj_state \<Rightarrow> asn1_object option \<times> obj_state" where
  "OBJ_txt2obj T al s dont_search_names st =
     (let nid = (if dont_search_names then 0
                 else let nid = OBJ_sn2nid T st s in if nid = 0 then OBJ_ln2nid T st s else nid)
      in if nid \<noteq> 0 then (OBJ_nid2obj T st nid, st)
         else create_object_with_text_oid al no_nid s None None st)"

definition OBJ_txt2nid :: "obj_tables \<Rightarrow> alloc \<Rightarrow> bytes \<Rightarrow> obj_state \<Rightarrow> u32" where
  "OBJ_txt2nid T al s st = (case OBJ_txt2obj T al s False st of (obj, st) \<Rightarrow> OBJ_obj2nid T st obj)"

text \<open>The destination is an object of which \<open>dst_size\<close> bytes may be written.\<close>

definition strlcpy_int :: "bytes \<Rightarrow> bytes \<Rightarrow> int \<Rightarrow> bytes \<times> int" where
  "strlcpy_int dst src dst_size =
     (case OPENSSL_strlcpy dst src (if dst_size < 0 then 0 else nat dst_size) of
        (dst, ret) \<Rightarrow> if ret > 2147483647 then (dst, -1) else (dst, int ret))"

definition OBJ_obj2txt ::
  "obj_tables \<Rightarrow> alloc \<Rightarrow> obj_state \<Rightarrow> bytes \<Rightarrow> int \<Rightarrow> asn1_object option \<Rightarrow> bool \<Rightarrow> bytes \<times> int" where
  "OBJ_obj2txt T al st out out_len obj always_return_oid =
     (case obj of
        None \<Rightarrow> strlcpy_int out [0] out_len
      | Some obj \<Rightarrow>
          if ao_length obj = 0 then strlcpy_int out [0] out_len
          else
            let nid = OBJ_obj2nid T st (Some obj);
                name = (if always_return_oid \<or> nid = 0 then None
                        else case OBJ_nid2ln T st nid of None \<Rightarrow> OBJ_nid2sn T st nid | Some n \<Rightarrow> Some n)
            in case name of
                 Some name \<Rightarrow> strlcpy_int out name out_len
               | None \<Rightarrow>
                   (case CBS_asn1_oid_to_text (al_grants al) (al_fresh al)
                           (obj_bytes obj) of
                      None \<Rightarrow> (if out_len > 0 then out[0 := 0] else out, -1)
                    | Some txt \<Rightarrow> strlcpy_int out txt out_len))"

section \<open>Adding objects\<close>

text \<open>
  The insertion into a table. The code does not check that the tables could be
  allocated: \<open>None\<close> is its dereference of the null table.
\<close>

definition lh_add ::
  "bool \<Rightarrow> (u64 \<Rightarrow> bool) \<Rightarrow> 'a lhash option \<Rightarrow> 'a \<Rightarrow> (bool \<times> 'a lhash option) option" where
  "lh_add malloc_ok grants lh obj =
     (case lh of None \<Rightarrow> None
      | Some lh \<Rightarrow> (case OPENSSL_lh_insert malloc_ok grants lh obj of (ok, _, lh) \<Rightarrow> Some (ok, Some lh)))"

text \<open>\<open>m\<close> says which of the eight allocations of the tables and of the four items succeed.\<close>

definition obj_add_object ::
  "(nat \<Rightarrow> bool) \<Rightarrow> (u64 \<Rightarrow> bool) \<Rightarrow> asn1_object \<Rightarrow> obj_state \<Rightarrow> (bool \<times> asn1_object \<times> obj_state) option" where
  "obj_add_object m grants obj st =
     (let obj = obj\<lparr>ao_flags := ao_flags obj AND NOT dynamic_flags\<rparr>;
          st = (if added_by_nid st = None
                then st\<lparr>added_by_nid := OPENSSL_lh_new (m 0) (m 1) hash_nid cmp_nid,
                        added_by_data := OPENSSL_lh_new (m 2) (m 3) hash_data cmp_data,
                        added_by_short_name := OPENSSL_lh_new (m 4) (m 5) hash_short_name cmp_short_name,
                        added_by_long_name := OPENSSL_lh_new (m 6) (m 7) hash_long_name cmp_long_name\<rparr>
                else st)
      in case lh_add (m 8) grants (added_by_nid st) obj of None \<Rightarrow> None
         | Some (ok1, t1) \<Rightarrow>
           (case (if ao_length obj \<noteq> 0 \<and> ao_data obj \<noteq> None then lh_add (m 9) grants (added_by_data st) obj
                  else Some (True, added_by_data st)) of None \<Rightarrow> None
            | Some (ok2, t2) \<Rightarrow>
              (case (if ao_sn obj \<noteq> None then lh_add (m 10) grants (added_by_short_name st) obj
                     else Some (True, added_by_short_name st)) of None \<Rightarrow> None
               | Some (ok3, t3) \<Rightarrow>
                 (case (if ao_ln obj \<noteq> None then lh_add (m 11) grants (added_by_long_name st) obj
                        else Some (True, added_by_long_name st)) of None \<Rightarrow> None
                  | Some (ok4, t4) \<Rightarrow>
                      Some (ok1 \<and> ok2 \<and> ok3 \<and> ok4, obj,
                        st\<lparr>added_by_nid := t1, added_by_data := t2, added_by_short_name := t3,
                           added_by_long_name := t4\<rparr>)))))"

definition OBJ_create ::
  "alloc \<Rightarrow> (nat \<Rightarrow> bool) \<Rightarrow> bytes \<Rightarrow> bytes option \<Rightarrow> bytes option \<Rightarrow> obj_state \<Rightarrow> (u32 \<times> obj_state) option" where
  "OBJ_create al m oid short_name long_name st =
     (case create_object_with_text_oid al obj_next_nid oid short_name long_name st of
        (None, st) \<Rightarrow> Some (0, st)
      | (Some op, st) \<Rightarrow>
          (case obj_add_object m (al_grants al) op st of
             None \<Rightarrow> None
           | Some (ok, op, st) \<Rightarrow> Some (if ok then ao_nid op else 0, st)))"

section \<open>Keys\<close>

lemma memcmp_sign_eq_0:
  "length s = length t \<Longrightarrow> memcmp_sign s t = 0 \<longleftrightarrow> s = t"
  by (induction s t rule: memcmp_sign.induct) (auto simp: word_uint_eq_iff)

lemma strcmp_lex:
  "sgn (strcmp s t) = sgn (compare_set_of_element (c_string s) (c_string t))"
proof -
  have *: "sgn (memcmp_sign (a @ [0]) (b @ [0])) = sgn (lex_cmp a b)"
    if "0 \<notin> set a" "0 \<notin> set b" for a b
    using that
  proof (induction a b rule: lex_cmp.induct)
    case (2 b bs)
    then have "0 < uint b" by (simp add: word_neq_0_conv word_less_def)
    with 2 show ?case by simp
  next
    case (3 a as)
    then have "0 < uint a" by (simp add: word_neq_0_conv word_less_def)
    with 3 show ?case by simp
  qed auto
  have "0 \<notin> set (c_string x)" for x by (induction x) (auto simp: c_string_def)
  then show ?thesis unfolding strcmp_def compare_set_of_element_eq by (intro *)
qed

interpretation strcmp: comparison strcmp
  by (rule set_of.sign_image) (rule strcmp_lex)

lemma strcmp_eq_0: "strcmp s t = 0 \<longleftrightarrow> c_string s = c_string t"
proof -
  have "strcmp s t = 0 \<longleftrightarrow> compare_set_of_element (c_string s) (c_string t) = 0"
    using strcmp_lex [of s t] by (simp only: sgn_eq_0_iff flip: sgn_eq_0_iff [of "strcmp s t"])
  then show ?thesis using set_of.eq set_of.cmp_refl by auto
qed

lemma length_obj_bytes: "length (obj_bytes a) = nat (ao_length a)"
  by (simp add: obj_bytes_def Let_def)

lemma memcmp_obj_bytes:
  "ao_length a = ao_length b \<Longrightarrow>
   OPENSSL_memcmp (obj_bytes a) (obj_bytes b) (nat (ao_length a)) = 0 \<longleftrightarrow> obj_bytes a = obj_bytes b"
  using length_obj_bytes [of a] length_obj_bytes [of b]
  by (auto simp: OPENSSL_memcmp_def memcmp_sign_eq_0)

lemma cmp_data_eq_0: "cmp_data a b = 0 \<longleftrightarrow> (ao_length a, obj_bytes a) = (ao_length b, obj_bytes b)"
  using memcmp_obj_bytes [of a b] by (auto simp: cmp_data_def Let_def)

lemma cmp_nid_eq_0: "cmp_nid a b = 0 \<longleftrightarrow> ao_nid a = ao_nid b"
  using signed_eq_0_iff [of "ao_nid a - ao_nid b"] by (simp add: cmp_nid_def del: signed_eq_0_iff)

interpretation by_nid: hash_key cmp_nid hash_nid
  by (rule hash_key_by [OF cmp_nid_eq_0, where h = "\<lambda>n. n"]) (simp add: hash_nid_def)

interpretation by_data: hash_key cmp_data hash_data
  by (rule hash_key_by [OF cmp_data_eq_0, where h = "\<lambda>(n, d). OPENSSL_hash32 d"]) (simp add: hash_data_def)

interpretation by_short_name: hash_key cmp_short_name hash_short_name
  by (rule hash_key_by [where key = "\<lambda>a. c_string (the_bytes (ao_sn a))" and h = OPENSSL_hash32])
    (simp_all add: cmp_short_name_def strcmp_eq_0 hash_short_name_def OPENSSL_strhash_def)

interpretation by_long_name: hash_key cmp_long_name hash_long_name
  by (rule hash_key_by [where key = "\<lambda>a. c_string (the_bytes (ao_ln a))" and h = OPENSSL_hash32])
    (simp_all add: cmp_long_name_def strcmp_eq_0 hash_long_name_def OPENSSL_strhash_def)

end
