(* ===== verification/Obj_Registry.thy ===== *)
theory Obj_Registry
  imports Obj
begin

text \<open>
  What the registry of objects does: the built-in tables are searched correctly, an
  object added at run time is found by its nid, its names and its encoding and hides
  nothing else, and the textual forms convert into each other.
\<close>

section \<open>Creating an object from text\<close>

definition copy_string :: "bytes \<Rightarrow> bytes" where
  "copy_string s = take (length (c_string s) + 1) s"

lemma c_string_take: "length (c_string s) < n \<Longrightarrow> c_string (take n s) = c_string s"
proof (induction s arbitrary: n)
  case (Cons b s)
  then show ?case by (cases n) (auto simp: c_string_def split: if_splits)
qed (simp add: c_string_def)

lemma c_string_copy [simp]: "c_string (copy_string s) = c_string s"
  by (simp add: copy_string_def c_string_take)

definition new_object :: "u32 \<Rightarrow> bytes \<Rightarrow> bytes option \<Rightarrow> bytes option \<Rightarrow> asn1_object" where
  "new_object nid d sn ln =
     \<lparr>ao_sn = map_option copy_string sn, ao_ln = map_option copy_string ln, ao_nid = nid,
      ao_length = int (length d), ao_data = Some d, ao_flags = dynamic_flags\<rparr>"

lemma obj_bytes_new [simp]: "obj_bytes (new_object nid d sn ln) = d"
  by (simp add: obj_bytes_def new_object_def the_bytes_def)

definition can_allocate :: "alloc \<Rightarrow> bool" where
  "can_allocate al \<longleftrightarrow> (\<forall>n. al_grants al n) \<and> (\<forall>n. al_object al n)"

lemma object_create:
  "\<forall>n. m n \<Longrightarrow>
   ASN1_OBJECT_create m fresh nid (Some d) (int (length d)) sn ln = Some (new_object nid d sn ln)"
  by (cases sn; cases ln)
    (simp_all add: ASN1_OBJECT_create_def OBJ_dup_def ASN1_OBJECT_new_def new_object_def
      OPENSSL_strdup_def copy_string_def dynamic_flags_def ASN1_OBJECT_FLAG_DYNAMIC_def
      ASN1_OBJECT_FLAG_DYNAMIC_STRINGS_def ASN1_OBJECT_FLAG_DYNAMIC_DATA_def Let_def)

lemma sint_length: "n < 2 ^ 31 \<Longrightarrow> sint (of_nat n :: u32) = int n"
  by (simp add: sint_uint signed_take_bit_int_eq_self uint_nat unat_of_nat)

lemma create_with_text:
  assumes "oid_ok vs" "c_string s = oid_text vs" "can_allocate al" "length (oid_contents vs) < 2 ^ 31"
  shows "create_object_with_text_oid al get s sn ln st =
    (case get st of (nid, st') \<Rightarrow> (Some (new_object nid (oid_contents vs) sn ln), st'))"
proof -
  obtain c where c: "CBB_init 32 (al_grants al) (al_fresh al) = Some c"
    using assms(3) by (auto simp: CBB_init_def cbb_init_def can_allocate_def)
  have l: "length (oid_contents vs) \<le> limit (cbb_base c)"
    using CBB_init_quiet(3) [OF c] assms(3,4) by (simp add: can_allocate_def)
  obtain c' k where c': "CBB_add_asn1_oid_from_text (c_string s) c = (True, c')"
      "CBB_finish c' = (Some (oid_contents vs), k)"
    using does_finish [OF does_oid_from_text [OF assms(1)] CBB_init_quiet(1,2) [OF c] l] assms(2) by auto
  have "ASN1_OBJECT_create (al_object al) (al_fresh al) nid (Some (oid_contents vs))
      (sint (of_nat (length (oid_contents vs)) :: u32)) sn ln = Some (new_object nid (oid_contents vs) sn ln)" for nid
    using assms(3) unfolding sint_length [OF assms(4)] by (intro object_create) (simp add: can_allocate_def)
  with c c' show ?thesis by (simp add: create_object_with_text_oid_def split: prod.splits)
qed

section \<open>The built-in tables\<close>

text \<open>
  What the generator promises: the indices are in range and sorted by the key they
  are searched with, the names strictly; an entry is at the index of its nid.
\<close>

definition tables_ok :: "obj_tables \<Rightarrow> bool" where
  "tables_ok T \<longleftrightarrow>
     length (kObjects T) < 2 ^ 31 \<and>
     (\<forall>i < length (kObjects T). ao_nid (kObjects T ! i) = of_nat i \<or> ao_nid (kObjects T ! i) = 0) \<and>
     sorted_wrt (\<lambda>i j. strcmp (the_bytes (ao_sn (kObjects T ! i))) (the_bytes (ao_sn (kObjects T ! j))) < 0)
       (kNIDsInShortNameOrder T) \<and>
     sorted_wrt (\<lambda>i j. strcmp (the_bytes (ao_ln (kObjects T ! i))) (the_bytes (ao_ln (kObjects T ! j))) < 0)
       (kNIDsInLongNameOrder T) \<and>
     sorted_wrt (\<lambda>i j. cmp_data (kObjects T ! i) (kObjects T ! j) \<le> 0) (kNIDsInOIDOrder T)"

text \<open>A search along an index that is ordered by a comparison of its keys.\<close>

context comparison
begin

lemma bsearch_key:
  assumes "sorted_wrt (\<lambda>i j. cmp (key i) (key j) \<le> 0) index"
  shows "bsearch_first (\<lambda>i. cmp p (key i)) index 0 (length index) =
    find_from (\<lambda>i. cmp p (key i) = 0) index 0 (length index)"
proof -
  have o: "ordered (map key index)" using assms by (simp add: ordered_def sorted_wrt_map)
  have "bsearch_first (\<lambda>i. cmp p (key i)) index 0 (length index) =
      find_from (\<lambda>i. cmp p (key i) = 0) index 0 (length index - 0)"
    using falls [OF o, where p = p] by (intro bsearch_first_eq) simp_all
  then show ?thesis by simp
qed

end

lemma cmp_data_comparison: "comparison cmp_data"
proof -
  have *: "sgn (cmp_data a b) = sgn (if ao_length a \<noteq> ao_length b then ao_length a - ao_length b
      else compare_set_of_element (obj_bytes a) (obj_bytes b))" for a b
    using length_obj_bytes [of a] length_obj_bytes [of b]
    by (auto simp: cmp_data_def compare_set_of_element_def Let_def)
  show ?thesis
  proof
    fix a b c
    have "cmp_data a b < 0 \<longleftrightarrow> (if ao_length a \<noteq> ao_length b then ao_length a < ao_length b
        else compare_set_of_element (obj_bytes a) (obj_bytes b) < 0)" for a b
      using * [of a b] by (auto simp: sgn_if split: if_splits)
    moreover have "cmp_data a b > 0 \<longleftrightarrow> (if ao_length a \<noteq> ao_length b then ao_length b < ao_length a
        else compare_set_of_element (obj_bytes a) (obj_bytes b) > 0)" for a b
      using * [of a b] by (auto simp: sgn_if split: if_splits)
    moreover have "cmp_data a b \<le> 0 \<longleftrightarrow> (if ao_length a \<noteq> ao_length b then ao_length a < ao_length b
        else compare_set_of_element (obj_bytes a) (obj_bytes b) \<le> 0)" for a b
      using * [of a b] by (auto simp: sgn_if split: if_splits)
    note rel = calculation this
    show "cmp_data a b < 0 \<longleftrightarrow> cmp_data b a > 0"
      unfolding rel using set_of.swap [of "obj_bytes a" "obj_bytes b"] by auto
    show "cmp_data a c \<le> 0" if "cmp_data a b \<le> 0" "cmp_data b c \<le> 0"
      using that set_of.trans [of "obj_bytes a" "obj_bytes b" "obj_bytes c"] unfolding rel
      by (auto split: if_splits)
  qed
qed

interpretation data_order: comparison cmp_data by (rule cmp_data_comparison)

lemma bsearch_nid_find:
  assumes "bsearch_first c index 0 (length index) = find_from (\<lambda>i. c i = 0) index 0 (length index)"
  obtains (found) j where "j \<in> set index" "c j = 0" "bsearch_nid T c index = ao_nid (kObjects T ! j)"
  | (missing) "\<forall>j \<in> set index. c j \<noteq> 0" "bsearch_nid T c index = 0"
proof (cases "find_from (\<lambda>i. c i = 0) index 0 (length index)")
  case None
  then have "\<forall>j \<in> set index. c j \<noteq> 0" by (auto simp: find_from_None in_set_conv_nth)
  with None assms show ?thesis by (intro missing) (simp_all add: bsearch_nid_def)
next
  case (Some k)
  then have "k < length index" "c (index ! k) = 0" by (simp_all add: find_from_Some)
  with Some assms show ?thesis by (intro found [of "index ! k"]) (simp_all add: bsearch_nid_def)
qed

lemma sorted_wrt_less_le:
  "sorted_wrt (\<lambda>i j. (f i j :: int) < 0) xs \<Longrightarrow> sorted_wrt (\<lambda>i j. f i j \<le> 0) xs"
  by (erule sorted_wrt_mono_rel [rotated]) simp

lemma strict_unique:
  assumes "sorted_wrt (\<lambda>i j. strcmp (f i) (f j) < 0) xs" "i \<in> set xs" "j \<in> set xs"
    and "c_string (f i) = c_string (f j)"
  shows "i = j"
proof (rule ccontr)
  assume "i \<noteq> j"
  with assms(2,3) obtain a b where ab: "a < length xs" "b < length xs" "xs ! a = i" "xs ! b = j" "a \<noteq> b"
    by (metis in_set_conv_nth)
  then have "strcmp (f i) (f j) < 0 \<or> strcmp (f j) (f i) < 0"
    using assms(1) unfolding sorted_wrt_iff_nth_less by (metis nat_neq_iff)
  moreover have "strcmp (f i) (f j) = 0" "strcmp (f j) (f i) = 0" using assms(4) by (simp_all add: strcmp_eq_0)
  ultimately show False by simp
qed

lemma static_name:
  assumes "sorted_wrt (\<lambda>i j. strcmp (f i) (f j) < 0) index" "i \<in> set index"
    and "c_string name = c_string (f i)"
  shows "bsearch_nid T (\<lambda>i. strcmp name (f i)) index = ao_nid (kObjects T ! i)"
proof -
  have b: "bsearch_first (\<lambda>i. strcmp name (f i)) index 0 (length index) =
      find_from (\<lambda>i. strcmp name (f i) = 0) index 0 (length index)"
    by (rule strcmp.bsearch_key [OF sorted_wrt_less_le [OF assms(1)]])
  show ?thesis
  proof (cases rule: bsearch_nid_find [OF b, where T = T])
    case (1 j)
    then have "c_string (f i) = c_string (f j)" using assms(3) by (simp add: strcmp_eq_0)
    then have "i = j" using strict_unique [OF assms(1,2) 1(1)] by simp
    with 1 show ?thesis by simp
  next
    case 2
    with assms(2,3) show ?thesis by (auto simp: strcmp_eq_0)
  qed
qed

lemma static_names:
  assumes T: "tables_ok T"
  shows "i \<in> set (kNIDsInShortNameOrder T) \<Longrightarrow> c_string name = c_string (the_bytes (ao_sn (kObjects T ! i))) \<Longrightarrow>
      retrieve_added (added_by_short_name st) (blank\<lparr>ao_sn := Some name\<rparr>) = None \<Longrightarrow>
      OBJ_sn2nid T st name = ao_nid (kObjects T ! i)"
    and "i \<in> set (kNIDsInLongNameOrder T) \<Longrightarrow> c_string name = c_string (the_bytes (ao_ln (kObjects T ! i))) \<Longrightarrow>
      retrieve_added (added_by_long_name st) (blank\<lparr>ao_ln := Some name\<rparr>) = None \<Longrightarrow>
      OBJ_ln2nid T st name = ao_nid (kObjects T ! i)"
  using T static_name [of "\<lambda>i. the_bytes (ao_sn (kObjects T ! i))" "kNIDsInShortNameOrder T" i name T]
    static_name [of "\<lambda>i. the_bytes (ao_ln (kObjects T ! i))" "kNIDsInLongNameOrder T" i name T]
  by (simp_all add: tables_ok_def OBJ_sn2nid_def OBJ_ln2nid_def short_name_cmp_def [abs_def]
      long_name_cmp_def [abs_def])

lemma obj_cmp_eq: "sgn (obj_cmp T a n) = sgn (cmp_data a (kObjects T ! n))"
  by (auto simp: obj_cmp_def cmp_data_def Let_def)

lemma bsearch_sgn:
  "(\<And>i. sgn (c i) = sgn (c' i)) \<Longrightarrow> bsearch_first c index lo hi = bsearch_first c' index lo hi"
proof (induction c index lo hi rule: bsearch_first.induct)
  case (1 c d lo hi)
  let ?mid = "lo + (hi - lo - 1) div 2"
  have "c i > 0 \<longleftrightarrow> c' i > 0" "c i < 0 \<longleftrightarrow> c' i < 0" for i
    using 1(4) [of i] by (auto simp: sgn_if split: if_splits)
  with 1 show ?case
    by (subst (1 2) bsearch_first.simps) (auto simp: Let_def)
qed

text \<open>An encoding that two entries share may be given either nid.\<close>

lemma static_data:
  assumes T: "tables_ok T" and i: "i \<in> set (kNIDsInOIDOrder T)"
    and obj: "ao_nid obj = 0" "cmp_data obj (kObjects T ! i) = 0"
    and new: "retrieve_added (added_by_data st) obj = None"
  obtains j where "j \<in> set (kNIDsInOIDOrder T)" "cmp_data obj (kObjects T ! j) = 0"
    "OBJ_obj2nid T st (Some obj) = ao_nid (kObjects T ! j)"
proof -
  have b: "bsearch_first (\<lambda>i. cmp_data obj (kObjects T ! i)) (kNIDsInOIDOrder T) 0 (length (kNIDsInOIDOrder T)) =
      find_from (\<lambda>i. cmp_data obj (kObjects T ! i) = 0) (kNIDsInOIDOrder T) 0 (length (kNIDsInOIDOrder T))"
    using T by (intro data_order.bsearch_key) (simp add: tables_ok_def)
  have e: "bsearch_nid T (obj_cmp T obj) index = bsearch_nid T (\<lambda>i. cmp_data obj (kObjects T ! i)) index" for index
    unfolding bsearch_nid_def by (subst bsearch_sgn) (rule obj_cmp_eq, rule refl)
  show thesis
  proof (cases rule: bsearch_nid_find [OF b, where T = T])
    case (1 j)
    then show ?thesis using obj new by (intro that [of j]) (simp_all add: OBJ_obj2nid_def e)
  next
    case 2
    then show ?thesis using i obj(2) by blast
  qed
qed

section \<open>Adding an object\<close>

context hash_key
begin

definition added_ok :: "'a lhash option \<Rightarrow> bool" where
  "added_ok t \<longleftrightarrow> (\<exists>lh. t = Some lh \<and> table lh)"

text \<open>What an insertion that is made (\<open>used\<close>) changes for the lookups.\<close>

definition updated :: "bool \<Rightarrow> 'a \<Rightarrow> 'a lhash option \<Rightarrow> 'a lhash option \<Rightarrow> bool" where
  "updated used x t t' \<longleftrightarrow>
     added_ok t' \<and>
     (\<forall>z. retrieve_added t' z = (if used \<and> cmp x z = 0 then Some x else retrieve_added t z))"

lemma new_added:
  obtains lh where "OPENSSL_lh_new True True hash cmp = Some lh" "table lh"
    "\<forall>z. OPENSSL_lh_retrieve lh z = None"
proof -
  obtain lh where lh: "OPENSSL_lh_new True True hash cmp = Some lh" by (simp add: OPENSSL_lh_new_def)
  from new_spec [OF this] have t: "table lh" "elements lh = {#}" by (simp_all add: table_def)
  then have "\<forall>z. OPENSSL_lh_retrieve lh z = None" by (simp add: retrieve_None)
  with lh t show thesis by (intro that)
qed

lemma lh_add_spec:
  assumes "added_ok t"
  obtains ok t' where "lh_add malloc_ok grants t x = Some (ok, t')" "malloc_ok \<Longrightarrow> ok" "updated ok x t t'"
proof -
  obtain lh where t: "t = Some lh" "table lh" using assms by (auto simp: added_ok_def)
  obtain ok old lh' where i: "OPENSSL_lh_insert malloc_ok grants lh x = (ok, old, lh')"
    using prod_cases3 by blast
  have ok: "ok \<longleftrightarrow> malloc_ok \<or> OPENSSL_lh_retrieve lh x \<noteq> None" "table lh'"
    using insert_spec(1,3) [OF t(2), of malloc_ok grants x] i by simp_all
  have "OPENSSL_lh_retrieve lh' z = (if ok \<and> cmp x z = 0 then Some x else OPENSSL_lh_retrieve lh z)" for z
  proof (cases ok)
    case True
    then show ?thesis using retrieve_insert [OF t(2), of malloc_ok grants x z] i by simp
  next
    case False
    then have "elements lh' = elements lh" using insert_spec(4) [OF t(2), of malloc_ok grants x] i by simp
    then show ?thesis using False retrieve_iff [OF t(2)] retrieve_iff [OF ok(2)] by (intro option_eqI) simp
  qed
  then show thesis
    using ok i t by (intro that [of ok "Some lh'"])
      (simp_all add: lh_add_def updated_def added_ok_def retrieve_added_def)
qed

lemma updated_refl: "added_ok t \<Longrightarrow> updated False x t t"
  by (simp add: updated_def)

end

definition registry_ok :: "obj_state \<Rightarrow> bool" where
  "registry_ok st \<longleftrightarrow>
     (added_by_nid st = None \<and> added_by_data st = None \<and> added_by_short_name st = None \<and>
      added_by_long_name st = None) \<or>
     (by_nid.added_ok (added_by_nid st) \<and> by_data.added_ok (added_by_data st) \<and>
      by_short_name.added_ok (added_by_short_name st) \<and> by_long_name.added_ok (added_by_long_name st))"

definition with_tables :: "(nat \<Rightarrow> bool) \<Rightarrow> obj_state \<Rightarrow> obj_state" where
  \<comment> \<open>the tables are made by the first addition\<close>
  "with_tables m st =
     (if added_by_nid st = None
      then st\<lparr>added_by_nid := OPENSSL_lh_new (m 0) (m 1) hash_nid cmp_nid,
              added_by_data := OPENSSL_lh_new (m 2) (m 3) hash_data cmp_data,
              added_by_short_name := OPENSSL_lh_new (m 4) (m 5) hash_short_name cmp_short_name,
              added_by_long_name := OPENSSL_lh_new (m 6) (m 7) hash_long_name cmp_long_name\<rparr>
      else st)"

lemma with_tables_ok:
  assumes "registry_ok st" "\<forall>i < 8. m i"
  shows "by_nid.added_ok (added_by_nid (with_tables m st))"
    and "by_data.added_ok (added_by_data (with_tables m st))"
    and "by_short_name.added_ok (added_by_short_name (with_tables m st))"
    and "by_long_name.added_ok (added_by_long_name (with_tables m st))"
    and "retrieve_added (added_by_nid (with_tables m st)) = retrieve_added (added_by_nid st)"
    and "retrieve_added (added_by_data (with_tables m st)) = retrieve_added (added_by_data st)"
    and "retrieve_added (added_by_short_name (with_tables m st)) = retrieve_added (added_by_short_name st)"
    and "retrieve_added (added_by_long_name (with_tables m st)) = retrieve_added (added_by_long_name st)"
    and "next_nid (with_tables m st) = next_nid st"
proof -
  have m: "m 0" "m 1" "m 2" "m 3" "m 4" "m 5" "m 6" "m 7" "m (Suc 0)" using assms(2) by simp_all
  obtain a where a: "OPENSSL_lh_new True True hash_nid cmp_nid = Some a" "by_nid.table a"
    "\<forall>z. OPENSSL_lh_retrieve a z = None" by (rule by_nid.new_added)
  obtain b where b: "OPENSSL_lh_new True True hash_data cmp_data = Some b" "by_data.table b"
    "\<forall>z. OPENSSL_lh_retrieve b z = None" by (rule by_data.new_added)
  obtain c where c: "OPENSSL_lh_new True True hash_short_name cmp_short_name = Some c" "by_short_name.table c"
    "\<forall>z. OPENSSL_lh_retrieve c z = None" by (rule by_short_name.new_added)
  obtain d where d: "OPENSSL_lh_new True True hash_long_name cmp_long_name = Some d" "by_long_name.table d"
    "\<forall>z. OPENSSL_lh_retrieve d z = None" by (rule by_long_name.new_added)
  show "by_nid.added_ok (added_by_nid (with_tables m st))"
    "by_data.added_ok (added_by_data (with_tables m st))"
    "by_short_name.added_ok (added_by_short_name (with_tables m st))"
    "by_long_name.added_ok (added_by_long_name (with_tables m st))"
    "retrieve_added (added_by_nid (with_tables m st)) = retrieve_added (added_by_nid st)"
    "retrieve_added (added_by_data (with_tables m st)) = retrieve_added (added_by_data st)"
    "retrieve_added (added_by_short_name (with_tables m st)) = retrieve_added (added_by_short_name st)"
    "retrieve_added (added_by_long_name (with_tables m st)) = retrieve_added (added_by_long_name st)"
    "next_nid (with_tables m st) = next_nid st"
    using assms(1) a b c d
    by (auto simp: registry_ok_def with_tables_def m by_nid.added_ok_def by_data.added_ok_def
        by_short_name.added_ok_def by_long_name.added_ok_def retrieve_added_def fun_eq_iff)
qed

definition registered :: "asn1_object \<Rightarrow> asn1_object" where
  "registered obj = obj\<lparr>ao_flags := ao_flags obj AND NOT dynamic_flags\<rparr>"

text \<open>
  An addition that succeeds updates the four tables; the tables of contents and names
  only for an object that has them. One that fails leaves a valid registry.
\<close>

lemma add_object:
  assumes ok: "registry_ok st" "\<forall>i < 8. m i"
  obtains success st' u1 u2 u3 u4 where
    "obj_add_object m grants obj st = Some (success, registered obj, st')"
    "registry_ok st'" "next_nid st' = next_nid st" "(\<forall>i. m i) \<Longrightarrow> success"
    "by_nid.updated u1 (registered obj) (added_by_nid st) (added_by_nid st')"
    "by_data.updated u2 (registered obj) (added_by_data st) (added_by_data st')"
    "by_short_name.updated u3 (registered obj) (added_by_short_name st) (added_by_short_name st')"
    "by_long_name.updated u4 (registered obj) (added_by_long_name st) (added_by_long_name st')"
    "success \<Longrightarrow> u1" "success \<Longrightarrow> u2 \<longleftrightarrow> ao_length obj \<noteq> 0 \<and> ao_data obj \<noteq> None"
    "success \<Longrightarrow> u3 \<longleftrightarrow> ao_sn obj \<noteq> None" "success \<Longrightarrow> u4 \<longleftrightarrow> ao_ln obj \<noteq> None"
proof -
  let ?st = "with_tables m st" and ?o = "registered obj"
  note w = with_tables_ok [OF ok]
  obtain ok1 t1 where 1: "lh_add (m 8) grants (added_by_nid ?st) ?o = Some (ok1, t1)" "m 8 \<Longrightarrow> ok1"
    "by_nid.updated ok1 ?o (added_by_nid ?st) t1" using by_nid.lh_add_spec [OF w(1), where malloc_ok = "m 8" and grants = grants and x = ?o] by blast
  define c2 where "c2 \<longleftrightarrow> ao_length ?o \<noteq> 0 \<and> ao_data ?o \<noteq> None"
  obtain ok2 t2 where 2: "(if c2 then lh_add (m 9) grants (added_by_data ?st) ?o else Some (True, added_by_data ?st)) = Some (ok2, t2)"
    "m 9 \<Longrightarrow> ok2" "by_data.updated (c2 \<and> ok2) ?o (added_by_data ?st) t2"
  proof (cases c2)
    case True
    obtain ok t' where "lh_add (m 9) grants (added_by_data ?st) ?o = Some (ok, t')" "m 9 \<Longrightarrow> ok"
      "by_data.updated ok ?o (added_by_data ?st) t'"
      using by_data.lh_add_spec [OF w(2), where malloc_ok = "m 9" and grants = grants and x = ?o] by blast
    with True show ?thesis using that [of ok t'] by simp
  next
    case False
    then show ?thesis using that [of True] by_data.updated_refl [OF w(2)] by simp
  qed
  obtain ok3 t3 where 3: "(if ao_sn ?o \<noteq> None then lh_add (m 10) grants (added_by_short_name ?st) ?o
        else Some (True, added_by_short_name ?st)) = Some (ok3, t3)"
    "m 10 \<Longrightarrow> ok3" "by_short_name.updated (ao_sn ?o \<noteq> None \<and> ok3) ?o (added_by_short_name ?st) t3"
  proof (cases "ao_sn ?o \<noteq> None")
    case True
    obtain ok t' where "lh_add (m 10) grants (added_by_short_name ?st) ?o = Some (ok, t')" "m 10 \<Longrightarrow> ok"
      "by_short_name.updated ok ?o (added_by_short_name ?st) t'"
      using by_short_name.lh_add_spec [OF w(3), where malloc_ok = "m 10" and grants = grants and x = ?o] by blast
    with True show ?thesis using that [of ok t'] by simp
  next
    case False
    then show ?thesis using that [of True] by_short_name.updated_refl [OF w(3)] by simp
  qed
  obtain ok4 t4 where 4: "(if ao_ln ?o \<noteq> None then lh_add (m 11) grants (added_by_long_name ?st) ?o
        else Some (True, added_by_long_name ?st)) = Some (ok4, t4)"
    "m 11 \<Longrightarrow> ok4" "by_long_name.updated (ao_ln ?o \<noteq> None \<and> ok4) ?o (added_by_long_name ?st) t4"
  proof (cases "ao_ln ?o \<noteq> None")
    case True
    obtain ok t' where "lh_add (m 11) grants (added_by_long_name ?st) ?o = Some (ok, t')" "m 11 \<Longrightarrow> ok"
      "by_long_name.updated ok ?o (added_by_long_name ?st) t'"
      using by_long_name.lh_add_spec [OF w(4), where malloc_ok = "m 11" and grants = grants and x = ?o] by blast
    with True show ?thesis using that [of ok t'] by simp
  next
    case False
    then show ?thesis using that [of True] by_long_name.updated_refl [OF w(4)] by simp
  qed
  let ?st' = "?st\<lparr>added_by_nid := t1, added_by_data := t2, added_by_short_name := t3, added_by_long_name := t4\<rparr>"
  have "obj_add_object m grants obj st = Some (ok1 \<and> ok2 \<and> ok3 \<and> ok4, ?o, ?st')"
    using 1(1) 2(1) 3(1) 4(1)
    by (simp add: obj_add_object_def Let_def with_tables_def [symmetric] registered_def [symmetric] c2_def)
  moreover have "registry_ok ?st'"
    using 1(3) 2(3) 3(3) 4(3)
    by (simp add: registry_ok_def by_nid.updated_def by_data.updated_def by_short_name.updated_def
        by_long_name.updated_def)
  ultimately show thesis
    using 1(2,3) 2(2,3) 3(2,3) 4(2,3) w(5-9)
    by (intro that [of "ok1 \<and> ok2 \<and> ok3 \<and> ok4" ?st' ok1 "c2 \<and> ok2" "ao_sn ?o \<noteq> None \<and> ok3" "ao_ln ?o \<noteq> None \<and> ok4"])
      (auto simp: by_nid.updated_def by_data.updated_def by_short_name.updated_def
        by_long_name.updated_def c2_def registered_def)
qed

lemma add_object_ok:
  assumes "registry_ok st" "\<forall>i. m i"
  shows "\<exists>st'. obj_add_object m grants obj st = Some (True, registered obj, st') \<and>
    registry_ok st' \<and> next_nid st' = next_nid st \<and>
    by_nid.updated True (registered obj) (added_by_nid st) (added_by_nid st') \<and>
    by_data.updated (ao_length obj \<noteq> 0 \<and> ao_data obj \<noteq> None) (registered obj) (added_by_data st) (added_by_data st') \<and>
    by_short_name.updated (ao_sn obj \<noteq> None) (registered obj) (added_by_short_name st) (added_by_short_name st') \<and>
    by_long_name.updated (ao_ln obj \<noteq> None) (registered obj) (added_by_long_name st) (added_by_long_name st')"
proof -
  have m: "\<forall>i < 8. m i" using assms(2) by simp
  show ?thesis
  proof (rule add_object [OF assms(1) m, of grants obj], goal_cases)
    case (1 success st' u1 u2 u3 u4)
    then have success using assms(2) by blast
    with 1 have u: "success = True" "u1 = True" "u2 = (ao_length obj \<noteq> 0 \<and> ao_data obj \<noteq> None)"
      "u3 = (ao_sn obj \<noteq> None)" "u4 = (ao_ln obj \<noteq> None)" by blast+
    show ?case using 1(1-3,5-8) unfolding u by blast
  qed
qed

text \<open>\<open>OBJ_create\<close>: the new object is found by every key it has, and nothing else changes.\<close>

lemma oid_contents_Nil: "oid_ok vs \<Longrightarrow> oid_contents vs \<noteq> []"
  by (auto simp: oid_ok_def oid_contents_def base128_def split: list.splits)

lemma registered_simps [simp]:
  "ao_nid (registered a) = ao_nid a" "ao_sn (registered a) = ao_sn a" "ao_ln (registered a) = ao_ln a"
  "ao_length (registered a) = ao_length a" "ao_data (registered a) = ao_data a"
  "obj_bytes (registered a) = obj_bytes a"
  by (simp_all add: registered_def obj_bytes_def)

lemma sint_nonneg: "sint w \<ge> 0 \<Longrightarrow> sint w = int (unat w)" for w :: u32
  using sint_lt [of w] uint_sint [of w] by (simp add: take_bit_int_eq_self)

lemma not_static:
  "length (kObjects T) \<le> unat (nid :: u32) \<Longrightarrow> \<not> (sint nid \<ge> 0 \<and> sint nid < int (length (kObjects T)))"
proof -
  assume le: "length (kObjects T) \<le> unat nid"
  have "\<not> sint nid < int (length (kObjects T))" if "sint nid \<ge> 0"
    unfolding sint_nonneg [OF that] of_nat_less_iff using le by simp
  then show ?thesis by blast
qed

lemma OBJ_create_spec:
  fixes sn ln :: "bytes option" and st :: obj_state and T :: obj_tables
  assumes st: "registry_ok st" "length (kObjects T) \<le> unat (next_nid st)"
    and al: "can_allocate al" "\<forall>i. m i"
    and oid: "oid_ok vs" "c_string oid = oid_text vs" "length (oid_contents vs) < 2 ^ 31"
  defines "nid \<equiv> next_nid (st :: obj_state)"
  defines "ob \<equiv> registered (new_object nid (oid_contents vs) sn ln)"
  obtains st' where "OBJ_create al m oid sn ln st = Some (nid, st')" "registry_ok st'"
    "next_nid st' = nid + 1"
    "\<forall>k. OBJ_nid2obj T st' k = (if k = nid then Some ob else OBJ_nid2obj T st k)"
    "\<forall>d. length d < 2 ^ 31 \<longrightarrow> OBJ_cbs2nid T st' d = (if d = oid_contents vs then nid else OBJ_cbs2nid T st d)"
    "\<forall>s. OBJ_sn2nid T st' s = (if map_option c_string sn = Some (c_string s) then nid else OBJ_sn2nid T st s)"
    "\<forall>s. OBJ_ln2nid T st' s = (if map_option c_string ln = Some (c_string s) then nid else OBJ_ln2nid T st s)"
proof -
  let ?st = "st\<lparr>next_nid := next_nid st + 1\<rparr>"
  let ?o = "new_object nid (oid_contents vs) sn ln"
  have c: "create_object_with_text_oid al obj_next_nid oid sn ln st = (Some ?o, ?st)"
    using create_with_text [OF oid(1,2) al(1) oid(3)] by (simp add: obj_next_nid_def nid_def)
  have "registry_ok ?st" using st(1) by (simp add: registry_ok_def)
  then obtain st' where a:
    "obj_add_object m (al_grants al) ?o ?st = Some (True, ob, st')"
    "registry_ok st'" "next_nid st' = next_nid ?st"
    "by_nid.updated True ob (added_by_nid ?st) (added_by_nid st')"
    "by_data.updated (ao_length ?o \<noteq> 0 \<and> ao_data ?o \<noteq> None) ob (added_by_data ?st) (added_by_data st')"
    "by_short_name.updated (ao_sn ?o \<noteq> None) ob (added_by_short_name ?st) (added_by_short_name st')"
    "by_long_name.updated (ao_ln ?o \<noteq> None) ob (added_by_long_name ?st) (added_by_long_name st')"
    using add_object_ok [of ?st m "al_grants al" ?o] al(2) unfolding ob_def by blast
  have o: "ao_nid ob = nid" "ao_length ob = int (length (oid_contents vs))" "obj_bytes ob = oid_contents vs"
    "ao_data ob = Some (oid_contents vs)" "ao_sn ob = map_option copy_string sn" "ao_ln ob = map_option copy_string ln"
    by (simp_all add: ob_def new_object_def obj_bytes_new [unfolded new_object_def])
  have u2: "ao_length ?o \<noteq> 0 \<and> ao_data ?o \<noteq> None" using oid_contents_Nil [OF oid(1)] by (simp add: new_object_def)
  have r1: "retrieve_added (added_by_nid st') (blank\<lparr>ao_nid := k\<rparr>) =
      (if nid = k then Some ob else retrieve_added (added_by_nid st) (blank\<lparr>ao_nid := k\<rparr>))" for k
    using a(4) by (simp add: by_nid.updated_def cmp_nid_eq_0 o(1))
  show thesis
  proof (rule that [of st'])
    show "OBJ_create al m oid sn ln st = Some (nid, st')" using c a(1) o(1) by (simp add: OBJ_create_def)
    show "next_nid st' = nid + 1" using a(3) by (simp add: nid_def)
    show "\<forall>k. OBJ_nid2obj T st' k = (if k = nid then Some ob else OBJ_nid2obj T st k)"
      using not_static [OF st(2)] r1 by (auto simp: OBJ_nid2obj_def nid_def)
    show "\<forall>d. length d < 2 ^ 31 \<longrightarrow> OBJ_cbs2nid T st' d = (if d = oid_contents vs then nid else OBJ_cbs2nid T st d)"
      using a(5) u2 by (auto simp: by_data.updated_def OBJ_cbs2nid_def OBJ_obj2nid_def cmp_data_eq_0 o
        blank_def obj_bytes_def [of "\<lparr>ao_sn = _, ao_ln = _, ao_nid = _, ao_length = _, ao_data = _, ao_flags = _\<rparr>"] the_bytes_def)
    show "\<forall>s. OBJ_sn2nid T st' s = (if map_option c_string sn = Some (c_string s) then nid else OBJ_sn2nid T st s)"
      using a(6) by (cases sn) (auto simp: by_short_name.updated_def OBJ_sn2nid_def cmp_short_name_def strcmp_eq_0
        o the_bytes_def new_object_def)
    show "\<forall>s. OBJ_ln2nid T st' s = (if map_option c_string ln = Some (c_string s) then nid else OBJ_ln2nid T st s)"
      using a(7) by (cases ln) (auto simp: by_long_name.updated_def OBJ_ln2nid_def cmp_long_name_def strcmp_eq_0
        o the_bytes_def new_object_def)
  qed (rule a(2))
qed

section \<open>Text and back\<close>

lemma decimal_nonzero: "0 \<notin> set (decimal v)"
proof (induction v rule: decimal.induct)
  case (1 v)
  have "(of_nat (48 + k) :: byte) \<noteq> 0" if "k < 10" for k
    using that by (simp only: word_unat_eq_iff unat_byte_of_nat) simp
  moreover have "v mod 10 < 10" by simp
  ultimately show ?case
    using 1 by (cases "v < 10") (subst decimal.simps, fastforce)+
qed

lemma oid_text_nonzero: "0 \<notin> set (oid_text vs)"
  by (induction vs rule: oid_text.induct) (auto simp: decimal_nonzero)

lemma c_string_append: "0 \<notin> set s \<Longrightarrow> c_string (s @ 0 # r) = s"
  by (induction s) (auto simp: c_string_def)

text \<open>An object made from dotted text prints as the same text.\<close>

lemma txt_obj_txt:
  assumes "oid_ok vs" "can_allocate al" "length (oid_contents vs) < 2 ^ 31"
    and "length (oid_text vs) < nat n" "nat n \<le> length out" "nat n < 2 ^ 31"
  obtains obj where "OBJ_txt2obj T al (oid_text vs @ [0]) True st = (Some obj, st)"
    "obj_bytes obj = oid_contents vs"
    "OBJ_obj2txt T al st out n (Some obj) True =
       (oid_text vs @ [0] @ drop (length (oid_text vs) + 1) out, int (length (oid_text vs)))"
proof -
  let ?o = "new_object 0 (oid_contents vs) None None"
  have c: "c_string (oid_text vs @ [0]) = oid_text vs"
    using c_string_append [OF oid_text_nonzero, of vs "[]"] by simp
  have fits: "min (nat n - 1) (length (oid_text vs)) = length (oid_text vs)" "0 < nat n" "\<not> n < 0"
    using assms(4) by linarith+
  have "OBJ_txt2obj T al (oid_text vs @ [0]) True st = (Some ?o, st)"
    using create_with_text [OF assms(1) c assms(2,3)] by (simp add: OBJ_txt2obj_def no_nid_def)
  moreover have "CBS_asn1_oid_to_text (al_grants al) (al_fresh al) (oid_contents vs) = Some (oid_text vs @ [0])"
    using assms(1,2,4,6) by (intro oid_to_text) (simp_all add: can_allocate_def)
  moreover have "OPENSSL_strlcpy out (oid_text vs @ [0]) (nat n) =
      (oid_text vs @ [0] @ drop (length (oid_text vs) + 1) out, length (oid_text vs))"
    using OPENSSL_strlcpy_spec [of "oid_text vs @ [0]" "nat n" out] assms(5) c fits
    by (cases "nat n") (simp_all add: Let_def)
  moreover have "ao_length ?o \<noteq> 0" using oid_contents_Nil [OF assms(1)] by (simp add: new_object_def)
  ultimately show thesis
    using assms(4,6) fits(3) by (intro that [of ?o]) (simp_all add: OBJ_obj2txt_def strlcpy_int_def)
qed

text \<open>\<open>OBJ_nid2cbb\<close> writes the object's identifier as a DER element.\<close>

lemma does_nid2cbb:
  assumes "OBJ_nid2obj T st nid = Some obj" "length (obj_bytes obj) \<le> 0xfffffffe"
  shows "does (OBJ_nid2cbb T st nid) (der_element CBS_ASN1_OBJECT (obj_bytes obj))"
  using does_asn1 [OF does_add_bytes assms(2), of CBS_ASN1_OBJECT] assms(1)
  by (simp add: OBJ_nid2cbb_def [abs_def] in_child_def [abs_def])

end
