(* ===== verification/Pb_Stream.thy ===== *)
theory Pb_Stream
  imports Codec
begin

text \<open>
  The streams of nanopb (\<open>pb_decode.c\<close>, \<open>pb_encode.c\<close>) in the configuration of the
  app: callbacks allowed, 64-bit integers, error messages kept. An input or output
  stream carries the callback of the user and its state; \<open>is_buf\<close> is the test
  whether the callback is \<open>buf_read\<close>, and an output stream without a callback only
  counts. The state of a buffer stream is the memory from the pointer on, or the
  bytes written so far. A callback reads or changes its state, not the stream
  around it.

  What the code needs of a callback is stated by the locales \<open>pb_source\<close> and \<open>pb_sink\<close>; the
  callbacks of buffer streams are their interpretations.
\<close>

section \<open>Input streams\<close>

record 's pb_istream =
  is_callback :: "'s \<Rightarrow> nat \<Rightarrow> bool \<times> bytes \<times> 's"
  is_buf :: bool
  is_state :: 's
  bytes_left :: nat
  is_errmsg :: "string option"

definition PB_SET_ERROR :: "string \<Rightarrow> string option \<Rightarrow> string option" where
  "PB_SET_ERROR msg errmsg = (case errmsg of None \<Rightarrow> Some msg | Some m \<Rightarrow> Some m)"

definition PB_RETURN_ERROR :: "string \<Rightarrow> 's pb_istream \<Rightarrow> 'a option \<times> 's pb_istream" where
  "PB_RETURN_ERROR msg st = (None, st\<lparr>is_errmsg := PB_SET_ERROR msg (is_errmsg st)\<rparr>)"

definition buf_read :: "bytes \<Rightarrow> nat \<Rightarrow> bool \<times> bytes \<times> bytes" where
  "buf_read source count = (True, take count source, drop count source)"

definition pb_istream_from_buffer :: "bytes \<Rightarrow> nat \<Rightarrow> bytes pb_istream" where
  "pb_istream_from_buffer buf bufsize =
     \<lparr>is_callback = buf_read, is_buf = True, is_state = buf, bytes_left = bufsize, is_errmsg = None\<rparr>"

text \<open>\<open>pb_read\<close> with a buffer gives the bytes; without one it is \<open>pb_read_null\<close>.\<close>

definition pb_read :: "nat \<Rightarrow> 's pb_istream \<Rightarrow> bytes option \<times> 's pb_istream" where
  "pb_read count st =
     (if count = 0 then (Some [], st)
      else if bytes_left st < count then PB_RETURN_ERROR ''end-of-stream'' st
      else (case is_callback st (is_state st) count of (success, buf, s) \<Rightarrow>
              let st = st\<lparr>is_state := s\<rparr>
              in if \<not> success then PB_RETURN_ERROR ''io error'' st
                 else (Some buf, st\<lparr>bytes_left := bytes_left st - count\<rparr>)))"

definition done_with :: "'a option \<times> 's \<Rightarrow> unit option \<times> 's" where
  "done_with r = (map_option (\<lambda>_. ()) (fst r), snd r)"

fun skip_chunks :: "nat \<Rightarrow> 's pb_istream \<Rightarrow> unit option \<times> 's pb_istream" where
  "skip_chunks count st =
     (if count > 16 then and_then (pb_read 16 st) (\<lambda>tmp st. skip_chunks (count - 16) st)
      else done_with (pb_read count st))"

declare skip_chunks.simps [simp del]

definition pb_read_null :: "nat \<Rightarrow> 's pb_istream \<Rightarrow> unit option \<times> 's pb_istream" where
  "pb_read_null count st =
     (if count = 0 then (Some (), st)
      else if \<not> is_buf st then skip_chunks count st
      else done_with (pb_read count st))"

definition pb_readbyte :: "'s pb_istream \<Rightarrow> byte option \<times> 's pb_istream" where
  "pb_readbyte st =
     (if bytes_left st = 0 then PB_RETURN_ERROR ''end-of-stream'' st
      else (case is_callback st (is_state st) 1 of (success, buf, s) \<Rightarrow>
              let st = st\<lparr>is_state := s\<rparr>
              in if \<not> success then PB_RETURN_ERROR ''io error'' st
                 else (Some (hd buf), st\<lparr>bytes_left := bytes_left st - 1\<rparr>)))"

lemma pb_readbyte_left [simp]:
  "pb_readbyte st = (Some b, st') \<Longrightarrow> bytes_left st' < bytes_left st"
  by (auto simp: pb_readbyte_def PB_RETURN_ERROR_def Let_def split: if_splits prod.splits)

lemma pb_read_left:
  "pb_read n st = (Some bs, st') \<Longrightarrow> bytes_left st = n + bytes_left st'"
  by (auto simp: pb_read_def PB_RETURN_ERROR_def Let_def split: if_splits prod.splits)

section \<open>Varints\<close>

text \<open>\<open>uint_fast8_t\<close> is an 8-bit type on the targets; the position wraps at 256.\<close>

function varint32_loop :: "byte \<Rightarrow> u32 \<Rightarrow> 's pb_istream \<Rightarrow> u32 option \<times> 's pb_istream" where
  "varint32_loop bitpos result st =
     (case pb_readbyte st of
        (None, st) \<Rightarrow> (None, st)
      | (Some byte, st) \<Rightarrow>
          if bitpos \<ge> 32 \<and> byte AND 0x7F \<noteq> 0 \<and>
             (drop_bit 31 result = 0 \<or> byte \<noteq> (if bitpos < 63 then 0xFF else 0x01))
          then PB_RETURN_ERROR ''varint overflow'' st
          else let result = (if bitpos \<ge> 32 then result
                             else result OR push_bit (unat bitpos) (ucast (byte AND 0x7F)));
                   bitpos = bitpos + 7
               in if byte AND 0x80 \<noteq> 0 then varint32_loop bitpos result st
                  else if bitpos = 35 \<and> byte AND 0x70 \<noteq> 0 then PB_RETURN_ERROR ''varint overflow'' st
                  else (Some result, st))"
  by pat_completeness auto

termination by (relation "measure (\<lambda>(_, _, st). bytes_left st)") (auto dest!: pb_readbyte_left [OF sym])

declare varint32_loop.simps [simp del]

text \<open>The first component is \<open>*eof\<close>.\<close>

definition pb_decode_varint32_eof :: "'s pb_istream \<Rightarrow> bool \<times> u32 option \<times> 's pb_istream" where
  "pb_decode_varint32_eof st =
     (case pb_readbyte st of
        (None, st) \<Rightarrow> (bytes_left st = 0, None, st)
      | (Some byte, st) \<Rightarrow>
          (False, if byte AND 0x80 = 0 then (Some (ucast byte), st)
                  else varint32_loop 7 (ucast (byte AND 0x7F)) st))"

definition pb_decode_varint32 :: "'s pb_istream \<Rightarrow> u32 option \<times> 's pb_istream" where
  "pb_decode_varint32 st = snd (pb_decode_varint32_eof st)"

function varint_loop :: "byte \<Rightarrow> u64 \<Rightarrow> 's pb_istream \<Rightarrow> u64 option \<times> 's pb_istream" where
  "varint_loop bitpos result st =
     (if bitpos \<ge> 64 then PB_RETURN_ERROR ''varint overflow'' st
      else (case pb_readbyte st of
              (None, st) \<Rightarrow> (None, st)
            | (Some byte, st) \<Rightarrow>
                let result = result OR push_bit (unat bitpos) (ucast (byte AND 0x7F));
                    bitpos = bitpos + 7
                in if byte AND 0x80 \<noteq> 0 then varint_loop bitpos result st else (Some result, st)))"
  by pat_completeness auto

termination by (relation "measure (\<lambda>(_, _, st). bytes_left st)") (auto dest!: pb_readbyte_left [OF sym])

declare varint_loop.simps [simp del]

definition pb_decode_varint :: "'s pb_istream \<Rightarrow> u64 option \<times> 's pb_istream" where
  "pb_decode_varint st = varint_loop 0 0 st"

definition pb_decode_svarint :: "'s pb_istream \<Rightarrow> u64 option \<times> 's pb_istream" where
  \<comment> \<open>the bits of the \<open>int64_t\<close>\<close>
  "pb_decode_svarint st =
     and_then (pb_decode_varint st) (\<lambda>value st.
       (Some (if value AND 1 \<noteq> 0 then NOT (drop_bit 1 value) else drop_bit 1 value), st))"

definition pb_decode_fixed32 :: "'s pb_istream \<Rightarrow> u32 option \<times> 's pb_istream" where
  "pb_decode_fixed32 st =
     and_then (pb_read 4 st) (\<lambda>bytes st.
       (Some (push_bit 0 (ucast (bytes ! 0)) OR push_bit 8 (ucast (bytes ! 1)) OR
              push_bit 16 (ucast (bytes ! 2)) OR push_bit 24 (ucast (bytes ! 3))), st))"

definition pb_decode_fixed64 :: "'s pb_istream \<Rightarrow> u64 option \<times> 's pb_istream" where
  "pb_decode_fixed64 st =
     and_then (pb_read 8 st) (\<lambda>bytes st.
       (Some (push_bit 0 (ucast (bytes ! 0)) OR push_bit 8 (ucast (bytes ! 1)) OR
              push_bit 16 (ucast (bytes ! 2)) OR push_bit 24 (ucast (bytes ! 3)) OR
              push_bit 32 (ucast (bytes ! 4)) OR push_bit 40 (ucast (bytes ! 5)) OR
              push_bit 48 (ucast (bytes ! 6)) OR push_bit 56 (ucast (bytes ! 7))), st))"

section \<open>Fields on the wire\<close>

definition PB_WT_VARINT :: u32 where "PB_WT_VARINT = 0"
definition PB_WT_64BIT :: u32 where "PB_WT_64BIT = 1"
definition PB_WT_STRING :: u32 where "PB_WT_STRING = 2"
definition PB_WT_32BIT :: u32 where "PB_WT_32BIT = 5"

function pb_skip_varint :: "'s pb_istream \<Rightarrow> unit option \<times> 's pb_istream" where
  "pb_skip_varint st =
     (case pb_read 1 st of
        (None, st) \<Rightarrow> (None, st)
      | (Some byte, st) \<Rightarrow> if hd byte AND 0x80 \<noteq> 0 then pb_skip_varint st else (Some (), st))"
  by pat_completeness auto

termination by (relation "measure bytes_left") (auto dest!: pb_read_left [OF sym])

declare pb_skip_varint.simps [simp del]

definition pb_skip_string :: "'s pb_istream \<Rightarrow> unit option \<times> 's pb_istream" where
  "pb_skip_string st =
     and_then (pb_decode_varint32 st) (\<lambda>length st. pb_read_null (unat length) st)"

text \<open>The first component is \<open>*eof\<close>; the value is the wire type and the tag.\<close>

definition pb_decode_tag :: "'s pb_istream \<Rightarrow> bool \<times> (u32 \<times> u32) option \<times> 's pb_istream" where
  "pb_decode_tag st =
     (case pb_decode_varint32_eof st of
        (eof, None, st) \<Rightarrow> (eof, None, st)
      | (eof, Some temp, st) \<Rightarrow>
          if temp = 0 then (True, None, st)
          else (eof, Some (temp AND 7, drop_bit 3 temp), st))"

definition pb_skip_field :: "u32 \<Rightarrow> 's pb_istream \<Rightarrow> unit option \<times> 's pb_istream" where
  "pb_skip_field wire_type st =
     (if wire_type = PB_WT_VARINT then pb_skip_varint st
      else if wire_type = PB_WT_64BIT then pb_read_null 8 st
      else if wire_type = PB_WT_STRING then pb_skip_string st
      else if wire_type = PB_WT_32BIT then pb_read_null 4 st
      else PB_RETURN_ERROR ''invalid wire_type'' st)"

text \<open>The value is the part of the buffer that is filled, of \<open>*size\<close> bytes.\<close>

fun raw_varint :: "nat \<Rightarrow> 's pb_istream \<Rightarrow> bytes option \<times> 's pb_istream" where
  "raw_varint 0 st = (None, st)"
| "raw_varint (Suc max_size) st =
     and_then (pb_read 1 st) (\<lambda>byte st.
       if hd byte AND 0x80 \<noteq> 0
       then and_then (raw_varint max_size st) (\<lambda>buf st. (Some (hd byte # buf), st))
       else (Some [hd byte], st))"

definition read_raw_value :: "u32 \<Rightarrow> nat \<Rightarrow> 's pb_istream \<Rightarrow> bytes option \<times> 's pb_istream" where
  "read_raw_value wire_type max_size st =
     (if wire_type = PB_WT_VARINT then raw_varint max_size st
      else if wire_type = PB_WT_64BIT then pb_read 8 st
      else if wire_type = PB_WT_32BIT then pb_read 4 st
      else PB_RETURN_ERROR ''invalid wire_type'' st)"

definition pb_make_string_substream ::
  "'s pb_istream \<Rightarrow> 's pb_istream option \<times> 's pb_istream" where
  "pb_make_string_substream st =
     and_then (pb_decode_varint32 st) (\<lambda>size st.
       if bytes_left st < unat size then PB_RETURN_ERROR ''parent stream too short'' st
       else (Some (st\<lparr>bytes_left := unat size\<rparr>), st\<lparr>bytes_left := bytes_left st - unat size\<rparr>))"

text \<open>The streams are the parent and the substream.\<close>

definition pb_close_string_substream ::
  "'s pb_istream \<Rightarrow> 's pb_istream \<Rightarrow> unit option \<times> 's pb_istream" where
  "pb_close_string_substream st substream =
     (case (if bytes_left substream \<noteq> 0 then pb_read_null (bytes_left substream) substream
            else (Some (), substream)) of
        (None, _) \<Rightarrow> (None, st)
      | (Some _, substream) \<Rightarrow>
          (Some (), st\<lparr>is_state := is_state substream, is_errmsg := is_errmsg substream\<rparr>))"

section \<open>Output streams\<close>

record 's pb_ostream =
  os_callback :: "('s \<Rightarrow> bytes \<Rightarrow> bool \<times> 's) option"
  os_state :: 's
  max_size :: u64
  bytes_written :: u64
  os_errmsg :: "string option"

definition PB_FAIL :: "string \<Rightarrow> 's pb_ostream \<Rightarrow> bool \<times> 's pb_ostream" where
  "PB_FAIL msg st = (False, st\<lparr>os_errmsg := PB_SET_ERROR msg (os_errmsg st)\<rparr>)"

definition buf_write :: "bytes \<Rightarrow> bytes \<Rightarrow> bool \<times> bytes" where
  "buf_write dest buf = (True, dest @ buf)"

definition pb_ostream_from_buffer :: "u64 \<Rightarrow> bytes pb_ostream" where
  "pb_ostream_from_buffer bufsize =
     \<lparr>os_callback = Some buf_write, os_state = [], max_size = bufsize, bytes_written = 0, os_errmsg = None\<rparr>"

definition PB_OSTREAM_SIZING :: "'s \<Rightarrow> 's pb_ostream" where
  \<comment> \<open>the state is never read\<close>
  "PB_OSTREAM_SIZING s =
     \<lparr>os_callback = None, os_state = s, max_size = 0, bytes_written = 0, os_errmsg = None\<rparr>"

definition pb_write :: "bytes \<Rightarrow> nat \<Rightarrow> 's pb_ostream \<Rightarrow> bool \<times> 's pb_ostream" where
  "pb_write buf count st =
     (let written = bytes_written st + of_nat count
      in case os_callback st of
           Some callback \<Rightarrow>
             if count > 0 then
               if written < bytes_written st \<or> written > max_size st then PB_FAIL ''stream full'' st
               else (case callback (os_state st) (take count buf) of (success, s) \<Rightarrow>
                       let st = st\<lparr>os_state := s\<rparr>
                       in if \<not> success then PB_FAIL ''io error'' st
                          else (True, st\<lparr>bytes_written := written\<rparr>))
             else (True, st\<lparr>bytes_written := written\<rparr>)
         | None \<Rightarrow> (True, st\<lparr>bytes_written := written\<rparr>))"

function varint_buffer :: "u64 \<Rightarrow> bytes" where
  "varint_buffer value =
     (if value = 0 then []
      else (ucast (value AND 0x7F) OR 0x80) # varint_buffer (drop_bit 7 value))"
  by pat_completeness auto

termination
proof (relation "measure unat")
  fix v :: u64
  assume "v \<noteq> 0"
  then have "0 < unat v" by (simp add: unat_gt_0)
  then show "(drop_bit 7 v, v) \<in> measure unat" by (simp add: unat_drop_bit_div)
qed simp

declare varint_buffer.simps [simp del]

definition pb_encode_varint :: "u64 \<Rightarrow> 's pb_ostream \<Rightarrow> bool \<times> 's pb_ostream" where
  "pb_encode_varint value st =
     (if value \<le> 0x7F then pb_write [ucast value] 1 st
      else let buffer = varint_buffer value; i = length buffer;
               buffer = buffer[i - 1 := buffer ! (i - 1) AND 0x7F]
           in pb_write buffer i st)"

definition pb_encode_svarint :: "u64 \<Rightarrow> 's pb_ostream \<Rightarrow> bool \<times> 's pb_ostream" where
  "pb_encode_svarint value st =
     (let zigzagged = (if sint value < 0 then NOT (push_bit 1 value) else push_bit 1 value)
      in pb_encode_varint zigzagged st)"

definition pb_encode_fixed32 :: "u32 \<Rightarrow> 's pb_ostream \<Rightarrow> bool \<times> 's pb_ostream" where
  "pb_encode_fixed32 val st =
     pb_write [ucast (val AND 0xFF), ucast (drop_bit 8 val AND 0xFF), ucast (drop_bit 16 val AND 0xFF),
               ucast (drop_bit 24 val AND 0xFF)] 4 st"

definition pb_encode_fixed64 :: "u64 \<Rightarrow> 's pb_ostream \<Rightarrow> bool \<times> 's pb_ostream" where
  "pb_encode_fixed64 val st =
     pb_write [ucast (val AND 0xFF), ucast (drop_bit 8 val AND 0xFF), ucast (drop_bit 16 val AND 0xFF),
               ucast (drop_bit 24 val AND 0xFF), ucast (drop_bit 32 val AND 0xFF), ucast (drop_bit 40 val AND 0xFF),
               ucast (drop_bit 48 val AND 0xFF), ucast (drop_bit 56 val AND 0xFF)] 8 st"

definition pb_encode_tag :: "u32 \<Rightarrow> u32 \<Rightarrow> 's pb_ostream \<Rightarrow> bool \<times> 's pb_ostream" where
  "pb_encode_tag wiretype field_number st =
     (let tag = push_bit 3 (ucast field_number :: u64) OR ucast wiretype in pb_encode_varint tag st)"

definition pb_encode_string :: "bytes \<Rightarrow> nat \<Rightarrow> 's pb_ostream \<Rightarrow> bool \<times> 's pb_ostream" where
  "pb_encode_string buffer n st =
     and_also (pb_encode_varint (of_nat n) st) (pb_write buffer n)"

end
