(* ===== verification/Pb_Field.thy ===== *)
theory Pb_Field
  imports Pb_Stream
begin

text \<open>
  The descriptors of messages (\<open>pb.h\<close>), the memory of a message, and the iterator over
  the fields (\<open>pb_common.c\<close>), with 32-bit \<open>pb_size_t\<close> as the app configures it. A message is a
  region of the memory, a list of bytes; an address is an index into it and 0 is the null
  pointer. The fields of a message are a list that ends with the terminator of tag 0.
\<close>

section \<open>Descriptors\<close>

datatype pb_field =
  Pb_Field (fld_tag: u32) (fld_type: byte) (data_offset: u32) (size_offset: u32) (data_size: u32)
    (array_size: u32) (fld_ptr: pb_ptr)
and pb_ptr = Null | Default bytes | Fields "pb_field list"

definition PB_LTYPE_BOOL :: byte where "PB_LTYPE_BOOL = 0x00"
definition PB_LTYPE_VARINT :: byte where "PB_LTYPE_VARINT = 0x01"
definition PB_LTYPE_UVARINT :: byte where "PB_LTYPE_UVARINT = 0x02"
definition PB_LTYPE_SVARINT :: byte where "PB_LTYPE_SVARINT = 0x03"
definition PB_LTYPE_FIXED32 :: byte where "PB_LTYPE_FIXED32 = 0x04"
definition PB_LTYPE_FIXED64 :: byte where "PB_LTYPE_FIXED64 = 0x05"
definition PB_LTYPE_LAST_PACKABLE :: byte where "PB_LTYPE_LAST_PACKABLE = 0x05"
definition PB_LTYPE_BYTES :: byte where "PB_LTYPE_BYTES = 0x06"
definition PB_LTYPE_STRING :: byte where "PB_LTYPE_STRING = 0x07"
definition PB_LTYPE_SUBMESSAGE :: byte where "PB_LTYPE_SUBMESSAGE = 0x08"
definition PB_LTYPE_EXTENSION :: byte where "PB_LTYPE_EXTENSION = 0x09"
definition PB_LTYPE_FIXED_LENGTH_BYTES :: byte where "PB_LTYPE_FIXED_LENGTH_BYTES = 0x0A"
definition PB_LTYPE_MASK :: byte where "PB_LTYPE_MASK = 0x0F"
definition PB_HTYPE_REQUIRED :: byte where "PB_HTYPE_REQUIRED = 0x00"
definition PB_HTYPE_OPTIONAL :: byte where "PB_HTYPE_OPTIONAL = 0x10"
definition PB_HTYPE_REPEATED :: byte where "PB_HTYPE_REPEATED = 0x20"
definition PB_HTYPE_ONEOF :: byte where "PB_HTYPE_ONEOF = 0x30"
definition PB_HTYPE_MASK :: byte where "PB_HTYPE_MASK = 0x30"
definition PB_ATYPE_STATIC :: byte where "PB_ATYPE_STATIC = 0x00"
definition PB_ATYPE_POINTER :: byte where "PB_ATYPE_POINTER = 0x80"
definition PB_ATYPE_CALLBACK :: byte where "PB_ATYPE_CALLBACK = 0x40"
definition PB_ATYPE_MASK :: byte where "PB_ATYPE_MASK = 0xC0"

definition PB_ATYPE :: "byte \<Rightarrow> byte" where "PB_ATYPE x = x AND PB_ATYPE_MASK"
definition PB_HTYPE :: "byte \<Rightarrow> byte" where "PB_HTYPE x = x AND PB_HTYPE_MASK"
definition PB_LTYPE :: "byte \<Rightarrow> byte" where "PB_LTYPE x = x AND PB_LTYPE_MASK"

definition PB_SIZE_MAX :: u32 where "PB_SIZE_MAX = 0xffffffff"
definition PB_MAX_REQUIRED_FIELDS :: nat where "PB_MAX_REQUIRED_FIELDS = 64"

lemmas pb_ltypes = PB_LTYPE_BOOL_def PB_LTYPE_VARINT_def PB_LTYPE_UVARINT_def PB_LTYPE_SVARINT_def
  PB_LTYPE_FIXED32_def PB_LTYPE_FIXED64_def PB_LTYPE_LAST_PACKABLE_def PB_LTYPE_BYTES_def
  PB_LTYPE_STRING_def PB_LTYPE_SUBMESSAGE_def PB_LTYPE_EXTENSION_def PB_LTYPE_FIXED_LENGTH_BYTES_def

lemmas pb_htypes = PB_HTYPE_REQUIRED_def PB_HTYPE_OPTIONAL_def PB_HTYPE_REPEATED_def PB_HTYPE_ONEOF_def

lemmas pb_atypes = PB_ATYPE_STATIC_def PB_ATYPE_POINTER_def PB_ATYPE_CALLBACK_def

lemma byte_two_bits: "(x :: byte) AND 0x30 \<in> {0, 0x10, 0x20, 0x30}"
proof -
  have "x AND 0x30 = (if bit x 4 then 0x10 else 0) OR (if bit x 5 then 0x20 else 0)"
    by (simp add: byte_eq_iff_bits bit_simps)
  then show ?thesis by (cases "bit x 4"; cases "bit x 5") simp_all
qed

lemma htype_cases:
  "PB_HTYPE t = PB_HTYPE_REQUIRED \<or> PB_HTYPE t = PB_HTYPE_OPTIONAL \<or> PB_HTYPE t = PB_HTYPE_REPEATED \<or> PB_HTYPE t = PB_HTYPE_ONEOF"
  using byte_two_bits [of t] by (simp add: PB_HTYPE_def PB_HTYPE_MASK_def pb_htypes)

section \<open>Memory\<close>

text \<open>A little-endian word of the width of its type.\<close>

definition load :: "bytes \<Rightarrow> nat \<Rightarrow> 'a :: len word" where
  "load mem a = of_nat (le_val (take (LENGTH('a) div 8) (drop a mem)))"

definition store :: "bytes \<Rightarrow> nat \<Rightarrow> 'a :: len word \<Rightarrow> bytes" where
  "store mem a w = poke mem a (le_bytes (LENGTH('a) div 8) (unat w))"

text \<open>
  The \<open>n\<close> bytes at an address. Reading past the end of the memory is undefined in C and
  gives zeros here.
\<close>

definition peek :: "bytes \<Rightarrow> nat \<Rightarrow> nat \<Rightarrow> bytes" where
  "peek mem a n = take n (drop a mem @ replicate n 0)"

lemma length_peek [simp]: "length (peek mem a n) = n"
  by (simp add: peek_def)

section \<open>The iterator\<close>

record pb_field_iter =
  it_start :: "pb_field list"
  it_pos :: nat
  required_field_index :: nat
  it_dest :: nat
  it_pData :: nat
  it_pSize :: nat

definition it_field :: "pb_field_iter \<Rightarrow> pb_field" where
  "it_field iter = it_start iter ! it_pos iter"

definition size_address :: "nat \<Rightarrow> pb_field \<Rightarrow> nat" where
  "size_address pData f = nat (int pData + sint (size_offset f))"

definition pb_field_iter_begin :: "pb_field list \<Rightarrow> nat \<Rightarrow> bool \<times> pb_field_iter" where
  "pb_field_iter_begin fs dest =
     (let pos = fs ! 0;
          pData = (if dest = 0 then 0 else dest + unat (data_offset pos));
          pSize = (if dest = 0 then 0 else size_address pData pos)
      in (fld_tag pos \<noteq> 0,
          \<lparr>it_start = fs, it_pos = 0, required_field_index = 0, it_dest = dest,
           it_pData = pData, it_pSize = pSize\<rparr>))"

text \<open>How far the data pointer moves; a pointer has 8 bytes.\<close>

definition field_extent :: "pb_field \<Rightarrow> nat" where
  "field_extent f =
     (if PB_ATYPE (fld_type f) = PB_ATYPE_STATIC \<and> PB_HTYPE (fld_type f) = PB_HTYPE_REPEATED
      then unat (data_size f) * unat (array_size f)
      else if PB_ATYPE (fld_type f) = PB_ATYPE_POINTER then 8
      else unat (data_size f))"

definition pb_field_iter_next :: "pb_field_iter \<Rightarrow> bool \<times> pb_field_iter" where
  "pb_field_iter_next iter =
     (let prev_field = it_field iter
      in if fld_tag prev_field = 0 then (False, iter)
         else let iter = iter\<lparr>it_pos := it_pos iter + 1\<rparr>; pos = it_field iter
              in if fld_tag pos = 0 then (False, snd (pb_field_iter_begin (it_start iter) (it_dest iter)))
                 else if PB_HTYPE (fld_type prev_field) = PB_HTYPE_ONEOF \<and>
                         PB_HTYPE (fld_type pos) = PB_HTYPE_ONEOF \<and> data_offset pos = PB_SIZE_MAX
                 then (True, iter)
                 else let iter = (if PB_HTYPE (fld_type prev_field) = PB_HTYPE_REQUIRED
                                  then iter\<lparr>required_field_index := required_field_index iter + 1\<rparr> else iter);
                          pData = it_pData iter + field_extent prev_field + unat (data_offset pos)
                      in (True, iter\<lparr>it_pData := pData, it_pSize := size_address pData pos\<rparr>))"

text \<open>
  The loops that go round the fields stop where they started: a turn for every field is
  enough, and the first argument is the number of turns.
\<close>

fun iter_find :: "nat \<Rightarrow> (pb_field \<Rightarrow> bool) \<Rightarrow> nat \<Rightarrow> pb_field_iter \<Rightarrow> bool \<times> pb_field_iter" where
  "iter_find 0 P start iter = (False, iter)"
| "iter_find (Suc n) P start iter =
     (if P (it_field iter) then (True, iter)
      else let iter = snd (pb_field_iter_next iter)
           in if it_pos iter \<noteq> start then iter_find n P start iter else (False, iter))"

definition pb_field_iter_find :: "pb_field_iter \<Rightarrow> u32 \<Rightarrow> bool \<times> pb_field_iter" where
  "pb_field_iter_find iter tag =
     iter_find (length (it_start iter))
       (\<lambda>f. fld_tag f = tag \<and> PB_LTYPE (fld_type f) \<noteq> PB_LTYPE_EXTENSION) (it_pos iter) iter"

definition find_extension_field :: "pb_field_iter \<Rightarrow> bool \<times> pb_field_iter" where
  "find_extension_field iter =
     iter_find (length (it_start iter))
       (\<lambda>f. PB_LTYPE (fld_type f) = PB_LTYPE_EXTENSION) (it_pos iter) iter"

section \<open>Where the fields are\<close>

text \<open>The fields are a list without tag 0, then the terminator.\<close>

definition PB_LAST_FIELD :: pb_field where
  "PB_LAST_FIELD = Pb_Field 0 0 0 0 0 0 Null"

definition terminated :: "pb_field list \<Rightarrow> bool" where
  "terminated fs \<longleftrightarrow>
     fs \<noteq> [] \<and> fld_tag (last fs) = 0 \<and> (\<forall>f \<in> set (butlast fs). fld_tag f \<noteq> 0)"

text \<open>The iterator on the field \<open>k\<close>, as one gets there from the beginning.\<close>

primrec iter_at :: "pb_field list \<Rightarrow> nat \<Rightarrow> nat \<Rightarrow> pb_field_iter" where
  "iter_at fs dest 0 = snd (pb_field_iter_begin fs dest)"
| "iter_at fs dest (Suc k) = snd (pb_field_iter_next (iter_at fs dest k))"

definition n_fields :: "pb_field list \<Rightarrow> nat" where
  "n_fields fs = length fs - 1"

lemma terminated_nth:
  assumes "terminated fs" "k \<le> n_fields fs"
  shows "fld_tag (fs ! k) = 0 \<longleftrightarrow> k = n_fields fs"
proof (cases "k = n_fields fs")
  case True
  then show ?thesis using assms last_conv_nth [of fs] by (simp add: terminated_def n_fields_def)
next
  case False
  then have "k < length (butlast fs)" using assms(2) by (simp add: n_fields_def)
  then have "fs ! k \<in> set (butlast fs)" by (metis nth_butlast nth_mem)
  with False show ?thesis using assms(1) by (auto simp: terminated_def)
qed

lemma begin_fields [simp]:
  "it_start (snd (pb_field_iter_begin fs dest)) = fs"
  "it_pos (snd (pb_field_iter_begin fs dest)) = 0"
  "it_dest (snd (pb_field_iter_begin fs dest)) = dest"
  by (simp_all add: pb_field_iter_begin_def Let_def)

lemma next_start [simp]:
  "it_start (snd (pb_field_iter_next iter)) = it_start iter"
  "it_dest (snd (pb_field_iter_next iter)) = it_dest iter"
  by (simp_all add: pb_field_iter_next_def Let_def)

lemma iter_at_start [simp]:
  "it_start (iter_at fs dest k) = fs" "it_dest (iter_at fs dest k) = dest"
  by (induction k) simp_all

lemma iter_next_at:
  assumes "terminated fs" "k < n_fields fs" "it_pos (iter_at fs dest k) = k"
  shows "pb_field_iter_next (iter_at fs dest k) =
    (if Suc k < n_fields fs then (True, iter_at fs dest (Suc k)) else (False, iter_at fs dest 0))"
    and "Suc k < n_fields fs \<Longrightarrow> it_pos (iter_at fs dest (Suc k)) = Suc k"
proof -
  have f: "it_field (iter_at fs dest k) = fs ! k" by (simp add: it_field_def assms(3))
  have t: "fld_tag (fs ! k) \<noteq> 0" "fld_tag (fs ! Suc k) = 0 \<longleftrightarrow> Suc k = n_fields fs"
    using terminated_nth [OF assms(1)] assms(2) by simp_all
  show "pb_field_iter_next (iter_at fs dest k) =
    (if Suc k < n_fields fs then (True, iter_at fs dest (Suc k)) else (False, iter_at fs dest 0))"
    using assms(2,3) t by (simp add: pb_field_iter_next_def Let_def it_field_def)
  show "it_pos (iter_at fs dest (Suc k)) = Suc k" if "Suc k < n_fields fs"
    using assms(2,3) t that by (simp add: pb_field_iter_next_def Let_def it_field_def)
qed

lemma iter_at_pos: "terminated fs \<Longrightarrow> k < n_fields fs \<Longrightarrow> it_pos (iter_at fs dest k) = k"
  by (induction k) (use iter_next_at(2) in \<open>simp_all del: iter_at.simps(2)\<close>)

lemma iter_at_field [simp]:
  "terminated fs \<Longrightarrow> k < n_fields fs \<Longrightarrow> it_field (iter_at fs dest k) = fs ! k"
  by (simp add: it_field_def iter_at_pos)

lemma iter_next:
  "terminated fs \<Longrightarrow> k < n_fields fs \<Longrightarrow> pb_field_iter_next (iter_at fs dest k) =
    (if Suc k < n_fields fs then (True, iter_at fs dest (Suc k)) else (False, iter_at fs dest 0))"
  by (rule iter_next_at(1)) (simp_all add: iter_at_pos)

text \<open>Going round: the search from the field \<open>j\<close> looks at the fields from \<open>j\<close> on, then at those before.\<close>

definition rotation :: "pb_field list \<Rightarrow> nat \<Rightarrow> nat list" where
  "rotation fs j = [j..<n_fields fs] @ [0..<j]"

fun way_round :: "nat \<Rightarrow> nat \<Rightarrow> nat list \<Rightarrow> bool" where
  "way_round N j [] = False"
| "way_round N j [k] = ((if Suc k < N then Suc k else 0) = j)"
| "way_round N j (k # k' # ks) = ((if Suc k < N then Suc k else 0) = k' \<and> k' \<noteq> j \<and> way_round N j (k' # ks))"

lemma way_round_up: "k < j \<Longrightarrow> j < N \<Longrightarrow> way_round N j [k..<j]"
proof (induction "j - k" arbitrary: k)
  case (Suc d)
  show ?case
  proof (cases "Suc k = j")
    case False
    then have "[k..<j] = k # Suc k # [Suc (Suc k)..<j]" "[Suc k..<j] = Suc k # [Suc (Suc k)..<j]"
      using Suc.prems by (simp_all add: upt_conv_Cons)
    then show ?thesis using Suc.hyps(1) [of "Suc k"] Suc.hyps(2) Suc.prems False by simp
  qed (use Suc.prems in \<open>simp add: upt_conv_Cons\<close>)
qed simp

lemma way_round_rotation: "j \<le> k \<Longrightarrow> k < N \<Longrightarrow> way_round N j ([k..<N] @ [0..<j])"
proof (induction "N - k" arbitrary: k)
  case (Suc d)
  show ?case
  proof (cases "Suc k < N")
    case True
    then have "[k..<N] = k # Suc k # [Suc (Suc k)..<N]" "[Suc k..<N] = Suc k # [Suc (Suc k)..<N]"
      by (simp_all add: upt_conv_Cons)
    then show ?thesis using Suc.hyps(1) [of "Suc k"] Suc.hyps(2) Suc.prems True by simp
  next
    case last: False
    then have "[k..<N] = [k]" using Suc.prems by (simp add: upt_conv_Cons)
    moreover have "way_round N j (0 # [1..<j])" if "0 < j"
      using way_round_up [of 0 j N] that Suc.prems by (simp add: upt_conv_Cons)
    ultimately show ?thesis using last by (cases "j = 0") (simp_all add: upt_conv_Cons)
  qed
qed simp

lemma iter_find_way:
  assumes "terminated fs" "way_round (n_fields fs) j ks" "\<forall>k \<in> set ks. k < n_fields fs" "length ks \<le> n"
  shows "iter_find n P j (iter_at fs dest (hd ks)) =
    (case List.find (\<lambda>i. P (fs ! i)) ks of
       Some i \<Rightarrow> (True, iter_at fs dest i) | None \<Rightarrow> (False, iter_at fs dest j))"
  using assms(2-4)
proof (induction "n_fields fs" j ks arbitrary: n rule: way_round.induct)
  case (2 j k)
  then obtain n' where "n = Suc n'" by (cases n) auto
  with 2 show ?case
    using iter_next [OF assms(1), of k dest] iter_at_pos [OF assms(1)]
    by (auto simp: assms(1) simp del: iter_at.simps split: if_splits)
next
  case (3 j k k' ks)
  then obtain n' where n: "n = Suc n'" by (cases n) auto
  have "snd (pb_field_iter_next (iter_at fs dest k)) = iter_at fs dest k'"
    using 3(2,3) iter_next [OF assms(1), of k dest] by (auto simp del: iter_at.simps split: if_splits)
  moreover have "it_pos (iter_at fs dest k') = k'" using 3(3) by (intro iter_at_pos [OF assms(1)]) simp
  ultimately show ?case
    using 3(1) [of n'] 3(2-4) n by (simp add: assms(1) del: iter_at.simps)
qed simp

lemma iter_find_rotation:
  assumes "terminated fs" "j < n_fields fs"
  shows "iter_find (length fs) P j (iter_at fs dest j) =
    (case List.find (\<lambda>i. P (fs ! i)) (rotation fs j) of
       Some i \<Rightarrow> (True, iter_at fs dest i) | None \<Rightarrow> (False, iter_at fs dest j))"
proof -
  have hd: "hd (rotation fs j) = j" using assms(2) by (simp add: rotation_def upt_conv_Cons)
  have "iter_find (length fs) P j (iter_at fs dest (hd (rotation fs j))) =
    (case List.find (\<lambda>i. P (fs ! i)) (rotation fs j) of
       Some i \<Rightarrow> (True, iter_at fs dest i) | None \<Rightarrow> (False, iter_at fs dest j))"
  proof (rule iter_find_way [OF assms(1)])
    show "way_round (n_fields fs) j (rotation fs j)"
      unfolding rotation_def using assms(2) by (intro way_round_rotation) simp_all
    show "\<forall>k\<in>set (rotation fs j). k < n_fields fs" using assms(2) by (auto simp: rotation_def)
    show "length (rotation fs j) \<le> length fs" using assms(2) by (simp add: rotation_def n_fields_def)
  qed
  then show ?thesis unfolding hd .
qed

text \<open>
  The places where an iterator can be: the fields, or the terminator of a message without
  fields. Wherever a search starts, it ends on a field with the property, or where it started.
\<close>

definition n_places :: "pb_field list \<Rightarrow> nat" where
  "n_places fs = max 1 (n_fields fs)"

lemma iter_find_spec:
  assumes "terminated fs" "j < n_places fs"
  obtains k where "iter_find (length fs) P j (iter_at fs dest j) = (\<exists>k < n_places fs. P (fs ! k), iter_at fs dest k)"
    "k < n_places fs" "if \<exists>k < n_places fs. P (fs ! k) then P (fs ! k) else k = j"
proof (cases "n_fields fs = 0")
  case True
  then obtain n where n: "length fs = Suc n" "n = 0" using assms(1) by (cases fs) (auto simp: terminated_def n_fields_def)
  have "fld_tag (fs ! 0) = 0" using terminated_nth [OF assms(1), of 0] True by simp
  then have "iter_find (length fs) P 0 (iter_at fs dest 0) = (P (fs ! 0), iter_at fs dest 0)"
    by (simp add: n it_field_def pb_field_iter_next_def)
  then show ?thesis using that [of 0] assms(2) True by (auto simp: n_places_def)
next
  case False
  then have N: "n_places fs = n_fields fs" by (simp add: n_places_def)
  have r: "set (rotation fs j) = {..<n_fields fs}" using assms(2) N by (auto simp: rotation_def)
  note f = iter_find_rotation [OF assms(1) assms(2) [unfolded N], of P dest]
  show ?thesis
  proof (cases "List.find (\<lambda>i. P (fs ! i)) (rotation fs j)")
    case None
    then have "\<forall>i < n_fields fs. \<not> P (fs ! i)" using r by (simp add: find_None_iff)
    then show ?thesis using that [of j] f None assms(2) N by auto
  next
    case (Some i)
    then have "i < n_fields fs" "P (fs ! i)" using r by (auto simp: find_Some_iff dest: nth_mem)
    then show ?thesis using that [of i] f Some N by auto
  qed
qed

lemma iter_at_place: "terminated fs \<Longrightarrow> k < n_places fs \<Longrightarrow> it_pos (iter_at fs dest k) = k"
  by (cases "n_fields fs = 0") (simp_all add: n_places_def iter_at_pos)

lemma iter_place_field: "terminated fs \<Longrightarrow> k < n_places fs \<Longrightarrow> it_field (iter_at fs dest k) = fs ! k"
  by (simp add: it_field_def iter_at_place)

lemma pb_field_iter_find_at:
  assumes "terminated fs" "j < n_places fs"
  obtains k where "k < n_places fs"
    "pb_field_iter_find (iter_at fs dest j) tag =
       (\<exists>k < n_places fs. fld_tag (fs ! k) = tag \<and> PB_LTYPE (fld_type (fs ! k)) \<noteq> PB_LTYPE_EXTENSION, iter_at fs dest k)"
    "if \<exists>k < n_places fs. fld_tag (fs ! k) = tag \<and> PB_LTYPE (fld_type (fs ! k)) \<noteq> PB_LTYPE_EXTENSION
     then fld_tag (fs ! k) = tag \<and> PB_LTYPE (fld_type (fs ! k)) \<noteq> PB_LTYPE_EXTENSION else k = j"
  unfolding pb_field_iter_find_def iter_at_place [OF assms] iter_at_start
  by (rule iter_find_spec [OF assms, of "\<lambda>f. fld_tag f = tag \<and> PB_LTYPE (fld_type f) \<noteq> PB_LTYPE_EXTENSION" dest])

lemma pb_field_iter_find_place:
  assumes "terminated fs" "j < n_places fs"
  shows "\<exists>ok k. k < n_places fs \<and> pb_field_iter_find (iter_at fs dest j) tag = (ok, iter_at fs dest k)"
  by (rule pb_field_iter_find_at [OF assms, of dest tag]) blast

lemma find_extension_at:
  assumes "terminated fs" "j < n_places fs"
  obtains k where "k < n_places fs" "snd (find_extension_field (iter_at fs dest j)) = iter_at fs dest k"
proof (rule iter_find_spec [OF assms, of "\<lambda>f. PB_LTYPE (fld_type f) = PB_LTYPE_EXTENSION" dest])
  fix k
  assume "iter_find (length fs) (\<lambda>f. PB_LTYPE (fld_type f) = PB_LTYPE_EXTENSION) j (iter_at fs dest j) =
    (\<exists>k < n_places fs. PB_LTYPE (fld_type (fs ! k)) = PB_LTYPE_EXTENSION, iter_at fs dest k)" "k < n_places fs"
  then show ?thesis using that by (simp add: find_extension_field_def iter_at_place [OF assms])
qed

lemma iter_next_place:
  assumes "terminated fs" "j < n_places fs"
  obtains k where "k < n_places fs" "snd (pb_field_iter_next (iter_at fs dest j)) = iter_at fs dest k"
    "fst (pb_field_iter_next (iter_at fs dest j)) \<longrightarrow> k = Suc j"
proof (cases "n_fields fs = 0")
  case True
  then have "fld_tag (fs ! 0) = 0" using terminated_nth [OF assms(1), of 0] by simp
  then show ?thesis using that [of 0] True assms(2) by (simp add: n_places_def pb_field_iter_next_def it_field_def)
next
  case False
  then show ?thesis
    using iter_next [OF assms(1), of j dest] assms(2) that [of "Suc j"] that [of 0]
    by (cases "Suc j < n_fields fs") (auto simp: n_places_def simp del: iter_at.simps)
qed

end
