(* ===== verification/Pb_Release.thy ===== *)
theory Pb_Release
  imports Pb_Field
begin

text \<open>
  The memory of pointer fields (\<open>pb_decode.c\<close> with \<open>PB_ENABLE_MALLOC\<close>, as the app configures it):
  releasing the fields of a message. The allocator is a parameter that acts on the whole
  memory. A list of extensions is null.

  A submessage is released by the function itself; as descriptors nest finitely, the
  functions on messages are defined by recursion on the depth of the nesting.
\<close>

primrec depth_field :: "pb_field \<Rightarrow> nat" and depth_ptr :: "pb_ptr \<Rightarrow> nat" where
  "depth_field (Pb_Field _ _ _ _ _ _ p) = depth_ptr p"
| "depth_ptr Null = 0"
| "depth_ptr (Default _) = 0"
| "depth_ptr (Fields fs) = Suc (foldr max (map depth_field fs) 0)"

definition depth :: "pb_field list \<Rightarrow> nat" where
  "depth fs = Suc (foldr max (map depth_field fs) 0)"

text \<open>\<open>pb_realloc\<close> gets a pointer and a size, and gives a pointer or fails.\<close>

record pb_malloc =
  pb_realloc :: "nat \<Rightarrow> nat \<Rightarrow> bytes \<Rightarrow> (nat \<times> bytes) option"
  pb_free :: "nat \<Rightarrow> bytes \<Rightarrow> bytes"

definition load_pointer :: "bytes \<Rightarrow> nat \<Rightarrow> nat" where
  "load_pointer mem a = unat (load mem a :: u64)"

definition store_pointer :: "bytes \<Rightarrow> nat \<Rightarrow> nat \<Rightarrow> bytes" where
  "store_pointer mem a p = store mem a (of_nat p :: u64)"

type_synonym message_release = "pb_field list \<Rightarrow> nat \<Rightarrow> bytes \<Rightarrow> bytes"

text \<open>The messages of an array, and the pointers of an array, one after the other.\<close>

primrec release_items :: "message_release \<Rightarrow> pb_field list \<Rightarrow> nat \<Rightarrow> nat \<Rightarrow> nat \<Rightarrow> bytes \<Rightarrow> bytes" where
  "release_items release gs step 0 p mem = mem"
| "release_items release gs step (Suc n) p mem = release_items release gs step n (p + step) (release gs p mem)"

primrec free_entries :: "pb_malloc \<Rightarrow> nat \<Rightarrow> nat \<Rightarrow> bytes \<Rightarrow> bytes" where
  "free_entries M 0 p mem = mem"
| "free_entries M (Suc n) p mem = free_entries M n (p + 8) (store_pointer (pb_free M (load_pointer mem p) mem) p 0)"

definition release_submessages :: "message_release \<Rightarrow> pb_field_iter \<Rightarrow> bytes \<Rightarrow> bytes" where
  "release_submessages release iter mem =
     (let f = it_field iter; type = fld_type f; static = (PB_ATYPE type = PB_ATYPE_STATIC);
          pItem = (if PB_ATYPE type = PB_ATYPE_POINTER then load_pointer mem (it_pData iter) else it_pData iter);
          count = (if static \<and> it_pSize iter = it_pData iter then array_size f else load mem (it_pSize iter));
          count = (if PB_HTYPE type = PB_HTYPE_REPEATED
                   then (if static \<and> count > array_size f then array_size f else count) else 1)
      in case fld_ptr f of
           Fields gs \<Rightarrow> if pItem \<noteq> 0 then release_items release gs (unat (data_size f)) (unat count) pItem mem else mem
         | _ \<Rightarrow> mem)"

definition release_pointer :: "pb_malloc \<Rightarrow> pb_field_iter \<Rightarrow> bytes \<Rightarrow> bytes" where
  "release_pointer M iter mem =
     (let type = fld_type (it_field iter); repeated = (PB_HTYPE type = PB_HTYPE_REPEATED);
          mem = (if repeated \<and> (PB_LTYPE type = PB_LTYPE_STRING \<or> PB_LTYPE type = PB_LTYPE_BYTES)
                 then free_entries M (unat (load mem (it_pSize iter) :: u32)) (load_pointer mem (it_pData iter)) mem
                 else mem);
          mem = (if repeated then store mem (it_pSize iter) (0 :: u32) else mem);
          mem = pb_free M (load_pointer mem (it_pData iter)) mem
      in store_pointer mem (it_pData iter) 0)"

definition pb_release_single_field :: "pb_malloc \<Rightarrow> message_release \<Rightarrow> pb_field_iter \<Rightarrow> bytes \<Rightarrow> bytes" where
  "pb_release_single_field M release iter mem =
     (let f = it_field iter; type = fld_type f
      in if PB_HTYPE type = PB_HTYPE_ONEOF \<and> load mem (it_pSize iter) \<noteq> fld_tag f then mem
         else let mem = (if PB_LTYPE type = PB_LTYPE_EXTENSION then mem
                         else if PB_LTYPE type = PB_LTYPE_SUBMESSAGE \<and> PB_ATYPE type \<noteq> PB_ATYPE_CALLBACK
                         then release_submessages release iter mem else mem)
              in if PB_ATYPE type = PB_ATYPE_POINTER then release_pointer M iter mem else mem)"

primrec release_loop :: "pb_malloc \<Rightarrow> message_release \<Rightarrow> nat \<Rightarrow> pb_field_iter \<Rightarrow> bytes \<Rightarrow> bytes" where
  "release_loop M release 0 iter mem = mem"
| "release_loop M release (Suc n) iter mem =
     (let mem = pb_release_single_field M release iter mem
      in case pb_field_iter_next iter of
           (True, iter) \<Rightarrow> release_loop M release n iter mem
         | (False, _) \<Rightarrow> mem)"

definition release_message :: "pb_malloc \<Rightarrow> message_release \<Rightarrow> message_release" where
  "release_message M release fs dest mem =
     (if dest = 0 then mem
      else case pb_field_iter_begin fs dest of
             (False, _) \<Rightarrow> mem
           | (True, iter) \<Rightarrow> release_loop M release (length fs) iter mem)"

primrec release_depth :: "pb_malloc \<Rightarrow> nat \<Rightarrow> message_release" where
  "release_depth M 0 = (\<lambda>fs dest mem. mem)"
| "release_depth M (Suc n) = release_message M (release_depth M n)"

definition pb_release :: "pb_malloc \<Rightarrow> message_release" where
  "pb_release M fs = release_depth M (depth fs) fs"

end
