(* ===== verification/Pb_Decode.thy ===== *)
theory Pb_Decode
  imports Pb_Release
begin

text \<open>
  The decoder of messages (\<open>pb_decode.c\<close>) for static fields, pointer fields and callback fields
  without a callback. The state is the stream and the memory, and the allocator is the
  parameter \<open>M\<close>. No extension is registered: the list of extensions of a message is null.

  A submessage is decoded by the function itself; as descriptors nest finitely, the
  function is defined by recursion on the depth of the nesting.
\<close>

section \<open>Defaults\<close>

text \<open>
  The pointer of a descriptor is the fields of a submessage, or the default value of any
  other field, or null; a submessage without fields is an invalid descriptor.
\<close>

type_synonym message_defaults = "pb_field list \<Rightarrow> nat \<Rightarrow> bytes \<Rightarrow> bytes"

definition pb_field_set_to_default :: "message_defaults \<Rightarrow> pb_field_iter \<Rightarrow> bytes \<Rightarrow> bytes" where
  "pb_field_set_to_default defaults iter mem =
     (let f = it_field iter; type = fld_type f; pData = it_pData iter; pSize = it_pSize iter
      in if PB_LTYPE type = PB_LTYPE_EXTENSION then mem
         else if PB_ATYPE type = PB_ATYPE_STATIC then
           (let (init_data, mem) =
              (if PB_HTYPE type = PB_HTYPE_OPTIONAL \<and> pSize \<noteq> pData then (True, poke mem pSize [0])
               else if PB_HTYPE type = PB_HTYPE_REPEATED \<or> PB_HTYPE type = PB_HTYPE_ONEOF
               then (False, store mem pSize (0 :: u32))
               else (True, mem))
            in if init_data then
                 (if PB_LTYPE type = PB_LTYPE_SUBMESSAGE
                  then (case fld_ptr f of Fields gs \<Rightarrow> defaults gs pData mem | _ \<Rightarrow> mem)
                  else (case fld_ptr f of
                          Default d \<Rightarrow> poke mem pData (take (unat (data_size f)) d)
                        | _ \<Rightarrow> poke mem pData (replicate (unat (data_size f)) 0)))
               else mem)
         else if PB_ATYPE type = PB_ATYPE_POINTER then
           (let mem = store_pointer mem pData 0
            in if PB_HTYPE type = PB_HTYPE_REPEATED \<or> PB_HTYPE type = PB_HTYPE_ONEOF
               then store mem pSize (0 :: u32) else mem)
         else mem)"

primrec defaults_loop :: "message_defaults \<Rightarrow> nat \<Rightarrow> pb_field_iter \<Rightarrow> bytes \<Rightarrow> bytes" where
  "defaults_loop defaults 0 iter mem = mem"
| "defaults_loop defaults (Suc n) iter mem =
     (let mem = pb_field_set_to_default defaults iter mem
      in case pb_field_iter_next iter of
           (True, iter) \<Rightarrow> defaults_loop defaults n iter mem
         | (False, _) \<Rightarrow> mem)"

definition message_set_to_defaults :: "message_defaults \<Rightarrow> message_defaults" where
  "message_set_to_defaults defaults fs dest mem =
     (case pb_field_iter_begin fs dest of
        (False, _) \<Rightarrow> mem
      | (True, iter) \<Rightarrow> defaults_loop defaults (length fs) iter mem)"

primrec defaults_depth :: "nat \<Rightarrow> message_defaults" where
  "defaults_depth 0 = (\<lambda>fs dest mem. mem)"
| "defaults_depth (Suc n) = message_set_to_defaults (defaults_depth n)"

definition pb_message_set_to_defaults :: message_defaults where
  "pb_message_set_to_defaults fs = defaults_depth (depth fs) fs"

section \<open>Values\<close>

type_synonym 's dstate = "'s pb_istream \<times> bytes"
type_synonym 's message_decoder = "pb_field list \<Rightarrow> nat \<Rightarrow> 's dstate \<Rightarrow> bool \<times> 's dstate"

definition with_stream ::
  "('s pb_istream \<Rightarrow> 'a option \<times> 's pb_istream) \<Rightarrow> 's dstate \<Rightarrow> ('a \<Rightarrow> 's dstate \<Rightarrow> bool \<times> 's dstate) \<Rightarrow> bool \<times> 's dstate" where
  "with_stream f s k =
     (case f (fst s) of (None, st) \<Rightarrow> (False, st, snd s) | (Some x, st) \<Rightarrow> k x (st, snd s))"

definition dec_error :: "string \<Rightarrow> 's dstate \<Rightarrow> bool \<times> 's dstate" where
  "dec_error msg s = (False, (fst s)\<lparr>is_errmsg := PB_SET_ERROR msg (is_errmsg (fst s))\<rparr>, snd s)"

text \<open>Storing a value, and the check of the code that it survived the cast.\<close>

definition store_checked :: "bool \<Rightarrow> nat \<Rightarrow> 'a :: len word \<Rightarrow> 's dstate \<Rightarrow> bool \<times> 's dstate" where
  "store_checked same dest v s =
     (let s = (fst s, store (snd s) dest v)
      in if \<not> same then dec_error ''integer too large'' s else (True, s))"

definition pb_dec_bool :: "nat \<Rightarrow> 's dstate \<Rightarrow> bool \<times> 's dstate" where
  "pb_dec_bool dest s =
     with_stream pb_decode_varint32 s (\<lambda>v s. (True, fst s, poke (snd s) dest [if v \<noteq> 0 then 1 else 0]))"

text \<open>Storing a signed 64-bit number into a field of 8, 4, 2 or 1 bytes.\<close>

definition store_signed :: "pb_field \<Rightarrow> nat \<Rightarrow> u64 \<Rightarrow> 's dstate \<Rightarrow> bool \<times> 's dstate" where
  "store_signed f dest svalue s =
     (if data_size f = 8 then store_checked True dest svalue s
      else if data_size f = 4 then store_checked (scast (ucast svalue :: u32) = svalue) dest (ucast svalue :: u32) s
      else if data_size f = 2 then store_checked (scast (ucast svalue :: u16) = svalue) dest (ucast svalue :: u16) s
      else if data_size f = 1 then store_checked (scast (ucast svalue :: byte) = svalue) dest (ucast svalue :: byte) s
      else dec_error ''invalid data_size'' s)"

definition pb_dec_varint :: "pb_field \<Rightarrow> nat \<Rightarrow> 's dstate \<Rightarrow> bool \<times> 's dstate" where
  "pb_dec_varint f dest s =
     with_stream pb_decode_varint s (\<lambda>v s.
       let svalue = (if data_size f = 8 then v else scast (ucast v :: u32))
       in store_signed f dest svalue s)"

definition pb_dec_uvarint :: "pb_field \<Rightarrow> nat \<Rightarrow> 's dstate \<Rightarrow> bool \<times> 's dstate" where
  "pb_dec_uvarint f dest s =
     with_stream pb_decode_varint s (\<lambda>v s.
       if data_size f = 8 then store_checked True dest v s
       else if data_size f = 4 then store_checked (ucast (ucast v :: u32) = v) dest (ucast v :: u32) s
       else if data_size f = 2 then store_checked (ucast (ucast v :: u16) = v) dest (ucast v :: u16) s
       else if data_size f = 1 then store_checked (ucast (ucast v :: byte) = v) dest (ucast v :: byte) s
       else dec_error ''invalid data_size'' s)"

definition pb_dec_svarint :: "pb_field \<Rightarrow> nat \<Rightarrow> 's dstate \<Rightarrow> bool \<times> 's dstate" where
  "pb_dec_svarint f dest s = with_stream pb_decode_svarint s (\<lambda>v s. store_signed f dest v s)"

definition pb_dec_fixed32 :: "nat \<Rightarrow> 's dstate \<Rightarrow> bool \<times> 's dstate" where
  "pb_dec_fixed32 dest s = with_stream pb_decode_fixed32 s (\<lambda>v s. (True, fst s, store (snd s) dest v))"

definition pb_dec_fixed64 :: "nat \<Rightarrow> 's dstate \<Rightarrow> bool \<times> 's dstate" where
  "pb_dec_fixed64 dest s = with_stream pb_decode_fixed64 s (\<lambda>v s. (True, fst s, store (snd s) dest v))"

text \<open>\<open>pb_read\<close> into memory; a read that fails leaves it alone.\<close>

definition read_into :: "nat \<Rightarrow> nat \<Rightarrow> 's dstate \<Rightarrow> bool \<times> 's dstate" where
  "read_into dest count s = with_stream (pb_read count) s (\<lambda>buf s. (True, fst s, poke (snd s) dest buf))"

text \<open>Storage for a pointer field; the sizes are \<open>size_t\<close>.\<close>

definition allocate_field :: "pb_malloc \<Rightarrow> nat \<Rightarrow> u64 \<Rightarrow> u64 \<Rightarrow> 's dstate \<Rightarrow> bool \<times> 's dstate" where
  "allocate_field M pData n array_n s =
     (let check_limit = 0x100000000
      in if n = 0 \<or> array_n = 0 then dec_error ''invalid size'' s
         else if (n \<ge> check_limit \<or> array_n \<ge> check_limit) \<and> (- 1) div array_n < n
         then dec_error ''size too large'' s
         else (case pb_realloc M (load_pointer (snd s) pData) (unat (array_n * n)) (snd s) of
                 None \<Rightarrow> dec_error ''realloc failed'' s
               | Some (ptr, mem) \<Rightarrow> (True, fst s, store_pointer mem pData ptr)))"

text \<open>
  Where a value of \<open>bytes\<close> or \<open>string\<close> goes: into the field if it is large enough, or into new
  memory that the field points to.
\<close>

definition value_room ::
  "pb_malloc \<Rightarrow> string \<Rightarrow> pb_field \<Rightarrow> nat \<Rightarrow> u32 \<Rightarrow> u64 \<Rightarrow> 's dstate \<Rightarrow> (nat \<Rightarrow> 's dstate \<Rightarrow> bool \<times> 's dstate) \<Rightarrow> bool \<times> 's dstate" where
  "value_room M overflow f dest n alloc_size s k =
     (if PB_ATYPE (fld_type f) = PB_ATYPE_POINTER then
        (if bytes_left (fst s) < unat n then dec_error ''end-of-stream'' s
         else case allocate_field M dest alloc_size 1 s of
                (False, s) \<Rightarrow> (False, s)
              | (True, s) \<Rightarrow> k (load_pointer (snd s) dest) s)
      else if alloc_size > ucast (data_size f) then dec_error overflow s
      else k dest s)"

text \<open>The bytes of a \<open>pb_bytes_array_t\<close> begin behind its size, at offset 4.\<close>

definition pb_dec_bytes :: "pb_malloc \<Rightarrow> pb_field \<Rightarrow> nat \<Rightarrow> 's dstate \<Rightarrow> bool \<times> 's dstate" where
  "pb_dec_bytes M f dest s =
     with_stream pb_decode_varint32 s (\<lambda>n s.
       if n > PB_SIZE_MAX then dec_error ''bytes overflow'' s
       else let alloc_size = ucast n + 4
            in if ucast n > alloc_size then dec_error ''size too large'' s
               else value_room M ''bytes overflow'' f dest n alloc_size s (\<lambda>bdest s.
                      read_into (bdest + 4) (unat n) (fst s, store (snd s) bdest n)))"

definition pb_dec_string :: "pb_malloc \<Rightarrow> pb_field \<Rightarrow> nat \<Rightarrow> 's dstate \<Rightarrow> bool \<times> 's dstate" where
  "pb_dec_string M f dest s =
     with_stream pb_decode_varint32 s (\<lambda>n s.
       let alloc_size = ucast (n + 1)
       in if alloc_size < ucast n then dec_error ''size too large'' s
          else value_room M ''string overflow'' f dest n alloc_size s (\<lambda>dest s.
                 case read_into dest (unat n) s of
                   (status, st, mem) \<Rightarrow> (status, st, poke mem (dest + unat n) [0])))"

definition pb_dec_fixed_length_bytes :: "pb_field \<Rightarrow> nat \<Rightarrow> 's dstate \<Rightarrow> bool \<times> 's dstate" where
  "pb_dec_fixed_length_bytes f dest s =
     with_stream pb_decode_varint32 s (\<lambda>n s.
       if n > PB_SIZE_MAX then dec_error ''bytes overflow'' s
       else if n = 0 then (True, fst s, poke (snd s) dest (replicate (unat (data_size f)) 0))
       else if n \<noteq> data_size f then dec_error ''incorrect fixed length bytes size'' s
       else read_into dest (unat (data_size f)) s)"

text \<open>Work on a substream, which is closed whatever its outcome.\<close>

definition in_substream ::
  "'s dstate \<Rightarrow> ('s pb_istream \<Rightarrow> 's dstate \<Rightarrow> ('s pb_istream \<times> bool \<times> 's dstate) + ('s dstate)) \<Rightarrow> bool \<times> 's dstate" where
  \<comment> \<open>the work gives the substream, the status and the state to close with, or fails at once\<close>
  "in_substream s work =
     with_stream pb_make_string_substream s (\<lambda>substream s.
       case work substream s of
         Inr s \<Rightarrow> (False, s)
       | Inl (substream, status, s) \<Rightarrow>
           (case pb_close_string_substream (fst s) substream of
              (None, st) \<Rightarrow> (False, st, snd s)
            | (Some _, st) \<Rightarrow> (status, st, snd s)))"

text \<open>\<open>pb_decode\<close>, given the function for \<open>pb_decode_noinit\<close>.\<close>

definition decode_init :: "pb_malloc \<Rightarrow> 's message_decoder \<Rightarrow> 's message_decoder" where
  "decode_init M noinit fs dest s =
     (case noinit fs dest (fst s, pb_message_set_to_defaults fs dest (snd s)) of
        (True, s) \<Rightarrow> (True, s)
      | (False, st, mem) \<Rightarrow> (False, st, pb_release M fs dest mem))"

definition pb_dec_submessage ::
  "pb_malloc \<Rightarrow> 's message_decoder \<Rightarrow> pb_field \<Rightarrow> nat \<Rightarrow> 's dstate \<Rightarrow> bool \<times> 's dstate" where
  "pb_dec_submessage M noinit f dest s =
     in_substream s (\<lambda>substream s.
       case fld_ptr f of
         Fields gs \<Rightarrow>
           (case (if PB_HTYPE (fld_type f) = PB_HTYPE_REPEATED then decode_init M noinit else noinit)
                   gs dest (substream, snd s) of
              (status, substream, mem) \<Rightarrow> Inl (substream, status, fst s, mem))
       | _ \<Rightarrow> Inr (snd (dec_error ''invalid field descriptor'' s)))"

text \<open>
  The table \<open>PB_DECODERS\<close>. It has no decoder for an extension, and the generator writes no
  other type: the last case is never called.
\<close>

definition PB_DECODERS :: "pb_malloc \<Rightarrow> 's message_decoder \<Rightarrow> pb_field \<Rightarrow> nat \<Rightarrow> 's dstate \<Rightarrow> bool \<times> 's dstate" where
  "PB_DECODERS M noinit f dest s =
     (let ltype = PB_LTYPE (fld_type f)
      in if ltype = PB_LTYPE_BOOL then pb_dec_bool dest s
         else if ltype = PB_LTYPE_VARINT then pb_dec_varint f dest s
         else if ltype = PB_LTYPE_UVARINT then pb_dec_uvarint f dest s
         else if ltype = PB_LTYPE_SVARINT then pb_dec_svarint f dest s
         else if ltype = PB_LTYPE_FIXED32 then pb_dec_fixed32 dest s
         else if ltype = PB_LTYPE_FIXED64 then pb_dec_fixed64 dest s
         else if ltype = PB_LTYPE_BYTES then pb_dec_bytes M f dest s
         else if ltype = PB_LTYPE_STRING then pb_dec_string M f dest s
         else if ltype = PB_LTYPE_SUBMESSAGE then pb_dec_submessage M noinit f dest s
         else if ltype = PB_LTYPE_FIXED_LENGTH_BYTES then pb_dec_fixed_length_bytes f dest s
         else (False, s))"

section \<open>Fields\<close>

text \<open>
  Where the count of a repeated field is: in the message, or for a field with a fixed count
  in the local variable of \<open>pb_decode_noinit\<close>, which is a component of the state.
\<close>

type_synonym 's fstate = "'s pb_istream \<times> bytes \<times> u32"

definition get_count :: "nat option \<Rightarrow> bytes \<Rightarrow> u32 \<Rightarrow> u32" where
  "get_count loc mem local = (case loc of Some a \<Rightarrow> load mem a | None \<Rightarrow> local)"

definition set_count :: "nat option \<Rightarrow> u32 \<Rightarrow> bytes \<Rightarrow> u32 \<Rightarrow> bytes \<times> u32" where
  "set_count loc n mem local = (case loc of Some a \<Rightarrow> (store mem a n, local) | None \<Rightarrow> (mem, n))"

text \<open>
  The loop over a packed array; an entry has at least one byte, so as many turns as bytes
  are enough.
\<close>

primrec packed_loop ::
  "pb_malloc \<Rightarrow> 's message_decoder \<Rightarrow> pb_field_iter \<Rightarrow> nat option \<Rightarrow> nat \<Rightarrow> 's fstate \<Rightarrow> bool \<times> 's fstate" where
  "packed_loop M noinit iter loc 0 s = (True, s)"
| "packed_loop M noinit iter loc (Suc turns) s =
     (case s of (substream, mem, local) \<Rightarrow>
        let f = it_field iter; n = get_count loc mem local
        in if bytes_left substream > 0 \<and> n < array_size f then
             (case PB_DECODERS M noinit f (it_pData iter + unat (data_size f * n)) (substream, mem) of
                (False, substream, mem) \<Rightarrow> (False, substream, mem, local)
              | (True, substream, mem) \<Rightarrow>
                  packed_loop M noinit iter loc turns
                    (substream, set_count loc (get_count loc mem local + 1) mem local))
           else (True, s))"

definition lift_local :: "u32 \<Rightarrow> bool \<times> 's dstate \<Rightarrow> bool \<times> 's fstate" where
  "lift_local local r = (fst r, fst (snd r), snd (snd r), local)"

definition decode_static_field ::
  "pb_malloc \<Rightarrow> 's message_decoder \<Rightarrow> u32 \<Rightarrow> pb_field_iter \<Rightarrow> nat option \<Rightarrow> 's fstate \<Rightarrow> bool \<times> 's fstate" where
  "decode_static_field M noinit wire_type iter loc s =
     (case s of (st, mem, local) \<Rightarrow>
        let f = it_field iter; type = fld_type f; pData = it_pData iter; pSize = it_pSize iter
        in if PB_HTYPE type = PB_HTYPE_REQUIRED then
             lift_local local (PB_DECODERS M noinit f pData (st, mem))
           else if PB_HTYPE type = PB_HTYPE_OPTIONAL then
             (let mem = (if pSize \<noteq> pData then poke mem pSize [1] else mem)
              in lift_local local (PB_DECODERS M noinit f pData (st, mem)))
           else if PB_HTYPE type = PB_HTYPE_REPEATED then
             (if wire_type = PB_WT_STRING \<and> PB_LTYPE type \<le> PB_LTYPE_LAST_PACKABLE then
                (case pb_make_string_substream st of
                   (None, st) \<Rightarrow> (False, st, mem, local)
                 | (Some substream, st) \<Rightarrow>
                     (case packed_loop M noinit iter loc (bytes_left substream) (substream, mem, local) of
                        (status, substream, mem, local) \<Rightarrow>
                          if bytes_left substream \<noteq> 0 then lift_local local (dec_error ''array overflow'' (st, mem))
                          else (case pb_close_string_substream st substream of
                                  (None, st) \<Rightarrow> (False, st, mem, local)
                                | (Some _, st) \<Rightarrow> (status, st, mem, local))))
              else
                (let n = get_count loc mem local;
                     pItem = pData + unat (data_size f * n);
                     (mem, local) = set_count loc (n + 1) mem local
                 in if n \<ge> array_size f then lift_local local (dec_error ''array overflow'' (st, mem))
                    else lift_local local (PB_DECODERS M noinit f pItem (st, mem))))
           else
             (let mem = (if PB_LTYPE type = PB_LTYPE_SUBMESSAGE \<and> load mem pSize \<noteq> fld_tag f
                         then let mem = poke mem pData (replicate (unat (data_size f)) 0)
                              in case fld_ptr f of Fields gs \<Rightarrow> pb_message_set_to_defaults gs pData mem | _ \<Rightarrow> mem
                         else mem);
                  mem = store mem pSize (fld_tag f)
              in lift_local local (PB_DECODERS M noinit f pData (st, mem))))"

text \<open>A new item is cleared if it is a pointer or a submessage.\<close>

definition initialize_pointer_field :: "nat \<Rightarrow> pb_field \<Rightarrow> bytes \<Rightarrow> bytes" where
  "initialize_pointer_field pItem f mem =
     (if PB_LTYPE (fld_type f) = PB_LTYPE_STRING \<or> PB_LTYPE (fld_type f) = PB_LTYPE_BYTES
      then store_pointer mem pItem 0
      else if PB_LTYPE (fld_type f) = PB_LTYPE_SUBMESSAGE
      then let mem = poke mem pItem (replicate (unat (data_size f)) 0)
           in case fld_ptr f of Fields gs \<Rightarrow> pb_message_set_to_defaults gs pItem mem | _ \<Rightarrow> mem
      else mem)"

definition decode_pointer_single ::
  "pb_malloc \<Rightarrow> 's message_decoder \<Rightarrow> pb_field_iter \<Rightarrow> 's dstate \<Rightarrow> bool \<times> 's dstate" where
  "decode_pointer_single M noinit iter s =
     (case s of (st, mem) \<Rightarrow>
        let f = it_field iter; type = fld_type f; pData = it_pData iter;
            mem = (if PB_LTYPE type = PB_LTYPE_SUBMESSAGE \<and> load_pointer mem pData \<noteq> 0
                   then pb_release_single_field M (pb_release M) iter mem else mem);
            mem = (if PB_HTYPE type = PB_HTYPE_ONEOF then store mem (it_pSize iter) (fld_tag f) else mem)
        in if PB_LTYPE type = PB_LTYPE_STRING \<or> PB_LTYPE type = PB_LTYPE_BYTES
           then PB_DECODERS M noinit f pData (st, mem)
           else (case allocate_field M pData (ucast (data_size f)) 1 (st, mem) of
                   (False, s) \<Rightarrow> (False, s)
                 | (True, st, mem) \<Rightarrow>
                     (let mem = initialize_pointer_field (load_pointer mem pData) f mem
                      in PB_DECODERS M noinit f (load_pointer mem pData) (st, mem))))"

text \<open>
  The loop over a packed array that grows. An entry has at least one byte, so as many turns as
  bytes are enough. The error of an array that is too long is noted in the stream \<open>st\<close>
  that the substream \<open>sub\<close> is a part of.
\<close>

primrec pointer_loop ::
  "pb_malloc \<Rightarrow> 's message_decoder \<Rightarrow> pb_field_iter \<Rightarrow> nat option \<Rightarrow> nat \<Rightarrow> u64 \<Rightarrow> 's pb_istream \<times> 's fstate \<Rightarrow>
   bool \<times> 's pb_istream \<times> 's fstate" where
  "pointer_loop M noinit iter loc 0 allocated_size s = (True, s)"
| "pointer_loop M noinit iter loc (Suc turns) allocated_size s =
     (case s of (st, sub, mem, local) \<Rightarrow>
        let f = it_field iter; pData = it_pData iter; n = get_count loc mem local;
            remain = of_nat ((bytes_left sub - 1) div unat (data_size f) + 1) :: u64;
            grow = ucast n + 1 > allocated_size;
            allocated_size =
              (if grow then (if remain < ucast PB_SIZE_MAX - allocated_size then allocated_size + remain
                             else allocated_size + 1) else allocated_size)
        in if bytes_left sub = 0 then (True, s)
           else if n = PB_SIZE_MAX then (False, st\<lparr>is_errmsg := Some ''too many array entries''\<rparr>, sub, mem, local)
           else case (if grow then allocate_field M pData (ucast (data_size f)) allocated_size (sub, mem)
                      else (True, sub, mem)) of
                  (False, sub, mem) \<Rightarrow> (False, st, sub, mem, local)
                | (True, sub, mem) \<Rightarrow>
                    (let pItem = load_pointer mem pData + unat (data_size f * get_count loc mem local)
                     in if pItem = 0 then (False, st, sub, mem, local)
                        else case PB_DECODERS M noinit f pItem (sub, initialize_pointer_field pItem f mem) of
                               (False, sub, mem) \<Rightarrow> (False, st, sub, mem, local)
                             | (True, sub, mem) \<Rightarrow>
                                 pointer_loop M noinit iter loc turns allocated_size
                                   (st, sub, set_count loc (get_count loc mem local + 1) mem local)))"

definition decode_pointer_field ::
  "pb_malloc \<Rightarrow> 's message_decoder \<Rightarrow> u32 \<Rightarrow> pb_field_iter \<Rightarrow> nat option \<Rightarrow> 's fstate \<Rightarrow> bool \<times> 's fstate" where
  "decode_pointer_field M noinit wire_type iter loc s =
     (case s of (st, mem, local) \<Rightarrow>
        let f = it_field iter; type = fld_type f; pData = it_pData iter; n = get_count loc mem local
        in if PB_HTYPE type = PB_HTYPE_REQUIRED \<or> PB_HTYPE type = PB_HTYPE_OPTIONAL \<or> PB_HTYPE type = PB_HTYPE_ONEOF
           then lift_local local (decode_pointer_single M noinit iter (st, mem))
           else if wire_type = PB_WT_STRING \<and> PB_LTYPE type \<le> PB_LTYPE_LAST_PACKABLE then
             (case pb_make_string_substream st of
                (None, st) \<Rightarrow> (False, st, mem, local)
              | (Some sub, st) \<Rightarrow>
                  (case pointer_loop M noinit iter loc (bytes_left sub) (ucast n) (st, sub, mem, local) of
                     (status, st, sub, mem, local) \<Rightarrow>
                       (case pb_close_string_substream st sub of
                          (None, st) \<Rightarrow> (False, st, mem, local)
                        | (Some _, st) \<Rightarrow> (status, st, mem, local))))
           else if n = PB_SIZE_MAX then lift_local local (dec_error ''too many array entries'' (st, mem))
           else (case allocate_field M pData (ucast (data_size f)) (ucast (n + 1)) (st, mem) of
                   (False, s) \<Rightarrow> lift_local local (False, s)
                 | (True, st, mem) \<Rightarrow>
                     (let n = get_count loc mem local;
                          pItem = load_pointer mem pData + unat (data_size f * n)
                      in case set_count loc (n + 1) mem local of
                           (mem, local) \<Rightarrow>
                             lift_local local
                               (PB_DECODERS M noinit f pItem (st, initialize_pointer_field pItem f mem)))))"

text \<open>A null callback: the field is skipped.\<close>

definition decode_callback_field :: "u32 \<Rightarrow> 's fstate \<Rightarrow> bool \<times> 's fstate" where
  "decode_callback_field wire_type s =
     (case s of (st, mem, local) \<Rightarrow>
        lift_local local (with_stream (pb_skip_field wire_type) (st, mem) (\<lambda>_ s. (True, s))))"

text \<open>
  Before a member of a union is decoded, the member that is in it is released. The search for
  that member moves the iterator, and a second search moves it back.
\<close>

definition pb_release_union_field ::
  "pb_malloc \<Rightarrow> pb_field_iter \<Rightarrow> 's dstate \<Rightarrow> bool \<times> pb_field_iter \<times> 's dstate" where
  "pb_release_union_field M iter s =
     (let old_tag = load (snd s) (it_pSize iter); new_tag = fld_tag (it_field iter)
      in if old_tag = 0 \<or> old_tag = new_tag then (True, iter, s)
         else case pb_field_iter_find iter old_tag of
                (False, iter) \<Rightarrow> (False, iter, snd (dec_error ''invalid union tag'' s))
              | (True, iter) \<Rightarrow>
                  (let s = (fst s, pb_release_single_field M (pb_release M) iter (snd s))
                   in case pb_field_iter_find iter new_tag of
                        (False, iter) \<Rightarrow> (False, iter, snd (dec_error ''iterator error'' s))
                      | (True, iter) \<Rightarrow>
                          (True, iter, fst s,
                            if PB_ATYPE (fld_type (it_field iter)) = PB_ATYPE_POINTER
                            then store_pointer (snd s) (it_pData iter) 0 else snd s)))"

text \<open>The counter of a field with a fixed count is local.\<close>

definition decode_field ::
  "pb_malloc \<Rightarrow> 's message_decoder \<Rightarrow> u32 \<Rightarrow> bool \<Rightarrow> pb_field_iter \<Rightarrow> 's fstate \<Rightarrow> bool \<times> pb_field_iter \<times> 's fstate" where
  "decode_field M noinit wire_type fixed iter s =
     (case s of (st, mem, local) \<Rightarrow>
        case (if PB_HTYPE (fld_type (it_field iter)) = PB_HTYPE_ONEOF
              then pb_release_union_field M iter (st, mem) else (True, iter, st, mem)) of
          (False, iter, st, mem) \<Rightarrow> (False, iter, st, mem, local)
        | (True, iter, st, mem) \<Rightarrow>
            (let atype = PB_ATYPE (fld_type (it_field iter));
                 loc = (if fixed then None else Some (it_pSize iter));
                 s = (st, mem, local)
             in (case (if atype = PB_ATYPE_STATIC then decode_static_field M noinit wire_type iter loc s
                       else if atype = PB_ATYPE_POINTER then decode_pointer_field M noinit wire_type iter loc s
                       else if atype = PB_ATYPE_CALLBACK then decode_callback_field wire_type s
                       else lift_local local (dec_error ''invalid field type'' (st, mem))) of
                   (ok, s) \<Rightarrow> (ok, iter, s))))"

section \<open>Messages\<close>

record dec_loop =
  dl_iter :: pb_field_iter
  fields_seen :: "u32 list"
  extension_range_start :: u32
  fixed_count_field :: "nat option"
  fixed_count_size :: u32

datatype turn = Go | Stop | Fail

text \<open>The array with a fixed count that is being decoded does not have all its items.\<close>

definition wrong_fixed_count :: "dec_loop \<Rightarrow> bool" where
  "wrong_fixed_count l \<longleftrightarrow>
     (case fixed_count_field l of
        None \<Rightarrow> False
      | Some p \<Rightarrow> fixed_count_size l \<noteq> array_size (it_start (dl_iter l) ! p))"

text \<open>A field that is not of the message: with no extension registered it is skipped.\<close>

definition unknown_field ::
  "u32 \<Rightarrow> u32 \<Rightarrow> dec_loop \<Rightarrow> 's dstate \<Rightarrow> turn \<times> dec_loop \<times> 's dstate" where
  "unknown_field wire_type tag l s =
     (let l = (if tag \<ge> extension_range_start l
               then (case find_extension_field (dl_iter l) of
                       (False, iter) \<Rightarrow> l\<lparr>dl_iter := iter, extension_range_start := 0xffffffff\<rparr>
                     | (True, iter) \<Rightarrow> l\<lparr>dl_iter := iter, extension_range_start := fld_tag (it_field iter)\<rparr>)
               else l)
      in case with_stream (pb_skip_field wire_type) s (\<lambda>_ s. (True, s)) of
           (ok, s) \<Rightarrow> (if ok then Go else Fail, l, s))"

definition see_required :: "pb_field_iter \<Rightarrow> u32 list \<Rightarrow> u32 list" where
  "see_required iter seen =
     (let i = required_field_index iter
      in if PB_HTYPE (fld_type (it_field iter)) = PB_HTYPE_REQUIRED \<and> i < PB_MAX_REQUIRED_FIELDS
         then seen[i div 32 := seen ! (i div 32) OR push_bit (i mod 32) 1] else seen)"

text \<open>
  The iterator keeps the place of a count in the message; the code puts the address of the local
  counter into it for as long as it stays on a field with a fixed count.
\<close>

definition known_field ::
  "pb_malloc \<Rightarrow> 's message_decoder \<Rightarrow> u32 \<Rightarrow> dec_loop \<Rightarrow> 's dstate \<Rightarrow> turn \<times> dec_loop \<times> 's dstate" where
  "known_field M noinit wire_type l s =
     (let iter = dl_iter l; pos = it_pos iter;
          fixed = PB_HTYPE (fld_type (it_field iter)) = PB_HTYPE_REPEATED \<and> it_pSize iter = it_pData iter;
          new = fixed \<and> fixed_count_field l \<noteq> Some pos
      in if new \<and> wrong_fixed_count l
         then (Fail, l, snd (dec_error ''wrong size for fixed count field'' s))
         else
           let l = (if new then l\<lparr>fixed_count_field := Some pos, fixed_count_size := 0\<rparr> else l);
               l = l\<lparr>fields_seen := see_required iter (fields_seen l)\<rparr>
           in case decode_field M noinit wire_type fixed iter (fst s, snd s, fixed_count_size l) of
                (ok, iter, st, mem, local) \<Rightarrow>
                  (if ok then Go else Fail, l\<lparr>dl_iter := iter, fixed_count_size := local\<rparr>, st, mem))"

definition decode_turn ::
  "pb_malloc \<Rightarrow> 's message_decoder \<Rightarrow> dec_loop \<Rightarrow> 's dstate \<Rightarrow> turn \<times> dec_loop \<times> 's dstate" where
  "decode_turn M noinit l s =
     (case pb_decode_tag (fst s) of
        (eof, None, st) \<Rightarrow> (if eof then Stop else Fail, l, st, snd s)
      | (eof, Some (wire_type, tag), st) \<Rightarrow>
          (case pb_field_iter_find (dl_iter l) tag of
             (False, iter) \<Rightarrow> unknown_field wire_type tag (l\<lparr>dl_iter := iter\<rparr>) (st, snd s)
           | (True, iter) \<Rightarrow> known_field M noinit wire_type (l\<lparr>dl_iter := iter\<rparr>) (st, snd s)))"

text \<open>A turn reads at least the tag, so there are at most as many as bytes.\<close>

primrec fields_loop ::
  "pb_malloc \<Rightarrow> 's message_decoder \<Rightarrow> nat \<Rightarrow> dec_loop \<Rightarrow> 's dstate \<Rightarrow> turn \<times> dec_loop \<times> 's dstate" where
  "fields_loop M noinit 0 l s = (Stop, l, s)"
| "fields_loop M noinit (Suc n) l s =
     (if bytes_left (fst s) = 0 then (Stop, l, s)
      else (case decode_turn M noinit l s of
              (Go, l, s) \<Rightarrow> fields_loop M noinit n l s
            | (t, l, s) \<Rightarrow> (t, l, s)))"

text \<open>The number of required fields and the type of the last field, from the end of the list.\<close>

primrec seek_end :: "nat \<Rightarrow> pb_field_iter \<Rightarrow> nat \<times> byte \<times> pb_field_iter" where
  "seek_end 0 iter = (required_field_index iter, fld_type (it_field iter), iter)"
| "seek_end (Suc n) iter =
     (case pb_field_iter_next iter of
        (True, iter') \<Rightarrow> seek_end n iter'
      | (False, iter') \<Rightarrow> (required_field_index iter, fld_type (it_field iter), iter'))"

definition req_field_count :: "pb_field_iter \<Rightarrow> nat" where
  "req_field_count iter =
     (case seek_end (length (it_start iter)) iter of
        (n, last_type, iter) \<Rightarrow>
          let n = (if PB_HTYPE last_type = PB_HTYPE_REQUIRED \<and> fld_tag (it_field iter) \<noteq> 0 then n + 1 else n)
          in if n > PB_MAX_REQUIRED_FIELDS then PB_MAX_REQUIRED_FIELDS else n)"

definition all_seen :: "nat \<Rightarrow> u32 list \<Rightarrow> bool" where
  "all_seen n seen \<longleftrightarrow>
     (\<forall>i \<in> set [0..<n div 32]. seen ! i = 0xffffffff) \<and>
     (n mod 32 \<noteq> 0 \<longrightarrow> seen ! (n div 32) = drop_bit (32 - n mod 32) 0xffffffff)"

definition decode_end :: "dec_loop \<Rightarrow> 's dstate \<Rightarrow> bool \<times> 's dstate" where
  "decode_end l s =
     (if wrong_fixed_count l
      then dec_error ''wrong size for fixed count field'' s
      else if \<not> all_seen (req_field_count (dl_iter l)) (fields_seen l)
      then dec_error ''missing required field'' s
      else (True, s))"

definition decode_noinit :: "pb_malloc \<Rightarrow> 's message_decoder \<Rightarrow> 's message_decoder" where
  "decode_noinit M noinit fs dest s =
     (let l = \<lparr>dl_iter = snd (pb_field_iter_begin fs dest), fields_seen = [0, 0], extension_range_start = 0,
               fixed_count_field = None, fixed_count_size = 0\<rparr>
      in case fields_loop M noinit (bytes_left (fst s)) l s of
           (Fail, _, s) \<Rightarrow> (False, s)
         | (_, l, s) \<Rightarrow> decode_end l s)"

primrec decode_depth :: "pb_malloc \<Rightarrow> nat \<Rightarrow> 's message_decoder" where
  "decode_depth M 0 = (\<lambda>fs dest s. (False, s))"
| "decode_depth M (Suc n) = decode_noinit M (decode_depth M n)"

definition pb_decode_noinit :: "pb_malloc \<Rightarrow> 's message_decoder" where
  "pb_decode_noinit M fs = decode_depth M (depth fs) fs"

definition pb_decode :: "pb_malloc \<Rightarrow> 's message_decoder" where
  "pb_decode M = decode_init M (pb_decode_noinit M)"

text \<open>A message with its length in front.\<close>

definition decode_delimited :: "'s message_decoder \<Rightarrow> 's message_decoder" where
  "decode_delimited dec fs dest s =
     in_substream s (\<lambda>substream s.
       case dec fs dest (substream, snd s) of
         (status, substream, mem) \<Rightarrow> Inl (substream, status, fst s, mem))"

definition pb_decode_delimited_noinit :: "pb_malloc \<Rightarrow> 's message_decoder" where
  "pb_decode_delimited_noinit M = decode_delimited (pb_decode_noinit M)"

definition pb_decode_delimited :: "pb_malloc \<Rightarrow> 's message_decoder" where
  "pb_decode_delimited M = decode_delimited (pb_decode M)"

definition pb_decode_nullterminated :: "pb_malloc \<Rightarrow> 's message_decoder" where
  "pb_decode_nullterminated M = pb_decode M"

end
