(* ===== verification/Pb_Encode.thy ===== *)
theory Pb_Encode
  imports Pb_Decode
begin

text \<open>
  The encoder of messages (\<open>pb_encode.c\<close>). The memory \<open>mem\<close> is only read; the state is the
  output stream. A pointer in the memory is an address of it. Callbacks are null and no
  extension is registered.
\<close>

type_synonym 's message_encoder = "pb_field list \<Rightarrow> nat \<Rightarrow> 's pb_ostream \<Rightarrow> bool \<times> 's pb_ostream"

definition safe_read_bool :: "bytes \<Rightarrow> nat \<Rightarrow> bool" where
  "safe_read_bool mem pSize \<longleftrightarrow> (\<exists>b \<in> set (take 1 (drop pSize mem)). b \<noteq> 0)"

section \<open>Values\<close>

definition pb_enc_bool :: "bytes \<Rightarrow> nat \<Rightarrow> 's pb_ostream \<Rightarrow> bool \<times> 's pb_ostream" where
  "pb_enc_bool mem src st = pb_encode_varint (if safe_read_bool mem src then 1 else 0) st"

text \<open>The signed number in a field of 1, 2, 4 or 8 bytes.\<close>

definition load_signed :: "bytes \<Rightarrow> nat \<Rightarrow> u32 \<Rightarrow> u64 option" where
  "load_signed mem src n =
     (if n = 1 then Some (scast (load mem src :: byte))
      else if n = 2 then Some (scast (load mem src :: u16))
      else if n = 4 then Some (scast (load mem src :: u32))
      else if n = 8 then Some (load mem src)
      else None)"

definition pb_enc_varint :: "bytes \<Rightarrow> pb_field \<Rightarrow> nat \<Rightarrow> 's pb_ostream \<Rightarrow> bool \<times> 's pb_ostream" where
  "pb_enc_varint mem f src st =
     (case load_signed mem src (data_size f) of
        None \<Rightarrow> PB_FAIL ''invalid data_size'' st
      | Some v \<Rightarrow> pb_encode_varint v st)"

definition pb_enc_uvarint :: "bytes \<Rightarrow> pb_field \<Rightarrow> nat \<Rightarrow> 's pb_ostream \<Rightarrow> bool \<times> 's pb_ostream" where
  "pb_enc_uvarint mem f src st =
     (if data_size f = 1 then pb_encode_varint (ucast (load mem src :: byte)) st
      else if data_size f = 2 then pb_encode_varint (ucast (load mem src :: u16)) st
      else if data_size f = 4 then pb_encode_varint (ucast (load mem src :: u32)) st
      else if data_size f = 8 then pb_encode_varint (load mem src) st
      else PB_FAIL ''invalid data_size'' st)"

definition pb_enc_svarint :: "bytes \<Rightarrow> pb_field \<Rightarrow> nat \<Rightarrow> 's pb_ostream \<Rightarrow> bool \<times> 's pb_ostream" where
  "pb_enc_svarint mem f src st =
     (case load_signed mem src (data_size f) of
        None \<Rightarrow> PB_FAIL ''invalid data_size'' st
      | Some v \<Rightarrow> pb_encode_svarint v st)"

definition pb_enc_fixed32 :: "bytes \<Rightarrow> nat \<Rightarrow> 's pb_ostream \<Rightarrow> bool \<times> 's pb_ostream" where
  "pb_enc_fixed32 mem src st = pb_encode_fixed32 (load mem src) st"

definition pb_enc_fixed64 :: "bytes \<Rightarrow> nat \<Rightarrow> 's pb_ostream \<Rightarrow> bool \<times> 's pb_ostream" where
  "pb_enc_fixed64 mem src st = pb_encode_fixed64 (load mem src) st"

definition pb_enc_bytes :: "bytes \<Rightarrow> pb_field \<Rightarrow> nat \<Rightarrow> 's pb_ostream \<Rightarrow> bool \<times> 's pb_ostream" where
  "pb_enc_bytes mem f src st =
     (if src = 0 then pb_encode_string [] 0 st
      else let n = load mem src :: u32
           in if PB_ATYPE (fld_type f) = PB_ATYPE_STATIC \<and> ucast n > (ucast (data_size f) - 4 :: u64)
              then PB_FAIL ''bytes size exceeded'' st
              else pb_encode_string (peek mem (src + 4) (unat n)) (unat n) st)"

definition pb_enc_string :: "bytes \<Rightarrow> pb_field \<Rightarrow> nat \<Rightarrow> 's pb_ostream \<Rightarrow> bool \<times> 's pb_ostream" where
  "pb_enc_string mem f src st =
     (let n = (if src = 0 then 0
               else length (takeWhile (\<lambda>b. b \<noteq> 0)
                 (if PB_ATYPE (fld_type f) = PB_ATYPE_POINTER then drop src mem
                  else take (unat (data_size f)) (drop src mem))))
      in pb_encode_string (peek mem src n) n st)"

definition pb_enc_fixed_length_bytes :: "bytes \<Rightarrow> pb_field \<Rightarrow> nat \<Rightarrow> 's pb_ostream \<Rightarrow> bool \<times> 's pb_ostream" where
  "pb_enc_fixed_length_bytes mem f src st = pb_encode_string (peek mem src (unat (data_size f))) (unat (data_size f)) st"

definition pb_encode_submessage :: "'s message_encoder \<Rightarrow> 's message_encoder" where
  "pb_encode_submessage enc fs src st =
     (case enc fs src (PB_OSTREAM_SIZING (os_state st)) of
        (False, substream) \<Rightarrow> (False, st\<lparr>os_errmsg := os_errmsg substream\<rparr>)
      | (True, substream) \<Rightarrow>
          let n = bytes_written substream
          in and_also (pb_encode_varint n st) (\<lambda>st.
               if os_callback st = None then pb_write [] (unat n) st
               else if bytes_written st + n > max_size st then PB_FAIL ''stream full'' st
               else (case enc fs src (substream\<lparr>os_callback := os_callback st, os_state := os_state st,
                                       max_size := n, bytes_written := 0, os_errmsg := None\<rparr>) of
                       (status, substream) \<Rightarrow>
                         let st = st\<lparr>bytes_written := bytes_written st + bytes_written substream,
                                     os_state := os_state substream, os_errmsg := os_errmsg substream\<rparr>
                         in if bytes_written substream \<noteq> n then PB_FAIL ''submsg size changed'' st
                            else (status, st))))"

definition pb_enc_submessage :: "'s message_encoder \<Rightarrow> pb_field \<Rightarrow> nat \<Rightarrow> 's pb_ostream \<Rightarrow> bool \<times> 's pb_ostream" where
  "pb_enc_submessage enc f src st =
     (case fld_ptr f of
        Fields gs \<Rightarrow> pb_encode_submessage enc gs src st
      | _ \<Rightarrow> PB_FAIL ''invalid field descriptor'' st)"

text \<open>The table \<open>PB_ENCODERS\<close>, with no encoder for an extension or an unknown type.\<close>

definition PB_ENCODERS ::
  "bytes \<Rightarrow> 's message_encoder \<Rightarrow> pb_field \<Rightarrow> nat \<Rightarrow> 's pb_ostream \<Rightarrow> bool \<times> 's pb_ostream" where
  "PB_ENCODERS mem enc f src st =
     (let ltype = PB_LTYPE (fld_type f)
      in if ltype = PB_LTYPE_BOOL then pb_enc_bool mem src st
         else if ltype = PB_LTYPE_VARINT then pb_enc_varint mem f src st
         else if ltype = PB_LTYPE_UVARINT then pb_enc_uvarint mem f src st
         else if ltype = PB_LTYPE_SVARINT then pb_enc_svarint mem f src st
         else if ltype = PB_LTYPE_FIXED32 then pb_enc_fixed32 mem src st
         else if ltype = PB_LTYPE_FIXED64 then pb_enc_fixed64 mem src st
         else if ltype = PB_LTYPE_BYTES then pb_enc_bytes mem f src st
         else if ltype = PB_LTYPE_STRING then pb_enc_string mem f src st
         else if ltype = PB_LTYPE_SUBMESSAGE then pb_enc_submessage enc f src st
         else if ltype = PB_LTYPE_FIXED_LENGTH_BYTES then pb_enc_fixed_length_bytes mem f src st
         else (False, st))"

section \<open>Fields\<close>

definition pb_encode_tag_for_field :: "pb_field \<Rightarrow> 's pb_ostream \<Rightarrow> bool \<times> 's pb_ostream" where
  "pb_encode_tag_for_field f st =
     (let ltype = PB_LTYPE (fld_type f)
      in if ltype \<in> {PB_LTYPE_BOOL, PB_LTYPE_VARINT, PB_LTYPE_UVARINT, PB_LTYPE_SVARINT}
         then pb_encode_tag PB_WT_VARINT (fld_tag f) st
         else if ltype = PB_LTYPE_FIXED32 then pb_encode_tag PB_WT_32BIT (fld_tag f) st
         else if ltype = PB_LTYPE_FIXED64 then pb_encode_tag PB_WT_64BIT (fld_tag f) st
         else if ltype \<in> {PB_LTYPE_BYTES, PB_LTYPE_STRING, PB_LTYPE_SUBMESSAGE, PB_LTYPE_FIXED_LENGTH_BYTES}
         then pb_encode_tag PB_WT_STRING (fld_tag f) st
         else PB_FAIL ''invalid field type'' st)"

text \<open>The entries of an array, one after the other; \<open>each\<close> writes the entry at an address.\<close>

primrec encode_entries ::
  "(nat \<Rightarrow> 's pb_ostream \<Rightarrow> bool \<times> 's pb_ostream) \<Rightarrow> nat \<Rightarrow> nat \<Rightarrow> nat \<Rightarrow> 's pb_ostream \<Rightarrow> bool \<times> 's pb_ostream" where
  "encode_entries each step 0 p st = (True, st)"
| "encode_entries each step (Suc n) p st = and_also (each p st) (encode_entries each step n (p + step))"

definition encode_array ::
  "bytes \<Rightarrow> 's message_encoder \<Rightarrow> pb_field \<Rightarrow> nat \<Rightarrow> u32 \<Rightarrow> 's pb_ostream \<Rightarrow> bool \<times> 's pb_ostream" where
  "encode_array mem enc f pData count st =
     (let func = PB_ENCODERS mem enc f;
          indirect = PB_ATYPE (fld_type f) = PB_ATYPE_POINTER \<and>
            (PB_LTYPE (fld_type f) = PB_LTYPE_STRING \<or> PB_LTYPE (fld_type f) = PB_LTYPE_BYTES);
          entries = encode_entries func (unat (data_size f)) (unat count) pData
      in if count = 0 then (True, st)
         else if PB_ATYPE (fld_type f) \<noteq> PB_ATYPE_POINTER \<and> count > array_size f
         then PB_FAIL ''array max size exceeded'' st
         else if PB_LTYPE (fld_type f) \<le> PB_LTYPE_LAST_PACKABLE
         then and_also (pb_encode_tag PB_WT_STRING (fld_tag f) st) (\<lambda>st.
                case (if PB_LTYPE (fld_type f) = PB_LTYPE_FIXED32 then Some (4 * ucast count)
                      else if PB_LTYPE (fld_type f) = PB_LTYPE_FIXED64 then Some (8 * ucast count)
                      else (case entries (PB_OSTREAM_SIZING (os_state st)) of
                              (False, _) \<Rightarrow> None
                            | (True, sizestream) \<Rightarrow> Some (bytes_written sizestream))) of
                  None \<Rightarrow> (False, st)
                | Some n \<Rightarrow>
                    and_also (pb_encode_varint n st) (\<lambda>st.
                      if os_callback st = None then pb_write [] (unat n) st else entries st))
         else encode_entries (\<lambda>p st. and_also (pb_encode_tag_for_field f st)
                  (func (if indirect then unat (load mem p :: u64) else p)))
                (unat (data_size f)) (unat count) pData st)"

type_synonym default_check = "pb_field list \<Rightarrow> nat \<Rightarrow> bool"

text \<open>Whether a proto3 field is left out; \<open>sub\<close> is the check of the fields of a submessage.\<close>

definition check_default_value :: "bytes \<Rightarrow> default_check \<Rightarrow> pb_field \<Rightarrow> nat \<Rightarrow> bool" where
  "check_default_value mem sub f pData =
     (let type = fld_type f; pSize = size_address pData f;
          zero = (\<forall>b \<in> set (take (unat (data_size f)) (drop pData mem)). b = 0);
          pointer = PB_ATYPE type = PB_ATYPE_POINTER \<and> PB_LTYPE type > PB_LTYPE_LAST_PACKABLE;
          singular =
            (if PB_ATYPE type = PB_ATYPE_STATIC \<and> PB_LTYPE type = PB_LTYPE_BYTES then (load mem pData :: u32) = 0
             else if PB_ATYPE type = PB_ATYPE_STATIC \<and> PB_LTYPE type = PB_LTYPE_STRING then (load mem pData :: byte) = 0
             else if PB_ATYPE type = PB_ATYPE_STATIC \<and> PB_LTYPE type = PB_LTYPE_FIXED_LENGTH_BYTES then data_size f = 0
             else if PB_ATYPE type = PB_ATYPE_STATIC \<and> PB_LTYPE type = PB_LTYPE_SUBMESSAGE
             then (case fld_ptr f of Fields gs \<Rightarrow> sub gs pData | _ \<Rightarrow> True)
             else if pointer then (load mem pData :: u64) = 0
             else zero)
      in if PB_HTYPE type = PB_HTYPE_REQUIRED then False
         else if PB_HTYPE type = PB_HTYPE_REPEATED \<and> size_offset f \<noteq> 0 then (load mem pSize :: u32) = 0
         else if PB_HTYPE type = PB_HTYPE_REPEATED \<and> PB_ATYPE type = PB_ATYPE_STATIC then False
         else if PB_HTYPE type = PB_HTYPE_ONEOF then (load mem pSize :: u32) = 0
         else if PB_HTYPE type = PB_HTYPE_OPTIONAL \<and> size_offset f \<noteq> 0 then \<not> safe_read_bool mem pSize
         else singular)"

primrec check_loop :: "bytes \<Rightarrow> default_check \<Rightarrow> nat \<Rightarrow> pb_field_iter \<Rightarrow> bool" where
  "check_loop mem sub 0 iter = True"
| "check_loop mem sub (Suc n) iter =
     (if \<not> check_default_value mem sub (it_field iter) (it_pData iter) then False
      else case pb_field_iter_next iter of (True, iter) \<Rightarrow> check_loop mem sub n iter | (False, _) \<Rightarrow> True)"

definition check_fields :: "bytes \<Rightarrow> default_check \<Rightarrow> default_check" where
  "check_fields mem sub fs pData =
     (case pb_field_iter_begin fs pData of (False, _) \<Rightarrow> True | (True, iter) \<Rightarrow> check_loop mem sub (length fs) iter)"

primrec check_depth :: "bytes \<Rightarrow> nat \<Rightarrow> default_check" where
  "check_depth mem 0 = (\<lambda>fs pData. True)"
| "check_depth mem (Suc n) = check_fields mem (check_depth mem n)"

definition pb_check_proto3_default_value :: "bytes \<Rightarrow> pb_field \<Rightarrow> nat \<Rightarrow> bool" where
  "pb_check_proto3_default_value mem f pData = check_default_value mem (check_depth mem (depth_field f)) f pData"

definition encode_basic_field ::
  "bytes \<Rightarrow> 's message_encoder \<Rightarrow> pb_field \<Rightarrow> nat \<Rightarrow> 's pb_ostream \<Rightarrow> bool \<times> 's pb_ostream" where
  "encode_basic_field mem enc f pData st =
     (let type = fld_type f; func = PB_ENCODERS mem enc f;
          pointer = (PB_ATYPE type = PB_ATYPE_POINTER);
          pSize = size_address pData f;
          implicit_has = (if PB_HTYPE type = PB_HTYPE_OPTIONAL then \<not> pb_check_proto3_default_value mem f pData else True);
          pData = (if pointer then unat (load mem pData :: u64) else pData);
          implicit_has = (if pointer then pData \<noteq> 0 else implicit_has)
      in if PB_HTYPE type = PB_HTYPE_REQUIRED then
           (if pData = 0 then PB_FAIL ''missing required field'' st
            else and_also (pb_encode_tag_for_field f st) (func pData))
         else if PB_HTYPE type = PB_HTYPE_OPTIONAL then
           (if (if size_offset f \<noteq> 0 then safe_read_bool mem pSize else implicit_has)
            then and_also (pb_encode_tag_for_field f st) (func pData) else (True, st))
         else if PB_HTYPE type = PB_HTYPE_REPEATED then
           encode_array mem enc f pData (if size_offset f \<noteq> 0 then load mem pSize else array_size f) st
         else
           (if (load mem pSize :: u32) = fld_tag f
            then and_also (pb_encode_tag_for_field f st) (func pData) else (True, st)))"

text \<open>A null callback writes nothing.\<close>

definition encode_callback_field :: "'s pb_ostream \<Rightarrow> bool \<times> 's pb_ostream" where
  "encode_callback_field st = (True, st)"

definition encode_field ::
  "bytes \<Rightarrow> 's message_encoder \<Rightarrow> pb_field \<Rightarrow> nat \<Rightarrow> 's pb_ostream \<Rightarrow> bool \<times> 's pb_ostream" where
  "encode_field mem enc f pData st =
     (let atype = PB_ATYPE (fld_type f)
      in if atype = PB_ATYPE_STATIC \<or> atype = PB_ATYPE_POINTER then encode_basic_field mem enc f pData st
         else if atype = PB_ATYPE_CALLBACK then encode_callback_field st
         else PB_FAIL ''invalid field type'' st)"

text \<open>The null list of extensions.\<close>

definition encode_extension_field :: "'s pb_ostream \<Rightarrow> bool \<times> 's pb_ostream" where
  "encode_extension_field st = (True, st)"

section \<open>Messages\<close>

primrec encode_loop :: "bytes \<Rightarrow> 's message_encoder \<Rightarrow> nat \<Rightarrow> pb_field_iter \<Rightarrow> 's pb_ostream \<Rightarrow> bool \<times> 's pb_ostream" where
  "encode_loop mem enc 0 iter st = (True, st)"
| "encode_loop mem enc (Suc n) iter st =
     and_also
       (if PB_LTYPE (fld_type (it_field iter)) = PB_LTYPE_EXTENSION then encode_extension_field st
        else encode_field mem enc (it_field iter) (it_pData iter) st)
       (\<lambda>st. case pb_field_iter_next iter of
               (True, iter) \<Rightarrow> encode_loop mem enc n iter st
             | (False, _) \<Rightarrow> (True, st))"

definition encode_message :: "bytes \<Rightarrow> 's message_encoder \<Rightarrow> 's message_encoder" where
  "encode_message mem enc fs src st =
     (case pb_field_iter_begin fs src of
        (False, _) \<Rightarrow> (True, st)
      | (True, iter) \<Rightarrow> encode_loop mem enc (length fs) iter st)"

primrec encode_depth :: "bytes \<Rightarrow> nat \<Rightarrow> 's message_encoder" where
  "encode_depth mem 0 = (\<lambda>fs src st. (True, st))"
| "encode_depth mem (Suc n) = encode_message mem (encode_depth mem n)"

definition pb_encode :: "bytes \<Rightarrow> 's message_encoder" where
  "pb_encode mem fs = encode_depth mem (depth fs) fs"

definition pb_encode_delimited :: "bytes \<Rightarrow> 's message_encoder" where
  "pb_encode_delimited mem = pb_encode_submessage (pb_encode mem)"

definition pb_encode_nullterminated :: "bytes \<Rightarrow> 's message_encoder" where
  "pb_encode_nullterminated mem fs src st = and_also (pb_encode mem fs src st) (pb_write [0] 1)"

definition pb_get_encoded_size :: "bytes \<Rightarrow> pb_field list \<Rightarrow> nat \<Rightarrow> u64 option" where
  "pb_get_encoded_size mem fs src =
     (case pb_encode mem fs src (PB_OSTREAM_SIZING ([] :: bytes)) of
        (False, _) \<Rightarrow> None
      | (True, st) \<Rightarrow> Some (bytes_written st))"

end
