(* ===== verification/Pb_Nested.thy ===== *)
theory Pb_Nested
  imports Pb_Encode
begin

text \<open>
  The functions on messages call themselves on submessages. They are defined by recursion on the
  depth of the descriptor; here is that the depth is enough: each function is its own body with
  itself for the submessages, as the code has it. The locale \<open>nested\<close> states what such a body
  keeps to: it calls the function only on the submessages of its fields.
\<close>

section \<open>Descriptors\<close>

primrec ok_field :: "pb_field \<Rightarrow> bool" and ok_ptr :: "pb_ptr \<Rightarrow> bool" where
  "ok_field (Pb_Field _ _ _ _ _ _ p) \<longleftrightarrow> ok_ptr p"
| "ok_ptr Null \<longleftrightarrow> True"
| "ok_ptr (Default _) \<longleftrightarrow> True"
| "ok_ptr (Fields fs) \<longleftrightarrow> terminated fs \<and> list_all ok_field fs"

text \<open>The field lists of the message and of its submessages are terminated.\<close>

definition descriptor_ok :: "pb_field list \<Rightarrow> bool" where
  "descriptor_ok fs \<longleftrightarrow> terminated fs \<and> list_all ok_field fs"

lemma ok_field_ptr: "ok_field f \<longleftrightarrow> ok_ptr (fld_ptr f)"
  by (cases f) simp

lemma descriptor_ok_sub: "descriptor_ok fs \<Longrightarrow> f \<in> set fs \<Longrightarrow> fld_ptr f = Fields gs \<Longrightarrow> descriptor_ok gs"
  by (auto simp: descriptor_ok_def list_all_iff ok_field_ptr)

lemma descriptor_ok_terminated: "descriptor_ok fs \<Longrightarrow> terminated fs"
  by (simp add: descriptor_ok_def)

lemma foldr_max_member: "x \<in> set xs \<Longrightarrow> x \<le> foldr max xs (0 :: nat)"
  by (induction xs) auto

lemma depth_sub: "f \<in> set fs \<Longrightarrow> fld_ptr f = Fields gs \<Longrightarrow> depth gs < depth fs"
proof -
  assume f: "f \<in> set fs" "fld_ptr f = Fields gs"
  have "depth_field f = depth gs" using f(2) by (cases f) (simp add: depth_def)
  moreover have "depth_field f \<le> foldr max (map depth_field fs) 0" using f(1) by (intro foldr_max_member) simp
  ultimately show ?thesis by (simp add: depth_def)
qed

lemma field_in_set:
  assumes "terminated fs" "k < n_places fs"
  shows "it_field (iter_at fs dest k) \<in> set fs"
proof -
  have "k < length fs" using assms by (cases fs) (auto simp: terminated_def n_places_def n_fields_def)
  then show ?thesis by (simp add: iter_place_field [OF assms])
qed

section \<open>The contract\<close>

locale nested =
  fixes body :: "(pb_field list \<Rightarrow> 'a) \<Rightarrow> pb_field list \<Rightarrow> 'a" and rec :: "nat \<Rightarrow> pb_field list \<Rightarrow> 'a"
  assumes rec_Suc: "rec (Suc n) fs = body (rec n) fs"
    and body_cong: "terminated fs \<Longrightarrow> (\<And>f gs. f \<in> set fs \<Longrightarrow> fld_ptr f = Fields gs \<Longrightarrow> r gs = r' gs) \<Longrightarrow>
      body r fs = body r' fs"
begin

lemma rec_enough: "descriptor_ok fs \<Longrightarrow> depth fs \<le> m \<Longrightarrow> depth fs \<le> n \<Longrightarrow> rec m fs = rec n fs"
proof (induction m arbitrary: n fs)
  case (Suc m)
  then obtain n' where n: "n = Suc n'" by (cases n) (auto simp: depth_def)
  have "rec m gs = rec n' gs" if "f \<in> set fs" "fld_ptr f = Fields gs" for f gs
    using Suc n depth_sub [OF that] descriptor_ok_sub [OF Suc.prems(1) that] by simp
  then show ?case unfolding n rec_Suc by (rule body_cong [OF descriptor_ok_terminated [OF Suc.prems(1)]])
qed (simp add: depth_def)

lemma unfold:
  assumes "descriptor_ok fs"
  shows "rec (depth fs) fs = body (\<lambda>gs. rec (depth gs) gs) fs"
proof -
  obtain d where d: "depth fs = Suc d" by (simp add: depth_def)
  have "rec d gs = rec (depth gs) gs" if "f \<in> set fs" "fld_ptr f = Fields gs" for f gs
    using depth_sub [OF that] d by (intro rec_enough descriptor_ok_sub [OF assms that]) simp_all
  then show ?thesis unfolding d rec_Suc by (rule body_cong [OF descriptor_ok_terminated [OF assms]])
qed

end

section \<open>Defaults and release\<close>

lemma set_to_default_cong:
  "(\<And>gs. fld_ptr (it_field iter) = Fields gs \<Longrightarrow> r gs = r' gs) \<Longrightarrow>
   pb_field_set_to_default r iter = pb_field_set_to_default r' iter"
  by (rule ext) (cases "fld_ptr (it_field iter)"; simp add: pb_field_set_to_default_def Let_def)

lemma loop_cong:
  assumes t: "terminated fs" and k: "k < n_places fs"
    and eq: "\<And>n k. k < n_places fs \<Longrightarrow>
      (\<And>k'. k' < n_places fs \<Longrightarrow> loop n (iter_at fs dest k') = loop' n (iter_at fs dest k')) \<Longrightarrow>
      loop (Suc n) (iter_at fs dest k) = loop' (Suc n) (iter_at fs dest k)"
    and 0: "\<And>iter. loop 0 iter = loop' 0 iter"
  shows "loop n (iter_at fs dest k) = loop' n (iter_at fs dest k)"
  using k by (induction n arbitrary: k) (simp_all add: 0 eq)

lemma next_case_cong:
  assumes "terminated fs" "k < n_places fs" "\<And>k'. k' < n_places fs \<Longrightarrow> f (iter_at fs dest k') = g (iter_at fs dest k')"
  shows "(case pb_field_iter_next (iter_at fs dest k) of (True, iter) \<Rightarrow> f iter | (False, _) \<Rightarrow> x) =
    (case pb_field_iter_next (iter_at fs dest k) of (True, iter) \<Rightarrow> g iter | (False, _) \<Rightarrow> x)"
proof -
  obtain k' where "k' < n_places fs" "snd (pb_field_iter_next (iter_at fs dest k)) = iter_at fs dest k'"
    using iter_next_place [OF assms(1,2), of dest] by blast
  then show ?thesis
    using assms(3) by (cases "pb_field_iter_next (iter_at fs dest k)") (simp split: bool.split)
qed

lemma begin_case_cong:
  assumes "f (iter_at fs dest 0) = g (iter_at fs dest 0)"
  shows "(case pb_field_iter_begin fs dest of (False, _) \<Rightarrow> x | (True, iter) \<Rightarrow> f iter) =
    (case pb_field_iter_begin fs dest of (False, _) \<Rightarrow> x | (True, iter) \<Rightarrow> g iter)"
  using assms by (cases "pb_field_iter_begin fs dest") (simp split: bool.split)

lemma place_0: "0 < n_places fs"
  by (simp add: n_places_def)

interpretation defaults: nested message_set_to_defaults defaults_depth
proof (unfold_locales, goal_cases)
  case (2 fs r r')
  have "defaults_loop r n (iter_at fs dest k) = defaults_loop r' n (iter_at fs dest k)" if "k < n_places fs" for n dest k
  proof (rule loop_cong [OF 2(1) that])
    fix n k
    assume k: "k < n_places fs"
      and IH: "\<And>k'. k' < n_places fs \<Longrightarrow> defaults_loop r n (iter_at fs dest k') = defaults_loop r' n (iter_at fs dest k')"
    have f: "pb_field_set_to_default r (iter_at fs dest k) = pb_field_set_to_default r' (iter_at fs dest k)"
      using 2(2) field_in_set [OF 2(1) k] by (intro set_to_default_cong) blast
    show "defaults_loop r (Suc n) (iter_at fs dest k) = defaults_loop r' (Suc n) (iter_at fs dest k)"
      unfolding defaults_loop.simps(2) [abs_def] f Let_def by (intro ext next_case_cong [OF 2(1) k]) (simp add: IH)
  qed (simp add: defaults_loop.simps(1) [abs_def])
  then show ?case
    unfolding message_set_to_defaults_def [abs_def] using place_0
    by (intro ext begin_case_cong) (simp del: iter_at.simps)
qed simp

lemma release_submessages_cong:
  "(\<And>gs. fld_ptr (it_field iter) = Fields gs \<Longrightarrow> r gs = r' gs) \<Longrightarrow> release_submessages r iter = release_submessages r' iter"
proof (rule ext)
  fix m
  assume r: "\<And>gs. fld_ptr (it_field iter) = Fields gs \<Longrightarrow> r gs = r' gs"
  have "release_items r gs step n p m = release_items r' gs step n p m" if "r gs = r' gs" for gs step n p m
    using that by (induction n arbitrary: p m) simp_all
  then show "release_submessages r iter m = release_submessages r' iter m"
    using r by (auto simp: release_submessages_def Let_def split: pb_ptr.split)
qed

interpretation release: nested "release_message M" "release_depth M" for M
proof (unfold_locales, goal_cases)
  case (2 fs r r')
  have "release_loop M r n (iter_at fs dest k) = release_loop M r' n (iter_at fs dest k)" if "k < n_places fs" for n dest k
  proof (rule loop_cong [OF 2(1) that])
    fix n k
    assume k: "k < n_places fs"
      and IH: "\<And>k'. k' < n_places fs \<Longrightarrow> release_loop M r n (iter_at fs dest k') = release_loop M r' n (iter_at fs dest k')"
    have "release_submessages r (iter_at fs dest k) = release_submessages r' (iter_at fs dest k)"
      using 2(2) field_in_set [OF 2(1) k] by (intro release_submessages_cong) blast
    then have f: "pb_release_single_field M r (iter_at fs dest k) = pb_release_single_field M r' (iter_at fs dest k)"
      by (intro ext) (simp only: pb_release_single_field_def)
    show "release_loop M r (Suc n) (iter_at fs dest k) = release_loop M r' (Suc n) (iter_at fs dest k)"
      unfolding release_loop.simps(2) [abs_def] f Let_def by (intro ext next_case_cong [OF 2(1) k]) (simp add: IH)
  qed (simp add: release_loop.simps(1) [abs_def])
  then have "release_loop M r n (iter_at fs dest 0) = release_loop M r' n (iter_at fs dest 0)" for n dest
    using place_0 by blast
  then have "(case pb_field_iter_begin fs dest of (False, _) \<Rightarrow> m | (True, iter) \<Rightarrow> release_loop M r (length fs) iter m) =
      (case pb_field_iter_begin fs dest of (False, _) \<Rightarrow> m | (True, iter) \<Rightarrow> release_loop M r' (length fs) iter m)" for dest m
    by (intro begin_case_cong) simp
  then show ?case unfolding release_message_def [abs_def] by presburger
qed simp

section \<open>Encoding\<close>

lemma encoders_cong:
  "(\<And>gs. fld_ptr f = Fields gs \<Longrightarrow> r gs = r' gs) \<Longrightarrow> PB_ENCODERS mem r f = PB_ENCODERS mem r' f"
proof -
  assume r: "\<And>gs. fld_ptr f = Fields gs \<Longrightarrow> r gs = r' gs"
  have "pb_encode_submessage r gs = pb_encode_submessage r' gs" if "r gs = r' gs" for gs
    by (intro ext) (simp only: pb_encode_submessage_def that)
  then have "pb_enc_submessage r f = pb_enc_submessage r' f"
    using r by (intro ext) (simp add: pb_enc_submessage_def split: pb_ptr.split)
  then show ?thesis by (intro ext) (simp only: PB_ENCODERS_def)
qed

lemma encode_field_cong:
  assumes "\<And>gs. fld_ptr f = Fields gs \<Longrightarrow> r gs = r' gs"
  shows "encode_field mem r f = encode_field mem r' f"
proof (intro ext)
  fix pData st
  have e: "PB_ENCODERS mem r f = PB_ENCODERS mem r' f" using assms by (rule encoders_cong)
  show "encode_field mem r f pData st = encode_field mem r' f pData st"
    by (simp only: encode_field_def encode_basic_field_def encode_array_def e)
qed

interpretation encode: nested "encode_message mem" "encode_depth mem" for mem
proof (unfold_locales, goal_cases)
  case (2 fs r r')
  have "encode_loop mem r n (iter_at fs dest k) = encode_loop mem r' n (iter_at fs dest k)" if "k < n_places fs" for n dest k
  proof (rule loop_cong [OF 2(1) that])
    fix n k
    assume k: "k < n_places fs"
      and IH: "\<And>k'. k' < n_places fs \<Longrightarrow> encode_loop mem r n (iter_at fs dest k') = encode_loop mem r' n (iter_at fs dest k')"
    have f: "encode_field mem r (it_field (iter_at fs dest k)) = encode_field mem r' (it_field (iter_at fs dest k))"
      using 2(2) field_in_set [OF 2(1) k] by (intro encode_field_cong) blast
    have "(case pb_field_iter_next (iter_at fs dest k) of (True, iter) \<Rightarrow> encode_loop mem r n iter st | (False, _) \<Rightarrow> (True, st)) =
      (case pb_field_iter_next (iter_at fs dest k) of (True, iter) \<Rightarrow> encode_loop mem r' n iter st | (False, _) \<Rightarrow> (True, st))" for st
      by (rule next_case_cong [OF 2(1) k]) (simp add: IH)
    then show "encode_loop mem r (Suc n) (iter_at fs dest k) = encode_loop mem r' (Suc n) (iter_at fs dest k)"
      unfolding encode_loop.simps(2) [abs_def] f by simp
  qed (simp add: encode_loop.simps(1) [abs_def])
  then show ?case
    unfolding encode_message_def [abs_def] using place_0
    by (intro ext begin_case_cong) (simp del: iter_at.simps)
qed simp

section \<open>Decoding\<close>

lemma decoders_cong:
  assumes "\<And>gs. fld_ptr f = Fields gs \<Longrightarrow> r gs = r' gs"
  shows "PB_DECODERS M r f = PB_DECODERS M r' f"
proof (intro ext)
  fix dest s
  have "decode_init M r gs = decode_init M r' gs" if "r gs = r' gs" for gs
    by (intro ext) (simp only: decode_init_def that)
  then have "pb_dec_submessage M r f dest s = pb_dec_submessage M r' f dest s"
  proof (cases "fld_ptr f")
    case (Fields gs)
    then have "(if c then decode_init M r else r) gs = (if c then decode_init M r' else r') gs" for c
      using assms \<open>\<And>gs. r gs = r' gs \<Longrightarrow> decode_init M r gs = decode_init M r' gs\<close> by simp
    then show ?thesis by (simp only: pb_dec_submessage_def Fields pb_ptr.case)
  qed (simp_all only: pb_dec_submessage_def pb_ptr.case)
  then show "PB_DECODERS M r f dest s = PB_DECODERS M r' f dest s" by (simp only: PB_DECODERS_def)
qed

lemma packed_loop_cong:
  assumes "PB_DECODERS M r (it_field iter) = PB_DECODERS M r' (it_field iter)"
  shows "packed_loop M r iter loc n s = packed_loop M r' iter loc n s"
  by (induction n arbitrary: s) (simp_all only: packed_loop.simps Let_def assms)

lemma pointer_loop_cong:
  assumes "PB_DECODERS M r (it_field iter) = PB_DECODERS M r' (it_field iter)"
  shows "pointer_loop M r iter loc n allocated s = pointer_loop M r' iter loc n allocated s"
  by (induction n arbitrary: allocated s) (simp_all only: pointer_loop.simps Let_def assms)

lemma fields_cong:
  assumes "PB_DECODERS M r (it_field iter) = PB_DECODERS M r' (it_field iter)"
  shows "decode_static_field M r wt iter loc s = decode_static_field M r' wt iter loc s"
    and "decode_pointer_field M r wt iter loc s = decode_pointer_field M r' wt iter loc s"
  by (simp_all only: decode_static_field_def decode_pointer_field_def decode_pointer_single_def Let_def assms
      packed_loop_cong [OF assms] pointer_loop_cong [OF assms])

text \<open>The loop over the input keeps its iterator on a field of the message.\<close>

definition on_field :: "pb_field list \<Rightarrow> nat \<Rightarrow> dec_loop \<Rightarrow> bool" where
  "on_field fs dest l \<longleftrightarrow> (\<exists>k < n_places fs. dl_iter l = iter_at fs dest k)"

lemma union_place:
  assumes "terminated fs" "k < n_places fs"
  obtains ok k' s' where "pb_release_union_field M (iter_at fs dest k) s = (ok, iter_at fs dest k', s')" "k' < n_places fs"
proof -
  let ?old = "load (snd s) (it_pSize (iter_at fs dest k)) :: u32" and ?new = "fld_tag (it_field (iter_at fs dest k))"
  obtain ok1 k1 where 1: "pb_field_iter_find (iter_at fs dest k) ?old = (ok1, iter_at fs dest k1)" "k1 < n_places fs"
    using pb_field_iter_find_place [OF assms, of dest ?old] by blast
  obtain ok2 k2 where 2: "pb_field_iter_find (iter_at fs dest k1) ?new = (ok2, iter_at fs dest k2)" "k2 < n_places fs"
    using pb_field_iter_find_place [OF assms(1) 1(2), of dest ?new] by blast
  have "fst (snd (pb_release_union_field M (iter_at fs dest k) s)) \<in> iter_at fs dest ` {..<n_places fs}"
    unfolding pb_release_union_field_def Let_def 1(1) 2(1) prod.case
    using assms(2) 1(2) 2(2) by (cases ok1; cases ok2) (simp_all del: iter_at.simps)
  then show ?thesis using that by (cases "pb_release_union_field M (iter_at fs dest k) s") auto
qed

lemma decode_field_cong:
  assumes "terminated fs" "k < n_places fs"
    "\<And>k. k < n_places fs \<Longrightarrow> PB_DECODERS M r (it_field (iter_at fs dest k)) = PB_DECODERS M r' (it_field (iter_at fs dest k))"
  shows "decode_field M r wt fixed (iter_at fs dest k) s = decode_field M r' wt fixed (iter_at fs dest k) s"
    and "\<exists>k' < n_places fs. fst (snd (decode_field M r wt fixed (iter_at fs dest k) s)) = iter_at fs dest k'"
proof -
  obtain st m local where s: "s = (st, m, local)" using prod_cases3 by blast
  let ?iter = "iter_at fs dest k"
  obtain ok k1 st1 m1 where u: "(if PB_HTYPE (fld_type (it_field ?iter)) = PB_HTYPE_ONEOF
      then pb_release_union_field M ?iter (st, m) else (True, ?iter, st, m)) = (ok, iter_at fs dest k1, st1, m1)" "k1 < n_places fs"
    using assms(2) union_place [OF assms(1,2), of M dest "(st, m)"] by (metis prod.collapse)
  show "decode_field M r wt fixed ?iter s = decode_field M r' wt fixed ?iter s"
    unfolding decode_field_def s prod.case u(1) Let_def fields_cong [OF assms(3) [OF u(2)]] ..
  show "\<exists>k' < n_places fs. fst (snd (decode_field M r wt fixed ?iter s)) = iter_at fs dest k'"
    unfolding decode_field_def s prod.case u(1) Let_def using u(2)
    by (cases ok) (auto simp: prod.case_eq_if simp del: iter_at.simps)
qed

lemma unknown_field_on_field:
  assumes "terminated fs" "on_field fs dest l"
  shows "on_field fs dest (fst (snd (unknown_field wt tag l s)))"
proof -
  obtain k where k: "k < n_places fs" "dl_iter l = iter_at fs dest k" using assms(2) by (auto simp: on_field_def)
  obtain k' where k': "k' < n_places fs" "snd (find_extension_field (iter_at fs dest k)) = iter_at fs dest k'"
    using find_extension_at [OF assms(1) k(1), of dest] by blast
  obtain found iter where e: "find_extension_field (dl_iter l) = (found, iter)" by force
  then have "iter = iter_at fs dest k'" using k(2) k'(2) by simp
  then show ?thesis using assms(2) k'(1) e
    by (cases found) (auto simp: unknown_field_def on_field_def Let_def prod.case_eq_if simp del: iter_at.simps)
qed

lemma known_field_cong:
  assumes "terminated fs" "on_field fs dest l"
    "\<And>k. k < n_places fs \<Longrightarrow> PB_DECODERS M r (it_field (iter_at fs dest k)) = PB_DECODERS M r' (it_field (iter_at fs dest k))"
  shows "known_field M r wt l s = known_field M r' wt l s"
    and "on_field fs dest (fst (snd (known_field M r wt l s)))"
proof -
  obtain k where k: "k < n_places fs" "dl_iter l = iter_at fs dest k" using assms(2) by (auto simp: on_field_def)
  have eq: "decode_field M r wt fixed (iter_at fs dest k) s = decode_field M r' wt fixed (iter_at fs dest k) s"
    for wt fixed s using assms(3) by (rule decode_field_cong(1) [OF assms(1) k(1)])
  have place: "\<exists>k' < n_places fs. fst (snd (decode_field M r wt fixed (iter_at fs dest k) s)) = iter_at fs dest k'"
    for wt fixed s by (rule decode_field_cong(2) [OF assms(1) k(1) refl])
  show "known_field M r wt l s = known_field M r' wt l s"
    unfolding known_field_def Let_def k(2) eq ..
  show "on_field fs dest (fst (snd (known_field M r wt l s)))"
    unfolding known_field_def Let_def k(2) using place assms(2)
    by (auto simp: on_field_def prod.case_eq_if simp del: iter_at.simps)
qed

lemma decode_turn_cong:
  assumes "terminated fs" "on_field fs dest l"
    "\<And>k. k < n_places fs \<Longrightarrow> PB_DECODERS M r (it_field (iter_at fs dest k)) = PB_DECODERS M r' (it_field (iter_at fs dest k))"
  shows "decode_turn M r l s = decode_turn M r' l s"
    and "on_field fs dest (fst (snd (decode_turn M r l s)))"
proof -
  obtain k where k: "k < n_places fs" "dl_iter l = iter_at fs dest k" using assms(2) by (auto simp: on_field_def)
  obtain eof x st where t: "pb_decode_tag (fst s) = (eof, x, st)" using prod_cases3 by blast
  have "decode_turn M r l s = decode_turn M r' l s \<and> on_field fs dest (fst (snd (decode_turn M r l s)))"
  proof (cases x)
    case (Some y)
    obtain wt tag where y: "y = (wt, tag)" by force
    obtain found k' where f: "pb_field_iter_find (dl_iter l) tag = (found, iter_at fs dest k')" "k' < n_places fs"
      using pb_field_iter_find_place [OF assms(1) k(1), of dest tag] k(2) by auto
    then have "on_field fs dest (l\<lparr>dl_iter := iter_at fs dest k'\<rparr>)" by (auto simp: on_field_def)
    note this unknown_field_on_field [OF assms(1) this, of wt tag "(st, snd s)"]
      known_field_cong [OF assms(1) this assms(3), of wt "(st, snd s)"]
    then show ?thesis using t Some y f(1) by (cases found) (simp_all add: decode_turn_def)
  qed (use t assms(2) in \<open>simp add: decode_turn_def\<close>)
  then show "decode_turn M r l s = decode_turn M r' l s" "on_field fs dest (fst (snd (decode_turn M r l s)))" by blast+
qed

lemma fields_loop_cong:
  assumes "terminated fs"
    "\<And>k. k < n_places fs \<Longrightarrow> PB_DECODERS M r (it_field (iter_at fs dest k)) = PB_DECODERS M r' (it_field (iter_at fs dest k))"
  shows "on_field fs dest l \<Longrightarrow> fields_loop M r n l s = fields_loop M r' n l s"
proof (induction n arbitrary: l s)
  case (Suc n)
  obtain t l1 s1 where turn: "decode_turn M r l s = (t, l1, s1)" using prod_cases3 by blast
  then have "decode_turn M r' l s = (t, l1, s1)" "on_field fs dest l1"
    using decode_turn_cong [OF assms(1) Suc.prems assms(2), of s] by simp_all
  then show ?case using turn Suc.IH [of l1 s1] by (cases t) simp_all
qed simp

interpretation decode: nested "decode_noinit M" "decode_depth M" for M
proof (unfold_locales, goal_cases)
  case (2 fs r r')
  have "PB_DECODERS M r (it_field (iter_at fs dest k)) = PB_DECODERS M r' (it_field (iter_at fs dest k))"
    if "k < n_places fs" for dest k
    using 2(2) field_in_set [OF 2(1) that] by (intro decoders_cong) blast
  note loop = fields_loop_cong [OF 2(1) this]
  show ?case
  proof (intro ext)
    fix dest s
    let ?l = "\<lparr>dl_iter = snd (pb_field_iter_begin fs dest), fields_seen = [0, 0], extension_range_start = 0,
      fixed_count_field = None, fixed_count_size = 0\<rparr>"
    have "on_field fs dest ?l" using place_0 by (auto simp: on_field_def intro!: exI [of _ 0])
    from loop [OF _ this] show "decode_noinit M r fs dest s = decode_noinit M r' fs dest s"
      by (simp add: decode_noinit_def Let_def)
  qed
qed simp

text \<open>The functions are their bodies with themselves for the submessages.\<close>

lemma messages_unfold:
  assumes "descriptor_ok fs"
  shows "pb_message_set_to_defaults fs = message_set_to_defaults pb_message_set_to_defaults fs"
    and "pb_release M fs = release_message M (pb_release M) fs"
    and "pb_encode mem fs = encode_message mem (pb_encode mem) fs"
    and "pb_decode_noinit M fs = decode_noinit M (pb_decode_noinit M) fs"
  using defaults.unfold [OF assms] release.unfold [OF assms] encode.unfold [OF assms] decode.unfold [OF assms]
  by (simp_all add: pb_message_set_to_defaults_def [abs_def] pb_release_def [abs_def] pb_encode_def [abs_def]
      pb_decode_noinit_def [abs_def])

end
