(* ===== verification/Pb_Layout.thy ===== *)
theory Pb_Layout
  imports Pb_Nested
begin

text \<open>
  Where the decoder writes. \<open>inside a n\<close> relates memories that differ only in the \<open>n\<close> bytes from
  \<open>a\<close>; a descriptor that fits a struct of \<open>n\<close> bytes is decoded inside these, whatever the input is.
\<close>

section \<open>Changes of the memory\<close>

definition inside :: "nat \<Rightarrow> nat \<Rightarrow> bytes \<Rightarrow> bytes \<Rightarrow> bool" where
  "inside a n m m' \<longleftrightarrow>
     (a + n \<le> length m \<longrightarrow> length m' = length m \<and> take a m' = take a m \<and> drop (a + n) m' = drop (a + n) m)"

named_theorems inside_intros \<open>the memory changes only inside\<close>

lemma inside_refl [simp, inside_intros]: "inside a n m m"
  by (simp add: inside_def)

lemma inside_trans: "inside a n m m' \<Longrightarrow> inside a n m' m'' \<Longrightarrow> inside a n m m''"
  by (simp add: inside_def)

lemma inside_sub:
  assumes "inside b k m m'" "a \<le> b" "b + k \<le> a + n"
  shows "inside a n m m'"
  unfolding inside_def
proof (intro impI)
  assume "a + n \<le> length m"
  then have m': "length m' = length m" "take b m' = take b m" "drop (b + k) m' = drop (b + k) m"
    using assms by (simp_all add: inside_def)
  have "take a m' = take a m" using arg_cong [OF m'(2), of "take a"] assms(2) by (simp add: min_def)
  moreover have "drop (a + n) m' = drop (a + n) m"
    using arg_cong [OF m'(3), of "drop (a + n - (b + k))"] assms(3) by simp
  ultimately show "length m' = length m \<and> take a m' = take a m \<and> drop (a + n) m' = drop (a + n) m"
    using m'(1) by simp
qed

lemma inside_poke:
  assumes "a \<le> b" "b + length xs \<le> a + n"
  shows "inside a n m (poke m b xs)"
  using assms by (auto simp: inside_def take_poke_before) (simp add: poke_def)

lemma inside_store:
  fixes w :: "'a :: len word"
  assumes "a \<le> b" "b + LENGTH('a) div 8 \<le> a + n"
  shows "inside a n m (store m b w)"
  unfolding store_def using assms by (intro inside_poke) simp_all

lemma inside_if: "inside a n m m1 \<Longrightarrow> inside a n m m2 \<Longrightarrow> inside a n m (if c then m1 else m2)"
  by simp

section \<open>The callback of a stream\<close>

text \<open>A callback that is asked for some bytes does not give more.\<close>

definition fills :: "('s \<Rightarrow> nat \<Rightarrow> bool \<times> bytes \<times> 's) \<Rightarrow> bool" where
  "fills cb \<longleftrightarrow> (\<forall>s n. length (fst (snd (cb s n))) \<le> n)"

lemma fills_buf_read [simp]: "fills buf_read"
  by (simp add: fills_def buf_read_def)

lemma pb_read_fills: "fills (is_callback st) \<Longrightarrow> pb_read n st = (Some buf, st') \<Longrightarrow> length buf \<le> n"
  by (auto simp: pb_read_def PB_RETURN_ERROR_def fills_def Let_def split: if_splits prod.splits)
    (metis fst_conv snd_conv)

text \<open>No reader changes the callback.\<close>

named_theorems cb_simps \<open>the callback of the stream afterwards\<close>

lemma cb_error [simp, cb_simps]: "is_callback (snd (PB_RETURN_ERROR msg st)) = is_callback st"
  by (simp add: PB_RETURN_ERROR_def)

lemma cb_and_then [cb_simps]:
  assumes "is_callback (snd r) = cb" "\<And>a st. is_callback st = cb \<Longrightarrow> is_callback (snd (k a st)) = cb"
  shows "is_callback (snd (and_then r k)) = cb"
  using assms by (cases r; cases "fst r") auto

lemma cb_done_with [simp]: "snd (done_with r) = snd r"
  by (simp add: done_with_def)

lemma cb_pb_read [simp]: "is_callback (snd (pb_read n st)) = is_callback st"
  by (simp add: pb_read_def Let_def split: prod.split)

lemma cb_readbyte [simp]: "is_callback (snd (pb_readbyte st)) = is_callback st"
  by (simp add: pb_readbyte_def Let_def split: prod.split)

lemma cb_skip_chunks [simp]: "is_callback (snd (skip_chunks n st)) = is_callback st"
proof (induction n arbitrary: st rule: less_induct)
  case (less n)
  have "is_callback (snd (and_then (pb_read 16 st) (\<lambda>tmp st. skip_chunks (n - 16) st))) = is_callback st" if "n > 16"
    using less [of "n - 16"] that by (intro cb_and_then) simp_all
  then show ?case by (subst skip_chunks.simps) simp
qed

lemma cb_read_null [simp]: "is_callback (snd (pb_read_null n st)) = is_callback st"
  by (simp add: pb_read_null_def)

lemma cb_varint32_loop [simp]: "is_callback (snd (varint32_loop bitpos result st)) = is_callback st"
proof (induction bitpos result st rule: varint32_loop.induct)
  case (1 bitpos result st)
  obtain r st' where r: "pb_readbyte st = (r, st')" "is_callback st' = is_callback st"
    using cb_readbyte [of st] by (metis prod.collapse)
  show ?case
  proof (cases r)
    case (Some b)
    with 1 [OF r(1) [symmetric] Some] r show ?thesis by (subst varint32_loop.simps) (simp add: Let_def)
  qed (use r in \<open>subst varint32_loop.simps, simp\<close>)
qed

lemma cb_varint32_eof [simp]: "is_callback (snd (snd (pb_decode_varint32_eof st))) = is_callback st"
  using cb_readbyte [of st] by (auto simp: pb_decode_varint32_eof_def simp del: cb_readbyte split: prod.splits option.splits)

lemma cb_varint32 [simp]: "is_callback (snd (pb_decode_varint32 st)) = is_callback st"
  by (simp add: pb_decode_varint32_def)

lemma cb_varint_loop [simp]: "is_callback (snd (varint_loop bitpos result st)) = is_callback st"
proof (induction bitpos result st rule: varint_loop.induct)
  case (1 bitpos result st)
  obtain r st' where r: "pb_readbyte st = (r, st')" "is_callback st' = is_callback st"
    using cb_readbyte [of st] by (metis prod.collapse)
  show ?case
  proof (cases r)
    case (Some b)
    with 1 [OF _ r(1) [symmetric] Some] r show ?thesis by (subst varint_loop.simps) (simp add: Let_def)
  qed (use r in \<open>subst varint_loop.simps, simp\<close>)
qed

lemma cb_numbers [simp]:
  "is_callback (snd (pb_decode_varint st)) = is_callback st"
  "is_callback (snd (pb_decode_svarint st)) = is_callback st"
  "is_callback (snd (pb_decode_fixed32 st)) = is_callback st"
  "is_callback (snd (pb_decode_fixed64 st)) = is_callback st"
  by (simp_all add: pb_decode_varint_def pb_decode_svarint_def pb_decode_fixed32_def pb_decode_fixed64_def cb_and_then)

lemma cb_tag [simp]: "is_callback (snd (snd (pb_decode_tag st))) = is_callback st"
  using cb_varint32_eof [of st] by (auto simp: pb_decode_tag_def simp del: cb_varint32_eof split: prod.splits option.splits)

lemma cb_skip_varint [simp]: "is_callback (snd (pb_skip_varint st)) = is_callback st"
proof (induction st rule: pb_skip_varint.induct)
  case (1 st)
  obtain r st' where r: "pb_read 1 st = (r, st')" "is_callback st' = is_callback st"
    using cb_pb_read [of 1 st] by (metis prod.collapse)
  show ?case
  proof (cases r)
    case (Some b)
    with 1 [OF r(1) [symmetric] Some] r show ?thesis by (subst pb_skip_varint.simps) simp
  qed (use r in \<open>subst pb_skip_varint.simps, simp\<close>)
qed

lemma cb_skip_field [simp]: "is_callback (snd (pb_skip_field wt st)) = is_callback st"
  by (simp add: pb_skip_field_def pb_skip_string_def cb_and_then)

lemma cb_make_substream [simp]: "is_callback (snd (pb_make_string_substream st)) = is_callback st"
  by (simp add: pb_make_string_substream_def cb_and_then)

lemma cb_substream: "pb_make_string_substream st = (Some sub, st') \<Longrightarrow> is_callback sub = is_callback st"
  using cb_varint32 [of st]
  by (auto simp: pb_make_string_substream_def and_then_def PB_RETURN_ERROR_def simp del: cb_varint32
      split: prod.splits option.splits if_splits)

lemma cb_close [simp]: "is_callback (snd (pb_close_string_substream st sub)) = is_callback st"
  by (simp add: pb_close_string_substream_def split: prod.split option.split)

section \<open>Steps of the decoder\<close>

definition kept :: "nat \<Rightarrow> nat \<Rightarrow> 's dstate \<Rightarrow> 's dstate \<Rightarrow> bool" where
  "kept a n s s' \<longleftrightarrow> is_callback (fst s') = is_callback (fst s) \<and> inside a n (snd s) (snd s')"

lemma kept_refl [simp]: "kept a n s s"
  by (simp add: kept_def)

lemma kept_trans: "kept a n s s' \<Longrightarrow> kept a n s' s'' \<Longrightarrow> kept a n s s''"
  by (auto simp: kept_def intro: inside_trans)

lemma kept_sub: "kept b k s s' \<Longrightarrow> a \<le> b \<Longrightarrow> b + k \<le> a + n \<Longrightarrow> kept a n s s'"
  by (auto simp: kept_def intro: inside_sub)

lemma kept_error [simp]: "kept a n s (snd (dec_error msg s))"
  by (simp add: kept_def dec_error_def)

lemma kept_mem: "inside a n m m' \<Longrightarrow> kept a n (st, m) (st, m')"
  by (simp add: kept_def)

lemma kept_first: "kept a n (st, m') s' \<Longrightarrow> inside a n m m' \<Longrightarrow> kept a n (st, m) s'"
  by (rule kept_trans [OF kept_mem])

lemma kept_with_stream:
  assumes "\<And>st. is_callback (snd (f st)) = is_callback st"
    "\<And>x s'. is_callback (fst s') = is_callback (fst s) \<Longrightarrow> kept a n s' (snd (k x s'))"
  shows "kept a n s (snd (with_stream f s k))"
proof -
  obtain r st where f: "f (fst s) = (r, st)" by force
  then have st: "is_callback st = is_callback (fst s)" using assms(1) [of "fst s"] by simp
  then have "kept a n s (st, snd s)" by (simp add: kept_def)
  moreover have "kept a n (st, snd s) (snd (k x (st, snd s)))" for x by (rule assms(2)) (simp add: st)
  ultimately show ?thesis using f by (auto simp: with_stream_def split: option.split intro: kept_trans)
qed

section \<open>Descriptors that fit\<close>

text \<open>Where the data and the count of the field \<open>k\<close> are in the struct; members of a union share both.\<close>

primrec place :: "pb_field list \<Rightarrow> nat \<Rightarrow> nat \<times> int" where
  "place fs 0 = (let off = unat (data_offset (fs ! 0)) in (off, int off + sint (size_offset (fs ! 0))))"
| "place fs (Suc k) =
     (if PB_HTYPE (fld_type (fs ! k)) = PB_HTYPE_ONEOF \<and> PB_HTYPE (fld_type (fs ! Suc k)) = PB_HTYPE_ONEOF \<and>
         data_offset (fs ! Suc k) = PB_SIZE_MAX
      then place fs k
      else let off = fst (place fs k) + field_extent (fs ! k) + unat (data_offset (fs ! Suc k))
           in (off, int off + sint (size_offset (fs ! Suc k))))"

text \<open>
  The bytes that a value may need: a decoder of fixed width does not look at \<open>data_size\<close>. The
  default of a repeated field needs the 4 bytes of a count also where there is none.
\<close>

definition value_size :: "pb_field \<Rightarrow> nat" where
  "value_size f =
     max (unat (data_size f))
       (if PB_LTYPE (fld_type f) = PB_LTYPE_BOOL then 1
        else if PB_LTYPE (fld_type f) = PB_LTYPE_FIXED32 then 4
        else if PB_LTYPE (fld_type f) = PB_LTYPE_FIXED64 then 8 else 0)"

definition field_fits :: "pb_field \<Rightarrow> nat \<Rightarrow> int \<Rightarrow> nat \<Rightarrow> bool" where
  "field_fits f off coff sz \<longleftrightarrow>
     (let type = fld_type f; htype = PB_HTYPE type
      in PB_ATYPE type \<noteq> PB_ATYPE_POINTER \<and>
         (PB_ATYPE type = PB_ATYPE_STATIC \<longrightarrow>
            (if htype = PB_HTYPE_REPEATED
             then value_size f = unat (data_size f) \<and> off + unat (data_size f) * unat (array_size f) \<le> sz
             else off + value_size f \<le> sz) \<and>
            (htype = PB_HTYPE_OPTIONAL \<and> coff \<noteq> int off \<longrightarrow> 0 \<le> coff \<and> coff + 1 \<le> int sz) \<and>
            (htype = PB_HTYPE_REPEATED \<or> htype = PB_HTYPE_ONEOF \<longrightarrow> 0 \<le> coff \<and> coff + 4 \<le> int sz)))"

definition laid_out :: "pb_field list \<Rightarrow> nat \<Rightarrow> bool" where
  "laid_out fs sz \<longleftrightarrow>
     terminated fs \<and> (\<forall>k \<in> set [0..<n_places fs]. field_fits (fs ! k) (fst (place fs k)) (snd (place fs k)) sz)"

primrec fits_field :: "pb_field \<Rightarrow> bool" and fits_ptr :: "pb_ptr \<Rightarrow> nat \<Rightarrow> bool" where
  "fits_field (Pb_Field tag type doff soff dsize asize p) \<longleftrightarrow>
     PB_LTYPE type = PB_LTYPE_SUBMESSAGE \<and> PB_ATYPE type \<noteq> PB_ATYPE_CALLBACK \<longrightarrow> fits_ptr p (unat dsize)"
| "fits_ptr Null sz \<longleftrightarrow> False"
| "fits_ptr (Default d) sz \<longleftrightarrow> False"
| "fits_ptr (Fields fs) sz \<longleftrightarrow> laid_out fs sz \<and> list_all fits_field fs"

text \<open>A message of static fields, also its submessages, that fits a struct of the size.\<close>

definition message_fits :: "pb_field list \<Rightarrow> nat \<Rightarrow> bool" where
  "message_fits fs sz \<longleftrightarrow> fits_ptr (Fields fs) sz"

lemma fits_submessage:
  "fits_field f \<Longrightarrow> PB_LTYPE (fld_type f) = PB_LTYPE_SUBMESSAGE \<Longrightarrow> PB_ATYPE (fld_type f) \<noteq> PB_ATYPE_CALLBACK \<Longrightarrow>
   \<exists>gs. fld_ptr f = Fields gs \<and> message_fits gs (unat (data_size f))"
  by (cases f; cases "fld_ptr f") (auto simp: message_fits_def)

lemma message_fits_terminated: "message_fits fs sz \<Longrightarrow> terminated fs"
  by (simp add: message_fits_def laid_out_def)

definition iter_fits :: "pb_field_iter \<Rightarrow> nat \<Rightarrow> nat \<Rightarrow> bool" where
  "iter_fits iter dest sz \<longleftrightarrow>
     (\<exists>off coff. 0 < dest \<and> it_pData iter = dest + off \<and> it_pSize iter = nat (int dest + coff) \<and>
        field_fits (it_field iter) off coff sz \<and> fits_field (it_field iter))"

lemma iter_at_Suc_place:
  assumes "terminated fs" "Suc k < n_places fs" "0 < dest"
    "it_pData (iter_at fs dest k) = dest + off" "it_pSize (iter_at fs dest k) = nat (int dest + coff)"
    "place fs k = (off, coff)"
  shows "it_pData (iter_at fs dest (Suc k)) = dest + fst (place fs (Suc k)) \<and>
    it_pSize (iter_at fs dest (Suc k)) = nat (int dest + snd (place fs (Suc k)))"
proof -
  have k: "k < n_fields fs" "Suc k < n_fields fs" using assms(2) by (auto simp: n_places_def max_def split: if_splits)
  then have "fld_tag (fs ! k) \<noteq> 0" "fld_tag (fs ! Suc k) \<noteq> 0" using terminated_nth [OF assms(1)] by simp_all
  then show ?thesis
    using assms k by (simp add: pb_field_iter_next_def Let_def it_field_def iter_at_pos size_address_def algebra_simps)
qed

lemma iter_at_data:
  assumes "terminated fs" "0 < dest"
  shows "k < n_places fs \<Longrightarrow> it_pData (iter_at fs dest k) = dest + fst (place fs k) \<and>
    it_pSize (iter_at fs dest k) = nat (int dest + snd (place fs k))"
proof (induction k)
  case 0
  then show ?case using assms(2) by (simp add: pb_field_iter_begin_def Let_def size_address_def algebra_simps)
next
  case (Suc k)
  then show ?case using iter_at_Suc_place [OF assms(1) Suc.prems assms(2), of "fst (place fs k)" "snd (place fs k)"] by simp
qed

lemma iter_at_fits:
  assumes "message_fits fs sz" "k < n_places fs" "0 < dest"
  shows "iter_fits (iter_at fs dest k) dest sz"
proof -
  have t: "terminated fs" using assms(1) by (rule message_fits_terminated)
  have "n_places fs \<le> length fs" using t by (cases fs) (auto simp: terminated_def n_places_def n_fields_def)
  then have "fits_field (fs ! k)" using assms by (simp add: message_fits_def list_all_length)
  moreover have "field_fits (fs ! k) (fst (place fs k)) (snd (place fs k)) sz"
    using assms by (simp add: message_fits_def laid_out_def)
  ultimately show ?thesis
    using iter_at_data [OF t assms(3,2)] assms(3) iter_place_field [OF t assms(2)] by (auto simp: iter_fits_def)
qed

text \<open>What fitting gives for the fields.\<close>

lemma fits_not_pointer: "iter_fits iter dest sz \<Longrightarrow> PB_ATYPE (fld_type (it_field iter)) \<noteq> PB_ATYPE_POINTER"
  by (auto simp: iter_fits_def field_fits_def Let_def)

lemma fits_data:
  assumes "iter_fits iter dest sz" "PB_ATYPE (fld_type (it_field iter)) = PB_ATYPE_STATIC"
  shows "0 < it_pData iter" "dest \<le> it_pData iter"
    "PB_HTYPE (fld_type (it_field iter)) \<noteq> PB_HTYPE_REPEATED \<Longrightarrow> it_pData iter + value_size (it_field iter) \<le> dest + sz"
  using assms by (auto simp: iter_fits_def field_fits_def Let_def)

lemma fits_item:
  assumes "iter_fits iter dest sz" "PB_ATYPE (fld_type (it_field iter)) = PB_ATYPE_STATIC"
    "PB_HTYPE (fld_type (it_field iter)) = PB_HTYPE_REPEATED" "n < array_size (it_field iter)"
  shows "it_pData iter + unat (data_size (it_field iter) * n) + value_size (it_field iter) \<le> dest + sz"
proof -
  let ?d = "unat (data_size (it_field iter))" and ?a = "unat (array_size (it_field iter))"
  have "Suc (unat n) \<le> ?a" using assms(4) by (simp add: word_less_nat_alt)
  then have "?d * Suc (unat n) \<le> ?d * ?a" by (rule mult_le_mono2)
  moreover have "unat (data_size (it_field iter) * n) \<le> ?d * unat n" by (simp add: unat_word_ariths)
  ultimately show ?thesis using assms(1-3) by (auto simp: iter_fits_def field_fits_def Let_def)
qed

lemma fits_count:
  assumes "iter_fits iter dest sz" "PB_ATYPE (fld_type (it_field iter)) = PB_ATYPE_STATIC"
    "PB_HTYPE (fld_type (it_field iter)) = PB_HTYPE_REPEATED \<or> PB_HTYPE (fld_type (it_field iter)) = PB_HTYPE_ONEOF"
  shows "dest \<le> it_pSize iter" "it_pSize iter + 4 \<le> dest + sz"
  using assms by (auto simp: iter_fits_def field_fits_def Let_def)

lemma fits_has:
  assumes "iter_fits iter dest sz" "PB_ATYPE (fld_type (it_field iter)) = PB_ATYPE_STATIC"
    "PB_HTYPE (fld_type (it_field iter)) = PB_HTYPE_OPTIONAL" "it_pSize iter \<noteq> it_pData iter"
  shows "dest \<le> it_pSize iter" "it_pSize iter + 1 \<le> dest + sz"
  using assms by (auto simp: iter_fits_def field_fits_def Let_def)

lemma data_size_value_size: "unat (data_size f) \<le> value_size f"
  by (simp add: value_size_def)

end
