(* ===== verification/Pb_Safe.thy ===== *)
theory Pb_Safe
  imports Pb_Layout
begin

text \<open>
  The decoder keeps to the struct: defaults, release, the decoders of values and fields, and
  the loop over the input, by induction on the depth of the descriptor.
\<close>

section \<open>Defaults\<close>

definition defaults_ok :: "message_defaults \<Rightarrow> bool" where
  "defaults_ok defaults \<longleftrightarrow> (\<forall>fs sz dest m. message_fits fs sz \<longrightarrow> 0 < dest \<longrightarrow> inside dest sz m (defaults fs dest m))"

lemma inside_default:
  assumes iter: "iter_fits iter dest sz" and ok: "defaults_ok defaults"
  shows "inside dest sz m (pb_field_set_to_default defaults iter m)"
proof (cases "PB_ATYPE (fld_type (it_field iter)) = PB_ATYPE_STATIC \<and> PB_LTYPE (fld_type (it_field iter)) \<noteq> PB_LTYPE_EXTENSION")
  case True
  let ?f = "it_field iter" and ?p = "it_pData iter"
  have static: "PB_ATYPE (fld_type ?f) = PB_ATYPE_STATIC" using True by simp
  let ?m = "if PB_HTYPE (fld_type ?f) = PB_HTYPE_OPTIONAL \<and> it_pSize iter \<noteq> ?p then poke m (it_pSize iter) [0]
    else if PB_HTYPE (fld_type ?f) = PB_HTYPE_REPEATED \<or> PB_HTYPE (fld_type ?f) = PB_HTYPE_ONEOF
    then store m (it_pSize iter) (0 :: u32) else m"
  let ?data = "if PB_LTYPE (fld_type ?f) = PB_LTYPE_SUBMESSAGE
    then (case fld_ptr ?f of Fields gs \<Rightarrow> defaults gs ?p ?m | _ \<Rightarrow> ?m)
    else (case fld_ptr ?f of Default d \<Rightarrow> poke ?m ?p (take (unat (data_size ?f)) d)
      | _ \<Rightarrow> poke ?m ?p (replicate (unat (data_size ?f)) 0))"
  have m: "inside dest sz m ?m"
    using fits_has [OF iter static] fits_count [OF iter static] by (auto intro!: inside_poke inside_store)
  have "inside ?p (unat (data_size ?f)) ?m ?data"
  proof (cases "PB_LTYPE (fld_type ?f) = PB_LTYPE_SUBMESSAGE")
    case True
    then obtain gs where "fld_ptr ?f = Fields gs" "message_fits gs (unat (data_size ?f))"
      using fits_submessage [of ?f] iter static by (auto simp: iter_fits_def pb_atypes)
    then show ?thesis using True ok fits_data(1) [OF iter static] by (simp add: defaults_ok_def)
  qed (auto split: pb_ptr.split intro!: inside_poke)
  then have "inside dest sz ?m ?data" if "PB_HTYPE (fld_type ?f) \<noteq> PB_HTYPE_REPEATED"
    using fits_data(2,3) [OF iter static] data_size_value_size [of ?f] that by (elim inside_sub) simp_all
  with m have "inside dest sz m ?data" if "PB_HTYPE (fld_type ?f) \<noteq> PB_HTYPE_REPEATED"
    using that by (blast intro: inside_trans)
  moreover have "pb_field_set_to_default defaults iter m =
      (if PB_HTYPE (fld_type ?f) = PB_HTYPE_REPEATED \<or> PB_HTYPE (fld_type ?f) = PB_HTYPE_ONEOF then ?m else ?data)"
    using True by (auto simp: pb_field_set_to_default_def Let_def pb_htypes)
  ultimately show ?thesis using m by simp
next
  case False
  then show ?thesis using fits_not_pointer [OF iter] by (auto simp: pb_field_set_to_default_def Let_def)
qed

lemma inside_defaults_loop:
  assumes "message_fits fs sz" "0 < dest" "defaults_ok defaults"
  shows "k < n_places fs \<Longrightarrow> inside dest sz m (defaults_loop defaults n (iter_at fs dest k) m)"
proof (induction n arbitrary: k m)
  case (Suc n)
  obtain k' where "k' < n_places fs" "snd (pb_field_iter_next (iter_at fs dest k)) = iter_at fs dest k'"
    using iter_next_place [OF message_fits_terminated [OF assms(1)] Suc.prems] by blast
  then show ?case
    using inside_default [OF iter_at_fits [OF assms(1) Suc.prems assms(2)] assms(3)] Suc.IH
    by (cases "pb_field_iter_next (iter_at fs dest k)") (auto simp: Let_def split: bool.split intro: inside_trans)
qed simp

lemma defaults_depth_ok: "defaults_ok (defaults_depth n)"
proof (induction n)
  case (Suc n)
  have "inside dest sz m (message_set_to_defaults (defaults_depth n) fs dest m)"
    if "message_fits fs sz" "0 < dest" for fs sz dest m
    using inside_defaults_loop [OF that Suc, of 0 m "length fs"]
    by (cases "pb_field_iter_begin fs dest") (simp add: message_set_to_defaults_def n_places_def split: bool.split)
  then show ?case by (simp add: defaults_ok_def)
qed (simp add: defaults_ok_def)

lemma inside_defaults: "message_fits fs sz \<Longrightarrow> 0 < dest \<Longrightarrow> inside dest sz m (pb_message_set_to_defaults fs dest m)"
  using defaults_depth_ok [of "depth fs"] by (simp add: defaults_ok_def pb_message_set_to_defaults_def)

section \<open>Release\<close>

text \<open>A message without pointers has nothing to release.\<close>

definition release_ok :: "message_release \<Rightarrow> bool" where
  "release_ok release \<longleftrightarrow> (\<forall>fs sz dest m. message_fits fs sz \<longrightarrow> 0 < dest \<longrightarrow> release fs dest m = m)"

lemma release_okD: "release_ok release \<Longrightarrow> message_fits fs sz \<Longrightarrow> 0 < dest \<Longrightarrow> release fs dest m = m"
  unfolding release_ok_def by blast

lemma release_items_id:
  "(\<And>p m. 0 < p \<Longrightarrow> release gs p m = m) \<Longrightarrow> 0 < p \<Longrightarrow> release_items release gs step n p m = m"
  by (induction n arbitrary: p m) simp_all

lemma release_single_id:
  assumes iter: "iter_fits iter dest sz" and ok: "release_ok release"
  shows "pb_release_single_field M release iter m = m"
proof -
  let ?f = "it_field iter"
  have "release_submessages release iter m = m"
    if sub: "PB_LTYPE (fld_type ?f) = PB_LTYPE_SUBMESSAGE" "PB_ATYPE (fld_type ?f) \<noteq> PB_ATYPE_CALLBACK"
  proof -
    obtain gs where gs: "fld_ptr ?f = Fields gs" "message_fits gs (unat (data_size ?f))"
      using fits_submessage [of ?f] iter sub by (auto simp: iter_fits_def)
    have "release_items release gs step n p m = m" if "0 < p" for step n p
      using ok gs(2) that by (intro release_items_id) (auto simp: release_ok_def)
    then show ?thesis using fits_not_pointer [OF iter] gs(1) by (simp add: release_submessages_def Let_def)
  qed
  then show ?thesis using fits_not_pointer [OF iter] by (simp add: pb_release_single_field_def Let_def)
qed

lemma release_loop_id:
  assumes "message_fits fs sz" "0 < dest" "release_ok release"
  shows "k < n_places fs \<Longrightarrow> release_loop M release n (iter_at fs dest k) m = m"
proof (induction n arbitrary: k)
  case (Suc n)
  obtain k' where "k' < n_places fs" "snd (pb_field_iter_next (iter_at fs dest k)) = iter_at fs dest k'"
    using iter_next_place [OF message_fits_terminated [OF assms(1)] Suc.prems] by blast
  then show ?case
    using release_single_id [OF iter_at_fits [OF assms(1) Suc.prems assms(2)] assms(3)] Suc.IH
    by (cases "pb_field_iter_next (iter_at fs dest k)") (auto simp: Let_def split: bool.split)
qed simp

lemma release_depth_ok: "release_ok (release_depth M n)"
proof (induction n)
  case (Suc n)
  have "release_message M (release_depth M n) fs dest m = m" if "message_fits fs sz" "0 < dest" for fs sz dest m
    using release_loop_id [OF that Suc, of 0 M "length fs" m]
    by (cases "pb_field_iter_begin fs dest") (simp add: release_message_def n_places_def split: bool.split)
  then show ?case by (simp add: release_ok_def)
qed (simp add: release_ok_def)

lemma release_ok_pb_release: "release_ok (pb_release M)"
  using release_depth_ok [of M] by (simp add: release_ok_def pb_release_def)

section \<open>Values\<close>

definition decoder_ok :: "'s message_decoder \<Rightarrow> bool" where
  "decoder_ok dec \<longleftrightarrow>
     (\<forall>fs sz dest s. message_fits fs sz \<longrightarrow> 0 < dest \<longrightarrow> fills (is_callback (fst s)) \<longrightarrow> kept dest sz s (snd (dec fs dest s)))"

lemma decoder_okD:
  "decoder_ok dec \<Longrightarrow> message_fits fs sz \<Longrightarrow> 0 < dest \<Longrightarrow> fills (is_callback (fst s)) \<Longrightarrow>
   kept dest sz s (snd (dec fs dest s))"
  unfolding decoder_ok_def by blast

lemma kept_store_checked:
  fixes v :: "'a :: len word"
  assumes "LENGTH('a) div 8 \<le> n"
  shows "kept a n s (snd (store_checked same a v s))"
  using assms by (auto simp: store_checked_def Let_def kept_def dec_error_def intro: inside_store)

lemma kept_store_signed: "kept a (unat (data_size f)) s (snd (store_signed f a v s))"
  unfolding store_signed_def by (auto intro!: kept_store_checked)

lemma kept_varints:
  "kept a (unat (data_size f)) s (snd (pb_dec_varint f a s))"
  "kept a (unat (data_size f)) s (snd (pb_dec_uvarint f a s))"
  "kept a (unat (data_size f)) s (snd (pb_dec_svarint f a s))"
  unfolding pb_dec_varint_def pb_dec_uvarint_def pb_dec_svarint_def Let_def
  by (rule kept_with_stream, rule cb_numbers, rule kept_store_signed)
    (rule kept_with_stream, rule cb_numbers, auto intro!: kept_store_checked,
     rule kept_with_stream, rule cb_numbers, rule kept_store_signed)

lemma kept_poke: "a \<le> b \<Longrightarrow> b + length xs \<le> a + n \<Longrightarrow> kept a n s (fst s, poke (snd s) b xs)"
  by (simp add: kept_def inside_poke)

lemma kept_store: "a \<le> b \<Longrightarrow> b + LENGTH('a) div 8 \<le> a + n \<Longrightarrow> kept a n s (fst s, store (snd s) b (w :: 'a :: len word))"
  by (simp add: kept_def inside_store)

lemma kept_bool: "kept a 1 s (snd (pb_dec_bool a s))"
  unfolding pb_dec_bool_def by (rule kept_with_stream) (auto intro!: kept_poke)

lemma kept_fixed:
  "kept a 4 s (snd (pb_dec_fixed32 a s))"
  "kept a 8 s (snd (pb_dec_fixed64 a s))"
  unfolding pb_dec_fixed32_def pb_dec_fixed64_def
  by (rule kept_with_stream; auto intro!: kept_store)+

lemma kept_read_into:
  assumes "fills (is_callback (fst s))" "a \<le> b" "b + n \<le> a + sz"
  shows "kept a sz s (snd (read_into b n s))"
proof -
  obtain r st where r: "pb_read n (fst s) = (r, st)" by force
  then have "is_callback st = is_callback (fst s)" using cb_pb_read [of n "fst s"] by simp
  moreover have "length buf \<le> n" if "r = Some buf" for buf using pb_read_fills [OF assms(1)] r that by simp
  ultimately show ?thesis
    using r assms(2,3) by (force simp: read_into_def with_stream_def kept_def split: option.split intro: inside_poke)
qed

lemma kept_value_room:
  assumes "PB_ATYPE (fld_type f) \<noteq> PB_ATYPE_POINTER"
    "alloc_size \<le> ucast (data_size f) \<Longrightarrow> kept a (unat (data_size f)) s (snd (k a s))"
  shows "kept a (unat (data_size f)) s (snd (value_room M msg f a n alloc_size s k))"
  using assms by (simp add: value_room_def not_less)

lemma unat_ucast_64 [simp]: "unat (ucast (n :: u32) :: u64) = unat n"
  by (simp add: unsigned_ucast_eq take_bit_nat_eq_self_iff) (use unat_less_pow(2) [of n] in simp)

lemma kept_bytes:
  assumes "PB_ATYPE (fld_type f) \<noteq> PB_ATYPE_POINTER" "fills (is_callback (fst s))"
  shows "kept a (unat (data_size f)) s (snd (pb_dec_bytes M f a s))"
  unfolding pb_dec_bytes_def
proof (rule kept_with_stream)
  fix n :: u32 and s' :: "'a dstate"
  assume cb: "is_callback (fst s') = is_callback (fst s)"
  have "kept a (unat (data_size f)) s' (snd (read_into (a + 4) (unat n) (fst s', store (snd s') a n)))"
    if "ucast n + 4 \<le> (ucast (data_size f) :: u64)"
  proof -
    have "unat (ucast n + 4 :: u64) = unat n + 4"
      using unat_less_pow(2) [of n] by (simp add: unat_word_ariths)
    then have n: "unat n + 4 \<le> unat (data_size f)" using that by (simp add: word_le_nat_alt)
    then have "kept a (unat (data_size f)) s' (fst s', store (snd s') a n)" by (intro kept_store) simp_all
    moreover have "kept a (unat (data_size f)) (fst s', store (snd s') a n)
        (snd (read_into (a + 4) (unat n) (fst s', store (snd s') a n)))"
      using n assms(2) cb by (intro kept_read_into) simp_all
    ultimately show ?thesis by (rule kept_trans)
  qed
  then show "kept a (unat (data_size f)) s' (snd (if n > PB_SIZE_MAX then dec_error ''bytes overflow'' s'
      else let alloc_size = ucast n + 4
           in if ucast n > alloc_size then dec_error ''size too large'' s'
              else value_room M ''bytes overflow'' f a n alloc_size s' (\<lambda>bdest s.
                     read_into (bdest + 4) (unat n) (fst s, store (snd s) bdest n))))"
    using assms(1) by (auto simp: Let_def intro!: kept_value_room)
qed simp

lemma kept_string:
  assumes "PB_ATYPE (fld_type f) \<noteq> PB_ATYPE_POINTER" "fills (is_callback (fst s))"
  shows "kept a (unat (data_size f)) s (snd (pb_dec_string M f a s))"
  unfolding pb_dec_string_def Let_def
proof (rule kept_with_stream)
  fix n :: u32 and s' :: "'a dstate"
  assume cb: "is_callback (fst s') = is_callback (fst s)"
  show "kept a (unat (data_size f)) s' (snd (if (ucast (n + 1) :: u64) < ucast n then dec_error ''size too large'' s'
      else value_room M ''string overflow'' f a n (ucast (n + 1)) s' (\<lambda>dest s.
             case read_into dest (unat n) s of (status, st, mem) \<Rightarrow> (status, st, poke mem (dest + unat n) [0]))))"
  proof (cases "(ucast (n + 1) :: u64) < ucast n")
    case False
    then have "unat n \<le> (unat n + 1) mod 2 ^ 32" by (simp add: word_less_nat_alt not_less unat_word_ariths)
    then have "unat n + 1 < 2 ^ 32" using unat_less_pow(2) [of n] by (cases "unat n + 1 = 2 ^ 32") auto
    then have "unat (n + 1) = unat n + 1" by (simp add: unat_word_ariths)
    moreover have "kept a (unat (data_size f)) s' (snd (case read_into a (unat n) s' of
        (status, st, mem) \<Rightarrow> (status, st, poke mem (a + unat n) [0])))"
      if n: "unat n + 1 \<le> unat (data_size f)"
    proof -
      obtain status st mem where r: "read_into a (unat n) s' = (status, st, mem)" using prod_cases3 by blast
      have "kept a (unat (data_size f)) s' (snd (read_into a (unat n) s'))"
        using n assms(2) cb by (intro kept_read_into) simp_all
      moreover have "kept a (unat (data_size f)) (st, mem) (st, poke mem (a + unat n) [0])"
        using n by (intro kept_mem inside_poke) simp_all
      ultimately show ?thesis using r by (auto intro: kept_trans)
    qed
    ultimately show ?thesis
      using False assms(1) by (auto simp: word_le_nat_alt intro!: kept_value_room)
  qed simp
qed simp

lemma kept_fixed_length_bytes:
  assumes "fills (is_callback (fst s))"
  shows "kept a (unat (data_size f)) s (snd (pb_dec_fixed_length_bytes f a s))"
  unfolding pb_dec_fixed_length_bytes_def
  by (rule kept_with_stream) (auto intro!: kept_poke kept_read_into simp: assms)

lemma kept_in_substream:
  assumes "\<And>sub s'. is_callback sub = is_callback (fst s) \<Longrightarrow> is_callback (fst s') = is_callback (fst s) \<Longrightarrow>
    case work sub s' of Inl (_, _, s'') \<Rightarrow> kept a n s' s'' | Inr s'' \<Rightarrow> kept a n s' s''"
  shows "kept a n s (snd (in_substream s work))"
proof -
  obtain r st where r: "pb_make_string_substream (fst s) = (r, st)" by force
  then have st: "is_callback st = is_callback (fst s)" using cb_make_substream [of "fst s"] by simp
  show ?thesis
  proof (cases r)
    case None
    then show ?thesis using r st by (simp add: in_substream_def with_stream_def kept_def)
  next
    case (Some sub)
    have s: "kept a n s (st, snd s)" by (simp add: kept_def st)
    have "is_callback sub = is_callback (fst s)" using cb_substream r Some by blast
    then have w: "case work sub (st, snd s) of Inl (_, _, s'') \<Rightarrow> kept a n (st, snd s) s'' | Inr s'' \<Rightarrow> kept a n (st, snd s) s''"
      using assms st by simp
    show ?thesis
    proof (cases "work sub (st, snd s)")
      case (Inl x)
      obtain sub' status s' where x: "x = (sub', status, s')" by (metis prod_cases3)
      obtain c st' where c: "pb_close_string_substream (fst s') sub' = (c, st')" by force
      then have "kept a n s' (st', snd s')" using cb_close [of "fst s'" sub'] by (simp add: kept_def)
      then have "kept a n (st, snd s) (st', snd s')" using w Inl x by (auto intro: kept_trans)
      then show ?thesis
        using r Some Inl x c s by (auto simp: in_substream_def with_stream_def split: option.split intro: kept_trans)
    next
      case (Inr s')
      then show ?thesis using r Some w s by (auto simp: in_substream_def with_stream_def intro: kept_trans)
    qed
  qed
qed

lemma decode_init_ok: "decoder_ok noinit \<Longrightarrow> decoder_ok (decode_init M noinit)"
proof -
  assume ok: "decoder_ok noinit"
  have "kept dest sz s (snd (decode_init M noinit fs dest s))"
    if fits: "message_fits fs sz" "0 < dest" and cb: "fills (is_callback (fst s))" for fs sz dest and s :: "'a dstate"
  proof -
    let ?s = "(fst s, pb_message_set_to_defaults fs dest (snd s))"
    have "kept dest sz s ?s" by (simp add: kept_def inside_defaults fits)
    moreover have "kept dest sz ?s (snd (noinit fs dest ?s))" using decoder_okD [OF ok fits, of ?s] cb by simp
    ultimately have "kept dest sz s (snd (noinit fs dest ?s))" by (rule kept_trans)
    moreover have "pb_release M fs dest m = m" for m by (rule release_okD [OF release_ok_pb_release fits])
    ultimately show ?thesis by (auto simp: decode_init_def split: prod.split bool.split)
  qed
  then show ?thesis by (simp only: decoder_ok_def) blast
qed

lemma kept_submessage:
  assumes "decoder_ok noinit" "fld_ptr f = Fields gs" "message_fits gs (unat (data_size f))" "0 < a"
    "fills (is_callback (fst s))"
  shows "kept a (unat (data_size f)) s (snd (pb_dec_submessage M noinit f a s))"
  unfolding pb_dec_submessage_def
proof (rule kept_in_substream)
  fix sub :: "'a pb_istream" and s' :: "'a dstate"
  assume cb: "is_callback sub = is_callback (fst s)" "is_callback (fst s') = is_callback (fst s)"
  let ?dec = "if PB_HTYPE (fld_type f) = PB_HTYPE_REPEATED then decode_init M noinit else noinit"
  have "decoder_ok ?dec" using assms(1) decode_init_ok [OF assms(1), of M] by presburger
  from decoder_okD [OF this assms(3,4), of "(sub, snd s')"] assms(5) cb(1)
  have "inside a (unat (data_size f)) (snd s') (snd (snd (?dec gs a (sub, snd s'))))" by (simp add: kept_def)
  moreover obtain status sub' m where eq: "?dec gs a (sub, snd s') = (status, sub', m)" by (metis prod_cases3)
  ultimately show "case (case fld_ptr f of
         Fields gs \<Rightarrow> (case ?dec gs a (sub, snd s') of (status, substream, mem) \<Rightarrow> Inl (substream, status, fst s', mem))
       | _ \<Rightarrow> Inr (snd (dec_error ''invalid field descriptor'' s'))) of
      Inl (_, _, s'') \<Rightarrow> kept a (unat (data_size f)) s' s'' | Inr s'' \<Rightarrow> kept a (unat (data_size f)) s' s''"
    by (simp only: assms(2) pb_ptr.case eq prod.case sum.case) (simp add: kept_def)
qed

lemma kept_if:
  "(c \<Longrightarrow> kept a n s (snd x)) \<Longrightarrow> (\<not> c \<Longrightarrow> kept a n s (snd y)) \<Longrightarrow> kept a n s (snd (if c then x else y))"
  by simp

lemma kept_decoders:
  assumes "decoder_ok noinit" "fits_field f" "PB_ATYPE (fld_type f) = PB_ATYPE_STATIC" "0 < a" "fills (is_callback (fst s))"
  shows "kept a (value_size f) s (snd (PB_DECODERS M noinit f a s))"
proof -
  have static: "PB_ATYPE (fld_type f) \<noteq> PB_ATYPE_POINTER" "PB_ATYPE (fld_type f) \<noteq> PB_ATYPE_CALLBACK"
    using assms(3) by (simp_all add: pb_atypes)
  have sub: "kept a (unat (data_size f)) s (snd (pb_dec_submessage M noinit f a s))"
    if "PB_LTYPE (fld_type f) = PB_LTYPE_SUBMESSAGE"
    using fits_submessage [OF assms(2) that static(2)] kept_submessage [OF assms(1) _ _ assms(4,5)] by blast
  have wide: "kept a (unat (data_size f)) s s' \<Longrightarrow> kept a (value_size f) s s'" for s'
    by (erule kept_sub) (simp_all add: data_size_value_size)
  have fixed: "PB_LTYPE (fld_type f) = PB_LTYPE_BOOL \<Longrightarrow> 1 \<le> value_size f"
    "PB_LTYPE (fld_type f) = PB_LTYPE_FIXED32 \<Longrightarrow> 4 \<le> value_size f"
    "PB_LTYPE (fld_type f) = PB_LTYPE_FIXED64 \<Longrightarrow> 8 \<le> value_size f"
    by (simp_all add: value_size_def pb_ltypes)
  show ?thesis
    unfolding PB_DECODERS_def Let_def
  proof (intro kept_if)
    show "kept a (value_size f) s (snd (pb_dec_submessage M noinit f a s))"
      if "PB_LTYPE (fld_type f) = PB_LTYPE_SUBMESSAGE" using wide [OF sub [OF that]] .
  qed (simp_all only: wide kept_varints kept_bytes [OF static(1) assms(5)] kept_string [OF static(1) assms(5)]
        kept_fixed_length_bytes [OF assms(5)] snd_conv kept_refl kept_sub [OF kept_bool order_refl]
        kept_sub [OF kept_fixed(1) order_refl] kept_sub [OF kept_fixed(2) order_refl] fixed add_le_cancel_left)
qed

section \<open>Fields\<close>

definition kept_field :: "nat \<Rightarrow> nat \<Rightarrow> 's fstate \<Rightarrow> 's fstate \<Rightarrow> bool" where
  "kept_field a n s s' \<longleftrightarrow> kept a n (fst s, fst (snd s)) (fst s', fst (snd s'))"

lemma kept_field_trans: "kept_field a n s s' \<Longrightarrow> kept_field a n s' s'' \<Longrightarrow> kept_field a n s s''"
  unfolding kept_field_def by (rule kept_trans)

lemma kept_field_lift [simp]: "kept_field a n s (snd (lift_local local r)) \<longleftrightarrow> kept a n (fst s, fst (snd s)) (snd r)"
  by (simp add: kept_field_def lift_local_def)

lemma kept_set_count:
  assumes "iter_fits iter dest sz" "PB_ATYPE (fld_type (it_field iter)) = PB_ATYPE_STATIC"
    "PB_HTYPE (fld_type (it_field iter)) = PB_HTYPE_REPEATED" "loc = None \<or> loc = Some (it_pSize iter)"
  shows "inside dest sz m (fst (set_count loc n m local))"
  using assms(4) fits_count [OF assms(1,2)] assms(3) by (auto simp: set_count_def intro!: inside_store)

text \<open>An entry of a static array.\<close>

lemma kept_item:
  assumes "decoder_ok noinit" "iter_fits iter dest sz" "PB_ATYPE (fld_type (it_field iter)) = PB_ATYPE_STATIC"
    "PB_HTYPE (fld_type (it_field iter)) = PB_HTYPE_REPEATED" "n < array_size (it_field iter)" "fills (is_callback (fst s))"
  shows "kept dest sz s (snd (PB_DECODERS M noinit (it_field iter)
    (it_pData iter + unat (data_size (it_field iter) * n)) s))"
proof -
  let ?p = "it_pData iter + unat (data_size (it_field iter) * n)"
  have "fits_field (it_field iter)" using assms(2) by (auto simp: iter_fits_def)
  then have "kept ?p (value_size (it_field iter)) s (snd (PB_DECODERS M noinit (it_field iter) ?p s))"
    using assms(1,3,6) fits_data(1) [OF assms(2,3)] by (intro kept_decoders) simp_all
  then show ?thesis
    using fits_item [OF assms(2-5)] fits_data(2) [OF assms(2,3)] by (elim kept_sub) simp_all
qed

lemma kept_packed_loop:
  assumes "decoder_ok noinit" "iter_fits iter dest sz" "PB_ATYPE (fld_type (it_field iter)) = PB_ATYPE_STATIC"
    "PB_HTYPE (fld_type (it_field iter)) = PB_HTYPE_REPEATED" "loc = None \<or> loc = Some (it_pSize iter)"
  shows "fills (is_callback (fst s)) \<Longrightarrow> kept_field dest sz s (snd (packed_loop M noinit iter loc turns s))"
proof (induction turns arbitrary: s)
  case (Suc turns)
  obtain sub mem local where s: "s = (sub, mem, local)" using prod_cases3 by blast
  let ?n = "get_count loc mem local"
  let ?d = "PB_DECODERS M noinit (it_field iter) (it_pData iter + unat (data_size (it_field iter) * ?n)) (sub, mem)"
  show ?case
  proof (cases "bytes_left sub > 0 \<and> ?n < array_size (it_field iter)")
    case True
    obtain ok sub' mem' where d: "?d = (ok, sub', mem')" using prod_cases3 by blast
    have "kept dest sz (sub, mem) (snd ?d)"
      using True Suc.prems s by (intro kept_item [OF assms(1-4)]) simp_all
    then have k: "kept dest sz (sub, mem) (sub', mem')" using d by simp
    let ?s = "(sub', set_count loc (get_count loc mem' local + 1) mem' local)"
    have "inside dest sz mem' (fst (snd ?s))" using kept_set_count [OF assms(2-5)] by simp
    then have "kept_field dest sz s ?s" using k s by (auto simp: kept_field_def kept_def intro: inside_trans)
    moreover have "kept_field dest sz ?s (snd (packed_loop M noinit iter loc turns ?s))"
      using k Suc.prems s by (intro Suc.IH) (simp add: kept_def)
    ultimately have "kept_field dest sz s (snd (packed_loop M noinit iter loc turns ?s))" by (rule kept_field_trans)
    then show ?thesis using True s d k by (cases ok) (simp_all add: kept_field_def Let_def)
  qed (use s in \<open>auto simp: kept_field_def Let_def\<close>)
qed (simp add: kept_field_def)

lemma kept_close:
  "kept a n (st, m) (snd (case pb_close_string_substream st sub of (None, st) \<Rightarrow> (False, st, m) | (Some _, st) \<Rightarrow> (status, st, m)))"
  using cb_close [of st sub] by (auto simp: kept_def simp del: cb_close split: prod.split option.split)

lemma kept_static_repeated:
  assumes "decoder_ok noinit" "iter_fits iter dest sz" "PB_ATYPE (fld_type (it_field iter)) = PB_ATYPE_STATIC"
    "PB_HTYPE (fld_type (it_field iter)) = PB_HTYPE_REPEATED" "loc = None \<or> loc = Some (it_pSize iter)"
    "fills (is_callback st)"
  shows "kept_field dest sz (st, m, local) (snd (decode_static_field M noinit wt iter loc (st, m, local)))"
proof (cases "wt = PB_WT_STRING \<and> PB_LTYPE (fld_type (it_field iter)) \<le> PB_LTYPE_LAST_PACKABLE")
  case packed: True
  obtain r st1 where r: "pb_make_string_substream st = (r, st1)" by force
  then have st1: "is_callback st1 = is_callback st" using cb_make_substream [of st] by simp
  show ?thesis
  proof (cases r)
    case None
    then show ?thesis using assms(4) packed r st1
      by (simp add: decode_static_field_def Let_def pb_htypes kept_field_def kept_def)
  next
    case (Some sub)
    let ?l = "packed_loop M noinit iter loc (bytes_left sub) (sub, m, local)"
    obtain status sub' m' local' where l: "?l = (status, sub', m', local')" by (metis prod_cases4)
    have "is_callback sub = is_callback st" using cb_substream r Some by blast
    then have "kept_field dest sz (sub, m, local) (snd ?l)"
      using assms(6) by (intro kept_packed_loop [OF assms(1-5)]) simp
    then have m': "inside dest sz m m'" using l by (simp add: kept_field_def kept_def)
    have "kept dest sz (st, m) (st2, m')" if "is_callback st2 = is_callback st1" for st2
      using that st1 m' by (simp add: kept_def)
    then show ?thesis using assms(4) packed r Some l cb_close [of st1 sub']
      by (auto simp: decode_static_field_def Let_def pb_htypes kept_field_def lift_local_def dec_error_def
          simp del: cb_close split: prod.split option.split)
  qed
next
  case False
  let ?n = "get_count loc m local"
  obtain m' local' where c: "set_count loc (?n + 1) m local = (m', local')" by force
  have m': "inside dest sz m m'" using kept_set_count [OF assms(2-5), of m "?n + 1" local] c by simp
  have d: "kept dest sz (st, m) (snd (PB_DECODERS M noinit (it_field iter)
      (it_pData iter + unat (data_size (it_field iter) * ?n)) (st, m')))" if "?n < array_size (it_field iter)"
    by (rule kept_first [OF kept_item [OF assms(1-4) that] m']) (simp add: assms(6))
  have e: "kept dest sz (st, m) (snd (dec_error msg (st, m')))" for msg
    by (rule kept_first [OF kept_error m'])
  have eq: "decode_static_field M noinit wt iter loc (st, m, local) =
      (if ?n \<ge> array_size (it_field iter) then lift_local local' (dec_error ''array overflow'' (st, m'))
       else lift_local local' (PB_DECODERS M noinit (it_field iter)
         (it_pData iter + unat (data_size (it_field iter) * ?n)) (st, m')))"
    using assms(4) False c by (auto simp: decode_static_field_def Let_def pb_htypes)
  show ?thesis unfolding eq using d e by (auto simp: not_le kept_field_lift)
qed

lemma kept_static_single:
  assumes "decoder_ok noinit" "iter_fits iter dest sz" "PB_ATYPE (fld_type (it_field iter)) = PB_ATYPE_STATIC"
    "PB_HTYPE (fld_type (it_field iter)) \<noteq> PB_HTYPE_REPEATED" "fills (is_callback st)"
  shows "kept_field dest sz (st, m, local) (snd (decode_static_field M noinit wt iter loc (st, m, local)))"
proof -
  let ?f = "it_field iter" and ?p = "it_pData iter"
  have f: "fits_field ?f" using assms(2) by (auto simp: iter_fits_def)
  note p = fits_data [OF assms(2,3)]
  have inside_value: "inside ?p (value_size ?f) m1 m2 \<Longrightarrow> inside dest sz m1 m2" for m1 m2
    by (erule inside_sub [OF _ p(2) p(3) [OF assms(4)]])
  have dec: "kept_field dest sz (st, m, local) (snd (lift_local local (PB_DECODERS M noinit ?f ?p (st, m'))))"
    if m': "inside dest sz m m'" for m'
  proof -
    have "kept ?p (value_size ?f) (st, m') (snd (PB_DECODERS M noinit ?f ?p (st, m')))"
      using assms(1,3,5) f p(1) by (intro kept_decoders) simp_all
    then have "kept dest sz (st, m') (snd (PB_DECODERS M noinit ?f ?p (st, m')))"
      by (rule kept_sub [OF _ p(2) p(3) [OF assms(4)]])
    then show ?thesis by (simp add: kept_first [OF _ m'])
  qed
  consider (required) "PB_HTYPE (fld_type ?f) = PB_HTYPE_REQUIRED" | (optional) "PB_HTYPE (fld_type ?f) = PB_HTYPE_OPTIONAL"
    | (oneof) "PB_HTYPE (fld_type ?f) \<noteq> PB_HTYPE_REQUIRED" "PB_HTYPE (fld_type ?f) \<noteq> PB_HTYPE_OPTIONAL" by blast
  then show ?thesis
  proof cases
    case required
    then show ?thesis using dec [OF inside_refl] by (simp add: decode_static_field_def Let_def)
  next
    case optional
    have "inside dest sz m (if it_pSize iter \<noteq> ?p then poke m (it_pSize iter) [1] else m)"
      using fits_has [OF assms(2,3) optional] by (auto intro: inside_poke)
    from dec [OF this] optional show ?thesis by (simp add: decode_static_field_def Let_def pb_htypes cong: if_cong)
  next
    case oneof
    then have "PB_HTYPE (fld_type ?f) = PB_HTYPE_ONEOF"
      using assms(4) htype_cases [of "fld_type ?f"] by simp
    then have size: "dest \<le> it_pSize iter" "it_pSize iter + 4 \<le> dest + sz" using fits_count [OF assms(2,3)] by simp_all
    define m1 where "m1 = (let mem = poke m ?p (replicate (unat (data_size ?f)) 0)
                  in case fld_ptr ?f of Fields gs \<Rightarrow> pb_message_set_to_defaults gs ?p mem | _ \<Rightarrow> mem)"
    define m2 where "m2 = (if PB_LTYPE (fld_type ?f) = PB_LTYPE_SUBMESSAGE \<and> load m (it_pSize iter) \<noteq> fld_tag ?f then m1 else m)"
    have zero: "inside dest sz m (poke m ?p (replicate (unat (data_size ?f)) 0))"
      using data_size_value_size [of ?f] by (intro inside_value inside_poke) simp_all
    have "inside dest sz m m1" if sub: "PB_LTYPE (fld_type ?f) = PB_LTYPE_SUBMESSAGE"
    proof -
      obtain gs where gs: "fld_ptr ?f = Fields gs" "message_fits gs (unat (data_size ?f))"
        using fits_submessage [OF f sub] assms(3) by (auto simp: pb_atypes)
      have "inside ?p (unat (data_size ?f)) x (pb_message_set_to_defaults gs ?p x)" for x
        by (rule inside_defaults [OF gs(2) p(1)])
      then have "inside ?p (value_size ?f) x (pb_message_set_to_defaults gs ?p x)" for x
        by (rule inside_sub [OF _ order_refl]) (simp add: data_size_value_size)
      then have "inside dest sz x (pb_message_set_to_defaults gs ?p x)" for x by (rule inside_value)
      then show ?thesis unfolding m1_def gs(1) Let_def pb_ptr.case by (rule inside_trans [OF zero])
    qed
    then have "inside dest sz m m2" by (simp add: m2_def)
    moreover have "inside dest sz m2 (store m2 (it_pSize iter) (fld_tag ?f))" using size by (intro inside_store) simp_all
    ultimately have "inside dest sz m (store m2 (it_pSize iter) (fld_tag ?f))" by (rule inside_trans)
    from dec [OF this] show ?thesis
      using oneof assms(4) unfolding m1_def m2_def by (simp add: decode_static_field_def Let_def)
  qed
qed

lemma kept_static_field:
  assumes "decoder_ok noinit" "iter_fits iter dest sz" "PB_ATYPE (fld_type (it_field iter)) = PB_ATYPE_STATIC"
    "loc = None \<or> loc = Some (it_pSize iter)" "fills (is_callback st)"
  shows "kept_field dest sz (st, m, local) (snd (decode_static_field M noinit wt iter loc (st, m, local)))"
  using kept_static_single [OF assms(1-3) _ assms(5)] kept_static_repeated [OF assms(1-3) _ assms(4,5)] by blast

lemma kept_skip: "kept a n s (snd (with_stream (pb_skip_field wt) s (\<lambda>_ s. (True, s))))"
  by (rule kept_with_stream) simp_all

lemma kept_callback_field: "kept_field a n (st, m, local) (snd (decode_callback_field wt (st, m, local)))"
  using kept_skip [of a n "(st, m)" wt] by (simp add: decode_callback_field_def)

lemma kept_union:
  assumes "message_fits fs sz" "0 < dest" "k < n_places fs"
  obtains ok k' s' where "pb_release_union_field M (iter_at fs dest k) s = (ok, iter_at fs dest k', s')"
    "k' < n_places fs" "kept dest sz s s'"
proof -
  note t = message_fits_terminated [OF assms(1)]
  let ?old = "load (snd s) (it_pSize (iter_at fs dest k)) :: u32" and ?new = "fld_tag (it_field (iter_at fs dest k))"
  show ?thesis
  proof (cases "?old = 0 \<or> ?old = ?new")
    case True
    then have "pb_release_union_field M (iter_at fs dest k) s = (True, iter_at fs dest k, s)"
      unfolding pb_release_union_field_def Let_def by (rule if_P)
    then show ?thesis using that assms(3) kept_refl by blast
  next
    case False
    obtain ok1 k1 where 1: "pb_field_iter_find (iter_at fs dest k) ?old = (ok1, iter_at fs dest k1)" "k1 < n_places fs"
      using pb_field_iter_find_place [OF t assms(3), of dest ?old] by blast
    obtain ok2 k2 where 2: "pb_field_iter_find (iter_at fs dest k1) ?new = (ok2, iter_at fs dest k2)" "k2 < n_places fs"
      using pb_field_iter_find_place [OF t 1(2), of dest ?new] by blast
    have rel: "pb_release_single_field M (pb_release M) (iter_at fs dest k1) m = m" for m
      by (rule release_single_id [OF iter_at_fits [OF assms(1) 1(2) assms(2)] release_ok_pb_release])
    have "PB_ATYPE (fld_type (it_field (iter_at fs dest k2))) \<noteq> PB_ATYPE_POINTER"
      by (rule fits_not_pointer [OF iter_at_fits [OF assms(1) 2(2) assms(2)]])
    note ptr = this
    have "pb_release_union_field M (iter_at fs dest k) s =
        (if \<not> ok1 then (False, iter_at fs dest k1, snd (dec_error ''invalid union tag'' s))
         else if \<not> ok2 then (False, iter_at fs dest k2, snd (dec_error ''iterator error'' s))
         else (True, iter_at fs dest k2, s))"
      unfolding pb_release_union_field_def Let_def if_not_P [OF False] 1(1) 2(1) rel prod.case
        fst_conv snd_conv if_not_P [OF ptr] prod.collapse by (cases ok1; cases ok2) (simp_all only: bool.case if_True if_False not_True_eq_False not_False_eq_True)
    then consider
        "pb_release_union_field M (iter_at fs dest k) s = (False, iter_at fs dest k1, snd (dec_error ''invalid union tag'' s))"
      | "pb_release_union_field M (iter_at fs dest k) s = (False, iter_at fs dest k2, snd (dec_error ''iterator error'' s))"
      | "pb_release_union_field M (iter_at fs dest k) s = (True, iter_at fs dest k2, s)" by presburger
    then show ?thesis
    proof cases
      case 1
      then show ?thesis using that \<open>k1 < n_places fs\<close> kept_error by blast
    next
      case 2
      then show ?thesis using that \<open>k2 < n_places fs\<close> kept_error by blast
    next
      case 3
      then show ?thesis using that \<open>k2 < n_places fs\<close> kept_refl by blast
    qed
  qed
qed

lemma kept_decode_field:
  assumes "decoder_ok noinit" "message_fits fs sz" "0 < dest" "k < n_places fs" "fills (is_callback (fst s))"
  obtains ok k' s' where "decode_field M noinit wt fixed (iter_at fs dest k) s = (ok, iter_at fs dest k', s')"
    "k' < n_places fs" "kept_field dest sz s s'"
proof -
  obtain st m local where s: "s = (st, m, local)" using prod_cases3 by blast
  let ?iter = "iter_at fs dest k"
  obtain ok k1 st1 m1 where u: "(if PB_HTYPE (fld_type (it_field ?iter)) = PB_HTYPE_ONEOF
      then pb_release_union_field M ?iter (st, m) else (True, ?iter, st, m)) = (ok, iter_at fs dest k1, st1, m1)"
    "k1 < n_places fs" "kept dest sz (st, m) (st1, m1)"
  proof (cases "PB_HTYPE (fld_type (it_field ?iter)) = PB_HTYPE_ONEOF")
    case True
    obtain ok k1 s1 where "pb_release_union_field M ?iter (st, m) = (ok, iter_at fs dest k1, s1)"
        "k1 < n_places fs" "kept dest sz (st, m) s1"
      using kept_union [OF assms(2-4), of M "(st, m)"] by blast
    with True that [of ok k1 "fst s1" "snd s1"] show ?thesis by simp
  next
    case False
    with that [of True k st m] assms(4) show ?thesis by simp
  qed
  let ?it = "iter_at fs dest k1" and ?loc = "if fixed then None else Some (it_pSize (iter_at fs dest k1))"
  let ?atype = "PB_ATYPE (fld_type (it_field ?it))"
  let ?r = "if ?atype = PB_ATYPE_STATIC then decode_static_field M noinit wt ?it ?loc (st1, m1, local)
    else if ?atype = PB_ATYPE_POINTER then decode_pointer_field M noinit wt ?it ?loc (st1, m1, local)
    else if ?atype = PB_ATYPE_CALLBACK then decode_callback_field wt (st1, m1, local)
    else lift_local local (dec_error ''invalid field type'' (st1, m1))"
  note fits = iter_at_fits [OF assms(2) u(2) assms(3)]
  have "fills (is_callback st1)" using u(3) assms(5) s by (simp add: kept_def)
  then have "kept_field dest sz (st1, m1, local) (snd ?r)"
    using kept_static_field [OF assms(1) fits, of ?loc st1 m1 local M wt] fits_not_pointer [OF fits]
    by (simp add: kept_callback_field)
  then have r: "kept_field dest sz s (snd ?r)" using u(3) s by (auto simp: kept_field_def intro: kept_trans)
  have eq: "decode_field M noinit wt fixed ?iter s =
      (if ok then (fst ?r, ?it, snd ?r) else (False, ?it, st1, m1, local))"
    unfolding decode_field_def s prod.case u(1) Let_def
    by (cases ok) (simp_all only: bool.case if_True if_False prod.case_eq_if)
  show ?thesis
  proof (cases ok)
    case True
    then show ?thesis using that [OF _ u(2) r] eq by simp
  next
    case False
    have "kept_field dest sz s (st1, m1, local)" using u(3) s by (simp add: kept_field_def)
    then show ?thesis using that [OF _ u(2)] eq False by simp
  qed
qed

section \<open>Messages\<close>

definition kept_turn :: "pb_field list \<Rightarrow> nat \<Rightarrow> nat \<Rightarrow> 's dstate \<Rightarrow> turn \<times> dec_loop \<times> 's dstate \<Rightarrow> bool" where
  "kept_turn fs dest sz s r \<longleftrightarrow> on_field fs dest (fst (snd r)) \<and> kept dest sz s (snd (snd r))"

lemma kept_unknown_field:
  assumes "terminated fs" "on_field fs dest l"
  shows "kept_turn fs dest sz s (unknown_field wt tag l s)"
proof -
  obtain k where k: "k < n_places fs" "dl_iter l = iter_at fs dest k" using assms(2) by (auto simp: on_field_def)
  obtain k' where k': "k' < n_places fs" "snd (find_extension_field (iter_at fs dest k)) = iter_at fs dest k'"
    using find_extension_at [OF assms(1) k(1), of dest] by blast
  obtain found iter where e: "find_extension_field (dl_iter l) = (found, iter)" by force
  then have "iter = iter_at fs dest k'" using k(2) k'(2) by simp
  then have "on_field fs dest (if tag \<ge> extension_range_start l
       then (case find_extension_field (dl_iter l) of
               (False, iter) \<Rightarrow> l\<lparr>dl_iter := iter, extension_range_start := 0xffffffff\<rparr>
             | (True, iter) \<Rightarrow> l\<lparr>dl_iter := iter, extension_range_start := fld_tag (it_field iter)\<rparr>) else l)" (is "on_field fs dest ?l")
    using assms(2) k'(1) e by (cases found) (auto simp: on_field_def)
  then show ?thesis
    using kept_skip [of dest sz s wt] unfolding unknown_field_def Let_def kept_turn_def
    by (simp only: prod.case_eq_if fst_conv snd_conv simp_thms)
qed

lemma kept_known_field:
  assumes "decoder_ok noinit" "message_fits fs sz" "0 < dest" "on_field fs dest l" "fills (is_callback (fst s))"
  shows "kept_turn fs dest sz s (known_field M noinit wt l s)"
proof -
  obtain k where k: "k < n_places fs" "dl_iter l = iter_at fs dest k" using assms(4) by (auto simp: on_field_def)
  let ?fixed = "PB_HTYPE (fld_type (it_field (dl_iter l))) = PB_HTYPE_REPEATED \<and> it_pSize (dl_iter l) = it_pData (dl_iter l)"
  let ?new = "?fixed \<and> fixed_count_field l \<noteq> Some (it_pos (dl_iter l))"
  let ?bad = "?new \<and> wrong_fixed_count l"
  define l1 where "l1 = (if ?new then l\<lparr>fixed_count_field := Some (it_pos (dl_iter l)), fixed_count_size := 0\<rparr> else l)"
  define l2 where "l2 = l1\<lparr>fields_seen := see_required (dl_iter l) (fields_seen l1)\<rparr>"
  obtain ok k' st' m' local where d: "decode_field M noinit wt ?fixed (iter_at fs dest k) (fst s, snd s, fixed_count_size l2) =
      (ok, iter_at fs dest k', st', m', local)" "k' < n_places fs" "kept dest sz s (st', m')"
    using kept_decode_field [OF assms(1-3) k(1), of "(fst s, snd s, fixed_count_size l2)" M wt ?fixed] assms(5)
    unfolding kept_field_def by (metis fst_conv snd_conv prod.collapse)
  have "known_field M noinit wt l s =
      (if ?bad then (Fail, l, snd (dec_error ''wrong size for fixed count field'' s))
       else (if ok then Go else Fail, l2\<lparr>dl_iter := iter_at fs dest k', fixed_count_size := local\<rparr>, st', m'))"
    unfolding known_field_def Let_def l1_def [symmetric] l2_def [symmetric] k(2) [symmetric] d(1) [folded k(2)] prod.case ..
  then show ?thesis using assms(4) d(2,3) by (auto simp: kept_turn_def on_field_def)
qed

lemma kept_decode_turn:
  assumes "decoder_ok noinit" "message_fits fs sz" "0 < dest" "on_field fs dest l" "fills (is_callback (fst s))"
  shows "kept_turn fs dest sz s (decode_turn M noinit l s)"
proof -
  obtain k where k: "k < n_places fs" "dl_iter l = iter_at fs dest k" using assms(4) by (auto simp: on_field_def)
  obtain eof r st where t: "pb_decode_tag (fst s) = (eof, r, st)" using prod_cases3 by blast
  then have st: "is_callback st = is_callback (fst s)" using cb_tag [of "fst s"] by simp
  show ?thesis
  proof (cases r)
    case None
    then show ?thesis using t st assms(4) by (simp add: decode_turn_def kept_turn_def kept_def)
  next
    case (Some x)
    obtain wt tag where x: "x = (wt, tag)" by force
    obtain found k' where f: "pb_field_iter_find (dl_iter l) tag = (found, iter_at fs dest k')" "k' < n_places fs"
      using pb_field_iter_find_place [OF message_fits_terminated [OF assms(2)] k(1)] k(2) by metis
    then have l: "on_field fs dest (l\<lparr>dl_iter := iter_at fs dest k'\<rparr>)" by (auto simp: on_field_def)
    have s: "kept dest sz s (st, snd s)" by (simp add: kept_def st)
    have "kept_turn fs dest sz (st, snd s) (unknown_field wt tag (l\<lparr>dl_iter := iter_at fs dest k'\<rparr>) (st, snd s))"
      by (rule kept_unknown_field [OF message_fits_terminated [OF assms(2)] l])
    moreover have "kept_turn fs dest sz (st, snd s) (known_field M noinit wt (l\<lparr>dl_iter := iter_at fs dest k'\<rparr>) (st, snd s))"
      by (rule kept_known_field [OF assms(1-3) l]) (simp add: st assms(5))
    ultimately show ?thesis
      using t Some x f(1) s by (cases found) (auto simp: decode_turn_def kept_turn_def intro: kept_trans)
  qed
qed

lemma kept_decode_loop:
  assumes "decoder_ok noinit" "message_fits fs sz" "0 < dest"
  shows "on_field fs dest l \<Longrightarrow> fills (is_callback (fst s)) \<Longrightarrow> kept_turn fs dest sz s (fields_loop M noinit n l s)"
proof (induction n arbitrary: l s)
  case (Suc n)
  obtain t l1 s1 where turn: "decode_turn M noinit l s = (t, l1, s1)" using prod_cases3 by blast
  then have 1: "on_field fs dest l1" "kept dest sz s s1"
    using kept_decode_turn [OF assms Suc.prems, of M] by (simp_all add: kept_turn_def)
  then have "kept_turn fs dest sz s1 (fields_loop M noinit n l1 s1)"
    using Suc.prems(2) by (intro Suc.IH) (simp_all add: kept_def)
  then show ?case using turn 1 Suc.prems(1) by (cases t) (auto simp: kept_turn_def intro: kept_trans)
qed (simp add: kept_turn_def)

lemma decode_noinit_ok:
  assumes "decoder_ok noinit"
  shows "decoder_ok (decode_noinit M noinit)"
proof -
  have "kept dest sz s (snd (decode_noinit M noinit fs dest s))"
    if fits: "message_fits fs sz" "0 < dest" and cb: "fills (is_callback (fst s))" for fs sz dest and s :: "'a dstate"
  proof -
    let ?l = "\<lparr>dl_iter = snd (pb_field_iter_begin fs dest), fields_seen = [0, 0], extension_range_start = 0,
      fixed_count_field = None, fixed_count_size = 0\<rparr>"
    have "on_field fs dest ?l" by (auto simp: on_field_def n_places_def intro!: exI [of _ 0])
    from kept_decode_loop [OF assms fits this cb, of M "bytes_left (fst s)"]
    obtain t l1 s1 where r: "fields_loop M noinit (bytes_left (fst s)) ?l s = (t, l1, s1)" "kept dest sz s s1"
      unfolding kept_turn_def by (metis prod.collapse)
    have "kept dest sz s1 (snd (decode_end l1 s1))" by (simp add: decode_end_def)
    with r show ?thesis by (cases t) (auto simp: decode_noinit_def Let_def intro: kept_trans)
  qed
  then show ?thesis unfolding decoder_ok_def by blast
qed

lemma decode_depth_ok: "decoder_ok (decode_depth M n)"
  by (induction n) (simp_all only: decode_depth.simps decode_noinit_ok, simp add: decoder_ok_def)

lemma pb_decode_noinit_ok: "decoder_ok (pb_decode_noinit M)"
  using decode_depth_ok [of M] unfolding decoder_ok_def pb_decode_noinit_def by blast

lemma pb_decode_ok: "decoder_ok (pb_decode M)"
  unfolding pb_decode_def by (rule decode_init_ok [OF pb_decode_noinit_ok])

end
