(* ===== verification/Pb_Wire.thy ===== *)
theory Pb_Wire
  imports Pb_Stream
begin

text \<open>
  The wire format of nanopb against its specification: what a varint, a tag, a fixed
  number and a length-delimited string are, that the readers of \<open>pb_decode.c\<close> read them
  and that the writers of \<open>pb_encode.c\<close> emit them, on every stream that keeps the
  contract of its callback.
\<close>

section \<open>Varints as numbers\<close>

fun is_varint :: "bytes \<Rightarrow> bool" where
  "is_varint [] = False"
| "is_varint (b # bs) = (if unat b < 128 then bs = [] else is_varint bs)"

fun varint_val :: "bytes \<Rightarrow> nat" where
  "varint_val [] = 0"
| "varint_val (b # bs) = unat b mod 128 + 128 * varint_val bs"

fun varint :: "nat \<Rightarrow> bytes" where
  "varint n = (if n < 128 then [of_nat n] else of_nat (n mod 128 + 128) # varint (n div 128))"

declare varint.simps [simp del]

lemma unat_of_nat_high: "unat (word_of_nat (n mod 128) + 128 :: byte) = n mod 128 + 128"
proof -
  have "word_of_nat (n mod 128) + 128 = (word_of_nat (n mod 128 + 128) :: byte)" by simp
  then show ?thesis by (simp only: unat_byte_of_nat) simp
qed

lemma is_varint_varint [simp]: "is_varint (varint n)"
  by (induction n rule: varint.induct) (subst varint.simps, auto simp: unat_of_nat_high)

lemma varint_val_varint [simp]: "varint_val (varint n) = n"
  by (induction n rule: varint.induct) (subst varint.simps, auto simp: unat_of_nat_high)

lemma length_varint: "n < 128 ^ Suc k \<Longrightarrow> length (varint n) \<le> Suc k"
proof (induction k arbitrary: n)
  case (Suc k)
  then have "n div 128 < 128 ^ Suc k" by (simp add: div_less_iff_less_mult)
  with Suc.IH [of "n div 128"] show ?case by (subst varint.simps) simp
qed (simp add: varint.simps)

lemma varint_nonempty [simp]: "varint n \<noteq> []"
  by (subst varint.simps) simp

lemma length_varint_64: "unat (v :: u64) = n \<Longrightarrow> length (varint n) \<le> 10"
  using unat_less_pow(3) [of v] length_varint [of n 9] by simp

text \<open>The masks of the code.\<close>

lemma and_80 [simp]: "b AND 0x80 = 0 \<longleftrightarrow> unat b < 128" for b :: byte
  using byte_split_7(2) [of b] by auto

lemma payload_byte: "ucast (v AND 0x7F) = (ucast v AND 0x7F :: byte)" for v :: u64
  by (rule bit_word_eqI) (auto simp: bit_simps)

section \<open>The contract of an input callback\<close>

definition good_input :: "('s \<Rightarrow> nat \<Rightarrow> bool \<times> bytes \<times> 's) \<Rightarrow> ('s \<Rightarrow> bytes) \<Rightarrow> 's pb_istream \<Rightarrow> bool" where
  "good_input read content st \<longleftrightarrow>
     is_callback st = read \<and> bytes_left st \<le> length (content (is_state st))"

definition input :: "('s \<Rightarrow> bytes) \<Rightarrow> 's pb_istream \<Rightarrow> bytes" where
  "input content st = take (bytes_left st) (content (is_state st))"

text \<open>The stream after the bytes \<open>xs\<close> have been read.\<close>

definition advanced :: "('s \<Rightarrow> bytes) \<Rightarrow> 's pb_istream \<Rightarrow> bytes \<Rightarrow> 's pb_istream \<Rightarrow> bool" where
  "advanced content st xs st' \<longleftrightarrow>
     is_callback st' = is_callback st \<and> is_buf st' = is_buf st \<and> is_errmsg st' = is_errmsg st \<and>
     content (is_state st) = xs @ content (is_state st') \<and> bytes_left st = length xs + bytes_left st'"

text \<open>The function reads exactly \<open>xs\<close> off the front of the input, whatever follows, and gives \<open>x\<close>.\<close>

definition reads ::
  "('s \<Rightarrow> nat \<Rightarrow> bool \<times> bytes \<times> 's) \<Rightarrow> ('s \<Rightarrow> bytes) \<Rightarrow>
   ('s pb_istream \<Rightarrow> 'a option \<times> 's pb_istream) \<Rightarrow> bytes \<Rightarrow> 'a \<Rightarrow> bool" where
  "reads read content f xs x \<longleftrightarrow>
     (\<forall>st. good_input read content st \<longrightarrow> prefix xs (input content st) \<longrightarrow>
        (\<exists>st'. f st = (Some x, st') \<and> advanced content st xs st'))"

lemma advanced_trans:
  "advanced content st xs st1 \<Longrightarrow> advanced content st1 ys st2 \<Longrightarrow> advanced content st (xs @ ys) st2"
  by (simp add: advanced_def)

lemma advanced_refl: "advanced content st [] st"
  by (simp add: advanced_def)

lemma advanced_good: "good_input read content st \<Longrightarrow> advanced content st xs st' \<Longrightarrow> good_input read content st'"
  by (simp add: good_input_def advanced_def)

lemma advanced_input: "advanced content st xs st' \<Longrightarrow> input content st = xs @ input content st'"
  by (simp add: input_def advanced_def)

lemma readsD:
  assumes "reads read content f xs x" "good_input read content st" "prefix xs (input content st)"
  obtains st' where "f st = (Some x, st')" "advanced content st xs st'" "good_input read content st'"
    "input content st = xs @ input content st'"
  using assms advanced_good advanced_input unfolding reads_def by metis

lemma reads_cong: "(\<And>st. f st = g st) \<Longrightarrow> reads read content g xs x \<Longrightarrow> reads read content f xs x"
  by (simp add: reads_def)

lemma reads_return: "reads read content (\<lambda>st. (Some x, st)) [] x"
  using advanced_refl by (auto simp: reads_def)

lemma reads_and_then:
  assumes "reads read content f xs x" "reads read content (g x) ys y"
  shows "reads read content (\<lambda>st. and_then (f st) g) (xs @ ys) y"
  unfolding reads_def
proof (intro allI impI)
  fix st
  assume st: "good_input read content st" "prefix (xs @ ys) (input content st)"
  then have "prefix xs (input content st)" by (meson append_prefixD)
  then obtain st1 where 1: "f st = (Some x, st1)" "advanced content st xs st1" "good_input read content st1"
      "input content st = xs @ input content st1"
    using readsD [OF assms(1) st(1)] by metis
  then have "prefix ys (input content st1)" using st(2) by simp
  then obtain st2 where "g x st1 = (Some y, st2)" "advanced content st1 ys st2"
    using readsD [OF assms(2) 1(3)] by metis
  then show "\<exists>st'. and_then (f st) g = (Some y, st') \<and> advanced content st (xs @ ys) st'"
    using 1(1,2) advanced_trans by fastforce
qed

lemma reads_map:
  "reads read content f xs x \<Longrightarrow> reads read content (\<lambda>st. and_then (f st) (\<lambda>x st. (Some (h x), st))) xs (h x)"
  using reads_and_then [where g = "\<lambda>x st. (Some (h x), st)", OF _ reads_return] by force

locale pb_source =
  fixes read :: "'s \<Rightarrow> nat \<Rightarrow> bool \<times> bytes \<times> 's" and content :: "'s \<Rightarrow> bytes"
  assumes read: "n \<le> length (content s) \<Longrightarrow>
    \<exists>s'. read s n = (True, take n (content s), s') \<and> content s' = drop n (content s)"
begin

lemma reads_pb_read: "reads read content (pb_read (length xs)) xs xs"
  unfolding reads_def
proof (intro allI impI)
  fix st
  assume st: "good_input read content st" "prefix xs (input content st)"
  then obtain ys where ys: "content (is_state st) = xs @ ys"
    by (metis append.assoc append_take_drop_id input_def prefix_def)
  moreover have "length xs \<le> bytes_left st" using prefix_length_le [OF st(2)] by (simp add: input_def)
  moreover obtain s' where "read (is_state st) (length xs) = (True, xs, s')" "content s' = ys"
    using read [of "length xs" "is_state st"] ys by auto
  ultimately show "\<exists>st'. pb_read (length xs) st = (Some xs, st') \<and> advanced content st xs st'"
    using st(1) by (cases "xs = []") (simp_all add: pb_read_def good_input_def advanced_def)
qed

lemma reads_pb_read_n: "length xs = n \<Longrightarrow> reads read content (pb_read n) xs xs"
  using reads_pb_read by blast

lemma reads_done_with:
  "reads read content f xs x \<Longrightarrow> reads read content (\<lambda>st. done_with (f st)) xs ()"
  unfolding reads_def done_with_def
  by (metis fst_conv option.simps(9) snd_conv)

lemma reads_skip_chunks: "length xs = n \<Longrightarrow> reads read content (skip_chunks n) xs ()"
proof (induction n arbitrary: xs rule: less_induct)
  case (less n)
  show ?case
  proof (cases "n > 16")
    case True
    have 16: "reads read content (pb_read 16) (take 16 xs) (take 16 xs)"
      using True less.prems by (intro reads_pb_read_n) simp
    have "reads read content (skip_chunks (n - 16)) (drop 16 xs) ()"
      using True less.prems by (intro less.IH) simp_all
    from reads_and_then [where g = "\<lambda>_. skip_chunks (n - 16)", OF 16 this] show ?thesis
      using True by (intro reads_cong [where f = "skip_chunks n"])
        (simp_all add: skip_chunks.simps [of n])
  next
    case False
    then show ?thesis
      using reads_done_with [OF reads_pb_read_n [OF less.prems]]
      by (intro reads_cong [where f = "skip_chunks n"]) (simp_all add: skip_chunks.simps [of n])
  qed
qed

lemma reads_skip:
  assumes "length xs = n"
  shows "reads read content (pb_read_null n) xs ()"
  using reads_skip_chunks [OF assms] reads_done_with [OF reads_pb_read_n [OF assms]] assms
  by (cases "n = 0") (simp_all add: reads_def pb_read_null_def advanced_refl)

lemma reads_byte: "reads read content pb_readbyte [b] b"
  unfolding reads_def
proof (intro allI impI)
  fix st
  assume st: "good_input read content st" "prefix [b] (input content st)"
  then obtain st' where "pb_read 1 st = (Some [b], st')" "advanced content st [b] st'"
    using readsD [OF reads_pb_read_n [of "[b]" 1]] by auto
  moreover from this have "bytes_left st \<noteq> 0" by (simp add: advanced_def)
  ultimately show "\<exists>st'. pb_readbyte st = (Some b, st') \<and> advanced content st [b] st'"
    by (auto simp: pb_read_def pb_readbyte_def PB_RETURN_ERROR_def Let_def split: if_splits prod.splits)
qed

text \<open>One turn of a loop that reads a byte.\<close>

lemma reads_byte_then:
  assumes "\<And>st st'. pb_readbyte st = (Some b, st') \<Longrightarrow> f st = g st'" "reads read content g xs x"
  shows "reads read content f (b # xs) x"
proof -
  have "reads read content (\<lambda>st. and_then (pb_readbyte st) (\<lambda>b. g)) ([b] @ xs) x"
    by (rule reads_and_then [OF reads_byte assms(2)])
  then show ?thesis
    unfolding reads_def
  proof (intro allI impI, goal_cases)
    case (1 st)
    obtain st' where "pb_readbyte st = (Some b, st')"
      using readsD [OF reads_byte 1(2), of b] 1(3) by (metis append_Cons append_Nil append_prefixD)
    then show ?case using 1 assms(1) by fastforce
  qed
qed

end

interpretation buffer: pb_source buf_read "\<lambda>b. b"
  by unfold_locales (simp add: buf_read_def)

section \<open>Reading varints\<close>

lemma ucast_payload: "(ucast (b AND 0x7F) :: 'a :: len word) = of_nat (unat b mod 128)" for b :: byte
  by (metis byte_split_7(1) of_nat_unat)

lemma or_payload:
  fixes r :: "'a :: len word" and b :: byte
  assumes "unat r < 2 ^ n"
  shows "r OR push_bit n (ucast (b AND 0x7F)) = r + of_nat (2 ^ n * (unat b mod 128))"
proof -
  have "push_bit n (ucast (b AND 0x7F)) = (of_nat (2 ^ n * (unat b mod 128)) :: 'a word)"
    by (simp add: ucast_payload push_bit_eq_mult mult.commute)
  then show ?thesis
    using push_or_eq_plus [OF assms, of "ucast (b AND 0x7F)"] by (simp add: or.commute add.commute)
qed

lemma unat_plus_of_nat_le: "unat (r + of_nat n) \<le> unat r + n"
  by (metis le_add2 of_nat_add of_nat_unat ucast_id unat_of_nat mod_less_eq_dividend)

lemma bitpos:
  assumes "k \<le> 36"
  shows "unat (of_nat (7 * k) :: byte) = 7 * k"
    and "(64 :: byte) \<le> of_nat (7 * k) \<longleftrightarrow> 10 \<le> k" "(32 :: byte) \<le> of_nat (7 * k) \<longleftrightarrow> 5 \<le> k"
    and "of_nat (7 * k) = (35 :: byte) \<longleftrightarrow> k = 5"
proof -
  show u: "unat (of_nat (7 * k) :: byte) = 7 * k" using assms by (simp only: unat_byte_of_nat) simp
  show "(64 :: byte) \<le> of_nat (7 * k) \<longleftrightarrow> 10 \<le> k" "(32 :: byte) \<le> of_nat (7 * k) \<longleftrightarrow> 5 \<le> k"
    "of_nat (7 * k) = (35 :: byte) \<longleftrightarrow> k = 5"
    unfolding word_le_nat_alt word_unat_eq_iff u by auto
qed

lemma payload_bound:
  assumes "unat r < 2 ^ n"
  shows "unat (r + of_nat (2 ^ n * (unat b mod 128))) < 2 ^ (7 + n)"
proof -
  have "unat (r + of_nat (2 ^ n * (unat b mod 128))) \<le> unat r + 2 ^ n * (unat b mod 128)"
    by (rule unat_plus_of_nat_le)
  also have "\<dots> < 2 ^ n * (1 + unat b mod 128)" using assms by simp
  also have "\<dots> \<le> 2 ^ n * 128" by (intro mult_le_mono2) (simp add: Suc_leI)
  finally show ?thesis by (simp add: power_add)
qed

lemma varint_loop_step:
  assumes "pb_readbyte st = (Some b, st')" "\<not> 64 \<le> pos"
  shows "varint_loop pos r st =
    (let r = r OR push_bit (unat pos) (ucast (b AND 0x7F))
     in if unat b < 128 then (Some r, st') else varint_loop (pos + 7) r st')"
  by (subst varint_loop.simps) (use assms in \<open>simp add: Let_def\<close>)

lemma varint32_loop_step:
  assumes "pb_readbyte st = (Some b, st')" "32 \<le> pos \<Longrightarrow> b AND 0x7F = 0" "pos + 7 = 35 \<Longrightarrow> b AND 0x70 = 0"
  shows "varint32_loop pos r st =
    (let r = (if 32 \<le> pos then r else r OR push_bit (unat pos) (ucast (b AND 0x7F)))
     in if unat b < 128 then (Some r, st') else varint32_loop (pos + 7) r st')"
  by (subst varint32_loop.simps) (use assms in \<open>auto simp: Let_def\<close>)

context pb_source
begin

lemma reads_varint_loop:
  assumes "is_varint p" "k + length p \<le> 10" "unat result < 2 ^ (7 * k)"
  shows "reads read content (varint_loop (of_nat (7 * k)) result) p (result + of_nat (2 ^ (7 * k) * varint_val p))"
  using assms
proof (induction p arbitrary: k result)
  case (Cons b bs)
  let ?r = "result + of_nat (2 ^ (7 * k) * (unat b mod 128)) :: u64"
  have k: "unat (of_nat (7 * k) :: byte) = 7 * k" "\<not> of_nat (7 * k) \<ge> (64 :: byte)"
    using Cons.prems(2) bitpos(1,2) [of k] by (simp_all del: of_nat_mult)
  have r: "result OR push_bit (unat (of_nat (7 * k) :: byte)) (ucast (b AND 0x7F)) = ?r"
    unfolding k(1) by (rule or_payload [OF Cons.prems(3)])
  have pos: "of_nat (7 * k) + 7 = (of_nat (7 * Suc k) :: byte)" by simp
  show ?case
  proof (rule reads_byte_then)
    fix st st'
    assume "pb_readbyte st = (Some b, st')"
    then show "varint_loop (of_nat (7 * k)) result st =
      (if unat b < 128 then (Some ?r, st') else varint_loop (of_nat (7 * Suc k)) ?r st')"
      using varint_loop_step [OF _ k(2), of st b st' result] unfolding r pos Let_def by blast
  next
    show "reads read content (\<lambda>st'. if unat b < 128 then (Some ?r, st') else varint_loop (of_nat (7 * Suc k)) ?r st')
       bs (result + of_nat (2 ^ (7 * k) * varint_val (b # bs)))"
    proof (cases "unat b < 128")
      case True
      then show ?thesis using Cons.prems(1) by (simp add: reads_return)
    next
      case False
      have "unat ?r < 2 ^ (7 * Suc k)" using payload_bound [OF Cons.prems(3), of b] by simp
      then have "reads read content (varint_loop (of_nat (7 * Suc k)) ?r) bs
          (?r + of_nat (2 ^ (7 * Suc k) * varint_val bs))"
        using Cons.prems(1,2) False by (intro Cons.IH) simp_all
      with False show ?thesis by (simp add: algebra_simps power_add)
    qed
  qed
qed simp

lemma reads_varint:
  assumes "is_varint p" "length p \<le> 10"
  shows "reads read content pb_decode_varint p (of_nat (varint_val p))"
  using reads_varint_loop [of p 0 0] assms by (simp add: pb_decode_varint_def [abs_def])

lemma reads_varint32_loop:
  assumes "is_varint p" "1 \<le> k" "k + length p \<le> 36" "unat result < 2 ^ (7 * k)"
    and "unat result + 2 ^ (7 * k) * varint_val p < 2 ^ 32"
  shows "reads read content (varint32_loop (of_nat (7 * k)) result) p (result + of_nat (2 ^ (7 * k) * varint_val p))"
  using assms
proof (induction p arbitrary: k result)
  case (Cons b bs)
  let ?x = "2 ^ (7 * k) * (unat b mod 128)"
  let ?r = "result + of_nat ?x :: u32"
  have k: "unat (of_nat (7 * k) :: byte) = 7 * k" "of_nat (7 * k) \<ge> (32 :: byte) \<longleftrightarrow> k \<ge> 5"
    "of_nat (7 * Suc k) = (35 :: byte) \<longleftrightarrow> k = 4"
    using Cons.prems(2,3) bitpos [of k] bitpos(4) [of "Suc k"] by (simp_all del: of_nat_mult)
  have pos: "of_nat (7 * k) + 7 = (of_nat (7 * Suc k) :: byte)" by simp
  have split: "unat result + ?x + 2 ^ (7 * Suc k) * varint_val bs < 2 ^ 32"
    using Cons.prems(5) by (simp add: algebra_simps power_add)
  then have "?x < 2 ^ 32" "unat result + ?x < 2 ^ 32" by linarith+
  then have r: "unat ?r = unat result + ?x"
    by (simp add: unat_word_ariths unat_of_nat del: of_nat_mult)
  have high: "b AND 0x7F = 0" "?x = 0" if "k \<ge> 5"
  proof -
    have "(2 :: nat) ^ 32 \<le> 2 ^ (7 * k)" using that by (intro power_increasing) simp_all
    then show "b AND 0x7F = 0" using split by (simp add: word_unat_eq_iff byte_split_7) (cases "unat b mod 128"; simp)
    then show "?x = 0" by (simp add: word_unat_eq_iff byte_split_7)
  qed
  have last: "b AND 0x70 = 0" if "k = 4"
  proof -
    have "2 ^ 28 * (unat b mod 128) < 2 ^ 32" using split that by simp
    then have "unat b mod 128 < 2 ^ 4" by simp
    then have "unat (b AND 0x7F) < 2 ^ 4" by (simp add: byte_split_7)
    then have "\<not> bit (b AND 0x7F) 4" "\<not> bit (b AND 0x7F) 5" "\<not> bit (b AND 0x7F) 6"
      using bits_of_less [of "b AND 0x7F" 4] by (meson less_irrefl numeral_less_iff semiring_norm not_less_iff_gr_or_eq)+
    then show ?thesis by (simp add: byte_eq_iff_bits bit_simps)
  qed
  have loop: "varint32_loop (of_nat (7 * k)) result st =
      (if unat b < 128 then (Some ?r, st') else varint32_loop (of_nat (7 * Suc k)) ?r st')"
    if "pb_readbyte st = (Some b, st')" for st :: "'s pb_istream" and st'
  proof -
    have "(if 32 \<le> (of_nat (7 * k) :: byte) then result
           else result OR push_bit (unat (of_nat (7 * k) :: byte)) (ucast (b AND 0x7F))) = ?r"
    proof (cases "k \<ge> 5")
      case True
      then show ?thesis unfolding k(2) by (simp add: high(2) del: of_nat_mult)
    next
      case False
      then show ?thesis unfolding k(1,2) using or_payload [OF Cons.prems(4), of b] by (simp del: of_nat_mult)
    qed
    then show ?thesis
      using varint32_loop_step [OF that, of "of_nat (7 * k)" result] high(1) last
      unfolding k(2,3) pos Let_def by simp
  qed
  show ?case
  proof (rule reads_byte_then [OF loop])
    show "reads read content (\<lambda>st'. if unat b < 128 then (Some ?r, st') else varint32_loop (of_nat (7 * Suc k)) ?r st')
       bs (result + of_nat (2 ^ (7 * k) * varint_val (b # bs)))"
    proof (cases "unat b < 128")
      case True
      then show ?thesis using Cons.prems(1) by (simp add: reads_return)
    next
      case False
      have "unat ?r < 2 ^ (7 * Suc k)" using payload_bound [OF Cons.prems(4), of b] by simp
      then have "reads read content (varint32_loop (of_nat (7 * Suc k)) ?r) bs
          (?r + of_nat (2 ^ (7 * Suc k) * varint_val bs))"
        using Cons.prems(1-3) False split r by (intro Cons.IH) simp_all
      with False show ?thesis by (simp add: algebra_simps power_add)
    qed
  qed
qed simp

end

section \<open>Fields\<close>

text \<open>
  The value of a field of the wire type: a varint, eight or four bytes, or a length and
  that many bytes. A length has at most 36 bytes of varint, well past the five of a
  canonical one: at the 38th the 8-bit position of \<open>pb_decode_varint32\<close> has wrapped.
\<close>

definition is_length :: "bytes \<Rightarrow> nat \<Rightarrow> bool" where
  "is_length p n \<longleftrightarrow> is_varint p \<and> length p \<le> 36 \<and> varint_val p = n \<and> n < 2 ^ 32"

definition is_field :: "u32 \<Rightarrow> bytes \<Rightarrow> bool" where
  "is_field wire_type bs \<longleftrightarrow>
     wire_type = PB_WT_VARINT \<and> is_varint bs \<or>
     wire_type = PB_WT_64BIT \<and> length bs = 8 \<or>
     wire_type = PB_WT_32BIT \<and> length bs = 4 \<or>
     wire_type = PB_WT_STRING \<and> (\<exists>p d. bs = p @ d \<and> is_length p (length d))"

lemmas wire_types = PB_WT_VARINT_def PB_WT_64BIT_def PB_WT_STRING_def PB_WT_32BIT_def

lemma unat_u32: "n < 2 ^ 32 \<Longrightarrow> unat (of_nat n :: u32) = n"
  by (simp add: unat_of_nat)

lemma eof_Some: "pb_decode_varint32_eof st = (eof, Some v, st') \<Longrightarrow> \<not> eof"
  by (auto simp: pb_decode_varint32_eof_def split: prod.splits option.splits)

lemma pb_readbyte_read: "pb_readbyte st = (Some b, st') \<longleftrightarrow> (\<exists>bs. pb_read 1 st = (Some bs, st') \<and> b = hd bs)"
  by (auto simp: pb_read_def pb_readbyte_def PB_RETURN_ERROR_def Let_def split: if_splits prod.splits)

context pb_source
begin

lemma reads_varint32:
  assumes "is_length p n"
  shows "reads read content pb_decode_varint32 p (of_nat n)"
proof (cases p)
  case Nil
  with assms show ?thesis by (simp add: is_length_def)
next
  case (Cons b bs)
  show ?thesis unfolding Cons
  proof (rule reads_byte_then)
    fix st st'
    assume "pb_readbyte st = (Some b, st')"
    then show "pb_decode_varint32 st =
      (if unat b < 128 then (Some (ucast b), st') else varint32_loop 7 (ucast (b AND 0x7F)) st')"
      by (simp add: pb_decode_varint32_def pb_decode_varint32_eof_def)
  next
    show "reads read content (\<lambda>st'. if unat b < 128 then (Some (ucast b), st')
        else varint32_loop 7 (ucast (b AND 0x7F)) st') bs (of_nat n)"
    proof (cases "unat b < 128")
      case True
      then show ?thesis using assms by (auto simp: Cons is_length_def reads_return)
    next
      case False
      have "reads read content (varint32_loop (of_nat (7 * 1)) (ucast (b AND 0x7F))) bs
          (ucast (b AND 0x7F) + of_nat (2 ^ (7 * 1) * varint_val bs))"
        using assms False by (intro reads_varint32_loop) (simp_all add: byte_split_7 Cons is_length_def)
      moreover have "ucast (b AND 0x7F) + of_nat (2 ^ (7 * 1) * varint_val bs) = (of_nat n :: u32)"
      proof -
        have "n = unat b mod 128 + 2 ^ (7 * 1) * varint_val bs" using assms by (simp add: Cons is_length_def)
        then show ?thesis by (simp only: of_nat_add ucast_payload)
      qed
      ultimately show ?thesis using False by simp
    qed
  qed
qed

lemma reads_tag:
  assumes "is_length p (unat tag * 8 + unat wt)" "unat wt < 8" "0 < unat tag * 8 + unat wt"
  shows "reads read content (\<lambda>st. snd (pb_decode_tag st)) p (wt, tag)"
    and "good_input read content st \<Longrightarrow> prefix p (input content st) \<Longrightarrow> \<not> fst (pb_decode_tag st)"
proof -
  let ?v = "of_nat (unat tag * 8 + unat wt) :: u32"
  have u: "unat ?v = unat tag * 8 + unat wt" using assms(1) by (intro unat_u32) (simp add: is_length_def)
  have v: "?v \<noteq> 0" "?v AND 7 = wt" "drop_bit 3 ?v = tag"
    using u assms(2,3) unat_mask_eq [of ?v 3]
    by (auto simp: word_unat_eq_iff unat_drop_bit_div mask_numeral simp del: of_nat_add of_nat_mult of_nat_unat)
  have d: "pb_decode_tag st = (False, Some (wt, tag), st')" if "pb_decode_varint32 st = (Some ?v, st')" for st st' :: "'s pb_istream"
    using that v eof_Some [of st _ ?v st'] unfolding pb_decode_varint32_def pb_decode_tag_def
    by (cases "pb_decode_varint32_eof st") (auto simp del: of_nat_add of_nat_mult of_nat_unat)
  show "reads read content (\<lambda>st. snd (pb_decode_tag st)) p (wt, tag)"
    using reads_varint32 [OF assms(1)] d unfolding reads_def by fastforce
  show "\<not> fst (pb_decode_tag st)" if "good_input read content st" "prefix p (input content st)"
    using readsD [OF reads_varint32 [OF assms(1)] that] d by (metis fst_conv)
qed

lemma reads_skip_varint: "is_varint p \<Longrightarrow> reads read content pb_skip_varint p ()"
proof (induction p)
  case (Cons b bs)
  show ?case
  proof (rule reads_byte_then)
    fix st st'
    assume "pb_readbyte st = (Some b, st')"
    then show "pb_skip_varint st = (if unat b < 128 then (Some (), st') else pb_skip_varint st')"
      by (subst pb_skip_varint.simps) (auto simp: pb_readbyte_read)
  next
    show "reads read content (\<lambda>st'. if unat b < 128 then (Some (), st') else pb_skip_varint st') bs ()"
      using Cons by (auto simp: reads_return split: if_splits)
  qed
qed simp

lemma reads_skip_string:
  assumes "is_length p (length d)"
  shows "reads read content pb_skip_string (p @ d) ()"
proof -
  have "unat (of_nat (length d) :: u32) = length d"
    using assms by (simp add: is_length_def unat_of_nat)
  then have "reads read content (pb_read_null (unat (of_nat (length d) :: u32))) d ()"
    by (intro reads_skip) simp
  then show ?thesis
    unfolding pb_skip_string_def [abs_def]
    by (rule reads_and_then [where g = "\<lambda>length. pb_read_null (unat length)", OF reads_varint32 [OF assms]])
qed

lemma reads_skip_field:
  assumes "is_field wt bs"
  shows "reads read content (pb_skip_field wt) bs ()"
  using assms unfolding is_field_def
proof (elim disjE conjE exE)
  assume "wt = PB_WT_VARINT" "is_varint bs"
  then show ?thesis using reads_skip_varint by (simp add: pb_skip_field_def [abs_def])
next
  assume "wt = PB_WT_64BIT" "length bs = 8"
  then show ?thesis using reads_skip [of bs 8] by (simp add: pb_skip_field_def [abs_def] wire_types)
next
  assume "wt = PB_WT_32BIT" "length bs = 4"
  then show ?thesis using reads_skip [of bs 4] by (simp add: pb_skip_field_def [abs_def] wire_types)
next
  fix p d
  assume "wt = PB_WT_STRING" "bs = p @ d" "is_length p (length d)"
  then show ?thesis using reads_skip_string by (simp add: pb_skip_field_def [abs_def] wire_types)
qed

text \<open>A substream has the string as its input; closing it leaves the parent behind the string,
  whatever the user of the substream has read.\<close>

lemma substream:
  assumes "is_length p (length d)" "good_input read content st" "prefix (p @ d) (input content st)"
  obtains sub st1 where "pb_make_string_substream st = (Some sub, st1)" "good_input read content sub"
    "input content sub = d" "is_errmsg sub = is_errmsg st" "is_buf sub = is_buf st"
    "\<And>xs sub'. advanced content sub xs sub' \<Longrightarrow>
      \<exists>st2. pb_close_string_substream st1 sub' = (Some (), st2) \<and> advanced content st (p @ d) st2"
proof -
  have "prefix p (input content st)" using assms(3) by (meson append_prefixD)
  then obtain s where s: "pb_decode_varint32 st = (Some (of_nat (length d)), s)" "advanced content st p s"
      "good_input read content s" "input content st = p @ input content s"
    using readsD [OF reads_varint32 [OF assms(1)] assms(2)] by metis
  have n: "unat (of_nat (length d) :: u32) = length d"
    using assms(1) by (simp add: is_length_def unat_of_nat)
  have d: "prefix d (input content s)" using s(4) assms(3) by simp
  then have left: "length d \<le> bytes_left s" using prefix_length_le by (fastforce simp: input_def)
  let ?sub = "s\<lparr>bytes_left := length d\<rparr>" and ?st1 = "s\<lparr>bytes_left := bytes_left s - length d\<rparr>"
  obtain r where r: "content (is_state s) = d @ r"
    using d by (metis append.assoc append_take_drop_id input_def prefix_def)
  show thesis
  proof (rule that)
    show "pb_make_string_substream st = (Some ?sub, ?st1)"
      using left by (simp add: pb_make_string_substream_def s(1) n not_less)
    show "good_input read content ?sub" "input content ?sub = d" using s(3) r by (simp_all add: good_input_def input_def)
    show "is_errmsg ?sub = is_errmsg st" "is_buf ?sub = is_buf st" using s(2) by (simp_all add: advanced_def)
    fix xs sub'
    assume a: "advanced content ?sub xs sub'"
    have "good_input read content ?sub" using s(3) r by (simp add: good_input_def)
    then have ga: "good_input read content sub'" using advanced_good a by blast
    have xs: "d = xs @ input content sub'" using advanced_input [OF a] r by (simp add: input_def)
    then have "length (input content sub') = bytes_left sub'" using ga by (simp add: good_input_def input_def)
    then obtain s2 where "pb_read_null (bytes_left sub') sub' = (Some (), s2)" "advanced content sub' (input content sub') s2"
      using readsD [OF reads_skip ga, of "input content sub'" "bytes_left sub'"] by auto
    moreover have "advanced content ?sub d s2" using advanced_trans [OF a] calculation(2) xs by metis
    ultimately show "\<exists>st2. pb_close_string_substream ?st1 sub' = (Some (), st2) \<and> advanced content st (p @ d) st2"
      using s(2) left a by (cases "bytes_left sub' = 0")
        (auto simp: pb_close_string_substream_def advanced_def pb_read_null_def input_def)
  qed
qed

end

section \<open>Fixed numbers\<close>

fun or_le :: "bytes \<Rightarrow> 'a :: len word" where
  "or_le [] = 0"
| "or_le (b # bs) = push_bit 8 (or_le bs) OR ucast b"

lemma unat_or_le:
  assumes "8 * length bs \<le> LENGTH('a)"
  shows "unat (or_le bs :: 'a :: len word) = le_val bs"
  using assms
proof (induction bs)
  case (Cons b bs)
  have "(2 :: nat) ^ 8 \<le> 2 ^ LENGTH('a)" using Cons.prems by (intro power_increasing) simp_all
  then have "unat b < 2 ^ LENGTH('a)" by (rule order_less_le_trans [rotated]) simp
  then have b: "unat (ucast b :: 'a word) = unat b"
    by (simp add: unsigned_ucast_eq take_bit_nat_eq_self_iff)
  have "le_val (b # bs) < 256 ^ length (b # bs)" by (rule le_val_less)
  also have "(256 :: nat) ^ length (b # bs) = 2 ^ (8 * length (b # bs))" by (simp only: power_mult) simp
  also have "\<dots> \<le> 2 ^ LENGTH('a)" using Cons.prems by (intro power_increasing) simp_all
  finally have "le_val (b # bs) < 2 ^ LENGTH('a)" .
  with Cons b show ?case
    by (simp add: unat_push_or mult.commute)
qed simp

context pb_source
begin

lemma reads_fixed32: "length xs = 4 \<Longrightarrow> reads read content pb_decode_fixed32 xs (or_le xs)"
proof -
  assume n: "length xs = 4"
  then obtain a b c d where xs: "xs = [a, b, c, d]" by (auto simp: length_Suc_conv numeral_eq_Suc)
  have "push_bit 0 (ucast (xs ! 0)) OR push_bit 8 (ucast (xs ! 1)) OR push_bit 16 (ucast (xs ! 2)) OR
      push_bit 24 (ucast (xs ! 3)) = (or_le xs :: u32)"
    by (rule bit_word_eqI) (auto simp: xs bit_simps)
  from reads_map [OF reads_pb_read_n [OF n], where h = "\<lambda>bytes. push_bit 0 (ucast (bytes ! 0)) OR
      push_bit 8 (ucast (bytes ! 1)) OR push_bit 16 (ucast (bytes ! 2)) OR push_bit 24 (ucast (bytes ! 3)) :: u32",
      unfolded this]
  show ?thesis unfolding pb_decode_fixed32_def [abs_def] .
qed

lemma reads_fixed64: "length xs = 8 \<Longrightarrow> reads read content pb_decode_fixed64 xs (or_le xs)"
proof -
  assume n: "length xs = 8"
  then obtain a b c d e f g h where xs: "xs = [a, b, c, d, e, f, g, h]" by (auto simp: length_Suc_conv numeral_eq_Suc)
  have "push_bit 0 (ucast (xs ! 0)) OR push_bit 8 (ucast (xs ! 1)) OR push_bit 16 (ucast (xs ! 2)) OR
      push_bit 24 (ucast (xs ! 3)) OR push_bit 32 (ucast (xs ! 4)) OR push_bit 40 (ucast (xs ! 5)) OR
      push_bit 48 (ucast (xs ! 6)) OR push_bit 56 (ucast (xs ! 7)) = (or_le xs :: u64)"
    by (rule bit_word_eqI) (auto simp: xs bit_simps)
  from reads_map [OF reads_pb_read_n [OF n], where h = "\<lambda>bytes. push_bit 0 (ucast (bytes ! 0)) OR
      push_bit 8 (ucast (bytes ! 1)) OR push_bit 16 (ucast (bytes ! 2)) OR push_bit 24 (ucast (bytes ! 3)) OR
      push_bit 32 (ucast (bytes ! 4)) OR push_bit 40 (ucast (bytes ! 5)) OR push_bit 48 (ucast (bytes ! 6)) OR
      push_bit 56 (ucast (bytes ! 7)) :: u64", unfolded this]
  show ?thesis unfolding pb_decode_fixed64_def [abs_def] .
qed

lemma reads_svarint:
  assumes "is_varint p" "length p \<le> 10"
  shows "reads read content pb_decode_svarint p
    (if odd (varint_val p) then NOT (drop_bit 1 (of_nat (varint_val p))) else drop_bit 1 (of_nat (varint_val p)))"
proof -
  have "(of_nat n AND 1 \<noteq> (0 :: u64)) = odd n" for n
    by (simp add: and_one_eq mod_2_eq_odd)
  then show ?thesis
    using reads_map [OF reads_varint [OF assms], where h = "\<lambda>value. if value AND 1 \<noteq> 0 then NOT (drop_bit 1 value) else drop_bit 1 value"]
    unfolding pb_decode_svarint_def [abs_def] by simp
qed

end

section \<open>The contract of an output callback\<close>

text \<open>
  The function emits \<open>xs\<close>: a counting stream counts them, a stream with room for them
  gets them, and one without fails, as long as nothing failed before and the count of
  the bytes does not wrap.
\<close>

definition emits ::
  "('s \<Rightarrow> bytes \<Rightarrow> bool \<times> 's) \<Rightarrow> ('s \<Rightarrow> bytes) \<Rightarrow> ('s pb_ostream \<Rightarrow> bool \<times> 's pb_ostream) \<Rightarrow> bytes \<Rightarrow> bool" where
  "emits wr out f xs \<longleftrightarrow>
     (\<forall>st. os_callback st = None \<longrightarrow>
        f st = (True, st\<lparr>bytes_written := bytes_written st + of_nat (length xs)\<rparr>)) \<and>
     (\<forall>st. os_callback st = Some wr \<longrightarrow> os_errmsg st = None \<longrightarrow>
        unat (bytes_written st) + length xs \<le> unat (max_size st) \<longrightarrow>
        (\<exists>s'. f st = (True, st\<lparr>os_state := s', bytes_written := bytes_written st + of_nat (length xs)\<rparr>) \<and>
           out s' = out (os_state st) @ xs)) \<and>
     (\<forall>st. os_callback st = Some wr \<longrightarrow> os_errmsg st = None \<longrightarrow>
        unat (bytes_written st) + length xs < 2 ^ 64 \<longrightarrow> unat (bytes_written st) \<le> unat (max_size st) \<longrightarrow>
        unat (max_size st) < unat (bytes_written st) + length xs \<longrightarrow> \<not> fst (f st))"

lemma unat_bytes_written:
  "unat (w :: u64) + n \<le> unat (m :: u64) \<Longrightarrow> unat (w + of_nat n) = unat w + n"
  using unat_less_pow(3) [of m] by (simp add: unat_word_ariths unat_of_nat)

lemma emits_sizing:
  "emits wr out f xs \<Longrightarrow> os_callback st = None \<Longrightarrow>
   f st = (True, st\<lparr>bytes_written := bytes_written st + of_nat (length xs)\<rparr>)"
  by (simp add: emits_def)

lemma emits_room:
  assumes "emits wr out f xs" "os_callback st = Some wr" "os_errmsg st = None"
    "unat (bytes_written st) + length xs \<le> unat (max_size st)"
  obtains s' where "f st = (True, st\<lparr>os_state := s', bytes_written := bytes_written st + of_nat (length xs)\<rparr>)"
    "out s' = out (os_state st) @ xs"
  using assms unfolding emits_def by blast

lemma emits_full:
  "emits wr out f xs \<Longrightarrow> os_callback st = Some wr \<Longrightarrow> os_errmsg st = None \<Longrightarrow>
   unat (bytes_written st) + length xs < 2 ^ 64 \<Longrightarrow>
   unat (bytes_written st) \<le> unat (max_size st) \<Longrightarrow>
   unat (max_size st) < unat (bytes_written st) + length xs \<Longrightarrow> \<not> fst (f st)"
  by (simp add: emits_def)

lemma emits_and_also:
  assumes f: "emits wr out f xs" and g: "emits wr out g ys"
  shows "emits wr out (\<lambda>st. and_also (f st) g) (xs @ ys)"
  unfolding emits_def
proof (intro conjI allI impI)
  fix st :: "'a pb_ostream"
  assume "os_callback st = None"
  then show "and_also (f st) g = (True, st\<lparr>bytes_written := bytes_written st + of_nat (length (xs @ ys))\<rparr>)"
    using emits_sizing [OF f] emits_sizing [OF g] by (simp add: algebra_simps)
next
  fix st :: "'a pb_ostream"
  assume st: "os_callback st = Some wr" "os_errmsg st = None"
    "unat (bytes_written st) + length (xs @ ys) \<le> unat (max_size st)"
  then have "unat (bytes_written st) + length xs \<le> unat (max_size st)" by simp
  then obtain s where s: "f st = (True, st\<lparr>os_state := s, bytes_written := bytes_written st + of_nat (length xs)\<rparr>)"
      "out s = out (os_state st) @ xs"
    using emits_room [OF f st(1,2)] by blast
  let ?st = "st\<lparr>os_state := s, bytes_written := bytes_written st + of_nat (length xs)\<rparr>"
  have "unat (bytes_written ?st) = unat (bytes_written st) + length xs"
    using unat_bytes_written [of "bytes_written st" "length xs" "max_size st"] st(3) by simp
  then obtain s' where "g ?st = (True, ?st\<lparr>os_state := s', bytes_written := bytes_written ?st + of_nat (length ys)\<rparr>)"
      "out s' = out (os_state ?st) @ ys"
    using emits_room [OF g, of ?st] st by auto
  then show "\<exists>s'. and_also (f st) g = (True, st\<lparr>os_state := s', bytes_written := bytes_written st + of_nat (length (xs @ ys))\<rparr>) \<and>
      out s' = out (os_state st) @ xs @ ys"
    using s by (auto simp: algebra_simps)
next
  fix st :: "'a pb_ostream"
  assume st: "os_callback st = Some wr" "os_errmsg st = None" "unat (bytes_written st) + length (xs @ ys) < 2 ^ 64"
    "unat (bytes_written st) \<le> unat (max_size st)" "unat (max_size st) < unat (bytes_written st) + length (xs @ ys)"
  show "\<not> fst (and_also (f st) g)"
  proof (cases "unat (bytes_written st) + length xs \<le> unat (max_size st)")
    case False
    then have "\<not> fst (f st)" using emits_full [OF f st(1,2)] st by simp
    then show ?thesis by (cases "f st") simp
  next
    case True
    then obtain s where s: "f st = (True, st\<lparr>os_state := s, bytes_written := bytes_written st + of_nat (length xs)\<rparr>)"
      using emits_room [OF f st(1,2)] by metis
    let ?st = "st\<lparr>os_state := s, bytes_written := bytes_written st + of_nat (length xs)\<rparr>"
    have "unat (bytes_written ?st) = unat (bytes_written st) + length xs"
      using unat_bytes_written [OF True] by simp
    then have "\<not> fst (g ?st)" using emits_full [OF g, of ?st] st True by simp
    then show ?thesis using s by simp
  qed
qed

lemma emits_cong: "(\<And>st. f st = g st) \<Longrightarrow> emits wr out g xs \<Longrightarrow> emits wr out f xs"
  by (simp add: emits_def)

locale pb_sink =
  fixes wr :: "'s \<Rightarrow> bytes \<Rightarrow> bool \<times> 's" and out :: "'s \<Rightarrow> bytes"
  assumes wr: "\<exists>s'. wr s buf = (True, s') \<and> out s' = out s @ buf"
begin

lemma emits_write: "emits wr out (pb_write xs (length xs)) xs"
  unfolding emits_def
proof (intro conjI allI impI)
  fix st :: "'s pb_ostream"
  assume st: "os_callback st = Some wr" "unat (bytes_written st) + length xs \<le> unat (max_size st)" "os_errmsg st = None"
  obtain s' where s': "wr (os_state st) xs = (True, s')" "out s' = out (os_state st) @ xs" using wr by blast
  have "unat (bytes_written st + of_nat (length xs)) = unat (bytes_written st) + length xs"
    by (rule unat_bytes_written [OF st(2)])
  then have "\<not> bytes_written st + of_nat (length xs) < bytes_written st"
    "\<not> max_size st < bytes_written st + of_nat (length xs)"
    using st(2) by (simp_all add: word_less_nat_alt)
  then show "\<exists>s'. pb_write xs (length xs) st =
      (True, st\<lparr>os_state := s', bytes_written := bytes_written st + of_nat (length xs)\<rparr>) \<and> out s' = out (os_state st) @ xs"
  proof (cases "xs = []")
    case True
    then show ?thesis using st(1) by (intro exI [of _ "os_state st"]) (simp add: pb_write_def)
  next
    case False
    then show ?thesis
      using st(1) s' \<open>\<not> bytes_written st + _ < _\<close> \<open>\<not> max_size st < _\<close>
      by (intro exI [of _ s']) (simp add: pb_write_def)
  qed
next
  fix st :: "'s pb_ostream"
  assume st: "os_callback st = Some wr" "os_errmsg st = None" "unat (bytes_written st) + length xs < 2 ^ 64"
    "unat (bytes_written st) \<le> unat (max_size st)" "unat (max_size st) < unat (bytes_written st) + length xs"
  have "unat (bytes_written st + of_nat (length xs)) = unat (bytes_written st) + length xs"
    using st(3) by (simp add: unat_word_ariths unat_of_nat)
  then have "max_size st < bytes_written st + of_nat (length xs)" using st(5) by (simp add: word_less_nat_alt)
  moreover have "xs \<noteq> []" using st(4,5) by auto
  ultimately show "\<not> fst (pb_write xs (length xs) st)"
    using st(1) by (simp add: pb_write_def Let_def PB_FAIL_def)
qed (simp add: pb_write_def Let_def)

lemma emits_write_n: "length xs = n \<Longrightarrow> emits wr out (pb_write xs n) xs"
  using emits_write by blast

end

interpretation memory: pb_sink buf_write "\<lambda>b. b"
  by unfold_locales (simp add: buf_write_def)

section \<open>Writing numbers\<close>

lemma varint_buffer_varint:
  "v \<noteq> 0 \<Longrightarrow> varint_buffer v \<noteq> [] \<and> butlast (varint_buffer v) @ [last (varint_buffer v) AND 0x7F] = varint (unat v)"
proof (induction v rule: varint_buffer.induct)
  case (1 v)
  have u: "unat (drop_bit 7 v) = unat v div 128" by (simp add: unat_drop_bit_div)
  have b: "ucast (v AND 0x7F) OR 0x80 = (of_nat (unat v mod 128 + 128) :: byte)"
    using low_seven_high [of v] by (simp add: payload_byte add.commute)
  show ?case
  proof (cases "drop_bit 7 v = 0")
    case True
    then have small: "unat v < 128" using u by (simp add: div_eq_0_iff)
    have "varint_buffer v = [of_nat (unat v mod 128 + 128)]"
      using 1(2) by (subst varint_buffer.simps) (simp add: True b varint_buffer.simps [of 0])
    moreover have "of_nat (unat v mod 128 + 128) AND 0x7F = (of_nat (unat v) :: byte)"
    proof -
      have "unat (of_nat (unat v mod 128 + 128) AND 0x7F :: byte) = unat (of_nat (unat v) :: byte)"
        unfolding byte_split_7 unat_byte_of_nat using small by simp
      then show ?thesis by (simp only: word_unat_eq_iff)
    qed
    ultimately show ?thesis using small by (subst varint.simps) simp
  next
    case False
    then have big: "\<not> unat v < 128" using u by (auto simp: word_unat_eq_iff)
    have "varint_buffer v = of_nat (unat v mod 128 + 128) # varint_buffer (drop_bit 7 v)"
      using 1(2) by (subst varint_buffer.simps) (simp add: b)
    then show ?thesis
      using 1(1) [OF 1(2) False] big u by (subst varint.simps) simp
  qed
qed

lemma low_byte: "(ucast (v AND 0xFF) :: byte) = ucast v" for v :: "'a :: len word"
  by (auto simp: byte_eq_iff_bits bit_simps dest: bit_imp_le_length)

definition zigzag :: "int \<Rightarrow> nat" where
  "zigzag i = (if i < 0 then nat (- 2 * i - 1) else nat (2 * i))"

lemma unat_zigzag:
  fixes v :: "64 word"
  shows "unat (if sint v < 0 then NOT (push_bit 1 v) else push_bit 1 v) = zigzag (sint v)"
proof -
  have v: "v = word_of_int (sint v)" by simp
  have p: "push_bit 1 v = word_of_int (2 * sint v)"
    by (simp add: push_bit_eq_mult)
  have b: "- (2 ^ 63) \<le> sint v" "sint v < 2 ^ 63" using sint_ge [of v] sint_lt [of v] by simp_all
  have n: "NOT (push_bit 1 v) = word_of_int (- 2 * sint v - 1)"
    unfolding p not_eq_complement by simp
  have u: "unat (word_of_int j :: 64 word) = nat j" if "0 \<le> j" "j < 2 ^ 64" for j
    using that by (simp add: unat_eq_nat_uint uint_word_of_int)
  show ?thesis
    unfolding n unfolding p zigzag_def using b by (auto simp: u simp del: of_int_mult of_int_diff of_int_minus)
qed

lemma unzigzag:
  fixes v :: u64
  defines "z \<equiv> (if sint v < 0 then NOT (push_bit 1 v) else push_bit 1 v)"
  shows "(if odd z then NOT (drop_bit 1 z) else drop_bit 1 z) = v"
proof -
  define w where "w = push_bit 1 v"
  have w: "bit w m \<longleftrightarrow> m < 64 \<and> 0 < m \<and> bit v (m - 1)" for m
    unfolding w_def by (auto simp: bit_push_bit_iff Suc_le_eq simp del: push_bit_Suc push_bit_numeral)
  have neg: "sint v < 0 \<longleftrightarrow> bit v 63" by (simp add: sint_neg_iff bit_63_iff)
  have "even w" using w [of 0] by (simp add: bit_0)
  then have odd: "odd z \<longleftrightarrow> bit v 63" by (simp add: z_def neg flip: w_def) 
  have last: "n = 63" if "n < 64" "\<not> n < 63" for n :: nat using that by simp
  show ?thesis
    unfolding odd unfolding z_def neg w_def [symmetric]
    by (intro bit_word_eqI) (auto simp: bit_drop_bit_eq bit_not_iff w, (metis last)+)
qed

lemma list_update_last: "xs \<noteq> [] \<Longrightarrow> xs[length xs - 1 := f (xs ! (length xs - 1))] = butlast xs @ [f (last xs)]"
  by (cases xs rule: rev_cases) (simp_all add: nth_append)

context pb_sink
begin

lemma emits_varint: "emits wr out (pb_encode_varint v) (varint (unat v))"
proof (cases "v \<le> 0x7F")
  case True
  then have "unat v < 128" by (simp add: word_le_nat_alt)
  moreover have "(ucast v :: byte) = of_nat (unat v)" by simp
  ultimately show ?thesis
    using True emits_write_n [of "[of_nat (unat v)]" 1]
    by (simp add: pb_encode_varint_def [abs_def] varint.simps)
next
  case False
  let ?b = "varint_buffer v"
  have "v \<noteq> 0" using False by auto
  then have b: "?b \<noteq> []" "?b[length ?b - 1 := ?b ! (length ?b - 1) AND 0x7F] = varint (unat v)"
    using varint_buffer_varint list_update_last [of ?b "\<lambda>b. b AND 0x7F"] by simp_all
  then have "length (varint (unat v)) = length ?b" by (metis length_list_update)
  then show ?thesis
    using False emits_write_n [of "varint (unat v)" "length ?b"] b(2)
    by (simp add: pb_encode_varint_def [abs_def] Let_def)
qed

lemma emits_string:
  assumes "length d < 2 ^ 64"
  shows "emits wr out (pb_encode_string d (length d)) (varint (length d) @ d)"
  using emits_and_also [OF emits_varint [of "of_nat (length d)"] emits_write [of d]] assms
  by (simp add: pb_encode_string_def [abs_def] unat_of_nat)

lemma emits_tag:
  assumes "unat wt < 8"
  shows "emits wr out (pb_encode_tag wt tag) (varint (unat tag * 8 + unat wt))"
proof -
  have wt: "unat (ucast wt :: u64) = unat wt" "unat (ucast tag :: u64) = unat tag"
    using unat_less_pow(2) [of wt] unat_less_pow(2) [of tag] by (simp_all add: unsigned_ucast_eq take_bit_nat_eq_self_iff)
  have "unat (push_bit 3 (ucast tag :: u64) OR ucast wt) = unat tag * 8 + unat wt"
    using unat_less_pow(2) [of tag] assms unat_push_or [of "ucast wt :: u64" 3 "ucast tag"] by (simp add: wt)
  then show ?thesis
    using emits_varint [of "push_bit 3 (ucast tag :: u64) OR ucast wt"] by (simp add: pb_encode_tag_def [abs_def])
qed

lemma emits_fixed32: "emits wr out (pb_encode_fixed32 v) (le_bytes 4 (unat v))"
proof -
  have "[ucast (v AND 0xFF), ucast (drop_bit 8 v AND 0xFF), ucast (drop_bit 16 v AND 0xFF),
      ucast (drop_bit 24 v AND 0xFF)] = le_bytes 4 (unat v)"
    unfolding le_bytes_def be_bytes_word by (simp add: low_byte)
  then show ?thesis
    using emits_write_n [of "le_bytes 4 (unat v)" 4] by (simp add: pb_encode_fixed32_def [abs_def])
qed

lemma emits_fixed64: "emits wr out (pb_encode_fixed64 v) (le_bytes 8 (unat v))"
proof -
  have "[ucast (v AND 0xFF), ucast (drop_bit 8 v AND 0xFF), ucast (drop_bit 16 v AND 0xFF),
      ucast (drop_bit 24 v AND 0xFF), ucast (drop_bit 32 v AND 0xFF), ucast (drop_bit 40 v AND 0xFF),
      ucast (drop_bit 48 v AND 0xFF), ucast (drop_bit 56 v AND 0xFF)] = le_bytes 8 (unat v)"
    unfolding le_bytes_def be_bytes_word by (simp add: low_byte)
  then show ?thesis
    using emits_write_n [of "le_bytes 8 (unat v)" 8] by (simp add: pb_encode_fixed64_def [abs_def])
qed

text \<open>The zigzag code of a signed number, as the protocol defines it.\<close>

lemma emits_svarint: "emits wr out (pb_encode_svarint v) (varint (zigzag (sint v)))"
  using emits_varint [of "if sint v < 0 then NOT (push_bit 1 v) else push_bit 1 v"]
  unfolding unat_zigzag by (simp add: pb_encode_svarint_def [abs_def] Let_def)

end

section \<open>Exactness and errors\<close>

context pb_source
begin

lemma readbyte_cases:
  assumes "good_input read content st"
  obtains (none) "bytes_left st = 0" "pb_readbyte st = PB_RETURN_ERROR ''end-of-stream'' st"
  | (byte) b st' where "pb_readbyte st = (Some b, st')" "advanced content st [b] st'" "good_input read content st'"
proof (cases "input content st")
  case Nil
  then show thesis using assms none by (auto simp: input_def good_input_def pb_readbyte_def)
next
  case (Cons b bs)
  then have "prefix [b] (input content st)" by simp
  then show thesis using readsD [OF reads_byte assms] byte by blast
qed

lemma reads_det:
  assumes "reads read content f xs x" "good_input read content st" "prefix xs (input content st)"
    and "f st = (Some y, st')"
  shows "y = x \<and> advanced content st xs st'"
  using readsD [OF assms(1-3)] assms(4) by (metis option.inject prod.inject)

lemma varint_loop_sound:
  assumes "good_input read content st" "k \<le> 10" "varint_loop (of_nat (7 * k)) r st = (Some v, st')"
  shows "\<exists>p. is_varint p \<and> k + length p \<le> 10 \<and> prefix p (input content st)"
  using assms
proof (induction "bytes_left st" arbitrary: k r st rule: less_induct)
  case less
  have k: "\<not> (64 :: byte) \<le> of_nat (7 * k)"
    using less.prems(3) by (subst (asm) varint_loop.simps) (auto simp: PB_RETURN_ERROR_def split: if_splits)
  then have "k < 10" using bitpos(2) [of k] less.prems(2) by simp
  show ?case
  proof (rule readbyte_cases [OF less.prems(1)])
    assume "bytes_left st = 0" "pb_readbyte st = PB_RETURN_ERROR ''end-of-stream'' st"
    then show ?thesis using less.prems(3) k by (subst (asm) varint_loop.simps) (simp add: PB_RETURN_ERROR_def)
  next
    fix b s
    assume byte: "pb_readbyte st = (Some b, s)" "advanced content st [b] s" "good_input read content s"
    note step = varint_loop_step [OF byte(1) k, of r, unfolded Let_def]
    have inp: "input content st = b # input content s" using advanced_input [OF byte(2)] by simp
    show ?thesis
    proof (cases "unat b < 128")
      case True
      then show ?thesis using inp \<open>k < 10\<close> by (intro exI [of _ "[b]"]) simp
    next
      case False
      have "of_nat (7 * k) + 7 = (of_nat (7 * Suc k) :: byte)" by simp
      then obtain r' where "varint_loop (of_nat (7 * Suc k)) r' s = (Some v, st')"
        using step False less.prems(3) by metis
      moreover have "bytes_left s < bytes_left st" using byte(2) by (simp add: advanced_def)
      ultimately obtain p where "is_varint p" "Suc k + length p \<le> 10" "prefix p (input content s)"
        using less.hyps [of s "Suc k" r'] byte(3) \<open>k < 10\<close> by auto
      then show ?thesis using False inp by (intro exI [of _ "b # p"]) simp
    qed
  qed
qed

lemma pb_decode_varint_iff:
  assumes "good_input read content st"
  shows "(\<exists>st'. pb_decode_varint st = (Some v, st')) \<longleftrightarrow>
    (\<exists>p. is_varint p \<and> length p \<le> 10 \<and> prefix p (input content st) \<and> v = of_nat (varint_val p))"
proof
  assume "\<exists>st'. pb_decode_varint st = (Some v, st')"
  then obtain st' where st': "pb_decode_varint st = (Some v, st')" by blast
  then obtain p where p: "is_varint p" "length p \<le> 10" "prefix p (input content st)"
    using varint_loop_sound [OF assms, of 0 0 v st'] by (auto simp: pb_decode_varint_def)
  then show "\<exists>p. is_varint p \<and> length p \<le> 10 \<and> prefix p (input content st) \<and> v = of_nat (varint_val p)"
    using reads_det [OF reads_varint assms _ st'] by blast
next
  assume "\<exists>p. is_varint p \<and> length p \<le> 10 \<and> prefix p (input content st) \<and> v = of_nat (varint_val p)"
  then show "\<exists>st'. pb_decode_varint st = (Some v, st')"
    using readsD [OF reads_varint assms] by metis
qed

end

section \<open>Round trips in memory\<close>

text \<open>A reader on a buffer that holds exactly the bytes, and the bytes it leaves.\<close>

definition memory_stream :: "bytes \<Rightarrow> bytes pb_istream" where
  "memory_stream c = pb_istream_from_buffer c (length c)"

lemma memory_stream_good [simp]:
  "good_input buf_read (\<lambda>b. b) (memory_stream c)" "input (\<lambda>b. b) (memory_stream c) = c"
  by (simp_all add: memory_stream_def good_input_def input_def pb_istream_from_buffer_def)

definition on_buffer :: "(bytes pb_istream \<Rightarrow> 'a option \<times> bytes pb_istream) \<Rightarrow> 'a reader" where
  "on_buffer f c =
     (case f (memory_stream c) of (r, st) \<Rightarrow> (r, take (bytes_left st) (is_state st)))"

lemma reads_on_buffer:
  assumes "reads buf_read (\<lambda>b. b) f xs x"
  shows "on_buffer f (xs @ r) = (Some x, r)"
proof -
  obtain st' where "f (memory_stream (xs @ r)) = (Some x, st')" "advanced (\<lambda>b. b) (memory_stream (xs @ r)) xs st'"
    using readsD [OF assms memory_stream_good(1), of "xs @ r"] by auto
  then show ?thesis
    by (auto simp: on_buffer_def advanced_def memory_stream_def pb_istream_from_buffer_def)
qed

text \<open>What a writer puts into a buffer of the size, if it fits.\<close>

definition to_buffer :: "u64 \<Rightarrow> (bytes pb_ostream \<Rightarrow> bool \<times> bytes pb_ostream) \<Rightarrow> bytes option" where
  "to_buffer bufsize f =
     (case f (pb_ostream_from_buffer bufsize) of (success, st) \<Rightarrow> if success then Some (os_state st) else None)"

lemma emits_to_buffer:
  assumes "emits buf_write (\<lambda>b. b) f xs" "length xs < 2 ^ 64"
  shows "to_buffer n f = (if length xs \<le> unat n then Some xs else None)"
proof (cases "length xs \<le> unat n")
  case True
  then obtain s' where "f (pb_ostream_from_buffer n) =
      (True, pb_ostream_from_buffer n\<lparr>os_state := s', bytes_written := bytes_written (pb_ostream_from_buffer n) + of_nat (length xs)\<rparr>)"
      "s' = os_state (pb_ostream_from_buffer n) @ xs"
    using emits_room [OF assms(1), of "pb_ostream_from_buffer n"] by (auto simp: pb_ostream_from_buffer_def)
  with True show ?thesis by (simp add: to_buffer_def) (simp add: pb_ostream_from_buffer_def)
next
  case False
  then have "\<not> fst (f (pb_ostream_from_buffer n))"
    using emits_full [OF assms(1), of "pb_ostream_from_buffer n"] assms(2) by (simp add: pb_ostream_from_buffer_def)
  with False show ?thesis by (cases "f (pb_ostream_from_buffer n)") (simp add: to_buffer_def)
qed

interpretation varint_codec: codec "\<lambda>v. varint (unat v)" "on_buffer pb_decode_varint" "\<lambda>v. True"
proof (unfold_locales, goal_cases)
  case (1 v r)
  show ?case using reads_on_buffer [OF buffer.reads_varint [of "varint (unat v)"]] length_varint_64 [of v] by simp
qed

context pb_source
begin

lemma reads_zigzag: "reads read content pb_decode_svarint (varint (zigzag (sint v))) v"
proof -
  obtain z where z: "unat z = zigzag (sint v)" "(if odd z then NOT (drop_bit 1 z) else drop_bit 1 z) = v"
    using unat_zigzag [of v] unzigzag [of v] by blast
  have "bit (unat z) 0 = bit z 0" by (simp only: bit_unsigned_iff) simp
  then have "of_nat (varint_val (varint (unat z))) = z" "odd (varint_val (varint (unat z))) = odd z"
    by (simp_all add: bit_0)
  then show ?thesis
    using reads_svarint [of "varint (unat z)"] length_varint_64 [of z]
    unfolding z(1) [symmetric] by (simp only: z(2) is_varint_varint)
qed

end

lemma svarint_roundtrip: "on_buffer pb_decode_svarint (varint (zigzag (sint v)) @ r) = (Some v, r)"
  by (rule reads_on_buffer [OF buffer.reads_zigzag])

interpretation svarint_codec: codec "\<lambda>v. varint (zigzag (sint v))" "on_buffer pb_decode_svarint" "\<lambda>v. True"
  by unfold_locales (rule svarint_roundtrip)

interpretation fixed32_codec: codec "\<lambda>v. le_bytes 4 (unat v)" "on_buffer pb_decode_fixed32" "\<lambda>v. True"
proof (unfold_locales, goal_cases)
  case (1 v r)
  have "or_le (le_bytes 4 (unat v)) = v"
    using unat_less_pow(2) [of v] by (simp add: word_unat_eq_iff unat_or_le le_val_le_bytes)
  then show ?case using reads_on_buffer [OF buffer.reads_fixed32 [of "le_bytes 4 (unat v)"], of r] by simp
qed

interpretation fixed64_codec: codec "\<lambda>v. le_bytes 8 (unat v)" "on_buffer pb_decode_fixed64" "\<lambda>v. True"
proof (unfold_locales, goal_cases)
  case (1 v r)
  have "or_le (le_bytes 8 (unat v)) = v"
    using unat_less_pow(3) [of v] by (simp add: word_unat_eq_iff unat_or_le le_val_le_bytes)
  then show ?case using reads_on_buffer [OF buffer.reads_fixed64 [of "le_bytes 8 (unat v)"], of r] by simp
qed

lemma is_length_varint: "n < 2 ^ 32 \<Longrightarrow> is_length (varint n) n"
  using length_varint [of n 4] by (simp add: is_length_def)

interpretation tag_codec: codec "\<lambda>(wt, tag). varint (unat tag * 8 + unat wt)"
  "on_buffer (\<lambda>st. snd (pb_decode_tag st))"
  "\<lambda>(wt, tag). unat wt < 8 \<and> unat tag < 2 ^ 29 \<and> (wt, tag) \<noteq> (0, 0)"
proof (unfold_locales, goal_cases)
  case (1 x r)
  obtain wt tag where x: "x = (wt, tag)" by (cases x)
  have "unat tag * 8 + unat wt < 2 ^ 32" "0 < unat tag * 8 + unat wt"
    using 1 by (auto simp: x unat_gt_0)
  then show ?case
    using reads_on_buffer [OF buffer.reads_tag(1) [OF is_length_varint], of tag wt r] 1 by (simp add: x)
qed

lemmas evaluate_reader = on_buffer_def memory_stream_def pb_istream_from_buffer_def pb_readbyte_def buf_read_def
  pb_decode_varint32_def pb_decode_varint32_eof_def varint32_loop.simps Let_def

lemma varint_val_padding: "varint_val (replicate n 0x80 @ bs) = 128 ^ n * varint_val bs"
  by (induction n) simp_all

end
