(* ===== verification/Pb_Sizing.thy ===== *)
theory Pb_Sizing
  imports Pb_Encode Pb_Wire
begin

text \<open>
  The encoder writes what it counts. \<open>pb_encode_submessage\<close> and \<open>encode_array\<close> first run on a
  counting stream for the length, then on the real one; that is right because no
  function of the encoder depends on the kind of its stream: it emits fixed bytes
  (\<open>emits\<close>), or fails already while counting. This is \<open>uniform\<close>.
\<close>

definition uniform ::
  "('s \<Rightarrow> bytes \<Rightarrow> bool \<times> 's) \<Rightarrow> ('s \<Rightarrow> bytes) \<Rightarrow> ('s pb_ostream \<Rightarrow> bool \<times> 's pb_ostream) \<Rightarrow> bool" where
  "uniform wr out f \<longleftrightarrow>
     (\<exists>xs. emits wr out f xs) \<or> (\<forall>st. os_callback st = None \<longrightarrow> \<not> fst (f st))"

named_theorems uniform_intros \<open>the encoder functions do not depend on the kind of their stream\<close>

lemma uniform_emits: "emits wr out f xs \<Longrightarrow> uniform wr out f"
  by (auto simp: uniform_def)

lemma uniform_cases:
  assumes "uniform wr out f"
  obtains (emits) xs where "emits wr out f xs" | (fails) "\<And>st. os_callback st = None \<Longrightarrow> \<not> fst (f st)"
  using assms by (auto simp: uniform_def)

lemma emits_True: "emits wr out (\<lambda>st. (True, st)) []"
proof -
  have "\<exists>s'. st = st\<lparr>os_state := s'\<rparr> \<and> out s' = out (os_state st)" for st :: "'a pb_ostream"
    by (intro exI [of _ "os_state st"]) simp
  then show ?thesis by (auto simp: emits_def)
qed

lemma uniform_True [uniform_intros]: "uniform wr out (\<lambda>st. (True, st))"
  by (rule uniform_emits [OF emits_True])

lemma uniform_PB_FAIL [uniform_intros]: "uniform wr out (PB_FAIL msg)"
  by (simp add: uniform_def PB_FAIL_def)

lemma uniform_False [uniform_intros]: "uniform wr out (\<lambda>st. (False, st))"
  by (simp add: uniform_def)

lemma uniform_and_also [uniform_intros]:
  assumes "uniform wr out f" "uniform wr out g"
  shows "uniform wr out (\<lambda>st. and_also (f st) g)"
  using assms(1)
proof (cases rule: uniform_cases)
  case (emits xs)
  note f = emits
  from assms(2) show ?thesis
  proof (cases rule: uniform_cases)
    case (emits ys)
    then show ?thesis by (rule uniform_emits [OF emits_and_also [OF f]])
  next
    case fails
    then have "\<not> fst (and_also (f st) g)" if "os_callback st = None" for st
      using emits_sizing [OF f that] that by simp
    then show ?thesis by (simp add: uniform_def)
  qed
next
  case fails
  then have "\<not> fst (and_also (f st) g)" if "os_callback st = None" for st
    using fails [OF that] by (cases "f st") (auto simp: and_also_def)
  then show ?thesis by (simp add: uniform_def)
qed

lemma uniform_if [uniform_intros]:
  "uniform wr out f \<Longrightarrow> uniform wr out g \<Longrightarrow> uniform wr out (\<lambda>st. if c then f st else g st)"
  by (cases c) simp_all

lemma pb_write_counts:
  "os_callback st = None \<Longrightarrow> pb_write [] (unat n) st = (True, st\<lparr>bytes_written := bytes_written st + n\<rparr>)"
proof -
  assume "os_callback st = None"
  moreover have "of_nat (unat n) = n" by simp
  ultimately show ?thesis by (simp only: pb_write_def Let_def option.case)
qed

text \<open>Where only the number of bytes is counted, instead of writing them.\<close>

lemma emits_sized:
  fixes n :: u64
  assumes "emits wr out f xs" "n = of_nat (length xs)"
  shows "emits wr out (\<lambda>st. if os_callback st = None then pb_write [] (unat n) st else f st) xs"
proof -
  let ?g = "\<lambda>st. if os_callback st = None then pb_write [] (unat n) st else f st"
  have "?g st = (True, st\<lparr>bytes_written := bytes_written st + of_nat (length xs)\<rparr>)" if "os_callback st = None" for st
    using pb_write_counts [OF that, of n] that by (simp only: assms(2)) simp
  moreover have "?g st = f st" if "os_callback st = Some wr" for st using that by simp
  ultimately show ?thesis using assms(1) unfolding emits_def by simp
qed

context pb_sink
begin

lemma uniform_varint [uniform_intros]: "uniform wr out (pb_encode_varint v)"
  by (rule uniform_emits [OF emits_varint])

lemma emits_string_n:
  assumes "length d = n"
  shows "emits wr out (pb_encode_string d n) (varint (unat (of_nat n :: u64)) @ d)"
  using emits_and_also [OF emits_varint emits_write_n [OF assms]] by (simp add: pb_encode_string_def [abs_def])

lemma uniform_string [uniform_intros]: "length d = n \<Longrightarrow> uniform wr out (pb_encode_string d n)"
  by (rule uniform_emits [OF emits_string_n])

lemma uniform_tag [uniform_intros]: "uniform wr out (pb_encode_tag wt tag)"
  unfolding pb_encode_tag_def [abs_def] Let_def by (rule uniform_varint)

lemma uniform_tag_for_field [uniform_intros]: "uniform wr out (pb_encode_tag_for_field f)"
  unfolding pb_encode_tag_for_field_def [abs_def] Let_def by (intro uniform_intros)

lemma uniform_svarint [uniform_intros]: "uniform wr out (pb_encode_svarint v)"
  by (rule uniform_emits [OF emits_svarint])

lemma emits_submessage:
  assumes "emits wr out (enc gs src) xs"
  shows "emits wr out (pb_encode_submessage enc gs src) (varint (unat (of_nat (length xs) :: u64)) @ xs)"
proof -
  let ?n = "of_nat (length xs) :: u64"
  let ?body = "\<lambda>st. if os_callback st = None then pb_write [] (unat ?n) st
    else if bytes_written st + ?n > max_size st then PB_FAIL ''stream full'' st
    else (case enc gs src \<lparr>os_callback = os_callback st, os_state = os_state st, max_size = ?n,
                           bytes_written = 0, os_errmsg = None\<rparr> of
            (status, substream) \<Rightarrow>
              let st = st\<lparr>bytes_written := bytes_written st + bytes_written substream,
                          os_state := os_state substream, os_errmsg := os_errmsg substream\<rparr>
              in if bytes_written substream \<noteq> ?n then PB_FAIL ''submsg size changed'' st else (status, st))"
  have sizing: "enc gs src (PB_OSTREAM_SIZING s) = (True, (PB_OSTREAM_SIZING s)\<lparr>bytes_written := ?n\<rparr>)" for s
    using emits_sizing [OF assms, of "PB_OSTREAM_SIZING s"] by (simp add: PB_OSTREAM_SIZING_def)
  have "emits wr out ?body xs"
    unfolding emits_def
  proof (intro conjI allI impI)
    fix st :: "'s pb_ostream"
    assume "os_callback st = None"
    then show "?body st = (True, st\<lparr>bytes_written := bytes_written st + ?n\<rparr>)" by (simp add: pb_write_counts)
  next
    fix st :: "'s pb_ostream"
    assume st: "os_callback st = Some wr" "os_errmsg st = None" "unat (bytes_written st) + length xs \<le> unat (max_size st)"
    let ?sub = "\<lparr>os_callback = Some wr, os_state = os_state st, max_size = ?n, bytes_written = 0, os_errmsg = None\<rparr>"
    have n: "unat ?n = length xs" using st(3) unat_less_pow(3) [of "max_size st"] by (simp add: unat_of_nat)
    obtain s' where "enc gs src ?sub = (True, ?sub\<lparr>os_state := s', bytes_written := ?n\<rparr>)" "out s' = out (os_state st) @ xs"
      using emits_room [OF assms, of ?sub] n by auto
    moreover have "\<not> max_size st < bytes_written st + ?n"
      using unat_bytes_written [OF st(3)] st(3) by (simp add: word_less_nat_alt)
    ultimately show "\<exists>s'. ?body st = (True, st\<lparr>os_state := s', bytes_written := bytes_written st + ?n\<rparr>) \<and>
        out s' = out (os_state st) @ xs"
      using st(1,2) by (intro exI [of _ s']) simp
  next
    fix st :: "'s pb_ostream"
    assume st: "os_callback st = Some wr" "unat (bytes_written st) + length xs < 2 ^ 64"
      "unat (max_size st) < unat (bytes_written st) + length xs"
    then have "unat (bytes_written st + ?n) = unat (bytes_written st) + length xs"
      by (simp add: unat_word_ariths unat_of_nat)
    then have "max_size st < bytes_written st + ?n" using st(3) by (simp add: word_less_nat_alt)
    then show "\<not> fst (?body st)" using st(1) by (simp add: PB_FAIL_def)
  qed
  from emits_and_also [OF emits_varint [of ?n] this]
  have "emits wr out (\<lambda>st. and_also (pb_encode_varint ?n st) ?body) (varint (unat ?n) @ xs)" .
  moreover have "pb_encode_submessage enc gs src = (\<lambda>st. and_also (pb_encode_varint ?n st) ?body)"
  proof (rule ext)
    fix st
    show "pb_encode_submessage enc gs src st = and_also (pb_encode_varint ?n st) ?body"
      unfolding pb_encode_submessage_def sizing by (simp add: PB_OSTREAM_SIZING_def Let_def cong: if_cong)
  qed
  ultimately show ?thesis by simp
qed

lemma uniform_submessage:
  assumes "\<And>gs src. uniform wr out (enc gs src)"
  shows "uniform wr out (pb_encode_submessage enc gs src)"
  using assms [of gs src]
proof (cases rule: uniform_cases)
  case fails
  have "\<not> fst (enc gs src (PB_OSTREAM_SIZING s))" for s
    by (rule fails) (simp add: PB_OSTREAM_SIZING_def)
  then have "\<not> fst (pb_encode_submessage enc gs src st)" for st
    unfolding pb_encode_submessage_def by (auto split: prod.split bool.split) (metis fst_conv)
  then show ?thesis by (simp add: uniform_def)
next
  case (emits xs)
  then show ?thesis by (rule uniform_emits [OF emits_submessage])
qed

lemma uniform_bytes: "uniform wr out (pb_enc_bytes mem f src)"
  unfolding pb_enc_bytes_def [abs_def] Let_def by (intro uniform_intros) simp_all

lemma uniform_enc_varint: "uniform wr out (pb_enc_varint mem f src)"
  by (cases "load_signed mem src (data_size f)") (simp_all add: pb_enc_varint_def [abs_def] uniform_intros)

lemma uniform_enc_svarint: "uniform wr out (pb_enc_svarint mem f src)"
  by (cases "load_signed mem src (data_size f)") (simp_all add: pb_enc_svarint_def [abs_def] uniform_intros)

lemma uniform_enc_uvarint: "uniform wr out (pb_enc_uvarint mem f src)"
  unfolding pb_enc_uvarint_def [abs_def] by (intro uniform_intros)

lemma uniform_enc_string: "uniform wr out (pb_enc_string mem f src)"
  unfolding pb_enc_string_def [abs_def] Let_def by (intro uniform_intros) simp_all

lemma uniform_enc_submessage:
  assumes "\<And>gs src. uniform wr out (enc gs src)"
  shows "uniform wr out (pb_enc_submessage enc f src)"
  by (cases "fld_ptr f") (simp_all add: pb_enc_submessage_def [abs_def] uniform_intros uniform_submessage assms)

lemma emits_enc_fixed:
  "emits wr out (pb_enc_fixed32 mem src) (le_bytes 4 (unat (load mem src :: u32)))"
  "emits wr out (pb_enc_fixed64 mem src) (le_bytes 8 (unat (load mem src :: u64)))"
  unfolding pb_enc_fixed32_def [abs_def] pb_enc_fixed64_def [abs_def] by (rule emits_fixed32 emits_fixed64)+

lemma uniform_encoders:
  assumes "\<And>gs src. uniform wr out (enc gs src)"
  shows "uniform wr out (PB_ENCODERS mem enc f src)"
  unfolding PB_ENCODERS_def [abs_def] Let_def
proof (intro uniform_if)
  show "uniform wr out (pb_enc_bool mem src)" unfolding pb_enc_bool_def [abs_def] by (rule uniform_varint)
  show "uniform wr out (pb_enc_fixed_length_bytes mem f src)"
    unfolding pb_enc_fixed_length_bytes_def [abs_def] by (rule uniform_string) simp
qed (rule uniform_enc_varint uniform_enc_uvarint uniform_enc_svarint uniform_bytes uniform_enc_string
    uniform_emits [OF emits_enc_fixed(1)] uniform_emits [OF emits_enc_fixed(2)]
    uniform_enc_submessage [OF assms] uniform_False)+

lemma uniform_entries:
  "(\<And>p. uniform wr out (each p)) \<Longrightarrow> uniform wr out (encode_entries each step n p)"
  by (induction n arbitrary: p) (simp_all add: encode_entries.simps [abs_def] uniform_intros)

lemma emits_entries:
  assumes "\<And>p. emits wr out (each p) (val p)" "\<And>p. length (val p) = k"
  shows "\<exists>xs. emits wr out (encode_entries each step n p) xs \<and> length xs = k * n"
proof (induction n arbitrary: p)
  case (Suc n)
  then obtain xs where "emits wr out (encode_entries each step n (p + step)) xs" "length xs = k * n" by blast
  then show ?case
    using emits_and_also [OF assms(1)] assms(2) by (intro exI [of _ "val p @ xs"]) (simp add: encode_entries.simps [abs_def])
qed (use emits_True in \<open>auto simp: encode_entries.simps [abs_def]\<close>)

text \<open>A packed array: the length that was counted, then the entries.\<close>

lemma emits_packed:
  assumes "emits wr out E xs" "\<And>st. count st = Some (of_nat (length xs) :: u64)"
  shows "emits wr out (\<lambda>st. case count st of None \<Rightarrow> (False, st)
      | Some n \<Rightarrow> and_also (pb_encode_varint n st) (\<lambda>st. if os_callback st = None then pb_write [] (unat n) st else E st))
    (varint (unat (of_nat (length xs) :: u64)) @ xs)"
  using emits_and_also [OF emits_varint emits_sized [OF assms(1) refl]] by (simp only: assms(2) option.case)

lemma emits_packed_counted:
  assumes "emits wr out E xs"
  shows "(case E (PB_OSTREAM_SIZING s) of (False, _) \<Rightarrow> None | (True, sizestream) \<Rightarrow> Some (bytes_written sizestream)) =
    Some (of_nat (length xs))"
  using emits_sizing [OF assms, of "PB_OSTREAM_SIZING s"] by (simp add: PB_OSTREAM_SIZING_def)

lemma uniform_array:
  assumes enc: "\<And>gs src. uniform wr out (enc gs src)"
  shows "uniform wr out (encode_array mem enc f pData count)"
proof -
  let ?func = "PB_ENCODERS mem enc f"
  let ?E = "encode_entries ?func (unat (data_size f)) (unat count) pData"
  let ?size = "\<lambda>st. if PB_LTYPE (fld_type f) = PB_LTYPE_FIXED32 then Some (4 * ucast count)
    else if PB_LTYPE (fld_type f) = PB_LTYPE_FIXED64 then Some (8 * ucast count)
    else (case ?E (PB_OSTREAM_SIZING (os_state st)) of (False, _) \<Rightarrow> None
          | (True, sizestream) \<Rightarrow> Some (bytes_written sizestream))"
  have count: "of_nat (k * unat count) = (of_nat k * ucast count :: u64)" for k
    by (simp add: of_nat_unat)
  have fixed: "\<exists>xs. emits wr out ?E xs \<and> k * ucast count = (of_nat (length xs) :: u64)"
    if "\<And>src. emits wr out (?func src) (val src)" "\<And>src. length (val src) = m" "k = of_nat m" for k val m
    using emits_entries [where each = ?func and val = val and k = m and n = "unat count" and p = pData
        and step = "unat (data_size f)"] that count [of m] by metis
  have packed: "uniform wr out (\<lambda>st. case ?size st of None \<Rightarrow> (False, st) | Some n \<Rightarrow>
      and_also (pb_encode_varint n st) (\<lambda>st. if os_callback st = None then pb_write [] (unat n) st else ?E st))"
  proof -
    consider (fixed32) "PB_LTYPE (fld_type f) = PB_LTYPE_FIXED32" | (fixed64) "PB_LTYPE (fld_type f) = PB_LTYPE_FIXED64"
      | (other) "PB_LTYPE (fld_type f) \<noteq> PB_LTYPE_FIXED32" "PB_LTYPE (fld_type f) \<noteq> PB_LTYPE_FIXED64" by blast
    then show ?thesis
    proof cases
      case fixed32
      then have "?func = pb_enc_fixed32 mem" by (rule_tac ext)+ (simp add: PB_ENCODERS_def pb_ltypes)
      then obtain xs where "emits wr out ?E xs" "4 * ucast count = (of_nat (length xs) :: u64)"
        using fixed [of "\<lambda>src. le_bytes 4 (unat (load mem src :: u32))" 4 4] emits_enc_fixed(1) by auto
      with fixed32 show ?thesis by (intro uniform_emits [OF emits_packed]) simp_all
    next
      case fixed64
      then have "?func = pb_enc_fixed64 mem" by (rule_tac ext)+ (simp add: PB_ENCODERS_def pb_ltypes)
      then obtain xs where "emits wr out ?E xs" "8 * ucast count = (of_nat (length xs) :: u64)"
        using fixed [of "\<lambda>src. le_bytes 8 (unat (load mem src :: u64))" 8 8] emits_enc_fixed(2) by auto
      with fixed64 show ?thesis by (intro uniform_emits [OF emits_packed]) (simp_all add: pb_ltypes)
    next
      case other
      have "uniform wr out ?E" by (intro uniform_entries uniform_encoders enc)
      then show ?thesis
      proof (cases rule: uniform_cases)
        case (emits xs)
        show ?thesis using other by (intro uniform_emits [OF emits_packed [OF emits]]) (simp add: emits_packed_counted [OF emits])
      next
        case fails
        have "\<not> fst (?E (PB_OSTREAM_SIZING s))" for s by (rule fails) (simp add: PB_OSTREAM_SIZING_def)
        then have "(case ?E (PB_OSTREAM_SIZING s) of (False, _) \<Rightarrow> None | (True, sizestream) \<Rightarrow> Some (bytes_written sizestream)) = None" for s
          by (simp add: prod.case_eq_if split: bool.split)
        then have size: "?size st = None" for st :: "'s pb_ostream" using other by simp
        show ?thesis by (simp only: size option.case uniform_False)
      qed
    qed
  qed
  show ?thesis
    unfolding encode_array_def [abs_def] Let_def
    by (intro uniform_if uniform_True uniform_PB_FAIL uniform_and_also uniform_tag packed uniform_entries
        uniform_tag_for_field uniform_encoders enc)
qed

lemma uniform_field:
  assumes enc: "\<And>gs src. uniform wr out (enc gs src)"
  shows "uniform wr out (encode_field mem enc f pData)"
  unfolding encode_field_def [abs_def] encode_basic_field_def [abs_def] encode_callback_field_def [abs_def] Let_def
  by (intro uniform_if uniform_True uniform_PB_FAIL uniform_and_also uniform_tag_for_field uniform_encoders
      uniform_array enc)

lemma uniform_loop:
  assumes enc: "\<And>gs src. uniform wr out (enc gs src)"
  shows "uniform wr out (encode_loop mem enc n iter)"
proof (induction n arbitrary: iter)
  case (Suc n)
  have "uniform wr out (\<lambda>st. case pb_field_iter_next iter of
      (True, iter) \<Rightarrow> encode_loop mem enc n iter st | (False, _) \<Rightarrow> (True, st))"
    by (cases "pb_field_iter_next iter"; cases "fst (pb_field_iter_next iter)") (simp_all add: Suc uniform_True)
  then show ?case
    by (simp only: encode_loop.simps(2) [abs_def])
      (intro uniform_and_also uniform_if uniform_field enc, simp_all add: encode_extension_field_def [abs_def] uniform_True)
qed (simp add: encode_loop.simps(1) [abs_def] uniform_True)

lemma uniform_depth: "uniform wr out (encode_depth mem n fs src)"
proof (induction n arbitrary: fs src)
  case (Suc n)
  then show ?case
    by (cases "pb_field_iter_begin fs src"; cases "fst (pb_field_iter_begin fs src)")
      (simp_all add: encode_message_def [abs_def] uniform_loop uniform_True)
qed (simp add: uniform_True)

lemma uniform_pb_encode: "uniform wr out (pb_encode mem fs src)"
  unfolding pb_encode_def by (rule uniform_depth)

end

text \<open>The size that is computed is the size that is written.\<close>

lemma pb_get_encoded_size_exact:
  assumes "pb_get_encoded_size mem fs src = Some n"
  shows "\<exists>xs. n = of_nat (length xs) \<and> emits buf_write (\<lambda>b. b) (pb_encode mem fs src) xs"
  using memory.uniform_pb_encode [of mem fs src]
proof (cases rule: uniform_cases)
  case (emits xs)
  then show ?thesis
    using assms emits_sizing [OF emits, of "PB_OSTREAM_SIZING []"]
    by (auto simp: pb_get_encoded_size_def PB_OSTREAM_SIZING_def)
next
  case fails
  have "\<not> fst (pb_encode mem fs src (PB_OSTREAM_SIZING ([] :: bytes)))"
    by (rule fails) (simp add: PB_OSTREAM_SIZING_def)
  with assms show ?thesis
    by (auto simp: pb_get_encoded_size_def split: prod.splits bool.splits)
qed

end
