(* ===== verification/Pb_Value.thy ===== *)
theory Pb_Value
  imports Pb_Layout Pb_Sizing
begin

text \<open>
  What a static message stands for, and its format. The image of a message is the bytes of its
  struct; \<open>message_value fs r\<close> is the value an image holds, \<open>message_wire fs v\<close> the bytes of the
  format for the value \<open>v\<close>. \<open>plain_message fs\<close> describes the messages that are covered: static
  fields that are required, optional or repeated, of any type, in the layout of the generator.
\<close>

section \<open>Values\<close>

text \<open>A message holds for each of its fields the values that are there: at most one if it is not repeated.\<close>

datatype pb_value = Raw bytes | Message "pb_value list list"

definition raw_value :: "byte \<Rightarrow> bytes \<Rightarrow> bytes" where
  "raw_value lt r =
     (if lt = PB_LTYPE_BOOL then [if hd r \<noteq> 0 then 1 else 0]
      else if lt = PB_LTYPE_BYTES then take (le_val (take 4 r)) (drop 4 r)
      else if lt = PB_LTYPE_STRING then takeWhile (\<lambda>b. b \<noteq> 0) r
      else r)"

text \<open>The values of a field whose data is at \<open>off\<close> and whose flag or count is at \<open>coff\<close>.\<close>

definition held :: "pb_field \<Rightarrow> (bytes \<Rightarrow> 'a) \<Rightarrow> nat \<times> int \<Rightarrow> bytes \<Rightarrow> 'a list" where
  "held f val p r =
     (let off = fst p; coff = nat (snd p); n = unat (data_size f)
      in if PB_HTYPE (fld_type f) = PB_HTYPE_REPEATED
         then map (\<lambda>i. val (peek r (off + n * i) n)) [0..<unat (load r coff :: u32)]
         else if PB_HTYPE (fld_type f) = PB_HTYPE_OPTIONAL \<and> size_offset f \<noteq> 0 \<and> peek r coff 1 = [0] then []
         else [val (peek r off n)])"

primrec field_value :: "pb_field \<Rightarrow> bytes \<Rightarrow> pb_value" and ptr_value :: "pb_ptr \<Rightarrow> bytes \<Rightarrow> pb_value list list" where
  "field_value (Pb_Field tag type doff soff dsize asize p) r =
     (if PB_LTYPE type = PB_LTYPE_SUBMESSAGE then Message (ptr_value p r) else Raw (raw_value (PB_LTYPE type) r))"
| "ptr_value Null r = []"
| "ptr_value (Default d) r = []"
| "ptr_value (Fields fs) r =
     map (\<lambda>k. held (fs ! k) (map field_value fs ! k) (place fs k) r) [0..<n_fields fs]"

definition message_value :: "pb_field list \<Rightarrow> bytes \<Rightarrow> pb_value list list" where
  "message_value fs r = ptr_value (Fields fs) r"

section \<open>The format\<close>

text \<open>The signed number of a little-endian image, as 64 bits.\<close>

definition sext :: "bytes \<Rightarrow> u64" where
  "sext b = word_of_int (signed_take_bit (8 * length b - 1) (int (le_val b)))"

definition raw_wire :: "byte \<Rightarrow> bytes \<Rightarrow> bytes" where
  "raw_wire lt b =
     (if lt = PB_LTYPE_BOOL \<or> lt = PB_LTYPE_UVARINT then varint (le_val b)
      else if lt = PB_LTYPE_VARINT then varint (unat (sext b))
      else if lt = PB_LTYPE_SVARINT then varint (zigzag (sint (sext b)))
      else if lt = PB_LTYPE_FIXED32 \<or> lt = PB_LTYPE_FIXED64 then b
      else varint (length b) @ b)"

definition wire_type :: "byte \<Rightarrow> u32" where
  "wire_type lt =
     (if lt = PB_LTYPE_FIXED32 then PB_WT_32BIT
      else if lt = PB_LTYPE_FIXED64 then PB_WT_64BIT
      else if lt \<le> PB_LTYPE_LAST_PACKABLE then PB_WT_VARINT
      else PB_WT_STRING)"

definition tag_wire :: "pb_field \<Rightarrow> u32 \<Rightarrow> bytes" where
  "tag_wire f wt = varint (unat (fld_tag f) * 8 + unat wt)"

definition implicit :: "pb_field \<Rightarrow> bool" where
  "implicit f \<longleftrightarrow> PB_HTYPE (fld_type f) = PB_HTYPE_OPTIONAL \<and> size_offset f = 0"

definition default_value :: "byte \<Rightarrow> pb_value \<Rightarrow> bool" where
  "default_value lt v =
     (case v of Raw b \<Rightarrow> if lt \<le> PB_LTYPE_LAST_PACKABLE then \<forall>x \<in> set b. x = 0 else b = [] | Message _ \<Rightarrow> False)"

text \<open>
  An array of numbers is packed; other arrays repeat the tag. A field without a flag is left
  out if it has its default.
\<close>

definition values_wire :: "pb_field \<Rightarrow> (pb_value \<Rightarrow> bytes) \<Rightarrow> pb_value list \<Rightarrow> bytes" where
  "values_wire f wire vs =
     (let lt = PB_LTYPE (fld_type f); w = concat (map wire vs)
      in if PB_HTYPE (fld_type f) = PB_HTYPE_REPEATED \<and> lt \<le> PB_LTYPE_LAST_PACKABLE
         then (if vs = [] then [] else tag_wire f PB_WT_STRING @ varint (length w) @ w)
         else concat (map (\<lambda>v. if implicit f \<and> default_value lt v then [] else tag_wire f (wire_type lt) @ wire v) vs))"

primrec field_wire :: "pb_field \<Rightarrow> pb_value \<Rightarrow> bytes" and ptr_wire :: "pb_ptr \<Rightarrow> pb_value list list \<Rightarrow> bytes" where
  "field_wire (Pb_Field tag type doff soff dsize asize p) v =
     (case v of
        Raw b \<Rightarrow> raw_wire (PB_LTYPE type) b
      | Message vss \<Rightarrow> varint (length (ptr_wire p vss)) @ ptr_wire p vss)"
| "ptr_wire Null vss = []"
| "ptr_wire (Default d) vss = []"
| "ptr_wire (Fields fs) vss =
     concat (map (\<lambda>k. values_wire (fs ! k) (map field_wire fs ! k) (vss ! k)) [0..<n_fields fs])"

definition message_wire :: "pb_field list \<Rightarrow> pb_value list list \<Rightarrow> bytes" where
  "message_wire fs vss = ptr_wire (Fields fs) vss"

section \<open>Plain messages\<close>

definition raw_size :: "byte \<Rightarrow> nat \<Rightarrow> bool" where
  "raw_size lt n \<longleftrightarrow>
     (if lt = PB_LTYPE_BOOL then n = 1
      else if lt = PB_LTYPE_VARINT \<or> lt = PB_LTYPE_UVARINT \<or> lt = PB_LTYPE_SVARINT then n \<in> {1, 2, 4, 8}
      else if lt = PB_LTYPE_FIXED32 then n = 4
      else if lt = PB_LTYPE_FIXED64 then n = 8
      else if lt = PB_LTYPE_BYTES then 4 \<le> n
      else if lt = PB_LTYPE_STRING then 1 \<le> n
      else lt = PB_LTYPE_FIXED_LENGTH_BYTES)"

text \<open>The flag or count of \<open>n\<close> bytes is in the gap in front of the data.\<close>

definition flag_room :: "nat \<Rightarrow> pb_field \<Rightarrow> bool" where
  "flag_room n f \<longleftrightarrow> int n \<le> - sint (size_offset f) \<and> - sint (size_offset f) \<le> int (unat (data_offset f))"

definition plain_place :: "pb_field \<Rightarrow> bool" where
  "plain_place f \<longleftrightarrow>
     PB_ATYPE (fld_type f) = PB_ATYPE_STATIC \<and> fld_tag f < 0x20000000 \<and>
     (PB_HTYPE (fld_type f) = PB_HTYPE_REQUIRED \<or>
      PB_HTYPE (fld_type f) = PB_HTYPE_OPTIONAL \<and>
        (if size_offset f = 0 then PB_LTYPE (fld_type f) \<noteq> PB_LTYPE_SUBMESSAGE \<and> fld_ptr f = Null else flag_room 1 f) \<or>
      PB_HTYPE (fld_type f) = PB_HTYPE_REPEATED \<and> flag_room 4 f \<and> int (field_extent f) < 2 ^ 32)"

text \<open>The size of the struct up to the end of its last field.\<close>

definition struct_end :: "pb_field list \<Rightarrow> nat" where
  "struct_end fs =
     (if n_fields fs = 0 then 0
      else fst (place fs (n_fields fs - 1)) + field_extent (fs ! (n_fields fs - 1)))"

definition plain_fields :: "pb_field list \<Rightarrow> bool" where
  "plain_fields fs \<longleftrightarrow>
     terminated fs \<and> distinct (map fld_tag fs) \<and> (\<forall>k \<in> set [0..<n_fields fs]. plain_place (fs ! k))"

primrec plain_field :: "pb_field \<Rightarrow> bool" and plain_ptr :: "pb_ptr \<Rightarrow> nat \<Rightarrow> bool" where
  "plain_field (Pb_Field tag type doff soff dsize asize p) \<longleftrightarrow>
     (if tag = 0 then PB_LTYPE type \<noteq> PB_LTYPE_SUBMESSAGE \<and> p = Null
      else if PB_LTYPE type = PB_LTYPE_SUBMESSAGE then plain_ptr p (unat dsize)
      else raw_size (PB_LTYPE type) (unat dsize) \<and> (case p of Fields gs \<Rightarrow> False | _ \<Rightarrow> True))"
| "plain_ptr Null n \<longleftrightarrow> False"
| "plain_ptr (Default d) n \<longleftrightarrow> False"
| "plain_ptr (Fields fs) n \<longleftrightarrow> plain_fields fs \<and> struct_end fs \<le> n \<and> list_all plain_field fs"

definition plain_message :: "pb_field list \<Rightarrow> bool" where
  "plain_message fs \<longleftrightarrow> plain_ptr (Fields fs) (struct_end fs)"

section \<open>Images\<close>

text \<open>What an image has to keep: bytes and strings that fit their room, counts that fit their array.\<close>

definition raw_ok :: "byte \<Rightarrow> bytes \<Rightarrow> bool" where
  "raw_ok lt r \<longleftrightarrow>
     (if lt = PB_LTYPE_BYTES then le_val (take 4 r) + 4 \<le> length r else lt = PB_LTYPE_STRING \<longrightarrow> 0 \<in> set r)"

definition count_ok :: "pb_field \<Rightarrow> nat \<times> int \<Rightarrow> bytes \<Rightarrow> bool" where
  "count_ok f p r \<longleftrightarrow>
     (if PB_HTYPE (fld_type f) = PB_HTYPE_REPEATED then (load r (nat (snd p)) :: u32) \<le> array_size f else True)"

primrec image_ok_field :: "pb_field \<Rightarrow> bytes \<Rightarrow> bool" and image_ok_ptr :: "pb_ptr \<Rightarrow> bytes \<Rightarrow> bool" where
  "image_ok_field (Pb_Field tag type doff soff dsize asize p) r \<longleftrightarrow>
     (if PB_LTYPE type = PB_LTYPE_SUBMESSAGE then image_ok_ptr p r else raw_ok (PB_LTYPE type) r)"
| "image_ok_ptr Null r \<longleftrightarrow> True"
| "image_ok_ptr (Default d) r \<longleftrightarrow> True"
| "image_ok_ptr (Fields fs) r \<longleftrightarrow>
     (\<forall>k \<in> set [0..<n_fields fs]. count_ok (fs ! k) (place fs k) r \<and>
        list_all (\<lambda>ok. ok) (held (fs ! k) (map image_ok_field fs ! k) (place fs k) r))"

definition image_ok :: "pb_field list \<Rightarrow> bytes \<Rightarrow> bool" where
  "image_ok fs r \<longleftrightarrow> image_ok_ptr (Fields fs) r"

text \<open>What the defaults leave: no optional value, empty arrays, zeros where there is no flag.\<close>

definition clear_place :: "pb_field \<Rightarrow> (bytes \<Rightarrow> bool) \<Rightarrow> nat \<times> int \<Rightarrow> bytes \<Rightarrow> bool" where
  "clear_place f clear p r \<longleftrightarrow>
     (let off = fst p; coff = nat (snd p); n = unat (data_size f)
      in if PB_HTYPE (fld_type f) = PB_HTYPE_REPEATED then (load r coff :: u32) = 0
         else (implicit f \<longrightarrow> peek r off n = replicate n 0) \<and>
           (PB_HTYPE (fld_type f) = PB_HTYPE_OPTIONAL \<and> size_offset f \<noteq> 0 \<longrightarrow> peek r coff 1 = [0]) \<and>
           clear (peek r off n))"

primrec clear_field :: "pb_field \<Rightarrow> bytes \<Rightarrow> bool" and clear_ptr :: "pb_ptr \<Rightarrow> bytes \<Rightarrow> bool" where
  "clear_field (Pb_Field tag type doff soff dsize asize p) r \<longleftrightarrow>
     (PB_LTYPE type = PB_LTYPE_SUBMESSAGE \<longrightarrow> clear_ptr p r)"
| "clear_ptr Null r \<longleftrightarrow> True"
| "clear_ptr (Default d) r \<longleftrightarrow> True"
| "clear_ptr (Fields fs) r \<longleftrightarrow>
     (\<forall>k \<in> set [0..<n_fields fs]. clear_place (fs ! k) (map clear_field fs ! k) (place fs k) r)"

definition clear_image :: "pb_field list \<Rightarrow> bytes \<Rightarrow> bool" where
  "clear_image fs r \<longleftrightarrow> clear_ptr (Fields fs) r"

end
