(* ===== verification/Pb_Image.thy ===== *)
theory Pb_Image
  imports Pb_Value
begin

text \<open>
  The image of a message in the memory: windows of bytes, the disjoint blocks of the fields, and
  that what a field holds depends on its block only.
\<close>

section \<open>Windows\<close>

lemma nth_peek: "i < n \<Longrightarrow> peek m a n ! i = (if a + i < length m then m ! (a + i) else 0)"
  by (auto simp: peek_def nth_append)

lemma peek_peek [simp]: "b + k \<le> n \<Longrightarrow> peek (peek m a n) b k = peek m (a + b) k"
  by (rule nth_equalityI) (auto simp: nth_peek add.assoc)

lemma peek_in: "a + n \<le> length m \<Longrightarrow> peek m a n = take n (drop a m)"
  by (simp add: peek_def)

lemma peek_0: "length r = n \<Longrightarrow> peek r 0 n = r"
  by (simp add: peek_def)

lemma take_peek: "k \<le> n \<Longrightarrow> take k (peek m a n) = peek m a k"
  by (rule nth_equalityI) (auto simp: nth_peek)

lemma drop_peek: "k \<le> n \<Longrightarrow> drop k (peek m a n) = peek m (a + k) (n - k)"
  by (rule nth_equalityI) (auto simp: nth_peek add.assoc)

lemma hd_peek: "0 < n \<Longrightarrow> hd (peek m a n) = peek m a 1 ! 0"
  by (subst hd_conv_nth) (simp_all add: nth_peek flip: length_greater_0_conv)

lemma peek_sub:
  assumes "peek r s l = peek r' s l" "s \<le> x" "x + k \<le> s + l"
  shows "peek r x k = peek r' x k"
proof -
  have "peek r x k = peek (peek r s l) (x - s) k" "peek r' x k = peek (peek r' s l) (x - s) k"
    using assms(2,3) by simp_all
  then show ?thesis by (simp only: assms(1))
qed

lemma le_val_zeros: "le_val (bs @ replicate n 0) = le_val bs"
proof (induction bs)
  case Nil
  show ?case by (induction n) simp_all
qed simp

lemma load_peek: "(load m a :: 'a :: len word) = of_nat (le_val (peek m a (LENGTH('a) div 8)))"
proof -
  let ?k = "LENGTH('a) div 8"
  have "peek m a ?k = take ?k (drop a m) @ replicate (?k - (length m - a)) 0" by (simp add: peek_def)
  then show ?thesis by (simp only: load_def le_val_zeros)
qed

lemma load_sub:
  assumes "peek r s l = peek r' s l" "s \<le> x" "x + LENGTH('a) div 8 \<le> s + l"
  shows "(load r x :: 'a :: len word) = load r' x"
  using peek_sub [OF assms] by (simp only: load_peek)

lemma load_image: "b + LENGTH('a) div 8 \<le> n \<Longrightarrow> (load (peek m a n) b :: 'a :: len word) = load m (a + b)"
  by (simp add: load_peek)

lemma inside_length: "inside b n m m' \<Longrightarrow> b + n \<le> length m \<Longrightarrow> length m' = length m"
  by (simp add: inside_def)

lemma inside_peek:
  assumes "inside b n m m'" "b + n \<le> length m" "a + k \<le> b \<or> b + n \<le> a"
  shows "peek m' a k = peek m a k"
proof (rule nth_equalityI)
  fix i
  assume "i < length (peek m' a k)"
  then have i: "i < k" by simp
  have m': "length m' = length m" "take b m' = take b m" "drop (b + n) m' = drop (b + n) m"
    using assms(1,2) by (simp_all add: inside_def)
  have "m' ! (a + i) = m ! (a + i)" if "a + i < length m"
    using assms(3)
  proof
    assume "a + k \<le> b"
    then have "m' ! (a + i) = take b m' ! (a + i)" "m ! (a + i) = take b m ! (a + i)" using i by simp_all
    then show ?thesis by (simp only: m'(2))
  next
    assume "b + n \<le> a"
    then have "m' ! (a + i) = drop (b + n) m' ! (a + i - (b + n))" "m ! (a + i) = drop (b + n) m ! (a + i - (b + n))"
      using that m'(1) by simp_all
    then show ?thesis by (simp only: m'(3))
  qed
  with i show "peek m' a k ! i = peek m a k ! i" by (simp add: nth_peek m'(1))
qed simp

lemma peek_poke: "a + length xs \<le> length m \<Longrightarrow> length xs = n \<Longrightarrow> peek (poke m a xs) a n = xs"
  by (simp add: peek_in) (simp add: poke_def)

lemma poke_peek_apart: "a + length xs \<le> length m \<Longrightarrow> x + k \<le> a \<or> a + length xs \<le> x \<Longrightarrow> peek (poke m a xs) x k = peek m x k"
  by (rule inside_peek [OF inside_poke]) simp_all

lemma load_store:
  fixes w :: "'a :: len word"
  assumes "a + LENGTH('a) div 8 \<le> length m" "8 dvd LENGTH('a)"
  shows "load (store m a w) a = w"
proof -
  obtain k where k: "LENGTH('a) = 8 * k" using assms(2) by blast
  have "unat w < 2 ^ LENGTH('a)" by (rule unsigned_less)
  then have "unat w < 256 ^ k" by (simp add: k power_mult)
  then show ?thesis using assms(1) k by (simp add: load_peek store_def peek_poke le_val_le_bytes)
qed

lemma unat_ucast_wider: "LENGTH('a :: len) \<le> LENGTH('b :: len) \<Longrightarrow> unat (ucast (w :: 'a word) :: 'b word) = unat w"
proof -
  assume "LENGTH('a) \<le> LENGTH('b)"
  then have "(2 :: nat) ^ LENGTH('a) \<le> 2 ^ LENGTH('b)" by simp
  then have "unat w < 2 ^ LENGTH('b)" using unsigned_less [of w] by (rule less_le_trans [rotated])
  then show ?thesis by (simp add: unsigned_ucast_eq take_bit_eq_mod)
qed

section \<open>Blocks\<close>

lemma field_facts:
  "field_value f r = (if PB_LTYPE (fld_type f) = PB_LTYPE_SUBMESSAGE then Message (ptr_value (fld_ptr f) r)
     else Raw (raw_value (PB_LTYPE (fld_type f)) r))"
  "field_wire f v = (case v of Raw b \<Rightarrow> raw_wire (PB_LTYPE (fld_type f)) b
     | Message vss \<Rightarrow> varint (length (ptr_wire (fld_ptr f) vss)) @ ptr_wire (fld_ptr f) vss)"
  "plain_field f \<longleftrightarrow>
     (if fld_tag f = 0 then PB_LTYPE (fld_type f) \<noteq> PB_LTYPE_SUBMESSAGE \<and> fld_ptr f = Null
      else if PB_LTYPE (fld_type f) = PB_LTYPE_SUBMESSAGE then plain_ptr (fld_ptr f) (unat (data_size f))
      else raw_size (PB_LTYPE (fld_type f)) (unat (data_size f)) \<and> (case fld_ptr f of Fields gs \<Rightarrow> False | _ \<Rightarrow> True))"
  "image_ok_field f r \<longleftrightarrow>
     (if PB_LTYPE (fld_type f) = PB_LTYPE_SUBMESSAGE then image_ok_ptr (fld_ptr f) r
      else raw_ok (PB_LTYPE (fld_type f)) r)"
  "clear_field f r \<longleftrightarrow> (PB_LTYPE (fld_type f) = PB_LTYPE_SUBMESSAGE \<longrightarrow> clear_ptr (fld_ptr f) r)"
  by (cases f, simp_all only: field_value.simps field_wire.simps plain_field.simps image_ok_field.simps
      clear_field.simps pb_field.sel)+

lemma raw_size_cases:
  assumes "raw_size lt n"
  obtains (bool) "lt = PB_LTYPE_BOOL" "n = 1" | (varint) "lt = PB_LTYPE_VARINT" "n \<in> {1, 2, 4, 8}"
  | (uvarint) "lt = PB_LTYPE_UVARINT" "n \<in> {1, 2, 4, 8}" | (svarint) "lt = PB_LTYPE_SVARINT" "n \<in> {1, 2, 4, 8}"
  | (fixed32) "lt = PB_LTYPE_FIXED32" "n = 4" | (fixed64) "lt = PB_LTYPE_FIXED64" "n = 8"
  | (bytes) "lt = PB_LTYPE_BYTES" | (string) "lt = PB_LTYPE_STRING" | (fixed) "lt = PB_LTYPE_FIXED_LENGTH_BYTES"
proof -
  have "lt = PB_LTYPE_BOOL \<and> n = 1 \<or> lt = PB_LTYPE_VARINT \<and> n \<in> {1, 2, 4, 8} \<or>
      lt = PB_LTYPE_UVARINT \<and> n \<in> {1, 2, 4, 8} \<or> lt = PB_LTYPE_SVARINT \<and> n \<in> {1, 2, 4, 8} \<or>
      lt = PB_LTYPE_FIXED32 \<and> n = 4 \<or> lt = PB_LTYPE_FIXED64 \<and> n = 8 \<or>
      lt = PB_LTYPE_BYTES \<or> lt = PB_LTYPE_STRING \<or> lt = PB_LTYPE_FIXED_LENGTH_BYTES"
    using assms unfolding raw_size_def by (simp split: if_splits) blast?
  with that show ?thesis by blast
qed

definition fits_plain :: "pb_field list \<Rightarrow> nat \<Rightarrow> bool" where
  "fits_plain fs n \<longleftrightarrow> plain_ptr (Fields fs) n"

lemma plain_sub:
  assumes "plain_field f" "fld_tag f \<noteq> 0" "PB_LTYPE (fld_type f) = PB_LTYPE_SUBMESSAGE"
  obtains gs where "fld_ptr f = Fields gs" "fits_plain gs (unat (data_size f))"
  using assms by (cases "fld_ptr f") (simp_all add: field_facts fits_plain_def)

lemma n_fields_less: "k < n_fields fs \<Longrightarrow> k < length fs"
  by (simp add: n_fields_def)

lemma message_facts:
  "message_value fs r = map (\<lambda>k. held (fs ! k) (field_value (fs ! k)) (place fs k) r) [0..<n_fields fs]"
  "message_wire fs vss = concat (map (\<lambda>k. values_wire (fs ! k) (field_wire (fs ! k)) (vss ! k)) [0..<n_fields fs])"
  "image_ok fs r \<longleftrightarrow> (\<forall>k < n_fields fs. count_ok (fs ! k) (place fs k) r \<and>
     list_all (\<lambda>ok. ok) (held (fs ! k) (image_ok_field (fs ! k)) (place fs k) r))"
  "clear_image fs r \<longleftrightarrow> (\<forall>k < n_fields fs. clear_place (fs ! k) (clear_field (fs ! k)) (place fs k) r)"
  by (auto simp: message_value_def message_wire_def image_ok_def clear_image_def n_fields_less
      intro!: arg_cong [where f = concat])

text \<open>The block of a field is the gap in front of its data, with the flag or count, and the data.\<close>

definition block_start :: "pb_field list \<Rightarrow> nat \<Rightarrow> nat" where
  "block_start fs k = fst (place fs k) - unat (data_offset (fs ! k))"

definition block_length :: "pb_field list \<Rightarrow> nat \<Rightarrow> nat" where
  "block_length fs k = unat (data_offset (fs ! k)) + field_extent (fs ! k)"

lemma plain_place_at: "plain_fields fs \<Longrightarrow> k < n_fields fs \<Longrightarrow> plain_place (fs ! k)"
  by (simp add: plain_fields_def)

lemma plain_tag: "plain_place f \<Longrightarrow> unat (fld_tag f) < 2 ^ 29"
  by (auto simp: plain_place_def word_less_nat_alt)

lemma plain_not_oneof: "plain_place f \<Longrightarrow> PB_HTYPE (fld_type f) \<noteq> PB_HTYPE_ONEOF"
  by (auto simp: plain_place_def pb_htypes)

lemma place_next:
  "plain_fields fs \<Longrightarrow> Suc k < n_fields fs \<Longrightarrow>
   fst (place fs (Suc k)) = fst (place fs k) + field_extent (fs ! k) + unat (data_offset (fs ! Suc k))"
  using plain_not_oneof [OF plain_place_at, of fs k] by (simp add: Let_def)

lemma place_count:
  "plain_fields fs \<Longrightarrow> k < n_fields fs \<Longrightarrow> snd (place fs k) = int (fst (place fs k)) + sint (size_offset (fs ! k))"
  using plain_not_oneof [OF plain_place_at, of fs "k - 1"] by (cases k) (simp_all add: Let_def)

lemma place_gap: "plain_fields fs \<Longrightarrow> k < n_fields fs \<Longrightarrow> unat (data_offset (fs ! k)) \<le> fst (place fs k)"
  by (cases k) (simp_all add: place_next Let_def del: place.simps(2))

lemma place_order:
  assumes "plain_fields fs" "i < j" "j < n_fields fs"
  shows "fst (place fs i) + field_extent (fs ! i) + unat (data_offset (fs ! j)) \<le> fst (place fs j)"
  using assms(2,3)
proof (induction j)
  case (Suc j)
  then show ?case using place_next [OF assms(1) Suc.prems(2)] by (cases "i = j") (simp_all del: place.simps(2))
qed simp

lemma place_end:
  assumes "plain_fields fs" "k < n_fields fs"
  shows "fst (place fs k) + field_extent (fs ! k) \<le> struct_end fs"
proof (cases "k = n_fields fs - 1")
  case True
  then show ?thesis using assms by (simp add: struct_end_def)
next
  case False
  then have "k < n_fields fs - 1" using assms(2) by simp
  then show ?thesis using place_order [OF assms(1), of k "n_fields fs - 1"] assms(2) by (simp add: struct_end_def)
qed

lemma block_end: "plain_fields fs \<Longrightarrow> k < n_fields fs \<Longrightarrow> block_start fs k + block_length fs k \<le> struct_end fs"
  using place_end [of fs k] place_gap [of fs k] by (simp add: block_start_def block_length_def)

lemma blocks_apart:
  assumes "plain_fields fs" "i < n_fields fs" "j < n_fields fs" "i \<noteq> j"
  shows "block_start fs i + block_length fs i \<le> block_start fs j \<or> block_start fs j + block_length fs j \<le> block_start fs i"
  using place_order [OF assms(1), of i j] place_order [OF assms(1), of j i] place_gap [OF assms(1)] assms(2-4)
  by (cases "i < j") (simp_all add: block_start_def block_length_def le_diff_conv2)

lemma place_count_room:
  assumes "plain_fields fs" "k < n_fields fs" "flag_room n (fs ! k)"
  shows "0 \<le> snd (place fs k)" "block_start fs k \<le> nat (snd (place fs k))" "nat (snd (place fs k)) + n \<le> fst (place fs k)"
  using place_count [OF assms(1,2)] place_gap [OF assms(1,2)] assms(3)
  unfolding flag_room_def block_start_def by arith+

lemma extent_single:
  "plain_place f \<Longrightarrow> PB_HTYPE (fld_type f) \<noteq> PB_HTYPE_REPEATED \<Longrightarrow> field_extent f = unat (data_size f)"
  by (auto simp: field_extent_def plain_place_def pb_atypes)

lemma extent_repeated:
  "plain_place f \<Longrightarrow> PB_HTYPE (fld_type f) = PB_HTYPE_REPEATED \<Longrightarrow> field_extent f = unat (data_size f) * unat (array_size f)"
  by (auto simp: field_extent_def plain_place_def pb_atypes)

text \<open>What is there depends on the block.\<close>

lemma plain_repeated: "plain_place f \<Longrightarrow> PB_HTYPE (fld_type f) = PB_HTYPE_REPEATED \<Longrightarrow> flag_room 4 f"
  by (auto simp: plain_place_def pb_htypes)

lemma plain_optional:
  "plain_place f \<Longrightarrow> PB_HTYPE (fld_type f) = PB_HTYPE_OPTIONAL \<Longrightarrow> size_offset f \<noteq> 0 \<Longrightarrow> flag_room 1 f"
  by (auto simp: plain_place_def pb_htypes)

lemma data_in_block:
  assumes "plain_fields fs" "k < n_fields fs"
  shows "block_start fs k \<le> fst (place fs k)"
    "fst (place fs k) + field_extent (fs ! k) \<le> block_start fs k + block_length fs k"
  using place_gap [OF assms] by (simp_all add: block_start_def block_length_def)

lemma item_in_extent:
  fixes f :: pb_field
  assumes "plain_place f" "PB_HTYPE (fld_type f) = PB_HTYPE_REPEATED" "i < unat (array_size f)"
  shows "unat (data_size f) * i + unat (data_size f) \<le> field_extent f"
proof -
  have "unat (data_size f) * Suc i \<le> unat (data_size f) * unat (array_size f)"
    using assms(3) by (intro mult_le_mono2) simp
  then show ?thesis by (simp add: extent_repeated [OF assms(1,2)])
qed

text \<open>The offset of an item is a product of 32 bits, which does not wrap in an array below 4 GB.\<close>

lemma item_offset:
  fixes f :: pb_field
  assumes "plain_place f" "PB_HTYPE (fld_type f) = PB_HTYPE_REPEATED" "i < unat (array_size f)"
  shows "unat (data_size f * of_nat i) = unat (data_size f) * i"
proof -
  have i: "unat (of_nat i :: u32) = i" using assms(3) unat_less_pow(2) [of "array_size f"] by (simp add: unat_of_nat)
  have "int (field_extent f) < 2 ^ 32" using assms(1,2) by (auto simp: plain_place_def pb_htypes)
  then have "field_extent f < 2 ^ 32" by simp
  then have "unat (data_size f) * i < 2 ^ 32" using item_in_extent [OF assms] by linarith
  then show ?thesis by (simp add: unat_word_ariths i)
qed

lemma same_block:
  assumes fs: "plain_fields fs" and k: "k < n_fields fs"
    and same: "peek r (block_start fs k) (block_length fs k) = peek r' (block_start fs k) (block_length fs k)"
  shows "x + n \<le> field_extent (fs ! k) \<Longrightarrow> peek r (fst (place fs k) + x) n = peek r' (fst (place fs k) + x) n"
    and "flag_room n (fs ! k) \<Longrightarrow> peek r (nat (snd (place fs k))) n = peek r' (nat (snd (place fs k))) n"
    and "PB_HTYPE (fld_type (fs ! k)) = PB_HTYPE_REPEATED \<Longrightarrow>
      (load r (nat (snd (place fs k))) :: u32) = load r' (nat (snd (place fs k)))"
proof -
  show "peek r (fst (place fs k) + x) n = peek r' (fst (place fs k) + x) n" if "x + n \<le> field_extent (fs ! k)"
    using data_in_block [OF fs k] that by (intro peek_sub [OF same]) simp_all
  show flag: "peek r (nat (snd (place fs k))) n = peek r' (nat (snd (place fs k))) n" if "flag_room n (fs ! k)" for n
    using place_count_room [OF fs k that] data_in_block [OF fs k] by (intro peek_sub [OF same]) simp_all
  show "(load r (nat (snd (place fs k))) :: u32) = load r' (nat (snd (place fs k)))"
    if "PB_HTYPE (fld_type (fs ! k)) = PB_HTYPE_REPEATED"
    using flag [of 4] plain_repeated [OF plain_place_at [OF fs k] that] by (simp add: load_peek)
qed

lemma held_block:
  assumes fs: "plain_fields fs" and k: "k < n_fields fs" and ok: "count_ok (fs ! k) (place fs k) r"
    and same: "peek r (block_start fs k) (block_length fs k) = peek r' (block_start fs k) (block_length fs k)"
  shows "held (fs ! k) val (place fs k) r = held (fs ! k) val (place fs k) r'"
proof (cases "PB_HTYPE (fld_type (fs ! k)) = PB_HTYPE_REPEATED")
  case True
  note p = plain_place_at [OF fs k]
  note s = same_block [OF fs k same]
  have "peek r (fst (place fs k) + unat (data_size (fs ! k)) * i) (unat (data_size (fs ! k))) =
      peek r' (fst (place fs k) + unat (data_size (fs ! k)) * i) (unat (data_size (fs ! k)))"
    if "i < unat (load r (nat (snd (place fs k))) :: u32)" for i
  proof (rule s(1), rule item_in_extent [OF p True])
    show "i < unat (array_size (fs ! k))" using that ok True by (simp add: count_ok_def word_le_nat_alt)
  qed
  then show ?thesis using True s(3) by (auto simp: held_def Let_def)
next
  case False
  note p = plain_place_at [OF fs k]
  note s = same_block [OF fs k same]
  have "peek r (fst (place fs k)) (unat (data_size (fs ! k))) = peek r' (fst (place fs k)) (unat (data_size (fs ! k)))"
    using s(1) [of 0] extent_single [OF p False] by simp
  then show ?thesis using False s(2) [of 1] plain_optional [OF p] by (auto simp: held_def Let_def)
qed

lemma clear_block:
  assumes fs: "plain_fields fs" and k: "k < n_fields fs"
    and same: "peek r (block_start fs k) (block_length fs k) = peek r' (block_start fs k) (block_length fs k)"
  shows "clear_place (fs ! k) clear (place fs k) r = clear_place (fs ! k) clear (place fs k) r'"
proof -
  note p = plain_place_at [OF fs k]
  note s = same_block [OF fs k same]
  have "peek r (fst (place fs k)) (unat (data_size (fs ! k))) = peek r' (fst (place fs k)) (unat (data_size (fs ! k)))"
    if "PB_HTYPE (fld_type (fs ! k)) \<noteq> PB_HTYPE_REPEATED"
    using s(1) [of 0] extent_single [OF p that] by simp
  then show ?thesis using s(2) [of 1] s(3) plain_optional [OF p]
    by (cases "PB_HTYPE (fld_type (fs ! k)) = PB_HTYPE_REPEATED") (auto simp: clear_place_def Let_def)
qed

lemma same_count_ok:
  assumes fs: "plain_fields fs" and k: "k < n_fields fs"
    and same: "peek r (block_start fs k) (block_length fs k) = peek r' (block_start fs k) (block_length fs k)"
  shows "count_ok (fs ! k) (place fs k) r = count_ok (fs ! k) (place fs k) r'"
  using same_block(3) [OF assms] by (simp add: count_ok_def)

section \<open>Plain descriptors\<close>

lemma fits_plain_facts:
  assumes "fits_plain fs n"
  shows "plain_fields fs" "terminated fs" "struct_end fs \<le> n" "k < length fs \<Longrightarrow> plain_field (fs ! k)"
  using assms by (simp_all add: fits_plain_def plain_fields_def list_all_length)

lemma field_tag_nz: "plain_fields fs \<Longrightarrow> k < n_fields fs \<Longrightarrow> fld_tag (fs ! k) \<noteq> 0"
  using terminated_nth [of fs k] by (simp add: plain_fields_def)

lemma fits_plain_descriptor: "fits_plain fs n \<Longrightarrow> descriptor_ok fs"
proof (induction "depth fs" arbitrary: fs n rule: less_induct)
  case less
  have "ok_field f" if f: "f \<in> set fs" for f
  proof (cases "fld_ptr f")
    case (Fields gs)
    have "plain_field f" using less.prems f by (auto simp: fits_plain_def list_all_iff)
    then have "fits_plain gs (unat (data_size f))" using Fields by (auto simp: field_facts fits_plain_def split: if_splits)
    then have "descriptor_ok gs" using depth_sub [OF f Fields] less.hyps by blast
    then show ?thesis by (simp add: ok_field_ptr Fields descriptor_ok_def)
  qed (simp_all add: ok_field_ptr)
  then show ?case using fits_plain_facts(2) [OF less.prems] by (simp add: descriptor_ok_def list_all_iff)
qed

text \<open>An item of a field is in the image.\<close>

lemma item_in_image:
  assumes "fits_plain fs n" "k < n_fields fs" "x + m \<le> field_extent (fs ! k)"
  shows "fst (place fs k) + x + m \<le> n"
  using place_end [OF fits_plain_facts(1) [OF assms(1)] assms(2)] fits_plain_facts(3) [OF assms(1)] assms(3) by simp

lemma count_in_image:
  assumes "fits_plain fs n" "k < n_fields fs" "flag_room m (fs ! k)"
  shows "nat (snd (place fs k)) + m \<le> n"
  using place_count_room(3) [OF fits_plain_facts(1) [OF assms(1)] assms(2,3)] item_in_image [OF assms(1,2), of 0 0] by simp

lemma count_address:
  assumes "plain_fields fs" "k < n_fields fs" "flag_room m (fs ! k)"
  shows "size_address (src + fst (place fs k)) (fs ! k) = src + nat (snd (place fs k))"
  using place_count [OF assms(1,2)] place_count_room(1) [OF assms] by (simp add: size_address_def nat_add_distrib)

section \<open>Field by field\<close>

text \<open>A pass over the fields changes one block after the other; \<open>rest_start\<close> is where the blocks from \<open>k\<close> on begin.\<close>

definition rest_start :: "pb_field list \<Rightarrow> nat \<Rightarrow> nat" where
  "rest_start fs k = (if k < n_fields fs then block_start fs k else struct_end fs)"

definition rest_changed :: "pb_field list \<Rightarrow> nat \<Rightarrow> nat \<Rightarrow> bytes \<Rightarrow> bytes \<Rightarrow> bool" where
  "rest_changed fs dest k m m' \<longleftrightarrow> inside (dest + rest_start fs k) (struct_end fs - rest_start fs k) m m'"

definition block_changed :: "pb_field list \<Rightarrow> nat \<Rightarrow> nat \<Rightarrow> bytes \<Rightarrow> bytes \<Rightarrow> bool" where
  "block_changed fs dest k m m' \<longleftrightarrow> inside (dest + block_start fs k) (block_length fs k) m m'"

lemma rest_start_Suc:
  assumes "plain_fields fs" "k < n_fields fs"
  shows "rest_start fs (Suc k) = block_start fs k + block_length fs k"
proof (cases "Suc k < n_fields fs")
  case True
  then show ?thesis
    using place_next [OF assms(1) True] place_gap [OF assms]
    by (simp add: rest_start_def block_start_def block_length_def del: place.simps(2))
next
  case False
  then have "k = n_fields fs - 1" using assms(2) by simp
  then show ?thesis
    using assms(2) False place_gap [OF assms] by (simp add: rest_start_def block_start_def block_length_def struct_end_def)
qed

lemma rest_start_le: "plain_fields fs \<Longrightarrow> rest_start fs k \<le> struct_end fs"
  using block_end [of fs k] by (auto simp: rest_start_def)

lemma rest_changed_refl [simp]: "rest_changed fs dest k m m"
  by (simp add: rest_changed_def)

lemma rest_changed_next:
  assumes "plain_fields fs" "k < n_fields fs" "block_changed fs dest k m m1" "rest_changed fs dest (Suc k) m1 m2"
  shows "rest_changed fs dest k m m2"
proof -
  let ?a = "dest + rest_start fs k" and ?n = "struct_end fs - rest_start fs k"
  have e: "rest_start fs k = block_start fs k" using assms(2) by (simp add: rest_start_def)
  have "inside ?a ?n m m1"
    using block_end [OF assms(1,2)] e by (intro inside_sub [OF assms(3) [unfolded block_changed_def]]) simp_all
  moreover have "inside ?a ?n m1 m2"
    using rest_start_Suc [OF assms(1,2)] rest_start_le [OF assms(1), of "Suc k"] e
    by (intro inside_sub [OF assms(4) [unfolded rest_changed_def]]) simp_all
  ultimately show ?thesis unfolding rest_changed_def by (rule inside_trans)
qed

lemma block_in:
  assumes "plain_fields fs" "k < n_fields fs" "struct_end fs \<le> n"
  shows "peek (peek m dest n) (block_start fs k) (block_length fs k) = peek m (dest + block_start fs k) (block_length fs k)"
  using block_end [OF assms(1,2)] assms(3) by simp

lemma block_changed_other:
  assumes "plain_fields fs" "k < n_fields fs" "j < n_fields fs" "j \<noteq> k" "struct_end fs \<le> n" "dest + n \<le> length m"
    "block_changed fs dest k m m1"
  shows "peek (peek m1 dest n) (block_start fs j) (block_length fs j) = peek (peek m dest n) (block_start fs j) (block_length fs j)"
proof -
  have "dest + block_start fs k + block_length fs k \<le> length m"
    using block_end [OF assms(1,2)] assms(5,6) by simp
  from inside_peek [OF assms(7) [unfolded block_changed_def] this]
  show ?thesis unfolding block_in [OF assms(1,3,5)]
    using blocks_apart [OF assms(1,3,2,4)] by auto
qed

lemma rest_changed_other:
  assumes "plain_fields fs" "k < n_fields fs" "struct_end fs \<le> n" "dest + n \<le> length m"
    "rest_changed fs dest (Suc k) m m1"
  shows "peek (peek m1 dest n) (block_start fs k) (block_length fs k) = peek (peek m dest n) (block_start fs k) (block_length fs k)"
proof -
  have "dest + rest_start fs (Suc k) + (struct_end fs - rest_start fs (Suc k)) \<le> length m"
    using rest_start_le [OF assms(1), of "Suc k"] assms(3,4) by simp
  from inside_peek [OF assms(5) [unfolded rest_changed_def] this]
  show ?thesis unfolding block_in [OF assms(1,2,3)]
    using rest_start_Suc [OF assms(1,2)] by simp
qed

lemma rest_changed_length:
  "plain_fields fs \<Longrightarrow> struct_end fs \<le> n \<Longrightarrow> dest + n \<le> length m \<Longrightarrow> rest_changed fs dest k m m' \<Longrightarrow> length m' = length m"
  using rest_start_le [of fs k] by (auto simp: rest_changed_def dest!: inside_length)

lemma block_changed_length:
  "plain_fields fs \<Longrightarrow> k < n_fields fs \<Longrightarrow> struct_end fs \<le> n \<Longrightarrow> dest + n \<le> length m \<Longrightarrow>
   block_changed fs dest k m m' \<Longrightarrow> length m' = length m"
  using block_end [of fs k] by (auto simp: block_changed_def dest!: inside_length)

lemma rest_changed_all:
  assumes "plain_fields fs" "struct_end fs \<le> n" "rest_changed fs dest 0 m m'"
  shows "inside dest n m m'"
  using rest_start_le [OF assms(1), of 0] assms(2)
  by (intro inside_sub [OF assms(3) [unfolded rest_changed_def]]) simp_all

end
