(* ===== verification/Pb_Encoded.thy ===== *)
theory Pb_Encoded
  imports Pb_Image
begin

text \<open>
  The encoder writes the format: for a plain message it emits \<open>message_wire\<close> of the value that the
  struct holds.
\<close>

section \<open>Values\<close>

lemma scast_of_nat: "(scast (of_nat n :: 'a :: len word) :: 'b :: len word) = word_of_int (signed_take_bit (LENGTH('a) - 1) (int n))"
  by (simp add: scast_eq signed_of_nat)

lemma load_sext:
  assumes "LENGTH('a) = 8 * n"
  shows "(scast (load mem a :: 'a :: len word) :: u64) = sext (peek mem a n)"
  using assms by (simp only: load_peek scast_of_nat sext_def length_peek) simp

lemma load_signed_sext:
  assumes "unat n \<in> {1, 2, 4, 8}"
  shows "load_signed mem a n = Some (sext (peek mem a (unat n)))"
proof -
  have "n \<in> {1, 2, 4, 8}" using assms by (auto simp: word_unat_eq_iff)
  moreover have "(load mem a :: u64) = sext (peek mem a 8)" using load_sext [where 'a = 64, of 8 mem a] by simp
  ultimately show ?thesis
    using load_sext [where 'a = 8, of 1 mem a] load_sext [where 'a = 16, of 2 mem a] load_sext [where 'a = 32, of 4 mem a]
    by (auto simp: load_signed_def)
qed

lemma unat_load:
  assumes "LENGTH('a :: len) = 8 * n" "LENGTH('a) \<le> LENGTH('b :: len)"
  shows "unat (ucast (load mem a :: 'a word) :: 'b word) = le_val (peek mem a n)"
proof -
  have "le_val (peek mem a n) < 2 ^ LENGTH('a)" using le_val_less [of "peek mem a n"] by (simp add: assms(1) power_mult)
  then have "unat (load mem a :: 'a word) = le_val (peek mem a n)"
    using assms(1) by (simp add: load_peek unat_of_nat)
  then show ?thesis using assms(2) by (simp add: unat_ucast_wider)
qed

context pb_sink
begin

lemma emits_ucast_load:
  assumes "LENGTH('a) = 8 * n" "n \<le> 8"
  shows "emits wr out (pb_encode_varint (ucast (load mem a :: 'a :: len word))) (varint (le_val (peek mem a n)))"
  using emits_varint [of "ucast (load mem a :: 'a word)"] unat_load [where 'b = 64, OF assms(1), of mem a] assms by simp

lemma emits_uvarint:
  assumes "unat (data_size f) \<in> {1, 2, 4, 8}"
  shows "emits wr out (pb_enc_uvarint mem f a) (varint (le_val (peek mem a (unat (data_size f)))))"
proof -
  have n: "data_size f \<in> {1, 2, 4, 8}" using assms by (auto simp: word_unat_eq_iff)
  from n show ?thesis
    using emits_ucast_load [where 'a = 8, of 1] emits_ucast_load [where 'a = 16, of 2]
      emits_ucast_load [where 'a = 32, of 4] emits_ucast_load [where 'a = 64, of 8]
    by (auto simp: pb_enc_uvarint_def [abs_def])
qed

lemma emits_enc_bytes:
  assumes "PB_ATYPE (fld_type f) = PB_ATYPE_STATIC" "0 < a" "le_val (peek mem a 4) + 4 \<le> unat (data_size f)"
  shows "emits wr out (pb_enc_bytes mem f a)
    (varint (le_val (peek mem a 4)) @ peek mem (a + 4) (le_val (peek mem a 4)))"
proof -
  let ?n = "le_val (peek mem a 4)"
  have n: "unat (load mem a :: u32) = ?n" using unat_load [where 'a = 32 and 'b = 32, of 4 mem a] by simp
  have d: "unat (ucast (data_size f) - 4 :: u64) = unat (data_size f) - 4"
    using assms(3) by (subst unat_sub) (simp_all add: word_le_nat_alt unat_ucast_wider)
  have "unat (ucast (load mem a :: u32) :: u64) = ?n" using unat_load [where 'a = 32 and 'b = 64, of 4 mem a] by simp
  then have "\<not> (ucast (data_size f) - 4 :: u64) < ucast (load mem a :: u32)"
    using assms(3) by (simp add: word_less_nat_alt d)
  then have "pb_enc_bytes mem f a st = pb_encode_string (peek mem (a + 4) ?n) ?n st" for st :: "'s pb_ostream"
    using assms(2) by (simp add: pb_enc_bytes_def Let_def n)
  moreover have "?n < 2 ^ 64" using le_val_less [of "peek mem a 4"] by simp
  then have "emits wr out (pb_encode_string (peek mem (a + 4) ?n) ?n) (varint ?n @ peek mem (a + 4) ?n)"
    using emits_string [of "peek mem (a + 4) ?n"] by simp
  ultimately show ?thesis by (rule emits_cong)
qed

lemma emits_enc_string:
  assumes "PB_ATYPE (fld_type f) = PB_ATYPE_STATIC" "0 < a" "a + unat (data_size f) \<le> length mem"
  shows "emits wr out (pb_enc_string mem f a)
    (let s = takeWhile (\<lambda>b. b \<noteq> 0) (peek mem a (unat (data_size f))) in varint (length s) @ s)"
proof -
  let ?s = "takeWhile (\<lambda>b. b \<noteq> 0) (peek mem a (unat (data_size f)))"
  have l: "length ?s \<le> unat (data_size f)" using length_takeWhile_le [of _ "peek mem a (unat (data_size f))"] by simp
  then have "peek mem a (length ?s) = take (length ?s) (peek mem a (unat (data_size f)))" by (simp add: take_peek)
  then have "peek mem a (length ?s) = ?s" by (metis takeWhile_eq_take)
  then have "pb_enc_string mem f a st = pb_encode_string ?s (length ?s) st" for st :: "'s pb_ostream"
    using assms by (simp add: pb_enc_string_def Let_def peek_in [symmetric] pb_atypes)
  moreover have "length ?s < 2 ^ 64" using l unat_less_pow(2) [of "data_size f"] by simp
  then have "emits wr out (pb_encode_string ?s (length ?s)) (varint (length ?s) @ ?s)" by (rule emits_string)
  ultimately show ?thesis unfolding Let_def by (rule emits_cong)
qed

lemma safe_read_bool_peek: "safe_read_bool mem a \<longleftrightarrow> peek mem a 1 \<noteq> [0]"
  by (cases "drop a mem") (simp_all add: safe_read_bool_def peek_def)

lemma emits_bool: "emits wr out (pb_enc_bool mem a) (varint (unat (if hd (peek mem a 1) \<noteq> 0 then 1 else 0 :: byte)))"
proof -
  have "safe_read_bool mem a \<longleftrightarrow> hd (peek mem a 1) \<noteq> 0"
    using length_peek [of mem a 1] by (auto simp: safe_read_bool_peek length_Suc_conv simp del: length_peek)
  then show ?thesis using emits_varint [of "if hd (peek mem a 1) \<noteq> 0 then 1 else 0"]
    by (simp add: pb_enc_bool_def [abs_def] split: if_splits)
qed

lemma emits_by: "emits wr out g ys \<Longrightarrow> (\<And>st. f st = g st) \<Longrightarrow> xs = ys \<Longrightarrow> emits wr out f xs"
  by (simp add: emits_cong)

text \<open>The table of encoders, at every type without fields.\<close>

lemma emits_raw:
  assumes "raw_size (PB_LTYPE (fld_type f)) (unat (data_size f))" "PB_ATYPE (fld_type f) = PB_ATYPE_STATIC"
    "raw_ok (PB_LTYPE (fld_type f)) (peek mem a (unat (data_size f)))" "0 < a" "a + unat (data_size f) \<le> length mem"
  shows "emits wr out (PB_ENCODERS mem enc f a)
    (raw_wire (PB_LTYPE (fld_type f)) (raw_value (PB_LTYPE (fld_type f)) (peek mem a (unat (data_size f)))))"
proof -
  let ?lt = "PB_LTYPE (fld_type f)" and ?n = "unat (data_size f)"
  from assms(1) show ?thesis
  proof (cases rule: raw_size_cases)
    case bool
    show ?thesis
      by (rule emits_by [OF emits_bool [of mem a]]) (simp_all add: PB_ENCODERS_def bool raw_wire_def raw_value_def)
  next
    case varint
    show ?thesis using load_signed_sext [OF varint(2), of mem a]
      by (intro emits_by [OF emits_varint [of "sext (peek mem a ?n)"]])
        (simp_all add: PB_ENCODERS_def varint(1) pb_ltypes pb_enc_varint_def raw_wire_def raw_value_def)
  next
    case uvarint
    show ?thesis
      by (rule emits_by [OF emits_uvarint [OF uvarint(2), of mem a]])
        (simp_all add: PB_ENCODERS_def uvarint(1) pb_ltypes raw_wire_def raw_value_def)
  next
    case svarint
    show ?thesis using load_signed_sext [OF svarint(2), of mem a]
      by (intro emits_by [OF emits_svarint [of "sext (peek mem a ?n)"]])
        (simp_all add: PB_ENCODERS_def svarint(1) pb_ltypes pb_enc_svarint_def raw_wire_def raw_value_def)
  next
    case fixed32
    have "peek mem a 4 = le_bytes 4 (unat (load mem a :: u32))"
      using unat_load [where 'a = 32 and 'b = 32, of 4 mem a] le_bytes_le_val [of "peek mem a 4"] by simp
    then show ?thesis
      by (intro emits_by [OF emits_enc_fixed(1) [of mem a]])
        (simp_all add: PB_ENCODERS_def fixed32 pb_ltypes raw_wire_def raw_value_def)
  next
    case fixed64
    have "peek mem a 8 = le_bytes 8 (unat (load mem a :: u64))"
      using unat_load [where 'a = 64 and 'b = 64, of 8 mem a] le_bytes_le_val [of "peek mem a 8"] by simp
    then show ?thesis
      by (intro emits_by [OF emits_enc_fixed(2) [of mem a]])
        (simp_all add: PB_ENCODERS_def fixed64 pb_ltypes raw_wire_def raw_value_def)
  next
    case bytes
    have n: "4 \<le> ?n" using assms(1) by (simp add: raw_size_def bytes pb_ltypes)
    then have l: "le_val (peek mem a 4) + 4 \<le> ?n" using assms(3) by (simp add: raw_ok_def bytes take_peek)
    have "raw_value ?lt (peek mem a ?n) = peek mem (a + 4) (le_val (peek mem a 4))"
      using n l by (simp add: raw_value_def bytes pb_ltypes take_peek drop_peek)
    then show ?thesis
      by (intro emits_by [OF emits_enc_bytes [OF assms(2,4) l]])
        (simp_all add: PB_ENCODERS_def bytes pb_ltypes raw_wire_def)
  next
    case string
    show ?thesis
      by (rule emits_by [OF emits_enc_string [OF assms(2,4,5)]])
        (simp_all add: PB_ENCODERS_def string pb_ltypes raw_wire_def raw_value_def Let_def)
  next
    case fixed
    have "length (peek mem a ?n) < 2 ^ 64" using unat_less_pow(2) [of "data_size f"] by simp
    then show ?thesis
      by (intro emits_by [OF emits_string [of "peek mem a ?n"]])
        (simp_all add: PB_ENCODERS_def fixed pb_ltypes pb_enc_fixed_length_bytes_def raw_wire_def raw_value_def)
  qed
qed

lemma emits_value:
  assumes "plain_field f" "fld_tag f \<noteq> 0" "PB_ATYPE (fld_type f) = PB_ATYPE_STATIC"
    "image_ok_field f (peek mem a (unat (data_size f)))" "0 < a" "a + unat (data_size f) \<le> length mem"
    "length (field_wire f (field_value f (peek mem a (unat (data_size f))))) < 2 ^ 64"
    and sub: "\<And>gs. fld_ptr f = Fields gs \<Longrightarrow> fits_plain gs (unat (data_size f)) \<Longrightarrow>
      image_ok gs (peek mem a (unat (data_size f))) \<Longrightarrow>
      length (message_wire gs (message_value gs (peek mem a (unat (data_size f))))) < 2 ^ 64 \<Longrightarrow>
      emits wr out (enc gs a) (message_wire gs (message_value gs (peek mem a (unat (data_size f)))))"
  shows "emits wr out (PB_ENCODERS mem enc f a) (field_wire f (field_value f (peek mem a (unat (data_size f)))))"
proof (cases "PB_LTYPE (fld_type f) = PB_LTYPE_SUBMESSAGE")
  case True
  obtain gs where gs: "fld_ptr f = Fields gs" "fits_plain gs (unat (data_size f))" by (rule plain_sub [OF assms(1,2) True])
  let ?w = "message_wire gs (message_value gs (peek mem a (unat (data_size f))))"
  have w: "field_wire f (field_value f (peek mem a (unat (data_size f)))) = varint (length ?w) @ ?w"
    by (simp add: field_facts True gs(1) message_value_def message_wire_def)
  have ok: "image_ok gs (peek mem a (unat (data_size f)))"
    using assms(4) by (simp add: field_facts True gs(1) image_ok_def)
  have l: "length ?w < 2 ^ 64" using assms(7) unfolding w by simp
  show ?thesis
  proof (rule emits_by [OF emits_submessage [where enc = enc and gs = gs and src = a, OF sub [OF gs ok l]]])
    show "PB_ENCODERS mem enc f a st = pb_encode_submessage enc gs a st" for st
      by (simp add: PB_ENCODERS_def True pb_ltypes pb_enc_submessage_def gs(1))
    show "field_wire f (field_value f (peek mem a (unat (data_size f)))) = varint (unat (of_nat (length ?w) :: u64)) @ ?w"
      using l by (simp add: w unat_of_nat)
  qed
next
  case False
  then show ?thesis
    using emits_raw [of f mem a enc] assms(1-6) by (simp add: field_facts)
qed

lemma emits_tag_for_field:
  assumes "plain_field f" "fld_tag f \<noteq> 0"
  shows "emits wr out (pb_encode_tag_for_field f) (tag_wire f (wire_type (PB_LTYPE (fld_type f))))"
proof -
  let ?lt = "PB_LTYPE (fld_type f)"
  have "?lt = PB_LTYPE_SUBMESSAGE \<or> raw_size ?lt (unat (data_size f))"
    using assms by (auto simp: field_facts split: if_splits)
  then have "?lt \<in> {PB_LTYPE_BOOL, PB_LTYPE_VARINT, PB_LTYPE_UVARINT, PB_LTYPE_SVARINT, PB_LTYPE_FIXED32,
      PB_LTYPE_FIXED64, PB_LTYPE_BYTES, PB_LTYPE_STRING, PB_LTYPE_SUBMESSAGE, PB_LTYPE_FIXED_LENGTH_BYTES}"
    by (elim disjE raw_size_cases) simp_all
  then have "pb_encode_tag_for_field f st = pb_encode_tag (wire_type ?lt) (fld_tag f) st" for st :: "'s pb_ostream"
    by (auto simp: pb_encode_tag_for_field_def wire_type_def pb_ltypes)
  moreover have "unat (wire_type ?lt) < 8" by (simp add: wire_type_def wire_types)
  ultimately show ?thesis using emits_tag by (intro emits_by [OF emits_tag]) (simp_all add: tag_wire_def)
qed

lemma emits_entries_values:
  "(\<And>i. i < n \<Longrightarrow> emits wr out (each (p + step * i)) (w i)) \<Longrightarrow>
   emits wr out (encode_entries each step n p) (concat (map w [0..<n]))"
proof (induction n arbitrary: p w)
  case 0
  then show ?case using emits_True by (simp add: encode_entries.simps [abs_def])
next
  case (Suc n)
  have "emits wr out (each (p + step + step * i)) (w (Suc i))" if "i < n" for i
    using Suc.prems [of "Suc i"] that by (simp add: add.assoc)
  then have "emits wr out (encode_entries each step n (p + step)) (concat (map (\<lambda>i. w (Suc i)) [0..<n]))"
    by (rule Suc.IH)
  moreover have "emits wr out (each p) (w 0)" using Suc.prems [of 0] by simp
  moreover have "map w [0..<Suc n] = w 0 # map (\<lambda>i. w (Suc i)) [0..<n]"
    by (simp only: upt_conv_Cons map_Suc_upt [symmetric] zero_less_Suc list.simps map_map comp_def)
  ultimately show ?case
    using emits_and_also [of wr out "each p" "w 0" "encode_entries each step n (p + step)"]
    by (simp add: encode_entries.simps [abs_def])
qed

end

section \<open>Fields\<close>

lemma length_concat_member: "x \<in> set xs \<Longrightarrow> length (g x) \<le> length (concat (map g xs))"
  by (induction xs) auto

text \<open>The proto3 check is the default of the format.\<close>

lemma check_default_raw:
  assumes "raw_size (PB_LTYPE (fld_type f)) (unat (data_size f))" "PB_ATYPE (fld_type f) = PB_ATYPE_STATIC" "implicit f"
    "raw_ok (PB_LTYPE (fld_type f)) (peek mem a (unat (data_size f)))" "a + unat (data_size f) \<le> length mem"
  shows "pb_check_proto3_default_value mem f a \<longleftrightarrow>
    default_value (PB_LTYPE (fld_type f)) (Raw (raw_value (PB_LTYPE (fld_type f)) (peek mem a (unat (data_size f)))))"
proof -
  let ?lt = "PB_LTYPE (fld_type f)" and ?n = "unat (data_size f)"
  have optional: "PB_HTYPE (fld_type f) = PB_HTYPE_OPTIONAL" "size_offset f = 0" using assms(3) by (simp_all add: implicit_def)
  have zero: "pb_check_proto3_default_value mem f a \<longleftrightarrow> (\<forall>b \<in> set (peek mem a ?n). b = 0)" if "?lt \<le> PB_LTYPE_LAST_PACKABLE"
    using that optional assms(2)
    by (auto simp: pb_check_proto3_default_value_def check_default_value_def Let_def peek_in [OF assms(5)] pb_ltypes pb_htypes pb_atypes)
  from assms(1) show ?thesis
  proof (cases rule: raw_size_cases)
    case bool
    then obtain x where "peek mem a ?n = [x]" using length_peek [of mem a ?n] by (auto simp: length_Suc_conv simp del: length_peek)
    then show ?thesis using zero bool by (simp add: default_value_def raw_value_def pb_ltypes)
  next
    case bytes
    then have n: "4 \<le> ?n" using assms(1) by (simp add: raw_size_def pb_ltypes)
    then have l: "le_val (peek mem a 4) + 4 \<le> ?n" using assms(4) by (simp add: raw_ok_def bytes take_peek)
    have "(load mem a :: u32) = 0 \<longleftrightarrow> le_val (peek mem a 4) = 0"
      using unat_load [where 'a = 32 and 'b = 32, of 4 mem a] by (simp add: unat_eq_0 [symmetric] del: unat_eq_0)
    then show ?thesis using n l optional assms(2)
      by (simp add: pb_check_proto3_default_value_def check_default_value_def Let_def bytes default_value_def raw_value_def
          take_peek drop_peek pb_ltypes pb_htypes pb_atypes) (auto simp flip: length_0_conv)
  next
    case string
    then have n: "1 \<le> ?n" using assms(1) by (simp add: raw_size_def pb_ltypes)
    then obtain x xs where x: "peek mem a ?n = x # xs" by (cases "peek mem a ?n") (use length_peek [of mem a ?n] in auto)
    then have "peek mem a 1 = [x]" using n take_peek [of 1 ?n mem a] by simp
    then have "(load mem a :: byte) = x" by (simp add: load_peek)
    then show ?thesis using x optional assms(2)
      by (simp add: pb_check_proto3_default_value_def check_default_value_def Let_def string default_value_def raw_value_def
          pb_ltypes pb_htypes pb_atypes)
  next
    case fixed
    have "data_size f = 0 \<longleftrightarrow> peek mem a ?n = []" by (simp flip: length_0_conv add: unat_eq_zero)
    then show ?thesis using optional assms(2)
      by (simp add: pb_check_proto3_default_value_def check_default_value_def Let_def fixed default_value_def raw_value_def
          pb_ltypes pb_htypes pb_atypes)
  qed (use zero in \<open>simp_all add: default_value_def raw_value_def pb_ltypes\<close>)
qed

text \<open>What the encoder of submessages has to do for the message \<open>fs\<close>.\<close>

definition encodes_below :: "('s \<Rightarrow> bytes \<Rightarrow> bool \<times> 's) \<Rightarrow> ('s \<Rightarrow> bytes) \<Rightarrow> bytes \<Rightarrow> 's message_encoder \<Rightarrow> pb_field list \<Rightarrow> bool" where
  "encodes_below wr out mem enc fs \<longleftrightarrow>
     (\<forall>f gs a n. f \<in> set fs \<longrightarrow> fld_ptr f = Fields gs \<longrightarrow> fits_plain gs n \<longrightarrow> 0 < a \<longrightarrow> a + n \<le> length mem \<longrightarrow>
        image_ok gs (peek mem a n) \<longrightarrow> length (message_wire gs (message_value gs (peek mem a n))) < 2 ^ 64 \<longrightarrow>
        emits wr out (enc gs a) (message_wire gs (message_value gs (peek mem a n))))"

context pb_sink
begin

lemma emits_item:
  assumes fs: "fits_plain fs n" "k < n_fields fs" and mem: "0 < src" "src + n \<le> length mem"
    and sub: "encodes_below wr out mem enc fs" and x: "x + unat (data_size (fs ! k)) \<le> field_extent (fs ! k)"
  defines "item \<equiv> peek (peek mem src n) (fst (place fs k) + x) (unat (data_size (fs ! k)))"
  assumes ok: "image_ok_field (fs ! k) item" "length (field_wire (fs ! k) (field_value (fs ! k) item)) < 2 ^ 64"
  shows "emits wr out (PB_ENCODERS mem enc (fs ! k) (src + fst (place fs k) + x))
    (field_wire (fs ! k) (field_value (fs ! k) item))"
proof -
  let ?f = "fs ! k" and ?a = "src + fst (place fs k) + x" and ?d = "unat (data_size (fs ! k))"
  have room: "fst (place fs k) + x + ?d \<le> n" by (rule item_in_image [OF fs x])
  then have item: "item = peek mem ?a ?d" by (simp add: item_def add.assoc)
  note p = plain_place_at [OF fits_plain_facts(1) [OF fs(1)] fs(2)]
  have in_set: "?f \<in> set fs" using fs(2) by (simp add: n_fields_less)
  show ?thesis
    unfolding item
  proof (rule emits_value)
    show "plain_field ?f" using fits_plain_facts(4) [OF fs(1)] fs(2) by (simp add: n_fields_less)
    show "fld_tag ?f \<noteq> 0" by (rule field_tag_nz [OF fits_plain_facts(1) [OF fs(1)] fs(2)])
    show "PB_ATYPE (fld_type ?f) = PB_ATYPE_STATIC" using p by (simp add: plain_place_def)
    show "0 < ?a" "?a + ?d \<le> length mem" using mem room by simp_all
    show "emits wr out (enc gs ?a) (message_wire gs (message_value gs (peek mem ?a ?d)))"
      if "fld_ptr ?f = Fields gs" "fits_plain gs ?d" "image_ok gs (peek mem ?a ?d)"
        "length (message_wire gs (message_value gs (peek mem ?a ?d))) < 2 ^ 64" for gs
      using sub in_set that mem room unfolding encodes_below_def by simp
  qed (use ok item in simp_all)
qed

lemma emits_array:
  assumes "PB_ATYPE (fld_type f) = PB_ATYPE_STATIC" "0 < count" "count \<le> array_size f"
    and tag: "emits wr out (pb_encode_tag_for_field f) t"
    and item: "\<And>i. i < unat count \<Longrightarrow> emits wr out (PB_ENCODERS mem enc f (pData + unat (data_size f) * i)) (w i)"
    and fixed: "\<And>i m. i < unat count \<Longrightarrow> PB_LTYPE (fld_type f) = PB_LTYPE_FIXED32 \<and> m = 4 \<or>
      PB_LTYPE (fld_type f) = PB_LTYPE_FIXED64 \<and> m = 8 \<Longrightarrow> length (w i) = m"
  defines "ws \<equiv> concat (map w [0..<unat count])"
  shows "emits wr out (encode_array mem enc f pData count)
    (if PB_LTYPE (fld_type f) \<le> PB_LTYPE_LAST_PACKABLE
     then tag_wire f PB_WT_STRING @ varint (unat (of_nat (length ws) :: u64)) @ ws
     else concat (map (\<lambda>i. t @ w i) [0..<unat count]))"
proof -
  let ?E = "encode_entries (PB_ENCODERS mem enc f) (unat (data_size f)) (unat count) pData"
  have count: "count \<noteq> 0" "\<not> array_size f < count" using assms(2,3) by auto
  have E: "emits wr out ?E ws" unfolding ws_def by (rule emits_entries_values) (rule item)
  show ?thesis
  proof (cases "PB_LTYPE (fld_type f) \<le> PB_LTYPE_LAST_PACKABLE")
    case True
    have size: "of_nat m * ucast count = (of_nat (length ws) :: u64)"
      if "PB_LTYPE (fld_type f) = PB_LTYPE_FIXED32 \<and> m = 4 \<or> PB_LTYPE (fld_type f) = PB_LTYPE_FIXED64 \<and> m = 8" for m
    proof -
      have "length ws = (\<Sum>i\<leftarrow>[0..<unat count]. m)"
        unfolding ws_def length_concat map_map comp_def
        using fixed that by (intro arg_cong [where f = sum_list] map_cong) auto
      then have "length ws = m * unat count" by (simp add: sum_list_triv)
      then show ?thesis by (simp add: of_nat_unat)
    qed
    let ?count = "\<lambda>st :: 's pb_ostream. if PB_LTYPE (fld_type f) = PB_LTYPE_FIXED32 then Some (4 * ucast count)
      else if PB_LTYPE (fld_type f) = PB_LTYPE_FIXED64 then Some (8 * ucast count)
      else (case ?E (PB_OSTREAM_SIZING (os_state st)) of (False, _) \<Rightarrow> None
            | (True, sizestream) \<Rightarrow> Some (bytes_written sizestream))"
    have "?count st = Some (of_nat (length ws))" for st
      using size [of 4] size [of 8] emits_packed_counted [OF E] by simp
    note packed = emits_packed [OF E, where count = ?count, OF this]
    have "unat PB_WT_STRING < 8" by (simp add: wire_types)
    then show ?thesis
      using True count assms(1)
      by (intro emits_by [OF emits_and_also [OF emits_tag packed]])
        (simp_all add: encode_array_def Let_def tag_wire_def pb_atypes)
  next
    case False
    have "emits wr out (encode_entries (\<lambda>p st. and_also (pb_encode_tag_for_field f st) (PB_ENCODERS mem enc f p))
        (unat (data_size f)) (unat count) pData) (concat (map (\<lambda>i. t @ w i) [0..<unat count]))"
      by (rule emits_entries_values) (rule emits_and_also [OF tag item])
    then show ?thesis
      by (rule emits_by) (use False count assms(1) in \<open>simp_all add: encode_array_def Let_def pb_atypes\<close>)
  qed
qed

lemma emits_single:
  assumes fs: "fits_plain fs n" "k < n_fields fs" and mem: "0 < src" "src + n \<le> length mem"
    and sub: "encodes_below wr out mem enc fs" and ok: "image_ok fs (peek mem src n)"
    and single: "PB_HTYPE (fld_type (fs ! k)) \<noteq> PB_HTYPE_REPEATED"
  defines "vs \<equiv> held (fs ! k) (field_value (fs ! k)) (place fs k) (peek mem src n)"
  assumes wire: "length (values_wire (fs ! k) (field_wire (fs ! k)) vs) < 2 ^ 64"
  shows "emits wr out (encode_field mem enc (fs ! k) (src + fst (place fs k))) (values_wire (fs ! k) (field_wire (fs ! k)) vs)"
proof -
  let ?f = "fs ! k" and ?a = "src + fst (place fs k)" and ?r = "peek mem src n"
  let ?d = "unat (data_size ?f)" and ?lt = "PB_LTYPE (fld_type ?f)"
  let ?item = "peek ?r (fst (place fs k)) ?d"
  let ?v = "field_value ?f ?item"
  note plain = fits_plain_facts(1) [OF fs(1)]
  note p = plain_place_at [OF plain fs(2)]
  have static: "PB_ATYPE (fld_type ?f) = PB_ATYPE_STATIC" using p by (simp add: plain_place_def)
  have f: "plain_field ?f" "fld_tag ?f \<noteq> 0"
    using fits_plain_facts(4) [OF fs(1)] fs(2) field_tag_nz [OF plain fs(2)] by (simp_all add: n_fields_less)
  have room: "0 + ?d \<le> field_extent ?f" by (simp add: extent_single [OF p single])
  have a: "0 < ?a" "?item = peek mem ?a ?d" "?a + ?d \<le> length mem"
    using mem item_in_image [OF fs room] by simp_all
  have full: "emits wr out (\<lambda>st. and_also (pb_encode_tag_for_field ?f st) (PB_ENCODERS mem enc ?f ?a))
      (values_wire ?f (field_wire ?f) vs)"
    if vs: "vs = [?v]" and shown: "\<not> (implicit ?f \<and> default_value ?lt ?v)"
  proof -
    have w: "values_wire ?f (field_wire ?f) vs = tag_wire ?f (wire_type ?lt) @ field_wire ?f ?v"
      using single shown by (auto simp: vs values_wire_def Let_def)
    have "image_ok_field ?f ?item"
      using ok fs(2) single vs unfolding message_facts vs_def by (auto simp: held_def Let_def split: if_splits)
    moreover have "length (field_wire ?f ?v) < 2 ^ 64" using wire unfolding w by simp
    ultimately have "emits wr out (PB_ENCODERS mem enc ?f ?a) (field_wire ?f ?v)"
      using emits_item [OF fs mem sub room] by simp
    with emits_tag_for_field [OF f] show ?thesis unfolding w by (rule emits_and_also)
  qed
  consider (required) "PB_HTYPE (fld_type ?f) = PB_HTYPE_REQUIRED"
    | (flag) "PB_HTYPE (fld_type ?f) = PB_HTYPE_OPTIONAL" "size_offset ?f \<noteq> 0" "flag_room 1 ?f"
    | (implicit) "PB_HTYPE (fld_type ?f) = PB_HTYPE_OPTIONAL" "size_offset ?f = 0" "?lt \<noteq> PB_LTYPE_SUBMESSAGE"
    using p single by (auto simp: plain_place_def split: if_splits)
  then show ?thesis
  proof cases
    case required
    then have "vs = [?v]" "\<not> implicit ?f" by (simp_all add: vs_def held_def Let_def implicit_def pb_htypes)
    with full show ?thesis
      by (intro emits_by [OF full]) (use required mem static in \<open>simp_all add: encode_field_def encode_basic_field_def Let_def pb_htypes pb_atypes\<close>)
  next
    case flag
    let ?s = "nat (snd (place fs k))"
    have s: "size_address ?a ?f = src + ?s" by (rule count_address [OF plain fs(2) flag(3)])
    have "peek ?r ?s 1 = peek mem (src + ?s) 1" using count_in_image [OF fs flag(3)] by simp
    then have vs: "vs = (if safe_read_bool mem (src + ?s) then [?v] else [])"
      using flag by (simp add: vs_def held_def Let_def safe_read_bool_peek pb_htypes)
    have enc: "encode_field mem enc ?f ?a st = (if safe_read_bool mem (src + ?s)
        then and_also (pb_encode_tag_for_field ?f st) (PB_ENCODERS mem enc ?f ?a) else (True, st))" for st :: "'s pb_ostream"
      using flag static s by (simp add: encode_field_def encode_basic_field_def Let_def pb_htypes pb_atypes)
    show ?thesis
    proof (cases "safe_read_bool mem (src + ?s)")
      case True
      then show ?thesis using vs flag enc by (intro emits_by [OF full]) (simp_all add: implicit_def)
    next
      case False
      then have "values_wire ?f (field_wire ?f) vs = []" using vs by (simp add: values_wire_def Let_def)
      with False enc show ?thesis by (intro emits_by [OF emits_True]) simp_all
    qed
  next
    case implicit
    then have i: "implicit ?f" by (simp add: implicit_def)
    have vs: "vs = [?v]" using implicit by (simp add: vs_def held_def Let_def pb_htypes)
    have raw: "raw_size ?lt ?d" using f implicit(3) by (simp add: field_facts)
    have "image_ok_field ?f ?item"
      using ok fs(2) single vs unfolding message_facts vs_def by (auto simp: held_def Let_def split: if_splits)
    then have "raw_ok ?lt (peek mem ?a ?d)" using implicit(3) a(2) by (simp add: field_facts)
    from check_default_raw [OF raw static i this a(3)]
    have check: "pb_check_proto3_default_value mem ?f ?a \<longleftrightarrow> default_value ?lt ?v"
      using implicit(3) a(2) by (simp add: field_facts)
    have enc: "encode_field mem enc ?f ?a st = (if default_value ?lt ?v then (True, st)
        else and_also (pb_encode_tag_for_field ?f st) (PB_ENCODERS mem enc ?f ?a))" for st :: "'s pb_ostream"
      using implicit static check by (simp add: encode_field_def encode_basic_field_def Let_def pb_htypes pb_atypes)
    show ?thesis
    proof (cases "default_value ?lt ?v")
      case True
      then have "values_wire ?f (field_wire ?f) vs = []" using vs i single by (simp add: values_wire_def Let_def)
      with True enc show ?thesis by (intro emits_by [OF emits_True]) simp_all
    next
      case False
      then show ?thesis using vs enc by (intro emits_by [OF full]) simp_all
    qed
  qed
qed

lemma emits_repeated:
  assumes fs: "fits_plain fs n" "k < n_fields fs" and mem: "0 < src" "src + n \<le> length mem"
    and sub: "encodes_below wr out mem enc fs" and ok: "image_ok fs (peek mem src n)"
    and repeated: "PB_HTYPE (fld_type (fs ! k)) = PB_HTYPE_REPEATED"
  defines "vs \<equiv> held (fs ! k) (field_value (fs ! k)) (place fs k) (peek mem src n)"
  assumes wire: "length (values_wire (fs ! k) (field_wire (fs ! k)) vs) < 2 ^ 64"
  shows "emits wr out (encode_field mem enc (fs ! k) (src + fst (place fs k))) (values_wire (fs ! k) (field_wire (fs ! k)) vs)"
proof -
  let ?f = "fs ! k" and ?a = "src + fst (place fs k)" and ?r = "peek mem src n" and ?s = "nat (snd (place fs k))"
  let ?d = "unat (data_size ?f)" and ?lt = "PB_LTYPE (fld_type ?f)" and ?count = "load mem (src + ?s) :: u32"
  let ?item = "\<lambda>i. peek ?r (fst (place fs k) + ?d * i) ?d"
  let ?w = "\<lambda>i. field_wire ?f (field_value ?f (?item i))"
  let ?ws = "concat (map ?w [0..<unat ?count])"
  note plain = fits_plain_facts(1) [OF fs(1)]
  note p = plain_place_at [OF plain fs(2)]
  note room = plain_repeated [OF p repeated]
  have static: "PB_ATYPE (fld_type ?f) = PB_ATYPE_STATIC" using p by (simp add: plain_place_def)
  have f: "plain_field ?f" "fld_tag ?f \<noteq> 0"
    using fits_plain_facts(4) [OF fs(1)] fs(2) field_tag_nz [OF plain fs(2)] by (simp_all add: n_fields_less)
  have load: "(load ?r ?s :: u32) = ?count" using count_in_image [OF fs room] by (simp add: load_image)
  have vs: "vs = map (\<lambda>i. field_value ?f (?item i)) [0..<unat ?count]"
    using repeated by (simp add: vs_def held_def Let_def load)
  have i: "\<not> implicit ?f" using repeated by (simp add: implicit_def pb_htypes)
  have oks: "image_ok_field ?f (?item i)" if "i < unat ?count" for i
    using ok fs(2) repeated that unfolding message_facts by (auto simp: held_def Let_def load list_all_iff)
  have "count_ok ?f (place fs k) ?r" using ok fs(2) unfolding message_facts by blast
  then have size: "?count \<le> array_size ?f" using repeated by (simp add: count_ok_def load)
  have in_extent: "?d * i + ?d \<le> field_extent ?f" if "i < unat ?count" for i
    using size that by (intro item_in_extent [OF p repeated]) (simp add: word_le_nat_alt)
  have s: "size_address ?a ?f = src + ?s" by (rule count_address [OF plain fs(2) room])
  have soff: "size_offset ?f \<noteq> 0" using room by (auto simp: flag_room_def)
  have enc: "encode_field mem enc ?f ?a st = encode_array mem enc ?f ?a ?count st" for st :: "'s pb_ostream"
    using repeated static s soff by (simp add: encode_field_def encode_basic_field_def Let_def pb_htypes pb_atypes)
  show ?thesis
  proof (cases "?count = 0")
    case True
    then have "values_wire ?f (field_wire ?f) vs = []" by (simp add: vs values_wire_def Let_def)
    then show ?thesis using True enc by (intro emits_by [OF emits_True]) (simp_all add: encode_array_def Let_def)
  next
    case False
    then have vs_nonempty: "vs \<noteq> []" by (simp add: vs unat_eq_zero)
    have w: "values_wire ?f (field_wire ?f) vs =
        (if ?lt \<le> PB_LTYPE_LAST_PACKABLE then tag_wire ?f PB_WT_STRING @ varint (length ?ws) @ ?ws
         else concat (map (\<lambda>i. tag_wire ?f (wire_type ?lt) @ ?w i) [0..<unat ?count]))"
      using repeated vs_nonempty i by (simp add: values_wire_def Let_def vs comp_def)
    have "length (?w i) < 2 ^ 64" if "i < unat ?count" for i
    proof -
      have "length (?w i) \<le> length ?ws" using that by (intro length_concat_member) simp
      moreover have "length (tag_wire ?f (wire_type ?lt) @ ?w i) \<le>
          length (concat (map (\<lambda>i. tag_wire ?f (wire_type ?lt) @ ?w i) [0..<unat ?count]))"
        using that by (intro length_concat_member) simp
      ultimately show ?thesis using wire unfolding w by (simp split: if_splits)
    qed
    then have item: "emits wr out (PB_ENCODERS mem enc ?f (?a + ?d * i)) (?w i)" if "i < unat ?count" for i
      using emits_item [OF fs mem sub in_extent [OF that] oks [OF that]] that by blast
    have fixed: "length (?w i) = m" if "?lt = PB_LTYPE_FIXED32 \<and> m = 4 \<or> ?lt = PB_LTYPE_FIXED64 \<and> m = 8" for i m
      using that f by (auto simp: field_facts raw_wire_def raw_value_def raw_size_def pb_ltypes)
    have "0 < ?count" using False by (simp add: word_gt_0)
    from emits_array [OF static this size emits_tag_for_field [OF f] item fixed]
    show ?thesis
    proof (rule emits_by)
      have "length ?ws < 2 ^ 64" if "?lt \<le> PB_LTYPE_LAST_PACKABLE" using wire that unfolding w by simp
      then show "values_wire ?f (field_wire ?f) vs =
        (if ?lt \<le> PB_LTYPE_LAST_PACKABLE then tag_wire ?f PB_WT_STRING @ varint (unat (of_nat (length ?ws) :: u64)) @ ?ws
         else concat (map (\<lambda>i. tag_wire ?f (wire_type ?lt) @ ?w i) [0..<unat ?count]))"
        unfolding w by (simp add: unat_of_nat)
    qed (assumption | rule enc)+
  qed
qed

section \<open>Messages\<close>

lemma emits_encode_field:
  assumes "fits_plain fs n" "k < n_fields fs" "0 < src" "src + n \<le> length mem"
    "encodes_below wr out mem enc fs" "image_ok fs (peek mem src n)"
    "length (message_wire fs (message_value fs (peek mem src n))) < 2 ^ 64"
  defines "vs \<equiv> held (fs ! k) (field_value (fs ! k)) (place fs k) (peek mem src n)"
  shows "emits wr out (encode_field mem enc (fs ! k) (src + fst (place fs k))) (values_wire (fs ! k) (field_wire (fs ! k)) vs)"
proof -
  have "message_value fs (peek mem src n) ! k = vs" using assms(2) by (simp add: message_facts vs_def)
  then have "length (values_wire (fs ! k) (field_wire (fs ! k)) vs) \<le> length (message_wire fs (message_value fs (peek mem src n)))"
    unfolding message_facts(2) using assms(2)
    by (metis (no_types, lifting) length_concat_member atLeastLessThan_iff set_upt zero_le)
  then have "length (values_wire (fs ! k) (field_wire (fs ! k)) vs) < 2 ^ 64" using assms(7) by simp
  then show ?thesis
    unfolding vs_def using emits_single [OF assms(1-6)] emits_repeated [OF assms(1-6)] by blast
qed

lemma emits_fields:
  assumes "fits_plain fs n" "0 < src" "src + n \<le> length mem"
    "encodes_below wr out mem enc fs" "image_ok fs (peek mem src n)"
    "length (message_wire fs (message_value fs (peek mem src n))) < 2 ^ 64"
  shows "k < n_fields fs \<Longrightarrow> n_fields fs \<le> k + m \<Longrightarrow> emits wr out (encode_loop mem enc m (iter_at fs src k))
    (concat (map (\<lambda>k. values_wire (fs ! k) (field_wire (fs ! k)) (message_value fs (peek mem src n) ! k)) [k..<n_fields fs]))"
proof (induction m arbitrary: k)
  case (Suc m)
  let ?w = "\<lambda>k. values_wire (fs ! k) (field_wire (fs ! k)) (message_value fs (peek mem src n) ! k)"
  note k = Suc.prems(1)
  note t = fits_plain_facts(2) [OF assms(1)]
  have place: "k < n_places fs" using k by (simp add: n_places_def)
  have a: "it_field (iter_at fs src k) = fs ! k" "it_pData (iter_at fs src k) = src + fst (place fs k)"
    using iter_place_field [OF t place] iter_at_data [OF t assms(2) place] by simp_all
  have "plain_field (fs ! k)" "fld_tag (fs ! k) \<noteq> 0"
    using fits_plain_facts(4) [OF assms(1)] k field_tag_nz [OF fits_plain_facts(1) [OF assms(1)] k] by (simp_all add: n_fields_less)
  then have ext: "PB_LTYPE (fld_type (fs ! k)) \<noteq> PB_LTYPE_EXTENSION" by (auto simp: field_facts raw_size_def pb_ltypes split: if_splits)
  have field: "emits wr out (encode_field mem enc (fs ! k) (src + fst (place fs k))) (?w k)"
    using emits_encode_field [OF assms(1) k assms(2-6)] k by (simp add: message_facts(1))
  have rest: "emits wr out (\<lambda>st. case pb_field_iter_next (iter_at fs src k) of
      (True, iter) \<Rightarrow> encode_loop mem enc m iter st | (False, _) \<Rightarrow> (True, st)) (concat (map ?w [Suc k..<n_fields fs]))"
  proof (cases "Suc k < n_fields fs")
    case True
    with Suc.IH [of "Suc k"] Suc.prems show ?thesis by (simp add: iter_next [OF t k] del: iter_at.simps)
  next
    case False
    then show ?thesis using emits_True by (simp add: iter_next [OF t k] del: iter_at.simps)
  qed
  show ?case
    by (rule emits_by [OF emits_and_also [OF field rest]])
      (simp_all add: a ext upt_conv_Cons [OF k] del: iter_at.simps upt.simps)
qed simp

text \<open>The encoder writes the format of the value.\<close>

lemma emits_message:
  assumes "fits_plain fs n" "0 < src" "src + n \<le> length mem" "image_ok fs (peek mem src n)"
    "length (message_wire fs (message_value fs (peek mem src n))) < 2 ^ 64"
  shows "emits wr out (pb_encode mem fs src) (message_wire fs (message_value fs (peek mem src n)))"
  using assms
proof (induction "depth fs" arbitrary: fs src n rule: less_induct)
  case less
  note t = fits_plain_facts(2) [OF less.prems(1)]
  have "encodes_below wr out mem (pb_encode mem) fs"
    unfolding encodes_below_def using less.hyps depth_sub by blast
  note fields = emits_fields [OF less.prems(1-3) this less.prems(4,5), of 0 "length fs"]
  have unfold: "pb_encode mem fs src st = encode_message mem (pb_encode mem) fs src st" for st :: "'s pb_ostream"
    using messages_unfold(3) [OF fits_plain_descriptor [OF less.prems(1)]] by metis
  show ?case
  proof (cases "n_fields fs = 0")
    case True
    then have "fld_tag (fs ! 0) = 0" using terminated_nth [OF t, of 0] by simp
    then show ?thesis
      by (intro emits_by [OF emits_True]) (simp_all add: unfold encode_message_def pb_field_iter_begin_def Let_def message_facts(2) True)
  next
    case False
    then have "fld_tag (fs ! 0) \<noteq> 0" using terminated_nth [OF t, of 0] by simp
    then have "pb_field_iter_begin fs src = (True, iter_at fs src 0)" by (simp add: pb_field_iter_begin_def Let_def)
    then show ?thesis using fields False
      by (intro emits_by [OF fields]) (simp_all add: unfold encode_message_def message_facts(2) n_fields_def del: iter_at.simps)
  qed
qed

end

end
