(* ===== verification/Pb_Read_Value.thy ===== *)
theory Pb_Read_Value
  imports Pb_Image
begin

text \<open>
  The decoders of single values. \<open>decodes\<close> says that a decoder reads \<open>w\<close> into the \<open>n\<close> bytes at \<open>q\<close>,
  and nowhere else, if they hold \<open>pre\<close> before, and that they hold \<open>post\<close> afterwards. Every
  decoder of a type without fields reads the format of a value and stores the value.
\<close>

definition decodes ::
  "('s \<Rightarrow> nat \<Rightarrow> bool \<times> bytes \<times> 's) \<Rightarrow> ('s \<Rightarrow> bytes) \<Rightarrow> ('s dstate \<Rightarrow> bool \<times> 's dstate) \<Rightarrow> bytes \<Rightarrow>
   nat \<Rightarrow> nat \<Rightarrow> (bytes \<Rightarrow> bool) \<Rightarrow> (bytes \<Rightarrow> bool) \<Rightarrow> bool" where
  "decodes read content dec w q n pre post \<longleftrightarrow>
     (\<forall>st m. good_input read content st \<longrightarrow> prefix w (input content st) \<longrightarrow> q + n \<le> length m \<longrightarrow> pre (peek m q n) \<longrightarrow>
        (\<exists>st' m'. dec (st, m) = (True, st', m') \<and> advanced content st w st' \<and> inside q n m m' \<and> post (peek m' q n)))"

lemma decodesD:
  assumes "decodes read content dec w q n pre post" "good_input read content st" "prefix w (input content st)"
    "q + n \<le> length m" "pre (peek m q n)"
  obtains st' m' where "dec (st, m) = (True, st', m')" "advanced content st w st'" "inside q n m m'" "post (peek m' q n)"
    "good_input read content st'" "input content st = w @ input content st'" "length m' = length m"
proof -
  obtain st' m' where r: "dec (st, m) = (True, st', m')" "advanced content st w st'" "inside q n m m'" "post (peek m' q n)"
    using assms unfolding decodes_def by blast
  show ?thesis
    by (rule that [OF r advanced_good [OF assms(2) r(2)] advanced_input [OF r(2)] inside_length [OF r(3) assms(4)]])
qed

section \<open>Signed numbers\<close>

lemma narrow_sext:
  assumes "LENGTH('a) = 8 * length b" "length b \<le> 8"
  shows "(ucast (sext b) :: 'a :: len word) = of_nat (le_val b)"
proof (rule bit_word_eqI)
  fix i
  assume i: "i < LENGTH('a)"
  then have "min (8 * length b - Suc 0) i = i" using assms(1) by simp
  moreover have "i < 64" using i assms by simp
  ultimately show "bit (ucast (sext b) :: 'a word) i = bit (of_nat (le_val b) :: 'a word) i"
    using i by (simp add: sext_def bit_simps)
qed

lemma widen_sext:
  assumes "8 * length b \<le> LENGTH('a)" "0 < length b" "LENGTH('a) \<le> 64"
  shows "scast (ucast (sext b) :: 'a :: len word) = sext b"
proof (rule bit_word_eqI)
  fix i :: nat
  assume "i < LENGTH(64)"
  moreover have "min (8 * length b - Suc 0) (min (LENGTH('a) - Suc 0) i) = min (8 * length b - Suc 0) i"
    using assms by simp
  moreover have "min (LENGTH('a) - Suc 0) i < LENGTH('a)" by (simp add: min_less_iff_disj)
  ultimately show "bit (scast (ucast (sext b) :: 'a word) :: u64) i = bit (sext b) i"
    using assms(3) by (simp add: sext_def bit_simps)
qed

lemma widen_le_val:
  assumes "LENGTH('a) = 8 * length b" "length b \<le> 8"
  shows "(scast (of_nat (le_val b) :: 'a :: len word) :: u64) = sext b"
proof -
  have "0 < length b" using assms(1) len_gt_0 [where 'a = 'a] by auto
  then show ?thesis using widen_sext [where 'a = 'a, of b] narrow_sext [where 'a = 'a, OF assms] assms by simp
qed

section \<open>Storing\<close>

lemma peek_poke_part: "q + n \<le> length m \<Longrightarrow> x + length xs \<le> n \<Longrightarrow> peek (poke m (q + x) xs) q n = poke (peek m q n) x xs"
proof (rule nth_equalityI)
  fix i
  assume a: "q + n \<le> length m" "x + length xs \<le> n" "i < length (peek (poke m (q + x) xs) q n)"
  then show "peek (poke m (q + x) xs) q n ! i = poke (peek m q n) x xs ! i"
    by (auto simp: nth_peek poke_def nth_append)
qed simp

lemma poke_all: "length xs = length r \<Longrightarrow> poke r 0 xs = xs"
  by (simp add: poke_def)

lemma poke_behind: "length h = x \<Longrightarrow> x + length b \<le> length r \<Longrightarrow> poke (poke r 0 h) x b = h @ b @ drop (x + length b) r"
  by (simp add: poke_def add.commute)

lemma store_le:
  fixes w :: "'a :: len word"
  assumes "LENGTH('a) = 8 * length b" "w = of_nat (le_val b)"
  shows "store m q w = poke m q b"
proof -
  have "le_val b < 2 ^ LENGTH('a)" using le_val_less [of b] by (simp add: assms(1) power_mult)
  then have "unat w = le_val b" by (simp add: assms(2) unat_of_nat)
  then show ?thesis using assms(1) le_bytes_le_val [of b] by (simp add: store_def)
qed

lemma store_or_le: "LENGTH('a :: len) = 8 * length b \<Longrightarrow> store m q (or_le b :: 'a word) = poke m q b"
proof -
  assume l: "LENGTH('a) = 8 * length b"
  have "of_nat (unat (or_le b :: 'a word)) = (of_nat (le_val b) :: 'a word)" using l by (simp only: unat_or_le)
  then have "(or_le b :: 'a word) = of_nat (le_val b)" by simp
  with l show ?thesis by (rule store_le)
qed

lemma decodes_poke:
  assumes "reads read content f w v" "\<And>st m. k v (st, m) = (True, st, poke m q xs)" "length xs \<le> n"
    "\<And>r. length r = n \<Longrightarrow> pre r \<Longrightarrow> post (poke r 0 xs)"
  shows "decodes read content (\<lambda>s. with_stream f s k) w q n pre post"
  unfolding decodes_def
proof (intro allI impI)
  fix st m
  assume st: "good_input read content st" "prefix w (input content st)" "q + n \<le> length m" "pre (peek m q n)"
  obtain st' where "f st = (Some v, st')" "advanced content st w st'" using readsD [OF assms(1) st(1,2)] by blast
  moreover have "post (peek (poke m q xs) q n)"
    using assms(4) [OF _ st(4)] st(3) assms(3) peek_poke_part [of q n m 0 xs] by simp
  ultimately show "\<exists>st' m'. with_stream f (st, m) k = (True, st', m') \<and> advanced content st w st' \<and> inside q n m m' \<and> post (peek m' q n)"
    using assms(2,3) by (simp add: with_stream_def inside_poke)
qed

lemma decodes_cong: "(\<And>s. dec s = dec' s) \<Longrightarrow> decodes read content dec' w q n pre post \<Longrightarrow> decodes read content dec w q n pre post"
  by (simp add: decodes_def)

text \<open>A length, then that many bytes.\<close>

lemma decodes_string:
  assumes "pb_source read content" "length b < 2 ^ 32" "x + length b \<le> n" "length h \<le> x"
    "\<And>st m. k (of_nat (length b)) (st, m) =
      (case read_into (q + x) (length b) (st, poke m q h) of (ok, st, m) \<Rightarrow> (ok, st, poke m (q + x + length b) t))"
    "x + length b + length t \<le> n"
    "\<And>r. length r = n \<Longrightarrow> pre r \<Longrightarrow> post (poke (poke (poke r 0 h) x b) (x + length b) t)"
  shows "decodes read content (\<lambda>s. with_stream pb_decode_varint32 s k) (varint (length b) @ b) q n pre post"
  unfolding decodes_def
proof (intro allI impI)
  fix st m
  assume st: "good_input read content st" "prefix (varint (length b) @ b) (input content st)" "q + n \<le> length m" "pre (peek m q n)"
  then have "prefix (varint (length b)) (input content st)" by (meson append_prefixD)
  then obtain st1 where 1: "pb_decode_varint32 st = (Some (of_nat (length b)), st1)" "advanced content st (varint (length b)) st1"
      "good_input read content st1" "input content st = varint (length b) @ input content st1"
    using readsD [OF pb_source.reads_varint32 [OF assms(1) is_length_varint [OF assms(2)]] st(1)] by metis
  then have "prefix b (input content st1)" using st(2) by simp
  then obtain st2 where 2: "pb_read (length b) st1 = (Some b, st2)" "advanced content st1 b st2"
    using readsD [OF pb_source.reads_pb_read [OF assms(1)] 1(3)] by metis
  let ?m = "poke (poke (poke m q h) (q + x) b) (q + x + length b) t"
  have l: "length (peek m q n) = n" "length (poke m q h) = length m" "length (poke (poke m q h) (q + x) b) = length m"
    using st(3) assms(3,4,6) by simp_all
  have "with_stream pb_decode_varint32 (st, m) k = (True, st2, ?m)"
    by (simp add: with_stream_def 1(1) assms(5) read_into_def 2(1))
  moreover have "inside q n m (poke m q h)" "inside q n (poke m q h) (poke (poke m q h) (q + x) b)"
      "inside q n (poke (poke m q h) (q + x) b) ?m"
    using assms(3,4,6) by (simp_all add: inside_poke)
  then have "inside q n m ?m" by (rule inside_trans [OF inside_trans])
  moreover have "peek ?m q n = poke (poke (poke (peek m q n) 0 h) x b) (x + length b) t"
    using peek_poke_part [of q n "poke (poke m q h) (q + x) b" "x + length b" t] peek_poke_part [of q n "poke m q h" x b]
      peek_poke_part [of q n m 0 h] l st(3) assms(3,4,6) by (simp add: add.assoc)
  ultimately show "\<exists>st' m'. with_stream pb_decode_varint32 (st, m) k = (True, st', m') \<and>
      advanced content st (varint (length b) @ b) st' \<and> inside q n m m' \<and> post (peek m' q n)"
    using advanced_trans [OF 1(2) 2(2)] assms(7) [OF l(1) st(4)] by auto
qed

section \<open>Values without fields\<close>

lemma data_size_cases:
  assumes "unat (data_size f) \<in> {1, 2, 4, 8}" "length r = unat (data_size f)"
  obtains (8) "data_size f = 8" "length r = 8" | (4) "data_size f = 4" "length r = 4"
  | (2) "data_size f = 2" "length r = 2" | (1) "data_size f = 1" "length r = 1"
proof -
  have "data_size f = 8 \<and> length r = 8 \<or> data_size f = 4 \<and> length r = 4 \<or>
      data_size f = 2 \<and> length r = 2 \<or> data_size f = 1 \<and> length r = 1"
    using assms by (auto simp: word_unat_eq_iff)
  with that show ?thesis by blast
qed

lemma store_signed_sext:
  assumes "unat (data_size f) \<in> {1, 2, 4, 8}" "length r = unat (data_size f)"
  shows "store_signed f q (sext r) (st, m) = (True, st, poke m q r)"
  using assms
proof (cases rule: data_size_cases)
  case 8
  have "sext r = of_nat (le_val r)" using narrow_sext [where 'a = 64, of r] 8 by simp
  then show ?thesis using 8 by (simp add: store_signed_def store_checked_def store_le [where 'a = 64, of r])
next
  case 4
  then show ?thesis
    by (simp add: store_signed_def store_checked_def widen_le_val store_le [where 'a = 32, of r] narrow_sext)
next
  case 2
  then show ?thesis
    by (simp add: store_signed_def store_checked_def widen_le_val store_le [where 'a = 16, of r] narrow_sext)
next
  case 1
  then show ?thesis
    by (simp add: store_signed_def store_checked_def widen_le_val store_le [where 'a = 8, of r] narrow_sext)
qed

lemma ucast_le_val:
  assumes "LENGTH('a) = 8 * length r" "length r \<le> 8"
  shows "(ucast (of_nat (le_val r) :: u64) :: 'a :: len word) = of_nat (le_val r)"
    and "(ucast (of_nat (le_val r) :: 'a word) :: u64) = of_nat (le_val r)"
proof -
  have l: "le_val r < 2 ^ LENGTH('a)" using le_val_less [of r] by (simp add: assms(1) power_mult)
  have "LENGTH('a) \<le> 64" using assms by simp
  then have "(2 :: nat) ^ LENGTH('a) \<le> 2 ^ 64" by (intro power_increasing) simp_all
  then have u: "le_val r < 2 ^ 64" using l by simp
  show "(ucast (of_nat (le_val r) :: u64) :: 'a word) = of_nat (le_val r)"
    "(ucast (of_nat (le_val r) :: 'a word) :: u64) = of_nat (le_val r)"
    using l u by (simp_all add: word_unat_eq_iff unsigned_ucast_eq take_bit_eq_mod unat_of_nat)
qed

context pb_source
begin

lemma decodes_raw:
  fixes f :: pb_field and r :: bytes
  defines "lt \<equiv> PB_LTYPE (fld_type f)" and "n \<equiv> unat (data_size f)"
  assumes size: "raw_size lt n" "PB_ATYPE (fld_type f) = PB_ATYPE_STATIC" and r: "raw_ok lt r" "length r = n"
  shows "decodes read content (PB_DECODERS M noinit f q) (raw_wire lt (raw_value lt r)) q n (\<lambda>_. True)
    (\<lambda>r'. raw_value lt r' = raw_value lt r)"
  using size(1)
proof (cases rule: raw_size_cases)
  case bool
  then obtain x where x: "r = [x]" using r(2) by (auto simp: length_Suc_conv)
  obtain y where y: "raw_value lt r = [y]" "y = 0 \<or> y = 1" by (cases "x = 0") (simp_all add: raw_value_def bool(1) x)
  have "decodes read content (pb_dec_bool q) (varint (unat y)) q n (\<lambda>_. True) (\<lambda>r'. raw_value lt r' = [y])"
    unfolding pb_dec_bool_def [abs_def]
  proof (rule decodes_poke [OF reads_varint32 [OF is_length_varint], where xs = "[y]"], goal_cases)
    case 1
    then show ?case using y(2) by auto
  next
    case (2 st m)
    then show ?case using y(2) by auto
  next
    case (4 r')
    then show ?case using y(2) bool(2) by (auto simp: poke_all raw_value_def bool(1))
  qed (simp add: bool(2))
  then show ?thesis
    by (simp add: decodes_def PB_DECODERS_def Let_def bool(1) lt_def [symmetric] raw_wire_def y(1) [unfolded bool(1)])
next
  case varint
  have n: "unat (data_size f) \<in> {1, 2, 4, 8}" "length r = unat (data_size f)" using varint r by (simp_all add: n_def)
  have "data_size f \<noteq> 8 \<Longrightarrow> scast (ucast (sext r) :: u32) = sext r"
    using n by (cases rule: data_size_cases) (simp_all add: widen_sext)
  then have "decodes read content (pb_dec_varint f q) (varint (unat (sext r))) q n (\<lambda>_. True) (\<lambda>r'. r' = r)"
    unfolding pb_dec_varint_def [abs_def] using r(2)
    by (intro decodes_poke [OF reads_varint, where xs = r]) (simp_all add: store_signed_sext [OF n] poke_all length_varint_64)
  then show ?thesis
    by (simp add: decodes_def PB_DECODERS_def Let_def varint(1) lt_def [symmetric] raw_wire_def raw_value_def pb_ltypes)
next
  case uvarint
  have n: "unat (data_size f) \<in> {1, 2, 4, 8}" "length r = unat (data_size f)" using uvarint r by (simp_all add: n_def)
  have "le_val r < 256 ^ 8"
    using n le_val_less [of r] by (cases rule: data_size_cases) simp_all
  then have l: "length (varint (le_val r)) \<le> 10" using length_varint [of "le_val r" 9] by simp
  have "decodes read content (pb_dec_uvarint f q) (varint (le_val r)) q n (\<lambda>_. True) (\<lambda>r'. r' = r)"
    unfolding pb_dec_uvarint_def [abs_def]
  proof (rule decodes_poke [OF reads_varint, where xs = r], goal_cases)
    case (3 st m)
    show ?case
      using n by (cases rule: data_size_cases)
        (simp_all add: store_checked_def ucast_le_val store_le [where 'a = 64, of r] store_le [where 'a = 32, of r]
          store_le [where 'a = 16, of r] store_le [where 'a = 8, of r])
  qed (use r(2) l in \<open>simp_all add: poke_all\<close>)
  then show ?thesis
    by (simp add: decodes_def PB_DECODERS_def Let_def uvarint(1) lt_def [symmetric] raw_wire_def raw_value_def pb_ltypes)
next
  case svarint
  have n: "unat (data_size f) \<in> {1, 2, 4, 8}" "length r = unat (data_size f)" using svarint r by (simp_all add: n_def)
  have "decodes read content (pb_dec_svarint f q) (varint (zigzag (sint (sext r)))) q n (\<lambda>_. True) (\<lambda>r'. r' = r)"
    unfolding pb_dec_svarint_def [abs_def] using r(2)
    by (intro decodes_poke [OF reads_zigzag, where xs = r]) (simp_all add: store_signed_sext [OF n] poke_all)
  then show ?thesis
    by (simp add: decodes_def PB_DECODERS_def Let_def svarint(1) lt_def [symmetric] raw_wire_def raw_value_def pb_ltypes)
next
  case fixed32
  have "decodes read content (pb_dec_fixed32 q) r q n (\<lambda>_. True) (\<lambda>r'. r' = r)"
    unfolding pb_dec_fixed32_def [abs_def] using r(2) fixed32(2)
    by (intro decodes_poke [OF reads_fixed32, where xs = r])
      (simp_all add: poke_all store_or_le)
  then show ?thesis
    by (simp add: decodes_def PB_DECODERS_def Let_def fixed32(1) lt_def [symmetric] raw_wire_def raw_value_def pb_ltypes)
next
  case fixed64
  have "decodes read content (pb_dec_fixed64 q) r q n (\<lambda>_. True) (\<lambda>r'. r' = r)"
    unfolding pb_dec_fixed64_def [abs_def] using r(2) fixed64(2)
    by (intro decodes_poke [OF reads_fixed64, where xs = r])
      (simp_all add: poke_all store_or_le)
  then show ?thesis
    by (simp add: decodes_def PB_DECODERS_def Let_def fixed64(1) lt_def [symmetric] raw_wire_def raw_value_def pb_ltypes)
next
  case bytes
  define b where "b = take (le_val (take 4 r)) (drop 4 r)"
  have l: "4 \<le> n" "le_val (take 4 r) + 4 \<le> n" using size(1) r by (simp_all add: raw_size_def raw_ok_def bytes pb_ltypes)
  then have b: "length b + 4 \<le> n" using r(2) by (simp add: b_def)
  have n: "n < 2 ^ 32" using unat_less_pow(2) [of "data_size f"] by (simp add: n_def)
  have v: "unat (of_nat (length b) :: u32) = length b" using b l n by (simp add: unat_of_nat)
  have a: "unat (ucast (of_nat (length b) :: u32) + 4 :: u64) = length b + 4"
    using b l n v by (simp add: unat_word_ariths unat_ucast_wider)
  have "decodes read content (pb_dec_bytes M f q) (varint (length b) @ b) q n (\<lambda>_. True) (\<lambda>r'. raw_value lt r' = b)"
    unfolding pb_dec_bytes_def [abs_def]
  proof (rule decodes_string [where x = 4 and h = "le_bytes 4 (length b)" and t = "[]"], goal_cases)
    case (5 st m)
    have "\<not> (of_nat (length b) :: u32) > PB_SIZE_MAX" by (simp add: PB_SIZE_MAX_def not_less word_le_nat_alt unat_less_pow less_imp_le)
      (use unat_less_pow(2) [of "of_nat (length b)"] in simp)
    moreover have "\<not> (ucast (of_nat (length b) :: u32) :: u64) > ucast (of_nat (length b) :: u32) + 4"
      using a v by (simp add: word_less_nat_alt unat_ucast_wider)
    moreover have "\<not> (ucast (of_nat (length b) :: u32) + 4 :: u64) > ucast (data_size f)"
      using a b l by (simp add: word_less_nat_alt n_def unat_ucast_wider)
    ultimately show ?case using size(2) v
      by (simp add: value_room_def store_def pb_atypes read_into_def with_stream_def Let_def split: prod.split option.split)
  next
    case (7 r')
    have "length b < 256 ^ 4" using b n by simp
    then have "le_val (le_bytes 4 (length b)) = length b" by (rule le_val_le_bytes)
    then show ?case using 7 b l by (simp add: poke_behind raw_value_def bytes pb_ltypes)
  qed (use b l n in \<open>simp_all add: pb_source_axioms\<close>)
  then show ?thesis
    by (simp add: decodes_def PB_DECODERS_def Let_def bytes lt_def [symmetric] raw_wire_def raw_value_def b_def pb_ltypes)
next
  case string
  let ?b = "takeWhile (\<lambda>b. b \<noteq> 0) r"
  have "0 \<in> set r" using r(1) by (simp add: raw_ok_def string pb_ltypes)
  then obtain xs ys where xs: "r = xs @ 0 # ys" "0 \<notin> set xs" by (metis split_list_first)
  then have "?b = xs" by (subst xs(1), subst takeWhile_append2) auto
  then have "length ?b < length r" by (simp add: xs(1))
  then have b: "length ?b + 1 \<le> n" using r(2) by simp
  have n: "n < 2 ^ 32" using unat_less_pow(2) [of "data_size f"] by (simp add: n_def)
  have v: "unat (of_nat (length ?b) :: u32) = length ?b" "unat (of_nat (length ?b) + 1 :: u32) = length ?b + 1"
    using b n by (simp_all add: unat_of_nat unat_word_ariths)
  have "decodes read content (pb_dec_string M f q) (varint (length ?b) @ ?b) q n (\<lambda>_. True) (\<lambda>r'. raw_value lt r' = ?b)"
    unfolding pb_dec_string_def [abs_def]
  proof (rule decodes_string [where x = 0 and h = "[]" and t = "[0]"], goal_cases)
    case (5 st m)
    have "\<not> (ucast (of_nat (length ?b) + 1 :: u32) :: u64) < ucast (of_nat (length ?b) :: u32)"
      using v by (simp add: word_less_nat_alt unat_ucast_wider)
    moreover have "\<not> (ucast (of_nat (length ?b) + 1 :: u32) :: u64) > ucast (data_size f)"
      using v b by (simp add: word_less_nat_alt n_def unat_ucast_wider)
    ultimately show ?case using size(2) v by (simp add: value_room_def pb_atypes Let_def)
  next
    case (7 r')
    have "takeWhile (\<lambda>b. b \<noteq> 0) (?b @ 0 # drop (length ?b + 1) r') = ?b"
      by (subst takeWhile_append2) (auto dest: set_takeWhileD)
    moreover have "poke (poke r' 0 ?b) (length ?b) [0] = ?b @ [0] @ drop (length ?b + 1) r'"
      using b 7(1) by (subst poke_behind) simp_all
    ultimately show ?case by (simp add: raw_value_def string pb_ltypes)
  qed (use b n in \<open>simp_all add: pb_source_axioms\<close>)
  then show ?thesis
    by (simp add: decodes_def PB_DECODERS_def Let_def string lt_def [symmetric] raw_wire_def raw_value_def pb_ltypes)
next
  case fixed
  have n: "n < 2 ^ 32" using unat_less_pow(2) [of "data_size f"] by (simp add: n_def)
  have v: "(of_nat (length r) :: u32) = data_size f" using r(2) by (simp add: n_def)
  have "decodes read content (pb_dec_fixed_length_bytes f q) (varint (length r) @ r) q n (\<lambda>_. True) (\<lambda>r'. r' = r)"
    unfolding pb_dec_fixed_length_bytes_def [abs_def]
  proof (rule decodes_string [where x = 0 and h = "[]" and t = "[]"], goal_cases)
    case (5 st m)
    have "\<not> data_size f > PB_SIZE_MAX" using unat_less_pow(2) [of "data_size f"] by (simp add: PB_SIZE_MAX_def word_less_nat_alt)
    then show ?case unfolding v using r(2)
      by (simp add: n_def read_into_def with_stream_def pb_read_def unat_eq_zero split: prod.split option.split)
  next
    case (7 r')
    then show ?case using r(2) by (simp add: poke_all)
  qed (use r(2) n in \<open>simp_all add: pb_source_axioms\<close>)
  then show ?thesis
    by (simp add: decodes_def PB_DECODERS_def Let_def fixed lt_def [symmetric] raw_wire_def raw_value_def pb_ltypes)
qed

end

end
