(* ===== verification/Pb_Cleared.thy ===== *)
theory Pb_Cleared
  imports Pb_Image
begin

text \<open>
  The defaults of a plain message clear its image: no optional value is there and no array has
  items, also in its submessages.
\<close>

definition clears_below :: "message_defaults \<Rightarrow> pb_field list \<Rightarrow> bool" where
  "clears_below defaults fs \<longleftrightarrow>
     (\<forall>f gs q n m. f \<in> set fs \<longrightarrow> fld_ptr f = Fields gs \<longrightarrow> fits_plain gs n \<longrightarrow> 0 < q \<longrightarrow> q + n \<le> length m \<longrightarrow>
        inside q n m (defaults gs q m) \<and> clear_image gs (peek (defaults gs q m) q n))"

definition init_data :: "message_defaults \<Rightarrow> pb_field \<Rightarrow> nat \<Rightarrow> bytes \<Rightarrow> bytes" where
  "init_data defaults f pData mem =
     (if PB_LTYPE (fld_type f) = PB_LTYPE_SUBMESSAGE
      then (case fld_ptr f of Fields gs \<Rightarrow> defaults gs pData mem | _ \<Rightarrow> mem)
      else (case fld_ptr f of
              Default d \<Rightarrow> poke mem pData (take (unat (data_size f)) d)
            | _ \<Rightarrow> poke mem pData (replicate (unat (data_size f)) 0)))"

lemma init_data_clear:
  assumes "plain_place f" "plain_field f" "fld_tag f \<noteq> 0" "f \<in> set fs" "clears_below defaults fs"
    "0 < a" "a + unat (data_size f) \<le> length m"
  defines "m' \<equiv> init_data defaults f a m"
  shows "inside a (unat (data_size f)) m m'" "clear_field f (peek m' a (unat (data_size f)))"
    "implicit f \<Longrightarrow> peek m' a (unat (data_size f)) = replicate (unat (data_size f)) 0"
proof -
  have "inside a (unat (data_size f)) m m' \<and> clear_field f (peek m' a (unat (data_size f)))"
  proof (cases "PB_LTYPE (fld_type f) = PB_LTYPE_SUBMESSAGE")
    case True
    obtain gs where gs: "fld_ptr f = Fields gs" "fits_plain gs (unat (data_size f))" by (rule plain_sub [OF assms(2,3) True])
    have "clear_field f r = clear_image gs r" for r by (simp only: field_facts True gs(1) clear_image_def simp_thms)
    then show ?thesis
      using assms(4-7) True gs unfolding clears_below_def m'_def by (simp add: init_data_def)
  next
    case False
    have "inside a (unat (data_size f)) m (poke m a (take (unat (data_size f)) d))" for d by (rule inside_poke) simp_all
    moreover have "inside a (unat (data_size f)) m (poke m a (replicate (unat (data_size f)) 0))" by (rule inside_poke) simp_all
    ultimately show ?thesis using False by (simp add: m'_def init_data_def field_facts split: pb_ptr.split)
  qed
  then show "inside a (unat (data_size f)) m m'" "clear_field f (peek m' a (unat (data_size f)))" by blast+
  show "peek m' a (unat (data_size f)) = replicate (unat (data_size f)) 0" if "implicit f"
  proof -
    have "PB_LTYPE (fld_type f) \<noteq> PB_LTYPE_SUBMESSAGE" "fld_ptr f = Null"
      using that assms(1) by (auto simp: implicit_def plain_place_def pb_htypes split: if_splits)
    then show ?thesis using assms(7) by (simp add: m'_def init_data_def peek_poke)
  qed
qed

lemma iter_data:
  assumes "fits_plain fs n" "k < n_fields fs" "0 < dest"
  shows "it_field (iter_at fs dest k) = fs ! k" "it_pData (iter_at fs dest k) = dest + fst (place fs k)"
    "flag_room j (fs ! k) \<Longrightarrow> it_pSize (iter_at fs dest k) = dest + nat (snd (place fs k))"
    "size_offset (fs ! k) = 0 \<Longrightarrow> it_pSize (iter_at fs dest k) = it_pData (iter_at fs dest k)"
proof -
  note t = fits_plain_facts(2) [OF assms(1)]
  have p: "k < n_places fs" using assms(2) by (simp add: n_places_def)
  show "it_field (iter_at fs dest k) = fs ! k" by (rule iter_place_field [OF t p])
  have d: "it_pData (iter_at fs dest k) = dest + fst (place fs k)"
    "it_pSize (iter_at fs dest k) = nat (int dest + snd (place fs k))"
    using iter_at_data [OF t assms(3) p] by simp_all
  then show "it_pData (iter_at fs dest k) = dest + fst (place fs k)" by simp
  show "it_pSize (iter_at fs dest k) = dest + nat (snd (place fs k))" if "flag_room j (fs ! k)"
    using d place_count_room(1) [OF fits_plain_facts(1) [OF assms(1)] assms(2) that] by (simp add: nat_add_distrib)
  show "it_pSize (iter_at fs dest k) = it_pData (iter_at fs dest k)" if "size_offset (fs ! k) = 0"
    using d place_count [OF fits_plain_facts(1) [OF assms(1)] assms(2)] that by simp
qed

lemma default_field:
  assumes fs: "fits_plain fs n" "k < n_fields fs" and dest: "0 < dest" "dest + n \<le> length m" and sub: "clears_below defaults fs"
  defines "m' \<equiv> pb_field_set_to_default defaults (iter_at fs dest k) m"
  shows "block_changed fs dest k m m'" "clear_place (fs ! k) (clear_field (fs ! k)) (place fs k) (peek m' dest n)"
proof -
  let ?f = "fs ! k" and ?a = "dest + fst (place fs k)" and ?s = "dest + nat (snd (place fs k))"
  let ?d = "unat (data_size ?f)"
  note plain = fits_plain_facts(1) [OF fs(1)]
  note p = plain_place_at [OF plain fs(2)]
  have static: "PB_ATYPE (fld_type ?f) = PB_ATYPE_STATIC" using p by (simp add: plain_place_def)
  have f: "plain_field ?f" "fld_tag ?f \<noteq> 0" "?f \<in> set fs"
    using fits_plain_facts(4) [OF fs(1)] fs(2) field_tag_nz [OF plain fs(2)] by (simp_all add: n_fields_less)
  have ext: "PB_LTYPE (fld_type ?f) \<noteq> PB_LTYPE_EXTENSION" using f(1,2) by (auto simp: field_facts raw_size_def pb_ltypes split: if_splits)
  note iter = iter_data [OF fs dest(1)]
  note def = pb_field_set_to_default_def Let_def iter(1,2) static ext init_data_def
  have data: "fst (place fs k) + field_extent ?f \<le> n" using item_in_image [OF fs, of 0 "field_extent ?f"] by simp
  have "block_changed fs dest k m m' \<and> clear_place ?f (clear_field ?f) (place fs k) (peek m' dest n)"
  proof (cases "PB_HTYPE (fld_type ?f) = PB_HTYPE_REPEATED")
    case True
    note room = plain_repeated [OF p True]
    have m': "m' = store m ?s (0 :: u32)"
      unfolding m'_def using True iter(3) [OF room] by (simp add: def pb_htypes pb_atypes)
    have s: "?s + 4 \<le> length m" using count_in_image [OF fs room] dest by simp
    have "block_changed fs dest k m m'"
      using place_count_room [OF plain fs(2) room] data_in_block [OF plain fs(2)]
      unfolding block_changed_def m' by (intro inside_store) simp_all
    moreover have "(load (peek m' dest n) (nat (snd (place fs k))) :: u32) = 0"
      using count_in_image [OF fs room] s by (simp add: load_image m' load_store)
    ultimately show ?thesis using True by (simp add: clear_place_def Let_def)
  next
    case False
    note single = extent_single [OF p False]
    let ?flag = "PB_HTYPE (fld_type ?f) = PB_HTYPE_OPTIONAL \<and> size_offset ?f \<noteq> 0"
    define m1 where "m1 = (if ?flag then poke m ?s [0] else m)"
    have room: "flag_room 1 ?f" if ?flag using plain_optional [OF p] that by blast
    have m': "m' = init_data defaults ?f ?a m1"
    proof -
      have "PB_HTYPE (fld_type ?f) = PB_HTYPE_OPTIONAL \<and> it_pSize (iter_at fs dest k) \<noteq> it_pData (iter_at fs dest k) \<longleftrightarrow> ?flag"
        "?flag \<Longrightarrow> it_pSize (iter_at fs dest k) = ?s"
        using iter(3,4) room place_count_room(3) [OF plain fs(2), of 1] by (auto simp: iter(2))
      then show ?thesis
        unfolding m'_def m1_def using False plain_not_oneof [OF p] by (cases ?flag) (auto simp: def)
    qed
    have m1: "length m1 = length m" "block_changed fs dest k m m1"
    proof -
      have "length m1 = length m \<and> block_changed fs dest k m m1"
      proof (cases ?flag)
        case True
        have "?s + 1 \<le> length m" using count_in_image [OF fs room [OF True]] dest by simp
        moreover have "block_changed fs dest k m (poke m ?s [0])"
          using place_count_room [OF plain fs(2) room [OF True]] data_in_block [OF plain fs(2)]
          unfolding block_changed_def by (intro inside_poke) simp_all
        ultimately show ?thesis using True by (simp add: m1_def)
      qed (auto simp: m1_def block_changed_def)
      then show "length m1 = length m" "block_changed fs dest k m m1" by blast+
    qed
    have a: "0 < ?a" "?a + ?d \<le> length m1" using dest data single m1(1) by simp_all
    note init = init_data_clear [OF p f(1-3) sub a, folded m']
    have "inside (dest + block_start fs k) (block_length fs k) m1 m'"
      by (rule inside_sub [OF init(1)]) (use data_in_block [OF plain fs(2)] single in simp_all)
    then have "block_changed fs dest k m m'" using m1(2) unfolding block_changed_def by (blast intro: inside_trans)
    moreover have "peek (peek m' dest n) (fst (place fs k)) ?d = peek m' ?a ?d" using data single by simp
    moreover have "peek (peek m' dest n) (nat (snd (place fs k))) 1 = [0]" if ?flag
    proof -
      note r = place_count_room [OF plain fs(2) room [OF that]]
      have "?s + 1 \<le> length m" using count_in_image [OF fs room [OF that]] dest by simp
      then have "peek m1 ?s 1 = [0]" using that by (simp add: m1_def peek_poke)
      moreover have "peek m' ?s 1 = peek m1 ?s 1" using inside_peek [OF init(1) a(2), of ?s 1] r(3) by simp
      ultimately show ?thesis using count_in_image [OF fs room [OF that]] by simp
    qed
    ultimately show ?thesis using False init(2,3) by (simp add: clear_place_def Let_def)
  qed
  then show "block_changed fs dest k m m'" "clear_place ?f (clear_field ?f) (place fs k) (peek m' dest n)" by blast+
qed

lemma defaults_loop_clears:
  assumes fs: "fits_plain fs n" and dest: "0 < dest" and sub: "clears_below defaults fs"
  shows "k < n_fields fs \<Longrightarrow> n_fields fs \<le> k + c \<Longrightarrow> dest + n \<le> length m \<Longrightarrow>
    rest_changed fs dest k m (defaults_loop defaults c (iter_at fs dest k) m) \<and>
    (\<forall>j. k \<le> j \<longrightarrow> j < n_fields fs \<longrightarrow> clear_place (fs ! j) (clear_field (fs ! j)) (place fs j)
       (peek (defaults_loop defaults c (iter_at fs dest k) m) dest n))"
proof (induction c arbitrary: k m)
  case (Suc c)
  note k = Suc.prems(1)
  note t = fits_plain_facts(2) [OF fs]
  note plain = fits_plain_facts(1) [OF fs]
  note size = fits_plain_facts(3) [OF fs]
  let ?m1 = "pb_field_set_to_default defaults (iter_at fs dest k) m"
  let ?m' = "defaults_loop defaults (Suc c) (iter_at fs dest k) m"
  note field = default_field [OF fs k dest Suc.prems(3) sub]
  have l: "dest + n \<le> length ?m1" using block_changed_length [OF plain k size Suc.prems(3) field(1)] Suc.prems(3) by simp
  have rest: "rest_changed fs dest (Suc k) ?m1 ?m' \<and>
      (\<forall>j. Suc k \<le> j \<longrightarrow> j < n_fields fs \<longrightarrow> clear_place (fs ! j) (clear_field (fs ! j)) (place fs j) (peek ?m' dest n))"
  proof (cases "Suc k < n_fields fs")
    case True
    then show ?thesis using Suc.IH [of "Suc k" ?m1] l Suc.prems(2) by (simp add: iter_next [OF t k] Let_def del: iter_at.simps)
  next
    case False
    then show ?thesis by (simp add: iter_next [OF t k] Let_def del: iter_at.simps)
  qed
  have "clear_place (fs ! k) (clear_field (fs ! k)) (place fs k) (peek ?m' dest n)"
    using field(2) clear_block [OF plain k rest_changed_other [OF plain k size l conjunct1 [OF rest]]] by simp
  then show ?case
    using rest rest_changed_next [OF plain k field(1) conjunct1 [OF rest]] by (metis Suc_leI le_neq_implies_less)
qed simp

lemma defaults_clear:
  assumes "fits_plain fs n" "0 < dest" "dest + n \<le> length m"
  shows "inside dest n m (pb_message_set_to_defaults fs dest m) \<and>
    clear_image fs (peek (pb_message_set_to_defaults fs dest m) dest n)"
  using assms
proof (induction "depth fs" arbitrary: fs n dest m rule: less_induct)
  case less
  note t = fits_plain_facts(2) [OF less.prems(1)]
  note plain = fits_plain_facts(1) [OF less.prems(1)]
  have "clears_below pb_message_set_to_defaults fs" unfolding clears_below_def using less.hyps depth_sub by blast
  note loop = defaults_loop_clears [OF less.prems(1,2) this, of 0 "length fs"]
  have unfold: "pb_message_set_to_defaults fs dest m = message_set_to_defaults pb_message_set_to_defaults fs dest m"
    using messages_unfold(1) [OF fits_plain_descriptor [OF less.prems(1)]] by metis
  show ?case
  proof (cases "n_fields fs = 0")
    case True
    then have "fld_tag (fs ! 0) = 0" using terminated_nth [OF t, of 0] by simp
    then show ?thesis unfolding unfold by (simp add: message_set_to_defaults_def pb_field_iter_begin_def Let_def message_facts True)
  next
    case False
    then have "fld_tag (fs ! 0) \<noteq> 0" using terminated_nth [OF t, of 0] by simp
    then have "pb_field_iter_begin fs dest = (True, iter_at fs dest 0)" by (simp add: pb_field_iter_begin_def Let_def)
    then have eq: "pb_message_set_to_defaults fs dest m = defaults_loop pb_message_set_to_defaults (length fs) (iter_at fs dest 0) m"
      unfolding unfold by (simp add: message_set_to_defaults_def del: iter_at.simps)
    from loop [of m] False less.prems(3) show ?thesis
      unfolding eq message_facts(4) using rest_changed_all [OF plain fits_plain_facts(3) [OF less.prems(1)]]
      by (simp add: n_fields_def del: iter_at.simps)
  qed
qed

end
