(* ===== verification/Pb_Total.thy ===== *)
theory Pb_Total
  imports Pb_Nested
begin

text \<open>
  The loops over the input end. No function of the decoder makes its stream longer, and a tag or an
  entry of a packed array takes at least a byte; so the turns that the loops are given are enough,
  and the loops are the \<open>while\<close> loops of the code.
\<close>

section \<open>Readers\<close>

lemma left_error [simp]: "bytes_left (snd (PB_RETURN_ERROR msg st)) = bytes_left st"
  by (simp add: PB_RETURN_ERROR_def)

lemma left_and_then:
  assumes "bytes_left (snd r) \<le> n" "\<And>a st. r = (Some a, st) \<Longrightarrow> bytes_left st \<le> n \<Longrightarrow> bytes_left (snd (k a st)) \<le> n"
  shows "bytes_left (snd (and_then r k)) \<le> n"
  using assms by (cases r; cases "fst r") auto

lemma left_pb_read [simp]: "bytes_left (snd (pb_read n st)) \<le> bytes_left st"
  by (simp add: pb_read_def Let_def split: prod.split)

lemma left_readbyte [simp]: "bytes_left (snd (pb_readbyte st)) \<le> bytes_left st"
  by (simp add: pb_readbyte_def Let_def split: prod.split)

lemma left_skip_chunks [simp]: "bytes_left (snd (skip_chunks n st)) \<le> bytes_left st"
proof (induction n arbitrary: st rule: less_induct)
  case (less n)
  have "bytes_left (snd (and_then (pb_read 16 st) (\<lambda>tmp st. skip_chunks (n - 16) st))) \<le> bytes_left st" if "n > 16"
    using less [of "n - 16"] that by (intro left_and_then) (auto intro: order_trans)
  then show ?case by (subst skip_chunks.simps) (simp add: done_with_def)
qed

lemma left_read_null [simp]: "bytes_left (snd (pb_read_null n st)) \<le> bytes_left st"
  by (simp add: pb_read_null_def done_with_def)

lemma left_varint32_loop [simp]: "bytes_left (snd (varint32_loop bitpos result st)) \<le> bytes_left st"
proof (induction bitpos result st rule: varint32_loop.induct)
  case (1 bitpos result st)
  obtain r st' where r: "pb_readbyte st = (r, st')" "bytes_left st' \<le> bytes_left st"
    using left_readbyte [of st] by (metis prod.collapse)
  show ?case
  proof (cases r)
    case (Some b)
    with 1 [OF r(1) [symmetric] Some] r show ?thesis by (subst varint32_loop.simps) (auto simp: Let_def intro: order_trans [OF _ r(2)])
  qed (use r in \<open>subst varint32_loop.simps, simp\<close>)
qed

lemma left_varint_loop [simp]: "bytes_left (snd (varint_loop bitpos result st)) \<le> bytes_left st"
proof (induction bitpos result st rule: varint_loop.induct)
  case (1 bitpos result st)
  obtain r st' where r: "pb_readbyte st = (r, st')" "bytes_left st' \<le> bytes_left st"
    using left_readbyte [of st] by (metis prod.collapse)
  show ?case
  proof (cases r)
    case (Some b)
    with 1 [OF _ r(1) [symmetric] Some] r show ?thesis by (subst varint_loop.simps) (auto simp: Let_def intro: order_trans [OF _ r(2)])
  qed (use r in \<open>subst varint_loop.simps, simp\<close>)
qed

lemma left_varint32_eof [simp]: "bytes_left (snd (snd (pb_decode_varint32_eof st))) \<le> bytes_left st"
proof -
  obtain r st' where r: "pb_readbyte st = (r, st')" "bytes_left st' \<le> bytes_left st"
    using left_readbyte [of st] by (metis prod.collapse)
  then show ?thesis
    by (cases r) (auto simp: pb_decode_varint32_eof_def intro: order_trans [OF left_varint32_loop r(2)])
qed

lemma left_varint32 [simp]: "bytes_left (snd (pb_decode_varint32 st)) \<le> bytes_left st"
  by (simp add: pb_decode_varint32_def)

lemma left_numbers [simp]:
  "bytes_left (snd (pb_decode_varint st)) \<le> bytes_left st"
  "bytes_left (snd (pb_decode_svarint st)) \<le> bytes_left st"
  "bytes_left (snd (pb_decode_fixed32 st)) \<le> bytes_left st"
  "bytes_left (snd (pb_decode_fixed64 st)) \<le> bytes_left st"
  by (simp_all add: pb_decode_varint_def pb_decode_svarint_def pb_decode_fixed32_def pb_decode_fixed64_def left_and_then)

lemma left_tag [simp]: "bytes_left (snd (snd (pb_decode_tag st))) \<le> bytes_left st"
  using left_varint32_eof [of st] by (auto simp: pb_decode_tag_def simp del: left_varint32_eof split: prod.splits option.splits)

lemma left_skip_varint [simp]: "bytes_left (snd (pb_skip_varint st)) \<le> bytes_left st"
proof (induction st rule: pb_skip_varint.induct)
  case (1 st)
  obtain r st' where r: "pb_read 1 st = (r, st')" "bytes_left st' \<le> bytes_left st"
    using left_pb_read [of 1 st] by (metis prod.collapse)
  show ?case
  proof (cases r)
    case (Some b)
    with 1 [OF r(1) [symmetric] Some] r show ?thesis by (subst pb_skip_varint.simps) (auto intro: order_trans [OF _ r(2)])
  qed (use r in \<open>subst pb_skip_varint.simps, simp\<close>)
qed

lemma left_skip_field [simp]: "bytes_left (snd (pb_skip_field wt st)) \<le> bytes_left st"
  by (auto simp: pb_skip_field_def pb_skip_string_def intro!: left_and_then intro: order_trans [OF left_read_null])

lemma left_make_substream [simp]: "bytes_left (snd (pb_make_string_substream st)) \<le> bytes_left st"
  by (auto simp: pb_make_string_substream_def intro!: left_and_then)

lemma left_close [simp]: "bytes_left (snd (pb_close_string_substream st sub)) = bytes_left st"
  by (simp add: pb_close_string_substream_def split: prod.split option.split)

text \<open>A successful read of a number takes a byte.\<close>

lemma readbyte_takes: "fst (pb_readbyte st) \<noteq> None \<Longrightarrow> bytes_left (snd (pb_readbyte st)) < bytes_left st"
  by (cases "pb_readbyte st") auto

lemma varint_takes: "fst (pb_decode_varint st) \<noteq> None \<Longrightarrow> bytes_left (snd (pb_decode_varint st)) < bytes_left st"
proof -
  assume ok: "fst (pb_decode_varint st) \<noteq> None"
  obtain r st' where r: "pb_readbyte st = (r, st')" by force
  from ok obtain b where b: "r = Some b" using r by (cases r) (auto simp: pb_decode_varint_def varint_loop.simps [of 0])
  then have "bytes_left st' < bytes_left st" using r by simp
  then show ?thesis using r b
    by (auto simp: pb_decode_varint_def varint_loop.simps [of 0] Let_def intro: le_less_trans [OF left_varint_loop])
qed

lemma varint32_eof_takes:
  "fst (snd (pb_decode_varint32_eof st)) \<noteq> None \<Longrightarrow> bytes_left (snd (snd (pb_decode_varint32_eof st))) < bytes_left st"
proof -
  assume ok: "fst (snd (pb_decode_varint32_eof st)) \<noteq> None"
  obtain r st' where r: "pb_readbyte st = (r, st')" by force
  from ok obtain b where b: "r = Some b" using r by (cases r) (auto simp: pb_decode_varint32_eof_def)
  then have "bytes_left st' < bytes_left st" using r by simp
  then show ?thesis using r b
    by (auto simp: pb_decode_varint32_eof_def intro: le_less_trans [OF left_varint32_loop])
qed

lemma tag_takes: "fst (snd (pb_decode_tag st)) \<noteq> None \<Longrightarrow> bytes_left (snd (snd (pb_decode_tag st))) < bytes_left st"
  using varint32_eof_takes [of st] by (auto simp: pb_decode_tag_def split: prod.splits option.splits if_splits)

section \<open>Values\<close>

lemma byte_le_5: "(b :: byte) \<le> 5 \<Longrightarrow> b = 0 \<or> b = 1 \<or> b = 2 \<or> b = 3 \<or> b = 4 \<or> b = 5"
proof -
  assume "b \<le> 5"
  then have "unat b \<in> {0, 1, 2, 3, 4, 5}" by (auto simp: word_le_nat_alt)
  then show ?thesis by (auto simp: word_unat_eq_iff)
qed

abbreviation left_of :: "bool \<times> 's dstate \<Rightarrow> nat" where
  "left_of r \<equiv> bytes_left (fst (snd r))"

lemma left_dec_error [simp]: "bytes_left (fst (snd (dec_error msg s))) = bytes_left (fst s)"
  by (simp add: dec_error_def)

lemma left_with_stream:
  assumes "\<And>st. bytes_left (snd (f st)) \<le> bytes_left st"
    "\<And>x s'. f (fst s) = (Some x, fst s') \<Longrightarrow> bytes_left (fst s') \<le> bytes_left (fst s) \<Longrightarrow> snd s' = snd s \<Longrightarrow> left_of (k x s') \<le> n"
    "bytes_left (fst s) \<le> n"
  shows "left_of (with_stream f s k) \<le> n"
proof -
  obtain r st where f: "f (fst s) = (r, st)" by force
  then have "bytes_left st \<le> bytes_left (fst s)" using assms(1) [of "fst s"] by simp
  with assms(2) [of _ "(st, snd s)"] assms(3) f show ?thesis by (auto simp: with_stream_def split: option.split)
qed

lemma left_store_checked [simp]: "left_of (store_checked same a v s) = bytes_left (fst s)"
  by (simp add: store_checked_def Let_def)

lemma left_store_signed [simp]: "left_of (store_signed f a v s) = bytes_left (fst s)"
  by (simp add: store_signed_def)

lemma left_read_into [simp]: "left_of (read_into a n s) \<le> bytes_left (fst s)"
  unfolding read_into_def by (rule left_with_stream) simp_all

lemma left_allocate [simp]: "left_of (allocate_field M a n k s) = bytes_left (fst s)"
  by (simp add: allocate_field_def Let_def split: option.split)

lemma left_value_room:
  assumes "\<And>a s'. bytes_left (fst s') \<le> bytes_left (fst s) \<Longrightarrow> left_of (k a s') \<le> bytes_left (fst s)"
  shows "left_of (value_room M msg f dest n sz s k) \<le> bytes_left (fst s)"
proof -
  obtain ok s' where a: "allocate_field M dest sz 1 s = (ok, s')" by (metis surj_pair)
  then have "bytes_left (fst s') = bytes_left (fst s)" using left_allocate [of M dest sz 1 s] by simp
  then show ?thesis using assms a by (cases ok) (simp_all add: value_room_def)
qed

lemma left_bytes: "left_of (pb_dec_bytes M f a s) \<le> bytes_left (fst s)"
  unfolding pb_dec_bytes_def
  by (rule left_with_stream) (auto simp: Let_def intro!: order_trans [OF left_value_room] order_trans [OF left_read_into])

lemma left_string: "left_of (pb_dec_string M f a s) \<le> bytes_left (fst s)"
proof -
  have "left_of (case read_into dest n s of (status, st, mem) \<Rightarrow> (status, st, poke mem (dest + n) [0])) \<le> bytes_left (fst s)"
    for dest n and s :: "'a dstate"
    using left_read_into [of dest n s] by (simp add: prod.case_eq_if)
  then show ?thesis
    unfolding pb_dec_string_def Let_def
    by (intro left_with_stream) (auto intro!: order_trans [OF left_value_room] elim: order_trans [rotated])
qed

lemma left_in_substream:
  assumes "\<And>sub s'. bytes_left (fst s') \<le> bytes_left (fst s) \<Longrightarrow>
    case work sub s' of Inl (_, _, s'') \<Rightarrow> bytes_left (fst s'') \<le> bytes_left (fst s) | Inr s'' \<Rightarrow> bytes_left (fst s'') \<le> bytes_left (fst s)"
  shows "left_of (in_substream s work) \<le> bytes_left (fst s)"
  unfolding in_substream_def
proof (rule left_with_stream)
  fix sub and s' :: "'a dstate"
  assume "bytes_left (fst s') \<le> bytes_left (fst s)"
  from assms [OF this, of sub]
  show "left_of (case work sub s' of Inr s \<Rightarrow> (False, s)
       | Inl (substream, status, s) \<Rightarrow>
           (case pb_close_string_substream (fst s) substream of
              (None, st) \<Rightarrow> (False, st, snd s)
            | (Some _, st) \<Rightarrow> (status, st, snd s))) \<le> bytes_left (fst s)"
    using left_close by (fastforce split: sum.splits prod.splits option.splits dest: arg_cong [where f = snd])
qed simp_all

lemma left_submessage: "left_of (pb_dec_submessage M noinit f a s) \<le> bytes_left (fst s)"
  unfolding pb_dec_submessage_def
  by (rule left_in_substream) (auto split: pb_ptr.split prod.split)

lemma left_decoders: "left_of (PB_DECODERS M noinit f a s) \<le> bytes_left (fst s)"
proof -
  have "left_of (pb_dec_bool a s) \<le> bytes_left (fst s)" "left_of (pb_dec_varint f a s) \<le> bytes_left (fst s)"
    "left_of (pb_dec_uvarint f a s) \<le> bytes_left (fst s)" "left_of (pb_dec_svarint f a s) \<le> bytes_left (fst s)"
    "left_of (pb_dec_fixed32 a s) \<le> bytes_left (fst s)" "left_of (pb_dec_fixed64 a s) \<le> bytes_left (fst s)"
    "left_of (pb_dec_fixed_length_bytes f a s) \<le> bytes_left (fst s)"
    unfolding pb_dec_bool_def pb_dec_varint_def pb_dec_uvarint_def pb_dec_svarint_def pb_dec_fixed32_def
      pb_dec_fixed64_def pb_dec_fixed_length_bytes_def
    by (rule left_with_stream; simp add: Let_def; auto intro: order_trans [OF left_read_into])+
  then show ?thesis by (simp add: PB_DECODERS_def Let_def left_bytes left_string left_submessage)
qed

text \<open>An entry of a packed array takes a byte.\<close>

lemma takes_with_stream:
  assumes "fst (with_stream f s k)" "fst (f (fst s)) \<noteq> None \<Longrightarrow> bytes_left (snd (f (fst s))) < bytes_left (fst s)"
    "\<And>x s'. left_of (k x s') \<le> bytes_left (fst s')"
  shows "left_of (with_stream f s k) < bytes_left (fst s)"
proof -
  obtain r st where f: "f (fst s) = (r, st)" by force
  with assms(1) obtain x where r: "r = Some x" by (cases r) (auto simp: with_stream_def)
  then have "bytes_left st < bytes_left (fst s)" using assms(2) f by simp
  then show ?thesis using assms(3) [of x "(st, snd s)"] f r by (simp add: with_stream_def)
qed

lemma varint32_takes: "fst (pb_decode_varint32 st) \<noteq> None \<Longrightarrow> bytes_left (snd (pb_decode_varint32 st)) < bytes_left st"
  using varint32_eof_takes [of st] by (simp add: pb_decode_varint32_def)

lemma and_then_takes:
  assumes "fst (and_then r k) \<noteq> None" "fst r \<noteq> None \<Longrightarrow> bytes_left (snd r) < n"
    "\<And>a st. bytes_left (snd (k a st)) = bytes_left st"
  shows "bytes_left (snd (and_then r k)) < n"
  using assms by (cases r; cases "fst r") auto

lemma read_takes: "0 < n \<Longrightarrow> fst (pb_read n st) \<noteq> None \<Longrightarrow> bytes_left (snd (pb_read n st)) < bytes_left st"
  by (cases "pb_read n st") (auto dest: pb_read_left)

lemma numbers_take:
  "fst (pb_decode_svarint st) \<noteq> None \<Longrightarrow> bytes_left (snd (pb_decode_svarint st)) < bytes_left st"
  "fst (pb_decode_fixed32 st) \<noteq> None \<Longrightarrow> bytes_left (snd (pb_decode_fixed32 st)) < bytes_left st"
  "fst (pb_decode_fixed64 st) \<noteq> None \<Longrightarrow> bytes_left (snd (pb_decode_fixed64 st)) < bytes_left st"
  unfolding pb_decode_svarint_def pb_decode_fixed32_def pb_decode_fixed64_def
  by (erule and_then_takes; simp add: varint_takes read_takes)+

lemma packable_takes:
  assumes "PB_LTYPE (fld_type f) \<le> PB_LTYPE_LAST_PACKABLE" "fst (PB_DECODERS M noinit f a s)"
  shows "left_of (PB_DECODERS M noinit f a s) < bytes_left (fst s)"
proof -
  have "fst (pb_dec_bool a s) \<Longrightarrow> left_of (pb_dec_bool a s) < bytes_left (fst s)"
    "fst (pb_dec_varint f a s) \<Longrightarrow> left_of (pb_dec_varint f a s) < bytes_left (fst s)"
    "fst (pb_dec_uvarint f a s) \<Longrightarrow> left_of (pb_dec_uvarint f a s) < bytes_left (fst s)"
    "fst (pb_dec_svarint f a s) \<Longrightarrow> left_of (pb_dec_svarint f a s) < bytes_left (fst s)"
    "fst (pb_dec_fixed32 a s) \<Longrightarrow> left_of (pb_dec_fixed32 a s) < bytes_left (fst s)"
    "fst (pb_dec_fixed64 a s) \<Longrightarrow> left_of (pb_dec_fixed64 a s) < bytes_left (fst s)"
    unfolding pb_dec_bool_def pb_dec_varint_def pb_dec_uvarint_def pb_dec_svarint_def pb_dec_fixed32_def pb_dec_fixed64_def
    by (erule takes_with_stream; simp add: varint32_takes varint_takes numbers_take Let_def)+
  moreover have "PB_LTYPE (fld_type f) \<in> {PB_LTYPE_BOOL, PB_LTYPE_VARINT, PB_LTYPE_UVARINT, PB_LTYPE_SVARINT,
      PB_LTYPE_FIXED32, PB_LTYPE_FIXED64}"
    using assms(1) byte_le_5 by (simp add: pb_ltypes)
  ultimately show ?thesis using assms(2) by (auto simp: PB_DECODERS_def Let_def pb_ltypes)
qed

section \<open>Loops over arrays\<close>

lemma packed_loop_enough:
  assumes "PB_LTYPE (fld_type (it_field iter)) \<le> PB_LTYPE_LAST_PACKABLE"
  shows "bytes_left (fst s) \<le> m \<Longrightarrow> bytes_left (fst s) \<le> n \<Longrightarrow>
    packed_loop M noinit iter loc m s = packed_loop M noinit iter loc n s"
proof (induction m arbitrary: n s)
  case 0
  then show ?case by (cases n; cases s) (simp_all add: Let_def)
next
  case (Suc m)
  obtain sub mem local where s: "s = (sub, mem, local)" using prod_cases3 by blast
  show ?case
  proof (cases n)
    case 0
    then show ?thesis using Suc.prems s by (simp add: Let_def)
  next
    case (Suc n')
    let ?n = "get_count loc mem local" and ?f = "it_field iter"
    let ?d = "PB_DECODERS M noinit ?f (it_pData iter + unat (data_size ?f * ?n)) (sub, mem)"
    obtain ok sub' mem' where d: "?d = (ok, sub', mem')" using prod_cases3 by blast
    have "packed_loop M noinit iter loc m (sub', x) = packed_loop M noinit iter loc n' (sub', x)" if ok for x
    proof (rule Suc.IH)
      have "bytes_left sub' < bytes_left sub"
        using packable_takes [OF assms, of M noinit "it_pData iter + unat (data_size ?f * ?n)" "(sub, mem)"] d that by simp
      then show "bytes_left (fst (sub', x)) \<le> m" "bytes_left (fst (sub', x)) \<le> n'"
        using Suc.prems s Suc by simp_all
    qed
    then show ?thesis unfolding Suc packed_loop.simps s prod.case Let_def d by (cases ok) simp_all
  qed
qed

text \<open>A turn of the loop over a growing array ends it, or goes on with fewer bytes.\<close>

lemma pointer_loop_turn:
  assumes "PB_LTYPE (fld_type (it_field iter)) \<le> PB_LTYPE_LAST_PACKABLE"
  obtains (ends) ok st' x where "\<And>n. pointer_loop M noinit iter loc (Suc n) allocated s = (ok, st', x)"
      "bytes_left st' = bytes_left (fst s)"
    | (goes) al sub' x where "\<And>n. pointer_loop M noinit iter loc (Suc n) allocated s =
        pointer_loop M noinit iter loc n al (fst s, sub', x)" "bytes_left sub' < bytes_left (fst (snd s))"
proof -
  obtain st sub mem local where s: "s = (st, sub, mem, local)" using prod_cases4 by blast
  let ?f = "it_field iter" and ?n = "get_count loc mem local"
  let ?grow = "ucast ?n + 1 > allocated"
  let ?remain = "of_nat ((bytes_left sub - 1) div unat (data_size ?f) + 1) :: u64"
  define al where "al = (if ?grow then (if ?remain < ucast PB_SIZE_MAX - allocated then allocated + ?remain else allocated + 1)
    else allocated)"
  let ?a = "if ?grow then allocate_field M (it_pData iter) (ucast (data_size ?f)) al (sub, mem) else (True, sub, mem)"
  obtain ok1 sub1 mem1 where a: "?a = (ok1, sub1, mem1)" using prod_cases3 by blast
  have sub1: "bytes_left sub1 = bytes_left sub"
    using a left_allocate [of M "it_pData iter" "ucast (data_size ?f)" al "(sub, mem)"]
    by (metis fst_conv snd_conv)
  define p where "p = load_pointer mem1 (it_pData iter) + unat (data_size ?f * get_count loc mem1 local)"
  obtain ok2 sub2 mem2 where d: "PB_DECODERS M noinit ?f p (sub1, initialize_pointer_field p ?f mem1) = (ok2, sub2, mem2)"
    using prod_cases3 by blast
  have step: "pointer_loop M noinit iter loc (Suc n) allocated s =
      (if bytes_left sub = 0 then (True, st, sub, mem, local)
       else if ?n = PB_SIZE_MAX then (False, st\<lparr>is_errmsg := Some ''too many array entries''\<rparr>, sub, mem, local)
       else if \<not> ok1 then (False, st, sub1, mem1, local)
       else if p = 0 then (False, st, sub1, mem1, local)
       else if \<not> ok2 then (False, st, sub2, mem2, local)
       else pointer_loop M noinit iter loc n al (st, sub2, set_count loc (get_count loc mem2 local + 1) mem2 local))" for n
    unfolding s pointer_loop.simps prod.case Let_def al_def [symmetric] a
    by (cases ok1; cases ok2) (simp_all only: bool.case prod.case p_def [symmetric] d simp_thms if_True if_False)
  have less: "ok2 \<Longrightarrow> bytes_left sub2 < bytes_left sub"
    using packable_takes [OF assms, of M noinit p "(sub1, initialize_pointer_field p ?f mem1)"] d sub1 by simp
  show ?thesis
  proof (cases "bytes_left sub = 0 \<or> ?n = PB_SIZE_MAX \<or> \<not> ok1 \<or> p = 0 \<or> \<not> ok2")
    case False
    then show ?thesis using step less s by (intro goes) simp_all
  next
    case True
    then consider "bytes_left sub = 0" | "bytes_left sub \<noteq> 0" "?n = PB_SIZE_MAX"
      | "bytes_left sub \<noteq> 0" "?n \<noteq> PB_SIZE_MAX" "\<not> ok1 \<or> p = 0" | "bytes_left sub \<noteq> 0" "?n \<noteq> PB_SIZE_MAX" "ok1" "p \<noteq> 0" "\<not> ok2"
      by metis
    then show ?thesis
      by cases (rule ends, use step s in \<open>force+\<close>)+
  qed
qed

lemma pointer_loop_enough:
  assumes "PB_LTYPE (fld_type (it_field iter)) \<le> PB_LTYPE_LAST_PACKABLE"
  shows "bytes_left (fst (snd s)) \<le> m \<Longrightarrow> bytes_left (fst (snd s)) \<le> n \<Longrightarrow>
    pointer_loop M noinit iter loc m allocated s = pointer_loop M noinit iter loc n allocated s"
proof (induction m arbitrary: n s allocated)
  case 0
  then show ?case by (cases n; cases s) (auto simp: Let_def)
next
  case (Suc m)
  show ?case
  proof (cases n)
    case 0
    then show ?thesis using Suc.prems by (cases s) (simp add: Let_def)
  next
    case n: (Suc n')
    from assms show ?thesis
    proof (cases rule: pointer_loop_turn [where M = M and noinit = noinit and loc = loc and allocated = allocated and s = s])
      case (ends ok st' x)
      then show ?thesis by (simp only: n)
    next
      case (goes al sub' x)
      then show ?thesis using Suc.IH [of "(fst s, sub', x)" n' al] Suc.prems n by (simp del: pointer_loop.simps)
    qed
  qed
qed

lemma left_pointer_loop:
  assumes "PB_LTYPE (fld_type (it_field iter)) \<le> PB_LTYPE_LAST_PACKABLE"
  shows "bytes_left (fst (snd (pointer_loop M noinit iter loc n allocated s))) = bytes_left (fst s)"
proof (induction n arbitrary: allocated s)
  case (Suc n)
  from assms show ?case
  proof (cases rule: pointer_loop_turn [where M = M and noinit = noinit and loc = loc and allocated = allocated and s = s])
    case (goes al sub' x)
    then show ?thesis using Suc.IH [of al "(fst s, sub', x)"] by (simp del: pointer_loop.simps)
  qed (simp del: pointer_loop.simps)
qed simp

section \<open>Fields and messages\<close>

lemma left_lift [simp]: "fst (snd (lift_local local r)) = fst (snd r)"
  by (simp add: lift_local_def)

lemma left_closeD: "pb_close_string_substream st sub = (r, st') \<Longrightarrow> bytes_left st' = bytes_left st"
  using left_close [of st sub] by simp

lemma left_decoders_at: "left_of (PB_DECODERS M noinit f a (st, m)) \<le> bytes_left st"
  using left_decoders [of M noinit f a "(st, m)"] by simp

lemma left_static_field: "bytes_left (fst (snd (decode_static_field M noinit wt iter loc s))) \<le> bytes_left (fst s)"
proof -
  obtain st mem local where s: "s = (st, mem, local)" using prod_cases3 by blast
  obtain r st1 where r: "pb_make_string_substream st = (r, st1)" "bytes_left st1 \<le> bytes_left st"
    using left_make_substream [of st] by (metis prod.collapse)
  consider (single) "PB_HTYPE (fld_type (it_field iter)) \<noteq> PB_HTYPE_REPEATED"
    | (packed) "PB_HTYPE (fld_type (it_field iter)) = PB_HTYPE_REPEATED"
        "wt = PB_WT_STRING \<and> PB_LTYPE (fld_type (it_field iter)) \<le> PB_LTYPE_LAST_PACKABLE"
    | (item) "PB_HTYPE (fld_type (it_field iter)) = PB_HTYPE_REPEATED"
        "\<not> (wt = PB_WT_STRING \<and> PB_LTYPE (fld_type (it_field iter)) \<le> PB_LTYPE_LAST_PACKABLE)" by blast
  then show ?thesis
  proof cases
    case single
    then show ?thesis by (simp add: decode_static_field_def s Let_def left_decoders_at)
  next
    case packed
    show ?thesis
    proof (cases r)
      case (Some sub)
      obtain status sub' m' local' where l: "packed_loop M noinit iter loc (bytes_left sub) (sub, mem, local) =
          (status, sub', m', local')" by (metis prod_cases4)
      obtain c st2 where c: "pb_close_string_substream st1 sub' = (c, st2)" by force
      then show ?thesis using packed r Some l left_closeD [OF c]
        by (cases c) (auto simp: decode_static_field_def s Let_def pb_htypes)
    qed (use packed r in \<open>simp add: decode_static_field_def s Let_def pb_htypes\<close>)
  next
    case item
    obtain m' local' where "set_count loc (get_count loc mem local + 1) mem local = (m', local')" by force
    then show ?thesis using item by (auto simp: decode_static_field_def s Let_def pb_htypes left_decoders_at)
  qed
qed

lemma left_pointer_single: "left_of (decode_pointer_single M noinit iter s) \<le> bytes_left (fst s)"
proof -
  obtain st mem where s: "s = (st, mem)" by force
  let ?f = "it_field iter" and ?p = "it_pData iter"
  have "left_of (case allocate_field M ?p (ucast (data_size ?f)) 1 (st, m) of (False, s) \<Rightarrow> (False, s)
      | (True, st, mem) \<Rightarrow> (let mem = initialize_pointer_field (load_pointer mem ?p) ?f mem
                           in PB_DECODERS M noinit ?f (load_pointer mem ?p) (st, mem))) \<le> bytes_left st" for m
  proof -
    obtain ok st' m' where a: "allocate_field M ?p (ucast (data_size ?f)) 1 (st, m) = (ok, st', m')" using prod_cases3 by blast
    then have "bytes_left st' = bytes_left st" using left_allocate [of M ?p "ucast (data_size ?f)" 1 "(st, m)"] by simp
    then show ?thesis using a left_decoders_at [of M noinit ?f _ st'] by (cases ok) (simp_all add: Let_def)
  qed
  then show ?thesis by (simp only: decode_pointer_single_def s prod.case Let_def fst_conv) (simp add: left_decoders_at)
qed

lemma left_pointer_field: "bytes_left (fst (snd (decode_pointer_field M noinit wt iter loc s))) \<le> bytes_left (fst s)"
proof -
  obtain st mem local where s: "s = (st, mem, local)" using prod_cases3 by blast
  obtain r st1 where r: "pb_make_string_substream st = (r, st1)" "bytes_left st1 \<le> bytes_left st"
    using left_make_substream [of st] by (metis prod.collapse)
  obtain ok st2 m2 where a: "allocate_field M (it_pData iter) (ucast (data_size (it_field iter)))
      (ucast (get_count loc mem local + 1)) (st, mem) = (ok, st2, m2)" using prod_cases3 by blast
  then have st2: "bytes_left st2 = bytes_left st"
    using left_allocate [of M "it_pData iter" "ucast (data_size (it_field iter))"
        "ucast (get_count loc mem local + 1)" "(st, mem)"] by simp
  have single: "left_of (decode_pointer_single M noinit iter (st, mem)) \<le> bytes_left st"
    using left_pointer_single [of M noinit iter "(st, mem)"] by simp
  show ?thesis
  proof (cases "PB_HTYPE (fld_type (it_field iter)) = PB_HTYPE_REPEATED \<and> wt = PB_WT_STRING \<and>
      PB_LTYPE (fld_type (it_field iter)) \<le> PB_LTYPE_LAST_PACKABLE")
    case packed: True
    then show ?thesis
    proof (cases r)
      case (Some sub)
      obtain status st3 sub' m' local' where l: "pointer_loop M noinit iter loc (bytes_left sub)
          (ucast (get_count loc mem local)) (st1, sub, mem, local) = (status, st3, sub', m', local')" by (metis prod_cases4)
      then have "bytes_left st3 = bytes_left st1"
        using packed left_pointer_loop [of iter M noinit loc "bytes_left sub" "ucast (get_count loc mem local)" "(st1, sub, mem, local)"]
        by simp
      then show ?thesis using packed r Some l
        by (auto simp: decode_pointer_field_def s Let_def pb_htypes dest!: left_closeD split: option.split prod.split)
    qed (use r in \<open>simp add: decode_pointer_field_def s Let_def pb_htypes\<close>)
  next
    case False
    then show ?thesis
      using a st2 single r left_decoders_at [of M noinit "it_field iter" _ st2] htype_cases [of "fld_type (it_field iter)"]
      by (cases ok) (auto simp: decode_pointer_field_def s Let_def lift_local_def split: prod.split)
  qed
qed

lemma left_skip: "left_of (with_stream (pb_skip_field wt) s (\<lambda>_ s. (True, s))) \<le> bytes_left (fst s)"
  by (rule left_with_stream) simp_all

lemma left_union: "bytes_left (fst (snd (snd (pb_release_union_field M iter s)))) = bytes_left (fst s)"
  by (simp add: pb_release_union_field_def Let_def split: prod.split bool.split)

lemma left_decode_field: "bytes_left (fst (snd (snd (decode_field M noinit wt fixed iter s)))) \<le> bytes_left (fst s)"
proof -
  obtain st mem local where s: "s = (st, mem, local)" using prod_cases3 by blast
  obtain ok iter' st' mem' where u: "(if PB_HTYPE (fld_type (it_field iter)) = PB_HTYPE_ONEOF
      then pb_release_union_field M iter (st, mem) else (True, iter, st, mem)) = (ok, iter', st', mem')" by (metis prod_cases4)
  then have st': "bytes_left st' = bytes_left st"
    using left_union [of M iter "(st, mem)"] by (auto split: if_splits)
  let ?loc = "if fixed then None else Some (it_pSize iter')"
  have "bytes_left (fst (snd (decode_callback_field wt (st', mem', local)))) \<le> bytes_left st"
    using left_skip [of wt "(st', mem')"] st' by (simp add: decode_callback_field_def)
  moreover have "bytes_left (fst (snd (decode_static_field M noinit wt iter' ?loc (st', mem', local)))) \<le> bytes_left st"
    "bytes_left (fst (snd (decode_pointer_field M noinit wt iter' ?loc (st', mem', local)))) \<le> bytes_left st"
    using left_static_field [of M noinit wt iter' ?loc "(st', mem', local)"]
      left_pointer_field [of M noinit wt iter' ?loc "(st', mem', local)"] st' by simp_all
  ultimately show ?thesis
    unfolding decode_field_def s prod.case u Let_def
    by (cases ok) (simp_all add: prod.case_eq_if st')
qed

lemma left_unknown_field: "bytes_left (fst (snd (snd (unknown_field wt tag l s)))) \<le> bytes_left (fst s)"
  using left_skip [of wt s] by (simp add: unknown_field_def Let_def prod.case_eq_if)

lemma left_known_field: "bytes_left (fst (snd (snd (known_field M noinit wt l s)))) \<le> bytes_left (fst s)"
proof -
  have "bytes_left (fst (snd (snd (decode_field M noinit wt fixed iter (fst s, snd s, n))))) \<le> bytes_left (fst s)" for fixed iter n
    using left_decode_field [of M noinit wt fixed iter "(fst s, snd s, n)"] by simp
  then show ?thesis unfolding known_field_def Let_def by (simp add: prod.case_eq_if)
qed

text \<open>A turn that goes on takes a byte, and so \<open>fields_loop\<close> is the \<open>while\<close> loop of \<open>pb_decode_noinit\<close>.\<close>

lemma turn_takes:
  assumes "decode_turn M noinit l s = (Go, l', s')"
  shows "bytes_left (fst s') < bytes_left (fst s)"
proof -
  obtain eof r st where t: "pb_decode_tag (fst s) = (eof, r, st)" using prod_cases3 by blast
  obtain wt tag where r: "r = Some (wt, tag)" using assms t by (cases r) (auto simp: decode_turn_def split: if_splits)
  then have st: "bytes_left st < bytes_left (fst s)" using tag_takes [of "fst s"] t by simp
  obtain found iter where "pb_field_iter_find (dl_iter l) tag = (found, iter)" by force
  then have "bytes_left (fst s') \<le> bytes_left st"
    using assms t r left_unknown_field [of wt tag "l\<lparr>dl_iter := iter\<rparr>" "(st, snd s)"]
      left_known_field [of M noinit wt "l\<lparr>dl_iter := iter\<rparr>" "(st, snd s)"]
    by (cases found) (simp_all add: decode_turn_def)
  with st show ?thesis by simp
qed

lemma fields_loop_enough:
  "bytes_left (fst s) \<le> m \<Longrightarrow> bytes_left (fst s) \<le> n \<Longrightarrow> fields_loop M noinit m l s = fields_loop M noinit n l s"
proof (induction m arbitrary: n l s)
  case 0
  then show ?case by (cases n) simp_all
next
  case (Suc m)
  show ?case
  proof (cases n)
    case (Suc n')
    obtain t l' s' where turn: "decode_turn M noinit l s = (t, l', s')" using prod_cases3 by blast
    have "fields_loop M noinit m l' s' = fields_loop M noinit n' l' s'" if "t = Go"
      using turn_takes [of M noinit l s] turn that Suc Suc.prems by (intro Suc.IH) auto
    then show ?thesis using turn Suc by (cases t) simp_all
  qed (use Suc.prems in simp)
qed

lemma fields_loop_while:
  "fields_loop M noinit (bytes_left (fst s)) l s =
     (if bytes_left (fst s) = 0 then (Stop, l, s)
      else (case decode_turn M noinit l s of
              (Go, l, s) \<Rightarrow> fields_loop M noinit (bytes_left (fst s)) l s
            | r \<Rightarrow> r))"
proof (cases "bytes_left (fst s)")
  case (Suc n)
  obtain t l' s' where turn: "decode_turn M noinit l s = (t, l', s')" using prod_cases3 by blast
  have "fields_loop M noinit n l' s' = fields_loop M noinit (bytes_left (fst s')) l' s'" if "t = Go"
    using turn_takes [of M noinit l s] turn that Suc by (intro fields_loop_enough) auto
  then show ?thesis using turn Suc by (cases t) simp_all
qed simp

text \<open>The stream of a message is not longer afterwards.\<close>

lemma left_fields_loop: "bytes_left (fst (snd (snd (fields_loop M noinit n l s)))) \<le> bytes_left (fst s)"
proof (induction n arbitrary: l s)
  case (Suc n)
  obtain eof r st where t: "pb_decode_tag (fst s) = (eof, r, st)" using prod_cases3 by blast
  then have st: "bytes_left st \<le> bytes_left (fst s)" using left_tag [of "fst s"] by simp
  obtain u l' s' where turn: "decode_turn M noinit l s = (u, l', s')" using prod_cases3 by blast
  have "bytes_left (fst s') \<le> bytes_left (fst s)"
  proof (cases r)
    case (Some x)
    obtain wt tag where x: "x = (wt, tag)" by force
    obtain found iter where "pb_field_iter_find (dl_iter l) tag = (found, iter)" by force
    then show ?thesis using turn t Some x st left_unknown_field [of wt tag "l\<lparr>dl_iter := iter\<rparr>" "(st, snd s)"]
        left_known_field [of M noinit wt "l\<lparr>dl_iter := iter\<rparr>" "(st, snd s)"]
      by (cases found) (simp_all add: decode_turn_def)
  qed (use turn t st in \<open>auto simp: decode_turn_def\<close>)
  then show ?case using Suc.IH [of l' s'] turn by (cases u) (auto intro: order_trans)
qed simp

end
