(* ===== verification/Pb_Decoded.thy ===== *)
theory Pb_Decoded
  imports Pb_Read_Value Pb_Cleared Pb_Total
begin

text \<open>
  The decoder reads the format: on the format of a value it fills a cleared struct so that it holds
  the value. The loop of \<open>pb_decode_noinit\<close> goes over the fields of the format one after the other;
  \<open>leads\<close> says that a state of the loop leads to another.
\<close>

section \<open>Submessages\<close>

definition decodes_all ::
  "('s \<Rightarrow> nat \<Rightarrow> bool \<times> bytes \<times> 's) \<Rightarrow> ('s \<Rightarrow> bytes) \<Rightarrow> ('s dstate \<Rightarrow> bool \<times> 's dstate) \<Rightarrow> bytes \<Rightarrow>
   nat \<Rightarrow> nat \<Rightarrow> (bytes \<Rightarrow> bool) \<Rightarrow> (bytes \<Rightarrow> bool) \<Rightarrow> bool" where
  "decodes_all read content dec w q n pre post \<longleftrightarrow>
     (\<forall>st m. good_input read content st \<longrightarrow> input content st = w \<longrightarrow> q + n \<le> length m \<longrightarrow> pre (peek m q n) \<longrightarrow>
        (\<exists>st' m'. dec (st, m) = (True, st', m') \<and> advanced content st w st' \<and> inside q n m m' \<and> post (peek m' q n)))"

text \<open>What the decoder of submessages has to do for the message \<open>fs\<close>.\<close>

definition decodes_below ::
  "('s \<Rightarrow> nat \<Rightarrow> bool \<times> bytes \<times> 's) \<Rightarrow> ('s \<Rightarrow> bytes) \<Rightarrow> 's message_decoder \<Rightarrow> pb_field list \<Rightarrow> bool" where
  "decodes_below read content noinit fs \<longleftrightarrow>
     (\<forall>f gs q n r. f \<in> set fs \<longrightarrow> fld_ptr f = Fields gs \<longrightarrow> fits_plain gs n \<longrightarrow> 0 < q \<longrightarrow> image_ok gs r \<longrightarrow>
        length (message_wire gs (message_value gs r)) < 2 ^ 32 \<longrightarrow>
        decodes_all read content (noinit gs q) (message_wire gs (message_value gs r)) q n (clear_image gs)
          (\<lambda>r'. message_value gs r' = message_value gs r))"

lemma decodes_all_init:
  assumes "decodes_all read content (noinit fs q) w q n (clear_image fs) post" "fits_plain fs n" "0 < q"
  shows "decodes_all read content (decode_init M noinit fs q) w q n (\<lambda>_. True) post"
  unfolding decodes_all_def
proof (intro allI impI)
  fix st and m :: bytes
  assume st: "good_input read content st" "input content st = w" "q + n \<le> length m"
  let ?m = "pb_message_set_to_defaults fs q m"
  have m: "inside q n m ?m" "clear_image fs (peek ?m q n)" using defaults_clear [OF assms(2,3) st(3)] by blast+
  have "q + n \<le> length ?m" using inside_length [OF m(1) st(3)] st(3) by simp
  then obtain st' m' where r: "noinit fs q (st, ?m) = (True, st', m')" "advanced content st w st'" "inside q n ?m m'"
      "post (peek m' q n)"
    using assms(1) st(1,2) m(2) unfolding decodes_all_def by blast
  then show "\<exists>st' m'. decode_init M noinit fs q (st, m) = (True, st', m') \<and> advanced content st w st' \<and>
      inside q n m m' \<and> post (peek m' q n)"
    using inside_trans [OF m(1) r(3)] by (simp add: decode_init_def)
qed

context pb_source
begin

lemma decodes_submessage:
  assumes "fld_ptr f = Fields gs" "length w < 2 ^ 32"
    "decodes_all read content ((if PB_HTYPE (fld_type f) = PB_HTYPE_REPEATED then decode_init M noinit else noinit) gs q) w q n pre post"
  shows "decodes read content (pb_dec_submessage M noinit f q) (varint (length w) @ w) q n pre post"
  unfolding decodes_def
proof (intro allI impI)
  fix st m
  assume st: "good_input read content st" "prefix (varint (length w) @ w) (input content st)" "q + n \<le> length m" "pre (peek m q n)"
  let ?dec = "(if PB_HTYPE (fld_type f) = PB_HTYPE_REPEATED then decode_init M noinit else noinit) gs q"
  show "\<exists>st' m'. pb_dec_submessage M noinit f q (st, m) = (True, st', m') \<and>
      advanced content st (varint (length w) @ w) st' \<and> inside q n m m' \<and> post (peek m' q n)"
  proof (rule substream [OF is_length_varint [OF assms(2)] st(1,2)], goal_cases)
    case (1 sub st1)
    obtain sub' m' where r: "?dec (sub, m) = (True, sub', m')" "advanced content sub w sub'" "inside q n m m'" "post (peek m' q n)"
      using assms(3) 1(2,3) st(3,4) unfolding decodes_all_def by blast
    obtain st2 where "pb_close_string_substream st1 sub' = (Some (), st2)" "advanced content st (varint (length w) @ w) st2"
      using 1(6) [OF r(2)] by blast
    then show ?case
      using r 1(1) by (simp add: pb_dec_submessage_def in_substream_def with_stream_def assms(1))
  qed
qed

text \<open>A value of any type.\<close>

lemma decodes_value:
  assumes f: "plain_field f" "fld_tag f \<noteq> 0" "PB_ATYPE (fld_type f) = PB_ATYPE_STATIC" "f \<in> set fs"
    and r: "image_ok_field f r" "length r = unat (data_size f)" "length (field_wire f (field_value f r)) < 2 ^ 32"
    and sub: "decodes_below read content noinit fs" and "0 < q"
  shows "decodes read content (PB_DECODERS M noinit f q) (field_wire f (field_value f r)) q (unat (data_size f))
    (\<lambda>r'. PB_HTYPE (fld_type f) = PB_HTYPE_REPEATED \<or> clear_field f r') (\<lambda>r'. field_value f r' = field_value f r)"
proof (cases "PB_LTYPE (fld_type f) = PB_LTYPE_SUBMESSAGE")
  case True
  let ?repeated = "PB_HTYPE (fld_type f) = PB_HTYPE_REPEATED" and ?n = "unat (data_size f)"
  obtain gs where gs: "fld_ptr f = Fields gs" "fits_plain gs ?n" by (rule plain_sub [OF f(1,2) True])
  let ?w = "message_wire gs (message_value gs r)"
  have facts: "field_wire f (field_value f r) = varint (length ?w) @ ?w" "image_ok_field f r = image_ok gs r"
    "field_value f r' = Message (message_value gs r')" "clear_field f r' = clear_image gs r'" for r'
    by (simp_all only: field_facts True gs(1) message_value_def message_wire_def image_ok_def clear_image_def
        if_True simp_thms pb_value.case)
  have w: "length ?w < 2 ^ 32" using r(3) unfolding facts(1) by simp
  have all: "decodes_all read content (noinit gs q) ?w q ?n (clear_image gs) (\<lambda>r'. message_value gs r' = message_value gs r)"
    using sub f(4) gs r(1) w assms(9) unfolding decodes_below_def facts by blast
  have "decodes_all read content ((if ?repeated then decode_init M noinit else noinit) gs q) ?w q ?n
      (\<lambda>r'. ?repeated \<or> clear_image gs r') (\<lambda>r'. message_value gs r' = message_value gs r)"
    using all decodes_all_init [where noinit = noinit and fs = gs and q = q and M = M, OF all gs(2) assms(9)] by (cases ?repeated) simp_all
  from decodes_submessage [OF gs(1) w this]
  have "decodes read content (pb_dec_submessage M noinit f q) (varint (length ?w) @ ?w) q ?n
      (\<lambda>r'. ?repeated \<or> clear_image gs r') (\<lambda>r'. message_value gs r' = message_value gs r)" .
  then show ?thesis unfolding facts(1) unfolding facts(3,4) by (simp add: decodes_def PB_DECODERS_def Let_def True pb_ltypes)
next
  case False
  have "raw_size (PB_LTYPE (fld_type f)) (unat (data_size f))" using f(1,2) False by (simp add: field_facts)
  moreover have "raw_ok (PB_LTYPE (fld_type f)) r" using r(1) False by (simp add: field_facts)
  ultimately have "decodes read content (PB_DECODERS M noinit f q)
      (raw_wire (PB_LTYPE (fld_type f)) (raw_value (PB_LTYPE (fld_type f)) r)) q (unat (data_size f)) (\<lambda>_. True)
      (\<lambda>r'. raw_value (PB_LTYPE (fld_type f)) r' = raw_value (PB_LTYPE (fld_type f)) r)"
    using f(3) r(2) by (intro decodes_raw)
  then show ?thesis using False by (simp add: field_facts decodes_def)
qed

section \<open>Turns\<close>

lemma tag_number: "unat (fld_tag f) < 2 ^ 29 \<Longrightarrow> unat wt < 8 \<Longrightarrow> is_length (tag_wire f wt) (unat (fld_tag f) * 8 + unat wt)"
  unfolding tag_wire_def by (rule is_length_varint) simp

lemma find_tag:
  assumes "fits_plain fs n" "k < n_fields fs" "j < n_places fs"
  shows "pb_field_iter_find (iter_at fs dest j) (fld_tag (fs ! k)) = (True, iter_at fs dest k)"
proof -
  note plain = fits_plain_facts(1) [OF assms(1)]
  have places: "n_places fs = n_fields fs" using assms(2) by (simp add: n_places_def)
  have ext: "PB_LTYPE (fld_type (fs ! k)) \<noteq> PB_LTYPE_EXTENSION"
    using fits_plain_facts(4) [OF assms(1), of k] field_tag_nz [OF plain assms(2)] assms(2)
    by (auto simp: n_fields_less field_facts raw_size_def pb_ltypes split: if_splits)
  obtain k' where k': "k' < n_places fs"
    "pb_field_iter_find (iter_at fs dest j) (fld_tag (fs ! k)) =
       (\<exists>i < n_places fs. fld_tag (fs ! i) = fld_tag (fs ! k) \<and> PB_LTYPE (fld_type (fs ! i)) \<noteq> PB_LTYPE_EXTENSION, iter_at fs dest k')"
    "if \<exists>i < n_places fs. fld_tag (fs ! i) = fld_tag (fs ! k) \<and> PB_LTYPE (fld_type (fs ! i)) \<noteq> PB_LTYPE_EXTENSION
     then fld_tag (fs ! k') = fld_tag (fs ! k) \<and> PB_LTYPE (fld_type (fs ! k')) \<noteq> PB_LTYPE_EXTENSION else k' = j"
    by (rule pb_field_iter_find_at [OF fits_plain_facts(2) [OF assms(1)] assms(3)])
  have ex: "\<exists>i < n_places fs. fld_tag (fs ! i) = fld_tag (fs ! k) \<and> PB_LTYPE (fld_type (fs ! i)) \<noteq> PB_LTYPE_EXTENSION"
    using ext assms(2) places by (intro exI [of _ k]) simp
  then have "fld_tag (fs ! k') = fld_tag (fs ! k)" using k'(3) by presburger
  moreover have "distinct (map fld_tag fs)" using plain by (simp add: plain_fields_def)
  ultimately have "k' = k"
    using k'(1) assms(2) places by (simp add: distinct_conv_nth n_fields_less) (metis n_fields_less nth_map)
  then show ?thesis using k'(2) ex by simp
qed

text \<open>A turn of the loop on the tag of a field decodes the field.\<close>

lemma turn_static:
  assumes fs: "fits_plain fs n" "k < n_fields fs" and dest: "0 < dest" and l: "on_field fs dest l"
    and st: "good_input read content st" "prefix (tag_wire (fs ! k) wt) (input content st)" and wt: "unat wt < 8"
  obtains st1 where "advanced content st (tag_wire (fs ! k) wt) st1"
    "\<And>m ok st' m' c. decode_static_field M noinit wt (iter_at fs dest k) (Some (it_pSize (iter_at fs dest k)))
       (st1, m, fixed_count_size l) = (ok, st', m', c) \<Longrightarrow>
     decode_turn M noinit l (st, m) = (if ok then Go else Fail,
       l\<lparr>dl_iter := iter_at fs dest k, fields_seen := see_required (iter_at fs dest k) (fields_seen l), fixed_count_size := c\<rparr>, st', m')"
proof -
  let ?f = "fs ! k" and ?iter = "iter_at fs dest k"
  note plain = fits_plain_facts(1) [OF fs(1)]
  note p = plain_place_at [OF plain fs(2)]
  have tag: "unat (fld_tag ?f) < 2 ^ 29" "PB_ATYPE (fld_type ?f) = PB_ATYPE_STATIC" using plain_tag [OF p] p by (simp_all add: plain_place_def)
  have "0 < unat (fld_tag ?f) * 8 + unat wt" using field_tag_nz [OF plain fs(2)] by (simp add: unat_gt_0)
  note reads = reads_tag [OF tag_number [OF tag(1) wt] wt this]
  obtain st1 where 1: "snd (pb_decode_tag st) = (Some (wt, fld_tag ?f), st1)" "advanced content st (tag_wire ?f wt) st1"
    using readsD [OF reads(1) st] by blast
  obtain j where j: "j < n_places fs" "dl_iter l = iter_at fs dest j" using l by (auto simp: on_field_def)
  have find: "pb_field_iter_find (dl_iter l) (fld_tag ?f) = (True, ?iter)" unfolding j(2) by (rule find_tag [OF fs j(1)])
  have f: "it_field ?iter = ?f" by (rule iter_data(1) [OF fs dest])
  have fixed: "\<not> (PB_HTYPE (fld_type ?f) = PB_HTYPE_REPEATED \<and> it_pSize ?iter = it_pData ?iter)"
    using iter_data(2,3) [OF fs dest] place_count_room(3) [OF plain fs(2)] plain_repeated [OF p] by force
  show ?thesis
  proof (rule that [OF 1(2)])
    fix m ok st' m' c
    assume s: "decode_static_field M noinit wt ?iter (Some (it_pSize ?iter)) (st1, m, fixed_count_size l) = (ok, st', m', c)"
    have "decode_field M noinit wt False ?iter (st1, m, fixed_count_size l) = (ok, ?iter, st', m', c)"
      using plain_not_oneof [OF p] tag(2) s by (simp add: decode_field_def f Let_def)
    then have "known_field M noinit wt (l\<lparr>dl_iter := ?iter\<rparr>) (st1, m) = (if ok then Go else Fail,
       l\<lparr>dl_iter := ?iter, fields_seen := see_required ?iter (fields_seen l), fixed_count_size := c\<rparr>, st', m')"
      using fixed by (auto simp: known_field_def Let_def f simp del: iter_at.simps)
    moreover have "decode_turn M noinit l (st, m) = known_field M noinit wt (l\<lparr>dl_iter := ?iter\<rparr>) (st1, m)"
      using 1(1) find by (cases "pb_decode_tag st") (simp add: decode_turn_def del: iter_at.simps)
    ultimately show "decode_turn M noinit l (st, m) = (if ok then Go else Fail,
       l\<lparr>dl_iter := ?iter, fields_seen := see_required ?iter (fields_seen l), fixed_count_size := c\<rparr>, st', m')" by simp
  qed
qed

end

section \<open>The required fields\<close>

definition required_before :: "pb_field list \<Rightarrow> nat \<Rightarrow> nat" where
  "required_before fs k = length (filter (\<lambda>f. PB_HTYPE (fld_type f) = PB_HTYPE_REQUIRED) (take k fs))"

text \<open>The bits of the first \<open>r\<close> required fields.\<close>

definition seen_first :: "nat \<Rightarrow> u32 list" where
  "seen_first r = [mask (min r 32), mask (min (r - 32) 32)]"

lemma required_before_Suc:
  "k < length fs \<Longrightarrow> required_before fs (Suc k) =
    required_before fs k + (if PB_HTYPE (fld_type (fs ! k)) = PB_HTYPE_REQUIRED then 1 else 0)"
  by (simp add: required_before_def take_Suc_conv_app_nth)

lemma required_index:
  assumes "plain_fields fs" "k < n_fields fs"
  shows "required_field_index (iter_at fs dest k) = required_before fs k"
  using assms(2)
proof (induction k)
  case 0
  then show ?case by (simp add: required_before_def pb_field_iter_begin_def Let_def)
next
  case (Suc k)
  have t: "terminated fs" using assms(1) by (simp add: plain_fields_def)
  have k: "k < n_fields fs" using Suc.prems by simp
  have "fld_tag (fs ! k) \<noteq> 0" "fld_tag (fs ! Suc k) \<noteq> 0"
    using field_tag_nz [OF assms(1) k] field_tag_nz [OF assms(1) Suc.prems] by simp_all
  moreover have "it_pos (iter_at fs dest k) = k" by (rule iter_at_pos [OF t k])
  moreover have "PB_HTYPE (fld_type (fs ! k)) \<noteq> PB_HTYPE_ONEOF" by (rule plain_not_oneof [OF plain_place_at [OF assms(1) k]])
  ultimately show ?case
    using Suc.IH [OF k] k by (simp add: pb_field_iter_next_def Let_def it_field_def required_before_Suc n_fields_less)
qed

lemma mask_Suc_or: "mask n OR push_bit n 1 = (mask (Suc n) :: 'a :: len word)"
  by (rule bit_word_eqI) (auto simp: bit_simps less_Suc_eq)

lemma see_required_first:
  assumes "plain_fields fs" "k < n_fields fs" "it_field (iter_at fs dest k) = fs ! k"
  shows "see_required (iter_at fs dest k) (seen_first (required_before fs k)) = seen_first (required_before fs (Suc k))"
proof -
  let ?r = "required_before fs k"
  have "(seen_first ?r)[?r div 32 := seen_first ?r ! (?r div 32) OR push_bit (?r mod 32) 1] = seen_first (Suc ?r)" if "?r < 64"
  proof (cases "?r < 32")
    case True
    then have "min ?r 32 = ?r" "min (Suc ?r) 32 = Suc ?r" "?r - 32 = 0" "Suc ?r - 32 = 0" by simp_all
    with True show ?thesis using mask_Suc_or [of ?r, where 'a = 32] by (simp only: seen_first_def) simp
  next
    case False
    then have "?r div 32 = 1" "?r mod 32 = ?r - 32" "min ?r 32 = 32" "min (Suc ?r) 32 = 32"
      "min (?r - 32) 32 = ?r - 32" "min (Suc ?r - 32) 32 = Suc (?r - 32)" using that by (simp_all add: mod_if div_if)
    then show ?thesis using mask_Suc_or [of "?r - 32", where 'a = 32] by (simp only: seen_first_def) simp
  qed
  moreover have "seen_first (Suc ?r) = seen_first ?r" if "64 \<le> ?r" using that by (simp add: seen_first_def)
  ultimately show ?thesis
    using required_before_Suc [OF n_fields_less [OF assms(2)]] required_index [OF assms(1,2), of dest] assms(3)
    by (simp add: see_required_def Let_def PB_MAX_REQUIRED_FIELDS_def)
qed

lemma seek_end_at:
  assumes "terminated fs" "k < n_fields fs" "n_fields fs \<le> k + c"
  shows "seek_end c (iter_at fs dest k) =
    (let j = n_fields fs - 1 in (required_field_index (iter_at fs dest j), fld_type (fs ! j), iter_at fs dest 0))"
  using assms(2,3)
proof (induction c arbitrary: k)
  case (Suc c)
  show ?case
  proof (cases "Suc k < n_fields fs")
    case True
    then show ?thesis using Suc.IH [of "Suc k"] Suc.prems by (simp add: iter_next [OF assms(1)] del: iter_at.simps)
  next
    case False
    then have "n_fields fs - 1 = k" using Suc.prems by simp
    then show ?thesis using False Suc.prems(1) by (simp add: iter_next [OF assms(1)] assms(1) Let_def del: iter_at.simps)
  qed
qed simp

lemma req_field_count_plain:
  assumes "plain_fields fs" "on_field fs dest l"
  shows "req_field_count (dl_iter l) = min 64 (required_before fs (n_fields fs))"
proof -
  have t: "terminated fs" using assms(1) by (simp add: plain_fields_def)
  obtain k where k: "k < n_places fs" "dl_iter l = iter_at fs dest k" using assms(2) by (auto simp: on_field_def)
  show ?thesis
  proof (cases "n_fields fs = 0")
    case True
    then have k0: "k = 0" using k(1) by (simp add: n_places_def)
    have len: "length fs = Suc 0" using t True by (cases fs) (auto simp: terminated_def n_fields_def)
    have "fld_tag (fs ! 0) = 0" using terminated_nth [OF t, of 0] True by simp
    then show ?thesis
      by (simp add: k(2) k0 req_field_count_def len pb_field_iter_next_def it_field_def pb_field_iter_begin_def Let_def
          required_before_def True PB_MAX_REQUIRED_FIELDS_def)
  next
    case False
    let ?j = "n_fields fs - 1"
    have j: "?j < n_fields fs" "Suc ?j = n_fields fs" using False by simp_all
    have kn: "k < n_fields fs" using k(1) False by (simp add: n_places_def)
    have tag: "fld_tag (it_field (iter_at fs dest 0)) \<noteq> 0"
      using field_tag_nz [OF assms(1), of 0] False iter_at_field [OF t, of 0 dest] by simp
    have "seek_end (length fs) (iter_at fs dest k) = (required_before fs ?j, fld_type (fs ! ?j), iter_at fs dest 0)"
      using seek_end_at [OF t kn, of "length fs" dest] required_index [OF assms(1) j(1), of dest] by (simp add: n_fields_def Let_def)
    moreover have "required_before fs (n_fields fs) =
        required_before fs ?j + (if PB_HTYPE (fld_type (fs ! ?j)) = PB_HTYPE_REQUIRED then 1 else 0)"
      using required_before_Suc [OF n_fields_less [OF j(1)]] j(2) by simp
    ultimately show ?thesis
      unfolding req_field_count_def k(2) using tag
      by (simp add: Let_def PB_MAX_REQUIRED_FIELDS_def min_def del: iter_at.simps)
  qed
qed

lemma all_seen_first: "all_seen (min 64 r) (seen_first r)"
proof -
  have full: "mask 32 = (0xffffffff :: u32)" by (simp add: mask_eq_exp_minus_1)
  have part: "drop_bit (32 - n) (0xffffffff :: u32) = mask n" if "n < 32" for n
    unfolding full [symmetric] by (rule bit_word_eqI) (use that in \<open>auto simp: bit_simps\<close>)
  consider "r < 32" | "32 \<le> r" "r < 64" | "64 \<le> r" by linarith
  then show ?thesis
  proof cases
    case 1
    then show ?thesis by (simp add: all_seen_def seen_first_def part)
  next
    case 2
    then have "r div 32 = 1" "r mod 32 = r - 32" by (simp_all add: mod_if div_if)
    then show ?thesis using 2 part [of "r - 32"] by (simp add: all_seen_def seen_first_def full)
  next
    case 3
    have "[0..<2] = [0, 1 :: nat]" by (simp add: upt_rec)
    with 3 show ?thesis by (simp add: all_seen_def seen_first_def full)
  qed
qed

section \<open>Fields\<close>

definition leads :: "pb_malloc \<Rightarrow> 's message_decoder \<Rightarrow> dec_loop \<Rightarrow> 's dstate \<Rightarrow> dec_loop \<Rightarrow> 's dstate \<Rightarrow> bool" where
  "leads M noinit l s l' s' \<longleftrightarrow>
     fields_loop M noinit (bytes_left (fst s)) l s = fields_loop M noinit (bytes_left (fst s')) l' s'"

lemma leads_refl [simp]: "leads M noinit l s l s"
  by (simp add: leads_def)

lemma leads_trans: "leads M noinit l s l' s' \<Longrightarrow> leads M noinit l' s' l'' s'' \<Longrightarrow> leads M noinit l s l'' s''"
  by (simp add: leads_def)

lemma leads_turn:
  assumes "decode_turn M noinit l s = (Go, l', s')" "bytes_left (fst s) \<noteq> 0"
  shows "leads M noinit l s l' s'"
  using fields_loop_while [of M noinit s l] assms by (simp add: leads_def)

definition at_field :: "pb_field list \<Rightarrow> nat \<Rightarrow> nat \<Rightarrow> dec_loop \<Rightarrow> bool" where
  "at_field fs dest k l \<longleftrightarrow>
     on_field fs dest l \<and> fields_seen l = seen_first (required_before fs k) \<and> fixed_count_field l = None"

lemma at_field_skip:
  assumes "k < n_fields fs" "PB_HTYPE (fld_type (fs ! k)) \<noteq> PB_HTYPE_REQUIRED"
  shows "at_field fs dest (Suc k) l = at_field fs dest k l"
  using assms by (simp add: at_field_def required_before_Suc n_fields_less)

context pb_source
begin

lemma turn_leads:
  assumes fs: "fits_plain fs n" "k < n_fields fs" and dest: "0 < dest" and l: "at_field fs dest k l"
    and st: "good_input read content st" "prefix (tag_wire (fs ! k) wt @ w) (input content st)" and wt: "unat wt < 8"
    and field: "\<And>st1. good_input read content st1 \<Longrightarrow> prefix w (input content st1) \<Longrightarrow>
      \<exists>st' m' c. decode_static_field M noinit wt (iter_at fs dest k) (Some (it_pSize (iter_at fs dest k)))
        (st1, m, fixed_count_size l) = (True, st', m', c) \<and> advanced content st1 w st' \<and> Q m'"
  shows "\<exists>l' st' m'. leads M noinit l (st, m) l' (st', m') \<and> at_field fs dest (Suc k) l' \<and>
    advanced content st (tag_wire (fs ! k) wt @ w) st' \<and> Q m'"
proof -
  have l': "on_field fs dest l" "fields_seen l = seen_first (required_before fs k)" "fixed_count_field l = None"
    using l by (simp_all add: at_field_def)
  have t: "prefix (tag_wire (fs ! k) wt) (input content st)" using st(2) by (meson append_prefixD)
  obtain st1 where st1: "advanced content st (tag_wire (fs ! k) wt) st1"
    and turn: "\<And>m ok st' m' c. decode_static_field M noinit wt (iter_at fs dest k) (Some (it_pSize (iter_at fs dest k)))
       (st1, m, fixed_count_size l) = (ok, st', m', c) \<Longrightarrow>
     decode_turn M noinit l (st, m) = (if ok then Go else Fail,
       l\<lparr>dl_iter := iter_at fs dest k, fields_seen := see_required (iter_at fs dest k) (fields_seen l), fixed_count_size := c\<rparr>, st', m')"
    using turn_static [OF fs dest l'(1) st(1) t wt, of M noinit] by metis
  have "prefix w (input content st1)" using st(2) advanced_input [OF st1] by simp
  then obtain st' m' c where d: "decode_static_field M noinit wt (iter_at fs dest k) (Some (it_pSize (iter_at fs dest k)))
      (st1, m, fixed_count_size l) = (True, st', m', c)" "advanced content st1 w st'" "Q m'"
    using field advanced_good [OF st(1) st1] by blast
  let ?l = "l\<lparr>dl_iter := iter_at fs dest k, fields_seen := see_required (iter_at fs dest k) (fields_seen l), fixed_count_size := c\<rparr>"
  have "decode_turn M noinit l (st, m) = (Go, ?l, st', m')" using turn [OF d(1)] by simp
  moreover have "bytes_left st \<noteq> 0"
  proof
    assume "bytes_left st = 0"
    then have "tag_wire (fs ! k) wt = []" using st1 by (simp add: advanced_def)
    then show False by (simp add: tag_wire_def)
  qed
  ultimately have "leads M noinit l (st, m) ?l (st', m')" by (intro leads_turn) simp_all
  moreover have "at_field fs dest (Suc k) ?l"
    using l' see_required_first [OF fits_plain_facts(1) [OF fs(1)] fs(2) iter_data(1) [OF fs dest]] fs(2)
    by (auto simp: at_field_def on_field_def n_places_def simp del: iter_at.simps)
  ultimately show ?thesis using advanced_trans [OF st1 d(2)] d(3) by blast
qed

lemma step_single:
  assumes fs: "fits_plain fs n" "k < n_fields fs" and dest: "0 < dest" "dest + n \<le> length m"
    and sub: "decodes_below read content noinit fs" and single: "PB_HTYPE (fld_type (fs ! k)) \<noteq> PB_HTYPE_REPEATED"
    and r: "image_ok_field (fs ! k) r" "length r = unat (data_size (fs ! k))"
      "length (field_wire (fs ! k) (field_value (fs ! k) r)) < 2 ^ 32"
    and l: "at_field fs dest k l" and st: "good_input read content st"
    and clear: "clear_place (fs ! k) (clear_field (fs ! k)) (place fs k) (peek m dest n)"
  defines "w \<equiv> tag_wire (fs ! k) (wire_type (PB_LTYPE (fld_type (fs ! k)))) @ field_wire (fs ! k) (field_value (fs ! k) r)"
  assumes w: "prefix w (input content st)"
  shows "\<exists>l' st' m'. leads M noinit l (st, m) l' (st', m') \<and> at_field fs dest (Suc k) l' \<and> advanced content st w st' \<and>
    block_changed fs dest k m m' \<and> held (fs ! k) (field_value (fs ! k)) (place fs k) (peek m' dest n) = [field_value (fs ! k) r]"
  unfolding w_def
proof (rule turn_leads [OF fs dest(1) l st w [unfolded w_def]])
  show "unat (wire_type (PB_LTYPE (fld_type (fs ! k)))) < 8" by (simp add: wire_type_def wire_types)
  fix st1
  assume st1: "good_input read content st1" "prefix (field_wire (fs ! k) (field_value (fs ! k) r)) (input content st1)"
  let ?f = "fs ! k" and ?iter = "iter_at fs dest k" and ?q = "dest + fst (place fs k)" and ?s = "dest + nat (snd (place fs k))"
  let ?d = "unat (data_size ?f)" and ?flag = "PB_HTYPE (fld_type ?f) = PB_HTYPE_OPTIONAL \<and> size_offset ?f \<noteq> 0"
  note plain = fits_plain_facts(1) [OF fs(1)]
  note p = plain_place_at [OF plain fs(2)]
  note iter = iter_data [OF fs dest(1)]
  note extent = extent_single [OF p single]
  have f: "plain_field ?f" "fld_tag ?f \<noteq> 0" "?f \<in> set fs"
    using fits_plain_facts(4) [OF fs(1)] fs(2) field_tag_nz [OF plain fs(2)] by (simp_all add: n_fields_less)
  have static: "PB_ATYPE (fld_type ?f) = PB_ATYPE_STATIC" using p by (simp add: plain_place_def)
  have data: "fst (place fs k) + ?d \<le> n" using item_in_image [OF fs, of 0 ?d] extent by simp
  define m1 where "m1 = (if ?flag then poke m ?s [1] else m)"
  have room: "flag_room 1 ?f" if ?flag using plain_optional [OF p] that by blast
  note s = count_in_image [OF fs room] place_count_room [OF plain fs(2) room]
  have m1: "length m1 = length m" "block_changed fs dest k m m1" "peek m1 ?q ?d = peek m ?q ?d"
  proof -
    have "length m1 = length m \<and> block_changed fs dest k m m1 \<and> peek m1 ?q ?d = peek m ?q ?d"
    proof (cases ?flag)
      case True
      have "?s + 1 \<le> length m" using s(1) [OF True] dest by simp
      moreover have "block_changed fs dest k m (poke m ?s [1])"
        using s [OF True] data_in_block [OF plain fs(2)] unfolding block_changed_def by (intro inside_poke) simp_all
      ultimately show ?thesis using True s(4) [OF True] by (simp add: m1_def poke_peek_apart)
    qed (auto simp: m1_def block_changed_def)
    then show "length m1 = length m" "block_changed fs dest k m m1" "peek m1 ?q ?d = peek m ?q ?d" by blast+
  qed
  have "clear_field ?f (peek m ?q ?d)" using clear single data by (simp add: clear_place_def Let_def)
  then have "clear_field ?f (peek m1 ?q ?d)" by (simp add: m1(3))
  moreover have "?q + ?d \<le> length m1" using data dest m1(1) by simp
  moreover have "0 < ?q" using dest by simp
  ultimately obtain st' m' where d: "PB_DECODERS M noinit ?f ?q (st1, m1) = (True, st', m')"
      "advanced content st1 (field_wire ?f (field_value ?f r)) st'" "inside ?q ?d m1 m'" "field_value ?f (peek m' ?q ?d) = field_value ?f r"
    using decodesD [OF decodes_value [OF f(1,2) static f(3) r sub] st1] by metis
  have "inside (dest + block_start fs k) (block_length fs k) m1 m'"
    by (rule inside_sub [OF d(3)]) (use data_in_block [OF plain fs(2)] extent in simp_all)
  then have changed: "block_changed fs dest k m m'" using m1(2) unfolding block_changed_def by (blast intro: inside_trans)
  have "peek (peek m' dest n) (nat (snd (place fs k))) 1 \<noteq> [0]" if ?flag
  proof -
    have "?s + 1 \<le> length m" using s(1) [OF that] dest by simp
    then have "peek m1 ?s 1 = [1]" using that by (simp add: m1_def peek_poke)
    moreover have "peek m' ?s 1 = peek m1 ?s 1" using inside_peek [OF d(3), of ?s 1] s(4) [OF that] data dest m1(1) by simp
    ultimately show ?thesis using s(1) [OF that] by simp
  qed
  then have held: "held ?f (field_value ?f) (place fs k) (peek m' dest n) = [field_value ?f r]"
    using single data d(4) by (auto simp: held_def Let_def)
  have mem: "(if PB_HTYPE (fld_type ?f) = PB_HTYPE_OPTIONAL \<and> it_pSize ?iter \<noteq> ?q then poke m (it_pSize ?iter) [1] else m) = m1"
  proof (cases ?flag)
    case True
    have "it_pSize ?iter = ?s" by (rule iter(3) [OF room [OF True]])
    then show ?thesis using True s(4) [OF True] by (auto simp: m1_def)
  next
    case False
    then show ?thesis using iter(2,4) by (auto simp: m1_def)
  qed
  have htype: "PB_HTYPE (fld_type ?f) = PB_HTYPE_REQUIRED \<or> PB_HTYPE (fld_type ?f) = PB_HTYPE_OPTIONAL"
    using p single by (auto simp: plain_place_def)
  have "decode_static_field M noinit (wire_type (PB_LTYPE (fld_type ?f))) ?iter (Some (it_pSize ?iter))
      (st1, m, fixed_count_size l) = (True, st', m', fixed_count_size l)"
    using htype
  proof
    assume "PB_HTYPE (fld_type ?f) = PB_HTYPE_REQUIRED"
    then show ?thesis using mem d(1) by (simp add: decode_static_field_def Let_def iter(1,2) lift_local_def pb_htypes del: iter_at.simps)
  next
    assume "PB_HTYPE (fld_type ?f) = PB_HTYPE_OPTIONAL"
    then show ?thesis using mem d(1) by (simp add: decode_static_field_def Let_def iter(1,2) lift_local_def pb_htypes del: iter_at.simps)
  qed
  then show "\<exists>st' m' c. decode_static_field M noinit (wire_type (PB_LTYPE (fld_type ?f))) ?iter (Some (it_pSize ?iter))
        (st1, m, fixed_count_size l) = (True, st', m', c) \<and> advanced content st1 (field_wire ?f (field_value ?f r)) st' \<and>
      block_changed fs dest k m m' \<and> held ?f (field_value ?f) (place fs k) (peek m' dest n) = [field_value ?f r]"
    using d(2) changed held by blast
qed

end

text \<open>A field that is left out of the format has its default.\<close>

lemma default_zeros:
  assumes "raw_size lt n" "raw_ok lt r" "length r = n" "default_value lt (Raw (raw_value lt r))"
  shows "raw_value lt (replicate n 0) = raw_value lt r"
  using assms(1)
proof (cases rule: raw_size_cases)
  case bool
  then obtain x where "r = [x]" using assms(3) by (auto simp: length_Suc_conv)
  then show ?thesis using assms(4) bool by (auto simp: default_value_def raw_value_def pb_ltypes split: if_splits)
next
  case bytes
  then have "4 \<le> n" using assms(1) by (simp add: raw_size_def pb_ltypes)
  then have "take 4 (replicate n (0 :: byte)) = replicate 4 0" by simp
  moreover have "le_val (replicate 4 0) = 0" using le_val_zeros [of "[]" 4] by simp
  ultimately show ?thesis using assms(4) bytes by (simp add: default_value_def raw_value_def pb_ltypes)
next
  case string
  then show ?thesis using assms(4) by (cases n) (auto simp: default_value_def raw_value_def pb_ltypes)
next
  case fixed
  then show ?thesis using assms(3,4) by (simp add: default_value_def raw_value_def pb_ltypes)
qed (use assms(3,4) in \<open>simp_all add: default_value_def raw_value_def pb_ltypes list_eq_iff_nth_eq\<close>)

lemma absent_held:
  assumes fs: "fits_plain fs n" "k < n_fields fs" and single: "PB_HTYPE (fld_type (fs ! k)) \<noteq> PB_HTYPE_REPEATED"
    and r: "image_ok_field (fs ! k) (peek r (fst (place fs k)) (unat (data_size (fs ! k))))"
    and clear: "clear_place (fs ! k) (clear_field (fs ! k)) (place fs k) r'"
  defines "v \<equiv> field_value (fs ! k) (peek r (fst (place fs k)) (unat (data_size (fs ! k))))"
  shows "implicit (fs ! k) \<Longrightarrow> default_value (PB_LTYPE (fld_type (fs ! k))) v \<Longrightarrow>
      held (fs ! k) (field_value (fs ! k)) (place fs k) r' = [v]"
    and "held (fs ! k) (field_value (fs ! k)) (place fs k) r = [] \<Longrightarrow>
      held (fs ! k) (field_value (fs ! k)) (place fs k) r' = [] \<and> \<not> implicit (fs ! k)"
proof -
  let ?f = "fs ! k" and ?d = "unat (data_size (fs ! k))"
  note plain = fits_plain_facts(1) [OF fs(1)]
  have f: "plain_field ?f" "fld_tag ?f \<noteq> 0"
    using fits_plain_facts(4) [OF fs(1)] fs(2) field_tag_nz [OF plain fs(2)] by (simp_all add: n_fields_less)
  show "held ?f (field_value ?f) (place fs k) r' = [v]" if i: "implicit ?f" and default: "default_value (PB_LTYPE (fld_type ?f)) v"
  proof -
    have lt: "PB_LTYPE (fld_type ?f) \<noteq> PB_LTYPE_SUBMESSAGE"
      using i plain_place_at [OF plain fs(2)] by (auto simp: implicit_def plain_place_def pb_htypes split: if_splits)
    have zeros: "peek r' (fst (place fs k)) ?d = replicate ?d 0" using clear single i by (simp add: clear_place_def Let_def)
    have "raw_value (PB_LTYPE (fld_type ?f)) (replicate ?d 0) =
        raw_value (PB_LTYPE (fld_type ?f)) (peek r (fst (place fs k)) ?d)"
      using f r default lt by (intro default_zeros) (simp_all add: field_facts v_def)
    then show ?thesis using i single zeros lt by (simp add: held_def Let_def implicit_def v_def field_facts)
  qed
  show "held ?f (field_value ?f) (place fs k) r' = [] \<and> \<not> implicit ?f" if "held ?f (field_value ?f) (place fs k) r = []"
    using that clear single by (auto simp: held_def Let_def implicit_def clear_place_def split: if_splits)
qed

end
