(* ===== verification/Pb_Repeated.thy ===== *)
theory Pb_Repeated
  imports Pb_Decoded
begin

text \<open>
  Arrays: the decoder puts one item after the other behind those that are there, from a packed
  field or from one field for each. \<open>array_items\<close> says how many there are and what they are.
\<close>

definition array_items :: "pb_field \<Rightarrow> nat \<Rightarrow> nat \<Rightarrow> (nat \<Rightarrow> pb_value) \<Rightarrow> nat \<Rightarrow> bytes \<Rightarrow> bool" where
  "array_items f a s v i m \<longleftrightarrow>
     (load m s :: u32) = of_nat i \<and>
     (\<forall>j < i. field_value f (peek m (a + unat (data_size f) * j) (unat (data_size f))) = v j)"

text \<open>One more item, and the count before or after it.\<close>

lemma items_count:
  assumes "array_items f a s v i m" "s + 4 \<le> a" "s + 4 \<le> length m"
  shows "(\<forall>j < i. field_value f (peek (store m s (w :: u32)) (a + unat (data_size f) * j) (unat (data_size f))) = v j)"
    "(load (store m s w) s :: u32) = w"
proof -
  have "inside s 4 m (store m s w)" by (rule inside_store) simp_all
  then have "peek (store m s w) (a + unat (data_size f) * j) (unat (data_size f)) =
      peek m (a + unat (data_size f) * j) (unat (data_size f))" for j
    using assms(2,3) by (intro inside_peek disjI2 trans_le_add1) simp_all
  then show "(\<forall>j < i. field_value f (peek (store m s w) (a + unat (data_size f) * j) (unat (data_size f))) = v j)"
    using assms(1) by (simp add: array_items_def)
  show "(load (store m s w) s :: u32) = w" using assms(3) by (intro load_store) simp_all
qed

lemma items_data:
  fixes f :: pb_field
  defines "d \<equiv> unat (data_size f)"
  assumes "\<forall>j < i. field_value f (peek m (a + d * j) d) = v j" "s + 4 \<le> a" "a + d * i + d \<le> length m"
    "inside (a + d * i) d m m'" "field_value f (peek m' (a + d * i) d) = v i"
  shows "\<forall>j < Suc i. field_value f (peek m' (a + d * j) d) = v j" "(load m' s :: u32) = load m s"
proof -
  have "peek m' (a + d * j) d = peek m (a + d * j) d" if "j < i" for j
  proof (rule inside_peek [OF assms(5,4)])
    have "d * Suc j \<le> d * i" using that by (intro mult_le_mono2) simp
    then show "a + d * j + d \<le> a + d * i \<or> a + d * i + d \<le> a + d * j" by simp
  qed
  then show "\<forall>j < Suc i. field_value f (peek m' (a + d * j) d) = v j" using assms(2,6) by (simp add: less_Suc_eq)
  have "peek m' s 4 = peek m s 4" by (rule inside_peek [OF assms(5,4)]) (use assms(3) in simp)
  then show "(load m' s :: u32) = load m s" by (simp add: load_peek)
qed

text \<open>The array of a field in the image of its message.\<close>

lemma array_place:
  assumes fs: "fits_plain fs n" "k < n_fields fs" and repeated: "PB_HTYPE (fld_type (fs ! k)) = PB_HTYPE_REPEATED"
    and dest: "0 < dest" "dest + n \<le> length m"
  defines "a \<equiv> dest + fst (place fs k)" and "s \<equiv> dest + nat (snd (place fs k))" and "d \<equiv> unat (data_size (fs ! k))"
  shows "it_field (iter_at fs dest k) = fs ! k" "it_pData (iter_at fs dest k) = a" "it_pSize (iter_at fs dest k) = s"
    "s + 4 \<le> a" "s + 4 \<le> length m" "i < unat (array_size (fs ! k)) \<Longrightarrow> a + d * i + d \<le> length m"
    "inside s 4 m m' \<Longrightarrow> block_changed fs dest k m m'"
    "i < unat (array_size (fs ! k)) \<Longrightarrow> inside (a + d * i) d m m' \<Longrightarrow> block_changed fs dest k m m'"
    "array_items (fs ! k) a s v i m \<Longrightarrow> i \<le> unat (array_size (fs ! k)) \<Longrightarrow>
      held (fs ! k) (field_value (fs ! k)) (place fs k) (peek m dest n) = map v [0..<i] \<and>
      count_ok (fs ! k) (place fs k) (peek m dest n)"
proof -
  note plain = fits_plain_facts(1) [OF fs(1)]
  note p = plain_place_at [OF plain fs(2)]
  note room = plain_repeated [OF p repeated]
  note iter = iter_data [OF fs dest(1)]
  show "it_field (iter_at fs dest k) = fs ! k" "it_pData (iter_at fs dest k) = a" "it_pSize (iter_at fs dest k) = s"
    using iter(1,2) iter(3) [OF room] by (simp_all add: a_def s_def)
  note c = count_in_image [OF fs room] place_count_room [OF plain fs(2) room]
  show "s + 4 \<le> a" using c by (simp add: s_def a_def)
  show "s + 4 \<le> length m" using c dest by (simp add: s_def)
  have item: "d * i + d \<le> field_extent (fs ! k)" if "i < unat (array_size (fs ! k))" for i
    using item_in_extent [OF p repeated that] by (simp add: d_def)
  then have image: "fst (place fs k) + d * i + d \<le> n" if "i < unat (array_size (fs ! k))" for i
    using that by (intro item_in_image [OF fs]) blast
  then show "a + d * i + d \<le> length m" if "i < unat (array_size (fs ! k))" using image [OF that] dest by (simp add: a_def)
  show "block_changed fs dest k m m'" if "inside s 4 m m'"
    unfolding block_changed_def by (rule inside_sub [OF that]) (use c data_in_block [OF plain fs(2)] in \<open>simp_all add: s_def\<close>)
  show "block_changed fs dest k m m'" if "i < unat (array_size (fs ! k))" "inside (a + d * i) d m m'"
    unfolding block_changed_def
    by (rule inside_sub [OF that(2)]) (use item [OF that(1)] data_in_block [OF plain fs(2)] in \<open>simp_all add: a_def\<close>)
  assume i: "array_items (fs ! k) a s v i m" "i \<le> unat (array_size (fs ! k))"
  have load: "(load (peek m dest n) (nat (snd (place fs k))) :: u32) = of_nat i"
    using i(1) c(1) by (simp add: load_image array_items_def s_def)
  moreover have "unat (of_nat i :: u32) = i" using i(2) unat_less_pow(2) [of "array_size (fs ! k)"] by (simp add: unat_of_nat)
  moreover have "field_value (fs ! k) (peek (peek m dest n) (fst (place fs k) + d * j) d) = v j" if "j < i" for j
    using i that image [of j] by (simp add: array_items_def a_def d_def add.assoc)
  ultimately show "held (fs ! k) (field_value (fs ! k)) (place fs k) (peek m dest n) = map v [0..<i] \<and>
      count_ok (fs ! k) (place fs k) (peek m dest n)"
    using repeated i(2) by (simp add: held_def Let_def d_def count_ok_def word_le_nat_alt)
qed

section \<open>Packed arrays\<close>

lemma block_changed_trans: "block_changed fs dest k m m1 \<Longrightarrow> block_changed fs dest k m1 m2 \<Longrightarrow> block_changed fs dest k m m2"
  unfolding block_changed_def by (rule inside_trans)

lemma block_changed_refl [simp]: "block_changed fs dest k m m"
  by (simp add: block_changed_def)

lemma concat_upt_Cons: "i < c \<Longrightarrow> concat (map w [i..<c]) = w i @ concat (map w [Suc i..<c])"
  by (simp add: upt_conv_Cons)

lemma packable_wire_nonempty:
  assumes "plain_field f" "fld_tag f \<noteq> 0" "PB_LTYPE (fld_type f) \<le> PB_LTYPE_LAST_PACKABLE" "length r = unat (data_size f)"
  shows "field_wire f (field_value f r) \<noteq> []"
proof -
  have "PB_LTYPE (fld_type f) \<noteq> PB_LTYPE_SUBMESSAGE" using assms(3) by (auto simp: pb_ltypes)
  moreover have "raw_size (PB_LTYPE (fld_type f)) (unat (data_size f))" using assms(1,2) calculation by (simp add: field_facts)
  then have "raw_wire (PB_LTYPE (fld_type f)) (raw_value (PB_LTYPE (fld_type f)) r) \<noteq> []"
    using assms(3,4) by (cases rule: raw_size_cases) (auto simp: raw_wire_def raw_value_def pb_ltypes)
  ultimately show ?thesis by (simp add: field_facts)
qed

text \<open>What is given of an array: its field, where it is, and its items \<open>r 0, \<dots>, r (c - 1)\<close> in the format.\<close>

definition array_source :: "pb_field \<Rightarrow> nat \<Rightarrow> (nat \<Rightarrow> bytes) \<Rightarrow> bool" where
  "array_source f c r \<longleftrightarrow>
     c \<le> unat (array_size f) \<and>
     (\<forall>i < c. image_ok_field f (r i) \<and> length (r i) = unat (data_size f) \<and> length (field_wire f (field_value f (r i))) < 2 ^ 32)"

context pb_source
begin

lemma decodes_item:
  assumes fs: "fits_plain fs n" "k < n_fields fs" and repeated: "PB_HTYPE (fld_type (fs ! k)) = PB_HTYPE_REPEATED"
    and dest: "0 < dest" "dest + n \<le> length m" and sub: "decodes_below read content noinit fs"
    and r: "array_source (fs ! k) c r" "i < c"
    and st: "good_input read content st" "prefix (field_wire (fs ! k) (field_value (fs ! k) (r i))) (input content st)"
  defines "q \<equiv> dest + fst (place fs k) + unat (data_size (fs ! k)) * i"
  obtains st' m' where "PB_DECODERS M noinit (fs ! k) q (st, m) = (True, st', m')"
    "advanced content st (field_wire (fs ! k) (field_value (fs ! k) (r i))) st'"
    "inside q (unat (data_size (fs ! k))) m m'"
    "field_value (fs ! k) (peek m' q (unat (data_size (fs ! k)))) = field_value (fs ! k) (r i)"
    "good_input read content st'" "input content st = field_wire (fs ! k) (field_value (fs ! k) (r i)) @ input content st'"
    "length m' = length m"
proof -
  note plain = fits_plain_facts(1) [OF fs(1)]
  have f: "plain_field (fs ! k)" "fld_tag (fs ! k) \<noteq> 0" "PB_ATYPE (fld_type (fs ! k)) = PB_ATYPE_STATIC" "fs ! k \<in> set fs"
    using fits_plain_facts(4) [OF fs(1)] fs(2) field_tag_nz [OF plain fs(2)] plain_place_at [OF plain fs(2)]
    by (simp_all add: n_fields_less plain_place_def)
  have i: "i < unat (array_size (fs ! k))" "image_ok_field (fs ! k) (r i)" "length (r i) = unat (data_size (fs ! k))"
    "length (field_wire (fs ! k) (field_value (fs ! k) (r i))) < 2 ^ 32"
    using r by (auto simp: array_source_def)
  have "0 < q" using dest by (simp add: q_def)
  note d = decodes_value [OF f i(2-4) sub this]
  have "q + unat (data_size (fs ! k)) \<le> length m"
    using array_place(6) [OF fs repeated dest i(1)] by (simp add: q_def)
  then show ?thesis using decodesD [OF d st] repeated that by metis
qed

lemma packed_loop_reads:
  assumes fs: "fits_plain fs n" "k < n_fields fs" and repeated: "PB_HTYPE (fld_type (fs ! k)) = PB_HTYPE_REPEATED"
    and packable: "PB_LTYPE (fld_type (fs ! k)) \<le> PB_LTYPE_LAST_PACKABLE"
    and dest: "0 < dest" and sub: "decodes_below read content noinit fs" and r: "array_source (fs ! k) c r"
  defines "a \<equiv> dest + fst (place fs k)" and "s \<equiv> dest + nat (snd (place fs k))"
    and "w \<equiv> \<lambda>i. field_wire (fs ! k) (field_value (fs ! k) (r i))" and "v \<equiv> \<lambda>i. field_value (fs ! k) (r i)"
  assumes start: "i \<le> c" "dest + n \<le> length m" "array_items (fs ! k) a s v i m" "good_input read content st"
    "input content st = concat (map w [i..<c])" "bytes_left st \<le> t"
  shows "\<exists>st' m'. packed_loop M noinit (iter_at fs dest k) (Some s) t (st, m, local) = (True, st', m', local) \<and>
      advanced content st (concat (map w [i..<c])) st' \<and> bytes_left st' = 0 \<and>
      array_items (fs ! k) a s v c m' \<and> block_changed fs dest k m m'"
proof -
  let ?f = "fs ! k" and ?d = "unat (data_size (fs ! k))"
  note plain = fits_plain_facts(1) [OF fs(1)]
  have f: "plain_field ?f" "fld_tag ?f \<noteq> 0"
    using fits_plain_facts(4) [OF fs(1)] fs(2) field_tag_nz [OF plain fs(2)] by (simp_all add: n_fields_less)
  have w: "w i \<noteq> []" if "i < c" for i
    unfolding w_def using r that by (intro packable_wire_nonempty [OF f packable]) (simp add: array_source_def)
  then have wl: "0 < length (w i)" if "i < c" for i using that by blast
  have left: "length (input content st) = bytes_left st" if "good_input read content st" for st
    using that by (simp add: good_input_def input_def)
  have c: "c \<le> unat (array_size ?f)" using r by (simp add: array_source_def)
  from start show ?thesis
  proof (induction t arbitrary: i m st)
    case 0
    then have "concat (map w [i..<c]) = []" using left [OF 0(4)] by simp
    then have "i = c" using w [of i] 0(1) by (cases "i < c") (simp_all add: concat_upt_Cons)
    with 0 show ?case using advanced_refl by fastforce
  next
    case (Suc t)
    note place = array_place [OF fs repeated dest Suc.prems(2), folded a_def s_def]
    show ?case
    proof (cases "i = c")
      case True
      then have "bytes_left st = 0" using left [OF Suc.prems(4)] Suc.prems(5) by simp
      with True Suc.prems show ?thesis using advanced_refl by (fastforce simp: Let_def)
    next
      case False
      then have i: "i < c" "i < unat (array_size ?f)" using Suc.prems(1) c by simp_all
      have ui: "unat (of_nat i :: u32) = i" using i(2) unat_less_pow(2) [of "array_size ?f"] by (simp add: unat_of_nat)
      then have iw: "(of_nat i :: u32) < array_size ?f" using i(2) by (simp add: word_less_nat_alt)
      have offset: "unat (data_size ?f * of_nat i) = ?d * i" by (rule item_offset [OF plain_place_at [OF plain fs(2)] repeated i(2)])
      have p: "prefix (w i) (input content st)" unfolding Suc.prems(5) by (simp add: concat_upt_Cons [OF i(1)])
      obtain st1 m1 where 1: "PB_DECODERS M noinit ?f (a + ?d * i) (st, m) = (True, st1, m1)" "advanced content st (w i) st1"
        "inside (a + ?d * i) ?d m m1" "field_value ?f (peek m1 (a + ?d * i) ?d) = v i"
        "good_input read content st1" "input content st = w i @ input content st1" "length m1 = length m"
        using decodes_item [OF fs repeated dest Suc.prems(2) sub r i(1) Suc.prems(4) p [unfolded w_def]]
        unfolding a_def w_def v_def by metis
      let ?m2 = "store m1 s (of_nat (Suc i) :: u32)"
      have d1: "\<forall>j < Suc i. field_value ?f (peek m1 (a + ?d * j) ?d) = v j" "(load m1 s :: u32) = of_nat i"
        using items_data [where f = ?f and v = v and i = i, OF _ place(4) place(6) [OF i(2)] 1(3,4)] Suc.prems(3) by (simp_all add: array_items_def)
      have s1: "s + 4 \<le> length m1" using place(5) 1(7) by simp
      have in2: "inside s 4 m1 ?m2" by (rule inside_store) simp_all
      have l2: "length ?m2 = length m" using inside_length [OF in2 s1] 1(7) by simp
      have peek2: "peek ?m2 (a + ?d * j) ?d = peek m1 (a + ?d * j) ?d" for j
        using place(4) s1 by (intro inside_peek [OF in2] disjI2 trans_le_add1) simp_all
      have "(load ?m2 s :: u32) = of_nat (Suc i)" using s1 by (intro load_store) simp_all
      then have items2: "array_items ?f a s v (Suc i) ?m2" using d1(1) by (simp add: array_items_def peek2 del: of_nat_Suc)
      have changed: "block_changed fs dest k m ?m2"
      proof (rule block_changed_trans)
        show "block_changed fs dest k m m1" by (rule place(8) [OF i(2) 1(3)])
        show "block_changed fs dest k m1 ?m2"
          using array_place(7) [OF fs repeated dest(1), of m1] Suc.prems(2) 1(7) in2 by (simp add: s_def)
      qed
      have in1: "input content st1 = concat (map w [Suc i..<c])"
        using 1(6) Suc.prems(5) by (simp add: concat_upt_Cons [OF i(1)])
      have left1: "bytes_left st1 \<le> t" "bytes_left st \<noteq> 0"
      proof -
        have "bytes_left st = length (w i) + bytes_left st1" using 1(2) by (simp add: advanced_def)
        with wl [OF i(1)] Suc.prems(6) show "bytes_left st1 \<le> t" "bytes_left st \<noteq> 0" by linarith+
      qed
      obtain st' m' where r: "packed_loop M noinit (iter_at fs dest k) (Some s) t (st1, ?m2, local) = (True, st', m', local)"
        "advanced content st1 (concat (map w [Suc i..<c])) st'" "bytes_left st' = 0" "array_items ?f a s v c m'"
        "block_changed fs dest k ?m2 m'"
        using Suc.IH [OF _ _ items2 1(5) in1 left1(1)] i(1) l2 Suc.prems(2) by auto
      have step: "packed_loop M noinit (iter_at fs dest k) (Some s) (Suc t) (st, m, local) =
          packed_loop M noinit (iter_at fs dest k) (Some s) t (st1, ?m2, local)"
        using Suc.prems(3) iw left1(2) 1(1) offset d1(2)
        by (simp add: Let_def get_count_def set_count_def place(1,2) array_items_def add.commute del: iter_at.simps)
      show ?thesis
        unfolding step using r advanced_trans [OF 1(2) r(2)] block_changed_trans [OF changed r(5)]
        by (auto simp: concat_upt_Cons [OF i(1)])
    qed
  qed
qed

text \<open>A packed field fills the array in one turn.\<close>

lemma step_packed:
  assumes fs: "fits_plain fs n" "k < n_fields fs" and repeated: "PB_HTYPE (fld_type (fs ! k)) = PB_HTYPE_REPEATED"
    and packable: "PB_LTYPE (fld_type (fs ! k)) \<le> PB_LTYPE_LAST_PACKABLE"
    and dest: "0 < dest" "dest + n \<le> length m" and sub: "decodes_below read content noinit fs" and r: "array_source (fs ! k) c r"
  defines "a \<equiv> dest + fst (place fs k)" and "s \<equiv> dest + nat (snd (place fs k))"
    and "v \<equiv> \<lambda>i. field_value (fs ! k) (r i)" and "ws \<equiv> concat (map (\<lambda>i. field_wire (fs ! k) (field_value (fs ! k) (r i))) [0..<c])"
  assumes l: "at_field fs dest k l" and st: "good_input read content st" and empty: "array_items (fs ! k) a s v 0 m"
    and w: "prefix (tag_wire (fs ! k) PB_WT_STRING @ varint (length ws) @ ws) (input content st)" "length ws < 2 ^ 32"
  shows "\<exists>l' st' m'. leads M noinit l (st, m) l' (st', m') \<and> at_field fs dest (Suc k) l' \<and>
    advanced content st (tag_wire (fs ! k) PB_WT_STRING @ varint (length ws) @ ws) st' \<and>
    block_changed fs dest k m m' \<and> array_items (fs ! k) a s v c m'"
proof (rule turn_leads [OF fs dest(1) l st w(1)])
  show "unat PB_WT_STRING < 8" by (simp add: wire_types)
  fix st1
  assume st1: "good_input read content st1" "prefix (varint (length ws) @ ws) (input content st1)"
  note place = array_place [OF fs repeated dest, folded a_def s_def]
  show "\<exists>st' m' c'. decode_static_field M noinit PB_WT_STRING (iter_at fs dest k) (Some (it_pSize (iter_at fs dest k)))
      (st1, m, fixed_count_size l) = (True, st', m', c') \<and> advanced content st1 (varint (length ws) @ ws) st' \<and>
      block_changed fs dest k m m' \<and> array_items (fs ! k) a s v c m'"
  proof (rule substream [OF is_length_varint [OF w(2)] st1], goal_cases)
    case (1 sub0 st2)
    obtain sub' m' where p: "packed_loop M noinit (iter_at fs dest k) (Some s) (bytes_left sub0) (sub0, m, fixed_count_size l) =
        (True, sub', m', fixed_count_size l)" "advanced content sub0 ws sub'" "bytes_left sub' = 0"
        "array_items (fs ! k) a s v c m'" "block_changed fs dest k m m'"
      using packed_loop_reads [OF fs repeated packable dest(1) sub r, of 0 m sub0 "bytes_left sub0" M "fixed_count_size l"]
        empty 1(2,3) dest(2) unfolding a_def s_def v_def ws_def by auto
    obtain st3 where "pb_close_string_substream st2 sub' = (Some (), st3)" "advanced content st1 (varint (length ws) @ ws) st3"
      using 1(6) [OF p(2)] by blast
    then show ?case using p 1(1) repeated packable
      by (simp add: decode_static_field_def Let_def place(1-3) pb_htypes del: iter_at.simps)
  qed
qed

section \<open>Arrays of repeated fields\<close>

lemma step_unpacked:
  assumes fs: "fits_plain fs n" "k < n_fields fs" and repeated: "PB_HTYPE (fld_type (fs ! k)) = PB_HTYPE_REPEATED"
    and unpackable: "\<not> PB_LTYPE (fld_type (fs ! k)) \<le> PB_LTYPE_LAST_PACKABLE"
    and dest: "0 < dest" and sub: "decodes_below read content noinit fs" and r: "array_source (fs ! k) c r"
  defines "a \<equiv> dest + fst (place fs k)" and "s \<equiv> dest + nat (snd (place fs k))" and "v \<equiv> \<lambda>i. field_value (fs ! k) (r i)"
    and "w \<equiv> \<lambda>i. tag_wire (fs ! k) (wire_type (PB_LTYPE (fld_type (fs ! k)))) @ field_wire (fs ! k) (field_value (fs ! k) (r i))"
  assumes start: "i \<le> c" "dest + n \<le> length m" "at_field fs dest k l" "array_items (fs ! k) a s v i m" "good_input read content st"
    "prefix (concat (map w [i..<c])) (input content st)"
  shows "\<exists>l' st' m'. leads M noinit l (st, m) l' (st', m') \<and> at_field fs dest k l' \<and>
    advanced content st (concat (map w [i..<c])) st' \<and> block_changed fs dest k m m' \<and> array_items (fs ! k) a s v c m'"
  using start
proof (induction "c - i" arbitrary: i m l st)
  case 0
  then have "i = c" by simp
  then show ?case
    using 0 advanced_refl [of content st] by (intro exI [of _ l] exI [of _ st] exI [of _ m]) simp
next
  case (Suc t)
  let ?f = "fs ! k" and ?d = "unat (data_size (fs ! k))" and ?lt = "PB_LTYPE (fld_type (fs ! k))"
  let ?W = "field_wire ?f (field_value ?f (r i))"
  note place = array_place [OF fs repeated dest Suc.prems(2), folded a_def s_def]
  have i: "i < c" "i < unat (array_size ?f)" using Suc.hyps(2) r by (auto simp: array_source_def)
  have ui: "unat (of_nat i :: u32) = i" using i(2) unat_less_pow(2) [of "array_size ?f"] by (simp add: unat_of_nat)
  then have iw: "\<not> array_size ?f \<le> (of_nat i :: u32)" using i(2) by (simp add: word_le_nat_alt)
  have offset: "unat (data_size ?f * of_nat i) = ?d * i"
    by (rule item_offset [OF plain_place_at [OF fits_plain_facts(1) [OF fs(1)] fs(2)] repeated i(2)])
  have n1: "(of_nat i + 1 :: u32) = of_nat (Suc i)" by simp
  have w: "prefix (w i) (input content st)" using Suc.prems(6) unfolding concat_upt_Cons [OF i(1)] by (meson append_prefixD)
  have skip: "at_field fs dest (Suc k) l' = at_field fs dest k l'" for l'
    using repeated by (intro at_field_skip [OF fs(2)]) (simp add: pb_htypes)
  let ?m1 = "store m s (of_nat (Suc i) :: u32)"
  have in1: "inside s 4 m ?m1" by (rule inside_store) simp_all
  have l1: "length ?m1 = length m" using inside_length [OF in1 place(5)] .
  have c1: "\<forall>j < i. field_value ?f (peek ?m1 (a + ?d * j) ?d) = v j" "(load ?m1 s :: u32) = of_nat (Suc i)"
    using items_count [OF Suc.prems(4) place(4,5)] by blast+
  have "\<exists>l' st' m'. leads M noinit l (st, m) l' (st', m') \<and> at_field fs dest (Suc k) l' \<and> advanced content st (w i) st' \<and>
      (block_changed fs dest k m m' \<and> array_items ?f a s v (Suc i) m')"
    unfolding w_def
  proof (rule turn_leads [OF fs dest Suc.prems(3,5) w [unfolded w_def]])
    show "unat (wire_type ?lt) < 8" by (simp add: wire_type_def wire_types)
    fix st1
    assume st1: "good_input read content st1" "prefix ?W (input content st1)"
    have "dest + n \<le> length ?m1" using l1 Suc.prems(2) by simp
    then obtain st' m' where d: "PB_DECODERS M noinit ?f (a + ?d * i) (st1, ?m1) = (True, st', m')" "advanced content st1 ?W st'"
      "inside (a + ?d * i) ?d ?m1 m'" "field_value ?f (peek m' (a + ?d * i) ?d) = v i"
      using decodes_item [OF fs repeated dest _ sub r i(1) st1] unfolding a_def v_def by metis
    have room: "a + ?d * i + ?d \<le> length ?m1" using place(6) [OF i(2)] l1 by simp
    have "\<forall>j < Suc i. field_value ?f (peek m' (a + ?d * j) ?d) = v j" "(load m' s :: u32) = load ?m1 s"
      using items_data [where f = ?f and v = v and i = i, OF c1(1) place(4) room d(3,4)] by blast+
    then have items: "array_items ?f a s v (Suc i) m'" using c1(2) by (simp add: array_items_def del: of_nat_Suc)
    have "block_changed fs dest k ?m1 m'"
      using array_place(8) [OF fs repeated dest _ i(2), of ?m1 m'] l1 Suc.prems(2) d(3) by (simp add: a_def)
    then have changed: "block_changed fs dest k m m'" using place(7) [OF in1] by (rule block_changed_trans [rotated])
    have "decode_static_field M noinit (wire_type ?lt) (iter_at fs dest k) (Some (it_pSize (iter_at fs dest k)))
        (st1, m, fixed_count_size l) = (True, st', m', fixed_count_size l)"
      using repeated unpackable Suc.prems(4) offset iw d(1)
      by (simp add: decode_static_field_def Let_def place(1-3) pb_htypes get_count_def set_count_def array_items_def
          lift_local_def n1 del: iter_at.simps of_nat_Suc)
    with d(2) changed items show "\<exists>st' m' c. decode_static_field M noinit (wire_type ?lt) (iter_at fs dest k)
        (Some (it_pSize (iter_at fs dest k))) (st1, m, fixed_count_size l) = (True, st', m', c) \<and> advanced content st1 ?W st' \<and>
      (block_changed fs dest k m m' \<and> array_items ?f a s v (Suc i) m')" by blast
  qed
  then obtain l1 st1 m1 where 1: "leads M noinit l (st, m) l1 (st1, m1)" "at_field fs dest k l1" "advanced content st (w i) st1"
      "block_changed fs dest k m m1" "array_items ?f a s v (Suc i) m1" unfolding skip by blast
  have m1: "dest + n \<le> length m1"
    using block_changed_length [OF fits_plain_facts(1) [OF fs(1)] fs(2) fits_plain_facts(3) [OF fs(1)] Suc.prems(2) 1(4)] Suc.prems(2) by simp
  have "prefix (concat (map w [Suc i..<c])) (input content st1)"
    using Suc.prems(6) advanced_input [OF 1(3)] unfolding concat_upt_Cons [OF i(1)] by simp
  moreover have "t = c - Suc i" using Suc.hyps(2) by simp
  ultimately obtain l' st' m' where 2: "leads M noinit l1 (st1, m1) l' (st', m')" "at_field fs dest k l'"
      "advanced content st1 (concat (map w [Suc i..<c])) st'" "block_changed fs dest k m1 m'" "array_items ?f a s v c m'"
    using Suc.hyps(1) [of "Suc i" m1 l1 st1] i(1) m1 1(2,5) advanced_good [OF Suc.prems(5) 1(3)] by auto
  show ?case
    using leads_trans [OF 1(1) 2(1)] 2(2,5) advanced_trans [OF 1(3) 2(3)] block_changed_trans [OF 1(4) 2(4)]
    unfolding concat_upt_Cons [OF i(1)] by blast
qed

end

end
