(* ===== verification/Pb_Roundtrip.thy ===== *)
theory Pb_Roundtrip
  imports Pb_Encoded Pb_Repeated
begin

text \<open>
  The decoder of messages reads what the encoder writes: \<open>decodes_message\<close> says that it fills the
  struct with the value whose format it reads, and with \<open>emits_message\<close> of the encoder this is
  the round trip of plain messages, with their submessages and arrays.
\<close>

section \<open>Fields\<close>

context pb_source
begin

lemma step_single_field:
  assumes fs: "fits_plain fs n" "k < n_fields fs" and dest: "0 < dest" "dest + n \<le> length m"
    and sub: "decodes_below read content noinit fs" and single: "PB_HTYPE (fld_type (fs ! k)) \<noteq> PB_HTYPE_REPEATED"
    and r: "image_ok fs r" and l: "at_field fs dest k l" and st: "good_input read content st"
    and clear: "clear_place (fs ! k) (clear_field (fs ! k)) (place fs k) (peek m dest n)"
  defines "vs \<equiv> held (fs ! k) (field_value (fs ! k)) (place fs k) r"
  defines "w \<equiv> values_wire (fs ! k) (field_wire (fs ! k)) vs"
  assumes w: "prefix w (input content st)" "length w < 2 ^ 32"
  shows "\<exists>l' st' m'. leads M noinit l (st, m) l' (st', m') \<and> at_field fs dest (Suc k) l' \<and> advanced content st w st' \<and>
    block_changed fs dest k m m' \<and> held (fs ! k) (field_value (fs ! k)) (place fs k) (peek m' dest n) = vs"
proof -
  let ?f = "fs ! k" and ?d = "unat (data_size (fs ! k))" and ?lt = "PB_LTYPE (fld_type (fs ! k))"
  let ?r = "peek r (fst (place fs k)) ?d"
  let ?v = "field_value ?f ?r"
  have absent: ?thesis if "w = []" "held ?f (field_value ?f) (place fs k) (peek m dest n) = vs" "PB_HTYPE (fld_type ?f) \<noteq> PB_HTYPE_REQUIRED"
    using that l advanced_refl [of content st] at_field_skip [OF fs(2) that(3), of dest l]
    by (intro exI [of _ l] exI [of _ st] exI [of _ m]) simp
  have "vs = [] \<or> vs = [?v]" using single by (simp add: vs_def held_def Let_def)
  then consider (none) "vs = []" | (one) "vs = [?v]" by blast
  then show ?thesis
  proof cases
    case none
    have "PB_HTYPE (fld_type ?f) \<noteq> PB_HTYPE_REQUIRED"
      using none single by (auto simp: vs_def held_def Let_def pb_htypes split: if_splits)
    moreover have "held ?f (field_value ?f) (place fs k) (peek m dest n) = vs"
      using none clear single by (auto simp: vs_def held_def Let_def clear_place_def split: if_splits)
    moreover have "w = []" using none by (simp add: w_def values_wire_def Let_def)
    ultimately show ?thesis by (intro absent)
  next
    case one
    have ok: "image_ok_field ?f ?r"
      using r fs(2) one single unfolding message_facts vs_def by (auto simp: held_def Let_def split: if_splits)
    show ?thesis
    proof (cases "implicit ?f \<and> default_value ?lt ?v")
      case True
      have "PB_HTYPE (fld_type ?f) \<noteq> PB_HTYPE_REQUIRED" using True by (auto simp: implicit_def pb_htypes)
      moreover have "held ?f (field_value ?f) (place fs k) (peek m dest n) = vs"
        unfolding one using absent_held(1) [OF fs single ok clear] True by blast
      moreover have "w = []" using True one single by (simp add: w_def values_wire_def Let_def)
      ultimately show ?thesis by (intro absent)
    next
      case False
      then have e: "w = tag_wire ?f (wire_type ?lt) @ field_wire ?f ?v"
        using one single by (auto simp: w_def values_wire_def Let_def)
      have "length (field_wire ?f ?v) < 2 ^ 32" using w(2) unfolding e by simp
      from step_single [OF fs dest sub single ok _ this l st clear w(1) [unfolded e]]
      show ?thesis unfolding e one by simp
    qed
  qed
qed

lemma step_repeated_field:
  assumes fs: "fits_plain fs n" "k < n_fields fs" and dest: "0 < dest" "dest + n \<le> length m"
    and sub: "decodes_below read content noinit fs" and repeated: "PB_HTYPE (fld_type (fs ! k)) = PB_HTYPE_REPEATED"
    and r: "image_ok fs r" and l: "at_field fs dest k l" and st: "good_input read content st"
    and clear: "clear_place (fs ! k) (clear_field (fs ! k)) (place fs k) (peek m dest n)"
  defines "vs \<equiv> held (fs ! k) (field_value (fs ! k)) (place fs k) r"
  defines "w \<equiv> values_wire (fs ! k) (field_wire (fs ! k)) vs"
  assumes w: "prefix w (input content st)" "length w < 2 ^ 32"
  shows "\<exists>l' st' m'. leads M noinit l (st, m) l' (st', m') \<and> at_field fs dest (Suc k) l' \<and> advanced content st w st' \<and>
    block_changed fs dest k m m' \<and> held (fs ! k) (field_value (fs ! k)) (place fs k) (peek m' dest n) = vs \<and>
    count_ok (fs ! k) (place fs k) (peek m' dest n)"
proof -
  let ?f = "fs ! k" and ?d = "unat (data_size (fs ! k))" and ?lt = "PB_LTYPE (fld_type (fs ! k))"
  let ?a = "dest + fst (place fs k)" and ?s = "dest + nat (snd (place fs k))"
  define c where "c = unat (load r (nat (snd (place fs k))) :: u32)"
  define item where "item = (\<lambda>i. peek r (fst (place fs k) + ?d * i) ?d)"
  let ?v = "\<lambda>i. field_value ?f (item i)" and ?W = "\<lambda>i. field_wire ?f (field_value ?f (item i))"
  note plain = fits_plain_facts(1) [OF fs(1)]
  note p = plain_place_at [OF plain fs(2)]
  note room = plain_repeated [OF p repeated]
  have vs: "vs = map ?v [0..<c]" using repeated by (simp add: vs_def held_def Let_def c_def item_def)
  have ok: "c \<le> unat (array_size ?f)" "\<And>i. i < c \<Longrightarrow> image_ok_field ?f (item i)"
    using r fs(2) repeated unfolding message_facts
    by (auto simp: held_def Let_def list_all_iff count_ok_def word_le_nat_alt c_def item_def)
  have i: "\<not> implicit ?f" using repeated by (simp add: implicit_def pb_htypes)
  have wire: "w = (if ?lt \<le> PB_LTYPE_LAST_PACKABLE
      then if c = 0 then [] else tag_wire ?f PB_WT_STRING @ varint (length (concat (map ?W [0..<c]))) @ concat (map ?W [0..<c])
      else concat (map (\<lambda>i. tag_wire ?f (wire_type ?lt) @ ?W i) [0..<c]))"
    using repeated i by (simp add: w_def values_wire_def Let_def vs comp_def)
  have "length (?W i) < 2 ^ 32" if "i < c" for i
  proof -
    have "length (?W i) \<le> length (concat (map ?W [0..<c]))" using that by (intro length_concat_member) simp
    moreover have "length (tag_wire ?f (wire_type ?lt) @ ?W i) \<le> length (concat (map (\<lambda>i. tag_wire ?f (wire_type ?lt) @ ?W i) [0..<c]))"
      using that by (intro length_concat_member) simp
    ultimately show ?thesis using w(2) that unfolding wire by (simp split: if_splits)
  qed
  then have source: "array_source ?f c item" using ok by (simp add: array_source_def item_def)
  have empty: "array_items ?f ?a ?s ?v 0 m"
    using clear repeated count_in_image [OF fs room] by (simp add: clear_place_def Let_def load_image array_items_def)
  have skip: "at_field fs dest (Suc k) l' = at_field fs dest k l'" for l'
    using repeated by (intro at_field_skip [OF fs(2)]) (simp add: pb_htypes)
  have "\<exists>l' st' m'. leads M noinit l (st, m) l' (st', m') \<and> at_field fs dest (Suc k) l' \<and> advanced content st w st' \<and>
    block_changed fs dest k m m' \<and> array_items ?f ?a ?s ?v c m'"
  proof (cases "?lt \<le> PB_LTYPE_LAST_PACKABLE")
    case True
    show ?thesis
    proof (cases "c = 0")
      case c: True
      then have "w = []" unfolding wire using True by simp
      then show ?thesis using l empty c advanced_refl [of content st] skip
        by (intro exI [of _ l] exI [of _ st] exI [of _ m]) simp
    next
      case False
      then have e: "w = tag_wire ?f PB_WT_STRING @ varint (length (concat (map ?W [0..<c]))) @ concat (map ?W [0..<c])"
        unfolding wire using True by simp
      have "length (concat (map ?W [0..<c])) < 2 ^ 32" using w(2) unfolding e by simp
      from step_packed [OF fs repeated True dest sub source l st empty w(1) [unfolded e] this]
      show ?thesis unfolding e by blast
    qed
  next
    case False
    then have e: "w = concat (map (\<lambda>i. tag_wire ?f (wire_type ?lt) @ ?W i) [0..<c])" unfolding wire by simp
    from step_unpacked [OF fs repeated False dest(1) sub source le0 dest(2) l empty st w(1) [unfolded e]]
    show ?thesis unfolding e skip by blast
  qed
  then obtain l' st' m' where s: "leads M noinit l (st, m) l' (st', m')" "at_field fs dest (Suc k) l'" "advanced content st w st'"
      "block_changed fs dest k m m'" "array_items ?f ?a ?s ?v c m'" by blast
  have "dest + n \<le> length m'"
    using block_changed_length [OF plain fs(2) fits_plain_facts(3) [OF fs(1)] dest(2) s(4)] dest(2) by simp
  from array_place(9) [OF fs repeated dest(1) this s(5) ok(1)] s show ?thesis unfolding vs by blast
qed

lemma step_field:
  assumes "fits_plain fs n" "k < n_fields fs" "0 < dest" "dest + n \<le> length m"
    "decodes_below read content noinit fs" "image_ok fs r" "at_field fs dest k l" "good_input read content st"
    "clear_place (fs ! k) (clear_field (fs ! k)) (place fs k) (peek m dest n)"
  defines "w \<equiv> values_wire (fs ! k) (field_wire (fs ! k)) (message_value fs r ! k)"
  assumes "prefix w (input content st)" "length w < 2 ^ 32"
  shows "\<exists>l' st' m'. leads M noinit l (st, m) l' (st', m') \<and> at_field fs dest (Suc k) l' \<and> advanced content st w st' \<and>
    block_changed fs dest k m m' \<and> held (fs ! k) (field_value (fs ! k)) (place fs k) (peek m' dest n) = message_value fs r ! k \<and>
    count_ok (fs ! k) (place fs k) (peek m' dest n)"
proof -
  have v: "message_value fs r ! k = held (fs ! k) (field_value (fs ! k)) (place fs k) r"
    using assms(2) by (simp add: message_facts)
  show ?thesis
  proof (cases "PB_HTYPE (fld_type (fs ! k)) = PB_HTYPE_REPEATED")
    case True
    show ?thesis
      unfolding w_def v
      by (rule step_repeated_field [OF assms(1-5) True assms(6-9)]) (use assms(11,12) in \<open>simp_all add: w_def v\<close>)
  next
    case False
    have "count_ok (fs ! k) (place fs k) r'" for r' using False by (simp add: count_ok_def)
    then show ?thesis
      unfolding w_def v
      using step_single_field [OF assms(1-5) False assms(6-9)] assms(11,12) by (simp add: w_def v)
  qed
qed

section \<open>Messages\<close>

lemma decodes_fields:
  assumes fs: "fits_plain fs n" and dest: "0 < dest" and sub: "decodes_below read content noinit fs" and r: "image_ok fs r"
    and short: "length (message_wire fs (message_value fs r)) < 2 ^ 32"
  defines "w \<equiv> \<lambda>k. values_wire (fs ! k) (field_wire (fs ! k)) (message_value fs r ! k)"
  assumes start: "k \<le> n_fields fs" "dest + n \<le> length m" "at_field fs dest k l" "good_input read content st"
    "input content st = concat (map w [k..<n_fields fs])"
    "\<And>j. k \<le> j \<Longrightarrow> j < n_fields fs \<Longrightarrow> clear_place (fs ! j) (clear_field (fs ! j)) (place fs j) (peek m dest n)"
  shows "\<exists>l' st' m'. leads M noinit l (st, m) l' (st', m') \<and> at_field fs dest (n_fields fs) l' \<and>
    advanced content st (concat (map w [k..<n_fields fs])) st' \<and> rest_changed fs dest k m m' \<and>
    (\<forall>j. k \<le> j \<longrightarrow> j < n_fields fs \<longrightarrow>
      held (fs ! j) (field_value (fs ! j)) (place fs j) (peek m' dest n) = message_value fs r ! j)"
  using start
proof (induction "n_fields fs - k" arbitrary: k m l st)
  case 0
  then have "k = n_fields fs" by simp
  then show ?case
    using 0 advanced_refl [of content st] by (intro exI [of _ l] exI [of _ st] exI [of _ m]) simp
next
  case (Suc t)
  note plain = fits_plain_facts(1) [OF fs]
  note size = fits_plain_facts(3) [OF fs]
  have k: "k < n_fields fs" using Suc.hyps(2) by simp
  have w: "prefix (w k) (input content st)" unfolding Suc.prems(5) concat_upt_Cons [OF k] by simp
  have "length (w k) \<le> length (message_wire fs (message_value fs r))"
    unfolding message_facts(2) w_def using k by (intro length_concat_member) simp
  then have wl: "length (w k) < 2 ^ 32" using short by simp
  obtain l1 st1 m1 where 1: "leads M noinit l (st, m) l1 (st1, m1)" "at_field fs dest (Suc k) l1" "advanced content st (w k) st1"
      "block_changed fs dest k m m1" "held (fs ! k) (field_value (fs ! k)) (place fs k) (peek m1 dest n) = message_value fs r ! k"
      "count_ok (fs ! k) (place fs k) (peek m1 dest n)"
    using step_field [OF fs k dest Suc.prems(2) sub r Suc.prems(3,4) Suc.prems(6) [OF order_refl k]
        w [unfolded w_def] wl [unfolded w_def]]
    unfolding w_def by blast
  have m1: "dest + n \<le> length m1" using block_changed_length [OF plain k size Suc.prems(2) 1(4)] Suc.prems(2) by simp
  have clear: "clear_place (fs ! j) (clear_field (fs ! j)) (place fs j) (peek m1 dest n)" if "Suc k \<le> j" "j < n_fields fs" for j
    using Suc.prems(6) [of j] that clear_block [OF plain that(2) block_changed_other [OF plain k that(2) _ size Suc.prems(2) 1(4)]]
    by simp
  have "input content st1 = concat (map w [Suc k..<n_fields fs])"
    using Suc.prems(5) advanced_input [OF 1(3)] by (simp add: concat_upt_Cons [OF k])
  moreover have "t = n_fields fs - Suc k" using Suc.hyps(2) by simp
  ultimately obtain l' st' m' where 2: "leads M noinit l1 (st1, m1) l' (st', m')" "at_field fs dest (n_fields fs) l'"
      "advanced content st1 (concat (map w [Suc k..<n_fields fs])) st'" "rest_changed fs dest (Suc k) m1 m'"
      "\<forall>j. Suc k \<le> j \<longrightarrow> j < n_fields fs \<longrightarrow>
        held (fs ! j) (field_value (fs ! j)) (place fs j) (peek m' dest n) = message_value fs r ! j"
    using Suc.hyps(1) [of "Suc k" m1 l1 st1] k m1 1(2) advanced_good [OF Suc.prems(4) 1(3)] clear by auto
  have "held (fs ! k) (field_value (fs ! k)) (place fs k) (peek m' dest n) = message_value fs r ! k"
    using held_block [where val = "field_value (fs ! k)", OF plain k 1(6) rest_changed_other [OF plain k size m1 2(4), symmetric]] 1(5) by simp
  then have "\<forall>j. k \<le> j \<longrightarrow> j < n_fields fs \<longrightarrow>
      held (fs ! j) (field_value (fs ! j)) (place fs j) (peek m' dest n) = message_value fs r ! j"
    using 2(5) by (metis Suc_leI le_neq_implies_less)
  then show ?case
    using leads_trans [OF 1(1) 2(1)] 2(2) advanced_trans [OF 1(3) 2(3)] rest_changed_next [OF plain k 1(4) 2(4)]
    unfolding concat_upt_Cons [OF k] by blast
qed

lemma decodes_noinit:
  assumes fs: "fits_plain fs n" and dest: "0 < dest" and sub: "decodes_below read content noinit fs" and r: "image_ok fs r"
    and short: "length (message_wire fs (message_value fs r)) < 2 ^ 32"
  shows "decodes_all read content (decode_noinit M noinit fs dest) (message_wire fs (message_value fs r)) dest n
    (clear_image fs) (\<lambda>r'. message_value fs r' = message_value fs r)"
  unfolding decodes_all_def
proof (intro allI impI)
  fix st m
  assume st: "good_input read content st" "input content st = message_wire fs (message_value fs r)"
    and m: "dest + n \<le> length m" "clear_image fs (peek m dest n)"
  note plain = fits_plain_facts(1) [OF fs]
  let ?l = "\<lparr>dl_iter = snd (pb_field_iter_begin fs dest), fields_seen = [0, 0], extension_range_start = 0,
    fixed_count_field = None, fixed_count_size = 0\<rparr>"
  have l: "at_field fs dest 0 ?l"
    using place_0 by (auto simp: at_field_def on_field_def seen_first_def required_before_def intro!: exI [of _ 0])
  have clear: "clear_place (fs ! j) (clear_field (fs ! j)) (place fs j) (peek m dest n)" if "j < n_fields fs" for j
    using m(2) that by (simp add: message_facts)
  obtain l' st' m' where 1: "leads M noinit ?l (st, m) l' (st', m')" "at_field fs dest (n_fields fs) l'"
      "advanced content st (message_wire fs (message_value fs r)) st'" "rest_changed fs dest 0 m m'"
      "\<forall>j < n_fields fs. held (fs ! j) (field_value (fs ! j)) (place fs j) (peek m' dest n) = message_value fs r ! j"
    using decodes_fields [OF fs dest sub r short, of 0 m ?l st M] l st m(1) clear by (auto simp: message_facts(2))
  have "length (input content st) = bytes_left st" using st(1) by (simp add: good_input_def input_def)
  then have "bytes_left st' = 0" using 1(3) by (simp add: st(2) advanced_def)
  then have loop: "fields_loop M noinit (bytes_left st) ?l (st, m) = (Stop, l', st', m')"
    using 1(1) by (simp add: leads_def)
  have "decode_end l' (st', m') = (True, st', m')"
    using 1(2) req_field_count_plain [OF plain, of dest l'] all_seen_first
    by (simp add: decode_end_def wrong_fixed_count_def at_field_def)
  then have "decode_noinit M noinit fs dest (st, m) = (True, st', m')"
    using loop by (simp add: decode_noinit_def Let_def)
  moreover have "message_value fs (peek m' dest n) = message_value fs r"
    using 1(5) by (auto simp: message_facts(1) [of fs "peek m' dest n"] intro!: nth_equalityI) (simp add: message_facts)
  ultimately show "\<exists>st' m'. decode_noinit M noinit fs dest (st, m) = (True, st', m') \<and>
      advanced content st (message_wire fs (message_value fs r)) st' \<and> inside dest n m m' \<and>
      message_value fs (peek m' dest n) = message_value fs r"
    using 1(3) rest_changed_all [OF plain fits_plain_facts(3) [OF fs] 1(4)] by blast
qed

text \<open>The decoder reads the format of a value.\<close>

lemma decodes_message:
  assumes "fits_plain fs n" "0 < dest" "image_ok fs r" "length (message_wire fs (message_value fs r)) < 2 ^ 32"
  shows "decodes_all read content (pb_decode_noinit M fs dest) (message_wire fs (message_value fs r)) dest n
    (clear_image fs) (\<lambda>r'. message_value fs r' = message_value fs r)"
  using assms
proof (induction "depth fs" arbitrary: fs n dest r rule: less_induct)
  case less
  have "decodes_below read content (pb_decode_noinit M) fs"
    unfolding decodes_below_def using less.hyps depth_sub by blast
  from decodes_noinit [OF less.prems(1,2) this less.prems(3,4), of M]
  have "decodes_all read content (decode_noinit M (pb_decode_noinit M) fs dest) (message_wire fs (message_value fs r)) dest n
    (clear_image fs) (\<lambda>r'. message_value fs r' = message_value fs r)" .
  moreover have "pb_decode_noinit M fs = (decode_noinit M (pb_decode_noinit M) fs :: nat \<Rightarrow> 's dstate \<Rightarrow> bool \<times> 's dstate)"
    by (rule messages_unfold(4) [OF fits_plain_descriptor [OF less.prems(1)]])
  ultimately show ?case by simp
qed

end

end
