(* ===== verification/Bn_Words.thy ===== *)
theory Bn_Words
  imports Constant_Time
begin

text \<open>
  Arrays of words as numbers, \<open>crypto/fipsmodule/bn/generic.c\<close> and the array functions of the
  files beside it. The target is a 64-bit one with \<open>BN_ULLONG\<close>, so a word has 64 bits and the code
  computes in 128. A function that writes an array through a pointer returns it; \<open>wval\<close> is the
  number that an array of words stands for, the least significant word first.
\<close>

type_synonym u128 = "128 word"
type_synonym limbs = "u64 list"

section \<open>The value of an array\<close>

primrec wval :: "limbs \<Rightarrow> nat" where
  "wval [] = 0"
| "wval (w # ws) = unat w + 2 ^ 64 * wval ws"

text \<open>The same sum for any digits, which may be negative.\<close>

primrec gval :: "('a \<Rightarrow> int) \<Rightarrow> 'a list \<Rightarrow> int" where
  "gval g [] = 0"
| "gval g (x # xs) = g x + 2 ^ 64 * gval g xs"

lemma int_wval: "int (wval ws) = gval (\<lambda>w. int (unat w)) ws"
  by (induction ws) simp_all

lemma gval_mult: "gval (\<lambda>x. k * g x) xs = k * gval g xs"
  by (induction xs) (simp_all add: algebra_simps)

lemma gval_zip_add:
  "length xs = length ys \<Longrightarrow> gval (\<lambda>(x, y). f x + g y) (zip xs ys) = gval f xs + gval g ys"
  by (induction rule: list_induct2) (simp_all add: algebra_simps)

lemma wval_less_64: "wval ws < (2 ^ 64) ^ length ws"
proof (induction ws)
  case (Cons w ws)
  have "unat w + 2 ^ 64 * wval ws < 2 ^ 64 * Suc (wval ws)" using unat_less_pow(3) [of w] by simp
  also have "\<dots> \<le> 2 ^ 64 * (2 ^ 64) ^ length ws" using Cons by (intro mult_le_mono2) simp
  finally show ?case by simp
qed simp

lemma wval_less: "wval ws < 2 ^ (64 * length ws)"
  using wval_less_64 [of ws] by (simp only: power_mult)

lemma pow64_Suc: "(2 :: 'a :: comm_semiring_1) ^ (64 * Suc n) = 2 ^ 64 * 2 ^ (64 * n)"
  by (simp only: mult_Suc_right power_add)

lemma wval_append: "wval (xs @ ys) = wval xs + 2 ^ (64 * length xs) * wval ys"
proof (induction xs)
  case (Cons x xs)
  then show ?case using pow64_Suc [of "length xs", where 'a = nat] by (simp add: algebra_simps)
qed simp

lemma wval_split: "n \<le> length ws \<Longrightarrow> wval ws = wval (take n ws) + 2 ^ (64 * n) * wval (drop n ws)"
  using wval_append [of "take n ws" "drop n ws"] by simp

lemma wval_replicate_0 [simp]: "wval (replicate n 0) = 0"
  by (induction n) simp_all

lemma wval_0_iff: "wval ws = 0 \<longleftrightarrow> (\<forall>w \<in> set ws. w = 0)"
  by (induction ws) (simp_all add: unat_eq_zero)

lemma wval_inj: "length xs = length ys \<Longrightarrow> wval xs = wval ys \<Longrightarrow> xs = ys"
proof (induction rule: list_induct2)
  case (Cons x xs y ys)
  have "unat x = wval (x # xs) mod 2 ^ 64" "unat y = wval (y # ys) mod 2 ^ 64"
    using unat_less_pow(3) [of x] unat_less_pow(3) [of y] by simp_all
  then have "unat x = unat y" using Cons.prems by metis
  with Cons show ?case by (simp add: word_unat_eq_iff)
qed simp

section \<open>Loops over words\<close>

text \<open>
  A loop over an array that carries a value from each word to the next, and the same loop
  unrolled by four with the rest one by one, which is how the code writes it.
\<close>

fun chain :: "('c \<Rightarrow> 'a \<Rightarrow> 'r \<times> 'c) \<Rightarrow> 'c \<Rightarrow> 'a list \<Rightarrow> 'r list \<times> 'c" where
  "chain f c [] = ([], c)"
| "chain f c (x # xs) =
     (let (r, c) = f c x; (rs, c) = chain f c xs in (r # rs, c))"

fun unrolled :: "('c \<Rightarrow> 'a \<Rightarrow> 'r \<times> 'c) \<Rightarrow> 'c \<Rightarrow> 'a list \<Rightarrow> 'r list \<times> 'c" where
  "unrolled f c (x0 # x1 # x2 # x3 # xs) =
     (let (r0, c) = f c x0; (r1, c) = f c x1; (r2, c) = f c x2; (r3, c) = f c x3;
          (rs, c) = unrolled f c xs
      in (r0 # r1 # r2 # r3 # rs, c))"
| "unrolled f c xs = chain f c xs"

lemma unrolled_chain: "unrolled f c xs = chain f c xs"
proof (induction f c xs rule: unrolled.induct)
  case (1 f c x0 x1 x2 x3 xs)
  then show ?case by (simp split: prod.split)
qed simp_all

lemma length_chain [simp]: "length (fst (chain f c xs)) = length xs"
  by (induction xs arbitrary: c) (simp_all add: split_beta Let_def)

text \<open>If each step keeps the value of its digit and the carries, the loop keeps that of the array.\<close>

lemma chain_value:
  assumes step: "\<And>c x r c'. f c x = (r, c') \<Longrightarrow> I c \<Longrightarrow> P x \<Longrightarrow>
      I c' \<and> int (unat r) + 2 ^ 64 * cv c' = g x + cv c"
    and "chain f c xs = (rs, c')" "I c" "\<forall>x \<in> set xs. P x"
  shows "I c' \<and> int (wval rs) + 2 ^ (64 * length xs) * cv c' = gval g xs + cv c"
  using assms(2-4)
proof (induction xs arbitrary: c rs)
  case (Cons x xs)
  obtain r c1 where 1: "f c x = (r, c1)" by force
  obtain rs1 where 2: "chain f c1 xs = (rs1, c')" "rs = r # rs1" using Cons.prems(1) 1 by (auto split: prod.splits)
  note s = step [OF 1 Cons.prems(2)]
  have "I c' \<and> int (wval rs1) + 2 ^ (64 * length xs) * cv c' = gval g xs + cv c1"
    using Cons.IH [OF 2(1)] s Cons.prems(3) by simp
  then show ?case using s Cons.prems(3) pow64_Suc [of "length xs", where 'a = int] by (simp add: 2(2) algebra_simps)
qed simp

section \<open>Sums and differences\<close>

definition Lw :: "u128 \<Rightarrow> u64" where "Lw t = ucast t"

definition Hw :: "u128 \<Rightarrow> u64" where "Hw t = ucast (drop_bit 64 t)"

definition add_step :: "u128 \<Rightarrow> u64 \<times> u64 \<Rightarrow> u64 \<times> u128" where
  "add_step ll ab = (let ll = ll + (ucast (fst ab) + ucast (snd ab)) in (ucast ll, drop_bit 64 ll))"

definition bn_add_words :: "limbs \<Rightarrow> limbs \<Rightarrow> limbs \<times> u64" where
  "bn_add_words a b = (let (r, ll) = unrolled add_step 0 (zip a b) in (r, ucast ll))"

definition sub_step :: "u64 \<Rightarrow> u64 \<times> u64 \<Rightarrow> u64 \<times> u64" where
  "sub_step c ab =
     (let (t1, t2) = ab in (t1 - t2 - c, if t1 \<noteq> t2 then if t1 < t2 then 1 else 0 else c))"

definition bn_sub_words :: "limbs \<Rightarrow> limbs \<Rightarrow> limbs \<times> u64" where
  "bn_sub_words a b = unrolled sub_step 0 (zip a b)"

lemma unat_Lw: "unat (Lw t) = unat t mod 2 ^ 64"
  by (simp add: Lw_def unsigned_ucast_eq take_bit_eq_mod)

lemma unat_less_128: "unat (t :: u128) < 2 ^ 128"
  using unsigned_less [of t] by simp

lemma unat_Hw: "unat (Hw t) = unat t div 2 ^ 64"
proof -
  have "unat t div 2 ^ 64 < 2 ^ 64" using unat_less_128 [of t] by (simp add: less_mult_imp_div_less)
  then show ?thesis by (simp add: Hw_def unsigned_ucast_eq unat_drop_bit_div take_bit_eq_mod)
qed

lemma unat_wide [simp]: "unat (ucast (a :: u64) :: u128) = unat a"
  using unat_less_pow(3) [of a] by (simp add: unsigned_ucast_eq take_bit_eq_mod)

lemma unat_add_128: "unat s + unat t < 2 ^ 128 \<Longrightarrow> unat (s + t) = unat s + unat t" for s t :: u128
  by (simp add: unat_word_ariths)

lemma add_step_value:
  assumes "add_step c x = (r, c')" "unat c \<le> 1"
  shows "unat c' \<le> 1 \<and> int (unat r) + 2 ^ 64 * int (unat c') = (case x of (a, b) \<Rightarrow> int (unat a) + int (unat b)) + int (unat c)"
proof -
  obtain a b where x: "x = (a, b)" by force
  let ?t = "c + (ucast a + ucast b) :: u128"
  have ab: "unat (ucast a + ucast b :: u128) = unat a + unat b"
    using unat_less_pow(3) [of a] unat_less_pow(3) [of b] by (subst unat_add_128) simp_all
  have t: "unat ?t = unat c + (unat a + unat b)"
    using assms(2) unat_less_pow(3) [of a] unat_less_pow(3) [of b] ab by (subst unat_add_128) simp_all
  have rc: "r = Lw ?t" "c' = drop_bit 64 ?t" using assms(1) by (auto simp: x add_step_def Lw_def Let_def)
  have c': "unat c' = unat ?t div 2 ^ 64" by (simp add: rc unat_drop_bit_div)
  have "unat ?t < 2 * 2 ^ 64" using assms(2) unat_less_pow(3) [of a] unat_less_pow(3) [of b] t by simp
  then have "unat c' \<le> 1" using c' less_mult_imp_div_less [of "unat ?t" 2 "2 ^ 64"] by simp
  moreover have "unat r + 2 ^ 64 * unat c' = unat ?t"
    by (simp only: rc(1) unat_Lw c') (simp add: mult.commute)
  then have "int (unat r + 2 ^ 64 * unat c') = int (unat ?t)" by simp
  ultimately show ?thesis unfolding x t by simp
qed

lemma bn_add_words_value:
  assumes "bn_add_words a b = (r, c)" "length a = length b"
  shows "length r = length a" "unat c \<le> 1" "wval r + 2 ^ (64 * length a) * unat c = wval a + wval b"
proof -
  obtain ll where s: "chain add_step 0 (zip a b) = (r, ll)" "c = ucast ll"
    using assms(1) by (auto simp: bn_add_words_def unrolled_chain split: prod.splits)
  show "length r = length a" using length_chain [of add_step 0 "zip a b"] s assms(2) by simp
  have v: "unat ll \<le> 1 \<and> int (wval r) + 2 ^ (64 * length (zip a b)) * int (unat ll) =
      gval (\<lambda>(a, b). int (unat a) + int (unat b)) (zip a b) + int (unat (0 :: u128))"
    by (rule chain_value [where P = "\<lambda>_. True", OF _ s(1)]) (use add_step_value in auto)
  then have ll: "unat c = unat ll" by (simp add: s(2) unsigned_ucast_eq take_bit_eq_mod)
  with v show "unat c \<le> 1" by simp
  have "int (wval r + 2 ^ (64 * length a) * unat c) = int (wval a + wval b)"
    using v assms(2) by (simp add: ll gval_zip_add int_wval)
  then show "wval r + 2 ^ (64 * length a) * unat c = wval a + wval b" by (simp only: of_nat_eq_iff)
qed

lemma int_sub_wrap: "int (unat (a - b)) = (int (unat a) - int (unat b)) mod 2 ^ 64" for a b :: u64
  by (simp add: uint_word_ariths)

lemma sub_step_value:
  assumes "sub_step c x = (r, c')" "unat c \<le> 1"
  shows "unat c' \<le> 1 \<and> int (unat r) + 2 ^ 64 * - int (unat c') = (case x of (a, b) \<Rightarrow> int (unat a) - int (unat b)) + - int (unat c)"
proof -
  obtain a b where x: "x = (a, b)" by force
  have rc: "r = a - b - c" "c' = (if a \<noteq> b then if a < b then 1 else 0 else c)"
    using assms(1) by (auto simp: x sub_step_def)
  let ?d = "int (unat a) - int (unat b) - int (unat c)"
  have m: "int (unat r) = ?d mod 2 ^ 64" unfolding rc int_sub_wrap by (rule mod_diff_left_eq)
  have ab: "int (unat a) < 2 ^ 64" "int (unat b) < 2 ^ 64" using uint_lt2p [of a] uint_lt2p [of b] by simp_all
  have q: "?d div 2 ^ 64 = - int (unat c')"
  proof (cases "?d < 0")
    case True
    then have "unat a < unat b \<or> unat a = unat b \<and> unat c = 1" using assms(2) by linarith
    then have "unat c' = 1" using assms(2) by (auto simp: rc word_less_nat_alt word_unat_eq_iff)
    moreover have "?d div 2 ^ 64 = - 1" using True ab assms(2) by (intro int_div_pos_eq [where r = "?d + 2 ^ 64"]; linarith)
    ultimately show ?thesis by simp
  next
    case False
    then have "unat b < unat a \<or> unat a = unat b \<and> unat c = 0" using assms(2) by linarith
    then have "unat c' = 0" using assms(2) by (auto simp: rc word_less_nat_alt word_unat_eq_iff)
    moreover have "?d div 2 ^ 64 = 0" using False ab by (intro div_pos_pos_trivial; linarith)
    ultimately show ?thesis by simp
  qed
  have "2 ^ 64 * - int (unat c') + int (unat r) = ?d" unfolding m q [symmetric] by (rule mult_div_mod_eq)
  moreover have "unat c' \<le> 1" using assms(2) by (simp add: rc)
  ultimately show ?thesis unfolding x prod.case by simp
qed

lemma bn_sub_words_value:
  assumes "bn_sub_words a b = (r, c)" "length a = length b"
  shows "length r = length a" "unat c \<le> 1" "wval r + wval b = wval a + 2 ^ (64 * length a) * unat c"
proof -
  have s: "chain sub_step 0 (zip a b) = (r, c)" using assms(1) by (simp add: bn_sub_words_def unrolled_chain)
  show "length r = length a" using length_chain [of sub_step 0 "zip a b"] s assms(2) by simp
  have v: "unat c \<le> 1 \<and> int (wval r) + 2 ^ (64 * length (zip a b)) * - int (unat c) =
      gval (\<lambda>(a, b). int (unat a) - int (unat b)) (zip a b) + - int (unat (0 :: u64))"
    by (rule chain_value [where P = "\<lambda>_. True" and cv = "\<lambda>c. - int (unat c)", OF _ s]) (use sub_step_value in auto)
  then show "unat c \<le> 1" by simp
  have "gval (\<lambda>(a, b). int (unat a) - int (unat b)) (zip a b) = int (wval a) - int (wval b)"
    using gval_zip_add [OF assms(2), of "\<lambda>w. int (unat w)" "\<lambda>w. - int (unat w)"]
      gval_mult [of "- 1" "\<lambda>w. int (unat w)" b] by (simp add: int_wval)
  with v have "int (wval r + wval b) = int (wval a + 2 ^ (64 * length a) * unat c)" using assms(2) by simp
  then show "wval r + wval b = wval a + 2 ^ (64 * length a) * unat c" by (simp only: of_nat_eq_iff)
qed

section \<open>Products\<close>

definition mul_add_step :: "u64 \<Rightarrow> u64 \<Rightarrow> u64 \<times> u64 \<Rightarrow> u64 \<times> u64" where
  "mul_add_step w c ra = (let t = ucast w * ucast (snd ra) + ucast (fst ra) + ucast c in (Lw t, Hw t))"

definition bn_mul_add_words :: "limbs \<Rightarrow> limbs \<Rightarrow> u64 \<Rightarrow> limbs \<times> u64" where
  "bn_mul_add_words r a w = unrolled (mul_add_step w) 0 (zip r a)"

definition mul_step :: "u64 \<Rightarrow> u64 \<Rightarrow> u64 \<Rightarrow> u64 \<times> u64" where
  "mul_step w c a = (let t = ucast w * ucast a + ucast c in (Lw t, Hw t))"

definition bn_mul_words :: "limbs \<Rightarrow> u64 \<Rightarrow> limbs \<times> u64" where
  "bn_mul_words a w = unrolled (mul_step w) 0 a"

definition sqr_step :: "unit \<Rightarrow> u64 \<Rightarrow> limbs \<times> unit" where
  "sqr_step c a = (let t = ucast a * ucast a in ([Lw t, Hw t], c))"

definition bn_sqr_words :: "limbs \<Rightarrow> limbs" where
  "bn_sqr_words a = concat (fst (unrolled sqr_step () a))"

lemma Lw_Hw: "unat (Lw t) + 2 ^ 64 * unat (Hw t) = unat t"
  by (simp only: unat_Lw unat_Hw) (simp add: mult.commute)

lemma word_products: "unat (a :: u64) * unat (b :: u64) \<le> (2 ^ 64 - 1) * (2 ^ 64 - 1)"
  using unat_less_pow(3) [of a] unat_less_pow(3) [of b] by (intro mult_le_mono) simp_all

lemma unat_mul_add_128:
  fixes w a r c :: u64
  shows "unat (ucast w * ucast a + ucast r + ucast c :: u128) = unat w * unat a + unat r + unat c"
proof -
  have m: "unat (ucast w * ucast a :: u128) = unat w * unat a"
    using word_products [of w a] by (simp add: unat_word_ariths)
  then show ?thesis using word_products [of w a] unat_less_pow(3) [of r] unat_less_pow(3) [of c]
    by (simp add: unat_add_128)
qed

lemma mul_add_step_value:
  assumes "mul_add_step w c x = (y, c')"
  shows "int (unat y) + 2 ^ 64 * int (unat c') =
    (case x of (r, a) \<Rightarrow> int (unat r) + int (unat w) * int (unat a)) + int (unat c)"
proof -
  let ?t = "ucast w * ucast (snd x) + ucast (fst x) + ucast c :: u128"
  have y: "y = Lw ?t" "c' = Hw ?t" using assms by (simp_all add: mul_add_step_def Let_def)
  have "unat y + 2 ^ 64 * unat c' = unat w * unat (snd x) + unat (fst x) + unat c"
    unfolding y Lw_Hw unat_mul_add_128 ..
  then have "int (unat y + 2 ^ 64 * unat c') = int (unat w * unat (snd x) + unat (fst x) + unat c)" by simp
  then show ?thesis by (simp add: split_beta)
qed

lemma bn_mul_add_words_value:
  assumes "bn_mul_add_words r a w = (r', c)" "length r = length a"
  shows "length r' = length a" "wval r' + 2 ^ (64 * length a) * unat c = wval r + unat w * wval a"
proof -
  have s: "chain (mul_add_step w) 0 (zip r a) = (r', c)" using assms(1) by (simp add: bn_mul_add_words_def unrolled_chain)
  show "length r' = length a" using length_chain [of "mul_add_step w" 0 "zip r a"] s assms(2) by simp
  have v: "True \<and> int (wval r') + 2 ^ (64 * length (zip r a)) * int (unat c) =
      gval (\<lambda>(r, a). int (unat r) + int (unat w) * int (unat a)) (zip r a) + int (unat (0 :: u64))"
    by (rule chain_value [where P = "\<lambda>_. True" and I = "\<lambda>_. True" and cv = "\<lambda>c. int (unat c)", OF _ s])
      (use mul_add_step_value in auto)
  have "int (wval r' + 2 ^ (64 * length a) * unat c) = int (wval r + unat w * wval a)"
    using v assms(2) by (simp add: gval_zip_add gval_mult int_wval)
  then show "wval r' + 2 ^ (64 * length a) * unat c = wval r + unat w * wval a" by (simp only: of_nat_eq_iff)
qed

lemma mul_step_add: "mul_step w c a = mul_add_step w c (0, a)"
  by (simp add: mul_step_def mul_add_step_def)

lemma bn_mul_words_add: "bn_mul_words a w = bn_mul_add_words (replicate (length a) 0) a w"
proof -
  have "chain (mul_step w) c a = chain (mul_add_step w) c (zip (replicate (length a) 0) a)" for c
    by (induction a arbitrary: c) (simp_all add: mul_step_add split_beta Let_def)
  then show ?thesis by (simp add: bn_mul_words_def bn_mul_add_words_def unrolled_chain)
qed

lemma bn_mul_words_value:
  assumes "bn_mul_words a w = (r, c)"
  shows "length r = length a" "wval r + 2 ^ (64 * length a) * unat c = unat w * wval a"
  using bn_mul_add_words_value [of "replicate (length a) 0" a w r c] assms by (simp_all add: bn_mul_words_add)

lemma bn_sqr_words_simps [simp]:
  "bn_sqr_words [] = []"
  "bn_sqr_words (w # ws) = Lw (ucast w * ucast w) # Hw (ucast w * ucast w) # bn_sqr_words ws"
  by (simp_all add: bn_sqr_words_def unrolled_chain sqr_step_def Let_def split_beta)

lemma length_bn_sqr_words [simp]: "length (bn_sqr_words ws) = 2 * length ws"
  by (induction ws) simp_all

end
