(* ===== verification/Bn_Array.thy ===== *)
theory Bn_Array
  imports Bn_Words
begin

text \<open>
  The other functions of \<open>crypto/fipsmodule/bn\<close> on arrays of words: comparison and selection without
  branches (\<open>cmp.c\<close>, \<open>bn.c\<close>), shifts and single bits (\<open>shift.c\<close>), and the length in bits (\<open>bn.c\<close>).
  The lemmas say what they do to the numbers.
\<close>

section \<open>Bits of an array\<close>

lemma bit_wval: "bit (wval ws) n \<longleftrightarrow> n div 64 < length ws \<and> bit (ws ! (n div 64)) (n mod 64)"
proof (induction ws arbitrary: n)
  case (Cons w ws)
  have "take_bit 64 (unat w) AND push_bit 64 (wval ws) = 0" by (simp add: bit_eq_iff bit_simps)
  then have "take_bit 64 (unat w) OR push_bit 64 (wval ws) = take_bit 64 (unat w) + push_bit 64 (wval ws)"
    by (simp add: disjunctive_add_eq_or)
  then have "wval (w # ws) = take_bit 64 (unat w) OR push_bit 64 (wval ws)"
    using unat_less_pow(3) [of w] by (simp add: take_bit_eq_mod push_bit_eq_mult mult.commute)
  then have b: "bit (wval (w # ws)) n \<longleftrightarrow> n < 64 \<and> bit w n \<or> 64 \<le> n \<and> bit (wval ws) (n - 64)"
    by (auto simp: bit_simps)
  show ?case
  proof (cases "n < 64")
    case False
    then have "n div 64 = Suc ((n - 64) div 64)" "n mod 64 = (n - 64) mod 64"
      by (simp_all add: le_div_geq le_mod_geq)
    with False Cons show ?thesis by (simp add: b del: wval.simps)
  qed (simp add: b del: wval.simps)
qed simp

lemma wval_take_less: "n \<le> length ws \<Longrightarrow> wval (take n ws) < 2 ^ (64 * n)"
  using wval_less [of "take n ws"] by simp

lemma wval_drop: "wval (drop n ws) = wval ws div 2 ^ (64 * n)"
proof (cases "n \<le> length ws")
  case True
  have "wval (take n ws) < 2 ^ (64 * n)" using True by (rule wval_take_less)
  then show ?thesis using wval_split [OF True] by simp
next
  case False
  then have "wval ws < 2 ^ (64 * n)"
    using wval_less [of ws] by (intro order_less_le_trans [OF wval_less] power_increasing) simp_all
  with False show ?thesis by simp
qed

lemma wval_take: "wval (take n ws) = wval ws mod 2 ^ (64 * n)"
proof (cases "n \<le> length ws")
  case True
  have "wval (take n ws) < 2 ^ (64 * n)" using True by (rule wval_take_less)
  then show ?thesis using wval_split [OF True] by simp
next
  case False
  then have "wval ws < 2 ^ (64 * n)"
    by (intro order_less_le_trans [OF wval_less] power_increasing) simp_all
  with False show ?thesis by simp
qed

section \<open>Comparison and selection\<close>

definition or_words :: "limbs \<Rightarrow> u64" where
  "or_words ws = fold (\<lambda>w mask. mask OR w) ws 0"

definition cmp_step :: "u64 \<times> u64 \<Rightarrow> u32 \<Rightarrow> u32" where
  "cmp_step ab ret =
     constant_time_select_int (constant_time_eq_w (fst ab) (snd ab)) ret
       (constant_time_select_int (constant_time_lt_w (fst ab) (snd ab)) (- 1) 1)"

definition bn_cmp_words_consttime :: "limbs \<Rightarrow> limbs \<Rightarrow> u32" where
  "bn_cmp_words_consttime a b =
     (let ret = fold cmp_step (zip a b) 0
      in if length a < length b then
           constant_time_select_int (constant_time_is_zero_w (or_words (drop (length a) b))) ret (- 1)
         else if length b < length a then
           constant_time_select_int (constant_time_is_zero_w (or_words (drop (length b) a))) ret 1
         else ret)"

definition bn_less_than_words :: "limbs \<Rightarrow> limbs \<Rightarrow> bool" where
  "bn_less_than_words a b \<longleftrightarrow> sint (bn_cmp_words_consttime a b) < 0"

definition bn_select_words :: "u64 \<Rightarrow> limbs \<Rightarrow> limbs \<Rightarrow> limbs" where
  "bn_select_words m a b = map (\<lambda>(x, y). constant_time_select_w m x y) (zip a b)"

lemma or_words_0: "or_words ws = 0 \<longleftrightarrow> (\<forall>w \<in> set ws. w = 0)"
proof -
  have "fold (\<lambda>w mask. mask OR w) ws m = 0 \<longleftrightarrow> m = 0 \<and> (\<forall>w \<in> set ws. w = 0)" for m :: u64
    by (induction ws arbitrary: m) (auto simp: or_eq_0_iff)
  then show ?thesis by (simp add: or_words_def)
qed

lemma or_words_wval: "or_words ws = 0 \<longleftrightarrow> wval ws = 0"
  by (simp add: or_words_0 wval_0_iff)

definition sign_of :: "nat \<Rightarrow> nat \<Rightarrow> u32" where
  "sign_of m n = (if m < n then - 1 else if m = n then 0 else 1)"

lemma digits_less:
  fixes a b x y :: nat
  assumes "a < n" "b < n"
  shows "a + n * x < b + n * y \<longleftrightarrow> x < y \<or> x = y \<and> a < b" "a + n * x = b + n * y \<longleftrightarrow> x = y \<and> a = b"
proof -
  have less: "a + n * x < b + n * y" if "x < y" "a < n" for a b x y :: nat
  proof -
    have "a + n * x < n * Suc x" using that(2) by simp
    also have "\<dots> \<le> n * y" using that(1) by (intro mult_le_mono2) simp
    finally show ?thesis by simp
  qed
  show "a + n * x < b + n * y \<longleftrightarrow> x < y \<or> x = y \<and> a < b" "a + n * x = b + n * y \<longleftrightarrow> x = y \<and> a = b"
    using less [of x y a b] less [of y x b a] assms by (cases x y rule: linorder_cases; simp)+
qed

lemma cmp_fold: "length a = length b \<Longrightarrow> fold cmp_step (zip a b) 0 = sign_of (wval a) (wval b)"
proof (induction a arbitrary: b rule: rev_induct)
  case (snoc x xs)
  then obtain ys y where b: "b = ys @ [y]" "length ys = length xs" by (cases b rule: rev_cases) simp_all
  have "wval xs < 2 ^ (64 * length xs)" "wval ys < 2 ^ (64 * length xs)"
    using wval_less [of xs] wval_less [of ys] b(2) by simp_all
  then have "sign_of (wval (xs @ [x])) (wval b) =
      (if x = y then sign_of (wval xs) (wval ys) else if x < y then - 1 else 1)"
    by (simp add: b wval_append sign_of_def digits_less word_less_nat_alt word_unat_eq_iff)
  with snoc b show ?case by (simp add: cmp_step_def constant_time)
qed (simp add: sign_of_def)

lemma bn_cmp_words_value: "bn_cmp_words_consttime a b = sign_of (wval a) (wval b)"
proof -
  define n where "n = min (length a) (length b)"
  have f: "fold cmp_step (zip a b) 0 = sign_of (wval (take n a)) (wval (take n b))"
    using cmp_fold [of "take n a" "take n b"] by (simp add: n_def flip: take_zip)
  have s: "wval c = wval (take n c) + 2 ^ (64 * n) * wval (drop n c)" if "n \<le> length c" for c
    using wval_split [OF that] .
  note t = wval_take_less [of n]
  show ?thesis
  proof (cases "length a" "length b" rule: linorder_cases)
    case less
    then have "n = length a" by (simp add: n_def)
    then show ?thesis using less s [of b] t [of b] t [of a] digits_less [of "wval a" "2 ^ (64 * n)" "wval (take n b)" 0 "wval (drop n b)"]
      by (auto simp: bn_cmp_words_consttime_def f constant_time or_words_wval sign_of_def Let_def)
  next
    case equal
    then show ?thesis using cmp_fold [of a b] by (simp add: bn_cmp_words_consttime_def)
  next
    case greater
    then have "n = length b" by (simp add: n_def)
    then show ?thesis using greater s [of a] t [of a] t [of b] digits_less [of "wval (take n a)" "2 ^ (64 * n)" "wval b" "wval (drop n a)" 0]
      by (auto simp: bn_cmp_words_consttime_def f constant_time or_words_wval sign_of_def Let_def)
  qed
qed

lemma bn_less_than_words_value: "bn_less_than_words a b \<longleftrightarrow> wval a < wval b"
  by (simp add: bn_less_than_words_def bn_cmp_words_value sign_of_def)

lemma bn_select_words_eq:
  "length a = length b \<Longrightarrow> bn_select_words (if c then - 1 else 0) a b = (if c then a else b)"
  by (induction rule: list_induct2) (simp_all add: bn_select_words_def constant_time)

section \<open>Shifts and lengths\<close>

definition bn_rshift_words :: "limbs \<Rightarrow> nat \<Rightarrow> limbs" where
  "bn_rshift_words a shift =
     (let num = length a; shift_bits = shift mod 64; shift_words = shift div 64
      in if shift_words \<ge> num then replicate num 0
         else (if shift_bits = 0 then drop shift_words a
               else map (\<lambda>i. drop_bit shift_bits (a ! i) OR push_bit (64 - shift_bits) (a ! (i + 1)))
                      [shift_words..<num - 1] @ [drop_bit shift_bits (a ! (num - 1))])
              @ replicate shift_words 0)"

definition bn_rshift1_words :: "limbs \<Rightarrow> limbs" where
  "bn_rshift1_words a =
     (let num = length a
      in if num = 0 then []
         else map (\<lambda>i. drop_bit 1 (a ! i) OR push_bit 63 (a ! (i + 1))) [0..<num - 1] @ [drop_bit 1 (a ! (num - 1))])"

definition bn_is_bit_set_words :: "limbs \<Rightarrow> nat \<Rightarrow> bool" where
  "bn_is_bit_set_words a n = (if n div 64 \<ge> length a then False else drop_bit (n mod 64) (a ! (n div 64)) AND 1 \<noteq> 0)"

text \<open>One halving of the search for the highest bit, and the search; \<open>l\<close> is the part that is left.\<close>

definition num_bits_mask :: "nat \<Rightarrow> u64 \<Rightarrow> u64" where
  "num_bits_mask k l = (let x = drop_bit k l; m = 0 - x in 0 - drop_bit 63 m)"

definition num_bits_step :: "nat \<Rightarrow> u64 \<times> u32 \<Rightarrow> u64 \<times> u32" where
  "num_bits_step k s =
     (let (l, bits) = s; m = num_bits_mask k l
      in (l XOR ((drop_bit k l XOR l) AND m), bits + ucast (of_nat k AND m)))"

definition BN_num_bits_word :: "u64 \<Rightarrow> u32" where
  "BN_num_bits_word l =
     (let (l, bits) = fold num_bits_step [32, 16, 8, 4, 2] (l, if l \<noteq> 0 then 1 else 0)
      in bits + ucast (1 AND num_bits_mask 1 l))"

lemma bn_is_bit_set_words_value: "bn_is_bit_set_words a n \<longleftrightarrow> bit (wval a) n"
  by (simp add: bn_is_bit_set_words_def bit_wval bit_iff_odd_drop_bit [of "a ! (n div 64)"] and_one_eq mod_2_eq_odd)

lemma length_bn_rshift_words [simp]: "length (bn_rshift_words a n) = length a"
  by (auto simp: bn_rshift_words_def Let_def)

lemma nth_bn_rshift_words:
  assumes "i < length a"
  shows "bn_rshift_words a n ! i =
    (if i + n div 64 < length a then drop_bit (n mod 64) (a ! (i + n div 64)) else 0) OR
    (if i + n div 64 + 1 < length a then push_bit (64 - n mod 64) (a ! (i + n div 64 + 1)) else 0)"
proof -
  have full: "push_bit 64 (w :: u64) = 0" for w by (simp add: bit_eq_iff bit_simps)
  show ?thesis
  proof (cases "i + n div 64 < length a - 1")
    case True
    then show ?thesis by (auto simp: bn_rshift_words_def Let_def nth_append add.commute full)
  next
    case False
    have "\<not> i + n div 64 < length a \<Longrightarrow> i + n div 64 - length a < n div 64" using assms by arith
    then show ?thesis using assms False
      by (cases "i + n div 64 = length a - 1") (auto simp: bn_rshift_words_def Let_def nth_append add.commute full)
  qed
qed

lemma bn_rshift_words_value: "wval (bn_rshift_words a n) = wval a div 2 ^ n"
proof -
  have "wval (bn_rshift_words a n) = drop_bit n (wval a)"
  proof (rule bit_eqI)
    fix m :: nat
    define i j p q where ij: "i = m div 64" "j = m mod 64" and pq: "p = n div 64" "q = n mod 64"
    have nm: "n + m = 64 * (i + p) + (j + q)" by (simp add: ij pq algebra_simps)
    have less: "j < 64" "q < 64" by (simp_all add: ij pq)
    have l: "bit (wval (bn_rshift_words a n)) m \<longleftrightarrow> i < length a \<and>
        (i + p < length a \<and> bit (a ! (i + p)) (q + j) \<or>
         i + p + 1 < length a \<and> 64 - q \<le> j \<and> bit (a ! (i + p + 1)) (j - (64 - q)))"
      using less by (cases "i < length a"; cases "i + p < length a"; cases "i + p + 1 < length a")
        (simp_all add: bit_wval nth_bn_rshift_words bit_or_iff bit_push_bit_iff bit_drop_bit_eq flip: ij pq)
    have r: "bit (drop_bit n (wval a)) m \<longleftrightarrow> (n + m) div 64 < length a \<and> bit (a ! ((n + m) div 64)) ((n + m) mod 64)"
      by (simp add: bit_drop_bit_eq bit_wval)
    show "bit (wval (bn_rshift_words a n)) m \<longleftrightarrow> bit (drop_bit n (wval a)) m"
    proof (cases "j + q < 64")
      case True
      then have "(n + m) div 64 = i + p" "(n + m) mod 64 = j + q"
        unfolding nm by (simp_all only: div_mult_self4 mod_mult_self4 mod_less)
      with True show ?thesis unfolding l r by (auto simp: add.commute)
    next
      case False
      then have nm': "n + m = 64 * (i + p + 1) + (j + q - 64)" "j + q - 64 < 64" using nm less by simp_all
      then have "(n + m) div 64 = i + p + 1" "(n + m) mod 64 = j - (64 - q)"
        using less nm'(2) unfolding nm'(1) by (simp_all only: div_mult_self4 mod_mult_self4 mod_less)
      with False show ?thesis unfolding l r by (auto simp: add.commute dest: bit_imp_le_length)
    qed
  qed
  then show ?thesis by (simp add: drop_bit_eq_div)
qed

lemma bn_rshift1_words_eq: "bn_rshift1_words a = bn_rshift_words a 1"
  by (cases a) (auto simp: bn_rshift1_words_def bn_rshift_words_def Let_def)

lemma num_bits_mask_eq:
  assumes "1 \<le> k"
  shows "num_bits_mask k l = (if drop_bit k l \<noteq> 0 then - 1 else 0)"
proof -
  have "\<not> bit (drop_bit k l) 63" using assms by (auto simp: bit_drop_bit_eq dest: bit_imp_le_length)
  then have "bit (0 - drop_bit k l) 63 \<longleftrightarrow> drop_bit k l \<noteq> 0"
    using bit_63_diff [of 0 "drop_bit k l"] by (simp add: word_gt_0)
  then show ?thesis using constant_time_msb_w_eq [of "0 - drop_bit k l"]
    by (simp add: num_bits_mask_def Let_def constant_time_msb_w_def)
qed

lemma num_bits_step_eq:
  assumes "1 \<le> k" "k < 64"
  shows "num_bits_step k (l, bits) = (if drop_bit k l \<noteq> 0 then (drop_bit k l, bits + of_nat k) else (l, bits))"
proof -
  have "l XOR (drop_bit k l XOR l) = drop_bit k l" by (simp add: bit_eq_iff bit_simps) blast
  moreover have "(ucast (of_nat k :: u64) :: u32) = of_nat k" using assms(2)
    by (simp add: unsigned_of_nat take_bit_nat_eq_self)
  ultimately show ?thesis using num_bits_mask_eq [OF assms(1), of l] by (simp add: num_bits_step_def)
qed

lemma num_bits_step_finds:
  assumes "drop_bit r l \<noteq> 0" "unat (drop_bit r l) < 2 ^ (2 * k)" "1 \<le> k" "k < 64"
  shows "\<exists>r'. num_bits_step k (drop_bit r l, of_nat (Suc r)) = (drop_bit r' l, of_nat (Suc r')) \<and>
    drop_bit r' l \<noteq> 0 \<and> unat (drop_bit r' l) < 2 ^ k"
proof (cases "drop_bit k (drop_bit r l) = 0")
  case True
  then have "unat (drop_bit r l) < 2 ^ k" using unat_drop_bit_div [of k "drop_bit r l"] by (simp add: div_eq_0_iff)
  then show ?thesis using True assms by (intro exI [of _ r]) (simp add: num_bits_step_eq del: drop_bit_drop_bit)
next
  case False
  have "unat (drop_bit k (drop_bit r l)) < 2 ^ k"
    using assms(2) by (simp only: unat_drop_bit_div [of k "drop_bit r l"]) (simp add: less_mult_imp_div_less mult_2 flip: power_add)
  then show ?thesis using False assms
    by (intro exI [of _ "k + r"]) (simp add: num_bits_step_eq)
qed

lemma BN_num_bits_word_value:
  "l = 0 \<Longrightarrow> BN_num_bits_word l = 0"
  "l \<noteq> 0 \<Longrightarrow> \<exists>r < 64. unat (BN_num_bits_word l) = Suc r \<and> 2 ^ r \<le> unat l \<and> unat l < 2 ^ Suc r"
proof -
  show "BN_num_bits_word l = 0" if "l = 0" unfolding that by code_simp
  assume l: "l \<noteq> 0"
  note step = num_bits_step_finds [where l = l]
  have "unat (drop_bit 0 l) < 2 ^ (2 * 32)" "drop_bit 0 l \<noteq> 0" using unat_less_pow(3) [of l] l by simp_all
  then obtain r1 where 1: "num_bits_step 32 (drop_bit 0 l, of_nat (Suc 0)) = (drop_bit r1 l, of_nat (Suc r1))"
      "drop_bit r1 l \<noteq> 0" "unat (drop_bit r1 l) < 2 ^ (2 * 16)" using step [of 0 32] by auto
  obtain r2 where 2: "num_bits_step 16 (drop_bit r1 l, of_nat (Suc r1)) = (drop_bit r2 l, of_nat (Suc r2))"
      "drop_bit r2 l \<noteq> 0" "unat (drop_bit r2 l) < 2 ^ (2 * 8)" using step [OF 1(2,3)] by auto
  obtain r3 where 3: "num_bits_step 8 (drop_bit r2 l, of_nat (Suc r2)) = (drop_bit r3 l, of_nat (Suc r3))"
      "drop_bit r3 l \<noteq> 0" "unat (drop_bit r3 l) < 2 ^ (2 * 4)" using step [OF 2(2,3)] by auto
  obtain r4 where 4: "num_bits_step 4 (drop_bit r3 l, of_nat (Suc r3)) = (drop_bit r4 l, of_nat (Suc r4))"
      "drop_bit r4 l \<noteq> 0" "unat (drop_bit r4 l) < 2 ^ (2 * 2)" using step [OF 3(2,3)] by auto
  obtain r5 where 5: "num_bits_step 2 (drop_bit r4 l, of_nat (Suc r4)) = (drop_bit r5 l, of_nat (Suc r5))"
      "drop_bit r5 l \<noteq> 0" "unat (drop_bit r5 l) < 2 ^ (2 * 1)" using step [OF 4(2,3)] by auto
  obtain r where 6: "num_bits_step 1 (drop_bit r5 l, of_nat (Suc r5)) = (drop_bit r l, of_nat (Suc r))"
      "drop_bit r l \<noteq> 0" "unat (drop_bit r l) < 2 ^ 1" using step [OF 5(2,3)] by auto
  have "fold num_bits_step [32, 16, 8, 4, 2] (drop_bit 0 l, of_nat (Suc 0)) = (drop_bit r5 l, of_nat (Suc r5))"
    by (simp only: fold_simps 1(1) 2(1) 3(1) 4(1) 5(1))
  then have "BN_num_bits_word l = of_nat (Suc r5) + ucast (1 AND num_bits_mask 1 (drop_bit r5 l))"
    using l by (simp add: BN_num_bits_word_def)
  also have "\<dots> = of_nat (Suc r)"
    using 6(1) num_bits_mask_eq [of 1 "drop_bit r5 l"]
    by (auto simp: num_bits_step_eq of_nat_Suc [of 0] simp del: of_nat_Suc drop_bit_drop_bit split: if_splits)
  finally have "BN_num_bits_word l = of_nat (Suc r)" .
  moreover have "drop_bit r l = 0" if "64 \<le> r"
    using that by (intro bit_word_eqI) (auto simp: bit_drop_bit_eq dest: bit_imp_le_length)
  then have r: "r < 64" using 6(2) by (metis not_less)
  ultimately have "unat (BN_num_bits_word l) = Suc r" by (simp add: unat_of_nat del: of_nat_Suc)
  moreover have "unat (drop_bit r l) = 1" using 6(2,3) by (cases "unat (drop_bit r l)") (auto simp: unat_eq_zero)
  then have "unat l div 2 ^ r = 1" by (simp add: unat_drop_bit_div)
  then have "2 ^ r \<le> unat l" "unat l < 2 ^ Suc r"
    using dividend_less_div_times [of "2 ^ r" "unat l"] div_times_less_eq_dividend [of "unat l" "2 ^ r"] by simp_all
  ultimately show "\<exists>r < 64. unat (BN_num_bits_word l) = Suc r \<and> 2 ^ r \<le> unat l \<and> unat l < 2 ^ Suc r" using r by blast
qed

end
