(* ===== verification/Bn_Mul.thy ===== *)
theory Bn_Mul
  imports Bn_Array
begin

text \<open>
  The schoolbook product of arrays of words (\<open>bn_mul_normal\<close> in \<open>crypto/fipsmodule/bn/mul.c\<close>), by rows, and
  writing words into an array.
\<close>

section \<open>The schoolbook product\<close>

definition set_words :: "limbs \<Rightarrow> nat \<Rightarrow> limbs \<Rightarrow> limbs" where
  "set_words r k ws = take k r @ ws @ drop (k + length ws) r"

text \<open>The row of \<open>b[k]\<close> is added at \<open>r[k]\<close>, and its carry is stored behind.\<close>

definition mul_row :: "limbs \<Rightarrow> limbs \<Rightarrow> nat \<Rightarrow> limbs \<Rightarrow> limbs" where
  "mul_row a b k r =
     (let (ws, c) = bn_mul_add_words (take (length a) (drop k r)) a (b ! k) in set_words r k (ws @ [c]))"

definition bn_mul_normal :: "limbs \<Rightarrow> limbs \<Rightarrow> limbs \<Rightarrow> limbs" where
  "bn_mul_normal r a b =
     (let (a, b) = (if length a < length b then (b, a) else (a, b))
      in if length b = 0 then set_words r 0 (replicate (length a) 0)
         else let (ws, c) = bn_mul_words a (b ! 0)
              in fold (mul_row a b) [1..<length b] (set_words r 0 (ws @ [c])))"

lemma length_set_words [simp]: "k + length ws \<le> length r \<Longrightarrow> length (set_words r k ws) = length r"
  by (simp add: set_words_def)

lemma take_set_words: "n = k + length ws \<Longrightarrow> n \<le> length r \<Longrightarrow> take n (set_words r k ws) = take k r @ ws"
  by (simp add: set_words_def)

lemma mul_row_value:
  assumes "k + length a < length r"
  shows "length (mul_row a b k r) = length r"
    "wval (take (k + length a + 1) (mul_row a b k r)) =
      wval (take (k + length a) r) + 2 ^ (64 * k) * (unat (b ! k) * wval a)"
proof -
  obtain ws c where m: "bn_mul_add_words (take (length a) (drop k r)) a (b ! k) = (ws, c)" by force
  have n: "length (take (length a) (drop k r)) = length a" using assms by simp
  note v = bn_mul_add_words_value [OF m n]
  have e: "mul_row a b k r = set_words r k (ws @ [c])" by (simp add: mul_row_def m)
  show "length (mul_row a b k r) = length r" using assms v(1) by (simp add: e)
  have "take (k + length a) r = take k r @ take (length a) (drop k r)" by (rule take_add)
  then have "wval (take (k + length a) r) = wval (take k r) + 2 ^ (64 * k) * wval (take (length a) (drop k r))"
    using assms by (simp add: wval_append)
  moreover have "wval (take (k + length a + 1) (mul_row a b k r)) =
      wval (take k r) + 2 ^ (64 * k) * (wval ws + 2 ^ (64 * length a) * unat c)"
    using assms v(1) by (simp add: e take_set_words wval_append)
  ultimately show "wval (take (k + length a + 1) (mul_row a b k r)) =
      wval (take (k + length a) r) + 2 ^ (64 * k) * (unat (b ! k) * wval a)"
    unfolding v(2) by (simp add: distrib_left)
qed

lemma mul_rows_value:
  assumes "length a + length b \<le> length r" "1 \<le> k" "k \<le> length b"
    and "wval (take (k + length a) r) = wval (take k b) * wval a"
  shows "length (fold (mul_row a b) [k..<length b] r) = length r \<and>
    wval (take (length b + length a) (fold (mul_row a b) [k..<length b] r)) = wval b * wval a"
  using assms
proof (induction "length b - k" arbitrary: k r)
  case (Suc n)
  then have k: "k < length b" by simp
  have row: "length (mul_row a b k r) = length r"
    "wval (take (k + length a + 1) (mul_row a b k r)) =
      wval (take (k + length a) r) + 2 ^ (64 * k) * (unat (b ! k) * wval a)"
    using mul_row_value [of k a r b] Suc.prems(1) k by simp_all
  have "wval (take (Suc k) b) = wval (take k b) + 2 ^ (64 * k) * unat (b ! k)"
    using k by (simp add: take_Suc_conv_app_nth wval_append)
  then have "wval (take (Suc k + length a) (mul_row a b k r)) = wval (take (Suc k) b) * wval a"
    using row(2) Suc.prems(4) by (simp add: distrib_right)
  then show ?case using Suc.hyps(1) [of "Suc k" "mul_row a b k r"] Suc.hyps(2) Suc.prems k row(1)
    by (simp add: upt_rec [of k])
qed simp

lemma bn_mul_normal_value:
  assumes "length a + length b \<le> length r"
  shows "length (bn_mul_normal r a b) = length r"
    "wval (take (length a + length b) (bn_mul_normal r a b)) = wval a * wval b"
proof -
  have swapped: "length (bn_mul_normal r a b) = length r \<and>
      wval (take (length b + length a) (bn_mul_normal r a b)) = wval b * wval a"
    if "length b \<le> length a" "length a + length b \<le> length r" for a b
  proof (cases "length b = 0")
    case True
    then show ?thesis using that by (simp add: bn_mul_normal_def take_set_words)
  next
    case False
    obtain ws c where m: "bn_mul_words a (b ! 0) = (ws, c)" by force
    note v = bn_mul_words_value [OF m]
    let ?r = "set_words r 0 (ws @ [c])"
    have l: "length ?r = length r" using that False v(1) by (cases b) simp_all
    have "wval (take (1 + length a) ?r) = unat (b ! 0) * wval a"
      using that False v by (cases b) (simp_all add: take_set_words wval_append)
    moreover have "wval (take 1 b) = unat (b ! 0)" using False by (cases b) simp_all
    moreover have "bn_mul_normal r a b = fold (mul_row a b) [1..<length b] ?r"
      using that(1) False by (simp add: bn_mul_normal_def m del: upt_Suc)
    moreover have "1 \<le> length b" using False by (simp add: Suc_le_eq)
    ultimately show ?thesis using mul_rows_value [of a b ?r 1] that l by (simp add: add.commute)
  qed
  have "bn_mul_normal r a b = bn_mul_normal r b a" if "length a < length b"
    using that by (simp add: bn_mul_normal_def)
  then show "length (bn_mul_normal r a b) = length r"
    "wval (take (length a + length b) (bn_mul_normal r a b)) = wval a * wval b"
    using swapped [of a b] swapped [of b a] assms by (cases "length a < length b"; simp add: ac_simps)+
qed

text \<open>The words behind the product stay.\<close>

lemma drop_set_words: "k + length ws \<le> m \<Longrightarrow> m \<le> length r \<Longrightarrow> drop m (set_words r k ws) = drop m r"
  by (simp add: set_words_def)

lemma drop_mul_row:
  assumes "k + length a < m" "m \<le> length r"
  shows "drop m (mul_row a b k r) = drop m r"
proof -
  obtain ws c where m: "bn_mul_add_words (take (length a) (drop k r)) a (b ! k) = (ws, c)" by force
  then have "length ws = length a" using bn_mul_add_words_value(1) [OF m] assms by simp
  then show ?thesis using assms by (simp add: mul_row_def m drop_set_words)
qed

lemma drop_mul_rows:
  assumes "\<forall>k \<in> set ks. k + length a < m" "m \<le> length r"
  shows "drop m (fold (mul_row a b) ks r) = drop m r"
  using assms
proof (induction ks arbitrary: r)
  case (Cons k ks)
  then have "m \<le> length (mul_row a b k r)" using mul_row_value(1) [of k a r b] by simp
  with Cons show ?case by (simp add: drop_mul_row)
qed simp

lemma drop_bn_mul_normal:
  assumes "length a + length b \<le> length r"
  shows "drop (length a + length b) (bn_mul_normal r a b) = drop (length a + length b) r"
proof -
  have ordered: "drop (length a + length b) (bn_mul_normal r a b) = drop (length a + length b) r"
    if "length b \<le> length a" "length a + length b \<le> length r" for a b
  proof (cases "length b = 0")
    case True
    then show ?thesis using that by (simp add: bn_mul_normal_def drop_set_words)
  next
    case False
    obtain ws c where m: "bn_mul_words a (b ! 0) = (ws, c)" by force
    have w: "length ws = length a" using bn_mul_words_value(1) [OF m] .
    then have "drop (length a + length b) (set_words r 0 (ws @ [c])) = drop (length a + length b) r"
      using that False by (simp add: drop_set_words Suc_le_eq)
    moreover have "length (set_words r 0 (ws @ [c])) = length r"
      by (rule length_set_words) (use that False w in \<open>cases b; simp\<close>)
    ultimately have "drop (length a + length b) (fold (mul_row a b) [1..<length b] (set_words r 0 (ws @ [c]))) =
        drop (length a + length b) r"
      using drop_mul_rows [of "[1..<length b]" a "length a + length b" "set_words r 0 (ws @ [c])" b] that by simp
    then show ?thesis using that False by (simp add: bn_mul_normal_def m del: upt_Suc)
  qed
  have "bn_mul_normal r a b = bn_mul_normal r b a" if "length a < length b"
    using that by (simp add: bn_mul_normal_def)
  then show ?thesis using ordered [of a b] ordered [of b a] assms by (cases "length a < length b") (simp_all add: add.commute)
qed

end
