(* ===== verification/Bn_Comba.thy ===== *)
theory Bn_Comba
  imports Bn_Words
begin

text \<open>
  The products of 4 and 8 words by columns (\<open>generic.c\<close>): three words \<open>c0\<close>, \<open>c1\<close>, \<open>c2\<close> collect the
  products \<open>a[i] * b[j]\<close> of one column after the other. The columns are listed in the order of the
  source; the names of the three words rotate there from one column to the next.
\<close>

type_synonym acc = "u64 \<times> u64 \<times> u64"

definition mul_add_c :: "u64 \<Rightarrow> u64 \<Rightarrow> acc \<Rightarrow> acc" where
  "mul_add_c a b c =
     (let (c0, c1, c2) = c; t = ucast a * ucast b; t = t + ucast c0; hi = Hw t; c1 = c1 + hi
      in (Lw t, c1, if c1 < hi then c2 + 1 else c2))"

definition mul_add_c2 :: "u64 \<Rightarrow> u64 \<Rightarrow> acc \<Rightarrow> acc" where
  "mul_add_c2 a b c =
     (let (c0, c1, c2) = c; t = ucast a * ucast b; tt = t + ucast c0; c0 = Lw tt; hi = Hw tt; c1 = c1 + hi;
          c2 = (if c1 < hi then c2 + 1 else c2); t = t + ucast c0; hi = Hw t; c1 = c1 + hi
      in (Lw t, c1, if c1 < hi then c2 + 1 else c2))"

definition sqr_add_c :: "limbs \<Rightarrow> nat \<Rightarrow> acc \<Rightarrow> acc" where
  "sqr_add_c a i = mul_add_c (a ! i) (a ! i)"

definition sqr_add_c2 :: "limbs \<Rightarrow> nat \<Rightarrow> nat \<Rightarrow> acc \<Rightarrow> acc" where
  "sqr_add_c2 a i j = mul_add_c2 (a ! i) (a ! j)"

fun comba :: "('i \<Rightarrow> acc \<Rightarrow> acc) \<Rightarrow> 'i list list \<Rightarrow> acc \<Rightarrow> limbs" where
  "comba f [] c = (case c of (c0, c1, c2) \<Rightarrow> [c0])"
| "comba f (col # cols) c = (case fold f col c of (c0, c1, c2) \<Rightarrow> c0 # comba f cols (c1, c2, 0))"

definition mul_comba4_columns :: "(nat \<times> nat) list list" where
  "mul_comba4_columns =
     [[(0, 0)],
      [(0, 1), (1, 0)],
      [(2, 0), (1, 1), (0, 2)],
      [(0, 3), (1, 2), (2, 1), (3, 0)],
      [(3, 1), (2, 2), (1, 3)],
      [(2, 3), (3, 2)],
      [(3, 3)]]"

definition mul_comba8_columns :: "(nat \<times> nat) list list" where
  "mul_comba8_columns =
     [[(0, 0)],
      [(0, 1), (1, 0)],
      [(2, 0), (1, 1), (0, 2)],
      [(0, 3), (1, 2), (2, 1), (3, 0)],
      [(4, 0), (3, 1), (2, 2), (1, 3), (0, 4)],
      [(0, 5), (1, 4), (2, 3), (3, 2), (4, 1), (5, 0)],
      [(6, 0), (5, 1), (4, 2), (3, 3), (2, 4), (1, 5), (0, 6)],
      [(0, 7), (1, 6), (2, 5), (3, 4), (4, 3), (5, 2), (6, 1), (7, 0)],
      [(7, 1), (6, 2), (5, 3), (4, 4), (3, 5), (2, 6), (1, 7)],
      [(2, 7), (3, 6), (4, 5), (5, 4), (6, 3), (7, 2)],
      [(7, 3), (6, 4), (5, 5), (4, 6), (3, 7)],
      [(4, 7), (5, 6), (6, 5), (7, 4)],
      [(7, 5), (6, 6), (5, 7)],
      [(6, 7), (7, 6)],
      [(7, 7)]]"

definition sqr_comba4_columns :: "(nat \<times> nat) list list" where
  "sqr_comba4_columns =
     [[(0, 0)], [(1, 0)], [(1, 1), (2, 0)], [(3, 0), (2, 1)], [(2, 2), (3, 1)], [(3, 2)], [(3, 3)]]"

definition sqr_comba8_columns :: "(nat \<times> nat) list list" where
  "sqr_comba8_columns =
     [[(0, 0)],
      [(1, 0)],
      [(1, 1), (2, 0)],
      [(3, 0), (2, 1)],
      [(2, 2), (3, 1), (4, 0)],
      [(5, 0), (4, 1), (3, 2)],
      [(3, 3), (4, 2), (5, 1), (6, 0)],
      [(7, 0), (6, 1), (5, 2), (4, 3)],
      [(4, 4), (5, 3), (6, 2), (7, 1)],
      [(7, 2), (6, 3), (5, 4)],
      [(5, 5), (6, 4), (7, 3)],
      [(7, 4), (6, 5)],
      [(6, 6), (7, 5)],
      [(7, 6)],
      [(7, 7)]]"

definition mul_entry :: "limbs \<Rightarrow> limbs \<Rightarrow> nat \<times> nat \<Rightarrow> acc \<Rightarrow> acc" where
  "mul_entry a b ij = mul_add_c (a ! fst ij) (b ! snd ij)"

definition sqr_entry :: "limbs \<Rightarrow> nat \<times> nat \<Rightarrow> acc \<Rightarrow> acc" where
  "sqr_entry a ij = (if fst ij = snd ij then sqr_add_c a (fst ij) else sqr_add_c2 a (fst ij) (snd ij))"

definition bn_mul_comba4 :: "limbs \<Rightarrow> limbs \<Rightarrow> limbs" where
  "bn_mul_comba4 a b = comba (mul_entry a b) mul_comba4_columns (0, 0, 0)"

definition bn_mul_comba8 :: "limbs \<Rightarrow> limbs \<Rightarrow> limbs" where
  "bn_mul_comba8 a b = comba (mul_entry a b) mul_comba8_columns (0, 0, 0)"

definition bn_sqr_comba4 :: "limbs \<Rightarrow> limbs" where
  "bn_sqr_comba4 a = comba (sqr_entry a) sqr_comba4_columns (0, 0, 0)"

definition bn_sqr_comba8 :: "limbs \<Rightarrow> limbs" where
  "bn_sqr_comba8 a = comba (sqr_entry a) sqr_comba8_columns (0, 0, 0)"

section \<open>Their values\<close>

definition acc_val :: "acc \<Rightarrow> nat" where
  "acc_val c = (case c of (c0, c1, c2) \<Rightarrow> unat c0 + 2 ^ 64 * unat c1 + 2 ^ 128 * unat c2)"

lemma unat_add_carry:
  fixes x y :: u64
  shows "unat (x + y) + 2 ^ 64 * (if x + y < y then 1 else 0) = unat x + unat y"
  using unat_less_pow(3) [of x] unat_less_pow(3) [of y]
  by (cases "unat x + unat y < 2 ^ 64") (auto simp: word_less_nat_alt unat_word_ariths le_mod_geq)

lemma mul_add_c_value:
  assumes "acc_val c + unat a * unat b < 2 ^ 192"
  shows "acc_val (mul_add_c a b c) = acc_val c + unat a * unat b"
proof -
  obtain c0 c1 c2 where c: "c = (c0, c1, c2)" by (cases c)
  let ?t = "ucast a * ucast b + ucast c0 :: u128"
  define k :: nat where "k = (if c1 + Hw ?t < Hw ?t then 1 else 0)"
  have t: "unat (Lw ?t) + 2 ^ 64 * unat (Hw ?t) = unat a * unat b + unat c0"
    unfolding Lw_Hw using unat_mul_add_128 [of a b c0 0] by simp
  have s: "unat (c1 + Hw ?t) + 2 ^ 64 * k = unat c1 + unat (Hw ?t)"
    unfolding k_def by (rule unat_add_carry)
  have sum: "unat (Lw ?t) + 2 ^ 64 * unat (c1 + Hw ?t) + 2 ^ 128 * (unat c2 + k) = acc_val c + unat a * unat b"
  proof -
    have "unat (Lw ?t) + 2 ^ 64 * unat (c1 + Hw ?t) + 2 ^ 128 * (unat c2 + k) =
        unat (Lw ?t) + 2 ^ 64 * (unat (c1 + Hw ?t) + 2 ^ 64 * k) + 2 ^ 128 * unat c2"
      by (simp add: distrib_left)
    also have "\<dots> = unat (Lw ?t) + 2 ^ 64 * unat (Hw ?t) + 2 ^ 64 * unat c1 + 2 ^ 128 * unat c2"
      unfolding s by (simp add: distrib_left)
    finally show ?thesis unfolding t by (simp add: c acc_val_def)
  qed
  then have "2 ^ 128 * (unat c2 + k) < 2 ^ 128 * 2 ^ 64" using assms by simp
  then have "unat c2 + k < 2 ^ 64" by simp
  then have "unat (if c1 + Hw ?t < Hw ?t then c2 + 1 else c2) = unat c2 + k"
    by (auto simp: k_def unat_word_ariths)
  then show ?thesis using sum by (simp add: c mul_add_c_def acc_val_def Let_def)
qed

lemma mul_add_c2_twice: "mul_add_c2 a b c = mul_add_c a b (mul_add_c a b c)"
  by (simp add: mul_add_c2_def mul_add_c_def Let_def split_beta)

lemma mul_add_c2_value:
  assumes "acc_val c + 2 * (unat a * unat b) < 2 ^ 192"
  shows "acc_val (mul_add_c2 a b c) = acc_val c + 2 * (unat a * unat b)"
  using assms by (simp add: mul_add_c2_twice mul_add_c_value)

text \<open>The sum of the columns, and the entries as numbers.\<close>

primrec column_sum :: "('i \<Rightarrow> nat) \<Rightarrow> 'i list list \<Rightarrow> nat" where
  "column_sum g [] = 0"
| "column_sum g (col # cols) = sum_list (map g col) + 2 ^ 64 * column_sum g cols"

lemma fold_column:
  assumes "\<And>c i. acc_val c + g i < 2 ^ 192 \<Longrightarrow> acc_val (f i c) = acc_val c + g i"
    and "acc_val c + sum_list (map g col) < 2 ^ 192"
  shows "acc_val (fold f col c) = acc_val c + sum_list (map g col)"
  using assms(2) by (induction col arbitrary: c) (simp_all add: assms(1))

lemma comba_value:
  assumes step: "\<And>c i. acc_val c + g i < 2 ^ 192 \<Longrightarrow> acc_val (f i c) = acc_val c + g i"
    and "\<forall>col \<in> set cols. sum_list (map g col) \<le> 2 ^ 160" "acc_val c \<le> 2 ^ 160"
    and "acc_val c + column_sum g cols < 2 ^ (64 * Suc (length cols))"
  shows "length (comba f cols c) = Suc (length cols) \<and> wval (comba f cols c) = acc_val c + column_sum g cols"
  using assms(2-4)
proof (induction cols arbitrary: c)
  case Nil
  obtain c0 c1 c2 where c: "c = (c0, c1, c2)" by (cases c)
  have "acc_val c < 2 ^ 64" using Nil by simp
  then have "unat c1 = 0" "unat c2 = 0" by (simp_all add: c acc_val_def)
  then show ?case by (simp add: c acc_val_def)
next
  case (Cons col cols)
  obtain c0 c1 c2 where c: "fold f col c = (c0, c1, c2)" by (cases "fold f col c")
  have s: "sum_list (map g col) \<le> 2 ^ 160" using Cons.prems(1) by simp
  then have v: "acc_val (c0, c1, c2) = acc_val c + sum_list (map g col)"
    using fold_column [where f = f and g = g and c = c and col = col, OF step] Cons.prems(2) c by simp
  have split: "acc_val (c0, c1, c2) = unat c0 + 2 ^ 64 * acc_val (c1, c2, 0)"
    by (simp add: acc_val_def distrib_left)
  have "2 ^ 64 * acc_val (c1, c2, 0) \<le> 2 ^ 64 * 2 ^ 160" using split v s Cons.prems(2) by simp
  then have small: "acc_val (c1, c2, 0) \<le> 2 ^ 160" by simp
  have "2 ^ 64 * (acc_val (c1, c2, 0) + column_sum g cols) \<le> acc_val c + column_sum g (col # cols)"
    using split v by (simp add: distrib_left)
  also have "\<dots> < 2 ^ 64 * 2 ^ (64 * Suc (length cols))"
    using Cons.prems(3) pow64_Suc [of "Suc (length cols)", where 'a = nat] by simp
  finally have "acc_val (c1, c2, 0) + column_sum g cols < 2 ^ (64 * Suc (length cols))" by simp
  then have "length (comba f cols (c1, c2, 0)) = Suc (length cols) \<and>
      wval (comba f cols (c1, c2, 0)) = acc_val (c1, c2, 0) + column_sum g cols"
    using Cons.IH [OF _ small] Cons.prems(1) by simp
  then show ?case using split v by (simp add: c distrib_left)
qed

definition mul_weight :: "limbs \<Rightarrow> limbs \<Rightarrow> nat \<times> nat \<Rightarrow> nat" where
  "mul_weight a b ij = unat (a ! fst ij) * unat (b ! snd ij)"

definition sqr_weight :: "limbs \<Rightarrow> nat \<times> nat \<Rightarrow> nat" where
  "sqr_weight a ij = (if fst ij = snd ij then 1 else 2) * (unat (a ! fst ij) * unat (a ! snd ij))"

lemma mul_weight_le: "mul_weight a b ij \<le> 2 ^ 128"
  using word_products [of "a ! fst ij" "b ! snd ij"] by (simp add: mul_weight_def)

lemma sqr_weight_le: "sqr_weight a ij \<le> 2 ^ 129"
  using word_products [of "a ! fst ij" "a ! snd ij"] by (cases ij) (auto simp: sqr_weight_def)

lemma sum_list_le: "(\<And>i. g i \<le> m) \<Longrightarrow> sum_list (map g xs) \<le> length xs * (m :: nat)"
  by (induction xs) (simp_all add: add_mono)

lemma columns_le:
  fixes g :: "'i \<Rightarrow> nat"
  assumes "\<And>i. g i \<le> 2 ^ 129" "\<forall>col \<in> set cols. length col \<le> 8"
  shows "\<forall>col \<in> set cols. sum_list (map g col) \<le> 2 ^ 160"
proof
  fix col
  assume "col \<in> set cols"
  then have "length col * 2 ^ 129 \<le> 8 * 2 ^ 129" using assms(2) by simp
  then show "sum_list (map g col) \<le> 2 ^ 160" using sum_list_le [of g "2 ^ 129" col] assms(1) by simp
qed

lemma lists_of_8: "length a = 8 \<Longrightarrow> \<exists>a0 a1 a2 a3 a4 a5 a6 a7. a = [a0, a1, a2, a3, a4, a5, a6, a7]"
  and lists_of_4: "length a = 4 \<Longrightarrow> \<exists>a0 a1 a2 a3. a = [a0, a1, a2, a3]"
  by (auto simp: numeral_eq_Suc length_Suc_conv)

lemma mul_comba4_sum:
  "length a = 4 \<Longrightarrow> length b = 4 \<Longrightarrow> column_sum (mul_weight a b) mul_comba4_columns = wval a * wval b"
  using lists_of_4 [of a] lists_of_4 [of b]
  by (auto simp: mul_comba4_columns_def mul_weight_def algebra_simps)

lemma mul_comba8_sum:
  "length a = 8 \<Longrightarrow> length b = 8 \<Longrightarrow> column_sum (mul_weight a b) mul_comba8_columns = wval a * wval b"
  using lists_of_8 [of a] lists_of_8 [of b]
  by (auto simp: mul_comba8_columns_def mul_weight_def algebra_simps)

lemma sqr_comba4_sum:
  "length a = 4 \<Longrightarrow> column_sum (sqr_weight a) sqr_comba4_columns = wval a * wval a"
  using lists_of_4 [of a] by (auto simp: sqr_comba4_columns_def sqr_weight_def algebra_simps)

lemma sqr_comba8_sum:
  "length a = 8 \<Longrightarrow> column_sum (sqr_weight a) sqr_comba8_columns = wval a * wval a"
  using lists_of_8 [of a] by (auto simp: sqr_comba8_columns_def sqr_weight_def algebra_simps)

lemma mul_entry_value: "acc_val c + mul_weight a b ij < 2 ^ 192 \<Longrightarrow> acc_val (mul_entry a b ij c) = acc_val c + mul_weight a b ij"
  by (simp add: mul_entry_def mul_weight_def mul_add_c_value)

lemma sqr_entry_value: "acc_val c + sqr_weight a ij < 2 ^ 192 \<Longrightarrow> acc_val (sqr_entry a ij c) = acc_val c + sqr_weight a ij"
  by (auto simp: sqr_entry_def sqr_weight_def sqr_add_c_def sqr_add_c2_def mul_add_c_value mul_add_c2_value)

lemma wval_product_less: "length a = n \<Longrightarrow> length b = n \<Longrightarrow> wval a * wval b < 2 ^ (64 * (2 * n))"
  using mult_strict_mono [OF wval_less [of a] wval_less [of b]] by (simp flip: power_add)

lemma comba_product:
  assumes "\<And>c ij. acc_val c + g ij < 2 ^ 192 \<Longrightarrow> acc_val (f ij c) = acc_val c + g ij"
    and "\<And>ij. g ij \<le> 2 ^ 129" "\<forall>col \<in> set cols. length col \<le> 8"
    and "column_sum g cols = wval a * wval b" "length a = n" "length b = n" "Suc (length cols) = 2 * n"
  shows "length (comba f cols (0, 0, 0)) = 2 * n \<and> wval (comba f cols (0, 0, 0)) = wval a * wval b"
proof -
  have "acc_val (0, 0, 0) = 0" by (simp add: acc_val_def)
  then show ?thesis using comba_value [where f = f and g = g and c = "(0, 0, 0)", OF assms(1) columns_le [OF assms(2,3)]]
      assms(4,7) wval_product_less [OF assms(5,6)] by simp
qed

lemma bn_mul_comba4_value:
  assumes "length a = 4" "length b = 4"
  shows "length (bn_mul_comba4 a b) = 8" "wval (bn_mul_comba4 a b) = wval a * wval b"
  using comba_product [OF mul_entry_value order_trans [OF mul_weight_le] _ mul_comba4_sum [OF assms] assms]
  by (simp_all add: bn_mul_comba4_def mul_comba4_columns_def)

lemma bn_mul_comba8_value:
  assumes "length a = 8" "length b = 8"
  shows "length (bn_mul_comba8 a b) = 16" "wval (bn_mul_comba8 a b) = wval a * wval b"
  using comba_product [OF mul_entry_value order_trans [OF mul_weight_le] _ mul_comba8_sum [OF assms] assms]
  by (simp_all add: bn_mul_comba8_def mul_comba8_columns_def)

lemma bn_sqr_comba4_value:
  assumes "length a = 4"
  shows "length (bn_sqr_comba4 a) = 8" "wval (bn_sqr_comba4 a) = wval a * wval a"
  using comba_product [OF sqr_entry_value sqr_weight_le _ sqr_comba4_sum [OF assms] assms assms]
  by (simp_all add: bn_sqr_comba4_def sqr_comba4_columns_def)

lemma bn_sqr_comba8_value:
  assumes "length a = 8"
  shows "length (bn_sqr_comba8 a) = 16" "wval (bn_sqr_comba8 a) = wval a * wval a"
  using comba_product [OF sqr_entry_value sqr_weight_le _ sqr_comba8_sum [OF assms] assms assms]
  by (simp_all add: bn_sqr_comba8_def sqr_comba8_columns_def)

end
