(* ===== verification/Bn_Karatsuba.thy ===== *)
theory Bn_Karatsuba
  imports Bn_Mul Bn_Comba
begin

text \<open>
  Karatsuba's method (\<open>crypto/fipsmodule/bn/mul.c\<close>). \<open>r\<close> is the array for the result as it was before,
  and \<open>t\<close> the scratch space, of which only the room matters; the lemmas hold for any contents.
\<close>

section \<open>Differences\<close>

definition neg_step :: "u64 \<Rightarrow> u64 \<Rightarrow> u64 \<times> u64" where
  "neg_step borrow b = (let r = 0 - b - borrow in (r, borrow OR (if r \<noteq> 0 then 1 else 0)))"

definition borrow_step :: "u64 \<Rightarrow> u64 \<Rightarrow> u64 \<times> u64" where
  "borrow_step borrow a = (let r = a - borrow in (r, if a < r then 1 else 0))"

definition carry_step :: "u64 \<Rightarrow> u64 \<Rightarrow> u64 \<times> u64" where
  "carry_step c old = (let r = old + c in (r, if r < old then 1 else 0))"

definition bn_sub_part_words :: "limbs \<Rightarrow> limbs \<Rightarrow> nat \<Rightarrow> int \<Rightarrow> limbs \<times> u64" where
  "bn_sub_part_words a b cl dl =
     (let (r, borrow) = bn_sub_words (take cl a) (take cl b)
      in if dl = 0 then (r, borrow)
         else let (r1, borrow) =
                (if dl < 0 then chain neg_step borrow (take (nat (- dl)) (drop cl b))
                 else chain borrow_step borrow (take (nat dl) (drop cl a)))
              in (r @ r1, borrow))"

definition bn_abs_sub_part_words :: "limbs \<Rightarrow> limbs \<Rightarrow> nat \<Rightarrow> int \<Rightarrow> limbs \<times> u64" where
  "bn_abs_sub_part_words a b cl dl =
     (let (tmp, borrow) = bn_sub_part_words a b cl dl; (r, _) = bn_sub_part_words b a cl (- dl); m = 0 - borrow
      in (bn_select_words m r tmp, m))"

lemma carry_step_value:
  assumes "carry_step c old = (r, c')"
  shows "int (unat r) + 2 ^ 64 * int (unat c') = int (unat old) + int (unat c)"
proof -
  have "unat r + 2 ^ 64 * unat c' = unat c + unat old"
    using assms unat_add_carry [of c old] by (auto simp: carry_step_def Let_def add.commute)
  then have "int (unat r + 2 ^ 64 * unat c') = int (unat c + unat old)" by simp
  then show ?thesis by simp
qed

lemma carry_chain_value:
  assumes "chain carry_step c ws = (rs, c')"
  shows "length rs = length ws" "wval rs + 2 ^ (64 * length ws) * unat c' = wval ws + unat c"
proof -
  show "length rs = length ws" using length_chain [of carry_step c ws] assms by simp
  have "True \<and> int (wval rs) + 2 ^ (64 * length ws) * int (unat c') = gval (\<lambda>w. int (unat w)) ws + int (unat c)"
    by (rule chain_value [where P = "\<lambda>_. True" and I = "\<lambda>_. True", OF _ assms]) (use carry_step_value in auto)
  then have "int (wval rs + 2 ^ (64 * length ws) * unat c') = int (wval ws + unat c)" by (simp add: int_wval)
  then show "wval rs + 2 ^ (64 * length ws) * unat c' = wval ws + unat c" by (simp only: of_nat_eq_iff)
qed

lemma borrow_step_sub: "unat c \<le> 1 \<Longrightarrow> borrow_step c a = sub_step c (a, 0)"
proof -
  assume "unat c \<le> 1"
  then have "c = 0 \<or> c = 1" by (metis le_numeral_extra(4) less_one not_less_iff_gr_or_eq order_le_less unat_1 unat_eq_zero word_unat_eq_iff)
  moreover have "a < a - 1 \<longleftrightarrow> a = 0"
    using unat_minus_one [of a]
    by (cases "a = 0") (auto simp: word_less_nat_alt unsigned_minus_1_eq_mask mask_eq_exp_minus_1)
  ultimately show ?thesis by (auto simp: borrow_step_def sub_step_def Let_def)
qed

lemma neg_step_sub: "unat c \<le> 1 \<Longrightarrow> neg_step c b = sub_step c (0, b)"
proof -
  assume "unat c \<le> 1"
  then have "c = 0 \<or> c = 1" by (metis le_numeral_extra(4) less_one not_less_iff_gr_or_eq order_le_less unat_1 unat_eq_zero word_unat_eq_iff)
  then show ?thesis by (auto simp: neg_step_def sub_step_def Let_def word_gt_0)
qed

lemma sub_chain_zip:
  assumes "unat c \<le> 1"
  shows "chain borrow_step c ws = chain sub_step c (zip ws (replicate (length ws) 0))"
    and "chain neg_step c ws = chain sub_step c (zip (replicate (length ws) 0) ws)"
proof -
  have step: "unat (snd (sub_step c x)) \<le> Suc 0" if "unat c \<le> Suc 0" for c x
    using sub_step_value [of c x "fst (sub_step c x)" "snd (sub_step c x)"] that by simp
  show "chain borrow_step c ws = chain sub_step c (zip ws (replicate (length ws) 0))"
    using assms by (induction ws arbitrary: c) (auto simp: borrow_step_sub step split_beta Let_def)
  show "chain neg_step c ws = chain sub_step c (zip (replicate (length ws) 0) ws)"
    using assms by (induction ws arbitrary: c) (auto simp: neg_step_sub step split_beta Let_def)
qed

lemma chain_append:
  "chain f c (xs @ ys) = (let (rs, c) = chain f c xs; (rs', c) = chain f c ys in (rs @ rs', c))"
  by (induction xs arbitrary: c) (simp_all add: split_beta Let_def)

definition padded :: "nat \<Rightarrow> limbs \<Rightarrow> limbs" where
  "padded n ws = ws @ replicate (n - length ws) 0"

lemma wval_padded [simp]: "wval (padded n ws) = wval ws"
  by (simp add: padded_def wval_append)

lemma length_padded [simp]: "length (padded n ws) = max (length ws) n"
  by (simp add: padded_def)

text \<open>The subtraction in two parts is that of the arrays with zeros behind the shorter one.\<close>

lemma bn_sub_part_words_eq:
  assumes "cl = min (length a) (length b)" "dl = int (length a) - int (length b)"
  shows "bn_sub_part_words a b cl dl = bn_sub_words (padded (length b) a) (padded (length a) b)"
proof -
  obtain r borrow where s: "bn_sub_words (take cl a) (take cl b) = (r, borrow)" by force
  have c: "unat borrow \<le> 1" using bn_sub_words_value(2) [OF s] assms(1) by simp
  have s': "chain sub_step 0 (zip (take cl a) (take cl b)) = (r, borrow)"
    using s by (simp add: bn_sub_words_def unrolled_chain)
  have sub: "bn_sub_words (padded (length b) a) (padded (length a) b) =
      (let (r1, c) = chain sub_step borrow rest in (r @ r1, c))"
    if "zip (padded (length b) a) (padded (length a) b) = zip (take cl a) (take cl b) @ rest" for rest
    unfolding bn_sub_words_def unrolled_chain that chain_append s' by simp
  show ?thesis
  proof (cases "length a" "length b" rule: linorder_cases)
    case less
    have "zip (padded (length b) a) (padded (length a) b) =
        zip (take cl a) (take cl b) @ zip (replicate (length (drop cl b)) 0) (drop cl b)"
      using assms(1) less by (subst zip_append [symmetric]) (simp_all add: padded_def)
    note sub [OF this, folded sub_chain_zip(2) [OF c]]
    moreover have "take (nat (- dl)) (drop cl b) = drop cl b" "dl < 0" using less assms by simp_all
    ultimately show ?thesis unfolding bn_sub_part_words_def s by simp
  next
    case equal
    then show ?thesis using assms s by (simp add: bn_sub_part_words_def padded_def)
  next
    case greater
    have "zip (padded (length b) a) (padded (length a) b) =
        zip (take cl a) (take cl b) @ zip (drop cl a) (replicate (length (drop cl a)) 0)"
      using assms(1) greater by (subst zip_append [symmetric]) (simp_all add: padded_def)
    note sub [OF this, folded sub_chain_zip(1) [OF c]]
    moreover have "take (nat dl) (drop cl a) = drop cl a" "0 < dl" using greater assms by simp_all
    ultimately show ?thesis unfolding bn_sub_part_words_def s by simp
  qed
qed

lemma bn_sub_part_words_value:
  assumes "bn_sub_part_words a b cl dl = (r, c)" "cl = min (length a) (length b)" "dl = int (length a) - int (length b)"
  shows "length r = max (length a) (length b)" "unat c \<le> 1"
    "wval r + wval b = wval a + 2 ^ (64 * max (length a) (length b)) * unat c" "c = (if wval a < wval b then 1 else 0)"
proof -
  note v = bn_sub_words_value [of "padded (length b) a" "padded (length a) b" r c]
  have e: "bn_sub_words (padded (length b) a) (padded (length a) b) = (r, c)"
    using bn_sub_part_words_eq [OF assms(2,3)] assms(1) by simp
  show 1: "length r = max (length a) (length b)" "unat c \<le> 1"
    "wval r + wval b = wval a + 2 ^ (64 * max (length a) (length b)) * unat c"
    using v e by (simp_all add: max.commute)
  have "wval r < 2 ^ (64 * max (length a) (length b))" using wval_less [of r] 1(1) by simp
  moreover have "wval a < 2 ^ (64 * max (length a) (length b))" "wval b < 2 ^ (64 * max (length a) (length b))"
    using wval_less [of "padded (length b) a"] wval_less [of "padded (length a) b"] by (simp_all add: max.commute)
  moreover have "unat c = 0 \<or> unat c = 1" using 1(2) by linarith
  ultimately show "c = (if wval a < wval b then 1 else 0)" using 1(3) by (auto simp: word_unat_eq_iff)
qed

lemma bn_abs_sub_part_words_value:
  assumes "bn_abs_sub_part_words a b cl dl = (r, m)" "cl = min (length a) (length b)" "dl = int (length a) - int (length b)"
  shows "length r = max (length a) (length b)" "m = (if wval a < wval b then - 1 else 0)"
    "int (wval r) = \<bar>int (wval a) - int (wval b)\<bar>"
proof -
  obtain tmp borrow where 1: "bn_sub_part_words a b cl dl = (tmp, borrow)" by force
  obtain r' borrow' where 2: "bn_sub_part_words b a cl (- dl) = (r', borrow')" by force
  note v1 = bn_sub_part_words_value [OF 1 assms(2,3)]
  note v2 = bn_sub_part_words_value [OF 2, unfolded assms(2,3)]
  have e: "r = bn_select_words m r' tmp" "m = 0 - borrow"
    using assms(1) by (auto simp: bn_abs_sub_part_words_def 1 2 Let_def)
  show m: "m = (if wval a < wval b then - 1 else 0)" unfolding e(2) v1(4) by simp
  have l: "length r' = length tmp" using v1(1) v2(1) by (simp add: min.commute max.commute)
  then have r: "r = (if wval a < wval b then r' else tmp)" unfolding e(1) m by (rule bn_select_words_eq)
  show "length r = max (length a) (length b)" using r l v1(1) by simp
  show "int (wval r) = \<bar>int (wval a) - int (wval b)\<bar>"
  proof (cases "wval a < wval b")
    case True
    then have "wval r' + wval a = wval b" using v2(3,4) by (simp add: min.commute)
    then have "int (wval r') = int (wval b) - int (wval a)" by linarith
    then show ?thesis using True r by simp
  next
    case False
    then have "wval tmp + wval b = wval a" using v1(3,4) by simp
    then have "int (wval tmp) = int (wval a) - int (wval b)" by linarith
    then show ?thesis using False r by simp
  qed
qed

section \<open>The recursion\<close>

text \<open>
  The end of both recursive functions: from \<open>r01 = a0 * b0\<close>, \<open>r23 = a1 * b1\<close> and the absolute value \<open>t23\<close> of
  \<open>(a0 - a1) * (b1 - b0)\<close>, whose sign is \<open>neg\<close>, the sum of the three terms.
\<close>

definition karatsuba_sum :: "nat \<Rightarrow> limbs \<Rightarrow> limbs \<Rightarrow> limbs \<Rightarrow> u64 \<Rightarrow> limbs" where
  "karatsuba_sum n r01 r23 t23 neg =
     (let n2 = 2 * n; r = r01 @ r23;
          (t01, c) = bn_add_words r01 r23;
          (minus, borrow) = bn_sub_words t01 t23; c_neg = c - borrow;
          (plus, carry) = bn_add_words t01 t23; c_pos = c + carry;
          t23 = bn_select_words neg minus plus; c = constant_time_select_w neg c_neg c_pos;
          (mid, carry) = bn_add_words (take n2 (drop n r)) t23; c = c + carry;
          (hi, c) = chain carry_step c (drop (n + n2) r)
      in take n r @ mid @ hi)"

function bn_mul_recursive :: "limbs \<Rightarrow> limbs \<Rightarrow> limbs \<Rightarrow> nat \<Rightarrow> int \<Rightarrow> int \<Rightarrow> limbs \<Rightarrow> limbs" where
  "bn_mul_recursive r a b n2 dna dnb t =
     (if n2 = 8 \<and> dna = 0 \<and> dnb = 0 then bn_mul_comba8 a b
      else if n2 < 16 then
        (let r = bn_mul_normal r a b
         in if dna + dnb < 0
            then set_words r (nat (2 * int n2 + dna + dnb)) (replicate (nat (- (dna + dnb))) 0) else r)
      else
        (let n = n2 div 2; tna = nat (int n + dna); tnb = nat (int n + dnb);
             a0 = take n a; a1 = drop n a; b0 = take n b; b1 = drop n b;
             (t0, neg_a) = bn_abs_sub_part_words a0 a1 tna (int n - int tna);
             (t1, neg_b) = bn_abs_sub_part_words b1 b0 tnb (int tnb - int n);
             p = drop (2 * n2) t; t23 = take n2 (drop n2 t); r01 = take n2 r; r23 = take n2 (drop n2 r);
             (t23, r01, r23) =
               (if n = 4 \<and> dna = 0 \<and> dnb = 0 then (bn_mul_comba4 t0 t1, bn_mul_comba4 a0 b0, bn_mul_comba4 a1 b1)
                else if n = 8 \<and> dna = 0 \<and> dnb = 0 then (bn_mul_comba8 t0 t1, bn_mul_comba8 a0 b0, bn_mul_comba8 a1 b1)
                else (bn_mul_recursive t23 t0 t1 n 0 0 p, bn_mul_recursive r01 a0 b0 n 0 0 p,
                      bn_mul_recursive r23 a1 b1 n dna dnb p))
         in karatsuba_sum n r01 r23 t23 (neg_a XOR neg_b)))"
  by pat_completeness auto

termination by (relation "measure (\<lambda>(r, a, b, n2, dna, dnb, t). n2)") auto

declare bn_mul_recursive.simps [simp del]

text \<open>The identity behind it, with the middle term as a difference or a sum.\<close>

lemma karatsuba_middle:
  fixes a0 a1 b0 b1 m :: int
  assumes "m = \<bar>a0 - a1\<bar> * \<bar>b1 - b0\<bar>"
  shows "a0 * b1 + a1 * b0 = a0 * b0 + a1 * b1 + (if (a0 < a1) \<noteq> (b1 < b0) then - m else m)"
  unfolding assms by (cases "a0 < a1"; cases "b1 < b0") (simp_all add: algebra_simps)

lemma karatsuba_sum_value:
  assumes l: "length r01 = 2 * n" "length r23 = 2 * n" "length t23 = 2 * n"
    and r01: "wval r01 = a0 * b0" and r23: "wval r23 = a1 * b1"
    and m: "int (wval t23) = \<bar>int a0 - int a1\<bar> * \<bar>int b1 - int b0\<bar>"
    and neg: "neg = (if (a0 < a1) \<noteq> (b1 < b0) then - 1 else 0)"
    and less: "(a0 + 2 ^ (64 * n) * a1) * (b0 + 2 ^ (64 * n) * b1) < 2 ^ (64 * (4 * n))"
  shows "length (karatsuba_sum n r01 r23 t23 neg) = 4 * n"
    "wval (karatsuba_sum n r01 r23 t23 neg) = (a0 + 2 ^ (64 * n) * a1) * (b0 + 2 ^ (64 * n) * b1)"
proof -
  define N :: nat where "N = 2 ^ (64 * (2 * n))"
  let ?c = "(a0 < a1) \<noteq> (b1 < b0)"
  let ?r = "r01 @ r23"
  obtain t01 c where 1: "bn_add_words r01 r23 = (t01, c)" by force
  note v1 = bn_add_words_value [OF 1, unfolded l, OF refl, folded N_def]
  obtain minus borrow where 2: "bn_sub_words t01 t23 = (minus, borrow)" by force
  note v2 = bn_sub_words_value [OF 2, unfolded v1(1) l, OF refl, folded N_def]
  obtain plus carry where 3: "bn_add_words t01 t23 = (plus, carry)" by force
  note v3 = bn_add_words_value [OF 3, unfolded v1(1) l, OF refl, folded N_def]
  define t where "t = (if ?c then minus else plus)"
  define c1 where "c1 = (if ?c then c - borrow else c + carry)"
  have sel: "bn_select_words neg minus plus = t" "constant_time_select_w neg (c - borrow) (c + carry) = c1"
    unfolding neg t_def c1_def using v2(1) v3(1) by (simp_all add: bn_select_words_eq constant_time)
  have lt: "length t = 2 * n" using v2(1) v3(1) by (simp add: t_def)
  have mid: "int (a0 * b1 + a1 * b0) = int (a0 * b0 + a1 * b1) + (if ?c then - int (wval t23) else int (wval t23))"
    using karatsuba_middle [OF m] by simp
  have t: "wval t + N * unat c1 = a0 * b1 + a1 * b0 \<and> unat c1 \<le> 2"
  proof (cases ?c)
    case True
    then have "int (a0 * b1 + a1 * b0) = int (a0 * b0 + a1 * b1) - int (wval t23)" using mid by simp
    then have "wval t23 + (a0 * b1 + a1 * b0) = wval t01 + N * unat c" unfolding v1(3) r01 r23 by linarith
    then have e: "wval minus + N * unat c = N * unat borrow + (a0 * b1 + a1 * b0)" using v2(3) by linarith
    have "wval minus < N" using wval_less [of minus] v2(1) by (simp add: N_def)
    have "unat borrow \<le> unat c"
    proof (rule ccontr)
      assume "\<not> unat borrow \<le> unat c"
      then have "unat borrow = 1" "unat c = 0" using v2(2) by simp_all
      with e \<open>wval minus < N\<close> show False by simp
    qed
    then have "unat (c - borrow) = unat c - unat borrow" by (simp add: unat_sub word_le_nat_alt)
    then show ?thesis using True e \<open>unat borrow \<le> unat c\<close> v1(2) by (simp add: t_def c1_def diff_mult_distrib2)
  next
    case False
    have "unat (c + carry) = unat c + unat carry" using v1(2) v3(2) by (simp add: unat_word_ariths)
    moreover have "a0 * b1 + a1 * b0 = wval t23 + wval t01 + N * unat c" 
    proof -
      have "int (a0 * b1 + a1 * b0) = int (a0 * b0 + a1 * b1) + int (wval t23)" using False mid by simp
      then have "a0 * b1 + a1 * b0 = wval t23 + (wval t01 + N * unat c)" unfolding v1(3) r01 r23 by linarith
      then show ?thesis by simp
    qed
    ultimately show ?thesis using False v1(2) v3(2,3) by (simp add: t_def c1_def distrib_left)
  qed
  obtain md c2 where 4: "bn_add_words (take (2 * n) (drop n ?r)) t = (md, c2)" by force
  have l4: "length (take (2 * n) (drop n ?r)) = 2 * n" using l by simp
  note v4 = bn_add_words_value [OF 4, unfolded l4 lt, OF refl, folded N_def]
  obtain hi c3 where 5: "chain carry_step (c1 + c2) (drop (n + 2 * n) ?r) = (hi, c3)" by force
  note v5 = carry_chain_value [OF 5]
  have lh: "length (drop (n + 2 * n) ?r) = n" using l by simp
  have e: "karatsuba_sum n r01 r23 t23 neg = take n ?r @ md @ hi"
    unfolding karatsuba_sum_def Let_def 1 2 3 prod.case sel 4 5 ..
  show "length (karatsuba_sum n r01 r23 t23 neg) = 4 * n" using l v4(1) v5(1) lh by (simp add: e)
  define P :: nat where "P = 2 ^ (64 * n)"
  have pow: "N = P * P" "(2 :: nat) ^ (64 * (4 * n)) = P * (N * P)" by (simp_all add: N_def P_def flip: power_add)
  have c: "unat (c1 + c2) = unat c1 + unat c2" using t v4(2) by (simp add: unat_word_ariths)
  let ?X = "wval (take (2 * n) (drop n ?r))" and ?Y = "wval (drop (n + 2 * n) ?r)" and ?Z = "wval (take n ?r)"
  have "wval ?r = ?Z + P * wval (drop n ?r)" unfolding P_def using l by (intro wval_split) simp
  also have "wval (drop n ?r) = ?X + N * ?Y"
    using wval_split [of "2 * n" "drop n ?r"] l by (simp only: N_def length_drop length_append drop_drop add.commute)
  finally have R: "a0 * b0 + N * (a1 * b1) = ?Z + P * (?X + N * ?Y)" using l r01 r23 by (simp add: wval_append N_def)
  have W: "wval (karatsuba_sum n r01 r23 t23 neg) = ?Z + P * (wval md + N * wval hi)"
    using l v4(1) by (simp add: e wval_append N_def P_def)
  have "wval (karatsuba_sum n r01 r23 t23 neg) + P * (N * P) * unat c3 =
      ?Z + P * (wval md + N * (wval hi + P * unat c3))"
    unfolding W by (simp add: algebra_simps)
  also have "wval hi + P * unat c3 = ?Y + unat c1 + unat c2" using v5(2) unfolding lh P_def [symmetric] c by (simp only: add.assoc)
  also have "?Z + P * (wval md + N * (?Y + unat c1 + unat c2)) = ?Z + P * (wval md + N * unat c2 + N * (?Y + unat c1))"
    by (simp add: algebra_simps)
  also have "\<dots> = (?Z + P * (?X + N * ?Y)) + P * (wval t + N * unat c1)" unfolding v4(3) by (simp add: algebra_simps)
  also have "\<dots> = (a0 + P * a1) * (b0 + P * b1)" unfolding R [symmetric] t [THEN conjunct1] by (simp add: pow(1) algebra_simps)
  finally have product: "wval (karatsuba_sum n r01 r23 t23 neg) + P * (N * P) * unat c3 = (a0 + P * a1) * (b0 + P * b1)" .
  moreover have "unat c3 = 0"
  proof (rule ccontr)
    assume "unat c3 \<noteq> 0"
    then have "P * (N * P) \<le> P * (N * P) * unat c3" by simp
    also have "\<dots> \<le> (a0 + P * a1) * (b0 + P * b1)" using product by linarith
    finally show False using less unfolding pow(2) P_def [symmetric] by simp
  qed
  ultimately show "wval (karatsuba_sum n r01 r23 t23 neg) = (a0 + 2 ^ (64 * n) * a1) * (b0 + 2 ^ (64 * n) * b1)"
    by (simp add: P_def)
qed

text \<open>The product of arrays of \<open>n2\<close> words of which up to 8 may be missing, for a power of two \<open>n2\<close>.\<close>

lemma bn_mul_recursive_value:
  assumes "n2 = 2 ^ k" "- 8 \<le> dna" "dna \<le> 0" "- 8 \<le> dnb" "dnb \<le> 0"
    and "int (length a) = int n2 + dna" "int (length b) = int n2 + dnb" "length r = 2 * n2" "4 * n2 \<le> length t"
  shows "length (bn_mul_recursive r a b n2 dna dnb t) = 2 * n2 \<and>
    wval (bn_mul_recursive r a b n2 dna dnb t) = wval a * wval b"
  using assms
proof (induction n2 arbitrary: k r a b dna dnb t rule: less_induct)
  case (less n2)
  show ?case
  proof (cases "n2 < 16")
    case small: True
    show ?thesis
    proof (cases "n2 = 8 \<and> dna = 0 \<and> dnb = 0")
      case True
      then show ?thesis using less.prems(6,7) bn_mul_comba8_value [of a b] by (simp add: bn_mul_recursive.simps)
    next
      case False
      define l where "l = length a + length b"
      define r' where "r' = bn_mul_normal r a b"
      have il: "int l = 2 * int n2 + dna + dnb" using less.prems(6,7) by (simp add: l_def)
      then have ll: "l \<le> 2 * n2" using less.prems(3,5) by linarith
      have v: "length r' = 2 * n2" "wval (take l r') = wval a * wval b"
        using bn_mul_normal_value [of a b r] ll less.prems(8) by (simp_all add: l_def r'_def)
      have e: "bn_mul_recursive r a b n2 dna dnb t =
          (if dna + dnb < 0 then set_words r' (nat (2 * int n2 + dna + dnb)) (replicate (nat (- (dna + dnb))) 0) else r')"
        unfolding bn_mul_recursive.simps [of r] if_not_P [OF False] by (simp add: small r'_def Let_def)
      show ?thesis
      proof (cases "dna + dnb < 0")
        case True
        have z: "nat (2 * int n2 + dna + dnb) = l" "nat (- (dna + dnb)) = 2 * n2 - l" using il ll by linarith+
        then show ?thesis using True e v ll by (simp add: set_words_def wval_append)
      next
        case False
        then have "l = 2 * n2" using il ll by linarith
        then show ?thesis using False e v by simp
      qed
    qed
  next
    case False
    define n where "n = n2 div 2"
    obtain j where j: "k = Suc j" using less.prems(1) False by (cases k) simp_all
    then have n: "n2 = 2 * n" "n = 2 ^ j" "n < n2" "8 \<le> n" using less.prems(1) False by (simp_all add: n_def)
    define a0 a1 b0 b1 where ab: "a0 = take n a" "a1 = drop n a" "b0 = take n b" "b1 = drop n b"
    define tna tnb where tn: "tna = nat (int n + dna)" "tnb = nat (int n + dnb)"
    have tni: "int tna = int n + dna" "int tnb = int n + dnb" using less.prems(2,4) n(4) by (simp_all add: tn)
    have la: "length a = n + tna" "length b = n + tnb" using less.prems(6,7) tni n(1) by linarith+
    have l: "length a0 = n" "length a1 = tna" "length b0 = n" "length b1 = tnb" "tna \<le> n" "tnb \<le> n"
      using la tni less.prems(3,5) by (simp_all add: ab)
    have wa: "wval a = wval a0 + 2 ^ (64 * n) * wval a1" "wval b = wval b0 + 2 ^ (64 * n) * wval b1"
      unfolding ab using la by (intro wval_split; simp)+
    obtain t0 ma where 1: "bn_abs_sub_part_words a0 a1 tna (int n - int tna) = (t0, ma)" by force
    note v1 = bn_abs_sub_part_words_value [OF 1, unfolded l]
    obtain t1 mb where 2: "bn_abs_sub_part_words b1 b0 tnb (int tnb - int n) = (t1, mb)" by force
    note v2 = bn_abs_sub_part_words_value [OF 2, unfolded l]
    have t0: "length t0 = n" "ma = (if wval a0 < wval a1 then - 1 else 0)" "int (wval t0) = \<bar>int (wval a0) - int (wval a1)\<bar>"
      using v1 l(5) by simp_all
    have t1: "length t1 = n" "mb = (if wval b1 < wval b0 then - 1 else 0)" "int (wval t1) = \<bar>int (wval b1) - int (wval b0)\<bar>"
      using v2 l(6) by simp_all
    define p where "p = drop (2 * n2) t"
    obtain t23 r01 r23 where products: "(if n = 4 \<and> dna = 0 \<and> dnb = 0 then (bn_mul_comba4 t0 t1, bn_mul_comba4 a0 b0, bn_mul_comba4 a1 b1)
                else if n = 8 \<and> dna = 0 \<and> dnb = 0 then (bn_mul_comba8 t0 t1, bn_mul_comba8 a0 b0, bn_mul_comba8 a1 b1)
                else (bn_mul_recursive (take n2 (drop n2 t)) t0 t1 n 0 0 p, bn_mul_recursive (take n2 r) a0 b0 n 0 0 p,
                      bn_mul_recursive (take n2 (drop n2 r)) a1 b1 n dna dnb p)) = (t23, r01, r23)" (is "?products = _")
      using prod_cases3 by blast
    have v: "length r01 = 2 * n" "length r23 = 2 * n" "length t23 = 2 * n"
      "wval t23 = wval t0 * wval t1" "wval r01 = wval a0 * wval b0" "wval r23 = wval a1 * wval b1"
    proof -
      have lp: "4 * n \<le> length p" using less.prems(9) n(1) by (simp add: p_def)
      note IH = less.IH [OF n(3) n(2), where t = p]
      have "length r01 = 2 * n \<and> length r23 = 2 * n \<and> length t23 = 2 * n \<and>
          wval t23 = wval t0 * wval t1 \<and> wval r01 = wval a0 * wval b0 \<and> wval r23 = wval a1 * wval b1"
      proof (cases "n = 8 \<and> dna = 0 \<and> dnb = 0")
        case True
        then have "tna = 8" "tnb = 8" using tni by linarith+
        with True products l t0(1) t1(1) show ?thesis
          by (auto simp: bn_mul_comba8_value)
      next
        case False
        have r: "length (take n2 (drop n2 t)) = 2 * n" "length (take n2 r) = 2 * n" "length (take n2 (drop n2 r)) = 2 * n"
          using less.prems(8,9) n(1) by simp_all
        show ?thesis
          using False n(4) products IH [of 0 0 t0 t1 "take n2 (drop n2 t)"] IH [of 0 0 a0 b0 "take n2 r"]
            IH [of dna dnb a1 b1 "take n2 (drop n2 r)"] less.prems(2-5) l t0(1) t1(1) tni lp r
          by auto
      qed
      then show "length r01 = 2 * n" "length r23 = 2 * n" "length t23 = 2 * n"
        "wval t23 = wval t0 * wval t1" "wval r01 = wval a0 * wval b0" "wval r23 = wval a1 * wval b1" by simp_all
    qed
    have e: "bn_mul_recursive r a b n2 dna dnb t = karatsuba_sum n r01 r23 t23 (ma XOR mb)"
      using False unfolding bn_mul_recursive.simps [of r] Let_def n_def [symmetric] tn [symmetric] ab [symmetric] 1 2
        prod.case p_def [symmetric] products by simp
    have neg: "ma XOR mb = (if (wval a0 < wval a1) \<noteq> (wval b1 < wval b0) then - 1 else 0)" unfolding t0(2) t1(2) by simp
    have "wval a * wval b < 2 ^ (64 * (n + tna)) * 2 ^ (64 * (n + tnb))"
      using mult_strict_mono [OF wval_less [of a] wval_less [of b]] la by simp
    also have "\<dots> \<le> 2 ^ (64 * (4 * n))" unfolding power_add [symmetric] using l(5,6) by (intro power_increasing) simp_all
    finally have "(wval a0 + 2 ^ (64 * n) * wval a1) * (wval b0 + 2 ^ (64 * n) * wval b1) < 2 ^ (64 * (4 * n))"
      unfolding wa .
    from karatsuba_sum_value [OF v(1-3,5,6) _ neg this]
    show ?thesis unfolding e wa using v(4) t0(3) t1(3) n(1) by simp
  qed
qed

section \<open>Lengths that are not powers of two\<close>

text \<open>Zeroing \<open>k\<close> bytes, not words, from the word \<open>off\<close> on.\<close>

definition zero_bytes :: "limbs \<Rightarrow> nat \<Rightarrow> nat \<Rightarrow> limbs" where
  "zero_bytes r off k =
     (let i = off + k div 8; r = set_words r off (replicate (k div 8) 0)
      in if k mod 8 = 0 then r else r[i := r ! i AND NOT (mask (8 * (k mod 8)))])"

text \<open>The search for the size of the next call, and whether it is one for parts.\<close>

function part_size :: "nat \<Rightarrow> nat \<Rightarrow> nat \<Rightarrow> bool \<times> nat" where
  "part_size i tna tnb =
     (let i = i div 2
      in if i < tna \<or> i < tnb then (True, i)
         else if i = tna \<or> i = tnb then (False, i)
         else part_size i tna tnb)"
  by pat_completeness auto

termination by (relation "measure (\<lambda>(i, tna, tnb). i)") auto

declare part_size.simps [simp del]

lemma part_size_less:
  assumes "part_size n tna tnb = (part, i)" "tna < n" "tnb < n" "n = 2 ^ k" "16 \<le> tna \<or> 16 \<le> tnb"
  shows "(\<exists>j. i = 2 ^ j) \<and> 8 \<le> i \<and> i < n \<and> tna < 2 * i \<and> tnb < 2 * i \<and> 2 * i \<le> n \<and>
    (if part then i < tna \<or> i < tnb else (i = tna \<or> i = tnb) \<and> tna \<le> i \<and> tnb \<le> i)"
  using assms
proof (induction n tna tnb arbitrary: k rule: part_size.induct)
  case (1 n tna tnb)
  show ?case
  proof (cases k)
    case 0
    then show ?thesis using 1 by (simp add: part_size.simps)
  next
    case (Suc j)
    then have d: "n div 2 = 2 ^ j" "2 * 2 ^ j = n" "n div 2 < n" using 1 by simp_all
    show ?thesis
    proof (cases "n div 2 < tna \<or> n div 2 < tnb \<or> n div 2 = tna \<or> n div 2 = tnb")
      case True
      then have i: "i = n div 2" "part \<longleftrightarrow> n div 2 < tna \<or> n div 2 < tnb"
        using 1(2) by (auto simp: part_size.simps [of n] Let_def split: if_splits)
      have "\<exists>j. i = 2 ^ j" "2 * i = n" "8 \<le> i" using i(1) d 1(3,4,6) by auto
      then show ?thesis using i True 1(3,4) d(3) by auto
    next
      case False
      then have e: "part_size n tna tnb = part_size (n div 2) tna tnb" by (simp add: part_size.simps [of n] Let_def)
      have c: "\<not> (n div 2 < tna \<or> n div 2 < tnb)" "\<not> (n div 2 = tna \<or> n div 2 = tnb)" "tna < n div 2" "tnb < n div 2"
        using False by simp_all
      have "(\<exists>j. i = 2 ^ j) \<and> 8 \<le> i \<and> i < n div 2 \<and> tna < 2 * i \<and> tnb < 2 * i \<and> 2 * i \<le> n div 2 \<and>
          (if part then i < tna \<or> i < tnb else (i = tna \<or> i = tnb) \<and> tna \<le> i \<and> tnb \<le> i)"
        by (rule 1(1) [OF refl c(1,2) 1(2) [unfolded e] c(3,4) d(1) 1(6)])
      then show ?thesis using d(3) by simp
    qed
  qed
qed

lemma part_size_smaller: "part_size n tna tnb = (part, i) \<Longrightarrow> 0 < n \<Longrightarrow> i < n"
proof (induction n tna tnb rule: part_size.induct)
  case (1 n tna tnb)
  show ?case
  proof (cases "n div 2 < tna \<or> n div 2 < tnb \<or> n div 2 = tna \<or> n div 2 = tnb")
    case True
    then show ?thesis using 1 unfolding part_size.simps [of n] Let_def by (auto split: if_splits)
  next
    case False
    then have "part_size (n div 2) tna tnb = (part, i)" using 1(2) by (simp add: part_size.simps [of n] Let_def)
    then show ?thesis using 1(1) [OF refl] 1(3) False by fastforce
  qed
qed

function bn_mul_part_recursive :: "limbs \<Rightarrow> limbs \<Rightarrow> limbs \<Rightarrow> nat \<Rightarrow> nat \<Rightarrow> nat \<Rightarrow> limbs \<Rightarrow> limbs" where
  "bn_mul_part_recursive r a b n tna tnb t =
     (let n2 = n * 2
      in if n < 8 then zero_bytes (bn_mul_normal r a b) (n2 + tna + tnb) (n2 - tna - tnb)
         else
           let a0 = take n a; a1 = drop n a; b0 = take n b; b1 = drop n b;
               (t0, neg_a) = bn_abs_sub_part_words a0 a1 tna (int n - int tna);
               (t1, neg_b) = bn_abs_sub_part_words b1 b0 tnb (int tnb - int n);
               p = drop (n2 * 2) t; t23 = take n2 (drop n2 t); r01 = take n2 r; r23 = take n2 (drop n2 r);
               (t23, r01, r23) =
                 (if n = 8 then
                    (bn_mul_comba8 t0 t1, bn_mul_comba8 a0 b0,
                     set_words (bn_mul_normal r23 a1 b1) (tna + tnb) (replicate (n2 - tna - tnb) 0))
                  else
                    (bn_mul_recursive t23 t0 t1 n 0 0 p, bn_mul_recursive r01 a0 b0 n 0 0 p,
                     let r23 = replicate n2 0
                     in if tna < 16 \<and> tnb < 16 then bn_mul_normal r23 a1 b1
                        else case part_size n tna tnb of
                               (True, i) \<Rightarrow>
                                 bn_mul_part_recursive (take (4 * i) r23) a1 b1 i (tna - i) (tnb - i) p @ drop (4 * i) r23
                             | (False, i) \<Rightarrow>
                                 bn_mul_recursive (take (2 * i) r23) a1 b1 i (int tna - int i) (int tnb - int i) p @
                                   drop (2 * i) r23))
           in karatsuba_sum n r01 r23 t23 (neg_a XOR neg_b))"
  by pat_completeness auto

termination
  by (relation "measure (\<lambda>(r, a, b, n, tna, tnb, t). n)") (auto dest!: part_size_smaller [OF sym])

declare bn_mul_part_recursive.simps [simp del]

lemma bn_mul_part_recursive_value:
  assumes "n = 2 ^ k" "8 \<le> n" "tna < n" "tnb < n" "tna \<le> tnb + 1" "tnb \<le> tna + 1"
    and "length a = n + tna" "length b = n + tnb" "length r = 4 * n" "8 * n \<le> length t"
  shows "length (bn_mul_part_recursive r a b n tna tnb t) = 4 * n \<and>
    wval (bn_mul_part_recursive r a b n tna tnb t) = wval a * wval b"
  using assms
proof (induction n arbitrary: k r a b tna tnb t rule: less_induct)
  case (less n)
  define a0 a1 b0 b1 where ab: "a0 = take n a" "a1 = drop n a" "b0 = take n b" "b1 = drop n b"
  have l: "length a0 = n" "length a1 = tna" "length b0 = n" "length b1 = tnb" using less.prems by (simp_all add: ab)
  have wa: "wval a = wval a0 + 2 ^ (64 * n) * wval a1" "wval b = wval b0 + 2 ^ (64 * n) * wval b1"
    unfolding ab using less.prems by (intro wval_split; simp)+
  obtain t0 ma where 1: "bn_abs_sub_part_words a0 a1 tna (int n - int tna) = (t0, ma)" by force
  note v1 = bn_abs_sub_part_words_value [OF 1, unfolded l]
  obtain t1 mb where 2: "bn_abs_sub_part_words b1 b0 tnb (int tnb - int n) = (t1, mb)" by force
  note v2 = bn_abs_sub_part_words_value [OF 2, unfolded l]
  have t0: "length t0 = n" "ma = (if wval a0 < wval a1 then - 1 else 0)" "int (wval t0) = \<bar>int (wval a0) - int (wval a1)\<bar>"
    using v1 less.prems(3) by simp_all
  have t1: "length t1 = n" "mb = (if wval b1 < wval b0 then - 1 else 0)" "int (wval t1) = \<bar>int (wval b1) - int (wval b0)\<bar>"
    using v2 less.prems(4) by simp_all
  define p where "p = drop (n * 2 * 2) t"
  define x23 x01 where x: "x23 = take (n * 2) (drop (n * 2) t)" "x01 = take (n * 2) r"
  define y23 where y: "y23 = take (n * 2) (drop (n * 2) r)"
  have lx: "length x23 = 2 * n" "length x01 = 2 * n" "length y23 = 2 * n" "4 * n \<le> length p"
    using less.prems(9,10) by (simp_all add: x y p_def)
  define upper where "upper = (let r23 = replicate (n * 2) 0
     in if tna < 16 \<and> tnb < 16 then bn_mul_normal r23 a1 b1
        else case part_size n tna tnb of
               (True, i) \<Rightarrow> bn_mul_part_recursive (take (4 * i) r23) a1 b1 i (tna - i) (tnb - i) p @ drop (4 * i) r23
             | (False, i) \<Rightarrow> bn_mul_recursive (take (2 * i) r23) a1 b1 i (int tna - int i) (int tnb - int i) p @
                 drop (2 * i) r23)"
  have upper: "length upper = 2 * n \<and> wval upper = wval a1 * wval b1"
  proof (cases "tna < 16 \<and> tnb < 16")
    case True
    have zeros: "drop (tna + tnb) (bn_mul_normal (replicate (n * 2) 0) a1 b1) = replicate (n * 2 - (tna + tnb)) 0"
      using drop_bn_mul_normal [of a1 b1 "replicate (n * 2) 0"] less.prems(3,4) by (simp add: l)
    have le: "tna + tnb \<le> length (bn_mul_normal (replicate (n * 2) 0) a1 b1)"
      using bn_mul_normal_value(1) [of a1 b1 "replicate (n * 2) 0"] less.prems(3,4) by (simp add: l)
    then show ?thesis using True wval_split [OF le] bn_mul_normal_value [of a1 b1 "replicate (n * 2) 0"] less.prems(3,4)
      by (simp add: upper_def Let_def l zeros)
  next
    case False
    obtain part i where i: "part_size n tna tnb = (part, i)" by force
    have large: "16 \<le> tna \<or> 16 \<le> tnb" using False by linarith
    note s = part_size_less [OF i less.prems(3,4,1) large]
    then obtain j where j: "i = 2 ^ j" by blast
    show ?thesis
    proof (cases part)
      case True
      then have ge: "i \<le> tna" "i \<le> tnb" using s less.prems(5,6) by auto
      have "length (bn_mul_part_recursive (replicate (4 * i) 0) a1 b1 i (tna - i) (tnb - i) p) = 4 * i \<and>
          wval (bn_mul_part_recursive (replicate (4 * i) 0) a1 b1 i (tna - i) (tnb - i) p) = wval a1 * wval b1"
        by (rule less.IH [OF _ j]) (use s ge less.prems(5,6) l lx in auto)
      then show ?thesis unfolding upper_def Let_def if_not_P [OF False] i using True s by (simp add: wval_append)
    next
      case part: False
      have "length (bn_mul_recursive (replicate (2 * i) 0) a1 b1 i (int tna - int i) (int tnb - int i) p) = 2 * i \<and>
          wval (bn_mul_recursive (replicate (2 * i) 0) a1 b1 i (int tna - int i) (int tnb - int i) p) = wval a1 * wval b1"
        by (rule bn_mul_recursive_value [OF j]) (use s part less.prems(5,6) l lx in auto)
      then show ?thesis unfolding upper_def Let_def if_not_P [OF False] i using part s by (simp add: wval_append)
    qed
  qed
  define products where "products =
    (if n = 8 then
      (bn_mul_comba8 t0 t1, bn_mul_comba8 a0 b0,
       set_words (bn_mul_normal y23 a1 b1) (tna + tnb) (replicate (n * 2 - tna - tnb) 0))
     else (bn_mul_recursive x23 t0 t1 n 0 0 p, bn_mul_recursive x01 a0 b0 n 0 0 p, upper))"
  obtain t23 r01 r23 where products: "products = (t23, r01, r23)" using prod_cases3 by blast
  have v: "length r01 = 2 * n \<and> length r23 = 2 * n \<and> length t23 = 2 * n \<and>
      wval t23 = wval t0 * wval t1 \<and> wval r01 = wval a0 * wval b0 \<and> wval r23 = wval a1 * wval b1"
  proof (cases "n = 8")
    case True
    define r' where "r' = bn_mul_normal y23 a1 b1"
    have "length r' = 2 * n" "wval (take (tna + tnb) r') = wval a1 * wval b1"
      using bn_mul_normal_value [of a1 b1 y23] less.prems(3,4) lx(3) by (simp_all add: r'_def l)
    then have "length (set_words r' (tna + tnb) (replicate (n * 2 - tna - tnb) 0)) = 2 * n \<and>
        wval (set_words r' (tna + tnb) (replicate (n * 2 - tna - tnb) 0)) = wval a1 * wval b1"
      using less.prems(3,4) by (simp add: set_words_def wval_append)
    then show ?thesis using True products l t0(1) t1(1) bn_mul_comba8_value [of t0 t1] bn_mul_comba8_value [of a0 b0]
      by (auto simp: products_def r'_def)
  next
    case False
    then show ?thesis using products upper l t0(1) t1(1) lx less.prems(1)
        bn_mul_recursive_value [of n k 0 0 t0 t1 x23 p] bn_mul_recursive_value [of n k 0 0 a0 b0 x01 p]
      by (auto simp: products_def)
  qed
  have e: "bn_mul_part_recursive r a b n tna tnb t = karatsuba_sum n r01 r23 t23 (ma XOR mb)"
    using less.prems(2) unfolding bn_mul_part_recursive.simps [of r] Let_def ab [symmetric] 1 2 prod.case
      p_def [symmetric] x [symmetric] y [symmetric]
      upper_def [unfolded Let_def, symmetric] products_def [symmetric] products by simp
  have neg: "ma XOR mb = (if (wval a0 < wval a1) \<noteq> (wval b1 < wval b0) then - 1 else 0)" unfolding t0(2) t1(2) by simp
  have "wval a * wval b < 2 ^ (64 * (n + tna)) * 2 ^ (64 * (n + tnb))"
    using mult_strict_mono [OF wval_less [of a] wval_less [of b]] less.prems(7,8) by simp
  also have "\<dots> \<le> 2 ^ (64 * (4 * n))" unfolding power_add [symmetric] using less.prems(3,4) by (intro power_increasing) simp_all
  finally have "(wval a0 + 2 ^ (64 * n) * wval a1) * (wval b0 + 2 ^ (64 * n) * wval b1) < 2 ^ (64 * (4 * n))"
    unfolding wa .
  with karatsuba_sum_value [of r01 n r23 t23 "wval a0" "wval b0" "wval a1" "wval b1", OF _ _ _ _ _ _ neg] v t0(3) t1(3)
  show ?case unfolding e wa by simp
qed

end
