(* ===== verification/Bn.thy ===== *)
theory Bn
  imports Bn_Karatsuba
begin

text \<open>
  Big numbers (\<open>crypto/fipsmodule/bn/bn.c\<close>, \<open>cmp.c\<close>). A \<open>BIGNUM\<close> owns \<open>dmax\<close> words, of which
  the first \<open>width\<close> count; what is behind them, and above the highest word that is not zero, is
  arbitrary. An operation is a function of the result as it was before the call and of the operands,
  so a call in place is one with the operand as the result; the loops of the code read a word of an
  operand before they write the word of the result that may be the same. \<open>m n\<close> is what
  \<open>OPENSSL_malloc\<close> gives for \<open>n\<close> words, if anything.
\<close>

record bignum =
  bn_d :: limbs
  bn_width :: nat
  bn_neg :: bool
  bn_static :: bool

type_synonym bn_malloc = "nat \<Rightarrow> limbs option"

definition gives_words :: "bn_malloc \<Rightarrow> bool" where
  "gives_words m \<longleftrightarrow> (\<forall>n ws. m n = Some ws \<longrightarrow> length ws = n)"

abbreviation dmax :: "bignum \<Rightarrow> nat" where "dmax bn \<equiv> length (bn_d bn)"

definition bn_words :: "bignum \<Rightarrow> limbs" where
  "bn_words bn = take (bn_width bn) (bn_d bn)"

text \<open>The number, and the invariant of the representation.\<close>

definition bn_abs :: "bignum \<Rightarrow> nat" where
  "bn_abs bn = wval (bn_words bn)"

definition bn_int :: "bignum \<Rightarrow> int" where
  "bn_int bn = (if bn_neg bn then - int (bn_abs bn) else int (bn_abs bn))"

definition bn_ok :: "bignum \<Rightarrow> bool" where
  "bn_ok bn \<longleftrightarrow> bn_width bn \<le> dmax bn \<and> dmax bn \<le> 8388607"

lemma length_bn_words: "bn_ok bn \<Longrightarrow> length (bn_words bn) = bn_width bn"
  by (simp add: bn_words_def bn_ok_def)

section \<open>Memory and size\<close>

definition BN_init :: bignum where
  "BN_init = \<lparr>bn_d = [], bn_width = 0, bn_neg = False, bn_static = False\<rparr>"

text \<open>\<open>INT_MAX / (4 * BN_BITS2)\<close> is 8388607.\<close>

definition bn_wexpand :: "bn_malloc \<Rightarrow> bignum \<Rightarrow> nat \<Rightarrow> bool \<times> bignum" where
  "bn_wexpand m bn n =
     (if n \<le> dmax bn then (True, bn)
      else if n > 8388607 then (False, bn)
      else if bn_static bn then (False, bn)
      else case m n of
             None \<Rightarrow> (False, bn)
           | Some a \<Rightarrow> (True, bn\<lparr>bn_d := set_words a 0 (bn_words bn)\<rparr>))"

definition bn_fits_in_words :: "bignum \<Rightarrow> nat \<Rightarrow> bool" where
  "bn_fits_in_words bn num \<longleftrightarrow> or_words (drop num (bn_words bn)) = 0"

primrec minimal_width :: "limbs \<Rightarrow> nat \<Rightarrow> nat" where
  "minimal_width d 0 = 0"
| "minimal_width d (Suc n) = (if d ! n = 0 then minimal_width d n else Suc n)"

definition bn_minimal_width :: "bignum \<Rightarrow> nat" where
  "bn_minimal_width bn = minimal_width (bn_d bn) (bn_width bn)"

definition bn_set_minimal_width :: "bignum \<Rightarrow> bignum" where
  "bn_set_minimal_width bn =
     (let bn = bn\<lparr>bn_width := bn_minimal_width bn\<rparr> in if bn_width bn = 0 then bn\<lparr>bn_neg := False\<rparr> else bn)"

definition BN_copy :: "bn_malloc \<Rightarrow> bignum \<Rightarrow> bignum \<Rightarrow> bool \<times> bignum" where
  "BN_copy m dest src =
     and_also (bn_wexpand m dest (bn_width src)) (\<lambda>dest.
       (True, dest\<lparr>bn_d := set_words (bn_d dest) 0 (bn_words src), bn_width := bn_width src, bn_neg := bn_neg src\<rparr>))"

definition BN_zero :: "bignum \<Rightarrow> bignum" where
  "BN_zero bn = bn\<lparr>bn_width := 0, bn_neg := False\<rparr>"

definition BN_set_word :: "bn_malloc \<Rightarrow> bignum \<Rightarrow> u64 \<Rightarrow> bool \<times> bignum" where
  "BN_set_word m bn v =
     (if v = 0 then (True, BN_zero bn)
      else and_also (bn_wexpand m bn 1) (\<lambda>bn.
             (True, bn\<lparr>bn_neg := False, bn_d := (bn_d bn)[0 := v], bn_width := 1\<rparr>)))"

definition bn_set_words :: "bn_malloc \<Rightarrow> bignum \<Rightarrow> limbs \<Rightarrow> bool \<times> bignum" where
  "bn_set_words m bn ws =
     and_also (bn_wexpand m bn (length ws)) (\<lambda>bn.
       (True, bn\<lparr>bn_d := set_words (bn_d bn) 0 ws, bn_width := length ws, bn_neg := False\<rparr>))"

definition bn_copy_words :: "nat \<Rightarrow> bignum \<Rightarrow> limbs option" where
  "bn_copy_words num bn =
     (if bn_neg bn then None
      else let width = bn_width bn
           in if width > num \<and> \<not> bn_fits_in_words bn num then None
              else Some (set_words (replicate num 0) 0 (take (if width > num then num else width) (bn_d bn))))"

definition bn_resize_words :: "bn_malloc \<Rightarrow> bignum \<Rightarrow> nat \<Rightarrow> bool \<times> bignum" where
  "bn_resize_words m bn n =
     (if bn_width bn \<le> n then
        and_also (bn_wexpand m bn n) (\<lambda>bn.
          (True, bn\<lparr>bn_d := set_words (bn_d bn) (bn_width bn) (replicate (n - bn_width bn) 0), bn_width := n\<rparr>))
      else if \<not> bn_fits_in_words bn n then (False, bn)
      else (True, bn\<lparr>bn_width := n\<rparr>))"

definition BN_is_zero :: "bignum \<Rightarrow> bool" where
  "BN_is_zero bn \<longleftrightarrow> bn_fits_in_words bn 0"

definition BN_set_negative :: "bignum \<Rightarrow> bool \<Rightarrow> bignum" where
  "BN_set_negative bn sign = bn\<lparr>bn_neg := sign \<and> \<not> BN_is_zero bn\<rparr>"

definition BN_num_bits :: "bignum \<Rightarrow> nat" where
  "BN_num_bits bn =
     (let width = bn_minimal_width bn
      in if width = 0 then 0 else (width - 1) * 64 + unat (BN_num_bits_word (bn_d bn ! (width - 1))))"

definition BN_num_bytes :: "bignum \<Rightarrow> nat" where
  "BN_num_bytes bn = (BN_num_bits bn + 7) div 8"

section \<open>Comparison\<close>

definition BN_ucmp :: "bignum \<Rightarrow> bignum \<Rightarrow> u32" where
  "BN_ucmp a b = bn_cmp_words_consttime (bn_words a) (bn_words b)"

definition BN_cmp :: "bignum option \<Rightarrow> bignum option \<Rightarrow> u32" where
  "BN_cmp a b =
     (case (a, b) of
        (None, None) \<Rightarrow> 0
      | (Some a, None) \<Rightarrow> - 1
      | (None, Some b) \<Rightarrow> 1
      | (Some a, Some b) \<Rightarrow>
          if bn_neg a \<noteq> bn_neg b then if bn_neg a then - 1 else 1
          else let ret = BN_ucmp a b in if bn_neg a then - ret else ret)"

definition BN_abs_is_word :: "bignum \<Rightarrow> u64 \<Rightarrow> bool" where
  "BN_abs_is_word bn w \<longleftrightarrow>
     (if bn_width bn = 0 then w = 0
      else fold (\<lambda>x mask. mask OR x) (drop 1 (bn_words bn)) (bn_d bn ! 0 XOR w) = 0)"

definition BN_cmp_word :: "bignum \<Rightarrow> u64 \<Rightarrow> u32" where
  "BN_cmp_word a b =
     BN_cmp (Some a) (Some \<lparr>bn_d = [b], bn_width = (if b > 0 then 1 else 0), bn_neg = False, bn_static = True\<rparr>)"

definition BN_is_one :: "bignum \<Rightarrow> bool" where
  "BN_is_one bn \<longleftrightarrow> \<not> bn_neg bn \<and> BN_abs_is_word bn 1"

definition BN_is_word :: "bignum \<Rightarrow> u64 \<Rightarrow> bool" where
  "BN_is_word bn w \<longleftrightarrow> BN_abs_is_word bn w \<and> (w = 0 \<or> \<not> bn_neg bn)"

definition BN_is_odd :: "bignum \<Rightarrow> bool" where
  "BN_is_odd bn \<longleftrightarrow> bn_width bn > 0 \<and> bn_d bn ! 0 AND 1 = 1"

definition BN_equal_consttime :: "bignum \<Rightarrow> bignum \<Rightarrow> bool" where
  "BN_equal_consttime a b \<longleftrightarrow>
     (let m = or_words (drop (bn_width a) (bn_words b) @ drop (bn_width b) (bn_words a));
          m = fold (\<lambda>(x, y) mask. mask OR (x XOR y)) (zip (bn_words a) (bn_words b)) m;
          m = m OR (if bn_neg a \<noteq> bn_neg b then 1 else 0)
      in m = 0)"

section \<open>What they keep and what they say\<close>

lemma take_set_words_0: "length ws \<le> length d \<Longrightarrow> take (length ws) (set_words d 0 ws) = ws"
  by (simp add: set_words_def)

lemma bn_wexpand_facts:
  assumes "bn_wexpand m bn n = (ok, bn')" "gives_words m" "bn_ok bn"
  shows "bn_ok bn'" "bn_words bn' = bn_words bn" "bn_width bn' = bn_width bn" "bn_neg bn' = bn_neg bn"
    "ok \<Longrightarrow> n \<le> dmax bn'"
proof -
  have "bn_ok bn' \<and> bn_words bn' = bn_words bn \<and> bn_width bn' = bn_width bn \<and> bn_neg bn' = bn_neg bn \<and> (ok \<longrightarrow> n \<le> dmax bn')"
  proof (cases "n \<le> dmax bn \<or> n > 8388607 \<or> bn_static bn \<or> m n = None")
    case True
    then show ?thesis using assms by (auto simp: bn_wexpand_def split: if_splits option.splits)
  next
    case False
    then obtain a where a: "m n = Some a" by auto
    then have l: "length a = n" using assms(2) by (simp add: gives_words_def)
    have w: "bn_width bn \<le> n" using False assms(3) by (simp add: bn_ok_def)
    have "length (bn_words bn) = bn_width bn" using assms(3) by (rule length_bn_words)
    then have "take (bn_width bn) (set_words a 0 (bn_words bn)) = bn_words bn"
      using take_set_words_0 [of "bn_words bn" a] w l by simp
    then show ?thesis using False a assms l w length_bn_words [OF assms(3)]
      by (auto simp: bn_wexpand_def bn_ok_def bn_words_def [of bn'] bn_words_def [of "bn\<lparr>bn_d := _\<rparr>"])
  qed
  then show "bn_ok bn'" "bn_words bn' = bn_words bn" "bn_width bn' = bn_width bn" "bn_neg bn' = bn_neg bn"
    "ok \<Longrightarrow> n \<le> dmax bn'" by blast+
qed

lemma minimal_width_value:
  "n \<le> length d \<Longrightarrow> minimal_width d n \<le> n \<and> wval (take (minimal_width d n) d) = wval (take n d) \<and>
    (minimal_width d n \<noteq> 0 \<longrightarrow> d ! (minimal_width d n - 1) \<noteq> 0)"
proof (induction n)
  case (Suc n)
  then have "take (Suc n) d = take n d @ [d ! n]" by (simp add: take_Suc_conv_app_nth)
  with Suc show ?case by (auto simp: wval_append le_SucI)
qed simp

lemma minimal_width_0: "n \<le> length d \<Longrightarrow> minimal_width d n = 0 \<longleftrightarrow> wval (take n d) = 0"
proof
  assume n: "n \<le> length d" and w: "wval (take n d) = 0"
  note v = minimal_width_value [OF n]
  show "minimal_width d n = 0"
  proof (rule ccontr)
    assume "minimal_width d n \<noteq> 0"
    then obtain k where k: "minimal_width d n = Suc k" "d ! k \<noteq> 0" "k < length d"
      using v n by (cases "minimal_width d n") simp_all
    then have "d ! k \<in> set (take (minimal_width d n) d)" by (simp add: take_Suc_conv_app_nth)
    then show False using v w wval_0_iff k(2) by metis
  qed
qed (use minimal_width_value [of n d] in simp)

definition minimal :: "bignum \<Rightarrow> bool" where
  "minimal bn \<longleftrightarrow> (bn_width bn = 0 \<longrightarrow> \<not> bn_neg bn) \<and> (bn_width bn \<noteq> 0 \<longrightarrow> bn_d bn ! (bn_width bn - 1) \<noteq> 0)"

lemma bn_set_minimal_width_facts:
  assumes "bn_ok bn"
  shows "bn_ok (bn_set_minimal_width bn)" "minimal (bn_set_minimal_width bn)"
    "bn_abs (bn_set_minimal_width bn) = bn_abs bn" "bn_int (bn_set_minimal_width bn) = bn_int bn"
    "bn_neg (bn_set_minimal_width bn) \<longleftrightarrow> bn_neg bn \<and> bn_abs bn \<noteq> 0" "bn_d (bn_set_minimal_width bn) = bn_d bn"
    "bn_width (bn_set_minimal_width bn) = minimal_width (bn_d bn) (bn_width bn)"
proof -
  have w: "bn_width bn \<le> dmax bn" using assms by (simp add: bn_ok_def)
  note v = minimal_width_value [OF w] minimal_width_0 [OF w]
  show "bn_ok (bn_set_minimal_width bn)" "minimal (bn_set_minimal_width bn)"
    "bn_d (bn_set_minimal_width bn) = bn_d bn"
    "bn_width (bn_set_minimal_width bn) = minimal_width (bn_d bn) (bn_width bn)"
    using v assms by (auto simp: bn_set_minimal_width_def bn_minimal_width_def bn_ok_def minimal_def Let_def)
  show a: "bn_abs (bn_set_minimal_width bn) = bn_abs bn"
    using v by (auto simp: bn_set_minimal_width_def bn_minimal_width_def bn_abs_def bn_words_def Let_def)
  show n: "bn_neg (bn_set_minimal_width bn) \<longleftrightarrow> bn_neg bn \<and> bn_abs bn \<noteq> 0"
    using v by (auto simp: bn_set_minimal_width_def bn_minimal_width_def bn_abs_def bn_words_def Let_def)
  show "bn_int (bn_set_minimal_width bn) = bn_int bn" by (simp add: bn_int_def a n)
qed

text \<open>Writing the whole number.\<close>

lemma bn_stored:
  assumes "bn_ok bn" "length ws \<le> dmax bn"
  shows "bn_ok (bn\<lparr>bn_d := set_words (bn_d bn) 0 ws, bn_width := length ws\<rparr>)"
    "bn_words (bn\<lparr>bn_d := set_words (bn_d bn) 0 ws, bn_width := length ws\<rparr>) = ws"
  using assms by (simp_all add: bn_ok_def bn_words_def take_set_words_0)

lemma BN_is_zero_iff: "BN_is_zero bn \<longleftrightarrow> bn_abs bn = 0"
  by (simp add: BN_is_zero_def bn_fits_in_words_def or_words_wval bn_abs_def)

lemma bn_fits_in_words_iff: "bn_fits_in_words bn n \<longleftrightarrow> bn_abs bn < 2 ^ (64 * n)"
proof (cases "n \<le> length (bn_words bn)")
  case True
  note s = wval_split [OF True] wval_take_less [OF True]
  show ?thesis
  proof (cases "wval (drop n (bn_words bn)) = 0")
    case True
    then show ?thesis using s by (simp add: bn_fits_in_words_def or_words_wval bn_abs_def)
  next
    case False
    then have "2 ^ (64 * n) \<le> 2 ^ (64 * n) * wval (drop n (bn_words bn))" by simp
    then have "\<not> bn_abs bn < 2 ^ (64 * n)" using s(1) unfolding bn_abs_def by linarith
    with False show ?thesis by (simp add: bn_fits_in_words_def or_words_wval)
  qed
next
  case False
  have "wval (bn_words bn) < 2 ^ (64 * n)"
    by (rule order_less_le_trans [OF wval_less]) (use False in \<open>intro power_increasing; simp\<close>)
  with False show ?thesis by (simp add: bn_fits_in_words_def or_words_def bn_abs_def)
qed

lemma BN_ucmp_value: "BN_ucmp a b = sign_of (bn_abs a) (bn_abs b)"
  by (simp add: BN_ucmp_def bn_cmp_words_value bn_abs_def)

lemma BN_ucmp_less: "sint (BN_ucmp a b) < 0 \<longleftrightarrow> bn_abs a < bn_abs b"
  by (simp add: BN_ucmp_value sign_of_def)

text \<open>No negative zero is a precondition of the comparison of signed numbers.\<close>

definition no_neg_zero :: "bignum \<Rightarrow> bool" where
  "no_neg_zero bn \<longleftrightarrow> (bn_neg bn \<longrightarrow> bn_abs bn \<noteq> 0)"

lemma BN_cmp_value:
  assumes "no_neg_zero a" "no_neg_zero b"
  shows "BN_cmp (Some a) (Some b) = (if bn_int a < bn_int b then - 1 else if bn_int a = bn_int b then 0 else 1)"
  using assms by (auto simp: BN_cmp_def BN_ucmp_value sign_of_def bn_int_def no_neg_zero_def Let_def)

lemma BN_equal_consttime_value:
  assumes "bn_ok a" "bn_ok b" "no_neg_zero a" "no_neg_zero b"
  shows "BN_equal_consttime a b \<longleftrightarrow> bn_int a = bn_int b"
proof -
  let ?n = "min (bn_width a) (bn_width b)"
  have f: "fold (\<lambda>(x, y) mask. mask OR (x XOR y)) (zip xs ys) m = 0 \<longleftrightarrow> m = 0 \<and> take (length ys) xs = take (length xs) ys"
    for xs ys :: limbs and m
  proof (induction xs arbitrary: ys m)
    case (Cons x xs)
    have "x XOR y = 0 \<longleftrightarrow> x = y" for y by (auto simp: bit_eq_iff bit_simps)
    with Cons show ?case by (cases ys) (auto simp: or_eq_0_iff)
  qed simp
  have l: "length (bn_words a) = bn_width a" "length (bn_words b) = bn_width b"
    using assms(1,2) by (simp_all add: length_bn_words)
  have "BN_equal_consttime a b \<longleftrightarrow> wval (drop (bn_width a) (bn_words b)) = 0 \<and> wval (drop (bn_width b) (bn_words a)) = 0 \<and>
      take (bn_width b) (bn_words a) = take (bn_width a) (bn_words b) \<and> bn_neg a = bn_neg b"
    by (auto simp: BN_equal_consttime_def Let_def or_eq_0_iff f l or_words_0 wval_0_iff)
  also have "\<dots> \<longleftrightarrow> bn_abs a = bn_abs b \<and> bn_neg a = bn_neg b"
  proof (cases "bn_width a \<le> bn_width b")
    case True
    note s = wval_split [of "bn_width a" "bn_words b"] wval_take_less [of "bn_width a" "bn_words b"] wval_less [of "bn_words a"]
    have "wval (drop (bn_width a) (bn_words b)) = 0 \<and> bn_words a = take (bn_width a) (bn_words b) \<longleftrightarrow> bn_abs a = bn_abs b"
      using True s l wval_inj [of "bn_words a" "take (bn_width a) (bn_words b)"]
        digits_less(2) [of "bn_abs a" "2 ^ (64 * bn_width a)" "wval (take (bn_width a) (bn_words b))" 0 "wval (drop (bn_width a) (bn_words b))"]
      by (auto simp: bn_abs_def)
    then show ?thesis using True l by auto
  next
    case False
    note s = wval_split [of "bn_width b" "bn_words a"] wval_take_less [of "bn_width b" "bn_words a"] wval_less [of "bn_words b"]
    have "wval (drop (bn_width b) (bn_words a)) = 0 \<and> take (bn_width b) (bn_words a) = bn_words b \<longleftrightarrow> bn_abs a = bn_abs b"
      using False s l wval_inj [of "take (bn_width b) (bn_words a)" "bn_words b"]
        digits_less(2) [of "wval (take (bn_width b) (bn_words a))" "2 ^ (64 * bn_width b)" "bn_abs b" "wval (drop (bn_width b) (bn_words a))" 0]
      by (auto simp: bn_abs_def)
    then show ?thesis using False l by auto
  qed
  also have "\<dots> \<longleftrightarrow> bn_int a = bn_int b" using assms(3,4) by (auto simp: bn_int_def no_neg_zero_def)
  finally show ?thesis .
qed

end
