(* ===== verification/Bn_Shift.thy ===== *)
theory Bn_Shift
  imports Bn
begin

text \<open>
  Shifts and single bits of big numbers (\<open>crypto/fipsmodule/bn/shift.c\<close>). A number of bits is an \<open>int\<close>
  of the code, so it may be negative and is then refused.
\<close>

section \<open>The operations\<close>

definition lshift_step :: "nat \<Rightarrow> nat \<Rightarrow> limbs \<Rightarrow> nat \<Rightarrow> limbs \<Rightarrow> limbs" where
  "lshift_step nw lb f i t =
     (if lb = 0 then t[nw + i := f ! i]
      else let l = f ! i; t = t[nw + i + 1 := t ! (nw + i + 1) OR drop_bit (64 - lb) l] in t[nw + i := push_bit lb l])"

definition BN_lshift :: "bn_malloc \<Rightarrow> bignum \<Rightarrow> bignum \<Rightarrow> int \<Rightarrow> bool \<times> bignum" where
  "BN_lshift m r a n =
     (if n < 0 then (False, r)
      else
        let r = r\<lparr>bn_neg := bn_neg a\<rparr>; nw = nat n div 64; lb = nat n mod 64
        in and_also (bn_wexpand m r (bn_width a + nw + 1)) (\<lambda>r.
             let t = (bn_d r)[bn_width a + nw := 0];
                 t = fold (lshift_step nw lb (bn_d a)) (rev [0..<bn_width a]) t;
                 t = set_words t 0 (replicate nw 0)
             in (True, bn_set_minimal_width (r\<lparr>bn_d := t, bn_width := bn_width a + nw + 1\<rparr>))))"

definition lshift1_step :: "u64 \<Rightarrow> u64 \<Rightarrow> u64 \<times> u64" where
  "lshift1_step c t = (push_bit 1 t OR c, drop_bit 63 t)"

text \<open>\<open>BN_lshift1\<close> of another number, and in place.\<close>

definition lshift1_words :: "bignum \<Rightarrow> limbs \<Rightarrow> bignum" where
  "lshift1_words r a =
     (let (ws, c) = chain lshift1_step 0 a
      in if c \<noteq> 0 then r\<lparr>bn_d := set_words (bn_d r) 0 (ws @ [1]), bn_width := length a + 1\<rparr>
         else r\<lparr>bn_d := set_words (bn_d r) 0 ws, bn_width := length a\<rparr>)"

definition BN_lshift1 :: "bn_malloc \<Rightarrow> bignum \<Rightarrow> bignum \<Rightarrow> bool \<times> bignum" where
  "BN_lshift1 m r a =
     and_also (bn_wexpand m (r\<lparr>bn_neg := bn_neg a\<rparr>) (bn_width a + 1)) (\<lambda>r. (True, lshift1_words r (bn_words a)))"

definition BN_lshift1_in_place :: "bn_malloc \<Rightarrow> bignum \<Rightarrow> bool \<times> bignum" where
  "BN_lshift1_in_place m r = and_also (bn_wexpand m r (bn_width r + 1)) (\<lambda>r. (True, lshift1_words r (bn_words r)))"

definition BN_rshift :: "bn_malloc \<Rightarrow> bignum \<Rightarrow> bignum \<Rightarrow> int \<Rightarrow> bool \<times> bignum" where
  "BN_rshift m r a n =
     (if n < 0 then (False, r)
      else and_also (bn_wexpand m r (bn_width a)) (\<lambda>r.
             (True, bn_set_minimal_width (r\<lparr>bn_d := set_words (bn_d r) 0 (bn_rshift_words (bn_words a) (nat n)),
                bn_neg := bn_neg a, bn_width := bn_width a\<rparr>))))"

definition BN_rshift1 :: "bn_malloc \<Rightarrow> bignum \<Rightarrow> bignum \<Rightarrow> bool \<times> bignum" where
  "BN_rshift1 m r a =
     and_also (bn_wexpand m r (bn_width a)) (\<lambda>r.
       (True, bn_set_minimal_width (r\<lparr>bn_d := set_words (bn_d r) 0 (bn_rshift1_words (bn_words a)),
          bn_width := bn_width a, bn_neg := bn_neg a\<rparr>)))"

text \<open>The loop of \<open>bn_rshift_secret_shift\<close>; it goes over the bits of the shift that \<open>max_bits\<close> has.\<close>

definition secret_shift_step :: "nat \<Rightarrow> nat \<Rightarrow> limbs \<Rightarrow> limbs" where
  "secret_shift_step n i d = bn_select_words (0 - of_nat (drop_bit i n mod 2)) (bn_rshift_words d (2 ^ i)) d"

function secret_shift_loop :: "nat \<Rightarrow> nat \<Rightarrow> nat \<Rightarrow> limbs \<Rightarrow> limbs" where
  "secret_shift_loop max_bits n i d =
     (if drop_bit i max_bits \<noteq> 0 then secret_shift_loop max_bits n (i + 1) (secret_shift_step n i d) else d)"
  by auto
termination
proof (relation "measure (\<lambda>(max_bits, n, i, d). max_bits - i)")
  fix max_bits n i :: nat and d :: limbs
  assume "drop_bit i max_bits \<noteq> 0"
  then have "2 ^ i \<le> max_bits" by (rule contrapos_np) (simp add: drop_bit_eq_div)
  then have "i < max_bits" using less_exp [of i] by linarith
  then show "((max_bits, n, i + 1, secret_shift_step n i d), max_bits, n, i, d) \<in> measure (\<lambda>(max_bits, n, i, d). max_bits - i)"
    by simp
qed simp

declare secret_shift_loop.simps [simp del]

definition bn_rshift_secret_shift :: "bn_malloc \<Rightarrow> bignum option \<Rightarrow> bignum \<Rightarrow> bignum \<Rightarrow> nat \<Rightarrow> bool \<times> bignum" where
  "bn_rshift_secret_shift m tmp r a n =
     (case tmp of
        None \<Rightarrow> (False, r)
      | Some tmp \<Rightarrow>
          and_also (BN_copy m r a) (\<lambda>r.
            if fst (bn_wexpand m tmp (bn_width r))
            then (True, r\<lparr>bn_d := set_words (bn_d r) 0 (secret_shift_loop (64 * bn_width r) n 0 (bn_words r))\<rparr>)
            else (False, r)))"

definition BN_set_bit :: "bn_malloc \<Rightarrow> bignum \<Rightarrow> int \<Rightarrow> bool \<times> bignum" where
  "BN_set_bit m a n =
     (if n < 0 then (False, a)
      else
        let i = nat n div 64; j = nat n mod 64
        in and_also
             (if bn_width a \<le> i
              then and_also (bn_wexpand m a (i + 1)) (\<lambda>a.
                     (True, a\<lparr>bn_d := set_words (bn_d a) (bn_width a) (replicate (i + 1 - bn_width a) 0), bn_width := i + 1\<rparr>))
              else (True, a))
             (\<lambda>a. (True, a\<lparr>bn_d := (bn_d a)[i := bn_d a ! i OR push_bit j 1]\<rparr>)))"

definition BN_clear_bit :: "bignum \<Rightarrow> int \<Rightarrow> bool \<times> bignum" where
  "BN_clear_bit a n =
     (if n < 0 then (False, a)
      else
        let i = nat n div 64; j = nat n mod 64
        in if bn_width a \<le> i then (False, a)
           else (True, bn_set_minimal_width (a\<lparr>bn_d := (bn_d a)[i := bn_d a ! i AND NOT (push_bit j 1)]\<rparr>)))"

definition BN_is_bit_set :: "bignum \<Rightarrow> int \<Rightarrow> bool" where
  "BN_is_bit_set a n = (if n < 0 then False else bn_is_bit_set_words (bn_words a) (nat n))"

definition BN_mask_bits :: "bignum \<Rightarrow> int \<Rightarrow> bool \<times> bignum" where
  "BN_mask_bits a n =
     (if n < 0 then (False, a)
      else
        let w = nat n div 64; b = nat n mod 64
        in if w \<ge> bn_width a then (True, a)
           else (True, bn_set_minimal_width
                   (if b = 0 then a\<lparr>bn_width := w\<rparr>
                    else a\<lparr>bn_width := w + 1, bn_d := (bn_d a)[w := bn_d a ! w AND NOT (push_bit b (- 1))]\<rparr>)))"

definition low_zero_step :: "nat \<Rightarrow> u64 \<times> nat \<Rightarrow> u64 \<times> nat" where
  "low_zero_step k s =
     (let (l, bits) = s; mask = constant_time_is_zero_w (push_bit (64 - k) l)
      in (constant_time_select_w mask (drop_bit k l) l, bits + unat (of_nat k AND mask)))"

definition bn_count_low_zero_bits_word :: "u64 \<Rightarrow> nat" where
  "bn_count_low_zero_bits_word l =
     (let (l, bits) = fold low_zero_step [32, 16, 8, 4, 2] (l, 0)
      in bits + unat (1 AND constant_time_is_zero_w (push_bit 63 l)))"

definition low_zeros_step :: "nat \<times> u64 \<Rightarrow> u32 \<times> u64 \<Rightarrow> u32 \<times> u64" where
  "low_zeros_step x s =
     (let (i, d) = x; (ret, saw_nonzero) = s; nonzero = NOT (constant_time_is_zero_w d);
          first_nonzero = NOT saw_nonzero AND nonzero
      in (ret OR ucast (first_nonzero AND of_nat (i * 64 + bn_count_low_zero_bits_word d)), saw_nonzero OR nonzero))"

definition BN_count_low_zero_bits :: "bignum \<Rightarrow> u32" where
  "BN_count_low_zero_bits bn = fst (fold low_zeros_step (zip [0..<bn_width bn] (bn_words bn)) (0, 0))"

section \<open>Shift to the left\<close>

lemma or_plus:
  fixes y h :: u64
  assumes "2 ^ k dvd unat y" "unat h < 2 ^ k"
  shows "unat (y OR h) = unat y + unat h"
proof -
  have "unat y AND unat h = 0"
  proof (rule bit_eqI)
    fix n
    have "take_bit k (unat y) = 0" using assms(1) by (simp add: take_bit_eq_mod)
    then have "\<not> bit (unat y) n" if "n < k" using that by (metis bit_0_eq bit_take_bit_iff bot_apply bot_bool_def)
    moreover have "\<not> bit (unat h) n" if "k \<le> n" using assms(2) that by (metis bit_take_bit_iff not_le take_bit_nat_eq_self)
    ultimately show "bit (unat y AND unat h) n = bit 0 n" by (cases "n < k") (simp_all add: bit_and_iff)
  qed
  then show ?thesis by (simp add: unsigned_or_eq disjunctive_add_eq_or)
qed

lemma shift_high:
  fixes x :: u64
  shows "unat (drop_bit (64 - lb) x) = unat x div 2 ^ (64 - lb)" "lb < 64 \<Longrightarrow> unat (drop_bit (64 - lb) x) < 2 ^ lb"
proof -
  show d: "unat (drop_bit (64 - lb) x) = unat x div 2 ^ (64 - lb)"
    unfolding unat_drop_bit_eq by (rule drop_bit_eq_div)
  have "unat x < 2 ^ 64" using unsigned_less [of x] by simp
  then show "unat (drop_bit (64 - lb) x) < 2 ^ lb" if "lb < 64"
    using that unfolding d by (intro less_mult_imp_div_less) (simp flip: power_add)
qed

lemma shift_parts:
  fixes x :: u64
  assumes "lb < 64"
  shows "unat (push_bit lb x) + 2 ^ 64 * unat (drop_bit (64 - lb) x) = unat x * 2 ^ lb"
proof -
  have s: "(2 :: nat) ^ 64 = 2 ^ (64 - lb) * 2 ^ lb" using assms by (simp flip: power_add)
  have "unat (push_bit lb x) = unat x * 2 ^ lb mod 2 ^ 64"
    unfolding unsigned_push_bit_eq by (simp add: push_bit_eq_mult take_bit_eq_mod)
  also have "\<dots> = (unat x mod 2 ^ (64 - lb)) * 2 ^ lb" unfolding s by (simp only: mult_mod_left)
  finally have l: "unat (push_bit lb x) = (unat x mod 2 ^ (64 - lb)) * 2 ^ lb" .
  note h = shift_high(1) [of lb x]
  have "unat x mod 2 ^ (64 - lb) + 2 ^ (64 - lb) * (unat x div 2 ^ (64 - lb)) = unat x" by simp
  then have "(unat x mod 2 ^ (64 - lb) + 2 ^ (64 - lb) * (unat x div 2 ^ (64 - lb))) * 2 ^ lb = unat x * 2 ^ lb" by (rule arg_cong)
  then show ?thesis unfolding l h s by (simp only: distrib_left distrib_right mult.assoc mult.commute mult.left_commute)
qed

lemma lshift_loop_value:
  assumes "lb < 64" "k \<le> w" "w \<le> length f" "nw + w < length t"
    and "wval (take (w + 1 - k) (drop (nw + k) t)) = wval (take (w - k) (drop k f)) * 2 ^ lb"
  shows "length (fold (lshift_step nw lb f) (rev [0..<k]) t) = length t \<and>
    wval (take (w + 1) (drop nw (fold (lshift_step nw lb f) (rev [0..<k]) t))) = wval (take w f) * 2 ^ lb"
  using assms(2-)
proof (induction k arbitrary: t)
  case (Suc k)
  let ?t = "lshift_step nw lb f k t"
  have l: "length ?t = length t" by (simp add: lshift_step_def Let_def)
  have tf: "take (w - k) (drop k f) = f ! k # take (w - Suc k) (drop (Suc k) f)"
    using Suc.prems(1,2) Cons_nth_drop_Suc [of k f, symmetric] by (simp add: Suc_diff_Suc [symmetric] del: Suc_diff_Suc)
  have two: "w - k = Suc (w - Suc k)" "w + 1 - k = Suc (w - k)" using Suc.prems(1) by simp_all
  have tt: "take (w + 1 - Suc k) (drop (nw + Suc k) t) = t ! (nw + k + 1) # take (w - Suc k) (drop (nw + k + 2) t)"
    using Suc.prems(1,3) Cons_nth_drop_Suc [of "nw + k + 1" t, symmetric] by (simp add: two)
  let ?y = "t ! (nw + k + 1)" and ?rest = "take (w - Suc k) (drop (nw + k + 2) t)"
  have y: "unat ?y + 2 ^ 64 * wval ?rest = wval (take (w - Suc k) (drop (Suc k) f)) * 2 ^ lb"
    using Suc.prems(4) unfolding tt by simp
  have "wval (take (w + 1 - k) (drop (nw + k) ?t)) = wval (take (w - k) (drop k f)) * 2 ^ lb"
  proof (cases "lb = 0")
    case True
    have "take (w + 1 - k) (drop (nw + k) ?t) = f ! k # take (w - k) (drop (nw + k + 1) t)"
      using True Suc.prems(1,3) Cons_nth_drop_Suc [of "nw + k" ?t, symmetric] by (simp only: two(2)) (simp add: lshift_step_def)
    then show ?thesis using Suc.prems(4) True by (simp add: tf)
  next
    case False
    let ?h = "drop_bit (64 - lb) (f ! k)"
    have "take (w + 1 - k) (drop (nw + k) ?t) = push_bit lb (f ! k) # (?y OR ?h) # ?rest"
      using False Suc.prems(1,3) Cons_nth_drop_Suc [of "nw + k" ?t, symmetric] Cons_nth_drop_Suc [of "nw + k + 1" ?t, symmetric]
      by (simp only: two) (simp add: lshift_step_def Let_def)
    moreover have "2 ^ lb dvd (2 :: nat) ^ 64" using assms(1) by (intro le_imp_power_dvd) simp
    then have "2 ^ lb dvd unat ?y" using y by (metis dvd_add_left_iff dvd_mult2 dvd_triv_right)
    moreover have "unat ?h < 2 ^ lb" using assms(1) by (rule shift_high)
    ultimately have "wval (take (w + 1 - k) (drop (nw + k) ?t)) = unat (push_bit lb (f ! k)) + 2 ^ 64 * (unat ?y + unat ?h + 2 ^ 64 * wval ?rest)"
      by (simp add: or_plus)
    moreover have "2 ^ 64 * (unat ?y + 2 ^ 64 * wval ?rest) = 2 ^ 64 * (wval (take (w - Suc k) (drop (Suc k) f)) * 2 ^ lb)"
      using y by (rule arg_cong)
    ultimately show ?thesis using shift_parts [OF assms(1), of "f ! k"]
      unfolding tf wval.simps distrib_left distrib_right mult.assoc by linarith
  qed
  then show ?case using Suc.IH [of ?t] Suc.prems l by simp
qed simp

text \<open>Storing the result and its sign.\<close>

lemma bn_result:
  assumes "bn_ok r" "r' = bn_set_minimal_width s" "bn_d s = d" "bn_width s = w" "bn_neg s = neg" "length d = dmax r" "w \<le> length d"
  shows "bn_ok r'" "bn_int r' = (if neg then - int (wval (take w d)) else int (wval (take w d)))"
    "bn_abs r' = wval (take w d)" "minimal r'"
proof -
  have ok: "bn_ok s" using assms by (simp add: bn_ok_def)
  have abs: "bn_abs s = wval (take w d)" using assms by (simp add: bn_abs_def bn_words_def)
  show "bn_ok r'" "minimal r'" using bn_set_minimal_width_facts [OF ok] unfolding assms(2) by blast+
  show "bn_abs r' = wval (take w d)" by (simp only: assms(2) bn_set_minimal_width_facts(3) [OF ok] abs)
  show "bn_int r' = (if neg then - int (wval (take w d)) else int (wval (take w d)))"
    by (simp only: assms(2) bn_set_minimal_width_facts(4) [OF ok]) (simp add: bn_int_def abs assms)
qed

lemma bn_ok_set_neg [simp]: "bn_ok (r\<lparr>bn_neg := n\<rparr>) = bn_ok r"
  by (simp add: bn_ok_def)

lemma BN_lshift_exact:
  assumes "BN_lshift m r a n = (ok, r')" "gives_words m" "bn_ok r" "bn_ok a"
  shows "bn_ok r'" "ok \<Longrightarrow> 0 \<le> n \<and> bn_int r' = bn_int a * 2 ^ nat n \<and> minimal r'"
proof -
  let ?nw = "nat n div 64" and ?lb = "nat n mod 64" and ?w = "bn_width a"
  have "bn_ok r' \<and> (ok \<longrightarrow> 0 \<le> n \<and> bn_int r' = bn_int a * 2 ^ nat n \<and> minimal r')"
  proof (cases "n < 0")
    case True
    then show ?thesis using assms(1,3) by (simp add: BN_lshift_def)
  next
    case False
    obtain ok1 r1 where 1: "bn_wexpand m (r\<lparr>bn_neg := bn_neg a\<rparr>) (?w + ?nw + 1) = (ok1, r1)" by force
    note x = bn_wexpand_facts [OF 1 assms(2), simplified, OF assms(3)]
    show ?thesis
    proof (cases ok1)
      case ok1: True
      let ?t = "(bn_d r1)[?w + ?nw := 0]"
      let ?f = "fold (lshift_step ?nw ?lb (bn_d a)) (rev [0..<?w]) ?t"
      let ?d = "set_words ?f 0 (replicate ?nw 0)"
      have d: "?w + ?nw < dmax r1" using x(5) ok1 by simp
      have "take 1 (drop (?nw + ?w) ?t) = [0]" using d by (simp add: take_Suc hd_drop_conv_nth add.commute)
      then have v: "length ?f = length ?t \<and> wval (take (?w + 1) (drop ?nw ?f)) = wval (take ?w (bn_d a)) * 2 ^ ?lb"
        using d assms(4) by (intro lshift_loop_value) (simp_all add: bn_ok_def add.commute)
      have r': "ok" "r' = bn_set_minimal_width (r1\<lparr>bn_d := ?d, bn_width := ?w + ?nw + 1\<rparr>)"
        using assms(1) False 1 ok1 by (auto simp: BN_lshift_def Let_def)
      have ld: "length ?d = dmax r1" "?w + ?nw + 1 \<le> length ?d" using d v by simp_all
      note q = bn_result [OF x(1) r'(2) _ _ _ ld, of "bn_neg a"]
      have "take (?w + ?nw + 1) ?d = replicate ?nw 0 @ take (?w + 1) (drop ?nw ?f)" using d v by (simp add: set_words_def)
      then have "wval (take (?w + ?nw + 1) ?d) = 2 ^ (64 * ?nw) * (bn_abs a * 2 ^ ?lb)"
        using v by (simp add: wval_append bn_abs_def bn_words_def)
      also have "\<dots> = bn_abs a * (2 ^ (64 * ?nw) * 2 ^ ?lb)" by simp
      also have "2 ^ (64 * ?nw) * 2 ^ ?lb = (2 :: nat) ^ nat n" by (simp flip: power_add)
      finally have v': "wval (take (?w + ?nw + 1) ?d) = bn_abs a * 2 ^ nat n" .
      show ?thesis using q x(4) False r'(1) unfolding v' by (simp add: bn_int_def [of a])
    next
      case False
      then show ?thesis using assms(1,3) 1 x(1) by (auto simp: BN_lshift_def Let_def split: if_splits)
    qed
  qed
  then show "bn_ok r'" "ok \<Longrightarrow> 0 \<le> n \<and> bn_int r' = bn_int a * 2 ^ nat n \<and> minimal r'" by blast+
qed

lemma BN_rshift_exact:
  assumes "BN_rshift m r a n = (ok, r')" "gives_words m" "bn_ok r" "bn_ok a"
  shows "bn_ok r'" "ok \<Longrightarrow> 0 \<le> n \<and> bn_int r' = sgn (bn_int a) * (\<bar>bn_int a\<bar> div 2 ^ nat n) \<and> minimal r'"
proof -
  have "bn_ok r' \<and> (ok \<longrightarrow> 0 \<le> n \<and> bn_int r' = sgn (bn_int a) * (\<bar>bn_int a\<bar> div 2 ^ nat n) \<and> minimal r')"
  proof (cases "n < 0")
    case True
    then show ?thesis using assms(1,3) by (simp add: BN_rshift_def)
  next
    case False
    obtain ok1 r1 where 1: "bn_wexpand m r (bn_width a) = (ok1, r1)" by force
    note x = bn_wexpand_facts [OF 1 assms(2,3)]
    let ?ws = "bn_rshift_words (bn_words a) (nat n)"
    have l: "length ?ws = bn_width a" using assms(4) by (simp add: length_bn_words)
    show ?thesis
    proof (cases ok1)
      case ok1: True
      let ?d = "set_words (bn_d r1) 0 ?ws"
      have r': "ok" "r' = bn_set_minimal_width (r1\<lparr>bn_d := ?d, bn_neg := bn_neg a, bn_width := bn_width a\<rparr>)"
        using assms(1) False 1 ok1 by (auto simp: BN_rshift_def)
      have ld: "length ?d = dmax r1" "bn_width a \<le> length ?d" using x(5) ok1 l by simp_all
      have t: "take (bn_width a) ?d = ?ws" using take_set_words_0 [of ?ws "bn_d r1"] x(5) ok1 unfolding l by simp
      show ?thesis using bn_result [OF x(1) r'(2) _ _ _ ld, of "bn_neg a"] False r'(1) unfolding t bn_rshift_words_value
        by (auto simp: bn_int_def bn_abs_def [of a] zdiv_int sgn_if)
    next
      case False
      then show ?thesis using assms(1,3) 1 x(1) by (auto simp: BN_rshift_def split: if_splits)
    qed
  qed
  then show "bn_ok r'" "ok \<Longrightarrow> 0 \<le> n \<and> bn_int r' = sgn (bn_int a) * (\<bar>bn_int a\<bar> div 2 ^ nat n) \<and> minimal r'" by blast+
qed

lemma lshift1_step_value:
  assumes "lshift1_step c x = (r, c')" "unat c \<le> 1"
  shows "unat c' \<le> 1 \<and> int (unat r) + 2 ^ 64 * int (unat c') = int (2 * unat x) + int (unat c)"
proof -
  have rc: "r = push_bit 1 x OR c" "c' = drop_bit (64 - 1) x" using assms(1) by (simp_all add: lshift1_step_def)
  note p = shift_parts [of 1 x]
  have c: "unat c' < 2 ^ 1" unfolding rc by (rule shift_high) simp
  have "2 ^ 1 dvd unat (push_bit 1 x)"
  proof -
    have "2 dvd (2 :: nat) ^ 64 * unat (drop_bit (64 - 1) x)" by simp
    moreover have "2 dvd unat (push_bit 1 x) + 2 ^ 64 * unat (drop_bit (64 - 1) x)" using p by simp
    ultimately show ?thesis by (simp only: power_one_right dvd_add_left_iff)
  qed
  then have "unat r = unat (push_bit 1 x) + unat c" unfolding rc using assms(2) by (intro or_plus [where k = 1]) simp_all
  then have "unat r + 2 ^ 64 * unat c' = 2 * unat x + unat c" using p rc by simp
  then have "int (unat r + 2 ^ 64 * unat c') = int (2 * unat x + unat c)" by (rule arg_cong)
  then show ?thesis using c unfolding of_nat_add of_nat_mult by simp
qed

lemma lshift1_words_value:
  assumes "bn_ok r" "length a + 1 \<le> dmax r"
  shows "bn_ok (lshift1_words r a)" "bn_abs (lshift1_words r a) = 2 * wval a" "bn_neg (lshift1_words r a) = bn_neg r"
proof -
  obtain ws c where 1: "chain lshift1_step 0 a = (ws, c)" by force
  have v: "unat c \<le> 1 \<and> int (wval ws) + 2 ^ (64 * length a) * int (unat c) = gval (\<lambda>x. int (2 * unat x)) a + int (unat (0 :: u64))"
    by (rule chain_value [where P = "\<lambda>_. True" and I = "\<lambda>c. unat c \<le> 1" and cv = "\<lambda>c. int (unat c)", OF _ 1])
      (use lshift1_step_value in auto)
  have g: "gval (\<lambda>x. int (2 * unat x)) a = 2 * int (wval a)" by (simp add: int_wval gval_mult)
  have l: "length ws = length a" using length_chain [of lshift1_step 0 a] 1 by simp
  have eq: "wval ws + 2 ^ (64 * length a) * unat c = 2 * wval a" using v unfolding g by (simp flip: of_nat_eq_iff [where 'a = int])
  have c: "c = 0 \<or> c = 1" using v by (metis le_SucE One_nat_def le_zero_eq unat_eq_0 unsigned_1 unsigned_word_eqI)
  have "bn_ok (lshift1_words r a) \<and> bn_abs (lshift1_words r a) = 2 * wval a \<and> bn_neg (lshift1_words r a) = bn_neg r"
  proof (cases "c = 0")
    case True
    then show ?thesis using bn_stored [OF assms(1), of ws] assms(2) eq l by (simp add: lshift1_words_def 1 bn_abs_def)
  next
    case False
    then show ?thesis using bn_stored [OF assms(1), of "ws @ [1]"] assms(2) eq l c by (simp add: lshift1_words_def 1 bn_abs_def wval_append)
  qed
  then show "bn_ok (lshift1_words r a)" "bn_abs (lshift1_words r a) = 2 * wval a" "bn_neg (lshift1_words r a) = bn_neg r" by blast+
qed

lemma BN_lshift1_exact:
  assumes "BN_lshift1 m r a = (ok, r')" "gives_words m" "bn_ok r" "bn_ok a"
  shows "bn_ok r'" "ok \<Longrightarrow> bn_int r' = 2 * bn_int a"
proof -
  obtain ok1 r1 where 1: "bn_wexpand m (r\<lparr>bn_neg := bn_neg a\<rparr>) (bn_width a + 1) = (ok1, r1)" by force
  note x = bn_wexpand_facts [OF 1 assms(2), simplified, OF assms(3)]
  show "bn_ok r'" "ok \<Longrightarrow> bn_int r' = 2 * bn_int a"
    using assms(1,4) 1 x lshift1_words_value [OF x(1), of "bn_words a"]
    by (cases ok1; auto simp: BN_lshift1_def length_bn_words bn_int_def bn_abs_def [of a])+
qed

text \<open>The loop over the bits of a secret number of bits misses those above the length of the number.\<close>

lemma length_secret_shift_step [simp]: "length (secret_shift_step n i d) = length d"
  by (simp add: secret_shift_step_def bn_select_words_def)

lemma secret_shift_step_value: "wval (secret_shift_step n i d) = wval d div 2 ^ (n div 2 ^ i mod 2 * 2 ^ i)"
proof -
  have "0 - of_nat b = (if b = 0 then 0 else - 1 :: u64)" if "b < 2" for b :: nat using that by (cases b) auto
  then have "secret_shift_step n i d = (if n div 2 ^ i mod 2 = 0 then d else bn_rshift_words d (2 ^ i))"
    using bn_select_words_eq [of "bn_rshift_words d (2 ^ i)" d True] bn_select_words_eq [of "bn_rshift_words d (2 ^ i)" d False]
    by (simp add: secret_shift_step_def drop_bit_eq_div)
  then show ?thesis by (simp add: bn_rshift_words_value)
qed

text \<open>The loop looks at the bits of the shift up to the highest bit of \<open>max_bits\<close>, and at no others.\<close>

lemma secret_shift_loop_value:
  "(\<And>j. drop_bit j max_bits = 0 \<Longrightarrow> n div 2 ^ j = 0) \<Longrightarrow>
   wval (secret_shift_loop max_bits n i d) = wval d div 2 ^ (n div 2 ^ i * 2 ^ i)"
proof (induction max_bits n i d rule: secret_shift_loop.induct)
  case (1 max_bits n i d)
  show ?case
  proof (cases "drop_bit i max_bits = 0")
    case True
    then have "n div 2 ^ i = 0" by (rule 1(2))
    then show ?thesis using True by (simp add: secret_shift_loop.simps)
  next
    case False
    define q where "q = n div 2 ^ i"
    have "n div 2 ^ (i + 1) = q div 2" by (simp add: q_def flip: div_mult2_eq) (simp add: mult.commute)
    then have "wval (secret_shift_loop max_bits n i d) = wval d div 2 ^ (q mod 2 * 2 ^ i) div 2 ^ (q div 2 * 2 ^ (i + 1))"
      using 1 False by (subst secret_shift_loop.simps) (simp add: secret_shift_step_value q_def)
    also have "\<dots> = wval d div 2 ^ (q mod 2 * 2 ^ i + q div 2 * 2 ^ (i + 1))" by (simp add: div_mult2_eq power_add)
    also have "q mod 2 * 2 ^ i + q div 2 * 2 ^ (i + 1) = (q mod 2 + 2 * (q div 2)) * 2 ^ i" by (simp only: distrib_left distrib_right power_add power_one_right mult.assoc mult.commute mult.left_commute)
    finally show ?thesis by (simp add: q_def)
  qed
qed

definition bit_length :: "nat \<Rightarrow> nat \<Rightarrow> bool" where
  "bit_length k m \<longleftrightarrow> m < 2 ^ k \<and> (0 < k \<longrightarrow> 2 ^ (k - 1) \<le> m)"

lemma bit_length_drop: "bit_length k m \<Longrightarrow> drop_bit j m = 0 \<longleftrightarrow> k \<le> j"
proof
  assume k: "bit_length k m"
  show "k \<le> j" if "drop_bit j m = 0"
  proof (rule ccontr)
    assume "\<not> k \<le> j"
    then have "(2 :: nat) ^ j \<le> 2 ^ (k - 1)" "0 < k" by simp_all
    moreover from this(2) have "2 ^ (k - 1) \<le> m" using k by (simp add: bit_length_def)
    ultimately have "2 ^ j \<le> m" by linarith
    then show False using that by (simp add: drop_bit_eq_div div_eq_0_iff)
  qed
  assume "k \<le> j"
  then have "(2 :: nat) ^ k \<le> 2 ^ j" by simp
  moreover have "m < 2 ^ k" using k by (simp add: bit_length_def)
  ultimately have "m < 2 ^ j" by linarith
  then show "drop_bit j m = 0" by (simp add: drop_bit_eq_div)
qed

lemma secret_shift_loop_low:
  "bit_length k max_bits \<Longrightarrow> secret_shift_loop max_bits n i d = secret_shift_loop max_bits (n mod 2 ^ k) i d"
proof (induction max_bits n i d rule: secret_shift_loop.induct)
  case (1 max_bits n i d)
  show ?case
  proof (cases "drop_bit i max_bits = 0")
    case True
    then show ?thesis by (simp add: secret_shift_loop.simps)
  next
    case False
    then have "i < k" using bit_length_drop [OF 1(2)] by simp
    then have "bit (n mod 2 ^ k) i = bit n i" by (simp add: bit_take_bit_iff flip: take_bit_eq_mod)
    then have "drop_bit i (n mod 2 ^ k) mod 2 = drop_bit i n mod 2"
      by (simp add: drop_bit_eq_div bit_iff_odd mod2_eq_if)
    then have "secret_shift_step (n mod 2 ^ k) i d = secret_shift_step n i d" by (simp add: secret_shift_step_def)
    then show ?thesis using 1(1) [OF False 1(2)] False
      by (subst (1 2) secret_shift_loop.simps) simp
  qed
qed

lemma secret_shift_loop_exact:
  assumes "bit_length k max_bits"
  shows "wval (secret_shift_loop max_bits n 0 d) = wval d div 2 ^ (n mod 2 ^ k)"
proof -
  have "n mod 2 ^ k div 2 ^ j = 0" if "drop_bit j max_bits = 0" for j
  proof -
    have "(2 :: nat) ^ k \<le> 2 ^ j" using that bit_length_drop [OF assms] by simp
    moreover have "n mod 2 ^ k < 2 ^ k" by simp
    ultimately have "n mod 2 ^ k < 2 ^ j" by linarith
    then show ?thesis by simp
  qed
  then show ?thesis unfolding secret_shift_loop_low [OF assms, of n] by (subst secret_shift_loop_value) simp_all
qed

lemma bn_rshift_secret_shift_exact:
  assumes "bn_rshift_secret_shift m tmp r a n = (ok, r')" "gives_words m" "bn_ok r" "bn_ok a" "bit_length k (64 * bn_width a)"
  shows "bn_ok r'" "ok \<Longrightarrow> bn_abs r' = bn_abs a div 2 ^ (n mod 2 ^ k) \<and> bn_neg r' = bn_neg a"
proof -
  obtain ok1 r1 where 1: "bn_wexpand m r (bn_width a) = (ok1, r1)" by force
  note x = bn_wexpand_facts [OF 1 assms(2,3)]
  have la: "length (bn_words a) = bn_width a" using assms(4) by (rule length_bn_words)
  let ?d = "set_words (bn_d r1) 0 (bn_words a)"
  have t: "take (bn_width a) ?d = bn_words a" if ok1 using take_set_words_0 [of "bn_words a" "bn_d r1"] x(5) that unfolding la by simp
  have ls: "length (secret_shift_loop M n i d) = length d" for M i d
    by (induction M n i d rule: secret_shift_loop.induct) (subst secret_shift_loop.simps, simp)
  let ?ws = "secret_shift_loop (64 * bn_width a) n 0 (bn_words a)"
  have v: "wval ?ws = bn_abs a div 2 ^ (n mod 2 ^ k)" using secret_shift_loop_exact [OF assms(5)] by (simp add: bn_abs_def)
  have s: "take (bn_width a) (set_words ?d 0 ?ws) = ?ws" if ok1
    using take_set_words_0 [of ?ws ?d] x(5) that by (simp add: ls la)
  show "bn_ok r'" "ok \<Longrightarrow> bn_abs r' = bn_abs a div 2 ^ (n mod 2 ^ k) \<and> bn_neg r' = bn_neg a"
    using assms(1,3) 1 x(1,5) t s v la
    by (cases tmp; cases ok1; auto simp: bn_rshift_secret_shift_def BN_copy_def bn_ok_def bn_abs_def [of r'] bn_words_def [of "_\<lparr>bn_neg := _\<rparr>"]
        bn_words_def [of r'] ls split: if_splits)+
qed

section \<open>Single bits\<close>

lemma bit_wval_update:
  assumes "i < length ws"
  shows "bit (wval (ws[i := w])) n \<longleftrightarrow> (if n div 64 = i then bit w (n mod 64) else bit (wval ws) n)"
  using assms by (simp add: bit_wval)

lemma div_mod_64_eq: "n div 64 = k div 64 \<and> n mod 64 = k mod 64 \<longleftrightarrow> n = k" for n k :: nat
  by (metis div_mult_mod_eq)

lemma div_mod_64_less: "k < n \<longleftrightarrow> k div 64 < n div 64 \<or> k div 64 = n div 64 \<and> k mod 64 < n mod 64" for n k :: nat
proof -
  have "64 * c + d < 64 * a + b \<longleftrightarrow> c < a \<or> c = a \<and> d < b" if "d < 64" "b < 64" for a b c d :: nat
    using that by (cases c a rule: linorder_cases) auto
  from this [of "k mod 64" "n mod 64" "k div 64" "n div 64"] show ?thesis by simp
qed

lemma bit_single: "bit ((2 :: u64) ^ j) q \<longleftrightarrow> q = j \<and> q < 64"
  by (auto simp: bit_exp_iff)

lemma BN_set_bit_exact:
  assumes "BN_set_bit m a n = (ok, r')" "gives_words m" "bn_ok a"
  shows "bn_ok r'" "ok \<Longrightarrow> 0 \<le> n \<and> bn_abs r' = set_bit (nat n) (bn_abs a) \<and> bn_neg r' = bn_neg a"
proof -
  let ?i = "nat n div 64" and ?j = "nat n mod 64"
  have update: "bn_ok b' \<and> bn_abs b' = set_bit (nat n) (bn_abs b)"
    if "bn_ok b" "?i < bn_width b" "b' = b\<lparr>bn_d := (bn_d b)[?i := bn_d b ! ?i OR push_bit ?j 1]\<rparr>" for b b'
  proof -
    have l: "?i < length (bn_words b)" using that by (simp add: length_bn_words)
    have w: "bn_words b' = (bn_words b)[?i := bn_words b ! ?i OR push_bit ?j 1]" using that by (simp add: bn_words_def take_update_swap)
    have "bit (bn_abs b') k \<longleftrightarrow> bit (set_bit (nat n) (bn_abs b)) k" for k
    proof (cases "k div 64 = ?i")
      case True
      then show ?thesis using l div_mod_64_eq [of k "nat n"]
        by (auto simp: bn_abs_def w bit_wval_update bit_set_bit_iff bit_wval bit_or_iff bit_single)
    next
      case False
      then show ?thesis using l by (auto simp: bn_abs_def w bit_wval_update bit_set_bit_iff)
    qed
    then show ?thesis using that by (simp add: bit_eq_iff bn_ok_def)
  qed
  have "bn_ok r' \<and> (ok \<longrightarrow> 0 \<le> n \<and> bn_abs r' = set_bit (nat n) (bn_abs a) \<and> bn_neg r' = bn_neg a)"
  proof (cases "n < 0 \<or> ?i < bn_width a")
    case True
    then show ?thesis using assms(1,3) update [OF assms(3)]
      by (auto simp: BN_set_bit_def Let_def split: if_splits)
  next
    case False
    obtain ok1 a1 where 1: "bn_wexpand m a (?i + 1) = (ok1, a1)" by force
    note x = bn_wexpand_facts [OF 1 assms(2,3)]
    let ?b = "a1\<lparr>bn_d := set_words (bn_d a1) (bn_width a) (replicate (?i + 1 - bn_width a) 0), bn_width := ?i + 1\<rparr>"
    show ?thesis
    proof (cases ok1)
      case True
      then have d: "?i + 1 \<le> dmax a1" using x(5) by simp
      have "bn_words ?b = bn_words a1 @ replicate (?i + 1 - bn_width a) 0"
        using take_set_words [of "?i + 1" "bn_width a" "replicate (?i + 1 - bn_width a) 0" "bn_d a1"] False d x(3)
        by (simp add: bn_words_def)
      then have b: "bn_abs ?b = bn_abs a" using x(2) by (simp add: bn_abs_def wval_append)
      have "dmax ?b = dmax a1" using False d by simp
      then have bo: "bn_ok ?b" using x(1) d by (simp add: bn_ok_def)
      have "(ok, r') = (True, ?b\<lparr>bn_d := (bn_d ?b)[?i := bn_d ?b ! ?i OR push_bit ?j 1]\<rparr>)"
        using assms(1) False True 1 by (simp add: BN_set_bit_def Let_def x(3))
      then have r': "ok" "r' = ?b\<lparr>bn_d := (bn_d ?b)[?i := bn_d ?b ! ?i OR push_bit ?j 1]\<rparr>" by simp_all
      have n: "bn_neg r' = bn_neg a1" unfolding r'(2) by simp
      show ?thesis using update [OF bo _ r'(2)] False r'(1) x(4) n unfolding b by simp
    next
      case fail: False
      then show ?thesis using assms(1,3) False x(1) 1 by (simp add: BN_set_bit_def Let_def)
    qed
  qed
  then show "bn_ok r'" "ok \<Longrightarrow> 0 \<le> n \<and> bn_abs r' = set_bit (nat n) (bn_abs a) \<and> bn_neg r' = bn_neg a" by blast+
qed

lemma BN_clear_bit_exact:
  assumes "BN_clear_bit a n = (ok, r')" "bn_ok a"
  shows "bn_ok r'" "ok \<longleftrightarrow> 0 \<le> n \<and> nat n div 64 < bn_width a" "ok \<Longrightarrow> bn_abs r' = unset_bit (nat n) (bn_abs a) \<and> minimal r'"
proof -
  let ?i = "nat n div 64" and ?j = "nat n mod 64"
  have "bn_ok r' \<and> (ok \<longleftrightarrow> 0 \<le> n \<and> nat n div 64 < bn_width a) \<and> (ok \<longrightarrow> bn_abs r' = unset_bit (nat n) (bn_abs a) \<and> minimal r')"
  proof (cases "n < 0 \<or> bn_width a \<le> ?i")
    case True
    then show ?thesis using assms by (auto simp: BN_clear_bit_def Let_def split: if_splits)
  next
    case False
    let ?d = "(bn_d a)[?i := bn_d a ! ?i AND NOT (push_bit ?j 1)]"
    have r': "ok" "r' = bn_set_minimal_width (a\<lparr>bn_d := ?d\<rparr>)" using False assms(1) by (auto simp: BN_clear_bit_def Let_def)
    have ld: "length ?d = dmax a" "bn_width a \<le> length ?d" using assms(2) by (simp_all add: bn_ok_def)
    have l: "?i < length (bn_words a)" using False assms(2) by (simp add: length_bn_words)
    have w: "take (bn_width a) ?d = (bn_words a)[?i := bn_words a ! ?i AND NOT (2 ^ ?j)]"
      using False by (simp add: bn_words_def take_update_swap)
    have "bit (wval (take (bn_width a) ?d)) k \<longleftrightarrow> bit (unset_bit (nat n) (bn_abs a)) k" for k
    proof (cases "k div 64 = ?i")
      case True
      then show ?thesis using l div_mod_64_eq [of k "nat n"] unfolding w bn_abs_def
        by (auto simp: bit_wval_update bit_unset_bit_iff bit_wval bit_and_iff bit_not_iff bit_single)
    next
      case False
      then show ?thesis using l unfolding w bn_abs_def by (auto simp: bit_wval_update bit_unset_bit_iff)
    qed
    then have "wval (take (bn_width a) ?d) = unset_bit (nat n) (bn_abs a)" by (simp add: bit_eq_iff)
    then show ?thesis using bn_result [OF assms(2) r'(2) _ _ _ ld] r'(1) False by simp
  qed
  then show "bn_ok r'" "ok \<longleftrightarrow> 0 \<le> n \<and> nat n div 64 < bn_width a" "ok \<Longrightarrow> bn_abs r' = unset_bit (nat n) (bn_abs a) \<and> minimal r'" by blast+
qed

lemma BN_mask_bits_exact:
  assumes "BN_mask_bits a n = (ok, r')" "bn_ok a"
  shows "bn_ok r'" "ok \<longleftrightarrow> 0 \<le> n" "ok \<Longrightarrow> bn_abs r' = bn_abs a mod 2 ^ nat n"
proof -
  let ?i = "nat n div 64" and ?j = "nat n mod 64"
  have la: "length (bn_words a) = bn_width a" using assms(2) by (rule length_bn_words)
  have "bn_ok r' \<and> (ok \<longleftrightarrow> 0 \<le> n) \<and> (ok \<longrightarrow> bn_abs r' = bn_abs a mod 2 ^ nat n)"
  proof (cases "n < 0 \<or> bn_width a \<le> ?i")
    case True
    have "bn_abs a < 2 ^ nat n" if "bn_width a \<le> ?i"
    proof -
      have "64 * bn_width a \<le> nat n" using that by simp
      then have "2 ^ (64 * bn_width a) \<le> (2 :: nat) ^ nat n" by (rule power_increasing) simp
      then show ?thesis using wval_less [of "bn_words a"] unfolding bn_abs_def la by (rule order_less_le_trans [rotated])
    qed
    with True show ?thesis using assms by (auto simp: BN_mask_bits_def Let_def split: if_splits)
  next
    case False
    let ?d = "(bn_d a)[?i := bn_d a ! ?i AND NOT (push_bit ?j (- 1))]"
    have i: "?i < bn_width a" using False by simp
    show ?thesis
    proof (cases "?j = 0")
      case True
      have r': "ok" "r' = bn_set_minimal_width (a\<lparr>bn_width := ?i\<rparr>)" using False True assms(1) by (auto simp: BN_mask_bits_def Let_def)
      have "wval (take ?i (bn_d a)) = wval (take ?i (bn_words a))" using i by (simp add: bn_words_def)
      also have "\<dots> = bn_abs a mod 2 ^ (64 * ?i)" by (simp add: wval_take bn_abs_def)
      also have "64 * ?i = nat n" using True mult_div_mod_eq [of 64 "nat n"] by linarith
      finally show ?thesis using bn_result [OF assms(2) r'(2)] r'(1) i False assms(2) by (simp add: bn_ok_def)
    next
      case j: False
      have r': "ok" "r' = bn_set_minimal_width (a\<lparr>bn_width := ?i + 1, bn_d := ?d\<rparr>)"
        using False j assms(1) by (auto simp: BN_mask_bits_def Let_def)
      have ld: "length ?d = dmax a" "?i + 1 \<le> length ?d" using i assms(2) by (simp_all add: bn_ok_def)
      have w: "take (?i + 1) ?d = (take (?i + 1) (bn_words a))[?i := bn_words a ! ?i AND NOT (push_bit ?j (- 1))]"
        using i by (simp add: bn_words_def take_update_swap min_def)
      have "bit (wval (take (?i + 1) ?d)) k \<longleftrightarrow> bit (take_bit (nat n) (bn_abs a)) k" for k
      proof -
        have k: "k < nat n \<longleftrightarrow> k div 64 < ?i \<or> k div 64 = ?i \<and> k mod 64 < ?j" by (rule div_mod_64_less)
        have m: "bit (take (?i + 1) (bn_words a) ! ?i AND NOT (push_bit ?j (- 1 :: u64))) (k mod 64) \<longleftrightarrow>
            bit (bn_words a ! ?i) (k mod 64) \<and> k mod 64 < ?j"
          by (auto simp: bit_and_iff bit_not_iff bit_push_bit_iff bit_minus_1_iff bit_mask_iff)
        consider "k div 64 < ?i" | "k div 64 = ?i" | "?i < k div 64" by linarith
        then show ?thesis
        proof cases
          case 1
          then show ?thesis using i la k unfolding w by (simp add: bit_wval bn_abs_def bit_take_bit_iff)
        next
          case 2
          then show ?thesis using i la k m unfolding w by (simp add: bit_wval bn_abs_def bit_take_bit_iff conj_commute)
        next
          case 3
          then show ?thesis using i la k unfolding w by (simp add: bit_wval bn_abs_def bit_take_bit_iff)
        qed
      qed
      then have "wval (take (?i + 1) ?d) = bn_abs a mod 2 ^ nat n" by (simp add: bit_eq_iff flip: take_bit_eq_mod)
      then show ?thesis using bn_result [OF assms(2) r'(2) _ _ _ ld] r'(1) False by simp
    qed
  qed
  then show "bn_ok r'" "ok \<longleftrightarrow> 0 \<le> n" "ok \<Longrightarrow> bn_abs r' = bn_abs a mod 2 ^ nat n" by blast+
qed

section \<open>The lowest bit that is set\<close>

definition lowest_bit :: "('a :: semiring_bits) \<Rightarrow> nat \<Rightarrow> bool" where
  "lowest_bit x j \<longleftrightarrow> bit x j \<and> (\<forall>i < j. \<not> bit x i)"

lemma low_zero_step_value:
  assumes "lowest_bit l j" "j < 2 * k" "0 < k" "k \<le> 32"
  shows "\<exists>l' j'. low_zero_step k (l, bits) = (l', bits + (j - j')) \<and> lowest_bit l' j' \<and> j' < k \<and> j' \<le> j"
proof -
  have z: "push_bit (64 - k) l = 0 \<longleftrightarrow> k \<le> j"
  proof
    assume "push_bit (64 - k) l = 0"
    then have "\<not> bit (push_bit (64 - k) l) (64 - k + j)" by simp
    then show "k \<le> j" using assms by (auto simp: bit_push_bit_iff lowest_bit_def)
  next
    assume "k \<le> j"
    then show "push_bit (64 - k) l = 0" using assms by (intro bit_word_eqI) (auto simp: bit_push_bit_iff lowest_bit_def)
  qed
  have m: "unat (of_nat k AND (- 1 :: u64)) = k" using assms by (simp add: unat_of_nat)
  show ?thesis
  proof (cases "k \<le> j")
    case True
    then have "lowest_bit (drop_bit k l) (j - k)" using assms by (auto simp: lowest_bit_def bit_drop_bit_eq)
    then show ?thesis using True assms z m
      by (intro exI [of _ "drop_bit k l"] exI [of _ "j - k"]) (simp add: low_zero_step_def constant_time)
  next
    case False
    then show ?thesis using assms z by (intro exI [of _ l] exI [of _ j]) (simp add: low_zero_step_def constant_time)
  qed
qed

lemma bn_count_low_zero_bits_word_value:
  assumes "lowest_bit l j"
  shows "bn_count_low_zero_bits_word l = j"
proof -
  have "j < 2 * 32" using assms by (auto simp: lowest_bit_def dest: bit_imp_le_length)
  then obtain l1 j1 where 1: "low_zero_step 32 (l, 0) = (l1, 0 + (j - j1))" "lowest_bit l1 j1" "j1 < 2 * 16" "j1 \<le> j"
    using low_zero_step_value [OF assms, of 32 0] by auto
  then obtain l2 j2 where 2: "low_zero_step 16 (l1, j - j1) = (l2, j - j1 + (j1 - j2))" "lowest_bit l2 j2" "j2 < 2 * 8" "j2 \<le> j1"
    using low_zero_step_value [OF 1(2), of 16 "j - j1"] by auto
  then obtain l3 j3 where 3: "low_zero_step 8 (l2, j - j2) = (l3, j - j2 + (j2 - j3))" "lowest_bit l3 j3" "j3 < 2 * 4" "j3 \<le> j2"
    using low_zero_step_value [OF 2(2), of 8 "j - j2"] by auto
  then obtain l4 j4 where 4: "low_zero_step 4 (l3, j - j3) = (l4, j - j3 + (j3 - j4))" "lowest_bit l4 j4" "j4 < 2 * 2" "j4 \<le> j3"
    using low_zero_step_value [OF 3(2), of 4 "j - j3"] by auto
  then obtain l5 j5 where 5: "low_zero_step 2 (l4, j - j4) = (l5, j - j4 + (j4 - j5))" "lowest_bit l5 j5" "j5 < 2 * 1" "j5 \<le> j4"
    using low_zero_step_value [OF 4(2), of 2 "j - j4"] by auto
  have "fold low_zero_step [32, 16, 8, 4, 2] (l, 0) = (l5, j - j5)" using 1 2 3 4 5 by simp
  moreover obtain l6 j6 where 6: "low_zero_step 1 (l5, j - j5) = (l6, j - j5 + (j5 - j6))" "j6 < 1" "j6 \<le> j5"
    using low_zero_step_value [OF 5(2,3), of "j - j5"] by auto
  ultimately show ?thesis using 1 2 3 4 5 6 by (simp add: bn_count_low_zero_bits_word_def low_zero_step_def Let_def)
qed

lemma low_zeros_rest: "fold low_zeros_step xs (ret, - 1) = (ret, - 1)"
  by (induction xs) (simp_all add: low_zeros_step_def split_beta Let_def)

lemma low_zeros_fold:
  assumes "64 * (k + length ws) < 2 ^ 31"
  shows "(\<forall>w \<in> set ws. w = 0) \<and> fst (fold low_zeros_step (zip [k..<k + length ws] ws) (0, 0)) = 0 \<or>
    (\<exists>i < length ws. \<exists>j. (\<forall>i' < i. ws ! i' = 0) \<and> lowest_bit (ws ! i) j \<and>
      unat (fst (fold low_zeros_step (zip [k..<k + length ws] ws) (0, 0))) = 64 * (k + i) + j)"
  using assms
proof (induction ws arbitrary: k)
  case (Cons w ws)
  have u: "zip [k..<k + length (w # ws)] (w # ws) = (k, w) # zip [Suc k..<Suc k + length ws] ws" by (simp add: upt_conv_Cons del: upt_Suc)
  show ?case
  proof (cases "w = 0")
    case True
    have "low_zeros_step (k, w) (0, 0) = (0, 0)" using True by (simp add: low_zeros_step_def constant_time Let_def)
    then have e: "fold low_zeros_step (zip [k..<k + length (w # ws)] (w # ws)) (0, 0) =
        fold low_zeros_step (zip [Suc k..<Suc k + length ws] ws) (0, 0)" unfolding u by simp
    define F where "F = fst (fold low_zeros_step (zip [Suc k..<Suc k + length ws] ws) (0, 0))"
    have "64 * (Suc k + length ws) < 2 ^ 31" using Cons.prems by simp
    note IH = Cons.IH [OF this, folded F_def]
    have "(\<forall>w \<in> set (w # ws). w = 0) \<and> F = 0 \<or>
        (\<exists>i < length (w # ws). \<exists>j. (\<forall>i' < i. (w # ws) ! i' = 0) \<and> lowest_bit ((w # ws) ! i) j \<and> unat F = 64 * (k + i) + j)"
      (is ?split) using IH
    proof (elim disjE exE conjE)
      fix i j
      assume "i < length ws" "\<forall>i' < i. ws ! i' = 0" "lowest_bit (ws ! i) j" "unat F = 64 * (Suc k + i) + j"
      then have "Suc i < length (w # ws) \<and> (\<forall>i' < Suc i. (w # ws) ! i' = 0) \<and> lowest_bit ((w # ws) ! Suc i) j \<and>
          unat F = 64 * (k + Suc i) + j"
        using True by (simp add: All_less_Suc2)
      then show ?split by blast
    qed (use True in simp)
    then show ?thesis unfolding e F_def .
  next
    case False
    then obtain j where j: "lowest_bit w j" unfolding lowest_bit_def by (metis bit_eq_iff bit_0_eq bot_apply bot_bool_def exists_least_iff)
    then have "j < 64" by (auto simp: lowest_bit_def dest: bit_imp_le_length)
    then have "k * 64 + j < 2 ^ 64" using Cons.prems by simp
    then have "ucast (of_nat (k * 64 + j) :: u64) = (of_nat (k * 64 + j) :: u32)"
      by (simp add: unsigned_of_nat take_bit_eq_mod del: of_nat_add of_nat_mult)
    then have s: "low_zeros_step (k, w) (0, 0) = (of_nat (k * 64 + j), - 1)"
      using False by (simp add: low_zeros_step_def constant_time Let_def bn_count_low_zero_bits_word_value [OF j] del: of_nat_add of_nat_mult)
    have "unat (of_nat (k * 64 + j) :: u32) = 64 * k + j" using Cons.prems \<open>j < 64\<close> by (simp add: unat_of_nat take_bit_eq_mod del: of_nat_add of_nat_mult)
    then show ?thesis using j unfolding u by (intro disjI2 exI [of _ 0]) (simp add: s low_zeros_rest)
  qed
qed simp

lemma BN_count_low_zero_bits_value:
  assumes "bn_ok bn" "bn_abs bn \<noteq> 0"
  shows "lowest_bit (bn_abs bn) (unat (BN_count_low_zero_bits bn))"
proof -
  have l: "length (bn_words bn) = bn_width bn" using assms(1) by (rule length_bn_words)
  then have "64 * (0 + length (bn_words bn)) < 2 ^ 31" using assms(1) by (simp add: bn_ok_def)
  from low_zeros_fold [OF this] assms(2) obtain i j where ij: "i < bn_width bn" "\<forall>i' < i. bn_words bn ! i' = 0"
    "lowest_bit (bn_words bn ! i) j" "unat (BN_count_low_zero_bits bn) = 64 * i + j"
    by (auto simp: l BN_count_low_zero_bits_def bn_abs_def wval_0_iff)
  have j: "j < 64" using ij(3) by (auto simp: lowest_bit_def dest: bit_imp_le_length)
  show ?thesis unfolding ij(4) lowest_bit_def
  proof (intro conjI allI impI)
    show "bit (bn_abs bn) (64 * i + j)" using ij j l by (simp add: bn_abs_def bit_wval lowest_bit_def)
    fix n assume "n < 64 * i + j"
    then have "n div 64 < i \<or> n div 64 = i \<and> n mod 64 < j" using div_mod_64_less [of n "64 * i + j"] j by simp
    then show "\<not> bit (bn_abs bn) n" using ij l by (auto simp: bn_abs_def bit_wval lowest_bit_def)
  qed
qed

end
