(* ===== verification/Bn_Product.thy ===== *)
theory Bn_Product
  imports Bn_Shift
begin

text \<open>
  Products of big numbers (\<open>bn_mul_impl\<close> and its callers in \<open>crypto/fipsmodule/bn/mul.c\<close>). \<open>get\<close> gives what the
  calls of \<open>BN_CTX_get\<close> return, in their order. \<open>shared\<close> says that the result is one of the operands.
\<close>

text \<open>The product in \<open>rr\<close>, which is none of the operands; \<open>t\<close> is the scratch number.\<close>

definition bn_mul_into :: "bn_malloc \<Rightarrow> bignum option \<Rightarrow> bignum \<Rightarrow> bignum \<Rightarrow> bignum \<Rightarrow> bool \<times> bignum" where
  "bn_mul_into m t rr a b =
     (let rr = rr\<lparr>bn_neg := bn_neg a \<noteq> bn_neg b\<rparr>; al = bn_width a; bl = bn_width b; i = int al - int bl; top = al + bl
      in if i = 0 \<and> al = 8 then
           and_also (bn_wexpand m rr 16) (\<lambda>rr.
             (True, rr\<lparr>bn_d := set_words (bn_d rr) 0 (bn_mul_comba8 (bn_words a) (bn_words b)), bn_width := 16\<rparr>))
         else if al \<ge> 16 \<and> bl \<ge> 16 \<and> - 1 \<le> i \<and> i \<le> 1 then
           (let j = 2 ^ (unat (BN_num_bits_word (of_nat (if i \<ge> 0 then al else bl))) - 1)
            in case t of
                 None \<Rightarrow> (False, rr)
               | Some t \<Rightarrow>
                   if al > j \<or> bl > j then
                     (case bn_wexpand m t (j * 8) of
                        (False, _) \<Rightarrow> (False, rr)
                      | (True, t) \<Rightarrow>
                          and_also (bn_wexpand m rr (j * 4)) (\<lambda>rr.
                            (True, rr\<lparr>bn_d := set_words (bn_d rr) 0
                               (bn_mul_part_recursive (take (j * 4) (bn_d rr)) (bn_words a) (bn_words b) j (al - j) (bl - j) (bn_d t)),
                               bn_width := top\<rparr>)))
                   else
                     (case bn_wexpand m t (j * 4) of
                        (False, _) \<Rightarrow> (False, rr)
                      | (True, t) \<Rightarrow>
                          and_also (bn_wexpand m rr (j * 2)) (\<lambda>rr.
                            (True, rr\<lparr>bn_d := set_words (bn_d rr) 0
                               (bn_mul_recursive (take (j * 2) (bn_d rr)) (bn_words a) (bn_words b) j
                                  (int al - int j) (int bl - int j) (bn_d t)),
                               bn_width := top\<rparr>))))
         else
           and_also (bn_wexpand m rr top) (\<lambda>rr.
             (True, rr\<lparr>bn_width := top, bn_d := bn_mul_normal (bn_d rr) (bn_words a) (bn_words b)\<rparr>)))"

definition bn_mul_impl :: "bn_malloc \<Rightarrow> (nat \<Rightarrow> bignum option) \<Rightarrow> bool \<Rightarrow> bignum \<Rightarrow> bignum \<Rightarrow> bignum \<Rightarrow> bool \<times> bignum" where
  "bn_mul_impl m get shared r a b =
     (if bn_width a = 0 \<or> bn_width b = 0 then (True, BN_zero r)
      else if shared then
        (case get 0 of
           None \<Rightarrow> (False, r)
         | Some rr \<Rightarrow> let (ok, rr) = bn_mul_into m (get 1) rr a b in if ok then BN_copy m r rr else (False, r))
      else bn_mul_into m (get 0) r a b)"

definition BN_mul :: "bn_malloc \<Rightarrow> (nat \<Rightarrow> bignum option) \<Rightarrow> bool \<Rightarrow> bignum \<Rightarrow> bignum \<Rightarrow> bignum \<Rightarrow> bool \<times> bignum" where
  "BN_mul m get shared r a b = and_also (bn_mul_impl m get shared r a b) (\<lambda>r. (True, bn_set_minimal_width r))"

definition bn_mul_consttime :: "bn_malloc \<Rightarrow> (nat \<Rightarrow> bignum option) \<Rightarrow> bool \<Rightarrow> bignum \<Rightarrow> bignum \<Rightarrow> bignum \<Rightarrow> bool \<times> bignum" where
  "bn_mul_consttime m get shared r a b =
     (if bn_neg a \<or> bn_neg b then (False, r) else bn_mul_impl m get shared r a b)"

text \<open>On words, where a wrong length aborts the program.\<close>

definition bn_mul_small :: "limbs \<Rightarrow> limbs \<Rightarrow> limbs \<Rightarrow> limbs option" where
  "bn_mul_small r a b =
     (if length r \<noteq> length a + length b then None
      else if length a = 8 \<and> length b = 8 then Some (bn_mul_comba8 a b)
      else Some (bn_mul_normal r a b))"

definition BN_mul_word :: "bn_malloc \<Rightarrow> bignum \<Rightarrow> u64 \<Rightarrow> bool \<times> bignum" where
  "BN_mul_word m bn w =
     (if bn_width bn = 0 then (True, bn)
      else if w = 0 then (True, BN_zero bn)
      else
        let (ws, ll) = bn_mul_words (bn_words bn) w; bn = bn\<lparr>bn_d := set_words (bn_d bn) 0 ws\<rparr>
        in if ll \<noteq> 0
           then and_also (bn_wexpand m bn (bn_width bn + 1)) (\<lambda>bn.
                  (True, bn\<lparr>bn_d := (bn_d bn)[bn_width bn := ll], bn_width := bn_width bn + 1\<rparr>))
           else (True, bn))"

section \<open>The product\<close>

lemma no_carry: "x + m * u < m \<Longrightarrow> u = 0" for x m u :: nat
  by (cases u) simp_all

lemma word_bool: "unat c \<le> 1 \<longleftrightarrow> c = 0 \<or> c = 1" for c :: u64
  by (metis One_nat_def le_0_eq le_Suc_eq order_refl unat_eq_0 unsigned_1 unsigned_word_eqI)

definition ctx_ok :: "(nat \<Rightarrow> bignum option) \<Rightarrow> bool" where
  "ctx_ok get \<longleftrightarrow> (\<forall>i bn. get i = Some bn \<longrightarrow> bn_ok bn)"

lemma wval_take_product:
  assumes "wval ws = wval a * wval b" "length a + length b \<le> length ws"
  shows "wval (take (length a + length b) ws) = wval a * wval b"
proof -
  have "wval a * wval b < 2 ^ (64 * length a) * 2 ^ (64 * length b)"
    using wval_less by (intro mult_strict_mono') simp_all
  then have "wval a * wval b < 2 ^ (64 * (length a + length b))" by (simp add: power_add distrib_left)
  then show ?thesis by (simp add: wval_take assms(1))
qed

text \<open>The power of two below the longer number.\<close>

lemma top_power:
  assumes "16 \<le> l" "l \<le> 8388607"
  shows "\<exists>k. 2 ^ (unat (BN_num_bits_word (of_nat l)) - 1) = (2 :: nat) ^ k \<and> 8 \<le> (2 :: nat) ^ k \<and> 2 ^ k \<le> l \<and> l < 2 * 2 ^ k"
proof -
  have u: "unat (of_nat l :: u64) = l" using assms(2) by (simp add: unat_of_nat)
  then have "of_nat l \<noteq> (0 :: u64)" using assms(1) by (metis not_numeral_le_zero unat_0)
  from BN_num_bits_word_value(2) [OF this] obtain r where
    r: "unat (BN_num_bits_word (of_nat l)) = Suc r" "2 ^ r \<le> l" "l < 2 * 2 ^ r" unfolding u by auto
  then have "8 \<le> (2 :: nat) ^ r" using assms(1) by linarith
  then show ?thesis using r by auto
qed

text \<open>A prefix of the words that are written is the number.\<close>

lemma bn_stored_prefix:
  assumes "bn_ok r" "length ws \<le> dmax r" "w \<le> length ws"
    and "r' = r\<lparr>bn_d := set_words (bn_d r) 0 ws, bn_width := w\<rparr>"
  shows "bn_ok r'" "bn_words r' = take w ws" "bn_neg r' = bn_neg r" "bn_width r' = w"
proof -
  have "take w (set_words (bn_d r) 0 ws) = take w (take (length ws) (set_words (bn_d r) 0 ws))" using assms(3) by simp
  then show "bn_words r' = take w ws" using assms(2) by (simp add: assms(4) bn_words_def take_set_words_0 del: take_take)
qed (use assms in \<open>simp_all add: bn_ok_def\<close>)

lemma bn_mul_into_facts:
  assumes "bn_mul_into m t rr a b = (ok, r')" "gives_words m" "\<forall>t'. t = Some t' \<longrightarrow> bn_ok t'" "bn_ok rr" "bn_ok a" "bn_ok b"
  shows "bn_ok r' \<and> (ok \<longrightarrow> bn_abs r' = bn_abs a * bn_abs b \<and> bn_neg r' = (bn_neg a \<noteq> bn_neg b) \<and>
    bn_width r' = bn_width a + bn_width b)"
proof -
  let ?al = "bn_width a" and ?bl = "bn_width b"
  let ?rr = "rr\<lparr>bn_neg := bn_neg a \<noteq> bn_neg b\<rparr>"
  have okr: "bn_ok ?rr" using assms(4) by simp
  have l: "length (bn_words a) = ?al" "length (bn_words b) = ?bl" using assms(5,6) by (simp_all add: length_bn_words)
  have store: "bn_ok r' \<and> bn_abs r' = bn_abs a * bn_abs b \<and> bn_neg r' = (bn_neg a \<noteq> bn_neg b) \<and> bn_width r' = ?al + ?bl"
    if "bn_wexpand m ?rr n = (True, r1)" "length ws = n" "?al + ?bl \<le> n" "wval ws = bn_abs a * bn_abs b"
      "r' = r1\<lparr>bn_d := set_words (bn_d r1) 0 ws, bn_width := ?al + ?bl\<rparr>" for n r1 ws
  proof -
    note x = bn_wexpand_facts [OF that(1) assms(2) okr]
    note p = bn_stored_prefix [OF x(1), of ws "?al + ?bl" r']
    have "wval (take (?al + ?bl) ws) = bn_abs a * bn_abs b"
      using wval_take_product [of ws "bn_words a" "bn_words b"] that(2-4) by (simp add: l bn_abs_def)
    moreover have "bn_words r' = take (?al + ?bl) ws" using that x(5) by (intro p(2)) simp_all
    ultimately have "bn_abs r' = bn_abs a * bn_abs b" by (simp only: bn_abs_def [of r'])
    then show ?thesis using p that x by simp
  qed
  consider (comba) "?al = 8 \<and> ?bl = 8" | (normal) "\<not> (?al = 8 \<and> ?bl = 8)" "\<not> (16 \<le> ?al \<and> 16 \<le> ?bl \<and> ?al \<le> ?bl + 1 \<and> ?bl \<le> ?al + 1)"
    | (karatsuba) "16 \<le> ?al \<and> 16 \<le> ?bl \<and> ?al \<le> ?bl + 1 \<and> ?bl \<le> ?al + 1" by linarith
  then show ?thesis
  proof cases
    case comba
    obtain ok1 r1 where 1: "bn_wexpand m ?rr 16 = (ok1, r1)" by force
    note x = bn_wexpand_facts [OF 1 assms(2) okr]
    have e: "(ok, r') = (if ok1 then (True, r1\<lparr>bn_d := set_words (bn_d r1) 0 (bn_mul_comba8 (bn_words a) (bn_words b)), bn_width := ?al + ?bl\<rparr>)
        else (False, r1))"
      using assms(1) 1 comba by (simp add: bn_mul_into_def and_also_def split: if_splits)
    note v = bn_mul_comba8_value [OF l(1) [unfolded comba [THEN conjunct1]] l(2) [unfolded comba [THEN conjunct2]]]
    show ?thesis
    proof (cases ok1)
      case True
      show ?thesis using store [of 16 r1 "bn_mul_comba8 (bn_words a) (bn_words b)"] e v 1 True comba by (simp add: bn_abs_def)
    qed (use e x in simp)
  next
    case normal
    obtain ok1 r1 where 1: "bn_wexpand m ?rr (?al + ?bl) = (ok1, r1)" by force
    note x = bn_wexpand_facts [OF 1 assms(2) okr]
    have c: "\<not> (int ?al - int ?bl = 0 \<and> ?al = 8)"
      "\<not> (16 \<le> ?al \<and> 16 \<le> ?bl \<and> - 1 \<le> int ?al - int ?bl \<and> int ?al - int ?bl \<le> 1)" using normal by linarith+
    have e: "(ok, r') = (if ok1 then (True, r1\<lparr>bn_width := ?al + ?bl, bn_d := bn_mul_normal (bn_d r1) (bn_words a) (bn_words b)\<rparr>)
        else (False, r1))"
      using assms(1) 1 unfolding bn_mul_into_def Let_def if_not_P [OF c(1)] if_not_P [OF c(2)] by (simp add: and_also_def split: if_splits)
    have d: "length (bn_words a) + length (bn_words b) \<le> length (bn_d r1)" if ok1 using x(5) that l by simp
    note v = bn_mul_normal_value [OF d]
    show ?thesis
    proof (cases ok1)
      case True
      then show ?thesis using e x v d l
        by (simp add: bn_ok_def bn_abs_def bn_words_def [of "_\<lparr>bn_width := _, bn_d := _\<rparr>"])
    qed (use e x in simp)
  next
    case karatsuba
    have c: "\<not> (int ?al - int ?bl = 0 \<and> ?al = 8)"
      "16 \<le> ?al \<and> 16 \<le> ?bl \<and> - 1 \<le> int ?al - int ?bl \<and> int ?al - int ?bl \<le> 1" using karatsuba by linarith+
    let ?l = "if int ?al - int ?bl \<ge> 0 then ?al else ?bl"
    define j where "j = (2 :: nat) ^ (unat (BN_num_bits_word (of_nat ?l)) - 1)"
    have lm: "?l = max ?al ?bl" by simp
    have "16 \<le> ?l" "?l \<le> 8388607" using karatsuba assms(5,6) by (auto simp: bn_ok_def)
    then obtain k where k: "j = 2 ^ k" "8 \<le> j" "j \<le> ?l" "?l < 2 * j" using top_power unfolding j_def by metis
    note e = assms(1) [unfolded bn_mul_into_def Let_def if_not_P [OF c(1)] if_P [OF c(2)], folded j_def]
    show ?thesis
    proof (cases t)
      case None
      then show ?thesis using e okr by simp
    next
      case (Some t')
      then have okt: "bn_ok t'" using assms(3) by simp
      show ?thesis
      proof (cases "?al > j \<or> ?bl > j")
        case True
        obtain ok1 t1 where 1: "bn_wexpand m t' (j * 8) = (ok1, t1)" by force
        obtain ok2 r1 where 2: "bn_wexpand m ?rr (j * 4) = (ok2, r1)" by force
        note x = bn_wexpand_facts [OF 2 assms(2) okr] and y = bn_wexpand_facts [OF 1 assms(2) okt]
        let ?ws = "bn_mul_part_recursive (take (j * 4) (bn_d r1)) (bn_words a) (bn_words b) j (?al - j) (?bl - j) (bn_d t1)"
        have e': "(ok, r') = (if ok1 then if ok2 then (True, r1\<lparr>bn_d := set_words (bn_d r1) 0 ?ws, bn_width := ?al + ?bl\<rparr>)
            else (False, r1) else (False, ?rr))"
          using e True 1 2 Some by (cases ok1; cases ok2; simp add: and_also_def split: if_splits)
        show ?thesis
        proof (cases "ok1 \<and> ok2")
          case True
          have "length ?ws = 4 * j \<and> wval ?ws = wval (bn_words a) * wval (bn_words b)"
          proof (rule bn_mul_part_recursive_value [OF k(1,2)])
            show "?al - j < j" "?bl - j < j" "?al - j \<le> ?bl - j + 1" "?bl - j \<le> ?al - j + 1"
              using karatsuba k(3,4) lm by linarith+
            show "length (bn_words a) = j + (?al - j)" "length (bn_words b) = j + (?bl - j)"
              using karatsuba k(3) \<open>?al > j \<or> ?bl > j\<close> l by linarith+
            show "length (take (j * 4) (bn_d r1)) = 4 * j" "8 * j \<le> length (bn_d t1)" using x(5) y(5) True by simp_all
          qed
          then show ?thesis using store [of "j * 4" r1 ?ws] e' True 2 k(3,4) karatsuba lm by (simp add: bn_abs_def)
        next
          case False
          then show ?thesis using e' x(1) okr by (auto split: if_splits)
        qed
      next
        case False
        obtain ok1 t1 where 1: "bn_wexpand m t' (j * 4) = (ok1, t1)" by force
        obtain ok2 r1 where 2: "bn_wexpand m ?rr (j * 2) = (ok2, r1)" by force
        note x = bn_wexpand_facts [OF 2 assms(2) okr] and y = bn_wexpand_facts [OF 1 assms(2) okt]
        let ?ws = "bn_mul_recursive (take (j * 2) (bn_d r1)) (bn_words a) (bn_words b) j (int ?al - int j) (int ?bl - int j) (bn_d t1)"
        have e': "(ok, r') = (if ok1 then if ok2 then (True, r1\<lparr>bn_d := set_words (bn_d r1) 0 ?ws, bn_width := ?al + ?bl\<rparr>)
            else (False, r1) else (False, ?rr))"
          using e False 1 2 Some by (cases ok1; cases ok2; simp add: and_also_def split: if_splits)
        show ?thesis
        proof (cases "ok1 \<and> ok2")
          case True
          have "length ?ws = 2 * j \<and> wval ?ws = wval (bn_words a) * wval (bn_words b)"
          proof (rule bn_mul_recursive_value [OF k(1)])
            show "- 8 \<le> int ?al - int j" "int ?al - int j \<le> 0" "- 8 \<le> int ?bl - int j" "int ?bl - int j \<le> 0"
              using karatsuba k(3) False lm by linarith+
            show "int (length (bn_words a)) = int j + (int ?al - int j)" "int (length (bn_words b)) = int j + (int ?bl - int j)"
              using l by simp_all
            show "length (take (j * 2) (bn_d r1)) = 2 * j" "4 * j \<le> length (bn_d t1)" using x(5) y(5) True by simp_all
          qed
          then show ?thesis using store [of "j * 2" r1 ?ws] e' True 2 False by (simp add: bn_abs_def)
        next
          case False
          then show ?thesis using e' x(1) okr by (auto split: if_splits)
        qed
      qed
    qed
  qed
qed

lemma BN_copy_facts:
  assumes "BN_copy m dest src = (ok, r')" "gives_words m" "bn_ok dest" "bn_ok src"
  shows "bn_ok r'" "ok \<Longrightarrow> bn_words r' = bn_words src \<and> bn_neg r' = bn_neg src \<and> bn_width r' = bn_width src"
proof -
  obtain ok1 r1 where 1: "bn_wexpand m dest (bn_width src) = (ok1, r1)" by force
  note x = bn_wexpand_facts [OF 1 assms(2,3)]
  have l: "length (bn_words src) = bn_width src" using assms(4) by (rule length_bn_words)
  have "bn_ok r' \<and> (ok \<longrightarrow> bn_words r' = bn_words src \<and> bn_neg r' = bn_neg src \<and> bn_width r' = bn_width src)"
  proof (cases ok1)
    case True
    define s where "s = r1\<lparr>bn_d := set_words (bn_d r1) 0 (bn_words src), bn_width := bn_width src\<rparr>"
    have "(ok, r') = (True, s\<lparr>bn_neg := bn_neg src\<rparr>)" using assms(1) True by (simp add: BN_copy_def 1 s_def)
    moreover have "bn_ok s" "bn_words s = bn_words src" "bn_width s = bn_width src"
      using bn_stored [OF x(1), of "bn_words src"] x(5) True by (simp_all add: l s_def)
    ultimately show ?thesis by (simp add: bn_words_def)
  next
    case False
    then show ?thesis using assms(1) x(1) by (simp add: BN_copy_def 1)
  qed
  then show "bn_ok r'" "ok \<Longrightarrow> bn_words r' = bn_words src \<and> bn_neg r' = bn_neg src \<and> bn_width r' = bn_width src" by blast+
qed

lemma bn_mul_impl_facts:
  assumes "bn_mul_impl m get shared r a b = (ok, r')" "gives_words m" "ctx_ok get" "bn_ok r" "bn_ok a" "bn_ok b"
  shows "bn_ok r'" "ok \<Longrightarrow> bn_abs r' = bn_abs a * bn_abs b"
    "ok \<Longrightarrow> bn_width r' = (if bn_width a = 0 \<or> bn_width b = 0 then 0 else bn_width a + bn_width b)"
    "ok \<Longrightarrow> bn_neg r' = (bn_width a \<noteq> 0 \<and> bn_width b \<noteq> 0 \<and> bn_neg a \<noteq> bn_neg b)"
proof -
  have "bn_ok r' \<and> (ok \<longrightarrow> bn_abs r' = bn_abs a * bn_abs b \<and>
      bn_width r' = (if bn_width a = 0 \<or> bn_width b = 0 then 0 else bn_width a + bn_width b) \<and>
      bn_neg r' = (bn_width a \<noteq> 0 \<and> bn_width b \<noteq> 0 \<and> bn_neg a \<noteq> bn_neg b))"
  proof (cases "bn_width a = 0 \<or> bn_width b = 0")
    case True
    then have "bn_abs a = 0 \<or> bn_abs b = 0" by (auto simp: bn_abs_def bn_words_def)
    moreover have "bn_abs (BN_zero r) = 0" "bn_ok (BN_zero r)" using assms(4) by (simp_all add: BN_zero_def bn_abs_def bn_words_def bn_ok_def)
    ultimately show ?thesis using assms(1) True by (auto simp: bn_mul_impl_def BN_zero_def)
  next
    case nonzero: False
    note into = bn_mul_into_facts [OF _ assms(2) _ _ assms(5,6)]
    have g: "\<forall>t'. get i = Some t' \<longrightarrow> bn_ok t'" for i using assms(3) by (simp add: ctx_ok_def)
    show ?thesis
    proof (cases shared)
      case False
      then show ?thesis using assms(1,4) nonzero into [of "get 0" r ok r', OF _ g] by (simp add: bn_mul_impl_def)
    next
      case True
      show ?thesis
      proof (cases "get 0")
        case None
        then show ?thesis using assms(1,4) nonzero True by (simp add: bn_mul_impl_def)
      next
        case (Some rr)
        obtain ok1 r1 where 1: "bn_mul_into m (get 1) rr a b = (ok1, r1)" by force
        have "bn_ok rr" using g Some by simp
        note f = into [OF 1 g this]
        then show ?thesis using assms(1,4) nonzero True Some 1 BN_copy_facts [of m r r1 ok r', OF _ assms(2,4)]
          by (cases ok1) (simp_all add: bn_mul_impl_def bn_abs_def [of r'] bn_abs_def [of r1])
      qed
    qed
  qed
  then show "bn_ok r'" "ok \<Longrightarrow> bn_abs r' = bn_abs a * bn_abs b"
    "ok \<Longrightarrow> bn_width r' = (if bn_width a = 0 \<or> bn_width b = 0 then 0 else bn_width a + bn_width b)"
    "ok \<Longrightarrow> bn_neg r' = (bn_width a \<noteq> 0 \<and> bn_width b \<noteq> 0 \<and> bn_neg a \<noteq> bn_neg b)" by blast+
qed

lemma BN_mul_exact:
  assumes "BN_mul m get shared r a b = (ok, r')" "gives_words m" "ctx_ok get" "bn_ok r" "bn_ok a" "bn_ok b"
  shows "bn_ok r'" "ok \<Longrightarrow> bn_int r' = bn_int a * bn_int b \<and> minimal r'"
proof -
  obtain ok1 r1 where 1: "bn_mul_impl m get shared r a b = (ok1, r1)" by force
  note f = bn_mul_impl_facts [OF 1 assms(2-)]
  note s = bn_set_minimal_width_facts [OF f(1)]
  have z: "bn_abs a = 0" if "bn_width a = 0" for a using that by (simp add: bn_abs_def bn_words_def)
  have i: "bn_int r1 = bn_int a * bn_int b" if ok1
    using f(2,4) [OF that] z [of a] z [of b] by (auto simp: bn_int_def)
  show "bn_ok r'" "ok \<Longrightarrow> bn_int r' = bn_int a * bn_int b \<and> minimal r'"
    using assms(1) 1 f(1) s i by (cases ok1; auto simp: BN_mul_def)+
qed

lemma bn_mul_small_exact:
  "bn_mul_small r a b = Some ws \<Longrightarrow> length ws = length r \<and> wval ws = wval a * wval b"
  "bn_mul_small r a b = None \<longleftrightarrow> length r \<noteq> length a + length b"
proof -
  show "bn_mul_small r a b = None \<longleftrightarrow> length r \<noteq> length a + length b" by (simp add: bn_mul_small_def)
  assume m: "bn_mul_small r a b = Some ws"
  then have l: "length r = length a + length b" by (simp add: bn_mul_small_def split: if_splits)
  show "length ws = length r \<and> wval ws = wval a * wval b"
    using m l bn_mul_comba8_value [of a b] bn_mul_normal_value [of a b r]
    by (auto simp: bn_mul_small_def split: if_splits)
qed

lemma BN_mul_word_exact:
  assumes "BN_mul_word m bn w = (ok, bn')" "gives_words m" "bn_ok bn"
  shows "bn_ok bn'" "ok \<Longrightarrow> bn_int bn' = bn_int bn * int (unat w)"
proof -
  have "bn_ok bn' \<and> (ok \<longrightarrow> bn_int bn' = bn_int bn * int (unat w))"
  proof (cases "bn_width bn = 0 \<or> w = 0")
    case True
    then show ?thesis using assms(1,3)
      by (auto simp: BN_mul_word_def BN_zero_def bn_ok_def bn_int_def bn_abs_def bn_words_def split: if_splits)
  next
    case False
    have l: "length (bn_words bn) = bn_width bn" using assms(3) by (rule length_bn_words)
    obtain ws ll where 1: "bn_mul_words (bn_words bn) w = (ws, ll)" by force
    note v = bn_mul_words_value [OF 1, unfolded l]
    define s where "s = bn\<lparr>bn_d := set_words (bn_d bn) 0 ws\<rparr>"
    have "bn_ok (bn\<lparr>bn_d := set_words (bn_d bn) 0 ws, bn_width := length ws\<rparr>)"
      "bn_words (bn\<lparr>bn_d := set_words (bn_d bn) 0 ws, bn_width := length ws\<rparr>) = ws"
      using bn_stored [OF assms(3), of ws] v(1) assms(3) by (simp_all add: bn_ok_def)
    then have s: "bn_ok s" "bn_words s = ws" "bn_neg s = bn_neg bn" "bn_width s = bn_width bn"
      using v(1) by (simp_all add: s_def bn_ok_def bn_words_def)
    obtain ok1 s1 where 2: "bn_wexpand m s (bn_width bn + 1) = (ok1, s1)" by force
    note x = bn_wexpand_facts [OF 2 assms(2) s(1)]
    define r where "r = s1\<lparr>bn_d := (bn_d s1)[bn_width s1 := ll], bn_width := bn_width s1 + 1\<rparr>"
    have e: "(ok, bn') = (if ll \<noteq> 0 then if ok1 then (True, r) else (False, s1) else (True, s))"
      using assms(1) False 1 2 by (simp add: BN_mul_word_def s_def [symmetric] and_also_def r_def Let_def s(4) split: if_splits)
    have r: "bn_ok r" "bn_words r = ws @ [ll]" "bn_neg r = bn_neg bn" if ok1
      using x s that by (simp_all add: r_def bn_ok_def bn_words_def take_Suc_conv_app_nth)
    have "bn_ok bn' \<and> (ok \<longrightarrow> bn_abs bn' = unat w * bn_abs bn \<and> bn_neg bn' = bn_neg bn)"
      using e v s x r by (cases "ll = 0"; cases ok1) (auto simp: bn_abs_def wval_append)
    then show ?thesis by (auto simp: bn_int_def)
  qed
  then show "bn_ok bn'" "ok \<Longrightarrow> bn_int bn' = bn_int bn * int (unat w)" by blast+
qed

end
