(* ===== verification/Bn_Square.thy ===== *)
theory Bn_Square
  imports Bn_Product
begin

text \<open>
  Squares (\<open>crypto/fipsmodule/bn/mul.c\<close>): the triangle of the products of different words, doubled, and the
  squares of the words; the recursion of Karatsuba on it; and squares of big numbers. The scratch words are
  written before they are read.
\<close>

section \<open>The operations\<close>

definition bn_abs_sub_words :: "limbs \<Rightarrow> limbs \<Rightarrow> limbs" where
  "bn_abs_sub_words a b =
     (let (tmp, borrow) = bn_sub_words a b; (r, _) = bn_sub_words b a in bn_select_words (0 - borrow) r tmp)"

definition sqr_row :: "limbs \<Rightarrow> nat \<Rightarrow> limbs \<Rightarrow> limbs" where
  "sqr_row a k r =
     (let ap = drop (k + 1) a; (ws, c) = bn_mul_add_words (take (length ap) (drop (2 * k + 1) r)) ap (a ! k)
      in set_words r (2 * k + 1) (ws @ [c]))"

definition bn_sqr_normal :: "limbs \<Rightarrow> limbs \<Rightarrow> limbs" where
  "bn_sqr_normal r a =
     (let n = length a; max = n * 2
      in if n = 0 then r
         else
           let r = r[0 := 0, max - 1 := 0];
               r = (if n > 1 then let (ws, c) = bn_mul_words (drop 1 a) (a ! 0) in set_words r 1 (ws @ [c]) else r);
               r = (if n > 2 then fold (sqr_row a) [1..<n - 1] r else r);
               (r, _) = bn_add_words r r;
               (r, _) = bn_add_words r (bn_sqr_words a)
           in r)"

definition sqr_sum :: "nat \<Rightarrow> limbs \<Rightarrow> limbs \<Rightarrow> limbs \<Rightarrow> limbs" where
  "sqr_sum n r01 r23 t23 =
     (let n2 = 2 * n; r = r01 @ r23;
          (t01, c) = bn_add_words r01 r23;
          (t23, borrow) = bn_sub_words t01 t23; c = c - borrow;
          (mid, carry) = bn_add_words (take n2 (drop n r)) t23; c = c + carry;
          (hi, c) = chain carry_step c (drop (n + n2) r)
      in take n r @ mid @ hi)"

function bn_sqr_recursive :: "limbs \<Rightarrow> limbs \<Rightarrow> nat \<Rightarrow> limbs \<Rightarrow> limbs" where
  "bn_sqr_recursive r a n2 t =
     (if n2 = 4 then bn_sqr_comba4 a
      else if n2 = 8 then bn_sqr_comba8 a
      else if n2 < 16 then bn_sqr_normal r a
      else
        let n = n2 div 2; t_recursive = drop (n2 * 2) t; a0 = take n a; a1 = drop n a;
            t0 = bn_abs_sub_words a0 a1;
            t23 = bn_sqr_recursive (take n2 (drop n2 t)) t0 n t_recursive;
            r01 = bn_sqr_recursive (take n2 r) a0 n t_recursive;
            r23 = bn_sqr_recursive (drop n2 r) a1 n t_recursive
        in sqr_sum n r01 r23 t23)"
  by pat_completeness auto

termination by (relation "measure (\<lambda>(r, a, n2, t). n2)") auto

declare bn_sqr_recursive.simps [simp del]

text \<open>The square in \<open>rr\<close>, which is not the operand.\<close>

definition bn_sqr_into :: "bn_malloc \<Rightarrow> bignum \<Rightarrow> bignum \<Rightarrow> bignum \<Rightarrow> bool \<times> bignum" where
  "bn_sqr_into m tmp rr a =
     (let al = bn_width a; max = 2 * al
      in case bn_wexpand m rr max of
           (False, rr) \<Rightarrow> (False, rr)
         | (True, rr) \<Rightarrow>
             let (ok, d) =
               (if al = 4 then (True, set_words (bn_d rr) 0 (bn_sqr_comba4 (bn_words a)))
                else if al = 8 then (True, set_words (bn_d rr) 0 (bn_sqr_comba8 (bn_words a)))
                else if al < 16 then (True, set_words (bn_d rr) 0 (bn_sqr_normal (take max (bn_d rr)) (bn_words a)))
                else if al AND (al - 1) = 0 then
                  (let (ok, tmp) = bn_wexpand m tmp (al * 4)
                   in (ok, if ok then set_words (bn_d rr) 0 (bn_sqr_recursive (take max (bn_d rr)) (bn_words a) al (bn_d tmp))
                           else bn_d rr))
                else
                  (let (ok, tmp) = bn_wexpand m tmp max
                   in (ok, if ok then set_words (bn_d rr) 0 (bn_sqr_normal (take max (bn_d rr)) (bn_words a)) else bn_d rr)))
             in if ok then (True, rr\<lparr>bn_d := d, bn_neg := False, bn_width := max\<rparr>) else (False, rr))"

definition bn_sqr_consttime :: "bn_malloc \<Rightarrow> (nat \<Rightarrow> bignum option) \<Rightarrow> bool \<Rightarrow> bignum \<Rightarrow> bignum \<Rightarrow> bool \<times> bignum" where
  "bn_sqr_consttime m get shared r a =
     (if bn_width a = 0 then (True, r\<lparr>bn_width := 0, bn_neg := False\<rparr>)
      else case (if shared then get 0 else Some r, get (if shared then 1 else 0)) of
             (Some rr, Some tmp) \<Rightarrow>
               let (ok, rr) = bn_sqr_into m tmp rr a
               in if shared then if ok then BN_copy m r rr else (False, r) else (ok, rr)
           | _ \<Rightarrow> (False, r))"

definition BN_sqr :: "bn_malloc \<Rightarrow> (nat \<Rightarrow> bignum option) \<Rightarrow> bool \<Rightarrow> bignum \<Rightarrow> bignum \<Rightarrow> bool \<times> bignum" where
  "BN_sqr m get shared r a = and_also (bn_sqr_consttime m get shared r a) (\<lambda>r. (True, bn_set_minimal_width r))"

text \<open>\<open>BN_SMALL_MAX_WORDS\<close> is 9.\<close>

definition bn_sqr_small :: "limbs \<Rightarrow> limbs \<Rightarrow> limbs option" where
  "bn_sqr_small r a =
     (if length r \<noteq> 2 * length a \<or> length a > 9 then None
      else if length a = 4 then Some (bn_sqr_comba4 a)
      else if length a = 8 then Some (bn_sqr_comba8 a)
      else Some (bn_sqr_normal r a))"

section \<open>The triangle\<close>

primrec squares :: "limbs \<Rightarrow> nat" where
  "squares [] = 0"
| "squares (x # xs) = unat x * unat x + 2 ^ 128 * squares xs"

primrec triangle :: "limbs \<Rightarrow> nat" where
  "triangle [] = 0"
| "triangle (x # xs) = 2 ^ 64 * (unat x * wval xs) + 2 ^ 128 * triangle xs"

lemma square_triangle: "wval a * wval a = squares a + 2 * triangle a"
proof (induction a)
  case (Cons x xs)
  have "(2 :: nat) ^ 128 = 2 ^ 64 * 2 ^ 64" by simp
  then have "wval (x # xs) * wval (x # xs) = unat x * unat x + 2 * (2 ^ 64 * (unat x * wval xs)) + 2 ^ 128 * (wval xs * wval xs)"
    unfolding wval.simps by (simp only: algebra_simps)
  then show ?case unfolding Cons.IH squares.simps triangle.simps by (simp only: algebra_simps)
qed simp

lemma bn_sqr_words_value: "wval (bn_sqr_words a) = squares a"
proof (induction a)
  case (Cons w ws)
  have u: "unat (ucast w * ucast w :: u128) = unat w * unat w" using unat_mul_add_128 [of w w 0 0] by simp
  have "unat (Lw (ucast w * ucast w)) + 2 ^ 64 * unat (Hw (ucast w * ucast w)) = unat w * unat w" by (simp only: Lw_Hw u)
  moreover have "(2 :: nat) ^ 128 = 2 ^ 64 * 2 ^ 64" by simp
  ultimately show ?case using Cons.IH unfolding bn_sqr_words_simps wval.simps squares.simps distrib_left by (simp only: mult.assoc)
qed simp

lemma sqr_row_mul_row: "sqr_row a k r = mul_row (drop (k + 1) a) (replicate (2 * k + 1) 0 @ [a ! k]) (2 * k + 1) r"
  by (simp add: sqr_row_def mul_row_def nth_append)

lemma sqr_rows_value:
  assumes "length r = 2 * length a" "1 \<le> k" "k + 1 \<le> length a"
    and "wval (take (length a + k) r) + 2 ^ (128 * k) * triangle (drop k a) = triangle a"
  shows "length (fold (sqr_row a) [k..<length a - 1] r) = length r \<and>
    drop (2 * length a - 1) (fold (sqr_row a) [k..<length a - 1] r) = drop (2 * length a - 1) r \<and>
    wval (take (2 * length a - 1) (fold (sqr_row a) [k..<length a - 1] r)) = triangle a"
  using assms
proof (induction "length a - 1 - k" arbitrary: k r)
  case 0
  then have n: "length a = k + 1" by simp
  then have "drop k a = [a ! k]" using Cons_nth_drop_Suc [of k a] by simp
  then show ?case using 0 n by (simp add: mult_2)
next
  case (Suc d)
  let ?ap = "drop (k + 1) a" and ?b = "replicate (2 * k + 1) 0 @ [a ! k]"
  have k: "k + 1 < length a" using Suc.hyps(2) by simp
  have la: "2 * k + 1 + length ?ap = length a + k" using k by simp
  have less: "2 * k + 1 + length ?ap < length r" using la Suc.prems(1) k by simp
  note v = mul_row_value [OF less, of ?b, folded sqr_row_mul_row, unfolded la]
  have "drop (2 * length a - 1) (sqr_row a k r) = drop (2 * length a - 1) r"
    unfolding sqr_row_mul_row by (rule drop_mul_row) (use la k Suc.prems(1) in simp_all)
  moreover have "wval (take (length a + Suc k) (sqr_row a k r)) + 2 ^ (128 * Suc k) * triangle (drop (Suc k) a) = triangle a"
  proof -
    have t: "triangle (drop k a) = 2 ^ 64 * (unat (a ! k) * wval ?ap) + 2 ^ 128 * triangle (drop (Suc k) a)"
      using k Cons_nth_drop_Suc [of k a, symmetric] by simp
    have p: "(2 :: nat) ^ (64 * (2 * k + 1)) = 2 ^ (128 * k) * 2 ^ 64" "(2 :: nat) ^ (128 * Suc k) = 2 ^ (128 * k) * 2 ^ 128"
      unfolding power_add [symmetric] by (rule arg_cong [where f = "(^) 2"], simp)+
    have "wval (take (length a + Suc k) (sqr_row a k r)) = wval (take (length a + k) r) + 2 ^ (128 * k) * (2 ^ 64 * (unat (a ! k) * wval ?ap))"
      using v(2) unfolding p by (simp add: nth_append)
    then show ?thesis using Suc.prems(4) unfolding t p distrib_left mult.assoc by linarith
  qed
  moreover have "[k..<length a - 1] = k # [Suc k..<length a - 1]" using k by (simp add: upt_rec [of k])
  ultimately show ?case using Suc.hyps(1) [of "Suc k" "sqr_row a k r"] Suc.hyps(2) Suc.prems v(1) k by simp
qed

lemma bn_sqr_normal_value:
  assumes "length r = 2 * length a"
  shows "length (bn_sqr_normal r a) = 2 * length a" "wval (bn_sqr_normal r a) = wval a * wval a"
proof -
  let ?n = "length a"
  have "length (bn_sqr_normal r a) = 2 * ?n \<and> wval (bn_sqr_normal r a) = wval a * wval a"
  proof (cases "?n = 0")
    case True
    then show ?thesis using assms by (simp add: bn_sqr_normal_def)
  next
    case nonzero: False
    define r0 where "r0 = r[0 := 0, ?n * 2 - 1 := 0]"
    have r0: "length r0 = 2 * ?n" "r0 ! 0 = 0" "drop (2 * ?n - 1) r0 = [0]"
    proof -
      show l: "length r0 = 2 * ?n" using assms by (simp add: r0_def)
      show "r0 ! 0 = 0" using nonzero assms by (cases r) (simp_all add: r0_def nth_list_update split: nat.split)
      show "drop (2 * ?n - 1) r0 = [0]" using nonzero assms l Cons_nth_drop_Suc [of "2 * ?n - 1" r0]
        by (simp add: r0_def mult.commute)
    qed
    define r1 where "r1 = (if ?n > 1 then let (ws, c) = bn_mul_words (drop 1 a) (a ! 0) in set_words r0 1 (ws @ [c]) else r0)"
    define r2 where "r2 = (if ?n > 2 then fold (sqr_row a) [1..<?n - 1] r1 else r1)"
    have r2: "length r2 = 2 * ?n \<and> drop (2 * ?n - 1) r2 = [0] \<and> wval (take (2 * ?n - 1) r2) = triangle a"
    proof (cases "?n = 1")
      case True
      then obtain x where "a = [x]" by (cases a) auto
      moreover have "take 1 r0 = [0]" using r0(1,2) True by (cases r0) auto
      ultimately show ?thesis using r0 True by (simp add: r2_def r1_def)
    next
      case False
      then have n: "1 < ?n" using nonzero by linarith
      obtain ws c where m: "bn_mul_words (drop 1 a) (a ! 0) = (ws, c)" by force
      note v = bn_mul_words_value [OF m]
      have r1: "r1 = set_words r0 1 (ws @ [c])" using n m by (simp add: r1_def)
      have l: "length r1 = 2 * ?n" using r0(1) v(1) n by (simp add: r1)
      have d: "drop (2 * ?n - 1) r1 = [0]" using drop_set_words [of 1 "ws @ [c]" "2 * ?n - 1" r0] r0(1,3) v(1) n by (simp add: r1)
      have "take (?n + 1) r1 = take 1 r0 @ ws @ [c]" using take_set_words [of "?n + 1" 1 "ws @ [c]" r0] r0(1) v(1) n by (simp add: r1)
      moreover have "take 1 r0 = [0]" using r0(1,2) n by (cases r0) auto
      ultimately have "wval (take (?n + 1) r1) = 2 ^ 64 * (wval ws + 2 ^ (64 * length (drop 1 a)) * unat c)"
        using v(1) by (simp add: wval_append)
      then have "wval (take (?n + 1) r1) = 2 ^ 64 * (unat (a ! 0) * wval (drop 1 a))" unfolding v(2) .
      moreover have "triangle a = 2 ^ 64 * (unat (a ! 0) * wval (drop 1 a)) + 2 ^ 128 * triangle (drop 1 a)"
        using n by (cases a) simp_all
      ultimately have "wval (take (?n + 1) r1) + 2 ^ (128 * 1) * triangle (drop 1 a) = triangle a" by simp
      from sqr_rows_value [OF l _ _ this] n
      have f: "length (fold (sqr_row a) [1..<?n - 1] r1) = 2 * ?n \<and> drop (2 * ?n - 1) (fold (sqr_row a) [1..<?n - 1] r1) = [0] \<and>
          wval (take (2 * ?n - 1) (fold (sqr_row a) [1..<?n - 1] r1)) = triangle a" unfolding l d by simp
      moreover have "r2 = fold (sqr_row a) [1..<?n - 1] r1" using n by (auto simp: r2_def upt_rec [of 1])
      ultimately show ?thesis by simp
    qed
    have "wval r2 = wval (take (2 * ?n - 1) r2) + 2 ^ (64 * (2 * ?n - 1)) * wval (drop (2 * ?n - 1) r2)"
      using r2 by (intro wval_split) simp
    then have w2: "wval r2 = triangle a" using r2 by simp
    obtain r3 c3 where 3: "bn_add_words r2 r2 = (r3, c3)" by force
    note v3 = bn_add_words_value [OF 3 refl, unfolded w2]
    obtain r4 c4 where 4: "bn_add_words r3 (bn_sqr_words a) = (r4, c4)" by force
    have l3: "length r3 = length (bn_sqr_words a)" using v3(1) r2 by simp
    note v4 = bn_add_words_value [OF 4 l3, unfolded bn_sqr_words_value]
    have "bn_sqr_normal r a = (let (r, _) = bn_add_words r2 r2; (r, _) = bn_add_words r (bn_sqr_words a) in r)"
      unfolding bn_sqr_normal_def r2_def r1_def r0_def by (simp only: Let_def if_not_P [OF nonzero])
    then have e: "bn_sqr_normal r a = r4" by (simp add: 3 4)
    have less: "squares a + 2 * triangle a < 2 ^ (64 * (2 * ?n))"
      using wval_product_less [of a ?n a] by (simp add: square_triangle)
    have c3: "unat c3 = 0" by (rule no_carry [of "wval r3" "2 ^ (64 * (2 * ?n))"]) (use v3(3) less r2 in simp)
    then have w3: "wval r3 = 2 * triangle a" using v3(3) by simp
    have "unat c4 = 0" by (rule no_carry [of "wval r4" "2 ^ (64 * (2 * ?n))"]) (use v4(3) w3 less r2 v3(1) in simp)
    then have "wval r4 = wval a * wval a" using v4(3) w3 by (simp add: square_triangle)
    then show ?thesis using e v4(1) v3(1) r2 by simp
  qed
  then show "length (bn_sqr_normal r a) = 2 * length a" "wval (bn_sqr_normal r a) = wval a * wval a" by blast+
qed

section \<open>The recursion\<close>

lemma bn_abs_sub_words_value:
  assumes "length a = length b"
  shows "length (bn_abs_sub_words a b) = length a" "int (wval (bn_abs_sub_words a b)) = \<bar>int (wval a) - int (wval b)\<bar>"
proof -
  obtain tmp c where 1: "bn_sub_words a b = (tmp, c)" by force
  obtain r d where 2: "bn_sub_words b a = (r, d)" by force
  note v1 = bn_sub_words_value [OF 1 assms] and v2 = bn_sub_words_value [OF 2 assms [symmetric]]
  have l: "length r = length tmp" using v1(1) v2(1) assms by simp
  have lt: "wval tmp < 2 ^ (64 * length a)" "wval r < 2 ^ (64 * length a)"
    using wval_less [of tmp] wval_less [of r] v1(1) v2(1) assms by simp_all
  have c: "c = 0 \<or> c = 1" "d = 0 \<or> d = 1" using v1(2) v2(2) unfolding word_bool by blast+
  have "\<not> (c = 1 \<and> d = 1)" using v1(3) v2(3) lt assms by auto
  moreover have "0 - c = (if c \<noteq> 0 then - 1 else 0)" using c by auto
  then have "bn_abs_sub_words a b = (if c \<noteq> 0 then r else tmp)" using l
    by (simp only: bn_abs_sub_words_def 1 2 Let_def prod.case bn_select_words_eq)
  moreover note c
  ultimately show "length (bn_abs_sub_words a b) = length a" "int (wval (bn_abs_sub_words a b)) = \<bar>int (wval a) - int (wval b)\<bar>"
    using v1(1,3) v2(1,3) assms by auto
qed

text \<open>The end of the recursion is the one of the product, where the middle term is subtracted.\<close>

lemma sqr_sum_value:
  assumes l: "length r01 = 2 * n" "length r23 = 2 * n" "length t23 = 2 * n"
    and r01: "wval r01 = a0 * a0" and r23: "wval r23 = a1 * a1"
    and m: "int (wval t23) = \<bar>int a0 - int a1\<bar> * \<bar>int a0 - int a1\<bar>"
    and less: "(a0 + 2 ^ (64 * n) * a1) * (a0 + 2 ^ (64 * n) * a1) < 2 ^ (64 * (4 * n))"
  shows "length (sqr_sum n r01 r23 t23) = 4 * n"
    "wval (sqr_sum n r01 r23 t23) = (a0 + 2 ^ (64 * n) * a1) * (a0 + 2 ^ (64 * n) * a1)"
proof -
  obtain t01 c where 1: "bn_add_words r01 r23 = (t01, c)" by force
  note v1 = bn_add_words_value [OF 1, unfolded l, OF refl]
  obtain minus borrow where 2: "bn_sub_words t01 t23 = (minus, borrow)" by force
  note v2 = bn_sub_words_value [OF 2, unfolded v1(1) l, OF refl]
  obtain plus carry where 3: "bn_add_words t01 t23 = (plus, carry)" by force
  note v3 = bn_add_words_value [OF 3, unfolded v1(1) l, OF refl]
  define neg :: u64 where "neg = (if (a0 < a1) \<noteq> (a1 < a0) then - 1 else 0)"
  have "bn_select_words neg minus plus = minus \<and> constant_time_select_w neg (c - borrow) (c + carry) = c - borrow"
  proof (cases "a0 = a1")
    case True
    then have "wval t23 = 0" using m by simp
    then have e: "wval minus = wval t01 + 2 ^ (64 * (2 * n)) * unat borrow" "wval plus + 2 ^ (64 * (2 * n)) * unat carry = wval t01"
      using v2(3) v3(3) by simp_all
    have lt: "wval minus < 2 ^ (64 * (2 * n))" "wval t01 < 2 ^ (64 * (2 * n))"
      using wval_less [of minus] wval_less [of t01] v2(1) v1(1) l by simp_all
    have "unat borrow = 0" by (rule no_carry) (use e lt in simp)
    moreover have "unat carry = 0" by (rule no_carry [of "wval plus" "2 ^ (64 * (2 * n))"]) (use e lt in simp)
    ultimately have "wval minus = wval plus" "borrow = 0" "carry = 0" using e by (simp_all add: unat_eq_0)
    moreover have "minus = plus" using calculation(1) v2(1) v3(1) by (intro wval_inj) simp_all
    ultimately show ?thesis using True
      by (simp add: neg_def bn_select_words_eq [where c = False, simplified] constant_time_select_eq(1) [where c = False, simplified])
  next
    case False
    then have "neg = - 1" by (auto simp: neg_def)
    then show ?thesis using v2(1) v3(1) bn_select_words_eq [of minus plus True] constant_time_select_eq(1) [of True] by simp
  qed
  then have "sqr_sum n r01 r23 t23 = karatsuba_sum n r01 r23 t23 neg"
    by (simp add: sqr_sum_def karatsuba_sum_def 1 2 3 Let_def)
  moreover have "int (wval t23) = \<bar>int a0 - int a1\<bar> * \<bar>int a1 - int a0\<bar>" using m by (simp add: abs_minus_commute)
  ultimately show "length (sqr_sum n r01 r23 t23) = 4 * n"
    "wval (sqr_sum n r01 r23 t23) = (a0 + 2 ^ (64 * n) * a1) * (a0 + 2 ^ (64 * n) * a1)"
    using karatsuba_sum_value [OF l r01 r23 _ neg_def less] by simp_all
qed

lemma bn_sqr_recursive_value:
  assumes "n2 = 2 ^ k" "length a = n2" "length r = 2 * n2" "4 * n2 \<le> length t"
  shows "length (bn_sqr_recursive r a n2 t) = 2 * n2 \<and> wval (bn_sqr_recursive r a n2 t) = wval a * wval a"
  using assms
proof (induction n2 arbitrary: k r a t rule: less_induct)
  case (less n2)
  show ?case
  proof (cases "n2 < 16")
    case True
    then show ?thesis using less.prems bn_sqr_comba4_value [of a] bn_sqr_comba8_value [of a] bn_sqr_normal_value [of r a]
      by (simp add: bn_sqr_recursive.simps)
  next
    case False
    define n where "n = n2 div 2"
    have "k \<noteq> 0" using False less.prems(1) by (cases k) simp_all
    then obtain j where k: "k = Suc j" by (cases k) simp_all
    then have n: "n = 2 ^ j" "n2 = 2 * n" "n < n2" using less.prems(1) by (simp_all add: n_def)
    define a0 a1 where ab: "a0 = take n a" "a1 = drop n a"
    have l: "length a0 = n" "length a1 = n" using less.prems(2) n by (simp_all add: ab)
    define p where "p = drop (n2 * 2) t"
    have lp: "4 * n \<le> length p" using less.prems(4) n(2) by (simp add: p_def)
    note IH = less.IH [OF n(3,1) _ _ lp]
    note s = bn_abs_sub_words_value [of a0 a1, unfolded l, OF refl]
    have e: "bn_sqr_recursive r a n2 t = sqr_sum n (bn_sqr_recursive (take n2 r) a0 n p) (bn_sqr_recursive (drop n2 r) a1 n p)
        (bn_sqr_recursive (take n2 (drop n2 t)) (bn_abs_sub_words a0 a1) n p)"
      using False by (subst bn_sqr_recursive.simps) (simp add: Let_def n_def ab p_def)
    have w: "wval a = wval a0 + 2 ^ (64 * n) * wval a1" using less.prems(2) n(2) unfolding ab by (intro wval_split) simp
    have "wval a * wval a < 2 ^ (64 * (2 * n2))" by (rule wval_product_less) (use less.prems(2) in simp_all)
    then have lt: "(wval a0 + 2 ^ (64 * n) * wval a1) * (wval a0 + 2 ^ (64 * n) * wval a1) < 2 ^ (64 * (4 * n))"
      unfolding w by (simp add: n(2))
    have 1: "length (bn_sqr_recursive (take n2 r) a0 n p) = 2 * n \<and> wval (bn_sqr_recursive (take n2 r) a0 n p) = wval a0 * wval a0"
      by (rule IH) (use l less.prems(3) n(2) in simp_all)
    have 2: "length (bn_sqr_recursive (drop n2 r) a1 n p) = 2 * n \<and> wval (bn_sqr_recursive (drop n2 r) a1 n p) = wval a1 * wval a1"
      by (rule IH) (use l less.prems(3) n(2) in simp_all)
    let ?t23 = "bn_sqr_recursive (take n2 (drop n2 t)) (bn_abs_sub_words a0 a1) n p"
    have 3: "length ?t23 = 2 * n \<and> wval ?t23 = wval (bn_abs_sub_words a0 a1) * wval (bn_abs_sub_words a0 a1)"
      by (rule IH) (use s(1) less.prems(4) n(2) in simp_all)
    have m: "int (wval ?t23) = \<bar>int (wval a0) - int (wval a1)\<bar> * \<bar>int (wval a0) - int (wval a1)\<bar>"
      using 3 s(2) by simp
    show ?thesis unfolding e w
      using sqr_sum_value [OF 1 [THEN conjunct1] 2 [THEN conjunct1] 3 [THEN conjunct1] 1 [THEN conjunct2] 2 [THEN conjunct2] m lt] n(2)
      by simp
  qed
qed

section \<open>Squares of big numbers\<close>

lemma and_minus_1_power:
  fixes n :: nat
  assumes "n AND (n - 1) = 0" "n \<noteq> 0"
  shows "\<exists>k. n = 2 ^ k"
  using assms
proof (induction n rule: less_induct)
  case (less n)
  have r: "n AND (n - 1) = of_bool (odd n \<and> odd (n - 1)) + 2 * ((n div 2) AND ((n - 1) div 2))" by (rule and_rec)
  show ?case
  proof (cases "even n")
    case True
    then obtain m where m: "n = 2 * m" by (rule evenE)
    then have "(n - 1) div 2 = m - 1" by simp
    then have "m AND (m - 1) = 0" "m < n" "m \<noteq> 0" using less.prems r m by simp_all
    from less.IH [OF this(2,1,3)] obtain k where "m = 2 ^ k" by blast
    then have "n = 2 ^ Suc k" using m by simp
    then show ?thesis by blast
  next
    case False
    then obtain m where m: "n = 2 * m + 1" by (rule oddE)
    then have "m = 0" using less.prems(1) r by simp
    then have "n = 2 ^ 0" using m by simp
    then show ?thesis by blast
  qed
qed

lemma bn_sqr_into_facts:
  assumes "bn_sqr_into m tmp rr a = (ok, r')" "gives_words m" "bn_ok tmp" "bn_ok rr" "bn_ok a" "bn_width a \<noteq> 0"
  shows "bn_ok r' \<and> (ok \<longrightarrow> bn_abs r' = bn_abs a * bn_abs a \<and> \<not> bn_neg r' \<and> bn_width r' = 2 * bn_width a)"
proof -
  let ?al = "bn_width a"
  have la: "length (bn_words a) = ?al" using assms(5) by (rule length_bn_words)
  obtain ok1 r1 where 1: "bn_wexpand m rr (2 * ?al) = (ok1, r1)" by force
  note x = bn_wexpand_facts [OF 1 assms(2,4)]
  show ?thesis
  proof (cases ok1)
    case False
    then show ?thesis using assms(1) x(1) by (simp add: bn_sqr_into_def 1 Let_def)
  next
    case True
    then have d: "2 * ?al \<le> dmax r1" using x(5) by simp
    define sq where "sq =
      (if ?al = 4 then (True, bn_sqr_comba4 (bn_words a))
       else if ?al = 8 then (True, bn_sqr_comba8 (bn_words a))
       else if ?al < 16 then (True, bn_sqr_normal (take (2 * ?al) (bn_d r1)) (bn_words a))
       else if ?al AND (?al - 1) = 0 then
         (fst (bn_wexpand m tmp (?al * 4)), bn_sqr_recursive (take (2 * ?al) (bn_d r1)) (bn_words a) ?al (bn_d (snd (bn_wexpand m tmp (?al * 4)))))
       else (fst (bn_wexpand m tmp (2 * ?al)), bn_sqr_normal (take (2 * ?al) (bn_d r1)) (bn_words a)))"
    have e: "(ok, r') = (if fst sq then (True, r1\<lparr>bn_d := set_words (bn_d r1) 0 (snd sq), bn_neg := False, bn_width := 2 * ?al\<rparr>) else (False, r1))"
      using assms(1) True 1 by (simp add: bn_sqr_into_def Let_def sq_def split_beta split: if_splits)
    have v: "length (snd sq) = 2 * ?al \<and> wval (snd sq) = bn_abs a * bn_abs a" if "fst sq"
    proof -
      have l1: "length (take (2 * ?al) (bn_d r1)) = 2 * ?al" using d by simp
      note normal = bn_sqr_normal_value [of "take (2 * ?al) (bn_d r1)" "bn_words a", unfolded la, OF l1]
      show ?thesis
      proof (cases "16 \<le> ?al \<and> ?al AND (?al - 1) = 0")
        case True
        then obtain k where k: "?al = 2 ^ k" using and_minus_1_power assms(6) by blast
        have "4 * ?al \<le> dmax (snd (bn_wexpand m tmp (?al * 4)))"
          using bn_wexpand_facts(5) [OF _ assms(2,3), of "?al * 4"] that True by (cases "bn_wexpand m tmp (?al * 4)") (simp add: sq_def mult.commute)
        then show ?thesis using bn_sqr_recursive_value [OF k la l1] True that by (simp add: sq_def bn_abs_def)
      next
        case False
        then show ?thesis using normal la bn_sqr_comba4_value [of "bn_words a"] bn_sqr_comba8_value [of "bn_words a"]
          by (auto simp: sq_def bn_abs_def)
      qed
    qed
    show ?thesis
    proof (cases "fst sq")
      case True
      have "length (snd sq) \<le> dmax r1" using v [OF True] d by simp
      note s = bn_stored [OF x(1) this]
      then show ?thesis using e True v [OF True] by (simp add: bn_ok_def bn_abs_def bn_words_def)
    next
      case False
      then show ?thesis using e x(1) by simp
    qed
  qed
qed

lemma bn_sqr_consttime_facts:
  assumes "bn_sqr_consttime m get shared r a = (ok, r')" "gives_words m" "ctx_ok get" "bn_ok r" "bn_ok a"
  shows "bn_ok r'" "ok \<Longrightarrow> bn_abs r' = bn_abs a * bn_abs a \<and> \<not> bn_neg r' \<and> bn_width r' = 2 * bn_width a"
proof -
  have g: "get i = Some bn \<Longrightarrow> bn_ok bn" for i bn using assms(3) by (simp add: ctx_ok_def)
  have "bn_ok r' \<and> (ok \<longrightarrow> bn_abs r' = bn_abs a * bn_abs a \<and> \<not> bn_neg r' \<and> bn_width r' = 2 * bn_width a)"
  proof (cases "bn_width a = 0")
    case True
    then show ?thesis using assms(1,4) by (auto simp: bn_sqr_consttime_def bn_ok_def bn_abs_def bn_words_def)
  next
    case False
    show ?thesis
    proof (cases "if shared then get 0 else Some r")
      case None
      then show ?thesis using assms(1,4) False by (simp add: bn_sqr_consttime_def)
    next
      case rr: (Some rr)
      then have okr: "bn_ok rr" using g assms(4) by (auto split: if_splits)
      show ?thesis
      proof (cases "get (if shared then 1 else 0)")
        case None
        then show ?thesis using assms(1,4) False rr by (simp add: bn_sqr_consttime_def)
      next
        case (Some tmp)
        obtain ok1 r1 where 1: "bn_sqr_into m tmp rr a = (ok1, r1)" by force
        note f = bn_sqr_into_facts [OF 1 assms(2) g [OF Some] okr assms(5) False]
        have e: "(ok, r') = (if shared then if ok1 then BN_copy m r r1 else (False, r) else (ok1, r1))"
          using assms(1) False by (simp add: bn_sqr_consttime_def rr Some 1)
        show ?thesis
        proof (cases "shared \<and> ok1")
          case True
          then have "BN_copy m r r1 = (ok, r')" using e by simp
          from BN_copy_facts [OF this assms(2,4)] f True show ?thesis by (simp add: bn_abs_def [of r'] bn_abs_def [of r1])
        next
          case False
          then show ?thesis using e f assms(4) by (auto split: if_splits)
        qed
      qed
    qed
  qed
  then show "bn_ok r'" "ok \<Longrightarrow> bn_abs r' = bn_abs a * bn_abs a \<and> \<not> bn_neg r' \<and> bn_width r' = 2 * bn_width a" by blast+
qed

lemma BN_sqr_exact:
  assumes "BN_sqr m get shared r a = (ok, r')" "gives_words m" "ctx_ok get" "bn_ok r" "bn_ok a"
  shows "bn_ok r'" "ok \<Longrightarrow> bn_int r' = bn_int a * bn_int a \<and> minimal r'"
proof -
  obtain ok1 r1 where 1: "bn_sqr_consttime m get shared r a = (ok1, r1)" by force
  note f = bn_sqr_consttime_facts [OF 1 assms(2-)]
  note s = bn_set_minimal_width_facts [OF f(1)]
  have i: "bn_int r1 = bn_int a * bn_int a" if ok1 using f(2) [OF that] by (simp add: bn_int_def)
  show "bn_ok r'" "ok \<Longrightarrow> bn_int r' = bn_int a * bn_int a \<and> minimal r'"
    using assms(1) 1 f(1) s i by (cases ok1; auto simp: BN_sqr_def)+
qed

lemma bn_sqr_small_exact:
  "bn_sqr_small r a = Some ws \<Longrightarrow> length ws = length r \<and> wval ws = wval a * wval a"
  using bn_sqr_comba4_value [of a] bn_sqr_comba8_value [of a] bn_sqr_normal_value [of r a]
  by (auto simp: bn_sqr_small_def split: if_splits)

end
