(* ===== verification/Bn_Modular.thy ===== *)
theory Bn_Modular
  imports Bn_Product
begin

text \<open>
  Arithmetic modulo a number and long division bit by bit, both in constant time
  (\<open>crypto/fipsmodule/bn/div.c\<close>). The functions on words take arrays of the length of the modulus.
\<close>

section \<open>Words\<close>

definition bn_reduce_once :: "limbs \<Rightarrow> u64 \<Rightarrow> limbs \<Rightarrow> limbs \<times> u64" where
  "bn_reduce_once a carry m =
     (let (r, borrow) = bn_sub_words a m; carry = carry - borrow in (bn_select_words carry a r, carry))"

definition bn_reduce_once_in_place :: "limbs \<Rightarrow> u64 \<Rightarrow> limbs \<Rightarrow> limbs \<times> u64" where
  "bn_reduce_once_in_place r carry m =
     (let (tmp, borrow) = bn_sub_words r m; carry = carry - borrow in (bn_select_words carry r tmp, carry))"

definition bn_mod_sub_words :: "limbs \<Rightarrow> limbs \<Rightarrow> limbs \<Rightarrow> limbs" where
  "bn_mod_sub_words a b m =
     (let (r, borrow) = bn_sub_words a b; (tmp, _) = bn_add_words r m in bn_select_words (0 - borrow) tmp r)"

definition bn_mod_add_words :: "limbs \<Rightarrow> limbs \<Rightarrow> limbs \<Rightarrow> limbs" where
  "bn_mod_add_words a b m = (let (r, carry) = bn_add_words a b in fst (bn_reduce_once_in_place r carry m))"

lemma bn_reduce_once_value:
  assumes "length a = length m" "unat carry \<le> 1" "wval a + 2 ^ (64 * length m) * unat carry < 2 * wval m"
  shows "bn_reduce_once a carry m = (r, c) \<Longrightarrow> length r = length m \<and>
      wval r = (wval a + 2 ^ (64 * length m) * unat carry) mod wval m \<and>
      c = (if wval a + 2 ^ (64 * length m) * unat carry < wval m then - 1 else 0)"
proof -
  assume e: "bn_reduce_once a carry m = (r, c)"
  define N where "N = (2 :: nat) ^ (64 * length m)"
  obtain d borrow where 1: "bn_sub_words a m = (d, borrow)" by force
  note v = bn_sub_words_value [OF 1 assms(1), unfolded assms(1), folded N_def]
  have lt: "wval m < N" "wval d < N" using wval_less [of m] wval_less [of d] v(1) by (simp_all add: N_def)
  let ?V = "wval a + N * unat carry"
  have V: "?V < 2 * wval m" using assms(3) by (simp add: N_def)
  have "carry = 0 \<or> carry = 1" "borrow = 0 \<or> borrow = 1" using assms(2) v(2) unfolding word_bool by blast+
  then consider (keep) "carry = 0" "borrow = 1" | (zero) "carry = 0" "borrow = 0" | (both) "carry = 1" "borrow = 1"
    | (never) "carry = 1" "borrow = 0" by blast
  then have "carry - borrow = (if ?V < wval m then - 1 else 0) \<and> (?V \<ge> wval m \<longrightarrow> wval d = ?V - wval m)"
  proof cases
    case keep
    then show ?thesis using v(3) lt by simp
  next
    case zero
    then show ?thesis using v(3) by simp
  next
    case both
    then show ?thesis using v(3) lt by simp
  next
    case never
    then show ?thesis using v(3) lt V by simp
  qed
  then have c: "carry - borrow = (if ?V < wval m then - 1 else 0)" and d: "?V \<ge> wval m \<Longrightarrow> wval d = ?V - wval m" by blast+
  have a: "?V < wval m \<Longrightarrow> wval a = ?V" using lt(1) by (cases "unat carry") auto
  have "r = (if ?V < wval m then a else d) \<and> c = (if ?V < wval m then - 1 else 0)"
    using e v(1) assms(1) by (simp add: bn_reduce_once_def 1 c Let_def bn_select_words_eq)
  then show "length r = length m \<and> wval r = (wval a + 2 ^ (64 * length m) * unat carry) mod wval m \<and>
      c = (if wval a + 2 ^ (64 * length m) * unat carry < wval m then - 1 else 0)"
    using assms(1) v(1) a d V unfolding N_def [symmetric] by (auto simp: mod_if [of ?V] not_less)
qed

lemma bn_reduce_once_in_place_eq: "bn_reduce_once_in_place = bn_reduce_once"
  by (simp add: fun_eq_iff bn_reduce_once_def bn_reduce_once_in_place_def)

lemma bn_mod_add_words_value:
  assumes "length a = length m" "length b = length m" "wval a < wval m" "wval b < wval m"
  shows "length (bn_mod_add_words a b m) = length m" "wval (bn_mod_add_words a b m) = (wval a + wval b) mod wval m"
proof -
  obtain r c where 1: "bn_add_words a b = (r, c)" by force
  have l: "length a = length b" using assms(1,2) by simp
  note v = bn_add_words_value [OF 1 l, unfolded assms(1)]
  obtain r' c' where 2: "bn_reduce_once r c m = (r', c')" by force
  have "wval r + 2 ^ (64 * length m) * unat c < 2 * wval m" unfolding v(3) using assms(3,4) by simp
  from bn_reduce_once_value [OF v(1,2) this 2]
  show "length (bn_mod_add_words a b m) = length m" "wval (bn_mod_add_words a b m) = (wval a + wval b) mod wval m"
    by (simp_all add: bn_mod_add_words_def 1 2 bn_reduce_once_in_place_eq v(3))
qed

lemma bn_mod_sub_words_value:
  assumes "length a = length m" "length b = length m" "wval a < wval m" "wval b < wval m"
  shows "length (bn_mod_sub_words a b m) = length m"
    "int (wval (bn_mod_sub_words a b m)) = (int (wval a) - int (wval b)) mod int (wval m)"
proof -
  define N where "N = (2 :: nat) ^ (64 * length m)"
  obtain r c where 1: "bn_sub_words a b = (r, c)" by force
  have l: "length a = length b" using assms(1,2) by simp
  note v = bn_sub_words_value [OF 1 l, unfolded assms(1), folded N_def]
  obtain t d where 2: "bn_add_words r m = (t, d)" by force
  note w = bn_add_words_value [OF 2 v(1), unfolded v(1), folded N_def]
  have lt: "wval m < N" "wval r < N" "wval t < N" using wval_less [of m] wval_less [of r] wval_less [of t] v(1) w(1) by (simp_all add: N_def)
  have c: "c = 0 \<or> c = 1" and d: "d = 0 \<or> d = 1" using v(2) w(2) unfolding word_bool by blast+
  have "0 - c = (if c \<noteq> 0 then - 1 else 0)" using c by auto
  then have e: "bn_mod_sub_words a b m = (if c \<noteq> 0 then t else r)"
    using v(1) w(1) by (simp only: bn_mod_sub_words_def 1 2 Let_def prod.case bn_select_words_eq)
  show "length (bn_mod_sub_words a b m) = length m" using v(1) w(1) by (simp add: e)
  show "int (wval (bn_mod_sub_words a b m)) = (int (wval a) - int (wval b)) mod int (wval m)"
  proof (cases "c = 0")
    case True
    then have "int (wval r) = int (wval a) - int (wval b)" using v(3) by simp
    then show ?thesis using True assms(3) by (simp add: e)
  next
    case False
    then have c1: "c = 1" using c by simp
    then have r: "wval r + wval b = wval a + N" using v(3) by simp
    have "d = 1"
    proof (rule ccontr)
      assume "d \<noteq> 1"
      then have "wval t = wval r + wval m" using d w(3) by simp
      then show False using r lt assms(4) by linarith
    qed
    then have "wval t + N = wval r + wval m" using w(3) by simp
    then have t: "int (wval t) = int (wval a) - int (wval b) + int (wval m)" using r by linarith
    moreover have "0 \<le> int (wval t)" "int (wval t) < int (wval m)" using t r lt by linarith+
    ultimately have "(int (wval a) - int (wval b)) mod int (wval m) = int (wval t)"
      by (metis mod_add_self2 mod_pos_pos_trivial)
    then show ?thesis using False by (simp add: e)
  qed
qed

section \<open>Long division\<close>

text \<open>One bit of the numerator \<open>n\<close>: \<open>q\<close> is the quotient so far, \<open>r\<close> the remainder, \<open>m\<close> the divisor.\<close>

definition div_step :: "limbs \<Rightarrow> limbs \<Rightarrow> nat \<times> nat \<Rightarrow> limbs \<times> limbs \<Rightarrow> limbs \<times> limbs" where
  "div_step n m ib qr =
     (let (i, bt) = ib; (q, r) = qr; (r, carry) = bn_add_words r r;
          r = r[0 := r ! 0 OR (drop_bit bt (n ! i) AND 1)];
          (r, subtracted) = bn_reduce_once_in_place r carry m
      in (q[i := q ! i OR push_bit bt (NOT subtracted AND 1)], r))"

definition div_loop :: "limbs \<Rightarrow> limbs \<Rightarrow> nat \<Rightarrow> limbs \<times> limbs \<Rightarrow> limbs \<times> limbs" where
  "div_loop n m k qr = fold (div_step n m) (concat (map (\<lambda>i. map (Pair i) (rev [0..<64])) (rev [0..<k]))) qr"

text \<open>A result that was computed elsewhere, because its place is one of the operands, is copied.\<close>

definition div_output :: "bn_malloc \<Rightarrow> bignum option \<Rightarrow> bool \<Rightarrow> bignum \<Rightarrow> bool \<times> bignum option" where
  "div_output m target shared x =
     (case target of
        None \<Rightarrow> (True, None)
      | Some t \<Rightarrow> if shared then (let (ok, t) = BN_copy m t x in (ok, Some t)) else (True, Some x))"

text \<open>
  \<open>quot\<close> and \<open>rem\<close> may be missing, and \<open>q_shared\<close> and \<open>r_shared\<close> say that they are one of the operands.
  The result is what they are afterwards, if the function succeeds.
\<close>

definition bn_div_consttime :: "bn_malloc \<Rightarrow> (nat \<Rightarrow> bignum option) \<Rightarrow> bignum option \<Rightarrow> bool \<Rightarrow> bignum option \<Rightarrow> bool \<Rightarrow>
    bignum \<Rightarrow> bignum \<Rightarrow> nat \<Rightarrow> (bignum option \<times> bignum option) option" where
  "bn_div_consttime m get quot q_shared rem r_shared numerator divisor divisor_min_bits =
     (if bn_neg numerator \<or> bn_neg divisor then None
      else if BN_is_zero divisor then None
      else
        let q_new = (quot = None \<or> q_shared); r_new = (rem = None \<or> r_shared);
            q = (if q_new then get 0 else quot);
            r = (if r_new then get (if q_new then 1 else 0) else rem);
            tmp = get ((if q_new then 1 else 0) + (if r_new then 1 else 0))
        in case (q, r, tmp) of
             (Some q, Some r, Some tmp) \<Rightarrow>
               let (q_ok, q) = bn_wexpand m q (bn_width numerator); (r_ok, r) = bn_wexpand m r (bn_width divisor);
                   (t_ok, _) = bn_wexpand m tmp (bn_width divisor)
               in if \<not> (q_ok \<and> r_ok \<and> t_ok) then None
                  else
                    let n = bn_words numerator;
                        initial_words = (if divisor_min_bits > 0 then min ((divisor_min_bits - 1) div 64) (bn_width numerator) else 0);
                        qd = replicate (bn_width numerator) 0;
                        rd = set_words (replicate (bn_width divisor) 0) 0 (drop (bn_width numerator - initial_words) n);
                        (qd, rd) = div_loop n (bn_words divisor) (bn_width numerator - initial_words) (qd, rd);
                        q = q\<lparr>bn_d := set_words (bn_d q) 0 qd, bn_width := bn_width numerator, bn_neg := False\<rparr>;
                        r = r\<lparr>bn_d := set_words (bn_d r) 0 rd, bn_width := bn_width divisor, bn_neg := False\<rparr>;
                        (q_ok, quot) = div_output m quot q_shared q; (r_ok, rem) = div_output m rem r_shared r
                    in if q_ok \<and> r_ok then Some (quot, rem) else None
           | _ \<Rightarrow> None)"

lemma wval_set_bit:
  assumes "i < length ws" "j < 64"
  shows "wval (ws[i := ws ! i OR push_bit j 1]) = set_bit (64 * i + j) (wval ws)"
proof (rule bit_eqI)
  fix k
  have d: "(64 * i + j) div 64 = i" "(64 * i + j) mod 64 = j" using assms(2) by simp_all
  show "bit (wval (ws[i := ws ! i OR push_bit j 1])) k \<longleftrightarrow> bit (set_bit (64 * i + j) (wval ws)) k"
  proof (cases "k div 64 = i")
    case True
    then show ?thesis using assms div_mod_64_eq [of k "64 * i + j"] unfolding d
      by (auto simp: bit_wval_update bit_set_bit_iff bit_wval bit_or_iff bit_single)
  next
    case False
    then show ?thesis using assms by (auto simp: bit_wval_update bit_set_bit_iff)
  qed
qed

lemma set_bit_multiple:
  fixes q :: nat
  assumes "2 ^ Suc p dvd q"
  shows "set_bit p q = q + 2 ^ p"
proof -
  obtain c where "q = 2 ^ Suc p * c" using assms by (rule dvdE)
  then have "q div 2 ^ p = 2 * c" by simp
  then have "\<not> bit q p" by (simp add: bit_iff_odd)
  then show ?thesis by (simp add: set_bit_eq)
qed

text \<open>The state after the bits of the numerator \<open>N\<close> from \<open>p\<close> on: what these bits divided by \<open>M\<close> give.\<close>

definition div_state :: "limbs \<Rightarrow> limbs \<Rightarrow> nat \<Rightarrow> limbs \<times> limbs \<Rightarrow> bool" where
  "div_state n m p qr \<longleftrightarrow> length (fst qr) = length n \<and> length (snd qr) = length m \<and>
     wval (snd qr) = wval n div 2 ^ p mod wval m \<and> wval (fst qr) = wval n div 2 ^ p div wval m * 2 ^ p"

lemma next_bit:
  assumes "i < length n" "bt < 64" "b = drop_bit bt (n ! i) AND 1"
  shows "unat b \<le> 1" "wval n div 2 ^ (64 * i + bt) = 2 * (wval n div 2 ^ Suc (64 * i + bt)) + unat b"
proof -
  let ?p = "64 * i + bt"
  have "bit (wval n) ?p \<longleftrightarrow> bit (n ! i) bt" using assms(1,2) by (simp add: bit_wval)
  also have "\<dots> \<longleftrightarrow> odd (drop_bit bt (n ! i))" by (simp add: bit_iff_odd_drop_bit)
  also have "\<dots> \<longleftrightarrow> b = 1" unfolding assms(3) by (simp add: and_one_eq mod_2_eq_odd)
  finally have b: "bit (wval n) ?p \<longleftrightarrow> b = 1" .
  have b01: "b = 0 \<or> b = 1" unfolding assms(3) by (simp add: and_one_eq mod_2_eq_odd)
  then show "unat b \<le> 1" by auto
  have "wval n div 2 ^ ?p mod 2 = unat b" using b b01 by (auto simp: bit_iff_odd odd_iff_mod_2_eq_one)
  moreover have "wval n div 2 ^ ?p = 2 * (wval n div 2 ^ ?p div 2) + wval n div 2 ^ ?p mod 2" by simp
  ultimately show "wval n div 2 ^ ?p = 2 * (wval n div 2 ^ Suc ?p) + unat b" by (simp add: div_mult2_eq power_Suc2 del: power_Suc)
qed

lemma double_remainder:
  fixes X M b :: nat
  assumes "0 < M" "b \<le> 1"
  shows "(2 * X + b) mod M = (2 * (X mod M) + b) mod M"
    "(2 * X + b) div M = 2 * (X div M) + (if 2 * (X mod M) + b < M then 0 else 1)" "2 * (X mod M) + b < 2 * M"
proof -
  have less: "X mod M < M" using assms(1) by simp
  then show "2 * (X mod M) + b < 2 * M" using assms(2) by linarith
  have "2 * X + b = 2 * (M * (X div M)) + (2 * (X mod M) + b)" using mult_div_mod_eq [of M X] by linarith
  then have e: "2 * X + b = M * (2 * (X div M)) + (2 * (X mod M) + b)" by simp
  have one: "(2 * (X mod M) + b) div M = (if 2 * (X mod M) + b < M then 0 else 1)"
    using \<open>2 * (X mod M) + b < 2 * M\<close> assms(1) by (auto simp: div_nat_eqI)
  show "(2 * X + b) mod M = (2 * (X mod M) + b) mod M" unfolding e by (rule mod_mult_self4)
  show "(2 * X + b) div M = 2 * (X div M) + (if 2 * (X mod M) + b < M then 0 else 1)"
    unfolding one [symmetric] using assms(1) div_mult_self4 [of M "2 * (X div M)" "2 * (X mod M) + b"] unfolding e by simp
qed

lemma div_step_value:
  assumes "i < length n" "bt < 64" "0 < wval m" "div_state n m (Suc (64 * i + bt)) (q, r)"
  shows "div_state n m (64 * i + bt) (div_step n m (i, bt) (q, r))"
proof -
  let ?p = "64 * i + bt"
  let ?X = "wval n div 2 ^ Suc ?p" and ?M = "wval m"
  define b where "b = drop_bit bt (n ! i) AND 1"
  note b = next_bit [OF assms(1,2) b_def]
  note d = double_remainder [OF assms(3) b(1), of ?X]
  have st: "length q = length n" "length r = length m" "wval r = ?X mod ?M" "wval q = ?X div ?M * 2 ^ Suc ?p"
    using assms(4) by (simp_all only: div_state_def fst_conv snd_conv)
  have lm: "0 < length m" using assms(3) by (cases m) simp_all
  obtain r1 carry where 1: "bn_add_words r r = (r1, carry)" by force
  note v = bn_add_words_value [OF 1 refl, unfolded st(2)]
  obtain x xs where r1: "r1 = x # xs" using v(1) lm by (cases r1) auto
  have "2 dvd wval r1 + 2 ^ (64 * length m) * unat carry" unfolding v(3) by simp
  moreover have "2 dvd (2 :: nat) ^ (64 * length m) * unat carry" using lm by simp
  ultimately have "2 dvd wval r1" by (simp only: dvd_add_left_iff)
  then have x: "2 ^ 1 dvd unat x" unfolding r1 wval.simps by (simp add: dvd_add_left_iff)
  let ?r2 = "r1[0 := r1 ! 0 OR b]"
  have "unat (x OR b) = unat x + unat b" by (rule or_plus [OF x]) (use b(1) in simp)
  then have w2: "wval ?r2 = wval r1 + unat b" by (simp add: r1)
  have V: "wval ?r2 + 2 ^ (64 * length m) * unat carry = 2 * (?X mod ?M) + unat b"
    using v(3) unfolding w2 st(3) by linarith
  obtain r3 c where 3: "bn_reduce_once ?r2 carry m = (r3, c)" by force
  have "length ?r2 = length m" using v(1) by simp
  from bn_reduce_once_value [OF this v(2), unfolded V, OF d(3) 3]
  have r3: "length r3 = length m" "wval r3 = (2 * (?X mod ?M) + unat b) mod ?M"
    "c = (if 2 * (?X mod ?M) + unat b < ?M then - 1 else 0)" by blast+
  let ?q = "q[i := q ! i OR push_bit bt (NOT c AND 1)]"
  have e: "div_step n m (i, bt) (q, r) = (?q, r3)"
    by (simp add: div_step_def 1 Let_def bn_reduce_once_in_place_eq 3 b_def [symmetric])
  have q: "wval ?q = wval q + (if 2 * (?X mod ?M) + unat b < ?M then 0 else 1) * 2 ^ ?p"
  proof (cases "2 * (?X mod ?M) + unat b < ?M")
    case True
    then show ?thesis using r3(3) by simp
  next
    case False
    then have "wval ?q = set_bit ?p (wval q)" using wval_set_bit [of i q bt] assms(1,2) st(1) r3(3) by simp
    moreover have "set_bit ?p (wval q) = wval q + 2 ^ ?p" by (rule set_bit_multiple) (simp only: st(4) dvd_triv_right)
    ultimately show ?thesis using False by simp
  qed
  have "wval ?q = (2 * ?X + unat b) div ?M * 2 ^ ?p" unfolding q d(2) st(4) by (simp add: distrib_right)
  then show ?thesis using r3 st(1) unfolding e div_state_def b(2) d(1) by simp
qed

lemma div_word_value:
  assumes "i < length n" "0 < wval m" "j \<le> 64" "div_state n m (64 * i + j) qr"
  shows "div_state n m (64 * i) (fold (div_step n m) (map (Pair i) (rev [0..<j])) qr)"
  using assms(3,4)
proof (induction j arbitrary: qr)
  case (Suc j)
  obtain q r where qr: "qr = (q, r)" by (cases qr)
  have "div_state n m (64 * i + j) (div_step n m (i, j) (q, r))"
    by (rule div_step_value [OF assms(1) _ assms(2)]) (use Suc.prems qr in simp_all)
  then show ?case using Suc.IH [of "div_step n m (i, j) qr"] Suc.prems(1) qr by simp
qed simp

lemma div_loop_value:
  assumes "k \<le> length n" "0 < wval m" "div_state n m (64 * k) qr"
  shows "div_state n m 0 (div_loop n m k qr)"
  using assms(1,3)
proof (induction k arbitrary: qr)
  case 0
  then show ?case by (simp add: div_loop_def)
next
  case (Suc k)
  have "div_state n m (64 * k) (fold (div_step n m) (map (Pair k) (rev [0..<64])) qr)"
    by (rule div_word_value [OF _ assms(2) order_refl]) (use Suc.prems in \<open>simp_all add: add.commute\<close>)
  from Suc.IH [OF _ this] Suc.prems(1) show ?case by (simp add: div_loop_def)
qed

text \<open>The length of a number in bits.\<close>

lemma BN_num_bits_value:
  assumes "bn_ok bn"
  shows "bn_abs bn < 2 ^ BN_num_bits bn" "bn_abs bn \<noteq> 0 \<Longrightarrow> 0 < BN_num_bits bn \<and> 2 ^ (BN_num_bits bn - 1) \<le> bn_abs bn"
    "bn_abs bn = 0 \<Longrightarrow> BN_num_bits bn = 0"
proof -
  have ok: "bn_width bn \<le> dmax bn" using assms by (simp add: bn_ok_def)
  note w = minimal_width_value [OF ok] minimal_width_0 [OF ok]
  have "bn_abs bn < 2 ^ BN_num_bits bn \<and> (bn_abs bn \<noteq> 0 \<longrightarrow> 0 < BN_num_bits bn \<and> 2 ^ (BN_num_bits bn - 1) \<le> bn_abs bn) \<and>
      (bn_abs bn = 0 \<longrightarrow> BN_num_bits bn = 0)"
  proof (cases "minimal_width (bn_d bn) (bn_width bn)")
    case 0
    then show ?thesis using w by (simp add: BN_num_bits_def bn_minimal_width_def bn_abs_def bn_words_def)
  next
    case (Suc k)
    let ?top = "bn_d bn ! k"
    have "?top \<noteq> 0" using w(1) Suc by simp
    from BN_num_bits_word_value(2) [OF this] obtain r where
      r: "unat (BN_num_bits_word ?top) = Suc r" "2 ^ r \<le> unat ?top" "unat ?top < 2 ^ Suc r" by blast
    have n: "BN_num_bits bn = 64 * k + Suc r" using Suc r(1) by (simp add: BN_num_bits_def bn_minimal_width_def mult.commute)
    have k: "k < length (bn_d bn)" using w(1) Suc ok by simp
    have "bn_abs bn = wval (take (Suc k) (bn_d bn))" using w(1) Suc by (simp add: bn_abs_def bn_words_def)
    also have "\<dots> = wval (take k (bn_d bn)) + 2 ^ (64 * k) * unat ?top" using k by (simp add: take_Suc_conv_app_nth wval_append)
    finally have a: "bn_abs bn = wval (take k (bn_d bn)) + 2 ^ (64 * k) * unat ?top" .
    have t: "wval (take k (bn_d bn)) < 2 ^ (64 * k)" by (rule wval_take_less) (use k in simp)
    have "2 ^ (64 * k) * Suc (unat ?top) \<le> 2 ^ (64 * k) * 2 ^ Suc r" using r(3) by (intro mult_le_mono2) simp
    then have "bn_abs bn < 2 ^ (64 * k + Suc r)" unfolding a power_add using t by simp
    moreover have "2 ^ (64 * k) * 2 ^ r \<le> 2 ^ (64 * k) * unat ?top" using r(2) by (intro mult_le_mono2)
    then have "2 ^ (64 * k + r) \<le> bn_abs bn" unfolding a power_add by (rule trans_le_add2)
    ultimately show ?thesis using n by auto
  qed
  then show "bn_abs bn < 2 ^ BN_num_bits bn" "bn_abs bn \<noteq> 0 \<Longrightarrow> 0 < BN_num_bits bn \<and> 2 ^ (BN_num_bits bn - 1) \<le> bn_abs bn"
    "bn_abs bn = 0 \<Longrightarrow> BN_num_bits bn = 0" by blast+
qed

text \<open>Where the numerator may be taken over without a reduction.\<close>

lemma div_start:
  assumes "bn_ok d" "bn_abs d \<noteq> 0" "min_bits \<le> BN_num_bits d"
    and k: "k = (if min_bits > 0 then min ((min_bits - 1) div 64) (length n) else 0)"
  shows "div_state n (bn_words d) (64 * (length n - k))
      (replicate (length n) 0, set_words (replicate (bn_width d) 0) 0 (drop (length n - k) n))"
proof -
  have ld: "length (bn_words d) = bn_width d" using assms(1) by (rule length_bn_words)
  have le: "64 * k \<le> BN_num_bits d - 1" "k \<le> length n" using k assms(3) by (auto simp: min_def)
  have "2 ^ (64 * k) \<le> (2 :: nat) ^ (BN_num_bits d - 1)" using le(1) by (intro power_increasing) simp_all
  also have "\<dots> \<le> bn_abs d" using BN_num_bits_value(2) [OF assms(1,2)] by simp
  finally have p: "2 ^ (64 * k) \<le> bn_abs d" .
  have t: "length (drop (length n - k) n) = k" using le(2) by simp
  have less: "wval (drop (length n - k) n) < bn_abs d"
    using wval_less [of "drop (length n - k) n"] p unfolding t by (rule order_less_le_trans)
  have "2 ^ (64 * k) < (2 :: nat) ^ (64 * bn_width d)"
    using p wval_less [of "bn_words d"] unfolding ld bn_abs_def by (rule order_le_less_trans)
  then have kd: "k \<le> bn_width d" by (simp add: power_strict_increasing_iff)
  have "wval (set_words (replicate (bn_width d) 0) 0 (drop (length n - k) n)) = wval (drop (length n - k) n)"
    by (simp add: set_words_def wval_append)
  then show ?thesis using less kd le(2)
    by (simp add: div_state_def ld flip: bn_abs_def wval_drop)
qed

lemma div_output_facts:
  assumes "div_output m target shared x = (True, t')" "gives_words m" "\<forall>t. target = Some t \<longrightarrow> bn_ok t" "bn_ok x"
  shows "t' = None \<longleftrightarrow> target = None"
    "t' = Some t \<Longrightarrow> bn_ok t \<and> bn_words t = bn_words x \<and> bn_neg t = bn_neg x \<and> bn_width t = bn_width x"
proof -
  show "t' = None \<longleftrightarrow> target = None" using assms(1) by (auto simp: div_output_def split: option.splits if_splits prod.splits)
  assume t: "t' = Some t"
  show "bn_ok t \<and> bn_words t = bn_words x \<and> bn_neg t = bn_neg x \<and> bn_width t = bn_width x"
  proof (cases target)
    case None
    then show ?thesis using assms(1) t by (simp add: div_output_def)
  next
    case (Some t0)
    then show ?thesis using assms t BN_copy_facts [of m t0 x True t, OF _ assms(2) _ assms(4)]
      by (auto simp: div_output_def split: if_splits prod.splits)
  qed
qed

lemma bn_div_consttime_exact:
  assumes d: "bn_div_consttime m get quot q_shared rem r_shared numerator divisor min_bits = Some (quot', rem')"
    and "gives_words m" "ctx_ok get" "\<forall>q. quot = Some q \<longrightarrow> bn_ok q" "\<forall>r. rem = Some r \<longrightarrow> bn_ok r"
    and ok: "bn_ok numerator" "bn_ok divisor" and min: "min_bits \<le> BN_num_bits divisor"
  shows "(quot' = None \<longleftrightarrow> quot = None) \<and> (rem' = None \<longleftrightarrow> rem = None) \<and>
    (\<forall>q. quot' = Some q \<longrightarrow> bn_ok q \<and> bn_int q = bn_int numerator div bn_int divisor \<and> bn_width q = bn_width numerator) \<and>
    (\<forall>r. rem' = Some r \<longrightarrow> bn_ok r \<and> bn_int r = bn_int numerator mod bn_int divisor \<and> bn_width r = bn_width divisor)"
proof -
  let ?n = "bn_words numerator" and ?m = "bn_words divisor"
  have sign: "\<not> (bn_neg numerator \<or> bn_neg divisor)" "\<not> BN_is_zero divisor"
    using d by (auto simp: bn_div_consttime_def split: if_splits)
  have nz: "bn_abs divisor \<noteq> 0" using sign(2) by (simp add: BN_is_zero_iff)
  have ln: "length ?n = bn_width numerator" "length ?m = bn_width divisor" using ok by (simp_all add: length_bn_words)
  define k where "k = (if min_bits > 0 then Orderings.min ((min_bits - 1) div 64) (bn_width numerator) else 0)"
  define rd where "rd = set_words (replicate (bn_width divisor) 0) 0 (drop (bn_width numerator - k) ?n)"
  obtain qd' rd' where loop: "div_loop ?n ?m (bn_width numerator - k) (replicate (bn_width numerator) 0, rd) = (qd', rd')" by force
  have "div_state ?n ?m 0 (qd', rd')"
    unfolding loop [symmetric] rd_def
    by (rule div_loop_value, use ln in simp, use nz in \<open>simp add: bn_abs_def\<close>,
        rule div_start [OF ok(2) nz min, of k ?n, unfolded ln], simp add: k_def)
  then have v: "length qd' = bn_width numerator" "length rd' = bn_width divisor"
    "wval rd' = bn_abs numerator mod bn_abs divisor" "wval qd' = bn_abs numerator div bn_abs divisor"
    by (simp_all add: div_state_def ln bn_abs_def)
  let ?q_new = "quot = None \<or> q_shared" and ?r_new = "rem = None \<or> r_shared"
  let ?q = "\<lambda>q. q\<lparr>bn_d := set_words (bn_d q) 0 qd', bn_width := bn_width numerator, bn_neg := False\<rparr>"
  let ?r = "\<lambda>r. r\<lparr>bn_d := set_words (bn_d r) 0 rd', bn_width := bn_width divisor, bn_neg := False\<rparr>"
  define Q where "Q = (if ?q_new then get 0 else quot)"
  define R where "R = (if ?r_new then get (if ?q_new then 1 else 0) else rem)"
  note e = d [unfolded bn_div_consttime_def if_not_P [OF sign(1)] if_not_P [OF sign(2)] Let_def, folded Q_def R_def k_def, folded rd_def,
      unfolded loop prod.case]
  obtain q0 r0 t0 where some: "Q = Some q0" "R = Some r0"
      "get ((if ?q_new then 1 else 0) + (if ?r_new then 1 else 0)) = Some t0"
    using e by (cases Q; cases R; cases "get ((if ?q_new then 1 else 0) + (if ?r_new then 1 else 0))") simp_all
  obtain b1 q1 b2 r1 b3 t1 where x: "bn_wexpand m q0 (bn_width numerator) = (b1, q1)" "bn_wexpand m r0 (bn_width divisor) = (b2, r1)"
      "bn_wexpand m t0 (bn_width divisor) = (b3, t1)" by (metis surj_pair)
  obtain c1 z1 c2 z2 where y: "div_output m quot q_shared (?q q1) = (c1, z1)" "div_output m rem r_shared (?r r1) = (c2, z2)"
    by (metis surj_pair)
  have "b1 \<and> b2 \<and> c1 \<and> c2 \<and> z1 = quot' \<and> z2 = rem'" using e [unfolded some option.case prod.case x y] by (simp split: if_splits)
  then have out: "(if ?q_new then get 0 else quot) = Some q0" "(if ?r_new then get (if ?q_new then 1 else 0) else rem) = Some r0"
      "bn_wexpand m q0 (bn_width numerator) = (True, q1)" "bn_wexpand m r0 (bn_width divisor) = (True, r1)"
      "div_output m quot q_shared (?q q1) = (True, quot')" "div_output m rem r_shared (?r r1) = (True, rem')"
    using some x y by (simp_all only: Q_def R_def)
  have ok0: "bn_ok q0" "bn_ok r0" using out(1,2) assms(3-5) by (auto simp: ctx_ok_def split: if_splits)
  note xq = bn_wexpand_facts [OF out(3) assms(2) ok0(1)] and xr = bn_wexpand_facts [OF out(4) assms(2) ok0(2)]
  have q: "bn_ok (?q q1)" "bn_words (?q q1) = qd'" and r: "bn_ok (?r r1)" "bn_words (?r r1) = rd'"
    using bn_stored [OF xq(1), of qd'] bn_stored [OF xr(1), of rd'] xq(5) xr(5) v(1,2) by (simp_all add: bn_ok_def bn_words_def)
  note fq = div_output_facts [OF out(5) assms(2,4) q(1)] and fr = div_output_facts [OF out(6) assms(2,5) r(1)]
  have i: "bn_int numerator = int (bn_abs numerator)" "bn_int divisor = int (bn_abs divisor)" using sign(1) by (simp_all add: bn_int_def)
  have "bn_ok x \<and> bn_int x = bn_int numerator div bn_int divisor \<and> bn_width x = bn_width numerator" if "quot' = Some x" for x
    using fq(2) [OF that] q(2) v(4) by (simp add: bn_int_def [of x] bn_abs_def [of x] i zdiv_int)
  moreover have "bn_ok x \<and> bn_int x = bn_int numerator mod bn_int divisor \<and> bn_width x = bn_width divisor" if "rem' = Some x" for x
    using fr(2) [OF that] r(2) v(3) by (simp add: bn_int_def [of x] bn_abs_def [of x] i zmod_int)
  ultimately show ?thesis using fq(1) fr(1) by simp
qed

end
