(* ===== verification/Bn_Add.thy ===== *)
theory Bn_Add
  imports Bn
begin

text \<open>
  Sums and differences of big numbers (\<open>crypto/fipsmodule/bn/add.c\<close>): on absolute values with the widths
  as they are, then with signs, and with a single word in place.
\<close>

definition bn_uadd_consttime :: "bn_malloc \<Rightarrow> bignum \<Rightarrow> bignum \<Rightarrow> bignum \<Rightarrow> bool \<times> bignum" where
  "bn_uadd_consttime m r a b =
     (let (a, b) = (if bn_width a < bn_width b then (b, a) else (a, b));
          max = bn_width a; min = bn_width b
      in and_also (bn_wexpand m r (max + 1)) (\<lambda>r.
           let (lo, carry) = bn_add_words (take min (bn_d a)) (take min (bn_d b));
               (hi, carry) = chain carry_step carry (take (max - min) (drop min (bn_d a)))
           in (True, r\<lparr>bn_d := set_words (bn_d r) 0 (lo @ hi @ [carry]), bn_width := max + 1\<rparr>)))"

definition BN_uadd :: "bn_malloc \<Rightarrow> bignum \<Rightarrow> bignum \<Rightarrow> bignum \<Rightarrow> bool \<times> bignum" where
  "BN_uadd m r a b = and_also (bn_uadd_consttime m r a b) (\<lambda>r. (True, bn_set_minimal_width r))"

definition bn_usub_consttime :: "bn_malloc \<Rightarrow> bignum \<Rightarrow> bignum \<Rightarrow> bignum \<Rightarrow> bool \<times> bignum" where
  "bn_usub_consttime m r a b =
     (if bn_width b > bn_width a \<and> \<not> bn_fits_in_words b (bn_width a) then (False, r)
      else
        let b_width = (if bn_width b > bn_width a then bn_width a else bn_width b)
        in and_also (bn_wexpand m r (bn_width a)) (\<lambda>r.
             let (lo, borrow) = bn_sub_words (take b_width (bn_d a)) (take b_width (bn_d b));
                 (hi, borrow) = chain borrow_step borrow (take (bn_width a - b_width) (drop b_width (bn_d a)));
                 r = r\<lparr>bn_d := set_words (bn_d r) 0 (lo @ hi)\<rparr>
             in if borrow \<noteq> 0 then (False, r) else (True, r\<lparr>bn_width := bn_width a, bn_neg := False\<rparr>)))"

definition BN_usub :: "bn_malloc \<Rightarrow> bignum \<Rightarrow> bignum \<Rightarrow> bignum \<Rightarrow> bool \<times> bignum" where
  "BN_usub m r a b = and_also (bn_usub_consttime m r a b) (\<lambda>r. (True, bn_set_minimal_width r))"

definition BN_add :: "bn_malloc \<Rightarrow> bignum \<Rightarrow> bignum \<Rightarrow> bignum \<Rightarrow> bool \<times> bignum" where
  "BN_add m r a b =
     (if bn_neg a \<noteq> bn_neg b then
        (let (a, b) = (if bn_neg a then (b, a) else (a, b))
         in if sint (BN_ucmp a b) < 0
            then and_also (BN_usub m r b a) (\<lambda>r. (True, r\<lparr>bn_neg := True\<rparr>))
            else and_also (BN_usub m r a b) (\<lambda>r. (True, r\<lparr>bn_neg := False\<rparr>)))
      else (let (ret, r) = BN_uadd m r a b in (ret, r\<lparr>bn_neg := bn_neg a\<rparr>)))"

definition BN_sub :: "bn_malloc \<Rightarrow> bignum \<Rightarrow> bignum \<Rightarrow> bignum \<Rightarrow> bool \<times> bignum" where
  "BN_sub m r a b =
     (let (a, b, add, neg) =
            (if bn_neg a then if bn_neg b then (b, a, False, False) else (a, b, True, True)
             else if bn_neg b then (a, b, True, False) else (a, b, False, False))
      in if add then and_also (BN_uadd m r a b) (\<lambda>r. (True, r\<lparr>bn_neg := neg\<rparr>))
         else if sint (BN_ucmp a b) < 0
         then and_also (BN_usub m r b a) (\<lambda>r. (True, r\<lparr>bn_neg := True\<rparr>))
         else and_also (BN_usub m r a b) (\<lambda>r. (True, r\<lparr>bn_neg := False\<rparr>)))"

text \<open>The loops on one word. The second one reads on until a word is large enough.\<close>

fun add_word_loop :: "limbs \<Rightarrow> u64 \<Rightarrow> limbs \<times> u64" where
  "add_word_loop [] w = ([], w)"
| "add_word_loop (x # xs) w =
     (if w = 0 then (x # xs, 0)
      else let l = x + w; (xs, w) = add_word_loop xs (if w > l then 1 else 0) in (l # xs, w))"

fun sub_word_loop :: "limbs \<Rightarrow> u64 \<Rightarrow> (limbs \<times> nat) option" where
  "sub_word_loop [] w = None"
| "sub_word_loop (x # xs) w =
     (if x \<ge> w then Some ((x - w) # xs, 0)
      else map_option (\<lambda>(xs, i). ((x - w) # xs, Suc i)) (sub_word_loop xs 1))"

text \<open>\<open>BN_add_word\<close> and \<open>BN_sub_word\<close> for a number that is not negative, and in general.\<close>

definition add_word_abs :: "bn_malloc \<Rightarrow> bignum \<Rightarrow> u64 \<Rightarrow> bool \<times> bignum" where
  "add_word_abs m a w =
     (if w = 0 then (True, a)
      else if BN_is_zero a then BN_set_word m a w
      else
        let (ws, w) = add_word_loop (bn_words a) w; a = a\<lparr>bn_d := set_words (bn_d a) 0 ws\<rparr>
        in if w \<noteq> 0
           then and_also (bn_wexpand m a (bn_width a + 1)) (\<lambda>a.
                  (True, a\<lparr>bn_d := (bn_d a)[bn_width a := w], bn_width := bn_width a + 1\<rparr>))
           else (True, a))"

definition sub_word_abs :: "bn_malloc \<Rightarrow> bignum \<Rightarrow> u64 \<Rightarrow> bool \<times> bignum" where
  "sub_word_abs m a w =
     (if w = 0 then (True, a)
      else if BN_is_zero a then (let (i, a) = BN_set_word m a w in (i, if i then BN_set_negative a True else a))
      else if bn_minimal_width a = 1 \<and> bn_d a ! 0 < w
      then (True, a\<lparr>bn_d := (bn_d a)[0 := w - bn_d a ! 0], bn_neg := True\<rparr>)
      else case sub_word_loop (bn_d a) w of
             None \<Rightarrow> (False, a)
           | Some (ws, i) \<Rightarrow>
               let a = a\<lparr>bn_d := ws\<rparr>
               in (True, if ws ! i = 0 \<and> i = bn_width a - 1 then a\<lparr>bn_width := bn_width a - 1\<rparr> else a))"

definition BN_add_word :: "bn_malloc \<Rightarrow> bignum \<Rightarrow> u64 \<Rightarrow> bool \<times> bignum" where
  "BN_add_word m a w =
     (if w = 0 then (True, a)
      else if BN_is_zero a then BN_set_word m a w
      else if bn_neg a then
        (let (i, a) = sub_word_abs m (a\<lparr>bn_neg := False\<rparr>) w
         in (i, if \<not> BN_is_zero a then a\<lparr>bn_neg := \<not> bn_neg a\<rparr> else a))
      else add_word_abs m a w)"

definition BN_sub_word :: "bn_malloc \<Rightarrow> bignum \<Rightarrow> u64 \<Rightarrow> bool \<times> bignum" where
  "BN_sub_word m a w =
     (if w = 0 then (True, a)
      else if BN_is_zero a then (let (i, a) = BN_set_word m a w in (i, if i then BN_set_negative a True else a))
      else if bn_neg a then (let (i, a) = add_word_abs m (a\<lparr>bn_neg := False\<rparr>) w in (i, a\<lparr>bn_neg := True\<rparr>))
      else sub_word_abs m a w)"

section \<open>Absolute values\<close>

lemma bn_uadd_consttime_facts:
  assumes "bn_uadd_consttime m r a b = (ok, r')" "gives_words m" "bn_ok r" "bn_ok a" "bn_ok b"
  shows "bn_ok r'" "ok \<Longrightarrow> bn_abs r' = bn_abs a + bn_abs b" "ok \<Longrightarrow> bn_width r' = max (bn_width a) (bn_width b) + 1"
    "bn_neg r' = bn_neg r"
proof -
  have ordered: "bn_ok r' \<and> (ok \<longrightarrow> bn_abs r' = bn_abs a + bn_abs b \<and> bn_width r' = bn_width a + 1) \<and> bn_neg r' = bn_neg r"
    if "bn_uadd_consttime m r a b = (ok, r')" "bn_width b \<le> bn_width a" "bn_ok a" "bn_ok b" for a b
  proof -
    obtain ok1 r1 where 1: "bn_wexpand m r (bn_width a + 1) = (ok1, r1)" by force
    note w = bn_wexpand_facts [OF 1 assms(2,3)]
    let ?n = "bn_width b"
    have l: "length (take ?n (bn_d a)) = ?n" "length (take ?n (bn_d b)) = ?n"
      "length (take (bn_width a - ?n) (drop ?n (bn_d a))) = bn_width a - ?n" using that by (auto simp: bn_ok_def min_def)
    obtain lo c where 2: "bn_add_words (take ?n (bn_d a)) (take ?n (bn_d b)) = (lo, c)" by force
    note v2 = bn_add_words_value [OF 2, unfolded l, OF refl]
    obtain hi c' where 3: "chain carry_step c (take (bn_width a - ?n) (drop ?n (bn_d a))) = (hi, c')" by force
    note v3 = carry_chain_value [OF 3, unfolded l]
    have ll: "length (lo @ hi @ [c']) = bn_width a + 1" using v2(1) v3(1) that(2) by simp
    show ?thesis
    proof (cases ok1)
      case True
      then have r': "ok" "r' = r1\<lparr>bn_d := set_words (bn_d r1) 0 (lo @ hi @ [c']), bn_width := length (lo @ hi @ [c'])\<rparr>"
        using that(1,2) ll 1 by (simp_all add: bn_uadd_consttime_def Let_def 2 3)
      have "length (lo @ hi @ [c']) \<le> dmax r1" using w(5) True ll by simp
      note s = bn_stored [OF w(1) this]
      have "take (bn_width a) (bn_d a) = take ?n (bn_d a) @ take (bn_width a - ?n) (drop ?n (bn_d a))"
        using that(2) take_add [of ?n "bn_width a - ?n" "bn_d a"] by simp
      then have a: "bn_abs a = wval (take ?n (bn_d a)) + 2 ^ (64 * ?n) * wval (take (bn_width a - ?n) (drop ?n (bn_d a)))"
        using that(3) \<open>bn_width b \<le> bn_width a\<close> by (simp add: bn_abs_def bn_words_def wval_append bn_ok_def)
      have "bn_abs r' = wval lo + 2 ^ (64 * ?n) * (wval hi + 2 ^ (64 * (bn_width a - ?n)) * unat c')"
        using v2(1) v3(1) unfolding bn_abs_def r'(2) s(2) by (simp add: wval_append)
      also have "\<dots> = bn_abs a + bn_abs b" unfolding v3(2) a using v2(3) by (simp add: distrib_left bn_abs_def bn_words_def)
      finally show ?thesis using s(1) w(4) ll by (simp add: r')
    next
      case False
      then show ?thesis using that(1,2) w 1 by (simp add: bn_uadd_consttime_def Let_def)
    qed
  qed
  have swap: "bn_uadd_consttime m r a b = bn_uadd_consttime m r b a" if "bn_width a < bn_width b"
    using that by (simp add: bn_uadd_consttime_def)
  have "bn_ok r' \<and> (ok \<longrightarrow> bn_abs r' = bn_abs a + bn_abs b \<and> bn_width r' = max (bn_width a) (bn_width b) + 1) \<and> bn_neg r' = bn_neg r"
    using ordered [of a b] ordered [of b a] swap assms by (cases "bn_width a < bn_width b") auto
  then show "bn_ok r'" "ok \<Longrightarrow> bn_abs r' = bn_abs a + bn_abs b" "ok \<Longrightarrow> bn_width r' = max (bn_width a) (bn_width b) + 1"
    "bn_neg r' = bn_neg r" by blast+
qed

lemma BN_uadd_facts:
  assumes "BN_uadd m r a b = (ok, r')" "gives_words m" "bn_ok r" "bn_ok a" "bn_ok b"
  shows "bn_ok r'" "ok \<Longrightarrow> bn_abs r' = bn_abs a + bn_abs b \<and> minimal r'"
proof -
  obtain ok1 r1 where 1: "bn_uadd_consttime m r a b = (ok1, r1)" by force
  note f = bn_uadd_consttime_facts [OF 1 assms(2-5)]
  show "bn_ok r'" "ok \<Longrightarrow> bn_abs r' = bn_abs a + bn_abs b \<and> minimal r'"
    using assms(1) 1 f bn_set_minimal_width_facts [OF f(1)] by (cases ok1; auto simp: BN_uadd_def)+
qed

lemma bn_usub_consttime_facts:
  assumes "bn_usub_consttime m r a b = (ok, r')" "gives_words m" "bn_ok r" "bn_ok a" "bn_ok b"
  shows "bn_ok r'" "ok \<Longrightarrow> int (bn_abs r') = int (bn_abs a) - int (bn_abs b) \<and> \<not> bn_neg r' \<and> bn_width r' = bn_width a"
    "bn_abs a < bn_abs b \<Longrightarrow> \<not> ok" "bn_abs b \<le> bn_abs a \<Longrightarrow> fst (bn_wexpand m r (bn_width a)) \<Longrightarrow> ok"
proof -
  let ?n = "if bn_width b > bn_width a then bn_width a else bn_width b"
  have n: "?n = min (bn_width a) (bn_width b)" by (simp add: min_def)
  obtain ok1 r1 where 1: "bn_wexpand m r (bn_width a) = (ok1, r1)" by force
  note w = bn_wexpand_facts [OF 1 assms(2,3)]
  have l: "length (take ?n (bn_d a)) = ?n" "length (take ?n (bn_d b)) = ?n"
    "length (take (bn_width a - ?n) (drop ?n (bn_d a))) = bn_width a - ?n" using assms(4,5) by (auto simp: bn_ok_def min_def)
  obtain lo c where 2: "bn_sub_words (take ?n (bn_d a)) (take ?n (bn_d b)) = (lo, c)" by force
  note v2 = bn_sub_words_value [OF 2, unfolded l, OF refl]
  obtain hi c' where 3: "chain borrow_step c (take (bn_width a - ?n) (drop ?n (bn_d a))) = (hi, c')" by force
  let ?hi = "take (bn_width a - ?n) (drop ?n (bn_d a))"
  have 4: "bn_sub_words (take ?n (bn_d a) @ ?hi) (take ?n (bn_d b) @ replicate (length ?hi) 0) = (lo @ hi, c')"
    using 2 3 l by (simp add: bn_sub_words_def unrolled_chain chain_append sub_chain_zip(1) [OF v2(2)])
  have a: "take ?n (bn_d a) @ ?hi = bn_words a" using take_add [of ?n "bn_width a - ?n" "bn_d a"] by (simp add: n bn_words_def)
  have la: "length (bn_words a) = bn_width a" using assms(4) by (rule length_bn_words)
  note v = bn_sub_words_value [OF 4, unfolded a la]
  have lb: "bn_width a = length (take ?n (bn_d b) @ replicate (length ?hi) 0)" using l by simp
  have ll: "length (lo @ hi) = bn_width a" by (rule v(1) [OF lb])
  have bb: "wval (take ?n (bn_d b) @ replicate (length ?hi) 0) = bn_abs b" if "\<not> (bn_width b > bn_width a \<and> \<not> bn_fits_in_words b (bn_width a))"
  proof (cases "bn_width a < bn_width b")
    case True
    then have "bn_abs b < 2 ^ (64 * bn_width a)" using that by (simp add: bn_fits_in_words_iff)
    then have "wval (take (bn_width a) (bn_words b)) = bn_abs b" by (simp add: wval_take bn_abs_def)
    then show ?thesis using True by (simp add: wval_append bn_words_def)
  qed (simp add: wval_append bn_abs_def bn_words_def)
  have all: "bn_ok r' \<and> (ok \<longrightarrow> int (bn_abs r') = int (bn_abs a) - int (bn_abs b) \<and> \<not> bn_neg r' \<and> bn_width r' = bn_width a) \<and>
      (bn_abs a < bn_abs b \<longrightarrow> \<not> ok) \<and> (bn_abs b \<le> bn_abs a \<longrightarrow> ok1 \<longrightarrow> ok)"
  proof (cases "bn_width b > bn_width a \<and> \<not> bn_fits_in_words b (bn_width a) \<or> \<not> ok1")
    case True
    moreover have "bn_fits_in_words b (bn_width a)" if "bn_abs b \<le> bn_abs a"
      using that wval_less [of "bn_words a"] unfolding la bn_fits_in_words_iff bn_abs_def [of a] by simp
    ultimately show ?thesis using assms(1,3) w(1) by (auto simp: bn_usub_consttime_def 1 Let_def split: if_splits)
  next
    case False
    then have fits: "\<not> (bn_width b > bn_width a \<and> \<not> bn_fits_in_words b (bn_width a))" and ok1 by simp_all
    let ?r = "r1\<lparr>bn_d := set_words (bn_d r1) 0 (lo @ hi)\<rparr>"
    have e: "(ok, r') = (if c' \<noteq> 0 then (False, ?r) else (True, ?r\<lparr>bn_width := length (lo @ hi), bn_neg := False\<rparr>))"
      using assms(1) \<open>ok1\<close> ll unfolding bn_usub_consttime_def if_not_P [OF fits] Let_def 1
      by (simp add: 2 3 split: if_splits)
    have le: "length (lo @ hi) \<le> dmax r1" using w(5) \<open>ok1\<close> ll by simp
    note s = bn_stored [OF w(1) le]
    have s': "bn_ok ?r" using w(1) le by (simp add: bn_ok_def)
    have eq: "wval (lo @ hi) + bn_abs b = bn_abs a + 2 ^ (64 * bn_width a) * unat c'"
      using v(3) [OF lb] unfolding bb [OF fits] by (simp only: bn_abs_def)
    have less: "wval (lo @ hi) < 2 ^ (64 * bn_width a)" using wval_less [of "lo @ hi"] unfolding ll .
    show ?thesis
    proof (cases "c' = 0")
      case True
      then have "int (wval (lo @ hi)) = int (bn_abs a) - int (bn_abs b)" using eq by simp
      then show ?thesis using e True s ll eq by (simp add: bn_abs_def bn_words_def bn_ok_def)
    next
      case False
      then have "2 ^ (64 * bn_width a) * 1 \<le> 2 ^ (64 * bn_width a) * unat c'" by (intro mult_le_mono2) (simp add: unat_gt_0 Suc_leI)
      then have "\<not> bn_abs b \<le> bn_abs a" using eq less by linarith
      then show ?thesis using e s' False by simp
    qed
  qed
  then show "bn_ok r'" "ok \<Longrightarrow> int (bn_abs r') = int (bn_abs a) - int (bn_abs b) \<and> \<not> bn_neg r' \<and> bn_width r' = bn_width a"
    "bn_abs a < bn_abs b \<Longrightarrow> \<not> ok" "bn_abs b \<le> bn_abs a \<Longrightarrow> fst (bn_wexpand m r (bn_width a)) \<Longrightarrow> ok"
    using 1 by auto
qed

lemma BN_usub_facts:
  assumes "BN_usub m r a b = (ok, r')" "gives_words m" "bn_ok r" "bn_ok a" "bn_ok b"
  shows "bn_ok r'" "ok \<Longrightarrow> int (bn_abs r') = int (bn_abs a) - int (bn_abs b) \<and> minimal r' \<and> \<not> bn_neg r'"
proof -
  obtain ok1 r1 where 1: "bn_usub_consttime m r a b = (ok1, r1)" by force
  note f = bn_usub_consttime_facts [OF 1 assms(2-5)]
  show "bn_ok r'" "ok \<Longrightarrow> int (bn_abs r') = int (bn_abs a) - int (bn_abs b) \<and> minimal r' \<and> \<not> bn_neg r'"
    using assms(1) 1 f bn_set_minimal_width_facts [OF f(1)] by (cases ok1; auto simp: BN_usub_def)+
qed

section \<open>Signed numbers\<close>

lemma bn_set_neg:
  "bn_ok (r\<lparr>bn_neg := n\<rparr>) = bn_ok r" "bn_abs (r\<lparr>bn_neg := n\<rparr>) = bn_abs r"
  by (simp_all add: bn_ok_def bn_abs_def bn_words_def)

lemma signed_difference:
  assumes "(if sint (BN_ucmp a b) < 0 then and_also (BN_usub m r b a) (\<lambda>r. (True, r\<lparr>bn_neg := True\<rparr>))
      else and_also (BN_usub m r a b) (\<lambda>r. (True, r\<lparr>bn_neg := False\<rparr>))) = (ok, r')"
    and "gives_words m" "bn_ok r" "bn_ok a" "bn_ok b"
  shows "bn_ok r' \<and> (ok \<longrightarrow> bn_int r' = int (bn_abs a) - int (bn_abs b) \<and> minimal r')"
proof (cases "bn_abs a < bn_abs b")
  case True
  obtain ok1 r1 where 1: "BN_usub m r b a = (ok1, r1)" by force
  note f = BN_usub_facts [OF 1 assms(2,3,5,4)]
  have "(ok, r') = (if ok1 then (True, r1\<lparr>bn_neg := True\<rparr>) else (False, r1))"
    using assms(1) True by (simp add: BN_ucmp_less 1 and_also_def split: if_splits)
  moreover have "bn_width r1 \<noteq> 0" if ok1
    proof
    assume "bn_width r1 = 0"
    then have "bn_abs r1 = 0" by (simp add: bn_abs_def bn_words_def)
    then show False using f(2) [OF that] True by simp
  qed
  ultimately show ?thesis using f True
    by (auto simp: bn_int_def bn_ok_def minimal_def bn_abs_def bn_words_def split: if_splits)
next
  case False
  obtain ok1 r1 where 1: "BN_usub m r a b = (ok1, r1)" by force
  note f = BN_usub_facts [OF 1 assms(2-5)]
  have "(ok, r') = (if ok1 then (True, r1\<lparr>bn_neg := False\<rparr>) else (False, r1))"
    using assms(1) False by (simp add: BN_ucmp_less 1 and_also_def split: if_splits)
  then show ?thesis using f
    by (auto simp: bn_int_def bn_ok_def minimal_def bn_abs_def bn_words_def split: if_splits)
qed

lemma BN_add_exact:
  assumes "BN_add m r a b = (ok, r')" "gives_words m" "bn_ok r" "bn_ok a" "bn_ok b"
  shows "bn_ok r'" "ok \<Longrightarrow> bn_int r' = bn_int a + bn_int b"
proof -
  have "bn_ok r' \<and> (ok \<longrightarrow> bn_int r' = bn_int a + bn_int b)"
  proof (cases "bn_neg a = bn_neg b")
    case True
    obtain ok1 r1 where 1: "BN_uadd m r a b = (ok1, r1)" by force
    have "r' = r1\<lparr>bn_neg := bn_neg a\<rparr>" "ok = ok1" using assms(1) True 1 by (simp_all add: BN_add_def)
    then show ?thesis using BN_uadd_facts [OF 1 assms(2-5)] True by (auto simp: bn_set_neg bn_int_def)
  next
    case False
    show ?thesis
    proof (cases "bn_neg a")
      case True
      then show ?thesis using signed_difference [OF _ assms(2,3,5,4), of ok r'] assms(1) False by (simp add: BN_add_def bn_int_def)
    next
      case neg: False
      then show ?thesis using signed_difference [OF _ assms(2-5), of ok r'] assms(1) False by (simp add: BN_add_def bn_int_def)
    qed
  qed
  then show "bn_ok r'" "ok \<Longrightarrow> bn_int r' = bn_int a + bn_int b" by blast+
qed

lemma BN_sub_exact:
  assumes "BN_sub m r a b = (ok, r')" "gives_words m" "bn_ok r" "bn_ok a" "bn_ok b"
  shows "bn_ok r'" "ok \<Longrightarrow> bn_int r' = bn_int a - bn_int b"
proof -
  have "bn_ok r' \<and> (ok \<longrightarrow> bn_int r' = bn_int a - bn_int b)"
  proof (cases "bn_neg a = bn_neg b")
    case False
    obtain ok1 r1 where 1: "BN_uadd m r a b = (ok1, r1)" by force
    have "(ok, r') = (if ok1 then (True, r1\<lparr>bn_neg := bn_neg a\<rparr>) else (False, r1))"
      using assms(1) False 1 by (cases ok1; auto simp: BN_sub_def split: if_splits)
    then show ?thesis using BN_uadd_facts [OF 1 assms(2-5)] False by (auto simp: bn_set_neg bn_int_def split: if_splits)
  next
    case True
    then show ?thesis
      using signed_difference [OF _ assms(2,3,5,4), of ok r'] signed_difference [OF _ assms(2-5), of ok r'] assms(1)
      by (cases "bn_neg a") (simp_all add: BN_sub_def bn_int_def)
  qed
  then show "bn_ok r'" "ok \<Longrightarrow> bn_int r' = bn_int a - bn_int b" by blast+
qed

end
