(* ===== verification/Bn_Mod_Ops.thy ===== *)
theory Bn_Mod_Ops
  imports Bn_Modular Bn_Add
begin

text \<open>
  Sums, differences and doublings of numbers modulo a number in constant time, and remainders by powers of two
  (\<open>crypto/fipsmodule/bn/div.c\<close>). The modulus is not the result. The index of a result of \<open>BN_CTX_get\<close>
  counts the calls of the operation.
\<close>

section \<open>The operations\<close>

definition bn_scratch_space_from_ctx :: "bn_malloc \<Rightarrow> bignum option \<Rightarrow> nat \<Rightarrow> bignum option" where
  "bn_scratch_space_from_ctx m new width =
     (case new of
        None \<Rightarrow> None
      | Some ret \<Rightarrow> let (ok, ret) = bn_wexpand m ret width in if ok then Some (ret\<lparr>bn_neg := False, bn_width := width\<rparr>) else None)"

definition bn_resized_from_ctx :: "bn_malloc \<Rightarrow> bignum option \<Rightarrow> bignum \<Rightarrow> nat \<Rightarrow> bignum option" where
  "bn_resized_from_ctx m new bn width =
     (if bn_width bn \<ge> width then Some bn
      else case bn_scratch_space_from_ctx m new width of
             None \<Rightarrow> None
           | Some ret \<Rightarrow>
               let (ok, ret) = and_also (BN_copy m ret bn) (\<lambda>ret. bn_resize_words m ret width) in if ok then Some ret else None)"

text \<open>How many results of \<open>BN_CTX_get\<close> resizing \<open>bn\<close> takes.\<close>

definition resize_gets :: "bignum \<Rightarrow> nat \<Rightarrow> nat" where
  "resize_gets bn width = (if bn_width bn \<ge> width then 0 else 1)"

definition mod_op_consttime :: "(limbs \<Rightarrow> limbs \<Rightarrow> limbs \<Rightarrow> limbs) \<Rightarrow> bn_malloc \<Rightarrow> (nat \<Rightarrow> bignum option) \<Rightarrow>
    bignum \<Rightarrow> bignum \<Rightarrow> bignum \<Rightarrow> bignum \<Rightarrow> bool \<times> bignum" where
  "mod_op_consttime op m get r a b md =
     (let w = bn_width md; i = resize_gets a w; j = i + resize_gets b w
      in case (bn_resized_from_ctx m (get 0) a w, bn_resized_from_ctx m (get i) b w, bn_scratch_space_from_ctx m (get j) w) of
           (Some a, Some b, Some tmp) \<Rightarrow>
             and_also (bn_wexpand m r w) (\<lambda>r.
               (True, r\<lparr>bn_d := set_words (bn_d r) 0 (op (take w (bn_d a)) (take w (bn_d b)) (bn_words md)),
                  bn_width := w, bn_neg := False\<rparr>))
         | _ \<Rightarrow> (False, r))"

definition bn_mod_add_consttime :: "bn_malloc \<Rightarrow> (nat \<Rightarrow> bignum option) \<Rightarrow> bignum \<Rightarrow> bignum \<Rightarrow> bignum \<Rightarrow> bignum \<Rightarrow> bool \<times> bignum" where
  "bn_mod_add_consttime = mod_op_consttime bn_mod_add_words"

definition bn_mod_sub_consttime :: "bn_malloc \<Rightarrow> (nat \<Rightarrow> bignum option) \<Rightarrow> bignum \<Rightarrow> bignum \<Rightarrow> bignum \<Rightarrow> bignum \<Rightarrow> bool \<times> bignum" where
  "bn_mod_sub_consttime = mod_op_consttime bn_mod_sub_words"

definition bn_mod_lshift1_consttime :: "bn_malloc \<Rightarrow> (nat \<Rightarrow> bignum option) \<Rightarrow> bignum \<Rightarrow> bignum \<Rightarrow> bignum \<Rightarrow> bool \<times> bignum" where
  "bn_mod_lshift1_consttime m get r a md = bn_mod_add_consttime m get r a a md"

text \<open>\<open>gets i\<close> is what the scope of the \<open>i\<close>-th doubling gets.\<close>

primrec mod_lshift_loop :: "bn_malloc \<Rightarrow> (nat \<Rightarrow> nat \<Rightarrow> bignum option) \<Rightarrow> bignum \<Rightarrow> nat \<Rightarrow> nat \<Rightarrow> bignum \<Rightarrow> bool \<times> bignum" where
  "mod_lshift_loop m gets md i 0 r = (True, r)"
| "mod_lshift_loop m gets md i (Suc n) r =
     and_also (bn_mod_lshift1_consttime m (gets i) r r md) (mod_lshift_loop m gets md (Suc i) n)"

definition bn_mod_lshift_consttime :: "bn_malloc \<Rightarrow> (nat \<Rightarrow> nat \<Rightarrow> bignum option) \<Rightarrow> bignum \<Rightarrow> bignum \<Rightarrow> int \<Rightarrow> bignum \<Rightarrow> bool \<times> bignum" where
  "bn_mod_lshift_consttime m gets r a n md = and_also (BN_copy m r a) (mod_lshift_loop m gets md 0 (nat n))"

definition mask_top_word :: "limbs \<Rightarrow> nat \<Rightarrow> nat \<Rightarrow> limbs" where
  "mask_top_word d num_words e = (if e \<noteq> 0 then d[num_words - 1 := d ! (num_words - 1) AND (push_bit e 1 - 1)] else d)"

definition BN_mod_pow2 :: "bn_malloc \<Rightarrow> bignum \<Rightarrow> bignum \<Rightarrow> nat \<Rightarrow> bool \<times> bignum" where
  "BN_mod_pow2 m r a e =
     (if e = 0 \<or> bn_width a = 0 then (True, BN_zero r)
      else
        let num_words = 1 + (e - 1) div 64
        in if bn_width a < num_words then BN_copy m r a
           else and_also (bn_wexpand m r num_words) (\<lambda>r.
                  let d = mask_top_word (set_words (bn_d r) 0 (take num_words (bn_d a))) num_words (e mod 64)
                  in (True, bn_set_minimal_width (r\<lparr>bn_d := d, bn_neg := bn_neg a, bn_width := num_words\<rparr>))))"

definition BN_value_one :: bignum where
  "BN_value_one = \<lparr>bn_d = [1], bn_width = 1, bn_neg = False, bn_static = True\<rparr>"

definition BN_nnmod_pow2 :: "bn_malloc \<Rightarrow> bignum \<Rightarrow> bignum \<Rightarrow> nat \<Rightarrow> bool \<times> bignum" where
  "BN_nnmod_pow2 m r a e =
     and_also (BN_mod_pow2 m r a e) (\<lambda>r.
       if BN_is_zero r \<or> \<not> bn_neg r then (True, r)
       else
         let num_words = 1 + (e - 1) div 64
         in and_also (bn_wexpand m r num_words) (\<lambda>r.
              let d = set_words (bn_d r) (bn_width r) (replicate (num_words - bn_width r) 0);
                  d = mask_top_word (set_words d 0 (map (\<lambda>w. NOT w) (take num_words d))) num_words (e mod 64);
                  r = bn_set_minimal_width (r\<lparr>bn_d := d, bn_neg := False, bn_width := num_words\<rparr>)
              in BN_add m r r BN_value_one))"

section \<open>Modulo a number\<close>

lemma take_fits:
  assumes "bn_fits_in_words bn n" "n \<le> bn_width bn"
  shows "wval (take n (bn_d bn)) = bn_abs bn"
proof -
  have "wval (take n (bn_words bn)) = bn_abs bn" using assms(1) by (simp add: wval_take bn_fits_in_words_iff flip: bn_abs_def)
  then show ?thesis using assms(2) by (simp add: bn_words_def)
qed

lemma bn_resize_words_facts:
  assumes "bn_resize_words m bn n = (ok, r')" "gives_words m" "bn_ok bn"
  shows "bn_ok r'" "ok \<Longrightarrow> bn_width r' = n \<and> bn_abs r' = bn_abs bn \<and> bn_neg r' = bn_neg bn"
proof -
  have "bn_ok r' \<and> (ok \<longrightarrow> bn_width r' = n \<and> bn_abs r' = bn_abs bn \<and> bn_neg r' = bn_neg bn)"
  proof (cases "bn_width bn \<le> n")
    case True
    obtain ok1 r1 where 1: "bn_wexpand m bn n = (ok1, r1)" by force
    note x = bn_wexpand_facts [OF 1 assms(2,3)]
    show ?thesis
    proof (cases ok1)
      case ok1: True
      let ?d = "set_words (bn_d r1) (bn_width bn) (replicate (n - bn_width bn) 0)"
      have t: "take n ?d = bn_words r1 @ replicate (n - bn_width bn) 0"
        using take_set_words [of n "bn_width bn" "replicate (n - bn_width bn) 0" "bn_d r1"] True x(3,5) ok1 by (simp add: bn_words_def)
      have "(ok, r') = (True, r1\<lparr>bn_d := ?d, bn_width := n\<rparr>)"
        using assms(1) True ok1 1 by (simp add: bn_resize_words_def x(3))
      moreover have "length ?d = dmax r1" using True x(5) ok1 by simp
      ultimately show ?thesis using t x ok1 by (simp add: bn_ok_def bn_abs_def bn_words_def [of "_\<lparr>bn_d := _, bn_width := _\<rparr>"] wval_append)
    next
      case False
      then show ?thesis using assms(1) True 1 x(1) by (simp add: bn_resize_words_def)
    qed
  next
    case False
    then show ?thesis using assms(1,3) take_fits [of bn n]
      by (auto simp: bn_resize_words_def bn_ok_def bn_abs_def [of "_\<lparr>bn_width := _\<rparr>"] bn_words_def [of "_\<lparr>bn_width := _\<rparr>"] split: if_splits)
  qed
  then show "bn_ok r'" "ok \<Longrightarrow> bn_width r' = n \<and> bn_abs r' = bn_abs bn \<and> bn_neg r' = bn_neg bn" by blast+
qed

lemma bn_scratch_space_facts:
  assumes "bn_scratch_space_from_ctx m new width = Some bn" "gives_words m" "\<forall>b. new = Some b \<longrightarrow> bn_ok b"
  shows "bn_ok bn"
proof -
  obtain b b' where b: "new = Some b" "bn_wexpand m b width = (True, b')" "bn = b'\<lparr>bn_neg := False, bn_width := width\<rparr>"
    using assms(1) by (auto simp: bn_scratch_space_from_ctx_def split: option.splits prod.splits if_splits)
  note x = bn_wexpand_facts [OF b(2) assms(2) assms(3) [rule_format, OF b(1)]]
  show ?thesis using x b(3) by (simp add: bn_ok_def)
qed

lemma bn_resized_facts:
  assumes "bn_resized_from_ctx m new bn width = Some r" "gives_words m" "\<forall>b. new = Some b \<longrightarrow> bn_ok b" "bn_ok bn"
    and "bn_fits_in_words bn width"
  shows "length (take width (bn_d r)) = width" "wval (take width (bn_d r)) = bn_abs bn"
proof -
  have "length (take width (bn_d r)) = width \<and> wval (take width (bn_d r)) = bn_abs bn"
  proof (cases "bn_width bn \<ge> width")
    case True
    then show ?thesis using assms(1,4,5) take_fits [of bn width] by (simp add: bn_resized_from_ctx_def bn_ok_def)
  next
    case False
    then obtain s where s: "bn_scratch_space_from_ctx m new width = Some s"
      using assms(1) by (auto simp: bn_resized_from_ctx_def split: option.splits)
    obtain ok1 c where c: "BN_copy m s bn = (ok1, c)" by force
    obtain ok2 e where e: "bn_resize_words m c width = (ok2, e)" by force
    have ok: "ok1" "ok2" "r = e" using assms(1) False by (auto simp: bn_resized_from_ctx_def s c e and_also_def split: if_splits)
    note f = BN_copy_facts [OF c assms(2) bn_scratch_space_facts [OF s assms(2,3)] assms(4)]
    note g = bn_resize_words_facts [OF e assms(2) f(1)]
    have "bn_abs c = bn_abs bn" using f(2) [OF ok(1)] by (simp add: bn_abs_def)
    then show ?thesis using g(1) g(2) [OF ok(2)] ok(3) by (auto simp: bn_ok_def bn_abs_def bn_words_def)
  qed
  then show "length (take width (bn_d r)) = width" "wval (take width (bn_d r)) = bn_abs bn" by blast+
qed

text \<open>Both operations, for operands below the modulus.\<close>

lemma mod_op_facts:
  assumes e: "mod_op_consttime op m get r a b md = (ok, r')" and "gives_words m" "ctx_ok get"
    and ok: "bn_ok r" "bn_ok a" "bn_ok b" "bn_ok md" and less: "bn_abs a < bn_abs md" "bn_abs b < bn_abs md"
    and op: "\<And>x y z. length x = length z \<Longrightarrow> length y = length z \<Longrightarrow> wval x < wval z \<Longrightarrow> wval y < wval z \<Longrightarrow>
      length (op x y z) = length z \<and> wval (op x y z) = f (wval x) (wval y) (wval z)"
  shows "bn_ok r' \<and> (ok \<longrightarrow> bn_abs r' = f (bn_abs a) (bn_abs b) (bn_abs md) \<and> bn_width r' = bn_width md \<and> \<not> bn_neg r')"
proof -
  let ?w = "bn_width md"
  have lm: "length (bn_words md) = ?w" using ok(4) by (rule length_bn_words)
  have top: "bn_abs md < 2 ^ (64 * ?w)" using wval_less [of "bn_words md"] by (simp add: lm bn_abs_def)
  have fits: "bn_fits_in_words a ?w" "bn_fits_in_words b ?w" using less top by (simp_all add: bn_fits_in_words_iff)
  have g: "\<forall>x. get i = Some x \<longrightarrow> bn_ok x" for i using assms(3) by (simp add: ctx_ok_def)
  define A where "A = bn_resized_from_ctx m (get 0) a ?w"
  define B where "B = bn_resized_from_ctx m (get (resize_gets a ?w)) b ?w"
  define T where "T = bn_scratch_space_from_ctx m (get (resize_gets a ?w + resize_gets b ?w)) ?w"
  note e' = e [unfolded mod_op_consttime_def Let_def, folded A_def B_def T_def]
  show ?thesis
  proof (cases "A = None \<or> B = None \<or> T = None")
    case True
    then have "r' = r \<and> \<not> ok" using e' by (auto split: option.splits)
    then show ?thesis using ok(1) by simp
  next
    case False
    then obtain a' b' t where s: "A = Some a'" "B = Some b'" "T = Some t" by auto
    note fa = bn_resized_facts [OF s(1) [unfolded A_def] assms(2) g ok(2) fits(1)]
      and fb = bn_resized_facts [OF s(2) [unfolded B_def] assms(2) g ok(3) fits(2)]
    let ?ws = "op (take ?w (bn_d a')) (take ?w (bn_d b')) (bn_words md)"
    have ws: "length ?ws = ?w \<and> wval ?ws = f (bn_abs a) (bn_abs b) (bn_abs md)"
      using op [of "take ?w (bn_d a')" "bn_words md" "take ?w (bn_d b')"] fa fb less lm by (simp add: bn_abs_def [of md])
    obtain ok1 r1 where 1: "bn_wexpand m r ?w = (ok1, r1)" by force
    note x = bn_wexpand_facts [OF 1 assms(2) ok(1)]
    show ?thesis
    proof (cases ok1)
      case True
      then have "length ?ws \<le> dmax r1" using x(5) ws by simp
      note st = bn_stored [OF x(1) this]
      show ?thesis using e' s 1 True st ws by (auto simp: bn_ok_def bn_abs_def bn_words_def)
    next
      case False
      then show ?thesis using e' s 1 x(1) by auto
    qed
  qed
qed

lemma bn_mod_add_consttime_exact:
  assumes "bn_mod_add_consttime m get r a b md = (ok, r')" "gives_words m" "ctx_ok get"
    and "bn_ok r" "bn_ok a" "bn_ok b" "bn_ok md" "bn_abs a < bn_abs md" "bn_abs b < bn_abs md"
  shows "bn_ok r' \<and> (ok \<longrightarrow> bn_abs r' = (bn_abs a + bn_abs b) mod bn_abs md \<and> bn_width r' = bn_width md \<and> \<not> bn_neg r')"
  using mod_op_facts [OF assms(1) [unfolded bn_mod_add_consttime_def] assms(2-), where f = "\<lambda>x y z. (x + y) mod z"]
    bn_mod_add_words_value by simp

lemma bn_mod_sub_consttime_exact:
  assumes "bn_mod_sub_consttime m get r a b md = (ok, r')" "gives_words m" "ctx_ok get"
    and "bn_ok r" "bn_ok a" "bn_ok b" "bn_ok md" "bn_abs a < bn_abs md" "bn_abs b < bn_abs md"
  shows "bn_ok r' \<and> (ok \<longrightarrow> bn_int r' = (int (bn_abs a) - int (bn_abs b)) mod int (bn_abs md) \<and> bn_width r' = bn_width md)"
proof -
  have "wval (bn_mod_sub_words x y z) = nat ((int (wval x) - int (wval y)) mod int (wval z))"
    if "length x = length z" "length y = length z" "wval x < wval z" "wval y < wval z" for x y z
    using bn_mod_sub_words_value(2) [OF that] by (metis nat_int)
  then have "bn_ok r' \<and> (ok \<longrightarrow> bn_abs r' = nat ((int (bn_abs a) - int (bn_abs b)) mod int (bn_abs md)) \<and> bn_width r' = bn_width md \<and> \<not> bn_neg r')"
    using mod_op_facts [OF assms(1) [unfolded bn_mod_sub_consttime_def] assms(2-), where f = "\<lambda>x y z. nat ((int x - int y) mod int z)"]
      bn_mod_sub_words_value(1) by simp
  then show ?thesis using assms(8) by (auto simp: bn_int_def)
qed

lemma mod_lshift_loop_facts:
  assumes "mod_lshift_loop m gets md i n r = (ok, r')" "gives_words m" "\<forall>i. ctx_ok (gets i)"
    and "bn_ok r" "bn_ok md" "bn_abs r < bn_abs md" "\<not> bn_neg r"
  shows "bn_ok r' \<and> (ok \<longrightarrow> bn_abs r' = bn_abs r * 2 ^ n mod bn_abs md \<and> \<not> bn_neg r')"
  using assms(1,4,6,7)
proof (induction n arbitrary: i r)
  case 0
  then show ?case by simp
next
  case (Suc n)
  obtain ok1 r1 where 1: "bn_mod_lshift1_consttime m (gets i) r r md = (ok1, r1)" by force
  note f = bn_mod_add_consttime_exact [OF 1 [unfolded bn_mod_lshift1_consttime_def] assms(2) assms(3) [rule_format] Suc.prems(2,2,2) assms(5) Suc.prems(3,3)]
  show ?case
  proof (cases ok1)
    case True
    then have e: "mod_lshift_loop m gets md (Suc i) n r1 = (ok, r')" using Suc.prems(1) 1 by (simp add: and_also_def)
    have r1: "bn_abs r1 = (bn_abs r + bn_abs r) mod bn_abs md" using f True by simp
    then have "bn_abs r1 < bn_abs md" using Suc.prems(3) by (simp add: mod_less_divisor)
    from Suc.IH [OF e _ this] f True have "bn_ok r' \<and> (ok \<longrightarrow> bn_abs r' = bn_abs r1 * 2 ^ n mod bn_abs md \<and> \<not> bn_neg r')" by simp
    moreover have "bn_abs r1 * 2 ^ n mod bn_abs md = bn_abs r * 2 ^ Suc n mod bn_abs md"
      unfolding r1 mod_mult_left_eq by (simp add: mult_2 [symmetric] ac_simps)
    ultimately show ?thesis by simp
  next
    case False
    then show ?thesis using Suc.prems(1) 1 f by (simp add: and_also_def)
  qed
qed

lemma bn_mod_lshift_consttime_exact:
  assumes "bn_mod_lshift_consttime m gets r a n md = (ok, r')" "gives_words m" "\<forall>i. ctx_ok (gets i)"
    and "bn_ok r" "bn_ok a" "bn_ok md" "bn_abs a < bn_abs md" "\<not> bn_neg a"
  shows "bn_ok r' \<and> (ok \<longrightarrow> bn_abs r' = bn_abs a * 2 ^ nat n mod bn_abs md \<and> \<not> bn_neg r')"
proof -
  obtain ok1 r1 where 1: "BN_copy m r a = (ok1, r1)" by force
  note f = BN_copy_facts [OF 1 assms(2,4,5)]
  show ?thesis
  proof (cases ok1)
    case True
    have abs: "bn_abs r1 = bn_abs a" using f(2) [OF True] by (simp add: bn_abs_def)
    have "mod_lshift_loop m gets md 0 (nat n) r1 = (ok, r')"
      using assms(1) 1 True by (simp add: bn_mod_lshift_consttime_def and_also_def)
    from mod_lshift_loop_facts [OF this assms(2,3) f(1) assms(6)] show ?thesis using f(2) [OF True] abs assms(7,8) by simp
  next
    case False
    then show ?thesis using assms(1) 1 f(1) by (simp add: bn_mod_lshift_consttime_def and_also_def)
  qed
qed

section \<open>Modulo a power of two\<close>

lemma length_mask_top_word [simp]: "length (mask_top_word d k e) = length d"
  by (simp add: mask_top_word_def)

lemma mask_top_word_value:
  assumes "num_words = 1 + (e - 1) div 64" "0 < e" "num_words \<le> length d"
  shows "wval (take num_words (mask_top_word d num_words (e mod 64))) = wval (take num_words d) mod 2 ^ e"
proof -
  let ?k = "num_words - 1"
  have k: "?k < length d" "take num_words d = take ?k d @ [d ! ?k]"
    using assms(1,3) by (simp_all add: take_Suc_conv_app_nth [symmetric])
  define q t where "q = e div 64" and "t = e mod 64"
  have e: "e = 64 * q + t" "t < 64" by (simp_all add: q_def t_def)
  show ?thesis
  proof (cases "t = 0")
    case True
    then obtain p where p: "q = Suc p" using assms(2) e(1) by (cases q) simp_all
    then have "(e - 1) div 64 = p" using e(1) True by simp
    then have "64 * num_words = e" using assms(1) e(1) True p by simp
    then have "wval (take num_words d) < 2 ^ e" using wval_take_less [OF assms(3)] by simp
    then show ?thesis using True by (simp add: mask_top_word_def t_def [symmetric])
  next
    case False
    then have "e - 1 = 64 * q + (t - 1)" using e(1) by simp
    then have "(e - 1) div 64 = q" using e(2) by (simp add: div_add1_eq)
    then have n: "num_words = Suc q" using assms(1) by simp
    let ?w = "d ! q"
    have "push_bit t 1 - 1 = (mask t :: u64)" by (simp add: mask_eq_exp_minus_1)
    then have "take num_words (mask_top_word d num_words t) = take q d @ [?w AND mask t]"
      using False n k(1) by (simp add: mask_top_word_def take_Suc_conv_app_nth take_update_swap list_update_append)
    moreover have "unat (?w AND mask t) = unat ?w mod 2 ^ t"
      unfolding take_bit_eq_mask [symmetric] unsigned_take_bit_eq by (rule take_bit_eq_mod)
    moreover have "wval (take num_words d) = wval (take q d) + 2 ^ (64 * q) * unat ?w" using k n by (simp add: wval_append)
    moreover have "wval (take q d) < 2 ^ (64 * q)" by (rule wval_take_less) (use k n in simp)
    ultimately show ?thesis using k n unfolding t_def [symmetric] unfolding e(1) power_add mod_mult2_eq by (simp add: wval_append)
  qed
qed

lemma BN_mod_pow2_exact:
  assumes "BN_mod_pow2 m r a e = (ok, r')" "gives_words m" "bn_ok r" "bn_ok a"
  shows "bn_ok r' \<and> (ok \<longrightarrow> bn_abs r' = bn_abs a mod 2 ^ e \<and> (bn_abs r' \<noteq> 0 \<longrightarrow> bn_neg r' = bn_neg a) \<and>
    (no_neg_zero a \<longrightarrow> no_neg_zero r') \<and> bn_width r' \<le> 1 + (e - 1) div 64)"
proof -
  define n where "n = 1 + (e - 1) div 64"
  have la: "length (bn_words a) = bn_width a" using assms(4) by (rule length_bn_words)
  have le: "e \<le> 64 * n" by (simp add: n_def)
  consider (zero) "e = 0 \<or> bn_width a = 0" | (copy) "0 < e" "0 < bn_width a" "bn_width a < n" | (cut) "0 < e" "0 < bn_width a" "n \<le> bn_width a"
    by linarith
  then have "bn_ok r' \<and> (ok \<longrightarrow> bn_abs r' = bn_abs a mod 2 ^ e \<and> (bn_abs r' \<noteq> 0 \<longrightarrow> bn_neg r' = bn_neg a) \<and>
    (no_neg_zero a \<longrightarrow> no_neg_zero r') \<and> bn_width r' \<le> n)" (is ?goal)
  proof cases
    case zero
    moreover have "bn_abs (BN_zero r) = 0" "\<not> bn_neg (BN_zero r)" "bn_ok (BN_zero r)" "bn_width (BN_zero r) = 0"
      using assms(3) by (simp_all add: BN_zero_def bn_abs_def bn_words_def bn_ok_def)
    moreover have "bn_abs a mod 2 ^ e = 0" using zero by (auto simp: bn_abs_def bn_words_def)
    ultimately show ?goal using assms(1) by (auto simp: BN_mod_pow2_def no_neg_zero_def)
  next
    case copy
    have "64 * bn_width a < e"
    proof -
      have "bn_width a \<le> (e - 1) div 64" using copy(3) by (simp add: n_def)
      then have "64 * bn_width a \<le> e - 1" by (simp add: less_eq_div_iff_mult_less_eq mult.commute)
      then show ?thesis using copy(1) by simp
    qed
    then have "(2 :: nat) ^ (64 * bn_width a) \<le> 2 ^ e" by (intro power_increasing) simp_all
    then have "bn_abs a < 2 ^ e" using wval_less [of "bn_words a"] unfolding la bn_abs_def by linarith
    moreover have "BN_copy m r a = (ok, r')" using assms(1) copy by (simp add: BN_mod_pow2_def n_def)
    from BN_copy_facts [OF this assms(2-4)] have "bn_ok r' \<and> (ok \<longrightarrow> bn_abs r' = bn_abs a \<and> bn_neg r' = bn_neg a \<and> bn_width r' = bn_width a)"
      by (auto simp: bn_abs_def)
    ultimately show ?goal using copy(3) by (auto simp: no_neg_zero_def)
  next
    case cut
    obtain ok1 r1 where 1: "bn_wexpand m r n = (ok1, r1)" by force
    note x = bn_wexpand_facts [OF 1 assms(2,3)]
    have c: "\<not> (e = 0 \<or> bn_width a = 0)" "\<not> bn_width a < n" using cut by simp_all
    let ?ws = "take n (bn_d a)" and ?raw = "set_words (bn_d r1) 0 (take n (bn_d a))"
    let ?d = "mask_top_word ?raw n (e mod 64)"
    have e: "(ok, r') = (if ok1 then (True, bn_set_minimal_width (r1\<lparr>bn_d := ?d, bn_neg := bn_neg a, bn_width := n\<rparr>)) else (False, r1))"
      using assms(1) unfolding BN_mod_pow2_def if_not_P [OF c(1)] Let_def n_def [symmetric] if_not_P [OF c(2)] 1 by (simp add: and_also_def split: if_splits)
    show ?goal
    proof (cases ok1)
      case True
      have lw: "length ?ws = n" using cut(3) assms(4) by (simp add: bn_ok_def)
      have l: "length ?raw = dmax r1" "n \<le> length ?raw" using x(5) True lw by simp_all
      have t: "take n ?raw = ?ws" using take_set_words_0 [of ?ws "bn_d r1"] x(5) True unfolding lw by simp
      have "?ws = take n (bn_words a)" using cut(3) by (simp add: bn_words_def)
      then have "wval ?ws mod 2 ^ e = bn_abs a mod 2 ^ e"
        unfolding bn_abs_def using le by (simp only: wval_take mod_mod_cancel le_imp_power_dvd)
      then have v: "wval (take n ?d) = bn_abs a mod 2 ^ e"
        using mask_top_word_value [OF n_def cut(1) l(2)] unfolding t by simp
      have ld: "length ?d = dmax r1" "n \<le> length ?d" using l by simp_all
      let ?s = "r1\<lparr>bn_d := ?d, bn_neg := bn_neg a, bn_width := n\<rparr>"
      have r': "r' = bn_set_minimal_width ?s" "ok" using e True by simp_all
      have s: "bn_ok ?s" "bn_abs ?s = bn_abs a mod 2 ^ e" using x(1) l v by (simp_all add: bn_ok_def bn_abs_def bn_words_def)
      note f = bn_set_minimal_width_facts [OF s(1), folded r'(1)]
      have "bn_width r' \<le> n" using minimal_width_value [of n ?d] ld f(7) by simp
      then show ?goal using f s by (auto simp: no_neg_zero_def)
    next
      case False
      then show ?goal using e x(1) by simp
    qed
  qed
  then show ?thesis unfolding n_def .
qed

text \<open>The complement of all words.\<close>

lemma wval_not: "wval (map (\<lambda>w. NOT w) ws) + wval ws + 1 = 2 ^ (64 * length ws)"
proof (induction ws)
  case (Cons w ws)
  have "unat (NOT w) + unat w + 1 = 2 ^ 64"
  proof -
    have "NOT w = - 1 - w" by (simp add: not_eq_complement)
    moreover have "w \<le> - 1" by simp
    ultimately have "unat (NOT w) = unat (- 1 :: u64) - unat w" by (simp only: unat_sub)
    then show ?thesis using unat_less_pow(3) [of w] by (simp add: unsigned_minus_1_eq_mask mask_eq_exp_minus_1)
  qed
  then show ?case using Cons.IH pow64_Suc [of "length ws", where 'a = nat] by simp
qed simp

lemma complement_mod:
  fixes x y c p :: nat
  assumes "y + x + 1 = p * c" "x < p"
  shows "y mod p = p - 1 - x"
proof -
  obtain d where "c = Suc d" using assms by (cases c) auto
  then have y: "y = (p - 1 - x) + p * d" using assms by simp
  have "p - 1 - x < p" using assms(2) by simp
  then show ?thesis unfolding y by (simp only: mod_mult_self2 mod_less)
qed

lemma BN_nnmod_pow2_exact:
  assumes "BN_nnmod_pow2 m r a e = (ok, r')" "gives_words m" "bn_ok r" "bn_ok a"
  shows "bn_ok r' \<and> (ok \<longrightarrow> bn_int r' = bn_int a mod 2 ^ e)"
proof -
  define n where "n = 1 + (e - 1) div 64"
  obtain ok1 r1 where 1: "BN_mod_pow2 m r a e = (ok1, r1)" by force
  note f = BN_mod_pow2_exact [OF 1 assms(2-4), folded n_def]
  have trunc: "bn_int a mod 2 ^ e = (if bn_neg a \<and> bn_abs a mod 2 ^ e \<noteq> 0 then 2 ^ e - int (bn_abs a mod 2 ^ e) else int (bn_abs a mod 2 ^ e))"
    using zmod_int [of "bn_abs a" "2 ^ e"] by (auto simp: bn_int_def zmod_zminus1_eq_if)
  show ?thesis
  proof (cases "ok1 \<and> \<not> (BN_is_zero r1 \<or> \<not> bn_neg r1)")
    case False
    then have "r' = r1 \<and> ok = ok1" using assms(1) 1 by (auto simp: BN_nnmod_pow2_def and_also_def split: if_splits)
    then show ?thesis using f trunc False by (auto simp: BN_is_zero_iff bn_int_def)
  next
    case True
    then have nz: "bn_abs r1 \<noteq> 0" "bn_neg a" "ok1" using f by (auto simp: BN_is_zero_iff)
    obtain ok2 r2 where 2: "bn_wexpand m r1 n = (ok2, r2)" by force
    note x = bn_wexpand_facts [OF 2 assms(2) f [THEN conjunct1]]
    let ?d = "set_words (bn_d r2) (bn_width r2) (replicate (n - bn_width r2) 0)"
    let ?nd = "set_words ?d 0 (map (\<lambda>w. NOT w) (take n ?d))"
    let ?md = "mask_top_word ?nd n (e mod 64)"
    define s where "s = bn_set_minimal_width (r2\<lparr>bn_d := ?md, bn_neg := False, bn_width := n\<rparr>)"
    have e: "(ok, r') = (if ok2 then BN_add m s s BN_value_one else (False, r2))"
      using assms(1) True 2 unfolding BN_nnmod_pow2_def 1 Let_def n_def [symmetric] s_def by (simp add: and_also_def split: if_splits)
    show ?thesis
    proof (cases ok2)
      case ok2: True
      have w: "bn_width r2 \<le> n" "n \<le> dmax r2" using f x(3,5) ok2 nz by auto
      have ld: "length ?d = dmax r2" using w by simp
      have "take n ?d = bn_words r2 @ replicate (n - bn_width r2) 0"
        using take_set_words [of n "bn_width r2" "replicate (n - bn_width r2) 0" "bn_d r2"] w by (simp add: bn_words_def)
      then have wd: "wval (take n ?d) = bn_abs r1" using x(2) by (simp add: wval_append bn_abs_def)
      have lt: "length (take n ?d) = n" using ld w by simp
      have lnd: "length ?nd = dmax r2" "n \<le> length ?nd" using ld lt w by simp_all
      have "take n ?nd = map (\<lambda>w. NOT w) (take n ?d)"
        using take_set_words_0 [of "map (\<lambda>w. NOT w) (take n ?d)" ?d] ld w unfolding length_map lt by simp
      then have nd: "wval (take n ?nd) + bn_abs r1 + 1 = 2 ^ (64 * n)"
        using wval_not [of "take n ?d"] unfolding wd lt by simp
      have le: "e \<le> 64 * n" by (simp add: n_def)
      have e0: "0 < e" using f nz by (cases e) auto
      have x_less: "bn_abs r1 < 2 ^ e" using f nz by simp
      have "wval (take n ?md) = wval (take n ?nd) mod 2 ^ e" by (rule mask_top_word_value [OF n_def e0 lnd(2)])
      also have "\<dots> = 2 ^ e - 1 - bn_abs r1"
      proof (rule complement_mod [OF _ x_less])
        show "wval (take n ?nd) + bn_abs r1 + 1 = 2 ^ e * 2 ^ (64 * n - e)" using nd le by (simp flip: power_add)
      qed
      finally have v: "wval (take n ?md) = 2 ^ e - 1 - bn_abs r1" .
      have l: "length ?md = dmax r2" "n \<le> length ?md" using lnd by simp_all
      note q = bn_result [OF x(1) s_def _ _ _ l, of False, simplified, unfolded v]
      have "bn_ok BN_value_one" "bn_int BN_value_one = 1" by (simp_all add: BN_value_one_def bn_ok_def bn_int_def bn_abs_def bn_words_def)
      moreover have "BN_add m s s BN_value_one = (ok, r')" using e ok2 by simp
      ultimately have "bn_ok r' \<and> (ok \<longrightarrow> bn_int r' = int (2 ^ e - 1 - bn_abs r1) + 1)"
        using BN_add_exact [of m s s BN_value_one ok r'] assms(2) q by simp
      moreover have "int (2 ^ e - 1 - bn_abs r1) + 1 = 2 ^ e - int (bn_abs r1)" using x_less by (simp add: of_nat_diff)
      ultimately show ?thesis using f nz trunc by simp
    next
      case False
      then show ?thesis using e x(1) by simp
    qed
  qed
qed

end
