(* ===== verification/Bn_Montgomery.thy ===== *)
theory Bn_Montgomery
  imports Bn_Square Bn_Mod_Ops
begin

text \<open>
  Montgomery arithmetic (\<open>crypto/fipsmodule/bn/montgomery.c\<close>, \<open>montgomery_inv.c\<close>) without the assembler: the
  constant of a modulus, its context, the reduction and the product. \<open>R\<close> is the power of 2^64 with as many
  words as the modulus.
\<close>

section \<open>The constant of the modulus\<close>

definition neg_inv_step :: "u64 \<Rightarrow> u64 \<times> u64 \<Rightarrow> u64 \<times> u64" where
  "neg_inv_step beta uv =
     (let (u, v) = uv; alpha = push_bit 63 1; u_is_odd = 0 - (u AND 1);
          beta_if_u_is_odd = beta AND u_is_odd;
          u = drop_bit 1 (u XOR beta_if_u_is_odd) + (u AND beta_if_u_is_odd);
          alpha_if_u_is_odd = alpha AND u_is_odd;
          v = drop_bit 1 v + alpha_if_u_is_odd
      in (u, v))"

definition bn_neg_inv_mod_r_u64 :: "u64 \<Rightarrow> u64" where
  "bn_neg_inv_mod_r_u64 n = snd ((neg_inv_step n ^^ 64) (1, 0))"

definition bn_mont_n0 :: "bignum \<Rightarrow> u64" where
  "bn_mont_n0 n = bn_neg_inv_mod_r_u64 (bn_d n ! 0)"

section \<open>The context\<close>

record bn_mont_ctx =
  mont_RR :: bignum
  mont_N :: bignum
  mont_n0 :: u64

definition BN_MONT_CTX_new :: "bool \<Rightarrow> bn_mont_ctx option" where
  "BN_MONT_CTX_new allocated = (if allocated then Some \<lparr>mont_RR = BN_init, mont_N = BN_init, mont_n0 = 0\<rparr> else None)"

definition BN_MONT_CTX_copy :: "bn_malloc \<Rightarrow> bn_mont_ctx \<Rightarrow> bn_mont_ctx \<Rightarrow> bn_mont_ctx option" where
  "BN_MONT_CTX_copy m to src =
     (let (ok, rr) = BN_copy m (mont_RR to) (mont_RR src); (ok', n) = BN_copy m (mont_N to) (mont_N src)
      in if ok \<and> ok' then Some (to\<lparr>mont_RR := rr, mont_N := n, mont_n0 := mont_n0 src\<rparr>) else None)"

definition bn_mont_ctx_set_N_and_n0 :: "bn_malloc \<Rightarrow> bn_mont_ctx \<Rightarrow> bignum \<Rightarrow> bn_mont_ctx option" where
  "bn_mont_ctx_set_N_and_n0 m mont md =
     (if BN_is_zero md then None
      else if \<not> BN_is_odd md then None
      else if bn_neg md then None
      else
        let (ok, n) = BN_copy m (mont_N mont) md
        in if \<not> ok then None
           else let n = bn_set_minimal_width n in Some (mont\<lparr>mont_N := n, mont_n0 := bn_mont_n0 n\<rparr>))"

definition bn_mod_exp_base_2_consttime :: "bn_malloc \<Rightarrow> (nat \<Rightarrow> nat \<Rightarrow> bignum option) \<Rightarrow> bignum \<Rightarrow> nat \<Rightarrow> bignum \<Rightarrow> bool \<times> bignum" where
  "bn_mod_exp_base_2_consttime m gets r p n =
     (let r = BN_zero r; n_bits = BN_num_bits n
      in if n_bits = 1 then (True, r)
         else and_also (BN_set_bit m r (int n_bits - 1)) (\<lambda>r.
                bn_mod_lshift_consttime m gets r r (int p - (int n_bits - 1)) n))"

definition BN_MONT_CTX_new_consttime :: "bn_malloc \<Rightarrow> (nat \<Rightarrow> nat \<Rightarrow> bignum option) \<Rightarrow> bool \<Rightarrow> bignum \<Rightarrow> bn_mont_ctx option" where
  "BN_MONT_CTX_new_consttime m gets allocated md =
     (case BN_MONT_CTX_new allocated of
        None \<Rightarrow> None
      | Some mont \<Rightarrow>
          case bn_mont_ctx_set_N_and_n0 m mont md of
            None \<Rightarrow> None
          | Some mont \<Rightarrow>
              let lgBigR = bn_width (mont_N mont) * 64;
                  (ok, rr) = and_also (bn_mod_exp_base_2_consttime m gets (mont_RR mont) (lgBigR * 2) (mont_N mont))
                    (\<lambda>rr. bn_resize_words m rr (bn_width (mont_N mont)))
              in if ok then Some (mont\<lparr>mont_RR := rr\<rparr>) else None)"

section \<open>The reduction and the product\<close>

text \<open>One word of \<open>a\<close> becomes 0; the carry belongs to the word behind those that were changed.\<close>

definition mont_step :: "limbs \<Rightarrow> u64 \<Rightarrow> nat \<Rightarrow> limbs \<times> u64 \<Rightarrow> limbs \<times> u64" where
  "mont_step n n0 i st =
     (let (a, carry) = st; num_n = length n;
          (ws, v) = bn_mul_add_words (take num_n (drop i a)) n (a ! i * n0); a = set_words a i ws;
          v = v + (carry + a ! (i + num_n));
          carry = carry OR (if v \<noteq> a ! (i + num_n) then 1 else 0);
          carry = carry AND (if v \<le> a ! (i + num_n) then 1 else 0)
      in (a[i + num_n := v], carry))"

definition bn_from_montgomery_in_place :: "nat \<Rightarrow> limbs \<Rightarrow> bn_mont_ctx \<Rightarrow> limbs option" where
  "bn_from_montgomery_in_place num_r a mont =
     (let n = bn_words (mont_N mont); num_n = bn_width (mont_N mont)
      in if num_r \<noteq> num_n \<or> length a \<noteq> 2 * num_n then None
         else
           let (a, carry) = fold (mont_step n (mont_n0 mont)) [0..<num_n] (a, 0)
           in Some (fst (bn_reduce_once (drop num_n a) carry n)))"

definition BN_from_montgomery_word :: "bn_malloc \<Rightarrow> bignum \<Rightarrow> bignum \<Rightarrow> bn_mont_ctx \<Rightarrow> bool \<times> bignum" where
  "BN_from_montgomery_word m ret r mont =
     (if bn_neg r then (False, ret)
      else
        let n = mont_N mont
        in if bn_width n = 0 then (True, ret\<lparr>bn_width := 0\<rparr>)
           else
             case bn_resize_words m r (2 * bn_width n) of
               (False, _) \<Rightarrow> (False, ret)
             | (True, r) \<Rightarrow>
                 and_also (bn_wexpand m ret (bn_width n)) (\<lambda>ret.
                   let ret = ret\<lparr>bn_width := bn_width n, bn_neg := False\<rparr>
                   in case bn_from_montgomery_in_place (bn_width ret) (bn_words r) mont of
                        None \<Rightarrow> (False, ret)
                      | Some ws \<Rightarrow> (True, ret\<lparr>bn_d := set_words (bn_d ret) 0 ws\<rparr>)))"

definition BN_from_montgomery :: "bn_malloc \<Rightarrow> (nat \<Rightarrow> bignum option) \<Rightarrow> bignum \<Rightarrow> bignum \<Rightarrow> bn_mont_ctx \<Rightarrow> bool \<times> bignum" where
  "BN_from_montgomery m get r a mont =
     (case get 0 of
        None \<Rightarrow> (False, r)
      | Some t \<Rightarrow> let (ok, t) = BN_copy m t a in if \<not> ok then (False, r) else BN_from_montgomery_word m r t mont)"

text \<open>The first word is negated, the others complemented: \<open>R - n\<close>.\<close>

definition bn_one_to_montgomery :: "bn_malloc \<Rightarrow> (nat \<Rightarrow> bignum option) \<Rightarrow> bignum \<Rightarrow> bn_mont_ctx \<Rightarrow> bool \<times> bignum" where
  "bn_one_to_montgomery m get r mont =
     (let n = mont_N mont
      in if bn_width n > 0 \<and> drop_bit 63 (bn_d n ! (bn_width n - 1)) \<noteq> 0 then
           and_also (bn_wexpand m r (bn_width n)) (\<lambda>r.
             (True, r\<lparr>bn_d := set_words (bn_d r) 0 ((0 - bn_d n ! 0) # map (\<lambda>w. NOT w) (drop 1 (bn_words n))),
                bn_width := bn_width n, bn_neg := False\<rparr>))
         else BN_from_montgomery m get r (mont_RR mont) mont)"

text \<open>
  \<open>same\<close> says that both operands are one number. \<open>get 0\<close> is the scratch number of this function, \<open>get'\<close> is for the
  functions it calls.
\<close>

definition bn_mod_mul_montgomery_fallback :: "bn_malloc \<Rightarrow> (nat \<Rightarrow> bignum option) \<Rightarrow> (nat \<Rightarrow> bignum option) \<Rightarrow> bool \<Rightarrow>
    bignum \<Rightarrow> bignum \<Rightarrow> bignum \<Rightarrow> bn_mont_ctx \<Rightarrow> bool \<times> bignum" where
  "bn_mod_mul_montgomery_fallback m get get' same r a b mont =
     (case get 0 of
        None \<Rightarrow> (False, r)
      | Some tmp \<Rightarrow>
          let (ok, tmp) = (if same then bn_sqr_consttime m get' False tmp a else bn_mul_consttime m get' False tmp a b)
          in if \<not> ok then (False, r) else BN_from_montgomery_word m r tmp mont)"

definition BN_mod_mul_montgomery :: "bn_malloc \<Rightarrow> (nat \<Rightarrow> bignum option) \<Rightarrow> (nat \<Rightarrow> bignum option) \<Rightarrow> bool \<Rightarrow>
    bignum \<Rightarrow> bignum \<Rightarrow> bignum \<Rightarrow> bn_mont_ctx \<Rightarrow> bool \<times> bignum" where
  "BN_mod_mul_montgomery m get get' same r a b mont =
     (if bn_neg a \<or> bn_neg b then (False, r) else bn_mod_mul_montgomery_fallback m get get' same r a b mont)"

definition BN_to_montgomery :: "bn_malloc \<Rightarrow> (nat \<Rightarrow> bignum option) \<Rightarrow> (nat \<Rightarrow> bignum option) \<Rightarrow>
    bignum \<Rightarrow> bignum \<Rightarrow> bn_mont_ctx \<Rightarrow> bool \<times> bignum" where
  "BN_to_montgomery m get get' ret a mont = BN_mod_mul_montgomery m get get' False ret a (mont_RR mont) mont"

definition bn_less_than_montgomery_R :: "bignum \<Rightarrow> bn_mont_ctx \<Rightarrow> bool" where
  "bn_less_than_montgomery_R bn mont \<longleftrightarrow> \<not> bn_neg bn \<and> bn_fits_in_words bn (bn_width (mont_N mont))"

text \<open>On words; \<open>None\<close> is an abort, and \<open>stack\<close> what the words of the local array are before they are written.\<close>

definition bn_from_montgomery_small :: "nat \<Rightarrow> limbs \<Rightarrow> bn_mont_ctx \<Rightarrow> limbs option" where
  "bn_from_montgomery_small num_r a mont =
     (if num_r \<noteq> bn_width (mont_N mont) \<or> num_r > 9 \<or> length a > 2 * num_r then None
      else bn_from_montgomery_in_place num_r (a @ replicate (2 * num_r - length a) 0) mont)"

definition bn_mod_mul_montgomery_small :: "limbs \<Rightarrow> bool \<Rightarrow> limbs \<Rightarrow> limbs \<Rightarrow> nat \<Rightarrow> bn_mont_ctx \<Rightarrow> limbs option" where
  "bn_mod_mul_montgomery_small stack same a b num mont =
     (if num \<noteq> bn_width (mont_N mont) \<or> num > 9 then None
      else case if same then bn_sqr_small (take (2 * num) stack) a else bn_mul_small (take (2 * num) stack) a b of
             None \<Rightarrow> None
           | Some tmp \<Rightarrow> bn_from_montgomery_in_place num tmp mont)"

definition bn_to_montgomery_small :: "limbs \<Rightarrow> limbs \<Rightarrow> nat \<Rightarrow> bn_mont_ctx \<Rightarrow> limbs option" where
  "bn_to_montgomery_small stack a num mont = bn_mod_mul_montgomery_small stack False a (take num (bn_d (mont_RR mont))) num mont"

section \<open>The constant is the negated inverse\<close>

lemma plus_xor_and: "x + y = (x XOR y) + 2 * (x AND y)" for x y :: int
proof -
  have "(x XOR y) AND (x AND y) = 0" by (auto simp: bit_eq_iff bit_simps)
  then have "(x XOR y) + (x AND y) = (x XOR y) OR (x AND y)" by (rule disjunctive_add_eq_or)
  also have "\<dots> = x OR y" by (auto simp: bit_eq_iff bit_simps)
  finally show ?thesis using plus_and_or [of x y] by simp
qed

lemma unat_half: "unat (drop_bit 1 w) = unat w div 2" for w :: u64
  unfolding unat_drop_bit_eq by (simp add: drop_bit_Suc)

lemma odd_unat: "odd (unat w) \<longleftrightarrow> odd w" for w :: u64
proof -
  have "bit (unat w) 0 \<longleftrightarrow> bit w 0" by (simp only: bit_unsigned_iff) simp
  then show ?thesis unfolding bit_0 .
qed

lemma half_sum: "unat (drop_bit 1 (x XOR y) + (x AND y)) = (unat x + unat y) div 2" for x y :: u64
proof -
  have x: "uint (x XOR y) = uint x XOR uint y" "uint (x AND y) = uint x AND uint y" by (simp_all add: unsigned_xor_eq unsigned_and_eq)
  have "unat (drop_bit 1 (x XOR y)) = unat (x XOR y) div 2" by (rule unat_half)
  then have "int (unat (drop_bit 1 (x XOR y))) = int (unat (x XOR y)) div 2" by (simp only: zdiv_int of_nat_numeral)
  then have d: "uint (drop_bit 1 (x XOR y)) = uint (x XOR y) div 2" by simp
  have "(uint x + uint y) div 2 = uint (drop_bit 1 (x XOR y)) + uint (x AND y)"
    unfolding plus_xor_and [of "uint x" "uint y"] d x by simp
  moreover have "(uint x + uint y) div 2 < 2 ^ 64" using uint_lt2p [of x] uint_lt2p [of y] by simp
  ultimately have "uint (drop_bit 1 (x XOR y) + (x AND y)) = (uint x + uint y) div 2" by (simp add: uint_word_ariths)
  then have "int (unat (drop_bit 1 (x XOR y) + (x AND y))) = int ((unat x + unat y) div 2)" by (simp add: zdiv_int)
  then show ?thesis by (simp only: of_nat_eq_iff)
qed

lemma neg_inv_step_value:
  assumes i: "int (unat u) * 2 ^ 64 - int (unat v) * int (unat n) = 2 ^ Suc k" and n: "odd (unat n)" and e: "neg_inv_step n (u, v) = (u', v')"
  shows "int (unat u') * 2 ^ 64 - int (unat v') * int (unat n) = 2 ^ k"
proof -
  have "int (unat v * unat n) = 2 * (int (unat u) * 2 ^ 63 - 2 ^ k)" using i unfolding of_nat_mult power_Suc by simp
  then have "even (int (unat v * unat n))" by (rule ssubst) simp
  then have v: "even (unat v)" using n by (simp only: even_of_nat even_mult_iff) blast
  have low: "0 - (u AND 1) = (if odd (unat u) then - 1 else 0)"
    by (simp add: and_one_eq mod_2_eq_odd odd_unat)
  note hv = unat_half [of v]
  show ?thesis
  proof (cases "odd (unat u)")
    case True
    then have uv: "u' = drop_bit 1 (u XOR n) + (u AND n)" "v' = drop_bit 1 v + push_bit 63 1"
      using e unfolding neg_inv_step_def Let_def prod.case low if_P [OF True] by (simp_all only: prod.inject bit.conj_one_right)
    have u': "2 * unat u' = unat u + unat n" unfolding uv half_sum using True n by simp
    have "unat (drop_bit 1 v) < 2 ^ 63" unfolding hv using unat_less_pow(3) [of v] by simp
    then have v': "unat v' = unat v div 2 + 2 ^ 63" unfolding uv hv [symmetric] by (simp add: unat_word_ariths)
    have v2: "2 * unat v' = unat v + 2 ^ 64" unfolding v' using v by simp
    have "2 * int (unat u') = int (unat u) + int (unat n)" "2 * int (unat v') = int (unat v) + 2 ^ 64"
      using arg_cong [OF u', of int] arg_cong [OF v2, of int] unfolding of_nat_mult of_nat_add of_nat_power of_nat_numeral .
    then have "2 * int (unat u') * 2 ^ 64 - 2 * int (unat v') * int (unat n) =
        (int (unat u) + int (unat n)) * 2 ^ 64 - (int (unat v) + 2 ^ 64) * int (unat n)" by (simp only:)
    also have "\<dots> = 2 ^ Suc k" unfolding i [symmetric] by (simp only: algebra_simps)
    finally show ?thesis by simp
  next
    case False
    then have uv: "u' = drop_bit 1 u" "v' = drop_bit 1 v" using e low by (simp_all add: neg_inv_step_def Let_def)
    have h: "2 * unat u' = unat u" "2 * unat v' = unat v" unfolding uv unat_half using False v by simp_all
    have "2 * int (unat u') = int (unat u)" "2 * int (unat v') = int (unat v)"
      using arg_cong [OF h(1), of int] arg_cong [OF h(2), of int] unfolding of_nat_mult of_nat_numeral .
    then have "2 * int (unat u') * 2 ^ 64 - 2 * int (unat v') * int (unat n) = 2 ^ Suc k" using i by (simp only:)
    then show ?thesis by simp
  qed
qed

lemma bn_neg_inv_mod_r_u64_value:
  assumes "odd (unat n)"
  shows "(int (unat (bn_neg_inv_mod_r_u64 n)) * int (unat n) + 1) mod 2 ^ 64 = 0"
proof -
  have "int (unat (fst ((neg_inv_step n ^^ j) (1, 0)))) * 2 ^ 64 - int (unat (snd ((neg_inv_step n ^^ j) (1, 0)))) * int (unat n) = 2 ^ (64 - j)"
    if "j \<le> 64" for j
    using that
  proof (induction j)
    case (Suc j)
    obtain u v where uv: "(neg_inv_step n ^^ j) (1, 0) = (u, v)" by force
    obtain u' v' where uv': "neg_inv_step n (u, v) = (u', v')" by force
    have "64 - j = Suc (64 - Suc j)" using Suc.prems by simp
    then have "int (unat u) * 2 ^ 64 - int (unat v) * int (unat n) = 2 ^ Suc (64 - Suc j)" using Suc uv by simp
    from neg_inv_step_value [OF this assms uv'] show ?case by (simp add: uv uv')
  qed simp
  from this [of 64] have "int (unat (fst ((neg_inv_step n ^^ 64) (1, 0)))) * 2 ^ 64 =
      int (unat (bn_neg_inv_mod_r_u64 n)) * int (unat n) + 1" by (simp add: bn_neg_inv_mod_r_u64_def)
  then show ?thesis by (metis mod_mult_self2_is_0)
qed

section \<open>The reduction\<close>

lemma unat_plus_64: "unat (a + b) = (unat a + unat b) mod 2 ^ 64" for a b :: u64
  by (simp add: unat_word_ariths)

lemma mont_carry:
  fixes v h carry :: u64
  assumes "unat carry \<le> 1" "v' = v + (carry + h)" "c = (carry OR (if v' \<noteq> h then 1 else 0)) AND (if v' \<le> h then 1 else 0)"
  shows "unat c \<le> 1" "unat v' + 2 ^ 64 * unat c = unat v + unat carry + unat h"
proof -
  define N :: nat where "N = 2 ^ 64"
  have less: "unat v < N" "unat h < N" "unat v' < N" using unat_less_pow(3) by (simp_all add: N_def)
  have v': "unat v' = (unat v + unat carry + unat h) mod N"
    unfolding assms(2) N_def by (simp only: unat_plus_64 mod_add_right_eq add.assoc)
  have s: "unat v + unat carry + unat h < 2 * N" using less(1,2) assms(1) by linarith
  then have "unat v' = (if unat v + unat carry + unat h < N then unat v + unat carry + unat h else unat v + unat carry + unat h - N)"
    unfolding v' by (simp only: not_less le_mod_geq mod_less split: if_split) (simp add: le_mod_geq)
  then have over: "unat v + unat carry + unat h = unat v' + (if N \<le> unat v + unat carry + unat h then N else 0)" by auto
  have c01: "carry = 0 \<or> carry = 1" using assms(1) unfolding word_bool .
  have cases: "c = (if unat v' < unat h then 1 else if unat v' = unat h then carry else 0)"
    using c01 unfolding assms(3) word_unat_eq_iff [of v' h] word_le_nat_alt [of v' h] by (elim disjE) auto
  then show "unat c \<le> 1" using assms(1) by simp
  define s where "s = unat v + unat carry + unat h"
  have u01: "unat carry = 0 \<or> unat carry = 1" using c01 by auto
  have "unat v' + N * unat c = s"
  proof (cases "N \<le> s")
    case True
    then have "s = unat v' + N" using over by (simp add: s_def)
    moreover have "unat v' < unat h \<or> unat v' = unat h \<and> unat carry = 1"
      using calculation less u01 unfolding s_def by linarith
    then have "unat c = 1" unfolding cases by auto
    ultimately show ?thesis by simp
  next
    case False
    then have "s = unat v'" using over by (simp add: s_def)
    moreover have "unat h \<le> unat v'" "unat v' = unat h \<Longrightarrow> unat carry = 0" using calculation unfolding s_def by linarith+
    then have "unat c = 0" unfolding cases by auto
    ultimately show ?thesis by simp
  qed
  then show "unat v' + 2 ^ 64 * unat c = unat v + unat carry + unat h" unfolding s_def N_def .
qed

lemma mont_low:
  fixes x y z k :: nat
  assumes "(z * y + 1) mod k = 0"
  shows "k dvd x + x * z mod k * y"
proof -
  have "(x + x * z mod k * y) mod k = (x + x * z * y) mod k" by (metis mod_add_right_eq mod_mult_left_eq)
  also have "x + x * z * y = x * (z * y + 1)" by (simp add: algebra_simps)
  also have "\<dots> mod k = 0" using assms by (metis mod_mult_right_eq mult_0_right mod_0)
  finally show ?thesis by (simp add: dvd_eq_mod_eq_0)
qed

text \<open>A step adds a multiple of the modulus, after which one more word is 0.\<close>

lemma mont_step_value:
  assumes st: "length a = 2 * length n" "unat carry \<le> 1" "i < length n"
    and n0: "(unat n0 * unat (n ! 0) + 1) mod 2 ^ 64 = 0"
    and dvd: "2 ^ (64 * i) dvd wval a + 2 ^ (64 * (i + length n)) * unat carry"
    and e: "mont_step n n0 i (a, carry) = (a', carry')"
  shows "length a' = 2 * length n \<and> unat carry' \<le> 1 \<and>
    (\<exists>w < 2 ^ 64. wval a' + 2 ^ (64 * (Suc i + length n)) * unat carry' =
       wval a + 2 ^ (64 * (i + length n)) * unat carry + 2 ^ (64 * i) * (w * wval n)) \<and>
    2 ^ (64 * Suc i) dvd wval a' + 2 ^ (64 * (Suc i + length n)) * unat carry'"
proof -
  let ?n = "length n"
  define A B C h where "A = take i a" and "B = take ?n (drop i a)" and "C = drop (Suc (i + ?n)) a" and "h = a ! (i + ?n)"
  have lA: "length A = i" and lB: "length B = ?n" using st by (simp_all add: A_def B_def)
  have "a = take (i + ?n) a @ h # C" unfolding h_def C_def using st by (intro id_take_nth_drop) simp
  then have a: "a = A @ B @ h # C" unfolding take_add A_def B_def by simp
  obtain ws v where m: "bn_mul_add_words B n (a ! i * n0) = (ws, v)" by force
  note mv = bn_mul_add_words_value [OF m lB]
  define v' where "v' = v + (carry + h)"
  define w where "w = unat (a ! i * n0)"
  have s: "set_words a i ws = A @ ws @ h # C" using a lA lB mv(1) by (simp add: set_words_def)
  have hi: "(A @ ws @ h # C) ! (i + ?n) = h" using lA mv(1) by (simp add: nth_append)
  have up: "(A @ ws @ h # C)[i + ?n := v'] = A @ ws @ v' # C" using lA mv(1) by (simp add: list_update_append)
  have e': "a' = A @ ws @ v' # C" "carry' = (carry OR (if v' \<noteq> h then 1 else 0)) AND (if v' \<le> h then 1 else 0)"
    using e unfolding mont_step_def Let_def prod.case B_def [symmetric] m s hi v'_def [symmetric] up prod.inject by blast+
  note c = mont_carry [OF st(2) v'_def e'(2)]
  define P Q :: nat where "P = 2 ^ (64 * i)" and "Q = 2 ^ (64 * ?n)"
  have PQ: "2 ^ (64 * (i + ?n)) = P * Q" "2 ^ (64 * (Suc i + ?n)) = P * Q * 2 ^ 64" "2 ^ (64 * Suc i) = P * 2 ^ 64"
    by (simp_all add: P_def Q_def distrib_left power_add)
  define D where "D = wval B + Q * (unat h + 2 ^ 64 * wval C) + Q * unat carry"
  have wa: "wval a + 2 ^ (64 * (i + ?n)) * unat carry = wval A + P * D"
    unfolding a PQ D_def by (simp add: wval_append lA lB P_def Q_def distrib_left)
  have ws: "wval ws + Q * unat v = wval B + w * wval n" using mv(2) by (simp add: Q_def w_def)
  have "wval a' + 2 ^ (64 * (Suc i + ?n)) * unat carry' = wval A + P * (wval ws + Q * (unat v' + 2 ^ 64 * unat carry') + Q * (2 ^ 64 * wval C))"
    unfolding e'(1) PQ by (simp add: wval_append lA mv(1) P_def Q_def distrib_left)
  also have "\<dots> = wval A + P * (wval ws + Q * unat v + Q * (unat carry + unat h) + Q * (2 ^ 64 * wval C))"
    unfolding c(2) by (simp add: distrib_left)
  also have "\<dots> = wval A + P * D + P * (w * wval n)" unfolding ws D_def by (simp add: distrib_left)
  finally have wa': "wval a' + 2 ^ (64 * (Suc i + ?n)) * unat carry' = wval A + P * D + P * (w * wval n)" .
  have "wval A < P" using wval_less [of A] by (simp add: lA P_def)
  moreover have "P dvd wval A" using dvd unfolding wa P_def [symmetric] by (simp add: dvd_add_left_iff)
  ultimately have A0: "wval A = 0" using dvd_imp_le by fastforce
  obtain b B' where B: "B = b # B'" using lB st(3) by (cases B) auto
  obtain y n' where n: "n = y # n'" using st(3) by (cases n) auto
  have b: "a ! i = b" unfolding a using lA B by (simp add: nth_append)
  have "2 ^ 64 dvd unat b + unat b * unat n0 mod 2 ^ 64 * unat y" by (rule mont_low) (use n0 n in simp)
  moreover have "w = unat b * unat n0 mod 2 ^ 64" by (simp add: w_def b unat_word_ariths)
  ultimately have d1: "2 ^ 64 dvd unat b + w * unat y" by (simp only:)
  have d2: "2 ^ 64 dvd Q" using st(3) unfolding Q_def by (intro le_imp_power_dvd) simp
  have "2 ^ 64 dvd (unat b + w * unat y) + (2 ^ 64 * (wval B' + w * wval n') + Q * (unat h + 2 ^ 64 * wval C + unat carry))"
    by (rule dvd_add [OF d1 dvd_add [OF dvd_triv_left dvd_mult2 [OF d2]]])
  also have "\<dots> = D + w * wval n" unfolding D_def B n wval.simps by (simp add: algebra_simps)
  finally have d: "P * 2 ^ 64 dvd P * (D + w * wval n)" by (rule mult_dvd_mono [OF dvd_refl])
  have "length a' = 2 * ?n" using st(1) a lA lB mv(1) unfolding e'(1) by (metis length_append list.size(4))
  moreover have "w < 2 ^ 64" using unat_less_pow(3) by (simp add: w_def)
  ultimately show ?thesis unfolding wa' wa PQ(3) using c(1) d A0 by (auto simp: P_def distrib_left)
qed

lemma mont_reduce_value:
  assumes n0: "(unat n0 * unat (n ! 0) + 1) mod 2 ^ 64 = 0" and l: "length a = 2 * length n" and k: "k \<le> length n"
    and e: "fold (mont_step n n0) [0..<k] (a, 0) = (a', carry)"
  shows "length a' = 2 * length n \<and> unat carry \<le> 1 \<and> 2 ^ (64 * k) dvd wval a' + 2 ^ (64 * (k + length n)) * unat carry \<and>
    (\<exists>q < 2 ^ (64 * k). wval a' + 2 ^ (64 * (k + length n)) * unat carry = wval a + q * wval n)"
  using k e
proof (induction k arbitrary: a' carry)
  case 0
  then show ?case using l by auto
next
  case (Suc k)
  obtain b c where b: "fold (mont_step n n0) [0..<k] (a, 0) = (b, c)" by force
  have e: "mont_step n n0 k (b, c) = (a', carry)" using Suc.prems(2) b by simp
  have IH: "length b = 2 * length n" "unat c \<le> 1" "2 ^ (64 * k) dvd wval b + 2 ^ (64 * (k + length n)) * unat c"
    "\<exists>q < 2 ^ (64 * k). wval b + 2 ^ (64 * (k + length n)) * unat c = wval a + q * wval n"
    using Suc.IH [OF _ b] Suc.prems(1) by simp_all
  obtain q where q: "q < 2 ^ (64 * k)" "wval b + 2 ^ (64 * (k + length n)) * unat c = wval a + q * wval n" using IH(4) by blast
  have "k < length n" using Suc.prems(1) by simp
  from mont_step_value [OF IH(1,2) this n0 IH(3) e] obtain w where
    s: "length a' = 2 * length n" "unat carry \<le> 1" "w < 2 ^ 64"
      "wval a' + 2 ^ (64 * (Suc k + length n)) * unat carry = wval a + q * wval n + 2 ^ (64 * k) * (w * wval n)"
      "2 ^ (64 * Suc k) dvd wval a' + 2 ^ (64 * (Suc k + length n)) * unat carry" unfolding q(2) by blast
  have "2 ^ (64 * k) * Suc w \<le> 2 ^ (64 * k) * 2 ^ 64" using s(3) by (intro mult_le_mono2) simp
  then have "q + 2 ^ (64 * k) * w < 2 ^ (64 * k) * 2 ^ 64" using q(1) unfolding mult_Suc_right by linarith
  then have "q + 2 ^ (64 * k) * w < 2 ^ (64 * Suc k)" unfolding pow64_Suc by (simp only: mult.commute)
  moreover have "wval a + q * wval n + 2 ^ (64 * k) * (w * wval n) = wval a + (q + 2 ^ (64 * k) * w) * wval n" by (simp add: distrib_right)
  ultimately show ?case using s by metis
qed

text \<open>What a context promises; \<open>mont_R\<close> is \<open>R\<close>.\<close>

definition mont_R :: "bn_mont_ctx \<Rightarrow> nat" where
  "mont_R mont = 2 ^ (64 * bn_width (mont_N mont))"

definition mont_ok :: "bn_mont_ctx \<Rightarrow> bool" where
  "mont_ok mont \<longleftrightarrow> bn_ok (mont_N mont) \<and> \<not> bn_neg (mont_N mont) \<and> odd (bn_abs (mont_N mont)) \<and>
     (unat (mont_n0 mont) * unat (bn_d (mont_N mont) ! 0) + 1) mod 2 ^ 64 = 0"

definition mont_RR_ok :: "bn_mont_ctx \<Rightarrow> bool" where
  "mont_RR_ok mont \<longleftrightarrow> bn_ok (mont_RR mont) \<and> \<not> bn_neg (mont_RR mont) \<and>
     bn_abs (mont_RR mont) = mont_R mont * mont_R mont mod bn_abs (mont_N mont)"

lemma mont_N_less: "mont_ok mont \<Longrightarrow> bn_abs (mont_N mont) < mont_R mont"
  using wval_less [of "bn_words (mont_N mont)"] by (simp add: mont_ok_def mont_R_def bn_abs_def length_bn_words)

lemma mont_width: "mont_ok mont \<Longrightarrow> 0 < bn_width (mont_N mont)"
  by (rule ccontr) (simp add: mont_ok_def bn_abs_def bn_words_def)

text \<open>\<open>R\<close> can be cancelled modulo an odd number.\<close>

lemma cancel_power_2:
  fixes x y n :: nat
  assumes "odd n" "x * 2 ^ k mod n = y * 2 ^ k mod n"
  shows "x mod n = y mod n"
proof -
  have "int (x * 2 ^ k) mod int n = int (y * 2 ^ k) mod int n" using assms(2) by (metis zmod_int)
  then have "int n dvd (int x - int y) * 2 ^ k" by (simp add: mod_eq_dvd_iff left_diff_distrib)
  moreover have "coprime (int n) (2 ^ k)" using assms(1) by (simp add: coprime_right_2_iff_odd)
  ultimately have "int n dvd int x - int y" by (simp add: coprime_dvd_mult_left_iff)
  then have "int x mod int n = int y mod int n" by (simp add: mod_eq_dvd_iff)
  then show ?thesis by (metis zmod_int of_nat_eq_iff)
qed

lemma bn_from_montgomery_in_place_exact:
  assumes "mont_ok mont" "length a = 2 * bn_width (mont_N mont)" "wval a < bn_abs (mont_N mont) * mont_R mont"
  shows "\<exists>r. bn_from_montgomery_in_place (bn_width (mont_N mont)) a mont = Some r \<and> length r = bn_width (mont_N mont) \<and>
    wval r < bn_abs (mont_N mont) \<and> wval r * mont_R mont mod bn_abs (mont_N mont) = wval a mod bn_abs (mont_N mont)"
proof -
  let ?n = "bn_words (mont_N mont)" and ?w = "bn_width (mont_N mont)" and ?R = "mont_R mont" and ?N = "bn_abs (mont_N mont)"
  have ln: "length ?n = ?w" using assms(1) by (simp add: mont_ok_def length_bn_words)
  have N: "?N = wval ?n" by (simp add: bn_abs_def)
  have n0: "(unat (mont_n0 mont) * unat (?n ! 0) + 1) mod 2 ^ 64 = 0"
    using assms(1) mont_width [OF assms(1)] by (simp add: mont_ok_def bn_words_def)
  obtain b c where b: "fold (mont_step ?n (mont_n0 mont)) [0..<?w] (a, 0) = (b, c)" by force
  have la: "length a = 2 * length ?n" using assms(2) by (simp add: ln)
  note r = mont_reduce_value [OF n0 la order_refl, unfolded ln, OF b]
  obtain q where q: "q < ?R" "wval b + 2 ^ (64 * (?w + ?w)) * unat c = wval a + q * ?N" using r by (auto simp: mont_R_def N)
  have RR: "2 ^ (64 * (?w + ?w)) = ?R * ?R" by (simp only: mont_R_def distrib_left power_add)
  have "?R dvd wval b + ?R * ?R * unat c" using r RR by (simp add: mont_R_def)
  then have "?R dvd wval b" by (metis dvd_add_left_iff dvd_mult2 dvd_triv_left mult.assoc)
  moreover have "?w \<le> length b" using r by simp
  then have sp: "wval b = wval (take ?w b) + ?R * wval (drop ?w b)" unfolding mont_R_def by (rule wval_split)
  moreover have "wval (take ?w b) < ?R" unfolding mont_R_def by (rule wval_take_less) (use r in simp)
  ultimately have t0: "wval (take ?w b) = 0" by (metis dvd_add_left_iff dvd_triv_left nat_dvd_not_less neq0_conv)
  define t where "t = wval (drop ?w b) + ?R * unat c"
  have t: "?R * t = wval a + q * ?N" using q(2) unfolding RR sp t0 t_def by (simp add: distrib_left)
  have "q * ?N \<le> ?R * ?N" using q(1) by (intro mult_le_mono1) simp
  moreover have "?R * (2 * ?N) = ?N * ?R + ?R * ?N" by simp
  ultimately have "?R * t < ?R * (2 * ?N)" using assms(3) unfolding t by linarith
  then have less: "t < 2 * ?N" by (simp add: mont_R_def)
  obtain d e where d: "bn_reduce_once (drop ?w b) c ?n = (d, e)" by force
  have "length (drop ?w b) = length ?n" using r ln by simp
  from bn_reduce_once_value [OF this _ _ d] r less
  have v: "length d = ?w" "wval d = t mod ?N" by (simp_all add: ln t_def N mont_R_def)
  have "0 < ?N" using assms(1) by (metis mont_ok_def even_zero neq0_conv)
  moreover have "wval d * ?R mod ?N = wval a mod ?N"
  proof -
    have "wval d * ?R mod ?N = t * ?R mod ?N" unfolding v by (rule mod_mult_left_eq)
    also have "t * ?R = wval a + q * ?N" using t by (simp add: mult.commute)
    finally show ?thesis by simp
  qed
  moreover have "bn_from_montgomery_in_place ?w a mont = Some d"
    using assms(2) b d by (simp add: bn_from_montgomery_in_place_def Let_def)
  ultimately show ?thesis using v by simp
qed

lemma BN_from_montgomery_word_exact:
  assumes "BN_from_montgomery_word m ret r mont = (ok, ret')" "gives_words m" "mont_ok mont" "bn_ok ret" "bn_ok r"
    and "bn_abs r < bn_abs (mont_N mont) * mont_R mont"
  shows "bn_ok ret' \<and> (ok \<longrightarrow> \<not> bn_neg r \<and> \<not> bn_neg ret' \<and> bn_width ret' = bn_width (mont_N mont) \<and> bn_abs ret' < bn_abs (mont_N mont) \<and>
    bn_abs ret' * mont_R mont mod bn_abs (mont_N mont) = bn_abs r mod bn_abs (mont_N mont))"
proof -
  let ?w = "bn_width (mont_N mont)"
  have w: "?w \<noteq> 0" using mont_width [OF assms(3)] by simp
  show ?thesis
  proof (cases "bn_neg r")
    case True
    then show ?thesis using assms(1,4) by (simp add: BN_from_montgomery_word_def)
  next
    case pos: False
    obtain ok1 r1 where 1: "bn_resize_words m r (2 * ?w) = (ok1, r1)" by force
    note f = bn_resize_words_facts [OF 1 assms(2,5)]
    obtain ok2 ret1 where 2: "bn_wexpand m ret ?w = (ok2, ret1)" by force
    note x = bn_wexpand_facts [OF 2 assms(2,4)]
    show ?thesis
    proof (cases "ok1 \<and> ok2")
      case True
      have r1: "bn_width r1 = 2 * ?w" "bn_abs r1 = bn_abs r" using f(2) True by simp_all
      have "length (bn_words r1) = 2 * ?w" using length_bn_words [OF f(1)] r1(1) by simp
      moreover have "wval (bn_words r1) < bn_abs (mont_N mont) * mont_R mont" using assms(6) unfolding r1(2) [symmetric] bn_abs_def [of r1] .
      ultimately obtain ws where ws: "bn_from_montgomery_in_place ?w (bn_words r1) mont = Some ws" "length ws = ?w"
          "wval ws < bn_abs (mont_N mont)" "wval ws * mont_R mont mod bn_abs (mont_N mont) = bn_abs r mod bn_abs (mont_N mont)"
        using bn_from_montgomery_in_place_exact [OF assms(3), of "bn_words r1"] unfolding r1(2) [symmetric] bn_abs_def [of r1] by blast
      have "length ws \<le> dmax ret1" using x(5) True ws(2) by simp
      note s = bn_stored [OF x(1) this]
      have "ok \<and> ret' = ret1\<lparr>bn_width := ?w, bn_neg := False, bn_d := set_words (bn_d ret1) 0 ws\<rparr>"
        using assms(1) pos w 1 2 True ws(1) by (simp add: BN_from_montgomery_word_def)
      moreover from this have "bn_ok ret'" "bn_words ret' = ws" using s ws(2) by (simp_all add: bn_ok_def bn_words_def)
      then have "bn_ok ret'" "bn_abs ret' = wval ws" by (simp_all add: bn_abs_def)
      ultimately show ?thesis using ws pos by simp
    next
      case False
      then show ?thesis using assms(1,4) pos w 1 2 x(1) by (cases ok1) (auto simp: BN_from_montgomery_word_def)
    qed
  qed
qed

section \<open>Products\<close>

lemma BN_mod_mul_montgomery_exact:
  assumes "BN_mod_mul_montgomery m get get' same r a b mont = (ok, r')" "gives_words m" "ctx_ok get" "ctx_ok get'" "mont_ok mont"
    and "bn_ok r" "bn_ok a" "bn_ok b" "same \<Longrightarrow> a = b" "bn_abs a * bn_abs b < bn_abs (mont_N mont) * mont_R mont"
  shows "bn_ok r' \<and> (ok \<longrightarrow> \<not> bn_neg a \<and> \<not> bn_neg b \<and> \<not> bn_neg r' \<and> bn_abs r' < bn_abs (mont_N mont) \<and>
    bn_width r' = bn_width (mont_N mont) \<and>
    bn_abs r' * mont_R mont mod bn_abs (mont_N mont) = bn_abs a * bn_abs b mod bn_abs (mont_N mont))"
proof (cases "bn_neg a \<or> bn_neg b")
  case True
  then show ?thesis using assms(1,6) by (simp add: BN_mod_mul_montgomery_def)
next
  case pos: False
  note e = assms(1) [unfolded BN_mod_mul_montgomery_def if_not_P [OF pos] bn_mod_mul_montgomery_fallback_def]
  show ?thesis
  proof (cases "get 0")
    case None
    then show ?thesis using e assms(6) by simp
  next
    case (Some tmp)
    then have okt: "bn_ok tmp" using assms(3) by (simp add: ctx_ok_def)
    obtain ok1 t where t: "(if same then bn_sqr_consttime m get' False tmp a else bn_mul_consttime m get' False tmp a b) = (ok1, t)" by force
    have f: "bn_ok t \<and> (ok1 \<longrightarrow> bn_abs t = bn_abs a * bn_abs b)"
    proof (cases same)
      case True
      then show ?thesis using bn_sqr_consttime_facts [OF _ assms(2,4) okt assms(7), of False ok1 t] t assms(9) by simp
    next
      case False
      then show ?thesis using bn_mul_impl_facts [OF _ assms(2,4) okt assms(7,8), of False ok1 t] t pos
        by (simp add: bn_mul_consttime_def)
    qed
    show ?thesis
    proof (cases ok1)
      case True
      then have w: "BN_from_montgomery_word m r t mont = (ok, r')" using e Some t by simp
      have "bn_abs t < bn_abs (mont_N mont) * mont_R mont" using f True assms(10) by simp
      from BN_from_montgomery_word_exact [OF w assms(2,5,6) f [THEN conjunct1] this] show ?thesis using f True pos by simp
    next
      case False
      then show ?thesis using e Some t assms(6) by simp
    qed
  qed
qed

lemma mont_N_pos: "mont_ok mont \<Longrightarrow> 0 < bn_abs (mont_N mont)"
  by (metis even_zero mont_ok_def neq0_conv)

lemma BN_to_montgomery_exact:
  assumes "BN_to_montgomery m get get' r a mont = (ok, r')" "gives_words m" "ctx_ok get" "ctx_ok get'" "mont_ok mont" "mont_RR_ok mont"
    and "bn_ok r" "bn_ok a" "bn_abs a < mont_R mont"
  shows "bn_ok r' \<and> (ok \<longrightarrow> \<not> bn_neg a \<and> \<not> bn_neg r' \<and> bn_abs r' = bn_abs a * mont_R mont mod bn_abs (mont_N mont))"
proof -
  let ?N = "bn_abs (mont_N mont)" and ?R = "mont_R mont"
  have rr: "bn_ok (mont_RR mont)" "bn_abs (mont_RR mont) = ?R * ?R mod ?N" using assms(6) by (simp_all add: mont_RR_ok_def)
  have "bn_abs (mont_RR mont) < ?N" unfolding rr(2) using mont_N_pos [OF assms(5)] by (rule mod_less_divisor)
  then have "bn_abs a * bn_abs (mont_RR mont) < ?R * ?N" using assms(9) by (intro mult_strict_mono) simp_all
  then have less: "bn_abs a * bn_abs (mont_RR mont) < ?N * ?R" by (simp only: mult.commute)
  have f: "bn_ok r' \<and> (ok \<longrightarrow> \<not> bn_neg a \<and> \<not> bn_neg r' \<and> bn_abs r' < ?N \<and>
      bn_abs r' * ?R mod ?N = bn_abs a * bn_abs (mont_RR mont) mod ?N)"
    using BN_mod_mul_montgomery_exact [OF assms(1) [unfolded BN_to_montgomery_def] assms(2-5,7,8) rr(1) _ less] by simp
  have "bn_abs a * bn_abs (mont_RR mont) mod ?N = bn_abs a * ?R * ?R mod ?N" unfolding rr(2) mod_mult_right_eq by (simp only: mult.assoc)
  then have "bn_abs r' mod ?N = bn_abs a * ?R mod ?N" if ok
    using f that cancel_power_2 [of ?N "bn_abs r'" "64 * bn_width (mont_N mont)" "bn_abs a * ?R"] assms(5)
    unfolding mont_R_def [symmetric] by (simp add: mont_ok_def)
  then show ?thesis using f by simp
qed

lemma BN_from_montgomery_exact:
  assumes "BN_from_montgomery m get r a mont = (ok, r')" "gives_words m" "ctx_ok get" "mont_ok mont" "bn_ok r" "bn_ok a"
    and "bn_abs a < bn_abs (mont_N mont) * mont_R mont"
  shows "bn_ok r' \<and> (ok \<longrightarrow> \<not> bn_neg a \<and> \<not> bn_neg r' \<and> bn_abs r' < bn_abs (mont_N mont) \<and>
    bn_abs r' * mont_R mont mod bn_abs (mont_N mont) = bn_abs a mod bn_abs (mont_N mont))"
proof (cases "get 0")
  case None
  then show ?thesis using assms(1,5) by (simp add: BN_from_montgomery_def)
next
  case (Some t)
  then have okt: "bn_ok t" using assms(3) by (simp add: ctx_ok_def)
  obtain ok1 t1 where 1: "BN_copy m t a = (ok1, t1)" by force
  note f = BN_copy_facts [OF 1 assms(2) okt assms(6)]
  show ?thesis
  proof (cases ok1)
    case True
    then have "bn_abs t1 = bn_abs a" "bn_neg t1 = bn_neg a" using f(2) by (simp_all add: bn_abs_def)
    moreover have "BN_from_montgomery_word m r t1 mont = (ok, r')" using assms(1) Some 1 True by (simp add: BN_from_montgomery_def)
    ultimately show ?thesis using BN_from_montgomery_word_exact [OF _ assms(2,4,5) f(1), of ok r'] assms(7) by simp
  next
    case False
    then show ?thesis using assms(1,5) Some 1 by (simp add: BN_from_montgomery_def)
  qed
qed

text \<open>There and back.\<close>

lemma montgomery_roundtrip:
  assumes "BN_to_montgomery m get get' r a mont = (True, x)" "BN_from_montgomery m get r' x mont = (True, y)"
    and "gives_words m" "ctx_ok get" "ctx_ok get'" "mont_ok mont" "mont_RR_ok mont"
    and "bn_ok r" "bn_ok r'" "bn_ok a" "bn_abs a < mont_R mont"
  shows "bn_int y = bn_int a mod bn_int (mont_N mont)"
proof -
  let ?N = "bn_abs (mont_N mont)" and ?R = "mont_R mont"
  have x: "bn_ok x" "\<not> bn_neg a" "bn_abs x = bn_abs a * ?R mod ?N"
    using BN_to_montgomery_exact [OF assms(1,3-8,10,11)] by simp_all
  have "bn_abs x < ?N" unfolding x(3) using mont_N_pos [OF assms(6)] by (rule mod_less_divisor)
  moreover have "1 \<le> ?R" by (simp add: mont_R_def)
  ultimately have "bn_abs x < ?N * ?R" by (metis le_trans less_le_trans mult.right_neutral mult_le_mono2)
  then have y: "\<not> bn_neg y" "bn_abs y < ?N" "bn_abs y * ?R mod ?N = bn_abs x mod ?N"
    using BN_from_montgomery_exact [OF assms(2,3,4,6,9) x(1)] by simp_all
  have "bn_abs y mod ?N = bn_abs a mod ?N"
    using cancel_power_2 [of ?N "bn_abs y" "64 * bn_width (mont_N mont)" "bn_abs a"] assms(6) y(3)
    unfolding x(3) mont_R_def [symmetric] by (simp add: mont_ok_def)
  then have "bn_abs y = bn_abs a mod ?N" using y(2) by simp
  then show ?thesis using y(1) x(2) assms(6) by (simp add: bn_int_def mont_ok_def zmod_int)
qed

section \<open>Contexts\<close>

lemma BN_is_odd_iff:
  assumes "bn_ok a"
  shows "BN_is_odd a \<longleftrightarrow> odd (bn_abs a)"
proof (cases "bn_width a")
  case 0
  then show ?thesis by (simp add: BN_is_odd_def bn_abs_def bn_words_def)
next
  case (Suc k)
  then have "bn_d a \<noteq> []" using assms by (auto simp: bn_ok_def)
  then obtain x xs where d: "bn_d a = x # xs" by (cases "bn_d a") auto
  then have "odd (bn_abs a) \<longleftrightarrow> odd (unat x)" using Suc by (simp add: bn_abs_def bn_words_def)
  then show ?thesis using Suc d by (simp add: BN_is_odd_def odd_unat and_one_eq mod_2_eq_odd)
qed

lemma bn_mont_ctx_set_N_and_n0_exact:
  assumes "bn_mont_ctx_set_N_and_n0 m mont md = Some mont'" "gives_words m" "bn_ok (mont_N mont)" "bn_ok md"
  shows "mont_ok mont' \<and> minimal (mont_N mont') \<and> bn_int (mont_N mont') = bn_int md \<and> mont_RR mont' = mont_RR mont"
proof -
  have c: "\<not> BN_is_zero md" "BN_is_odd md" "\<not> bn_neg md" using assms(1) by (auto simp: bn_mont_ctx_set_N_and_n0_def split: if_splits)
  obtain n where n: "BN_copy m (mont_N mont) md = (True, n)"
    "mont' = mont\<lparr>mont_N := bn_set_minimal_width n, mont_n0 := bn_mont_n0 (bn_set_minimal_width n)\<rparr>"
    using assms(1) c by (auto simp: bn_mont_ctx_set_N_and_n0_def Let_def split: if_splits prod.splits)
  note f = BN_copy_facts [OF n(1) assms(2-4)]
  have nn: "bn_ok n" "bn_abs n = bn_abs md" "\<not> bn_neg n" using f c(3) by (simp_all add: bn_abs_def)
  note g = bn_set_minimal_width_facts [OF nn(1)]
  let ?n = "bn_set_minimal_width n"
  have abs: "bn_abs ?n = bn_abs md" using g(3) nn(2) by simp
  have o: "odd (bn_abs ?n)" using BN_is_odd_iff [OF assms(4)] c(2) abs by simp
  then have w: "0 < bn_width ?n" and "odd (unat (bn_d ?n ! 0))"
    using BN_is_odd_iff [OF g(1)] by (auto simp: BN_is_odd_def odd_unat and_one_eq mod_2_eq_odd split: if_splits)
  from bn_neg_inv_mod_r_u64_value [OF this(2)]
  have "int (unat (bn_mont_n0 ?n) * unat (bn_d ?n ! 0) + 1) mod 2 ^ 64 = 0" by (simp only: bn_mont_n0_def of_nat_mult of_nat_add of_nat_1)
  then have "int ((unat (bn_mont_n0 ?n) * unat (bn_d ?n ! 0) + 1) mod 2 ^ 64) = 0" by (simp only: zmod_int of_nat_power of_nat_numeral)
  then have n0: "(unat (bn_mont_n0 ?n) * unat (bn_d ?n ! 0) + 1) mod 2 ^ 64 = 0" by (simp only: of_nat_eq_0_iff)
  show ?thesis using g o n0 nn(3) c(3) abs unfolding n(2) mont_ok_def by (simp add: bn_int_def)
qed

end
