(* ===== verification/Bn_Room.thy ===== *)
theory Bn_Room
  imports Bn_Montgomery
begin

text \<open>
  The operations on big numbers succeed. \<open>ample m\<close> says that memory is always granted, \<open>growable\<close> that a number may get
  more of it, and \<open>ctx_ample\<close> that \<open>BN_CTX_get\<close> gives such numbers; then only the limit of 8388607 words is left, and
  the lemmas say how long the operands may be. With the lemmas on the values this makes the operations exact without
  a condition on their result.
\<close>

definition ample :: "bn_malloc \<Rightarrow> bool" where
  "ample m \<longleftrightarrow> (\<forall>n. \<exists>ws. m n = Some ws \<and> length ws = n)"

definition growable :: "bignum \<Rightarrow> bool" where
  "growable bn \<longleftrightarrow> bn_ok bn \<and> \<not> bn_static bn"

definition ctx_ample :: "(nat \<Rightarrow> bignum option) \<Rightarrow> bool" where
  "ctx_ample get \<longleftrightarrow> (\<forall>i. \<exists>bn. get i = Some bn \<and> growable bn)"

lemma ample_gives: "ample m \<Longrightarrow> gives_words m"
  unfolding ample_def gives_words_def by (metis option.inject)

lemma ctx_ample_ok: "ctx_ample get \<Longrightarrow> ctx_ok get"
  unfolding ctx_ample_def ctx_ok_def growable_def by (metis option.inject)

lemma ctx_ampleE:
  assumes "ctx_ample get"
  obtains bn where "get i = Some bn" "growable bn"
  using assms by (auto simp: ctx_ample_def)

lemma growable_ok: "growable bn \<Longrightarrow> bn_ok bn"
  by (simp add: growable_def)

lemma growable_neg [simp]: "growable (bn\<lparr>bn_neg := n\<rparr>) = growable bn"
  by (simp add: growable_def)

lemma fst_and_also: "fst (and_also p f) \<longleftrightarrow> fst p \<and> fst (f (snd p))"
  by (cases p) (simp add: and_also_def)

lemma ok_resultE:
  assumes "fst p"
  obtains r where "p = (True, r)"
  using assms by (cases p) simp

section \<open>Memory\<close>

lemma static_wexpand [simp]: "bn_static (snd (bn_wexpand m bn n)) = bn_static bn"
  by (simp add: bn_wexpand_def split: option.split)

lemma bn_wexpand_room:
  assumes "ample m" "growable bn" "n \<le> 8388607"
  shows "fst (bn_wexpand m bn n)" "growable (snd (bn_wexpand m bn n))"
proof -
  obtain ws where ws: "m n = Some ws" using assms(1) by (auto simp: ample_def)
  then show "fst (bn_wexpand m bn n)" using assms(2,3) by (simp add: bn_wexpand_def growable_def)
  obtain ok bn' where 1: "bn_wexpand m bn n = (ok, bn')" by force
  show "growable (snd (bn_wexpand m bn n))"
    using bn_wexpand_facts(1) [OF 1 ample_gives [OF assms(1)]] static_wexpand [of m bn n] 1 assms(2) by (simp add: growable_def)
qed

lemma static_wexpandD: "bn_wexpand m bn n = (ok, bn') \<Longrightarrow> bn_static bn' = bn_static bn"
  using static_wexpand [of m bn n] by simp

lemma static_copy [simp]: "bn_static (snd (BN_copy m dest src)) = bn_static dest"
  using static_wexpand [of m dest "bn_width src"] by (cases "bn_wexpand m dest (bn_width src)") (auto simp: BN_copy_def and_also_def)

lemma BN_copy_room:
  assumes "ample m" "growable dest" "bn_ok src"
  shows "fst (BN_copy m dest src)" "growable (snd (BN_copy m dest src))"
proof -
  have "bn_width src \<le> 8388607" using assms(3) by (simp add: bn_ok_def)
  then show "fst (BN_copy m dest src)" using bn_wexpand_room [OF assms(1,2)] by (simp add: BN_copy_def fst_and_also)
  obtain ok r where 1: "BN_copy m dest src = (ok, r)" by force
  show "growable (snd (BN_copy m dest src))"
    using BN_copy_facts(1) [OF 1 ample_gives [OF assms(1)] _ assms(3)] static_copy [of m dest src] 1 assms(2) by (simp add: growable_def)
qed

lemma static_resize [simp]: "bn_static (snd (bn_resize_words m bn n)) = bn_static bn"
  using static_wexpand [of m bn n] by (cases "bn_wexpand m bn n") (auto simp: bn_resize_words_def and_also_def)

lemma bn_resize_words_room:
  assumes "ample m" "growable bn" "n \<le> 8388607" "bn_abs bn < 2 ^ (64 * n)"
  shows "fst (bn_resize_words m bn n)" "growable (snd (bn_resize_words m bn n))"
proof -
  show "fst (bn_resize_words m bn n)"
    using bn_wexpand_room [OF assms(1-3)] assms(4) by (simp add: bn_resize_words_def fst_and_also bn_fits_in_words_iff)
  obtain ok r where 1: "bn_resize_words m bn n = (ok, r)" by force
  show "growable (snd (bn_resize_words m bn n))"
    using bn_resize_words_facts(1) [OF 1 ample_gives [OF assms(1)]] static_resize [of m bn n] 1 assms(2) by (simp add: growable_def)
qed

section \<open>Sums\<close>

lemma bn_uadd_consttime_room:
  assumes "ample m" "growable r" "bn_width a < 8388607" "bn_width b < 8388607"
  shows "fst (bn_uadd_consttime m r a b)"
proof -
  have "max (bn_width a) (bn_width b) + 1 \<le> 8388607" using assms(3,4) by simp
  note w = bn_wexpand_room [OF assms(1,2) this]
  show ?thesis using w by (auto simp: bn_uadd_consttime_def fst_and_also Let_def max_def split: prod.split)
qed

lemma bn_usub_consttime_room:
  assumes "ample m" "growable r" "bn_ok a" "bn_ok b" "bn_abs b \<le> bn_abs a"
  shows "fst (bn_usub_consttime m r a b)"
proof -
  have "bn_width a \<le> 8388607" using assms(3) by (simp add: bn_ok_def)
  then have "fst (bn_wexpand m r (bn_width a))" by (rule bn_wexpand_room [OF assms(1,2)])
  moreover obtain ok r' where 1: "bn_usub_consttime m r a b = (ok, r')" by force
  ultimately show ?thesis
    using bn_usub_consttime_facts(4) [OF 1 ample_gives [OF assms(1)] growable_ok [OF assms(2)] assms(3-5)] by (simp add: 1)
qed

lemma BN_uadd_room: "ample m \<Longrightarrow> growable r \<Longrightarrow> bn_width a < 8388607 \<Longrightarrow> bn_width b < 8388607 \<Longrightarrow> fst (BN_uadd m r a b)"
  by (simp add: BN_uadd_def fst_and_also bn_uadd_consttime_room)

lemma BN_usub_room: "ample m \<Longrightarrow> growable r \<Longrightarrow> bn_ok a \<Longrightarrow> bn_ok b \<Longrightarrow> bn_abs b \<le> bn_abs a \<Longrightarrow> fst (BN_usub m r a b)"
  by (simp add: BN_usub_def fst_and_also bn_usub_consttime_room)

lemma BN_add_room:
  assumes "ample m" "growable r" "bn_ok a" "bn_ok b" "bn_width a < 8388607" "bn_width b < 8388607"
  shows "fst (BN_add m r a b)"
  using assms BN_uadd_room [of m r a b]
  by (auto simp: BN_add_def fst_and_also BN_ucmp_less BN_usub_room Let_def split: prod.split)

lemma BN_sub_room:
  assumes "ample m" "growable r" "bn_ok a" "bn_ok b" "bn_width a < 8388607" "bn_width b < 8388607"
  shows "fst (BN_sub m r a b)"
  using assms by (auto simp: BN_sub_def fst_and_also BN_ucmp_less BN_usub_room BN_uadd_room Let_def)

section \<open>Products\<close>

lemma static_store:
  "(\<And>r. bn_static (f r) = bn_static r) \<Longrightarrow> bn_static (snd (and_also (bn_wexpand m bn n) (\<lambda>r. (True, f r)))) = bn_static bn"
  using static_wexpand [of m bn n] by (cases "bn_wexpand m bn n") (auto simp: and_also_def)

lemma static_mul_into [simp]: "bn_static (snd (bn_mul_into m t rr a b)) = bn_static rr"
  unfolding bn_mul_into_def Let_def by (simp add: static_store split: option.split prod.split bool.split)

lemma bn_mul_into_room:
  assumes "ample m" "growable t" "growable rr" "bn_width a \<le> 1048575" "bn_width b \<le> 1048575"
  shows "fst (bn_mul_into m (Some t) rr a b)"
proof -
  let ?al = "bn_width a" and ?bl = "bn_width b"
  have rr: "growable (rr\<lparr>bn_neg := n\<rparr>)" for n using assms(3) by simp
  note room = bn_wexpand_room(1) [OF assms(1) rr] bn_wexpand_room(1) [OF assms(1,2)]
  consider (comba) "int ?al - int ?bl = 0 \<and> ?al = 8"
    | (karatsuba) "\<not> (int ?al - int ?bl = 0 \<and> ?al = 8)" "?al \<ge> 16 \<and> ?bl \<ge> 16 \<and> - 1 \<le> int ?al - int ?bl \<and> int ?al - int ?bl \<le> 1"
    | (normal) "\<not> (int ?al - int ?bl = 0 \<and> ?al = 8)" "\<not> (?al \<ge> 16 \<and> ?bl \<ge> 16 \<and> - 1 \<le> int ?al - int ?bl \<and> int ?al - int ?bl \<le> 1)"
    by blast
  then show ?thesis
  proof cases
    case comba
    then show ?thesis by (simp add: bn_mul_into_def Let_def fst_and_also room)
  next
    case karatsuba
    define l where "l = (if int ?al - int ?bl \<ge> 0 then ?al else ?bl)"
    define j where "j = (2 :: nat) ^ (unat (BN_num_bits_word (of_nat l)) - 1)"
    have "16 \<le> l" "l \<le> 1048575" using karatsuba(2) assms(4,5) by (auto simp: l_def)
    then have "j \<le> 1048575" using top_power [of l] by (auto simp: j_def)
    then have "j * 8 \<le> 8388607" "j * 4 \<le> 8388607" "j * 2 \<le> 8388607" by simp_all
    note r = this [THEN room(1)] this [THEN room(2)]
    show ?thesis
      unfolding bn_mul_into_def Let_def if_not_P [OF karatsuba(1)] if_P [OF karatsuba(2)] l_def [symmetric] j_def [symmetric] option.case
      using r by (simp add: fst_and_also split: prod.split bool.split) (metis fst_conv)
  next
    case normal
    have "?al + ?bl \<le> 8388607" using assms(4,5) by simp
    then show ?thesis
      unfolding bn_mul_into_def Let_def if_not_P [OF normal(1)] if_not_P [OF normal(2)] by (simp add: fst_and_also room)
  qed
qed

lemma static_zero [simp]: "bn_static (BN_zero bn) = bn_static bn"
  by (simp add: BN_zero_def)

lemma static_mul_impl [simp]: "bn_static (snd (bn_mul_impl m get shared r a b)) = bn_static r"
  by (auto simp: bn_mul_impl_def split: option.split prod.split)

lemma bn_mul_impl_room:
  assumes "ample m" "ctx_ample get" "growable r" "bn_ok a" "bn_ok b" "bn_width a \<le> 1048575" "bn_width b \<le> 1048575"
  shows "fst (bn_mul_impl m get shared r a b)"
proof -
  obtain g0 where 0: "get 0 = Some g0" "growable g0" by (rule ctx_ampleE [OF assms(2)])
  obtain g1 where 1: "get 1 = Some g1" "growable g1" by (rule ctx_ampleE [OF assms(2)])
  note into = bn_mul_into_room [OF assms(1) _ _ assms(6,7)]
  obtain ok rr where r: "bn_mul_into m (Some g1) g0 a b = (ok, rr)" by force
  have "ok" using into [OF 1(2) 0(2)] r by simp
  moreover have "bn_ok rr" using bn_mul_into_facts [OF r ample_gives [OF assms(1)] _ _ assms(4,5)] 0(2) 1(2)
    by (simp add: growable_def)
  ultimately show ?thesis using into [OF 0(2) assms(3)] BN_copy_room [OF assms(1,3)] 0(1) 1(1) r
    by (simp add: bn_mul_impl_def)
qed

lemma BN_mul_room:
  assumes "ample m" "ctx_ample get" "growable r" "bn_ok a" "bn_ok b" "bn_width a \<le> 1048575" "bn_width b \<le> 1048575"
  shows "fst (BN_mul m get shared r a b)"
  using bn_mul_impl_room [OF assms] by (simp add: BN_mul_def fst_and_also)

lemma static_sqr_into [simp]: "bn_static (snd (bn_sqr_into m tmp rr a)) = bn_static rr"
  by (auto simp: bn_sqr_into_def Let_def split: prod.split bool.split dest!: static_wexpandD)

lemma bn_sqr_into_room:
  assumes "ample m" "growable t" "growable rr" "bn_width a \<le> 1048575"
  shows "fst (bn_sqr_into m t rr a)"
proof -
  have "fst (bn_wexpand m rr (2 * bn_width a))" "fst (bn_wexpand m t (bn_width a * 4))" "fst (bn_wexpand m t (2 * bn_width a))"
    using assms(4) by (intro bn_wexpand_room [OF assms(1,3)] bn_wexpand_room [OF assms(1,2)]; simp)+
  then show ?thesis by (auto simp: bn_sqr_into_def Let_def split: prod.split bool.split)
qed

lemma bn_sqr_consttime_room:
  assumes "ample m" "ctx_ample get" "growable r" "bn_ok a" "bn_width a \<le> 1048575"
  shows "fst (bn_sqr_consttime m get shared r a)"
proof -
  obtain g0 where 0: "get 0 = Some g0" "growable g0" by (rule ctx_ampleE [OF assms(2)])
  obtain g1 where 1: "get 1 = Some g1" "growable g1" by (rule ctx_ampleE [OF assms(2)])
  note into = bn_sqr_into_room [OF assms(1) _ _ assms(5)]
  obtain ok rr where r: "bn_sqr_into m g1 g0 a = (ok, rr)" by force
  have "ok" using into [OF 1(2) 0(2)] r by simp
  moreover have "bn_width a \<noteq> 0 \<Longrightarrow> bn_ok rr" using bn_sqr_into_facts [OF r ample_gives [OF assms(1)]] 0(2) 1(2) assms(4)
    by (simp add: growable_def)
  ultimately show ?thesis using into [OF 0(2) assms(3)] BN_copy_room [OF assms(1,3)] 0(1) 1(1) r
    by (auto simp: bn_sqr_consttime_def Let_def split: prod.split)
qed

lemma static_sqr_consttime [simp]: "bn_static (snd (bn_sqr_consttime m get False r a)) = bn_static r"
  by (simp add: bn_sqr_consttime_def split: option.split prod.split)

lemma static_productD:
  "bn_sqr_consttime m get False r a = (ok, x) \<Longrightarrow> bn_static x = bn_static r"
  "bn_mul_impl m get shared r a b = (ok, x) \<Longrightarrow> bn_static x = bn_static r"
  by (metis snd_conv static_sqr_consttime) (metis snd_conv static_mul_impl)

lemma BN_sqr_room:
  assumes "ample m" "ctx_ample get" "growable r" "bn_ok a" "bn_width a \<le> 1048575"
  shows "fst (BN_sqr m get shared r a)"
  using bn_sqr_consttime_room [OF assms] by (simp add: BN_sqr_def fst_and_also)

section \<open>Shifts and powers of two\<close>

lemma BN_lshift_room:
  assumes "ample m" "growable r" "0 \<le> n" "bn_width a + nat n div 64 < 8388607"
  shows "fst (BN_lshift m r a n)"
  using bn_wexpand_room(1) [OF assms(1), of "r\<lparr>bn_neg := bn_neg a\<rparr>" "bn_width a + nat n div 64 + 1"] assms
  by (simp add: BN_lshift_def fst_and_also Let_def)

lemma BN_rshift_room:
  assumes "ample m" "growable r" "0 \<le> n" "bn_ok a"
  shows "fst (BN_rshift m r a n)"
  using bn_wexpand_room(1) [OF assms(1,2), of "bn_width a"] assms(3,4) by (simp add: BN_rshift_def fst_and_also bn_ok_def)

lemma bn_rshift_secret_shift_room:
  assumes "ample m" "growable t" "growable r" "bn_ok a"
  shows "fst (bn_rshift_secret_shift m (Some t) r a n)"
proof -
  obtain b where b: "BN_copy m r a = (True, b)" using BN_copy_room(1) [OF assms(1,3,4)] by (rule ok_resultE)
  have "bn_width b \<le> 8388607" using BN_copy_room(2) [OF assms(1,3,4)] b by (simp add: growable_def bn_ok_def)
  then show ?thesis using bn_wexpand_room(1) [OF assms(1,2)] by (simp add: bn_rshift_secret_shift_def b)
qed

lemma static_minimal [simp]: "bn_static (bn_set_minimal_width bn) = bn_static bn"
  by (simp add: bn_set_minimal_width_def Let_def)

lemma BN_mod_pow2_room:
  assumes "ample m" "growable r" "bn_ok a"
  shows "fst (BN_mod_pow2 m r a e)" "growable (snd (BN_mod_pow2 m r a e))"
proof -
  have "bn_width a \<le> 8388607" using assms(3) by (simp add: bn_ok_def)
  then show "fst (BN_mod_pow2 m r a e)" using bn_wexpand_room(1) [OF assms(1,2)] BN_copy_room(1) [OF assms]
    by (simp add: BN_mod_pow2_def fst_and_also Let_def)
  have "bn_static (snd (BN_mod_pow2 m r a e)) = bn_static r"
    unfolding BN_mod_pow2_def Let_def by (simp add: static_store)
  moreover obtain ok r' where 1: "BN_mod_pow2 m r a e = (ok, r')" by force
  ultimately show "growable (snd (BN_mod_pow2 m r a e))"
    using BN_mod_pow2_exact [OF 1 ample_gives [OF assms(1)] growable_ok [OF assms(2)] assms(3)] assms(2) by (simp add: growable_def)
qed

lemma BN_nnmod_pow2_room:
  assumes "ample m" "growable r" "bn_ok a" "e \<le> 64 * 1048575"
  shows "fst (BN_nnmod_pow2 m r a e)"
proof -
  define n where "n = 1 + (e - 1) div 64"
  have n: "n < 8388607" using assms(4) by (simp add: n_def)
  obtain r1 where 1: "BN_mod_pow2 m r a e = (True, r1)" by (rule ok_resultE [OF BN_mod_pow2_room(1) [OF assms(1-3)]])
  have g: "growable r1" using BN_mod_pow2_room(2) [OF assms(1-3), of e] 1 by simp
  have w: "bn_width r1 \<le> n"
    using BN_mod_pow2_exact [OF 1 ample_gives [OF assms(1)] growable_ok [OF assms(2)] assms(3)] by (simp add: n_def)
  show ?thesis
  proof (cases "BN_is_zero r1 \<or> \<not> bn_neg r1")
    case True
    then show ?thesis by (simp add: BN_nnmod_pow2_def 1)
  next
    case False
    have "n \<le> 8388607" using n by simp
    then obtain r2 where 2: "bn_wexpand m r1 n = (True, r2)" by (rule ok_resultE [OF bn_wexpand_room(1) [OF assms(1) g]])
    note x = bn_wexpand_facts [OF 2 ample_gives [OF assms(1)] growable_ok [OF g]]
    define d where "d = set_words (bn_d r2) (bn_width r2) (replicate (n - bn_width r2) 0)"
    define r3 where "r3 = bn_set_minimal_width (r2\<lparr>bn_d := mask_top_word (set_words d 0 (map (\<lambda>w. NOT w) (take n d))) n (e mod 64),
      bn_neg := False, bn_width := n\<rparr>)"
    have "length d = dmax r2" using w x(3,5) by (simp add: d_def)
    then have ok2: "bn_ok (r2\<lparr>bn_d := mask_top_word (set_words d 0 (map (\<lambda>w. NOT w) (take n d))) n (e mod 64),
        bn_neg := False, bn_width := n\<rparr>)" using x(1,5) by (simp add: bn_ok_def)
    have "bn_static r2 = bn_static r1" using 2 by (rule static_wexpandD)
    then have "growable r3" using bn_set_minimal_width_facts(1) [OF ok2] g by (simp add: growable_def r3_def)
    moreover have "bn_width r3 \<le> n"
      using minimal_width_value [of n "bn_d (r2\<lparr>bn_d := mask_top_word (set_words d 0 (map (\<lambda>w. NOT w) (take n d))) n (e mod 64)\<rparr>)"] ok2
      unfolding r3_def bn_set_minimal_width_facts(7) [OF ok2] by (simp add: bn_ok_def)
    moreover have "bn_ok BN_value_one" "bn_width BN_value_one = 1" by (simp_all add: BN_value_one_def bn_ok_def)
    ultimately have "fst (BN_add m r3 r3 BN_value_one)" using BN_add_room [OF assms(1), of r3 r3 BN_value_one] n by (simp add: growable_def)
    then show ?thesis
      unfolding BN_nnmod_pow2_def 1 and_also_simps if_not_P [OF False] Let_def n_def [symmetric] 2 d_def [symmetric] r3_def [symmetric] .
  qed
qed

section \<open>Division\<close>

lemma div_output_room:
  assumes "ample m" "\<forall>bn. out = Some bn \<longrightarrow> growable bn" "bn_ok res"
  shows "fst (div_output m out shared res)"
proof (cases out)
  case (Some t)
  then show ?thesis using BN_copy_room(1) [OF assms(1) _ assms(3), of t] assms(2)
    by (cases "BN_copy m t res") (simp add: div_output_def)
qed (simp add: div_output_def)

lemma bn_div_consttime_room:
  assumes "ample m" "ctx_ample get" "\<forall>q. quot = Some q \<longrightarrow> growable q" "\<forall>r. rem = Some r \<longrightarrow> growable r"
    and ok: "bn_ok numerator" "bn_ok divisor" and sign: "\<not> (bn_neg numerator \<or> bn_neg divisor)" and nz: "bn_abs divisor \<noteq> 0"
    and min: "min_bits \<le> BN_num_bits divisor"
  shows "bn_div_consttime m get quot q_shared rem r_shared numerator divisor min_bits \<noteq> None"
proof -
  let ?n = "bn_words numerator" and ?m = "bn_words divisor"
  let ?q_new = "quot = None \<or> q_shared" and ?r_new = "rem = None \<or> r_shared"
  have ln: "length ?n = bn_width numerator" "length ?m = bn_width divisor" using ok by (simp_all add: length_bn_words)
  have zero: "\<not> BN_is_zero divisor" using nz by (simp add: BN_is_zero_iff)
  define k where "k = (if min_bits > 0 then Orderings.min ((min_bits - 1) div 64) (bn_width numerator) else 0)"
  define rd where "rd = set_words (replicate (bn_width divisor) 0) 0 (drop (bn_width numerator - k) ?n)"
  obtain qd' rd' where loop: "div_loop ?n ?m (bn_width numerator - k) (replicate (bn_width numerator) 0, rd) = (qd', rd')" by force
  have "div_state ?n ?m 0 (qd', rd')"
    unfolding loop [symmetric] rd_def
    by (rule div_loop_value, use ln in simp, use nz in \<open>simp add: bn_abs_def\<close>,
        rule div_start [OF ok(2) nz min, of k ?n, unfolded ln], simp add: k_def)
  then have v: "length qd' = bn_width numerator" "length rd' = bn_width divisor" by (simp_all add: div_state_def ln)
  define Q where "Q = (if ?q_new then get 0 else quot)"
  define R where "R = (if ?r_new then get (if ?q_new then 1 else 0) else rem)"
  define T where "T = get ((if ?q_new then 1 else 0) + (if ?r_new then 1 else 0))"
  have some: "\<exists>bn. get i = Some bn \<and> growable bn" for i using assms(2) by (simp add: ctx_ample_def)
  have "\<exists>q. Q = Some q \<and> growable q" using some assms(3) by (cases quot) (simp_all add: Q_def)
  then obtain q where q: "Q = Some q" "growable q" by blast
  have "\<exists>r. R = Some r \<and> growable r" using some assms(4) by (cases rem) (simp_all add: R_def)
  then obtain r where r: "R = Some r" "growable r" by blast
  obtain t where t: "T = Some t" "growable t" using some by (auto simp: T_def)
  have w: "bn_width numerator \<le> 8388607" "bn_width divisor \<le> 8388607" using ok by (simp_all add: bn_ok_def)
  obtain q1 where 1: "bn_wexpand m q (bn_width numerator) = (True, q1)" by (rule ok_resultE [OF bn_wexpand_room(1) [OF assms(1) q(2) w(1)]])
  obtain r1 where 2: "bn_wexpand m r (bn_width divisor) = (True, r1)" by (rule ok_resultE [OF bn_wexpand_room(1) [OF assms(1) r(2) w(2)]])
  obtain t1 where 3: "bn_wexpand m t (bn_width divisor) = (True, t1)" by (rule ok_resultE [OF bn_wexpand_room(1) [OF assms(1) t(2) w(2)]])
  note x = bn_wexpand_facts [OF 1 ample_gives [OF assms(1)] growable_ok [OF q(2)]]
  note y = bn_wexpand_facts [OF 2 ample_gives [OF assms(1)] growable_ok [OF r(2)]]
  have "bn_ok (q1\<lparr>bn_d := set_words (bn_d q1) 0 qd', bn_width := bn_width numerator, bn_neg := False\<rparr>)"
    using bn_stored(1) [OF x(1), of qd'] x(5) v by (simp add: bn_ok_def)
  then obtain q2 where 4: "div_output m quot q_shared (q1\<lparr>bn_d := set_words (bn_d q1) 0 qd', bn_width := bn_width numerator, bn_neg := False\<rparr>) = (True, q2)"
    by (rule ok_resultE [OF div_output_room [OF assms(1,3)]])
  have "bn_ok (r1\<lparr>bn_d := set_words (bn_d r1) 0 rd', bn_width := bn_width divisor, bn_neg := False\<rparr>)"
    using bn_stored(1) [OF y(1), of rd'] y(5) v by (simp add: bn_ok_def)
  then obtain r2 where 5: "div_output m rem r_shared (r1\<lparr>bn_d := set_words (bn_d r1) 0 rd', bn_width := bn_width divisor, bn_neg := False\<rparr>) = (True, r2)"
    by (rule ok_resultE [OF div_output_room [OF assms(1,4)]])
  show ?thesis
    unfolding bn_div_consttime_def if_not_P [OF sign] if_not_P [OF zero] Let_def Q_def [symmetric] R_def [symmetric] T_def [symmetric]
      k_def [symmetric] rd_def [symmetric] loop
    by (simp add: q(1) r(1) t(1) 1 2 3 4 5)
qed

section \<open>Sums modulo a number\<close>

lemma bn_scratch_space_room:
  assumes "ample m" "growable b" "w \<le> 8388607"
  obtains c where "bn_scratch_space_from_ctx m (Some b) w = Some c" "growable c"
proof -
  obtain b' where b': "bn_wexpand m b w = (True, b')" by (rule ok_resultE [OF bn_wexpand_room(1) [OF assms]])
  have "growable b'" "w \<le> dmax b'"
    using bn_wexpand_room(2) [OF assms] bn_wexpand_facts(5) [OF b' ample_gives [OF assms(1)] growable_ok [OF assms(2)]] b' by simp_all
  then have "growable (b'\<lparr>bn_neg := False, bn_width := w\<rparr>)" by (simp add: growable_def bn_ok_def)
  then show ?thesis using that b' by (simp add: bn_scratch_space_from_ctx_def)
qed

lemma bn_resized_room:
  assumes "ample m" "growable b" "w \<le> 8388607" "bn_ok a"
  shows "bn_resized_from_ctx m (Some b) a w \<noteq> None"
proof (cases "bn_width a \<ge> w")
  case False
  obtain c where c: "bn_scratch_space_from_ctx m (Some b) w = Some c" "growable c" by (rule bn_scratch_space_room [OF assms(1-3)])
  obtain d where d: "BN_copy m c a = (True, d)" by (rule ok_resultE [OF BN_copy_room(1) [OF assms(1) c(2) assms(4)]])
  have gd: "growable d" using BN_copy_room(2) [OF assms(1) c(2) assms(4)] d by simp
  have da: "bn_abs d = bn_abs a" using BN_copy_facts(2) [OF d ample_gives [OF assms(1)] growable_ok [OF c(2)] assms(4)] by (simp add: bn_abs_def)
  have "bn_abs a < 2 ^ (64 * bn_width a)" using wval_less [of "bn_words a"] length_bn_words [OF assms(4)] by (simp add: bn_abs_def)
  also have "\<dots> \<le> 2 ^ (64 * w)" using False by (intro power_increasing) simp_all
  finally have "bn_abs d < 2 ^ (64 * w)" unfolding da .
  then obtain e where "bn_resize_words m d w = (True, e)" by (rule ok_resultE [OF bn_resize_words_room(1) [OF assms(1) gd assms(3)]])
  then show ?thesis using False c d by (simp add: bn_resized_from_ctx_def)
qed (simp add: bn_resized_from_ctx_def)

lemma mod_op_room:
  assumes "ample m" "ctx_ample get" "growable r" "bn_ok a" "bn_ok b" "bn_ok md"
  shows "fst (mod_op_consttime op m get r a b md)"
    "bn_static (snd (mod_op_consttime op m get r a b md)) = bn_static r"
proof -
  let ?w = "bn_width md"
  have w: "?w \<le> 8388607" using assms(6) by (simp add: bn_ok_def)
  define i where "i = resize_gets a ?w"
  define j where "j = i + resize_gets b ?w"
  obtain g0 where 0: "get 0 = Some g0" "growable g0" by (rule ctx_ampleE [OF assms(2)])
  obtain g1 where 1: "get i = Some g1" "growable g1" by (rule ctx_ampleE [OF assms(2)])
  obtain g2 where 2: "get j = Some g2" "growable g2" by (rule ctx_ampleE [OF assms(2)])
  obtain a' where a: "bn_resized_from_ctx m (get 0) a ?w = Some a'" using bn_resized_room [OF assms(1) 0(2) w assms(4)] 0(1) by auto
  obtain b' where b: "bn_resized_from_ctx m (get i) b ?w = Some b'" using bn_resized_room [OF assms(1) 1(2) w assms(5)] 1(1) by auto
  obtain t where t: "bn_scratch_space_from_ctx m (get j) ?w = Some t" unfolding 2(1) by (rule bn_scratch_space_room [OF assms(1) 2(2) w])
  show "fst (mod_op_consttime op m get r a b md)"
    using bn_wexpand_room(1) [OF assms(1,3) w]
    by (simp add: mod_op_consttime_def Let_def i_def [symmetric] j_def [symmetric] a b t fst_and_also)
  show "bn_static (snd (mod_op_consttime op m get r a b md)) = bn_static r"
    by (simp add: mod_op_consttime_def Let_def i_def [symmetric] j_def [symmetric] a b t static_store)
qed

lemma mod_lshift_loop_room:
  assumes "ample m" "\<forall>i. ctx_ample (gets i)" "growable r" "bn_ok md" "bn_abs r < bn_abs md"
  shows "fst (mod_lshift_loop m gets md i n r)" "bn_static (snd (mod_lshift_loop m gets md i n r)) = bn_static r"
proof -
  have "fst (mod_lshift_loop m gets md i n r) \<and> bn_static (snd (mod_lshift_loop m gets md i n r)) = bn_static r"
    using assms(3,5)
  proof (induction n arbitrary: i r)
    case (Suc n)
    have g: "ctx_ample (gets i)" using assms(2) by simp
    have okr: "bn_ok r" using Suc.prems(1) by (rule growable_ok)
    note room = mod_op_room [OF assms(1) g Suc.prems(1) okr okr assms(4), of bn_mod_add_words, folded bn_mod_add_consttime_def]
    obtain r' where 1: "bn_mod_add_consttime m (gets i) r r r md = (True, r')" by (rule ok_resultE [OF room(1)])
    have f: "bn_ok r' \<and> bn_abs r' = (bn_abs r + bn_abs r) mod bn_abs md"
      using bn_mod_add_consttime_exact [OF 1 ample_gives [OF assms(1)] ctx_ample_ok [OF g] okr okr okr assms(4)] Suc.prems(2) by simp
    have st: "bn_static r' = bn_static r" using room(2) 1 by simp
    have "growable r'" "bn_abs r' < bn_abs md" using f st Suc.prems by (simp_all add: growable_def)
    from Suc.IH [OF this, of "Suc i"] show ?case by (simp add: bn_mod_lshift1_consttime_def 1 st)
  qed simp
  then show "fst (mod_lshift_loop m gets md i n r)" "bn_static (snd (mod_lshift_loop m gets md i n r)) = bn_static r" by blast+
qed

lemma bn_mod_lshift_consttime_room:
  assumes "ample m" "\<forall>i. ctx_ample (gets i)" "growable r" "bn_ok a" "bn_ok md" "bn_abs a < bn_abs md" "\<not> bn_neg a"
  shows "fst (bn_mod_lshift_consttime m gets r a n md)" "growable (snd (bn_mod_lshift_consttime m gets r a n md))"
proof -
  obtain c where c: "BN_copy m r a = (True, c)" by (rule ok_resultE [OF BN_copy_room(1) [OF assms(1,3,4)]])
  have g: "growable c" using BN_copy_room(2) [OF assms(1,3,4)] c by simp
  have "bn_abs c = bn_abs a" using BN_copy_facts(2) [OF c ample_gives [OF assms(1)] growable_ok [OF assms(3)] assms(4)] by (simp add: bn_abs_def)
  then have less: "bn_abs c < bn_abs md" using assms(6) by simp
  note room = mod_lshift_loop_room [OF assms(1,2) g assms(5) less]
  show "fst (bn_mod_lshift_consttime m gets r a n md)" using room(1) by (simp add: bn_mod_lshift_consttime_def c)
  obtain r' where 1: "mod_lshift_loop m gets md 0 (nat n) c = (True, r')" by (rule ok_resultE [OF room(1)])
  then have 2: "bn_mod_lshift_consttime m gets r a n md = (True, r')" by (simp add: bn_mod_lshift_consttime_def c)
  have "bn_static r' = bn_static c" using room(2) [of 0 "nat n"] 1 by simp
  moreover have "\<forall>i. ctx_ok (gets i)" using assms(2) ctx_ample_ok by blast
  then have "bn_ok r'"
    using bn_mod_lshift_consttime_exact [OF 2 ample_gives [OF assms(1)] _ growable_ok [OF assms(3)] assms(4-7)] by simp
  ultimately show "growable (snd (bn_mod_lshift_consttime m gets r a n md))"
    using g 1 by (simp add: growable_def bn_mod_lshift_consttime_def c)
qed

section \<open>Montgomery contexts\<close>

lemma BN_set_bit_room:
  assumes "ample m" "growable a" "0 \<le> n" "nat n div 64 < 8388607"
  shows "fst (BN_set_bit m a n)" "bn_static (snd (BN_set_bit m a n)) = bn_static a"
proof -
  have "nat n div 64 + 1 \<le> 8388607" using assms(4) by simp
  note w = bn_wexpand_room(1) [OF assms(1,2) this]
  show "fst (BN_set_bit m a n)" using assms(3) w by (simp add: BN_set_bit_def fst_and_also Let_def)
  show "bn_static (snd (BN_set_bit m a n)) = bn_static a"
    using w by (cases "bn_wexpand m a (nat n div 64 + 1)") (auto simp: BN_set_bit_def and_also_def Let_def dest: static_wexpandD)
qed

lemma bn_num_bits_width:
  assumes "bn_ok n" "bn_abs n \<noteq> 0"
  shows "BN_num_bits n \<le> 64 * bn_width n"
proof -
  have "(2 :: nat) ^ (BN_num_bits n - 1) \<le> bn_abs n" using BN_num_bits_value(2) [OF assms] by simp
  also have "\<dots> < 2 ^ (64 * bn_width n)" using wval_less [of "bn_words n"] length_bn_words [OF assms(1)] by (simp add: bn_abs_def)
  finally have "BN_num_bits n - 1 < 64 * bn_width n" by (simp add: power_strict_increasing_iff)
  then show ?thesis by simp
qed

lemma bn_mod_exp_base_2_total:
  assumes "ample m" "\<forall>i. ctx_ample (gets i)" "growable r" "bn_ok n" "odd (bn_abs n)" "BN_num_bits n \<le> p + 1"
  obtains r' where "bn_mod_exp_base_2_consttime m gets r p n = (True, r')" "growable r'" "\<not> bn_neg r'"
    "bn_abs r' = 2 ^ p mod bn_abs n"
proof -
  have nz: "bn_abs n \<noteq> 0" using assms(5) by (metis even_zero)
  define k where "k = BN_num_bits n - 1"
  have v: "BN_num_bits n = Suc k" "2 ^ k \<le> bn_abs n" "bn_abs n < 2 ^ Suc k"
    using BN_num_bits_value(1,2) [OF assms(4)] nz by (simp_all add: k_def)
  have z: "growable (BN_zero r)" "bn_abs (BN_zero r) = 0" "\<not> bn_neg (BN_zero r)"
    using assms(3) by (simp_all add: growable_def bn_ok_def BN_zero_def bn_abs_def bn_words_def)
  show ?thesis
  proof (cases k)
    case 0
    then have "bn_abs n = 1" using v by simp
    then show ?thesis using that [of "BN_zero r"] z 0 v(1) by (simp add: bn_mod_exp_base_2_consttime_def Let_def)
  next
    case (Suc j)
    then have "bn_abs n \<noteq> 2 ^ k" using assms(5) by auto
    then have less: "2 ^ k < bn_abs n" using v(2) by simp
    have "Suc k \<le> 64 * bn_width n" using bn_num_bits_width [OF assms(4) nz] v(1) by simp
    then have "k < 8388607 * 64" using assms(4) by (simp add: bn_ok_def)
    then have "nat (int k) div 64 < 8388607" by (simp add: less_mult_imp_div_less)
    note room = BN_set_bit_room [OF assms(1) z(1) _ this]
    obtain b where b: "BN_set_bit m (BN_zero r) (int k) = (True, b)" by (rule ok_resultE [OF room(1)]) simp
    note f = BN_set_bit_exact [OF b ample_gives [OF assms(1)] growable_ok [OF z(1)]]
    have bv: "growable b" "bn_abs b = 2 ^ k" "\<not> bn_neg b"
      using f z room(2) b assms(3) by (simp_all add: growable_def set_bit_eq)
    obtain r' where s: "bn_mod_lshift_consttime m gets b b (int p - int k) n = (True, r')"
      by (rule ok_resultE [OF bn_mod_lshift_consttime_room(1) [OF assms(1,2) bv(1) growable_ok [OF bv(1)] assms(4) _ bv(3)]])
        (use bv(2) less in simp)
    have "growable r'"
      using bn_mod_lshift_consttime_room(2) [OF assms(1,2) bv(1) growable_ok [OF bv(1)] assms(4) _ bv(3), of "int p - int k"] bv(2) less s
      by simp
    moreover have "\<forall>i. ctx_ok (gets i)" using assms(2) ctx_ample_ok by blast
    then have "bn_abs r' = 2 ^ k * 2 ^ nat (int p - int k) mod bn_abs n \<and> \<not> bn_neg r'"
      using bn_mod_lshift_consttime_exact [OF s ample_gives [OF assms(1)] _ growable_ok [OF bv(1)] growable_ok [OF bv(1)] assms(4)] bv less
      by simp
    moreover have "2 ^ k * 2 ^ nat (int p - int k) = (2 :: nat) ^ p" using assms(6) v(1) by (simp flip: power_add)
    ultimately show ?thesis using that [of r'] v(1) Suc b s by (simp add: bn_mod_exp_base_2_consttime_def Let_def)
  qed
qed

lemma BN_MONT_CTX_new_consttime_total:
  assumes "ample m" "\<forall>i. ctx_ample (gets i)" "bn_ok md" "odd (bn_abs md)" "\<not> bn_neg md"
  obtains mont where "BN_MONT_CTX_new_consttime m gets True md = Some mont" "mont_ok mont" "mont_RR_ok mont"
    "bn_abs (mont_N mont) = bn_abs md" "bn_width (mont_RR mont) = bn_width (mont_N mont)" "bn_width (mont_N mont) \<le> bn_width md"
proof -
  let ?new = "\<lparr>mont_RR = BN_init, mont_N = BN_init, mont_n0 = 0\<rparr>"
  have init: "growable BN_init" by (simp add: growable_def bn_ok_def BN_init_def)
  have "bn_abs md \<noteq> 0" using assms(4) by (metis even_zero)
  then have c: "\<not> BN_is_zero md" "BN_is_odd md" using assms(3,4) by (simp_all add: BN_is_zero_iff BN_is_odd_iff)
  obtain n where n: "BN_copy m BN_init md = (True, n)" by (rule ok_resultE [OF BN_copy_room(1) [OF assms(1) init assms(3)]])
  define mont where "mont = ?new\<lparr>mont_N := bn_set_minimal_width n, mont_n0 := bn_mont_n0 (bn_set_minimal_width n)\<rparr>"
  have 1: "bn_mont_ctx_set_N_and_n0 m ?new md = Some mont"
    using c assms(5) n by (simp add: bn_mont_ctx_set_N_and_n0_def mont_def Let_def)
  have ok: "mont_ok mont" "bn_int (mont_N mont) = bn_int md" "mont_RR mont = BN_init"
    using bn_mont_ctx_set_N_and_n0_exact [OF 1 ample_gives [OF assms(1)] _ assms(3)] growable_ok [OF init] by simp_all
  have N: "bn_abs (mont_N mont) = bn_abs md" using ok(1,2) assms(5) by (simp add: bn_int_def mont_ok_def)
  note f = BN_copy_facts [OF n ample_gives [OF assms(1)] growable_ok [OF init] assms(3)]
  have "bn_width (mont_N mont) \<le> bn_width md"
    using bn_set_minimal_width_facts(7) [OF f(1)] minimal_width_value [of "bn_width n" "bn_d n"] f by (simp add: mont_def bn_ok_def)
  note w = this
  have okN: "bn_ok (mont_N mont)" "odd (bn_abs (mont_N mont))" using ok(1) by (simp_all add: mont_ok_def)
  let ?w = "bn_width (mont_N mont)"
  have "BN_num_bits (mont_N mont) \<le> ?w * 64 * 2 + 1"
    using bn_num_bits_width [OF okN(1)] okN(2) by (cases "bn_abs (mont_N mont) = 0") auto
  from bn_mod_exp_base_2_total [OF assms(1,2) init okN this] obtain rr where
    rr: "bn_mod_exp_base_2_consttime m gets BN_init (?w * 64 * 2) (mont_N mont) = (True, rr)" "growable rr" "\<not> bn_neg rr"
      "bn_abs rr = 2 ^ (?w * 64 * 2) mod bn_abs (mont_N mont)" by blast
  have "bn_abs rr < bn_abs (mont_N mont)" unfolding rr(4) using mont_N_pos [OF ok(1)] by (rule mod_less_divisor)
  also have "\<dots> < 2 ^ (64 * ?w)" using mont_N_less [OF ok(1)] by (simp add: mont_R_def)
  finally have fits: "bn_abs rr < 2 ^ (64 * ?w)" .
  have "?w \<le> 8388607" using okN(1) by (simp add: bn_ok_def)
  from bn_resize_words_room(1) [OF assms(1) rr(2) this fits] obtain rr' where rr': "bn_resize_words m rr ?w = (True, rr')"
    by (rule ok_resultE)
  note g = bn_resize_words_facts [OF rr' ample_gives [OF assms(1)] growable_ok [OF rr(2)]]
  have "BN_MONT_CTX_new_consttime m gets True md = Some (mont\<lparr>mont_RR := rr'\<rparr>)"
    using 1 rr(1) rr' ok(3) by (simp add: BN_MONT_CTX_new_consttime_def BN_MONT_CTX_new_def Let_def)
  moreover have "mont_ok (mont\<lparr>mont_RR := rr'\<rparr>)" using ok(1) by (simp add: mont_ok_def)
  moreover have "(2 :: nat) ^ (?w * 64 * 2) = 2 ^ (64 * ?w) * 2 ^ (64 * ?w)" by (simp add: mult.commute flip: power_add)
  then have "mont_RR_ok (mont\<lparr>mont_RR := rr'\<rparr>)" using g rr(3,4) by (simp add: mont_RR_ok_def mont_R_def)
  ultimately show ?thesis using that N w g(2) by simp
qed

section \<open>Montgomery products\<close>

lemma BN_from_montgomery_word_room:
  assumes "ample m" "mont_ok mont" "growable ret" "growable r" "\<not> bn_neg r"
    and "bn_abs r < bn_abs (mont_N mont) * mont_R mont" "bn_width (mont_N mont) \<le> 1048575"
  shows "fst (BN_from_montgomery_word m ret r mont)"
proof -
  let ?w = "bn_width (mont_N mont)"
  have "bn_abs (mont_N mont) * mont_R mont \<le> mont_R mont * mont_R mont"
    using mont_N_less [OF assms(2)] by (intro mult_le_mono1) simp
  moreover have "mont_R mont * mont_R mont = 2 ^ (64 * (2 * ?w))" by (simp add: mont_R_def flip: power_add)
  ultimately have fits: "bn_abs r < 2 ^ (64 * (2 * ?w))" using assms(6) by linarith
  have w: "2 * ?w \<le> 8388607" "?w \<le> 8388607" "?w \<noteq> 0" using assms(7) mont_width [OF assms(2)] by simp_all
  obtain r1 where 1: "bn_resize_words m r (2 * ?w) = (True, r1)"
    by (rule ok_resultE [OF bn_resize_words_room(1) [OF assms(1,4) w(1) fits]])
  note f = bn_resize_words_facts [OF 1 ample_gives [OF assms(1)] growable_ok [OF assms(4)]]
  obtain ret1 where 2: "bn_wexpand m ret ?w = (True, ret1)" by (rule ok_resultE [OF bn_wexpand_room(1) [OF assms(1,3) w(2)]])
  have l: "length (bn_words r1) = 2 * ?w" using f length_bn_words [OF f(1)] by simp
  have v: "wval (bn_words r1) < bn_abs (mont_N mont) * mont_R mont" using f(2) assms(6) unfolding bn_abs_def [of r1, symmetric] by simp
  obtain ws where "bn_from_montgomery_in_place ?w (bn_words r1) mont = Some ws"
    using bn_from_montgomery_in_place_exact [OF assms(2) l v] by blast
  then show ?thesis using assms(5) w(3) by (simp add: BN_from_montgomery_word_def 1 2 Let_def)
qed

lemma BN_from_montgomery_room:
  assumes "ample m" "ctx_ample get" "mont_ok mont" "growable r" "bn_ok a" "\<not> bn_neg a"
    and "bn_abs a < bn_abs (mont_N mont) * mont_R mont" "bn_width (mont_N mont) \<le> 1048575"
  shows "fst (BN_from_montgomery m get r a mont)"
proof -
  obtain t where t: "get 0 = Some t" "growable t" by (rule ctx_ampleE [OF assms(2)])
  obtain c where c: "BN_copy m t a = (True, c)" by (rule ok_resultE [OF BN_copy_room(1) [OF assms(1) t(2) assms(5)]])
  have "growable c" using BN_copy_room(2) [OF assms(1) t(2) assms(5)] c by simp
  moreover have "bn_abs c = bn_abs a" "bn_neg c = bn_neg a"
    using BN_copy_facts(2) [OF c ample_gives [OF assms(1)] growable_ok [OF t(2)] assms(5)] by (simp_all add: bn_abs_def)
  ultimately show ?thesis using BN_from_montgomery_word_room [OF assms(1,3,4), of c] assms(6-8) by (simp add: BN_from_montgomery_def t(1) c)
qed

lemma BN_mod_mul_montgomery_room:
  assumes "ample m" "ctx_ample get" "ctx_ample get'" "mont_ok mont" "growable r" "bn_ok a" "bn_ok b" "\<not> bn_neg a" "\<not> bn_neg b"
    and "bn_width a \<le> 1048575" "bn_width b \<le> 1048575" "bn_width (mont_N mont) \<le> 1048575"
    and "same \<Longrightarrow> a = b" "bn_abs a * bn_abs b < bn_abs (mont_N mont) * mont_R mont"
  shows "fst (BN_mod_mul_montgomery m get get' same r a b mont)"
proof -
  obtain t where t: "get 0 = Some t" "growable t" by (rule ctx_ampleE [OF assms(2)])
  define p where "p = (if same then bn_sqr_consttime m get' False t a else bn_mul_consttime m get' False t a b)"
  have "fst p" using bn_sqr_consttime_room [OF assms(1,3) t(2) assms(6,10)] bn_mul_impl_room [OF assms(1,3) t(2) assms(6,7,10,11)] assms(8,9)
    by (simp add: p_def bn_mul_consttime_def)
  then obtain x where x: "p = (True, x)" by (rule ok_resultE)
  have "bn_static x = bn_static t"
    using x assms(8,9) by (cases same) (auto simp: p_def bn_mul_consttime_def dest: static_productD)
  moreover have "bn_ok x \<and> \<not> bn_neg x \<and> bn_abs x = bn_abs a * bn_abs b"
  proof (cases same)
    case True
    then show ?thesis
      using bn_sqr_consttime_facts [OF _ ample_gives [OF assms(1)] ctx_ample_ok [OF assms(3)] growable_ok [OF t(2)] assms(6)] x assms(13)
      by (simp add: p_def)
  next
    case False
    then show ?thesis
      using bn_mul_impl_facts [OF _ ample_gives [OF assms(1)] ctx_ample_ok [OF assms(3)] growable_ok [OF t(2)] assms(6,7)] x assms(8,9)
      by (simp add: p_def bn_mul_consttime_def)
  qed
  ultimately have "growable x \<and> \<not> bn_neg x \<and> bn_abs x = bn_abs a * bn_abs b" using t(2) by (simp add: growable_def)
  then show ?thesis using BN_from_montgomery_word_room [OF assms(1,4,5), of x] assms(8,9,12,14) x
    by (simp add: BN_mod_mul_montgomery_def bn_mod_mul_montgomery_fallback_def t(1) p_def [symmetric])
qed

text \<open>Into Montgomery form, a product there, and back.\<close>

lemma montgomery_product_total:
  assumes "ample m" "\<forall>i. ctx_ample (gets i)" "ctx_ample get" "ctx_ample get'" "growable r"
    and "bn_ok md" "odd (bn_abs md)" "\<not> bn_neg md" "bn_width md \<le> 1048575"
    and "bn_ok a" "\<not> bn_neg a" "bn_abs a < bn_abs md" "bn_width a \<le> 1048575"
    and "bn_ok b" "\<not> bn_neg b" "bn_abs b < bn_abs md" "bn_width b \<le> 1048575"
  shows "\<exists>mont x y z w. BN_MONT_CTX_new_consttime m gets True md = Some mont \<and>
    BN_to_montgomery m get get' r a mont = (True, x) \<and> BN_to_montgomery m get get' r b mont = (True, y) \<and>
    BN_mod_mul_montgomery m get get' False r x y mont = (True, z) \<and> BN_from_montgomery m get r z mont = (True, w) \<and>
    bn_int w = bn_int a * bn_int b mod bn_int md"
proof -
  from BN_MONT_CTX_new_consttime_total [OF assms(1,2,6-8)] obtain mont where
    mont: "BN_MONT_CTX_new_consttime m gets True md = Some mont" "mont_ok mont" "mont_RR_ok mont"
    "bn_abs (mont_N mont) = bn_abs md" "bn_width (mont_RR mont) = bn_width (mont_N mont)" "bn_width (mont_N mont) \<le> bn_width md" by blast
  let ?N = "bn_abs md" and ?R = "mont_R mont"
  note gs = ample_gives [OF assms(1)] ctx_ample_ok [OF assms(3)] ctx_ample_ok [OF assms(4)]
  have R: "?N < ?R" using mont_N_less [OF mont(2)] mont(4) by simp
  have w: "bn_width (mont_N mont) \<le> 1048575" using mont(6) assms(9) by simp
  have rr: "bn_ok (mont_RR mont)" "\<not> bn_neg (mont_RR mont)" "bn_width (mont_RR mont) \<le> 1048575" "bn_abs (mont_RR mont) < ?N"
    using mont(3-5) w mont_N_pos [OF mont(2)] by (simp_all add: mont_RR_ok_def)
  have into: "\<exists>x. BN_to_montgomery m get get' r c mont = (True, x) \<and> bn_ok x \<and> \<not> bn_neg x \<and> bn_abs x = bn_abs c * ?R mod ?N \<and>
      bn_width x \<le> 1048575" if c: "bn_ok c" "\<not> bn_neg c" "bn_abs c < ?N" "bn_width c \<le> 1048575" for c
  proof -
    have less: "bn_abs c * bn_abs (mont_RR mont) < bn_abs (mont_N mont) * ?R"
      unfolding mont(4) using c(3) rr(4) R by (intro mult_strict_mono) simp_all
    have "fst (BN_to_montgomery m get get' r c mont)" unfolding BN_to_montgomery_def
      by (rule BN_mod_mul_montgomery_room [OF assms(1,3,4) mont(2) assms(5) c(1) rr(1) c(2) rr(2) c(4) rr(3) w _ less]) simp
    then obtain x where x: "BN_to_montgomery m get get' r c mont = (True, x)" by (rule ok_resultE)
    have "bn_abs c < ?R" using c(3) R by simp
    moreover have "bn_width x = bn_width (mont_N mont)"
      using BN_mod_mul_montgomery_exact [OF x [unfolded BN_to_montgomery_def] gs mont(2) growable_ok [OF assms(5)] c(1) rr(1) _ less] by simp
    ultimately show ?thesis
      using BN_to_montgomery_exact [OF x gs mont(2,3) growable_ok [OF assms(5)] c(1)] x w mont(4) by simp
  qed
  obtain x where x: "BN_to_montgomery m get get' r a mont = (True, x)" "bn_ok x" "\<not> bn_neg x" "bn_abs x = bn_abs a * ?R mod ?N"
    "bn_width x \<le> 1048575" using into [OF assms(10-13)] by blast
  obtain y where y: "BN_to_montgomery m get get' r b mont = (True, y)" "bn_ok y" "\<not> bn_neg y" "bn_abs y = bn_abs b * ?R mod ?N"
    "bn_width y \<le> 1048575" using into [OF assms(14-17)] by blast
  have N: "0 < ?N" using mont_N_pos [OF mont(2)] mont(4) by simp
  have xy: "bn_abs x < ?N" "bn_abs y < ?N" using N unfolding x(4) y(4) by simp_all
  then have less: "bn_abs x * bn_abs y < bn_abs (mont_N mont) * ?R" unfolding mont(4) using R by (intro mult_strict_mono) simp_all
  have "fst (BN_mod_mul_montgomery m get get' False r x y mont)"
    by (rule BN_mod_mul_montgomery_room [OF assms(1,3,4) mont(2) assms(5) x(2) y(2) x(3) y(3) x(5) y(5) w _ less]) simp
  then obtain z where z: "BN_mod_mul_montgomery m get get' False r x y mont = (True, z)" by (rule ok_resultE)
  note fz = BN_mod_mul_montgomery_exact [OF z gs mont(2) growable_ok [OF assms(5)] x(2) y(2) _ less, unfolded mont(4)]
  have "bn_abs z < ?N" using fz by simp
  then have "bn_abs z * 1 < bn_abs (mont_N mont) * ?R" unfolding mont(4) using R N by (intro mult_strict_mono) simp_all
  then have zl: "bn_abs z < bn_abs (mont_N mont) * ?R" by simp
  have okz: "bn_ok z" "\<not> bn_neg z" using fz by simp_all
  obtain v where v: "BN_from_montgomery m get r z mont = (True, v)"
    by (rule ok_resultE [OF BN_from_montgomery_room [OF assms(1,3) mont(2) assms(5) okz zl w]])
  note fv = BN_from_montgomery_exact [OF v gs(1,2) mont(2) growable_ok [OF assms(5)] okz(1) zl, unfolded mont(4)]
  have cancel: "p mod ?N = q mod ?N" if "p * ?R mod ?N = q * ?R mod ?N" for p q
    using that cancel_power_2 [of ?N p "64 * bn_width (mont_N mont)" q] assms(7) by (simp add: mont_R_def)
  have "bn_abs z * ?R mod ?N = bn_abs a * bn_abs b * ?R * ?R mod ?N"
    using fz unfolding x(4) y(4) by (simp add: mod_mult_eq ac_simps)
  then have "bn_abs z mod ?N = bn_abs a * bn_abs b * ?R mod ?N" by (rule cancel)
  then have "bn_abs v * ?R mod ?N = bn_abs a * bn_abs b * ?R mod ?N" using fv by simp
  then have "bn_abs v mod ?N = bn_abs a * bn_abs b mod ?N" by (rule cancel)
  then have "bn_abs v = bn_abs a * bn_abs b mod ?N" using fv by simp
  then have "bn_int v = bn_int a * bn_int b mod bn_int md" using fv assms(8,11,15) by (simp add: bn_int_def zmod_int)
  then show ?thesis using mont(1) x(1) y(1) z v by blast
qed

end
