(* ===== verification/Bn_Div.thy ===== *)
theory Bn_Div
  imports Bn_Room
begin

text \<open>
  Division by estimated digits (\<open>BN_div\<close> in \<open>crypto/fipsmodule/bn/div.c\<close>), Knuth's algorithm D: the digit of the quotient
  is estimated from the three highest words of what is left and the two highest of the divisor, whose highest bit is
  set; the estimate is at most 1 too large, and then the divisor is added back. \<open>BN_mod\<close> and \<open>BN_nnmod\<close> are calls of it.
\<close>

section \<open>The operations\<close>

definition bn_div_rem_words :: "u64 \<Rightarrow> u64 \<Rightarrow> u64 \<Rightarrow> u64 \<times> u64" where
  "bn_div_rem_words n0 n1 d0 =
     (let n = push_bit 64 (ucast n0) OR ucast n1 :: u128; quotient = ucast (n div ucast d0) in (quotient, n1 - quotient * d0))"

text \<open>The loop of the code has no bound; it is not known to end before \<open>adjust_digit_value\<close>.\<close>

partial_function (option) adjust_digit :: "u64 \<Rightarrow> u64 \<Rightarrow> u64 \<Rightarrow> u64 \<Rightarrow> u64 \<Rightarrow> u128 \<Rightarrow> u64 option" where
  "adjust_digit d0 d1 n2 q rm t2 =
     (if t2 \<le> push_bit 64 (ucast rm) OR ucast n2 then Some q
      else
        let q = q - 1; rm = rm + d0
        in if rm < d0 then Some q else adjust_digit d0 d1 n2 q rm (t2 - ucast d1))"

definition div_digit :: "u64 \<Rightarrow> u64 \<Rightarrow> u64 \<Rightarrow> u64 \<Rightarrow> u64 \<Rightarrow> u64 option" where
  "div_digit d0 d1 n0 n1 n2 =
     (if n0 = d0 then Some (- 1)
      else let (q, rm) = bn_div_rem_words n0 n1 d0 in adjust_digit d0 d1 n2 q rm (ucast d1 * ucast q))"

text \<open>One digit: \<open>s\<close> is what is left of the numerator, whose words from \<open>j\<close> on are divided, and \<open>d\<close> the divisor.\<close>

definition knuth_step :: "limbs \<Rightarrow> nat \<Rightarrow> limbs \<times> limbs \<Rightarrow> (limbs \<times> limbs) option" where
  "knuth_step d j st =
     (let (s, res) = st; n = length d; d0 = d ! (n - 1); d1 = (if n = 1 then 0 else d ! (n - 2))
      in case div_digit d0 d1 (s ! (j + n)) (s ! (j + n - 1)) (s ! (j + n - 2)) of
           None \<Rightarrow> None
         | Some q \<Rightarrow>
             let (tmp, l0) = bn_mul_words d q;
                 (w, borrow) = bn_sub_words (take (n + 1) (drop j s)) (tmp @ [l0]); s = set_words s j w
             in if borrow \<noteq> 0 then
                  let q = q - 1; (w, carry) = bn_add_words (take n (drop j s)) d; s = set_words s j w
                  in Some (if carry \<noteq> 0 then s[j + n := s ! (j + n) + 1] else s, res[j - 1 := q])
                else Some (s, res[j - 1 := q]))"

primrec knuth_loop :: "limbs \<Rightarrow> nat \<Rightarrow> limbs \<times> limbs \<Rightarrow> (limbs \<times> limbs) option" where
  "knuth_loop d 0 st = Some st"
| "knuth_loop d (Suc j) st = Option.bind (knuth_step d (Suc j) st) (knuth_loop d j)"

text \<open>
  The operands, shifted until the highest bit of the divisor is the highest of its word; the numerator by one more
  word, and with zeros above.
\<close>

definition div_pad :: "bn_malloc \<Rightarrow> bignum \<Rightarrow> nat \<Rightarrow> bool \<times> bignum" where
  "div_pad m snum div_n =
     (let top = (if bn_width snum \<le> div_n + 1 then div_n + 2 else bn_width snum + 1)
      in and_also (bn_wexpand m snum top) (\<lambda>snum.
           (True, snum\<lparr>bn_d := set_words (bn_d snum) (bn_width snum) (replicate (top - bn_width snum) 0), bn_width := top\<rparr>)))"

definition div_remainder :: "bn_malloc \<Rightarrow> bignum option \<Rightarrow> bignum \<Rightarrow> nat \<Rightarrow> bool \<Rightarrow> bool \<times> bignum option" where
  "div_remainder m rem snum norm_shift numerator_neg =
     (case rem of
        None \<Rightarrow> (True, None)
      | Some r \<Rightarrow> let (ok, r) = BN_rshift m r snum (int norm_shift)
                  in (ok, Some (if ok \<and> \<not> BN_is_zero r then r\<lparr>bn_neg := numerator_neg\<rparr> else r)))"

text \<open>
  A missing \<open>quot\<close> is a scratch number. \<open>BN_CTX_get\<close> fails for good once it fails, so the code only looks at the last
  results. \<open>None\<close> is a failure.
\<close>

definition BN_div :: "bn_malloc \<Rightarrow> (nat \<Rightarrow> bignum option) \<Rightarrow> bignum option \<Rightarrow> bignum option \<Rightarrow> bignum \<Rightarrow> bignum \<Rightarrow>
    (bignum option \<times> bignum option) option" where
  "BN_div m get quot rem numerator divisor =
     (let numerator_width = bn_minimal_width numerator; divisor_width = bn_minimal_width divisor
      in if numerator_width > 0 \<and> bn_d numerator ! (numerator_width - 1) = 0 \<or>
            divisor_width > 0 \<and> bn_d divisor ! (divisor_width - 1) = 0 then None
         else if BN_is_zero divisor then None
         else
           case (get 0, get 1, get 2, if quot = None then get 3 else quot) of
             (Some tmp, Some snum, Some sdiv, Some res) \<Rightarrow>
               let norm_shift = 64 - BN_num_bits divisor mod 64; (ok, sdiv) = BN_lshift m sdiv divisor (int norm_shift)
               in if \<not> ok then None
                  else
                    let sdiv = (bn_set_minimal_width sdiv)\<lparr>bn_neg := False\<rparr>; norm_shift = norm_shift + 64;
                        (ok, snum) = BN_lshift m snum numerator (int norm_shift)
                    in if \<not> ok then None
                       else
                         let snum = (bn_set_minimal_width snum)\<lparr>bn_neg := False\<rparr>; div_n = bn_width sdiv;
                             (ok, snum) = div_pad m snum div_n; loop = bn_width snum - div_n;
                             (res_ok, res) = bn_wexpand m (res\<lparr>bn_neg := bn_neg numerator \<noteq> bn_neg divisor\<rparr>) (loop + 1);
                             (tmp_ok, tmp) = bn_wexpand m tmp (div_n + 1)
                         in if \<not> (ok \<and> res_ok \<and> tmp_ok) then None
                            else
                              let res = res\<lparr>bn_width := loop - 1\<rparr>;
                                  res = (if bn_width res = 0 then res\<lparr>bn_neg := False\<rparr> else res)
                              in case knuth_loop (bn_words sdiv) (loop - 1) (bn_words snum, bn_d res) of
                                   None \<Rightarrow> None
                                 | Some (s, d) \<Rightarrow>
                                     let snum = bn_set_minimal_width (snum\<lparr>bn_d := set_words (bn_d snum) 0 s\<rparr>);
                                         (ok, rem) = div_remainder m rem snum norm_shift (bn_neg numerator);
                                         res = bn_set_minimal_width (res\<lparr>bn_d := d\<rparr>)
                                     in if ok then Some (if quot = None then None else Some res, rem) else None
           | _ \<Rightarrow> None)"

text \<open>The remainder alone (\<open>BN_mod\<close> is a macro of \<open>bn.h\<close>), and the one that is not negative.\<close>

definition BN_mod :: "bn_malloc \<Rightarrow> (nat \<Rightarrow> bignum option) \<Rightarrow> bignum \<Rightarrow> bignum \<Rightarrow> bignum \<Rightarrow> bignum option" where
  "BN_mod m get rem numerator divisor = Option.bind (BN_div m get None (Some rem) numerator divisor) snd"

definition BN_nnmod :: "bn_malloc \<Rightarrow> (nat \<Rightarrow> bignum option) \<Rightarrow> bignum \<Rightarrow> bignum \<Rightarrow> bignum \<Rightarrow> bignum option" where
  "BN_nnmod m get r n d =
     (case BN_mod m get r n d of
        None \<Rightarrow> None
      | Some r \<Rightarrow>
          if \<not> bn_neg r then Some r
          else case (if bn_neg d then BN_sub m r r d else BN_add m r r d) of (ok, r) \<Rightarrow> if ok then Some r else None)"

section \<open>The estimate\<close>

lemma unat_wide_word: "unat (push_bit 64 (ucast a) OR ucast b :: u128) = unat a * 2 ^ 64 + unat b" for a b :: u64
proof -
  have "push_bit 64 (ucast a) AND ucast b = (0 :: u128)"
    by (auto simp: bit_eq_iff bit_simps dest: bit_imp_le_length)
  then have "push_bit 64 (ucast a) OR ucast b = (push_bit 64 (ucast a) + ucast b :: u128)" by (simp add: disjunctive_add_eq_or)
  moreover have "unat a * 2 ^ 64 + unat b < 2 ^ 128"
  proof -
    have "unat a * 2 ^ 64 + unat b < (unat a + 1) * 2 ^ 64" using unat_less_pow(3) [of b] by simp
    also have "\<dots> \<le> 2 ^ 64 * 2 ^ 64" using unat_less_pow(3) [of a] by (intro mult_le_mono1) simp
    finally show ?thesis by simp
  qed
  ultimately show ?thesis
    by (simp add: push_bit_eq_mult unat_word_ariths unsigned_ucast_eq take_bit_eq_mod mod_add_left_eq mod_mult_left_eq)
qed

lemma adjust_digit_value:
  fixes d0 d1 n2 q rm :: u64
  assumes "unat q * unat d0 + unat rm = h" "0 < d0" "unat t2 = unat d1 * unat q"
    and x: "x = h * 2 ^ 64 + unat n2" and y: "y = unat d0 * 2 ^ 64 + unat d1"
  shows "\<exists>q'. adjust_digit d0 d1 n2 q rm t2 = Some q' \<and> unat q' = min (unat q) (x div y)"
  using assms(1,3)
proof (induction "2 ^ 64 - unat rm" arbitrary: q rm t2 rule: less_induct)
  case less
  define B :: nat where "B = 2 ^ 64"
  have lt: "unat d0 < B" "unat d1 < B" "unat n2 < B" "unat rm < B" "unat q < B" using unat_less_pow(3) by (simp_all add: B_def)
  have d0: "0 < unat d0" using assms(2) by (simp add: word_less_nat_alt)
  have y0: "0 < y" using d0 y by simp
  have X: "x = unat q * unat d0 * B + (unat rm * B + unat n2)" unfolding x less.prems(1) [symmetric] B_def by (simp add: distrib_right)
  have Y: "k * y = k * unat d0 * B + k * unat d1" for k unfolding y B_def by (simp add: distrib_left)
  have c: "t2 \<le> push_bit 64 (ucast rm) OR ucast n2 \<longleftrightarrow> unat q * y \<le> x"
    unfolding word_le_nat_alt unat_wide_word less.prems(2) X Y B_def [symmetric] by (simp add: mult.commute)
  show ?case
  proof (cases "unat q * y \<le> x")
    case True
    then have "unat q \<le> x div y" using y0 by (simp add: less_eq_div_iff_mult_less_eq)
    then show ?thesis using True c by (subst adjust_digit.simps) simp
  next
    case False
    then have q0: "0 < unat q" by (cases "unat q") auto
    then have q1: "unat (q - 1) = unat q - 1" by (simp add: unat_minus_one unat_gt_0)
    have div: "x div y \<le> unat q - 1" using False y0 q0 by (metis Suc_pred' less_Suc_eq_le less_mult_imp_div_less not_le)
    have sum: "unat (rm + d0) = (unat rm + unat d0) mod B" by (simp add: unat_word_ariths B_def)
    show ?thesis
    proof (cases "rm + d0 < d0")
      case True
      then have "B \<le> unat rm + unat d0" using sum by (cases "unat rm + unat d0 < B") (simp_all add: word_less_nat_alt)
      then have "B * B \<le> (unat rm + unat d0) * B" by (rule mult_le_mono1)
      moreover have "(unat q - 1) * unat d1 \<le> B * B" using lt by (intro mult_le_mono) simp_all
      moreover have "unat q * unat d0 = (unat q - 1) * unat d0 + unat d0" using q0 by (cases "unat q") simp_all
      ultimately have "(unat q - 1) * y \<le> x" unfolding X Y by (simp add: distrib_right)
      then have "unat q - 1 \<le> x div y" using y0 by (simp add: less_eq_div_iff_mult_less_eq)
      then show ?thesis using False c True div q1 by (subst adjust_digit.simps) simp
    next
      case le: False
      have "unat rm + unat d0 < B"
      proof (rule ccontr)
        assume "\<not> unat rm + unat d0 < B"
        then have "unat (rm + d0) = unat rm + unat d0 - B" using lt sum by (simp add: mod_if)
        then show False using le lt(1,4) \<open>\<not> unat rm + unat d0 < B\<close> unfolding word_less_nat_alt by linarith
      qed
      then have rm: "unat (rm + d0) = unat rm + unat d0" using sum by simp
      have t2: "unat (t2 - ucast d1) = unat d1 * unat (q - 1)"
      proof -
        have "unat d1 * unat q = unat d1 * (unat q - 1) + unat d1" using q0 by (cases "unat q") simp_all
        moreover have "unat (ucast d1 :: u128) = unat d1" by (simp add: unsigned_ucast_eq take_bit_eq_mod)
        ultimately show ?thesis using less.prems(2) q0 by (simp add: unat_sub_if' q1)
      qed
      have "unat (q - 1) * unat d0 + unat (rm + d0) = h" using less.prems(1) q0 unfolding q1 rm by (cases "unat q") simp_all
      moreover have "2 ^ 64 - unat (rm + d0) < 2 ^ 64 - unat rm" using d0 lt unfolding rm B_def by simp
      ultimately obtain q' where q': "adjust_digit d0 d1 n2 (q - 1) (rm + d0) (t2 - ucast d1) = Some q'" "unat q' = min (unat (q - 1)) (x div y)"
        using less.hyps [OF _ _ t2] by blast
      have "unat q' = min (unat q) (x div y)" using q'(2) div q0 unfolding q1 by simp
      then show ?thesis using q'(1) False c le by (subst adjust_digit.simps) (simp add: Let_def)
    qed
  qed
qed

lemma div_digit_value:
  fixes d0 d1 n0 n1 n2 :: u64
  assumes "0 < d0" "n0 \<le> d0"
    and x: "x = (unat n0 * 2 ^ 64 + unat n1) * 2 ^ 64 + unat n2" and y: "y = unat d0 * 2 ^ 64 + unat d1"
  shows "\<exists>q. div_digit d0 d1 n0 n1 n2 = Some q \<and> unat q = (if n0 = d0 then 2 ^ 64 - 1 else x div y)"
proof (cases "n0 = d0")
  case True
  have "unat (- 1 :: u64) = 2 ^ 64 - 1" by (simp add: unsigned_minus_1_eq_mask mask_eq_exp_minus_1)
  then show ?thesis using True by (simp add: div_digit_def)
next
  case False
  define B :: nat where "B = 2 ^ 64"
  define h where "h = unat n0 * B + unat n1"
  have "n0 < d0" using False assms(2) by simp
  then have lt: "unat n0 < unat d0" "unat d0 < B" "unat n1 < B" "unat n2 < B"
    using unat_less_pow(3) by (simp_all add: B_def word_less_nat_alt)
  have d0: "0 < unat d0" using assms(1) by (simp add: word_less_nat_alt)
  have "h < (unat n0 + 1) * B" using lt(3) by (simp add: h_def)
  also have "\<dots> \<le> unat d0 * B" using lt(1) by (intro mult_le_mono1) simp
  finally have hq: "h div unat d0 < B" by (simp add: less_mult_imp_div_less mult.commute)
  obtain q rm where qr: "bn_div_rem_words n0 n1 d0 = (q, rm)" by force
  have "q = ucast ((push_bit 64 (ucast n0) OR ucast n1 :: u128) div ucast d0)" "rm = n1 - q * d0"
    using qr by (auto simp: bn_div_rem_words_def Let_def)
  moreover have "unat ((push_bit 64 (ucast n0) OR ucast n1 :: u128) div ucast d0) = h div unat d0"
    unfolding unat_div_distrib unat_wide_word h_def B_def by (simp add: unsigned_ucast_eq take_bit_eq_mod)
  ultimately have q: "unat q = h div unat d0" and rm: "rm = n1 - q * d0"
    using hq by (simp_all add: unsigned_ucast_eq take_bit_eq_mod B_def)
  have "(2 :: u64) ^ 64 = 0" by (simp add: exp_eq_zero_iff)
  then have "of_nat h = n1" unfolding h_def B_def of_nat_add of_nat_mult of_nat_power of_nat_numeral
    by (simp only: mult_zero_right add_0) simp
  then have "rm = of_nat h - of_nat (unat q * unat d0)" unfolding rm by simp
  also have "\<dots> = of_nat (h mod unat d0)"
    unfolding q by (metis add_diff_cancel_left' div_mult_mod_eq of_nat_add)
  finally have rm': "rm = of_nat (h mod unat d0)" .
  have "h mod unat d0 < B" using lt(2) d0 mod_less_divisor [of "unat d0" h] by linarith
  then have rmv: "unat rm = h mod unat d0" unfolding rm' by (simp add: unat_of_nat B_def)
  have 1: "unat q * unat d0 + unat rm = h" by (simp add: q rmv)
  have "unat (ucast d1 * ucast q :: u128) = unat d1 * unat q"
    using word_products [of d1 q] by (simp add: unat_word_ariths unsigned_ucast_eq take_bit_eq_mod)
  from adjust_digit_value [OF 1 assms(1) this _ y, of x n2] x
  obtain q' where q': "adjust_digit d0 d1 n2 q rm (ucast d1 * ucast q) = Some q'" "unat q' = min (unat q) (x div y)"
    by (auto simp: h_def B_def)
  have "x div y \<le> x div (unat d0 * B)" using d0 unfolding y B_def by (intro div_le_mono2) simp_all
  also have "x div (unat d0 * B) = x div B div unat d0" by (simp add: mult.commute div_mult2_eq)
  also have "x div B = h" using lt(4) unfolding x h_def B_def by simp
  finally have "unat q' = x div y" using q'(2) q by simp
  then show ?thesis using False qr q'(1) by (simp add: div_digit_def)
qed

text \<open>The two numbers are \<open>x\<close> and \<open>y\<close> with more words below.\<close>

lemma estimate:
  fixes x y a b p q :: nat
  assumes "a < p" "b < p" "q = x div y" "0 < y" "q \<le> y + 1"
  shows "(x * p + a) div (y * p + b) \<le> q" "q \<le> (x * p + a) div (y * p + b) + 1"
proof -
  have p: "0 < p" using assms(1) by simp
  have d: "0 < y * p + b" using assms(4) p by simp
  define k where "k = (x * p + a) div (y * p + b)"
  have "k * (y * p + b) \<le> x * p + a" unfolding k_def by (simp add: mult.commute)
  then have "k * y * p \<le> x * p + a" by (simp add: distrib_left mult.assoc)
  also have "\<dots> < (x + 1) * p" using assms(1) by simp
  finally have "k * y < x + 1" by (simp only: mult_less_cancel2)
  then have "k \<le> x div y" using assms(4) by (simp add: less_eq_div_iff_mult_less_eq)
  then show "(x * p + a) div (y * p + b) \<le> q" by (simp add: k_def assms(3))
  show "q \<le> (x * p + a) div (y * p + b) + 1"
  proof (cases q)
    case (Suc r)
    have "r * b \<le> y * p" using assms(2,5) Suc by (intro mult_le_mono) simp_all
    then have "r * (y * p + b) \<le> Suc r * y * p" by (simp add: distrib_left algebra_simps)
    also have "Suc r * y \<le> x" unfolding Suc [symmetric] assms(3) by (rule div_times_less_eq_dividend)
    then have "Suc r * y * p \<le> x * p" by (rule mult_le_mono1)
    finally have "r \<le> (x * p + a) div (y * p + b)" using d by (simp add: less_eq_div_iff_mult_less_eq)
    then show ?thesis using Suc by simp
  qed simp
qed

text \<open>The two cases of the estimate: the highest words agree and the digit is the largest, or a quotient of words.\<close>

lemma estimate_largest:
  fixes N D e P B :: nat
  assumes "D < (e + 1) * P" "e * B * P \<le> N" "N < D * B" "B \<le> 2 * e"
  shows "N div D \<le> B - 1" "B - 1 \<le> N div D + 1"
proof -
  have D0: "0 < D" using assms(3) by (cases D) simp_all
  have "N div D < B" using assms(3) by (simp add: less_mult_imp_div_less mult.commute)
  then show "N div D \<le> B - 1" by simp
  have "(B - 2) * (e + 1) \<le> e * B"
  proof (cases "2 \<le> B")
    case True
    then obtain c where "B = c + 2" by (metis add.commute le_Suc_ex)
    then show ?thesis using assms(4) by (simp add: algebra_simps)
  qed simp
  then have "(B - 2) * (e + 1) * P \<le> e * B * P" by (rule mult_le_mono1)
  moreover have "(B - 2) * D \<le> (B - 2) * ((e + 1) * P)" using assms(1) by (intro mult_le_mono2) simp
  ultimately have "(B - 2) * D \<le> N" using assms(2) by (simp only: mult.assoc)
  then have "B - 2 \<le> N div D" using D0 by (simp add: less_eq_div_iff_mult_less_eq)
  then show "B - 1 \<le> N div D + 1" by linarith
qed

lemma estimate_small:
  fixes B e0 e1 n0 n1 n2 :: nat
  assumes "n0 < e0" "n1 < B" "n2 < B" and x: "x = (n0 * B + n1) * B + n2" and y: "y = e0 * B + e1"
  shows "0 < y" "x div y \<le> y + 1"
proof -
  have "(n0 + 1) * B * B \<le> e0 * B * B" using assms(1) by (intro mult_le_mono1) simp
  moreover have "x < (n0 * B + n1 + 1) * B" using assms(3) by (simp add: x)
  moreover have "(n0 * B + n1 + 1) * B \<le> (n0 + 1) * B * B" using assms(2) by (intro mult_le_mono1) simp
  ultimately have "x < e0 * B * B" by linarith
  also have "\<dots> \<le> B * y" by (simp add: y distrib_left)
  finally have q: "x div y < B" by (simp add: less_mult_imp_div_less)
  have "1 * B \<le> e0 * B" using assms(1) by (intro mult_le_mono1) simp
  then have "B \<le> y" unfolding y by linarith
  then show "0 < y" "x div y \<le> y + 1" using q assms(2) by simp_all
qed

lemma drop_nths:
  "Suc k < length xs \<Longrightarrow> drop k xs = xs ! k # xs ! Suc k # drop (Suc (Suc k)) xs"
  "Suc (Suc k) < length xs \<Longrightarrow> drop k xs = xs ! k # xs ! Suc k # xs ! Suc (Suc k) # drop (Suc (Suc (Suc k))) xs"
  by (simp_all add: Cons_nth_drop_Suc)

text \<open>The digit is estimated at most 1 too large.\<close>

lemma div_digit_estimate:
  assumes n: "n = length d" "0 < n" and d0: "2 ^ 63 \<le> unat (d ! (n - 1))"
    and s: "0 < j" "j + n < length s" and less: "wval (take (n + 1) (drop j s)) < wval d * 2 ^ 64"
  obtains q where "div_digit (d ! (n - 1)) (if n = 1 then 0 else d ! (n - 2)) (s ! (j + n)) (s ! (j + n - 1)) (s ! (j + n - 2)) = Some q"
    "wval (take (n + 1) (drop j s)) div wval d \<le> unat q" "unat q \<le> wval (take (n + 1) (drop j s)) div wval d + 1"
proof -
  define B :: nat where "B = 2 ^ 64"
  define P :: nat where "P = 2 ^ (64 * (n - 1))"
  let ?N = "wval (take (n + 1) (drop j s))" and ?D = "wval d"
  define n0 n1 n2 where "n0 = s ! (j + n)" and "n1 = s ! (j + n - 1)" and "n2 = s ! (j + n - 2)"
  define e0 e1 where "e0 = d ! (n - 1)" and "e1 = (if n = 1 then 0 else d ! (n - 2))"
  define x where "x = (unat n0 * B + unat n1) * B + unat n2"
  define y where "y = unat e0 * B + unat e1"
  define W where "W = take (n + 2) (drop (j - 1) s)"
  have lt: "unat w < B" for w :: u64 using unat_less_pow(3) [of w] by (simp add: B_def)
  have lW: "length W = n + 2" using s by (simp add: W_def)
  have "drop (n - 1) W = [W ! (n - 1), W ! n, W ! (n + 1)]" using drop_nths(2) [of "n - 1" W] lW n(2) by simp
  moreover have "W ! i = s ! (j - 1 + i)" if "i < n + 2" for i using that s by (simp add: W_def)
  ultimately have "drop (n - 1) W = [n2, n1, n0]" using n(2) s(1) by (simp add: n0_def n1_def n2_def numeral_2_eq_2)
  then have "wval W = wval (take (n - 1) W) + P * x"
    using wval_split [of "n - 1" W] lW by (simp add: P_def x_def B_def algebra_simps)
  moreover have "W = s ! (j - 1) # take (n + 1) (drop j s)"
    using s by (cases j) (simp_all add: W_def Cons_nth_drop_Suc [symmetric])
  then have "wval W = B * ?N + unat (s ! (j - 1))" by (simp add: B_def)
  ultimately have N: "B * ?N + unat (s ! (j - 1)) = x * P + wval (take (n - 1) W)" by simp
  have a: "wval (take (n - 1) W) < P" using wval_take_less [of "n - 1" W] lW by (simp add: P_def)
  have "drop (n - 1) (0 # d) = [e1, e0]"
    using drop_nths(1) [of "n - 1" "0 # d"] n by (cases "n = 1") (auto simp: e0_def e1_def numeral_2_eq_2 nth_Cons' le_Suc_eq)
  then have D: "B * ?D = y * P + wval (take (n - 1) (0 # d))"
    using wval_split [of "n - 1" "0 # d"] n by (simp add: P_def y_def B_def algebra_simps)
  have b: "wval (take (n - 1) (0 # d)) < P" using wval_take_less [of "n - 1" "0 # d"] n by (simp add: P_def)
  have q: "(B * ?N + unat (s ! (j - 1))) div (B * ?D) = ?N div ?D" using lt by (simp add: div_mult2_eq B_def)
  have L: "?N < ?D * B" using less by (simp add: B_def)
  have D0: "0 < ?D" using L by (cases ?D) simp_all
  have B0: "0 < B" by (simp add: B_def)
  have up: "?D < (unat e0 + 1) * P"
  proof -
    have "drop (n - 1) d = [e0]" using Cons_nth_drop_Suc [of "n - 1" d] n by (simp add: e0_def)
    then have "?D = wval (take (n - 1) d) + P * unat e0" using wval_split [of "n - 1" d] n by (simp add: P_def)
    then show ?thesis using wval_take_less [of "n - 1" d] n by (simp add: P_def)
  qed
  have low: "unat n0 * B * P \<le> ?N"
  proof -
    let ?w = "take (n + 1) (drop j s)"
    have l: "length ?w = Suc n" using s by simp
    then have "drop n ?w = [n0]" using Cons_nth_drop_Suc [of n ?w] s by (simp add: n0_def)
    then have "?N = wval (take n ?w) + 2 ^ (64 * n) * unat n0" using wval_split [of n ?w] l by simp
    moreover have "2 ^ (64 * n) = B * P" using pow64_Suc [of "n - 1", where 'a = nat] n(2) by (simp add: B_def P_def)
    ultimately show ?thesis by simp
  qed
  have n0: "unat n0 \<le> unat e0"
  proof -
    have "unat n0 * B * P < (unat e0 + 1) * P * B" using low L up B0 by (meson le_less_trans less_trans mult_less_mono1)
    then have "unat n0 * (B * P) < (unat e0 + 1) * (B * P)" by (simp only: ac_simps)
    then have "unat n0 < unat e0 + 1" by (simp only: mult_less_cancel2)
    then show ?thesis by simp
  qed
  then have "n0 \<le> e0" "0 < e0" using d0 by (simp_all add: word_le_nat_alt word_less_nat_alt e0_def)
  from div_digit_value [OF this(2,1) x_def [unfolded B_def] y_def [unfolded B_def]] obtain q where
    dig: "div_digit e0 e1 n0 n1 n2 = Some q" and qv: "unat q = (if n0 = e0 then B - 1 else x div y)" by (auto simp: B_def)
  have "?N div ?D \<le> unat q \<and> unat q \<le> ?N div ?D + 1"
  proof (cases "n0 = e0")
    case True
    have "B \<le> 2 * unat e0" using d0 by (simp add: e0_def B_def)
    from estimate_largest [OF up low [unfolded True] L this] show ?thesis using True qv by simp
  next
    case False
    then have "unat n0 < unat e0" using n0 by (simp add: word_unat_eq_iff)
    note e = estimate_small [OF this lt lt x_def y_def]
    have qe: "unat q = x div y" using qv False by simp
    from estimate [OF a b qe e(1)] e(2) show ?thesis unfolding N [symmetric] D [symmetric] q by (simp add: qe)
  qed
  then show ?thesis using that dig by (simp add: e0_def e1_def n0_def n1_def n2_def)
qed

section \<open>One digit\<close>

lemma add_back:
  fixes b :: nat
  assumes "w + q * d = n + b * p" "w < b * p" "d < p" "n < q * d" "q * d \<le> n + d" "0 < b"
    and "w = lo + p * hi" "lo < p" "hi < b" "lo' + p * c = lo + d" "lo' < p"
  shows "lo' = n - (q - 1) * d" "hi = b - 1" "c = 1"
proof -
  have q: "0 < q" using assms(4) by (cases q) simp_all
  have wd: "w + d = lo' + p * (hi + c)" using assms(7,10) by (simp add: distrib_left)
  have "b * p \<le> w + d" using assms(1,5) by linarith
  then have "b * p \<le> lo' + p * (hi + c)" unfolding wd .
  then have "p * b < p * (hi + c + 1)" using assms(11) by (simp add: distrib_left mult.commute)
  then have "b < hi + c + 1" by (simp only: mult_less_cancel1)
  then have b: "b \<le> hi + c" by simp
  have "p * c \<le> lo + d" using assms(10) by linarith
  then have "p * c < p * 2" using assms(3,8) by linarith
  then have "c < 2" by (simp only: mult_less_cancel1)
  then show c: "c = 1" using b assms(9) by linarith
  then show hi: "hi = b - 1" using b assms(9) by linarith
  have "hi + c = b" using c hi assms(6) by simp
  then have "w + d = lo' + b * p" using wd by (simp add: mult.commute)
  then have "lo' + q * d = n + d" using assms(1) by linarith
  moreover have "q * d = (q - 1) * d + d" using q by (cases q) simp_all
  ultimately show "lo' = n - (q - 1) * d" by linarith
qed

lemma set_words_twice:
  assumes "j + length w \<le> length s" "length w = length w' + 1"
  shows "(set_words (set_words s j w) j w')[j + length w' := x] = set_words s j (w' @ [x])"
proof -
  obtain u z where w: "w = u @ [z]" using assms(2) by (cases w rule: rev_cases) simp_all
  have 1: "set_words (set_words s j w) j w' = (take j s @ w') @ z # drop (j + length w) s"
    using assms by (simp add: w set_words_def)
  have 2: "j + length w' = length (take j s @ w')" using assms by simp
  have "(set_words (set_words s j w) j w')[j + length w' := x] = (take j s @ w') @ x # drop (j + length w) s"
    unfolding 1 2 by (rule list_update_length)
  then show ?thesis using assms(2) by (simp add: set_words_def)
qed

lemma knuth_step_value:
  assumes n: "n = length d" "0 < n" and d0: "2 ^ 63 \<le> unat (d ! (n - 1))"
    and s: "0 < j" "j + n < length s" and less: "wval (take (n + 1) (drop j s)) < wval d * 2 ^ 64"
  obtains q w where "knuth_step d j (s, res) = Some (set_words s j w, res[j - 1 := q])" "length w = n + 1"
    "unat q = wval (take (n + 1) (drop j s)) div wval d" "wval w = wval (take (n + 1) (drop j s)) mod wval d"
proof -
  define B :: nat where "B = 2 ^ 64"
  define P :: nat where "P = 2 ^ (64 * n)"
  let ?win = "take (n + 1) (drop j s)"
  let ?N = "wval ?win" and ?D = "wval d"
  obtain q where dig: "div_digit (d ! (n - 1)) (if n = 1 then 0 else d ! (n - 2)) (s ! (j + n)) (s ! (j + n - 1)) (s ! (j + n - 2)) = Some q"
    and q: "?N div ?D \<le> unat q" "unat q \<le> ?N div ?D + 1"
    by (rule div_digit_estimate [OF n d0 s less])
  have D0: "0 < ?D" using less by (cases ?D) simp_all
  have lw: "length ?win = n + 1" using s by simp
  obtain tmp l0 where m: "bn_mul_words d q = (tmp, l0)" by force
  note mv = bn_mul_words_value [OF m]
  have lt: "length (tmp @ [l0]) = n + 1" using mv(1) n by simp
  have T: "wval (tmp @ [l0]) = unat q * ?D" using mv n(1) by (simp add: wval_append)
  obtain w b where sub: "bn_sub_words ?win (tmp @ [l0]) = (w, b)" by force
  note sv = bn_sub_words_value [OF sub, unfolded lw lt, OF refl, unfolded T]
  have BP: "2 ^ (64 * (n + 1)) = B * P" using pow64_Suc [of n, where 'a = nat] by (simp add: B_def P_def)
  have wl: "wval w < B * P" using wval_less [of w] sv(1) BP by simp
  have step: "knuth_step d j (s, res) =
     (if b \<noteq> 0 then
        let (w', carry) = bn_add_words (take n (drop j (set_words s j w))) d; s' = set_words (set_words s j w) j w'
        in Some (if carry \<noteq> 0 then s'[j + n := s' ! (j + n) + 1] else s', res[j - 1 := q - 1])
      else Some (set_words s j w, res[j - 1 := q]))"
    by (simp only: knuth_step_def Let_def prod.case n(1) [symmetric] dig option.case m sub)
  have b01: "unat b = 0 \<or> unat b = 1" using sv(2) by linarith
  show ?thesis
  proof (cases "b = 0")
    case True
    then have e: "wval w + unat q * ?D = ?N" using sv(3) by simp
    then have "unat q * ?D \<le> ?N" by linarith
    then have "unat q \<le> ?N div ?D" using D0 by (simp add: less_eq_div_iff_mult_less_eq)
    then have qe: "unat q = ?N div ?D" using q(1) by simp
    then have "wval w = ?N mod ?D" using e by (metis add_right_cancel mod_mult_div_eq mult.commute add.commute)
    then show ?thesis using that [of w q] step True sv(1) qe by simp
  next
    case False
    then have b1: "unat b = 1" using b01 by (metis unat_eq_0)
    have e: "wval w + unat q * ?D = ?N + B * P" using sv(3) b1 BP by simp
    have gt: "?N < unat q * ?D" using e wl by linarith
    then have "\<not> unat q \<le> ?N div ?D" using D0 by (simp add: less_eq_div_iff_mult_less_eq)
    then have qe: "unat q = ?N div ?D + 1" using q(2) by simp
    then have q1: "unat (q - 1) = ?N div ?D" by (metis add_diff_cancel_right' add_eq_0_iff_both_eq_0 unat_eq_0 unat_minus_one zero_neq_one)
    define lo where "lo = take n w"
    have w: "w = lo @ [w ! n]" using take_Suc_conv_app_nth [of n w] sv(1) by (simp add: lo_def)
    have ll: "length lo = n" using sv(1) by (simp add: lo_def)
    have wv: "wval w = wval lo + P * unat (w ! n)" by (subst w) (simp add: wval_append ll P_def)
    have set: "take n (drop j (set_words s j w)) = lo" using sv(1) s by (simp add: set_words_def lo_def)
    obtain lo' c where add: "bn_add_words lo d = (lo', c)" by force
    note av = bn_add_words_value [OF add, unfolded ll, OF n(1), folded P_def]
    have "wval lo' < P" "wval lo < P" "?D < P" using wval_less [of lo'] wval_less [of lo] wval_less [of d] av(1) ll n(1) by (simp_all add: P_def)
    moreover have "unat q * ?D \<le> ?N + ?D" unfolding qe using div_times_less_eq_dividend [of ?N ?D] by simp
    moreover have "unat (w ! n) < B" "0 < B" using unat_less_pow(3) by (simp_all add: B_def)
    ultimately have ab: "wval lo' = ?N - (unat q - 1) * ?D" "unat (w ! n) = B - 1" "unat c = 1"
      using add_back [OF e wl _ gt _ _ wv _ _ av(3)] by blast+
    have r: "wval lo' = ?N mod ?D" using ab(1) qe by (simp add: minus_div_mult_eq_mod)
    have "unat (w ! n + 1) = 0" using ab(2) by (simp add: unat_word_ariths B_def)
    then have top: "w ! n + 1 = 0" by (simp only: unat_eq_0)
    have c: "c \<noteq> 0" using ab(3) by auto
    have "set_words (set_words s j w) j lo' ! (j + n) = w ! n" using sv(1) s av(1) by (simp add: set_words_def nth_append)
    then have "knuth_step d j (s, res) = Some (set_words s j (lo' @ [0]), res[j - 1 := q - 1])"
      using step False c set_words_twice [of j w s lo' 0] sv(1) s av(1) top by (simp add: set add)
    moreover have "length (lo' @ [0]) = n + 1" "wval (lo' @ [0]) = ?N mod ?D" using av(1) r by (simp_all add: wval_append)
    ultimately show ?thesis using that q1 by blast
  qed
qed

section \<open>All digits\<close>

lemma knuth_loop_value:
  assumes n: "n = length d" "0 < n" and d0: "2 ^ 63 \<le> unat (d ! (n - 1))"
    and "k + n < length s" "k \<le> length res" "wval (drop (k + 1) s) < wval d"
  shows "\<exists>s' res'. knuth_loop d k (s, res) = Some (s', res') \<and> length s' = length s \<and> length res' = length res \<and>
    s' ! 0 = s ! 0 \<and> drop k res' = drop k res \<and> wval (drop 1 s') < wval d \<and>
    wval (drop 1 s) = wval (take k res') * wval d + wval (drop 1 s')"
  using assms(4-6)
proof (induction k arbitrary: s res)
  case (Suc k)
  let ?j = "Suc k" and ?D = "wval d"
  define R where "R = wval (drop ?j s)"
  define P :: nat where "P = 2 ^ (64 * (n + 1))"
  have "drop ?j s = s ! ?j # drop (Suc k + 1) s" using Suc.prems(1) by (simp add: Cons_nth_drop_Suc)
  then have "R = unat (s ! ?j) + 2 ^ 64 * wval (drop (Suc k + 1) s)" by (simp add: R_def)
  then have RD: "R < ?D * 2 ^ 64" using Suc.prems(3) unat_less_pow(3) [of "s ! ?j"] by simp
  have "?D * 2 ^ 64 < P" using wval_less [of d] n(1) unfolding P_def by (simp add: distrib_left power_add)
  then have RP: "R < P" using RD by (rule less_trans [rotated])
  then have win: "wval (take (n + 1) (drop ?j s)) = R" 
    unfolding wval_take R_def [symmetric] P_def [symmetric] by (rule mod_less)
  have rest: "wval (drop (n + 1) (drop ?j s)) = 0" using RP unfolding wval_drop [of "n + 1"] R_def [symmetric] P_def [symmetric] by simp
  obtain q w where step: "knuth_step d ?j (s, res) = Some (set_words s ?j w, res[?j - 1 := q])" "length w = n + 1"
      "unat q = R div ?D" "wval w = R mod ?D"
    by (rule knuth_step_value [OF n d0, of ?j s res, unfolded win]) (use Suc.prems(1) RD in simp_all)
  define s1 where "s1 = set_words s ?j w"
  have l1: "length s1 = length s" using Suc.prems(1) step(2) by (simp add: s1_def)
  have lj: "?j \<le> length s" using Suc.prems(1) by simp
  then have "drop ?j s1 = w @ drop (n + 1) (drop ?j s)" by (simp add: s1_def set_words_def step(2) add.commute)
  then have R1: "wval (drop ?j s1) = R mod ?D" using rest step(4) by (simp add: wval_append)
  have D0: "0 < ?D" using Suc.prems(3) by (cases ?D) simp_all
  have "wval (drop (k + 1) s1) < ?D" using R1 D0 by simp
  from Suc.IH [OF _ _ this, of "res[k := q]"] obtain s' res' where
    ih: "knuth_loop d k (s1, res[k := q]) = Some (s', res')" "length s' = length s1" "length res' = length (res[k := q])"
      "s' ! 0 = s1 ! 0" "drop k res' = drop k (res[k := q])" "wval (drop 1 s') < ?D"
      "wval (drop 1 s1) = wval (take k res') * ?D + wval (drop 1 s')"
    using Suc.prems(1,2) l1 by auto
  have k: "k < length res" using Suc.prems(2) by simp
  have "drop k res' = q # drop (Suc k) res" using ih(5) k by (simp add: drop_update_cancel Cons_nth_drop_Suc [symmetric])
  then have "res' ! k # drop (Suc k) res' = q # drop (Suc k) res" using ih(3) k Cons_nth_drop_Suc [of k res'] by simp
  then have res': "drop (Suc k) res' = drop (Suc k) res" "res' ! k = q" by simp_all
  have tk: "wval (take (Suc k) res') = wval (take k res') + 2 ^ (64 * k) * unat q"
    using ih(3) k res'(2) by (simp add: take_Suc_conv_app_nth wval_append)
  have s0: "s1 ! 0 = s ! 0" using lj by (simp add: s1_def set_words_def nth_append)
  have t: "take k (drop 1 s1) = take k (drop 1 s)" using lj by (simp add: s1_def set_words_def take_drop)
  have sp: "wval (drop 1 v) = wval (take k (drop 1 v)) + 2 ^ (64 * k) * wval (drop ?j v)" if "length v = length s" for v
    using wval_split [of k "drop 1 v"] that lj by simp
  have "wval (drop 1 s) = wval (drop 1 s1) + 2 ^ (64 * k) * (R div ?D * ?D)"
    unfolding sp [OF refl] sp [OF l1] t R1 R_def [symmetric] by (simp flip: distrib_left)
  then have "wval (drop 1 s) = wval (take (Suc k) res') * ?D + wval (drop 1 s')"
    unfolding ih(7) tk step(3) by (simp add: distrib_right)
  then show ?case using step(1) ih l1 s0 res'(1) by (simp add: s1_def)
qed simp

section \<open>Division\<close>

text \<open>The divisor is normalised.\<close>

lemma div_normalised:
  assumes "BN_lshift m r d (int (64 - BN_num_bits d mod 64)) = (True, r')" "gives_words m" "bn_ok r" "bn_ok d" "bn_abs d \<noteq> 0"
  shows "bn_abs r' = bn_abs d * 2 ^ (64 - BN_num_bits d mod 64)" "bn_width r' = BN_num_bits d div 64 + 1"
    "2 ^ 63 \<le> unat (bn_words r' ! (bn_width r' - 1))"
proof -
  define b where "b = BN_num_bits d"
  define n where "n = b div 64 + 1"
  let ?s = "64 - b mod 64"
  note f = BN_lshift_exact [OF assms(1-4)]
  have abs: "\<bar>bn_int x\<bar> = int (bn_abs x)" for x by (simp add: bn_int_def)
  have "bn_int r' = bn_int d * 2 ^ ?s" and min: "minimal r'" using f(2) unfolding nat_int b_def by blast+
  then have "int (bn_abs r') = int (bn_abs d) * 2 ^ ?s" by (metis abs abs_mult abs_numeral power_abs)
  then have "int (bn_abs r') = int (bn_abs d * 2 ^ ?s)" by simp
  then show v: "bn_abs r' = bn_abs d * 2 ^ (64 - BN_num_bits d mod 64)" by (simp only: of_nat_eq_iff b_def)
  have b: "0 < b" "2 ^ (b - 1) \<le> bn_abs d" "bn_abs d < 2 ^ b"
    using BN_num_bits_value(1,2) [OF assms(4)] assms(5) by (simp_all add: b_def)
  have e: "b + ?s = 64 * n" unfolding n_def by presburger
  then have "b - 1 + ?s = 64 * (n - 1) + 63" using b(1) by (simp add: n_def)
  then have lo: "2 ^ (64 * (n - 1) + 63) \<le> bn_abs r'" using b(2) unfolding v b_def [symmetric]
    by (metis mult_le_mono1 power_add)
  have hi: "bn_abs r' < 2 ^ (64 * n)" using b(3) unfolding v b_def [symmetric] e [symmetric] power_add by simp
  have l: "length (bn_words r') = bn_width r'" using f(1) by (rule length_bn_words)
  define w where "w = bn_width r'"
  have w0: "0 < w" using lo wval_less [of "bn_words r'"] unfolding w_def bn_abs_def [symmetric] l by (cases "bn_width r'") simp_all
  define t where "t = bn_words r' ! (w - 1)"
  have t: "t \<noteq> 0" using min w0 f(1) by (simp add: t_def w_def minimal_def bn_words_def)
  have "drop (w - 1) (bn_words r') = [t]" using Cons_nth_drop_Suc [of "w - 1" "bn_words r'"] l w0 by (simp add: t_def w_def)
  then have sp: "bn_abs r' = wval (take (w - 1) (bn_words r')) + 2 ^ (64 * (w - 1)) * unat t"
    using wval_split [of "w - 1" "bn_words r'"] l by (simp add: bn_abs_def w_def)
  have tl: "wval (take (w - 1) (bn_words r')) < 2 ^ (64 * (w - 1))" using l by (intro wval_take_less) (simp add: w_def)
  have "2 ^ (64 * (w - 1)) * 1 \<le> 2 ^ (64 * (w - 1)) * unat t" using t by (intro mult_le_mono2) (simp add: unat_gt_0 Suc_leI)
  then have "2 ^ (64 * (w - 1)) < (2 :: nat) ^ (64 * n)" using sp hi by linarith
  then have "w - 1 < n" by (simp add: power_strict_increasing_iff)
  moreover have "(2 :: nat) ^ (64 * (n - 1) + 63) < 2 ^ (64 * w)"
    using lo wval_less [of "bn_words r'"] unfolding l w_def [symmetric] bn_abs_def [symmetric] by (rule le_less_trans)
  then have "64 * (n - 1) + 63 < 64 * w" by (simp add: power_strict_increasing_iff)
  ultimately have wn: "w = n" using w0 by linarith
  then show "bn_width r' = BN_num_bits d div 64 + 1" by (simp add: w_def n_def b_def)
  define p :: nat where "p = 2 ^ (64 * (w - 1))"
  have "p * 2 ^ 63 < p * unat t + p" using lo sp tl unfolding wn [symmetric] power_add p_def [symmetric] by linarith
  then have "p * 2 ^ 63 < p * (unat t + 1)" by (simp only: distrib_left mult_1_right)
  then have "2 ^ 63 < unat t + 1" by (simp only: mult_less_cancel1)
  then show "2 ^ 63 \<le> unat (bn_words r' ! (bn_width r' - 1))" by (simp add: t_def w_def)
qed

lemma minimal_fixed: "minimal bn \<Longrightarrow> bn_set_minimal_width bn = bn"
proof -
  assume m: "minimal bn"
  have "bn_minimal_width bn = bn_width bn"
    using m by (cases "bn_width bn") (simp_all add: bn_minimal_width_def minimal_def)
  then show ?thesis using m by (simp add: bn_set_minimal_width_def minimal_def)
qed

lemma div_pad_facts:
  assumes "ample m" "growable snum" "bn_width snum \<le> 8388605" "n \<le> 8388605" "0 < n"
  obtains r where "div_pad m snum n = (True, r)" "growable r" "bn_width r \<ge> n + 2" "bn_width snum < bn_width r"
    "bn_words r = bn_words snum @ replicate (bn_width r - bn_width snum) 0" "bn_neg r = bn_neg snum"
    "bn_width r \<le> 8388607"
proof -
  define top where "top = (if bn_width snum \<le> n + 1 then n + 2 else bn_width snum + 1)"
  have top: "n + 2 \<le> top" "bn_width snum < top" "top \<le> 8388607" using assms(3,4) by (simp_all add: top_def)
  obtain b where b: "bn_wexpand m snum top = (True, b)" by (rule ok_resultE [OF bn_wexpand_room(1) [OF assms(1,2) top(3)]])
  have g: "growable b" using bn_wexpand_room(2) [OF assms(1,2) top(3)] b by simp
  note x = bn_wexpand_facts [OF b ample_gives [OF assms(1)] growable_ok [OF assms(2)]]
  define r where "r = b\<lparr>bn_d := set_words (bn_d b) (bn_width b) (replicate (top - bn_width b) 0), bn_width := top\<rparr>"
  have l: "length (set_words (bn_d b) (bn_width b) (replicate (top - bn_width b) 0)) = dmax b" using x(3,5) top(2) by simp
  have "growable r" using g l x(5) by (simp add: r_def growable_def bn_ok_def)
  moreover have "take top (set_words (bn_d b) (bn_width b) (replicate (top - bn_width b) 0)) =
      take (bn_width b) (bn_d b) @ replicate (top - bn_width b) 0"
    using x(3,5) top(2) by (intro take_set_words) simp_all
  then have "bn_words r = bn_words snum @ replicate (bn_width r - bn_width snum) 0"
    using x(2,3) by (simp add: r_def bn_words_def)
  moreover have "div_pad m snum n = (True, r)" by (simp only: div_pad_def Let_def top_def [symmetric] b and_also_simps r_def)
  ultimately show ?thesis using that [of r] top x(4) by (simp add: r_def)
qed

lemma div_remainder_facts:
  assumes "ample m" "\<forall>r. rem = Some r \<longrightarrow> growable r" "bn_ok s" "\<not> bn_neg s"
  obtains rem' where "div_remainder m rem s k neg = (True, rem')" "rem' = None \<longleftrightarrow> rem = None"
    "\<And>r. rem' = Some r \<Longrightarrow> bn_ok r \<and> minimal r \<and> bn_int r = (if neg then - int (bn_abs s div 2 ^ k) else int (bn_abs s div 2 ^ k))"
proof (cases rem)
  case None
  then show ?thesis using that [of None] by (simp add: div_remainder_def)
next
  case (Some r0)
  have g: "growable r0" using assms(2) Some by simp
  have "fst (BN_rshift m r0 s (int k))" by (rule BN_rshift_room [OF assms(1) g _ assms(3)]) simp
  then obtain r where r: "BN_rshift m r0 s (int k) = (True, r)" by (rule ok_resultE)
  note f = BN_rshift_exact [OF r ample_gives [OF assms(1)] growable_ok [OF g] assms(3)]
  have "bn_int r = sgn (bn_int s) * (\<bar>bn_int s\<bar> div 2 ^ k)" and m: "minimal r" using f(2) by simp_all
  then have i: "bn_int r = int (bn_abs s div 2 ^ k)" using assms(4) by (simp add: bn_int_def zdiv_int sgn_if)
  have a: "bn_abs r = bn_abs s div 2 ^ k" "bn_abs r \<noteq> 0 \<Longrightarrow> \<not> bn_neg r" using i by (auto simp: bn_int_def split: if_splits)
  define r' where "r' = (if \<not> BN_is_zero r then r\<lparr>bn_neg := neg\<rparr> else r)"
  have z: "BN_is_zero r \<longleftrightarrow> bn_abs r = 0" by (rule BN_is_zero_iff)
  have w: "bn_abs r \<noteq> 0 \<Longrightarrow> bn_width r \<noteq> 0" by (cases "bn_width r") (simp_all add: bn_abs_def bn_words_def)
  have "bn_ok r'" "minimal r'" using f(1) m w z by (auto simp: r'_def minimal_def)
  moreover have "bn_int r' = (if neg then - int (bn_abs s div 2 ^ k) else int (bn_abs s div 2 ^ k))"
    using a z by (auto simp: r'_def bn_int_def bn_set_neg)
  ultimately show ?thesis using that [of "Some r'"] Some by (simp add: div_remainder_def r r'_def)
qed

lemma shifted_division:
  fixes a d p q r :: nat
  assumes "a * p = q * (d * p) + r" "r < d * p" "0 < p"
  shows "q = a div d" "r = a mod d * p"
proof -
  define e where "e = d * p"
  have "(a * p) div e = q" "(a * p) mod e = r" using assms(1,2) unfolding e_def [symmetric] by simp_all
  then show "q = a div d" "r = a mod d * p" using assms(3) by (simp_all add: e_def mult_mod_left)
qed

lemma minimal_width_le: "minimal_width d n \<le> n"
  by (induction n) (simp_all add: le_SucI)

lemma lshift_room_facts:
  assumes "BN_lshift m r a n = (True, r')"
  shows "bn_width r' \<le> bn_width a + nat n div 64 + 1" "bn_static r' = bn_static r"
proof -
  have "bn_static (snd (BN_lshift m r a n)) = bn_static r"
    unfolding BN_lshift_def Let_def by (simp add: static_store)
  then show "bn_static r' = bn_static r" using assms by simp
  have n: "\<not> n < 0" using assms by (auto simp: BN_lshift_def)
  obtain ok b where b: "bn_wexpand m (r\<lparr>bn_neg := bn_neg a\<rparr>) (bn_width a + nat n div 64 + 1) = (ok, b)" by force
  have "ok" using assms n b by (cases ok) (simp_all add: BN_lshift_def Let_def)
  then obtain e where "r' = bn_set_minimal_width (b\<lparr>bn_d := e, bn_width := bn_width a + nat n div 64 + 1\<rparr>)"
    using assms unfolding BN_lshift_def Let_def if_not_P [OF n] b by (auto simp: eq_commute [of r'])
  then show "bn_width r' \<le> bn_width a + nat n div 64 + 1"
    using minimal_width_le [of e "bn_width a + nat n div 64 + 1"]
    by (simp add: bn_set_minimal_width_def bn_minimal_width_def Let_def)
qed

text \<open>The digits of a numerator \<open>a\<close> and a divisor \<open>d\<close> that are both shifted by \<open>k\<close> bits, the numerator by one more word.\<close>

lemma knuth_digits:
  assumes n: "length ds = n" "0 < n" "2 ^ 63 \<le> unat (ds ! (n - 1))" and loop: "loop + n = length ss" "2 \<le> loop" "loop \<le> length res"
    and v: "wval ds = d * 2 ^ k" "wval ss = a * 2 ^ k * 2 ^ 64" "wval ss < 2 ^ (64 * (length ss - 1))"
  obtains s q where "knuth_loop ds (loop - 1) (ss, res) = Some (s, q)" "length s = length ss" "length q = length res"
    "wval (take (loop - 1) q) = a div d" "wval s = a mod d * 2 ^ (k + 64)"
proof -
  have start: "wval (drop (loop - 1 + 1) ss) < wval ds"
  proof -
    have "drop (n - 1) ds = [ds ! (n - 1)]" using Cons_nth_drop_Suc [of "n - 1" ds] n(1,2) by simp
    then have "wval ds = wval (take (n - 1) ds) + 2 ^ (64 * (n - 1)) * unat (ds ! (n - 1))"
      using wval_split [of "n - 1" ds] n(1) by simp
    moreover have "(2 :: nat) ^ (64 * (n - 1)) * 1 \<le> 2 ^ (64 * (n - 1)) * unat (ds ! (n - 1))"
      by (intro mult_le_mono2 order_trans [OF _ n(3)]) simp
    ultimately have low: "2 ^ (64 * (n - 1)) \<le> wval ds" by linarith
    have "64 * (length ss - 1) = 64 * (n - 1) + 64 * loop" using loop(1,2) n(2) by simp
    then have "wval ss < 2 ^ (64 * (n - 1)) * 2 ^ (64 * loop)" using v(3) by (simp only: power_add)
    then have "wval (drop loop ss) < 2 ^ (64 * (n - 1))" unfolding wval_drop by (rule less_mult_imp_div_less)
    then show ?thesis using low loop(2) by simp
  qed
  have lk: "loop - 1 + n < length ss" "loop - 1 \<le> length res" using loop by simp_all
  from knuth_loop_value [OF n(1) [symmetric] n(2,3) lk start] obtain s q where
    run: "knuth_loop ds (loop - 1) (ss, res) = Some (s, q)" "length s = length ss" "length q = length res"
      "s ! 0 = ss ! 0" "wval (drop 1 s) < wval ds"
      "wval (drop 1 ss) = wval (take (loop - 1) q) * wval ds + wval (drop 1 s)" by auto
  have "wval (drop 1 ss) = a * 2 ^ k" unfolding wval_drop v(2) by simp
  then have "a * 2 ^ k = wval (take (loop - 1) q) * (d * 2 ^ k) + wval (drop 1 s)" using run(6) v(1) by simp
  from shifted_division [OF this] run(5) v(1) have
    qv: "wval (take (loop - 1) q) = a div d" and rv: "wval (drop 1 s) = a mod d * 2 ^ k" by simp_all
  have "take 1 ss = [ss ! 0]" using lk by (cases ss) simp_all
  then have "unat (ss ! 0) = wval ss mod 2 ^ (64 * 1)" unfolding wval_take [symmetric] by simp
  then have "unat (ss ! 0) = 0" unfolding v(2) by simp
  then have "s ! 0 = 0" unfolding run(4) by (simp only: unat_eq_0)
  then have "s = 0 # drop 1 s" using run(2) lk by (cases s) simp_all
  then have "wval s = 2 ^ 64 * wval (drop 1 s)" by (metis add_0 unat_0 wval.simps(2))
  then have "wval s = a mod d * 2 ^ (k + 64)" unfolding rv by (simp add: power_add)
  then show ?thesis using that [OF run(1-3) qv] by simp
qed

lemma div_guards:
  assumes "bn_ok a"
  shows "\<not> (bn_minimal_width a > 0 \<and> bn_d a ! (bn_minimal_width a - 1) = 0)"
  using minimal_width_value [of "bn_width a" "bn_d a"] assms by (auto simp: bn_ok_def bn_minimal_width_def)

text \<open>The shifts of the two operands have room, and give a number that is minimal already.\<close>

lemma div_shift:
  assumes "ample m" "growable r" "bn_ok a" "bn_width a \<le> 8388600" "k div 64 \<le> 2"
  obtains b where "BN_lshift m r a (int k) = (True, b)" "bn_set_minimal_width b = b" "growable (b\<lparr>bn_neg := False\<rparr>)"
    "bn_words (b\<lparr>bn_neg := False\<rparr>) = bn_words b" "bn_width b \<le> 8388605" "bn_abs b = bn_abs a * 2 ^ k"
proof -
  have "fst (BN_lshift m r a (int k))" by (rule BN_lshift_room [OF assms(1,2)]) (use assms(3-5) in simp_all)
  then obtain b where b: "BN_lshift m r a (int k) = (True, b)" by (rule ok_resultE)
  note f = BN_lshift_exact [OF b ample_gives [OF assms(1)] growable_ok [OF assms(2)] assms(3)]
  have "\<bar>bn_int y\<bar> = int (bn_abs y)" for y by (simp add: bn_int_def)
  moreover have "\<bar>bn_int b\<bar> = \<bar>bn_int a\<bar> * 2 ^ k" using f(2) unfolding nat_int by (simp add: abs_mult power_abs)
  ultimately have "int (bn_abs b) = int (bn_abs a * 2 ^ k)" by simp
  then have v: "bn_abs b = bn_abs a * 2 ^ k" by (simp only: of_nat_eq_iff)
  show ?thesis using that [OF b _ _ _ _ v] f(1,2) lshift_room_facts [OF b] assms(2,4,5)
    by (simp add: minimal_fixed growable_def bn_words_def)
qed

text \<open>What is left of the numerator, shifted back.\<close>

lemma div_rest:
  assumes "ample m" "\<forall>r. rem = Some r \<longrightarrow> growable r" "bn_ok b" "\<not> bn_neg b" "length s = bn_width b"
    and "wval s = bn_abs a mod bn_abs d * 2 ^ k"
  obtains rem' where
    "div_remainder m rem (bn_set_minimal_width (b\<lparr>bn_d := set_words (bn_d b) 0 s\<rparr>)) k (bn_neg a) = (True, rem')"
    "rem' = None \<longleftrightarrow> rem = None"
    "\<And>r. rem' = Some r \<Longrightarrow> bn_ok r \<and> minimal r \<and> bn_int r = sgn (bn_int a) * (\<bar>bn_int a\<bar> mod \<bar>bn_int d\<bar>)"
proof -
  define c where "c = b\<lparr>bn_d := set_words (bn_d b) 0 s\<rparr>"
  have "c = b\<lparr>bn_d := set_words (bn_d b) 0 s, bn_width := length s\<rparr>" by (simp add: c_def assms(5))
  moreover have "length s \<le> dmax b" using assms(3,5) by (simp add: bn_ok_def)
  ultimately have c: "bn_ok c" "bn_abs c = wval s" "\<not> bn_neg c"
    using bn_stored [OF assms(3), of s] assms(4) by (simp_all add: bn_abs_def)
  note f = bn_set_minimal_width_facts [OF c(1)]
  obtain rem' where rem: "div_remainder m rem (bn_set_minimal_width c) k (bn_neg a) = (True, rem')" "rem' = None \<longleftrightarrow> rem = None"
    and remv: "\<And>r. rem' = Some r \<Longrightarrow> bn_ok r \<and> minimal r \<and> bn_int r =
        (if bn_neg a then - int (bn_abs (bn_set_minimal_width c) div 2 ^ k) else int (bn_abs (bn_set_minimal_width c) div 2 ^ k))"
    by (rule div_remainder_facts [OF assms(1,2) f(1), of k "bn_neg a"]) (use f(5) c(3) in simp_all)
  have v: "bn_abs (bn_set_minimal_width c) div 2 ^ k = bn_abs a mod bn_abs d" unfolding f(3) c(2) assms(6) by simp
  have "bn_int r = sgn (bn_int a) * (\<bar>bn_int a\<bar> mod \<bar>bn_int d\<bar>)" if "rem' = Some r" for r
    using remv [OF that] unfolding v by (auto simp: bn_int_def zmod_int)
  then show ?thesis using that rem remv unfolding c_def by blast
qed

lemma BN_div_total:
  assumes "ample m" "ctx_ample get" "\<forall>q. quot = Some q \<longrightarrow> growable q" "\<forall>r. rem = Some r \<longrightarrow> growable r"
    and ok: "bn_ok a" "bn_ok d" and nz: "bn_abs d \<noteq> 0" and wide: "bn_width a \<le> 8388600" "bn_width d \<le> 8388600"
  shows "\<exists>quot' rem'. BN_div m get quot rem a d = Some (quot', rem') \<and> (quot' = None \<longleftrightarrow> quot = None) \<and> (rem' = None \<longleftrightarrow> rem = None) \<and>
    (\<forall>q. quot' = Some q \<longrightarrow> bn_ok q \<and> minimal q \<and> bn_int q = sgn (bn_int a * bn_int d) * (\<bar>bn_int a\<bar> div \<bar>bn_int d\<bar>)) \<and>
    (\<forall>r. rem' = Some r \<longrightarrow> bn_ok r \<and> minimal r \<and> bn_int r = sgn (bn_int a) * (\<bar>bn_int a\<bar> mod \<bar>bn_int d\<bar>))"
proof -
  note gives = ample_gives [OF assms(1)]
  have c: "\<not> (bn_minimal_width a > 0 \<and> bn_d a ! (bn_minimal_width a - 1) = 0 \<or>
      bn_minimal_width d > 0 \<and> bn_d d ! (bn_minimal_width d - 1) = 0)" "\<not> BN_is_zero d"
    using div_guards [OF ok(1)] div_guards [OF ok(2)] nz by (auto simp: BN_is_zero_iff)
  have some: "\<exists>bn. get i = Some bn \<and> growable bn" for i using assms(2) by (simp add: ctx_ample_def)
  obtain t where t: "get 0 = Some t" "growable t" using some by blast
  obtain n0 where n0: "get 1 = Some n0" "growable n0" using some by blast
  obtain d0 where d0: "get 2 = Some d0" "growable d0" using some by blast
  have "\<exists>q. (if quot = None then get 3 else quot) = Some q \<and> growable q" using some [of 3] assms(3) by (cases quot) simp_all
  then obtain q0 where q0: "(if quot = None then get 3 else quot) = Some q0" "growable q0" by blast
  define k where "k = 64 - BN_num_bits d mod 64"
  have k: "k div 64 \<le> 2" "(k + 64) div 64 \<le> 2" by (simp_all add: k_def)
  from div_shift [OF assms(1) d0(2) ok(2) wide(2) k(1)] obtain d1 where
    d1: "BN_lshift m d0 d (int k) = (True, d1)" "bn_set_minimal_width d1 = d1" and fd: "growable (d1\<lparr>bn_neg := False\<rparr>)"
      "bn_words (d1\<lparr>bn_neg := False\<rparr>) = bn_words d1" "bn_width d1 \<le> 8388605" "bn_abs d1 = bn_abs d * 2 ^ k" .
  from div_shift [OF assms(1) n0(2) ok(1) wide(1) k(2)] obtain n1 where
    n1: "BN_lshift m n0 a (int (k + 64)) = (True, n1)" "bn_set_minimal_width n1 = n1" and fn: "growable (n1\<lparr>bn_neg := False\<rparr>)"
      "bn_words (n1\<lparr>bn_neg := False\<rparr>) = bn_words n1" "bn_width n1 \<le> 8388605" "bn_abs n1 = bn_abs a * 2 ^ (k + 64)" .
  note nd = div_normalised [OF d1(1) [unfolded k_def] gives growable_ok [OF d0(2)] ok(2) nz, folded k_def]
  define D where "D = d1\<lparr>bn_neg := False\<rparr>"
  define N where "N = n1\<lparr>bn_neg := False\<rparr>"
  have D: "bn_ok D" "bn_words D = bn_words d1" "bn_width D = bn_width d1" "bn_width D \<le> 8388605" "0 < bn_width D"
    using growable_ok [OF fd(1)] fd(2,3) nd(2) by (simp_all add: D_def)
  have N: "growable N" "bn_words N = bn_words n1" "bn_width N \<le> 8388605" "\<not> bn_neg N"
    using fn(1-3) by (simp_all add: N_def)
  let ?n = "bn_width D"
  obtain S where S: "div_pad m N ?n = (True, S)" "growable S" "bn_width S \<ge> ?n + 2" "bn_width N < bn_width S"
      "bn_words S = bn_words N @ replicate (bn_width S - bn_width N) 0" "bn_neg S = bn_neg N" "bn_width S \<le> 8388607"
    by (rule div_pad_facts [OF assms(1) N(1,3) D(4,5)])
  define loop where "loop = bn_width S - ?n"
  have loop: "2 \<le> loop" "loop + 1 \<le> 8388607" "loop + ?n = bn_width S" using S(3,7) D(5) by (simp_all add: loop_def)
  have "fst (bn_wexpand m (q0\<lparr>bn_neg := bn_neg a \<noteq> bn_neg d\<rparr>) (loop + 1))"
    by (rule bn_wexpand_room(1) [OF assms(1) _ loop(2)]) (simp add: q0(2))
  then obtain r1 where r1: "bn_wexpand m (q0\<lparr>bn_neg := bn_neg a \<noteq> bn_neg d\<rparr>) (loop + 1) = (True, r1)" by (rule ok_resultE)
  note x = bn_wexpand_facts [OF r1 gives, simplified bn_ok_set_neg, OF growable_ok [OF q0(2)]]
  have "?n + 1 \<le> 8388607" using D(4) by simp
  from bn_wexpand_room(1) [OF assms(1) t(2) this] obtain t1 where t1: "bn_wexpand m t (?n + 1) = (True, t1)" by (rule ok_resultE)
  define R where "R = r1\<lparr>bn_width := loop - 1\<rparr>"
  have R: "\<not> bn_width R = 0" "bn_d R = bn_d r1" "bn_neg R = (bn_neg a \<noteq> bn_neg d)" using loop(1) x(4) by (simp_all add: R_def)
  text \<open>The digits.\<close>
  have Dv: "wval (bn_words D) = bn_abs d * 2 ^ k" using fd(4) D(2) by (simp add: bn_abs_def)
  have Sv: "wval (bn_words S) = bn_abs a * 2 ^ k * 2 ^ 64"
    using fn(4) unfolding S(5) wval_append N(2) bn_abs_def [symmetric] by (simp add: power_add)
  have lD: "length (bn_words D) = ?n" and lS: "length (bn_words S) = bn_width S"
    using D(1) growable_ok [OF S(2)] by (simp_all add: length_bn_words)
  have top63: "2 ^ 63 \<le> unat (bn_words D ! (?n - 1))" using nd(3) D(2,3) by simp
  have "wval (bn_words S) < 2 ^ (64 * bn_width N)"
    using wval_less [of "bn_words N"] length_bn_words [OF growable_ok [OF N(1)]] by (simp add: S(5) wval_append)
  also have "\<dots> \<le> 2 ^ (64 * (length (bn_words S) - 1))" using S(4) lS by (intro power_increasing) simp_all
  finally have small: "wval (bn_words S) < 2 ^ (64 * (length (bn_words S) - 1))" .
  have "loop + ?n = length (bn_words S)" "loop \<le> length (bn_d r1)" using loop lS x(5) by simp_all
  from knuth_digits [OF lD D(5) top63 this(1) loop(1) this(2) Dv Sv small] obtain s q where
    run: "knuth_loop (bn_words D) (loop - 1) (bn_words S, bn_d r1) = Some (s, q)" "length s = bn_width S" "length q = dmax r1"
    and qv: "wval (take (loop - 1) q) = bn_abs a div bn_abs d" and sv: "wval s = bn_abs a mod bn_abs d * 2 ^ (k + 64)"
    unfolding lS .
  text \<open>The results.\<close>
  have S': "bn_ok S" "\<not> bn_neg S" using growable_ok [OF S(2)] S(6) N(4) by simp_all
  from div_rest [OF assms(1,4) S' run(2) sv] obtain rem' where
    rem: "div_remainder m rem (bn_set_minimal_width (S\<lparr>bn_d := set_words (bn_d S) 0 s\<rparr>)) (k + 64) (bn_neg a) = (True, rem')"
      "rem' = None \<longleftrightarrow> rem = None"
    and remv: "\<And>r. rem' = Some r \<Longrightarrow> bn_ok r \<and> minimal r \<and> bn_int r = sgn (bn_int a) * (\<bar>bn_int a\<bar> mod \<bar>bn_int d\<bar>)" by blast
  define Q where "Q = R\<lparr>bn_d := q\<rparr>"
  have Q: "bn_ok Q" "bn_abs Q = bn_abs a div bn_abs d" "bn_neg Q = (bn_neg a \<noteq> bn_neg d)"
    using x(1,5) loop run(3) qv R(3) by (simp_all add: Q_def R_def bn_ok_def bn_abs_def bn_words_def)
  note mq = bn_set_minimal_width_facts [OF Q(1)]
  have tt: "(True \<and> P) = P" for P by simp
  have "BN_div m get quot rem a d = Some (if quot = None then None else Some (bn_set_minimal_width Q), rem')"
    unfolding BN_div_def Let_def if_not_P [OF c(1)] if_not_P [OF c(2)] t(1) n0(1) d0(1) q0(1) k_def [symmetric]
    by (simp only: prod.case option.case d1 D_def [symmetric] n1 N_def [symmetric] S(1) loop_def [symmetric] r1 t1
        R_def [symmetric] if_not_P [OF R(1)] R(2) run(1) rem(1) Q_def [symmetric] if_True if_False tt not_True_eq_False)
  moreover have "bn_int (bn_set_minimal_width Q) = sgn (bn_int a * bn_int d) * (\<bar>bn_int a\<bar> div \<bar>bn_int d\<bar>)"
    unfolding mq(4) using Q(2,3) nz by (auto simp: bn_int_def sgn_mult zdiv_int)
  ultimately show ?thesis using rem(2) remv mq(1,2) by auto
qed

section \<open>The remainder\<close>

lemma BN_mod_total:
  assumes "ample m" "ctx_ample get" "growable r" "bn_ok a" "bn_ok d" "bn_abs d \<noteq> 0" "bn_width a \<le> 8388600" "bn_width d \<le> 8388600"
  obtains r' where "BN_mod m get r a d = Some r'" "bn_ok r'" "minimal r'" "bn_int r' = sgn (bn_int a) * (\<bar>bn_int a\<bar> mod \<bar>bn_int d\<bar>)"
proof -
  from BN_div_total [OF assms(1,2) _ _ assms(4-8), of None "Some r"] assms(3) obtain r' where
    "BN_div m get None (Some r) a d = Some (None, Some r')" "bn_ok r'" "minimal r'"
    "bn_int r' = sgn (bn_int a) * (\<bar>bn_int a\<bar> mod \<bar>bn_int d\<bar>)" by auto
  then show ?thesis by (intro that) (simp_all add: BN_mod_def)
qed

lemma signed_remainder:
  fixes a d r :: int
  assumes "r = sgn a * (\<bar>a\<bar> mod \<bar>d\<bar>)" "d \<noteq> 0"
  shows "0 \<le> r \<Longrightarrow> r = a mod \<bar>d\<bar>" "r < 0 \<Longrightarrow> r + \<bar>d\<bar> = a mod \<bar>d\<bar>"
proof -
  define k where "k = sgn a * (\<bar>a\<bar> div \<bar>d\<bar>)"
  have "\<bar>a\<bar> = \<bar>a\<bar> div \<bar>d\<bar> * \<bar>d\<bar> + \<bar>a\<bar> mod \<bar>d\<bar>" by simp
  then have "sgn a * \<bar>a\<bar> = sgn a * (\<bar>a\<bar> div \<bar>d\<bar> * \<bar>d\<bar> + \<bar>a\<bar> mod \<bar>d\<bar>)" by simp
  then have "sgn a * \<bar>a\<bar> = k * \<bar>d\<bar> + r" by (simp only: k_def assms(1) distrib_left mult.assoc)
  then have a: "a = r + k * \<bar>d\<bar>" by (simp add: sgn_mult_abs)
  have m: "0 \<le> \<bar>a\<bar> mod \<bar>d\<bar>" "\<bar>a\<bar> mod \<bar>d\<bar> < \<bar>d\<bar>" using assms(2) by simp_all
  then have r: "r < \<bar>d\<bar>" "- \<bar>d\<bar> < r" unfolding assms(1) by (auto simp: sgn_if)
  have am: "a mod \<bar>d\<bar> = r mod \<bar>d\<bar>" by (subst a) simp
  show "r = a mod \<bar>d\<bar>" if "0 \<le> r" using that r(1) unfolding am by simp
  show "r + \<bar>d\<bar> = a mod \<bar>d\<bar>" if "r < 0"
  proof -
    have "(r + \<bar>d\<bar>) mod \<bar>d\<bar> = r + \<bar>d\<bar>" using that r(2) by (intro mod_pos_pos_trivial) simp_all
    then show ?thesis unfolding am by simp
  qed
qed

lemma minimal_neg_nonzero:
  assumes "bn_ok bn" "minimal bn" "bn_neg bn"
  shows "bn_int bn < 0"
proof -
  let ?n = "bn_width bn - 1"
  have w: "bn_width bn \<noteq> 0" "bn_d bn ! ?n \<noteq> 0" using assms(2,3) by (auto simp: minimal_def)
  have l: "length (bn_words bn) = bn_width bn" using assms(1) by (rule length_bn_words)
  have "drop ?n (bn_words bn) = [bn_words bn ! ?n]" using Cons_nth_drop_Suc [of ?n "bn_words bn"] w(1) l by simp
  then have "bn_abs bn = wval (take ?n (bn_words bn)) + 2 ^ (64 * ?n) * unat (bn_d bn ! ?n)"
    using wval_split [of ?n "bn_words bn"] w(1) l by (simp add: bn_abs_def bn_words_def)
  moreover have "0 < unat (bn_d bn ! ?n)" using w(2) by (simp add: unat_gt_0)
  ultimately have "0 < bn_abs bn" by simp
  then show ?thesis using assms(3) by (simp add: bn_int_def)
qed

lemma BN_nnmod_exact:
  assumes "BN_nnmod m get r a d = Some r'" "ample m" "ctx_ample get" "growable r" "bn_ok a" "bn_ok d" "bn_abs d \<noteq> 0"
    and "bn_width a \<le> 8388600" "bn_width d \<le> 8388600"
  shows "bn_ok r'" "bn_int r' = bn_int a mod \<bar>bn_int d\<bar>"
proof -
  from BN_mod_total [OF assms(2-9)] obtain r1 where r: "BN_mod m get r a d = Some r1" "bn_ok r1" "minimal r1"
    "bn_int r1 = sgn (bn_int a) * (\<bar>bn_int a\<bar> mod \<bar>bn_int d\<bar>)" by blast
  have "bn_int d \<noteq> 0" using assms(7) by (auto simp: bn_int_def split: if_splits)
  note s = signed_remainder [OF r(4) this]
  have "bn_ok r' \<and> bn_int r' = bn_int a mod \<bar>bn_int d\<bar>"
  proof (cases "bn_neg r1")
    case False
    then have "0 \<le> bn_int r1" by (simp add: bn_int_def)
    then show ?thesis using s(1) False r(1,2) assms(1) by (simp add: BN_nnmod_def)
  next
    case True
    obtain ok t where t: "(if bn_neg d then BN_sub m r1 r1 d else BN_add m r1 r1 d) = (ok, t)" by force
    then have ok: "ok" "r' = t" using assms(1) r(1) True by (auto simp: BN_nnmod_def split: if_splits)
    note f = ample_gives [OF assms(2)] r(2) r(2) assms(6)
    have "bn_ok t \<and> bn_int t = bn_int r1 + \<bar>bn_int d\<bar>"
      using t ok BN_sub_exact [OF _ f, where r' = t] BN_add_exact [OF _ f, where r' = t] by (cases "bn_neg d") (auto simp: bn_int_def)
    moreover have "bn_int r1 < 0" using r(2,3) True by (rule minimal_neg_nonzero)
    ultimately show ?thesis using s(2) ok(2) by simp
  qed
  then show "bn_ok r'" "bn_int r' = bn_int a mod \<bar>bn_int d\<bar>" by blast+
qed

end
