(* ===== verification/Spec2Isabelle.thy ===== *)
theory Spec2Isabelle
  imports Cbb_Cbs Der_Int Set_Of Unicode Oid Base64_Stream Stack Constant_Time Obj_Registry Pb_Safe Pb_Roundtrip Bn_Div
begin

text \<open>
  A verification library for the C code that the app Capital Cycle ships: the parts of
  \<open>BoringSSL-GRPC\<close> and \<open>nanopb\<close> under \<open>src/Capital Cycle/Pods\<close> on which its network and
  storage clients stand. The application itself is Swift and everything in C comes from these
  pods. The library models their data formats and containers: byte strings and DER, base64,
  Unicode, stacks, hash tables, object identifiers and the wire format of protocol buffers; and the
  arithmetic of big numbers under the cryptography.

  The machine is the 64-bit target of the app: \<open>size_t\<close> is a \<open>64 word\<close> where the code computes
  with it and can wrap, and a natural number where it only counts; \<open>int\<close> has 32 bits.

  \<^bold>\<open>Theories, in the order in which they build on each other\<close>

  \<^item> \<open>Prelude\<close>: byte strings as big-endian and little-endian numbers, masks and shifts, the
    result types of readers (\<open>and_then\<close>) and writers (\<open>and_also\<close>).
  \<^item> \<open>Codec\<close>: the locales \<open>codec\<close> and \<open>strict_codec\<close>, the contract between an encoder and its
    reader, with prefix freeness, injectivity and unique decoding of sequences; every format
    below is an interpretation.
  \<^item> \<open>Mem\<close> (\<open>crypto/mem.c\<close>, \<open>crypto/internal.h\<close>): comparison, duplication, C strings, byte order.
  \<^item> \<open>Constant_Time\<close> (\<open>crypto/internal.h\<close>): the branch-free comparisons and selections.
  \<^item> \<open>Cbs\<close>, \<open>Der\<close>, \<open>Der_Int\<close> (\<open>crypto/bytestring/cbs.c\<close>): the reader; a \<open>CBS\<close> is the list of the bytes
    it spans. \<open>Der\<close> has the specification of DER elements and shows that the reader accepts
    exactly those; \<open>Der_Int\<close> does the same for integers.
  \<^item> \<open>Cbb\<close>, \<open>Cbb_Append\<close>, \<open>Cbb_Der\<close>, \<open>Cbb_Cbs\<close> (\<open>crypto/bytestring/cbb.c\<close>): the builder, a shared
    buffer and the chain of open children. \<open>does f d\<close> says that the operation \<open>f\<close> appends \<open>d\<close> to
    whatever is open; a child that is flushed appends its contents with their length in front.
  \<^item> \<open>Comparison\<close>: the contract of comparison functions, with binary search and sorting;
    \<open>Set_Of\<close>: the sorting of a DER \<open>SET OF\<close>; \<open>Oid\<close>: object identifiers to and from text.
  \<^item> \<open>Unicode\<close> (\<open>crypto/bytestring/unicode.c\<close>): the four encodings as codecs.
  \<^item> \<open>Incremental\<close>, \<open>Base64\<close>, \<open>Base64_Stream\<close> (\<open>crypto/base64/base64.c\<close>): block and streaming coders;
    the stream is a refinement of the block function, however its input is cut.
  \<^item> \<open>Stack\<close> (\<open>crypto/stack/stack.c\<close>): the pointer stack with its allocation and its sorted flag.
  \<^item> \<open>Lhash\<close> (\<open>crypto/lhash/lhash.c\<close>): the hash table, for any element with a hash and a comparison
    that keep the contract \<open>hash_key\<close>; \<open>elements\<close> is the multiset it stands for.
  \<^item> \<open>Obj\<close>, \<open>Obj_Registry\<close> (\<open>crypto/obj/obj.c\<close>): the registry of objects, built on the hash table,
    the search in \<open>Comparison\<close>, the identifiers of \<open>Oid\<close> and the builder.
  \<^item> \<open>Pb_Stream\<close>, \<open>Pb_Wire\<close> (\<open>nanopb/pb_decode.c\<close>, \<open>pb_encode.c\<close>): the streams of nanopb with user
    callbacks, and the wire format. \<open>reads f xs x\<close> says that \<open>f\<close> reads exactly \<open>xs\<close> and gives \<open>x\<close> on
    every stream that keeps the contract \<open>pb_source\<close>, \<open>emits f xs\<close> that \<open>f\<close> writes \<open>xs\<close> on every
    stream that keeps \<open>pb_sink\<close>.
  \<^item> \<open>Pb_Field\<close> (\<open>nanopb/pb.h\<close>, \<open>pb_common.c\<close>): descriptors, the memory of a struct, the iterator
    and its search; \<open>iter_at fs dest k\<close> is the iterator on the field \<open>k\<close>.
  \<^item> \<open>Pb_Release\<close>, \<open>Pb_Decode\<close> (\<open>nanopb/pb_decode.c\<close>): messages, driven by their descriptors. The
    state is the stream and the memory, with the allocator as a parameter. Descriptors nest
    finitely and the functions on messages recurse on their \<open>depth\<close>; loops over the input take as
    many turns as there are bytes, loops over the fields as many as there are fields.
  \<^item> \<open>Pb_Layout\<close>, \<open>Pb_Safe\<close>: \<open>message_fits fs n\<close> says that a static message fits a struct of \<open>n\<close> bytes;
    then no input makes the decoder write outside the struct.
  \<^item> \<open>Pb_Nested\<close>, \<open>Pb_Total\<close>: the depths and the turns are enough. A function on messages is its own
    body with itself for the submessages (the locale \<open>nested\<close>), and the loops of the decoder are the
    \<open>while\<close> loops of the code, as each of their turns takes a byte.
  \<^item> \<open>Pb_Encode\<close>, \<open>Pb_Sizing\<close> (\<open>nanopb/pb_encode.c\<close>): the encoder of messages, and that it writes
    exactly what it counts on a sizing stream (\<open>uniform\<close>).
  \<^item> \<open>Pb_Value\<close>, \<open>Pb_Image\<close>: what a struct stands for (\<open>message_value\<close>), and the format of such a value
    (\<open>message_wire\<close>). \<open>plain_message\<close> describes the messages that are covered: static fields of all
    types, required, optional with or without a flag, and repeated, with submessages in them.
  \<^item> \<open>Pb_Encoded\<close>: the encoder writes the format of the value that the struct holds. \<open>Pb_Read_Value\<close>,
    \<open>Pb_Cleared\<close>, \<open>Pb_Decoded\<close>, \<open>Pb_Repeated\<close>, \<open>Pb_Roundtrip\<close>: the decoder sets the defaults, reads the
    format field by field, and the struct then holds the value.

  \<^item> \<open>Bn_Words\<close>, \<open>Bn_Array\<close>, \<open>Bn_Mul\<close>, \<open>Bn_Comba\<close>, \<open>Bn_Karatsuba\<close> (\<open>crypto/fipsmodule/bn/generic.c\<close>, \<open>mul.c\<close>): arrays
    of words, with \<open>wval\<close> the number they stand for. Sums and products with a word are chains of steps with a
    carry; the comba products go by columns; Karatsuba's recursion has its halves, its absolute differences and
    its scratch space as in the code, and is shown to compute the product for the lengths that \<open>bn_mul_impl\<close> calls it
    with, from 8 words on; below 8 it does not clear the words above the product.
  \<^item> \<open>Bn\<close>, \<open>Bn_Add\<close>, \<open>Bn_Shift\<close>, \<open>Bn_Product\<close>, \<open>Bn_Square\<close> (\<open>bn.c\<close>, \<open>cmp.c\<close>, \<open>add.c\<close>, \<open>shift.c\<close>, \<open>mul.c\<close>): the \<open>BIGNUM\<close>
    with its memory, width and sign. \<open>bn_int\<close> is the number, \<open>bn_ok\<close> the invariant of the representation and
    \<open>minimal\<close> that there are no leading zeros; each operation is shown to do on \<open>bn_int\<close> what its name says.
  \<^item> \<open>Bn_Modular\<close>, \<open>Bn_Mod_Ops\<close>, \<open>Bn_Montgomery\<close> (\<open>div.c\<close>, \<open>montgomery.c\<close>, \<open>montgomery_inv.c\<close>): division bit by bit, with
    the invariant \<open>div_state\<close>, arithmetic modulo a number, and Montgomery's reduction, whose contexts keep \<open>mont_ok\<close>
    and \<open>mont_RR_ok\<close>.
  \<^item> \<open>Bn_Room\<close>: with memory the operations on big numbers succeed. The lemmas named \<open>exact\<close> say what a result is,
    those named \<open>room\<close> that there is one.
  \<^item> \<open>Bn_Div\<close> (\<open>div.c\<close>): the division of signed numbers by estimated digits, \<open>BN_div\<close>, with the remainders that are calls
    of it. The loop that corrects a digit is unbounded in the code and a partial function here; it is shown to end.

  \<^bold>\<open>Parameters.\<close> The allocator is a parameter wherever the code asks it: \<open>grants n\<close> says whether \<open>n\<close>
  bytes are granted, \<open>fresh\<close> what new memory holds, and a boolean whether a single allocation
  succeeds. \<open>qsort\<close> is a parameter of which only sortedness and permutation are assumed
  (\<open>qsorted\<close>), the comparison and hash functions of a client are fields of its container, and the
  generated tables of \<open>obj_dat.h\<close> are the parameter \<open>T\<close>, with the order of their indices
  (\<open>tables_ok\<close>). For big numbers \<open>m n\<close> is what the allocator gives for \<open>n\<close> words, if anything (\<open>ample m\<close>
  where it always does), and \<open>get i\<close> what the \<open>i\<close>-th call of \<open>BN_CTX_get\<close> returns. A failed call is \<open>None\<close> or \<open>False\<close> with the state as it leaves it.

  \<^bold>\<open>Bounds.\<close> The base64 streams are exact up to \<open>2 ^ 30\<close> bytes in a call, where their \<open>int\<close> counts
  overflow; DER contents up to \<open>0xfffffffe\<close> bytes, the builder's own bound; an object identifier up
  to \<open>2 ^ 31\<close> bytes; a big number has at most 8388607 words, the limit of \<open>bn_wexpand\<close>, and an operand of a
  product at most 1048575, as the scratch space of Karatsuba's method has eight times as many, and of
  \<open>BN_div\<close> at most 8388600, as the operands are shifted by up to two words. The offset of
  an item in an array of a message is a product of 32 bits, so the round trip of messages is for arrays below 4 GB. A loop that is not structural recurses on its input or has a measure, so
  every function is total.

  \<^bold>\<open>Not modelled.\<close> Freeing memory, the locks (an operation is one step), the error queue and the
  printf family. In nanopb, callback fields are modelled with a null callback and extension fields
  with an empty list, as both run code of the user. Of the big numbers, exponents, inverses, primes, random numbers and the assembler variants, and what a result holds after a
  call that failed. The rest of BoringSSL (curves, X.509 templates, TLS), the generated accessors of gRPC, and the Swift, Objective-C and C++ clients are outside this library.
\<close>

section \<open>Messages\<close>

text \<open>A message with a required number, and one of an array with a fixed count, in the test memories.\<close>

definition number_message :: "pb_field list" where
  "number_message = [Pb_Field 1 (PB_LTYPE_UVARINT OR PB_HTYPE_REQUIRED OR PB_ATYPE_STATIC) 0 0 4 0 Null, PB_LAST_FIELD]"

definition no_malloc :: pb_malloc where
  "no_malloc = \<lparr>pb_realloc = \<lambda>_ _ _. None, pb_free = \<lambda>_ mem. mem\<rparr>"

lemmas pb_constants = pb_ltypes pb_htypes pb_atypes PB_LTYPE_def PB_HTYPE_def PB_ATYPE_def PB_LTYPE_MASK_def
  PB_HTYPE_MASK_def PB_ATYPE_MASK_def PB_SIZE_MAX_def PB_LAST_FIELD_def

text \<open>A message of a required number, an optional string, an array and a submessage.\<close>

definition mixed_message :: "pb_field list" where
  "mixed_message =
     [Pb_Field 1 (PB_LTYPE_UVARINT OR PB_HTYPE_REQUIRED OR PB_ATYPE_STATIC) 0 0 4 0 Null,
      Pb_Field 2 (PB_LTYPE_STRING OR PB_HTYPE_OPTIONAL OR PB_ATYPE_STATIC) 1 (- 1) 4 0 Null,
      Pb_Field 3 (PB_LTYPE_SVARINT OR PB_HTYPE_REPEATED OR PB_ATYPE_STATIC) 4 (- 4) 1 3 Null,
      Pb_Field 4 (PB_LTYPE_SUBMESSAGE OR PB_HTYPE_REQUIRED OR PB_ATYPE_STATIC) 0 0 4 0 (Fields number_message),
      PB_LAST_FIELD]"

text \<open>C1. The round trip of plain messages (static fields, required, optional or repeated, with submessages, and no
  array of 4 GB or more): \<open>pb_encode\<close> writes exactly the format of the value that the struct
  holds, into every buffer that has room for it, and \<open>pb_decode\<close> on these bytes, fewer than \<open>2 ^ 32\<close>,
  succeeds, uses them up, and fills another struct, whatever was in it, so that it holds the same value.\<close>

theorem pb_message_roundtrip:
  assumes "plain_message fs" "0 < src" "src + struct_end fs \<le> length mem" "image_ok fs (peek mem src (struct_end fs))"
    and "v = message_value fs (peek mem src (struct_end fs))" "length (message_wire fs v) < 2 ^ 32"
    and "0 < dest" "dest + struct_end fs \<le> length mem2"
  shows "to_buffer bufsize (pb_encode mem fs src) =
      (if length (message_wire fs v) \<le> unat bufsize then Some (message_wire fs v) else None) \<and>
    (\<exists>st mem'. pb_decode M fs dest (memory_stream (message_wire fs v), mem2) = (True, st, mem') \<and> bytes_left st = 0 \<and>
      message_value fs (peek mem' dest (struct_end fs)) = v)"
proof -
  have fs: "fits_plain fs (struct_end fs)" using assms(1) by (simp add: plain_message_def fits_plain_def)
  have "emits buf_write (\<lambda>b. b) (pb_encode mem fs src) (message_wire fs v)"
    using memory.emits_message [OF fs assms(2-4)] assms(5,6) by simp
  then have "to_buffer bufsize (pb_encode mem fs src) =
      (if length (message_wire fs v) \<le> unat bufsize then Some (message_wire fs v) else None)"
    using assms(6) by (intro emits_to_buffer) simp_all
  moreover have "decodes_all buf_read (\<lambda>b. b) (pb_decode_noinit M fs dest) (message_wire fs v) dest (struct_end fs)
      (clear_image fs) (\<lambda>r. message_value fs r = v)"
    using buffer.decodes_message [OF fs assms(7,4)] assms(5,6) by simp
  then have "decodes_all buf_read (\<lambda>b. b) (pb_decode M fs dest) (message_wire fs v) dest (struct_end fs)
      (\<lambda>_. True) (\<lambda>r. message_value fs r = v)"
    unfolding pb_decode_def by (rule decodes_all_init [OF _ fs assms(7)])
  ultimately show ?thesis
    using assms(8) memory_stream_good [of "message_wire fs v"] unfolding decodes_all_def
    by (fastforce simp: advanced_def memory_stream_def pb_istream_from_buffer_def)
qed

lemma pb_message_roundtrip_witness:
  "message_wire mixed_message (message_value mixed_message
     [150, 0, 0, 0, 1, 0x68, 0x69, 0, 0, 2, 0, 0, 0, 0xFF, 1, 0, 5, 0, 0, 0]) =
     [0x08, 0x96, 0x01, 0x12, 0x02, 0x68, 0x69, 0x1A, 0x02, 0x01, 0x02, 0x22, 0x02, 0x08, 0x05] \<and>
   (\<exists>st mem'. pb_decode no_malloc mixed_message 1
      (memory_stream [0x08, 0x96, 0x01, 0x12, 0x02, 0x68, 0x69, 0x1A, 0x02, 0x01, 0x02, 0x22, 0x02, 0x08, 0x05],
       replicate 21 0xAA) = (True, st, mem') \<and> bytes_left st = 0 \<and>
      message_value mixed_message (peek mem' 1 20) =
      message_value mixed_message [150, 0, 0, 0, 1, 0x68, 0x69, 0, 0, 2, 0, 0, 0, 0xFF, 1, 0, 5, 0, 0, 0])"
proof -
  let ?r = "[150, 0, 0, 0, 1, 0x68, 0x69, 0, 0, 2, 0, 0, 0, 0xFF, 1, 0, 5, 0, 0, 0] :: bytes"
  let ?w = "[0x08, 0x96, 0x01, 0x12, 0x02, 0x68, 0x69, 0x1A, 0x02, 0x01, 0x02, 0x22, 0x02, 0x08, 0x05] :: bytes"
  have n: "struct_end mixed_message = 20" by code_simp
  have r: "peek (0 # ?r) 1 20 = ?r" by code_simp
  have w: "message_wire mixed_message (message_value mixed_message ?r) = ?w" by code_simp
  have "\<exists>st mem'. pb_decode no_malloc mixed_message 1 (memory_stream ?w, replicate 21 0xAA) = (True, st, mem') \<and>
      bytes_left st = 0 \<and> message_value mixed_message (peek mem' 1 (struct_end mixed_message)) = message_value mixed_message ?r"
    unfolding w [symmetric]
  proof (rule conjunct2 [OF pb_message_roundtrip [where mem = "0 # ?r" and src = 1 and bufsize = 64]], unfold n r w)
    show "plain_message mixed_message" by code_simp
    show "image_ok mixed_message ?r" by code_simp
  qed simp_all
  then show ?thesis using w unfolding n by blast
qed

text \<open>C2. Whatever the input is, decoding it into a struct that the descriptor of a static message fits
  writes only to the bytes of the struct, also when it fails.\<close>

theorem pb_decode_stays_inside:
  assumes "message_fits fs sz" "0 < dest" "dest + sz \<le> length mem" "fills (is_callback st)"
    "pb_decode M fs dest (st, mem) = (ok, st', mem')"
  shows "length mem' = length mem \<and> take dest mem' = take dest mem \<and> drop (dest + sz) mem' = drop (dest + sz) mem"
  using decoder_okD [OF pb_decode_ok assms(1,2), of "(st, mem)" M] assms(3-5) by (simp add: kept_def inside_def)

lemma number_message_fits: "message_fits number_message 4"
  by (simp add: number_message_def message_fits_def laid_out_def terminated_def n_places_def n_fields_def field_fits_def
      value_size_def Let_def pb_constants)

lemma pb_decode_stays_inside_witness:
  "\<exists>ok st' mem'. pb_decode no_malloc number_message 1 (memory_stream [0x08, 0x96, 0x01], [1, 2, 3, 4, 5, 6]) = (ok, st', mem') \<and>
    length mem' = 6 \<and> take 1 mem' = [1] \<and> drop 5 mem' = [6]"
proof -
  obtain ok st' mem' where r: "pb_decode no_malloc number_message 1 (memory_stream [0x08, 0x96, 0x01], [1, 2, 3, 4, 5, 6]) =
      (ok, st', mem')" by (metis prod_cases3)
  have "length mem' = 6 \<and> take 1 mem' = [1] \<and> drop 5 mem' = [6]"
    using pb_decode_stays_inside [OF number_message_fits _ _ _ r]
    by (simp add: memory_stream_def pb_istream_from_buffer_def)
  with r show ?thesis by blast
qed

text \<open>C3. The size that \<open>pb_get_encoded_size\<close> computes on the counting stream is the size of what
  \<open>pb_encode\<close> writes: the bytes fit every buffer of at least that size and no other.\<close>

theorem pb_encoded_size_exact:
  assumes "pb_get_encoded_size mem fs src = Some n"
  shows "\<exists>xs. n = of_nat (length xs) \<and> (length xs < 2 ^ 64 \<longrightarrow>
    (\<forall>m. to_buffer m (pb_encode mem fs src) = (if length xs \<le> unat m then Some xs else None)))"
  using pb_get_encoded_size_exact [OF assms] emits_to_buffer by blast

lemma pb_encoded_size_exact_witness:
  "\<exists>xs :: bytes. (3 :: u64) = of_nat (length xs) \<and> (length xs < 2 ^ 64 \<longrightarrow>
    (\<forall>m. to_buffer m (pb_encode [0, 150, 0, 0, 0] number_message 1) = (if length xs \<le> unat m then Some xs else None)))"
proof (rule pb_encoded_size_exact)
  show "pb_get_encoded_size [0, 150, 0, 0, 0] number_message 1 = Some 3"
    by code_simp
qed



text \<open>An array with a fixed count has no count in the struct, its \<open>pSize\<close> is its \<open>pData\<close>; but its default
  is written as for any other array, a zero count of four bytes. Here the array is the two bytes at
  1 and 2, and the bytes at 3 and 4 behind it are overwritten.\<close>

lemma fixed_count_default_overflow:
  "pb_message_set_to_defaults [Pb_Field 1 (PB_LTYPE_BOOL OR PB_HTYPE_REPEATED OR PB_ATYPE_STATIC) 0 0 1 2 Null, PB_LAST_FIELD]
     1 (replicate 6 0xAA) = [0xAA, 0, 0, 0, 0, 0xAA]"
  by code_simp

text \<open>In a message without fields the terminator of the descriptor is taken for a field with tag 0, which the
  wire format does not allow, and its value is decoded into the byte at the start of the struct.\<close>

lemma empty_message_tag_0:
  "case pb_decode_noinit no_malloc [PB_LAST_FIELD] 1 (memory_stream [0x01, 0x05], replicate 6 0xAA) of
     (ok, st, mem) \<Rightarrow> (ok, mem) = (True, [0xAA, 1, 0xAA, 0xAA, 0xAA, 0xAA])"
  by code_simp

section \<open>Big numbers\<close>

text \<open>Memory that is always granted, and the number of some words.\<close>

definition all_words :: bn_malloc where "all_words n = Some (replicate n 0)"

definition all_numbers :: "nat \<Rightarrow> bignum option" where "all_numbers i = Some BN_init"

definition words_number :: "limbs \<Rightarrow> bignum" where
  "words_number ws = \<lparr>bn_d = ws, bn_width = length ws, bn_neg = False, bn_static = False\<rparr>"

lemma all_big_memory: "ample all_words" "ctx_ample all_numbers" "growable BN_init" "bn_ok BN_init"
  by (simp_all add: ample_def all_words_def ctx_ample_def all_numbers_def growable_def bn_ok_def BN_init_def)

lemma words_number_simps:
  "bn_ok (words_number ws) \<longleftrightarrow> length ws \<le> 8388607" "bn_width (words_number ws) = length ws" "\<not> bn_neg (words_number ws)"
  "bn_words (words_number ws) = ws" "bn_abs (words_number ws) = wval ws" "bn_int (words_number ws) = int (wval ws)"
  by (simp_all add: words_number_def bn_ok_def bn_words_def bn_abs_def bn_int_def)

text \<open>C5. Sums and differences of signed numbers are exact: whenever memory is granted, \<open>BN_add\<close> and \<open>BN_sub\<close>
  succeed on all operands below the limit of the width, whatever their signs and their leading zeros are, and
  the results are well formed.\<close>

theorem bn_sums_exact:
  assumes "ample m" "growable r" "bn_ok a" "bn_ok b" "bn_width a < 8388607" "bn_width b < 8388607"
  shows "\<exists>s d. BN_add m r a b = (True, s) \<and> bn_ok s \<and> bn_int s = bn_int a + bn_int b \<and>
    BN_sub m r a b = (True, d) \<and> bn_ok d \<and> bn_int d = bn_int a - bn_int b"
proof -
  obtain s where s: "BN_add m r a b = (True, s)" by (rule ok_resultE [OF BN_add_room [OF assms]])
  obtain d where d: "BN_sub m r a b = (True, d)" by (rule ok_resultE [OF BN_sub_room [OF assms]])
  show ?thesis
    using s d BN_add_exact [OF s ample_gives [OF assms(1)] growable_ok [OF assms(2)] assms(3,4)]
      BN_sub_exact [OF d ample_gives [OF assms(1)] growable_ok [OF assms(2)] assms(3,4)] by blast
qed

lemma bn_sums_exact_witness:
  "\<exists>s d. BN_add all_words BN_init (words_number [5]) (words_number [7]) = (True, s) \<and> bn_int s = 12 \<and>
    BN_sub all_words BN_init (words_number [5]) (words_number [7]) = (True, d) \<and> bn_int d = - 2"
  using bn_sums_exact [of all_words BN_init "words_number [5]" "words_number [7]"]
  by (auto simp: all_big_memory words_number_simps)

text \<open>C6. Products and squares are exact: whichever method \<open>bn_mul_impl\<close> and \<open>bn_sqr_consttime\<close> choose for the
  widths, and also where the result is an operand, \<open>BN_mul\<close> and \<open>BN_sqr\<close> succeed and give the product, in minimal
  form.\<close>

theorem bn_products_exact:
  assumes "ample m" "ctx_ample get" "growable r" "bn_ok a" "bn_ok b" "bn_width a \<le> 1048575" "bn_width b \<le> 1048575"
  shows "\<exists>p q. BN_mul m get shared r a b = (True, p) \<and> bn_ok p \<and> bn_int p = bn_int a * bn_int b \<and> minimal p \<and>
    BN_sqr m get shared r a = (True, q) \<and> bn_ok q \<and> bn_int q = bn_int a * bn_int a \<and> minimal q"
proof -
  obtain p where p: "BN_mul m get shared r a b = (True, p)" by (rule ok_resultE [OF BN_mul_room [OF assms]])
  obtain q where q: "BN_sqr m get shared r a = (True, q)" by (rule ok_resultE [OF BN_sqr_room [OF assms(1-4,6)]])
  note facts = ample_gives [OF assms(1)] ctx_ample_ok [OF assms(2)] growable_ok [OF assms(3)]
  show ?thesis using p q BN_mul_exact [OF p facts assms(4,5)] BN_sqr_exact [OF q facts assms(4)] by blast
qed

lemma bn_products_exact_witness:
  "\<exists>p q. BN_mul all_words all_numbers True BN_init (words_number [5]) (words_number [0, 1]) = (True, p) \<and>
    bn_int p = 5 * 2 ^ 64 \<and> BN_sqr all_words all_numbers True BN_init (words_number [5]) = (True, q) \<and> bn_int q = 25"
  using bn_products_exact [of all_words all_numbers BN_init "words_number [5]" "words_number [0, 1]" True]
  by (auto simp: all_big_memory words_number_simps)

text \<open>C7. Karatsuba's method computes the words of the schoolbook product: for operands of \<open>n\<close> words, \<open>n\<close> a power of two
  and at least 8, and a part of fewer than \<open>n\<close> more, whose lengths differ by one at most, \<open>bn_mul_part_recursive\<close>
  gives what \<open>bn_mul_normal\<close> writes into an array of zeros, whatever the result and the scratch space held before.\<close>

theorem karatsuba_schoolbook:
  assumes "n = 2 ^ k" "8 \<le> n" "tna < n" "tnb < n" "tna \<le> tnb + 1" "tnb \<le> tna + 1"
    and "length a = n + tna" "length b = n + tnb" "length r = 4 * n" "8 * n \<le> length t"
  shows "bn_mul_part_recursive r a b n tna tnb t = bn_mul_normal (replicate (4 * n) 0) a b"
proof (rule wval_inj)
  note v = bn_mul_part_recursive_value [OF assms]
  let ?z = "replicate (4 * n) (0 :: u64)" and ?l = "length a + length b"
  have l: "?l \<le> length ?z" using assms(3,4,7,8) by simp
  note w = bn_mul_normal_value [OF l]
  show "length (bn_mul_part_recursive r a b n tna tnb t) = length (bn_mul_normal ?z a b)" using v w(1) by simp
  have "wval (bn_mul_normal ?z a b) = wval (take ?l (bn_mul_normal ?z a b)) + 2 ^ (64 * ?l) * wval (drop ?l (bn_mul_normal ?z a b))"
    using l w(1) by (intro wval_split) simp
  also have "drop ?l (bn_mul_normal ?z a b) = drop ?l ?z" using l by (rule drop_bn_mul_normal)
  finally show "wval (bn_mul_part_recursive r a b n tna tnb t) = wval (bn_mul_normal ?z a b)"
    using v w(2) by (simp add: wval_replicate_0)
qed

lemma karatsuba_schoolbook_witness:
  "bn_mul_part_recursive (replicate 64 9) (replicate 18 3) (replicate 17 5) 16 2 1 (replicate 128 1) =
    bn_mul_normal (replicate (4 * 16) 0) (replicate 18 3) (replicate 17 5)"
  by (rule karatsuba_schoolbook [of 16 4]) simp_all

text \<open>C8. Long division in constant time is exact: for every numerator and every divisor that is not 0, neither
  negative, and every lower bound on the bits of the divisor, \<open>bn_div_consttime\<close> succeeds with the quotient and
  the remainder, in the widths of the numerator and of the divisor, also where these are the results.\<close>

theorem bn_division_exact:
  assumes "ample m" "ctx_ample get" "growable q" "growable r" "bn_ok n" "bn_ok d" "\<not> (bn_neg n \<or> bn_neg d)" "bn_abs d \<noteq> 0"
    and "min_bits \<le> BN_num_bits d"
  shows "\<exists>q' r'. bn_div_consttime m get (Some q) q_shared (Some r) r_shared n d min_bits = Some (Some q', Some r') \<and>
    bn_int q' = bn_int n div bn_int d \<and> bn_width q' = bn_width n \<and>
    bn_int r' = bn_int n mod bn_int d \<and> bn_width r' = bn_width d"
proof -
  have "bn_div_consttime m get (Some q) q_shared (Some r) r_shared n d min_bits \<noteq> None"
    by (rule bn_div_consttime_room [OF assms(1,2) _ _ assms(5-9)]) (use assms(3,4) in simp_all)
  then obtain q' r' where e: "bn_div_consttime m get (Some q) q_shared (Some r) r_shared n d min_bits = Some (q', r')" by auto
  note f = bn_div_consttime_exact [OF e ample_gives [OF assms(1)] ctx_ample_ok [OF assms(2)] _ _ assms(5,6,9)]
  then show ?thesis using e growable_ok [OF assms(3)] growable_ok [OF assms(4)] by auto
qed

lemma bn_division_exact_witness:
  "\<exists>q' r'. bn_div_consttime all_words all_numbers (Some BN_init) True (Some BN_init) False (words_number [3, 1]) (words_number [7]) 0 =
      Some (Some q', Some r') \<and> bn_int q' = (2 ^ 64 + 3) div 7 \<and> bn_int r' = (2 ^ 64 + 3) mod 7"
  using bn_division_exact [of all_words all_numbers BN_init BN_init "words_number [3, 1]" "words_number [7]" 0 True False]
  by (auto simp: all_big_memory words_number_simps)

text \<open>C9. Division by estimated digits (Knuth's algorithm D) is exact: for all signed operands, with or without leading
  zeros, and a divisor that is not 0, \<open>BN_div\<close> ends and succeeds; whichever of the quotient and the remainder are
  asked for are well formed and minimal, the quotient rounded towards 0 and the remainder with the sign of the
  numerator.\<close>

theorem bn_knuth_division:
  assumes "ample m" "ctx_ample get" "\<forall>q. quot = Some q \<longrightarrow> growable q" "\<forall>r. rem = Some r \<longrightarrow> growable r"
    and "bn_ok a" "bn_ok d" "bn_abs d \<noteq> 0" "bn_width a \<le> 8388600" "bn_width d \<le> 8388600"
  shows "\<exists>quot' rem'. BN_div m get quot rem a d = Some (quot', rem') \<and> (quot' = None \<longleftrightarrow> quot = None) \<and> (rem' = None \<longleftrightarrow> rem = None) \<and>
    (\<forall>q. quot' = Some q \<longrightarrow> bn_ok q \<and> minimal q \<and> bn_int q = sgn (bn_int a * bn_int d) * (\<bar>bn_int a\<bar> div \<bar>bn_int d\<bar>)) \<and>
    (\<forall>r. rem' = Some r \<longrightarrow> bn_ok r \<and> minimal r \<and> bn_int r = sgn (bn_int a) * (\<bar>bn_int a\<bar> mod \<bar>bn_int d\<bar>))"
  by (rule BN_div_total [OF assms])

lemma bn_knuth_division_witness:
  "\<exists>q r. BN_div all_words all_numbers (Some BN_init) (Some BN_init) (words_number [3, 1]) (words_number [7]) = Some (Some q, Some r) \<and>
    bn_int q = (2 ^ 64 + 3) div 7 \<and> bn_int r = (2 ^ 64 + 3) mod 7"
proof -
  have "\<forall>q. Some BN_init = Some q \<longrightarrow> growable q" by (simp add: all_big_memory)
  from bn_knuth_division [OF all_big_memory(1,2) this this, of "words_number [3, 1]" "words_number [7]"]
  show ?thesis by (auto simp: words_number_simps)
qed

text \<open>C10. Numbers modulo a number, in constant time: for operands below the modulus the sum, the difference and the
  shift by any number of bits succeed and are the remainders.\<close>

theorem bn_modular_exact:
  assumes "ample m" "ctx_ample get" "\<forall>i. ctx_ample (gets i)" "growable r" "bn_ok a" "bn_ok b" "bn_ok md"
    and "\<not> bn_neg a" "\<not> bn_neg b" "\<not> bn_neg md" "bn_abs a < bn_abs md" "bn_abs b < bn_abs md"
  shows "\<exists>s d p. bn_mod_add_consttime m get r a b md = (True, s) \<and> bn_int s = (bn_int a + bn_int b) mod bn_int md \<and>
    bn_mod_sub_consttime m get r a b md = (True, d) \<and> bn_int d = (bn_int a - bn_int b) mod bn_int md \<and>
    bn_mod_lshift_consttime m gets r a (int n) md = (True, p) \<and> bn_int p = bn_int a * 2 ^ n mod bn_int md"
proof -
  note facts = ample_gives [OF assms(1)] ctx_ample_ok [OF assms(2)] growable_ok [OF assms(4)]
  have gets: "\<forall>i. ctx_ok (gets i)" using assms(3) ctx_ample_ok by blast
  obtain s where s: "bn_mod_add_consttime m get r a b md = (True, s)"
    unfolding bn_mod_add_consttime_def by (rule ok_resultE [OF mod_op_room(1) [OF assms(1,2,4-7)]])
  obtain d where d: "bn_mod_sub_consttime m get r a b md = (True, d)"
    unfolding bn_mod_sub_consttime_def by (rule ok_resultE [OF mod_op_room(1) [OF assms(1,2,4-7)]])
  obtain p where p: "bn_mod_lshift_consttime m gets r a (int n) md = (True, p)"
    by (rule ok_resultE [OF bn_mod_lshift_consttime_room(1) [OF assms(1,3,4,5,7,11,8)]])
  have i: "bn_int a = int (bn_abs a)" "bn_int b = int (bn_abs b)" "bn_int md = int (bn_abs md)"
    using assms(8-10) by (simp_all add: bn_int_def)
  have "bn_int s = (bn_int a + bn_int b) mod bn_int md"
    using bn_mod_add_consttime_exact [OF s facts assms(5-7,11,12)] unfolding i by (simp add: bn_int_def zmod_int)
  moreover have "bn_int d = (bn_int a - bn_int b) mod bn_int md"
    using bn_mod_sub_consttime_exact [OF d facts assms(5-7,11,12)] unfolding i by simp
  moreover have "bn_int p = bn_int a * 2 ^ n mod bn_int md"
    using bn_mod_lshift_consttime_exact [OF p facts(1) gets facts(3) assms(5,7,11,8)] unfolding i by (simp add: bn_int_def zmod_int)
  ultimately show ?thesis using s d p by blast
qed

lemma bn_modular_exact_witness:
  "\<exists>s d p. bn_mod_add_consttime all_words all_numbers BN_init (words_number [5]) (words_number [6]) (words_number [7]) = (True, s) \<and>
      bn_int s = 4 \<and>
    bn_mod_sub_consttime all_words all_numbers BN_init (words_number [5]) (words_number [6]) (words_number [7]) = (True, d) \<and>
      bn_int d = 6 \<and>
    bn_mod_lshift_consttime all_words (\<lambda>_. all_numbers) BN_init (words_number [5]) (int 3) (words_number [7]) = (True, p) \<and>
      bn_int p = 5"
  using bn_modular_exact [of all_words all_numbers "\<lambda>_. all_numbers" BN_init "words_number [5]" "words_number [6]" "words_number [7]" 3]
  by (auto simp: all_big_memory words_number_simps)

text \<open>C11. Montgomery arithmetic is exact: for every odd modulus \<open>BN_MONT_CTX_new_consttime\<close> makes a context; with it
  two numbers below the modulus go into Montgomery form, are multiplied there and come back as their product modulo
  the modulus, every step succeeding.\<close>

theorem montgomery_product:
  assumes "ample m" "\<forall>i. ctx_ample (gets i)" "ctx_ample get" "ctx_ample get'" "growable r"
    and "bn_ok md" "odd (bn_abs md)" "\<not> bn_neg md" "bn_width md \<le> 1048575"
    and "bn_ok a" "\<not> bn_neg a" "bn_abs a < bn_abs md" "bn_width a \<le> 1048575"
    and "bn_ok b" "\<not> bn_neg b" "bn_abs b < bn_abs md" "bn_width b \<le> 1048575"
  shows "\<exists>mont x y z w. BN_MONT_CTX_new_consttime m gets True md = Some mont \<and>
    BN_to_montgomery m get get' r a mont = (True, x) \<and> BN_to_montgomery m get get' r b mont = (True, y) \<and>
    BN_mod_mul_montgomery m get get' False r x y mont = (True, z) \<and> BN_from_montgomery m get r z mont = (True, w) \<and>
    bn_int w = bn_int a * bn_int b mod bn_int md"
  by (rule montgomery_product_total [OF assms])

lemma montgomery_product_witness:
  "\<exists>mont x y z w. BN_MONT_CTX_new_consttime all_words (\<lambda>_. all_numbers) True (words_number [7]) = Some mont \<and>
    BN_to_montgomery all_words all_numbers all_numbers BN_init (words_number [5]) mont = (True, x) \<and>
    BN_to_montgomery all_words all_numbers all_numbers BN_init (words_number [6]) mont = (True, y) \<and>
    BN_mod_mul_montgomery all_words all_numbers all_numbers False BN_init x y mont = (True, z) \<and>
    BN_from_montgomery all_words all_numbers BN_init z mont = (True, w) \<and> bn_int w = 2"
  using montgomery_product [of all_words "\<lambda>_. all_numbers" all_numbers all_numbers BN_init "words_number [7]" "words_number [5]"
      "words_number [6]"]
  by (simp add: all_big_memory words_number_simps)

text \<open>C12. Shifts of signed numbers: \<open>BN_lshift\<close> multiplies by the power of two and \<open>BN_rshift\<close> divides the absolute
  value by it, so shifting there and back gives the number.\<close>

theorem bn_shift_roundtrip:
  assumes "ample m" "growable r" "bn_ok a" "bn_width a + n div 64 < 8388607"
  shows "\<exists>p q. BN_lshift m r a (int n) = (True, p) \<and> bn_int p = bn_int a * 2 ^ n \<and> minimal p \<and>
    BN_rshift m r p (int n) = (True, q) \<and> bn_int q = bn_int a \<and> minimal q"
proof -
  note facts = ample_gives [OF assms(1)] growable_ok [OF assms(2)]
  have "fst (BN_lshift m r a (int n))" by (rule BN_lshift_room [OF assms(1,2)]) (use assms(4) in simp_all)
  then obtain p where p: "BN_lshift m r a (int n) = (True, p)" by (rule ok_resultE)
  note fp = BN_lshift_exact [OF p facts assms(3)]
  have "fst (BN_rshift m r p (int n))" by (rule BN_rshift_room [OF assms(1,2) _ fp(1)]) simp
  then obtain q where q: "BN_rshift m r p (int n) = (True, q)" by (rule ok_resultE)
  have "bn_int q = sgn (bn_int p) * (\<bar>bn_int p\<bar> div 2 ^ n)" "minimal q" using BN_rshift_exact [OF q facts fp(1)] by simp_all
  then show ?thesis using p q fp by (simp add: abs_mult sgn_mult mult_sgn_abs)
qed

lemma bn_shift_roundtrip_witness:
  "\<exists>p q. BN_lshift all_words BN_init (words_number [5]) (int 130) = (True, p) \<and> bn_int p = 5 * 2 ^ 130 \<and>
    BN_rshift all_words BN_init p (int 130) = (True, q) \<and> bn_int q = 5"
  using bn_shift_roundtrip [of all_words BN_init "words_number [5]" 130] by (auto simp: all_big_memory words_number_simps)

text \<open>C13. The remainder by a power of two is the one that is not negative: \<open>BN_nnmod_pow2\<close> succeeds for every sign of
  its operand, with the complement of the bits where it is negative.\<close>

theorem bn_nnmod_pow2_exact:
  assumes "ample m" "growable r" "bn_ok a" "e \<le> 64 * 1048575"
  shows "\<exists>r'. BN_nnmod_pow2 m r a e = (True, r') \<and> bn_ok r' \<and> bn_int r' = bn_int a mod 2 ^ e"
proof -
  obtain r' where r: "BN_nnmod_pow2 m r a e = (True, r')" by (rule ok_resultE [OF BN_nnmod_pow2_room [OF assms]])
  then show ?thesis using BN_nnmod_pow2_exact [OF r ample_gives [OF assms(1)] growable_ok [OF assms(2)] assms(3)] by blast
qed

lemma minus_5: "bn_ok (words_number [5])" "bn_int (words_number [5]\<lparr>bn_neg := True\<rparr>) = - 5"
  by (simp_all add: words_number_def bn_ok_def bn_int_def bn_abs_def bn_words_def)

lemma bn_nnmod_pow2_exact_witness:
  "\<exists>r'. BN_nnmod_pow2 all_words BN_init (words_number [5]\<lparr>bn_neg := True\<rparr>) 70 = (True, r') \<and> bn_int r' = 2 ^ 70 - 5"
  using bn_nnmod_pow2_exact [of all_words BN_init "words_number [5]\<lparr>bn_neg := True\<rparr>" 70] by (auto simp: all_big_memory minus_5 bn_ok_set_neg)

text \<open>C14. The constant-time shift \<open>bn_rshift_secret_shift\<close> succeeds and shifts by the shift modulo \<open>2 ^ k\<close>, where \<open>k\<close>
  is the number of bits of the length \<open>64 * width\<close> of the number: by the shift itself below \<open>2 ^ k\<close>, while the bits
  from \<open>k\<close> on are ignored.\<close>

theorem secret_shift_exact:
  assumes "ample m" "growable t" "growable r" "bn_ok a" "64 * bn_width a < 2 ^ k" "0 < k \<Longrightarrow> 2 ^ (k - 1) \<le> 64 * bn_width a"
  shows "\<exists>r'. bn_rshift_secret_shift m (Some t) r a n = (True, r') \<and> bn_ok r' \<and> bn_neg r' = bn_neg a \<and>
    bn_abs r' = bn_abs a div 2 ^ (n mod 2 ^ k)"
proof -
  have "bit_length k (64 * bn_width a)" using assms(5,6) by (simp add: bit_length_def)
  moreover obtain r' where r: "bn_rshift_secret_shift m (Some t) r a n = (True, r')"
    by (rule ok_resultE [OF bn_rshift_secret_shift_room [OF assms(1-4)]])
  ultimately show ?thesis
    using bn_rshift_secret_shift_exact [OF r ample_gives [OF assms(1)] growable_ok [OF assms(3)] assms(4)] by simp
qed

lemma secret_shift_exact_witness:
  "\<exists>r'. bn_rshift_secret_shift all_words (Some BN_init) BN_init (words_number [5]) 129 = (True, r') \<and> bn_abs r' = 2"
  using secret_shift_exact [of all_words BN_init BN_init "words_number [5]" 7 129]
  by (auto simp: all_big_memory words_number_simps)

section \<open>Protocol buffers\<close>

text \<open>C15. On any stream that keeps its contract \<open>pb_decode_varint\<close> succeeds exactly when the input
  begins with a varint of at most ten bytes, and gives its value modulo \<open>2 ^ 64\<close>.\<close>

theorem pb_varint_exact:
  assumes "pb_source read content" "good_input read content st"
  shows "(\<exists>st'. pb_decode_varint st = (Some v, st')) \<longleftrightarrow>
    (\<exists>p. is_varint p \<and> length p \<le> 10 \<and> prefix p (input content st) \<and> v = of_nat (varint_val p))"
  by (rule pb_source.pb_decode_varint_iff [OF assms])

lemma pb_varint_exact_witness:
  "\<exists>st'. pb_decode_varint (memory_stream [0xAC, 0x02, 0x07]) = (Some 300, st')"
  using pb_varint_exact [OF buffer.pb_source_axioms memory_stream_good(1), of "[0xAC, 0x02, 0x07]" 300]
  by (elim iffD2) (intro exI [of _ "[0xAC, 0x02]"], simp)

text \<open>C16. What the number writers of \<open>pb_encode.c\<close> put into a buffer of the largest size the
  number needs, the readers of \<open>pb_decode.c\<close> read back, and no byte more.\<close>

theorem pb_numbers_roundtrip:
  assumes "unat wt < 8" "unat tag < 2 ^ 29" "(wt, tag) \<noteq> (0, 0)"
  shows "(\<exists>xs. to_buffer 10 (pb_encode_varint u) = Some xs \<and> (\<forall>r. on_buffer pb_decode_varint (xs @ r) = (Some u, r))) \<and>
    (\<exists>xs. to_buffer 10 (pb_encode_svarint v) = Some xs \<and> (\<forall>r. on_buffer pb_decode_svarint (xs @ r) = (Some v, r))) \<and>
    (\<exists>xs. to_buffer 4 (pb_encode_fixed32 x) = Some xs \<and> (\<forall>r. on_buffer pb_decode_fixed32 (xs @ r) = (Some x, r))) \<and>
    (\<exists>xs. to_buffer 8 (pb_encode_fixed64 y) = Some xs \<and> (\<forall>r. on_buffer pb_decode_fixed64 (xs @ r) = (Some y, r))) \<and>
    (\<exists>xs. to_buffer 5 (pb_encode_tag wt tag) = Some xs \<and>
       (\<forall>r. on_buffer (\<lambda>st. snd (pb_decode_tag st)) (xs @ r) = (Some (wt, tag), r)))"
proof (intro conjI)
  have fits: "to_buffer n f = Some xs" if "emits buf_write (\<lambda>b. b) f xs" "length xs \<le> unat n" for n f xs
    using emits_to_buffer [OF that(1), of n] that(2) unat_less_pow(3) [of n] by simp
  show "\<exists>xs. to_buffer 10 (pb_encode_varint u) = Some xs \<and> (\<forall>r. on_buffer pb_decode_varint (xs @ r) = (Some u, r))"
    using fits [OF memory.emits_varint [of u], of 10] length_varint_64 [of u] varint_codec.dec_enc [of u] by simp
  obtain z :: u64 where "unat z = zigzag (sint v)" using unat_zigzag by blast
  then have "length (varint (zigzag (sint v))) \<le> 10" using length_varint_64 by metis
  then show "\<exists>xs. to_buffer 10 (pb_encode_svarint v) = Some xs \<and> (\<forall>r. on_buffer pb_decode_svarint (xs @ r) = (Some v, r))"
    using fits [OF memory.emits_svarint [of v], of 10] svarint_codec.dec_enc [of v] by simp
  show "\<exists>xs. to_buffer 4 (pb_encode_fixed32 x) = Some xs \<and> (\<forall>r. on_buffer pb_decode_fixed32 (xs @ r) = (Some x, r))"
    using fits [OF memory.emits_fixed32 [of x], of 4] fixed32_codec.dec_enc [of x] by simp
  show "\<exists>xs. to_buffer 8 (pb_encode_fixed64 y) = Some xs \<and> (\<forall>r. on_buffer pb_decode_fixed64 (xs @ r) = (Some y, r))"
    using fits [OF memory.emits_fixed64 [of y], of 8] fixed64_codec.dec_enc [of y] by simp
  have "length (varint (unat tag * 8 + unat wt)) \<le> 5" using assms(1,2) length_varint [of _ 4] by simp
  then show "\<exists>xs. to_buffer 5 (pb_encode_tag wt tag) = Some xs \<and>
      (\<forall>r. on_buffer (\<lambda>st. snd (pb_decode_tag st)) (xs @ r) = (Some (wt, tag), r))"
    using fits [OF memory.emits_tag [OF assms(1), of tag], of 5] tag_codec.dec_enc [of "(wt, tag)"] assms by simp
qed

lemma pb_numbers_roundtrip_witness:
  "\<exists>xs. to_buffer 10 (pb_encode_svarint (- 3)) = Some xs \<and> (\<forall>r. on_buffer pb_decode_svarint (xs @ r) = (Some (- 3), r))"
  using pb_numbers_roundtrip [of 2 1 0 "- 3" 0 0] by simp

text \<open>C17. A field of any wire type, known or not, is read as its tag and skipped exactly: the rest
  of the input is what follows the field.\<close>

theorem pb_skip_exact:
  assumes "pb_source read content" "good_input read content st"
    and "unat wt < 8" "unat tag < 2 ^ 29" "0 < unat tag" "is_field wt bs"
    and "input content st = varint (unat tag * 8 + unat wt) @ bs @ r"
  shows "\<exists>st1 st2. pb_decode_tag st = (False, Some (wt, tag), st1) \<and>
    pb_skip_field wt st1 = (Some (), st2) \<and> good_input read content st2 \<and> input content st2 = r"
proof -
  have "unat tag * 8 + unat wt < 2 ^ 32" using assms(3,4) by simp
  note tag = pb_source.reads_tag [OF assms(1) is_length_varint [OF this] assms(3)]
  have p: "prefix (varint (unat tag * 8 + unat wt)) (input content st)" using assms(7) by simp
  then obtain st1 where 1: "snd (pb_decode_tag st) = (Some (wt, tag), st1)" "good_input read content st1"
      "input content st = varint (unat tag * 8 + unat wt) @ input content st1"
    using readsD [OF tag(1) assms(2)] assms(5) by (metis add_gr_0 mult_pos_pos zero_less_numeral)
  then have "input content st1 = bs @ r" using assms(7) by simp
  then have "prefix bs (input content st1)" by simp
  then obtain st2 where "pb_skip_field wt st1 = (Some (), st2)" "good_input read content st2"
      "input content st1 = bs @ input content st2"
    using readsD [OF pb_source.reads_skip_field [OF assms(1,6)] 1(2)] by metis
  moreover have "pb_decode_tag st = (False, Some (wt, tag), st1)"
    using 1(1) tag(2) [OF _ assms(2) p] assms(5) by (metis add_gr_0 mult_pos_pos prod.collapse zero_less_numeral)
  ultimately show ?thesis using 1(3) assms(7) by auto
qed

lemma pb_skip_exact_witness:
  "\<exists>st1 st2. pb_decode_tag (memory_stream [0x0A, 0x01, 0x41, 0x07]) = (False, Some (2, 1), st1) \<and>
    pb_skip_field 2 st1 = (Some (), st2) \<and> input (\<lambda>b. b) st2 = [0x07]"
proof -
  have "is_field 2 [0x01, 0x41]"
    by (simp add: is_field_def wire_types is_length_def) (rule exI [of _ "[0x01]"], simp)
  then have "\<exists>st1 st2. pb_decode_tag (memory_stream [0x0A, 0x01, 0x41, 0x07]) = (False, Some (2, 1), st1) \<and>
    pb_skip_field 2 st1 = (Some (), st2) \<and> good_input buf_read (\<lambda>b. b) st2 \<and> input (\<lambda>b. b) st2 = [0x07]"
    by (intro pb_skip_exact [OF buffer.pb_source_axioms memory_stream_good(1)]) (simp_all add: varint.simps)
  then show ?thesis by blast
qed

text \<open>A length-delimited value is isolated: its substream holds exactly the value, and once it is
  closed the parent goes on behind the value, whatever part of it the user has read.\<close>

lemma pb_substream_isolated:
  assumes "pb_source read content" "good_input read content st" "length d < 2 ^ 32"
    and "input content st = varint (length d) @ d @ r"
  shows "\<exists>sub st1. pb_make_string_substream st = (Some sub, st1) \<and> input content sub = d \<and>
    (\<forall>xs sub'. advanced content sub xs sub' \<longrightarrow>
      (\<exists>st2. pb_close_string_substream st1 sub' = (Some (), st2) \<and> good_input read content st2 \<and> input content st2 = r))"
proof (rule pb_source.substream [OF assms(1) is_length_varint [OF assms(3)] assms(2)], goal_cases)
  case 1
  then show ?case by (simp add: assms(4))
next
  case (2 sub st1)
  have "good_input read content st2 \<and> input content st2 = r" if "advanced content st (varint (length d) @ d) st2" for st2
    using advanced_good [OF assms(2) that] advanced_input [OF that] assms(4) by simp
  with 2 show ?case by blast
qed

lemma pb_substream_isolated_witness:
  "\<exists>sub st1. pb_make_string_substream (memory_stream [0x02, 0x41, 0x42, 0x43]) = (Some sub, st1) \<and>
    input (\<lambda>b. b) sub = [0x41, 0x42]"
proof -
  have "input (\<lambda>b. b) (memory_stream [0x02, 0x41, 0x42, 0x43]) =
      varint (length [0x41, 0x42 :: byte]) @ [0x41, 0x42] @ [0x43]"
    by (simp add: varint.simps)
  from pb_substream_isolated [OF buffer.pb_source_axioms memory_stream_good(1) _ this]
  show ?thesis by auto
qed

text \<open>\<open>pb_decode_varint32\<close> does not detect every overflow. Here the bits above 32 of the fifth byte are dropped as a
  sixth byte follows, and the position of the digit has wrapped in an input with 37 bytes of padding.\<close>

lemma pb_varint32_overflow_missed:
  "fst (on_buffer pb_decode_varint32 [0x80, 0x80, 0x80, 0x80, 0xF0, 0x00]) = Some 0 \<and>
   varint_val [0x80, 0x80, 0x80, 0x80, 0xF0, 0x00] = 7 * 2 ^ 32 \<and>
   fst (on_buffer pb_decode_varint32 (replicate 37 0x80 @ [0x01])) = Some 8 \<and>
   varint_val (replicate 37 0x80 @ [0x01]) = 2 ^ 259"
proof (intro conjI)
  show "fst (on_buffer pb_decode_varint32 [0x80, 0x80, 0x80, 0x80, 0xF0, 0x00]) = Some 0"
    "fst (on_buffer pb_decode_varint32 (replicate 37 0x80 @ [0x01])) = Some 8"
    by (simp_all add: evaluate_reader)
qed (simp_all add: varint_val_padding)

section \<open>DER\<close>

text \<open>C18. The DER reader accepts exactly the definite-length encodings with a minimal tag
  and a minimal length of at most four bytes: \<open>CBS_get_any_asn1\<close> returns contents \<open>d\<close>, tag
  \<open>t\<close> and the rest \<open>r\<close> if and only if the input is the DER element of \<open>t\<close> and \<open>d\<close>
  followed by \<open>r\<close>.\<close>

theorem any_asn1_exact:
  "CBS_get_any_asn1 c = (Some (d, t), r) \<longleftrightarrow> length d < 2 ^ 32 \<and> c = der_element t d @ r"
  by (rule CBS_get_any_asn1_iff)

text \<open>C19. What a caller writes into an open ASN.1 child becomes, once the child is closed,
  the DER element with these contents, however long its length field has to be: the
  builder opens with one length byte and moves the contents when it needs more.\<close>

theorem asn1_child_appends:
  assumes "does f d" and "length d \<le> 0xfffffffe"
  shows "does (in_child (CBB_add_asn1 t) f) (der_element t d)"
  by (rule does_asn1 [OF assms])

lemma asn1_child_appends_witness:
  "does (in_child (CBB_add_asn1 0x20000010) (in_child (CBB_add_asn1 0x4) (CBB_add_u8 7)))
     (der_element 0x20000010 (der_element 0x4 [7]))"
proof (intro asn1_child_appends does_add_u8)
  show "length (der_element 0x4 [7]) \<le> 0xfffffffe"
    by (simp add: der_element_def der_header_def der_tag_def tag_number_def tag_mask_bits
        mask_eq_exp_minus_1 der_length_def word_le_nat_alt)
qed simp

text \<open>C20. A string written under an 8, 16 or 24-bit length prefix, in a builder of any
  kind with room for it, reads back as itself and leaves what followed it.\<close>

theorem length_prefixed_child_appends:
  assumes "does f d" and "0 < unat n" "unat n \<le> 7" and "length d < 256 ^ unat n"
  shows "does (in_child (cbb_add_length_prefixed n) f) (prefixed (unat n) d) \<and>
    cbs_get_length_prefixed (unat n) (prefixed (unat n) d @ r) = (Some d, r)"
  using assms by (simp add: does_length_prefixed cbs_get_length_prefixed_iff)

lemma length_prefixed_child_appends_witness:
  "does (in_child (cbb_add_length_prefixed 2) (CBB_add_bytes [1, 2, 3])) (prefixed 2 [1, 2, 3])"
  using length_prefixed_child_appends [OF does_add_bytes, of 2 "[1, 2, 3]" "[]"] by simp


lemma empty_builder: "CBB_init 0 (\<lambda>_. True) (\<lambda>_. 0) = Some (the (CBB_init 0 (\<lambda>_. True) (\<lambda>_. 0)))"
  by (simp add: CBB_init_def cbb_init_def)


text \<open>C22. \<open>CBB_add_asn1_int64\<close> and \<open>CBS_get_asn1_int64\<close> agree on every list of signed
  64-bit values, the most negative included.\<close>

theorem asn1_int64_roundtrip:
  assumes "CBB_init n grants fresh = Some c" "\<forall>m. grants m"
    and "length (concat (map (\<lambda>v. der_element CBS_ASN1_INTEGER (int_content v)) vs)) < 2 ^ 64"
  shows "\<exists>c' k out. write_all CBB_add_asn1_int64 vs c = (True, c') \<and> CBB_finish c' = (Some out, k) \<and>
    CBB_flush k = (False, k) \<and> out = concat (map (\<lambda>v. der_element CBS_ASN1_INTEGER (int_content v)) vs) \<and>
    read_n CBS_get_asn1_int64 (length vs) out = (Some vs, [])"
  using rw_int64.init_read [OF _ assms] by simp

lemma asn1_int64_roundtrip_witness:
  "\<exists>c' k out. write_all CBB_add_asn1_int64 [- 1] (the (CBB_init 0 (\<lambda>_. True) (\<lambda>_. 0))) = (True, c') \<and>
    CBB_finish c' = (Some out, k) \<and> read_n CBS_get_asn1_int64 1 out = (Some [- 1], [])"
proof -
  have "length (der_element CBS_ASN1_INTEGER (int_content (- 1))) < 2 ^ 64"
    using length_int_content [of "- 1"]
    by (simp add: der_element_def der_header_def der_tag_def tag_number_def CBS_ASN1_INTEGER_def
      tag_mask_bits mask_eq_exp_minus_1 der_length_def word_le_nat_alt)
  then have "length (concat (map (\<lambda>v. der_element CBS_ASN1_INTEGER (int_content v)) [- 1])) < 2 ^ 64" by simp
  from asn1_int64_roundtrip [OF empty_builder _ this] show ?thesis
    unfolding length_Cons list.size(3) One_nat_def by blast
qed

text \<open>C23. The ASN.1 integer readers are canonical. \<open>CBS_get_asn1_int64\<close> accepts exactly the
  minimal two's complement encoding of its result, so no other bytes decode to it.\<close>

theorem asn1_int64_exact:
  "CBS_get_asn1_int64 c = (Some v, r) \<longleftrightarrow> c = der_element CBS_ASN1_INTEGER (int_content v) @ r"
  by (rule CBS_get_asn1_int64_iff)

text \<open>\<open>CBS_get_asn1_uint64\<close> accepts exactly the minimal non-negative encoding of its
  result, values of 64 bits included.\<close>

lemma asn1_uint64_exact:
  "CBS_get_asn1_uint64 c = (Some v, r) \<longleftrightarrow> c = der_element CBS_ASN1_INTEGER (uint_content (unat v)) @ r"
  by (rule CBS_get_asn1_uint64_iff)

text \<open>C24. The identifier octets: \<open>parse_asn1_tag\<close> reads exactly the minimal encoding of each
  of the \<open>2 ^ 32\<close> tags, the high-tag-number form only for numbers from 31 on.\<close>

theorem asn1_tag_exact: "parse_asn1_tag c = (Some t, r) \<longleftrightarrow> c = der_tag t @ r"
  by (rule parse_asn1_tag_iff)

text \<open>C25. \<open>CBB_flush_asn1_set_of\<close> puts the elements of a SET OF in an order that depends on
  the multiset of elements alone: two builders whose contents are rearrangements of each
  other end with the same contents, whatever the two \<open>qsort\<close>s do with equal elements, and
  these are the original elements in ascending order.\<close>

theorem set_of_canonical:
  assumes "quiet c" "started c" "contents c = concat es" "der_elements es"
    and "quiet k" "started k" "contents k = concat fs" "der_elements fs"
    and "mset es = mset fs" "length es \<le> (2 ^ 64 - 1) div 16"
    and "qsorted compare_set_of_element qs" "qsorted compare_set_of_element qs'"
  shows "\<exists>c' k' out. CBB_flush_asn1_set_of True True qs c = (True, c') \<and>
    CBB_flush_asn1_set_of True True qs' k = (True, k') \<and>
    mset out = mset es \<and> sorted_wrt (\<lambda>a b. compare_set_of_element a b \<le> 0) out \<and>
    appends (c\<lparr>cbb_base := (cbb_base c)\<lparr>b_len := cbb_start c\<rparr>\<rparr>) (concat out) c' \<and>
    appends (k\<lparr>cbb_base := (cbb_base k)\<lparr>b_len := cbb_start k\<rparr>\<rparr>) (concat out) k'"
proof -
  have l: "length fs \<le> (2 ^ 64 - 1) div 16" using assms(9,10) by (metis size_mset)
  have "qs es = qs' fs"
    using assms(9,11,12) by (intro set_of.ordered_unique) (simp_all add: qsorted_def set_of.ordered_def)
  moreover have "mset (qs es) = mset es" "sorted_wrt (\<lambda>a b. compare_set_of_element a b \<le> 0) (qs es)"
    using assms(11) by (simp_all add: qsorted_def)
  ultimately show ?thesis
    using flush_set_of [OF assms(1-4,10,11)] flush_set_of [OF assms(5-8) l assms(12)] by metis
qed

text \<open>A builder over a full fixed buffer with the given contents.\<close>

definition full_builder :: "bytes \<Rightarrow> cbb" where
  "full_builder d =
     \<lparr>cbb_base = \<lparr>b_buf = d, b_len = of_nat (length d), b_cap = of_nat (length d), b_can_resize = False,
        b_error = False, b_grants = \<lambda>_. False, b_fresh = \<lambda>_. 0\<rparr>,
      cbb_offset = 0, cbb_pending_len_len = 0, cbb_below = [], cbb_null = False\<rparr>"

lemma full_builder_ok:
  "length d < 2 ^ 64 \<Longrightarrow> quiet (full_builder d)" "started (full_builder d)"
  "length d < 2 ^ 64 \<Longrightarrow> contents (full_builder d) = d"
  by (simp_all add: full_builder_def quiet_def buffer_ok_def started_def contents_def written_def
      cbb_start_def unat_of_nat)

lemma set_of_canonical_witness:
  "\<exists>c' k' out.
    CBB_flush_asn1_set_of True True (isort compare_set_of_element) (full_builder [4, 1, 9, 4, 1, 8]) = (True, c') \<and>
    CBB_flush_asn1_set_of True True (isort compare_set_of_element) (full_builder [4, 1, 8, 4, 1, 9]) = (True, k') \<and>
    mset out = {#[4, 1, 9 :: byte], [4, 1, 8]#}"
proof -
  have e: "der_element 4 [b] = [4, 1, b]" for b
    by (simp add: der_element_def der_header_def der_tag_def tag_number_def tag_class_def
        tag_mask_bits mask_eq_exp_minus_1 der_length_def word_le_nat_alt)
  have d: "der_elements [[4, 1, 9], [4, 1, 8]]" "der_elements [[4, 1, 8], [4, 1, 9]]"
    unfolding e [symmetric] by (auto simp: der_elements_def intro!: exI)
  have n: "length [4, 1, 9, 4, 1, 8 :: byte] < 2 ^ 64" "length [4, 1, 8, 4, 1, 9 :: byte] < 2 ^ 64" by simp_all
  have "\<exists>c' k' out.
    CBB_flush_asn1_set_of True True (isort compare_set_of_element) (full_builder [4, 1, 9, 4, 1, 8]) = (True, c') \<and>
    CBB_flush_asn1_set_of True True (isort compare_set_of_element) (full_builder [4, 1, 8, 4, 1, 9]) = (True, k') \<and>
    mset out = mset [[4, 1, 9], [4, 1, 8]] \<and> sorted_wrt (\<lambda>a b. compare_set_of_element a b \<le> 0) out \<and>
    appends ((full_builder [4, 1, 9, 4, 1, 8])\<lparr>cbb_base := (cbb_base (full_builder [4, 1, 9, 4, 1, 8]))
      \<lparr>b_len := cbb_start (full_builder [4, 1, 9, 4, 1, 8])\<rparr>\<rparr>) (concat out) c' \<and>
    appends ((full_builder [4, 1, 8, 4, 1, 9])\<lparr>cbb_base := (cbb_base (full_builder [4, 1, 8, 4, 1, 9]))
      \<lparr>b_len := cbb_start (full_builder [4, 1, 8, 4, 1, 9])\<rparr>\<rparr>) (concat out) k'"
    by (rule set_of_canonical [OF full_builder_ok(1) [OF n(1)] full_builder_ok(2) _ d(1)
          full_builder_ok(1) [OF n(2)] full_builder_ok(2) _ d(2)])
      (simp_all add: full_builder_ok(3) set_of.isort_qsorted)
  then show ?thesis by auto
qed

text \<open>No DER element is a proper prefix of another, which is why comparing elements of
  a SET OF bytewise needs no padding.\<close>

lemma der_element_prefix_free:
  assumes "length d < 2 ^ 32" "length e < 2 ^ 32" "der_element t d @ r = der_element u e @ s"
  shows "t = u \<and> d = e \<and> r = s"
  using der_any.prefix_free [of "(d, t)" "(e, u)" r s] assms by simp

lemma der_element_prefix_free_witness:
  "der_element 4 [1] @ [2] = der_element 4 [1] @ [2] \<and> (4 :: u32) = 4 \<and> [1 :: byte] = [1] \<and> [2 :: byte] = [2]"
  using der_element_prefix_free [of "[1]" "[1]" 4 "[2]" 4 "[2]"] by simp

section \<open>Object identifiers\<close>

text \<open>\<open>CBB_add_asn1_oid_from_text\<close> writes the DER contents of the object identifier whose
  dotted decimal text it is given, for all component values of 64 bits.\<close>

lemma oid_from_text:
  assumes "oid_ok vs"
  shows "does (CBB_add_asn1_oid_from_text (oid_text vs)) (oid_contents vs)"
  by (rule does_oid_from_text [OF assms])

lemma oid_from_text_witness:
  "does (CBB_add_asn1_oid_from_text (oid_text [1, 2, 840])) (oid_contents [1, 2, 840])"
  by (rule oid_from_text) (simp add: oid_ok_def)

text \<open>C26. \<open>CBS_asn1_oid_to_text\<close> is its inverse: the contents give the text back, with a
  terminating NUL.\<close>

theorem oid_to_dotted_text:
  assumes "oid_ok vs" "\<forall>n. grants n" "length (oid_text vs) + 1 < 2 ^ 64"
  shows "CBS_asn1_oid_to_text grants fresh (oid_contents vs) = Some (oid_text vs @ [0])"
  by (rule oid_to_text [OF assms])

lemma decimal_digit: "v < 10 \<Longrightarrow> decimal v = [of_nat (48 + v)]"
  by (subst decimal.simps) simp

lemma oid_to_dotted_text_witness:
  "CBS_asn1_oid_to_text (\<lambda>_. True) (\<lambda>_. 0) (oid_contents [1, 3]) = Some ([49, 46, 51] @ [0])"
  using oid_to_dotted_text [of "[1, 3]" "\<lambda>_. True" "\<lambda>_. 0"] by (simp add: oid_ok_def decimal_digit)

section \<open>Strings\<close>

text \<open>C27. \<open>cbs_get_utf8\<close> accepts exactly the shortest UTF-8 form of a valid code point: no
  overlong form, no surrogate, no non-character, nothing beyond U+10FFFF.\<close>

theorem utf8_exact:
  "cbs_get_utf8 c = (Some w, r) \<longleftrightarrow> is_valid_code_point w \<and> c = utf8 (unat w) @ r"
  by (rule cbs_get_utf8_iff)



text \<open>\<open>OPENSSL_strlcpy\<close> writes at most \<open>dst_size\<close> bytes, always ends the copy with a NUL,
  and returns the length of the source, so that a caller sees a truncation.\<close>

lemma strlcpy_exact:
  assumes "0 \<in> set src" "n \<le> length dst" "0 < n"
  shows "OPENSSL_strlcpy dst src n =
    (let k = min (n - 1) (length (c_string src))
     in (take k (c_string src) @ [0] @ drop (k + 1) dst, length (c_string src)))"
  by (rule OPENSSL_strlcpy_spec [OF assms])

lemma strlcpy_exact_witness: "OPENSSL_strlcpy [9, 9, 9] [65, 66, 67, 0] 2 = ([65, 0, 9], 3)"
  using strlcpy_exact [of "[65, 66, 67, 0]" 2 "[9, 9, 9]"] by (simp add: c_string_def Let_def)

section \<open>Constant time\<close>

text \<open>The branch-free comparison: \<open>constant_time_lt_w\<close> is all ones where \<open>a < b\<close> as
  unsigned words and zero elsewhere, and selecting by it is a conditional.\<close>

lemma constant_time_lt_select:
  "constant_time_lt_w a b = (if a < b then - 1 else 0) \<and>
   constant_time_select_w (constant_time_lt_w a b) x y = (if a < b then x else y)"
  by (simp add: constant_time_lt_w_eq constant_time_select_eq)

text \<open>\<open>CRYPTO_memcmp\<close> is zero exactly where the two buffers agree on the compared length.\<close>

lemma memcmp_zero:
  assumes "n \<le> length a" "n \<le> length b"
  shows "CRYPTO_memcmp a b n = 0 \<longleftrightarrow> take n a = take n b"
  by (rule CRYPTO_memcmp_eq_0 [OF assms])

lemma memcmp_zero_witness: "CRYPTO_memcmp [1, 2, 3] [1, 2, 4] 2 = 0"
  using memcmp_zero [of 2 "[1, 2, 3]" "[1, 2, 4]"] by simp

section \<open>Base64\<close>

text \<open>C29. \<open>EVP_DecodeBase64\<close> undoes \<open>EVP_EncodeBlock\<close> on every input, given an output buffer of at least the
  size that \<open>EVP_DecodedLength\<close> asks for, which is at most two bytes more than the input; with a smaller
  buffer it fails.\<close>

theorem base64_roundtrip:
  "\<exists>size. EVP_DecodedLength (snd (EVP_EncodeBlock d)) = Some size \<and> length d \<le> size \<and> size \<le> length d + 2 \<and>
    (\<forall>max_out. EVP_DecodeBase64 max_out (take (snd (EVP_EncodeBlock d)) (fst (EVP_EncodeBlock d))) =
      (if size \<le> max_out then Some d else None))"
proof -
  let ?size = "(length d + 2) div 3 * 3"
  have "EVP_DecodeBase64 n (take (snd (EVP_EncodeBlock d)) (fst (EVP_EncodeBlock d))) = None" if "\<not> ?size \<le> n" for n
    using that by (simp add: EVP_DecodeBase64_def EVP_DecodedLength_def EVP_EncodeBlock_def Let_def length_encode_groups)
  moreover have "EVP_DecodedLength (snd (EVP_EncodeBlock d)) = Some ?size"
    by (simp add: EVP_DecodedLength_def EVP_EncodeBlock_def Let_def length_encode_groups)
  moreover have "length d \<le> ?size" "?size \<le> length d + 2" by presburger+
  ultimately show ?thesis using decode_base64_encode [of d] by (intro exI [of _ ?size]) simp
qed

text \<open>C30. A caller of the streaming encoder may cut its input anywhere: the output depends on
  the concatenation of the pieces alone, and is the text in lines of 64 characters.\<close>

theorem base64_encoder_chunks:
  assumes "length (concat xs) < 2 ^ 30"
  shows "encode_final (foldl encode_step (EVP_EncodeInit, []) xs) = b64_text (concat xs)"
  by (rule encoder.final_foldl [OF assms])

lemma base64_encoder_chunks_witness:
  "encode_final (foldl encode_step (EVP_EncodeInit, []) [[1], [2, 3]]) = b64_text [1, 2, 3]"
  using base64_encoder_chunks [of "[[1], [2, 3]]"] by simp

text \<open>C31. The streaming decoder, fed the encoder's output in any pieces, returns the original
  bytes.\<close>

theorem base64_stream_roundtrip:
  assumes "length m < 2 ^ 27" "concat ys = encode_final (foldl encode_step (EVP_EncodeInit, []) xs)"
    and "concat xs = m" "length (concat ys) < 2 ^ 29"
  shows "decode_final (foldl decode_step (EVP_DecodeInit, []) ys) = Some m"
proof -
  have "concat ys = b64_text m" using assms(1-3) encoder.final_foldl [of xs] by simp
  then show ?thesis using decoder.final_foldl [OF assms(4)] decode_b64_text by simp
qed

lemma base64_stream_roundtrip_witness:
  "decode_final (foldl decode_step (EVP_DecodeInit, [])
     [encode_final (foldl encode_step (EVP_EncodeInit, []) [[1], [2, 3]])]) = Some [1, 2, 3]"
proof (rule base64_stream_roundtrip [where xs = "[[1], [2, 3]]"])
  have "encode_final (foldl encode_step (EVP_EncodeInit, []) [[1], [2, 3]]) = b64_text [1, 2, 3]"
    using encoder.final_foldl [of "[[1], [2, 3]]"] by simp
  then show "length (concat [encode_final (foldl encode_step (EVP_EncodeInit, []) [[1], [2, 3]])]) < 2 ^ 29"
    by (simp add: b64_text_def b64_short length_encode_groups)
qed simp_all

section \<open>The pointer stack\<close>

text \<open>A comparison function and a stack for concrete examples.\<close>

definition by_value :: "unit \<Rightarrow> nat option \<Rightarrow> nat option \<Rightarrow> int" where
  "by_value u x y = int (case x of None \<Rightarrow> 0 | Some n \<Rightarrow> n) - int (case y of None \<Rightarrow> 0 | Some n \<Rightarrow> n)"

definition small_stack :: "nat list \<Rightarrow> (nat, unit) stack" where
  "small_stack xs =
     \<lparr>st_num = length xs, st_data = map Some xs @ [None], st_sorted = False,
      st_num_alloc = of_nat (length xs + 1), st_comp = Some ()\<rparr>"

lemma by_value_comparison: "comparison (by_value u)"
  by unfold_locales (auto simp: by_value_def)

lemma small_stack_ok:
  assumes "length xs + 1 < 2 ^ 64"
  shows "stack_ok (small_stack xs)" "flag_ok f (small_stack xs)" "items (small_stack xs) = map Some xs"
    "st_comp (small_stack xs) = Some ()"
proof -
  have "unat (of_nat (length xs + 1) :: u64) = length xs + 1" using assms by (simp only: unat_of_nat) simp
  then show "stack_ok (small_stack xs)" unfolding stack_ok_def small_stack_def by (simp del: of_nat_Suc of_nat_add)
qed (simp_all add: flag_ok_def items_def small_stack_def)

text \<open>C32. \<open>sk_insert\<close> inserts at the index, or at the end where the index is past it, keeps
  the order of the rest, grows the array when it has to, and returns the new number.\<close>

theorem stack_insert:
  assumes "stack_ok s" "insert_grow grants fresh s \<noteq> None"
  shows "\<exists>s'. sk_insert grants fresh (Some s) p idx = (length (items s) + 1, Some s') \<and>
    stack_ok s' \<and> items s' = take idx (items s) @ p # drop idx (items s)"
  using sk_insert_spec [OF assms, of p idx] by metis

lemma stack_insert_witness:
  "\<exists>s'. sk_insert (\<lambda>_. True) (\<lambda>_. None) (Some (small_stack [7, 5])) (Some 6) 1 = (3, Some s') \<and>
    stack_ok s' \<and> items s' = [Some 7, Some 6, Some 5]"
  using stack_insert [of "small_stack [7, 5]" "\<lambda>_. True" "\<lambda>_. None" "Some 6" 1] small_stack_ok [of "[7, 5]"]
  by (simp add: insert_grow_def small_stack_def numeral_3_eq_3)

text \<open>C33. \<open>sk_find\<close> on a stack whose \<open>sorted\<close> flag is truthful returns the first element that
  compares equal, whether it searches linearly or by bisection.\<close>

theorem stack_find:
  assumes "stack_ok s" "flag_ok call_cmp s" "st_comp s = Some c" "comparison (call_cmp c)" "p \<noteq> None"
  shows "sk_find call_cmp (Some s) p =
    find_from (\<lambda>x. call_cmp c p x = 0) (items s) 0 (length (items s))"
  by (rule sk_find_spec [OF assms])

lemma stack_find_witness: "sk_find by_value (Some (small_stack [7, 5])) (Some 5) = Some 1"
  using stack_find [of "small_stack [7, 5]" by_value "()" "Some 5"] small_stack_ok [of "[7, 5]"]
  by (simp add: by_value_comparison) (simp add: by_value_def)

text \<open>C34. \<open>sk_sort\<close> rearranges the elements into ascending order and sets a truthful flag.\<close>

theorem stack_sort:
  assumes "stack_ok s" "flag_ok call_cmp s" "st_comp s = Some c" "qsorted (call_cmp c) (qs c)"
  shows "\<exists>s'. sk_sort qs (Some s) = Some s' \<and> stack_ok s' \<and> st_sorted s' \<and> flag_ok call_cmp s' \<and>
    mset (items s') = mset (items s) \<and> sorted_wrt (\<lambda>x y. call_cmp c x y \<le> 0) (items s')"
proof (rule sk_sort_spec [where call_cmp = call_cmp and qs = qs, OF assms])
  fix s'
  assume "sk_sort qs (Some s) = Some s'" "stack_ok s'" "st_sorted s'" "flag_ok call_cmp s'"
    "mset (items s') = mset (items s)" "sorted_wrt (\<lambda>x y. call_cmp c x y \<le> 0) (items s')"
  then show ?thesis by blast
qed

lemma stack_sort_witness:
  "\<exists>s'. sk_sort (\<lambda>c. isort (by_value c)) (Some (small_stack [7, 5])) = Some s' \<and> st_sorted s' \<and>
    mset (items s') = {#Some 7, Some 5#}"
  using stack_sort [of "small_stack [7, 5]" by_value "()" "\<lambda>c. isort (by_value c)"]
    small_stack_ok [of "[7, 5]"] comparison.isort_qsorted [OF by_value_comparison]
  by auto

text \<open>C35. \<open>sk_set\<close> stores an element and leaves the \<open>sorted\<close> flag of a sorted stack set whatever it stores: the
  flag stays truthful exactly where the new element fits between its neighbours. Elsewhere the stack is
  searched by bisection although it is not in order.\<close>

theorem stack_set_flag:
  assumes "stack_ok s" "flag_ok call_cmp s" "st_sorted s" "st_comp s = Some c" "comparison (call_cmp c)" "i < st_num s"
  shows "\<exists>s'. sk_set (Some s) i v = (v, Some s') \<and> stack_ok s' \<and> items s' = (items s)[i := v] \<and> st_sorted s' \<and>
    (flag_ok call_cmp s' \<longleftrightarrow> (0 < i \<longrightarrow> call_cmp c (items s ! (i - 1)) v \<le> 0) \<and>
       (i + 1 < length (items s) \<longrightarrow> call_cmp c v (items s ! (i + 1)) \<le> 0))"
proof (rule flag_set [where v = v, OF assms], goal_cases)
  case (1 s')
  then show ?case by blast
qed

lemma sorted_stack_ok:
  "stack_ok ((small_stack [1, 2, 3])\<lparr>st_sorted := True\<rparr>)" "flag_ok by_value ((small_stack [1, 2, 3])\<lparr>st_sorted := True\<rparr>)"
  by (simp_all add: stack_ok_def small_stack_def flag_ok_def items_def by_value_def)

lemma stack_set_flag_witness:
  "\<exists>s'. sk_set (Some ((small_stack [1, 2, 3])\<lparr>st_sorted := True\<rparr>)) 0 (Some 9) = (Some 9, Some s') \<and> st_sorted s' \<and>
    \<not> flag_ok by_value s'"
proof -
  let ?s = "(small_stack [1, 2, 3])\<lparr>st_sorted := True\<rparr>"
  have s: "st_sorted ?s" "st_comp ?s = Some ()" "0 < st_num ?s" by (simp_all add: small_stack_def)
  have "items ?s ! (0 + 1) = Some 2" "0 + 1 < length (items ?s)" by (simp_all add: small_stack_def items_def)
  moreover have "\<not> by_value () (Some 9) (Some 2) \<le> 0" by (simp add: by_value_def)
  ultimately show ?thesis
    using stack_set_flag [OF sorted_stack_ok s(1,2) by_value_comparison s(3), of "Some 9"] by metis
qed

text \<open>An element that is in such a stack is then reported absent.\<close>

lemma stack_set_stale_flag:
  "\<exists>s s'. sk_sort (\<lambda>c. isort (by_value c)) (Some (small_stack [1, 2, 3])) = Some s \<and> flag_ok by_value s \<and>
    sk_set (Some s) 0 (Some 9) = (Some 9, Some s') \<and> st_sorted s' \<and> \<not> flag_ok by_value s' \<and>
    Some 2 \<in> set (items s') \<and> sk_find by_value (Some s') (Some 2) = None"
  by (simp add: sk_sort_def small_stack_def isort_def by_value_def flag_ok_def items_def sk_set_def
      sk_find_def sk_is_sorted_def bsearch_first.simps numeral_3_eq_3 numeral_2_eq_2)

text \<open>\<open>sk_deep_copy\<close> copies every element or frees every copy it made: where all copies
  succeed the result holds them in order, otherwise the calls of the free function are
  exactly the copies made so far.\<close>

lemma stack_deep_copy:
  fixes copy :: "'a \<Rightarrow> 'a option"
  assumes "stack_ok s"
  defines "good \<equiv> takeWhile (\<lambda>x. x = None \<or> Option.bind x copy \<noteq> None) (items s)"
  shows "if good = items s
    then \<exists>r. sk_deep_copy True True fresh copy (Some s) = (Some r, []) \<and> stack_ok r \<and>
           items r = map (\<lambda>x. Option.bind x copy) (items s)
    else sk_deep_copy True True fresh copy (Some s) =
           (None, the_list (map (\<lambda>x. Option.bind x copy) good))"
  unfolding good_def
proof (rule sk_deep_copy_spec [OF assms(1), of copy fresh], goal_cases)
  case 1
  then show ?case by simp
next
  case 2
  then show ?case by (simp only: if_False)
qed

lemma stack_deep_copy_witness:
  "sk_deep_copy True True (\<lambda>_. None) (\<lambda>n. if n = 5 then None else Some (n + 1)) (Some (small_stack [7, 5])) =
     (None, [8])"
  using stack_deep_copy [of "small_stack [7, 5]" "\<lambda>n. if n = 5 then None else Some (n + 1)" "\<lambda>_. None"]
    small_stack_ok [of "[7, 5]"]
  by (simp add: the_list_def)

section \<open>The hash table\<close>

text \<open>C36. \<open>OPENSSL_lh_insert\<close> returns the element it replaces, and afterwards the table
  retrieves the new element for every equal key and what it did before for all others,
  through any growth of the array of buckets and whether or not its allocation succeeds.\<close>

theorem lhash_insert:
  assumes "hash_key cmp hash" "hash_key.table cmp hash lh"
    and "OPENSSL_lh_insert malloc_ok grants lh x = (True, old, lh')"
  shows "old = OPENSSL_lh_retrieve lh x \<and> hash_key.table cmp hash lh' \<and>
    OPENSSL_lh_retrieve lh' z = (if cmp x z = 0 then Some x else OPENSSL_lh_retrieve lh z)"
  using hash_key.insert_spec(2,3) [OF assms(1,2), of malloc_ok grants x]
    hash_key.retrieve_insert [OF assms(1,2), of malloc_ok grants x z] assms(3) by simp

definition nid_table :: "asn1_object lhash" where
  "nid_table = the (OPENSSL_lh_new True True hash_nid cmp_nid)"

lemma nid_table_ok: "hash_key.table cmp_nid hash_nid nid_table" "OPENSSL_lh_retrieve nid_table x = None"
  using by_nid.new_added by (metis nid_table_def option.sel)+

lemma lhash_insert_witness:
  "\<exists>lh'. OPENSSL_lh_insert True (\<lambda>_. False) nid_table blank = (True, None, lh') \<and>
    OPENSSL_lh_retrieve lh' (blank\<lparr>ao_flags := 1\<rparr>) = Some blank"
proof -
  obtain lh' old where i: "OPENSSL_lh_insert True (\<lambda>_. False) nid_table blank = (True, old, lh')"
    using by_nid.insert_spec(1) [OF nid_table_ok(1), of True "\<lambda>_. False" blank] by (metis prod.collapse)
  then show ?thesis
    using lhash_insert [OF by_nid.hash_key_axioms nid_table_ok(1) i, of "blank\<lparr>ao_flags := 1\<rparr>"]
    by (simp add: nid_table_ok(2) cmp_nid_eq_0)
qed

text \<open>C37. \<open>OPENSSL_lh_delete\<close> returns the element it removes; afterwards no equal key is
  retrieved and all others are as before.\<close>

theorem lhash_delete:
  assumes "hash_key cmp hash" "hash_key.table cmp hash lh"
  shows "fst (OPENSSL_lh_delete grants lh x) = OPENSSL_lh_retrieve lh x \<and>
    hash_key.table cmp hash (snd (OPENSSL_lh_delete grants lh x)) \<and>
    OPENSSL_lh_retrieve (snd (OPENSSL_lh_delete grants lh x)) z =
      (if cmp x z = 0 then None else OPENSSL_lh_retrieve lh z)"
  using hash_key.delete_spec(1,2) [OF assms] hash_key.retrieve_delete [OF assms] by simp

lemma lhash_delete_witness: "fst (OPENSSL_lh_delete (\<lambda>_. True) nid_table blank) = None"
  using lhash_delete [OF by_nid.hash_key_axioms nid_table_ok(1)] nid_table_ok(2) by simp

text \<open>C38. The table invariant is inductive: insertion, deletion and resizing keep the items in the bucket of
  their hash, one element per key and the count exact; the count is the number of elements,
  and resizing changes no element.\<close>

theorem lhash_invariant:
  assumes "hash_key cmp hash" "hash_key.table cmp hash lh"
  shows "hash_key.table cmp hash (snd (snd (OPENSSL_lh_insert malloc_ok grants lh x))) \<and>
    hash_key.table cmp hash (snd (OPENSSL_lh_delete grants lh x)) \<and>
    hash_key.table cmp hash (lh_maybe_resize grants lh) \<and>
    elements (lh_maybe_resize grants lh) = elements lh \<and>
    OPENSSL_lh_num_items lh = size (elements lh)"
proof (intro conjI)
  have lh: "lh_ok lh" "lh_comp lh = cmp" "lh_hash lh = hash"
    using assms(2) by (simp_all add: hash_key.table_def [OF assms(1)])
  show "hash_key.table cmp hash (lh_maybe_resize grants lh)"
    unfolding hash_key.table_def [OF assms(1)] using resize_spec [OF lh(1), of grants] lh(2,3) by simp
  show "elements (lh_maybe_resize grants lh) = elements lh" using resize_spec [OF lh(1)] by simp
  show "OPENSSL_lh_num_items lh = size (elements lh)" using lh(1) by (simp add: OPENSSL_lh_num_items_def lh_ok_def)
qed (rule hash_key.insert_spec(3) [OF assms], rule hash_key.delete_spec(2) [OF assms])

lemma lhash_invariant_witness: "OPENSSL_lh_num_items nid_table = size (elements nid_table)"
  using lhash_invariant [OF by_nid.hash_key_axioms nid_table_ok(1)] by simp

section \<open>The registry of objects\<close>

text \<open>C39. \<open>OBJ_create\<close> registers an object under the next nid, and advances it. Afterwards its nid gives the
  object, its names and its encoding give the nid, and every other lookup, by nid, by an encoding shorter than
  \<open>2 ^ 31\<close> bytes or by name, is unchanged.\<close>

theorem object_create_found:
  assumes "registry_ok st" "length (kObjects T) \<le> unat (next_nid st)"
    and "can_allocate al" "\<forall>i. m i"
    and "oid_ok vs" "c_string oid = oid_text vs" "length (oid_contents vs) < 2 ^ 31"
  shows "\<exists>st' ob. OBJ_create al m oid sn ln st = Some (next_nid st, st') \<and> registry_ok st' \<and> next_nid st' = next_nid st + 1 \<and>
    obj_bytes ob = oid_contents vs \<and>
    (\<forall>k. OBJ_nid2obj T st' k = (if k = next_nid st then Some ob else OBJ_nid2obj T st k)) \<and>
    (\<forall>d. length d < 2 ^ 31 \<longrightarrow> OBJ_cbs2nid T st' d = (if d = oid_contents vs then next_nid st else OBJ_cbs2nid T st d)) \<and>
    (\<forall>s. OBJ_sn2nid T st' s = (if map_option c_string sn = Some (c_string s) then next_nid st else OBJ_sn2nid T st s)) \<and>
    (\<forall>s. OBJ_ln2nid T st' s = (if map_option c_string ln = Some (c_string s) then next_nid st else OBJ_ln2nid T st s))"
proof (rule OBJ_create_spec [OF assms, of sn ln], goal_cases)
  case (1 st')
  let ?ob = "registered (new_object (next_nid st) (oid_contents vs) sn ln)"
  from 1 show ?case by (intro exI [of _ st'] exI [of _ ?ob]) simp
qed

definition no_objects :: obj_tables where
  "no_objects = \<lparr>kObjects = [blank], kNIDsInShortNameOrder = [], kNIDsInLongNameOrder = [], kNIDsInOIDOrder = []\<rparr>"

definition fresh_registry :: obj_state where
  "fresh_registry = \<lparr>added_by_data = None, added_by_nid = None, added_by_short_name = None,
     added_by_long_name = None, next_nid = 963\<rparr>"

definition all_memory :: alloc where
  "all_memory = \<lparr>al_grants = \<lambda>_. True, al_fresh = \<lambda>_. 0, al_object = \<lambda>_. True\<rparr>"

lemma fresh_ok: "registry_ok fresh_registry" "can_allocate all_memory"
  by (simp_all add: registry_ok_def fresh_registry_def can_allocate_def all_memory_def)

lemma oid_1_3: "oid_ok [1, 3]" "oid_text [1, 3] = [49, 46, 51]" "length (oid_contents [1, 3]) = 1"
  by (simp_all add: oid_ok_def decimal_digit oid_contents_def base128_def)

lemma object_create_found_witness:
  "\<exists>st'. OBJ_create all_memory (\<lambda>_. True) [49, 46, 51, 0] (Some [65, 0]) None fresh_registry = Some (963, st') \<and>
    OBJ_sn2nid no_objects st' [65, 0] = 963"
proof -
  have c: "c_string [49, 46, 51, 0] = oid_text [1, 3]"
    unfolding oid_1_3(2) by (simp add: c_string_def)
  show ?thesis
    using object_create_found [OF fresh_ok(1) _ fresh_ok(2) _ oid_1_3(1) c, of no_objects "\<lambda>_. True" "Some [65, 0]" None] oid_1_3(3)
    by (auto simp: no_objects_def fresh_registry_def)
qed

text \<open>With the index in strict order, as the generator writes it, the binary search of
  \<open>OBJ_sn2nid\<close> and \<open>OBJ_ln2nid\<close> finds every built-in name that no added object hides.\<close>

lemma builtin_names_found:
  assumes "tables_ok T"
  shows "i \<in> set (kNIDsInShortNameOrder T) \<Longrightarrow> c_string name = c_string (the_bytes (ao_sn (kObjects T ! i))) \<Longrightarrow>
      retrieve_added (added_by_short_name st) (blank\<lparr>ao_sn := Some name\<rparr>) = None \<Longrightarrow>
      OBJ_sn2nid T st name = ao_nid (kObjects T ! i)"
  by (rule static_names(1) [OF assms])

lemma builtin_names_found_witness:
  "OBJ_sn2nid \<lparr>kObjects = [blank, blank\<lparr>ao_sn := Some [66, 0], ao_nid := 1\<rparr>, blank\<lparr>ao_sn := Some [65, 0], ao_nid := 2\<rparr>],
     kNIDsInShortNameOrder = [2, 1], kNIDsInLongNameOrder = [], kNIDsInOIDOrder = []\<rparr> fresh_registry [66, 0] = 1"
proof -
  define T where "T = \<lparr>kObjects = [blank, blank\<lparr>ao_sn := Some [66, 0], ao_nid := 1\<rparr>, blank\<lparr>ao_sn := Some [65, 0], ao_nid := 2\<rparr>],
     kNIDsInShortNameOrder = [2, 1 :: nat], kNIDsInLongNameOrder = [], kNIDsInOIDOrder = []\<rparr>"
  have "tables_ok T"
    by (auto simp: tables_ok_def T_def blank_def the_bytes_def strcmp_def c_string_def less_Suc_eq)
  then have "OBJ_sn2nid T fresh_registry [66, 0] = ao_nid (kObjects T ! 1)"
    by (rule builtin_names_found) (simp_all add: T_def blank_def the_bytes_def fresh_registry_def retrieve_added_def)
  then show ?thesis by (simp add: T_def blank_def)
qed

text \<open>C40. Dotted text survives the way through an object: \<open>OBJ_txt2obj\<close> parses it into an object
  and \<open>OBJ_obj2txt\<close> prints the same text, with its NUL and its length, into a buffer that fits.\<close>

theorem object_text_roundtrip:
  assumes "oid_ok vs" "can_allocate al" "length (oid_contents vs) < 2 ^ 31"
    and "length (oid_text vs) < nat n" "nat n \<le> length out" "nat n < 2 ^ 31"
  shows "\<exists>obj. OBJ_txt2obj T al (oid_text vs @ [0]) True st = (Some obj, st) \<and>
    OBJ_obj2txt T al st out n (Some obj) True =
      (oid_text vs @ [0] @ drop (length (oid_text vs) + 1) out, int (length (oid_text vs)))"
  by (rule txt_obj_txt [OF assms, of T st]) blast

lemma object_text_roundtrip_witness:
  "\<exists>obj. OBJ_txt2obj no_objects all_memory [49, 46, 51, 0] True fresh_registry = (Some obj, fresh_registry) \<and>
    OBJ_obj2txt no_objects all_memory fresh_registry [9, 9, 9, 9, 9] 5 (Some obj) True = ([49, 46, 51, 0, 9], 3)"
  using object_text_roundtrip [OF oid_1_3(1) fresh_ok(2), of 5 "[9, 9, 9, 9, 9]" no_objects fresh_registry]
  unfolding oid_1_3(2,3) by simp

end
